(* ===== verification/Prelude.thy ===== *)
theory Prelude
  imports Main "HOL-Library.AList" "HOL-Library.Char_ord" "HOL-Library.List_Lexorder"
    "HOL-Library.Multiset"
begin

section \<open>Shared vocabulary of the development\<close>

text \<open>
  What every component of the model uses:
  \<^item> the error codes of the packages (the string unions \<^verbatim>\<open>LedgerErrorCode\<close>,
    \<^verbatim>\<open>BudgetErrorCode\<close>, ... of the sources) and one type \<open>fault\<close> of
    everything that can be thrown; messages of errors are not modelled;
  \<^item> results of methods that may throw (\<open>'a result\<close>), with the sequencing
    \<open>bind_r\<close> and the two loop shapes of the sources: \<open>forE\<close> (a loop that
    only checks) and \<open>foldE\<close> (a loop with an accumulator);
  \<^item> the built-in \<^verbatim>\<open>Map\<close> of JavaScript: an association list in insertion
    order, where setting a present key keeps its place;
  \<^item> generic lemmas on these.
  Strings are lists of code units in the range 0 to 255 (Isabelle's \<open>char\<close>).
\<close>

named_theorems result_simps \<open>rewriting of results and loops over results\<close>
named_theorems jsmap_simps \<open>rewriting of insertion-ordered maps\<close>

subsection \<open>Errors\<close>

datatype ledger_code =
    L_UNBALANCED_TRANSACTION | L_UNKNOWN_ACCOUNT | L_CURRENCY_MISMATCH | L_INVALID_AMOUNT
  | L_DUPLICATE_ENTRY_ID | L_DUPLICATE_ACCOUNT_ID | L_EMPTY_TRANSACTION
  | L_MIXED_CORRELATION_ID | L_INVALID_MONEY | L_UNSUPPORTED_SNAPSHOT_VERSION

datatype budget_code =
    B_ENVELOPE_EXISTS | B_ENVELOPE_NOT_FOUND | B_INSUFFICIENT_BUDGET | B_INVALID_AMOUNT
  | B_CURRENCY_MISMATCH | B_INVALID_ENVELOPE_STATE

datatype intent_code =
    I_INTENT_NOT_FOUND | I_INVALID_TRANSITION | I_ALREADY_EXISTS | I_BUDGET_EXCEEDED
  | I_VALIDATION_FAILED | I_IMPORT_NOT_EMPTY | I_DUPLICATE_IMPORT_ID

datatype payroll_code =
    P_PAYEE_EXISTS | P_PAYEE_NOT_FOUND | P_PAYEE_INACTIVE | P_RUN_EXISTS | P_RUN_NOT_FOUND
  | P_INVALID_TRANSITION | P_NO_COMPONENTS | P_INVALID_AMOUNT | P_IMPORT_NOT_EMPTY
  | P_DUPLICATE_IMPORT_ID

datatype distribution_code =
    D_PLAN_EXISTS | D_PLAN_NOT_FOUND | D_INVALID_TRANSITION | D_INVALID_SHARES
  | D_DUPLICATE_RECIPIENT | D_POOL_EXCEEDED | D_NO_RECIPIENTS | D_UNKNOWN_STRATEGY
  | D_IMPORT_NOT_EMPTY | D_DUPLICATE_IMPORT_ID

datatype funding_code =
    F_REQUEST_EXISTS | F_REQUEST_NOT_FOUND | F_INVALID_TRANSITION | F_NOT_GATEKEEPER
  | F_ALREADY_APPROVED | F_DUPLICATE_GATEKEEPER | F_REQUESTER_CANNOT_APPROVE
  | F_IMPORT_NOT_EMPTY | F_DUPLICATE_IMPORT_ID

datatype event_store_code =
    E_CONCURRENCY_CONFLICT | E_INVALID_STREAM_ID | E_EMPTY_APPEND | E_INVALID_VERSION
  | E_STORE_CLOSED | E_LOCK_TIMEOUT | E_INTEGRITY_VIOLATION | E_LOG_TOO_LARGE

datatype vault_code = V_UNSUPPORTED_SNAPSHOT_VERSION | V_RESTORE_INVALID

datatype treasury_code = T_UNSUPPORTED_SNAPSHOT_VERSION

datatype fault =
    VaultError vault_code
  | TreasuryError treasury_code
  | LedgerError ledger_code
  | BudgetError budget_code
  | IntentError intent_code
  | PayrollError payroll_code
  | DistributionError distribution_code
  | FundingError funding_code
  | EventStoreError event_store_code
  | PlainError

type_synonym 'a result = "fault + 'a"

subsection \<open>Sequencing and loops of code that may throw\<close>

definition bind_r :: "'e + 'a \<Rightarrow> ('a \<Rightarrow> 'e + 'b) \<Rightarrow> 'e + 'b" where
  "bind_r m f = (case m of Inl e \<Rightarrow> Inl e | Inr a \<Rightarrow> f a)"

fun forE :: "('a \<Rightarrow> 'e + unit) \<Rightarrow> 'a list \<Rightarrow> 'e + unit" where
  "forE f [] = Inr ()"
| "forE f (x # xs) = bind_r (f x) (\<lambda>_. forE f xs)"

fun foldE :: "('s \<Rightarrow> 'a \<Rightarrow> 'e + 's) \<Rightarrow> 's \<Rightarrow> 'a list \<Rightarrow> 'e + 's" where
  "foldE f s [] = Inr s"
| "foldE f s (x # xs) = bind_r (f s x) (\<lambda>s'. foldE f s' xs)"

definition throw_when :: "bool \<Rightarrow> 'e \<Rightarrow> 'e + unit" where
  "throw_when b e = (if b then Inl e else Inr ())"

lemma bind_r_Inl [simp, result_simps]: "bind_r (Inl e) f = Inl e"
  by (simp add: bind_r_def)

lemma bind_r_Inr [simp, result_simps]: "bind_r (Inr a) f = f a"
  by (simp add: bind_r_def)

lemma bind_r_eq_Inr [result_simps]:
  "bind_r m f = Inr b \<longleftrightarrow> (\<exists>a. m = Inr a \<and> f a = Inr b)"
  by (cases m) auto

lemma bind_r_eq_Inl [result_simps]:
  "bind_r m f = Inl e \<longleftrightarrow> m = Inl e \<or> (\<exists>a. m = Inr a \<and> f a = Inl e)"
  by (cases m) auto

lemma bind_r_assoc: "bind_r (bind_r m f) g = bind_r m (\<lambda>x. bind_r (f x) g)"
  by (cases m) auto

lemma throw_when_Inr [result_simps]: "throw_when b e = Inr u \<longleftrightarrow> \<not> b"
  by (simp add: throw_when_def)

lemma throw_when_Inl [result_simps]: "throw_when b e = Inl e' \<longleftrightarrow> b \<and> e = e'"
  by (auto simp: throw_when_def)

lemma forE_Inr [result_simps]: "forE f xs = Inr () \<longleftrightarrow> (\<forall>x \<in> set xs. f x = Inr ())"
  by (induction xs) (auto simp: bind_r_eq_Inr)

lemma forE_unit: "forE f xs = Inr u \<longleftrightarrow> forE f xs = Inr ()"
  by (cases u) simp

lemma forE_Inl_same:
  assumes "\<And>x e'. x \<in> set xs \<Longrightarrow> f x = Inl e' \<Longrightarrow> e' = e"
    and "\<exists>x \<in> set xs. f x \<noteq> Inr ()"
  shows "forE f xs = Inl e"
  using assms
proof (induction xs)
  case Nil
  then show ?case by simp
next
  case (Cons x xs)
  show ?case
  proof (cases "f x")
    case (Inl e')
    then show ?thesis using Cons.prems(1)[of x e'] by simp
  next
    case (Inr u)
    then have "\<exists>y \<in> set xs. f y \<noteq> Inr ()" using Cons.prems(2) by auto
    then have "forE f xs = Inl e" using Cons.IH Cons.prems(1) by auto
    with Inr show ?thesis by simp
  qed
qed

lemma foldE_append:
  "foldE f s (xs @ ys) = bind_r (foldE f s xs) (\<lambda>s'. foldE f s' ys)"
  by (induction xs arbitrary: s) (auto simp: bind_r_assoc)

lemma foldE_total:
  assumes "\<And>s x. x \<in> set xs \<Longrightarrow> f s x = Inr (g s x)"
  shows "foldE f s xs = Inr (foldl g s xs)"
  using assms by (induction xs arbitrary: s) auto

lemma foldE_invariant:
  assumes "foldE f s xs = Inr s'" and "P s"
    and "\<And>s x t. x \<in> set xs \<Longrightarrow> P s \<Longrightarrow> f s x = Inr t \<Longrightarrow> P t"
  shows "P s'"
  using assms by (induction xs arbitrary: s) (auto simp: bind_r_eq_Inr)

subsection \<open>The Map of JavaScript\<close>

text \<open>
  \<^verbatim>\<open>Map\<close> iterates in insertion order and \<^verbatim>\<open>set\<close> on a present key
  replaces the value in place; this is \<open>AList.update\<close>.
\<close>

type_synonym ('k, 'v) jsmap = "('k \<times> 'v) list"

abbreviation jm_get :: "('k, 'v) jsmap \<Rightarrow> 'k \<Rightarrow> 'v option" where
  "jm_get m k \<equiv> map_of m k"

definition jm_has :: "('k, 'v) jsmap \<Rightarrow> 'k \<Rightarrow> bool" where
  "jm_has m k \<longleftrightarrow> map_of m k \<noteq> None"

abbreviation jm_set :: "('k, 'v) jsmap \<Rightarrow> 'k \<Rightarrow> 'v \<Rightarrow> ('k, 'v) jsmap" where
  "jm_set m k v \<equiv> AList.update k v m"

abbreviation jm_values :: "('k, 'v) jsmap \<Rightarrow> 'v list" where
  "jm_values m \<equiv> map snd m"

abbreviation jm_keys :: "('k, 'v) jsmap \<Rightarrow> 'k list" where
  "jm_keys m \<equiv> map fst m"

definition jm_wf :: "('k, 'v) jsmap \<Rightarrow> bool" where
  "jm_wf m \<longleftrightarrow> distinct (jm_keys m)"

lemma jm_get_set [simp, jsmap_simps]:
  "jm_get (jm_set m k v) k' = (if k' = k then Some v else jm_get m k')"
  by (simp add: AList.update_conv)

lemma jm_has_set [simp, jsmap_simps]: "jm_has (jm_set m k v) k' \<longleftrightarrow> k' = k \<or> jm_has m k'"
  by (simp add: jm_has_def)

lemma jm_has_empty [simp, jsmap_simps]: "\<not> jm_has [] k"
  by (simp add: jm_has_def)

lemma jm_has_keys: "jm_has m k \<longleftrightarrow> k \<in> set (jm_keys m)"
  by (simp add: jm_has_def map_of_eq_None_iff)

lemma jm_wf_empty [simp]: "jm_wf []"
  by (simp add: jm_wf_def)

lemma jm_wf_set [simp, intro]: "jm_wf m \<Longrightarrow> jm_wf (jm_set m k v)"
  by (simp add: jm_wf_def AList.distinct_update)

lemma jm_set_new [jsmap_simps]: "\<not> jm_has m k \<Longrightarrow> jm_set m k v = m @ [(k, v)]"
  by (induction m) (auto simp: jm_has_def split: if_splits)

lemma jm_keys_set [jsmap_simps]:
  "jm_keys (jm_set m k v) = (if jm_has m k then jm_keys m else jm_keys m @ [k])"
  by (simp add: AList.update_keys jm_has_keys)

lemma jm_get_in: "jm_wf m \<Longrightarrow> jm_get m k = Some v \<longleftrightarrow> (k, v) \<in> set m"
  by (simp add: jm_wf_def)

lemma jm_values_get: "jm_wf m \<Longrightarrow> v \<in> set (jm_values m) \<longleftrightarrow> (\<exists>k. jm_get m k = Some v)"
  by (force simp: jm_get_in)

lemma jm_get_value: "jm_get m k = Some v \<Longrightarrow> v \<in> set (jm_values m)"
  by (force dest: map_of_SomeD)

text \<open>Replacing the value of a present key, as a list with a hole.\<close>

lemma jm_set_split:
  assumes "jm_get m k = Some v"
  obtains xs ys where "m = xs @ (k, v) # ys" "jm_set m k w = xs @ (k, w) # ys"
proof -
  have "\<exists>xs ys. m = xs @ (k, v) # ys \<and> jm_set m k w = xs @ (k, w) # ys"
    using assms
  proof (induction m)
    case Nil
    then show ?case by simp
  next
    case (Cons p m)
    obtain k' v' where p: "p = (k', v')" by fastforce
    show ?case
    proof (cases "k' = k")
      case True
      then show ?thesis using Cons.prems p by (intro exI[of _ "[]"] exI[of _ m]) auto
    next
      case False
      then have "jm_get m k = Some v" using Cons.prems p by simp
      then obtain xs ys where "m = xs @ (k, v) # ys" "jm_set m k w = xs @ (k, w) # ys"
        using Cons.IH by blast
      then show ?thesis using False p by (intro exI[of _ "p # xs"] exI[of _ ys]) auto
    qed
  qed
  then show ?thesis using that by blast
qed

text \<open>The loops that import records from a snapshot: they stop at the first repeated id, and what was
  stored before it stays.\<close>

fun import_records ::
  "('a \<Rightarrow> string) \<Rightarrow> fault \<Rightarrow> (string, 'a) jsmap \<Rightarrow> string set \<Rightarrow> 'a list \<Rightarrow>
   unit result \<times> (string, 'a) jsmap" where
  "import_records key dup store seen [] = (Inr (), store)"
| "import_records key dup store seen (x # xs) =
     (if key x \<in> seen then (Inl dup, store)
      else import_records key dup (jm_set store (key x) x) (insert (key x) seen) xs)"

lemma import_records_ok:
  assumes "distinct (jm_keys store @ map key xs)" "seen \<inter> key ` set xs = {}"
  shows "import_records key dup store seen xs = (Inr (), store @ map (\<lambda>x. (key x, x)) xs)"
  using assms
proof (induction xs arbitrary: store seen)
  case Nil
  then show ?case by simp
next
  case (Cons x xs)
  have set: "jm_set store (key x) x = store @ [(key x, x)]"
    using Cons.prems(1) by (intro jm_set_new) (simp add: jm_has_keys)
  have "import_records key dup (store @ [(key x, x)]) (insert (key x) seen) xs =
      (Inr (), (store @ [(key x, x)]) @ map (\<lambda>x. (key x, x)) xs)"
    using Cons.prems by (intro Cons.IH) auto
  moreover have "key x \<notin> seen" using Cons.prems(2) by auto
  ultimately show ?case by (simp add: set)
qed

text \<open>Sorting and mapping.\<close>

lemma insort_key_map: "insort_key f (g x) (map g xs) = map g (insort_key (\<lambda>x. f (g x)) x xs)"
  by (induction xs) auto

lemma sort_key_map_same: "sort_key f (map g xs) = map g (sort_key (\<lambda>x. f (g x)) xs)"
  by (induction xs) (simp_all add: insort_key_map)

lemma sort_key_map:
  assumes "\<And>x. f (g x) = f x"
  shows "sort_key f (map g xs) = map g (sort_key f xs)"
  by (simp add: sort_key_map_same assms)

end
