(* ===== verification/MoneyMath.thy ===== *)
theory MoneyMath
  imports Prelude
begin

section \<open>Deterministic monetary arithmetic\<close>

text \<open>
  Model of \<^verbatim>\<open>packages/ledger/src/money-math.ts\<close> and the \<^verbatim>\<open>Money\<close> type of
  \<^verbatim>\<open>packages/types/src/financial.ts\<close>: decimal strings are parsed into scaled
  integers (\<^verbatim>\<open>bigint\<close>, here \<open>int\<close>), computed on, and formatted back.
  \<^verbatim>\<open>decimals\<close> is a JavaScript number; the model covers its integral values
  (negative ones included, so that the guards of the code are real).
  The lemmas give the value of every operation, the round trip between parsing and
  formatting, and the interface \<open>money_arith\<close> the vault and treasury rely on.
\<close>

record money =
  m_amount :: string
  m_currency :: string
  m_decimals :: int

subsection \<open>What the code uses of strings and BigInt\<close>

definition js_space :: "char \<Rightarrow> bool" where
  "js_space c \<longleftrightarrow> (of_char c :: nat) \<in> {9, 10, 11, 12, 13, 32, 160}"

definition js_trim :: "string \<Rightarrow> string" where
  "js_trim s = rev (dropWhile js_space (rev (dropWhile js_space s)))"

definition is_digit :: "char \<Rightarrow> bool" where
  "is_digit c \<longleftrightarrow> (48::nat) \<le> of_char c \<and> of_char c \<le> (57::nat)"

definition digit_val :: "char \<Rightarrow> nat" where
  "digit_val c = of_char c - 48"

definition digit_char :: "nat \<Rightarrow> char" where
  "digit_char n = char_of (48 + n)"

definition bigint_of :: "string \<Rightarrow> nat" where
  "bigint_of ds = foldl (\<lambda>n c. 10 * n + digit_val c) 0 ds"

fun nat_str :: "nat \<Rightarrow> string" where
  "nat_str n = (if n < 10 then [digit_char n] else nat_str (n div 10) @ [digit_char (n mod 10)])"

declare nat_str.simps [simp del]

definition int_str :: "int \<Rightarrow> string" where
  "int_str x = (if x < 0 then CHR ''-'' # nat_str (nat (- x)) else nat_str (nat x))"

fun js_split :: "char \<Rightarrow> string \<Rightarrow> string list" where
  "js_split c [] = [[]]"
| "js_split c (x # xs) =
     (if x = c then [] # js_split c xs
      else (case js_split c xs of [] \<Rightarrow> [[x]] | p # ps \<Rightarrow> (x # p) # ps))"

definition padEnd :: "string \<Rightarrow> int \<Rightarrow> char \<Rightarrow> string" where
  "padEnd s n c = s @ replicate (nat n - length s) c"

definition padStart :: "string \<Rightarrow> int \<Rightarrow> char \<Rightarrow> string" where
  "padStart s n c = replicate (nat n - length s) c @ s"

text \<open>The regular expression \<^verbatim>\<open>/^-?\d+(\.\d+)?$/\<close>.\<close>

definition unsigned_regex :: "string \<Rightarrow> bool" where
  "unsigned_regex s \<longleftrightarrow>
     takeWhile is_digit s \<noteq> [] \<and>
     (case dropWhile is_digit s of
        [] \<Rightarrow> True
      | c # f \<Rightarrow> c = CHR ''.'' \<and> f \<noteq> [] \<and> list_all is_digit f)"

definition amount_regex :: "string \<Rightarrow> bool" where
  "amount_regex s \<longleftrightarrow>
     (case s of [] \<Rightarrow> False
      | c # r \<Rightarrow> if c = CHR ''-'' then unsigned_regex r else unsigned_regex s)"

definition nth_or :: "'a list \<Rightarrow> nat \<Rightarrow> 'a \<Rightarrow> 'a" where
  "nth_or xs i d = (if i < length xs then xs ! i else d)"

subsection \<open>Parsing and formatting\<close>

definition parseAmount :: "string \<Rightarrow> int \<Rightarrow> int result" where
  "parseAmount amt decs =
     (if js_trim amt = [] then Inl (LedgerError L_INVALID_AMOUNT)
      else let trimmed = js_trim amt in
        if \<not> amount_regex trimmed then Inl (LedgerError L_INVALID_AMOUNT)
        else let negative = (hd trimmed = CHR ''-'');
                 absolute = (if negative then tl trimmed else trimmed);
                 parts = js_split CHR ''.'' absolute;
                 intPart = nth_or parts 0 ''0'';
                 fracPart = nth_or parts 1 ''''
          in if int (length fracPart) > decs then Inl (LedgerError L_INVALID_AMOUNT)
             else let combined = intPart @ padEnd fracPart decs CHR ''0'';
                      v = int (bigint_of combined)
                  in Inr (if negative then - v else v))"

definition formatAmount :: "int \<Rightarrow> int \<Rightarrow> string" where
  "formatAmount scaled decs =
     (if decs = 0 then int_str scaled
      else let negative = scaled < 0;
               absolute = \<bar>scaled\<bar>;
               str = padStart (int_str absolute) (decs + 1) CHR ''0'';
               cut = nat (int (length str) - decs);
               intPart = take cut str;
               fracPart = drop cut str;
               res = intPart @ ''.'' @ fracPart
           in if negative then CHR ''-'' # res else res)"

subsection \<open>Operations on Money\<close>

definition scaled_of :: "money \<Rightarrow> int result" where
  "scaled_of m = parseAmount (m_amount m) (m_decimals m)"

definition validateMoney :: "money \<Rightarrow> unit result" where
  "validateMoney m =
     (if js_trim (m_amount m) = [] then Inl (LedgerError L_INVALID_MONEY)
      else if js_trim (m_currency m) = [] then Inl (LedgerError L_INVALID_MONEY)
      else if m_decimals m < 0 then Inl (LedgerError L_INVALID_MONEY)
      else bind_r (parseAmount (m_amount m) (m_decimals m)) (\<lambda>_. Inr ()))"

definition assertSameCurrency :: "money \<Rightarrow> money \<Rightarrow> unit result" where
  "assertSameCurrency a b =
     (if m_currency a \<noteq> m_currency b then Inl (LedgerError L_CURRENCY_MISMATCH)
      else if m_decimals a \<noteq> m_decimals b then Inl (LedgerError L_CURRENCY_MISMATCH)
      else Inr ())"

definition addMoney :: "money \<Rightarrow> money \<Rightarrow> money result" where
  "addMoney a b =
     bind_r (assertSameCurrency a b) (\<lambda>_.
     bind_r (parseAmount (m_amount a) (m_decimals a)) (\<lambda>va.
     bind_r (parseAmount (m_amount b) (m_decimals b)) (\<lambda>vb.
       Inr \<lparr>m_amount = formatAmount (va + vb) (m_decimals a),
            m_currency = m_currency a, m_decimals = m_decimals a\<rparr>)))"

definition subtractMoney :: "money \<Rightarrow> money \<Rightarrow> money result" where
  "subtractMoney a b =
     bind_r (assertSameCurrency a b) (\<lambda>_.
     bind_r (parseAmount (m_amount a) (m_decimals a)) (\<lambda>va.
     bind_r (parseAmount (m_amount b) (m_decimals b)) (\<lambda>vb.
       Inr \<lparr>m_amount = formatAmount (va - vb) (m_decimals a),
            m_currency = m_currency a, m_decimals = m_decimals a\<rparr>)))"

definition isZero :: "money \<Rightarrow> bool result" where
  "isZero m = bind_r (parseAmount (m_amount m) (m_decimals m)) (\<lambda>v. Inr (v = 0))"

definition isPositive :: "money \<Rightarrow> bool result" where
  "isPositive m = bind_r (parseAmount (m_amount m) (m_decimals m)) (\<lambda>v. Inr (v > 0))"

definition isNegative :: "money \<Rightarrow> bool result" where
  "isNegative m = bind_r (parseAmount (m_amount m) (m_decimals m)) (\<lambda>v. Inr (v < 0))"

definition zeroMoney :: "string \<Rightarrow> int \<Rightarrow> money" where
  "zeroMoney cur decs =
     \<lparr>m_amount = formatAmount 0 decs, m_currency = cur, m_decimals = decs\<rparr>"

definition compareMoney :: "money \<Rightarrow> money \<Rightarrow> int result" where
  "compareMoney a b =
     bind_r (assertSameCurrency a b) (\<lambda>_.
     bind_r (parseAmount (m_amount a) (m_decimals a)) (\<lambda>va.
     bind_r (parseAmount (m_amount b) (m_decimals b)) (\<lambda>vb.
       Inr (if va < vb then - 1 else if va > vb then 1 else 0))))"

definition absMoney :: "money \<Rightarrow> money result" where
  "absMoney m =
     bind_r (parseAmount (m_amount m) (m_decimals m)) (\<lambda>scaled.
       Inr \<lparr>m_amount = formatAmount (if scaled < 0 then - scaled else scaled) (m_decimals m),
            m_currency = m_currency m, m_decimals = m_decimals m\<rparr>)"

subsection \<open>Digits\<close>

lemma of_char_digit_char [simp]: "n < 10 \<Longrightarrow> of_char (digit_char n) = (48 + n :: nat)"
  by (simp add: digit_char_def)

lemma is_digit_digit_char [simp]: "n < 10 \<Longrightarrow> is_digit (digit_char n)"
  by (simp add: is_digit_def)

lemma digit_val_digit_char [simp]: "n < 10 \<Longrightarrow> digit_val (digit_char n) = n"
  by (simp add: digit_val_def)

lemma digit_not_special:
  assumes "is_digit c"
  shows "\<not> js_space c" "c \<noteq> CHR ''-''" "c \<noteq> CHR ''.''"
  using assms by (auto simp: is_digit_def js_space_def)

lemma special_chars [simp]:
  "\<not> js_space CHR ''-''" "\<not> js_space CHR ''.''" "\<not> is_digit CHR ''-''" "\<not> is_digit CHR ''.''"
  "is_digit CHR ''0''" "digit_val CHR ''0'' = 0"
  by (auto simp: is_digit_def js_space_def digit_val_def)

lemma nat_str_digits: "list_all is_digit (nat_str n)"
  by (induction n rule: nat_str.induct) (subst nat_str.simps, auto)

lemma nat_str_nonempty [simp]: "nat_str n \<noteq> []"
  by (subst nat_str.simps) auto

lemma bigint_foldl:
  "foldl (\<lambda>n c. 10 * n + digit_val c) k ys = k * 10 ^ length ys + bigint_of ys"
  unfolding bigint_of_def
proof (induction ys rule: rev_induct)
  case Nil
  then show ?case by simp
next
  case (snoc y ys)
  then show ?case by (simp add: algebra_simps)
qed

lemma bigint_of_append:
  "bigint_of (xs @ ys) = bigint_of xs * 10 ^ length ys + bigint_of ys"
proof -
  have "bigint_of (xs @ ys) = foldl (\<lambda>n c. 10 * n + digit_val c) (bigint_of xs) ys"
    by (simp add: bigint_of_def)
  also have "\<dots> = bigint_of xs * 10 ^ length ys + bigint_of ys"
    by (rule bigint_foldl)
  finally show ?thesis .
qed

lemma bigint_of_Nil [simp]: "bigint_of [] = 0"
  by (simp add: bigint_of_def)

lemma bigint_of_single [simp]: "bigint_of [c] = digit_val c"
  by (simp add: bigint_of_def)

lemma bigint_of_zeros [simp]: "bigint_of (replicate k CHR ''0'') = 0"
  by (induction k) (auto simp: bigint_of_def)

lemma bigint_of_nat_str [simp]: "bigint_of (nat_str n) = n"
proof (induction n rule: nat_str.induct)
  case (1 n)
  then show ?case
    by (subst nat_str.simps) (auto simp: bigint_of_append)
qed

lemma int_str_nonneg: "0 \<le> x \<Longrightarrow> int_str x = nat_str (nat x)"
  by (simp add: int_str_def)

lemma list_all_takeWhile: "list_all P xs \<Longrightarrow> takeWhile P xs = xs"
  by (simp add: list_all_iff)

lemma list_all_dropWhile: "list_all P xs \<Longrightarrow> dropWhile P xs = []"
  by (simp add: list_all_iff)

subsection \<open>Trimming and splitting\<close>

lemma js_trim_id:
  assumes "s \<noteq> []" "\<not> js_space (hd s)" "\<not> js_space (last s)"
  shows "js_trim s = s"
proof -
  have "dropWhile js_space s = s" using assms by (cases s) auto
  moreover have "dropWhile js_space (rev s) = rev s"
    using assms by (cases s rule: rev_cases) auto
  ultimately show ?thesis by (simp add: js_trim_def)
qed

lemma js_split_none: "c \<notin> set s \<Longrightarrow> js_split c s = [s]"
  by (induction s) auto

lemma js_split_one: "c \<notin> set a \<Longrightarrow> c \<notin> set b \<Longrightarrow> js_split c (a @ c # b) = [a, b]"
  by (induction a) (auto simp: js_split_none)

subsection \<open>What is parsed: decimal numerals\<close>

text \<open>
  The abstract syntax of an amount: a sign, a non-empty integer part and a possibly empty
  fractional part. \<open>decimal_text\<close> is its concrete syntax.
\<close>

definition decimal_text :: "bool \<Rightarrow> string \<Rightarrow> string \<Rightarrow> string" where
  "decimal_text neg ip fp =
     (if neg then ''-'' else []) @ ip @ (if fp = [] then [] else CHR ''.'' # fp)"

definition decimal_ok :: "string \<Rightarrow> string \<Rightarrow> bool" where
  "decimal_ok ip fp \<longleftrightarrow> ip \<noteq> [] \<and> list_all is_digit ip \<and> list_all is_digit fp"

definition decimal_value :: "bool \<Rightarrow> string \<Rightarrow> string \<Rightarrow> int \<Rightarrow> int" where
  "decimal_value neg ip fp decs =
     (if neg then - 1 else 1) * (int (bigint_of (ip @ fp)) * 10 ^ (nat decs - length fp))"

lemma unsigned_regex_iff:
  "unsigned_regex s \<longleftrightarrow> (\<exists>ip fp. decimal_ok ip fp \<and> s = decimal_text False ip fp)"
proof
  assume r: "unsigned_regex s"
  define ip where "ip = takeWhile is_digit s"
  have s: "s = ip @ dropWhile is_digit s" by (simp add: ip_def)
  have ip: "ip \<noteq> []" "list_all is_digit ip"
    using r by (auto simp: unsigned_regex_def ip_def list_all_iff dest: set_takeWhileD)
  show "\<exists>ip fp. decimal_ok ip fp \<and> s = decimal_text False ip fp"
  proof (cases "dropWhile is_digit s")
    case Nil
    then have "s = ip" using s by (metis append_Nil2)
    then show ?thesis using ip
      by (intro exI[of _ ip] exI[of _ "[]"]) (simp add: decimal_ok_def decimal_text_def)
  next
    case (Cons c f)
    then have "c = CHR ''.''" "f \<noteq> []" "list_all is_digit f"
      using r by (auto simp: unsigned_regex_def)
    then show ?thesis using ip s Cons
      by (intro exI[of _ ip] exI[of _ f]) (simp add: decimal_ok_def decimal_text_def)
  qed
next
  assume "\<exists>ip fp. decimal_ok ip fp \<and> s = decimal_text False ip fp"
  then obtain ip fp where d: "decimal_ok ip fp" and s: "s = decimal_text False ip fp"
    by blast
  then show "unsigned_regex s"
    by (auto simp: unsigned_regex_def decimal_ok_def decimal_text_def list_all_iff
        takeWhile_append dropWhile_append)
qed

lemma decimal_text_hd: "decimal_ok ip fp \<Longrightarrow> hd (decimal_text neg ip fp) = CHR ''-'' \<longleftrightarrow> neg"
  by (cases ip) (auto simp: decimal_ok_def decimal_text_def dest: digit_not_special)

lemma amount_regex_iff:
  "amount_regex s \<longleftrightarrow> (\<exists>neg ip fp. decimal_ok ip fp \<and> s = decimal_text neg ip fp)"
proof
  assume r: "amount_regex s"
  then obtain c r' where s: "s = c # r'" by (cases s) (auto simp: amount_regex_def)
  show "\<exists>neg ip fp. decimal_ok ip fp \<and> s = decimal_text neg ip fp"
  proof (cases "c = CHR ''-''")
    case True
    then obtain ip fp where "decimal_ok ip fp" "r' = decimal_text False ip fp"
      using r s by (auto simp: amount_regex_def unsigned_regex_iff)
    then show ?thesis using True s
      by (intro exI[of _ True] exI[of _ ip] exI[of _ fp]) (simp add: decimal_text_def)
  next
    case False
    then show ?thesis using r s by (auto simp: amount_regex_def unsigned_regex_iff)
  qed
next
  assume "\<exists>neg ip fp. decimal_ok ip fp \<and> s = decimal_text neg ip fp"
  then obtain neg ip fp where d: "decimal_ok ip fp" and s: "s = decimal_text neg ip fp"
    by blast
  have u: "unsigned_regex (decimal_text False ip fp)" using d unsigned_regex_iff by blast
  show "amount_regex s"
  proof (cases neg)
    case True
    then have "s = CHR ''-'' # decimal_text False ip fp" using s by (simp add: decimal_text_def)
    then show ?thesis using u by (simp add: amount_regex_def)
  next
    case False
    then have "hd s \<noteq> CHR ''-''" using s decimal_text_hd[OF d, of False] by simp
    moreover have "s \<noteq> []" using s d by (auto simp: decimal_text_def decimal_ok_def)
    moreover have "unsigned_regex s" using u s False by simp
    ultimately show ?thesis by (cases s) (simp_all add: amount_regex_def)
  qed
qed

text \<open>The function computes exactly the value of the numeral, or throws.\<close>

lemma decimal_text_trim:
  assumes "decimal_ok ip fp"
  shows "js_trim (decimal_text neg ip fp) = decimal_text neg ip fp"
proof (rule js_trim_id)
  show "decimal_text neg ip fp \<noteq> []"
    using assms by (auto simp: decimal_text_def decimal_ok_def)
  show "\<not> js_space (hd (decimal_text neg ip fp))"
    using assms by (cases ip) (auto simp: decimal_text_def decimal_ok_def dest: digit_not_special)
  show "\<not> js_space (last (decimal_text neg ip fp))"
    using assms digit_not_special(1)[of "last ip"] digit_not_special(1)[of "last fp"]
    by (simp add: decimal_text_def decimal_ok_def list_all_iff)
qed

lemma no_dot: "list_all is_digit s \<Longrightarrow> CHR ''.'' \<notin> set s"
  by (auto simp: list_all_iff dest: digit_not_special)

lemma parts_decimal:
  assumes "decimal_ok ip fp"
  shows "nth_or (js_split CHR ''.'' (decimal_text False ip fp)) 0 ''0'' = ip"
    and "nth_or (js_split CHR ''.'' (decimal_text False ip fp)) (Suc 0) '''' = fp"
  using assms
  by (cases "fp = []";
      auto simp: decimal_text_def decimal_ok_def nth_or_def js_split_none js_split_one no_dot)+

lemma bigint_of_padEnd: "bigint_of (ip @ padEnd fp decs CHR ''0'') =
    bigint_of (ip @ fp) * 10 ^ (nat decs - length fp)"
  by (simp add: padEnd_def bigint_of_append[of "ip @ fp", simplified])

lemma parse_decimal_text:
  assumes ok: "decimal_ok ip fp" and t: "js_trim amt = decimal_text neg ip fp"
  shows "parseAmount amt decs =
    (if int (length fp) > decs then Inl (LedgerError L_INVALID_AMOUNT)
     else Inr (decimal_value neg ip fp decs))"
proof -
  have ne: "decimal_text neg ip fp \<noteq> []" using ok by (auto simp: decimal_text_def decimal_ok_def)
  have re: "amount_regex (decimal_text neg ip fp)" using ok amount_regex_iff by blast
  have ab: "(if neg then tl (decimal_text neg ip fp) else decimal_text neg ip fp)
      = decimal_text False ip fp"
    by (simp add: decimal_text_def)
  show ?thesis
    by (simp add: parseAmount_def t ne re decimal_text_hd[OF ok] Let_def ab
        parts_decimal[OF ok] bigint_of_padEnd decimal_value_def)
qed

lemma parse_not_decimal:
  assumes "\<not> (\<exists>neg ip fp. decimal_ok ip fp \<and> js_trim amt = decimal_text neg ip fp)"
  shows "parseAmount amt decs = Inl (LedgerError L_INVALID_AMOUNT)"
  using assms by (auto simp: parseAmount_def amount_regex_iff Let_def)

lemma parseAmount_cases:
  obtains (decimal) neg ip fp where "decimal_ok ip fp" "js_trim amt = decimal_text neg ip fp"
  | (invalid) "\<And>decs. parseAmount amt decs = Inl (LedgerError L_INVALID_AMOUNT)"
  using parse_not_decimal by blast

lemma parseAmount_error: "parseAmount amt decs = Inl e \<Longrightarrow> e = LedgerError L_INVALID_AMOUNT"
  by (cases amt rule: parseAmount_cases) (auto simp: parse_decimal_text split: if_splits)

subsection \<open>What is formatted\<close>

lemma list_all_replicate_zero: "list_all is_digit (replicate k CHR ''0'')"
  by (simp add: list_all_iff)

lemma formatAmount_text:
  assumes d: "0 \<le> decs"
  obtains ip fp where "formatAmount x decs = decimal_text (x < 0) ip fp"
    "decimal_ok ip fp" "length fp = nat decs" "decimal_value (x < 0) ip fp decs = x"
proof (cases "decs = 0")
  case True
  have "formatAmount x decs = decimal_text (x < 0) (nat_str (nat \<bar>x\<bar>)) []"
    using True by (simp add: formatAmount_def int_str_def decimal_text_def)
  moreover have "decimal_ok (nat_str (nat \<bar>x\<bar>)) []"
    by (simp add: decimal_ok_def nat_str_digits)
  moreover have "decimal_value (x < 0) (nat_str (nat \<bar>x\<bar>)) [] decs = x"
    using True by (simp add: decimal_value_def)
  ultimately show ?thesis using that True by simp
next
  case False
  define str where "str = padStart (int_str \<bar>x\<bar>) (decs + 1) CHR ''0''"
  define cut where "cut = nat (int (length str) - decs)"
  have digits: "list_all is_digit str"
    by (simp add: str_def padStart_def int_str_nonneg nat_str_digits list_all_replicate_zero)
  have val: "bigint_of str = nat \<bar>x\<bar>"
    by (simp add: str_def padStart_def int_str_nonneg bigint_of_append)
  have len: "nat decs + 1 \<le> length str"
    using d by (simp add: str_def padStart_def int_str_nonneg nat_add_distrib)
  then have cut: "0 < cut" "cut \<le> length str" "length str - cut = nat decs"
    using d by (auto simp: cut_def)
  have fp: "drop cut str \<noteq> []" using cut False d by auto
  have "formatAmount x decs = decimal_text (x < 0) (take cut str) (drop cut str)"
    using False fp
    by (simp only: formatAmount_def Let_def str_def[symmetric] cut_def[symmetric])
      (simp add: decimal_text_def)
  moreover have "decimal_ok (take cut str) (drop cut str)"
    using digits cut len by (auto simp: decimal_ok_def list_all_iff dest: in_set_takeD in_set_dropD)
  moreover have "decimal_value (x < 0) (take cut str) (drop cut str) decs = x"
    using val cut by (simp add: decimal_value_def)
  ultimately show ?thesis using that cut by simp
qed

lemma parse_format [simp]:
  assumes "0 \<le> decs"
  shows "parseAmount (formatAmount x decs) decs = Inr x"
  using assms
  by - (rule formatAmount_text[where x = x], assumption, simp add: parse_decimal_text decimal_text_trim)

lemma scaled_of_zeroMoney [simp]: "0 \<le> decs \<Longrightarrow> scaled_of (zeroMoney cur decs) = Inr 0"
  by (simp add: scaled_of_def zeroMoney_def)

lemma parse_negative_decimals: "decs < 0 \<Longrightarrow> parseAmount amt decs = Inl (LedgerError L_INVALID_AMOUNT)"
  by (cases amt rule: parseAmount_cases) (auto simp: parse_decimal_text)

lemma parse_decimals_nonneg: "parseAmount amt decs = Inr v \<Longrightarrow> 0 \<le> decs"
  by (rule ccontr) (simp add: parse_negative_decimals)

lemma decimal_value_scale:
  assumes "length fp \<le> nat d" "0 \<le> d" "d \<le> d'"
  shows "decimal_value neg ip fp d' = decimal_value neg ip fp d * 10 ^ nat (d' - d)"
proof -
  have "nat d' - length fp = (nat d - length fp) + nat (d' - d)"
    using assms by linarith
  then show ?thesis by (simp add: decimal_value_def power_add)
qed

lemma parse_scale:
  assumes "parseAmount amt d = Inr v" and "d \<le> d'"
  shows "parseAmount amt d' = Inr (v * 10 ^ nat (d' - d))"
proof (cases amt rule: parseAmount_cases)
  case (decimal neg ip fp)
  have d: "0 \<le> d" using assms(1) by (rule parse_decimals_nonneg)
  from assms(1) decimal have le: "int (length fp) \<le> d" and v: "v = decimal_value neg ip fp d"
    by (auto simp: parse_decimal_text split: if_splits)
  then have "length fp \<le> nat d" by linarith
  from decimal_value_scale[OF this d assms(2)] show ?thesis
    using le v assms(2) by (simp add: parse_decimal_text[OF decimal])
next
  case invalid
  then show ?thesis using assms(1) by simp
qed

lemma parse_sign:
  assumes "parseAmount amt d = Inr v" and "parseAmount amt d' = Inr v'"
  shows "0 < v \<longleftrightarrow> 0 < v'"
proof (cases "d \<le> d'")
  case True
  from parse_scale[OF assms(1) True] assms(2) show ?thesis by (auto simp: zero_less_mult_iff)
next
  case False
  then have "d' \<le> d" by simp
  from parse_scale[OF assms(2) this] assms(1) show ?thesis by (auto simp: zero_less_mult_iff)
qed

subsection \<open>Values of the operations\<close>

text \<open>The value of an amount in its smallest denomination, 0 if it does not parse.\<close>

definition money_value :: "money \<Rightarrow> int" where
  "money_value amount = (case scaled_of amount of Inr v \<Rightarrow> v | Inl _ \<Rightarrow> 0)"

lemma money_value_Inr: "scaled_of m = Inr v \<Longrightarrow> money_value m = v"
  by (simp add: money_value_def)

lemma validateMoney_iff:
  "validateMoney m = Inr () \<longleftrightarrow>
     js_trim (m_currency m) \<noteq> [] \<and> 0 \<le> m_decimals m \<and> (\<exists>v. scaled_of m = Inr v)"
  by (auto simp: validateMoney_def scaled_of_def parseAmount_def result_simps
      dest: parse_decimals_nonneg)

lemma assertSameCurrency_iff [result_simps]:
  "assertSameCurrency a b = Inr () \<longleftrightarrow>
     m_currency a = m_currency b \<and> m_decimals a = m_decimals b"
  by (simp add: assertSameCurrency_def)

lemma assertSameCurrency_unit [result_simps]:
  "assertSameCurrency a b = Inr u \<longleftrightarrow>
     m_currency a = m_currency b \<and> m_decimals a = m_decimals b"
  by (cases u) (simp add: assertSameCurrency_def)

lemma addMoney_Inr:
  "addMoney a b = Inr c \<longleftrightarrow>
     m_currency a = m_currency b \<and> m_decimals a = m_decimals b \<and>
     (\<exists>va vb. scaled_of a = Inr va \<and> scaled_of b = Inr vb \<and>
        c = \<lparr>m_amount = formatAmount (va + vb) (m_decimals a),
             m_currency = m_currency a, m_decimals = m_decimals a\<rparr>)"
  by (auto simp: addMoney_def scaled_of_def result_simps)

lemma subtractMoney_Inr:
  "subtractMoney a b = Inr c \<longleftrightarrow>
     m_currency a = m_currency b \<and> m_decimals a = m_decimals b \<and>
     (\<exists>va vb. scaled_of a = Inr va \<and> scaled_of b = Inr vb \<and>
        c = \<lparr>m_amount = formatAmount (va - vb) (m_decimals a),
             m_currency = m_currency a, m_decimals = m_decimals a\<rparr>)"
  by (auto simp: subtractMoney_def scaled_of_def result_simps)

lemma scaled_of_nonneg_decimals: "scaled_of a = Inr v \<Longrightarrow> 0 \<le> m_decimals a"
  by (auto simp: scaled_of_def dest: parse_decimals_nonneg)

lemma scaled_of_format [simp]:
  "0 \<le> d \<Longrightarrow> scaled_of \<lparr>m_amount = formatAmount x d, m_currency = c, m_decimals = d\<rparr> = Inr x"
  by (simp add: scaled_of_def)

lemma addMoney_value:
  assumes "scaled_of a = Inr va" "scaled_of b = Inr vb"
    "m_currency a = m_currency b" "m_decimals a = m_decimals b"
  obtains c where "addMoney a b = Inr c" "scaled_of c = Inr (va + vb)"
    "m_currency c = m_currency a" "m_decimals c = m_decimals a"
  using assms scaled_of_nonneg_decimals[of a va] by (auto simp: addMoney_Inr)

lemma subtractMoney_value:
  assumes "scaled_of a = Inr va" "scaled_of b = Inr vb"
    "m_currency a = m_currency b" "m_decimals a = m_decimals b"
  obtains c where "subtractMoney a b = Inr c" "scaled_of c = Inr (va - vb)"
    "m_currency c = m_currency a" "m_decimals c = m_decimals a"
  using assms scaled_of_nonneg_decimals[of a va] by (auto simp: subtractMoney_Inr)

lemma isPositive_Inr: "isPositive m = Inr b \<longleftrightarrow> (\<exists>v. scaled_of m = Inr v \<and> b = (v > 0))"
  by (auto simp: isPositive_def scaled_of_def result_simps)

lemma isNegative_Inr: "isNegative m = Inr b \<longleftrightarrow> (\<exists>v. scaled_of m = Inr v \<and> b = (v < 0))"
  by (auto simp: isNegative_def scaled_of_def result_simps)

lemma compareMoney_Inr:
  "compareMoney a b = Inr r \<longleftrightarrow>
     m_currency a = m_currency b \<and> m_decimals a = m_decimals b \<and>
     (\<exists>va vb. scaled_of a = Inr va \<and> scaled_of b = Inr vb \<and>
        r = (if va < vb then - 1 else if va > vb then 1 else 0))"
  by (auto simp: compareMoney_def scaled_of_def result_simps)

subsection \<open>The interface of monetary arithmetic\<close>

text \<open>
  What the callers of the money functions rely on: a value in units of the smallest
  denomination, a unit (currency and decimals), and partial addition and subtraction that
  are exact on values and only defined on equal units.
\<close>

locale money_arith =
  fixes val :: "'m \<Rightarrow> 'e + int"
    and unit_of :: "'m \<Rightarrow> 'u"
    and add :: "'m \<Rightarrow> 'm \<Rightarrow> 'e + 'm"
    and sub :: "'m \<Rightarrow> 'm \<Rightarrow> 'e + 'm"
  assumes add_ok: "val a = Inr x \<Longrightarrow> val b = Inr y \<Longrightarrow> unit_of a = unit_of b \<Longrightarrow>
      \<exists>c. add a b = Inr c"
    and add_inv: "add a b = Inr c \<Longrightarrow>
      unit_of a = unit_of b \<and> unit_of c = unit_of a \<and>
      (\<exists>x y. val a = Inr x \<and> val b = Inr y \<and> val c = Inr (x + y))"
    and sub_ok: "val a = Inr x \<Longrightarrow> val b = Inr y \<Longrightarrow> unit_of a = unit_of b \<Longrightarrow>
      \<exists>c. sub a b = Inr c"
    and sub_inv: "sub a b = Inr c \<Longrightarrow>
      unit_of a = unit_of b \<and> unit_of c = unit_of a \<and>
      (\<exists>x y. val a = Inr x \<and> val b = Inr y \<and> val c = Inr (x - y))"
begin

lemma add_val: "add a b = Inr c \<Longrightarrow> val a = Inr x \<Longrightarrow> val b = Inr y \<Longrightarrow> val c = Inr (x + y)"
  by (drule add_inv) auto

lemma sub_val: "sub a b = Inr c \<Longrightarrow> val a = Inr x \<Longrightarrow> val b = Inr y \<Longrightarrow> val c = Inr (x - y)"
  by (drule sub_inv) auto

lemma sub_add_cancel:
  assumes "add a b = Inr c" and "sub c b = Inr d"
  shows "val d = val a \<and> unit_of d = unit_of a"
proof -
  obtain x y where a: "unit_of c = unit_of a" "val a = Inr x" "val b = Inr y" "val c = Inr (x + y)"
    using add_inv[OF assms(1)] by blast
  obtain x' y' where "unit_of d = unit_of c" "val c = Inr x'" "val b = Inr y'" "val d = Inr (x' - y')"
    using sub_inv[OF assms(2)] by blast
  with a show ?thesis by simp
qed

text \<open>A running total over a list is defined exactly when every summand has the unit of
  the start value, and it is the sum.\<close>

lemma total_inv:
  assumes "foldE add z xs = Inr t" and "val z = Inr v"
  shows "(\<forall>x \<in> set xs. unit_of x = unit_of z \<and> (\<exists>w. val x = Inr w)) \<and>
    unit_of t = unit_of z \<and> val t = Inr (v + (\<Sum>x\<leftarrow>xs. projr (val x)))"
  using assms
proof (induction xs arbitrary: z v)
  case Nil
  then show ?case by simp
next
  case (Cons x xs)
  then obtain z' where z': "add z x = Inr z'" and rest: "foldE add z' xs = Inr t"
    by (auto simp: result_simps)
  from add_inv[OF z'] Cons.prems(2) obtain w where
    w: "unit_of z = unit_of x" "unit_of z' = unit_of z" "val x = Inr w" "val z' = Inr (v + w)"
    by auto
  from Cons.IH[OF rest w(4)] w show ?case by (auto simp: add.assoc)
qed

lemma total_ok:
  assumes "val z = Inr v" and "\<forall>x \<in> set xs. unit_of x = unit_of z \<and> (\<exists>w. val x = Inr w)"
  shows "\<exists>t. foldE add z xs = Inr t"
  using assms
proof (induction xs arbitrary: z v)
  case Nil
  then show ?case by simp
next
  case (Cons x xs)
  then obtain w where w: "val x = Inr w" "unit_of z = unit_of x" by auto
  then obtain z' where z': "add z x = Inr z'" using add_ok Cons.prems(1) by blast
  with add_inv[OF z'] Cons.prems(1) w have "val z' = Inr (v + w)" "unit_of z' = unit_of z"
    by auto
  with Cons.IH[of z' "v + w"] Cons.prems(2) z' show ?case by auto
qed

end

definition money_unit :: "money \<Rightarrow> string \<times> int" where
  "money_unit m = (m_currency m, m_decimals m)"

interpretation mm: money_arith scaled_of money_unit addMoney subtractMoney
proof (unfold_locales, goal_cases)
  case (1 a x b y)
  then show ?case by (auto simp: addMoney_Inr money_unit_def)
next
  case (2 a b c)
  then show ?case
    using scaled_of_nonneg_decimals[of a] by (auto simp: addMoney_Inr money_unit_def)
next
  case (3 a x b y)
  then show ?case by (auto simp: subtractMoney_Inr money_unit_def)
next
  case (4 a b c)
  then show ?case
    using scaled_of_nonneg_decimals[of a] by (auto simp: subtractMoney_Inr money_unit_def)
qed

text \<open>An amount of a given unit (currency and decimals) and value.\<close>

definition in_unit :: "string \<times> int \<Rightarrow> money \<Rightarrow> int \<Rightarrow> bool" where
  "in_unit u m v \<longleftrightarrow> money_unit m = u \<and> scaled_of m = Inr v"

lemma in_unit_add:
  assumes "in_unit u a x" shows "addMoney a b = Inr c \<Longrightarrow> in_unit u b (money_value b) \<and> in_unit u c (x + money_value b)"
  using assms mm.add_inv[of a b c] by (auto simp: in_unit_def money_value_Inr)

lemma in_unit_add_ok:
  assumes "in_unit u a x" "in_unit u b y" obtains c where "addMoney a b = Inr c" "in_unit u c (x + y)"
  using assms mm.add_ok[of a x b y] mm.add_inv[of a b] by (fastforce simp: in_unit_def)

lemma in_unit_sub:
  assumes "in_unit u a x" "in_unit u b y" obtains c where "subtractMoney a b = Inr c" "in_unit u c (x - y)"
  using assms mm.sub_ok[of a x b y] mm.sub_inv[of a b] by (fastforce simp: in_unit_def)

lemma in_unit_value: "in_unit u m v \<Longrightarrow> money_value m = v"
  by (simp add: in_unit_def money_value_Inr)

lemma in_unit_zeroMoney: "0 \<le> decs \<Longrightarrow> in_unit (cur, decs) (zeroMoney cur decs) 0"
  by (simp add: in_unit_def money_unit_def) (simp add: zeroMoney_def)

subsection \<open>Properties\<close>

text \<open>C38: \<^verbatim>\<open>parseAmount\<close> accepts exactly the trimmed decimal numerals (optional
  minus, digits, optionally a point and digits) whose fraction is no longer than the number
  of decimals, and returns the numeral scaled by ten to the number of decimals.\<close>

theorem parseAmount_spec:
  "parseAmount amt decs = Inr v \<longleftrightarrow>
     (\<exists>neg ip fp. decimal_ok ip fp \<and> js_trim amt = decimal_text neg ip fp \<and>
        int (length fp) \<le> decs \<and> v = decimal_value neg ip fp decs)"
proof
  assume p: "parseAmount amt decs = Inr v"
  then obtain neg ip fp where "decimal_ok ip fp" "js_trim amt = decimal_text neg ip fp"
    using parse_not_decimal[of amt decs] by force
  with p show "\<exists>neg ip fp. decimal_ok ip fp \<and> js_trim amt = decimal_text neg ip fp \<and>
      int (length fp) \<le> decs \<and> v = decimal_value neg ip fp decs"
    by (intro exI[of _ neg] exI[of _ ip] exI[of _ fp])
      (auto simp: parse_decimal_text split: if_splits)
qed (auto simp: parse_decimal_text)

text \<open>formatting a scaled integer and parsing the text back with the same number of
  decimals returns the integer, for every integer and every number of decimals.\<close>

theorem format_parse_roundtrip:
  "0 \<le> decs \<Longrightarrow> parseAmount (formatAmount x decs) decs = Inr x"
  by simp

theorem format_parse_roundtrip_witness:
  "parseAmount (formatAmount (- 5025) 2) 2 = Inr (- 5025)"
  by (rule format_parse_roundtrip) simp

text \<open>an amount that parses at one precision parses at every higher precision, to the
  value scaled by the corresponding power of ten, so scaled values are comparable only at
  equal decimals.\<close>

theorem parseAmount_rescale:
  assumes "parseAmount amt d = Inr v" and "d \<le> d'"
  shows "parseAmount amt d' = Inr (v * 10 ^ nat (d' - d))"
  using assms by (rule parse_scale)

theorem parseAmount_rescale_witness: "parseAmount ''1.5'' 4 = Inr (150 * 10 ^ nat (4 - 2))"
proof -
  have "parseAmount ''1.5'' 2 = Inr 150" by code_simp
  from parseAmount_rescale[OF this, of 4] show ?thesis by simp
qed

text \<open>adding two amounts and subtracting one of them again gives back the other one's
  value, currency and decimals; both operations are defined whenever the amounts parse and
  have the same currency and decimals.\<close>

theorem add_subtract_inverse:
  assumes "scaled_of a = Inr va" and "scaled_of b = Inr vb"
    and "m_currency a = m_currency b" and "m_decimals a = m_decimals b"
  shows "\<exists>c d. addMoney a b = Inr c \<and> scaled_of c = Inr (va + vb) \<and>
    subtractMoney c b = Inr d \<and> scaled_of d = Inr va \<and>
    m_currency d = m_currency a \<and> m_decimals d = m_decimals a"
proof -
  have u: "money_unit a = money_unit b" using assms by (simp add: money_unit_def)
  obtain c where c: "addMoney a b = Inr c" using mm.add_ok[OF assms(1,2) u] ..
  then have vc: "scaled_of c = Inr (va + vb)" and "money_unit c = money_unit b"
    using mm.add_inv[OF c] assms u by auto
  then obtain d where d: "subtractMoney c b = Inr d" using mm.sub_ok assms(2) by blast
  have "scaled_of d = scaled_of a \<and> money_unit d = money_unit a"
    by (rule mm.sub_add_cancel[OF c d])
  with c d vc assms(1) show ?thesis by (auto simp: money_unit_def)
qed

theorem add_subtract_inverse_witness:
  "\<exists>c d. addMoney \<lparr>m_amount = ''1.50'', m_currency = ''USD'', m_decimals = 2\<rparr>
            \<lparr>m_amount = ''0.75'', m_currency = ''USD'', m_decimals = 2\<rparr> = Inr c \<and>
    scaled_of c = Inr (150 + 75) \<and>
    subtractMoney c \<lparr>m_amount = ''0.75'', m_currency = ''USD'', m_decimals = 2\<rparr> = Inr d \<and>
    scaled_of d = Inr 150 \<and> m_currency d = ''USD'' \<and> m_decimals d = 2"
proof -
  have "scaled_of \<lparr>m_amount = ''1.50'', m_currency = ''USD'', m_decimals = 2\<rparr> = Inr 150"
    "scaled_of \<lparr>m_amount = ''0.75'', m_currency = ''USD'', m_decimals = 2\<rparr> = Inr 75"
    by code_simp+
  from add_subtract_inverse[OF this] show ?thesis by simp
qed

end
