(* ===== verification/Accounts.thy ===== *)
theory Accounts
  imports MoneyMath
begin

section \<open>Accounts, entries and the account registry\<close>

text \<open>
  The ledger's data (\<^verbatim>\<open>packages/types/src/financial.ts\<close>,
  \<^verbatim>\<open>packages/ledger/src/types.ts\<close>) and the chart of accounts
  (\<^verbatim>\<open>packages/ledger/src/accounts.ts\<close>): an insertion-ordered map from account
  ids to immutable accounts. Every method of the registry is a definition here; methods
  that change the registry return the result and the new registry.
\<close>

datatype account_type = Asset | Liability | Income | Expense | Equity

datatype normal_balance = DebitNormal | CreditNormal

datatype entry_type = Debit | Credit

record account_ref =
  ar_id :: string
  ar_type :: account_type
  ar_name :: string

record ledger_account =
  la_ref :: account_ref
  la_createdAt :: string

record ledger_entry =
  le_id :: string
  le_account :: string
  le_type :: entry_type
  le_money :: money
  le_timestamp :: string
  le_intentId :: "string option"
  le_txHash :: "string option"
  le_correlationId :: string

fun NORMAL_BALANCE :: "account_type \<Rightarrow> normal_balance" where
  "NORMAL_BALANCE Asset = DebitNormal"
| "NORMAL_BALANCE Expense = DebitNormal"
| "NORMAL_BALANCE Liability = CreditNormal"
| "NORMAL_BALANCE Income = CreditNormal"
| "NORMAL_BALANCE Equity = CreditNormal"

type_synonym account_registry = "(string, ledger_account) jsmap"

definition reg_register ::
  "account_registry \<Rightarrow> account_ref \<Rightarrow> string \<Rightarrow> ledger_account result \<times> account_registry" where
  "reg_register reg ref timestamp =
     (if jm_has reg (ar_id ref) then (Inl (LedgerError L_DUPLICATE_ACCOUNT_ID), reg)
      else let account = \<lparr>la_ref = ref, la_createdAt = timestamp\<rparr>
           in (Inr account, jm_set reg (ar_id ref) account))"

definition reg_get :: "account_registry \<Rightarrow> string \<Rightarrow> ledger_account option" where
  "reg_get reg i = jm_get reg i"

definition reg_has :: "account_registry \<Rightarrow> string \<Rightarrow> bool" where
  "reg_has reg i = jm_has reg i"

definition reg_assertExists :: "account_registry \<Rightarrow> string \<Rightarrow> ledger_account result" where
  "reg_assertExists reg i =
     (case jm_get reg i of None \<Rightarrow> Inl (LedgerError L_UNKNOWN_ACCOUNT) | Some a \<Rightarrow> Inr a)"

definition reg_getType :: "account_registry \<Rightarrow> string \<Rightarrow> account_type result" where
  "reg_getType reg i = bind_r (reg_assertExists reg i) (\<lambda>a. Inr (ar_type (la_ref a)))"

definition reg_getNormalBalance :: "account_registry \<Rightarrow> string \<Rightarrow> normal_balance result" where
  "reg_getNormalBalance reg i = bind_r (reg_getType reg i) (\<lambda>t. Inr (NORMAL_BALANCE t))"

definition reg_getAll :: "account_registry \<Rightarrow> ledger_account list" where
  "reg_getAll reg = jm_values reg"

definition reg_count :: "account_registry \<Rightarrow> nat" where
  "reg_count reg = length reg"

definition reg_getByType :: "account_registry \<Rightarrow> account_type \<Rightarrow> ledger_account list" where
  "reg_getByType reg t = filter (\<lambda>a. ar_type (la_ref a) = t) (jm_values reg)"

subsection \<open>Well-formed registries\<close>

text \<open>Ids are unique and every account is stored under its own id.\<close>

definition reg_wf :: "account_registry \<Rightarrow> bool" where
  "reg_wf reg \<longleftrightarrow> jm_wf reg \<and> (\<forall>(i, a) \<in> set reg. ar_id (la_ref a) = i)"

lemma reg_wf_empty [simp]: "reg_wf []"
  by (simp add: reg_wf_def)

lemma reg_register_new:
  "\<not> reg_has reg (ar_id ref) \<Longrightarrow>
     reg_register reg ref ts =
       (Inr \<lparr>la_ref = ref, la_createdAt = ts\<rparr>,
        reg @ [(ar_id ref, \<lparr>la_ref = ref, la_createdAt = ts\<rparr>)])"
  by (simp add: reg_register_def reg_has_def Let_def jm_set_new)

lemma reg_register_dup:
  "reg_has reg (ar_id ref) \<Longrightarrow>
     reg_register reg ref ts = (Inl (LedgerError L_DUPLICATE_ACCOUNT_ID), reg)"
  by (simp add: reg_register_def reg_has_def)

lemma reg_wf_snoc:
  "reg_wf reg \<Longrightarrow> \<not> reg_has reg (ar_id (la_ref a)) \<Longrightarrow> reg_wf (reg @ [(ar_id (la_ref a), a)])"
  by (auto simp: reg_wf_def jm_wf_def reg_has_def jm_has_keys)

lemma reg_register_wf:
  assumes "reg_wf reg" shows "reg_wf (snd (reg_register reg ref ts))"
proof (cases "reg_has reg (ar_id ref)")
  case True
  then show ?thesis using assms by (simp add: reg_register_dup)
next
  case False
  then show ?thesis
    using assms reg_wf_snoc[of reg "\<lparr>la_ref = ref, la_createdAt = ts\<rparr>"]
    by (simp add: reg_register_new)
qed

text \<open>Registration never changes or removes an account: the registry only grows at its end.\<close>

lemma reg_register_prefix: "\<exists>new. snd (reg_register reg ref ts) = reg @ new"
  by (cases "reg_has reg (ar_id ref)") (simp_all add: reg_register_dup reg_register_new)

lemma reg_assertExists_Inr [result_simps]:
  "reg_assertExists reg i = Inr a \<longleftrightarrow> jm_get reg i = Some a"
  by (simp add: reg_assertExists_def split: option.splits)

lemma reg_assertExists_has: "(\<exists>a. reg_assertExists reg i = Inr a) \<longleftrightarrow> reg_has reg i"
  by (auto simp: reg_assertExists_def reg_has_def jm_has_def split: option.splits)

lemma reg_getType_has: "(\<exists>t. reg_getType reg i = Inr t) \<longleftrightarrow> reg_has reg i"
  by (auto simp: reg_getType_def reg_has_def jm_has_def result_simps)

end
