(* ===== verification/Balances.thy ===== *)
theory Balances
  imports Accounts
begin

section \<open>Balance calculation\<close>

text \<open>
  Model of \<^verbatim>\<open>packages/ledger/src/balance-calculator.ts\<close>. Entries are grouped under the
  text key \<^verbatim>\<open>accountId::currency\<close> into accumulators; account balances and the trial
  balance are computed from these. The lemmas give the accumulators as sums over the
  entries and show when the debit and credit columns of a trial balance agree.
\<close>

record accumulator =
  acc_account :: string
  acc_currency :: string
  acc_decimals :: int
  acc_debits :: int
  acc_credits :: int

record currency_balance =
  cb_currency :: string
  cb_decimals :: int
  cb_balance :: string
  cb_totalDebits :: string
  cb_totalCredits :: string

record account_balance =
  ab_account :: string
  ab_type :: account_type
  ab_balances :: "currency_balance list"

record trial_line =
  tl_account :: string
  tl_type :: account_type
  tl_currency :: string
  tl_decimals :: int
  tl_debit :: string
  tl_credit :: string

record trial_balance =
  tb_lines :: "trial_line list"
  tb_generatedAt :: string
  tb_balanced :: bool

definition balanceKey :: "string \<Rightarrow> string \<Rightarrow> string" where
  "balanceKey account cur = account @ ''::'' @ cur"

definition acc_step ::
  "(string, accumulator) jsmap \<Rightarrow> ledger_entry \<Rightarrow> (string, accumulator) jsmap result" where
  "acc_step accs entry =
     (let key = balanceKey (le_account entry) (m_currency (le_money entry));
          acc = (case jm_get accs key of
                   None \<Rightarrow> \<lparr>acc_account = le_account entry,
                            acc_currency = m_currency (le_money entry),
                            acc_decimals = m_decimals (le_money entry),
                            acc_debits = 0, acc_credits = 0\<rparr>
                 | Some a \<Rightarrow> a)
      in bind_r (parseAmount (m_amount (le_money entry)) (m_decimals (le_money entry))) (\<lambda>amt.
           Inr (jm_set accs key
             (if le_type entry = Debit then acc\<lparr>acc_debits := acc_debits acc + amt\<rparr>
              else acc\<lparr>acc_credits := acc_credits acc + amt\<rparr>))))"

definition buildAccumulators :: "ledger_entry list \<Rightarrow> (string, accumulator) jsmap result" where
  "buildAccumulators es = foldE acc_step [] es"

definition currency_balance_of :: "normal_balance \<Rightarrow> accumulator \<Rightarrow> currency_balance" where
  "currency_balance_of nb acc =
     (let net = (if nb = DebitNormal then acc_debits acc - acc_credits acc
                 else acc_credits acc - acc_debits acc)
      in \<lparr>cb_currency = acc_currency acc, cb_decimals = acc_decimals acc,
          cb_balance = formatAmount net (acc_decimals acc),
          cb_totalDebits = formatAmount (acc_debits acc) (acc_decimals acc),
          cb_totalCredits = formatAmount (acc_credits acc) (acc_decimals acc)\<rparr>)"

definition computeAccountBalance ::
  "string \<Rightarrow> ledger_entry list \<Rightarrow> account_registry \<Rightarrow> account_balance result" where
  "computeAccountBalance accountId es reg =
     bind_r (reg_assertExists reg accountId) (\<lambda>account.
     bind_r (buildAccumulators (filter (\<lambda>e. le_account e = accountId) es)) (\<lambda>accs.
       let nb = NORMAL_BALANCE (ar_type (la_ref account))
       in Inr \<lparr>ab_account = accountId, ab_type = ar_type (la_ref account),
               ab_balances = map (currency_balance_of nb) (jm_values accs)\<rparr>))"

text \<open>The \<^verbatim>\<open>Map\<close> of running totals per currency (debits, credits).\<close>

type_synonym totals = "(string, int \<times> int) jsmap"

definition add_totals :: "totals \<Rightarrow> string \<Rightarrow> int \<Rightarrow> int \<Rightarrow> totals" where
  "add_totals m cur d k =
     (case (case jm_get m cur of None \<Rightarrow> (0, 0) | Some t \<Rightarrow> t) of
        (x, y) \<Rightarrow> jm_set m cur (x + d, y + k))"

definition debit_column :: "normal_balance \<Rightarrow> accumulator \<Rightarrow> int" where
  "debit_column nb acc =
     (let netDebit = acc_debits acc - acc_credits acc
      in if nb = DebitNormal then (if netDebit \<ge> 0 then netDebit else 0)
         else let netCredit = acc_credits acc - acc_debits acc
              in (if netCredit \<ge> 0 then 0 else - netCredit))"

definition credit_column :: "normal_balance \<Rightarrow> accumulator \<Rightarrow> int" where
  "credit_column nb acc =
     (let netDebit = acc_debits acc - acc_credits acc
      in if nb = DebitNormal then (if netDebit \<ge> 0 then 0 else - netDebit)
         else let netCredit = acc_credits acc - acc_debits acc
              in (if netCredit \<ge> 0 then netCredit else 0))"

definition trial_step ::
  "account_registry \<Rightarrow> trial_line list \<times> totals \<Rightarrow> accumulator \<Rightarrow> (trial_line list \<times> totals) result"
where
  "trial_step reg st acc =
     bind_r (reg_getType reg (acc_account acc)) (\<lambda>accountType.
       let nb = NORMAL_BALANCE accountType;
           d = debit_column nb acc;
           k = credit_column nb acc
       in Inr (fst st @ [\<lparr>tl_account = acc_account acc, tl_type = accountType,
                          tl_currency = acc_currency acc, tl_decimals = acc_decimals acc,
                          tl_debit = formatAmount d (acc_decimals acc),
                          tl_credit = formatAmount k (acc_decimals acc)\<rparr>],
               add_totals (snd st) (acc_currency acc) d k))"

definition totals_balanced :: "totals \<Rightarrow> bool" where
  "totals_balanced m \<longleftrightarrow> list_all (\<lambda>(cur, d, k). d = k) m"

definition computeTrialBalance ::
  "ledger_entry list \<Rightarrow> account_registry \<Rightarrow> string \<Rightarrow> trial_balance result" where
  "computeTrialBalance es reg timestamp =
     bind_r (buildAccumulators es) (\<lambda>accs.
     bind_r (foldE (trial_step reg) ([], []) (jm_values accs)) (\<lambda>(ls, tot).
       Inr \<lparr>tb_lines = ls, tb_generatedAt = timestamp, tb_balanced = totals_balanced tot\<rparr>))"

definition assert_totals :: "totals \<Rightarrow> unit result" where
  "assert_totals m =
     forE (\<lambda>(cur, d, k). throw_when (d \<noteq> k) (LedgerError L_UNBALANCED_TRANSACTION)) m"

definition line_totals :: "totals \<Rightarrow> trial_line \<Rightarrow> totals result" where
  "line_totals m line =
     bind_r (parseAmount (tl_debit line) (tl_decimals line)) (\<lambda>d.
     bind_r (parseAmount (tl_credit line) (tl_decimals line)) (\<lambda>k.
       Inr (add_totals m (tl_currency line) d k)))"

definition assertTrialBalanced :: "trial_balance \<Rightarrow> trial_balance result" where
  "assertTrialBalanced tb =
     bind_r (foldE line_totals [] (tb_lines tb)) (\<lambda>tot.
     bind_r (assert_totals tot) (\<lambda>_. Inr tb))"

subsection \<open>Sums over a group\<close>

definition sum_by :: "('a \<Rightarrow> 'k) \<Rightarrow> ('a \<Rightarrow> int) \<Rightarrow> 'a list \<Rightarrow> 'k \<Rightarrow> int" where
  "sum_by g f xs c = (\<Sum>x\<leftarrow>filter (\<lambda>x. g x = c) xs. f x)"

lemma sum_by_Nil [simp]: "sum_by g f [] c = 0"
  by (simp add: sum_by_def)

lemma sum_by_Cons [simp]:
  "sum_by g f (x # xs) c = (if g x = c then f x else 0) + sum_by g f xs c"
  by (simp add: sum_by_def)

lemma sum_by_append [simp]: "sum_by g f (xs @ ys) c = sum_by g f xs c + sum_by g f ys c"
  by (simp add: sum_by_def)

lemma sum_by_map [simp]: "sum_by g f (map h xs) c = sum_by (g \<circ> h) (f \<circ> h) xs c"
  by (induction xs) auto

lemma sum_by_diff: "sum_by g (\<lambda>x. f x - h x) xs c = sum_by g f xs c - sum_by g h xs c"
  by (induction xs) auto

lemma sum_by_concat: "sum_by g f (concat xss) c = (\<Sum>xs\<leftarrow>xss. sum_by g f xs c)"
  by (induction xss) auto

lemma sum_by_cong:
  "(\<And>x. x \<in> set xs \<Longrightarrow> g x = c \<Longrightarrow> f x = f' x) \<Longrightarrow> sum_by g f xs c = sum_by g f' xs c"
  by (induction xs) auto

lemma sum_by_mset: "mset xs = mset ys \<Longrightarrow> sum_by g f xs c = sum_by g f ys c"
proof -
  assume "mset xs = mset ys"
  then have "mset (map f (filter (\<lambda>x. g x = c) xs)) = mset (map f (filter (\<lambda>x. g x = c) ys))"
    by simp
  then show ?thesis unfolding sum_by_def by (metis sum_mset_sum_list)
qed

subsection \<open>Running totals\<close>

definition total_of :: "totals \<Rightarrow> string \<Rightarrow> int \<times> int" where
  "total_of m c = (case jm_get m c of None \<Rightarrow> (0, 0) | Some t \<Rightarrow> t)"

lemma total_of_Nil [simp]: "total_of [] c = (0, 0)"
  by (simp add: total_of_def)

lemma total_of_add:
  "total_of (add_totals m cur d k) c =
     (if c = cur then (fst (total_of m c) + d, snd (total_of m c) + k) else total_of m c)"
  by (auto simp: total_of_def add_totals_def split: option.splits prod.splits)

lemma jm_wf_add_totals [simp]: "jm_wf m \<Longrightarrow> jm_wf (add_totals m cur d k)"
  by (auto simp: add_totals_def split: prod.splits)

lemma total_of_fold:
  "total_of (foldl (\<lambda>m x. add_totals m (g x) (d x) (k x)) m xs) c =
     (fst (total_of m c) + sum_by g d xs c, snd (total_of m c) + sum_by g k xs c)"
  by (induction xs arbitrary: m) (auto simp: total_of_add)

lemma jm_wf_fold_totals [simp]:
  "jm_wf m \<Longrightarrow> jm_wf (foldl (\<lambda>m x. add_totals m (g x) (d x) (k x)) m xs)"
  by (induction xs arbitrary: m) auto

lemma totals_balanced_iff:
  assumes "jm_wf m"
  shows "totals_balanced m \<longleftrightarrow> (\<forall>c. fst (total_of m c) = snd (total_of m c))"
proof -
  have "totals_balanced m \<longleftrightarrow> (\<forall>c d k. jm_get m c = Some (d, k) \<longrightarrow> d = k)"
    using jm_get_in[OF assms] by (force simp: totals_balanced_def list_all_iff)
  then show ?thesis by (force simp: total_of_def split: option.splits)
qed

lemma assert_totals_Inr: "assert_totals m = Inr () \<longleftrightarrow> totals_balanced m"
  by (auto simp: assert_totals_def totals_balanced_def list_all_iff result_simps split: prod.splits)

lemma assert_totals_cases:
  "assert_totals m = (if totals_balanced m then Inr () else Inl (LedgerError L_UNBALANCED_TRANSACTION))"
proof (cases "totals_balanced m")
  case True
  then show ?thesis using assert_totals_Inr by simp
next
  case False
  have "assert_totals m = Inl (LedgerError L_UNBALANCED_TRANSACTION)"
    unfolding assert_totals_def
    by (rule forE_Inl_same)
      (use False in \<open>auto simp: totals_balanced_def list_all_iff result_simps throw_when_def split: prod.splits if_splits\<close>)
  with False show ?thesis by simp
qed

lemma group_totals_balanced_iff:
  "totals_balanced (foldl (\<lambda>m x. add_totals m (g x) (d x) (k x)) [] xs) \<longleftrightarrow>
     (\<forall>c. sum_by g d xs c = sum_by g k xs c)"
  by (simp add: totals_balanced_iff total_of_fold)

subsection \<open>Accumulators as sums\<close>

definition entry_cur :: "ledger_entry \<Rightarrow> string" where
  "entry_cur e = m_currency (le_money e)"

definition entry_key :: "ledger_entry \<Rightarrow> string" where
  "entry_key e = balanceKey (le_account e) (entry_cur e)"

definition entry_amount :: "ledger_entry \<Rightarrow> int" where
  "entry_amount e = (case scaled_of (le_money e) of Inr v \<Rightarrow> v | Inl _ \<Rightarrow> 0)"

definition entry_debit :: "ledger_entry \<Rightarrow> int" where
  "entry_debit e = (if le_type e = Debit then entry_amount e else 0)"

definition entry_credit :: "ledger_entry \<Rightarrow> int" where
  "entry_credit e = (if le_type e = Debit then 0 else entry_amount e)"

definition parses :: "ledger_entry \<Rightarrow> bool" where
  "parses e \<longleftrightarrow> (\<exists>v. scaled_of (le_money e) = Inr v)"

lemma parses_amount: "parses e \<Longrightarrow> scaled_of (le_money e) = Inr (entry_amount e)"
  by (auto simp: parses_def entry_amount_def)

definition acc_spec :: "ledger_entry list \<Rightarrow> string \<Rightarrow> accumulator option" where
  "acc_spec es key =
     (case filter (\<lambda>e. entry_key e = key) es of
        [] \<Rightarrow> None
      | e # _ \<Rightarrow> Some \<lparr>acc_account = le_account e, acc_currency = entry_cur e,
                     acc_decimals = m_decimals (le_money e),
                     acc_debits = sum_by entry_key entry_debit es key,
                     acc_credits = sum_by entry_key entry_credit es key\<rparr>)"

definition accs_of :: "ledger_entry list \<Rightarrow> (string, accumulator) jsmap \<Rightarrow> bool" where
  "accs_of es m \<longleftrightarrow> jm_wf m \<and> (\<forall>key. jm_get m key = acc_spec es key)"

lemma acc_step_spec:
  assumes m: "accs_of es m" and s: "acc_step m e = Inr m'"
  shows "accs_of (es @ [e]) m' \<and> parses e"
proof -
  let ?k = "entry_key e"
  let ?new = "\<lparr>acc_account = le_account e, acc_currency = entry_cur e,
      acc_decimals = m_decimals (le_money e), acc_debits = 0, acc_credits = 0\<rparr>"
  let ?old = "case jm_get m ?k of None \<Rightarrow> ?new | Some a \<Rightarrow> a"
  obtain v where v: "scaled_of (le_money e) = Inr v"
    using s by (auto simp: acc_step_def Let_def result_simps scaled_of_def)
  have m': "m' = jm_set m ?k (if le_type e = Debit then ?old\<lparr>acc_debits := acc_debits ?old + v\<rparr>
               else ?old\<lparr>acc_credits := acc_credits ?old + v\<rparr>)"
    using s v unfolding acc_step_def Let_def scaled_of_def entry_key_def entry_cur_def
    by (simp del: if_split split del: if_split)
  have p: "parses e" and a: "entry_amount e = v" using v by (auto simp: parses_def entry_amount_def)
  have "jm_get m' key = acc_spec (es @ [e]) key" for key
  proof (cases "key = ?k")
    case True
    have old: "jm_get m ?k = acc_spec es ?k" using m by (simp add: accs_of_def)
    show ?thesis
    proof (cases "filter (\<lambda>e'. entry_key e' = ?k) es")
      case Nil
      then show ?thesis using True old
        by (auto simp: m' acc_spec_def sum_by_def entry_debit_def entry_credit_def a)
    next
      case (Cons e0 es0)
      then show ?thesis using True old
        by (auto simp: m' acc_spec_def entry_debit_def entry_credit_def a)
    qed
  next
    case False
    then show ?thesis using m by (auto simp: m' acc_spec_def accs_of_def split: list.splits)
  qed
  moreover have "jm_wf m'" using m by (auto simp: m' accs_of_def)
  ultimately show ?thesis using p by (simp add: accs_of_def)
qed

lemma buildAccumulators_spec:
  assumes "buildAccumulators es = Inr m"
  shows "accs_of es m \<and> (\<forall>e \<in> set es. parses e)"
  using assms unfolding buildAccumulators_def
proof (induction es arbitrary: m rule: rev_induct)
  case Nil
  then show ?case by (simp add: accs_of_def acc_spec_def)
next
  case (snoc e es)
  then obtain m0 where "foldE acc_step [] es = Inr m0" "acc_step m0 e = Inr m"
    by (auto simp: foldE_append result_simps)
  with snoc.IH acc_step_spec show ?case by auto
qed

lemma buildAccumulators_ok:
  assumes "\<forall>e \<in> set es. parses e"
  shows "\<exists>m. buildAccumulators es = Inr m"
proof -
  have "foldE acc_step s es = Inr (foldl (\<lambda>s e. projr (acc_step s e)) s es)" for s
    by (rule foldE_total) (use assms in \<open>auto simp: acc_step_def parses_def scaled_of_def Let_def\<close>)
  then show ?thesis by (simp add: buildAccumulators_def)
qed

lemma buildAccumulators_error:
  "buildAccumulators es = Inl e \<Longrightarrow> e = LedgerError L_INVALID_AMOUNT"
proof -
  have "foldE acc_step s es = Inl e \<Longrightarrow> e = LedgerError L_INVALID_AMOUNT" for s
    by (induction es arbitrary: s)
      (auto simp: acc_step_def Let_def result_simps dest: parseAmount_error)
  then show "buildAccumulators es = Inl e \<Longrightarrow> e = LedgerError L_INVALID_AMOUNT"
    by (simp add: buildAccumulators_def)
qed

subsection \<open>The trial balance\<close>

definition acc_nb :: "account_registry \<Rightarrow> accumulator \<Rightarrow> normal_balance" where
  "acc_nb reg a = NORMAL_BALANCE (projr (reg_getType reg (acc_account a)))"

definition trial_line_of :: "account_registry \<Rightarrow> accumulator \<Rightarrow> trial_line" where
  "trial_line_of reg a =
     \<lparr>tl_account = acc_account a, tl_type = projr (reg_getType reg (acc_account a)),
      tl_currency = acc_currency a, tl_decimals = acc_decimals a,
      tl_debit = formatAmount (debit_column (acc_nb reg a) a) (acc_decimals a),
      tl_credit = formatAmount (credit_column (acc_nb reg a) a) (acc_decimals a)\<rparr>"

lemma columns_net: "debit_column nb a - credit_column nb a = acc_debits a - acc_credits a"
  by (simp add: debit_column_def credit_column_def Let_def)

lemma columns_nonneg: "0 \<le> debit_column nb a" "0 \<le> credit_column nb a"
  by (auto simp: debit_column_def credit_column_def Let_def)

lemma net_columns:
  "sum_by g (\<lambda>a. acc_debits a - acc_credits a) as c =
     sum_by g (\<lambda>a. debit_column (acc_nb reg a) a) as c -
     sum_by g (\<lambda>a. credit_column (acc_nb reg a) a) as c"
  by (simp only: columns_net sum_by_diff[symmetric])

abbreviation column_totals :: "account_registry \<Rightarrow> totals \<Rightarrow> accumulator list \<Rightarrow> totals" where
  "column_totals reg m as \<equiv>
     foldl (\<lambda>m a. add_totals m (acc_currency a) (debit_column (acc_nb reg a) a)
                    (credit_column (acc_nb reg a) a)) m as"

lemma trial_fold:
  assumes "\<forall>a \<in> set as. reg_has reg (acc_account a)"
  shows "foldE (trial_step reg) st as =
    Inr (fst st @ map (trial_line_of reg) as, column_totals reg (snd st) as)"
  using assms
proof (induction as arbitrary: st)
  case Nil
  then show ?case by simp
next
  case (Cons a as)
  then obtain t where "reg_getType reg (acc_account a) = Inr t"
    using reg_getType_has by force
  with Cons show ?case
    by (simp add: trial_step_def Let_def trial_line_of_def acc_nb_def)
qed

lemma line_totals_fold:
  assumes "\<forall>a \<in> set as. 0 \<le> acc_decimals a"
  shows "foldE line_totals m (map (trial_line_of reg) as) = Inr (column_totals reg m as)"
  using assms
  by (induction as arbitrary: m) (auto simp: line_totals_def trial_line_of_def)

lemma sum_over_keys:
  assumes "distinct ks" and "key ` set xs \<subseteq> set ks"
  shows "(\<Sum>k\<leftarrow>ks. sum_by key f xs k) = (\<Sum>x\<leftarrow>xs. f x)"
  using assms(2)
proof (induction xs)
  case Nil
  then show ?case by simp
next
  case (Cons x xs)
  have "(\<Sum>k\<leftarrow>ks. if key x = k then f x else 0) = f x"
    using assms(1) Cons.prems
    by (simp add: sum_list_distinct_conv_sum_set sum.delta')
  with Cons show ?case by (simp add: sum_list_addf)
qed

definition keys_coherent :: "ledger_entry list \<Rightarrow> bool" where
  "keys_coherent es \<longleftrightarrow>
     (\<forall>e \<in> set es. \<forall>e' \<in> set es. entry_key e = entry_key e' \<longrightarrow> entry_cur e = entry_cur e')"

definition double_entry :: "ledger_entry list \<Rightarrow> bool" where
  "double_entry es \<longleftrightarrow>
     (\<forall>c. sum_by entry_cur entry_debit es c = sum_by entry_cur entry_credit es c)"

lemma accs_of_mem:
  assumes "accs_of es m" and "(k, a) \<in> set m"
  obtains e where "e \<in> set es" "entry_key e = k" "acc_account a = le_account e"
    "acc_currency a = entry_cur e" "acc_decimals a = m_decimals (le_money e)"
    "acc_debits a = sum_by entry_key entry_debit es k"
    "acc_credits a = sum_by entry_key entry_credit es k"
proof -
  have "acc_spec es k = Some a" using assms jm_get_in[of m k a] by (simp add: accs_of_def)
  then obtain e es' where f: "filter (\<lambda>e. entry_key e = k) es = e # es'"
    and a: "a = \<lparr>acc_account = le_account e, acc_currency = entry_cur e,
                     acc_decimals = m_decimals (le_money e),
                     acc_debits = sum_by entry_key entry_debit es k,
                     acc_credits = sum_by entry_key entry_credit es k\<rparr>"
    by (auto simp: acc_spec_def split: list.splits)
  have "e \<in> set es" "entry_key e = k"
    using arg_cong[OF f, of set] by auto
  then show ?thesis using that a by simp
qed

lemma accs_of_keys:
  assumes "accs_of es m" shows "set (jm_keys m) = entry_key ` set es"
proof -
  have "k \<in> set (jm_keys m) \<longleftrightarrow> k \<in> entry_key ` set es" for k
  proof -
    have "k \<in> set (jm_keys m) \<longleftrightarrow> acc_spec es k \<noteq> None"
      using assms jm_has_keys[of m k] by (simp add: jm_has_def accs_of_def)
    also have "\<dots> \<longleftrightarrow> filter (\<lambda>e. entry_key e = k) es \<noteq> []"
      by (auto simp: acc_spec_def split: list.splits)
    also have "\<dots> \<longleftrightarrow> k \<in> entry_key ` set es"
      by (auto simp: filter_empty_conv)
    finally show ?thesis .
  qed
  then show ?thesis by blast
qed

lemma net_over_accs:
  assumes m: "accs_of es m" and coh: "keys_coherent es"
  shows "sum_by acc_currency (\<lambda>a. acc_debits a - acc_credits a) (jm_values m) c =
    sum_by entry_cur (\<lambda>e. entry_debit e - entry_credit e) es c"
proof -
  let ?f = "\<lambda>e. if entry_cur e = c then entry_debit e - entry_credit e else 0"
  have group: "(if acc_currency a = c then acc_debits a - acc_credits a else 0) = sum_by entry_key ?f es k"
    if ka: "(k, a) \<in> set m" for k a
  proof -
    obtain e where e: "e \<in> set es" "entry_key e = k" "acc_currency a = entry_cur e"
      and d: "acc_debits a = sum_by entry_key entry_debit es k"
        "acc_credits a = sum_by entry_key entry_credit es k"
      by (rule accs_of_mem[OF m ka])
    have cur: "entry_cur e' = acc_currency a" if "e' \<in> set es" "entry_key e' = k" for e'
      using coh e that unfolding keys_coherent_def by metis
    have "sum_by entry_key ?f es k =
        sum_by entry_key (\<lambda>e'. if acc_currency a = c then entry_debit e' - entry_credit e' else 0) es k"
      by (rule sum_by_cong) (simp add: cur)
    also have "\<dots> = (if acc_currency a = c then acc_debits a - acc_credits a else 0)"
      by (simp add: sum_by_diff d) (simp add: sum_by_def)
    finally show ?thesis by simp
  qed
  have "sum_by acc_currency (\<lambda>a. acc_debits a - acc_credits a) (jm_values m) c =
      (\<Sum>(k, a)\<leftarrow>m. if acc_currency a = c then acc_debits a - acc_credits a else 0)"
    by (induction m) (simp_all add: case_prod_unfold del: sum_by_map)
  also have "\<dots> = (\<Sum>(k, a)\<leftarrow>m. sum_by entry_key ?f es k)"
    by (rule arg_cong[where f = sum_list], rule map_cong) (auto simp: group)
  also have "\<dots> = (\<Sum>k\<leftarrow>jm_keys m. sum_by entry_key ?f es k)"
    by (simp add: case_prod_unfold comp_def)
  also have "\<dots> = (\<Sum>e\<leftarrow>es. ?f e)"
    using m accs_of_keys[OF m] by (intro sum_over_keys) (auto simp: accs_of_def jm_wf_def)
  also have "\<dots> = sum_by entry_cur (\<lambda>e. entry_debit e - entry_credit e) es c"
    by (induction es) auto
  finally show ?thesis .
qed

text \<open>The trial balance of registered, parseable entries: one line per accumulator, and it
  balances exactly when the accumulators' nets cancel in every currency.\<close>

lemma trial_balance_result:
  assumes es: "\<forall>e \<in> set es. parses e \<and> reg_has reg (le_account e)"
  obtains m tb where "buildAccumulators es = Inr m" "computeTrialBalance es reg ts = Inr tb"
    "tb_lines tb = map (trial_line_of reg) (jm_values m)"
    "tb_balanced tb \<longleftrightarrow>
       (\<forall>c. sum_by acc_currency (\<lambda>a. acc_debits a - acc_credits a) (jm_values m) c = 0)"
    "assertTrialBalanced tb =
       (if tb_balanced tb then Inr tb else Inl (LedgerError L_UNBALANCED_TRANSACTION))"
proof -
  obtain m where b: "buildAccumulators es = Inr m" using buildAccumulators_ok es by blast
  then have m: "accs_of es m" using buildAccumulators_spec by blast
  have acc: "reg_has reg (acc_account a) \<and> 0 \<le> acc_decimals a" if "a \<in> set (jm_values m)" for a
  proof -
    from that obtain k where "(k, a) \<in> set m" by force
    from accs_of_mem[OF m this] obtain e where
      "e \<in> set es" "acc_account a = le_account e" "acc_decimals a = m_decimals (le_money e)"
      by metis
    with es show ?thesis by (auto simp: parses_def dest: scaled_of_nonneg_decimals)
  qed
  let ?tot = "column_totals reg [] (jm_values m)"
  let ?tb = "\<lparr>tb_lines = map (trial_line_of reg) (jm_values m), tb_generatedAt = ts,
      tb_balanced = totals_balanced ?tot\<rparr>"
  have c: "computeTrialBalance es reg ts = Inr ?tb"
    using trial_fold[of "jm_values m" reg "([], [])"] acc
    by (simp add: computeTrialBalance_def b)
  have bal: "totals_balanced ?tot \<longleftrightarrow>
      (\<forall>c. sum_by acc_currency (\<lambda>a. acc_debits a - acc_credits a) (jm_values m) c = 0)"
    unfolding group_totals_balanced_iff net_columns[where reg = reg] by simp
  have "foldE line_totals [] (tb_lines ?tb) = Inr ?tot"
    using line_totals_fold[of "jm_values m" "[]" reg] acc by simp
  then have "assertTrialBalanced ?tb =
      (if tb_balanced ?tb then Inr ?tb else Inl (LedgerError L_UNBALANCED_TRANSACTION))"
    by (simp add: assertTrialBalanced_def assert_totals_cases)
  with b c bal show ?thesis using that by simp
qed

lemma trial_balance_balances:
  assumes "\<forall>e \<in> set es. parses e \<and> reg_has reg (le_account e)"
    and "keys_coherent es" and "double_entry es"
  shows "\<exists>tb. computeTrialBalance es reg ts = Inr tb \<and> tb_balanced tb \<and>
    assertTrialBalanced tb = Inr tb"
proof -
  obtain m tb where b: "buildAccumulators es = Inr m" and c: "computeTrialBalance es reg ts = Inr tb"
    and bal: "tb_balanced tb \<longleftrightarrow>
       (\<forall>c. sum_by acc_currency (\<lambda>a. acc_debits a - acc_credits a) (jm_values m) c = 0)"
    and a: "assertTrialBalanced tb =
       (if tb_balanced tb then Inr tb else Inl (LedgerError L_UNBALANCED_TRANSACTION))"
    using assms(1) by (rule trial_balance_result)
  have "accs_of es m" using buildAccumulators_spec[OF b] ..
  then have "tb_balanced tb"
    using assms(3) bal net_over_accs[OF _ assms(2)] by (simp add: sum_by_diff double_entry_def)
  with a c show ?thesis by simp
qed

subsection \<open>The balance of one account\<close>

lemma balanceKey_inj [simp]: "balanceKey a c = balanceKey a c' \<longleftrightarrow> c = c'"
  by (simp add: balanceKey_def)

lemma single_account_sums:
  assumes "\<forall>e \<in> set es. le_account e = i"
  shows "sum_by entry_key f es (balanceKey i c) = sum_by entry_cur f es c"
proof -
  have "filter (\<lambda>e. entry_key e = balanceKey i c) es = filter (\<lambda>e. entry_cur e = c) es"
    by (rule filter_cong) (use assms in \<open>auto simp: entry_key_def\<close>)
  then show ?thesis by (simp add: sum_by_def)
qed

lemma single_account_accs:
  assumes m: "accs_of es m" and i: "\<forall>e \<in> set es. le_account e = i" and p: "\<forall>e \<in> set es. parses e"
  shows "\<forall>a \<in> set (jm_values m).
      acc_debits a = sum_by entry_cur entry_debit es (acc_currency a) \<and>
      acc_credits a = sum_by entry_cur entry_credit es (acc_currency a) \<and> 0 \<le> acc_decimals a"
    and "distinct (map acc_currency (jm_values m))"
    and "acc_currency ` set (jm_values m) = entry_cur ` set es"
proof -
  have key: "k = balanceKey i (acc_currency a) \<and>
      acc_debits a = sum_by entry_cur entry_debit es (acc_currency a) \<and>
      acc_credits a = sum_by entry_cur entry_credit es (acc_currency a) \<and> 0 \<le> acc_decimals a"
    if ka: "(k, a) \<in> set m" for k a
  proof -
    obtain e where e: "e \<in> set es" "entry_key e = k" "acc_currency a = entry_cur e"
        "acc_decimals a = m_decimals (le_money e)"
      and d: "acc_debits a = sum_by entry_key entry_debit es k"
        "acc_credits a = sum_by entry_key entry_credit es k"
      by (rule accs_of_mem[OF m ka])
    have k: "k = balanceKey i (acc_currency a)"
      unfolding e(2)[symmetric] e(3) entry_key_def using i e(1) by simp
    moreover have "0 \<le> acc_decimals a"
      unfolding e(4) using p e(1) unfolding parses_def by (blast dest: scaled_of_nonneg_decimals)
    ultimately show ?thesis using d by (simp add: single_account_sums[OF i])
  qed
  show "\<forall>a \<in> set (jm_values m).
      acc_debits a = sum_by entry_cur entry_debit es (acc_currency a) \<and>
      acc_credits a = sum_by entry_cur entry_credit es (acc_currency a) \<and> 0 \<le> acc_decimals a"
    using key by fastforce
  have keys: "jm_keys m = map (\<lambda>a. balanceKey i (acc_currency a)) (jm_values m)"
    unfolding map_map by (rule map_cong) (use key in force)+
  have "distinct (jm_keys m)" using m by (simp add: accs_of_def jm_wf_def)
  then show "distinct (map acc_currency (jm_values m))"
    unfolding keys by (simp add: distinct_map inj_on_def)
  have "(\<lambda>a. balanceKey i (acc_currency a)) ` set (jm_values m) = entry_key ` set es"
    using accs_of_keys[OF m] keys by (metis set_map)
  also have "\<dots> = balanceKey i ` entry_cur ` set es"
    using i by (force simp: entry_key_def)
  finally have "balanceKey i ` (acc_currency ` set (jm_values m)) = balanceKey i ` (entry_cur ` set es)"
    by (simp add: image_image)
  then show "acc_currency ` set (jm_values m) = entry_cur ` set es"
    by (rule inj_image_eq_iff[THEN iffD1, rotated]) (simp add: inj_def)
qed

definition normal_net :: "normal_balance \<Rightarrow> int \<Rightarrow> int \<Rightarrow> int" where
  "normal_net nb d k = (if nb = DebitNormal then d - k else k - d)"

text \<open>the balance report of a registered account has exactly one line per currency in
  which the account has entries, and the texts of that line denote the sum of its debits, the
  sum of its credits and their difference in the account type's normal direction.\<close>

theorem account_balance_correct:
  assumes reg: "jm_get reg i = Some account"
    and ok: "\<forall>e \<in> set es. le_account e = i \<longrightarrow> parses e"
  shows "\<exists>ab. computeAccountBalance i es reg = Inr ab \<and>
    distinct (map cb_currency (ab_balances ab)) \<and>
    cb_currency ` set (ab_balances ab) = entry_cur ` {e \<in> set es. le_account e = i} \<and>
    (\<forall>b \<in> set (ab_balances ab).
       let own = filter (\<lambda>e. le_account e = i) es;
           d = sum_by entry_cur entry_debit own (cb_currency b);
           k = sum_by entry_cur entry_credit own (cb_currency b)
       in parseAmount (cb_totalDebits b) (cb_decimals b) = Inr d \<and>
          parseAmount (cb_totalCredits b) (cb_decimals b) = Inr k \<and>
          parseAmount (cb_balance b) (cb_decimals b) =
            Inr (normal_net (NORMAL_BALANCE (ar_type (la_ref account))) d k))"
proof -
  let ?own = "filter (\<lambda>e. le_account e = i) es"
  let ?nb = "NORMAL_BALANCE (ar_type (la_ref account))"
  have p: "\<forall>e \<in> set ?own. parses e" and i: "\<forall>e \<in> set ?own. le_account e = i" using ok by auto
  obtain m where b: "buildAccumulators ?own = Inr m" using buildAccumulators_ok[OF p] ..
  then have m: "accs_of ?own m" using buildAccumulators_spec by blast
  note accs = single_account_accs[OF m i p]
  have c: "computeAccountBalance i es reg = Inr \<lparr>ab_account = i, ab_type = ar_type (la_ref account),
      ab_balances = map (currency_balance_of ?nb) (jm_values m)\<rparr>"
    by (simp add: computeAccountBalance_def reg_assertExists_def reg b)
  show ?thesis
    unfolding c
    using accs by (auto simp: currency_balance_of_def Let_def normal_net_def comp_def image_image)
qed

theorem account_balance_correct_witness:
  "\<exists>reg account es ab. jm_get reg ''cash'' = Some account \<and>
     computeAccountBalance ''cash'' es reg = Inr ab \<and>
     cb_currency ` set (ab_balances ab) = {''USD''}"
proof -
  define account where "account = \<lparr>la_ref = \<lparr>ar_id = ''cash'', ar_type = Asset, ar_name = ''Cash''\<rparr>,
    la_createdAt = ''t0''\<rparr>"
  define e where "e = \<lparr>le_id = ''1'', le_account = ''cash'', le_type = Debit,
    le_money = \<lparr>m_amount = ''2.50'', m_currency = ''USD'', m_decimals = 2\<rparr>,
    le_timestamp = ''t'', le_intentId = None, le_txHash = None, le_correlationId = ''c''\<rparr>"
  have r: "jm_get [(''cash'', account)] ''cash'' = Some account" by simp
  have v: "scaled_of \<lparr>m_amount = ''2.50'', m_currency = ''USD'', m_decimals = 2\<rparr> = Inr 250"
    by code_simp
  then have "\<forall>x \<in> set [e]. le_account x = ''cash'' \<longrightarrow> parses x"
    by (simp add: parses_def e_def)
  from account_balance_correct[OF r this] obtain ab where
    "computeAccountBalance ''cash'' [e] [(''cash'', account)] = Inr ab"
    "cb_currency ` set (ab_balances ab) = entry_cur ` {x \<in> set [e]. le_account x = ''cash''}"
    by blast
  moreover have "entry_cur ` {x \<in> set [e]. le_account x = ''cash''} = {''USD''}"
  proof -
    have "{x \<in> set [e]. le_account x = ''cash''} = {e}" by (auto simp: e_def)
    then show ?thesis by (simp add: e_def entry_cur_def)
  qed
  ultimately have "jm_get [(''cash'', account)] ''cash'' = Some account \<and>
     computeAccountBalance ''cash'' [e] [(''cash'', account)] = Inr ab \<and>
     cb_currency ` set (ab_balances ab) = {''USD''}"
    using r by simp
  then show ?thesis by (intro exI)
qed

end
