(* ===== verification/Ledger.thy ===== *)
theory Ledger
  imports Balances
begin

section \<open>The append-only double-entry ledger\<close>

text \<open>
  Model of the class \<^verbatim>\<open>Ledger\<close> of \<^verbatim>\<open>packages/ledger/src/ledger.ts\<close>. The state is
  the account registry, the entries in order of appending, the set of entry ids and the
  list of transactions. Methods that change the state return their result (an error or a
  value) together with the new state, so that what an error leaves behind is part of the
  model. The clock is an argument where the code reads it. Telemetry is left out: the
  ledger guards every emission and it has no effect on state or results.

  The lemmas characterise when an append is accepted, show that the ledger invariant is kept
  by every operation, that every reachable ledger is double-entry in every currency, when
  its trial balance succeeds, and that a snapshot restores it. The locale
  \<open>ledger_port\<close> is what the treasury engines rely on.
\<close>

record ledger_transaction =
  lt_correlationId :: string
  lt_entries :: "ledger_entry list"
  lt_timestamp :: string
  lt_description :: "string option"

record append_result =
  apr_correlationId :: string
  apr_entryCount :: nat
  apr_timestamp :: string

record entry_filter =
  ef_accountId :: "string option"
  ef_correlationId :: "string option"
  ef_intentId :: "string option"
  ef_txHash :: "string option"
  ef_currency :: "string option"
  ef_fromTimestamp :: "string option"
  ef_toTimestamp :: "string option"

record ledger_snapshot =
  ls_version :: int
  ls_accounts :: "ledger_account list"
  ls_entries :: "ledger_entry list"
  ls_createdAt :: string

record ledger =
  ld_accounts :: account_registry
  ld_entries :: "ledger_entry list"
  ld_entryIds :: "string set"
  ld_transactions :: "ledger_transaction list"

definition SUPPORTED_SNAPSHOT_VERSION :: int where
  "SUPPORTED_SNAPSHOT_VERSION = 1"

definition new_ledger :: ledger where
  "new_ledger = \<lparr>ld_accounts = [], ld_entries = [], ld_entryIds = {}, ld_transactions = []\<rparr>"

subsection \<open>Accounts\<close>

definition registerAccount ::
  "ledger \<Rightarrow> account_ref \<Rightarrow> string option \<Rightarrow> string \<Rightarrow> ledger_account result \<times> ledger" where
  "registerAccount l ref timestamp now =
     (let ts = (case timestamp of None \<Rightarrow> now | Some t \<Rightarrow> t);
          (r, reg) = reg_register (ld_accounts l) ref ts
      in (r, l\<lparr>ld_accounts := reg\<rparr>))"

definition getAccount :: "ledger \<Rightarrow> string \<Rightarrow> ledger_account option" where
  "getAccount l i = reg_get (ld_accounts l) i"

definition hasAccount :: "ledger \<Rightarrow> string \<Rightarrow> bool" where
  "hasAccount l i = reg_has (ld_accounts l) i"

definition getAccounts :: "ledger \<Rightarrow> ledger_account list" where
  "getAccounts l = reg_getAll (ld_accounts l)"

subsection \<open>Appending\<close>

definition assertBalanced :: "ledger_entry list \<Rightarrow> unit result" where
  "assertBalanced es =
     bind_r (foldE (\<lambda>m e.
         bind_r (parseAmount (m_amount (le_money e)) (m_decimals (le_money e))) (\<lambda>amt.
           Inr (if le_type e = Debit then add_totals m (m_currency (le_money e)) amt 0
                else add_totals m (m_currency (le_money e)) 0 amt))) [] es)
       assert_totals"

definition check_ids :: "string set \<Rightarrow> ledger_entry list \<Rightarrow> unit result" where
  "check_ids existing es =
     bind_r (foldE (\<lambda>batch e.
         if le_id e \<in> existing then Inl (LedgerError L_DUPLICATE_ENTRY_ID)
         else if le_id e \<in> batch then Inl (LedgerError L_DUPLICATE_ENTRY_ID)
         else Inr (insert (le_id e) batch)) {} es) (\<lambda>_. Inr ())"

definition check_positive :: "ledger_entry \<Rightarrow> unit result" where
  "check_positive e =
     bind_r (parseAmount (m_amount (le_money e)) (m_decimals (le_money e))) (\<lambda>scaled.
       throw_when (scaled \<le> 0) (LedgerError L_INVALID_AMOUNT))"

definition append_checks :: "ledger \<Rightarrow> ledger_entry list \<Rightarrow> unit result" where
  "append_checks l es =
     (case es of [] \<Rightarrow> Inl (LedgerError L_EMPTY_TRANSACTION)
      | e0 # _ \<Rightarrow>
        bind_r (forE (\<lambda>e. throw_when (le_correlationId e \<noteq> le_correlationId e0)
                            (LedgerError L_MIXED_CORRELATION_ID)) es) (\<lambda>_.
        bind_r (check_ids (ld_entryIds l) es) (\<lambda>_.
        bind_r (forE (\<lambda>e. bind_r (reg_assertExists (ld_accounts l) (le_account e)) (\<lambda>_. Inr ())) es) (\<lambda>_.
        bind_r (forE (\<lambda>e. validateMoney (le_money e)) es) (\<lambda>_.
        bind_r (forE check_positive es) (\<lambda>_.
          assertBalanced es))))))"

definition append ::
  "ledger \<Rightarrow> ledger_entry list \<Rightarrow> string option \<Rightarrow> append_result result \<times> ledger" where
  "append l es description =
     (case append_checks l es of
        Inl err \<Rightarrow> (Inl err, l)
      | Inr _ \<Rightarrow>
        let corr = le_correlationId (hd es);
            timestamp = le_timestamp (hd es)
        in (Inr \<lparr>apr_correlationId = corr, apr_entryCount = length es, apr_timestamp = timestamp\<rparr>,
            l\<lparr>ld_entries := ld_entries l @ es,
              ld_entryIds := ld_entryIds l \<union> le_id ` set es,
              ld_transactions := ld_transactions l @
                [\<lparr>lt_correlationId = corr, lt_entries = es, lt_timestamp = timestamp,
                  lt_description = description\<rparr>]\<rparr>))"

subsection \<open>Queries\<close>

definition getBalance :: "ledger \<Rightarrow> string \<Rightarrow> account_balance result" where
  "getBalance l i = computeAccountBalance i (ld_entries l) (ld_accounts l)"

definition getTrialBalance :: "ledger \<Rightarrow> string option \<Rightarrow> string \<Rightarrow> trial_balance result" where
  "getTrialBalance l timestamp now =
     (let ts = (case timestamp of None \<Rightarrow> now | Some t \<Rightarrow> t)
      in bind_r (computeTrialBalance (ld_entries l) (ld_accounts l) ts) assertTrialBalanced)"

definition matches_filter :: "entry_filter \<Rightarrow> ledger_entry \<Rightarrow> bool" where
  "matches_filter f e \<longleftrightarrow>
     (case ef_accountId f of Some a \<Rightarrow> le_account e = a | None \<Rightarrow> True) \<and>
     (case ef_correlationId f of Some c \<Rightarrow> le_correlationId e = c | None \<Rightarrow> True) \<and>
     (case ef_intentId f of Some i \<Rightarrow> le_intentId e = Some i | None \<Rightarrow> True) \<and>
     (case ef_txHash f of Some t \<Rightarrow> le_txHash e = Some t | None \<Rightarrow> True) \<and>
     (case ef_currency f of Some c \<Rightarrow> m_currency (le_money e) = c | None \<Rightarrow> True) \<and>
     (case ef_fromTimestamp f of Some t \<Rightarrow> \<not> le_timestamp e < t | None \<Rightarrow> True) \<and>
     (case ef_toTimestamp f of Some t \<Rightarrow> \<not> t < le_timestamp e | None \<Rightarrow> True)"

definition getEntries :: "ledger \<Rightarrow> entry_filter option \<Rightarrow> ledger_entry list" where
  "getEntries l f =
     (case f of None \<Rightarrow> ld_entries l | Some f \<Rightarrow> filter (matches_filter f) (ld_entries l))"

definition getEntriesByCorrelation :: "ledger \<Rightarrow> string \<Rightarrow> ledger_entry list" where
  "getEntriesByCorrelation l c = filter (\<lambda>e. le_correlationId e = c) (ld_entries l)"

definition getTransactions :: "ledger \<Rightarrow> ledger_transaction list" where
  "getTransactions l = ld_transactions l"

definition entryCount :: "ledger \<Rightarrow> nat" where
  "entryCount l = length (ld_entries l)"

definition transactionCount :: "ledger \<Rightarrow> nat" where
  "transactionCount l = length (ld_transactions l)"

subsection \<open>Snapshots\<close>

definition snapshot :: "ledger \<Rightarrow> string \<Rightarrow> ledger_snapshot" where
  "snapshot l now =
     \<lparr>ls_version = SUPPORTED_SNAPSHOT_VERSION, ls_accounts = reg_getAll (ld_accounts l),
      ls_entries = ld_entries l, ls_createdAt = now\<rparr>"

definition restore_accounts :: "account_registry \<Rightarrow> ledger_account list \<Rightarrow> account_registry result" where
  "restore_accounts reg accounts =
     foldE (\<lambda>reg a. case reg_register reg (la_ref a) (la_createdAt a) of
                      (Inl err, _) \<Rightarrow> Inl err | (Inr _, reg') \<Rightarrow> Inr reg') reg accounts"

definition group_entries :: "ledger_entry list \<Rightarrow> (string, ledger_entry list) jsmap" where
  "group_entries es =
     foldl (\<lambda>groups e. jm_set groups (le_correlationId e)
        ((case jm_get groups (le_correlationId e) of None \<Rightarrow> [] | Some g \<Rightarrow> g) @ [e])) [] es"

definition append_group :: "ledger \<Rightarrow> ledger_entry list \<Rightarrow> ledger result" where
  "append_group l es = (case append l es None of (Inl err, _) \<Rightarrow> Inl err | (Inr _, l') \<Rightarrow> Inr l')"

definition fromSnapshot :: "ledger_snapshot \<Rightarrow> ledger result" where
  "fromSnapshot s =
     (if ls_version s \<noteq> SUPPORTED_SNAPSHOT_VERSION
      then Inl (LedgerError L_UNSUPPORTED_SNAPSHOT_VERSION)
      else bind_r (restore_accounts [] (ls_accounts s)) (\<lambda>reg.
             foldE append_group (new_ledger\<lparr>ld_accounts := reg\<rparr>)
               (jm_values (group_entries (ls_entries s)))))"

subsection \<open>When an append is accepted\<close>

definition entry_valid :: "ledger_entry \<Rightarrow> bool" where
  "entry_valid e \<longleftrightarrow> validateMoney (le_money e) = Inr () \<and> 0 < entry_amount e"

definition batch_ok :: "ledger \<Rightarrow> ledger_entry list \<Rightarrow> bool" where
  "batch_ok l es \<longleftrightarrow>
     es \<noteq> [] \<and>
     (\<forall>e \<in> set es. le_correlationId e = le_correlationId (hd es)) \<and>
     distinct (map le_id es) \<and> ld_entryIds l \<inter> le_id ` set es = {} \<and>
     (\<forall>e \<in> set es. hasAccount l (le_account e)) \<and>
     (\<forall>e \<in> set es. entry_valid e) \<and>
     double_entry es"

lemma entry_valid_parses: "entry_valid e \<Longrightarrow> parses e"
  by (simp add: entry_valid_def validateMoney_iff parses_def)

lemma assertBalanced_iff:
  assumes "\<forall>e \<in> set es. parses e"
  shows "assertBalanced es = (if double_entry es then Inr () else Inl (LedgerError L_UNBALANCED_TRANSACTION))"
proof -
  have "foldE (\<lambda>m e.
         bind_r (parseAmount (m_amount (le_money e)) (m_decimals (le_money e))) (\<lambda>amt.
           Inr (if le_type e = Debit then add_totals m (m_currency (le_money e)) amt 0
                else add_totals m (m_currency (le_money e)) 0 amt))) m es =
      Inr (foldl (\<lambda>m e. add_totals m (entry_cur e) (entry_debit e) (entry_credit e)) m es)" for m
    by (rule foldE_total)
      (use assms in \<open>auto simp: parses_def scaled_of_def entry_amount_def entry_cur_def
        entry_debit_def entry_credit_def\<close>)
  then show ?thesis
    by (simp add: assertBalanced_def assert_totals_cases group_totals_balanced_iff double_entry_def)
qed

lemma check_ids_fold:
  "(\<exists>b. foldE (\<lambda>batch e.
         if le_id e \<in> existing then Inl (LedgerError L_DUPLICATE_ENTRY_ID)
         else if le_id e \<in> batch then Inl (LedgerError L_DUPLICATE_ENTRY_ID)
         else Inr (insert (le_id e) batch)) batch es = Inr b) \<longleftrightarrow>
     distinct (map le_id es) \<and> (existing \<union> batch) \<inter> le_id ` set es = {}"
proof (induction es arbitrary: batch)
  case Nil
  then show ?case by simp
next
  case (Cons e es)
  show ?case
  proof (cases "le_id e \<in> existing \<union> batch")
    case True
    then show ?thesis by auto
  next
    case False
    with Cons[of "insert (le_id e) batch"] show ?thesis by auto
  qed
qed

lemma check_ids_iff:
  "check_ids existing es = Inr () \<longleftrightarrow> distinct (map le_id es) \<and> existing \<inter> le_id ` set es = {}"
  using check_ids_fold[of existing "{}" es] by (simp add: check_ids_def result_simps)

lemma check_positive_iff:
  "parses e \<Longrightarrow> check_positive e = Inr () \<longleftrightarrow> 0 < entry_amount e"
  by (auto simp: check_positive_def parses_def scaled_of_def entry_amount_def result_simps)

lemma append_checks_iff: "append_checks l es = Inr () \<longleftrightarrow> batch_ok l es"
proof (cases es)
  case Nil
  then show ?thesis by (simp add: append_checks_def batch_ok_def)
next
  case (Cons e0 es0)
  have acc: "(\<exists>a. jm_get (ld_accounts l) i = Some a) \<longleftrightarrow> hasAccount l i" for i
    by (simp add: hasAccount_def reg_has_def jm_has_def)
  have valid: "(\<forall>e \<in> set es. validateMoney (le_money e) = Inr ()) \<and>
      (\<forall>e \<in> set es. check_positive e = Inr ()) \<and> assertBalanced es = Inr () \<longleftrightarrow>
      (\<forall>e \<in> set es. entry_valid e) \<and> double_entry es"
  proof (cases "\<forall>e \<in> set es. validateMoney (le_money e) = Inr ()")
    case True
    then have p: "\<forall>e \<in> set es. parses e" by (simp add: validateMoney_iff parses_def)
    have "(\<forall>e \<in> set es. check_positive e = Inr ()) \<longleftrightarrow> (\<forall>e \<in> set es. entry_valid e)"
      using True p by (simp add: entry_valid_def check_positive_iff)
    with True show ?thesis by (simp add: assertBalanced_iff[OF p])
  next
    case False
    then show ?thesis by (auto simp: entry_valid_def)
  qed
  have corr: "forE (\<lambda>e. throw_when (le_correlationId e \<noteq> le_correlationId e0)
      (LedgerError L_MIXED_CORRELATION_ID)) es = Inr () \<longleftrightarrow>
      (\<forall>e \<in> set es. le_correlationId e = le_correlationId e0)"
    by (simp add: forE_Inr throw_when_Inr)
  have reg: "forE (\<lambda>e. bind_r (reg_assertExists (ld_accounts l) (le_account e)) (\<lambda>_. Inr ())) es = Inr () \<longleftrightarrow>
      (\<forall>e \<in> set es. hasAccount l (le_account e))"
    by (simp add: forE_Inr bind_r_eq_Inr reg_assertExists_Inr acc)
  have checks: "append_checks l es =
        bind_r (forE (\<lambda>e. throw_when (le_correlationId e \<noteq> le_correlationId e0)
                            (LedgerError L_MIXED_CORRELATION_ID)) es) (\<lambda>_.
        bind_r (check_ids (ld_entryIds l) es) (\<lambda>_.
        bind_r (forE (\<lambda>e. bind_r (reg_assertExists (ld_accounts l) (le_account e)) (\<lambda>_. Inr ())) es) (\<lambda>_.
        bind_r (forE (\<lambda>e. validateMoney (le_money e)) es) (\<lambda>_.
        bind_r (forE check_positive es) (\<lambda>_.
          assertBalanced es)))))"
    unfolding append_checks_def Cons list.case by (rule refl)
  have seq: "bind_r m f = Inr () \<longleftrightarrow> m = Inr () \<and> f () = Inr ()" for m :: "unit result" and f
    by (cases m) auto
  have hd: "hd es = e0" and ne: "es \<noteq> []" using Cons by simp_all
  show ?thesis
    unfolding batch_ok_def hd checks seq corr reg check_ids_iff
    using valid ne unfolding forE_Inr by blast
qed

lemma append_ok:
  assumes "batch_ok l es"
  shows "append l es d =
    (Inr \<lparr>apr_correlationId = le_correlationId (hd es), apr_entryCount = length es,
          apr_timestamp = le_timestamp (hd es)\<rparr>,
     l\<lparr>ld_entries := ld_entries l @ es, ld_entryIds := ld_entryIds l \<union> le_id ` set es,
       ld_transactions := ld_transactions l @
         [\<lparr>lt_correlationId = le_correlationId (hd es), lt_entries = es,
           lt_timestamp = le_timestamp (hd es), lt_description = d\<rparr>]\<rparr>)"
  using append_checks_iff[of l es] assms by (simp add: append_def Let_def)

lemma append_fail:
  assumes "\<not> batch_ok l es" obtains err where "append l es d = (Inl err, l)"
proof (cases "append_checks l es")
  case (Inl err)
  then show ?thesis using that by (simp add: append_def)
next
  case (Inr u)
  then show ?thesis using assms append_checks_iff[of l es] by (cases u) simp
qed

subsection \<open>The ledger invariant\<close>

definition transaction_wf :: "ledger_transaction \<Rightarrow> bool" where
  "transaction_wf t \<longleftrightarrow>
     lt_entries t \<noteq> [] \<and> lt_timestamp t = le_timestamp (hd (lt_entries t)) \<and>
     (\<forall>e \<in> set (lt_entries t). le_correlationId e = lt_correlationId t) \<and>
     double_entry (lt_entries t)"

definition ledger_wf :: "ledger \<Rightarrow> bool" where
  "ledger_wf l \<longleftrightarrow>
     reg_wf (ld_accounts l) \<and>
     distinct (map le_id (ld_entries l)) \<and>
     ld_entryIds l = le_id ` set (ld_entries l) \<and>
     (\<forall>e \<in> set (ld_entries l). hasAccount l (le_account e) \<and> entry_valid e) \<and>
     concat (map lt_entries (ld_transactions l)) = ld_entries l \<and>
     (\<forall>t \<in> set (ld_transactions l). transaction_wf t)"

inductive ledger_step :: "ledger \<Rightarrow> ledger \<Rightarrow> bool" where
  step_register: "registerAccount l ref ts now = (r, l') \<Longrightarrow> ledger_step l l'"
| step_append: "append l es d = (r, l') \<Longrightarrow> ledger_step l l'"

inductive_cases ledger_stepE: "ledger_step l l'"

inductive ledger_reachable :: "ledger \<Rightarrow> bool" where
  reach_new: "ledger_reachable new_ledger"
| reach_step: "ledger_reachable l \<Longrightarrow> ledger_step l l' \<Longrightarrow> ledger_reachable l'"

lemma registerAccount_state:
  assumes "registerAccount l ref ts now = (r, l')"
  obtains new where "l' = l\<lparr>ld_accounts := ld_accounts l @ new\<rparr>"
    "reg_wf (ld_accounts l) \<Longrightarrow> reg_wf (ld_accounts l @ new)"
proof -
  let ?t = "case ts of None \<Rightarrow> now | Some t \<Rightarrow> t"
  have l': "l' = l\<lparr>ld_accounts := snd (reg_register (ld_accounts l) ref ?t)\<rparr>"
    using assms by (auto simp: registerAccount_def Let_def split: prod.splits)
  obtain new where "snd (reg_register (ld_accounts l) ref ?t) = ld_accounts l @ new"
    using reg_register_prefix by blast
  with l' reg_register_wf[of "ld_accounts l" ref ?t] show ?thesis using that by simp
qed

lemma append_cases:
  assumes "append l es d = (r, l')"
  obtains (fail) err where "\<not> batch_ok l es" "r = Inl err" "l' = l"
  | (ok) "batch_ok l es" "r = Inr \<lparr>apr_correlationId = le_correlationId (hd es),
          apr_entryCount = length es, apr_timestamp = le_timestamp (hd es)\<rparr>"
      "l' = l\<lparr>ld_entries := ld_entries l @ es, ld_entryIds := ld_entryIds l \<union> le_id ` set es,
       ld_transactions := ld_transactions l @
         [\<lparr>lt_correlationId = le_correlationId (hd es), lt_entries = es,
           lt_timestamp = le_timestamp (hd es), lt_description = d\<rparr>]\<rparr>"
proof (cases "batch_ok l es")
  case True
  have "r = fst (append l es d)" "l' = snd (append l es d)" using assms by simp_all
  then show ?thesis using ok[OF True] unfolding append_ok[OF True] by simp
next
  case False
  obtain err where "append l es d = (Inl err, l)" by (rule append_fail[OF False])
  then have "r = Inl err" "l' = l" using assms by simp_all
  then show ?thesis using fail False by blast
qed

lemma hasAccount_mono:
  "hasAccount l i \<Longrightarrow> hasAccount (l\<lparr>ld_accounts := ld_accounts l @ new\<rparr>) i"
  by (auto simp: hasAccount_def reg_has_def jm_has_keys)

lemma hasAccount_accounts:
  "ld_accounts l' = ld_accounts l \<Longrightarrow> hasAccount l' i = hasAccount l i"
  by (simp add: hasAccount_def)

lemma ledger_wf_new [simp]: "ledger_wf new_ledger"
  by (simp add: ledger_wf_def new_ledger_def)

lemma ledger_wf_register:
  assumes "ledger_wf l" "registerAccount l ref ts now = (r, l')"
  shows "ledger_wf l'"
  using assms(2)
proof (rule registerAccount_state)
  fix new
  assume l': "l' = l\<lparr>ld_accounts := ld_accounts l @ new\<rparr>"
    and reg: "reg_wf (ld_accounts l) \<Longrightarrow> reg_wf (ld_accounts l @ new)"
  have "hasAccount l' i" if "hasAccount l i" for i
    unfolding l' using that by (rule hasAccount_mono)
  moreover have "ld_entries l' = ld_entries l" "ld_entryIds l' = ld_entryIds l"
    "ld_transactions l' = ld_transactions l" "ld_accounts l' = ld_accounts l @ new"
    by (simp_all add: l')
  ultimately show ?thesis using assms(1) reg unfolding ledger_wf_def by metis
qed

lemma ledger_wf_append:
  assumes wf: "ledger_wf l" and "append l es d = (r, l')"
  shows "ledger_wf l'"
  using assms(2)
proof (cases rule: append_cases)
  case fail
  show ?thesis unfolding fail(3) by (rule wf)
next
  case ok
  let ?t = "\<lparr>lt_correlationId = le_correlationId (hd es), lt_entries = es,
           lt_timestamp = le_timestamp (hd es), lt_description = d\<rparr>"
  have t: "transaction_wf ?t"
    using ok(1) unfolding transaction_wf_def batch_ok_def ledger_transaction.simps by blast
  have acc: "hasAccount l' i = hasAccount l i" for i by (rule hasAccount_accounts) (simp add: ok(3))
  have ids: "distinct (map le_id (ld_entries l @ es))"
    using wf ok(1) unfolding ledger_wf_def batch_ok_def by auto
  have entries: "\<forall>e \<in> set es. hasAccount l (le_account e) \<and> entry_valid e"
    using ok(1) unfolding batch_ok_def by blast
  show ?thesis
    unfolding ledger_wf_def acc
    using wf ids t entries by (auto simp: ok(3) ledger_wf_def)
qed

lemma ledger_wf_step: "ledger_step l l' \<Longrightarrow> ledger_wf l \<Longrightarrow> ledger_wf l'"
  by (erule ledger_stepE) (blast intro: ledger_wf_register ledger_wf_append)+

lemma ledger_reachable_wf: "ledger_reachable l \<Longrightarrow> ledger_wf l"
  by (induction rule: ledger_reachable.induct) (blast intro: ledger_wf_new ledger_wf_step)+

lemma ledger_wf_double_entry:
  assumes "ledger_wf l" shows "double_entry (ld_entries l)"
proof -
  have eq: "ld_entries l = concat (map lt_entries (ld_transactions l))"
    using assms by (simp add: ledger_wf_def)
  have "double_entry (lt_entries t)" if "t \<in> set (ld_transactions l)" for t
    using assms that by (simp add: ledger_wf_def transaction_wf_def)
  then have "map (\<lambda>es. sum_by entry_cur entry_debit es c) (map lt_entries (ld_transactions l)) =
      map (\<lambda>es. sum_by entry_cur entry_credit es c) (map lt_entries (ld_transactions l))" for c
    by (simp add: double_entry_def)
  then show ?thesis unfolding eq double_entry_def sum_by_concat by metis
qed

lemma ledger_step_extends:
  assumes "ledger_step l l'"
  shows "\<exists>accs es ts. ld_accounts l' = ld_accounts l @ accs \<and> ld_entries l' = ld_entries l @ es \<and>
    ld_transactions l' = ld_transactions l @ ts"
  using assms
proof (rule ledger_stepE)
  fix ref ts now r
  assume "registerAccount l ref ts now = (r, l')"
  then obtain new where "l' = l\<lparr>ld_accounts := ld_accounts l @ new\<rparr>" by (rule registerAccount_state)
  then show ?thesis by simp
next
  fix es d r
  assume "append l es d = (r, l')"
  then show ?thesis by (rule append_cases) auto
qed

subsection \<open>What the ledger promises\<close>

lemma entry_wf_facts:
  assumes "ledger_wf l"
  shows "\<forall>e \<in> set (ld_entries l). parses e \<and> reg_has (ld_accounts l) (le_account e)"
  using assms entry_valid_parses unfolding ledger_wf_def hasAccount_def by blast

text \<open>C1: \<^verbatim>\<open>Ledger.append\<close> accepts a batch exactly when it is non-empty, has one correlation id,
  fresh and distinct entry ids, registered accounts, valid positive amounts and equal debits and
  credits in every currency. An accepted batch is appended whole, in order, as one transaction
  with the first entry's timestamp; a rejected one leaves the ledger as it was.\<close>

theorem append_accepts:
  "case append l es d of
     (Inr res, l') \<Rightarrow> batch_ok l es \<and> apr_entryCount res = length es \<and>
        ld_entries l' = ld_entries l @ es \<and> ld_accounts l' = ld_accounts l \<and>
        (\<exists>t. ld_transactions l' = ld_transactions l @ [t] \<and> lt_entries t = es \<and>
          lt_correlationId t = apr_correlationId res \<and> lt_timestamp t = apr_timestamp res \<and>
          lt_description t = d)
   | (Inl err, l') \<Rightarrow> \<not> batch_ok l es \<and> l' = l"
proof (cases "batch_ok l es")
  case True
  then show ?thesis by (simp add: append_ok)
next
  case False
  obtain err where "append l es d = (Inl err, l)" by (rule append_fail[OF False])
  with False show ?thesis by simp
qed

text \<open>A batch that passes every other rule of \<^verbatim>\<open>append\<close> but whose debits and credits differ in
  some currency is rejected with \<^verbatim>\<open>UNBALANCED_TRANSACTION\<close>, and nothing is written.\<close>

theorem append_rejects_unbalanced:
  assumes "es \<noteq> []" "\<forall>e \<in> set es. le_correlationId e = le_correlationId (hd es)"
    and "distinct (map le_id es)" "ld_entryIds l \<inter> le_id ` set es = {}"
    and "\<forall>e \<in> set es. hasAccount l (le_account e) \<and> entry_valid e"
    and "sum_by entry_cur entry_debit es c \<noteq> sum_by entry_cur entry_credit es c"
  shows "append l es d = (Inl (LedgerError L_UNBALANCED_TRANSACTION), l)"
proof -
  obtain e0 es0 where Cons: "es = e0 # es0" using assms(1) by (cases es) auto
  have p: "\<forall>e \<in> set es. parses e" using assms(5) entry_valid_parses by blast
  have "\<not> double_entry es" using assms(6) by (auto simp: double_entry_def)
  then have b: "assertBalanced es = Inl (LedgerError L_UNBALANCED_TRANSACTION)"
    by (simp add: assertBalanced_iff[OF p])
  have 1: "forE (\<lambda>e. throw_when (le_correlationId e \<noteq> le_correlationId e0)
      (LedgerError L_MIXED_CORRELATION_ID)) es = Inr ()"
    using assms(2) unfolding forE_Inr throw_when_Inr Cons by simp
  have 2: "check_ids (ld_entryIds l) es = Inr ()" using assms(3,4) by (simp add: check_ids_iff)
  have "\<exists>a. reg_assertExists (ld_accounts l) (le_account e) = Inr a" if "e \<in> set es" for e
    using assms(5) that by (simp add: reg_assertExists_has hasAccount_def)
  then have 3: "forE (\<lambda>e. bind_r (reg_assertExists (ld_accounts l) (le_account e)) (\<lambda>_. Inr ())) es
      = Inr ()"
    by (simp add: forE_Inr bind_r_eq_Inr)
  have 4: "forE (\<lambda>e. validateMoney (le_money e)) es = Inr ()"
    using assms(5) by (simp add: forE_Inr entry_valid_def)
  have 5: "forE check_positive es = Inr ()"
    using assms(5) p by (simp add: forE_Inr check_positive_iff entry_valid_def)
  have "append_checks l es = Inl (LedgerError L_UNBALANCED_TRANSACTION)"
    unfolding append_checks_def Cons list.case
    unfolding Cons[symmetric] 1 2 3 4 5 b by simp
  then show ?thesis by (simp add: append_def)
qed

theorem append_rejects_unbalanced_witness:
  "let l = new_ledger\<lparr>ld_accounts := [(''a'',
          \<lparr>la_ref = \<lparr>ar_id = ''a'', ar_type = Asset, ar_name = ''a''\<rparr>, la_createdAt = ''t''\<rparr>)]\<rparr>;
       e = \<lparr>le_id = ''1'', le_account = ''a'', le_type = Debit,
        le_money = \<lparr>m_amount = ''5'', m_currency = ''USD'', m_decimals = 2\<rparr>,
        le_timestamp = ''t'', le_intentId = None, le_txHash = None, le_correlationId = ''c''\<rparr>
   in append l [e] None = (Inl (LedgerError L_UNBALANCED_TRANSACTION), l)"
proof -
  define l where "l = new_ledger\<lparr>ld_accounts := [(''a'',
          \<lparr>la_ref = \<lparr>ar_id = ''a'', ar_type = Asset, ar_name = ''a''\<rparr>, la_createdAt = ''t''\<rparr>)]\<rparr>"
  define e where "e = \<lparr>le_id = ''1'', le_account = ''a'', le_type = Debit,
        le_money = \<lparr>m_amount = ''5'', m_currency = ''USD'', m_decimals = 2\<rparr>,
        le_timestamp = ''t'', le_intentId = None, le_txHash = None, le_correlationId = ''c''\<rparr>"
  have amt: "entry_amount e = 500" unfolding e_def by code_simp
  have "validateMoney (le_money e) = Inr ()" unfolding e_def by code_simp
  then have v: "entry_valid e" by (simp add: entry_valid_def amt)
  have acc: "hasAccount l (le_account e)" by (simp add: l_def e_def hasAccount_def reg_has_def jm_has_def)
  have "append l [e] None = (Inl (LedgerError L_UNBALANCED_TRANSACTION), l)"
  proof (rule append_rejects_unbalanced[where c = "''USD''"])
    show "ld_entryIds l \<inter> le_id ` set [e] = {}" by (simp add: l_def new_ledger_def)
    have "entry_cur e = ''USD''" "le_type e = Debit" by (simp_all add: e_def entry_cur_def)
    then show "sum_by entry_cur entry_debit [e] ''USD'' \<noteq> sum_by entry_cur entry_credit [e] ''USD''"
      by (simp add: entry_debit_def entry_credit_def amt)
  qed (use v acc in simp_all)
  then show ?thesis unfolding Let_def l_def e_def .
qed

text \<open>The ledger is append-only: an operation, successful or not, never changes or removes an
  account, an entry or a transaction; each list of the new state extends the old one.\<close>

theorem ledger_append_only:
  assumes "ledger_step l l'"
  shows "\<exists>accs es ts. ld_accounts l' = ld_accounts l @ accs \<and> ld_entries l' = ld_entries l @ es \<and>
    ld_transactions l' = ld_transactions l @ ts"
  using assms by (rule ledger_step_extends)

theorem ledger_append_only_witness:
  "\<exists>l'. ledger_step new_ledger l' \<and> (\<exists>accs es ts. ld_accounts l' = ld_accounts new_ledger @ accs \<and>
     ld_entries l' = ld_entries new_ledger @ es \<and> ld_transactions l' = ld_transactions new_ledger @ ts)"
proof -
  obtain r l' where "registerAccount new_ledger \<lparr>ar_id = ''a'', ar_type = Asset, ar_name = ''a''\<rparr>
      None ''t'' = (r, l')" by fastforce
  then have "ledger_step new_ledger l'" by (rule step_register)
  from ledger_append_only[OF this] this show ?thesis by blast
qed


text \<open>C2: In every ledger that registrations and appends can build, starting empty, each entry is
  registered, valid and positive, entry ids are unique, and the debits of each currency equal its
  credits.\<close>

theorem reachable_ledger_double_entry:
  assumes "ledger_reachable l"
  shows "(\<forall>cur. sum_by entry_cur entry_debit (ld_entries l) cur =
                sum_by entry_cur entry_credit (ld_entries l) cur) \<and>
    distinct (map le_id (ld_entries l)) \<and>
    (\<forall>e \<in> set (ld_entries l). hasAccount l (le_account e) \<and> entry_valid e)"
  using ledger_reachable_wf[OF assms] ledger_wf_double_entry
  unfolding double_entry_def ledger_wf_def by blast

lemma keys_coherent_no_colon:
  assumes "\<forall>e \<in> set es. CHR '':'' \<notin> set (entry_cur e)"
  shows "keys_coherent es"
proof -
  have cut: "takeWhile (\<lambda>c. c \<noteq> CHR '':'') (rev (balanceKey a c)) = rev c"
    if "CHR '':'' \<notin> set c" for a c
    using that by (simp add: balanceKey_def) (subst takeWhile_append2, auto)
  show ?thesis
    unfolding keys_coherent_def entry_key_def using assms cut by (metis rev_rev_ident)
qed

text \<open>The trial balance of a reachable ledger never reports an unbalanced ledger: if no two
  entries with different currencies share the text key \<^verbatim>\<open>account::currency\<close> (in particular when
  no currency contains a colon, see \<^verbatim>\<open>keys_coherent_no_colon\<close>), \<^verbatim>\<open>getTrialBalance\<close> returns and the
  flag is set.\<close>

theorem trial_balance_succeeds:
  assumes "ledger_reachable l" and "keys_coherent (ld_entries l)"
  shows "\<exists>tb. getTrialBalance l ts now = Inr tb \<and> tb_balanced tb"
proof -
  have wf: "ledger_wf l" using assms(1) by (rule ledger_reachable_wf)
  define stamp where "stamp = (case ts of None \<Rightarrow> now | Some t \<Rightarrow> t)"
  obtain tb where "computeTrialBalance (ld_entries l) (ld_accounts l) stamp = Inr tb"
    "tb_balanced tb" "assertTrialBalanced tb = Inr tb"
    using trial_balance_balances[OF entry_wf_facts[OF wf] assms(2) ledger_wf_double_entry[OF wf], of stamp]
    by blast
  then show ?thesis by (simp add: getTrialBalance_def stamp_def)
qed


text \<open>A sample chart of accounts and batches for the witnesses and counterexamples.\<close>

definition sample_entry :: "string \<Rightarrow> string \<Rightarrow> entry_type \<Rightarrow> money \<Rightarrow> string \<Rightarrow> ledger_entry" where
  "sample_entry i a t m c = \<lparr>le_id = i, le_account = a, le_type = t, le_money = m,
     le_timestamp = ''t'', le_intentId = None, le_txHash = None, le_correlationId = c\<rparr>"

definition sample_ledger :: "string list \<Rightarrow> ledger" where
  "sample_ledger is = foldl (\<lambda>l i. snd (registerAccount l
     \<lparr>ar_id = i, ar_type = Asset, ar_name = i\<rparr> (Some ''t'') ''t'')) new_ledger is"

lemma sample_ledger_reachable: "ledger_reachable (sample_ledger is)"
proof -
  have "ledger_reachable l \<Longrightarrow> ledger_reachable (foldl (\<lambda>l i. snd (registerAccount l
     \<lparr>ar_id = i, ar_type = Asset, ar_name = i\<rparr> (Some ''t'') ''t'')) l is)" for l
  proof (induction "is" arbitrary: l)
    case Nil
    then show ?case by simp
  next
    case (Cons i "is")
    have "ledger_step l (snd (registerAccount l \<lparr>ar_id = i, ar_type = Asset, ar_name = i\<rparr>
        (Some ''t'') ''t''))"
      by (rule step_register) (rule prod.collapse[symmetric])
    with Cons show ?case by (simp add: reach_step)
  qed
  then show ?thesis by (simp add: sample_ledger_def reach_new)
qed

lemma append_reachable: "ledger_reachable l \<Longrightarrow> ledger_reachable (snd (append l es d))"
  by (rule reach_step, assumption, rule step_append) (rule prod.collapse[symmetric])

text \<open>Accounts \<^verbatim>\<open>x::y\<close> and \<^verbatim>\<open>x\<close> with currencies \<^verbatim>\<open>z\<close> and \<^verbatim>\<open>y::z\<close> share a
  key: two balanced transactions are accepted, yet \<^verbatim>\<open>getTrialBalance\<close> of the resulting
  (reachable, double-entry) ledger throws \<^verbatim>\<open>UNBALANCED_TRANSACTION\<close>.\<close>

theorem trial_balance_key_collision:
  "\<exists>l. ledger_reachable l \<and> double_entry (ld_entries l) \<and>
     getTrialBalance l (Some ''t'') ''t'' = Inl (LedgerError L_UNBALANCED_TRANSACTION)"
proof -
  define z where "z = \<lparr>m_amount = ''1'', m_currency = ''z'', m_decimals = 0\<rparr>"
  define yz where "yz = \<lparr>m_amount = ''1'', m_currency = ''y::z'', m_decimals = 0\<rparr>"
  define l where "l = snd (append (snd (append (sample_ledger [''x::y'', ''x'', ''w''])
    [sample_entry ''1'' ''x::y'' Debit z ''c'', sample_entry ''2'' ''w'' Credit z ''c''] None))
    [sample_entry ''3'' ''x'' Debit yz ''d'', sample_entry ''4'' ''w'' Credit yz ''d''] None)"
  have "ledger_reachable l"
    unfolding l_def by (intro append_reachable sample_ledger_reachable)
  moreover have "getTrialBalance l (Some ''t'') ''t'' = Inl (LedgerError L_UNBALANCED_TRANSACTION)"
    unfolding l_def z_def yz_def by code_simp
  ultimately show ?thesis using ledger_reachable_wf ledger_wf_double_entry by blast
qed

text \<open>Amounts with different decimal counts in one currency are compared by their scaled
  integers: a debit of \<^verbatim>\<open>1\<close> with 0 decimals and a credit of \<^verbatim>\<open>0.01\<close> with 2 decimals of
  the same currency make an accepted transaction.\<close>

theorem append_accepts_mixed_decimals:
  "\<exists>l res l'. ledger_reachable l \<and>
     append l [sample_entry ''1'' ''x'' Debit \<lparr>m_amount = ''1'', m_currency = ''USD'', m_decimals = 0\<rparr> ''c'',
               sample_entry ''2'' ''w'' Credit \<lparr>m_amount = ''0.01'', m_currency = ''USD'', m_decimals = 2\<rparr> ''c'']
       None = (Inr res, l')"
proof -
  let ?es = "[sample_entry ''1'' ''x'' Debit \<lparr>m_amount = ''1'', m_currency = ''USD'', m_decimals = 0\<rparr> ''c'',
     sample_entry ''2'' ''w'' Credit \<lparr>m_amount = ''0.01'', m_currency = ''USD'', m_decimals = 2\<rparr> ''c'']"
  have "fst (append (sample_ledger [''x'', ''w'']) ?es None) =
      Inr \<lparr>apr_correlationId = ''c'', apr_entryCount = 2, apr_timestamp = ''t''\<rparr>"
    by code_simp
  then show ?thesis using sample_ledger_reachable[of "[''x'', ''w'']"] by (metis prod.collapse)
qed


subsection \<open>Restoring a snapshot\<close>

lemma restore_accounts_wf:
  assumes "reg_wf (reg @ new)"
  shows "restore_accounts reg (map snd new) = Inr (reg @ new)"
  using assms
proof (induction new arbitrary: reg)
  case Nil
  then show ?case by (simp add: restore_accounts_def)
next
  case (Cons p new)
  obtain i a where p: "p = (i, a)" by fastforce
  have i: "i = ar_id (la_ref a)" and fresh: "\<not> reg_has reg i"
    using Cons.prems by (auto simp: p reg_wf_def jm_wf_def reg_has_def jm_has_keys)
  have "reg_register reg (la_ref a) (la_createdAt a) = (Inr a, reg @ [(i, a)])"
    using fresh by (simp add: i reg_register_new)
  moreover have "restore_accounts (reg @ [(i, a)]) (map snd new) = Inr ((reg @ [(i, a)]) @ new)"
    using Cons.prems by (intro Cons.IH) (simp add: p)
  ultimately show ?case by (simp add: restore_accounts_def p)
qed

definition group_of :: "ledger_entry list \<Rightarrow> string \<Rightarrow> ledger_entry list" where
  "group_of es c = filter (\<lambda>e. le_correlationId e = c) es"

lemma group_entries_spec:
  "jm_wf (group_entries es) \<and>
   (\<forall>c. jm_get (group_entries es) c = (if group_of es c = [] then None else Some (group_of es c)))"
proof (induction es rule: rev_induct)
  case Nil
  then show ?case by (simp add: group_entries_def group_of_def)
next
  case (snoc e es)
  then show ?case by (auto simp: group_entries_def group_of_def)
qed

lemma group_entries_values:
  "jm_values (group_entries es) = map (group_of es) (jm_keys (group_entries es))"
proof -
  have "snd p = group_of es (fst p)" if "p \<in> set (group_entries es)" for p
  proof -
    have "jm_get (group_entries es) (fst p) = Some (snd p)"
      using group_entries_spec[of es] jm_get_in[of "group_entries es" "fst p" "snd p"] that by simp
    then show ?thesis using group_entries_spec[of es] by (auto split: if_splits)
  qed
  then show ?thesis by simp
qed

lemma group_entries_keys: "c \<in> set (jm_keys (group_entries es)) \<longleftrightarrow> c \<in> le_correlationId ` set es"
proof -
  have "c \<in> set (jm_keys (group_entries es)) \<longleftrightarrow> group_of es c \<noteq> []"
    using group_entries_spec[of es] jm_has_keys[of "group_entries es" c]
    unfolding jm_has_def by (metis option.distinct(1))
  then show ?thesis by (auto simp: group_of_def filter_empty_conv)
qed

lemma mset_groups:
  assumes "distinct ks" and "le_correlationId ` set es \<subseteq> set ks"
  shows "mset (concat (map (group_of es) ks)) = mset es"
  using assms(2)
proof (induction es)
  case Nil
  have "concat (map (group_of []) ks) = []" by (simp add: group_of_def)
  then show ?case by simp
next
  case (Cons e es)
  have "mset (concat (map (group_of (e # es)) ks)) =
      mset (concat (map (group_of es) ks)) +
      (if le_correlationId e \<in> set ks then {#e#} else {#})"
    using assms(1) by (induction ks) (auto simp: group_of_def)
  with Cons show ?case by simp
qed

definition group_ok :: "ledger \<Rightarrow> ledger_entry list \<Rightarrow> bool" where
  "group_ok l es \<longleftrightarrow> es \<noteq> [] \<and> (\<forall>e \<in> set es. le_correlationId e = le_correlationId (hd es)) \<and>
     (\<forall>e \<in> set es. hasAccount l (le_account e)) \<and> (\<forall>e \<in> set es. entry_valid e) \<and> double_entry es"

lemma append_groups:
  assumes "\<forall>g \<in> set gs. group_ok l g" and "distinct (map le_id (concat gs))"
    and "ld_entryIds l \<inter> le_id ` set (concat gs) = {}"
  shows "\<exists>l'. foldE append_group l gs = Inr l' \<and> ld_accounts l' = ld_accounts l \<and>
    ld_entries l' = ld_entries l @ concat gs \<and>
    map lt_entries (ld_transactions l') = map lt_entries (ld_transactions l) @ gs"
  using assms
proof (induction gs arbitrary: l)
  case Nil
  then show ?case by simp
next
  case (Cons g gs)
  have "group_ok l g" using Cons.prems(1) by simp
  moreover have "distinct (map le_id g)" "ld_entryIds l \<inter> le_id ` set g = {}"
    using Cons.prems(2,3) by auto
  ultimately have "batch_ok l g" unfolding group_ok_def batch_ok_def by blast
  note ok = append_ok[OF this, of None]
  let ?l = "snd (append l g None)"
  have step: "append_group l g = Inr ?l" by (simp add: append_group_def ok)
  have acc: "hasAccount ?l i = hasAccount l i" for i by (rule hasAccount_accounts) (simp add: ok)
  have "\<exists>l'. foldE append_group ?l gs = Inr l' \<and> ld_accounts l' = ld_accounts ?l \<and>
    ld_entries l' = ld_entries ?l @ concat gs \<and>
    map lt_entries (ld_transactions l') = map lt_entries (ld_transactions ?l) @ gs"
  proof (rule Cons.IH)
    show "\<forall>g \<in> set gs. group_ok ?l g"
      using Cons.prems(1) unfolding group_ok_def acc by (meson list.set_intros(2))
    show "distinct (map le_id (concat gs))" using Cons.prems(2) by simp
    show "ld_entryIds ?l \<inter> le_id ` set (concat gs) = {}" using Cons.prems(2,3) by (auto simp: ok)
  qed
  then show ?case by (simp add: step ok)
qed

lemma double_entry_group:
  assumes "\<forall>t \<in> set ts. transaction_wf t"
  shows "double_entry (group_of (concat (map lt_entries ts)) c)"
  using assms
proof (induction ts)
  case Nil
  then show ?case by (simp add: group_of_def double_entry_def)
next
  case (Cons t ts)
  have same: "\<forall>e \<in> set (lt_entries t). le_correlationId e = lt_correlationId t"
    using Cons.prems by (simp add: transaction_wf_def)
  have "group_of (lt_entries t) c = (if lt_correlationId t = c then lt_entries t else [])"
    using same by (auto simp: group_of_def)
  moreover have "double_entry (lt_entries t)" using Cons.prems by (simp add: transaction_wf_def)
  ultimately have "double_entry (group_of (lt_entries t) c)" by (auto simp: double_entry_def)
  moreover have "double_entry (group_of (concat (map lt_entries ts)) c)" using Cons by simp
  ultimately show ?case by (simp add: group_of_def double_entry_def)
qed

lemma fromSnapshot_groups:
  assumes "ledger_reachable l"
  obtains l' ks where "fromSnapshot (snapshot l now) = Inr l'" "ld_accounts l' = ld_accounts l"
    "ld_entries l' = concat (jm_values (group_entries (ld_entries l)))"
    "mset (ld_entries l') = mset (ld_entries l)"
    "map lt_entries (ld_transactions l') = map (group_of (ld_entries l)) ks"
    "distinct ks" "set ks = le_correlationId ` set (ld_entries l)"
proof -
  let ?es = "ld_entries l"
  let ?ks = "jm_keys (group_entries ?es)"
  let ?gs = "map (group_of ?es) ?ks"
  let ?l0 = "new_ledger\<lparr>ld_accounts := ld_accounts l\<rparr>"
  have wf: "ledger_wf l" using assms by (rule ledger_reachable_wf)
  have reg: "restore_accounts [] (reg_getAll (ld_accounts l)) = Inr (ld_accounts l)"
    using restore_accounts_wf[of "[]" "ld_accounts l"] wf by (simp add: reg_getAll_def ledger_wf_def)
  have ks: "distinct ?ks" using group_entries_spec[of ?es] by (simp add: jm_wf_def)
  have setks: "set ?ks = le_correlationId ` set ?es" using group_entries_keys by blast
  have ms: "mset (concat ?gs) = mset ?es"
    using ks setks by (intro mset_groups) auto
  have "mset (map le_id (concat ?gs)) = mset (map le_id ?es)" using ms by (simp only: mset_map)
  moreover have "distinct (map le_id ?es)" using wf by (simp add: ledger_wf_def)
  ultimately have dist: "distinct (map le_id (concat ?gs))" using mset_eq_imp_distinct_iff by blast
  have acc: "hasAccount ?l0 i = hasAccount l i" for i by (rule hasAccount_accounts) simp
  have ok: "group_ok ?l0 (group_of ?es c)" if c: "c \<in> set ?ks" for c
  proof -
    have "double_entry (group_of ?es c)"
      using double_entry_group[of "ld_transactions l" c] wf by (simp add: ledger_wf_def)
    moreover have ne: "group_of ?es c \<noteq> []" using c setks by (auto simp: group_of_def filter_empty_conv)
    moreover have "\<forall>e \<in> set (group_of ?es c). le_correlationId e = c" by (simp add: group_of_def)
    moreover from this have "le_correlationId (hd (group_of ?es c)) = c" using ne by simp
    moreover have "\<forall>e \<in> set (group_of ?es c). hasAccount l (le_account e) \<and> entry_valid e"
      using wf by (simp add: group_of_def ledger_wf_def)
    ultimately show ?thesis unfolding group_ok_def acc by metis
  qed
  have "\<exists>l'. foldE append_group ?l0 ?gs = Inr l' \<and> ld_accounts l' = ld_accounts ?l0 \<and>
    ld_entries l' = ld_entries ?l0 @ concat ?gs \<and>
    map lt_entries (ld_transactions l') = map lt_entries (ld_transactions ?l0) @ ?gs"
  proof (rule append_groups)
    show "\<forall>g \<in> set ?gs. group_ok ?l0 g" using ok by simp
    show "distinct (map le_id (concat ?gs))" by (rule dist)
    show "ld_entryIds ?l0 \<inter> le_id ` set (concat ?gs) = {}" by (simp add: new_ledger_def)
  qed
  then obtain l' where l': "foldE append_group ?l0 ?gs = Inr l'" "ld_accounts l' = ld_accounts l"
    "ld_entries l' = concat ?gs" "map lt_entries (ld_transactions l') = ?gs"
    by (auto simp: new_ledger_def)
  have "fromSnapshot (snapshot l now) = Inr l'"
    unfolding fromSnapshot_def snapshot_def ledger_snapshot.simps reg bind_r_Inr group_entries_values
    using l'(1) by simp
  with l' ms ks setks show ?thesis
    by (intro that[of l' ?ks]) (simp_all only: group_entries_values)
qed

text \<open>A snapshot of a reachable ledger restores: \<^verbatim>\<open>fromSnapshot\<close> accepts it and the new
  ledger has the same accounts in the same order and the same entries (grouped by correlation id,
  one transaction per correlation id, each the entries of that id in their order).\<close>

theorem snapshot_restores:
  assumes "ledger_reachable l"
  shows "\<exists>l' ks. fromSnapshot (snapshot l now) = Inr l' \<and> ld_accounts l' = ld_accounts l \<and>
    mset (ld_entries l') = mset (ld_entries l) \<and>
    map lt_entries (ld_transactions l') = map (group_of (ld_entries l)) ks \<and>
    distinct ks \<and> set ks = le_correlationId ` set (ld_entries l)"
  by (rule fromSnapshot_groups[OF assms, of now]) blast


subsection \<open>Witnesses\<close>

definition sample_batch :: "ledger_entry list" where
  "sample_batch =
     [sample_entry ''1'' ''x'' Debit \<lparr>m_amount = ''2.5'', m_currency = ''USD'', m_decimals = 2\<rparr> ''c'',
      sample_entry ''2'' ''w'' Credit \<lparr>m_amount = ''2.50'', m_currency = ''USD'', m_decimals = 2\<rparr> ''c'']"

definition sample_state :: ledger where
  "sample_state = snd (append (sample_ledger [''x'', ''w'']) sample_batch None)"

lemma sample_state_reachable: "ledger_reachable sample_state"
  unfolding sample_state_def by (intro append_reachable sample_ledger_reachable)

lemma sample_state_entries: "ld_entries sample_state = sample_batch"
  by code_simp

theorem reachable_ledger_double_entry_witness:
  "ledger_reachable sample_state \<and> ld_entries sample_state \<noteq> [] \<and>
   sum_by entry_cur entry_debit (ld_entries sample_state) ''USD'' =
   sum_by entry_cur entry_credit (ld_entries sample_state) ''USD''"
proof -
  have "ld_entries sample_state \<noteq> []" by (simp add: sample_state_entries sample_batch_def)
  with reachable_ledger_double_entry[OF sample_state_reachable] sample_state_reachable
  show ?thesis by blast
qed

theorem trial_balance_succeeds_witness:
  "\<exists>tb. getTrialBalance sample_state (Some ''t'') ''t'' = Inr tb \<and> tb_balanced tb"
proof (rule trial_balance_succeeds[OF sample_state_reachable])
  show "keys_coherent (ld_entries sample_state)"
    by (rule keys_coherent_no_colon)
      (simp add: sample_state_entries sample_batch_def sample_entry_def entry_cur_def)
qed

theorem snapshot_restores_witness:
  "\<exists>l'. fromSnapshot (snapshot sample_state ''t'') = Inr l' \<and> ld_accounts l' = ld_accounts sample_state"
  using snapshot_restores[OF sample_state_reachable, of "''t''"] by blast

subsection \<open>What the treasury engines rely on\<close>

text \<open>
  The engines of the treasury package use a ledger through three calls: \<^verbatim>\<open>hasAccount\<close>,
  \<^verbatim>\<open>registerAccount\<close> (after a negative \<^verbatim>\<open>hasAccount\<close>) and \<^verbatim>\<open>append\<close> of debit/credit pairs.
  \<open>debit_credit_pair\<close> builds one such pair and \<open>ensure_account\<close> is the guarded registration.
  The locale states what these calls promise; its lemma is that a batch of pairs of
  positive amounts on registered accounts with fresh ids is accepted.
\<close>

definition batch_acceptable :: "(string \<Rightarrow> bool) \<Rightarrow> string set \<Rightarrow> ledger_entry list \<Rightarrow> bool" where
  "batch_acceptable has ids es \<longleftrightarrow>
     es \<noteq> [] \<and> (\<forall>e \<in> set es. le_correlationId e = le_correlationId (hd es)) \<and>
     distinct (map le_id es) \<and> ids \<inter> le_id ` set es = {} \<and>
     (\<forall>e \<in> set es. has (le_account e)) \<and> (\<forall>e \<in> set es. entry_valid e) \<and> double_entry es"

lemma batch_ok_acceptable: "batch_ok l es \<longleftrightarrow> batch_acceptable (hasAccount l) (ld_entryIds l) es"
  unfolding batch_ok_def batch_acceptable_def by (rule refl)

definition ensure_account :: "ledger \<Rightarrow> account_ref \<Rightarrow> string \<Rightarrow> ledger" where
  "ensure_account l ref now =
     (if hasAccount l (ar_id ref) then l else snd (registerAccount l ref None now))"

definition debit_credit_pair ::
  "string \<Rightarrow> string \<Rightarrow> string \<Rightarrow> string \<Rightarrow> string \<Rightarrow> money \<Rightarrow> ledger_entry list" where
  "debit_credit_pair corr now entryId debitAccount creditAccount amount =
     [\<lparr>le_id = entryId @ '':debit'', le_account = debitAccount, le_type = Debit,
       le_money = amount, le_timestamp = now, le_intentId = None, le_txHash = None,
       le_correlationId = corr\<rparr>,
      \<lparr>le_id = entryId @ '':credit'', le_account = creditAccount, le_type = Credit,
       le_money = amount, le_timestamp = now, le_intentId = None, le_txHash = None,
       le_correlationId = corr\<rparr>]"

definition positive_money :: "money \<Rightarrow> bool" where
  "positive_money m \<longleftrightarrow> validateMoney m = Inr () \<and> (case scaled_of m of Inr v \<Rightarrow> 0 < v | Inl _ \<Rightarrow> False)"

abbreviation pairs_of ::
  "string \<Rightarrow> string \<Rightarrow> (string \<times> string \<times> string \<times> money) list \<Rightarrow> ledger_entry list" where
  "pairs_of corr now ps \<equiv> concat (map (\<lambda>(i, d, k, m). debit_credit_pair corr now i d k m) ps)"

lemma pair_valid:
  "positive_money m \<Longrightarrow> e \<in> set (debit_credit_pair corr now i d k m) \<Longrightarrow> entry_valid e"
  by (auto simp: debit_credit_pair_def entry_valid_def positive_money_def entry_amount_def
      split: sum.splits)

lemma pairs_double_entry: "double_entry (pairs_of corr now ps)"
  by (induction ps) (auto simp: double_entry_def debit_credit_pair_def entry_debit_def
      entry_credit_def entry_cur_def entry_amount_def)

lemma pairs_correlation: "e \<in> set (pairs_of corr now ps) \<Longrightarrow> le_correlationId e = corr"
  by (auto simp: debit_credit_pair_def)

lemma pairs_ids:
  "map le_id (pairs_of corr now ps) = concat (map (\<lambda>p. [fst p @ '':debit'', fst p @ '':credit'']) ps)"
  by (induction ps) (auto simp: debit_credit_pair_def)

lemma pairs_ids_distinct:
  assumes "distinct (map fst ps)" shows "distinct (map le_id (pairs_of corr now ps))"
  using assms unfolding pairs_ids
  by (induction ps) auto

lemma pairs_acceptable:
  assumes "ps \<noteq> []" and "distinct (map fst ps)"
    and "\<forall>(i, d, k, m) \<in> set ps. has d \<and> has k \<and> positive_money m"
    and "ids \<inter> le_id ` set (pairs_of corr now ps) = {}"
  shows "batch_acceptable has ids (pairs_of corr now ps)"
  unfolding batch_acceptable_def
proof (intro conjI)
  show ne: "pairs_of corr now ps \<noteq> []" using assms(1) by (cases ps) (auto simp: debit_credit_pair_def)
  have "hd (pairs_of corr now ps) \<in> set (pairs_of corr now ps)" using ne by (rule hd_in_set)
  then show "\<forall>e \<in> set (pairs_of corr now ps). le_correlationId e = le_correlationId (hd (pairs_of corr now ps))"
    using pairs_correlation by metis
  show "distinct (map le_id (pairs_of corr now ps))" using assms(2) by (rule pairs_ids_distinct)
  show "ids \<inter> le_id ` set (pairs_of corr now ps) = {}" by (rule assms(4))
  show "\<forall>e \<in> set (pairs_of corr now ps). has (le_account e)"
    using assms(3) by (auto simp: debit_credit_pair_def)
  show "\<forall>e \<in> set (pairs_of corr now ps). entry_valid e"
    using assms(3) pair_valid by fastforce
  show "double_entry (pairs_of corr now ps)" by (rule pairs_double_entry)
qed

locale ledger_port =
  fixes good :: "'l \<Rightarrow> bool"
    and has :: "'l \<Rightarrow> string \<Rightarrow> bool"
    and ensure :: "'l \<Rightarrow> account_ref \<Rightarrow> string \<Rightarrow> 'l"
    and post :: "'l \<Rightarrow> ledger_entry list \<Rightarrow> string option \<Rightarrow> append_result result \<times> 'l"
    and ids :: "'l \<Rightarrow> string set"
    and journal :: "'l \<Rightarrow> ledger_entry list"
  assumes ensure_has: "has (ensure l ref now) i \<longleftrightarrow> has l i \<or> i = ar_id ref"
    and ensure_journal: "journal (ensure l ref now) = journal l"
    and ensure_ids: "ids (ensure l ref now) = ids l"
    and ensure_good: "good l \<Longrightarrow> good (ensure l ref now)"
    and post_accepts: "batch_acceptable (has l) (ids l) es \<Longrightarrow>
      \<exists>res l'. post l es d = (Inr res, l') \<and> journal l' = journal l @ es"
    and post_rejects: "\<not> batch_acceptable (has l) (ids l) es \<Longrightarrow> \<exists>err. post l es d = (Inl err, l)"
    and post_good: "good l \<Longrightarrow> good (snd (post l es d))"
begin

lemma ensures:
  "has (foldl (\<lambda>l ref. ensure l ref now) l refs) i \<longleftrightarrow> has l i \<or> i \<in> ar_id ` set refs"
  "journal (foldl (\<lambda>l ref. ensure l ref now) l refs) = journal l"
  "ids (foldl (\<lambda>l ref. ensure l ref now) l refs) = ids l"
  "good l \<Longrightarrow> good (foldl (\<lambda>l ref. ensure l ref now) l refs)"
  by (induction refs arbitrary: l) (auto simp: ensure_has ensure_journal ensure_ids ensure_good)

lemma post_pairs:
  assumes "ps \<noteq> []" and "distinct (map fst ps)"
    and "\<forall>(i, d, k, m) \<in> set ps. has l d \<and> has l k \<and> positive_money m"
    and "ids l \<inter> le_id ` set (pairs_of corr now ps) = {}"
  shows "\<exists>res l'. post l (pairs_of corr now ps) d = (Inr res, l') \<and>
    journal l' = journal l @ pairs_of corr now ps"
  by (rule post_accepts) (rule pairs_acceptable[OF assms])

lemma post_success:
  assumes "post l es d = (Inr res, l')" shows "journal l' = journal l @ es"
  using assms post_accepts[of l es d] post_rejects[of l es d]
  by (cases "batch_acceptable (has l) (ids l) es") auto

lemma post_failure:
  assumes "post l es d = (Inl err, l')" shows "l' = l"
  using assms post_accepts[of l es d] post_rejects[of l es d]
  by (cases "batch_acceptable (has l) (ids l) es") auto

end

lemma ensure_account_has:
  "hasAccount (ensure_account l ref now) i \<longleftrightarrow> hasAccount l i \<or> i = ar_id ref"
  by (auto simp: ensure_account_def registerAccount_def hasAccount_def reg_has_def reg_register_def
      Let_def)

lemma ensure_account_rest:
  "ld_entries (ensure_account l ref now) = ld_entries l"
  "ld_entryIds (ensure_account l ref now) = ld_entryIds l"
  by (auto simp: ensure_account_def registerAccount_def reg_register_def Let_def)

lemma ensure_account_reachable: "ledger_reachable l \<Longrightarrow> ledger_reachable (ensure_account l ref now)"
  unfolding ensure_account_def
  by (simp, intro impI, erule reach_step, rule step_register, rule prod.collapse[symmetric])

interpretation lp: ledger_port ledger_reachable hasAccount ensure_account append ld_entryIds ld_entries
proof
  fix l :: ledger and es d
  assume "batch_acceptable (hasAccount l) (ld_entryIds l) es"
  then have "batch_ok l es" by (simp only: batch_ok_acceptable)
  then show "\<exists>res l'. append l es d = (Inr res, l') \<and> ld_entries l' = ld_entries l @ es"
    by (simp add: append_ok)
next
  fix l :: ledger and es d
  assume "\<not> batch_acceptable (hasAccount l) (ld_entryIds l) es"
  then have "\<not> batch_ok l es" by (simp only: batch_ok_acceptable not_False_eq_True)
  then show "\<exists>err. append l es d = (Inl err, l)" by (rule append_fail) blast
qed (simp_all add: ensure_account_has ensure_account_rest ensure_account_reachable append_reachable)

end
