(* ===== verification/Payroll.thy ===== *)
theory Payroll
  imports Ledger
begin

section \<open>Payroll\<close>

text \<open>
  Model of \<^verbatim>\<open>packages/treasury/src/payroll.ts\<close>: payees, pay schedules and payroll runs. A run
  is computed from the schedules of the active payees (gross pay, deductions and net pay of each,
  and the totals), approved, and executed by one balanced batch on the ledger. Methods return their
  result and the new engine; \<open>executeRun\<close> also returns the new ledger. The clock readings of one
  call are one argument; telemetry is left out.

  The lemmas give the amounts of a run as sums over the pay components, when a run is computed,
  and what an execution writes to the ledger.
\<close>

datatype payee_status = PayeeActive | PayeeInactive | PayeeSuspended

datatype pay_component_type = Base | Bonus | Deduction | Reimbursement | Commission | Allowance

datatype run_status = RunDraft | RunApproved | RunExecuted | RunFailed

record payee =
  py_id :: string
  py_name :: string
  py_address :: string
  py_chainId :: "string option"
  py_status :: payee_status
  py_registeredAt :: string

record pay_component =
  pc_id :: string
  pc_name :: string
  pc_type :: pay_component_type
  pc_amount :: money
  pc_recurring :: bool
  pc_taxable :: bool

record schedule_entry =
  se_payeeId :: string
  se_components :: "pay_component list"

record resolved_component =
  rc_componentId :: string
  rc_name :: string
  rc_type :: pay_component_type
  rc_amount :: money

record payroll_entry =
  pe_payeeId :: string
  pe_grossPay :: money
  pe_deductions :: money
  pe_netPay :: money
  pe_components :: "resolved_component list"

record pay_period =
  pp_start :: string
  pp_end :: string
  pp_label :: string

record payroll_run =
  pr_id :: string
  pr_period :: pay_period
  pr_status :: run_status
  pr_entries :: "payroll_entry list"
  pr_totalGross :: money
  pr_totalDeductions :: money
  pr_totalNet :: money
  pr_createdAt :: string
  pr_executedAt :: "string option"

record payroll_engine =
  pl_payees :: "(string, payee) jsmap"
  pl_schedules :: "(string, schedule_entry) jsmap"
  pl_runs :: "(string, payroll_run) jsmap"
  pl_currency :: string
  pl_decimals :: int

definition new_payroll :: "string \<Rightarrow> int \<Rightarrow> payroll_engine" where
  "new_payroll cur decs = \<lparr>pl_payees = [], pl_schedules = [], pl_runs = [], pl_currency = cur,
     pl_decimals = decs\<rparr>"

definition payroll_zero :: "payroll_engine \<Rightarrow> money" where
  "payroll_zero p = zeroMoney (pl_currency p) (pl_decimals p)"

subsection \<open>Payees and schedules\<close>

definition registerPayee ::
  "payroll_engine \<Rightarrow> string \<Rightarrow> string \<Rightarrow> string \<Rightarrow> string option \<Rightarrow> string \<Rightarrow> payee result \<times> payroll_engine" where
  "registerPayee p i name address chainId now =
     (if jm_has (pl_payees p) i then (Inl (PayrollError P_PAYEE_EXISTS), p)
      else let x = \<lparr>py_id = i, py_name = name, py_address = address, py_chainId = chainId,
                    py_status = PayeeActive, py_registeredAt = now\<rparr>
           in (Inr x, p\<lparr>pl_payees := jm_set (pl_payees p) i x\<rparr>))"

definition getPayee :: "payroll_engine \<Rightarrow> string \<Rightarrow> payee result" where
  "getPayee p i =
     (case jm_get (pl_payees p) i of None \<Rightarrow> Inl (PayrollError P_PAYEE_NOT_FOUND) | Some x \<Rightarrow> Inr x)"

definition updatePayeeStatus ::
  "payroll_engine \<Rightarrow> string \<Rightarrow> payee_status \<Rightarrow> payee result \<times> payroll_engine" where
  "updatePayeeStatus p i st =
     (case getPayee p i of Inl err \<Rightarrow> (Inl err, p)
      | Inr x \<Rightarrow> let y = x\<lparr>py_status := st\<rparr> in (Inr y, p\<lparr>pl_payees := jm_set (pl_payees p) i y\<rparr>))"

definition listPayees :: "payroll_engine \<Rightarrow> payee_status option \<Rightarrow> payee list" where
  "listPayees p st =
     (case st of None \<Rightarrow> jm_values (pl_payees p)
      | Some s \<Rightarrow> filter (\<lambda>x. py_status x = s) (jm_values (pl_payees p)))"

definition setSchedule ::
  "payroll_engine \<Rightarrow> string \<Rightarrow> pay_component list \<Rightarrow> schedule_entry result \<times> payroll_engine" where
  "setSchedule p payeeId components =
     (case bind_r (getPayee p payeeId) (\<lambda>_.
           bind_r (throw_when (components = []) (PayrollError P_NO_COMPONENTS)) (\<lambda>_.
             forE (\<lambda>c. throw_when (m_currency (pc_amount c) \<noteq> pl_currency p)
                         (PayrollError P_INVALID_AMOUNT)) components)) of
        Inl err \<Rightarrow> (Inl err, p)
      | Inr _ \<Rightarrow>
          let entry = \<lparr>se_payeeId = payeeId, se_components = components\<rparr>
          in (Inr entry, p\<lparr>pl_schedules := jm_set (pl_schedules p) payeeId entry\<rparr>))"

definition getSchedule :: "payroll_engine \<Rightarrow> string \<Rightarrow> schedule_entry option" where
  "getSchedule p i = jm_get (pl_schedules p) i"

subsection \<open>Runs\<close>

definition entry_step ::
  "money \<times> money \<times> resolved_component list \<Rightarrow> pay_component \<Rightarrow>
   (money \<times> money \<times> resolved_component list) result" where
  "entry_step st c =
     (case st of (gross, deductions, resolved) \<Rightarrow>
        let resolved' = resolved @ [\<lparr>rc_componentId = pc_id c, rc_name = pc_name c,
              rc_type = pc_type c, rc_amount = pc_amount c\<rparr>]
        in if pc_type c = Deduction
           then bind_r (addMoney deductions (pc_amount c)) (\<lambda>d. Inr (gross, d, resolved'))
           else bind_r (addMoney gross (pc_amount c)) (\<lambda>g. Inr (g, deductions, resolved')))"

definition computeEntry ::
  "payroll_engine \<Rightarrow> string \<Rightarrow> pay_component list \<Rightarrow> payroll_entry result" where
  "computeEntry p payeeId components =
     bind_r (foldE entry_step (payroll_zero p, payroll_zero p, []) components) (\<lambda>(gross, deductions, resolved).
     bind_r (subtractMoney gross deductions) (\<lambda>net.
       Inr \<lparr>pe_payeeId = payeeId, pe_grossPay = gross, pe_deductions = deductions,
            pe_netPay = net, pe_components = resolved\<rparr>))"

definition is_active :: "payroll_engine \<Rightarrow> string \<Rightarrow> bool" where
  "is_active p payeeId =
     (case jm_get (pl_payees p) payeeId of None \<Rightarrow> False | Some x \<Rightarrow> py_status x = PayeeActive)"

definition run_step ::
  "payroll_engine \<Rightarrow> payroll_entry list \<times> money \<times> money \<times> money \<Rightarrow> string \<times> schedule_entry \<Rightarrow>
   (payroll_entry list \<times> money \<times> money \<times> money) result" where
  "run_step p st sched =
     (case st of (entries, totalGross, totalDeductions, totalNet) \<Rightarrow>
        if \<not> is_active p (fst sched) then Inr st
        else bind_r (computeEntry p (fst sched) (se_components (snd sched))) (\<lambda>entry.
             bind_r (addMoney totalGross (pe_grossPay entry)) (\<lambda>g.
             bind_r (addMoney totalDeductions (pe_deductions entry)) (\<lambda>d.
             bind_r (addMoney totalNet (pe_netPay entry)) (\<lambda>n.
               Inr (entries @ [entry], g, d, n))))))"

definition createRun ::
  "payroll_engine \<Rightarrow> string \<Rightarrow> pay_period \<Rightarrow> string \<Rightarrow> payroll_run result \<times> payroll_engine" where
  "createRun p i period now =
     (if jm_has (pl_runs p) i then (Inl (PayrollError P_RUN_EXISTS), p)
      else let z = payroll_zero p
        in case foldE (run_step p) ([], z, z, z) (pl_schedules p) of
             Inl err \<Rightarrow> (Inl err, p)
           | Inr (entries, g, d, n) \<Rightarrow>
               let run = \<lparr>pr_id = i, pr_period = period, pr_status = RunDraft, pr_entries = entries,
                     pr_totalGross = g, pr_totalDeductions = d, pr_totalNet = n, pr_createdAt = now,
                     pr_executedAt = None\<rparr>
               in (Inr run, p\<lparr>pl_runs := jm_set (pl_runs p) i run\<rparr>))"

definition getRun :: "payroll_engine \<Rightarrow> string \<Rightarrow> payroll_run result" where
  "getRun p i =
     (case jm_get (pl_runs p) i of None \<Rightarrow> Inl (PayrollError P_RUN_NOT_FOUND) | Some r \<Rightarrow> Inr r)"

definition listRuns :: "payroll_engine \<Rightarrow> run_status option \<Rightarrow> payroll_run list" where
  "listRuns p st =
     (case st of None \<Rightarrow> jm_values (pl_runs p)
      | Some s \<Rightarrow> filter (\<lambda>x. pr_status x = s) (jm_values (pl_runs p)))"

definition approveRun :: "payroll_engine \<Rightarrow> string \<Rightarrow> payroll_run result \<times> payroll_engine" where
  "approveRun p i =
     (case bind_r (getRun p i) (\<lambda>run.
           bind_r (throw_when (pr_status run \<noteq> RunDraft) (PayrollError P_INVALID_TRANSITION)) (\<lambda>_.
             Inr run)) of
        Inl err \<Rightarrow> (Inl err, p)
      | Inr run \<Rightarrow> let approved = run\<lparr>pr_status := RunApproved\<rparr>
          in (Inr approved, p\<lparr>pl_runs := jm_set (pl_runs p) i approved\<rparr>))"

definition check_net_pay :: "payroll_entry \<Rightarrow> unit result" where
  "check_net_pay entry =
     (case validateMoney (pe_netPay entry) of
        Inl _ \<Rightarrow> Inl (PayrollError P_INVALID_AMOUNT)
      | Inr _ \<Rightarrow> bind_r (isPositive (pe_netPay entry)) (\<lambda>pos.
          throw_when (\<not> pos) (PayrollError P_INVALID_AMOUNT)))"

definition expense_account :: "payroll_run \<Rightarrow> account_ref" where
  "expense_account run = \<lparr>ar_id = ''payroll:expense:'' @ pp_label (pr_period run), ar_type = Expense,
     ar_name = ''Payroll Expense: '' @ pp_label (pr_period run)\<rparr>"

definition payee_account :: "payroll_entry \<Rightarrow> account_ref" where
  "payee_account entry = \<lparr>ar_id = ''payroll:payee:'' @ pe_payeeId entry, ar_type = Liability,
     ar_name = ''Payee: '' @ pe_payeeId entry\<rparr>"

definition payroll_pair :: "payroll_run \<Rightarrow> string \<Rightarrow> payroll_entry \<Rightarrow> ledger_entry list" where
  "payroll_pair run now entry =
     (let corrId = ''payroll:'' @ pr_id run
      in debit_credit_pair corrId now (corrId @ '':'' @ pe_payeeId entry) (ar_id (expense_account run))
           (ar_id (payee_account entry)) (pe_netPay entry))"

text \<open>The loop over the entries ensures each payee's account and collects the ledger entries.\<close>

definition payroll_loop ::
  "ledger \<Rightarrow> payroll_run \<Rightarrow> string \<Rightarrow> payroll_entry list \<Rightarrow> ledger \<times> ledger_entry list" where
  "payroll_loop l run now es =
     foldl (\<lambda>(l, acc) e. (ensure_account l (payee_account e) now, acc @ payroll_pair run now e))
       (l, []) es"

definition executeRun ::
  "payroll_engine \<Rightarrow> ledger \<Rightarrow> string \<Rightarrow> string \<Rightarrow> payroll_run result \<times> payroll_engine \<times> ledger" where
  "executeRun p l i now =
     (case bind_r (getRun p i) (\<lambda>run.
           bind_r (throw_when (pr_status run \<noteq> RunApproved) (PayrollError P_INVALID_TRANSITION)) (\<lambda>_.
           bind_r (forE check_net_pay (pr_entries run)) (\<lambda>_. Inr run))) of
        Inl err \<Rightarrow> (Inl err, p, l)
      | Inr run \<Rightarrow>
          (case payroll_loop (ensure_account l (expense_account run) now) run now (pr_entries run) of
             (l', entries) \<Rightarrow>
               (case (if entries = [] then (Inr (), l')
                      else case append l' entries (Some (''Payroll: '' @ pp_label (pr_period run))) of
                             (Inl err, l'') \<Rightarrow> (Inl err, l'') | (Inr _, l'') \<Rightarrow> (Inr (), l'')) of
                  (Inl err, l'') \<Rightarrow> (Inl err, p, l'')
                | (Inr _, l'') \<Rightarrow>
                    let executed = run\<lparr>pr_status := RunExecuted, pr_executedAt := Some now\<rparr>
                    in (Inr executed, p\<lparr>pl_runs := jm_set (pl_runs p) i executed\<rparr>, l''))))"

subsection \<open>Export and import\<close>

definition exportPayees :: "payroll_engine \<Rightarrow> payee list" where
  "exportPayees p = jm_values (pl_payees p)"

definition exportRuns :: "payroll_engine \<Rightarrow> payroll_run list" where
  "exportRuns p = jm_values (pl_runs p)"

definition importPayees :: "payroll_engine \<Rightarrow> payee list \<Rightarrow> unit result \<times> payroll_engine" where
  "importPayees p xs =
     (if 0 < length (pl_payees p) then (Inl (PayrollError P_IMPORT_NOT_EMPTY), p)
      else case import_records py_id (PayrollError P_DUPLICATE_IMPORT_ID) (pl_payees p) {} xs of
             (r, store) \<Rightarrow> (r, p\<lparr>pl_payees := store\<rparr>))"

definition importRuns :: "payroll_engine \<Rightarrow> payroll_run list \<Rightarrow> unit result \<times> payroll_engine" where
  "importRuns p xs =
     (if 0 < length (pl_runs p) then (Inl (PayrollError P_IMPORT_NOT_EMPTY), p)
      else case import_records pr_id (PayrollError P_DUPLICATE_IMPORT_ID) (pl_runs p) {} xs of
             (r, store) \<Rightarrow> (r, p\<lparr>pl_runs := store\<rparr>))"

subsection \<open>The amounts of a run\<close>

definition earnings :: "pay_component list \<Rightarrow> int" where
  "earnings cs = (\<Sum>c\<leftarrow>filter (\<lambda>c. pc_type c \<noteq> Deduction) cs. money_value (pc_amount c))"

definition withheld :: "pay_component list \<Rightarrow> int" where
  "withheld cs = (\<Sum>c\<leftarrow>filter (\<lambda>c. pc_type c = Deduction) cs. money_value (pc_amount c))"

definition resolve :: "pay_component \<Rightarrow> resolved_component" where
  "resolve c = \<lparr>rc_componentId = pc_id c, rc_name = pc_name c, rc_type = pc_type c,
     rc_amount = pc_amount c\<rparr>"

definition component_ok :: "string \<times> int \<Rightarrow> pay_component \<Rightarrow> bool" where
  "component_ok u c \<longleftrightarrow> in_unit u (pc_amount c) (money_value (pc_amount c))"

lemma in_unit_zero: "0 \<le> pl_decimals p \<Longrightarrow> in_unit (pl_currency p, pl_decimals p) (payroll_zero p) 0"
  unfolding payroll_zero_def by (rule in_unit_zeroMoney)

lemma sums_Cons [simp]:
  "earnings (c # cs) = (if pc_type c = Deduction then 0 else money_value (pc_amount c)) + earnings cs"
  "withheld (c # cs) = (if pc_type c = Deduction then money_value (pc_amount c) else 0) + withheld cs"
  "earnings [] = 0" "withheld [] = 0"
  by (simp_all add: earnings_def withheld_def)

lemma entry_step_cases:
  "entry_step (g, d, rs) c =
     (if pc_type c = Deduction then bind_r (addMoney d (pc_amount c)) (\<lambda>d. Inr (g, d, rs @ [resolve c]))
      else bind_r (addMoney g (pc_amount c)) (\<lambda>g. Inr (g, d, rs @ [resolve c])))"
  by (simp add: entry_step_def resolve_def)

lemma entry_fold:
  assumes "foldE entry_step (g, d, rs) cs = Inr (g', d', rs')" "in_unit u g x" "in_unit u d y"
  shows "(\<forall>c \<in> set cs. component_ok u c) \<and> in_unit u g' (x + earnings cs) \<and>
    in_unit u d' (y + withheld cs) \<and> rs' = rs @ map resolve cs"
  using assms
proof (induction cs arbitrary: g d rs x y)
  case Nil
  then show ?case by simp
next
  case (Cons c cs)
  show ?case
  proof (cases "pc_type c = Deduction")
    case True
    then obtain d1 where d1: "addMoney d (pc_amount c) = Inr d1"
      "foldE entry_step (g, d1, rs @ [resolve c]) cs = Inr (g', d', rs')"
      using Cons.prems(1) by (auto simp: entry_step_cases bind_r_eq_Inr)
    note u = in_unit_add[OF Cons.prems(3) d1(1)]
    from Cons.IH[OF d1(2) Cons.prems(2)] u have
      "(\<forall>c \<in> set cs. component_ok u c) \<and> in_unit u g' (x + earnings cs) \<and>
       in_unit u d' (y + money_value (pc_amount c) + withheld cs) \<and> rs' = (rs @ [resolve c]) @ map resolve cs"
      by blast
    with True u show ?thesis by (simp add: component_ok_def add.assoc)
  next
    case False
    then obtain g1 where g1: "addMoney g (pc_amount c) = Inr g1"
      "foldE entry_step (g1, d, rs @ [resolve c]) cs = Inr (g', d', rs')"
      using Cons.prems(1) by (auto simp: entry_step_cases bind_r_eq_Inr)
    note u = in_unit_add[OF Cons.prems(2) g1(1)]
    from Cons.IH[OF g1(2) _ Cons.prems(3)] u have
      "(\<forall>c \<in> set cs. component_ok u c) \<and> in_unit u g' (x + money_value (pc_amount c) + earnings cs) \<and>
       in_unit u d' (y + withheld cs) \<and> rs' = (rs @ [resolve c]) @ map resolve cs"
      by blast
    with False u show ?thesis by (simp add: component_ok_def add.assoc)
  qed
qed

lemma entry_fold_ok:
  assumes "\<forall>c \<in> set cs. component_ok u c" "in_unit u g x" "in_unit u d y"
  shows "\<exists>g' d' rs'. foldE entry_step (g, d, rs) cs = Inr (g', d', rs')"
  using assms
proof (induction cs arbitrary: g d rs x y)
  case Nil
  then show ?case by simp
next
  case (Cons c cs)
  have c: "in_unit u (pc_amount c) (money_value (pc_amount c))" and cs: "\<forall>c \<in> set cs. component_ok u c"
    using Cons.prems(1) by (simp_all add: component_ok_def)
  show ?case
  proof (cases "pc_type c = Deduction")
    case True
    obtain d1 where "addMoney d (pc_amount c) = Inr d1" "in_unit u d1 (y + money_value (pc_amount c))"
      by (rule in_unit_add_ok[OF Cons.prems(3) c])
    with Cons.IH[OF cs Cons.prems(2), of d1] True show ?thesis by (simp add: entry_step_cases)
  next
    case False
    obtain g1 where "addMoney g (pc_amount c) = Inr g1" "in_unit u g1 (x + money_value (pc_amount c))"
      by (rule in_unit_add_ok[OF Cons.prems(2) c])
    with Cons.IH[OF cs _ Cons.prems(3), of g1] False show ?thesis by (simp add: entry_step_cases)
  qed
qed

definition entry_spec :: "string \<times> int \<Rightarrow> string \<Rightarrow> pay_component list \<Rightarrow> payroll_entry \<Rightarrow> bool" where
  "entry_spec u i cs e \<longleftrightarrow> pe_payeeId e = i \<and> (\<forall>c \<in> set cs. component_ok u c) \<and>
     in_unit u (pe_grossPay e) (earnings cs) \<and> in_unit u (pe_deductions e) (withheld cs) \<and>
     in_unit u (pe_netPay e) (earnings cs - withheld cs) \<and> pe_components e = map resolve cs"

abbreviation payroll_unit :: "payroll_engine \<Rightarrow> string \<times> int" where
  "payroll_unit p \<equiv> (pl_currency p, pl_decimals p)"

lemma computeEntry_spec:
  assumes d: "0 \<le> pl_decimals p" and e: "computeEntry p i cs = Inr e"
  shows "entry_spec (payroll_unit p) i cs e"
proof -
  obtain g dd rs net where f: "foldE entry_step (payroll_zero p, payroll_zero p, []) cs = Inr (g, dd, rs)"
    and net: "subtractMoney g dd = Inr net"
    and e': "e = \<lparr>pe_payeeId = i, pe_grossPay = g, pe_deductions = dd, pe_netPay = net, pe_components = rs\<rparr>"
    using e by (auto simp: computeEntry_def bind_r_eq_Inr)
  from entry_fold[OF f in_unit_zero[OF d] in_unit_zero[OF d]] have
    h: "\<forall>c \<in> set cs. component_ok (payroll_unit p) c" "in_unit (payroll_unit p) g (earnings cs)"
      "in_unit (payroll_unit p) dd (withheld cs)" "rs = map resolve cs" by simp_all
  from in_unit_sub[OF h(2,3)] net have "in_unit (payroll_unit p) net (earnings cs - withheld cs)" by force
  with h show ?thesis by (simp add: entry_spec_def e')
qed

lemma computeEntry_ok:
  assumes d: "0 \<le> pl_decimals p" and "\<forall>c \<in> set cs. component_ok (payroll_unit p) c"
  shows "\<exists>e. computeEntry p i cs = Inr e"
proof -
  obtain g dd rs where f: "foldE entry_step (payroll_zero p, payroll_zero p, []) cs = Inr (g, dd, rs)"
    using entry_fold_ok[OF assms(2) in_unit_zero[OF d] in_unit_zero[OF d]] by blast
  from entry_fold[OF f in_unit_zero[OF d] in_unit_zero[OF d]] have
    "in_unit (payroll_unit p) g (0 + earnings cs)" "in_unit (payroll_unit p) dd (0 + withheld cs)" by simp_all
  then obtain net where "subtractMoney g dd = Inr net" by (rule in_unit_sub)
  then show ?thesis by (simp add: computeEntry_def f)
qed

abbreviation components_of :: "string \<times> schedule_entry \<Rightarrow> pay_component list" where
  "components_of s \<equiv> se_components (snd s)"

abbreviation active_schedules :: "payroll_engine \<Rightarrow> (string \<times> schedule_entry) list \<Rightarrow> (string \<times> schedule_entry) list" where
  "active_schedules p ss \<equiv> filter (\<lambda>s. is_active p (fst s)) ss"

lemma run_step_inactive: "\<not> is_active p (fst s) \<Longrightarrow> run_step p st s = Inr st"
  by (simp add: run_step_def split: prod.splits)

lemma run_step_active:
  "is_active p (fst s) \<Longrightarrow> run_step p (es, g, d, n) s =
     bind_r (computeEntry p (fst s) (components_of s)) (\<lambda>entry.
     bind_r (addMoney g (pe_grossPay entry)) (\<lambda>g.
     bind_r (addMoney d (pe_deductions entry)) (\<lambda>d.
     bind_r (addMoney n (pe_netPay entry)) (\<lambda>n. Inr (es @ [entry], g, d, n)))))"
  by (simp add: run_step_def)

lemma run_fold:
  assumes d: "0 \<le> pl_decimals p" and "foldE (run_step p) (es, g, dd, n) ss = Inr (es', g', dd', n')"
    and "in_unit (payroll_unit p) g x" "in_unit (payroll_unit p) dd y" "in_unit (payroll_unit p) n z"
  shows "\<exists>new. es' = es @ new \<and>
    list_all2 (\<lambda>s e. entry_spec (payroll_unit p) (fst s) (components_of s) e) (active_schedules p ss) new \<and>
    in_unit (payroll_unit p) g' (x + (\<Sum>s\<leftarrow>active_schedules p ss. earnings (components_of s))) \<and>
    in_unit (payroll_unit p) dd' (y + (\<Sum>s\<leftarrow>active_schedules p ss. withheld (components_of s))) \<and>
    in_unit (payroll_unit p) n' (z + (\<Sum>s\<leftarrow>active_schedules p ss.
      earnings (components_of s) - withheld (components_of s)))"
  using assms(2-)
proof (induction ss arbitrary: es g dd n x y z)
  case Nil
  then show ?case by simp
next
  case (Cons s ss)
  show ?case
  proof (cases "is_active p (fst s)")
    case False
    then have "foldE (run_step p) (es, g, dd, n) ss = Inr (es', g', dd', n')"
      using Cons.prems(1) by (simp add: run_step_inactive)
    from Cons.IH[OF this Cons.prems(2-)] False show ?thesis by simp
  next
    case True
    then obtain e g1 d1 n1 where h: "computeEntry p (fst s) (components_of s) = Inr e"
      "addMoney g (pe_grossPay e) = Inr g1" "addMoney dd (pe_deductions e) = Inr d1"
      "addMoney n (pe_netPay e) = Inr n1" "foldE (run_step p) (es @ [e], g1, d1, n1) ss = Inr (es', g', dd', n')"
      using Cons.prems(1) by (auto simp: run_step_active bind_r_eq_Inr)
    have e: "entry_spec (payroll_unit p) (fst s) (components_of s) e" by (rule computeEntry_spec[OF d h(1)])
    then have v: "money_value (pe_grossPay e) = earnings (components_of s)"
      "money_value (pe_deductions e) = withheld (components_of s)"
      "money_value (pe_netPay e) = earnings (components_of s) - withheld (components_of s)"
      using in_unit_value unfolding entry_spec_def by blast+
    have u: "in_unit (payroll_unit p) g1 (x + earnings (components_of s))"
      "in_unit (payroll_unit p) d1 (y + withheld (components_of s))"
      "in_unit (payroll_unit p) n1 (z + (earnings (components_of s) - withheld (components_of s)))"
      using in_unit_add[OF Cons.prems(2) h(2)] in_unit_add[OF Cons.prems(3) h(3)]
        in_unit_add[OF Cons.prems(4) h(4)] unfolding v by blast+
    from Cons.IH[OF h(5) u] obtain new where "es' = (es @ [e]) @ new"
      "list_all2 (\<lambda>s e. entry_spec (payroll_unit p) (fst s) (components_of s) e) (active_schedules p ss) new"
      "in_unit (payroll_unit p) g' (x + earnings (components_of s) + (\<Sum>s\<leftarrow>active_schedules p ss. earnings (components_of s)))"
      "in_unit (payroll_unit p) dd' (y + withheld (components_of s) + (\<Sum>s\<leftarrow>active_schedules p ss. withheld (components_of s)))"
      "in_unit (payroll_unit p) n' (z + (earnings (components_of s) - withheld (components_of s)) +
         (\<Sum>s\<leftarrow>active_schedules p ss. earnings (components_of s) - withheld (components_of s)))"
      by blast
    then show ?thesis using True e by (intro exI[of _ "e # new"]) (simp add: add.assoc)
  qed
qed

lemma run_fold_ok:
  assumes d: "0 \<le> pl_decimals p"
    and "\<forall>s \<in> set (active_schedules p ss). \<forall>c \<in> set (components_of s). component_ok (payroll_unit p) c"
    and "in_unit (payroll_unit p) g x" "in_unit (payroll_unit p) dd y" "in_unit (payroll_unit p) n z"
  shows "\<exists>r. foldE (run_step p) (es, g, dd, n) ss = Inr r"
  using assms(2-)
proof (induction ss arbitrary: es g dd n x y z)
  case Nil
  then show ?case by simp
next
  case (Cons s ss)
  have ss: "\<forall>s \<in> set (active_schedules p ss). \<forall>c \<in> set (components_of s). component_ok (payroll_unit p) c"
  proof -
    have "set (active_schedules p ss) \<subseteq> set (active_schedules p (s # ss))" by auto
    then show ?thesis using Cons.prems(1) by blast
  qed
  show ?case
  proof (cases "is_active p (fst s)")
    case False
    with Cons.IH[OF ss Cons.prems(2-), of es] show ?thesis by (simp add: run_step_inactive)
  next
    case True
    then have "\<forall>c \<in> set (components_of s). component_ok (payroll_unit p) c" using Cons.prems(1) by simp
    from computeEntry_ok[OF d this] obtain e where e: "computeEntry p (fst s) (components_of s) = Inr e" by blast
    from computeEntry_spec[OF d e] have u: "in_unit (payroll_unit p) (pe_grossPay e) (earnings (components_of s))"
      "in_unit (payroll_unit p) (pe_deductions e) (withheld (components_of s))"
      "in_unit (payroll_unit p) (pe_netPay e) (earnings (components_of s) - withheld (components_of s))"
      by (simp_all add: entry_spec_def)
    obtain g1 where g1: "addMoney g (pe_grossPay e) = Inr g1" "in_unit (payroll_unit p) g1 (x + earnings (components_of s))"
      by (rule in_unit_add_ok[OF Cons.prems(2) u(1)])
    obtain d1 where d1: "addMoney dd (pe_deductions e) = Inr d1" "in_unit (payroll_unit p) d1 (y + withheld (components_of s))"
      by (rule in_unit_add_ok[OF Cons.prems(3) u(2)])
    obtain n1 where n1: "addMoney n (pe_netPay e) = Inr n1"
      "in_unit (payroll_unit p) n1 (z + (earnings (components_of s) - withheld (components_of s)))"
      by (rule in_unit_add_ok[OF Cons.prems(4) u(3)])
    from Cons.IH[OF ss g1(2) d1(2) n1(2), of "es @ [e]"] show ?thesis
      using True e g1(1) d1(1) n1(1) by (simp add: run_step_active)
  qed
qed


subsection \<open>What an execution writes\<close>

lemma payroll_loop_eq:
  "payroll_loop l run now es =
     (foldl (\<lambda>l ref. ensure_account l ref now) l (map payee_account es), concat (map (payroll_pair run now) es))"
proof -
  have "foldl (\<lambda>(l, acc) e. (ensure_account l (payee_account e) now, acc @ payroll_pair run now e)) (l, acc) es =
    (foldl (\<lambda>l ref. ensure_account l ref now) l (map payee_account es), acc @ concat (map (payroll_pair run now) es))"
    for acc by (induction es arbitrary: l acc) simp_all
  then show ?thesis by (simp add: payroll_loop_def)
qed

abbreviation payroll_ledger :: "ledger \<Rightarrow> payroll_run \<Rightarrow> string \<Rightarrow> ledger" where
  "payroll_ledger l run now \<equiv>
     foldl (\<lambda>l ref. ensure_account l ref now) l (expense_account run # map payee_account (pr_entries run))"

abbreviation payroll_batch :: "payroll_run \<Rightarrow> string \<Rightarrow> ledger_entry list" where
  "payroll_batch run now \<equiv> concat (map (payroll_pair run now) (pr_entries run))"

lemma check_net_pay_iff: "check_net_pay e = Inr () \<longleftrightarrow> positive_money (pe_netPay e)"
proof (cases "validateMoney (pe_netPay e)")
  case (Inl err)
  then show ?thesis by (simp add: check_net_pay_def positive_money_def)
next
  case (Inr u)
  then have v: "validateMoney (pe_netPay e) = Inr ()" by (cases u) simp
  then obtain x where x: "scaled_of (pe_netPay e) = Inr x" by (auto simp: validateMoney_iff)
  then have "isPositive (pe_netPay e) = Inr (0 < x)" by (simp add: isPositive_Inr)
  with v x show ?thesis by (simp add: check_net_pay_def positive_money_def throw_when_def)
qed

definition run_payable :: "payroll_engine \<Rightarrow> string \<Rightarrow> payroll_run \<Rightarrow> bool" where
  "run_payable p i run \<longleftrightarrow> getRun p i = Inr run \<and> pr_status run = RunApproved \<and>
     (\<forall>e \<in> set (pr_entries run). positive_money (pe_netPay e))"

lemma executeRun_checks:
  "(bind_r (getRun p i) (\<lambda>run.
      bind_r (throw_when (pr_status run \<noteq> RunApproved) (PayrollError P_INVALID_TRANSITION)) (\<lambda>_.
      bind_r (forE check_net_pay (pr_entries run)) (\<lambda>_. Inr run))) = Inr run) \<longleftrightarrow> run_payable p i run"
  by (auto simp: run_payable_def bind_r_eq_Inr throw_when_Inr forE_Inr check_net_pay_iff)

text \<open>An execution, as one append to the ledger with the accounts ensured.\<close>

lemma executeRun_payable:
  assumes "run_payable p i run"
  shows "executeRun p l i now =
    (let executed = run\<lparr>pr_status := RunExecuted, pr_executedAt := Some now\<rparr>;
         p' = p\<lparr>pl_runs := jm_set (pl_runs p) i executed\<rparr>
     in if payroll_batch run now = [] then (Inr executed, p', payroll_ledger l run now)
        else case append (payroll_ledger l run now) (payroll_batch run now)
                    (Some (''Payroll: '' @ pp_label (pr_period run))) of
               (Inl err, l') \<Rightarrow> (Inl err, p, l') | (Inr _, l') \<Rightarrow> (Inr executed, p', l'))"
  using assms executeRun_checks[of p i run]
  by (simp add: executeRun_def payroll_loop_eq Let_def split: prod.splits sum.splits)

lemma executeRun_refused:
  assumes "\<And>run. \<not> run_payable p i run"
  obtains err where "executeRun p l i now = (Inl err, p, l)"
proof (cases "bind_r (getRun p i) (\<lambda>run.
      bind_r (throw_when (pr_status run \<noteq> RunApproved) (PayrollError P_INVALID_TRANSITION)) (\<lambda>_.
      bind_r (forE check_net_pay (pr_entries run)) (\<lambda>_. Inr run)))")
  case (Inl err)
  then show ?thesis using that by (simp add: executeRun_def)
next
  case (Inr run)
  then show ?thesis using assms executeRun_checks by blast
qed

lemma payroll_ledger_entries: "ld_entries (payroll_ledger l run now) = ld_entries l"
  by (rule lp.ensures(2))

lemma payroll_batch_pairs:
  "payroll_batch run now = pairs_of (''payroll:'' @ pr_id run) now
     (map (\<lambda>e. ((''payroll:'' @ pr_id run) @ '':'' @ pe_payeeId e, ar_id (expense_account run),
        ar_id (payee_account e), pe_netPay e)) (pr_entries run))"
  unfolding map_map comp_def payroll_pair_def[abs_def] Let_def by simp

lemma executeRun_outcome:
  assumes "executeRun p l i now = (r, p', l')"
  obtains (booked) run where "run_payable p i run"
      "r = Inr (run\<lparr>pr_status := RunExecuted, pr_executedAt := Some now\<rparr>)"
      "p' = p\<lparr>pl_runs := jm_set (pl_runs p) i (run\<lparr>pr_status := RunExecuted, pr_executedAt := Some now\<rparr>)\<rparr>"
      "ld_entries l' = ld_entries l @ payroll_batch run now"
  | (refused) err where "r = Inl err" "p' = p" "ld_entries l' = ld_entries l"
proof (cases "\<exists>run. run_payable p i run")
  case False
  then obtain err where "executeRun p l i now = (Inl err, p, l)" using executeRun_refused by metis
  then show ?thesis using refused assms by simp
next
  case True
  then obtain run where run: "run_payable p i run" by blast
  note e = executeRun_payable[OF run, of l now, unfolded Let_def, unfolded assms]
  show ?thesis
  proof (cases "payroll_batch run now = []")
    case True
    then show ?thesis using booked[OF run] e payroll_ledger_entries by simp
  next
    case False
    obtain x l1 where a: "append (payroll_ledger l run now) (payroll_batch run now)
        (Some (''Payroll: '' @ pp_label (pr_period run))) = (x, l1)" by fastforce
    show ?thesis
    proof (cases x)
      case (Inl err)
      then have "l1 = payroll_ledger l run now" using a lp.post_failure by blast
      moreover have "(r, p', l') = (Inl err, p, l1)" unfolding e a Inl if_not_P[OF False] by simp
      ultimately show ?thesis using refused payroll_ledger_entries by simp
    next
      case (Inr res)
      then have "ld_entries l1 = ld_entries l @ payroll_batch run now"
        using a lp.post_success payroll_ledger_entries by metis
      moreover have "(r, p', l') = (Inr (run\<lparr>pr_status := RunExecuted, pr_executedAt := Some now\<rparr>),
          p\<lparr>pl_runs := jm_set (pl_runs p) i (run\<lparr>pr_status := RunExecuted, pr_executedAt := Some now\<rparr>)\<rparr>, l1)"
        unfolding e a Inr if_not_P[OF False] by simp
      ultimately show ?thesis using booked[OF run] by simp
    qed
  qed
qed

lemma executeRun_ledger:
  assumes "ledger_reachable l" shows "ledger_reachable (snd (snd (executeRun p l i now)))"
proof (cases "\<exists>run. run_payable p i run")
  case False
  then obtain err where "executeRun p l i now = (Inl err, p, l)" using executeRun_refused by metis
  then show ?thesis using assms by simp
next
  case True
  then obtain run where run: "run_payable p i run" by blast
  let ?l = "payroll_ledger l run now"
  have good: "ledger_reachable ?l" using assms by (rule lp.ensures(4))
  have "ledger_reachable l'" if "append ?l es c = (r, l')" for es c r l'
    using append_reachable[OF good, of es c] that by simp
  then show ?thesis using good unfolding executeRun_payable[OF run] Let_def
    by (cases "append ?l (payroll_batch run now) (Some (''Payroll: '' @ pp_label (pr_period run)))") (simp split: sum.splits)
qed

subsection \<open>Properties\<close>

text \<open>A payroll run that \<^verbatim>\<open>createRun\<close> returns has one entry per schedule of an active
  payee, in schedule order, with gross pay the sum of the non-deduction components, deductions the
  sum of the deduction components and net pay their difference; the totals are the sums over the
  entries (so total net = total gross - total deductions), the run is a draft, and it is stored.\<close>

theorem payroll_run_amounts:
  assumes "0 \<le> pl_decimals p" and "createRun p i period now = (Inr run, p')"
  shows "list_all2 (\<lambda>s e. entry_spec (payroll_unit p) (fst s) (components_of s) e)
      (active_schedules p (pl_schedules p)) (pr_entries run) \<and>
    in_unit (payroll_unit p) (pr_totalGross run)
      (\<Sum>s\<leftarrow>active_schedules p (pl_schedules p). earnings (components_of s)) \<and>
    in_unit (payroll_unit p) (pr_totalDeductions run)
      (\<Sum>s\<leftarrow>active_schedules p (pl_schedules p). withheld (components_of s)) \<and>
    in_unit (payroll_unit p) (pr_totalNet run)
      (\<Sum>s\<leftarrow>active_schedules p (pl_schedules p). earnings (components_of s) - withheld (components_of s)) \<and>
    pr_status run = RunDraft \<and> getRun p' i = Inr run"
proof -
  let ?z = "payroll_zero p"
  obtain es g d n where f: "foldE (run_step p) ([], ?z, ?z, ?z) (pl_schedules p) = Inr (es, g, d, n)"
    and run: "run = \<lparr>pr_id = i, pr_period = period, pr_status = RunDraft, pr_entries = es,
       pr_totalGross = g, pr_totalDeductions = d, pr_totalNet = n, pr_createdAt = now, pr_executedAt = None\<rparr>"
    and p': "p' = p\<lparr>pl_runs := jm_set (pl_runs p) i run\<rparr>"
    using assms(2) by (auto simp: createRun_def Let_def split: if_splits sum.splits prod.splits)
  note z = in_unit_zero[OF assms(1)]
  from run_fold[OF assms(1) f z z z] show ?thesis by (simp add: run p' getRun_def)
qed

text \<open>\<^verbatim>\<open>createRun\<close> succeeds exactly when the run id is new and every component of every
  scheduled active payee parses and has the engine's currency and decimals; otherwise it leaves the
  engine unchanged.\<close>

theorem payroll_run_created_iff:
  assumes "0 \<le> pl_decimals p"
  shows "case createRun p i period now of
      (Inr run, p') \<Rightarrow> \<not> jm_has (pl_runs p) i \<and>
        (\<forall>s \<in> set (active_schedules p (pl_schedules p)). \<forall>c \<in> set (components_of s). component_ok (payroll_unit p) c)
    | (Inl err, p') \<Rightarrow> p' = p \<and> (jm_has (pl_runs p) i \<or>
        (\<exists>s \<in> set (active_schedules p (pl_schedules p)). \<exists>c \<in> set (components_of s). \<not> component_ok (payroll_unit p) c))"
proof (cases "jm_has (pl_runs p) i")
  case True
  then show ?thesis by (simp add: createRun_def)
next
  case False
  let ?z = "payroll_zero p"
  note z = in_unit_zero[OF assms]
  show ?thesis
  proof (cases "foldE (run_step p) ([], ?z, ?z, ?z) (pl_schedules p)")
    case (Inl err)
    have "\<exists>s \<in> set (active_schedules p (pl_schedules p)). \<exists>c \<in> set (components_of s). \<not> component_ok (payroll_unit p) c"
    proof (rule ccontr)
      assume "\<not> ?thesis"
      then have "\<forall>s \<in> set (active_schedules p (pl_schedules p)). \<forall>c \<in> set (components_of s). component_ok (payroll_unit p) c"
        by blast
      from run_fold_ok[OF assms this z z z, of "[]"] Inl show False by simp
    qed
    with False Inl show ?thesis by (simp add: createRun_def Let_def)
  next
    case (Inr r)
    obtain es g d n where r: "r = (es, g, d, n)" by (metis prod.collapse)
    from run_fold[OF assms Inr[unfolded r] z z z] have
      l2: "list_all2 (\<lambda>s e. entry_spec (payroll_unit p) (fst s) (components_of s) e) (active_schedules p (pl_schedules p)) es"
      by simp
    have "\<forall>c \<in> set (components_of s). component_ok (payroll_unit p) c"
      if s: "s \<in> set (active_schedules p (pl_schedules p))" for s
    proof -
      obtain k where "k < length (active_schedules p (pl_schedules p))" "active_schedules p (pl_schedules p) ! k = s"
        using s unfolding in_set_conv_nth by blast
      then have "entry_spec (payroll_unit p) (fst s) (components_of s) (es ! k)"
        using list_all2_nthD[OF l2] by blast
      then show ?thesis by (simp add: entry_spec_def)
    qed
    then show ?thesis using False Inr r by (simp add: createRun_def Let_def)
  qed
qed

text \<open>\<^verbatim>\<open>executeRun\<close> either books an approved run whose net pays are all valid and
  positive, appending exactly one debit of the expense account and one credit of the payee per entry
  and marking the run executed, or fails leaving the engine and the ledger's entries as they were.\<close>

theorem execute_run_effect:
  "case executeRun p l i now of
     (Inr run', p', l') \<Rightarrow>
       (\<exists>run. run_payable p i run \<and> pr_entries run' = pr_entries run \<and>
          ld_entries l' = ld_entries l @ payroll_batch run now) \<and>
       pr_status run' = RunExecuted \<and> getRun p' i = Inr run'
   | (Inl err, p', l') \<Rightarrow> p' = p \<and> ld_entries l' = ld_entries l"
proof -
  obtain r p' l' where e: "executeRun p l i now = (r, p', l')" by (metis prod.collapse)
  then show ?thesis
  proof (cases rule: executeRun_outcome)
    case (booked run)
    then show ?thesis unfolding e by (auto simp: getRun_def)
  next
    case (refused err)
    then show ?thesis unfolding e by simp
  qed
qed

text \<open>An approved run with valid positive net pays and distinct payees whose entry ids are not
  in the ledger is always executed.\<close>

theorem approved_run_executes:
  assumes "run_payable p i run" and "distinct (map pe_payeeId (pr_entries run))"
    and "ld_entryIds l \<inter> le_id ` set (payroll_batch run now) = {}"
  shows "\<exists>run' p' l'. executeRun p l i now = (Inr run', p', l') \<and> pr_status run' = RunExecuted"
proof (cases "payroll_batch run now = []")
  case True
  then show ?thesis unfolding executeRun_payable[OF assms(1)] Let_def by simp
next
  case False
  let ?l = "payroll_ledger l run now"
  let ?ps = "map (\<lambda>e. ((''payroll:'' @ pr_id run) @ '':'' @ pe_payeeId e, ar_id (expense_account run),
        ar_id (payee_account e), pe_netPay e)) (pr_entries run)"
  have "\<exists>res l'. append ?l (pairs_of (''payroll:'' @ pr_id run) now ?ps)
      (Some (''Payroll: '' @ pp_label (pr_period run))) = (Inr res, l') \<and>
      ld_entries l' = ld_entries ?l @ pairs_of (''payroll:'' @ pr_id run) now ?ps"
  proof (rule lp.post_pairs)
    show "?ps \<noteq> []" using False by auto
    have "map fst ?ps = map (\<lambda>i. (''payroll:'' @ pr_id run) @ '':'' @ i) (map pe_payeeId (pr_entries run))"
      by simp
    moreover have "distinct (map (\<lambda>i. (''payroll:'' @ pr_id run) @ '':'' @ i) (map pe_payeeId (pr_entries run)))"
      using assms(2) by (subst distinct_map) (simp add: inj_on_def)
    ultimately show "distinct (map fst ?ps)" by (simp only:)
    show "\<forall>(i, d, k, m) \<in> set ?ps. hasAccount ?l d \<and> hasAccount ?l k \<and> positive_money m"
      using assms(1) unfolding lp.ensures(1) by (auto simp: run_payable_def)
    show "ld_entryIds ?l \<inter> le_id ` set (pairs_of (''payroll:'' @ pr_id run) now ?ps) = {}"
      using assms(3) unfolding lp.ensures(3) payroll_batch_pairs .
  qed
  then obtain res l' where "append ?l (payroll_batch run now) (Some (''Payroll: '' @ pp_label (pr_period run))) = (Inr res, l')"
    unfolding payroll_batch_pairs by blast
  then show ?thesis unfolding executeRun_payable[OF assms(1)] Let_def using False by simp
qed


text \<open>Entry ids are run id and payee id joined by a colon, so different pairs can give the same
  id: after the run \<^verbatim>\<open>r\<close> has paid the payee \<^verbatim>\<open>x:y\<close>, the approved and payable run
  \<^verbatim>\<open>r:x\<close> of the payee \<^verbatim>\<open>y\<close> is refused by the ledger as a duplicate.\<close>

theorem payroll_entry_ids_collide:
  "\<exists>p l p' l' run. run_payable p ''r'' run \<and> (\<exists>run'. run_payable p ''r:x'' run') \<and>
     executeRun p l ''r'' ''t'' = (Inr (run\<lparr>pr_status := RunExecuted, pr_executedAt := Some ''t''\<rparr>), p', l') \<and>
     fst (executeRun p' l' ''r:x'' ''t'') = Inl (LedgerError L_DUPLICATE_ENTRY_ID)"
proof -
  define m where "m = \<lparr>m_amount = ''5'', m_currency = ''U'', m_decimals = 0\<rparr>"
  define z where "z = \<lparr>m_amount = ''0'', m_currency = ''U'', m_decimals = 0\<rparr>"
  define run where "run = (\<lambda>i who. \<lparr>pr_id = i, pr_period = \<lparr>pp_start = '''', pp_end = '''', pp_label = ''q''\<rparr>,
     pr_status = RunApproved, pr_entries = [\<lparr>pe_payeeId = who, pe_grossPay = m, pe_deductions = z,
     pe_netPay = m, pe_components = []\<rparr>], pr_totalGross = m, pr_totalDeductions = z, pr_totalNet = m,
     pr_createdAt = ''t'', pr_executedAt = None\<rparr>)"
  define p where "p = (new_payroll ''U'' 0)\<lparr>pl_runs := [(''r'', run ''r'' ''x:y''), (''r:x'', run ''r:x'' ''y'')]\<rparr>"
  have pos: "positive_money m" unfolding m_def by code_simp
  have "run_payable p ''r'' (run ''r'' ''x:y'')" "run_payable p ''r:x'' (run ''r:x'' ''y'')"
    using pos by (simp_all add: run_payable_def p_def run_def getRun_def)
  moreover have "fst (executeRun p new_ledger ''r'' ''t'') =
      Inr ((run ''r'' ''x:y'')\<lparr>pr_status := RunExecuted, pr_executedAt := Some ''t''\<rparr>)"
    unfolding p_def run_def m_def z_def by code_simp
  moreover have "(case executeRun p new_ledger ''r'' ''t'' of
      (r, p', l') \<Rightarrow> fst (executeRun p' l' ''r:x'' ''t'')) = Inl (LedgerError L_DUPLICATE_ENTRY_ID)"
    unfolding p_def run_def m_def z_def by code_simp
  ultimately show ?thesis by (metis (no_types, lifting) case_prod_conv prod.collapse)
qed

subsection \<open>Witnesses\<close>

definition sample_payroll :: payroll_engine where
  "sample_payroll =
    (let m = (\<lambda>a. \<lparr>m_amount = a, m_currency = ''U'', m_decimals = 0\<rparr>);
         c = (\<lambda>i t a. \<lparr>pc_id = i, pc_name = i, pc_type = t, pc_amount = m a, pc_recurring = True, pc_taxable = True\<rparr>);
         p = snd (registerPayee (new_payroll ''U'' 0) ''a'' ''n'' ''x'' None ''t'')
     in snd (setSchedule p ''a'' [c ''b'' Base ''5'', c ''d'' Deduction ''2'']))"

definition sample_period :: pay_period where
  "sample_period = \<lparr>pp_start = ''s'', pp_end = ''e'', pp_label = ''q''\<rparr>"

definition sample_approved :: payroll_engine where
  "sample_approved = snd (approveRun (snd (createRun sample_payroll ''r'' sample_period ''t'')) ''r'')"

theorem payroll_run_amounts_witness:
  "\<exists>run p'. createRun sample_payroll ''r'' sample_period ''t'' = (Inr run, p') \<and>
     in_unit (''U'', 0) (pr_totalNet run) 3"
proof -
  have d: "pl_currency sample_payroll = ''U''" "pl_decimals sample_payroll = 0"
    by code_simp code_simp
  have "(case fst (createRun sample_payroll ''r'' sample_period ''t'') of Inr _ \<Rightarrow> True | Inl _ \<Rightarrow> False) = True"
    by code_simp
  then obtain run p' where r: "createRun sample_payroll ''r'' sample_period ''t'' = (Inr run, p')"
    by (cases "createRun sample_payroll ''r'' sample_period ''t''") (auto split: sum.splits)
  have "(\<Sum>s\<leftarrow>active_schedules sample_payroll (pl_schedules sample_payroll).
      earnings (components_of s) - withheld (components_of s)) = 3"
    by code_simp
  with payroll_run_amounts[OF _ r] r d show ?thesis by auto
qed

theorem payroll_run_created_iff_witness:
  "case createRun sample_payroll ''r'' sample_period ''t'' of
     (Inr run, p') \<Rightarrow> \<not> jm_has (pl_runs sample_payroll) ''r'' | (Inl err, p') \<Rightarrow> p' = sample_payroll"
proof -
  have "0 \<le> pl_decimals sample_payroll" by code_simp
  from payroll_run_created_iff[OF this, of "''r''" sample_period "''t''"] show ?thesis
    by (auto split: prod.splits sum.splits)
qed

theorem approved_run_executes_witness:
  "\<exists>run' p' l'. executeRun sample_approved new_ledger ''r'' ''t'' = (Inr run', p', l') \<and>
     pr_status run' = RunExecuted"
proof -
  define m where "m = (\<lambda>a. \<lparr>m_amount = a, m_currency = ''U'', m_decimals = 0\<rparr>)"
  define run where "run = \<lparr>pr_id = ''r'', pr_period = sample_period, pr_status = RunApproved,
    pr_entries = [\<lparr>pe_payeeId = ''a'', pe_grossPay = m ''5'', pe_deductions = m ''2'', pe_netPay = m ''3'',
       pe_components = [\<lparr>rc_componentId = ''b'', rc_name = ''b'', rc_type = Base, rc_amount = m ''5''\<rparr>,
         \<lparr>rc_componentId = ''d'', rc_name = ''d'', rc_type = Deduction, rc_amount = m ''2''\<rparr>]\<rparr>],
    pr_totalGross = m ''5'', pr_totalDeductions = m ''2'', pr_totalNet = m ''3'', pr_createdAt = ''t'',
    pr_executedAt = None\<rparr>"
  have g: "getRun sample_approved ''r'' = Inr run" unfolding run_def m_def by code_simp
  have "positive_money (m ''3'')" unfolding m_def by code_simp
  then have "run_payable sample_approved ''r'' run" unfolding run_payable_def g by (simp add: run_def)
  then show ?thesis
    by (rule approved_run_executes) (simp_all add: run_def new_ledger_def)
qed

end
