(* ===== verification/Distribution.thy ===== *)
theory Distribution
  imports Ledger
begin

section \<open>Distributions\<close>

text \<open>
  Model of \<^verbatim>\<open>packages/treasury/src/distribution.ts\<close>: plans that split a pool among recipients
  proportionally (basis points), by fixed amounts, or among those who met a milestone, and their
  execution as one balanced batch on the ledger. Methods return their result and the new engine;
  \<open>executeDistribution\<close> also returns the new ledger. The clock readings of one call are one
  argument; telemetry is left out.

  A share is a JavaScript number: an integer or something else (a fraction, NaN, an infinity),
  which the creation of a plan rejects. Resolving a plan with such a share (only an import of a
  foreign snapshot could bring one) is modelled as the \<^verbatim>\<open>RangeError\<close> of \<^verbatim>\<open>BigInt\<close>. The branch
  \<^verbatim>\<open>UNKNOWN_STRATEGY\<close> cannot occur, the strategies being a closed type.

  The lemmas show conservation (payouts and remainder make up the pool), that validated plans never
  pay out more than the pool, and what an execution writes.
\<close>

datatype strategy = Proportional | Fixed | Milestone

datatype plan_status = PlanDraft | PlanApproved | PlanExecuted | PlanFailed

datatype js_number = JSInt int | JSNonInteger

record recipient =
  dr_payeeId :: string
  dr_share :: "js_number option"
  dr_amount :: "money option"
  dr_milestoneMet :: "bool option"
  dr_resolvedAmount :: "money option"

record plan =
  dp_id :: string
  dp_name :: string
  dp_strategy :: strategy
  dp_pool :: money
  dp_recipients :: "recipient list"
  dp_status :: plan_status
  dp_createdAt :: string
  dp_executedAt :: "string option"

record payout =
  po_payeeId :: string
  po_amount :: money

record distribution_result =
  ds_planId :: string
  ds_payouts :: "payout list"
  ds_totalDistributed :: money
  ds_remainder :: money

record distribution_engine =
  de_plans :: "(string, plan) jsmap"
  de_currency :: string
  de_decimals :: int

definition MAX_SAFE_INTEGER :: int where
  "MAX_SAFE_INTEGER = 9007199254740991"

definition new_distributions :: "string \<Rightarrow> int \<Rightarrow> distribution_engine" where
  "new_distributions cur decs = \<lparr>de_plans = [], de_currency = cur, de_decimals = decs\<rparr>"

text \<open>Division of \<^verbatim>\<open>BigInt\<close>s truncates towards zero.\<close>

definition bigint_div :: "int \<Rightarrow> int \<Rightarrow> int" where
  "bigint_div x y = (if (x < 0) = (y < 0) then \<bar>x\<bar> div \<bar>y\<bar> else - (\<bar>x\<bar> div \<bar>y\<bar>))"

definition engine_amount :: "distribution_engine \<Rightarrow> string \<Rightarrow> money" where
  "engine_amount d a = \<lparr>m_amount = a, m_currency = de_currency d, m_decimals = de_decimals d\<rparr>"

definition distribution_zero :: "distribution_engine \<Rightarrow> money" where
  "distribution_zero d = zeroMoney (de_currency d) (de_decimals d)"

definition share_int :: "recipient \<Rightarrow> int result" where
  "share_int r = (case dr_share r of None \<Rightarrow> Inr 0 | Some (JSInt i) \<Rightarrow> Inr i | Some JSNonInteger \<Rightarrow> Inl PlainError)"

definition fixedAmountOf :: "distribution_engine \<Rightarrow> recipient \<Rightarrow> money result" where
  "fixedAmountOf d r =
     (case dr_amount r of
        Some a \<Rightarrow> Inr (engine_amount d (m_amount a))
      | None \<Rightarrow> bind_r (share_int r) (\<lambda>s. Inr (engine_amount d (int_str s))))"

subsection \<open>Creating plans\<close>

definition check_duplicates :: "recipient list \<Rightarrow> unit result" where
  "check_duplicates rs =
     bind_r (foldE (\<lambda>seen r. if dr_payeeId r \<in> seen then Inl (DistributionError D_DUPLICATE_RECIPIENT)
                             else Inr (insert (dr_payeeId r) seen)) {} rs) (\<lambda>_. Inr ())"

definition invalid_shares :: "fault" where
  "invalid_shares = DistributionError D_INVALID_SHARES"

definition check_share :: "strategy \<Rightarrow> recipient \<Rightarrow> unit result" where
  "check_share strategy r =
     (if strategy = Fixed then
        (case dr_amount r of
           Some a \<Rightarrow>
             (case validateMoney a of Inl _ \<Rightarrow> Inl invalid_shares
              | Inr _ \<Rightarrow> bind_r (isNegative a) (\<lambda>neg. throw_when neg invalid_shares))
         | None \<Rightarrow>
             (case dr_share r of
                Some (JSInt i) \<Rightarrow> throw_when (i < 0 \<or> i > MAX_SAFE_INTEGER) invalid_shares
              | _ \<Rightarrow> Inl invalid_shares))
      else (case dr_share r of
              Some (JSInt i) \<Rightarrow> throw_when (i < 0 \<or> i > 10000) invalid_shares
            | _ \<Rightarrow> Inl invalid_shares))"

definition total_shares :: "recipient list \<Rightarrow> int result" where
  "total_shares rs = foldE (\<lambda>sum r. bind_r (share_int r) (\<lambda>s. Inr (sum + s))) 0 rs"

definition check_fixed_pool :: "distribution_engine \<Rightarrow> money \<Rightarrow> recipient list \<Rightarrow> unit result" where
  "check_fixed_pool d pool rs =
     bind_r (foldE (\<lambda>tot r. bind_r (fixedAmountOf d r) (\<lambda>a. addMoney tot a)) (distribution_zero d) rs) (\<lambda>tot.
     bind_r (subtractMoney pool tot) (\<lambda>check.
     bind_r (isNegative check) (\<lambda>neg.
       throw_when neg (DistributionError D_POOL_EXCEEDED))))"

definition plan_checks ::
  "distribution_engine \<Rightarrow> string \<Rightarrow> strategy \<Rightarrow> money \<Rightarrow> recipient list \<Rightarrow> unit result" where
  "plan_checks d i strategy pool rs =
     bind_r (throw_when (jm_has (de_plans d) i) (DistributionError D_PLAN_EXISTS)) (\<lambda>_.
     bind_r (throw_when (rs = []) (DistributionError D_NO_RECIPIENTS)) (\<lambda>_.
     bind_r (check_duplicates rs) (\<lambda>_.
     bind_r (forE (check_share strategy) rs) (\<lambda>_.
     bind_r (if strategy = Proportional
             then bind_r (total_shares rs) (\<lambda>t. throw_when (t > 10000) invalid_shares)
             else Inr ()) (\<lambda>_.
       if strategy = Fixed then check_fixed_pool d pool rs else Inr ())))))"

definition createPlan ::
  "distribution_engine \<Rightarrow> string \<Rightarrow> string \<Rightarrow> strategy \<Rightarrow> money \<Rightarrow> recipient list \<Rightarrow> string \<Rightarrow>
   plan result \<times> distribution_engine" where
  "createPlan d i name strategy pool rs now =
     (case plan_checks d i strategy pool rs of Inl err \<Rightarrow> (Inl err, d)
      | Inr _ \<Rightarrow>
          let plan = \<lparr>dp_id = i, dp_name = name, dp_strategy = strategy, dp_pool = pool,
                dp_recipients = rs, dp_status = PlanDraft, dp_createdAt = now, dp_executedAt = None\<rparr>
          in (Inr plan, d\<lparr>de_plans := jm_set (de_plans d) i plan\<rparr>))"

definition getPlan :: "distribution_engine \<Rightarrow> string \<Rightarrow> plan result" where
  "getPlan d i =
     (case jm_get (de_plans d) i of None \<Rightarrow> Inl (DistributionError D_PLAN_NOT_FOUND) | Some x \<Rightarrow> Inr x)"

definition listPlans :: "distribution_engine \<Rightarrow> plan_status option \<Rightarrow> plan list" where
  "listPlans d st =
     (case st of None \<Rightarrow> jm_values (de_plans d)
      | Some s \<Rightarrow> filter (\<lambda>x. dp_status x = s) (jm_values (de_plans d)))"

definition approvePlan :: "distribution_engine \<Rightarrow> string \<Rightarrow> plan result \<times> distribution_engine" where
  "approvePlan d i =
     (case bind_r (getPlan d i) (\<lambda>plan.
           bind_r (throw_when (dp_status plan \<noteq> PlanDraft) (DistributionError D_INVALID_TRANSITION)) (\<lambda>_.
             Inr plan)) of
        Inl err \<Rightarrow> (Inl err, d)
      | Inr plan \<Rightarrow> let approved = plan\<lparr>dp_status := PlanApproved\<rparr>
          in (Inr approved, d\<lparr>de_plans := jm_set (de_plans d) i approved\<rparr>))"

subsection \<open>Resolving payouts\<close>

definition payout_step ::
  "(recipient \<Rightarrow> money result) \<Rightarrow> payout list \<times> money \<Rightarrow> recipient \<Rightarrow> (payout list \<times> money) result" where
  "payout_step amount_of st r =
     bind_r (amount_of r) (\<lambda>amount.
     bind_r (addMoney (snd st) amount) (\<lambda>tot.
       Inr (fst st @ [\<lparr>po_payeeId = dr_payeeId r, po_amount = amount\<rparr>], tot)))"

definition resolve_with ::
  "distribution_engine \<Rightarrow> plan \<Rightarrow> recipient list \<Rightarrow> (recipient \<Rightarrow> money result) \<Rightarrow> distribution_result result" where
  "resolve_with d plan rs amount_of =
     bind_r (foldE (payout_step amount_of) ([], distribution_zero d) rs) (\<lambda>st.
     bind_r (subtractMoney (dp_pool plan) (snd st)) (\<lambda>remainder.
       Inr \<lparr>ds_planId = dp_id plan, ds_payouts = fst st, ds_totalDistributed = snd st,
            ds_remainder = remainder\<rparr>))"

definition share_amount :: "distribution_engine \<Rightarrow> int \<Rightarrow> int \<Rightarrow> recipient \<Rightarrow> money result" where
  "share_amount d poolAmount denominator r =
     (if denominator > 0 then
        bind_r (share_int r) (\<lambda>s.
          Inr (engine_amount d (formatAmount (bigint_div (poolAmount * s) denominator) (de_decimals d))))
      else Inr (engine_amount d (formatAmount 0 (de_decimals d))))"

definition resolveProportional :: "distribution_engine \<Rightarrow> plan \<Rightarrow> distribution_result result" where
  "resolveProportional d plan =
     bind_r (parseAmount (m_amount (dp_pool plan)) (m_decimals (dp_pool plan))) (\<lambda>poolAmount.
       resolve_with d plan (dp_recipients plan) (share_amount d poolAmount 10000))"

definition resolveFixed :: "distribution_engine \<Rightarrow> plan \<Rightarrow> distribution_result result" where
  "resolveFixed d plan =
     resolve_with d plan (dp_recipients plan)
       (\<lambda>r. bind_r (fixedAmountOf d r) (\<lambda>a. addMoney (distribution_zero d) a))"

definition eligible :: "plan \<Rightarrow> recipient list" where
  "eligible plan = filter (\<lambda>r. dr_milestoneMet r = Some True) (dp_recipients plan)"

definition resolveMilestone :: "distribution_engine \<Rightarrow> plan \<Rightarrow> distribution_result result" where
  "resolveMilestone d plan =
     bind_r (parseAmount (m_amount (dp_pool plan)) (m_decimals (dp_pool plan))) (\<lambda>poolAmount.
     bind_r (total_shares (eligible plan)) (\<lambda>totalShares.
       resolve_with d plan (eligible plan) (share_amount d poolAmount totalShares)))"

definition resolvePayouts :: "distribution_engine \<Rightarrow> plan \<Rightarrow> distribution_result result" where
  "resolvePayouts d plan =
     (case dp_strategy plan of
        Proportional \<Rightarrow> resolveProportional d plan
      | Fixed \<Rightarrow> resolveFixed d plan
      | Milestone \<Rightarrow> resolveMilestone d plan)"

definition computeDistribution :: "distribution_engine \<Rightarrow> string \<Rightarrow> distribution_result result" where
  "computeDistribution d i = bind_r (getPlan d i) (resolvePayouts d)"

subsection \<open>Executing plans\<close>

definition isZeroAmount :: "money \<Rightarrow> bool result" where
  "isZeroAmount m = bind_r (parseAmount (m_amount m) (m_decimals m)) (\<lambda>v. Inr (v = 0))"

definition writable_step :: "payout list \<Rightarrow> payout \<Rightarrow> payout list result" where
  "writable_step ps p = bind_r (isZeroAmount (po_amount p)) (\<lambda>z. Inr (if z then ps else ps @ [p]))"

definition check_payout :: "payout \<Rightarrow> unit result" where
  "check_payout p =
     bind_r (validateMoney (po_amount p)) (\<lambda>_.
     bind_r (isPositive (po_amount p)) (\<lambda>pos. throw_when (\<not> pos) invalid_shares))"

definition pool_account :: "plan \<Rightarrow> account_ref" where
  "pool_account plan = \<lparr>ar_id = ''distribution:pool:'' @ dp_id plan, ar_type = Asset,
     ar_name = ''Distribution Pool: '' @ dp_name plan\<rparr>"

definition recipient_account :: "payout \<Rightarrow> account_ref" where
  "recipient_account p = \<lparr>ar_id = ''distribution:recipient:'' @ po_payeeId p, ar_type = Liability,
     ar_name = ''Distribution Recipient: '' @ po_payeeId p\<rparr>"

definition distribution_pair :: "plan \<Rightarrow> string \<Rightarrow> payout \<Rightarrow> ledger_entry list" where
  "distribution_pair plan now p =
     (let corrId = ''distribution:'' @ dp_id plan
      in debit_credit_pair corrId now (corrId @ '':'' @ po_payeeId p) (ar_id (pool_account plan))
           (ar_id (recipient_account p)) (po_amount p))"

definition distribution_loop ::
  "ledger \<Rightarrow> plan \<Rightarrow> string \<Rightarrow> payout list \<Rightarrow> ledger \<times> ledger_entry list" where
  "distribution_loop l plan now ps =
     foldl (\<lambda>(l, acc) p. (ensure_account l (recipient_account p) now, acc @ distribution_pair plan now p))
       (l, []) ps"

definition executeDistribution ::
  "distribution_engine \<Rightarrow> ledger \<Rightarrow> string \<Rightarrow> string \<Rightarrow>
   distribution_result result \<times> distribution_engine \<times> ledger" where
  "executeDistribution d l i now =
     (case bind_r (getPlan d i) (\<lambda>plan.
           bind_r (throw_when (dp_status plan \<noteq> PlanApproved) (DistributionError D_INVALID_TRANSITION)) (\<lambda>_.
           bind_r (resolvePayouts d plan) (\<lambda>res.
           bind_r (foldE writable_step [] (ds_payouts res)) (\<lambda>writable.
           bind_r (forE check_payout writable) (\<lambda>_. Inr (plan, res, writable)))))) of
        Inl err \<Rightarrow> (Inl err, d, l)
      | Inr (plan, res, writable) \<Rightarrow>
          (case distribution_loop (ensure_account l (pool_account plan) now) plan now writable of
             (l', entries) \<Rightarrow>
               (case (if entries = [] then (Inr (), l')
                      else case append l' entries (Some (''Distribution: '' @ dp_name plan)) of
                             (Inl err, l'') \<Rightarrow> (Inl err, l'') | (Inr _, l'') \<Rightarrow> (Inr (), l'')) of
                  (Inl err, l'') \<Rightarrow> (Inl err, d, l'')
                | (Inr _, l'') \<Rightarrow>
                    (Inr (res\<lparr>ds_payouts := writable\<rparr>),
                     d\<lparr>de_plans := jm_set (de_plans d) i
                         (plan\<lparr>dp_status := PlanExecuted, dp_executedAt := Some now\<rparr>)\<rparr>, l''))))"

definition exportPlans :: "distribution_engine \<Rightarrow> plan list" where
  "exportPlans d = jm_values (de_plans d)"

definition importPlans :: "distribution_engine \<Rightarrow> plan list \<Rightarrow> unit result \<times> distribution_engine" where
  "importPlans d xs =
     (if 0 < length (de_plans d) then (Inl (DistributionError D_IMPORT_NOT_EMPTY), d)
      else case import_records dp_id (DistributionError D_DUPLICATE_IMPORT_ID) (de_plans d) {} xs of
             (r, store) \<Rightarrow> (r, d\<lparr>de_plans := store\<rparr>))"

subsection \<open>Rounding\<close>

lemma bigint_div_nonneg: "0 \<le> x \<Longrightarrow> 0 < y \<Longrightarrow> bigint_div x y = x div y"
  by (simp add: bigint_div_def)

lemma sum_div_le:
  assumes "0 < (y :: int)" shows "(\<Sum>x\<leftarrow>xs. x div y) \<le> (\<Sum>x\<leftarrow>xs. x) div y"
proof (induction xs)
  case Nil
  then show ?case by simp
next
  case (Cons x xs)
  have "x div y + z div y \<le> (x + z) div y" for z
    by (metis assms div_add1_eq le_add_same_cancel1 pos_imp_zdiv_nonneg_iff pos_mod_sign add_nonneg_nonneg order_less_imp_le)
  with Cons show ?case by (simp add: order_trans[OF add_left_mono])
qed

lemma sum_div_dust:
  assumes "0 < (y :: int)" shows "(\<Sum>x\<leftarrow>xs. x) \<le> y * (\<Sum>x\<leftarrow>xs. x div y) + int (length xs) * (y - 1)"
proof (induction xs)
  case Nil
  then show ?case by simp
next
  case (Cons x xs)
  have "x = y * (x div y) + x mod y" by simp
  moreover have "x mod y \<le> y - 1" using assms pos_mod_bound[of y x] by simp
  ultimately have "x \<le> y * (x div y) + (y - 1)" by linarith
  with Cons show ?case by (simp add: algebra_simps)
qed


subsection \<open>Validated plans\<close>

definition share_of :: "recipient \<Rightarrow> int" where
  "share_of r = (case dr_share r of Some (JSInt i) \<Rightarrow> i | _ \<Rightarrow> 0)"

definition bounded_share :: "recipient \<Rightarrow> bool" where
  "bounded_share r \<longleftrightarrow> (\<exists>i. dr_share r = Some (JSInt i) \<and> 0 \<le> i \<and> i \<le> 10000)"

definition fixed_value :: "distribution_engine \<Rightarrow> recipient \<Rightarrow> int" where
  "fixed_value d r = (case fixedAmountOf d r of Inr a \<Rightarrow> money_value a | Inl _ \<Rightarrow> 0)"

definition fixed_ok :: "distribution_engine \<Rightarrow> recipient \<Rightarrow> bool" where
  "fixed_ok d r \<longleftrightarrow> (\<exists>a v. fixedAmountOf d r = Inr a \<and> scaled_of a = Inr v \<and> 0 \<le> v)"

abbreviation engine_unit_of :: "distribution_engine \<Rightarrow> string \<times> int" where
  "engine_unit_of d \<equiv> (de_currency d, de_decimals d)"

definition plan_valid :: "distribution_engine \<Rightarrow> plan \<Rightarrow> bool" where
  "plan_valid d plan \<longleftrightarrow>
     dp_recipients plan \<noteq> [] \<and> distinct (map dr_payeeId (dp_recipients plan)) \<and>
     (case dp_strategy plan of
        Proportional \<Rightarrow> (\<forall>r \<in> set (dp_recipients plan). bounded_share r) \<and>
          (\<Sum>r\<leftarrow>dp_recipients plan. share_of r) \<le> 10000
      | Milestone \<Rightarrow> \<forall>r \<in> set (dp_recipients plan). bounded_share r
      | Fixed \<Rightarrow> (\<forall>r \<in> set (dp_recipients plan). fixed_ok d r) \<and>
          (\<Sum>r\<leftarrow>dp_recipients plan. fixed_value d r) \<le> money_value (dp_pool plan))"

lemma bounded_share_int: "bounded_share r \<Longrightarrow> share_int r = Inr (share_of r) \<and> 0 \<le> share_of r"
  by (auto simp: bounded_share_def share_int_def share_of_def)

lemma total_shares_fold:
  assumes "\<forall>r \<in> set rs. bounded_share r"
  shows "foldE (\<lambda>sum r. bind_r (share_int r) (\<lambda>s. Inr (sum + s))) t rs = Inr (t + (\<Sum>r\<leftarrow>rs. share_of r))"
  using assms by (induction rs arbitrary: t) (auto simp: bounded_share_int add.assoc)

lemma total_shares_bounded:
  "\<forall>r \<in> set rs. bounded_share r \<Longrightarrow> total_shares rs = Inr (\<Sum>r\<leftarrow>rs. share_of r)"
  using total_shares_fold[of rs 0] by (simp add: total_shares_def)

lemma check_duplicates_fold:
  "(\<exists>b. foldE (\<lambda>seen r. if dr_payeeId r \<in> seen then Inl (DistributionError D_DUPLICATE_RECIPIENT)
        else Inr (insert (dr_payeeId r) seen)) seen rs = Inr b) \<longleftrightarrow>
     distinct (map dr_payeeId rs) \<and> seen \<inter> dr_payeeId ` set rs = {}"
proof (induction rs arbitrary: seen)
  case Nil
  then show ?case by simp
next
  case (Cons r rs)
  show ?case
  proof (cases "dr_payeeId r \<in> seen")
    case True
    then show ?thesis by auto
  next
    case False
    with Cons[of "insert (dr_payeeId r) seen"] show ?thesis by auto
  qed
qed

lemma check_duplicates_iff: "check_duplicates rs = Inr () \<longleftrightarrow> distinct (map dr_payeeId rs)"
  using check_duplicates_fold[of "{}" rs] by (simp add: check_duplicates_def bind_r_eq_Inr)

lemma check_share_bounded: "s \<noteq> Fixed \<Longrightarrow> check_share s r = Inr () \<Longrightarrow> bounded_share r"
  by (auto simp: check_share_def bounded_share_def throw_when_Inr split: option.splits js_number.splits)

text \<open>A fixed amount passes the check in its own decimals, and its sign is the same in the
  engine's.\<close>

lemma check_share_fixed:
  assumes "check_share Fixed r = Inr ()" and "fixedAmountOf d r = Inr a" "scaled_of a = Inr v"
  shows "0 \<le> v"
proof (cases "dr_amount r")
  case None
  then obtain i where i: "dr_share r = Some (JSInt i)" "0 \<le> i"
    using assms(1) by (auto simp: check_share_def throw_when_Inr split: option.splits js_number.splits)
  then have a: "a = engine_amount d (int_str i)"
    using assms(2) None by (simp add: fixedAmountOf_def share_int_def)
  then have p: "parseAmount (int_str i) (de_decimals d) = Inr v"
    using assms(3) by (simp add: scaled_of_def engine_amount_def)
  have "formatAmount i 0 = int_str i" by (simp add: formatAmount_def)
  then have "parseAmount (int_str i) 0 = Inr i" using parse_format[of 0 i] by simp
  from parse_scale[OF this parse_decimals_nonneg[OF p]] p have "v = i * 10 ^ nat (de_decimals d - 0)" by simp
  then show ?thesis using i(2) by simp
next
  case (Some m)
  then have m: "validateMoney m = Inr ()" "isNegative m = Inr False"
    using assms(1) by (auto simp: check_share_def bind_r_eq_Inr throw_when_Inr split: sum.splits)
  then obtain x where x: "parseAmount (m_amount m) (m_decimals m) = Inr x" "0 \<le> x"
    by (auto simp: isNegative_Inr scaled_of_def)
  have p: "parseAmount (m_amount m) (de_decimals d) = Inr v"
    using assms(2,3) Some by (simp add: fixedAmountOf_def scaled_of_def engine_amount_def) auto
  show ?thesis
  proof (cases "m_decimals m \<le> de_decimals d")
    case True
    from parse_scale[OF x(1) True] p x(2) show ?thesis by simp
  next
    case False
    then have "de_decimals d \<le> m_decimals m" by simp
    from parse_scale[OF p this] x have "0 \<le> v * 10 ^ nat (m_decimals m - de_decimals d)" by simp
    moreover have "\<not> (10 :: int) ^ nat (m_decimals m - de_decimals d) \<le> 0" by (simp add: not_le)
    ultimately show ?thesis by (metis zero_le_mult_iff)
  qed
qed

lemma fixed_total_fold:
  assumes "foldE (\<lambda>tot r. bind_r (fixedAmountOf d r) (\<lambda>a. addMoney tot a)) t rs = Inr t'"
    and "in_unit (engine_unit_of d) t x" and "\<forall>r \<in> set rs. check_share Fixed r = Inr ()"
  shows "in_unit (engine_unit_of d) t' (x + (\<Sum>r\<leftarrow>rs. fixed_value d r)) \<and> (\<forall>r \<in> set rs. fixed_ok d r)"
  using assms
proof (induction rs arbitrary: t x)
  case Nil
  then show ?case by simp
next
  case (Cons r rs)
  obtain a t1 where a: "fixedAmountOf d r = Inr a" "addMoney t a = Inr t1"
    and rest: "foldE (\<lambda>tot r. bind_r (fixedAmountOf d r) (\<lambda>a. addMoney tot a)) t1 rs = Inr t'"
    using Cons.prems(1) by (auto simp: bind_r_eq_Inr)
  note u = in_unit_add[OF Cons.prems(2) a(2)]
  have sc: "scaled_of a = Inr (money_value a)" using u by (simp add: in_unit_def)
  have "check_share Fixed r = Inr ()" using Cons.prems(3) by simp
  then have "0 \<le> money_value a" by (rule check_share_fixed[OF _ a(1) sc])
  then have "fixed_ok d r" using a(1) sc unfolding fixed_ok_def by blast
  moreover have "fixed_value d r = money_value a" by (simp add: fixed_value_def a)
  moreover have "in_unit (engine_unit_of d) t' (x + money_value a + (\<Sum>r\<leftarrow>rs. fixed_value d r)) \<and> (\<forall>r \<in> set rs. fixed_ok d r)"
    using Cons.IH[OF rest u[THEN conjunct2]] Cons.prems(3) by simp
  ultimately show ?case by (simp add: add.assoc)
qed

lemma plan_checks_valid:
  assumes d: "0 \<le> de_decimals d" and c: "plan_checks d i st pool rs = Inr ()"
    and plan: "dp_strategy plan = st" "dp_pool plan = pool" "dp_recipients plan = rs"
  shows "plan_valid d plan"
proof -
  have h: "rs \<noteq> []" "check_duplicates rs = Inr ()" "\<forall>r \<in> set rs. check_share st r = Inr ()"
    and shares: "st = Proportional \<Longrightarrow> \<exists>t. total_shares rs = Inr t \<and> t \<le> 10000"
    and fixed: "st = Fixed \<Longrightarrow> check_fixed_pool d pool rs = Inr ()"
    using c unfolding plan_checks_def
    by (auto simp: bind_r_eq_Inr throw_when_Inr forE_Inr split: if_splits)
  have dist: "distinct (map dr_payeeId rs)" using h(2) by (simp add: check_duplicates_iff)
  show ?thesis
  proof (cases st)
    case Proportional
    then have b: "\<forall>r \<in> set rs. bounded_share r" using h(3) check_share_bounded[of Proportional] by blast
    with shares[OF Proportional] total_shares_bounded[OF b] have "(\<Sum>r\<leftarrow>rs. share_of r) \<le> 10000" by simp
    with b h(1) dist plan Proportional show ?thesis by (simp add: plan_valid_def)
  next
    case Milestone
    then have b: "\<forall>r \<in> set rs. bounded_share r" using h(3) check_share_bounded[of Milestone] by blast
    with h(1) dist plan Milestone show ?thesis by (simp add: plan_valid_def)
  next
    case Fixed
    obtain tot chk where t: "foldE (\<lambda>tot r. bind_r (fixedAmountOf d r) (\<lambda>a. addMoney tot a)) (distribution_zero d) rs = Inr tot"
      "subtractMoney pool tot = Inr chk" "isNegative chk = Inr False"
      using fixed[OF Fixed] by (auto simp: check_fixed_pool_def bind_r_eq_Inr throw_when_Inr)
    have z: "in_unit (engine_unit_of d) (distribution_zero d) 0"
      unfolding distribution_zero_def using d by (rule in_unit_zeroMoney)
    have ok: "\<forall>r \<in> set rs. check_share Fixed r = Inr ()" using h(3) Fixed by simp
    from fixed_total_fold[OF t(1) z ok] have
      v: "in_unit (engine_unit_of d) tot (\<Sum>r\<leftarrow>rs. fixed_value d r)" "\<forall>r \<in> set rs. fixed_ok d r" by simp_all
    obtain x where "scaled_of pool = Inr x" "scaled_of chk = Inr (x - (\<Sum>r\<leftarrow>rs. fixed_value d r))"
      using mm.sub_inv[OF t(2)] v(1) by (auto simp: in_unit_def)
    then have "(\<Sum>r\<leftarrow>rs. fixed_value d r) \<le> money_value pool"
      using t(3) by (auto simp: isNegative_Inr money_value_Inr)
    with v(2) h(1) dist plan Fixed show ?thesis by (simp add: plan_valid_def)
  qed
qed


subsection \<open>Conservation\<close>

abbreviation payouts_total :: "payout list \<Rightarrow> int" where
  "payouts_total ps \<equiv> (\<Sum>p\<leftarrow>ps. money_value (po_amount p))"

definition pays :: "distribution_engine \<Rightarrow> (recipient \<Rightarrow> money result) \<Rightarrow> recipient \<Rightarrow> payout \<Rightarrow> bool" where
  "pays d f r p \<longleftrightarrow> po_payeeId p = dr_payeeId r \<and> f r = Inr (po_amount p) \<and>
     in_unit (engine_unit_of d) (po_amount p) (money_value (po_amount p))"

lemma payout_step_Inr:
  "payout_step f (ps, tot) r = Inr st \<longleftrightarrow>
     (\<exists>a t. f r = Inr a \<and> addMoney tot a = Inr t \<and>
        st = (ps @ [\<lparr>po_payeeId = dr_payeeId r, po_amount = a\<rparr>], t))"
  by (auto simp: payout_step_def bind_r_eq_Inr)

lemma payout_fold:
  assumes "foldE (payout_step f) (ps, tot) rs = Inr (ps', tot')" "in_unit (engine_unit_of d) tot x"
  shows "\<exists>new. ps' = ps @ new \<and> list_all2 (pays d f) rs new \<and>
    in_unit (engine_unit_of d) tot' (x + payouts_total new)"
  using assms
proof (induction rs arbitrary: ps tot x)
  case Nil
  then show ?case by simp
next
  case (Cons r rs)
  obtain a t where a: "f r = Inr a" "addMoney tot a = Inr t"
    and rest: "foldE (payout_step f) (ps @ [\<lparr>po_payeeId = dr_payeeId r, po_amount = a\<rparr>], t) rs = Inr (ps', tot')"
    using Cons.prems(1) by (auto simp: bind_r_eq_Inr payout_step_Inr)
  note u = in_unit_add[OF Cons.prems(2) a(2)]
  obtain new where new: "ps' = (ps @ [\<lparr>po_payeeId = dr_payeeId r, po_amount = a\<rparr>]) @ new"
    "list_all2 (pays d f) rs new" "in_unit (engine_unit_of d) tot' (x + money_value a + payouts_total new)"
    using Cons.IH[OF rest u[THEN conjunct2]] by blast
  have "pays d f r \<lparr>po_payeeId = dr_payeeId r, po_amount = a\<rparr>" using a(1) u by (simp add: pays_def)
  with new show ?case
    by (intro exI[of _ "\<lparr>po_payeeId = dr_payeeId r, po_amount = a\<rparr> # new"]) (simp add: add.assoc)
qed

lemma resolve_with_spec:
  assumes d: "0 \<le> de_decimals d" and r: "resolve_with d plan rs f = Inr res"
  obtains pool where "in_unit (engine_unit_of d) (dp_pool plan) pool"
    "list_all2 (pays d f) rs (ds_payouts res)"
    "in_unit (engine_unit_of d) (ds_totalDistributed res) (payouts_total (ds_payouts res))"
    "in_unit (engine_unit_of d) (ds_remainder res) (pool - payouts_total (ds_payouts res))"
proof -
  obtain ps tot rm where f: "foldE (payout_step f) ([], distribution_zero d) rs = Inr (ps, tot)"
    "subtractMoney (dp_pool plan) tot = Inr rm"
    and res: "res = \<lparr>ds_planId = dp_id plan, ds_payouts = ps, ds_totalDistributed = tot, ds_remainder = rm\<rparr>"
    using r by (auto simp: resolve_with_def bind_r_eq_Inr)
  have z: "in_unit (engine_unit_of d) (distribution_zero d) 0"
    unfolding distribution_zero_def using d by (rule in_unit_zeroMoney)
  from payout_fold[OF f(1) z] have l2: "list_all2 (pays d f) rs ps"
    and tot: "in_unit (engine_unit_of d) tot (payouts_total ps)" by simp_all
  obtain x where "scaled_of (dp_pool plan) = Inr x" "money_unit (dp_pool plan) = money_unit tot"
    "money_unit rm = money_unit (dp_pool plan)" "scaled_of rm = Inr (x - payouts_total ps)"
    using mm.sub_inv[OF f(2)] tot by (auto simp: in_unit_def)
  with l2 tot show ?thesis using that[of x] by (simp add: res in_unit_def)
qed

lemma resolve_cases:
  assumes "resolvePayouts d plan = Inr res"
  obtains (proportional) x where "dp_strategy plan = Proportional"
      "scaled_of (dp_pool plan) = Inr x"
      "resolve_with d plan (dp_recipients plan) (share_amount d x 10000) = Inr res"
  | (fixed) "dp_strategy plan = Fixed"
      "resolve_with d plan (dp_recipients plan)
         (\<lambda>r. bind_r (fixedAmountOf d r) (\<lambda>a. addMoney (distribution_zero d) a)) = Inr res"
  | (milestone) x t where "dp_strategy plan = Milestone"
      "scaled_of (dp_pool plan) = Inr x" "total_shares (eligible plan) = Inr t"
      "resolve_with d plan (eligible plan) (share_amount d x t) = Inr res"
  using assms
  by (cases "dp_strategy plan")
    (auto simp: resolvePayouts_def resolveProportional_def resolveFixed_def resolveMilestone_def
      bind_r_eq_Inr scaled_of_def)

lemma share_amount_value:
  assumes "0 \<le> de_decimals d" "bounded_share r" "0 < t"
  shows "share_amount d x t r =
    Inr (engine_amount d (formatAmount (bigint_div (x * share_of r) t) (de_decimals d)))"
  using assms bounded_share_int[OF assms(2)] by (simp add: share_amount_def)

lemma formatted_value:
  "0 \<le> de_decimals d \<Longrightarrow> money_value (engine_amount d (formatAmount v (de_decimals d))) = v"
  by (simp add: engine_amount_def money_value_Inr)

lemma share_payouts:
  assumes d: "0 \<le> de_decimals d" and rs: "\<forall>r \<in> set rs. bounded_share r" and t: "0 < t" and x: "0 \<le> x"
    and l2: "list_all2 (pays d (share_amount d x t)) rs ps"
  shows "map (\<lambda>p. money_value (po_amount p)) ps = map (\<lambda>r. x * share_of r div t) rs"
  using l2 rs
proof (induction rule: list_all2_induct)
  case Nil
  then show ?case by simp
next
  case (Cons r rs p ps)
  have b: "bounded_share r" using Cons.prems by simp
  then have "0 \<le> share_of r" using bounded_share_int by blast
  then have "bigint_div (x * share_of r) t = x * share_of r div t" using x t by (simp add: bigint_div_nonneg)
  then have "po_amount p = engine_amount d (formatAmount (x * share_of r div t) (de_decimals d))"
    using Cons.hyps(1) share_amount_value[OF d b t, of x] by (simp add: pays_def)
  then have "money_value (po_amount p) = x * share_of r div t"
    by (simp only: formatted_value[OF d])
  with Cons show ?case by simp
qed

lemma share_sum_bounds:
  assumes t: "0 < (t :: int)" and x: "0 \<le> x" and s: "\<forall>r \<in> set rs. 0 \<le> share_of r"
    and le: "(\<Sum>r\<leftarrow>rs. share_of r) \<le> t"
  shows "(\<Sum>r\<leftarrow>rs. x * share_of r div t) \<le> x"
    and "rs \<noteq> [] \<Longrightarrow> (\<Sum>r\<leftarrow>rs. share_of r) = t \<Longrightarrow> x - (\<Sum>r\<leftarrow>rs. x * share_of r div t) < int (length rs)"
proof -
  have sum: "(\<Sum>r\<leftarrow>rs. x * share_of r) = x * (\<Sum>r\<leftarrow>rs. share_of r)" by (simp add: sum_list_const_mult)
  have "(\<Sum>r\<leftarrow>rs. x * share_of r div t) \<le> (\<Sum>r\<leftarrow>rs. x * share_of r) div t"
    using sum_div_le[OF t, of "map (\<lambda>r. x * share_of r) rs"] by (simp add: comp_def)
  also have "\<dots> \<le> (x * t) div t"
    unfolding sum using le x t by (intro zdiv_mono1 mult_left_mono) simp_all
  finally show "(\<Sum>r\<leftarrow>rs. x * share_of r div t) \<le> x" using t by simp
  assume ne: "rs \<noteq> []" and eq: "(\<Sum>r\<leftarrow>rs. share_of r) = t"
  have "x * t \<le> t * (\<Sum>r\<leftarrow>rs. x * share_of r div t) + int (length rs) * (t - 1)"
    using sum_div_dust[OF t, of "map (\<lambda>r. x * share_of r) rs"] unfolding sum[symmetric] eq[symmetric]
    by (simp add: comp_def sum)
  then have "t * (x - (\<Sum>r\<leftarrow>rs. x * share_of r div t)) \<le> int (length rs) * (t - 1)"
    by (simp add: algebra_simps)
  also have "\<dots> < t * int (length rs)" using ne by (simp add: algebra_simps)
  finally show "x - (\<Sum>r\<leftarrow>rs. x * share_of r div t) < int (length rs)" using t by simp
qed

text \<open>A validated plan over a non-negative pool pays non-negative amounts that do not exceed it.\<close>

lemma fixed_payouts:
  assumes d: "0 \<le> de_decimals d" and "\<forall>r \<in> set rs. fixed_ok d r"
    and "list_all2 (pays d (\<lambda>r. bind_r (fixedAmountOf d r) (\<lambda>a. addMoney (distribution_zero d) a))) rs ps"
  shows "map (\<lambda>p. money_value (po_amount p)) ps = map (fixed_value d) rs"
  using assms(3,2)
proof (induction rule: list_all2_induct)
  case Nil
  then show ?case by simp
next
  case (Cons r rs p ps)
  obtain a v where a: "fixedAmountOf d r = Inr a" "scaled_of a = Inr v"
    using Cons.prems unfolding fixed_ok_def by auto
  have z: "in_unit (engine_unit_of d) (distribution_zero d) 0"
    unfolding distribution_zero_def using d by (rule in_unit_zeroMoney)
  have "addMoney (distribution_zero d) a = Inr (po_amount p)"
    using Cons.hyps(1) a(1) by (simp add: pays_def)
  from in_unit_add[OF z this] have "in_unit (engine_unit_of d) (po_amount p) (money_value a)" by simp
  then have "money_value (po_amount p) = money_value a" by (rule in_unit_value)
  then have "money_value (po_amount p) = fixed_value d r" by (simp add: fixed_value_def a(1))
  with Cons show ?case by simp
qed

lemma valid_plan_pays_within_pool:
  assumes d: "0 \<le> de_decimals d" and valid: "plan_valid d plan" and r: "resolvePayouts d plan = Inr res"
    and pool: "0 \<le> money_value (dp_pool plan)"
  shows "(\<forall>p \<in> set (ds_payouts res). 0 \<le> money_value (po_amount p)) \<and>
    payouts_total (ds_payouts res) \<le> money_value (dp_pool plan)"
  using r
proof (cases rule: resolve_cases)
  case (proportional x)
  have b: "\<forall>r \<in> set (dp_recipients plan). bounded_share r"
    and le: "(\<Sum>r\<leftarrow>dp_recipients plan. share_of r) \<le> 10000"
    using valid proportional(1) by (simp_all add: plan_valid_def)
  have x: "0 \<le> x" "money_value (dp_pool plan) = x" using pool proportional(2) by (simp_all add: money_value_Inr)
  obtain y where "list_all2 (pays d (share_amount d x 10000)) (dp_recipients plan) (ds_payouts res)"
    using resolve_with_spec[OF d proportional(3)] by metis
  from share_payouts[OF d b _ x(1) this] have
    m: "map (\<lambda>p. money_value (po_amount p)) (ds_payouts res) = map (\<lambda>r. x * share_of r div 10000) (dp_recipients plan)"
    by simp
  have nn: "\<forall>r \<in> set (dp_recipients plan). 0 \<le> share_of r" using b bounded_share_int by blast
  have "payouts_total (ds_payouts res) \<le> x"
    unfolding m using share_sum_bounds(1)[OF _ x(1) nn le] by simp
  moreover have "\<forall>v \<in> set (map (\<lambda>p. money_value (po_amount p)) (ds_payouts res)). 0 \<le> v"
    unfolding m using nn x(1) by (auto intro!: div_int_pos_iff[THEN iffD2])
  ultimately show ?thesis using x(2) by simp
next
  case fixed
  have ok: "\<forall>r \<in> set (dp_recipients plan). fixed_ok d r"
    and le: "(\<Sum>r\<leftarrow>dp_recipients plan. fixed_value d r) \<le> money_value (dp_pool plan)"
    using valid fixed(1) by (simp_all add: plan_valid_def)
  have "list_all2 (pays d (\<lambda>r. bind_r (fixedAmountOf d r) (\<lambda>a. addMoney (distribution_zero d) a)))
      (dp_recipients plan) (ds_payouts res)"
    using resolve_with_spec[OF d fixed(2)] by metis
  from fixed_payouts[OF d ok this] have
    m: "map (\<lambda>p. money_value (po_amount p)) (ds_payouts res) = map (fixed_value d) (dp_recipients plan)" .
  have "0 \<le> fixed_value d r" if "fixed_ok d r" for r
    using that by (auto simp: fixed_ok_def fixed_value_def money_value_Inr)
  then have "\<forall>v \<in> set (map (\<lambda>p. money_value (po_amount p)) (ds_payouts res)). 0 \<le> v"
    unfolding m using ok by auto
  moreover have "payouts_total (ds_payouts res) \<le> money_value (dp_pool plan)" unfolding m by (rule le)
  ultimately show ?thesis by simp
next
  case (milestone x t)
  have b: "\<forall>r \<in> set (eligible plan). bounded_share r"
    using valid milestone(1) by (auto simp: plan_valid_def eligible_def)
  then have nn: "\<forall>r \<in> set (eligible plan). 0 \<le> share_of r" using bounded_share_int by blast
  have t: "t = (\<Sum>r\<leftarrow>eligible plan. share_of r)" using milestone(3) total_shares_bounded[OF b] by simp
  have x: "0 \<le> x" "money_value (dp_pool plan) = x" using pool milestone(2) by (simp_all add: money_value_Inr)
  have l2: "list_all2 (pays d (share_amount d x t)) (eligible plan) (ds_payouts res)"
    using resolve_with_spec[OF d milestone(4)] by metis
  show ?thesis
  proof (cases "0 < t")
    case True
    from share_payouts[OF d b True x(1) l2] have
      m: "map (\<lambda>p. money_value (po_amount p)) (ds_payouts res) = map (\<lambda>r. x * share_of r div t) (eligible plan)" .
    have "payouts_total (ds_payouts res) \<le> x"
      unfolding m using share_sum_bounds(1)[OF True x(1) nn] t by simp
    moreover have "\<forall>v \<in> set (map (\<lambda>p. money_value (po_amount p)) (ds_payouts res)). 0 \<le> v"
      unfolding m using nn x(1) True by (auto intro!: div_int_pos_iff[THEN iffD2])
    ultimately show ?thesis using x(2) by simp
  next
    case False
    have z: "money_value (po_amount p) = 0" if "pays d (share_amount d x t) r p" for r p
    proof -
      have "po_amount p = engine_amount d (formatAmount 0 (de_decimals d))"
        using that False by (simp add: pays_def share_amount_def)
      then show ?thesis by (simp only: formatted_value[OF d])
    qed
    have "\<forall>p \<in> set (ds_payouts res). money_value (po_amount p) = 0"
      using l2 by (induction rule: list_all2_induct) (simp_all add: z)
    then have "map (\<lambda>p. money_value (po_amount p)) (ds_payouts res) = map (\<lambda>_. 0) (ds_payouts res)" by simp
    then have "payouts_total (ds_payouts res) = 0" by (simp only: sum_list_0)
    with \<open>\<forall>p \<in> set (ds_payouts res). money_value (po_amount p) = 0\<close> x show ?thesis by simp
  qed
qed


subsection \<open>Resolving succeeds\<close>

lemma resolve_with_ok:
  assumes d: "0 \<le> de_decimals d" and pool: "in_unit (engine_unit_of d) (dp_pool plan) x"
    and amounts: "\<forall>r \<in> set rs. \<exists>a v. f r = Inr a \<and> in_unit (engine_unit_of d) a v"
  shows "\<exists>res. resolve_with d plan rs f = Inr res"
proof -
  have fold: "\<exists>ps' tot' y'. foldE (payout_step f) (ps, tot) rs = Inr (ps', tot') \<and>
      in_unit (engine_unit_of d) tot' y'" if "in_unit (engine_unit_of d) tot y" for ps tot y
    using amounts that
  proof (induction rs arbitrary: ps tot y)
    case Nil
    then show ?case by auto
  next
    case (Cons r rs)
    obtain a v where a: "f r = Inr a" "in_unit (engine_unit_of d) a v" using Cons.prems(1) by auto
    obtain t where t: "addMoney tot a = Inr t" "in_unit (engine_unit_of d) t (y + v)"
      using in_unit_add_ok[OF Cons.prems(2) a(2)] .
    have "payout_step f (ps, tot) r = Inr (ps @ [\<lparr>po_payeeId = dr_payeeId r, po_amount = a\<rparr>], t)"
      using a(1) t(1) by (simp add: payout_step_Inr)
    moreover have "\<forall>r \<in> set rs. \<exists>a v. f r = Inr a \<and> in_unit (engine_unit_of d) a v"
      using Cons.prems(1) by simp
    ultimately show ?case using Cons.IH[OF _ t(2)] by simp
  qed
  have z: "in_unit (engine_unit_of d) (distribution_zero d) 0"
    unfolding distribution_zero_def using d by (rule in_unit_zeroMoney)
  obtain ps' tot' y' where f: "foldE (payout_step f) ([], distribution_zero d) rs = Inr (ps', tot')"
    "in_unit (engine_unit_of d) tot' y'"
    using fold[OF z] by blast
  obtain c where "subtractMoney (dp_pool plan) tot' = Inr c" using in_unit_sub[OF pool f(2)] by blast
  with f(1) show ?thesis by (simp add: resolve_with_def)
qed

lemma share_amount_ok:
  assumes "0 \<le> de_decimals d" "bounded_share r"
  shows "\<exists>a v. share_amount d x t r = Inr a \<and> in_unit (engine_unit_of d) a v"
proof -
  have "in_unit (engine_unit_of d) (engine_amount d (formatAmount v (de_decimals d))) v" for v
    using assms(1) by (simp add: in_unit_def engine_amount_def money_unit_def)
  then show ?thesis using bounded_share_int[OF assms(2)] by (auto simp: share_amount_def)
qed

lemma fixed_amount_ok:
  assumes "0 \<le> de_decimals d" "fixed_ok d r"
  shows "\<exists>a v. bind_r (fixedAmountOf d r) (\<lambda>a. addMoney (distribution_zero d) a) = Inr a \<and>
    in_unit (engine_unit_of d) a v"
proof -
  obtain a v where a: "fixedAmountOf d r = Inr a" "scaled_of a = Inr v" using assms(2) by (auto simp: fixed_ok_def)
  have "\<exists>s. a = engine_amount d s"
    using a(1) by (auto simp: fixedAmountOf_def bind_r_eq_Inr split: option.splits)
  then have "in_unit (engine_unit_of d) a v" using a(2) by (auto simp: in_unit_def engine_amount_def money_unit_def)
  moreover have "in_unit (engine_unit_of d) (distribution_zero d) 0"
    unfolding distribution_zero_def using assms(1) by (rule in_unit_zeroMoney)
  ultimately obtain c where "addMoney (distribution_zero d) a = Inr c" "in_unit (engine_unit_of d) c (0 + v)"
    using in_unit_add_ok by metis
  with a(1) show ?thesis by auto
qed

lemma valid_plan_resolves:
  assumes d: "0 \<le> de_decimals d" and valid: "plan_valid d plan"
    and pool: "in_unit (engine_unit_of d) (dp_pool plan) x"
  shows "\<exists>res. resolvePayouts d plan = Inr res"
proof (cases "dp_strategy plan")
  case Proportional
  have p: "parseAmount (m_amount (dp_pool plan)) (m_decimals (dp_pool plan)) = Inr x"
    using pool by (simp add: in_unit_def scaled_of_def)
  have "\<forall>r \<in> set (dp_recipients plan). bounded_share r" using valid Proportional by (simp add: plan_valid_def)
  then have "\<exists>res. resolve_with d plan (dp_recipients plan) (share_amount d x 10000) = Inr res"
    using share_amount_ok[OF d] by (intro resolve_with_ok[OF d pool]) blast
  with Proportional p show ?thesis by (simp add: resolvePayouts_def resolveProportional_def)
next
  case Fixed
  have "\<forall>r \<in> set (dp_recipients plan). fixed_ok d r" using valid Fixed by (simp add: plan_valid_def)
  then have "\<exists>res. resolve_with d plan (dp_recipients plan)
      (\<lambda>r. bind_r (fixedAmountOf d r) (\<lambda>a. addMoney (distribution_zero d) a)) = Inr res"
    using fixed_amount_ok[OF d] by (intro resolve_with_ok[OF d pool]) blast
  with Fixed show ?thesis by (simp add: resolvePayouts_def resolveFixed_def)
next
  case Milestone
  have p: "parseAmount (m_amount (dp_pool plan)) (m_decimals (dp_pool plan)) = Inr x"
    using pool by (simp add: in_unit_def scaled_of_def)
  have b: "\<forall>r \<in> set (eligible plan). bounded_share r"
    using valid Milestone by (auto simp: plan_valid_def eligible_def)
  then have "\<exists>res. resolve_with d plan (eligible plan)
      (share_amount d x (\<Sum>r\<leftarrow>eligible plan. share_of r)) = Inr res"
    using share_amount_ok[OF d] by (intro resolve_with_ok[OF d pool]) blast
  with Milestone p total_shares_bounded[OF b] show ?thesis
    by (simp add: resolvePayouts_def resolveMilestone_def)
qed

subsection \<open>What an execution writes\<close>

lemma writable_fold:
  assumes "foldE writable_step acc ps = Inr w"
  shows "w = acc @ filter (\<lambda>p. money_value (po_amount p) \<noteq> 0) ps"
  using assms
proof (induction ps arbitrary: acc)
  case Nil
  then show ?case by simp
next
  case (Cons p ps)
  obtain v where v: "scaled_of (po_amount p) = Inr v"
    and rest: "foldE writable_step (if v = 0 then acc else acc @ [p]) ps = Inr w"
    using Cons.prems by (auto simp: writable_step_def[of acc p] isZeroAmount_def scaled_of_def bind_r_eq_Inr)
  from Cons.IH[OF rest] v show ?case by (simp add: money_value_Inr)
qed

lemma writable_ok:
  assumes "\<forall>p \<in> set ps. \<exists>v. scaled_of (po_amount p) = Inr v"
  shows "\<exists>w. foldE writable_step acc ps = Inr w"
  using assms
proof (induction ps arbitrary: acc)
  case Nil
  then show ?case by simp
next
  case (Cons p ps)
  obtain v where "scaled_of (po_amount p) = Inr v" using Cons.prems by auto
  then have "writable_step acc p = Inr (if v = 0 then acc else acc @ [p])"
    by (simp add: writable_step_def isZeroAmount_def scaled_of_def)
  moreover have "\<exists>w. foldE writable_step acc' ps = Inr w" for acc'
    using Cons.prems by (intro Cons.IH) simp
  ultimately show ?case by simp
qed

lemma check_payout_iff: "check_payout p = Inr () \<longleftrightarrow> positive_money (po_amount p)"
proof (cases "validateMoney (po_amount p)")
  case (Inl err)
  then show ?thesis by (simp add: check_payout_def positive_money_def)
next
  case (Inr u)
  then have v: "validateMoney (po_amount p) = Inr ()" by (cases u) simp
  then obtain x where x: "scaled_of (po_amount p) = Inr x" by (auto simp: validateMoney_iff)
  then have "isPositive (po_amount p) = Inr (0 < x)" by (simp add: isPositive_Inr)
  with v x show ?thesis by (simp add: check_payout_def positive_money_def throw_when_def)
qed

lemma distribution_loop_eq:
  "distribution_loop l plan now ps =
     (foldl (\<lambda>l ref. ensure_account l ref now) l (map recipient_account ps),
      concat (map (distribution_pair plan now) ps))"
proof -
  have "foldl (\<lambda>(l, acc) p. (ensure_account l (recipient_account p) now, acc @ distribution_pair plan now p))
      (l, acc) ps =
    (foldl (\<lambda>l ref. ensure_account l ref now) l (map recipient_account ps),
      acc @ concat (map (distribution_pair plan now) ps))"
    for acc by (induction ps arbitrary: l acc) simp_all
  then show ?thesis by (simp add: distribution_loop_def)
qed

abbreviation distribution_ledger :: "ledger \<Rightarrow> plan \<Rightarrow> string \<Rightarrow> payout list \<Rightarrow> ledger" where
  "distribution_ledger l plan now ps \<equiv>
     foldl (\<lambda>l ref. ensure_account l ref now) l (pool_account plan # map recipient_account ps)"

abbreviation distribution_batch :: "plan \<Rightarrow> string \<Rightarrow> payout list \<Rightarrow> ledger_entry list" where
  "distribution_batch plan now ps \<equiv> concat (map (distribution_pair plan now) ps)"

definition plan_payable :: "distribution_engine \<Rightarrow> string \<Rightarrow> plan \<Rightarrow> distribution_result \<Rightarrow> payout list \<Rightarrow> bool" where
  "plan_payable d i plan res w \<longleftrightarrow> getPlan d i = Inr plan \<and> dp_status plan = PlanApproved \<and>
     resolvePayouts d plan = Inr res \<and> foldE writable_step [] (ds_payouts res) = Inr w \<and>
     (\<forall>p \<in> set w. positive_money (po_amount p))"

lemma executeDistribution_checks:
  "(bind_r (getPlan d i) (\<lambda>plan.
      bind_r (throw_when (dp_status plan \<noteq> PlanApproved) (DistributionError D_INVALID_TRANSITION)) (\<lambda>_.
      bind_r (resolvePayouts d plan) (\<lambda>res.
      bind_r (foldE writable_step [] (ds_payouts res)) (\<lambda>writable.
      bind_r (forE check_payout writable) (\<lambda>_. Inr (plan, res, writable)))))) = Inr (plan, res, w)) \<longleftrightarrow>
   plan_payable d i plan res w"
  by (auto simp: plan_payable_def bind_r_eq_Inr throw_when_Inr forE_Inr check_payout_iff)

lemma executeDistribution_payable:
  assumes "plan_payable d i plan res w"
  shows "executeDistribution d l i now =
    (let d' = d\<lparr>de_plans := jm_set (de_plans d) i
           (plan\<lparr>dp_status := PlanExecuted, dp_executedAt := Some now\<rparr>)\<rparr>
     in if distribution_batch plan now w = []
        then (Inr (res\<lparr>ds_payouts := w\<rparr>), d', distribution_ledger l plan now w)
        else case append (distribution_ledger l plan now w) (distribution_batch plan now w)
                    (Some (''Distribution: '' @ dp_name plan)) of
               (Inl err, l') \<Rightarrow> (Inl err, d, l') | (Inr _, l') \<Rightarrow> (Inr (res\<lparr>ds_payouts := w\<rparr>), d', l'))"
  using assms executeDistribution_checks[of d i plan res w]
  by (simp add: executeDistribution_def distribution_loop_eq Let_def split: prod.splits sum.splits)

lemma executeDistribution_refused:
  assumes "\<And>plan res w. \<not> plan_payable d i plan res w"
  obtains err where "executeDistribution d l i now = (Inl err, d, l)"
proof (cases "bind_r (getPlan d i) (\<lambda>plan.
      bind_r (throw_when (dp_status plan \<noteq> PlanApproved) (DistributionError D_INVALID_TRANSITION)) (\<lambda>_.
      bind_r (resolvePayouts d plan) (\<lambda>res.
      bind_r (foldE writable_step [] (ds_payouts res)) (\<lambda>writable.
      bind_r (forE check_payout writable) (\<lambda>_. Inr (plan, res, writable))))))")
  case (Inl err)
  then show ?thesis using that by (simp add: executeDistribution_def)
next
  case (Inr y)
  obtain plan res w where "y = (plan, res, w)" by (metis prod.collapse)
  then show ?thesis using assms executeDistribution_checks Inr by blast
qed

lemma distribution_batch_pairs:
  "distribution_batch plan now w = pairs_of (''distribution:'' @ dp_id plan) now
     (map (\<lambda>p. ((''distribution:'' @ dp_id plan) @ '':'' @ po_payeeId p, ar_id (pool_account plan),
        ar_id (recipient_account p), po_amount p)) w)"
  unfolding map_map comp_def distribution_pair_def[abs_def] Let_def by simp

lemma distribution_ledger_entries: "ld_entries (distribution_ledger l plan now w) = ld_entries l"
  by (rule lp.ensures(2))


lemma executeDistribution_outcome:
  assumes "executeDistribution d l i now = (r, d', l')"
  obtains (booked) plan res w where "plan_payable d i plan res w"
      "r = Inr (res\<lparr>ds_payouts := w\<rparr>)"
      "d' = d\<lparr>de_plans := jm_set (de_plans d) i (plan\<lparr>dp_status := PlanExecuted, dp_executedAt := Some now\<rparr>)\<rparr>"
      "ld_entries l' = ld_entries l @ distribution_batch plan now w"
  | (refused) err where "r = Inl err" "d' = d" "ld_entries l' = ld_entries l"
proof (cases "\<exists>plan res w. plan_payable d i plan res w")
  case False
  then obtain err where "executeDistribution d l i now = (Inl err, d, l)" using executeDistribution_refused by metis
  then show ?thesis using refused assms by simp
next
  case True
  then obtain plan res w where pp: "plan_payable d i plan res w" by blast
  note e = executeDistribution_payable[OF pp, of l now, unfolded Let_def, unfolded assms]
  show ?thesis
  proof (cases "distribution_batch plan now w = []")
    case True
    then show ?thesis using booked[OF pp] e distribution_ledger_entries by simp
  next
    case False
    obtain x l1 where a: "append (distribution_ledger l plan now w) (distribution_batch plan now w)
        (Some (''Distribution: '' @ dp_name plan)) = (x, l1)" by fastforce
    show ?thesis
    proof (cases x)
      case (Inl err)
      then have "l1 = distribution_ledger l plan now w" using a lp.post_failure by blast
      moreover have "(r, d', l') = (Inl err, d, l1)" unfolding e a Inl if_not_P[OF False] by simp
      ultimately show ?thesis using refused distribution_ledger_entries by simp
    next
      case (Inr y)
      then have "ld_entries l1 = ld_entries l @ distribution_batch plan now w"
        using a lp.post_success distribution_ledger_entries by metis
      moreover have "(r, d', l') = (Inr (res\<lparr>ds_payouts := w\<rparr>),
          d\<lparr>de_plans := jm_set (de_plans d) i (plan\<lparr>dp_status := PlanExecuted, dp_executedAt := Some now\<rparr>)\<rparr>, l1)"
        unfolding e a Inr if_not_P[OF False] by simp
      ultimately show ?thesis using booked[OF pp] by simp
    qed
  qed
qed

lemma executeDistribution_ledger:
  assumes "ledger_reachable l" shows "ledger_reachable (snd (snd (executeDistribution d l i now)))"
proof (cases "\<exists>plan res w. plan_payable d i plan res w")
  case False
  then obtain err where "executeDistribution d l i now = (Inl err, d, l)" using executeDistribution_refused by metis
  then show ?thesis using assms by simp
next
  case True
  then obtain plan res w where pp: "plan_payable d i plan res w" by blast
  let ?l = "distribution_ledger l plan now w"
  have good: "ledger_reachable ?l" using assms by (rule lp.ensures(4))
  have "ledger_reachable l'" if "append ?l es c = (r, l')" for es c r l'
    using append_reachable[OF good, of es c] that by simp
  then show ?thesis using good unfolding executeDistribution_payable[OF pp] Let_def
    by (cases "append ?l (distribution_batch plan now w) (Some (''Distribution: '' @ dp_name plan))") (simp split: sum.splits)
qed

subsection \<open>Reachable engines\<close>

text \<open>Engines that result from a new engine of non-negative decimals by creating, approving and
  executing plans (the import of a snapshot, which does not validate plans, apart).\<close>

inductive distribution_reachable :: "distribution_engine \<Rightarrow> bool" where
  dist_new: "0 \<le> decs \<Longrightarrow> distribution_reachable (new_distributions cur decs)"
| dist_create: "distribution_reachable d \<Longrightarrow> createPlan d i name st pool rs now = (r, d') \<Longrightarrow>
    distribution_reachable d'"
| dist_approve: "distribution_reachable d \<Longrightarrow> approvePlan d i = (r, d') \<Longrightarrow> distribution_reachable d'"
| dist_execute: "distribution_reachable d \<Longrightarrow> executeDistribution d l i now = (r, d', l') \<Longrightarrow>
    distribution_reachable d'"

definition plans_valid :: "distribution_engine \<Rightarrow> bool" where
  "plans_valid d \<longleftrightarrow> 0 \<le> de_decimals d \<and> (\<forall>i plan. getPlan d i = Inr plan \<longrightarrow> plan_valid d plan)"

lemma getPlan_set: "getPlan (d\<lparr>de_plans := jm_set (de_plans d) i x\<rparr>) j = (if j = i then Inr x else getPlan d j)"
  by (simp add: getPlan_def)

lemma plan_valid_cong:
  assumes "de_currency d' = de_currency d" "de_decimals d' = de_decimals d"
    and "dp_strategy y = dp_strategy x" "dp_pool y = dp_pool x" "dp_recipients y = dp_recipients x"
  shows "plan_valid d' y = plan_valid d x"
proof -
  have "engine_amount d' = engine_amount d" using assms(1,2) by (intro ext) (simp add: engine_amount_def)
  then have f: "fixedAmountOf d' = fixedAmountOf d"
    by (intro ext) (simp add: fixedAmountOf_def split: option.split)
  show ?thesis by (simp add: plan_valid_def assms fixed_ok_def fixed_value_def f cong: strategy.case_cong)
qed

lemma plans_valid_set:
  assumes "plans_valid d" "plan_valid d x"
  shows "plans_valid (d\<lparr>de_plans := jm_set (de_plans d) i x\<rparr>)"
proof -
  have "plan_valid (d\<lparr>de_plans := jm_set (de_plans d) i x\<rparr>) y = plan_valid d y" for y
    by (rule plan_valid_cong) simp_all
  then show ?thesis using assms by (simp add: plans_valid_def getPlan_set)
qed

lemma executeDistribution_engine:
  assumes "executeDistribution d l i now = (r, d', l')"
  obtains "d' = d" | plan where "getPlan d i = Inr plan"
    "d' = d\<lparr>de_plans := jm_set (de_plans d) i (plan\<lparr>dp_status := PlanExecuted, dp_executedAt := Some now\<rparr>)\<rparr>"
  using assms by (rule executeDistribution_outcome) (auto simp: plan_payable_def intro: that)

lemma distribution_plans_valid: "distribution_reachable d \<Longrightarrow> plans_valid d"
proof (induction rule: distribution_reachable.induct)
  case (dist_new decs cur)
  then show ?case by (simp add: plans_valid_def new_distributions_def getPlan_def)
next
  case (dist_create d i name st pool rs now r d')
  show ?case
  proof (cases "plan_checks d i st pool rs")
    case (Inl err)
    then show ?thesis using dist_create by (simp add: createPlan_def)
  next
    case (Inr u)
    let ?x = "\<lparr>dp_id = i, dp_name = name, dp_strategy = st, dp_pool = pool,
                dp_recipients = rs, dp_status = PlanDraft, dp_createdAt = now, dp_executedAt = None\<rparr>"
    have d: "0 \<le> de_decimals d" using dist_create.IH by (simp add: plans_valid_def)
    have "plan_checks d i st pool rs = Inr ()" using Inr by (cases u) simp
    then have "plan_valid d ?x" by (rule plan_checks_valid[OF d]) simp_all
    moreover have "d' = d\<lparr>de_plans := jm_set (de_plans d) i ?x\<rparr>"
      using dist_create.hyps(2) Inr by (simp add: createPlan_def Let_def)
    ultimately show ?thesis using plans_valid_set[OF dist_create.IH] by simp
  qed
next
  case (dist_approve d i r d')
  show ?case
  proof (cases "getPlan d i")
    case (Inl err)
    then show ?thesis using dist_approve by (simp add: approvePlan_def)
  next
    case (Inr plan)
    then have "plan_valid d plan" using dist_approve.IH by (simp add: plans_valid_def)
    moreover have "plan_valid d (plan\<lparr>dp_status := PlanApproved\<rparr>) = plan_valid d plan"
      by (rule plan_valid_cong) simp_all
    ultimately have "plans_valid (d\<lparr>de_plans := jm_set (de_plans d) i (plan\<lparr>dp_status := PlanApproved\<rparr>)\<rparr>)"
      using plans_valid_set[OF dist_approve.IH] by simp
    then show ?thesis using Inr dist_approve
      by (auto simp: approvePlan_def Let_def throw_when_def split: if_splits)
  qed
next
  case (dist_execute d l i now r d' l')
  from dist_execute.hyps(2) show ?case
  proof (cases rule: executeDistribution_engine)
    case 1
    then show ?thesis using dist_execute.IH by simp
  next
    case (2 plan)
    then have "plan_valid d plan" using dist_execute.IH by (simp add: plans_valid_def)
    moreover have "plan_valid d (plan\<lparr>dp_status := PlanExecuted, dp_executedAt := Some now\<rparr>) = plan_valid d plan"
      by (rule plan_valid_cong) simp_all
    ultimately show ?thesis using plans_valid_set[OF dist_execute.IH] unfolding 2(2) by blast
  qed
qed


subsection \<open>Properties\<close>

lemma getPlan_reachable:
  assumes "distribution_reachable d" "computeDistribution d i = Inr res"
  obtains plan where "getPlan d i = Inr plan" "resolvePayouts d plan = Inr res" "plan_valid d plan"
    "0 \<le> de_decimals d"
proof -
  obtain plan where "getPlan d i = Inr plan" "resolvePayouts d plan = Inr res"
    using assms(2) by (auto simp: computeDistribution_def bind_r_eq_Inr)
  then show ?thesis using that distribution_plans_valid[OF assms(1)] by (simp add: plans_valid_def)
qed

lemma resolvePayouts_conserves:
  assumes d: "0 \<le> de_decimals d" and r: "resolvePayouts d plan = Inr res"
  shows "\<exists>pool. in_unit (engine_unit_of d) (dp_pool plan) pool \<and>
    (\<forall>p \<in> set (ds_payouts res). in_unit (engine_unit_of d) (po_amount p) (money_value (po_amount p))) \<and>
    in_unit (engine_unit_of d) (ds_totalDistributed res) (payouts_total (ds_payouts res)) \<and>
    in_unit (engine_unit_of d) (ds_remainder res) (pool - payouts_total (ds_payouts res))"
proof -
  obtain rs f where r: "resolve_with d plan rs f = Inr res" using r by (cases rule: resolve_cases) blast+
  obtain pool where p: "in_unit (engine_unit_of d) (dp_pool plan) pool"
    "list_all2 (pays d f) rs (ds_payouts res)"
    "in_unit (engine_unit_of d) (ds_totalDistributed res) (payouts_total (ds_payouts res))"
    "in_unit (engine_unit_of d) (ds_remainder res) (pool - payouts_total (ds_payouts res))"
    using resolve_with_spec[OF d r] .
  from p(2) have "\<forall>p \<in> set (ds_payouts res). in_unit (engine_unit_of d) (po_amount p) (money_value (po_amount p))"
    by (induction rule: list_all2_induct) (simp_all add: pays_def)
  with p show ?thesis by blast
qed

text \<open>Whatever the strategy, the distribution that \<^verbatim>\<open>computeDistribution\<close> returns conserves
  the pool: payouts, total and remainder are amounts of the engine's currency and decimals, the total
  is the sum of the payouts and the remainder is the pool less the total.\<close>

theorem distribution_conserves_pool:
  assumes "0 \<le> de_decimals d" and "computeDistribution d i = Inr res"
  shows "\<exists>plan pool. getPlan d i = Inr plan \<and> in_unit (de_currency d, de_decimals d) (dp_pool plan) pool \<and>
    (\<forall>p \<in> set (ds_payouts res).
       in_unit (de_currency d, de_decimals d) (po_amount p) (money_value (po_amount p))) \<and>
    in_unit (de_currency d, de_decimals d) (ds_totalDistributed res) (payouts_total (ds_payouts res)) \<and>
    in_unit (de_currency d, de_decimals d) (ds_remainder res) (pool - payouts_total (ds_payouts res))"
proof -
  obtain plan where "getPlan d i = Inr plan" "resolvePayouts d plan = Inr res"
    using assms(2) by (auto simp: computeDistribution_def bind_r_eq_Inr)
  with resolvePayouts_conserves[OF assms(1)] show ?thesis by blast
qed

text \<open>Each payee is paid at most once, and only recipients are.\<close>

lemma paid_recipients:
  assumes d: "0 \<le> de_decimals d" and r: "resolvePayouts d plan = Inr res"
    and dist: "distinct (map dr_payeeId (dp_recipients plan))"
  shows "distinct (map po_payeeId (ds_payouts res)) \<and>
    po_payeeId ` set (ds_payouts res) \<subseteq> dr_payeeId ` set (dp_recipients plan)"
proof -
  have "\<exists>rs f. resolve_with d plan rs f = Inr res \<and> distinct (map dr_payeeId rs) \<and> set rs \<subseteq> set (dp_recipients plan)"
    using r dist by (cases rule: resolve_cases) (auto simp: eligible_def distinct_map_filter)
  then obtain rs f where rs: "resolve_with d plan rs f = Inr res" "distinct (map dr_payeeId rs)" "set rs \<subseteq> set (dp_recipients plan)"
    by blast
  obtain pool where "list_all2 (pays d f) rs (ds_payouts res)" using resolve_with_spec[OF d rs(1)] by metis
  then have "map po_payeeId (ds_payouts res) = map dr_payeeId rs"
    by (induction rule: list_all2_induct) (simp_all add: pays_def)
  then show ?thesis using rs(2,3) by (metis image_mono set_map)
qed

text \<open>Full shares leave only rounding dust.\<close>

lemma full_shares_leave_dust:
  assumes d: "0 \<le> de_decimals d" and valid: "plan_valid d plan" and r: "resolvePayouts d plan = Inr res"
    and pool: "0 \<le> money_value (dp_pool plan)"
  shows "dp_strategy plan = Proportional \<longrightarrow> (\<Sum>r\<leftarrow>dp_recipients plan. share_of r) = 10000 \<longrightarrow>
    money_value (ds_remainder res) < int (length (dp_recipients plan))"
proof (intro impI)
  assume st: "dp_strategy plan = Proportional" and sum: "(\<Sum>r\<leftarrow>dp_recipients plan. share_of r) = 10000"
  obtain y where p: "in_unit (engine_unit_of d) (dp_pool plan) y"
    "in_unit (engine_unit_of d) (ds_remainder res) (y - payouts_total (ds_payouts res))"
    using resolvePayouts_conserves[OF d r] by blast
  note v = p[THEN in_unit_value]
  obtain x where x: "scaled_of (dp_pool plan) = Inr x"
    and rw: "resolve_with d plan (dp_recipients plan) (share_amount d x 10000) = Inr res"
    using r by (cases rule: resolve_cases) (simp_all add: st)
  have x0: "0 \<le> x" "x = y" using x pool v by (simp_all add: money_value_Inr)
  have b: "\<forall>r \<in> set (dp_recipients plan). bounded_share r" and ne: "dp_recipients plan \<noteq> []"
    using valid st by (simp_all add: plan_valid_def)
  have l2: "list_all2 (pays d (share_amount d x 10000)) (dp_recipients plan) (ds_payouts res)"
    using resolve_with_spec[OF d rw] by metis
  have m: "map (\<lambda>p. money_value (po_amount p)) (ds_payouts res) = map (\<lambda>r. x * share_of r div 10000) (dp_recipients plan)"
    by (rule share_payouts[OF d b _ x0(1) l2]) simp
  have "\<forall>r \<in> set (dp_recipients plan). 0 \<le> share_of r" using b bounded_share_int by blast
  then have "x - (\<Sum>r\<leftarrow>dp_recipients plan. x * share_of r div 10000) < int (length (dp_recipients plan))"
    using sum ne x0(1) by (intro share_sum_bounds(2)) simp_all
  then show "money_value (ds_remainder res) < int (length (dp_recipients plan))" unfolding v(2) m x0(2)[symmetric] .
qed

text \<open>C14: Plans that were created through the engine never overspend: over a non-negative pool each payee is paid at
  most once, only recipients are paid, every payout is a non-negative amount in the unit of the pool, the
  payouts add up to the total and together with a non-negative remainder to exactly the pool; and when the basis
  points of a proportional plan add up to 10000, the remainder is only rounding dust, fewer units than there are
  recipients.\<close>

theorem distribution_never_overspends:
  assumes "distribution_reachable d" and "computeDistribution d i = Inr res"
    and "getPlan d i = Inr plan" and "0 \<le> money_value (dp_pool plan)"
  shows "distinct (map po_payeeId (ds_payouts res)) \<and>
    po_payeeId ` set (ds_payouts res) \<subseteq> dr_payeeId ` set (dp_recipients plan) \<and>
    (\<forall>p \<in> set (ds_payouts res). 0 \<le> money_value (po_amount p) \<and> money_unit (po_amount p) = money_unit (dp_pool plan)) \<and>
    money_value (ds_totalDistributed res) = (\<Sum>p\<leftarrow>ds_payouts res. money_value (po_amount p)) \<and>
    (\<Sum>p\<leftarrow>ds_payouts res. money_value (po_amount p)) + money_value (ds_remainder res) = money_value (dp_pool plan) \<and>
    0 \<le> money_value (ds_remainder res) \<and>
    (dp_strategy plan = Proportional \<longrightarrow> (\<Sum>r\<leftarrow>dp_recipients plan. share_of r) = 10000 \<longrightarrow>
       money_value (ds_remainder res) < int (length (dp_recipients plan)))"
proof -
  have r: "resolvePayouts d plan = Inr res" and valid: "plan_valid d plan" and d: "0 \<le> de_decimals d"
    using getPlan_reachable[OF assms(1,2)] assms(3) by auto
  obtain pool where p: "in_unit (engine_unit_of d) (dp_pool plan) pool"
    "in_unit (engine_unit_of d) (ds_remainder res) (pool - payouts_total (ds_payouts res))"
    "in_unit (engine_unit_of d) (ds_totalDistributed res) (payouts_total (ds_payouts res))"
    and units: "\<forall>p \<in> set (ds_payouts res). in_unit (engine_unit_of d) (po_amount p) (money_value (po_amount p))"
    using resolvePayouts_conserves[OF d r] by blast
  note v = p[THEN in_unit_value]
  have "distinct (map dr_payeeId (dp_recipients plan))" using valid by (simp add: plan_valid_def)
  note payees = paid_recipients[OF d r this]
  have "\<forall>p \<in> set (ds_payouts res). money_unit (po_amount p) = money_unit (dp_pool plan)"
    using units p(1) by (simp add: in_unit_def)
  with valid_plan_pays_within_pool[OF d valid r assms(4)] payees v full_shares_leave_dust[OF d valid r assms(4)]
  show ?thesis by simp
qed

text \<open>\<^verbatim>\<open>executeDistribution\<close> either books an approved plan, appending exactly one debit
  of the pool account and one credit of the recipient for each non-zero payout and marking the plan
  executed, or fails leaving the engine and the ledger's entries as they were.\<close>

theorem execute_distribution_effect:
  "case executeDistribution d l i now of
     (Inr res', d', l') \<Rightarrow>
       (\<exists>plan res. getPlan d i = Inr plan \<and> dp_status plan = PlanApproved \<and> resolvePayouts d plan = Inr res \<and>
          ds_payouts res' = filter (\<lambda>p. money_value (po_amount p) \<noteq> 0) (ds_payouts res) \<and>
          (\<forall>p \<in> set (ds_payouts res'). positive_money (po_amount p)) \<and>
          ld_entries l' = ld_entries l @ distribution_batch plan now (ds_payouts res') \<and>
          getPlan d' i = Inr (plan\<lparr>dp_status := PlanExecuted, dp_executedAt := Some now\<rparr>))
   | (Inl err, d', l') \<Rightarrow> d' = d \<and> ld_entries l' = ld_entries l"
proof -
  obtain r d' l' where e: "executeDistribution d l i now = (r, d', l')" by (metis prod.collapse)
  then show ?thesis
  proof (cases rule: executeDistribution_outcome)
    case (booked plan res w)
    then have "w = filter (\<lambda>p. money_value (po_amount p) \<noteq> 0) (ds_payouts res)"
      using writable_fold[of "[]"] by (simp add: plan_payable_def)
    with booked show ?thesis unfolding e by (auto simp: getPlan_set plan_payable_def)
  next
    case (refused err)
    then show ?thesis unfolding e by simp
  qed
qed

lemma resolvePayouts_payees:
  assumes "0 \<le> de_decimals d" and "resolvePayouts d plan = Inr res"
  shows "\<exists>P. map po_payeeId (ds_payouts res) = map dr_payeeId (filter P (dp_recipients plan))"
proof -
  have ids: "list_all2 (pays d f) rs ps \<Longrightarrow> map po_payeeId ps = map dr_payeeId rs" for f rs ps
    by (induction rule: list_all2_induct) (simp_all add: pays_def)
  from assms(2) show ?thesis
  proof (cases rule: resolve_cases)
    case (proportional x)
    then have "map po_payeeId (ds_payouts res) = map dr_payeeId (filter (\<lambda>_. True) (dp_recipients plan))"
      using resolve_with_spec[OF assms(1) proportional(3)] ids by (metis filter_True)
    then show ?thesis by blast
  next
    case fixed
    then have "map po_payeeId (ds_payouts res) = map dr_payeeId (filter (\<lambda>_. True) (dp_recipients plan))"
      using resolve_with_spec[OF assms(1) fixed(2)] ids by (metis filter_True)
    then show ?thesis by blast
  next
    case (milestone x t)
    then show ?thesis
      using resolve_with_spec[OF assms(1) milestone(4)] ids unfolding eligible_def by metis
  qed
qed

lemma approved_plan_payable:
  assumes "distribution_reachable d" and "getPlan d i = Inr plan" and "dp_status plan = PlanApproved"
    and "in_unit (engine_unit_of d) (dp_pool plan) pool" and "0 \<le> pool" and "js_trim (de_currency d) \<noteq> []"
  obtains res w where "plan_payable d i plan res w" "distinct (map po_payeeId w)"
    "set (map po_payeeId w) \<subseteq> dr_payeeId ` set (dp_recipients plan)"
proof -
  have valid: "plan_valid d plan" and d: "0 \<le> de_decimals d"
    using distribution_plans_valid[OF assms(1)] assms(2) by (simp_all add: plans_valid_def)
  obtain res where r: "resolvePayouts d plan = Inr res" using valid_plan_resolves[OF d valid assms(4)] by blast
  have u: "\<forall>p \<in> set (ds_payouts res). in_unit (engine_unit_of d) (po_amount p) (money_value (po_amount p))"
    using resolvePayouts_conserves[OF d r] by blast
  then have "\<forall>p \<in> set (ds_payouts res). \<exists>v. scaled_of (po_amount p) = Inr v" by (auto simp: in_unit_def)
  then obtain w where w: "foldE writable_step [] (ds_payouts res) = Inr w" using writable_ok by blast
  then have wf: "w = filter (\<lambda>p. money_value (po_amount p) \<noteq> 0) (ds_payouts res)" using writable_fold[of "[]"] by simp
  have "0 \<le> money_value (dp_pool plan)" using in_unit_value[OF assms(4)] assms(5) by simp
  from valid_plan_pays_within_pool[OF d valid r this]
  have nn: "\<forall>p \<in> set (ds_payouts res). 0 \<le> money_value (po_amount p)" by simp
  have "positive_money (po_amount p)" if p: "p \<in> set w" for p
  proof -
    have "in_unit (engine_unit_of d) (po_amount p) (money_value (po_amount p))" "0 < money_value (po_amount p)"
      using p u nn wf by (auto simp: less_le)
    then show ?thesis using assms(6) d by (auto simp: positive_money_def in_unit_def validateMoney_iff money_unit_def)
  qed
  then have "plan_payable d i plan res w" using assms(2,3) r w by (simp add: plan_payable_def)
  moreover obtain P where P: "map po_payeeId (ds_payouts res) = map dr_payeeId (filter P (dp_recipients plan))"
    using resolvePayouts_payees[OF d r] by blast
  have "distinct (map po_payeeId (ds_payouts res))"
    unfolding P using valid by (simp add: plan_valid_def distinct_map_filter)
  then have "distinct (map po_payeeId w)" unfolding wf by (rule distinct_map_filter)
  moreover have "set (map po_payeeId w) \<subseteq> set (map po_payeeId (ds_payouts res))" unfolding wf by auto
  then have "set (map po_payeeId w) \<subseteq> dr_payeeId ` set (dp_recipients plan)" unfolding P by auto
  ultimately show ?thesis using that by blast
qed

text \<open>An approved plan of a reachable engine, over a non-negative pool in the engine's
  non-blank currency and decimals, is always executed, provided no ledger entry has an id of its
  entries.\<close>

theorem approved_plan_executes:
  assumes "distribution_reachable d" and "getPlan d i = Inr plan" and "dp_status plan = PlanApproved"
    and "in_unit (de_currency d, de_decimals d) (dp_pool plan) pool" and "0 \<le> pool"
    and "js_trim (de_currency d) \<noteq> []"
    and "\<forall>r \<in> set (dp_recipients plan). \<forall>s \<in> {'':debit'', '':credit''}.
      ((''distribution:'' @ dp_id plan) @ '':'' @ dr_payeeId r) @ s \<notin> ld_entryIds l"
  shows "\<exists>res d' l'. executeDistribution d l i now = (Inr res, d', l')"
proof -
  obtain res w where pp: "plan_payable d i plan res w" and dist: "distinct (map po_payeeId w)"
    and sub: "set (map po_payeeId w) \<subseteq> dr_payeeId ` set (dp_recipients plan)"
    using approved_plan_payable[OF assms(1-6)] .
  note e = executeDistribution_payable[OF pp, of l now, unfolded Let_def]
  show ?thesis
  proof (cases "distribution_batch plan now w = []")
    case True
    then show ?thesis unfolding e by simp
  next
    case False
    let ?l = "distribution_ledger l plan now w"
    let ?ps = "map (\<lambda>p. ((''distribution:'' @ dp_id plan) @ '':'' @ po_payeeId p, ar_id (pool_account plan),
        ar_id (recipient_account p), po_amount p)) w"
    have "\<exists>r l'. append ?l (pairs_of (''distribution:'' @ dp_id plan) now ?ps)
        (Some (''Distribution: '' @ dp_name plan)) = (Inr r, l') \<and>
        ld_entries l' = ld_entries ?l @ pairs_of (''distribution:'' @ dp_id plan) now ?ps"
    proof (rule lp.post_pairs)
      show "?ps \<noteq> []" using False by auto
      have "map fst ?ps = map (\<lambda>i. (''distribution:'' @ dp_id plan) @ '':'' @ i) (map po_payeeId w)" by simp
      moreover have "distinct (map (\<lambda>i. (''distribution:'' @ dp_id plan) @ '':'' @ i) (map po_payeeId w))"
        using dist by (subst distinct_map) (simp add: inj_on_def)
      ultimately show "distinct (map fst ?ps)" by (simp only:)
      show "\<forall>(i, d, k, m) \<in> set ?ps. hasAccount ?l d \<and> hasAccount ?l k \<and> positive_money m"
        using pp unfolding lp.ensures(1) by (auto simp: plan_payable_def)
      have "le_id x \<notin> ld_entryIds l"
        if mem: "x \<in> set (pairs_of (''distribution:'' @ dp_id plan) now ?ps)" for x
      proof -
        obtain p s where "p \<in> set w" "s \<in> {'':debit'', '':credit''}"
          and x: "le_id x = ((''distribution:'' @ dp_id plan) @ '':'' @ po_payeeId p) @ s"
          using mem unfolding set_concat set_map debit_credit_pair_def by fastforce
        moreover obtain r where "r \<in> set (dp_recipients plan)" "po_payeeId p = dr_payeeId r"
          using sub \<open>p \<in> set w\<close> by auto
        ultimately show ?thesis using assms(7) by metis
      qed
      then show "ld_entryIds ?l \<inter> le_id ` set (pairs_of (''distribution:'' @ dp_id plan) now ?ps) = {}"
        unfolding lp.ensures(3) by blast
    qed
    then obtain r l' where "append ?l (distribution_batch plan now w)
        (Some (''Distribution: '' @ dp_name plan)) = (Inr r, l')"
      unfolding distribution_batch_pairs by blast
    then show ?thesis unfolding e using False by simp
  qed
qed

text \<open>The fixed amount of a recipient is read without its currency: an engine of one currency
  accepts a recipient's amount stated in another and pays the same number in its own.\<close>

theorem fixed_amount_currency_ignored:
  "let d = new_distributions ''U'' 0;
       m = (\<lambda>a c. \<lparr>m_amount = a, m_currency = c, m_decimals = 0\<rparr>);
       r = \<lparr>dr_payeeId = ''a'', dr_share = None, dr_amount = Some (m ''5'' ''E''), dr_milestoneMet = None, dr_resolvedAmount = None\<rparr>;
       d' = snd (createPlan d ''x'' ''n'' Fixed (m ''9'' ''U'') [r] ''t'')
   in (case computeDistribution d' ''x'' of
         Inr res \<Rightarrow> ds_payouts res = [\<lparr>po_payeeId = ''a'', po_amount = m ''5'' ''U''\<rparr>] | Inl _ \<Rightarrow> False)"
  by code_simp

subsection \<open>Witnesses\<close>

definition sample_plan_pool :: money where
  "sample_plan_pool = \<lparr>m_amount = ''10'', m_currency = ''U'', m_decimals = 0\<rparr>"

definition sample_recipients :: "recipient list" where
  "sample_recipients = map (\<lambda>(i, s). \<lparr>dr_payeeId = i, dr_share = Some (JSInt s), dr_amount = None,
     dr_milestoneMet = None, dr_resolvedAmount = None\<rparr>) [(''a'', 3333), (''b'', 3333), (''c'', 3334)]"

definition sample_plans :: distribution_engine where
  "sample_plans = snd (approvePlan (snd (createPlan (new_distributions ''U'' 0) ''x'' ''n'' Proportional
     sample_plan_pool sample_recipients ''t'')) ''x'')"

lemma sample_plans_reachable: "distribution_reachable sample_plans"
proof -
  have "distribution_reachable (new_distributions ''U'' 0)" by (rule dist_new) simp
  from dist_create[OF this prod.collapse[symmetric], of "''x''" "''n''" Proportional sample_plan_pool
      sample_recipients "''t''"]
  show ?thesis unfolding sample_plans_def by (rule dist_approve[OF _ prod.collapse[symmetric]])
qed

definition sample_result :: distribution_result where
  "sample_result = (let m = (\<lambda>a. \<lparr>m_amount = a, m_currency = ''U'', m_decimals = 0\<rparr>) in
     \<lparr>ds_planId = ''x'', ds_payouts = map (\<lambda>i. \<lparr>po_payeeId = i, po_amount = m ''3''\<rparr>) [''a'', ''b'', ''c''],
      ds_totalDistributed = m ''9'', ds_remainder = m ''1''\<rparr>)"

definition sample_plan :: plan where
  "sample_plan = \<lparr>dp_id = ''x'', dp_name = ''n'', dp_strategy = Proportional, dp_pool = sample_plan_pool,
     dp_recipients = sample_recipients, dp_status = PlanApproved, dp_createdAt = ''t'', dp_executedAt = None\<rparr>"

lemma sample_plan_get: "getPlan sample_plans ''x'' = Inr sample_plan" by code_simp
lemma sample_result_compute: "computeDistribution sample_plans ''x'' = Inr sample_result" by code_simp
lemma sample_plans_unit: "de_currency sample_plans = ''U''" "de_decimals sample_plans = 0" by code_simp+

theorem distribution_conserves_pool_witness:
  "\<exists>pool. in_unit (''U'', 0) sample_plan_pool pool \<and>
     in_unit (''U'', 0) (ds_remainder sample_result) (pool - payouts_total (ds_payouts sample_result))"
  using distribution_conserves_pool[OF _ sample_result_compute] unfolding sample_plan_get sample_plans_unit
  by (auto simp: sample_plan_def)

theorem distribution_never_overspends_witness:
  "money_value (ds_remainder sample_result) < 3"
proof -
  have "0 \<le> money_value (dp_pool sample_plan)" by code_simp
  from distribution_never_overspends[OF sample_plans_reachable sample_result_compute sample_plan_get this]
  show ?thesis by (simp add: sample_plan_def sample_recipients_def share_of_def)
qed

theorem approved_plan_executes_witness:
  "\<exists>res d' l'. executeDistribution sample_plans new_ledger ''x'' ''t'' = (Inr res, d', l')"
proof -
  have "in_unit (''U'', 0) sample_plan_pool 10"
    unfolding in_unit_def by (intro conjI) code_simp+
  then have "in_unit (de_currency sample_plans, de_decimals sample_plans) (dp_pool sample_plan) 10"
    unfolding sample_plans_unit by (simp add: sample_plan_def)
  moreover have "js_trim (de_currency sample_plans) \<noteq> []" unfolding sample_plans_unit by code_simp
  ultimately show ?thesis
    by (intro approved_plan_executes[OF sample_plans_reachable sample_plan_get, where pool = 10])
      (simp_all add: sample_plan_def new_ledger_def)
qed

end
