(* ===== verification/Funding.thy ===== *)
theory Funding
  imports Ledger
begin

section \<open>Dual-gate funding\<close>

text \<open>
  Model of \<^verbatim>\<open>packages/treasury/src/funding.ts\<close>: requests that need the approval of both
  gatekeepers before they are executed against the ledger. Methods return their result and the new
  manager; \<open>executeRequest\<close> also returns the new ledger, since it registers accounts before the
  append that may fail. The clock readings of one call are one argument. Telemetry is left out.
  The lemmas show separation of duties for every reachable manager and what an execution writes,
  through the interface \<open>ledger_port\<close>.
\<close>

datatype funding_status =
  FS_pending | FS_gate1_approved | FS_approved | FS_rejected | FS_executed | FS_failed

record funding_gate =
  fg_approvedBy :: string
  fg_reason :: "string option"
  fg_approvedAt :: string

record funding_request =
  fr_id :: string
  fr_description :: string
  fr_amount :: money
  fr_requestedBy :: string
  fr_status :: funding_status
  fr_gate1 :: "funding_gate option"
  fr_gate2 :: "funding_gate option"
  fr_createdAt :: string
  fr_executedAt :: "string option"

record funding_manager =
  fm_requests :: "(string, funding_request) jsmap"
  fm_gatekeepers :: "string \<times> string"

definition newFundingGateManager :: "string \<times> string \<Rightarrow> funding_manager result" where
  "newFundingGateManager gk =
     (if fst gk = snd gk then Inl (FundingError F_DUPLICATE_GATEKEEPER)
      else Inr \<lparr>fm_requests = [], fm_gatekeepers = gk\<rparr>)"

definition isGatekeeper :: "funding_manager \<Rightarrow> string \<Rightarrow> bool" where
  "isGatekeeper m who \<longleftrightarrow> who = fst (fm_gatekeepers m) \<or> who = snd (fm_gatekeepers m)"

definition submitRequest ::
  "funding_manager \<Rightarrow> string \<Rightarrow> string \<Rightarrow> money \<Rightarrow> string \<Rightarrow> string \<Rightarrow>
   funding_request result \<times> funding_manager" where
  "submitRequest m i description amount requestedBy now =
     (if jm_has (fm_requests m) i then (Inl (FundingError F_REQUEST_EXISTS), m)
      else let request = \<lparr>fr_id = i, fr_description = description, fr_amount = amount,
             fr_requestedBy = requestedBy, fr_status = FS_pending, fr_gate1 = None, fr_gate2 = None,
             fr_createdAt = now, fr_executedAt = None\<rparr>
           in (Inr request, m\<lparr>fm_requests := jm_set (fm_requests m) i request\<rparr>))"

definition getRequest :: "funding_manager \<Rightarrow> string \<Rightarrow> funding_request result" where
  "getRequest m i =
     (case jm_get (fm_requests m) i of
        None \<Rightarrow> Inl (FundingError F_REQUEST_NOT_FOUND) | Some r \<Rightarrow> Inr r)"

definition listRequests :: "funding_manager \<Rightarrow> funding_status option \<Rightarrow> funding_request list" where
  "listRequests m st =
     (case st of None \<Rightarrow> jm_values (fm_requests m)
      | Some s \<Rightarrow> filter (\<lambda>r. fr_status r = s) (jm_values (fm_requests m)))"

definition store_request ::
  "funding_manager \<Rightarrow> string \<Rightarrow> funding_request result \<Rightarrow> funding_request result \<times> funding_manager" where
  "store_request m i r =
     (case r of Inl err \<Rightarrow> (Inl err, m)
      | Inr x \<Rightarrow> (Inr x, m\<lparr>fm_requests := jm_set (fm_requests m) i x\<rparr>))"

definition approveGate ::
  "funding_manager \<Rightarrow> string \<Rightarrow> string \<Rightarrow> string option \<Rightarrow> string \<Rightarrow>
   funding_request result \<times> funding_manager" where
  "approveGate m i approvedBy reason now = store_request m i
     (bind_r (getRequest m i) (\<lambda>request.
      bind_r (throw_when (\<not> isGatekeeper m approvedBy) (FundingError F_NOT_GATEKEEPER)) (\<lambda>_.
      bind_r (throw_when (approvedBy = fr_requestedBy request)
                (FundingError F_REQUESTER_CANNOT_APPROVE)) (\<lambda>_.
      bind_r (throw_when (fr_status request \<noteq> FS_pending \<and> fr_status request \<noteq> FS_gate1_approved)
                (FundingError F_INVALID_TRANSITION)) (\<lambda>_.
        let gate = \<lparr>fg_approvedBy = approvedBy, fg_reason = reason, fg_approvedAt = now\<rparr>
        in if fr_status request = FS_pending
           then Inr (request\<lparr>fr_status := FS_gate1_approved, fr_gate1 := Some gate\<rparr>)
           else bind_r (throw_when (map_option fg_approvedBy (fr_gate1 request) = Some approvedBy)
                          (FundingError F_ALREADY_APPROVED)) (\<lambda>_.
                  Inr (request\<lparr>fr_status := FS_approved, fr_gate2 := Some gate\<rparr>)))))))"

definition rejectRequest ::
  "funding_manager \<Rightarrow> string \<Rightarrow> string \<Rightarrow> string option \<Rightarrow> string \<Rightarrow>
   funding_request result \<times> funding_manager" where
  "rejectRequest m i rejectedBy reason now = store_request m i
     (bind_r (getRequest m i) (\<lambda>request.
      bind_r (throw_when (\<not> isGatekeeper m rejectedBy) (FundingError F_NOT_GATEKEEPER)) (\<lambda>_.
      bind_r (throw_when (fr_status request = FS_rejected \<or> fr_status request = FS_executed \<or>
                fr_status request = FS_failed) (FundingError F_INVALID_TRANSITION)) (\<lambda>_.
        let gate = \<lparr>fg_approvedBy = rejectedBy, fg_reason = reason, fg_approvedAt = now\<rparr>
        in Inr (if fr_gate1 request \<noteq> None
                then request\<lparr>fr_status := FS_rejected, fr_gate2 := Some gate\<rparr>
                else request\<lparr>fr_status := FS_rejected, fr_gate1 := Some gate\<rparr>)))))"

definition treasury_account :: account_ref where
  "treasury_account = \<lparr>ar_id = ''treasury:main'', ar_type = Asset, ar_name = ''Treasury Main Account''\<rparr>"

definition funding_account :: "funding_request \<Rightarrow> account_ref" where
  "funding_account r = \<lparr>ar_id = ''funding:request:'' @ fr_id r, ar_type = Expense,
     ar_name = ''Funding: '' @ fr_description r\<rparr>"

definition funding_entries :: "funding_request \<Rightarrow> string \<Rightarrow> ledger_entry list" where
  "funding_entries r now =
     (let corrId = ''funding:'' @ fr_id r
      in debit_credit_pair corrId now corrId (ar_id (funding_account r)) (ar_id treasury_account)
           (fr_amount r))"

definition executeRequest ::
  "funding_manager \<Rightarrow> ledger \<Rightarrow> string \<Rightarrow> string \<Rightarrow>
   funding_request result \<times> funding_manager \<times> ledger" where
  "executeRequest m l i now =
     (case getRequest m i of Inl err \<Rightarrow> (Inl err, m, l)
      | Inr request \<Rightarrow>
        if fr_status request \<noteq> FS_approved then (Inl (FundingError F_INVALID_TRANSITION), m, l)
        else
          let l1 = ensure_account l treasury_account now;
              l2 = ensure_account l1 (funding_account request) now
          in case append l2 (funding_entries request now) (Some (''Funding: '' @ fr_description request)) of
               (Inl err, l3) \<Rightarrow> (Inl err, m, l3)
             | (Inr _, l3) \<Rightarrow>
                 let executed = request\<lparr>fr_status := FS_executed, fr_executedAt := Some now\<rparr>
                 in (Inr executed, m\<lparr>fm_requests := jm_set (fm_requests m) i executed\<rparr>, l3))"

definition exportRequests :: "funding_manager \<Rightarrow> funding_request list" where
  "exportRequests m = jm_values (fm_requests m)"

definition importRequests :: "funding_manager \<Rightarrow> funding_request list \<Rightarrow> unit result \<times> funding_manager" where
  "importRequests m xs =
     (if 0 < length (fm_requests m) then (Inl (FundingError F_IMPORT_NOT_EMPTY), m)
      else case import_records fr_id (FundingError F_DUPLICATE_IMPORT_ID) (fm_requests m) {} xs of (r, store) \<Rightarrow> (r, m\<lparr>fm_requests := store\<rparr>))"

subsection \<open>Separation of duties\<close>

definition approver_ok :: "string \<times> string \<Rightarrow> funding_request \<Rightarrow> funding_gate \<Rightarrow> bool" where
  "approver_ok gk r g \<longleftrightarrow>
     fg_approvedBy g \<in> {fst gk, snd gk} \<and> fg_approvedBy g \<noteq> fr_requestedBy r"

definition both_gates :: "string \<times> string \<Rightarrow> funding_request \<Rightarrow> bool" where
  "both_gates gk r \<longleftrightarrow>
     (\<exists>g1 g2. fr_gate1 r = Some g1 \<and> fr_gate2 r = Some g2 \<and> approver_ok gk r g1 \<and>
        approver_ok gk r g2 \<and> fg_approvedBy g1 \<noteq> fg_approvedBy g2)"

definition gates_ok :: "string \<times> string \<Rightarrow> funding_request \<Rightarrow> bool" where
  "gates_ok gk r \<longleftrightarrow>
     (case fr_status r of
        FS_pending \<Rightarrow> fr_gate1 r = None \<and> fr_gate2 r = None
      | FS_gate1_approved \<Rightarrow> (\<exists>g1. fr_gate1 r = Some g1 \<and> approver_ok gk r g1) \<and> fr_gate2 r = None
      | FS_approved \<Rightarrow> both_gates gk r
      | FS_rejected \<Rightarrow> True
      | FS_executed \<Rightarrow> both_gates gk r
      | FS_failed \<Rightarrow> False)"

definition funding_wf :: "funding_manager \<Rightarrow> bool" where
  "funding_wf m \<longleftrightarrow> fst (fm_gatekeepers m) \<noteq> snd (fm_gatekeepers m) \<and>
     (\<forall>i r. jm_get (fm_requests m) i = Some r \<longrightarrow> fr_id r = i \<and> gates_ok (fm_gatekeepers m) r)"

inductive funding_step :: "funding_manager \<times> ledger \<Rightarrow> funding_manager \<times> ledger \<Rightarrow> bool" where
  "funding_step (m, l) (snd (submitRequest m i d a who now), l)"
| "funding_step (m, l) (snd (approveGate m i who why now), l)"
| "funding_step (m, l) (snd (rejectRequest m i who why now), l)"
| "funding_step (m, l) (snd (executeRequest m l i now))"
| "ledger_step l l' \<Longrightarrow> funding_step (m, l) (m, l')"

inductive_cases funding_stepE: "funding_step (m, l) (m', l')"

inductive funding_reachable :: "funding_manager \<times> ledger \<Rightarrow> bool" where
  "newFundingGateManager gk = Inr m \<Longrightarrow> ledger_reachable l \<Longrightarrow> funding_reachable (m, l)"
| "funding_reachable s \<Longrightarrow> funding_step s s' \<Longrightarrow> funding_reachable s'"

lemma store_request_wf:
  assumes "funding_wf m" and "\<And>x. r = Inr x \<Longrightarrow> fr_id x = i \<and> gates_ok (fm_gatekeepers m) x"
  shows "funding_wf (snd (store_request m i r))"
  using assms by (cases r) (auto simp: store_request_def funding_wf_def)

lemma getRequest_Inr [result_simps]: "getRequest m i = Inr r \<longleftrightarrow> jm_get (fm_requests m) i = Some r"
  by (simp add: getRequest_def split: option.splits)

lemma submitRequest_wf: "funding_wf m \<Longrightarrow> funding_wf (snd (submitRequest m i d a who now))"
  by (auto simp: submitRequest_def funding_wf_def Let_def) (simp_all add: gates_ok_def)

lemma approveGate_wf:
  assumes wf: "funding_wf m" shows "funding_wf (snd (approveGate m i who why now))"
  unfolding approveGate_def
proof (rule store_request_wf[OF wf])
  fix x
  let ?gk = "fm_gatekeepers m"
  let ?g = "\<lparr>fg_approvedBy = who, fg_reason = why, fg_approvedAt = now\<rparr>"
  assume "bind_r (getRequest m i) (\<lambda>request.
      bind_r (throw_when (\<not> isGatekeeper m who) (FundingError F_NOT_GATEKEEPER)) (\<lambda>_.
      bind_r (throw_when (who = fr_requestedBy request) (FundingError F_REQUESTER_CANNOT_APPROVE)) (\<lambda>_.
      bind_r (throw_when (fr_status request \<noteq> FS_pending \<and> fr_status request \<noteq> FS_gate1_approved)
                (FundingError F_INVALID_TRANSITION)) (\<lambda>_.
        let gate = ?g in if fr_status request = FS_pending
           then Inr (request\<lparr>fr_status := FS_gate1_approved, fr_gate1 := Some gate\<rparr>)
           else bind_r (throw_when (map_option fg_approvedBy (fr_gate1 request) = Some who)
                          (FundingError F_ALREADY_APPROVED)) (\<lambda>_.
                  Inr (request\<lparr>fr_status := FS_approved, fr_gate2 := Some gate\<rparr>)))))) = Inr x"
  then obtain r where r: "jm_get (fm_requests m) i = Some r" "isGatekeeper m who" "who \<noteq> fr_requestedBy r"
    and cases: "(fr_status r = FS_pending \<and> x = r\<lparr>fr_status := FS_gate1_approved, fr_gate1 := Some ?g\<rparr>) \<or>
      (fr_status r = FS_gate1_approved \<and> map_option fg_approvedBy (fr_gate1 r) \<noteq> Some who \<and>
       x = r\<lparr>fr_status := FS_approved, fr_gate2 := Some ?g\<rparr>)"
    by (auto simp: bind_r_eq_Inr throw_when_Inr getRequest_Inr Let_def split: if_splits)
  have g: "fr_id r = i" "gates_ok ?gk r" "fst ?gk \<noteq> snd ?gk" using wf r(1) by (simp_all add: funding_wf_def)
  from cases show "fr_id x = i \<and> gates_ok ?gk x"
  proof (elim disjE conjE)
    assume st: "fr_status r = FS_pending"
      and x: "x = r\<lparr>fr_status := FS_gate1_approved, fr_gate1 := Some ?g\<rparr>"
    have "fr_gate2 r = None" using g(2) st by (simp add: gates_ok_def)
    moreover have "approver_ok ?gk x ?g" using r(2,3) unfolding x by (auto simp: isGatekeeper_def approver_ok_def)
    ultimately show ?thesis using g(1) unfolding x by (simp add: gates_ok_def)
  next
    assume st: "fr_status r = FS_gate1_approved" and ne: "map_option fg_approvedBy (fr_gate1 r) \<noteq> Some who"
      and x: "x = r\<lparr>fr_status := FS_approved, fr_gate2 := Some ?g\<rparr>"
    from st g(2) obtain g1 where g1: "fr_gate1 r = Some g1" "approver_ok ?gk r g1"
      by (auto simp: gates_ok_def)
    have "approver_ok ?gk x ?g" "approver_ok ?gk x g1"
      using r(2,3) g1(2) unfolding x by (auto simp: isGatekeeper_def approver_ok_def)
    moreover have "fg_approvedBy g1 \<noteq> who" using ne g1(1) by simp
    ultimately have "both_gates ?gk x" using g1(1) unfolding x both_gates_def by simp
    moreover have "fr_status x = FS_approved" "fr_id x = i" using g(1) unfolding x by simp_all
    ultimately show ?thesis unfolding gates_ok_def by simp
  qed
qed

lemma rejectRequest_wf:
  assumes wf: "funding_wf m" shows "funding_wf (snd (rejectRequest m i who why now))"
  unfolding rejectRequest_def
proof (rule store_request_wf[OF wf])
  fix x
  let ?g = "\<lparr>fg_approvedBy = who, fg_reason = why, fg_approvedAt = now\<rparr>"
  assume "bind_r (getRequest m i) (\<lambda>request.
      bind_r (throw_when (\<not> isGatekeeper m who) (FundingError F_NOT_GATEKEEPER)) (\<lambda>_.
      bind_r (throw_when (fr_status request = FS_rejected \<or> fr_status request = FS_executed \<or>
                fr_status request = FS_failed) (FundingError F_INVALID_TRANSITION)) (\<lambda>_.
        let gate = ?g in Inr (if fr_gate1 request \<noteq> None
                then request\<lparr>fr_status := FS_rejected, fr_gate2 := Some gate\<rparr>
                else request\<lparr>fr_status := FS_rejected, fr_gate1 := Some gate\<rparr>)))) = Inr x"
  then obtain r where r: "jm_get (fm_requests m) i = Some r"
    and "x = r\<lparr>fr_status := FS_rejected, fr_gate2 := Some ?g\<rparr> \<or>
         x = r\<lparr>fr_status := FS_rejected, fr_gate1 := Some ?g\<rparr>"
    unfolding bind_r_eq_Inr throw_when_Inr getRequest_Inr Let_def by (auto split: if_splits)
  then have "fr_id x = fr_id r" "fr_status x = FS_rejected" by auto
  moreover have "fr_id r = i" using wf r unfolding funding_wf_def by blast
  ultimately show "fr_id x = i \<and> gates_ok (fm_gatekeepers m) x" by (simp add: gates_ok_def)
qed

lemma executeRequest_cases:
  assumes "executeRequest m l i now = (r, m', l')"
  obtains (refused) err where "r = Inl err" "m' = m" "l' = l"
      "\<And>x. jm_get (fm_requests m) i = Some x \<Longrightarrow> fr_status x \<noteq> FS_approved"
  | (posted) x res where "jm_get (fm_requests m) i = Some x" "fr_status x = FS_approved"
      "append (ensure_account (ensure_account l treasury_account now) (funding_account x) now)
         (funding_entries x now) (Some (''Funding: '' @ fr_description x)) = (res, l')"
      "(\<exists>err. res = Inl err \<and> r = Inl err \<and> m' = m) \<or>
       (\<exists>a. res = Inr a \<and> r = Inr (x\<lparr>fr_status := FS_executed, fr_executedAt := Some now\<rparr>) \<and>
          m' = m\<lparr>fm_requests := jm_set (fm_requests m) i
                  (x\<lparr>fr_status := FS_executed, fr_executedAt := Some now\<rparr>)\<rparr>)"
proof (cases "jm_get (fm_requests m) i")
  case None
  then have "r = Inl (FundingError F_REQUEST_NOT_FOUND)" "m' = m" "l' = l"
    using assms by (auto simp: executeRequest_def getRequest_def)
  then show ?thesis using refused None by simp
next
  case (Some x)
  show ?thesis
  proof (cases "fr_status x = FS_approved")
    case True
    let ?l = "ensure_account (ensure_account l treasury_account now) (funding_account x) now"
    obtain res l3 where a: "append ?l (funding_entries x now) (Some (''Funding: '' @ fr_description x)) = (res, l3)"
      by fastforce
    show ?thesis using assms Some True a posted[of x res]
      by (cases res) (auto simp: executeRequest_def getRequest_def Let_def)
  next
    case False
    then have "r = Inl (FundingError F_INVALID_TRANSITION)" "m' = m" "l' = l"
      using assms Some by (auto simp: executeRequest_def getRequest_def)
    then show ?thesis using refused Some False by simp
  qed
qed


subsection \<open>What an execution writes\<close>

abbreviation funding_ledger :: "ledger \<Rightarrow> funding_request \<Rightarrow> string \<Rightarrow> ledger" where
  "funding_ledger l r now \<equiv>
     foldl (\<lambda>l ref. ensure_account l ref now) l [treasury_account, funding_account r]"

lemma funding_entries_pairs:
  "funding_entries r now = pairs_of (''funding:'' @ fr_id r) now
     [(''funding:'' @ fr_id r, ar_id (funding_account r), ar_id treasury_account, fr_amount r)]"
  by (simp add: funding_entries_def Let_def)

lemma funding_ledger_rest:
  "ld_entries (funding_ledger l r now) = ld_entries l" "ld_entryIds (funding_ledger l r now) = ld_entryIds l"
  "ledger_reachable l \<Longrightarrow> ledger_reachable (funding_ledger l r now)"
  "hasAccount (funding_ledger l r now) (ar_id (funding_account r))"
  "hasAccount (funding_ledger l r now) (ar_id treasury_account)"
  using lp.ensures(1)[of now l "[treasury_account, funding_account r]"]
    lp.ensures(2)[of now l "[treasury_account, funding_account r]"]
    lp.ensures(3)[of now l "[treasury_account, funding_account r]"]
    lp.ensures(4)[of l now "[treasury_account, funding_account r]"]
  by simp_all

lemma executeRequest_effect:
  assumes "executeRequest m l i now = (r, m', l')"
  shows "(\<exists>x. r = Inr (x\<lparr>fr_status := FS_executed, fr_executedAt := Some now\<rparr>) \<and>
       jm_get (fm_requests m) i = Some x \<and> fr_status x = FS_approved \<and>
       m' = m\<lparr>fm_requests := jm_set (fm_requests m) i (x\<lparr>fr_status := FS_executed, fr_executedAt := Some now\<rparr>)\<rparr> \<and>
       ld_entries l' = ld_entries l @ funding_entries x now) \<or>
    ((\<exists>err. r = Inl err) \<and> m' = m \<and> ld_entries l' = ld_entries l)"
  using assms
proof (cases rule: executeRequest_cases)
  case refused
  then show ?thesis by blast
next
  case (posted x res)
  have a: "append (funding_ledger l x now) (funding_entries x now) (Some (''Funding: '' @ fr_description x)) = (res, l')"
    using posted(3) by simp
  show ?thesis
  proof (cases res)
    case (Inl err)
    then have "l' = funding_ledger l x now" using a lp.post_failure by blast
    then have "ld_entries l' = ld_entries l" by (simp only: funding_ledger_rest(1))
    then show ?thesis using posted(4) Inl by blast
  next
    case (Inr b)
    then have "ld_entries l' = ld_entries (funding_ledger l x now) @ funding_entries x now"
      using a lp.post_success by blast
    then have "ld_entries l' = ld_entries l @ funding_entries x now"
      unfolding funding_ledger_rest(1) .
    then show ?thesis using posted(1,2,4) Inr by blast
  qed
qed

lemma executeRequest_ledger:
  assumes "ledger_reachable l" shows "ledger_reachable (snd (snd (executeRequest m l i now)))"
proof -
  obtain r m' l' where e: "executeRequest m l i now = (r, m', l')" by (metis prod.collapse)
  from e have "ledger_reachable l'"
  proof (rule executeRequest_cases)
    assume "l' = l"
    then show ?thesis using assms by (simp only:)
  next
    fix x res
    assume a: "append (ensure_account (ensure_account l treasury_account now) (funding_account x) now)
         (funding_entries x now) (Some (''Funding: '' @ fr_description x)) = (res, l')"
    have "ledger_reachable (funding_ledger l x now)" using assms by (rule funding_ledger_rest(3))
    from append_reachable[OF this, of "funding_entries x now" "Some (''Funding: '' @ fr_description x)"]
    show ?thesis unfolding foldl_Cons foldl_Nil a snd_conv .
  qed
  then show ?thesis unfolding e snd_conv .
qed

text \<open>Every executed request has its two entries in the ledger.\<close>

definition executions_recorded :: "funding_manager \<times> ledger \<Rightarrow> bool" where
  "executions_recorded s \<longleftrightarrow>
     (\<forall>i r. jm_get (fm_requests (fst s)) i = Some r \<and> fr_status r = FS_executed \<longrightarrow>
        (\<exists>now. set (funding_entries r now) \<subseteq> set (ld_entries (snd s))))"

lemma executions_recorded_mono:
  assumes "executions_recorded (m, l)" "set (ld_entries l) \<subseteq> set (ld_entries l')"
    and "\<And>i r. jm_get (fm_requests m') i = Some r \<Longrightarrow> fr_status r = FS_executed \<Longrightarrow>
      jm_get (fm_requests m) i = Some r"
  shows "executions_recorded (m', l')"
  using assms unfolding executions_recorded_def fst_conv snd_conv by (meson order_trans)

lemma store_request_executed:
  assumes "\<And>x. r = Inr x \<Longrightarrow> fr_status x \<noteq> FS_executed"
    and "jm_get (fm_requests (snd (store_request m i r))) j = Some y" "fr_status y = FS_executed"
  shows "jm_get (fm_requests m) j = Some y"
  using assms by (cases r) (auto simp: store_request_def split: if_splits)

lemma gate_ops_executed:
  "jm_get (fm_requests (snd (submitRequest m i d a who now))) j = Some y \<Longrightarrow> fr_status y = FS_executed \<Longrightarrow>
     jm_get (fm_requests m) j = Some y"
  "jm_get (fm_requests (snd (approveGate m i who why now))) j = Some y \<Longrightarrow> fr_status y = FS_executed \<Longrightarrow>
     jm_get (fm_requests m) j = Some y"
  "jm_get (fm_requests (snd (rejectRequest m i who why now))) j = Some y \<Longrightarrow> fr_status y = FS_executed \<Longrightarrow>
     jm_get (fm_requests m) j = Some y"
proof -
  show "jm_get (fm_requests (snd (submitRequest m i d a who now))) j = Some y \<Longrightarrow> fr_status y = FS_executed \<Longrightarrow>
     jm_get (fm_requests m) j = Some y"
    by (auto simp: submitRequest_def Let_def split: if_splits)
  show "jm_get (fm_requests (snd (approveGate m i who why now))) j = Some y \<Longrightarrow> fr_status y = FS_executed \<Longrightarrow>
     jm_get (fm_requests m) j = Some y"
    unfolding approveGate_def
    by (erule store_request_executed[rotated], assumption)
      (auto simp: bind_r_eq_Inr Let_def split: if_splits)
  show "jm_get (fm_requests (snd (rejectRequest m i who why now))) j = Some y \<Longrightarrow> fr_status y = FS_executed \<Longrightarrow>
     jm_get (fm_requests m) j = Some y"
    unfolding rejectRequest_def
    by (erule store_request_executed[rotated], assumption)
      (auto simp: bind_r_eq_Inr Let_def split: if_splits)
qed

definition funding_inv :: "funding_manager \<times> ledger \<Rightarrow> bool" where
  "funding_inv s \<longleftrightarrow> funding_wf (fst s) \<and> ledger_reachable (snd s) \<and> executions_recorded s"

lemma funding_inv_execute:
  assumes inv: "funding_inv (m, l)" shows "funding_inv (snd (executeRequest m l i now))"
proof -
  obtain r m' l' where e: "executeRequest m l i now = (r, m', l')" by (metis prod.collapse)
  have wf: "funding_wf m" and rec: "executions_recorded (m, l)" and lr: "ledger_reachable l"
    using inv by (simp_all add: funding_inv_def)
  have l': "ledger_reachable l'" using executeRequest_ledger[OF lr, of m i now] e by simp
  from executeRequest_effect[OF e] show ?thesis
  proof (elim disjE exE conjE)
    fix x :: funding_request
    let ?x = "x\<lparr>fr_status := FS_executed, fr_executedAt := Some now\<rparr>"
    assume x: "jm_get (fm_requests m) i = Some x" "fr_status x = FS_approved"
      and m': "m' = m\<lparr>fm_requests := jm_set (fm_requests m) i ?x\<rparr>"
      and j: "ld_entries l' = ld_entries l @ funding_entries x now"
    have "fr_id x = i \<and> gates_ok (fm_gatekeepers m) x" using wf x(1) unfolding funding_wf_def by blast
    then have g: "fr_id x = i" "both_gates (fm_gatekeepers m) x"
      using x(2) by (simp_all add: gates_ok_def)
    then have "gates_ok (fm_gatekeepers m) ?x"
      by (simp add: gates_ok_def both_gates_def approver_ok_def)
    with wf g(1) have wf': "funding_wf m'" unfolding m' by (auto simp: funding_wf_def)
    have fe: "funding_entries ?x t = funding_entries x t" for t
      by (simp add: funding_entries_def funding_account_def Let_def)
    have "executions_recorded (m', l')"
    proof (unfold executions_recorded_def fst_conv snd_conv, intro allI impI, elim conjE)
      fix k y
      assume y: "jm_get (fm_requests m') k = Some y" "fr_status y = FS_executed"
      show "\<exists>now. set (funding_entries y now) \<subseteq> set (ld_entries l')"
      proof (cases "k = i")
        case True
        then have "y = ?x" using y(1) by (simp add: m')
        then have "set (funding_entries y now) \<subseteq> set (ld_entries l')" using fe[of now] j by simp
        then show ?thesis by (rule exI)
      next
        case False
        then have "jm_get (fm_requests m) k = Some y" using y(1) by (simp add: m')
        then show ?thesis using rec y(2) j unfolding executions_recorded_def by fastforce
      qed
    qed
    with wf' l' show ?thesis by (simp add: funding_inv_def e)
  next
    fix err
    assume "m' = m" "ld_entries l' = ld_entries l"
    then show ?thesis using wf rec l' by (simp add: funding_inv_def e executions_recorded_def)
  qed
qed

lemma funding_inv_manager:
  assumes "funding_inv (m, l)" "funding_wf m'"
    and "\<And>i r. jm_get (fm_requests m') i = Some r \<Longrightarrow> fr_status r = FS_executed \<Longrightarrow>
      jm_get (fm_requests m) i = Some r"
  shows "funding_inv (m', l)"
  using assms(1,2) executions_recorded_mono[OF _ order_refl assms(3)]
  unfolding funding_inv_def fst_conv snd_conv by blast

lemma funding_inv_ledger:
  assumes "funding_inv (m, l)" "ledger_step l l'" shows "funding_inv (m, l')"
proof -
  obtain es where "ld_entries l' = ld_entries l @ es" using ledger_step_extends[OF assms(2)] by blast
  then have "set (ld_entries l) \<subseteq> set (ld_entries l')" by simp
  then have "executions_recorded (m, l')"
    using assms(1) executions_recorded_mono[of m l l' m] unfolding funding_inv_def by blast
  moreover have "ledger_reachable l'" using assms by (auto simp: funding_inv_def intro: reach_step)
  ultimately show ?thesis using assms(1) by (simp add: funding_inv_def)
qed

lemma funding_inv_step:
  assumes "funding_step s s'" "funding_inv s" shows "funding_inv s'"
  using assms
proof cases
  case (1 m l i d a who now)
  have inv: "funding_inv (m, l)" using assms(2) unfolding 1(1) .
  then have "funding_wf m" by (simp add: funding_inv_def)
  from funding_inv_manager[OF inv submitRequest_wf[OF this] gate_ops_executed(1)]
  show ?thesis unfolding 1(2) .
next
  case (2 m l i who why now)
  have inv: "funding_inv (m, l)" using assms(2) unfolding 2(1) .
  then have "funding_wf m" by (simp add: funding_inv_def)
  from funding_inv_manager[OF inv approveGate_wf[OF this] gate_ops_executed(2)]
  show ?thesis unfolding 2(2) .
next
  case (3 m l i who why now)
  have inv: "funding_inv (m, l)" using assms(2) unfolding 3(1) .
  then have "funding_wf m" by (simp add: funding_inv_def)
  from funding_inv_manager[OF inv rejectRequest_wf[OF this] gate_ops_executed(3)]
  show ?thesis unfolding 3(2) .
next
  case (4 m l i now)
  then show ?thesis using assms(2) funding_inv_execute by simp
next
  case (5 l l' m)
  then show ?thesis using assms(2) funding_inv_ledger by simp
qed

lemma funding_reachable_inv: "funding_reachable s \<Longrightarrow> funding_inv s"
proof (induction rule: funding_reachable.induct)
  case (1 gk m l)
  then show ?case
    by (auto simp: newFundingGateManager_def funding_inv_def funding_wf_def executions_recorded_def
        split: if_splits)
next
  case (2 s s')
  then show ?case by (blast intro: funding_inv_step)
qed


subsection \<open>Properties\<close>

text \<open>C15: Dual control with separation of duties: in every state that submissions, approvals,
  rejections and executions can reach from a fresh manager, a request that is approved or executed
  carries two approvals by the two different gatekeepers, and neither approver is the requester.\<close>

theorem funding_dual_control:
  assumes "funding_reachable (m, l)" and "getRequest m i = Inr r"
    and "fr_status r = FS_approved \<or> fr_status r = FS_executed"
  shows "\<exists>g1 g2. fr_gate1 r = Some g1 \<and> fr_gate2 r = Some g2 \<and>
    {fg_approvedBy g1, fg_approvedBy g2} = {fst (fm_gatekeepers m), snd (fm_gatekeepers m)} \<and>
    fg_approvedBy g1 \<noteq> fg_approvedBy g2 \<and>
    fg_approvedBy g1 \<noteq> fr_requestedBy r \<and> fg_approvedBy g2 \<noteq> fr_requestedBy r"
proof -
  have "funding_wf m" using funding_reachable_inv[OF assms(1)] by (simp add: funding_inv_def)
  then have "gates_ok (fm_gatekeepers m) r" using assms(2) unfolding funding_wf_def getRequest_Inr by blast
  then have "both_gates (fm_gatekeepers m) r" using assms(3) by (auto simp: gates_ok_def)
  then obtain g1 g2 where g: "fr_gate1 r = Some g1" "fr_gate2 r = Some g2"
    "approver_ok (fm_gatekeepers m) r g1" "approver_ok (fm_gatekeepers m) r g2"
    "fg_approvedBy g1 \<noteq> fg_approvedBy g2"
    unfolding both_gates_def by blast
  then have "{fg_approvedBy g1, fg_approvedBy g2} = {fst (fm_gatekeepers m), snd (fm_gatekeepers m)}"
    unfolding approver_ok_def by auto
  with g show ?thesis unfolding approver_ok_def by blast
qed

text \<open>A request raised by one of the two gatekeepers is accepted but can never be approved or
  executed: its requester may not approve it, and one approval is missing without them.\<close>

theorem gatekeeper_request_never_approved:
  assumes "funding_reachable (m, l)" and "getRequest m i = Inr r" and "isGatekeeper m (fr_requestedBy r)"
  shows "fr_status r \<noteq> FS_approved \<and> fr_status r \<noteq> FS_executed"
proof -
  have "funding_wf m" using funding_reachable_inv[OF assms(1)] by (simp add: funding_inv_def)
  then have g: "gates_ok (fm_gatekeepers m) r" using assms(2) unfolding funding_wf_def getRequest_Inr by blast
  have "\<not> both_gates (fm_gatekeepers m) r"
    using assms(3) unfolding both_gates_def approver_ok_def isGatekeeper_def by auto
  with g show ?thesis by (auto simp: gates_ok_def)
qed

text \<open>\<^verbatim>\<open>executeRequest\<close> either pays an approved request exactly once, appending one debit and
  one credit of the requested amount and marking it executed, or fails with the manager and the
  ledger's entries unchanged; executing an executed request is refused.\<close>

theorem execute_request_effect:
  "case executeRequest m l i now of
     (Inr x, m', l') \<Rightarrow>
       (\<exists>r. getRequest m i = Inr r \<and> fr_status r = FS_approved \<and> fr_amount x = fr_amount r \<and>
          ld_entries l' = ld_entries l @ funding_entries r now) \<and>
       getRequest m' i = Inr x \<and> fr_status x = FS_executed \<and>
       executeRequest m' l' i now' = (Inl (FundingError F_INVALID_TRANSITION), m', l')
   | (Inl err, m', l') \<Rightarrow> m' = m \<and> ld_entries l' = ld_entries l"
proof -
  obtain r m' l' where e: "executeRequest m l i now = (r, m', l')" by (metis prod.collapse)
  from executeRequest_effect[OF e] show ?thesis
  proof (elim disjE exE conjE)
    fix x :: funding_request
    let ?x = "x\<lparr>fr_status := FS_executed, fr_executedAt := Some now\<rparr>"
    assume h: "r = Inr ?x" "jm_get (fm_requests m) i = Some x" "fr_status x = FS_approved"
      "m' = m\<lparr>fm_requests := jm_set (fm_requests m) i ?x\<rparr>" "ld_entries l' = ld_entries l @ funding_entries x now"
    have g': "getRequest m' i = Inr ?x" unfolding h(4) by (simp add: getRequest_Inr)
    have "executeRequest m' l' i now' = (Inl (FundingError F_INVALID_TRANSITION), m', l')"
      unfolding executeRequest_def g' by simp
    moreover have "getRequest m i = Inr x" using h(2) by (simp add: getRequest_Inr)
    ultimately show ?thesis using h(1,3,5) g' e by auto
  next
    fix err
    assume h: "r = Inl err" "m' = m" "ld_entries l' = ld_entries l"
    show ?thesis unfolding e h(1) using h(2,3) by simp
  qed
qed

text \<open>An approved request of a valid positive amount whose two entry ids are not yet in the
  ledger is executed, whatever accounts the ledger has.\<close>

theorem approved_request_executes:
  assumes "getRequest m i = Inr r" "fr_status r = FS_approved" and "positive_money (fr_amount r)"
    and "ld_entryIds l \<inter> {''funding:'' @ fr_id r @ '':debit'', ''funding:'' @ fr_id r @ '':credit''} = {}"
  shows "\<exists>x m' l'. executeRequest m l i now = (Inr x, m', l') \<and> fr_status x = FS_executed"
proof -
  let ?l = "funding_ledger l r now"
  let ?ps = "[(''funding:'' @ fr_id r, ar_id (funding_account r), ar_id treasury_account, fr_amount r)]"
  have "\<exists>res l'. append ?l (pairs_of (''funding:'' @ fr_id r) now ?ps) (Some (''Funding: '' @ fr_description r)) = (Inr res, l')
      \<and> ld_entries l' = ld_entries ?l @ pairs_of (''funding:'' @ fr_id r) now ?ps"
  proof (rule lp.post_pairs)
    have "le_id ` set (pairs_of (''funding:'' @ fr_id r) now ?ps) =
        {''funding:'' @ fr_id r @ '':debit'', ''funding:'' @ fr_id r @ '':credit''}"
      by (simp add: debit_credit_pair_def)
    then show "ld_entryIds ?l \<inter> le_id ` set (pairs_of (''funding:'' @ fr_id r) now ?ps) = {}"
      using assms(4) unfolding funding_ledger_rest(2) by (simp only:)
    show "\<forall>(i, d, k, m) \<in> set ?ps. hasAccount ?l d \<and> hasAccount ?l k \<and> positive_money m"
      using funding_ledger_rest(4,5) assms(3) by simp
  qed simp_all
  then obtain res l' where "append ?l (funding_entries r now) (Some (''Funding: '' @ fr_description r)) = (Inr res, l')"
    unfolding funding_entries_pairs by blast
  then show ?thesis unfolding executeRequest_def assms(1) by (simp add: assms(2) Let_def)
qed

text \<open>In every reachable state, the ledger holds the debit and the credit of every executed
  request, each id once: what the manager reports as executed is in the books, and only once.\<close>

theorem executed_requests_are_booked:
  assumes "funding_reachable (m, l)" and "getRequest m i = Inr r" "fr_status r = FS_executed"
  shows "(\<exists>now. set (funding_entries r now) \<subseteq> set (ld_entries l)) \<and>
    distinct (map le_id (ld_entries l)) \<and> double_entry (ld_entries l)"
proof -
  have inv: "funding_inv (m, l)" by (rule funding_reachable_inv[OF assms(1)])
  then have "ledger_wf l" using ledger_reachable_wf by (simp add: funding_inv_def)
  then have "distinct (map le_id (ld_entries l))" "double_entry (ld_entries l)"
    using ledger_wf_double_entry by (simp_all add: ledger_wf_def)
  moreover have "\<exists>now. set (funding_entries r now) \<subseteq> set (ld_entries l)"
    using inv assms(2,3) unfolding funding_inv_def executions_recorded_def fst_conv snd_conv getRequest_Inr
    by blast
  ultimately show ?thesis by blast
qed

subsection \<open>Witnesses\<close>

definition sample_funding :: funding_manager where
  "sample_funding =
    (let m = projr (newFundingGateManager (''a'', ''b''));
         m = snd (submitRequest m ''r'' ''d'' \<lparr>m_amount = ''5'', m_currency = ''U'', m_decimals = 0\<rparr> ''c'' ''t'');
         m = snd (submitRequest m ''s'' ''d'' \<lparr>m_amount = ''5'', m_currency = ''U'', m_decimals = 0\<rparr> ''a'' ''t'');
         m = snd (approveGate m ''r'' ''a'' None ''t'')
     in snd (approveGate m ''r'' ''b'' None ''t''))"

definition sample_request :: funding_request where
  "sample_request = \<lparr>fr_id = ''r'', fr_description = ''d'',
     fr_amount = \<lparr>m_amount = ''5'', m_currency = ''U'', m_decimals = 0\<rparr>, fr_requestedBy = ''c'',
     fr_status = FS_approved,
     fr_gate1 = Some \<lparr>fg_approvedBy = ''a'', fg_reason = None, fg_approvedAt = ''t''\<rparr>,
     fr_gate2 = Some \<lparr>fg_approvedBy = ''b'', fg_reason = None, fg_approvedAt = ''t''\<rparr>,
     fr_createdAt = ''t'', fr_executedAt = None\<rparr>"

lemma sample_funding_reachable: "funding_reachable (sample_funding, new_ledger)"
proof -
  have 0: "funding_reachable (projr (newFundingGateManager (''a'', ''b'')), new_ledger)"
    by (rule funding_reachable.intros(1)[of "(''a'', ''b'')"])
      (simp add: newFundingGateManager_def, rule reach_new)
  show ?thesis unfolding sample_funding_def Let_def
    by (rule funding_reachable.intros(2)[OF _ funding_step.intros(2)],
        rule funding_reachable.intros(2)[OF _ funding_step.intros(2)],
        rule funding_reachable.intros(2)[OF _ funding_step.intros(1)],
        rule funding_reachable.intros(2)[OF _ funding_step.intros(1)], rule 0)
qed

lemma sample_funding_request: "getRequest sample_funding ''r'' = Inr sample_request"
  by code_simp

theorem funding_dual_control_witness:
  "\<exists>g1 g2. fr_gate1 sample_request = Some g1 \<and> fr_gate2 sample_request = Some g2 \<and>
     fg_approvedBy g1 \<noteq> fg_approvedBy g2"
  using funding_dual_control[OF sample_funding_reachable sample_funding_request]
  by (simp add: sample_request_def)

theorem gatekeeper_request_never_approved_witness:
  "\<exists>r. getRequest sample_funding ''s'' = Inr r \<and> isGatekeeper sample_funding (fr_requestedBy r) \<and>
     fr_status r \<noteq> FS_approved \<and> fr_status r \<noteq> FS_executed"
proof -
  let ?r = "\<lparr>fr_id = ''s'', fr_description = ''d'',
     fr_amount = \<lparr>m_amount = ''5'', m_currency = ''U'', m_decimals = 0\<rparr>, fr_requestedBy = ''a'',
     fr_status = FS_pending, fr_gate1 = None, fr_gate2 = None, fr_createdAt = ''t'', fr_executedAt = None\<rparr>"
  have 1: "getRequest sample_funding ''s'' = Inr ?r" by code_simp
  have 2: "isGatekeeper sample_funding (fr_requestedBy ?r)" by code_simp
  from gatekeeper_request_never_approved[OF sample_funding_reachable 1 2] 1 2 show ?thesis by blast
qed

theorem approved_request_executes_witness:
  "\<exists>x m' l'. executeRequest sample_funding new_ledger ''r'' ''t'' = (Inr x, m', l') \<and> fr_status x = FS_executed"
proof (rule approved_request_executes[OF sample_funding_request])
  show "fr_status sample_request = FS_approved" by (simp add: sample_request_def)
  show "positive_money (fr_amount sample_request)" by code_simp
qed (simp add: new_ledger_def)

theorem executed_requests_are_booked_witness:
  "\<exists>r m (l :: ledger). getRequest m ''r'' = Inr r \<and> fr_status r = FS_executed \<and>
     (\<exists>now. set (funding_entries r now) \<subseteq> set (ld_entries l))"
proof -
  let ?s = "snd (executeRequest sample_funding new_ledger ''r'' ''t'')"
  have s: "funding_reachable (fst ?s, snd ?s)"
    using funding_reachable.intros(2)[OF sample_funding_reachable funding_step.intros(4)] by simp
  let ?r = "sample_request\<lparr>fr_status := FS_executed, fr_executedAt := Some ''t''\<rparr>"
  have g: "getRequest (fst ?s) ''r'' = Inr ?r" by code_simp
  have "fr_status ?r = FS_executed" by simp
  from executed_requests_are_booked[OF s g this] g this show ?thesis by blast
qed

end
