(* ===== verification/Treasury.thy ===== *)
theory Treasury
  imports Payroll Distribution Funding
begin

section \<open>The treasury\<close>

text \<open>
  Model of \<^verbatim>\<open>packages/treasury/src/treasury.ts\<close>: the coordinator that owns a ledger, a
  payroll engine, a distribution engine and a funding gate manager, and whose methods pass their
  arguments on to them. Methods that change state return their result and the new treasury.
  \<open>getLedger\<close> hands out the ledger itself, so its caller may register accounts and append entries;
  the relation \<open>treasury_reachable\<close> keeps the entries written that way apart.

  The lemmas show that the ledger of a treasury contains exactly the entries of its executed
  runs, plans and requests (and the foreign ones), and what a snapshot restores.
\<close>

record treasury_config =
  tc_orgId :: string
  tc_name :: string
  tc_defaultCurrency :: string
  tc_defaultDecimals :: int
  tc_gatekeepers :: "string \<times> string"

record treasury_snapshot =
  ts_version :: int
  ts_config :: treasury_config
  ts_payees :: "payee list"
  ts_payrollRuns :: "payroll_run list"
  ts_distributionPlans :: "plan list"
  ts_fundingRequests :: "funding_request list"
  ts_asOf :: string

record treasury =
  ty_config :: treasury_config
  ty_ledger :: ledger
  ty_payroll :: payroll_engine
  ty_distributions :: distribution_engine
  ty_funding :: funding_manager

definition CURRENT_TREASURY_SNAPSHOT_VERSION :: int where
  "CURRENT_TREASURY_SNAPSHOT_VERSION = 1"

definition new_treasury :: "treasury_config \<Rightarrow> treasury result" where
  "new_treasury c =
     bind_r (newFundingGateManager (tc_gatekeepers c)) (\<lambda>funding.
       Inr \<lparr>ty_config = c, ty_ledger = new_ledger,
            ty_payroll = new_payroll (tc_defaultCurrency c) (tc_defaultDecimals c),
            ty_distributions = new_distributions (tc_defaultCurrency c) (tc_defaultDecimals c),
            ty_funding = funding\<rparr>)"

subsection \<open>Payroll\<close>

definition on_payroll :: "treasury \<Rightarrow> 'a \<times> payroll_engine \<Rightarrow> 'a \<times> treasury" where
  "on_payroll t x = (fst x, t\<lparr>ty_payroll := snd x\<rparr>)"

definition ty_registerPayee ::
  "treasury \<Rightarrow> string \<Rightarrow> string \<Rightarrow> string \<Rightarrow> string option \<Rightarrow> string \<Rightarrow> payee result \<times> treasury" where
  "ty_registerPayee t i name address chainId now =
     on_payroll t (registerPayee (ty_payroll t) i name address chainId now)"

definition ty_setPaySchedule ::
  "treasury \<Rightarrow> string \<Rightarrow> pay_component list \<Rightarrow> schedule_entry result \<times> treasury" where
  "ty_setPaySchedule t payeeId components = on_payroll t (setSchedule (ty_payroll t) payeeId components)"

definition ty_createPayrollRun ::
  "treasury \<Rightarrow> string \<Rightarrow> pay_period \<Rightarrow> string \<Rightarrow> payroll_run result \<times> treasury" where
  "ty_createPayrollRun t i period now = on_payroll t (createRun (ty_payroll t) i period now)"

definition ty_approvePayrollRun :: "treasury \<Rightarrow> string \<Rightarrow> payroll_run result \<times> treasury" where
  "ty_approvePayrollRun t i = on_payroll t (approveRun (ty_payroll t) i)"

definition ty_executePayrollRun :: "treasury \<Rightarrow> string \<Rightarrow> string \<Rightarrow> payroll_run result \<times> treasury" where
  "ty_executePayrollRun t i now =
     (case executeRun (ty_payroll t) (ty_ledger t) i now of
        (r, p, l) \<Rightarrow> (r, t\<lparr>ty_payroll := p, ty_ledger := l\<rparr>))"

definition ty_getPayrollRun :: "treasury \<Rightarrow> string \<Rightarrow> payroll_run result" where
  "ty_getPayrollRun t i = getRun (ty_payroll t) i"

subsection \<open>Distributions\<close>

definition on_distributions :: "treasury \<Rightarrow> 'a \<times> distribution_engine \<Rightarrow> 'a \<times> treasury" where
  "on_distributions t x = (fst x, t\<lparr>ty_distributions := snd x\<rparr>)"

definition ty_createDistribution ::
  "treasury \<Rightarrow> string \<Rightarrow> string \<Rightarrow> strategy \<Rightarrow> money \<Rightarrow> recipient list \<Rightarrow> string \<Rightarrow> plan result \<times> treasury" where
  "ty_createDistribution t i name strategy pool recipients now =
     on_distributions t (createPlan (ty_distributions t) i name strategy pool recipients now)"

definition ty_approveDistribution :: "treasury \<Rightarrow> string \<Rightarrow> plan result \<times> treasury" where
  "ty_approveDistribution t i = on_distributions t (approvePlan (ty_distributions t) i)"

definition ty_computeDistribution :: "treasury \<Rightarrow> string \<Rightarrow> distribution_result result" where
  "ty_computeDistribution t i = computeDistribution (ty_distributions t) i"

definition ty_executeDistribution ::
  "treasury \<Rightarrow> string \<Rightarrow> string \<Rightarrow> distribution_result result \<times> treasury" where
  "ty_executeDistribution t i now =
     (case executeDistribution (ty_distributions t) (ty_ledger t) i now of
        (r, d, l) \<Rightarrow> (r, t\<lparr>ty_distributions := d, ty_ledger := l\<rparr>))"

subsection \<open>Funding\<close>

definition on_funding :: "treasury \<Rightarrow> 'a \<times> funding_manager \<Rightarrow> 'a \<times> treasury" where
  "on_funding t x = (fst x, t\<lparr>ty_funding := snd x\<rparr>)"

definition ty_submitFunding ::
  "treasury \<Rightarrow> string \<Rightarrow> string \<Rightarrow> money \<Rightarrow> string \<Rightarrow> string \<Rightarrow> funding_request result \<times> treasury" where
  "ty_submitFunding t i description amount requestedBy now =
     on_funding t (submitRequest (ty_funding t) i description amount requestedBy now)"

definition ty_approveFundingGate ::
  "treasury \<Rightarrow> string \<Rightarrow> string \<Rightarrow> string option \<Rightarrow> string \<Rightarrow> funding_request result \<times> treasury" where
  "ty_approveFundingGate t i approvedBy reason now =
     on_funding t (approveGate (ty_funding t) i approvedBy reason now)"

definition ty_rejectFunding ::
  "treasury \<Rightarrow> string \<Rightarrow> string \<Rightarrow> string option \<Rightarrow> string \<Rightarrow> funding_request result \<times> treasury" where
  "ty_rejectFunding t i rejectedBy reason now =
     on_funding t (rejectRequest (ty_funding t) i rejectedBy reason now)"

definition ty_executeFunding :: "treasury \<Rightarrow> string \<Rightarrow> string \<Rightarrow> funding_request result \<times> treasury" where
  "ty_executeFunding t i now =
     (case executeRequest (ty_funding t) (ty_ledger t) i now of
        (r, m, l) \<Rightarrow> (r, t\<lparr>ty_funding := m, ty_ledger := l\<rparr>))"

definition ty_getFundingRequest :: "treasury \<Rightarrow> string \<Rightarrow> funding_request result" where
  "ty_getFundingRequest t i = getRequest (ty_funding t) i"

subsection \<open>Snapshots\<close>

definition take_treasury_snapshot :: "treasury \<Rightarrow> string \<Rightarrow> treasury_snapshot" where
  "take_treasury_snapshot t now =
     \<lparr>ts_version = CURRENT_TREASURY_SNAPSHOT_VERSION, ts_config = ty_config t,
      ts_payees = exportPayees (ty_payroll t), ts_payrollRuns = exportRuns (ty_payroll t),
      ts_distributionPlans = exportPlans (ty_distributions t),
      ts_fundingRequests = exportRequests (ty_funding t), ts_asOf = now\<rparr>"

definition treasury_fromSnapshot :: "treasury_snapshot \<Rightarrow> treasury result" where
  "treasury_fromSnapshot snap =
     bind_r (throw_when (ts_version snap \<noteq> CURRENT_TREASURY_SNAPSHOT_VERSION)
               (TreasuryError T_UNSUPPORTED_SNAPSHOT_VERSION)) (\<lambda>_.
     bind_r (new_treasury (ts_config snap)) (\<lambda>t.
       case importPayees (ty_payroll t) (ts_payees snap) of (r1, p1) \<Rightarrow>
     bind_r r1 (\<lambda>_.
       case importRuns p1 (ts_payrollRuns snap) of (r2, p2) \<Rightarrow>
     bind_r r2 (\<lambda>_.
       case importPlans (ty_distributions t) (ts_distributionPlans snap) of (r3, d) \<Rightarrow>
     bind_r r3 (\<lambda>_.
       case importRequests (ty_funding t) (ts_fundingRequests snap) of (r4, f) \<Rightarrow>
     bind_r r4 (\<lambda>_.
       Inr (t\<lparr>ty_payroll := p2, ty_distributions := d, ty_funding := f\<rparr>)))))))"

subsection \<open>Reachable treasuries\<close>

inductive treasury_op :: "treasury \<Rightarrow> treasury \<Rightarrow> bool" where
  "treasury_op t (snd (ty_registerPayee t i name address chainId now))"
| "treasury_op t (snd (ty_setPaySchedule t i cs))"
| "treasury_op t (snd (ty_createPayrollRun t i period now))"
| "treasury_op t (snd (ty_approvePayrollRun t i))"
| "treasury_op t (snd (ty_executePayrollRun t i now))"
| "treasury_op t (snd (ty_createDistribution t i name st pool rs now))"
| "treasury_op t (snd (ty_approveDistribution t i))"
| "treasury_op t (snd (ty_executeDistribution t i now))"
| "treasury_op t (snd (ty_submitFunding t i description amount who now))"
| "treasury_op t (snd (ty_approveFundingGate t i who why now))"
| "treasury_op t (snd (ty_rejectFunding t i who why now))"
| "treasury_op t (snd (ty_executeFunding t i now))"

text \<open>The second argument collects the entries appended through the ledger that \<open>getLedger\<close>
  returns.\<close>

inductive treasury_reachable :: "treasury \<Rightarrow> ledger_entry set \<Rightarrow> bool" where
  treasury_new: "new_treasury c = Inr t \<Longrightarrow> treasury_reachable t {}"
| treasury_call: "treasury_reachable t F \<Longrightarrow> treasury_op t t' \<Longrightarrow> treasury_reachable t' F"
| treasury_foreign: "treasury_reachable t F \<Longrightarrow> ledger_step (ty_ledger t) l \<Longrightarrow>
    ld_entries l = ld_entries (ty_ledger t) @ es \<Longrightarrow>
    treasury_reachable (t\<lparr>ty_ledger := l\<rparr>) (F \<union> set es)"


inductive_cases treasury_opE: "treasury_op t t'"

subsection \<open>The books\<close>

text \<open>The entries of the items of a store that are done, each written at some time.\<close>

definition journal_of ::
  "('v \<Rightarrow> string \<Rightarrow> ledger_entry list) \<Rightarrow> ('v \<Rightarrow> bool) \<Rightarrow> (string, 'v) jsmap \<Rightarrow> (string \<Rightarrow> string) \<Rightarrow>
   ledger_entry set" where
  "journal_of batch finished m time =
     {e. \<exists>i v. jm_get m i = Some v \<and> finished v \<and> e \<in> set (batch v (time i))}"

definition plan_batch :: "distribution_engine \<Rightarrow> plan \<Rightarrow> string \<Rightarrow> ledger_entry list" where
  "plan_batch d plan now =
     (case resolvePayouts d plan of
        Inl _ \<Rightarrow> []
      | Inr res \<Rightarrow> distribution_batch plan now (filter (\<lambda>p. money_value (po_amount p) \<noteq> 0) (ds_payouts res)))"

abbreviation run_done :: "payroll_run \<Rightarrow> bool" where
  "run_done run \<equiv> pr_status run = RunExecuted"

abbreviation plan_done :: "plan \<Rightarrow> bool" where
  "plan_done plan \<equiv> dp_status plan = PlanExecuted"

abbreviation request_done :: "funding_request \<Rightarrow> bool" where
  "request_done r \<equiv> fr_status r = FS_executed"

abbreviation payroll_journal :: "payroll_engine \<Rightarrow> (string \<Rightarrow> string) \<Rightarrow> ledger_entry set" where
  "payroll_journal p \<equiv> journal_of (\<lambda>run now. payroll_batch run now) run_done (pl_runs p)"

abbreviation distribution_journal :: "distribution_engine \<Rightarrow> (string \<Rightarrow> string) \<Rightarrow> ledger_entry set" where
  "distribution_journal d \<equiv> journal_of (plan_batch d) plan_done (de_plans d)"

abbreviation funding_journal :: "funding_manager \<Rightarrow> (string \<Rightarrow> string) \<Rightarrow> ledger_entry set" where
  "funding_journal m \<equiv> journal_of funding_entries request_done (fm_requests m)"

definition books :: "treasury \<Rightarrow> ledger_entry set \<Rightarrow> bool" where
  "books t F \<longleftrightarrow> (\<exists>w1 w2 w3. set (ld_entries (ty_ledger t)) =
     F \<union> payroll_journal (ty_payroll t) w1 \<union> distribution_journal (ty_distributions t) w2 \<union>
     funding_journal (ty_funding t) w3)"

lemma journal_of_idle:
  assumes "\<not> finished v" "\<And>old. jm_get m i = Some old \<Longrightarrow> \<not> finished old"
  shows "journal_of batch finished (jm_set m i v) w = journal_of batch finished m w"
  using assms unfolding journal_of_def by simp metis

lemma journal_of_old:
  "jm_get m i = Some old \<Longrightarrow> \<not> finished old \<Longrightarrow> \<not> finished v \<Longrightarrow>
   journal_of batch finished (jm_set m i v) w = journal_of batch finished m w"
  by (rule journal_of_idle) simp_all

lemma journal_of_new:
  "\<not> finished v \<Longrightarrow> jm_get m i = None \<Longrightarrow>
   journal_of batch finished (jm_set m i v) w = journal_of batch finished m w"
  by (rule journal_of_idle) simp_all

lemma journal_of_done:
  assumes "finished v" "\<And>old. jm_get m i = Some old \<Longrightarrow> \<not> finished old"
  shows "journal_of batch finished (jm_set m i v) (w(i := now)) = journal_of batch finished m w \<union> set (batch v now)"
  (is "?L = ?R")
proof (intro set_eqI iffI)
  fix e assume "e \<in> ?L"
  then show "e \<in> ?R" by (auto simp: journal_of_def split: if_splits)
next
  fix e assume "e \<in> ?R"
  then consider "e \<in> set (batch v now)"
    | j x where "jm_get m j = Some x" "finished x" "e \<in> set (batch x (w j))" by (auto simp: journal_of_def)
  then show "e \<in> ?L"
  proof cases
    case 1
    then have "jm_get (jm_set m i v) i = Some v \<and> finished v \<and> e \<in> set (batch v ((w(i := now)) i))"
      using assms(1) by simp
    then show ?thesis unfolding journal_of_def by blast
  next
    case 2
    then have "j \<noteq> i" using assms(2) by blast
    then have "jm_get (jm_set m i v) j = Some x \<and> finished x \<and> e \<in> set (batch x ((w(i := now)) j))"
      using 2 by simp
    then show ?thesis unfolding journal_of_def by blast
  qed
qed

lemma journal_of_empty: "journal_of batch finished [] w = {}"
  by (simp add: journal_of_def)

lemma payroll_batch_executed:
  "payroll_batch (run\<lparr>pr_status := st, pr_executedAt := x\<rparr>) now = payroll_batch run now"
proof -
  have "payroll_pair (run\<lparr>pr_status := st, pr_executedAt := x\<rparr>) now = payroll_pair run now"
    by (intro ext) (simp add: payroll_pair_def expense_account_def)
  then show ?thesis by simp
qed

lemma resolve_with_cong:
  assumes "de_currency d' = de_currency d" "de_decimals d' = de_decimals d"
  shows "resolvePayouts d' (plan\<lparr>dp_status := st, dp_executedAt := x\<rparr>) = resolvePayouts d plan"
proof -
  have "engine_amount d' = engine_amount d" using assms by (intro ext) (simp add: engine_amount_def)
  then have "fixedAmountOf d' = fixedAmountOf d" "share_amount d' = share_amount d"
    using assms(2) by (intro ext, simp add: fixedAmountOf_def share_amount_def split: option.split)+
  moreover have "distribution_zero d' = distribution_zero d" using assms by (simp add: distribution_zero_def)
  ultimately show ?thesis
    by (simp add: resolvePayouts_def resolveProportional_def resolveFixed_def resolveMilestone_def
        resolve_with_def eligible_def split: strategy.split)
qed

lemma plan_batch_cong:
  assumes "de_currency d' = de_currency d" "de_decimals d' = de_decimals d"
  shows "plan_batch d' (plan\<lparr>dp_status := st, dp_executedAt := x\<rparr>) now = plan_batch d plan now"
proof -
  have "distribution_pair (plan\<lparr>dp_status := st, dp_executedAt := x\<rparr>) now = distribution_pair plan now"
    by (intro ext) (simp add: distribution_pair_def pool_account_def)
  then show ?thesis unfolding plan_batch_def resolve_with_cong[OF assms] by (simp split: sum.split)
qed

lemma plan_batch_plans: "plan_batch (d\<lparr>de_plans := m\<rparr>) = plan_batch d"
proof (intro ext)
  fix plan :: plan and now
  have "plan = plan\<lparr>dp_status := dp_status plan, dp_executedAt := dp_executedAt plan\<rparr>" by simp
  then show "plan_batch (d\<lparr>de_plans := m\<rparr>) plan now = plan_batch d plan now"
    using plan_batch_cong[of "d\<lparr>de_plans := m\<rparr>" d "dp_executedAt plan" "dp_status plan" plan now] by simp
qed

subsection \<open>Steps that book nothing\<close>

lemma payroll_journal_idle:
  "payroll_journal (snd (registerPayee p i name address chainId now)) w = payroll_journal p w"
  "payroll_journal (snd (setSchedule p i cs)) w = payroll_journal p w"
  "payroll_journal (snd (createRun p i period now)) w = payroll_journal p w"
  "payroll_journal (snd (approveRun p i)) w = payroll_journal p w"
proof -
  show "payroll_journal (snd (registerPayee p i name address chainId now)) w = payroll_journal p w"
    by (simp add: registerPayee_def Let_def)
  show "payroll_journal (snd (setSchedule p i cs)) w = payroll_journal p w"
    by (simp add: setSchedule_def Let_def split: sum.splits)
  show "payroll_journal (snd (createRun p i period now)) w = payroll_journal p w"
    by (cases "jm_get (pl_runs p) i"; cases "foldE (run_step p) ([], payroll_zero p, payroll_zero p, payroll_zero p) (pl_schedules p)")
      (simp_all add: createRun_def Let_def jm_has_def journal_of_old journal_of_new split: prod.splits)
  show "payroll_journal (snd (approveRun p i)) w = payroll_journal p w"
    by (cases "jm_get (pl_runs p) i") (auto simp: approveRun_def Let_def getRun_def throw_when_def journal_of_old journal_of_new)
qed

lemma distribution_journal_idle:
  "distribution_journal (snd (createPlan d i name st pool rs now)) w = distribution_journal d w"
  "distribution_journal (snd (approvePlan d i)) w = distribution_journal d w"
proof -
  have "plan_checks d i st pool rs = Inr u \<Longrightarrow> jm_get (de_plans d) i = None" for u
    by (auto simp: plan_checks_def bind_r_eq_Inr throw_when_Inr jm_has_def)
  then show "distribution_journal (snd (createPlan d i name st pool rs now)) w = distribution_journal d w"
    by (cases "plan_checks d i st pool rs") (simp_all add: createPlan_def Let_def journal_of_old journal_of_new plan_batch_plans)
  show "distribution_journal (snd (approvePlan d i)) w = distribution_journal d w"
    by (cases "jm_get (de_plans d) i")
      (auto simp: approvePlan_def Let_def getPlan_def throw_when_def journal_of_old journal_of_new plan_batch_plans)
qed

lemma funding_journal_idle:
  "funding_journal (snd (submitRequest m i d a who now)) w = funding_journal m w"
  "funding_journal (snd (approveGate m i who why now)) w = funding_journal m w"
  "funding_journal (snd (rejectRequest m i who why now)) w = funding_journal m w"
proof -
  show "funding_journal (snd (submitRequest m i d a who now)) w = funding_journal m w"
    by (cases "jm_get (fm_requests m) i") (simp_all add: submitRequest_def Let_def jm_has_def journal_of_old journal_of_new)
  show "funding_journal (snd (approveGate m i who why now)) w = funding_journal m w"
    by (cases "jm_get (fm_requests m) i")
      (auto simp: approveGate_def store_request_def Let_def getRequest_def throw_when_def journal_of_old journal_of_new)
  show "funding_journal (snd (rejectRequest m i who why now)) w = funding_journal m w"
    by (cases "jm_get (fm_requests m) i")
      (auto simp: rejectRequest_def store_request_def Let_def getRequest_def throw_when_def journal_of_old journal_of_new)
qed


subsection \<open>Executions book their items\<close>

lemma executeRun_books:
  assumes "executeRun p l i now = (r, p', l')" and "set (ld_entries l) = X \<union> payroll_journal p w"
  shows "\<exists>w'. set (ld_entries l') = X \<union> payroll_journal p' w'"
  using assms(1)
proof (cases rule: executeRun_outcome)
  case (booked run)
  let ?run = "run\<lparr>pr_status := RunExecuted, pr_executedAt := Some now\<rparr>"
  have "\<not> run_done old" if "jm_get (pl_runs p) i = Some old" for old
    using booked(1) that by (simp add: run_payable_def getRun_def)
  then have "payroll_journal p' (w(i := now)) = payroll_journal p w \<union> set (payroll_batch ?run now)"
    unfolding booked(3) by (simp add: journal_of_done)
  then have "set (ld_entries l') = X \<union> payroll_journal p' (w(i := now))"
    unfolding payroll_batch_executed booked(4) set_append assms(2) by blast
  then show ?thesis by (rule exI[where x = "w(i := now)"])
next
  case (refused err)
  show ?thesis unfolding refused(2,3) by (rule exI) (rule assms(2))
qed

lemma executeDistribution_books:
  assumes "executeDistribution d l i now = (r, d', l')" and "set (ld_entries l) = X \<union> distribution_journal d w"
  shows "\<exists>w'. set (ld_entries l') = X \<union> distribution_journal d' w'"
  using assms(1)
proof (cases rule: executeDistribution_outcome)
  case (booked plan res ps)
  let ?plan = "plan\<lparr>dp_status := PlanExecuted, dp_executedAt := Some now\<rparr>"
  have "ps = filter (\<lambda>p. money_value (po_amount p) \<noteq> 0) (ds_payouts res)" "resolvePayouts d plan = Inr res"
    using booked(1) writable_fold[of "[]"] by (simp_all add: plan_payable_def)
  then have batch: "plan_batch d ?plan now = distribution_batch plan now ps"
    unfolding plan_batch_cong[OF refl refl] by (simp add: plan_batch_def)
  have old: "\<not> plan_done old" if "jm_get (de_plans d) i = Some old" for old
    using booked(1) that by (simp add: plan_payable_def getPlan_def)
  have "distribution_journal d' (w(i := now)) =
      journal_of (plan_batch d) plan_done (jm_set (de_plans d) i ?plan) (w(i := now))"
    unfolding booked(3) plan_batch_plans by simp
  also have "\<dots> = distribution_journal d w \<union> set (plan_batch d ?plan now)"
    using old by (intro journal_of_done) simp_all
  finally have "set (ld_entries l') = X \<union> distribution_journal d' (w(i := now))"
    unfolding batch booked(4) set_append assms(2) by blast
  then show ?thesis by (rule exI[where x = "w(i := now)"])
next
  case (refused err)
  show ?thesis unfolding refused(2,3) by (rule exI) (rule assms(2))
qed

lemma executeRequest_books:
  assumes "executeRequest m l i now = (r, m', l')" and "set (ld_entries l) = X \<union> funding_journal m w"
  shows "\<exists>w'. set (ld_entries l') = X \<union> funding_journal m' w'"
  using executeRequest_effect[OF assms(1)]
proof (elim disjE exE conjE)
  fix x :: funding_request
  let ?x = "x\<lparr>fr_status := FS_executed, fr_executedAt := Some now\<rparr>"
  assume x: "jm_get (fm_requests m) i = Some x" "fr_status x = FS_approved"
    and m': "m' = m\<lparr>fm_requests := jm_set (fm_requests m) i ?x\<rparr>"
    and l': "ld_entries l' = ld_entries l @ funding_entries x now"
  have "funding_entries ?x now = funding_entries x now" by (simp add: funding_entries_def funding_account_def)
  moreover have "funding_journal m' (w(i := now)) = funding_journal m w \<union> set (funding_entries ?x now)"
    unfolding m' using x by simp (rule journal_of_done, simp_all)
  ultimately have "set (ld_entries l') = X \<union> funding_journal m' (w(i := now))"
    unfolding l' set_append assms(2) by auto
  then show ?thesis by (rule exI[where x = "w(i := now)"])
next
  assume "m' = m" "ld_entries l' = ld_entries l"
  then show ?thesis using assms(2) by metis
qed

subsection \<open>The invariant\<close>

lemma on_simps [simp]:
  "snd (on_payroll t x) = t\<lparr>ty_payroll := snd x\<rparr>"
  "snd (on_distributions t y) = t\<lparr>ty_distributions := snd y\<rparr>"
  "snd (on_funding t z) = t\<lparr>ty_funding := snd z\<rparr>"
  by (simp_all add: on_payroll_def on_distributions_def on_funding_def)

lemmas facade_defs = ty_registerPayee_def ty_setPaySchedule_def ty_createPayrollRun_def
  ty_approvePayrollRun_def ty_createDistribution_def ty_approveDistribution_def ty_submitFunding_def
  ty_approveFundingGate_def ty_rejectFunding_def

lemma books_idle:
  assumes "books t F" and "ld_entries (ty_ledger t') = ld_entries (ty_ledger t)"
    and "\<And>w. payroll_journal (ty_payroll t') w = payroll_journal (ty_payroll t) w"
    and "\<And>w. distribution_journal (ty_distributions t') w = distribution_journal (ty_distributions t) w"
    and "\<And>w. funding_journal (ty_funding t') w = funding_journal (ty_funding t) w"
  shows "books t' F"
  using assms(1) unfolding books_def assms(2-) .

lemma books_executeRun:
  assumes "books t F" shows "books (snd (ty_executePayrollRun t i now)) F"
proof -
  obtain r p l where e: "executeRun (ty_payroll t) (ty_ledger t) i now = (r, p, l)" by (metis prod.collapse)
  obtain w1 w2 w3 where "set (ld_entries (ty_ledger t)) = (F \<union> distribution_journal (ty_distributions t) w2 \<union>
      funding_journal (ty_funding t) w3) \<union> payroll_journal (ty_payroll t) w1"
    using assms unfolding books_def by blast
  from executeRun_books[OF e this] obtain w' where
    "set (ld_entries l) = F \<union> payroll_journal p w' \<union> distribution_journal (ty_distributions t) w2 \<union>
      funding_journal (ty_funding t) w3"
    by blast
  then show ?thesis unfolding books_def ty_executePayrollRun_def e by auto
qed

lemma books_executeDistribution:
  assumes "books t F" shows "books (snd (ty_executeDistribution t i now)) F"
proof -
  obtain r d l where e: "executeDistribution (ty_distributions t) (ty_ledger t) i now = (r, d, l)"
    by (metis prod.collapse)
  obtain w1 w2 w3 where "set (ld_entries (ty_ledger t)) = (F \<union> payroll_journal (ty_payroll t) w1 \<union>
      funding_journal (ty_funding t) w3) \<union> distribution_journal (ty_distributions t) w2"
    using assms unfolding books_def by blast
  from executeDistribution_books[OF e this] obtain w' where
    "set (ld_entries l) = F \<union> payroll_journal (ty_payroll t) w1 \<union> distribution_journal d w' \<union>
      funding_journal (ty_funding t) w3"
    by blast
  then show ?thesis unfolding books_def ty_executeDistribution_def e by auto
qed

lemma books_executeRequest:
  assumes "books t F" shows "books (snd (ty_executeFunding t i now)) F"
proof -
  obtain r m l where e: "executeRequest (ty_funding t) (ty_ledger t) i now = (r, m, l)" by (metis prod.collapse)
  obtain w1 w2 w3 where "set (ld_entries (ty_ledger t)) = (F \<union> payroll_journal (ty_payroll t) w1 \<union>
      distribution_journal (ty_distributions t) w2) \<union> funding_journal (ty_funding t) w3"
    using assms unfolding books_def by blast
  from executeRequest_books[OF e this] obtain w' where
    "set (ld_entries l) = F \<union> payroll_journal (ty_payroll t) w1 \<union>
      distribution_journal (ty_distributions t) w2 \<union> funding_journal m w'"
    by blast
  then show ?thesis unfolding books_def ty_executeFunding_def e by auto
qed

lemma books_op:
  assumes "books t F" "treasury_op t t'" shows "books t' F"
  using assms(2)
  by (rule treasury_opE)
    (simp_all add: facade_defs payroll_journal_idle distribution_journal_idle funding_journal_idle
      books_idle[OF assms(1)] books_executeRun[OF assms(1)] books_executeDistribution[OF assms(1)]
      books_executeRequest[OF assms(1)])

lemma treasury_ledger_reachable_op:
  assumes "ledger_reachable (ty_ledger t)" "treasury_op t t'" shows "ledger_reachable (ty_ledger t')"
  using assms(2)
proof (rule treasury_opE)
  fix i now assume t': "t' = snd (ty_executePayrollRun t i now)"
  show ?thesis using executeRun_ledger[OF assms(1), of "ty_payroll t" i now]
    unfolding t' ty_executePayrollRun_def by (auto split: prod.split)
next
  fix i now assume t': "t' = snd (ty_executeDistribution t i now)"
  show ?thesis using executeDistribution_ledger[OF assms(1), of "ty_distributions t" i now]
    unfolding t' ty_executeDistribution_def by (auto split: prod.split)
next
  fix i now assume t': "t' = snd (ty_executeFunding t i now)"
  show ?thesis using executeRequest_ledger[OF assms(1), of "ty_funding t" i now]
    unfolding t' ty_executeFunding_def by (auto split: prod.split)
qed (use assms(1) in \<open>simp_all add: facade_defs\<close>)

lemma treasury_reachable_books:
  "treasury_reachable t F \<Longrightarrow> books t F \<and> ledger_reachable (ty_ledger t)"
proof (induction rule: treasury_reachable.induct)
  case (treasury_new c t)
  then show ?case
    by (auto simp: new_treasury_def bind_r_eq_Inr newFundingGateManager_def books_def new_ledger_def
        new_payroll_def new_distributions_def journal_of_empty intro: reach_new[unfolded new_ledger_def]
        split: if_splits)
next
  case (treasury_call t F t')
  then show ?case using books_op treasury_ledger_reachable_op by blast
next
  case (treasury_foreign t F l es)
  obtain w1 w2 w3 where b: "set (ld_entries (ty_ledger t)) =
      F \<union> payroll_journal (ty_payroll t) w1 \<union> distribution_journal (ty_distributions t) w2 \<union>
      funding_journal (ty_funding t) w3"
    using treasury_foreign.IH unfolding books_def by blast
  have "set (ld_entries l) = (F \<union> set es) \<union> payroll_journal (ty_payroll t) w1 \<union>
      distribution_journal (ty_distributions t) w2 \<union> funding_journal (ty_funding t) w3"
    unfolding treasury_foreign.hyps(3) set_append b by blast
  then have "books (t\<lparr>ty_ledger := l\<rparr>) (F \<union> set es)" unfolding books_def by auto
  moreover have "ledger_reachable l"
    using treasury_foreign.IH treasury_foreign.hyps(2) by (blast intro: reach_step)
  ultimately show ?case by simp
qed


subsection \<open>Stores keyed by their items' ids\<close>

definition keyed :: "('v \<Rightarrow> string) \<Rightarrow> (string, 'v) jsmap \<Rightarrow> bool" where
  "keyed key m \<longleftrightarrow> jm_wf m \<and> (\<forall>(k, v) \<in> set m. key v = k)"

lemma keyed_empty [simp]: "keyed key []"
  by (simp add: keyed_def)

lemma keyed_set [simp]: "keyed key m \<Longrightarrow> key v = k \<Longrightarrow> keyed key (jm_set m k v)"
proof -
  assume m: "keyed key m" and v: "key v = k"
  have "\<forall>(k, v) \<in> set m. key v = k \<Longrightarrow> \<forall>(k, v) \<in> set (jm_set m k v). key v = k"
    using v by (induction m) auto
  with m show ?thesis by (simp add: keyed_def)
qed

lemma keyed_get: "keyed key m \<Longrightarrow> jm_get m i = Some v \<Longrightarrow> key v = i"
  by (auto simp: keyed_def dest: map_of_SomeD)

lemma keyed_update:
  "keyed key m \<Longrightarrow> jm_get m i = Some old \<Longrightarrow> key v = key old \<Longrightarrow> keyed key (jm_set m i v)"
  using keyed_get by (intro keyed_set) auto

lemma keyed_import: "keyed key m \<Longrightarrow> import_records key dup [] {} (jm_values m) = (Inr (), m)"
proof -
  assume m: "keyed key m"
  have "\<forall>(k, v) \<in> set m. key v = k \<Longrightarrow> map (\<lambda>x. (key x, x)) (jm_values m) = m" for m
    by (induction m) auto
  then have eq: "map (\<lambda>x. (key x, x)) (jm_values m) = m" using m by (simp add: keyed_def)
  have "map key (jm_values m) = map fst (map (\<lambda>x. (key x, x)) (jm_values m))" by (simp add: comp_def)
  then have "map key (jm_values m) = jm_keys m" unfolding eq .
  then have "distinct (jm_keys [] @ map key (jm_values m))" using m
    by (simp del: map_map) (simp add: keyed_def jm_wf_def)
  from import_records_ok[OF this] eq show ?thesis by simp
qed

definition treasury_shape :: "treasury \<Rightarrow> bool" where
  "treasury_shape t \<longleftrightarrow>
     keyed py_id (pl_payees (ty_payroll t)) \<and> keyed pr_id (pl_runs (ty_payroll t)) \<and>
     keyed dp_id (de_plans (ty_distributions t)) \<and> keyed fr_id (fm_requests (ty_funding t)) \<and>
     pl_currency (ty_payroll t) = tc_defaultCurrency (ty_config t) \<and>
     pl_decimals (ty_payroll t) = tc_defaultDecimals (ty_config t) \<and>
     de_currency (ty_distributions t) = tc_defaultCurrency (ty_config t) \<and>
     de_decimals (ty_distributions t) = tc_defaultDecimals (ty_config t) \<and>
     fm_gatekeepers (ty_funding t) = tc_gatekeepers (ty_config t) \<and>
     fst (tc_gatekeepers (ty_config t)) \<noteq> snd (tc_gatekeepers (ty_config t))"

text \<open>How one engine may change in a step: it keeps its configuration and its stores stay keyed.\<close>

definition payroll_kept :: "payroll_engine \<Rightarrow> payroll_engine \<Rightarrow> bool" where
  "payroll_kept p p' \<longleftrightarrow> pl_currency p' = pl_currency p \<and> pl_decimals p' = pl_decimals p \<and>
     (keyed py_id (pl_payees p) \<longrightarrow> keyed py_id (pl_payees p')) \<and>
     (keyed pr_id (pl_runs p) \<longrightarrow> keyed pr_id (pl_runs p'))"

definition distribution_kept :: "distribution_engine \<Rightarrow> distribution_engine \<Rightarrow> bool" where
  "distribution_kept d d' \<longleftrightarrow> de_currency d' = de_currency d \<and> de_decimals d' = de_decimals d \<and>
     (keyed dp_id (de_plans d) \<longrightarrow> keyed dp_id (de_plans d'))"

definition funding_kept :: "funding_manager \<Rightarrow> funding_manager \<Rightarrow> bool" where
  "funding_kept m m' \<longleftrightarrow> fm_gatekeepers m' = fm_gatekeepers m \<and>
     (keyed fr_id (fm_requests m) \<longrightarrow> keyed fr_id (fm_requests m'))"

lemma treasury_shape_kept:
  assumes "treasury_shape t" "ty_config t' = ty_config t" "payroll_kept (ty_payroll t) (ty_payroll t')"
    "distribution_kept (ty_distributions t) (ty_distributions t')" "funding_kept (ty_funding t) (ty_funding t')"
  shows "treasury_shape t'"
  using assms by (simp add: treasury_shape_def payroll_kept_def distribution_kept_def funding_kept_def)

lemma kept_refl [simp]: "payroll_kept p p" "distribution_kept d d" "funding_kept m m"
  by (simp_all add: payroll_kept_def distribution_kept_def funding_kept_def)

lemma payroll_kept [simp]:
  "payroll_kept p (snd (registerPayee p i name address chainId now))"
  "payroll_kept p (snd (setSchedule p i cs))"
  "payroll_kept p (snd (createRun p i period now))"
  "payroll_kept p (snd (approveRun p i))"
proof -
  show "payroll_kept p (snd (registerPayee p i name address chainId now))"
    by (simp add: registerPayee_def payroll_kept_def Let_def)
  show "payroll_kept p (snd (setSchedule p i cs))"
    by (simp add: setSchedule_def payroll_kept_def Let_def split: sum.split)
  show "payroll_kept p (snd (createRun p i period now))"
    by (simp add: createRun_def payroll_kept_def Let_def split: sum.split prod.split)
  show "payroll_kept p (snd (approveRun p i))"
    by (cases "jm_get (pl_runs p) i")
      (auto simp: approveRun_def getRun_def payroll_kept_def throw_when_def Let_def intro: keyed_update)
qed

lemma distribution_kept [simp]:
  "distribution_kept d (snd (createPlan d i name st pool rs now))"
  "distribution_kept d (snd (approvePlan d i))"
proof -
  show "distribution_kept d (snd (createPlan d i name st pool rs now))"
    by (simp add: createPlan_def distribution_kept_def Let_def split: sum.split)
  show "distribution_kept d (snd (approvePlan d i))"
    by (cases "jm_get (de_plans d) i")
      (auto simp: approvePlan_def getPlan_def distribution_kept_def throw_when_def Let_def intro: keyed_update)
qed

lemma store_request_kept:
  assumes "\<And>x. r = Inr x \<Longrightarrow> \<exists>y. jm_get (fm_requests m) i = Some y \<and> fr_id x = fr_id y"
  shows "funding_kept m (snd (store_request m i r))"
  using assms by (cases r) (auto simp: store_request_def funding_kept_def intro: keyed_update)

lemma funding_kept [simp]:
  "funding_kept m (snd (submitRequest m i d a who now))"
  "funding_kept m (snd (approveGate m i who why now))"
  "funding_kept m (snd (rejectRequest m i who why now))"
proof -
  show "funding_kept m (snd (submitRequest m i d a who now))"
    by (simp add: submitRequest_def funding_kept_def Let_def)
  show "funding_kept m (snd (approveGate m i who why now))"
    unfolding approveGate_def
    by (rule store_request_kept) (auto simp: bind_r_eq_Inr getRequest_Inr Let_def split: if_splits)
  show "funding_kept m (snd (rejectRequest m i who why now))"
    unfolding rejectRequest_def
    by (rule store_request_kept) (auto simp: bind_r_eq_Inr getRequest_Inr Let_def split: if_splits)
qed

lemma executeRun_kept: "executeRun p l i now = (r, p', l') \<Longrightarrow> payroll_kept p p'"
  by (erule executeRun_outcome) (auto simp: payroll_kept_def run_payable_def getRun_def intro: keyed_update split: option.splits)

lemma executeDistribution_kept: "executeDistribution d l i now = (r, d', l') \<Longrightarrow> distribution_kept d d'"
  by (erule executeDistribution_outcome)
    (auto simp: distribution_kept_def plan_payable_def getPlan_def intro: keyed_update split: option.splits)

lemma executeRequest_kept:
  assumes "executeRequest m l i now = (r, m', l')" shows "funding_kept m m'"
  using executeRequest_effect[OF assms]
proof (elim disjE exE conjE)
  fix x :: funding_request
  assume "jm_get (fm_requests m) i = Some x"
    "m' = m\<lparr>fm_requests := jm_set (fm_requests m) i (x\<lparr>fr_status := FS_executed, fr_executedAt := Some now\<rparr>)\<rparr>"
  then show ?thesis by (simp add: funding_kept_def keyed_get)
next
  assume "m' = m"
  then show ?thesis by (simp only: kept_refl)
qed

lemma treasury_shape_op:
  assumes "treasury_shape t" "treasury_op t t'" shows "treasury_shape t'"
  using assms(2)
proof (rule treasury_opE)
  fix i now assume t': "t' = snd (ty_executePayrollRun t i now)"
  obtain r p l where e: "executeRun (ty_payroll t) (ty_ledger t) i now = (r, p, l)" by (metis prod.collapse)
  from executeRun_kept[OF e] show ?thesis unfolding t' ty_executePayrollRun_def e
    by (intro treasury_shape_kept[OF assms(1)]) simp_all
next
  fix i now assume t': "t' = snd (ty_executeDistribution t i now)"
  obtain r d l where e: "executeDistribution (ty_distributions t) (ty_ledger t) i now = (r, d, l)"
    by (metis prod.collapse)
  from executeDistribution_kept[OF e] show ?thesis unfolding t' ty_executeDistribution_def e
    by (intro treasury_shape_kept[OF assms(1)]) simp_all
next
  fix i now assume t': "t' = snd (ty_executeFunding t i now)"
  obtain r m l where e: "executeRequest (ty_funding t) (ty_ledger t) i now = (r, m, l)" by (metis prod.collapse)
  from executeRequest_kept[OF e] show ?thesis unfolding t' ty_executeFunding_def e
    by (intro treasury_shape_kept[OF assms(1)]) simp_all
qed (simp_all add: facade_defs treasury_shape_kept[OF assms(1)])

lemma treasury_reachable_shape: "treasury_reachable t F \<Longrightarrow> treasury_shape t"
proof (induction rule: treasury_reachable.induct)
  case (treasury_new c t)
  then show ?case
    by (auto simp: new_treasury_def bind_r_eq_Inr newFundingGateManager_def treasury_shape_def
        new_payroll_def new_distributions_def split: if_splits)
next
  case (treasury_call t F t')
  then show ?case using treasury_shape_op by blast
next
  case (treasury_foreign t F l es)
  show ?case by (rule treasury_shape_kept[OF treasury_foreign.IH]) simp_all
qed

subsection \<open>Properties\<close>

text \<open>C3: The ledger of a reachable treasury holds exactly the entries that were appended through
  the ledger it hands out and, for each executed payroll run, distribution plan and funding request,
  the debit and credit of every payment it makes; its entry ids are unique and its debits equal its
  credits in every currency.\<close>

theorem treasury_books_exact:
  assumes "treasury_reachable t F"
  shows "(\<exists>w1 w2 w3. set (ld_entries (ty_ledger t)) = F \<union>
      {e. \<exists>i run. getRun (ty_payroll t) i = Inr run \<and> pr_status run = RunExecuted \<and>
         e \<in> set (payroll_batch run (w1 i))} \<union>
      {e. \<exists>i plan. getPlan (ty_distributions t) i = Inr plan \<and> dp_status plan = PlanExecuted \<and>
         e \<in> set (plan_batch (ty_distributions t) plan (w2 i))} \<union>
      {e. \<exists>i r. getRequest (ty_funding t) i = Inr r \<and> fr_status r = FS_executed \<and>
         e \<in> set (funding_entries r (w3 i))}) \<and>
    distinct (map le_id (ld_entries (ty_ledger t))) \<and> double_entry (ld_entries (ty_ledger t))"
proof -
  have g: "getRun p i = Inr run \<longleftrightarrow> jm_get (pl_runs p) i = Some run"
    "getPlan d i = Inr plan \<longleftrightarrow> jm_get (de_plans d) i = Some plan" for p d i run plan
    by (simp_all add: getRun_def getPlan_def split: option.splits)
  have b: "books t F" and l: "ledger_reachable (ty_ledger t)" using treasury_reachable_books[OF assms] by simp_all
  have "ledger_wf (ty_ledger t)" using l by (rule ledger_reachable_wf)
  then have "distinct (map le_id (ld_entries (ty_ledger t)))" "double_entry (ld_entries (ty_ledger t))"
    using ledger_wf_double_entry by (simp_all add: ledger_wf_def)
  with b show ?thesis unfolding books_def journal_of_def g getRequest_Inr by (intro conjI)
qed

text \<open>The snapshot of a reachable treasury always restores, to a treasury with the same
  configuration, payees, runs, plans and requests, but with an empty ledger and no pay schedules:
  neither is in the snapshot.\<close>

theorem treasury_snapshot_restores:
  assumes "treasury_reachable t F"
  shows "treasury_fromSnapshot (take_treasury_snapshot t now) =
    Inr (t\<lparr>ty_ledger := new_ledger, ty_payroll := (ty_payroll t)\<lparr>pl_schedules := []\<rparr>\<rparr>)"
proof -
  have s: "treasury_shape t" by (rule treasury_reachable_shape[OF assms])
  then have gk: "newFundingGateManager (tc_gatekeepers (ty_config t)) =
      Inr \<lparr>fm_requests = [], fm_gatekeepers = tc_gatekeepers (ty_config t)\<rparr>"
    by (simp add: newFundingGateManager_def treasury_shape_def)
  note k = keyed_import[where dup = "PayrollError P_DUPLICATE_IMPORT_ID" and key = py_id]
    keyed_import[where dup = "PayrollError P_DUPLICATE_IMPORT_ID" and key = pr_id]
    keyed_import[where dup = "DistributionError D_DUPLICATE_IMPORT_ID" and key = dp_id]
    keyed_import[where dup = "FundingError F_DUPLICATE_IMPORT_ID" and key = fr_id]
  obtain c l ps sc rs cur decs pls cur' decs' reqs gk where t: "t = \<lparr>ty_config = c, ty_ledger = l,
      ty_payroll = \<lparr>pl_payees = ps, pl_schedules = sc, pl_runs = rs, pl_currency = cur, pl_decimals = decs\<rparr>,
      ty_distributions = \<lparr>de_plans = pls, de_currency = cur', de_decimals = decs'\<rparr>,
      ty_funding = \<lparr>fm_requests = reqs, fm_gatekeepers = gk\<rparr>\<rparr>"
    by (metis treasury.surjective payroll_engine.surjective distribution_engine.surjective
        funding_manager.surjective old.unit.exhaust)
  show ?thesis using s gk
    by (simp add: t treasury_fromSnapshot_def take_treasury_snapshot_def new_treasury_def k throw_when_def
        importPayees_def importRuns_def importPlans_def importRequests_def new_payroll_def
        new_distributions_def exportPayees_def exportRuns_def exportPlans_def exportRequests_def
        treasury_shape_def)
qed


subsection \<open>Witnesses\<close>

definition sample_treasury :: treasury where
  "sample_treasury =
     (let c = \<lparr>tc_orgId = ''o'', tc_name = ''n'', tc_defaultCurrency = ''U'', tc_defaultDecimals = 0,
                tc_gatekeepers = (''a'', ''b'')\<rparr>;
          t = projr (new_treasury c);
          t = snd (ty_submitFunding t ''r'' ''d'' \<lparr>m_amount = ''5'', m_currency = ''U'', m_decimals = 0\<rparr> ''c'' ''t'');
          t = snd (ty_approveFundingGate t ''r'' ''a'' None ''t'');
          t = snd (ty_approveFundingGate t ''r'' ''b'' None ''t'')
      in snd (ty_executeFunding t ''r'' ''t''))"

lemma sample_treasury_reachable: "treasury_reachable sample_treasury {}"
proof -
  let ?c = "\<lparr>tc_orgId = ''o'', tc_name = ''n'', tc_defaultCurrency = ''U'', tc_defaultDecimals = 0,
                tc_gatekeepers = (''a'', ''b'')\<rparr>"
  have "new_treasury ?c = Inr (projr (new_treasury ?c))"
    by (simp add: new_treasury_def newFundingGateManager_def)
  then have "treasury_reachable (projr (new_treasury ?c)) {}" by (rule treasury_new)
  then show ?thesis unfolding sample_treasury_def Let_def
    by (intro treasury_call[OF _ treasury_op.intros(12)] treasury_call[OF _ treasury_op.intros(10)]
        treasury_call[OF _ treasury_op.intros(9)])
qed

theorem treasury_books_exact_witness:
  "length (ld_entries (ty_ledger sample_treasury)) = 2 \<and> double_entry (ld_entries (ty_ledger sample_treasury))"
proof (rule conjI)
  show "length (ld_entries (ty_ledger sample_treasury)) = 2" by code_simp
  show "double_entry (ld_entries (ty_ledger sample_treasury))"
    using treasury_books_exact[OF sample_treasury_reachable] by (elim conjE)
qed

theorem treasury_snapshot_restores_witness:
  "\<exists>t. treasury_fromSnapshot (take_treasury_snapshot sample_treasury ''t'') = Inr t \<and>
     (case getRequest (ty_funding t) ''r'' of Inr r \<Rightarrow> fr_status r = FS_executed | Inl _ \<Rightarrow> False) \<and>
     ld_entries (ty_ledger t) = []"
proof -
  have "(case getRequest (ty_funding sample_treasury) ''r'' of Inr r \<Rightarrow> fr_status r = FS_executed | Inl _ \<Rightarrow> False) = True"
    by code_simp
  with treasury_snapshot_restores[OF sample_treasury_reachable, of "''t''"] show ?thesis
    by (simp add: new_ledger_def)
qed

end
