(* ===== verification/Budget.thy ===== *)
theory Budget
  imports MoneyMath
begin

section \<open>The budget engine\<close>

text \<open>
  Model of \<^verbatim>\<open>packages/vault/src/budget.ts\<close> and of the envelope types of
  \<^verbatim>\<open>packages/vault/src/types.ts\<close>: named envelopes with an allocated, a spent and an available
  amount, kept as decimal strings in the engine's currency and decimals. Every method is a
  definition; those that change the engine return the result and the new engine.
  \<open>engine_wf\<close> is the accounting invariant: in every envelope the strings parse, spent is
  between zero and allocated, and available is their difference.
\<close>

record envelope =
  env_id :: string
  env_name :: string
  env_currency :: string
  env_decimals :: int
  env_allocated :: string
  env_spent :: string
  env_available :: string
  env_category :: "string option"
  env_createdAt :: string

record budget_engine =
  be_ownerId :: string
  be_currency :: string
  be_decimals :: int
  be_envelopes :: "(string, envelope) jsmap"

record budget_snapshot =
  bs_ownerId :: string
  bs_envelopes :: "envelope list"
  bs_totalAllocated :: string
  bs_totalSpent :: string
  bs_totalAvailable :: string
  bs_currency :: string
  bs_asOf :: string

definition new_engine :: "string \<Rightarrow> string \<Rightarrow> int \<Rightarrow> budget_engine" where
  "new_engine owner cur decs =
     \<lparr>be_ownerId = owner, be_currency = cur, be_decimals = decs, be_envelopes = []\<rparr>"

subsection \<open>Private helpers\<close>

definition engine_money :: "budget_engine \<Rightarrow> string \<Rightarrow> money" where
  "engine_money b amt = \<lparr>m_amount = amt, m_currency = be_currency b, m_decimals = be_decimals b\<rparr>"

definition budget_add :: "budget_engine \<Rightarrow> string \<Rightarrow> string \<Rightarrow> string result" where
  "budget_add b x y =
     bind_r (addMoney (engine_money b x) (engine_money b y)) (\<lambda>r. Inr (m_amount r))"

definition budget_subtract :: "budget_engine \<Rightarrow> string \<Rightarrow> string \<Rightarrow> string result" where
  "budget_subtract b x y =
     bind_r (subtractMoney (engine_money b x) (engine_money b y)) (\<lambda>r. Inr (m_amount r))"

definition assertCurrency :: "budget_engine \<Rightarrow> money \<Rightarrow> unit result" where
  "assertCurrency b amount =
     throw_when (m_currency amount \<noteq> be_currency b) (BudgetError B_CURRENCY_MISMATCH)"

definition assertPositive :: "money \<Rightarrow> unit result" where
  "assertPositive amount =
     bind_r (isPositive amount) (\<lambda>p. throw_when (\<not> p) (BudgetError B_INVALID_AMOUNT))"

subsection \<open>Envelopes\<close>

definition createEnvelope ::
  "budget_engine \<Rightarrow> string \<Rightarrow> string \<Rightarrow> string option \<Rightarrow> string \<Rightarrow> envelope result \<times> budget_engine" where
  "createEnvelope b i name category now =
     (if jm_has (be_envelopes b) i then (Inl (BudgetError B_ENVELOPE_EXISTS), b)
      else let env = \<lparr>env_id = i, env_name = name, env_currency = be_currency b,
             env_decimals = be_decimals b, env_allocated = ''0'', env_spent = ''0'',
             env_available = ''0'', env_category = category, env_createdAt = now\<rparr>
           in (Inr env, b\<lparr>be_envelopes := jm_set (be_envelopes b) i env\<rparr>))"

definition getEnvelope :: "budget_engine \<Rightarrow> string \<Rightarrow> envelope result" where
  "getEnvelope b i =
     (case jm_get (be_envelopes b) i of
        None \<Rightarrow> Inl (BudgetError B_ENVELOPE_NOT_FOUND) | Some e \<Rightarrow> Inr e)"

definition hasEnvelope :: "budget_engine \<Rightarrow> string \<Rightarrow> bool" where
  "hasEnvelope b i = jm_has (be_envelopes b) i"

definition listEnvelopes :: "budget_engine \<Rightarrow> envelope list" where
  "listEnvelopes b = jm_values (be_envelopes b)"

definition getByCategory :: "budget_engine \<Rightarrow> string \<Rightarrow> envelope list" where
  "getByCategory b c = filter (\<lambda>e. env_category e = Some c) (jm_values (be_envelopes b))"

definition store_envelope :: "budget_engine \<Rightarrow> string \<Rightarrow> envelope result \<Rightarrow> envelope result \<times> budget_engine" where
  "store_envelope b i r =
     (case r of Inl e \<Rightarrow> (Inl e, b)
      | Inr updated \<Rightarrow> (Inr updated, b\<lparr>be_envelopes := jm_set (be_envelopes b) i updated\<rparr>))"

definition allocate :: "budget_engine \<Rightarrow> string \<Rightarrow> money \<Rightarrow> envelope result \<times> budget_engine" where
  "allocate b i amount = store_envelope b i
     (bind_r (getEnvelope b i) (\<lambda>env.
      bind_r (assertCurrency b amount) (\<lambda>_.
      bind_r (assertPositive amount) (\<lambda>_.
      bind_r (budget_add b (env_allocated env) (m_amount amount)) (\<lambda>newAllocated.
      bind_r (budget_subtract b newAllocated (env_spent env)) (\<lambda>newAvailable.
        Inr (env\<lparr>env_allocated := newAllocated, env_available := newAvailable\<rparr>)))))))"

definition deallocate :: "budget_engine \<Rightarrow> string \<Rightarrow> money \<Rightarrow> envelope result \<times> budget_engine" where
  "deallocate b i amount = store_envelope b i
     (bind_r (getEnvelope b i) (\<lambda>env.
      bind_r (assertCurrency b amount) (\<lambda>_.
      bind_r (assertPositive amount) (\<lambda>_.
      bind_r (budget_subtract b (env_allocated env) (m_amount amount)) (\<lambda>newAllocated.
      bind_r (budget_subtract b newAllocated (env_spent env)) (\<lambda>newAvailable.
      bind_r (isNegative (engine_money b newAvailable)) (\<lambda>neg.
      bind_r (throw_when neg (BudgetError B_INSUFFICIENT_BUDGET)) (\<lambda>_.
        Inr (env\<lparr>env_allocated := newAllocated, env_available := newAvailable\<rparr>)))))))))"

definition spend :: "budget_engine \<Rightarrow> string \<Rightarrow> money \<Rightarrow> envelope result \<times> budget_engine" where
  "spend b i amount = store_envelope b i
     (bind_r (getEnvelope b i) (\<lambda>env.
      bind_r (assertCurrency b amount) (\<lambda>_.
      bind_r (assertPositive amount) (\<lambda>_.
      bind_r (compareMoney amount (engine_money b (env_available env))) (\<lambda>c.
      bind_r (throw_when (c > 0) (BudgetError B_INSUFFICIENT_BUDGET)) (\<lambda>_.
      bind_r (budget_add b (env_spent env) (m_amount amount)) (\<lambda>newSpent.
      bind_r (budget_subtract b (env_allocated env) newSpent) (\<lambda>newAvailable.
        Inr (env\<lparr>env_spent := newSpent, env_available := newAvailable\<rparr>)))))))))"

definition reverseSpend :: "budget_engine \<Rightarrow> string \<Rightarrow> money \<Rightarrow> envelope result \<times> budget_engine" where
  "reverseSpend b i amount = store_envelope b i
     (bind_r (getEnvelope b i) (\<lambda>env.
      bind_r (assertCurrency b amount) (\<lambda>_.
      bind_r (assertPositive amount) (\<lambda>_.
      bind_r (compareMoney amount (engine_money b (env_spent env))) (\<lambda>c.
      bind_r (throw_when (c > 0) (BudgetError B_INVALID_AMOUNT)) (\<lambda>_.
      bind_r (budget_subtract b (env_spent env) (m_amount amount)) (\<lambda>newSpent.
      bind_r (budget_subtract b (env_allocated env) newSpent) (\<lambda>newAvailable.
        Inr (env\<lparr>env_spent := newSpent, env_available := newAvailable\<rparr>)))))))))"

definition restoreEnvelope :: "budget_engine \<Rightarrow> envelope \<Rightarrow> envelope result \<times> budget_engine" where
  "restoreEnvelope b env = store_envelope b (env_id env)
     (bind_r (throw_when (jm_has (be_envelopes b) (env_id env)) (BudgetError B_ENVELOPE_EXISTS)) (\<lambda>_.
      bind_r (isNegative (engine_money b (env_allocated env))) (\<lambda>n1.
      bind_r (throw_when n1 (BudgetError B_INVALID_ENVELOPE_STATE)) (\<lambda>_.
      bind_r (isNegative (engine_money b (env_spent env))) (\<lambda>n2.
      bind_r (throw_when n2 (BudgetError B_INVALID_ENVELOPE_STATE)) (\<lambda>_.
      bind_r (compareMoney (engine_money b (env_spent env)) (engine_money b (env_allocated env))) (\<lambda>c.
      bind_r (throw_when (c > 0) (BudgetError B_INVALID_ENVELOPE_STATE)) (\<lambda>_.
      bind_r (budget_subtract b (env_allocated env) (env_spent env)) (\<lambda>available.
        Inr (env\<lparr>env_currency := be_currency b, env_decimals := be_decimals b,
                 env_available := available\<rparr>))))))))))"

subsection \<open>Snapshots\<close>

definition budget_snapshot_step ::
  "budget_engine \<Rightarrow> string \<times> string \<times> string \<Rightarrow> envelope \<Rightarrow> (string \<times> string \<times> string) result" where
  "budget_snapshot_step b t e =
     (case t of (ta, ts, tv) \<Rightarrow>
        bind_r (budget_add b ta (env_allocated e)) (\<lambda>ta'.
        bind_r (budget_add b ts (env_spent e)) (\<lambda>ts'.
        bind_r (budget_add b tv (env_available e)) (\<lambda>tv'. Inr (ta', ts', tv')))))"

definition take_budget_snapshot :: "budget_engine \<Rightarrow> string \<Rightarrow> budget_snapshot result" where
  "take_budget_snapshot b now =
     bind_r (foldE (budget_snapshot_step b) (''0'', ''0'', ''0'') (listEnvelopes b))
       (\<lambda>(ta, ts, tv). Inr \<lparr>bs_ownerId = be_ownerId b, bs_envelopes = listEnvelopes b,
          bs_totalAllocated = ta, bs_totalSpent = ts, bs_totalAvailable = tv,
          bs_currency = be_currency b, bs_asOf = now\<rparr>)"

definition budget_fromSnapshot :: "budget_snapshot \<Rightarrow> budget_engine" where
  "budget_fromSnapshot s =
     (let decs = (case bs_envelopes s of [] \<Rightarrow> 6 | e # _ \<Rightarrow> env_decimals e)
      in (new_engine (bs_ownerId s) (bs_currency s) decs)
           \<lparr>be_envelopes := foldl (\<lambda>m e. jm_set m (env_id e) e) [] (bs_envelopes s)\<rparr>)"

subsection \<open>The accounting invariant\<close>

definition env_amounts :: "budget_engine \<Rightarrow> envelope \<Rightarrow> (int \<times> int \<times> int) option" where
  "env_amounts b e =
     (case (parseAmount (env_allocated e) (be_decimals b), parseAmount (env_spent e) (be_decimals b),
            parseAmount (env_available e) (be_decimals b)) of
        (Inr a, Inr s, Inr v) \<Rightarrow> Some (a, s, v) | _ \<Rightarrow> None)"

definition env_wf :: "budget_engine \<Rightarrow> envelope \<Rightarrow> bool" where
  "env_wf b e \<longleftrightarrow> env_currency e = be_currency b \<and> env_decimals e = be_decimals b \<and>
     (case env_amounts b e of None \<Rightarrow> False | Some (a, s, v) \<Rightarrow> 0 \<le> s \<and> s \<le> a \<and> v = a - s)"

definition engine_wf :: "budget_engine \<Rightarrow> bool" where
  "engine_wf b \<longleftrightarrow> 0 \<le> be_decimals b \<and> jm_wf (be_envelopes b) \<and>
     (\<forall>i e. jm_get (be_envelopes b) i = Some e \<longrightarrow> env_id e = i \<and> env_wf b e)"

lemma env_amounts_Some:
  "env_amounts b e = Some (a, s, v) \<longleftrightarrow>
     parseAmount (env_allocated e) (be_decimals b) = Inr a \<and>
     parseAmount (env_spent e) (be_decimals b) = Inr s \<and>
     parseAmount (env_available e) (be_decimals b) = Inr v"
  by (simp add: env_amounts_def split: sum.splits)

lemma env_wfE:
  assumes "env_wf b e"
  obtains a s where "env_amounts b e = Some (a, s, a - s)" "0 \<le> s" "s \<le> a"
    "env_currency e = be_currency b" "env_decimals e = be_decimals b"
  using assms by (auto simp: env_wf_def split: option.splits)

lemma budget_add_Inr:
  "budget_add b x y = Inr z \<longleftrightarrow>
     (\<exists>vx vy. parseAmount x (be_decimals b) = Inr vx \<and> parseAmount y (be_decimals b) = Inr vy \<and>
        z = formatAmount (vx + vy) (be_decimals b))"
  by (auto simp: budget_add_def engine_money_def addMoney_Inr scaled_of_def bind_r_eq_Inr)

lemma budget_subtract_Inr:
  "budget_subtract b x y = Inr z \<longleftrightarrow>
     (\<exists>vx vy. parseAmount x (be_decimals b) = Inr vx \<and> parseAmount y (be_decimals b) = Inr vy \<and>
        z = formatAmount (vx - vy) (be_decimals b))"
  by (auto simp: budget_subtract_def engine_money_def subtractMoney_Inr scaled_of_def bind_r_eq_Inr)

lemma budget_add_val:
  "parseAmount x (be_decimals b) = Inr vx \<Longrightarrow> parseAmount y (be_decimals b) = Inr vy \<Longrightarrow>
     budget_add b x y = Inr (formatAmount (vx + vy) (be_decimals b))"
  by (simp add: budget_add_Inr)

lemma budget_subtract_val:
  "parseAmount x (be_decimals b) = Inr vx \<Longrightarrow> parseAmount y (be_decimals b) = Inr vy \<Longrightarrow>
     budget_subtract b x y = Inr (formatAmount (vx - vy) (be_decimals b))"
  by (simp add: budget_subtract_Inr)

lemma scaled_engine_money [simp]: "scaled_of (engine_money b x) = parseAmount x (be_decimals b)"
  by (simp add: scaled_of_def engine_money_def)

lemma assertPositive_Inr: "assertPositive m = Inr () \<longleftrightarrow> (\<exists>v. scaled_of m = Inr v \<and> 0 < v)"
  by (auto simp: assertPositive_def isPositive_Inr bind_r_eq_Inr throw_when_Inr)

lemma getEnvelope_Inr [result_simps]: "getEnvelope b i = Inr e \<longleftrightarrow> jm_get (be_envelopes b) i = Some e"
  by (simp add: getEnvelope_def split: option.splits)

lemma store_envelope_cases:
  assumes "store_envelope b i r = (res, b')"
  obtains (fail) err where "r = Inl err" "res = Inl err" "b' = b"
  | (ok) e where "r = Inr e" "res = Inr e" "b' = b\<lparr>be_envelopes := jm_set (be_envelopes b) i e\<rparr>"
  using assms by (cases r) (auto simp: store_envelope_def)

text \<open>Each operation's envelope update, read off the code.\<close>

lemma env_wf_update: "env_wf (b\<lparr>be_envelopes := m\<rparr>) e = env_wf b e"
  by (simp add: env_wf_def env_amounts_def)

lemma engine_wf_store:
  assumes "engine_wf b" "env_wf b e" "env_id e = i"
  shows "engine_wf (b\<lparr>be_envelopes := jm_set (be_envelopes b) i e\<rparr>)"
  using assms by (auto simp: engine_wf_def env_wf_update)

lemma env_wf_formatted:
  assumes "0 \<le> be_decimals b" "env_currency e = be_currency b" "env_decimals e = be_decimals b"
    "parseAmount (env_allocated e) (be_decimals b) = Inr a"
    "parseAmount (env_spent e) (be_decimals b) = Inr s"
    "parseAmount (env_available e) (be_decimals b) = Inr (a - s)" "0 \<le> s" "s \<le> a"
  shows "env_wf b e"
  using assms by (simp add: env_wf_def env_amounts_def)

lemma unit_seq: "bind_r m f = Inr z \<longleftrightarrow> m = Inr () \<and> f () = Inr z" for m :: "unit result"
  by (cases m) auto

lemma allocate_step:
  assumes wf: "engine_wf b" and get: "jm_get (be_envelopes b) i = Some env"
    and cur: "m_currency amount = be_currency b" and pos: "assertPositive amount = Inr ()"
    and v: "parseAmount (m_amount amount) (be_decimals b) = Inr v"
    and amt: "env_amounts b env = Some (a, s, av)"
  shows "allocate b i amount = store_envelope b i
    (Inr (env\<lparr>env_allocated := formatAmount (a + v) (be_decimals b),
             env_available := formatAmount (a + v - s) (be_decimals b)\<rparr>))"
proof -
  have d: "0 \<le> be_decimals b" using wf by (simp add: engine_wf_def)
  from amt have p: "parseAmount (env_allocated env) (be_decimals b) = Inr a"
    "parseAmount (env_spent env) (be_decimals b) = Inr s" by (simp_all add: env_amounts_Some)
  have add: "budget_add b (env_allocated env) (m_amount amount) =
      Inr (formatAmount (a + v) (be_decimals b))"
    using p v by (intro budget_add_val)
  have sub: "budget_subtract b (formatAmount (a + v) (be_decimals b)) (env_spent env) =
      Inr (formatAmount (a + v - s) (be_decimals b))"
    using p d by (intro budget_subtract_val) simp_all
  show ?thesis
    by (simp add: allocate_def getEnvelope_def get assertCurrency_def cur throw_when_def pos add sub)
qed

lemma deallocate_step:
  assumes wf: "engine_wf b" and get: "jm_get (be_envelopes b) i = Some env"
    and cur: "m_currency amount = be_currency b" and pos: "assertPositive amount = Inr ()"
    and v: "parseAmount (m_amount amount) (be_decimals b) = Inr v"
    and amt: "env_amounts b env = Some (a, s, av)"
  shows "deallocate b i amount = store_envelope b i
    (if a - v < s then Inl (BudgetError B_INSUFFICIENT_BUDGET)
     else Inr (env\<lparr>env_allocated := formatAmount (a - v) (be_decimals b),
                  env_available := formatAmount (a - v - s) (be_decimals b)\<rparr>))"
proof -
  have d: "0 \<le> be_decimals b" using wf by (simp add: engine_wf_def)
  from amt have p: "parseAmount (env_allocated env) (be_decimals b) = Inr a"
    "parseAmount (env_spent env) (be_decimals b) = Inr s" by (simp_all add: env_amounts_Some)
  have sub1: "budget_subtract b (env_allocated env) (m_amount amount) =
      Inr (formatAmount (a - v) (be_decimals b))"
    using p v by (intro budget_subtract_val)
  have sub2: "budget_subtract b (formatAmount (a - v) (be_decimals b)) (env_spent env) =
      Inr (formatAmount (a - v - s) (be_decimals b))"
    using p d by (intro budget_subtract_val) simp_all
  have neg: "isNegative (engine_money b (formatAmount (a - v - s) (be_decimals b))) = Inr (a - v - s < 0)"
    using d by (simp add: isNegative_Inr)
  show ?thesis
    by (simp add: deallocate_def getEnvelope_def get assertCurrency_def cur throw_when_def pos sub1 sub2 neg)
qed

lemma compare_val:
  assumes "scaled_of x = Inr vx" "scaled_of y = Inr vy" "m_currency x = m_currency y"
    "m_decimals x = m_decimals y"
  shows "compareMoney x y = Inr (if vx < vy then - 1 else if vx > vy then 1 else 0)"
  using assms by (simp add: compareMoney_Inr)

lemma spend_step:
  assumes wf: "engine_wf b" and get: "jm_get (be_envelopes b) i = Some env"
    and unit: "m_currency amount = be_currency b" "m_decimals amount = be_decimals b"
    and v: "scaled_of amount = Inr v" "0 < v"
    and amt: "env_amounts b env = Some (a, s, av)"
  shows "spend b i amount = store_envelope b i
    (if v > av then Inl (BudgetError B_INSUFFICIENT_BUDGET)
     else Inr (env\<lparr>env_spent := formatAmount (s + v) (be_decimals b),
                  env_available := formatAmount (a - (s + v)) (be_decimals b)\<rparr>))"
proof -
  have d: "0 \<le> be_decimals b" using wf by (simp add: engine_wf_def)
  from amt have p: "parseAmount (env_allocated env) (be_decimals b) = Inr a"
    "parseAmount (env_spent env) (be_decimals b) = Inr s"
    "parseAmount (env_available env) (be_decimals b) = Inr av" by (simp_all add: env_amounts_Some)
  have pos: "assertPositive amount = Inr ()" using v by (simp add: assertPositive_Inr)
  have pv: "parseAmount (m_amount amount) (be_decimals b) = Inr v" using v unit by (simp add: scaled_of_def)
  have cmp: "compareMoney amount (engine_money b (env_available env)) =
      Inr (if v < av then - 1 else if v > av then 1 else 0)"
    using unit p v by (intro compare_val) (simp_all add: engine_money_def scaled_of_def)
  have add: "budget_add b (env_spent env) (m_amount amount) = Inr (formatAmount (s + v) (be_decimals b))"
    using p pv by (intro budget_add_val)
  have sub: "budget_subtract b (env_allocated env) (formatAmount (s + v) (be_decimals b)) =
      Inr (formatAmount (a - (s + v)) (be_decimals b))"
    using p d by (intro budget_subtract_val) simp_all
  show ?thesis
    by (simp add: spend_def getEnvelope_def get assertCurrency_def unit throw_when_def pos add sub cmp)
qed

lemma reverseSpend_step:
  assumes wf: "engine_wf b" and get: "jm_get (be_envelopes b) i = Some env"
    and unit: "m_currency amount = be_currency b" "m_decimals amount = be_decimals b"
    and v: "scaled_of amount = Inr v" "0 < v"
    and amt: "env_amounts b env = Some (a, s, av)"
  shows "reverseSpend b i amount = store_envelope b i
    (if v > s then Inl (BudgetError B_INVALID_AMOUNT)
     else Inr (env\<lparr>env_spent := formatAmount (s - v) (be_decimals b),
                  env_available := formatAmount (a - (s - v)) (be_decimals b)\<rparr>))"
proof -
  have d: "0 \<le> be_decimals b" using wf by (simp add: engine_wf_def)
  from amt have p: "parseAmount (env_allocated env) (be_decimals b) = Inr a"
    "parseAmount (env_spent env) (be_decimals b) = Inr s" by (simp_all add: env_amounts_Some)
  have pos: "assertPositive amount = Inr ()" using v by (simp add: assertPositive_Inr)
  have pv: "parseAmount (m_amount amount) (be_decimals b) = Inr v" using v unit by (simp add: scaled_of_def)
  have cmp: "compareMoney amount (engine_money b (env_spent env)) =
      Inr (if v < s then - 1 else if v > s then 1 else 0)"
    using unit p v by (intro compare_val) (simp_all add: engine_money_def scaled_of_def)
  have sub1: "budget_subtract b (env_spent env) (m_amount amount) = Inr (formatAmount (s - v) (be_decimals b))"
    using p pv by (intro budget_subtract_val)
  have sub2: "budget_subtract b (env_allocated env) (formatAmount (s - v) (be_decimals b)) =
      Inr (formatAmount (a - (s - v)) (be_decimals b))"
    using p d by (intro budget_subtract_val) simp_all
  show ?thesis
    by (simp add: reverseSpend_def getEnvelope_def get assertCurrency_def unit throw_when_def pos sub1 sub2 cmp)
qed


subsection \<open>The abstract budget and the refinement\<close>

text \<open>An abstract budget maps envelope ids to the integers allocated and spent.\<close>

type_synonym abstract_budget = "string \<Rightarrow> (int \<times> int) option"

definition budget_abs :: "budget_engine \<Rightarrow> abstract_budget" where
  "budget_abs b i =
     (case jm_get (be_envelopes b) i of None \<Rightarrow> None
      | Some e \<Rightarrow> map_option (\<lambda>(a, s, v). (a, s)) (env_amounts b e))"

definition abs_allocate :: "string \<Rightarrow> int \<Rightarrow> abstract_budget \<Rightarrow> abstract_budget option" where
  "abs_allocate i v m = (case m i of None \<Rightarrow> None | Some (a, s) \<Rightarrow> Some (m(i \<mapsto> (a + v, s))))"

definition abs_deallocate :: "string \<Rightarrow> int \<Rightarrow> abstract_budget \<Rightarrow> abstract_budget option" where
  "abs_deallocate i v m =
     (case m i of None \<Rightarrow> None
      | Some (a, s) \<Rightarrow> if v \<le> a - s then Some (m(i \<mapsto> (a - v, s))) else None)"

definition abs_spend :: "string \<Rightarrow> int \<Rightarrow> abstract_budget \<Rightarrow> abstract_budget option" where
  "abs_spend i v m =
     (case m i of None \<Rightarrow> None
      | Some (a, s) \<Rightarrow> if v \<le> a - s then Some (m(i \<mapsto> (a, s + v))) else None)"

definition abs_reverse :: "string \<Rightarrow> int \<Rightarrow> abstract_budget \<Rightarrow> abstract_budget option" where
  "abs_reverse i v m =
     (case m i of None \<Rightarrow> None
      | Some (a, s) \<Rightarrow> if v \<le> s then Some (m(i \<mapsto> (a, s - v))) else None)"

definition refines ::
  "budget_engine \<Rightarrow> envelope result \<times> budget_engine \<Rightarrow> abstract_budget option \<Rightarrow> bool" where
  "refines b out spec \<longleftrightarrow>
     (case out of
        (Inr e, b') \<Rightarrow> spec = Some (budget_abs b') \<and> engine_wf b'
      | (Inl err, b') \<Rightarrow> spec = None \<and> b' = b)"

lemma refines_fail: "spec = None \<Longrightarrow> refines b (store_envelope b i (Inl err)) spec"
  by (simp add: refines_def store_envelope_def)

lemma env_amounts_update [simp]: "env_amounts (b\<lparr>be_envelopes := m\<rparr>) x = env_amounts b x"
  by (simp add: env_amounts_def)

lemma budget_abs_store:
  assumes "env_amounts b e = Some (a, s, v)"
  shows "budget_abs (b\<lparr>be_envelopes := jm_set (be_envelopes b) i e\<rparr>) = (budget_abs b)(i \<mapsto> (a, s))"
proof
  fix j
  show "budget_abs (b\<lparr>be_envelopes := jm_set (be_envelopes b) i e\<rparr>) j =
      ((budget_abs b)(i \<mapsto> (a, s))) j"
    using assms by (simp add: budget_abs_def split: option.split)
qed

lemma refines_ok:
  assumes "engine_wf b" "env_amounts b e = Some (a, s, a - s)" "0 \<le> s" "s \<le> a" "env_id e = i"
    and "env_currency e = be_currency b" "env_decimals e = be_decimals b"
    and "spec = Some ((budget_abs b)(i \<mapsto> (a, s)))"
  shows "refines b (store_envelope b i (Inr e)) spec"
proof -
  have "env_wf b e" using assms by (simp add: env_wf_def)
  with assms(1,5) have "engine_wf (b\<lparr>be_envelopes := jm_set (be_envelopes b) i e\<rparr>)"
    by (intro engine_wf_store)
  then show ?thesis
    using assms(8) by (simp add: refines_def store_envelope_def budget_abs_store[OF assms(2)])
qed

lemma getEnvelope_missing:
  assumes "jm_get (be_envelopes b) i = None"
  shows "allocate b i amount = (Inl (BudgetError B_ENVELOPE_NOT_FOUND), b)"
    "deallocate b i amount = (Inl (BudgetError B_ENVELOPE_NOT_FOUND), b)"
    "spend b i amount = (Inl (BudgetError B_ENVELOPE_NOT_FOUND), b)"
    "reverseSpend b i amount = (Inl (BudgetError B_ENVELOPE_NOT_FOUND), b)"
  using assms
  by (simp_all add: allocate_def deallocate_def spend_def reverseSpend_def getEnvelope_def store_envelope_def)

lemma engine_wf_get:
  assumes "engine_wf b" "jm_get (be_envelopes b) i = Some env"
  obtains a s where "env_amounts b env = Some (a, s, a - s)" "0 \<le> s" "s \<le> a"
    "env_currency env = be_currency b" "env_decimals env = be_decimals b" "env_id env = i"
    "0 \<le> be_decimals b" "budget_abs b i = Some (a, s)"
proof -
  have w: "env_wf b env" "env_id env = i" "0 \<le> be_decimals b"
    using assms by (simp_all add: engine_wf_def)
  from w(1) show ?thesis
  proof (rule env_wfE)
    fix a s
    assume e: "env_amounts b env = Some (a, s, a - s)" "0 \<le> s" "s \<le> a"
      "env_currency env = be_currency b" "env_decimals env = be_decimals b"
    have "budget_abs b i = Some (a, s)" using assms(2) e(1) by (simp add: budget_abs_def)
    with e w show ?thesis using that by blast
  qed
qed

lemma amounts_upd_alloc:
  assumes "env_amounts b env = Some (a, s, v)" "0 \<le> be_decimals b"
  shows "env_amounts b (env\<lparr>env_allocated := formatAmount a' (be_decimals b),
      env_available := formatAmount v' (be_decimals b)\<rparr>) = Some (a', s, v')"
  using assms by (simp add: env_amounts_Some)

lemma amounts_upd_spent:
  assumes "env_amounts b env = Some (a, s, v)" "0 \<le> be_decimals b"
  shows "env_amounts b (env\<lparr>env_spent := formatAmount s' (be_decimals b),
      env_available := formatAmount v' (be_decimals b)\<rparr>) = Some (a, s', v')"
  using assms by (simp add: env_amounts_Some)

lemma allocate_refines:
  assumes wf: "engine_wf b" and cur: "m_currency amount = be_currency b"
    and pos: "assertPositive amount = Inr ()"
    and v: "parseAmount (m_amount amount) (be_decimals b) = Inr v"
  shows "refines b (allocate b i amount) (abs_allocate i v (budget_abs b))"
proof (cases "jm_get (be_envelopes b) i")
  case None
  then show ?thesis by (simp add: refines_def getEnvelope_missing abs_allocate_def budget_abs_def)
next
  case (Some env)
  obtain w where w: "scaled_of amount = Inr w" "0 < w" using pos by (auto simp: assertPositive_Inr)
  then have v0: "0 < v" using parse_sign[OF w(1)[unfolded scaled_of_def] v] by blast
  obtain a s where e: "env_amounts b env = Some (a, s, a - s)" "0 \<le> s" "s \<le> a"
      "env_currency env = be_currency b" "env_decimals env = be_decimals b" "env_id env = i"
      "0 \<le> be_decimals b" "budget_abs b i = Some (a, s)"
    by (rule engine_wf_get[OF wf Some])
  show ?thesis
    unfolding allocate_step[OF wf Some cur pos v e(1)]
    by (rule refines_ok[OF wf amounts_upd_alloc[OF e(1,7)]])
      (use e v0 in \<open>simp_all add: abs_allocate_def\<close>)
qed

lemma deallocate_refines:
  assumes wf: "engine_wf b" and cur: "m_currency amount = be_currency b"
    and pos: "assertPositive amount = Inr ()"
    and v: "parseAmount (m_amount amount) (be_decimals b) = Inr v"
  shows "refines b (deallocate b i amount) (abs_deallocate i v (budget_abs b))"
proof (cases "jm_get (be_envelopes b) i")
  case None
  then show ?thesis by (simp add: refines_def getEnvelope_missing abs_deallocate_def budget_abs_def)
next
  case (Some env)
  obtain a s where e: "env_amounts b env = Some (a, s, a - s)" "0 \<le> s" "s \<le> a"
      "env_currency env = be_currency b" "env_decimals env = be_decimals b" "env_id env = i"
      "0 \<le> be_decimals b" "budget_abs b i = Some (a, s)"
    by (rule engine_wf_get[OF wf Some])
  note step = deallocate_step[OF wf Some cur pos v e(1)]
  show ?thesis
  proof (cases "a - v < s")
    case True
    then show ?thesis unfolding step if_P[OF True]
      by (intro refines_fail) (simp add: abs_deallocate_def e)
  next
    case False
    show ?thesis unfolding step if_not_P[OF False]
      by (rule refines_ok[OF wf amounts_upd_alloc[OF e(1,7)]])
        (use e False in \<open>simp_all add: abs_deallocate_def\<close>)
  qed
qed

lemma spend_refines:
  assumes wf: "engine_wf b" and unit: "m_currency amount = be_currency b" "m_decimals amount = be_decimals b"
    and v: "scaled_of amount = Inr v" "0 < v"
  shows "refines b (spend b i amount) (abs_spend i v (budget_abs b))"
proof (cases "jm_get (be_envelopes b) i")
  case None
  then show ?thesis by (simp add: refines_def getEnvelope_missing abs_spend_def budget_abs_def)
next
  case (Some env)
  obtain a s where e: "env_amounts b env = Some (a, s, a - s)" "0 \<le> s" "s \<le> a"
      "env_currency env = be_currency b" "env_decimals env = be_decimals b" "env_id env = i"
      "0 \<le> be_decimals b" "budget_abs b i = Some (a, s)"
    by (rule engine_wf_get[OF wf Some])
  note step = spend_step[OF wf Some unit v e(1)]
  show ?thesis
  proof (cases "v > a - s")
    case True
    then show ?thesis unfolding step if_P[OF True]
      by (intro refines_fail) (simp add: abs_spend_def e)
  next
    case False
    show ?thesis unfolding step if_not_P[OF False]
      by (rule refines_ok[OF wf amounts_upd_spent[OF e(1,7)]])
        (use e v False in \<open>simp_all add: abs_spend_def\<close>)
  qed
qed

lemma reverse_refines:
  assumes wf: "engine_wf b" and unit: "m_currency amount = be_currency b" "m_decimals amount = be_decimals b"
    and v: "scaled_of amount = Inr v" "0 < v"
  shows "refines b (reverseSpend b i amount) (abs_reverse i v (budget_abs b))"
proof (cases "jm_get (be_envelopes b) i")
  case None
  then show ?thesis by (simp add: refines_def getEnvelope_missing abs_reverse_def budget_abs_def)
next
  case (Some env)
  obtain a s where e: "env_amounts b env = Some (a, s, a - s)" "0 \<le> s" "s \<le> a"
      "env_currency env = be_currency b" "env_decimals env = be_decimals b" "env_id env = i"
      "0 \<le> be_decimals b" "budget_abs b i = Some (a, s)"
    by (rule engine_wf_get[OF wf Some])
  note step = reverseSpend_step[OF wf Some unit v e(1)]
  show ?thesis
  proof (cases "v > s")
    case True
    then show ?thesis unfolding step if_P[OF True]
      by (intro refines_fail) (simp add: abs_reverse_def e)
  next
    case False
    show ?thesis unfolding step if_not_P[OF False]
      by (rule refines_ok[OF wf amounts_upd_spent[OF e(1,7)]])
        (use e v False in \<open>simp_all add: abs_reverse_def\<close>)
  qed
qed


lemma allocate_Inr:
  assumes "fst (allocate b i amount) = Inr e"
  obtains v where "m_currency amount = be_currency b" "assertPositive amount = Inr ()"
    "parseAmount (m_amount amount) (be_decimals b) = Inr v"
  using assms unfolding allocate_def store_envelope_def
  by (auto simp: bind_r_eq_Inr assertCurrency_def throw_when_Inr budget_add_Inr split: sum.splits)

lemma deallocate_Inr:
  assumes "fst (deallocate b i amount) = Inr e"
  obtains v where "m_currency amount = be_currency b" "assertPositive amount = Inr ()"
    "parseAmount (m_amount amount) (be_decimals b) = Inr v"
  using assms unfolding deallocate_def store_envelope_def
  by (auto simp: bind_r_eq_Inr assertCurrency_def throw_when_Inr budget_subtract_Inr split: sum.splits)

lemma spend_Inr:
  assumes "fst (spend b i amount) = Inr e"
  obtains v where "m_currency amount = be_currency b" "m_decimals amount = be_decimals b"
    "scaled_of amount = Inr v" "0 < v"
  using assms unfolding spend_def store_envelope_def
  by (auto simp: bind_r_eq_Inr assertCurrency_def throw_when_Inr compareMoney_Inr assertPositive_Inr
      engine_money_def split: sum.splits)

lemma reverseSpend_Inr:
  assumes "fst (reverseSpend b i amount) = Inr e"
  obtains v where "m_currency amount = be_currency b" "m_decimals amount = be_decimals b"
    "scaled_of amount = Inr v" "0 < v"
  using assms unfolding reverseSpend_def store_envelope_def
  by (auto simp: bind_r_eq_Inr assertCurrency_def throw_when_Inr compareMoney_Inr assertPositive_Inr
      engine_money_def split: sum.splits)

lemma store_envelope_Inl: "fst (store_envelope b i r) = Inl err \<Longrightarrow> snd (store_envelope b i r) = b"
  by (auto simp: store_envelope_def split: sum.splits)

lemma budget_error_state:
  "fst (allocate b i amount) = Inl err \<Longrightarrow> snd (allocate b i amount) = b"
  "fst (deallocate b i amount) = Inl err \<Longrightarrow> snd (deallocate b i amount) = b"
  "fst (spend b i amount) = Inl err \<Longrightarrow> snd (spend b i amount) = b"
  "fst (reverseSpend b i amount) = Inl err \<Longrightarrow> snd (reverseSpend b i amount) = b"
  "fst (restoreEnvelope b env) = Inl err \<Longrightarrow> snd (restoreEnvelope b env) = b"
  unfolding allocate_def deallocate_def spend_def reverseSpend_def restoreEnvelope_def
  by (rule store_envelope_Inl, assumption)+

lemma refines_wf: "engine_wf b \<Longrightarrow> refines b out spec \<Longrightarrow> engine_wf (snd out)"
  by (cases out; cases "fst out") (auto simp: refines_def)

lemma engine_wf_allocate: assumes "engine_wf b" shows "engine_wf (snd (allocate b i amount))"
proof (cases "fst (allocate b i amount)")
  case (Inl err)
  then show ?thesis using assms budget_error_state(1) by simp
next
  case (Inr e)
  then show ?thesis by (rule allocate_Inr) (blast intro: refines_wf assms allocate_refines)
qed

lemma engine_wf_deallocate: assumes "engine_wf b" shows "engine_wf (snd (deallocate b i amount))"
proof (cases "fst (deallocate b i amount)")
  case (Inl err)
  then show ?thesis using assms budget_error_state(2) by simp
next
  case (Inr e)
  then show ?thesis by (rule deallocate_Inr) (blast intro: refines_wf assms deallocate_refines)
qed

lemma engine_wf_spend: assumes "engine_wf b" shows "engine_wf (snd (spend b i amount))"
proof (cases "fst (spend b i amount)")
  case (Inl err)
  then show ?thesis using assms budget_error_state(3) by simp
next
  case (Inr e)
  then show ?thesis by (rule spend_Inr) (blast intro: refines_wf assms spend_refines)
qed

lemma engine_wf_reverse: assumes "engine_wf b" shows "engine_wf (snd (reverseSpend b i amount))"
proof (cases "fst (reverseSpend b i amount)")
  case (Inl err)
  then show ?thesis using assms budget_error_state(4) by simp
next
  case (Inr e)
  then show ?thesis by (rule reverseSpend_Inr) (blast intro: refines_wf assms reverse_refines)
qed

lemma parse_zero: "0 \<le> d \<Longrightarrow> parseAmount ''0'' d = Inr 0"
proof -
  assume d: "0 \<le> d"
  have "parseAmount ''0'' 0 = Inr 0" by code_simp
  from parse_scale[OF this d] show ?thesis by simp
qed

lemma engine_wf_create: assumes "engine_wf b" shows "engine_wf (snd (createEnvelope b i n c now))"
proof (cases "jm_has (be_envelopes b) i")
  case True
  then show ?thesis using assms by (simp add: createEnvelope_def)
next
  case False
  let ?e = "\<lparr>env_id = i, env_name = n, env_currency = be_currency b,
             env_decimals = be_decimals b, env_allocated = ''0'', env_spent = ''0'',
             env_available = ''0'', env_category = c, env_createdAt = now\<rparr>"
  have d: "0 \<le> be_decimals b" using assms by (simp add: engine_wf_def)
  have "env_wf b ?e" using d parse_zero by (simp add: env_wf_def env_amounts_def)
  then show ?thesis
    using False assms by (simp add: createEnvelope_def Let_def engine_wf_store)
qed

text \<open>Restoring: accepted exactly for a new id and strings with 0 <= spent <= allocated.\<close>

lemma throw_seq: "bind_r (throw_when p err) f = (if p then Inl err else f ())"
  by (simp add: throw_when_def)

lemma restoreEnvelope_ok:
  assumes wf: "engine_wf b" and new: "\<not> hasEnvelope b (env_id env)"
    and a: "parseAmount (env_allocated env) (be_decimals b) = Inr a"
    and s: "parseAmount (env_spent env) (be_decimals b) = Inr s"
  shows "restoreEnvelope b env = store_envelope b (env_id env)
    (if a < 0 \<or> s < 0 \<or> a < s then Inl (BudgetError B_INVALID_ENVELOPE_STATE)
     else Inr (env\<lparr>env_currency := be_currency b, env_decimals := be_decimals b,
                 env_available := formatAmount (a - s) (be_decimals b)\<rparr>))"
proof -
  have n: "isNegative (engine_money b (env_allocated env)) = Inr (a < 0)"
    "isNegative (engine_money b (env_spent env)) = Inr (s < 0)"
    using a s by (simp_all add: isNegative_Inr)
  have c: "compareMoney (engine_money b (env_spent env)) (engine_money b (env_allocated env)) =
      Inr (if s < a then - 1 else if s > a then 1 else 0)"
    using a s by (intro compare_val) (simp_all add: engine_money_def scaled_of_def)
  have sub: "budget_subtract b (env_allocated env) (env_spent env) =
      Inr (formatAmount (a - s) (be_decimals b))"
    using a s by (intro budget_subtract_val)
  show ?thesis
    using new unfolding restoreEnvelope_def hasEnvelope_def throw_seq n c sub
    by (simp add: throw_seq)
qed

lemma restoreEnvelope_Inr:
  assumes "fst (restoreEnvelope b env) = Inr e"
  obtains a s where "\<not> hasEnvelope b (env_id env)"
    "parseAmount (env_allocated env) (be_decimals b) = Inr a"
    "parseAmount (env_spent env) (be_decimals b) = Inr s"
  using assms unfolding restoreEnvelope_def store_envelope_def hasEnvelope_def
  by (auto simp: bind_r_eq_Inr throw_when_Inr isNegative_Inr split: sum.splits)

lemma restoreEnvelope_refines:
  assumes wf: "engine_wf b" and new: "\<not> hasEnvelope b (env_id env)"
    and a: "parseAmount (env_allocated env) (be_decimals b) = Inr a"
    and s: "parseAmount (env_spent env) (be_decimals b) = Inr s"
  shows "refines b (restoreEnvelope b env)
    (if 0 \<le> s \<and> s \<le> a then Some ((budget_abs b)(env_id env \<mapsto> (a, s))) else None)"
proof (cases "a < 0 \<or> s < 0 \<or> a < s")
  case True
  then show ?thesis unfolding restoreEnvelope_ok[OF assms] if_P[OF True]
    by (intro refines_fail) auto
next
  case False
  have d: "0 \<le> be_decimals b" using wf by (simp add: engine_wf_def)
  have amt: "env_amounts b (env\<lparr>env_currency := be_currency b, env_decimals := be_decimals b,
      env_available := formatAmount (a - s) (be_decimals b)\<rparr>) = Some (a, s, a - s)"
    using a s d by (simp add: env_amounts_Some)
  show ?thesis unfolding restoreEnvelope_ok[OF assms] if_not_P[OF False]
    by (rule refines_ok[OF wf amt]) (use False in simp_all)
qed

lemma engine_wf_restore: assumes "engine_wf b" shows "engine_wf (snd (restoreEnvelope b env))"
proof (cases "fst (restoreEnvelope b env)")
  case (Inl err)
  then show ?thesis using assms budget_error_state(5) by simp
next
  case (Inr e)
  then show ?thesis
    by (rule restoreEnvelope_Inr) (blast intro: refines_wf assms restoreEnvelope_refines)
qed

lemmas engine_wf_ops = engine_wf_create engine_wf_allocate engine_wf_deallocate engine_wf_spend
  engine_wf_reverse engine_wf_restore


subsection \<open>Snapshots restore\<close>

abbreviation amounts_of :: "budget_engine \<Rightarrow> envelope \<Rightarrow> int \<times> int \<times> int" where
  "amounts_of b e \<equiv> the (env_amounts b e)"

lemma snapshot_fold:
  assumes d: "0 \<le> be_decimals b" and "\<forall>e \<in> set es. env_wf b e"
    and "parseAmount ta (be_decimals b) = Inr x" "parseAmount ts (be_decimals b) = Inr y"
    and "parseAmount tv (be_decimals b) = Inr (x - y)"
  shows "\<exists>ta' ts' tv'. foldE (budget_snapshot_step b) (ta, ts, tv) es = Inr (ta', ts', tv') \<and>
    parseAmount ta' (be_decimals b) = Inr (x + (\<Sum>e\<leftarrow>es. fst (amounts_of b e))) \<and>
    parseAmount ts' (be_decimals b) = Inr (y + (\<Sum>e\<leftarrow>es. fst (snd (amounts_of b e)))) \<and>
    parseAmount tv' (be_decimals b) = Inr (x + (\<Sum>e\<leftarrow>es. fst (amounts_of b e)) -
      (y + (\<Sum>e\<leftarrow>es. fst (snd (amounts_of b e)))))"
  using assms(2-)
proof (induction es arbitrary: ta ts tv x y)
  case Nil
  then show ?case by simp
next
  case (Cons e es)
  have "env_wf b e" using Cons.prems(1) by simp
  then obtain a s where e: "env_amounts b e = Some (a, s, a - s)" by (rule env_wfE)
  then have p: "parseAmount (env_allocated e) (be_decimals b) = Inr a"
    "parseAmount (env_spent e) (be_decimals b) = Inr s"
    "parseAmount (env_available e) (be_decimals b) = Inr (a - s)" by (simp_all add: env_amounts_Some)
  have step: "budget_snapshot_step b (ta, ts, tv) e =
      Inr (formatAmount (x + a) (be_decimals b), formatAmount (y + s) (be_decimals b),
           formatAmount (x - y + (a - s)) (be_decimals b))"
    by (simp add: budget_snapshot_step_def budget_add_val[OF Cons.prems(2) p(1)]
        budget_add_val[OF Cons.prems(3) p(2)] budget_add_val[OF Cons.prems(4) p(3)])
  have wf: "\<forall>e \<in> set es. env_wf b e" using Cons.prems(1) by simp
  have "parseAmount (formatAmount (x - y + (a - s)) (be_decimals b)) (be_decimals b) =
      Inr ((x + a) - (y + s))" using d by (simp add: algebra_simps)
  from Cons.IH[OF wf parse_format[OF d] parse_format[OF d] this]
  show ?case by (simp add: step e add.assoc)
qed

lemma foldl_set_distinct:
  assumes "distinct (map fst m @ map f xs)"
  shows "foldl (\<lambda>m x. jm_set m (f x) x) m xs = m @ map (\<lambda>x. (f x, x)) xs"
  using assms
proof (induction xs arbitrary: m)
  case Nil
  then show ?case by simp
next
  case (Cons x xs)
  have "jm_set m (f x) x = m @ [(f x, x)]"
    using Cons.prems by (intro jm_set_new) (simp add: jm_has_keys)
  with Cons show ?case by simp
qed

lemma engine_envelopes_keys:
  assumes "engine_wf b"
  shows "be_envelopes b = map (\<lambda>e. (env_id e, e)) (listEnvelopes b)"
    and "distinct (map env_id (listEnvelopes b))" and "\<forall>e \<in> set (listEnvelopes b). env_wf b e"
proof -
  have wf: "jm_wf (be_envelopes b)" using assms by (simp add: engine_wf_def)
  have ent: "env_id e = i \<and> env_wf b e" if "(i, e) \<in> set (be_envelopes b)" for i e
    using that assms wf by (simp add: engine_wf_def jm_get_in)
  then have "map (\<lambda>e. (env_id e, e)) (listEnvelopes b) = map (\<lambda>p. p) (be_envelopes b)"
    unfolding listEnvelopes_def map_map by (intro map_cong) auto
  then show keys: "be_envelopes b = map (\<lambda>e. (env_id e, e)) (listEnvelopes b)" by simp
  have "map env_id (listEnvelopes b) = jm_keys (be_envelopes b)"
    by (subst keys) simp
  with wf show "distinct (map env_id (listEnvelopes b))" by (simp add: jm_wf_def)
  show "\<forall>e \<in> set (listEnvelopes b). env_wf b e"
    using ent by (auto simp: listEnvelopes_def)
qed

subsection \<open>Properties\<close>

text \<open>C33: The four budget operations implement integer budgeting. For an amount in the engine's
  currency and decimals with a positive value \<open>v\<close>, \<^verbatim>\<open>allocate\<close>, \<^verbatim>\<open>deallocate\<close>, \<^verbatim>\<open>spend\<close>
  and \<^verbatim>\<open>reverseSpend\<close> succeed exactly when the abstract operation does (the envelope exists,
  deallocating or spending at most what is available, reversing at most what was spent), they
  change exactly that envelope by \<open>v\<close>, and a refusal changes nothing.\<close>

theorem budget_refinement:
  assumes "engine_wf b" and "m_currency amount = be_currency b" "m_decimals amount = be_decimals b"
    and "scaled_of amount = Inr v" "0 < v"
  shows "refines b (allocate b i amount) (abs_allocate i v (budget_abs b)) \<and>
    refines b (deallocate b i amount) (abs_deallocate i v (budget_abs b)) \<and>
    refines b (spend b i amount) (abs_spend i v (budget_abs b)) \<and>
    refines b (reverseSpend b i amount) (abs_reverse i v (budget_abs b))"
proof -
  have "assertPositive amount = Inr ()" using assms(4,5) by (simp add: assertPositive_Inr)
  moreover have "parseAmount (m_amount amount) (be_decimals b) = Inr v"
    using assms(3,4) by (simp add: scaled_of_def)
  ultimately show ?thesis
    using assms allocate_refines deallocate_refines spend_refines reverse_refines by blast
qed

definition sample_engine :: budget_engine where
  "sample_engine = snd (allocate (snd (createEnvelope (new_engine ''me'' ''USD'' 2) ''e'' ''rent'' None ''t''))
     ''e'' \<lparr>m_amount = ''10'', m_currency = ''USD'', m_decimals = 2\<rparr>)"

lemma sample_engine_wf: "engine_wf sample_engine"
  unfolding sample_engine_def
  by (intro engine_wf_ops) (simp add: engine_wf_def new_engine_def)

lemma sample_engine_eq: "sample_engine = \<lparr>be_ownerId = ''me'', be_currency = ''USD'', be_decimals = 2,
    be_envelopes = [(''e'', \<lparr>env_id = ''e'', env_name = ''rent'',
      env_currency = ''USD'', env_decimals = 2, env_allocated = ''10.00'', env_spent = ''0'',
      env_available = ''10.00'', env_category = None, env_createdAt = ''t''\<rparr>)]\<rparr>"
  by code_simp

theorem budget_refinement_witness:
  "let amount = \<lparr>m_amount = ''2.5'', m_currency = ''USD'', m_decimals = 2\<rparr>
   in refines sample_engine (spend sample_engine ''e'' amount) (Some [''e'' \<mapsto> (1000, 250)])"
proof -
  let ?m = "\<lparr>m_amount = ''2.5'', m_currency = ''USD'', m_decimals = 2\<rparr>"
  have v: "scaled_of ?m = Inr 250" by code_simp
  have u: "m_currency ?m = be_currency sample_engine" "m_decimals ?m = be_decimals sample_engine"
    by (simp_all add: sample_engine_eq)
  note e = sample_engine_eq
  have p: "parseAmount ''10.00'' 2 = Inr 1000" "parseAmount ''0'' 2 = Inr 0" by code_simp+
  have "budget_abs sample_engine = [''e'' \<mapsto> (1000, 0)]"
    by (rule ext) (simp add: budget_abs_def e env_amounts_def p)
  then have "abs_spend ''e'' 250 (budget_abs sample_engine) = Some [''e'' \<mapsto> (1000, 250)]"
    by (simp add: abs_spend_def)
  with budget_refinement[OF sample_engine_wf u v, of "''e''"] show ?thesis by simp
qed

text \<open>Whatever arguments the operations get, an engine in which every envelope has parseable
  amounts, 0 <= spent <= allocated and available = allocated - spent stays one: creating,
  allocating, deallocating, spending, reversing and restoring all keep the invariant.\<close>

theorem budget_invariant:
  assumes "engine_wf b"
  shows "engine_wf (snd (createEnvelope b i name category now)) \<and>
    engine_wf (snd (allocate b i amount)) \<and> engine_wf (snd (deallocate b i amount)) \<and>
    engine_wf (snd (spend b i amount)) \<and> engine_wf (snd (reverseSpend b i amount)) \<and>
    engine_wf (snd (restoreEnvelope b env))"
  using assms by (intro conjI engine_wf_ops)

theorem budget_invariant_witness:
  "engine_wf (snd (spend sample_engine ''e'' \<lparr>m_amount = ''7'', m_currency = ''USD'', m_decimals = 2\<rparr>))"
  using budget_invariant[OF sample_engine_wf] by blast

text \<open>A snapshot of a well-formed engine is always produced; its totals are the sums over the
  envelopes, with total available = total allocated - total spent, and rebuilding an engine that
  has an envelope from it gives back the same engine.\<close>

theorem budget_snapshot_restores:
  assumes "engine_wf b" and "be_envelopes b \<noteq> []"
  shows "\<exists>s x y. take_budget_snapshot b now = Inr s \<and> budget_fromSnapshot s = b \<and>
    x = (\<Sum>e\<leftarrow>listEnvelopes b. fst (amounts_of b e)) \<and>
    y = (\<Sum>e\<leftarrow>listEnvelopes b. fst (snd (amounts_of b e))) \<and>
    parseAmount (bs_totalAllocated s) (be_decimals b) = Inr x \<and>
    parseAmount (bs_totalSpent s) (be_decimals b) = Inr y \<and>
    parseAmount (bs_totalAvailable s) (be_decimals b) = Inr (x - y)"
proof -
  have d: "0 \<le> be_decimals b" using assms(1) by (simp add: engine_wf_def)
  note keys = engine_envelopes_keys[OF assms(1)]
  have z: "parseAmount ''0'' (be_decimals b) = Inr 0" "parseAmount ''0'' (be_decimals b) = Inr (0 - 0)"
    using parse_zero[OF d] by simp_all
  obtain ta ts tv where f: "foldE (budget_snapshot_step b) (''0'', ''0'', ''0'') (listEnvelopes b) = Inr (ta, ts, tv)"
    "parseAmount ta (be_decimals b) = Inr (\<Sum>e\<leftarrow>listEnvelopes b. fst (amounts_of b e))"
    "parseAmount ts (be_decimals b) = Inr (\<Sum>e\<leftarrow>listEnvelopes b. fst (snd (amounts_of b e)))"
    "parseAmount tv (be_decimals b) = Inr ((\<Sum>e\<leftarrow>listEnvelopes b. fst (amounts_of b e)) -
        (\<Sum>e\<leftarrow>listEnvelopes b. fst (snd (amounts_of b e))))"
    using snapshot_fold[OF d keys(3) z(1) z(1) z(2)] by auto
  define s where "s = \<lparr>bs_ownerId = be_ownerId b, bs_envelopes = listEnvelopes b,
     bs_totalAllocated = ta, bs_totalSpent = ts, bs_totalAvailable = tv,
     bs_currency = be_currency b, bs_asOf = now\<rparr>"
  have s: "take_budget_snapshot b now = Inr s" by (simp add: take_budget_snapshot_def f(1) s_def)
  obtain e es where ee: "listEnvelopes b = e # es" using assms(2) keys(1) by (cases "listEnvelopes b") auto
  then have de: "env_decimals e = be_decimals b" using keys(3) by (auto simp: env_wf_def)
  have "foldl (\<lambda>m e. jm_set m (env_id e) e) [] (listEnvelopes b) = be_envelopes b"
    using foldl_set_distinct[of "[]" env_id "listEnvelopes b"] keys(1,2) by simp
  then have "budget_fromSnapshot s = b"
    by (simp add: budget_fromSnapshot_def s_def new_engine_def ee de)
  with s f show ?thesis by (intro exI[of _ s]) (simp add: s_def)
qed

theorem budget_snapshot_restores_witness:
  "\<exists>s. take_budget_snapshot sample_engine ''t'' = Inr s \<and> budget_fromSnapshot s = sample_engine"
proof -
  have "be_envelopes sample_engine \<noteq> []" by (simp add: sample_engine_eq)
  from budget_snapshot_restores[OF sample_engine_wf this, of "''t''"] show ?thesis by blast
qed

text \<open>A snapshot of an engine without envelopes does not carry the engine's decimals: the
  restored engine has 6 decimals, whatever the original had.\<close>

theorem budget_empty_snapshot_decimals:
  "\<exists>s. take_budget_snapshot (new_engine owner cur decs) now = Inr s \<and>
     be_decimals (budget_fromSnapshot s) = 6"
  by (simp add: take_budget_snapshot_def new_engine_def listEnvelopes_def budget_fromSnapshot_def Let_def)

end
