(* ===== verification/Intents.thy ===== *)
theory Intents
  imports Budget
begin

section \<open>The intent manager and the vault\<close>

text \<open>
  Model of \<^verbatim>\<open>packages/vault/src/intent-manager.ts\<close> (the lifecycle of intents) and of the
  intent, budget and snapshot methods of \<^verbatim>\<open>packages/vault/src/vault.ts\<close>. The manager holds a
  reference to the budget engine it shares with the vault; here the engine is part of the
  manager's state, and the vault's budget methods act on it. In JavaScript a missing envelope id
  and the empty string are both falsy, so \<open>charge\<close> yields an envelope and an amount only for a
  non-empty id. The portfolio methods of the vault, which query chains, and the opaque field
  \<^verbatim>\<open>extra\<close> of an intent's parameters are not modelled.

  The main results: the transition table is obeyed by every method, and in every state a vault
  can reach, the spent amount of each envelope is the sum of the amounts of its intents that are
  executed or verified.
\<close>

datatype intent_status = Declared | Approved | Rejected | Executing | Executed | Verified | Failed

datatype intent_kind = Transfer | Swap | Allocate | Deallocate | Bridge | Stake | Unstake

record intent_params =
  vp_fromChainId :: "string option"
  vp_toChainId :: "string option"
  vp_fromAddress :: "string option"
  vp_toAddress :: "string option"
  vp_amount :: "money option"
  vp_receiveToken :: "string option"

record intent_approval =
  via_approvedBy :: string
  via_approvedAt :: string
  via_approved :: bool
  via_reason :: "string option"

record intent_execution =
  vie_executedAt :: string
  vie_chainId :: string
  vie_txHash :: string

record intent_verification =
  viv_verifiedAt :: string
  viv_matched :: bool
  viv_discrepancies :: "string list option"

record vault_intent =
  vi_id :: string
  vi_status :: intent_status
  vi_kind :: intent_kind
  vi_description :: string
  vi_declaredBy :: string
  vi_declaredAt :: string
  vi_params :: intent_params
  vi_envelopeId :: "string option"
  vi_approval :: "intent_approval option"
  vi_execution :: "intent_execution option"
  vi_verification :: "intent_verification option"

record intent_manager =
  im_budget :: budget_engine
  im_intents :: "(string, vault_intent) jsmap"

fun VALID_TRANSITIONS :: "intent_status \<Rightarrow> intent_status list" where
  "VALID_TRANSITIONS Declared = [Approved, Rejected]"
| "VALID_TRANSITIONS Approved = [Executing, Rejected]"
| "VALID_TRANSITIONS Rejected = []"
| "VALID_TRANSITIONS Executing = [Executed, Failed]"
| "VALID_TRANSITIONS Executed = [Verified, Failed]"
| "VALID_TRANSITIONS Verified = []"
| "VALID_TRANSITIONS Failed = []"

definition requireIntent :: "intent_manager \<Rightarrow> string \<Rightarrow> vault_intent result" where
  "requireIntent m i =
     (case jm_get (im_intents m) i of
        None \<Rightarrow> Inl (IntentError I_INTENT_NOT_FOUND) | Some x \<Rightarrow> Inr x)"

definition assertTransition :: "vault_intent \<Rightarrow> intent_status \<Rightarrow> unit result" where
  "assertTransition x target =
     throw_when (target \<notin> set (VALID_TRANSITIONS (vi_status x))) (IntentError I_INVALID_TRANSITION)"

definition store_intent :: "intent_manager \<Rightarrow> string \<Rightarrow> vault_intent \<Rightarrow> vault_intent result \<times> intent_manager" where
  "store_intent m i x = (Inr x, m\<lparr>im_intents := jm_set (im_intents m) i x\<rparr>)"

definition charge_of :: "string option \<Rightarrow> intent_params \<Rightarrow> (string \<times> money) option" where
  "charge_of envelopeId params =
     (case (envelopeId, vp_amount params) of
        (Some (c # cs), Some amount) \<Rightarrow> Some (c # cs, amount) | _ \<Rightarrow> None)"

definition charge :: "vault_intent \<Rightarrow> (string \<times> money) option" where
  "charge x = charge_of (vi_envelopeId x) (vi_params x)"

subsection \<open>Lifecycle\<close>

definition budget_precheck :: "intent_manager \<Rightarrow> string option \<Rightarrow> intent_params \<Rightarrow> unit result" where
  "budget_precheck m envelopeId params =
     (case charge_of envelopeId params of None \<Rightarrow> Inr ()
      | Some (e, amount) \<Rightarrow>
          bind_r (getEnvelope (im_budget m) e) (\<lambda>env.
          bind_r (compareMoney amount \<lparr>m_amount = env_available env, m_currency = env_currency env,
                                       m_decimals = env_decimals env\<rparr>) (\<lambda>c.
            throw_when (c > 0) (IntentError I_BUDGET_EXCEEDED))))"

definition intent_declare ::
  "intent_manager \<Rightarrow> string \<Rightarrow> intent_kind \<Rightarrow> string \<Rightarrow> string \<Rightarrow> intent_params \<Rightarrow> string option \<Rightarrow>
   string \<Rightarrow> vault_intent result \<times> intent_manager" where
  "intent_declare m i kind description declaredBy params envelopeId now =
     (if jm_has (im_intents m) i then (Inl (IntentError I_ALREADY_EXISTS), m)
      else case budget_precheck m envelopeId params of
        Inl err \<Rightarrow> (Inl err, m)
      | Inr _ \<Rightarrow> store_intent m i
          \<lparr>vi_id = i, vi_status = Declared, vi_kind = kind, vi_description = description,
           vi_declaredBy = declaredBy, vi_declaredAt = now, vi_params = params,
           vi_envelopeId = envelopeId, vi_approval = None, vi_execution = None,
           vi_verification = None\<rparr>)"

text \<open>The shape shared by the transitions: look up, check the table, then act.\<close>

definition guarded ::
  "intent_manager \<Rightarrow> string \<Rightarrow> intent_status \<Rightarrow>
   (vault_intent \<Rightarrow> vault_intent result \<times> intent_manager) \<Rightarrow> vault_intent result \<times> intent_manager" where
  "guarded m i target act =
     (case requireIntent m i of Inl err \<Rightarrow> (Inl err, m)
      | Inr x \<Rightarrow> (case assertTransition x target of Inl err \<Rightarrow> (Inl err, m) | Inr _ \<Rightarrow> act x))"

definition approve ::
  "intent_manager \<Rightarrow> string \<Rightarrow> string \<Rightarrow> string option \<Rightarrow> string \<Rightarrow> vault_intent result \<times> intent_manager" where
  "approve m i approvedBy reason now = guarded m i Approved (\<lambda>x.
     store_intent m i (x\<lparr>vi_status := Approved, vi_approval := Some
       \<lparr>via_approvedBy = approvedBy, via_approvedAt = now, via_approved = True, via_reason = reason\<rparr>\<rparr>))"

definition reject ::
  "intent_manager \<Rightarrow> string \<Rightarrow> string \<Rightarrow> string \<Rightarrow> string \<Rightarrow> vault_intent result \<times> intent_manager" where
  "reject m i rejectedBy reason now = guarded m i Rejected (\<lambda>x.
     store_intent m i (x\<lparr>vi_status := Rejected, vi_approval := Some
       \<lparr>via_approvedBy = rejectedBy, via_approvedAt = now, via_approved = False,
        via_reason = Some reason\<rparr>\<rparr>))"

definition markExecuting :: "intent_manager \<Rightarrow> string \<Rightarrow> vault_intent result \<times> intent_manager" where
  "markExecuting m i = guarded m i Executing (\<lambda>x. store_intent m i (x\<lparr>vi_status := Executing\<rparr>))"

text \<open>A call of the budget engine from within a transition.\<close>

definition with_budget ::
  "intent_manager \<Rightarrow> envelope result \<times> budget_engine \<Rightarrow>
   (intent_manager \<Rightarrow> vault_intent result \<times> intent_manager) \<Rightarrow> vault_intent result \<times> intent_manager" where
  "with_budget m call k =
     (case call of (Inl err, b) \<Rightarrow> (Inl err, m\<lparr>im_budget := b\<rparr>) | (Inr _, b) \<Rightarrow> k (m\<lparr>im_budget := b\<rparr>))"

definition recordExecution ::
  "intent_manager \<Rightarrow> string \<Rightarrow> string \<Rightarrow> string \<Rightarrow> string \<Rightarrow> vault_intent result \<times> intent_manager" where
  "recordExecution m i chainId txHash now = guarded m i Executed (\<lambda>x.
     let fin = (\<lambda>m. store_intent m i (x\<lparr>vi_status := Executed, vi_execution := Some
           \<lparr>vie_executedAt = now, vie_chainId = chainId, vie_txHash = txHash\<rparr>\<rparr>))
     in case charge x of None \<Rightarrow> fin m
        | Some (e, amount) \<Rightarrow> with_budget m (spend (im_budget m) e amount) fin)"

definition verify ::
  "intent_manager \<Rightarrow> string \<Rightarrow> bool \<Rightarrow> string list option \<Rightarrow> string \<Rightarrow> vault_intent result \<times> intent_manager" where
  "verify m i matched discrepancies now = guarded m i Verified (\<lambda>x.
     store_intent m i (x\<lparr>vi_status := Verified, vi_verification := Some
       \<lparr>viv_verifiedAt = now, viv_matched = matched, viv_discrepancies = discrepancies\<rparr>\<rparr>))"

definition recordFailure ::
  "intent_manager \<Rightarrow> string \<Rightarrow> string list \<Rightarrow> string \<Rightarrow> vault_intent result \<times> intent_manager" where
  "recordFailure m i discrepancies now = guarded m i Failed (\<lambda>x.
     let fin = (\<lambda>m. store_intent m i (x\<lparr>vi_status := Failed, vi_verification := Some
           \<lparr>viv_verifiedAt = now, viv_matched = False, viv_discrepancies = Some discrepancies\<rparr>\<rparr>))
     in case (if vi_status x = Executed then charge x else None) of None \<Rightarrow> fin m
        | Some (e, amount) \<Rightarrow> with_budget m (reverseSpend (im_budget m) e amount) fin)"

subsection \<open>Queries and restore\<close>

definition getIntent :: "intent_manager \<Rightarrow> string \<Rightarrow> vault_intent option" where
  "getIntent m i = jm_get (im_intents m) i"

definition listIntents :: "intent_manager \<Rightarrow> intent_status option \<Rightarrow> vault_intent list" where
  "listIntents m st =
     (case st of None \<Rightarrow> jm_values (im_intents m)
      | Some s \<Rightarrow> filter (\<lambda>x. vi_status x = s) (jm_values (im_intents m)))"

definition listByEnvelope :: "intent_manager \<Rightarrow> string \<Rightarrow> vault_intent list" where
  "listByEnvelope m e = filter (\<lambda>x. vi_envelopeId x = Some e) (jm_values (im_intents m))"

definition intentCount :: "intent_manager \<Rightarrow> nat" where
  "intentCount m = length (im_intents m)"

definition exportIntents :: "intent_manager \<Rightarrow> vault_intent list" where
  "exportIntents m = jm_values (im_intents m)"

definition importIntents :: "intent_manager \<Rightarrow> vault_intent list \<Rightarrow> unit result \<times> intent_manager" where
  "importIntents m xs =
     (if 0 < length (im_intents m) then (Inl (IntentError I_IMPORT_NOT_EMPTY), m)
      else case import_records vi_id (IntentError I_DUPLICATE_IMPORT_ID) (im_intents m) {} xs of (r, store) \<Rightarrow> (r, m\<lparr>im_intents := store\<rparr>))"

subsection \<open>The vault\<close>

record watched_address =
  wa_chainId :: string
  wa_address :: string
  wa_label :: "string option"

record vault_config =
  vc_ownerId :: string
  vc_watchedAddresses :: "watched_address list"
  vc_defaultCurrency :: string
  vc_defaultDecimals :: int

record vault =
  vt_config :: vault_config
  vt_intents :: intent_manager

record vault_snapshot =
  vs_version :: int
  vs_config :: vault_config
  vs_envelopes :: "envelope list"
  vs_intents :: "vault_intent list"
  vs_savedAt :: string

definition CURRENT_VAULT_SNAPSHOT_VERSION :: int where
  "CURRENT_VAULT_SNAPSHOT_VERSION = 1"

definition new_vault :: "vault_config \<Rightarrow> vault" where
  "new_vault c = \<lparr>vt_config = c, vt_intents =
     \<lparr>im_budget = new_engine (vc_ownerId c) (vc_defaultCurrency c) (vc_defaultDecimals c),
      im_intents = []\<rparr>\<rparr>"

definition on_budget :: "vault \<Rightarrow> 'a \<times> budget_engine \<Rightarrow> 'a \<times> vault" where
  "on_budget v call = (case call of (r, b) \<Rightarrow> (r, v\<lparr>vt_intents := (vt_intents v)\<lparr>im_budget := b\<rparr>\<rparr>))"

definition on_intents :: "vault \<Rightarrow> 'a \<times> intent_manager \<Rightarrow> 'a \<times> vault" where
  "on_intents v call = (case call of (r, m) \<Rightarrow> (r, v\<lparr>vt_intents := m\<rparr>))"

definition vault_createEnvelope ::
  "vault \<Rightarrow> string \<Rightarrow> string \<Rightarrow> string option \<Rightarrow> string \<Rightarrow> envelope result \<times> vault" where
  "vault_createEnvelope v i name category now =
     on_budget v (createEnvelope (im_budget (vt_intents v)) i name category now)"

definition vault_allocateToEnvelope :: "vault \<Rightarrow> string \<Rightarrow> money \<Rightarrow> envelope result \<times> vault" where
  "vault_allocateToEnvelope v i amount = on_budget v (allocate (im_budget (vt_intents v)) i amount)"

definition vault_getBudget :: "vault \<Rightarrow> string \<Rightarrow> budget_snapshot result" where
  "vault_getBudget v now = take_budget_snapshot (im_budget (vt_intents v)) now"

definition vault_declareIntent ::
  "vault \<Rightarrow> string \<Rightarrow> intent_kind \<Rightarrow> string \<Rightarrow> intent_params \<Rightarrow> string option \<Rightarrow> string \<Rightarrow>
   vault_intent result \<times> vault" where
  "vault_declareIntent v i kind description params envelopeId now =
     on_intents v (intent_declare (vt_intents v) i kind description (vc_ownerId (vt_config v)) params
       envelopeId now)"

definition vault_approveIntent :: "vault \<Rightarrow> string \<Rightarrow> string option \<Rightarrow> string \<Rightarrow> vault_intent result \<times> vault" where
  "vault_approveIntent v i reason now =
     on_intents v (approve (vt_intents v) i (vc_ownerId (vt_config v)) reason now)"

definition vault_rejectIntent :: "vault \<Rightarrow> string \<Rightarrow> string \<Rightarrow> string \<Rightarrow> vault_intent result \<times> vault" where
  "vault_rejectIntent v i reason now =
     on_intents v (reject (vt_intents v) i (vc_ownerId (vt_config v)) reason now)"

definition vault_markIntentExecuting :: "vault \<Rightarrow> string \<Rightarrow> vault_intent result \<times> vault" where
  "vault_markIntentExecuting v i = on_intents v (markExecuting (vt_intents v) i)"

definition vault_recordIntentExecution ::
  "vault \<Rightarrow> string \<Rightarrow> string \<Rightarrow> string \<Rightarrow> string \<Rightarrow> vault_intent result \<times> vault" where
  "vault_recordIntentExecution v i chainId txHash now =
     on_intents v (recordExecution (vt_intents v) i chainId txHash now)"

definition vault_verifyIntent ::
  "vault \<Rightarrow> string \<Rightarrow> bool \<Rightarrow> string list option \<Rightarrow> string \<Rightarrow> vault_intent result \<times> vault" where
  "vault_verifyIntent v i matched discrepancies now =
     on_intents v (verify (vt_intents v) i matched discrepancies now)"

definition vault_recordIntentFailure ::
  "vault \<Rightarrow> string \<Rightarrow> string list \<Rightarrow> string \<Rightarrow> vault_intent result \<times> vault" where
  "vault_recordIntentFailure v i discrepancies now =
     on_intents v (recordFailure (vt_intents v) i discrepancies now)"

definition take_vault_snapshot :: "vault \<Rightarrow> string \<Rightarrow> vault_snapshot" where
  "take_vault_snapshot v now =
     \<lparr>vs_version = CURRENT_VAULT_SNAPSHOT_VERSION, vs_config = vt_config v,
      vs_envelopes = listEnvelopes (im_budget (vt_intents v)),
      vs_intents = exportIntents (vt_intents v), vs_savedAt = now\<rparr>"

definition restore_envelopes :: "budget_engine \<Rightarrow> envelope list \<Rightarrow> budget_engine result" where
  "restore_envelopes b es =
     foldE (\<lambda>b e. case restoreEnvelope b e of (Inl err, _) \<Rightarrow> Inl err | (Inr _, b') \<Rightarrow> Inr b') b es"

definition vault_restoreFromSnapshot :: "vault_snapshot \<Rightarrow> vault result" where
  "vault_restoreFromSnapshot s =
     (if vs_version s \<noteq> CURRENT_VAULT_SNAPSHOT_VERSION
      then Inl (VaultError V_UNSUPPORTED_SNAPSHOT_VERSION)
      else let v = new_vault (vs_config s)
        in case restore_envelopes (im_budget (vt_intents v)) (vs_envelopes s) of
             Inl _ \<Rightarrow> Inl (VaultError V_RESTORE_INVALID)
           | Inr b \<Rightarrow>
               (case importIntents ((vt_intents v)\<lparr>im_budget := b\<rparr>) (vs_intents s) of
                  (Inl err, _) \<Rightarrow> Inl err
                | (Inr _, m) \<Rightarrow> Inr (v\<lparr>vt_intents := m\<rparr>)))"

subsection \<open>What is spent on an envelope\<close>

definition counted :: "vault_intent \<Rightarrow> bool" where
  "counted x \<longleftrightarrow> vi_status x = Executed \<or> vi_status x = Verified"

definition intent_spent :: "string \<Rightarrow> vault_intent \<Rightarrow> int" where
  "intent_spent e x =
     (if counted x then case charge x of None \<Rightarrow> 0
        | Some (e', amount) \<Rightarrow> if e' = e then money_value amount else 0
      else 0)"

definition spent_on :: "(string, vault_intent) jsmap \<Rightarrow> string \<Rightarrow> int" where
  "spent_on xs e = (\<Sum>x\<leftarrow>jm_values xs. intent_spent e x)"

definition valid_charge :: "budget_engine \<Rightarrow> vault_intent \<Rightarrow> bool" where
  "valid_charge b x \<longleftrightarrow>
     (case charge x of None \<Rightarrow> True
      | Some (e, amount) \<Rightarrow> budget_abs b e \<noteq> None \<and> m_currency amount = be_currency b \<and>
          m_decimals amount = be_decimals b \<and> (\<exists>v. scaled_of amount = Inr v \<and> 0 < v))"

definition manager_wf :: "intent_manager \<Rightarrow> bool" where
  "manager_wf m \<longleftrightarrow> engine_wf (im_budget m) \<and> jm_wf (im_intents m) \<and>
     (\<forall>i x. jm_get (im_intents m) i = Some x \<longrightarrow>
        vi_id x = i \<and> (counted x \<longrightarrow> valid_charge (im_budget m) x)) \<and>
     (\<forall>e a s. budget_abs (im_budget m) e = Some (a, s) \<longrightarrow> s = spent_on (im_intents m) e)"

lemma sum_values_set:
  assumes "jm_get m k = Some v"
  shows "(\<Sum>x\<leftarrow>jm_values (jm_set m k w). f x) = (\<Sum>x\<leftarrow>jm_values m. f x) - f v + (f w :: int)"
proof -
  obtain xs ys where "m = xs @ (k, v) # ys" "jm_set m k w = xs @ (k, w) # ys"
    using assms by (rule jm_set_split)
  then show ?thesis by simp
qed

lemma sum_values_new:
  assumes "\<not> jm_has m k"
  shows "(\<Sum>x\<leftarrow>jm_values (jm_set m k w). f x) = (\<Sum>x\<leftarrow>jm_values m. f x) + (f w :: int)"
  using assms by (simp add: jm_set_new)

lemma guarded_cases:
  assumes "guarded m i target act = (r, m')"
  obtains (fail) err where "r = Inl err" "m' = m"
  | (act) x where "jm_get (im_intents m) i = Some x" "target \<in> set (VALID_TRANSITIONS (vi_status x))"
      "act x = (r, m')"
  using assms
  by (auto simp: guarded_def requireIntent_def assertTransition_def throw_when_def
      split: option.splits if_splits)

lemma guarded_ok:
  assumes "jm_get (im_intents m) i = Some x" "target \<in> set (VALID_TRANSITIONS (vi_status x))"
  shows "guarded m i target act = act x"
  using assms by (simp add: guarded_def requireIntent_def assertTransition_def throw_when_def)

lemma transitions_iff:
  "t \<in> set (VALID_TRANSITIONS s) \<longleftrightarrow>
     (s, t) \<in> {(Declared, Approved), (Declared, Rejected), (Approved, Executing), (Approved, Rejected),
       (Executing, Executed), (Executing, Failed), (Executed, Verified), (Executed, Failed)}"
  by (cases s) auto

lemma charge_update [simp]:
  "charge (x\<lparr>vi_status := s\<rparr>) = charge x" "charge (x\<lparr>vi_approval := a\<rparr>) = charge x"
  "charge (x\<lparr>vi_execution := ex\<rparr>) = charge x" "charge (x\<lparr>vi_verification := v\<rparr>) = charge x"
  by (simp_all add: charge_def)

lemma valid_charge_cong: "charge y = charge x \<Longrightarrow> valid_charge b y = valid_charge b x"
  by (simp add: valid_charge_def)

definition same_unit :: "budget_engine \<Rightarrow> budget_engine \<Rightarrow> bool" where
  "same_unit b b' \<longleftrightarrow> be_currency b' = be_currency b \<and> be_decimals b' = be_decimals b \<and>
     dom (budget_abs b) \<subseteq> dom (budget_abs b')"

lemma valid_charge_mono: "same_unit b b' \<Longrightarrow> valid_charge b x \<Longrightarrow> valid_charge b' x"
  by (auto simp: valid_charge_def same_unit_def split: option.splits)

text \<open>Storing an intent in place of another, with a budget that moved by the difference.\<close>

lemma manager_wf_store:
  assumes wf: "manager_wf m" and x: "jm_get (im_intents m) i = Some x" and y: "vi_id y = i"
    and b: "engine_wf b" "same_unit (im_budget m) b"
    and spent: "\<And>e a s. budget_abs b e = Some (a, s) \<Longrightarrow>
      s = spent_on (im_intents m) e - intent_spent e x + intent_spent e y"
    and charge: "counted y \<Longrightarrow> valid_charge b y"
  shows "manager_wf (m\<lparr>im_budget := b, im_intents := jm_set (im_intents m) i y\<rparr>)"
proof -
  have "spent_on (jm_set (im_intents m) i y) e =
      spent_on (im_intents m) e - intent_spent e x + intent_spent e y" for e
    unfolding spent_on_def using x by (rule sum_values_set)
  moreover have "counted z \<longrightarrow> valid_charge b z" if "jm_get (im_intents m) j = Some z" for j z
    using wf that valid_charge_mono[OF b(2)] by (simp add: manager_wf_def)
  ultimately show ?thesis
    using wf b(1) y charge spent by (auto simp: manager_wf_def)
qed

lemma manager_wf_spent:
  assumes "manager_wf m" "budget_abs (im_budget m) e = Some (a, s)"
  shows "s = spent_on (im_intents m) e"
  using assms by (simp add: manager_wf_def)

text \<open>A transition that moves no money: both intents count the same.\<close>

lemma manager_wf_same:
  assumes wf: "manager_wf m" and x: "jm_get (im_intents m) i = Some x"
    and y: "vi_id y = vi_id x" "charge y = charge x" "counted y = counted x"
  shows "manager_wf (m\<lparr>im_intents := jm_set (im_intents m) i y\<rparr>)"
proof -
  have "manager_wf (m\<lparr>im_budget := im_budget m, im_intents := jm_set (im_intents m) i y\<rparr>)"
  proof (rule manager_wf_store[OF wf x])
    show "vi_id y = i" "engine_wf (im_budget m)" using wf x y by (auto simp: manager_wf_def)
    show "same_unit (im_budget m) (im_budget m)" by (simp add: same_unit_def)
    have eq: "intent_spent e y = intent_spent e x" for e using y by (simp add: intent_spent_def)
    show "s = spent_on (im_intents m) e - intent_spent e x + intent_spent e y"
      if "budget_abs (im_budget m) e = Some (a, s)" for e a s
      using manager_wf_spent[OF wf that] eq by simp
    show "valid_charge (im_budget m) y" if "counted y"
      using that wf x y valid_charge_cong[OF y(2)] by (auto simp: manager_wf_def)
  qed
  then show ?thesis by simp
qed


lemma manager_update_eq:
  "(m\<lparr>im_budget := b\<rparr>)\<lparr>im_intents := xs\<rparr> = m\<lparr>im_budget := b, im_intents := xs\<rparr>"
  by simp

lemma charge_of_Some:
  "charge_of eid p = Some (e, amount) \<longleftrightarrow> eid = Some e \<and> e \<noteq> [] \<and> vp_amount p = Some amount"
  by (auto simp: charge_of_def split: option.splits list.splits)

lemma intent_spent_nonneg:
  assumes "manager_wf m" "x \<in> set (jm_values (im_intents m))"
  shows "0 \<le> intent_spent e x"
proof -
  obtain i where "jm_get (im_intents m) i = Some x"
    using assms jm_values_get[of "im_intents m" x] by (auto simp: manager_wf_def)
  with assms(1) have "counted x \<longrightarrow> valid_charge (im_budget m) x" by (simp add: manager_wf_def)
  then show ?thesis
    by (auto simp: intent_spent_def valid_charge_def money_value_def split: option.splits)
qed

lemma elem_le_sum_list_int: "x \<in> set xs \<Longrightarrow> \<forall>y \<in> set xs. 0 \<le> y \<Longrightarrow> x \<le> sum_list (xs :: int list)"
proof (induction xs)
  case (Cons y ys)
  have "0 \<le> sum_list ys" using Cons.prems(2) by (intro sum_list_nonneg) auto
  with Cons show ?case by auto
qed simp

lemma intent_spent_le:
  assumes wf: "manager_wf m" and x: "jm_get (im_intents m) i = Some x"
  shows "intent_spent e x \<le> spent_on (im_intents m) e"
proof -
  have "x \<in> set (jm_values (im_intents m))" using x by (rule jm_get_value)
  moreover have "\<forall>y \<in> set (map (intent_spent e) (jm_values (im_intents m))). 0 \<le> y"
    using intent_spent_nonneg[OF wf] by auto
  ultimately show ?thesis
    unfolding spent_on_def by (intro elem_le_sum_list_int) auto
qed

lemma store_envelope_unit [simp]:
  "be_currency (snd (store_envelope b i r)) = be_currency b"
  "be_decimals (snd (store_envelope b i r)) = be_decimals b"
  by (auto simp: store_envelope_def split: sum.splits)

lemma spend_unit [simp]:
  "be_currency (snd (spend b i a)) = be_currency b" "be_decimals (snd (spend b i a)) = be_decimals b"
  by (simp_all add: spend_def)

lemma reverseSpend_unit [simp]:
  "be_currency (snd (reverseSpend b i a)) = be_currency b"
  "be_decimals (snd (reverseSpend b i a)) = be_decimals b"
  by (simp_all add: reverseSpend_def)

lemma spend_success:
  assumes wf: "engine_wf b" and s: "spend b e amount = (Inr env, b')"
  obtains a s v where "budget_abs b e = Some (a, s)" "scaled_of amount = Inr v" "0 < v" "v \<le> a - s"
    "m_currency amount = be_currency b" "m_decimals amount = be_decimals b"
    "budget_abs b' = (budget_abs b)(e \<mapsto> (a, s + v))" "engine_wf b'" "same_unit b b'"
proof -
  have "fst (spend b e amount) = Inr env" using s by simp
  then obtain v where v: "m_currency amount = be_currency b" "m_decimals amount = be_decimals b"
    "scaled_of amount = Inr v" "0 < v" by (rule spend_Inr)
  have u: "be_currency b' = be_currency b" "be_decimals b' = be_decimals b"
    using spend_unit[of b e amount] s by simp_all
  have r: "abs_spend e v (budget_abs b) = Some (budget_abs b')" "engine_wf b'"
    using spend_refines[OF wf v, of e] s by (simp_all add: refines_def)
  obtain a s where as: "budget_abs b e = Some (a, s)" "v \<le> a - s"
    "budget_abs b' = (budget_abs b)(e \<mapsto> (a, s + v))"
    using r(1) by (auto simp: abs_spend_def split: option.splits if_splits)
  have "same_unit b b'" using u as(3) by (auto simp: same_unit_def)
  with v r as show ?thesis using that by blast
qed

lemma reverse_success:
  assumes wf: "engine_wf b" and s: "reverseSpend b e amount = (Inr env, b')"
  obtains a s v where "budget_abs b e = Some (a, s)" "scaled_of amount = Inr v" "0 < v" "v \<le> s"
    "budget_abs b' = (budget_abs b)(e \<mapsto> (a, s - v))" "engine_wf b'" "same_unit b b'"
proof -
  have "fst (reverseSpend b e amount) = Inr env" using s by simp
  then obtain v where v: "m_currency amount = be_currency b" "m_decimals amount = be_decimals b"
    "scaled_of amount = Inr v" "0 < v" by (rule reverseSpend_Inr)
  have u: "be_currency b' = be_currency b" "be_decimals b' = be_decimals b"
    using reverseSpend_unit[of b e amount] s by simp_all
  have r: "abs_reverse e v (budget_abs b) = Some (budget_abs b')" "engine_wf b'"
    using reverse_refines[OF wf v, of e] s by (simp_all add: refines_def)
  obtain a s where as: "budget_abs b e = Some (a, s)" "v \<le> s"
    "budget_abs b' = (budget_abs b)(e \<mapsto> (a, s - v))"
    using r(1) by (auto simp: abs_reverse_def split: option.splits if_splits)
  have "same_unit b b'" using u as(3) by (auto simp: same_unit_def)
  with v r as show ?thesis using that by blast
qed

lemma with_budget_cases:
  assumes "with_budget m (call :: envelope result \<times> budget_engine) k = (r, m')"
    and "\<And>err. fst call = Inl err \<Longrightarrow> snd call = im_budget m"
  shows "(\<exists>err. r = Inl err \<and> m' = m) \<or>
    (\<exists>env b. call = (Inr env, b) \<and> k (m\<lparr>im_budget := b\<rparr>) = (r, m'))"
  using assms by (cases call; cases "fst call") (auto simp: with_budget_def)

text \<open>Recording an execution: the envelope is debited and the intent starts to count.\<close>

lemma recordExecution_wf:
  assumes wf: "manager_wf m" and r: "recordExecution m i ch tx now = (r, m')"
  shows "manager_wf m'"
  using r unfolding recordExecution_def
proof (cases rule: guarded_cases)
  case fail
  with wf show ?thesis by simp
next
  case (act x)
  let ?y = "x\<lparr>vi_status := Executed, vi_execution := Some
           \<lparr>vie_executedAt = now, vie_chainId = ch, vie_txHash = tx\<rparr>\<rparr>"
  have st: "\<not> counted x" using act(2) unfolding transitions_iff counted_def by auto
  have id: "vi_id x = i" using wf act(1) by (simp add: manager_wf_def)
  have zero: "intent_spent e x = 0" for e using st by (simp add: intent_spent_def)
  have cy: "counted ?y" "charge ?y = charge x" by (simp_all add: counted_def charge_def)
  show ?thesis
  proof (cases "charge x")
    case None
    have m': "m' = m\<lparr>im_budget := im_budget m, im_intents := jm_set (im_intents m) i ?y\<rparr>"
      using act(3) None by (simp add: store_intent_def)
    show ?thesis unfolding m'
    proof (rule manager_wf_store[OF wf act(1)])
      show "vi_id ?y = i" "engine_wf (im_budget m)" using id wf by (simp_all add: manager_wf_def)
      show "same_unit (im_budget m) (im_budget m)" by (simp add: same_unit_def)
      show "s = spent_on (im_intents m) e - intent_spent e x + intent_spent e ?y"
        if "budget_abs (im_budget m) e = Some (a, s)" for e a s
        using manager_wf_spent[OF wf that] None cy zero by (simp add: intent_spent_def)
      show "valid_charge (im_budget m) ?y" using cy None by (simp add: valid_charge_def)
    qed
  next
    case (Some ea)
    obtain e amount where ea: "ea = (e, amount)" by fastforce
    let ?fin = "\<lambda>m. store_intent m i ?y"
    have w: "with_budget m (spend (im_budget m) e amount) ?fin = (r, m')"
      using act(3) Some ea by simp
    consider (fail) "m' = m"
      | (ok) env b where "spend (im_budget m) e amount = (Inr env, b)" "?fin (m\<lparr>im_budget := b\<rparr>) = (r, m')"
      using with_budget_cases[OF w] budget_error_state(3)[of "im_budget m" e amount] by blast
    then show ?thesis
    proof cases
      case fail
      with wf show ?thesis by simp
    next
      case (ok env b)
      have bw: "engine_wf (im_budget m)" using wf by (simp add: manager_wf_def)
      obtain a s v where sp: "budget_abs (im_budget m) e = Some (a, s)" "scaled_of amount = Inr v"
        "0 < v" "m_currency amount = be_currency (im_budget m)" "m_decimals amount = be_decimals (im_budget m)"
        "budget_abs b = (budget_abs (im_budget m))(e \<mapsto> (a, s + v))" "engine_wf b"
        "same_unit (im_budget m) b"
        using spend_success[OF bw ok(1)] by metis
      have m': "m' = m\<lparr>im_budget := b, im_intents := jm_set (im_intents m) i ?y\<rparr>"
        using ok(2) by (simp add: store_intent_def)
      have spent: "intent_spent e' ?y = (if e' = e then v else 0)" for e'
        using cy Some ea sp(2) by (auto simp: intent_spent_def money_value_def)
      show ?thesis unfolding m'
      proof (rule manager_wf_store[OF wf act(1)])
        show "vi_id ?y = i" using id by simp
        show "engine_wf b" "same_unit (im_budget m) b" by (rule sp)+
        show "s' = spent_on (im_intents m) e' - intent_spent e' x + intent_spent e' ?y"
          if "budget_abs b e' = Some (a', s')" for e' a' s'
          using that sp(1,6) manager_wf_spent[OF wf] zero spent by (auto split: if_splits)
        have "budget_abs b e \<noteq> None" using sp(6) by simp
        moreover have "m_currency amount = be_currency b" "m_decimals amount = be_decimals b"
          using sp(4,5,8) by (simp_all add: same_unit_def)
        ultimately show "valid_charge b ?y"
          using cy(2) Some ea sp(2,3) by (simp add: valid_charge_def)
      qed
    qed
  qed
qed


lemma recordFailure_wf:
  assumes wf: "manager_wf m" and r: "recordFailure m i ds now = (r, m')"
  shows "manager_wf m'"
  using r unfolding recordFailure_def
proof (cases rule: guarded_cases)
  case fail
  with wf show ?thesis by simp
next
  case (act x)
  let ?y = "x\<lparr>vi_status := Failed, vi_verification := Some
           \<lparr>viv_verifiedAt = now, viv_matched = False, viv_discrepancies = Some ds\<rparr>\<rparr>"
  let ?fin = "\<lambda>m. store_intent m i ?y"
  have id: "vi_id x = i" using wf act(1) by (simp add: manager_wf_def)
  have cy: "\<not> counted ?y" "charge ?y = charge x" by (simp_all add: counted_def charge_def)
  have zero: "intent_spent e ?y = 0" for e using cy by (simp add: intent_spent_def)
  show ?thesis
  proof (cases "if vi_status x = Executed then charge x else None")
    case None
    have m': "m' = m\<lparr>im_budget := im_budget m, im_intents := jm_set (im_intents m) i ?y\<rparr>"
      using act(3) None by (simp add: store_intent_def)
    have "\<not> counted x \<or> charge x = None"
      using act(2) None unfolding transitions_iff counted_def by (auto split: if_splits)
    then have zx: "intent_spent e x = 0" for e by (auto simp: intent_spent_def)
    show ?thesis unfolding m'
    proof (rule manager_wf_store[OF wf act(1)])
      show "vi_id ?y = i" "engine_wf (im_budget m)" using id wf by (simp_all add: manager_wf_def)
      show "same_unit (im_budget m) (im_budget m)" by (simp add: same_unit_def)
      show "s = spent_on (im_intents m) e - intent_spent e x + intent_spent e ?y"
        if "budget_abs (im_budget m) e = Some (a, s)" for e a s
        using manager_wf_spent[OF wf that] zero zx by simp
      show "valid_charge (im_budget m) ?y" if "counted ?y" using that cy by simp
    qed
  next
    case (Some ea)
    obtain e amount where ea: "ea = (e, amount)" by fastforce
    have cx: "charge x = Some (e, amount)" and st: "counted x"
      using Some ea by (auto simp: counted_def split: if_splits)
    have w: "with_budget m (reverseSpend (im_budget m) e amount) ?fin = (r, m')"
      using act(3) Some ea by simp
    consider (fail) "m' = m"
      | (ok) env b where "reverseSpend (im_budget m) e amount = (Inr env, b)"
          "?fin (m\<lparr>im_budget := b\<rparr>) = (r, m')"
      using with_budget_cases[OF w] budget_error_state(4)[of "im_budget m" e amount] by blast
    then show ?thesis
    proof cases
      case fail
      with wf show ?thesis by simp
    next
      case (ok env b)
      have bw: "engine_wf (im_budget m)" using wf by (simp add: manager_wf_def)
      obtain a s v where sp: "budget_abs (im_budget m) e = Some (a, s)" "scaled_of amount = Inr v"
        "budget_abs b = (budget_abs (im_budget m))(e \<mapsto> (a, s - v))" "engine_wf b"
        "same_unit (im_budget m) b"
        using reverse_success[OF bw ok(1)] by metis
      have m': "m' = m\<lparr>im_budget := b, im_intents := jm_set (im_intents m) i ?y\<rparr>"
        using ok(2) by (simp add: store_intent_def)
      have spent: "intent_spent e' x = (if e' = e then v else 0)" for e'
        using st cx sp(2) by (auto simp: intent_spent_def money_value_def)
      show ?thesis unfolding m'
      proof (rule manager_wf_store[OF wf act(1)])
        show "vi_id ?y = i" using id by simp
        show "engine_wf b" "same_unit (im_budget m) b" by (rule sp)+
        show "s' = spent_on (im_intents m) e' - intent_spent e' x + intent_spent e' ?y"
          if "budget_abs b e' = Some (a', s')" for e' a' s'
          using that sp(1,3) manager_wf_spent[OF wf] zero spent by (auto split: if_splits)
        show "valid_charge b ?y" if "counted ?y" using that cy by simp
      qed
    qed
  qed
qed

lemma simple_transition_wf:
  assumes wf: "manager_wf m" and r: "guarded m i t (\<lambda>x. store_intent m i (f x)) = (r, m')"
    and f: "\<And>x. vi_id (f x) = vi_id x" "\<And>x. charge (f x) = charge x" "\<And>x. vi_status (f x) = t"
    and t: "t = Approved \<or> t = Rejected \<or> t = Executing \<or> t = Verified"
  shows "manager_wf m'"
  using r
proof (cases rule: guarded_cases)
  case fail
  with wf show ?thesis by simp
next
  case (act x)
  have m': "m' = m\<lparr>im_intents := jm_set (im_intents m) i (f x)\<rparr>"
    using act(3) by (simp add: store_intent_def)
  have "counted (f x) = counted x"
    using act(2) t unfolding transitions_iff counted_def f by auto
  with f show ?thesis unfolding m' by (intro manager_wf_same[OF wf act(1)])
qed

lemma transitions_wf:
  assumes "manager_wf m"
  shows "approve m i who why now = (r, m') \<Longrightarrow> manager_wf m'"
    and "reject m i who reason now = (r, m') \<Longrightarrow> manager_wf m'"
    and "markExecuting m i = (r, m') \<Longrightarrow> manager_wf m'"
    and "verify m i ok ds now = (r, m') \<Longrightarrow> manager_wf m'"
  unfolding approve_def reject_def markExecuting_def verify_def
  by (erule simple_transition_wf[OF assms]; simp add: charge_def)+

lemma intent_declare_wf:
  assumes wf: "manager_wf m" and r: "intent_declare m i k d by ps e now = (r, m')"
  shows "manager_wf m'"
proof -
  let ?y = "\<lparr>vi_id = i, vi_status = Declared, vi_kind = k, vi_description = d,
           vi_declaredBy = by, vi_declaredAt = now, vi_params = ps,
           vi_envelopeId = e, vi_approval = None, vi_execution = None, vi_verification = None\<rparr>"
  consider "m' = m" | (new) "\<not> jm_has (im_intents m) i"
    "m' = m\<lparr>im_intents := jm_set (im_intents m) i ?y\<rparr>"
    using r by (auto simp: intent_declare_def store_intent_def split: if_splits sum.splits)
  then show ?thesis
  proof cases
    case 1
    with wf show ?thesis by simp
  next
    case new
    have nc: "\<not> counted ?y" by (simp add: counted_def)
    have "spent_on (jm_set (im_intents m) i ?y) e' = spent_on (im_intents m) e'" for e'
      unfolding spent_on_def sum_values_new[OF new(1)] using nc by (simp add: intent_spent_def)
    then show ?thesis using wf nc unfolding new(2) by (auto simp: manager_wf_def)
  qed
qed

subsection \<open>Budget calls of the vault\<close>

lemma manager_wf_budget:
  assumes wf: "manager_wf m" and b: "engine_wf b" "same_unit (im_budget m) b"
    and spent: "\<And>e a s. budget_abs b e = Some (a, s) \<Longrightarrow>
      (\<exists>a'. budget_abs (im_budget m) e = Some (a', s)) \<or> (budget_abs (im_budget m) e = None \<and> s = 0)"
  shows "manager_wf (m\<lparr>im_budget := b\<rparr>)"
proof -
  have none: "spent_on (im_intents m) e = 0" if "budget_abs (im_budget m) e = None" for e
  proof -
    have "intent_spent e x = 0" if x: "x \<in> set (jm_values (im_intents m))" for x
    proof -
      obtain i where "jm_get (im_intents m) i = Some x"
        using wf x jm_values_get[of "im_intents m" x] by (auto simp: manager_wf_def)
      then have "counted x \<longrightarrow> valid_charge (im_budget m) x" using wf by (simp add: manager_wf_def)
      then show ?thesis
        using \<open>budget_abs (im_budget m) e = None\<close>
        by (auto simp: intent_spent_def valid_charge_def split: option.splits)
    qed
    then have "map (intent_spent e) (jm_values (im_intents m)) = map (\<lambda>_. 0) (jm_values (im_intents m))"
      by (intro map_cong refl)
    then show ?thesis unfolding spent_on_def by (simp only: sum_list_0)
  qed
  show ?thesis
    using wf b(1) valid_charge_mono[OF b(2)] none spent by (fastforce simp: manager_wf_def)
qed

lemma createEnvelope_wf:
  assumes wf: "manager_wf m"
  shows "manager_wf (m\<lparr>im_budget := snd (createEnvelope (im_budget m) i n c now)\<rparr>)"
proof (cases "jm_has (be_envelopes (im_budget m)) i")
  case True
  with wf show ?thesis by (simp add: createEnvelope_def)
next
  case False
  let ?b = "im_budget m"
  let ?e = "\<lparr>env_id = i, env_name = n, env_currency = be_currency ?b,
             env_decimals = be_decimals ?b, env_allocated = ''0'', env_spent = ''0'',
             env_available = ''0'', env_category = c, env_createdAt = now\<rparr>"
  have bw: "engine_wf ?b" using wf by (simp add: manager_wf_def)
  then have "env_amounts ?b ?e = Some (0, 0, 0)"
    using parse_zero by (simp add: env_amounts_Some engine_wf_def)
  then have abs: "budget_abs (snd (createEnvelope ?b i n c now)) = (budget_abs ?b)(i \<mapsto> (0, 0))"
    using False budget_abs_store by (simp add: createEnvelope_def Let_def)
  have none: "budget_abs ?b i = None" using False by (simp add: budget_abs_def jm_has_def)
  show ?thesis
  proof (rule manager_wf_budget[OF wf engine_wf_create[OF bw]])
    show "same_unit ?b (snd (createEnvelope ?b i n c now))"
      using False unfolding same_unit_def abs by (auto simp: createEnvelope_def Let_def)
    show "(\<exists>a'. budget_abs ?b e = Some (a', s)) \<or> (budget_abs ?b e = None \<and> s = 0)"
      if "budget_abs (snd (createEnvelope ?b i n c now)) e = Some (a, s)" for e a s
      using that none unfolding abs by (auto split: if_splits)
  qed
qed

lemma allocate_frame:
  assumes wf: "engine_wf b"
  shows "same_unit b (snd (allocate b i amount))"
    and "budget_abs (snd (allocate b i amount)) e = Some (a, s) \<Longrightarrow> \<exists>a'. budget_abs b e = Some (a', s)"
proof -
  let ?b' = "snd (allocate b i amount)"
  have u: "be_currency ?b' = be_currency b" "be_decimals ?b' = be_decimals b"
    by (simp_all add: allocate_def)
  consider "?b' = b" | a s v where "budget_abs b i = Some (a, s)" "budget_abs ?b' = (budget_abs b)(i \<mapsto> (a + v, s))"
  proof (cases "fst (allocate b i amount)")
    case (Inl err)
    then show ?thesis using that(1) budget_error_state(1) by simp
  next
    case (Inr env)
    then obtain v where "m_currency amount = be_currency b" "assertPositive amount = Inr ()"
      "parseAmount (m_amount amount) (be_decimals b) = Inr v" by (rule allocate_Inr)
    from allocate_refines[OF wf this, of i] Inr have "abs_allocate i v (budget_abs b) = Some (budget_abs ?b')"
      by (cases "allocate b i amount") (simp add: refines_def)
    then obtain a s where "budget_abs b i = Some (a, s)"
      "(budget_abs b)(i \<mapsto> (a + v, s)) = budget_abs ?b'"
      by (auto simp: abs_allocate_def split: option.splits)
    then show ?thesis using that(2) by metis
  qed
  note cases = this
  from cases u show "same_unit b ?b'" by cases (auto simp: same_unit_def)
  from cases show "budget_abs ?b' e = Some (a, s) \<Longrightarrow> \<exists>a'. budget_abs b e = Some (a', s)"
    by cases (auto split: if_splits)
qed

lemma deallocate_frame:
  assumes wf: "engine_wf b"
  shows "same_unit b (snd (deallocate b i amount))"
    and "budget_abs (snd (deallocate b i amount)) e = Some (a, s) \<Longrightarrow> \<exists>a'. budget_abs b e = Some (a', s)"
proof -
  let ?b' = "snd (deallocate b i amount)"
  have u: "be_currency ?b' = be_currency b" "be_decimals ?b' = be_decimals b"
    by (simp_all add: deallocate_def)
  consider "?b' = b" | a s v where "budget_abs b i = Some (a, s)" "budget_abs ?b' = (budget_abs b)(i \<mapsto> (a - v, s))"
  proof (cases "fst (deallocate b i amount)")
    case (Inl err)
    then show ?thesis using that(1) budget_error_state(2) by simp
  next
    case (Inr env)
    then obtain v where "m_currency amount = be_currency b" "assertPositive amount = Inr ()"
      "parseAmount (m_amount amount) (be_decimals b) = Inr v" by (rule deallocate_Inr)
    from deallocate_refines[OF wf this, of i] Inr have "abs_deallocate i v (budget_abs b) = Some (budget_abs ?b')"
      by (cases "deallocate b i amount") (simp add: refines_def)
    then obtain a s where "budget_abs b i = Some (a, s)"
      "(budget_abs b)(i \<mapsto> (a - v, s)) = budget_abs ?b'"
      by (auto simp: abs_deallocate_def split: option.splits if_splits)
    then show ?thesis using that(2) by metis
  qed
  note cases = this
  from cases u show "same_unit b ?b'" by cases (auto simp: same_unit_def)
  from cases show "budget_abs ?b' e = Some (a, s) \<Longrightarrow> \<exists>a'. budget_abs b e = Some (a', s)"
    by cases (auto split: if_splits)
qed


subsection \<open>Reachable vaults\<close>

text \<open>The steps of a vault: its budget and intent methods, and the deallocation that callers reach
  through the public field \<^verbatim>\<open>budget\<close>. Direct calls of \<^verbatim>\<open>budget.spend\<close> that bypass the intents
  are not steps.\<close>

inductive vault_step :: "vault \<Rightarrow> vault \<Rightarrow> bool" where
  "vault_step v (snd (vault_createEnvelope v i n c now))"
| "vault_step v (snd (vault_allocateToEnvelope v i amount))"
| "vault_step v (snd (on_budget v (deallocate (im_budget (vt_intents v)) i amount)))"
| "vault_step v (snd (vault_declareIntent v i k d ps e now))"
| "vault_step v (snd (vault_approveIntent v i why now))"
| "vault_step v (snd (vault_rejectIntent v i reason now))"
| "vault_step v (snd (vault_markIntentExecuting v i))"
| "vault_step v (snd (vault_recordIntentExecution v i ch tx now))"
| "vault_step v (snd (vault_verifyIntent v i matched ds' now))"
| "vault_step v (snd (vault_recordIntentFailure v i ds now))"

inductive vault_reachable :: "vault_config \<Rightarrow> vault \<Rightarrow> bool" for c where
  "0 \<le> vc_defaultDecimals c \<Longrightarrow> vault_reachable c (new_vault c)"
| "vault_reachable c v \<Longrightarrow> vault_step v v' \<Longrightarrow> vault_reachable c v'"

inductive_cases vault_stepE: "vault_step v v'"

lemma on_budget_state: "snd (on_budget v call) = v\<lparr>vt_intents := (vt_intents v)\<lparr>im_budget := snd call\<rparr>\<rparr>"
  by (cases call) (simp add: on_budget_def)

lemma on_intents_state: "snd (on_intents v call) = v\<lparr>vt_intents := snd call\<rparr>"
  by (cases call) (simp add: on_intents_def)

lemmas vault_defs = vault_createEnvelope_def vault_allocateToEnvelope_def vault_declareIntent_def
  vault_approveIntent_def vault_rejectIntent_def vault_markIntentExecuting_def
  vault_recordIntentExecution_def vault_verifyIntent_def vault_recordIntentFailure_def

lemma manager_wf_frame:
  assumes wf: "manager_wf m" and "engine_wf b" "same_unit (im_budget m) b"
    and "\<And>e a s. budget_abs b e = Some (a, s) \<Longrightarrow> \<exists>a'. budget_abs (im_budget m) e = Some (a', s)"
  shows "manager_wf (m\<lparr>im_budget := b\<rparr>)"
  using manager_wf_budget[OF wf assms(2,3)] assms(4) by blast

lemma manager_ops_wf:
  assumes "manager_wf m"
  shows "manager_wf (snd (intent_declare m i k d by ps e now))"
    and "manager_wf (snd (approve m i who why now))"
    and "manager_wf (snd (reject m i who reason now))"
    and "manager_wf (snd (markExecuting m i))"
    and "manager_wf (snd (recordExecution m i ch tx now))"
    and "manager_wf (snd (verify m i ok ds' now))"
    and "manager_wf (snd (recordFailure m i ds now))"
  using assms intent_declare_wf transitions_wf recordExecution_wf recordFailure_wf
  by (metis prod.collapse)+

lemma vault_step_manager:
  assumes "vault_step v v'"
  obtains m where "v' = v\<lparr>vt_intents := m\<rparr>" "manager_wf (vt_intents v) \<Longrightarrow> manager_wf m"
proof -
  let ?m = "vt_intents v"
  have al: "manager_wf ?m \<Longrightarrow> manager_wf (?m\<lparr>im_budget := snd (allocate (im_budget ?m) i amount)\<rparr>)" for i amount
  proof -
    assume wf: "manager_wf ?m"
    then have bw: "engine_wf (im_budget ?m)" by (simp add: manager_wf_def)
    show "manager_wf (?m\<lparr>im_budget := snd (allocate (im_budget ?m) i amount)\<rparr>)"
      using allocate_frame[OF bw] by (intro manager_wf_frame[OF wf engine_wf_allocate[OF bw]]) blast+
  qed
  have de: "manager_wf ?m \<Longrightarrow> manager_wf (?m\<lparr>im_budget := snd (deallocate (im_budget ?m) i amount)\<rparr>)" for i amount
  proof -
    assume wf: "manager_wf ?m"
    then have bw: "engine_wf (im_budget ?m)" by (simp add: manager_wf_def)
    show "manager_wf (?m\<lparr>im_budget := snd (deallocate (im_budget ?m) i amount)\<rparr>)"
      using deallocate_frame[OF bw] by (intro manager_wf_frame[OF wf engine_wf_deallocate[OF bw]]) blast+
  qed
  show ?thesis
    using assms that unfolding vault_step.simps vault_defs on_budget_state on_intents_state
    by (elim disjE exE conjE) (blast intro: createEnvelope_wf al de manager_ops_wf)+
qed

lemma vault_step_wf:
  assumes "vault_step v v'" "manager_wf (vt_intents v)"
  shows "manager_wf (vt_intents v') \<and> vt_config v' = vt_config v"
  using assms(1)
proof (rule vault_step_manager)
  fix m
  assume "v' = v\<lparr>vt_intents := m\<rparr>" "manager_wf (vt_intents v) \<Longrightarrow> manager_wf m"
  then show ?thesis using assms(2) by simp
qed

lemma manager_wf_new:
  assumes "0 \<le> vc_defaultDecimals c" shows "manager_wf (vt_intents (new_vault c))"
  using assms by (simp add: manager_wf_def new_vault_def new_engine_def engine_wf_def budget_abs_def)

lemma vault_reachable_wf: "vault_reachable c v \<Longrightarrow> manager_wf (vt_intents v) \<and> vt_config v = c"
proof (induction rule: vault_reachable.induct)
  case 1
  then show ?case using manager_wf_new by (simp add: new_vault_def)
next
  case (2 v v')
  then show ?case using vault_step_wf by metis
qed


subsection \<open>How intents evolve\<close>

definition same_declaration :: "vault_intent \<Rightarrow> vault_intent \<Rightarrow> bool" where
  "same_declaration x y \<longleftrightarrow> vi_id y = vi_id x \<and> vi_kind y = vi_kind x \<and>
     vi_description y = vi_description x \<and> vi_declaredBy y = vi_declaredBy x \<and>
     vi_declaredAt y = vi_declaredAt x \<and> vi_params y = vi_params x \<and>
     vi_envelopeId y = vi_envelopeId x"

definition intents_evolve :: "intent_manager \<Rightarrow> intent_manager \<Rightarrow> bool" where
  "intents_evolve m m' \<longleftrightarrow>
     (\<forall>j x. jm_get (im_intents m) j = Some x \<longrightarrow>
        (\<exists>y. jm_get (im_intents m') j = Some y \<and>
          (y = x \<or> same_declaration x y \<and> vi_status y \<in> set (VALID_TRANSITIONS (vi_status x)))))"

lemma evolve_refl [simp]: "intents_evolve m m" "intents_evolve m (m\<lparr>im_budget := b\<rparr>)"
  by (simp_all add: intents_evolve_def)

lemma guarded_evolves:
  assumes "\<And>x r m'. act x = (r, m') \<Longrightarrow> im_intents m' = im_intents m \<or>
    (\<exists>y. im_intents m' = jm_set (im_intents m) i y \<and> same_declaration x y \<and> vi_status y = t)"
  shows "intents_evolve m (snd (guarded m i t act))"
proof -
  obtain r m' where g: "guarded m i t act = (r, m')" by fastforce
  then show ?thesis
  proof (cases rule: guarded_cases)
    case fail
    then show ?thesis using g by simp
  next
    case (act x)
    from assms[OF act(3)] act(1,2) show ?thesis
      unfolding g by (auto simp: intents_evolve_def)
  qed
qed

lemma with_budget_intents:
  "snd (with_budget m call (\<lambda>m. store_intent m i y)) = m' \<Longrightarrow>
     im_intents m' = im_intents m \<or> im_intents m' = jm_set (im_intents m) i y"
  by (auto simp: with_budget_def store_intent_def split: prod.splits sum.splits)

lemma charge_case_intents:
  assumes "(case c of None \<Rightarrow> store_intent m i y
      | Some (e, amount) \<Rightarrow> with_budget m (f e amount) (\<lambda>m. store_intent m i y)) = (r, m')"
  shows "im_intents m' = im_intents m \<or> im_intents m' = jm_set (im_intents m) i y"
proof (cases c)
  case None
  then show ?thesis using assms by (auto simp: store_intent_def)
next
  case (Some ea)
  obtain e amount where "ea = (e, amount)" by fastforce
  then have "with_budget m (f e amount) (\<lambda>m. store_intent m i y) = (r, m')"
    using assms Some by simp
  then have "snd (with_budget m (f e amount) (\<lambda>m. store_intent m i y)) = m'" by simp
  then show ?thesis by (rule with_budget_intents)
qed

lemma manager_ops_evolve:
  "intents_evolve m (snd (intent_declare m i k d by ps e now))"
  "intents_evolve m (snd (approve m i who why now))"
  "intents_evolve m (snd (reject m i who reason now))"
  "intents_evolve m (snd (markExecuting m i))"
  "intents_evolve m (snd (recordExecution m i ch tx now))"
  "intents_evolve m (snd (verify m i ok ds' now))"
  "intents_evolve m (snd (recordFailure m i ds now))"
proof -
  show "intents_evolve m (snd (intent_declare m i k d by ps e now))"
    by (auto simp: intent_declare_def store_intent_def intents_evolve_def jm_has_def split: sum.splits)
  show "intents_evolve m (snd (approve m i who why now))"
    "intents_evolve m (snd (reject m i who reason now))"
    "intents_evolve m (snd (markExecuting m i))"
    "intents_evolve m (snd (verify m i ok ds' now))"
    unfolding approve_def reject_def markExecuting_def verify_def
    by (rule guarded_evolves, auto simp: store_intent_def same_declaration_def)+
  show "intents_evolve m (snd (recordExecution m i ch tx now))"
    unfolding recordExecution_def Let_def
  proof (rule guarded_evolves)
    fix x :: vault_intent and r m'
    let ?y = "x\<lparr>vi_status := Executed, vi_execution := Some
           \<lparr>vie_executedAt = now, vie_chainId = ch, vie_txHash = tx\<rparr>\<rparr>"
    assume "(case charge x of None \<Rightarrow> store_intent m i ?y
        | Some (e, amount) \<Rightarrow> with_budget m (spend (im_budget m) e amount) (\<lambda>m. store_intent m i ?y)) = (r, m')"
    then have "im_intents m' = im_intents m \<or> im_intents m' = jm_set (im_intents m) i ?y"
      by (rule charge_case_intents)
    moreover have "same_declaration x ?y" by (simp add: same_declaration_def)
    ultimately show "im_intents m' = im_intents m \<or>
      (\<exists>y. im_intents m' = jm_set (im_intents m) i y \<and> same_declaration x y \<and> vi_status y = Executed)"
      by force
  qed
  show "intents_evolve m (snd (recordFailure m i ds now))"
    unfolding recordFailure_def Let_def
  proof (rule guarded_evolves)
    fix x :: vault_intent and r m'
    let ?y = "x\<lparr>vi_status := Failed, vi_verification := Some
           \<lparr>viv_verifiedAt = now, viv_matched = False, viv_discrepancies = Some ds\<rparr>\<rparr>"
    assume "(case if vi_status x = Executed then charge x else None of None \<Rightarrow> store_intent m i ?y
        | Some (e, amount) \<Rightarrow> with_budget m (reverseSpend (im_budget m) e amount) (\<lambda>m. store_intent m i ?y)) = (r, m')"
    then have "im_intents m' = im_intents m \<or> im_intents m' = jm_set (im_intents m) i ?y"
      by (rule charge_case_intents)
    moreover have "same_declaration x ?y" by (simp add: same_declaration_def)
    ultimately show "im_intents m' = im_intents m \<or>
      (\<exists>y. im_intents m' = jm_set (im_intents m) i y \<and> same_declaration x y \<and> vi_status y = Failed)"
      by force
  qed
qed

lemma vault_step_evolve: "vault_step v v' \<Longrightarrow> intents_evolve (vt_intents v) (vt_intents v')"
  unfolding vault_step.simps vault_defs on_budget_state on_intents_state
  by (elim disjE exE conjE) (simp_all add: manager_ops_evolve)


text \<open>Owner, currency and decimals of the engine never change.\<close>

definition engine_unit :: "budget_engine \<Rightarrow> string \<times> string \<times> int" where
  "engine_unit b = (be_ownerId b, be_currency b, be_decimals b)"

lemma store_envelope_engine [simp]: "engine_unit (snd (store_envelope b i r)) = engine_unit b"
  by (auto simp: store_envelope_def engine_unit_def split: sum.splits)

lemma budget_ops_engine [simp]:
  "engine_unit (snd (createEnvelope b i n c now)) = engine_unit b"
  "engine_unit (snd (allocate b i amount)) = engine_unit b"
  "engine_unit (snd (deallocate b i amount)) = engine_unit b"
  "engine_unit (snd (spend b i amount)) = engine_unit b"
  "engine_unit (snd (reverseSpend b i amount)) = engine_unit b"
  unfolding allocate_def deallocate_def spend_def reverseSpend_def
  by (simp_all add: createEnvelope_def Let_def) (simp add: engine_unit_def)

lemma guarded_engine:
  assumes "\<And>x. engine_unit (im_budget (snd (act x))) = engine_unit (im_budget m)"
  shows "engine_unit (im_budget (snd (guarded m i t act))) = engine_unit (im_budget m)"
  using assms by (simp add: guarded_def split: sum.splits)

lemma with_budget_engine:
  assumes "engine_unit (snd call) = engine_unit (im_budget m)"
  shows "engine_unit (im_budget (snd (with_budget m call (\<lambda>m. store_intent m i y)))) = engine_unit (im_budget m)"
  using assms by (cases call; cases "fst call") (auto simp: with_budget_def store_intent_def)

lemma store_intent_budget [simp]: "im_budget (snd (store_intent m i y)) = im_budget m"
  by (simp add: store_intent_def)

lemma manager_ops_engine:
  "engine_unit (im_budget (snd (intent_declare m i k d by ps e now))) = engine_unit (im_budget m)"
  "engine_unit (im_budget (snd (approve m i who why now))) = engine_unit (im_budget m)"
  "engine_unit (im_budget (snd (reject m i who reason now))) = engine_unit (im_budget m)"
  "engine_unit (im_budget (snd (markExecuting m i))) = engine_unit (im_budget m)"
  "engine_unit (im_budget (snd (recordExecution m i ch tx now))) = engine_unit (im_budget m)"
  "engine_unit (im_budget (snd (verify m i ok ds' now))) = engine_unit (im_budget m)"
  "engine_unit (im_budget (snd (recordFailure m i ds now))) = engine_unit (im_budget m)"
  unfolding approve_def reject_def markExecuting_def recordExecution_def verify_def recordFailure_def
  by (simp add: intent_declare_def store_intent_def split: sum.splits)
    (rule guarded_engine, simp add: Let_def with_budget_engine split: option.splits prod.splits)+

lemma vault_step_engine:
  "vault_step v v' \<Longrightarrow> engine_unit (im_budget (vt_intents v')) = engine_unit (im_budget (vt_intents v))"
  unfolding vault_step.simps vault_defs on_budget_state on_intents_state
  by (elim disjE exE conjE) (simp_all add: manager_ops_engine)

lemma vault_reachable_engine:
  "vault_reachable c v \<Longrightarrow>
     engine_unit (im_budget (vt_intents v)) = (vc_ownerId c, vc_defaultCurrency c, vc_defaultDecimals c)"
  by (induction rule: vault_reachable.induct)
    (simp_all add: vault_step_engine, simp add: engine_unit_def new_vault_def new_engine_def)

subsection \<open>Restoring a vault\<close>

lemma restore_envelopes_ok:
  assumes "engine_wf b" and "distinct (jm_keys (be_envelopes b) @ map env_id es)"
    and "\<forall>e \<in> set es. env_wf b0 e" and "be_decimals b0 = be_decimals b" "be_currency b0 = be_currency b"
  shows "\<exists>b'. restore_envelopes b es = Inr b' \<and> engine_wf b' \<and> be_ownerId b' = be_ownerId b \<and>
    be_currency b' = be_currency b \<and> be_decimals b' = be_decimals b \<and>
    jm_keys (be_envelopes b') = jm_keys (be_envelopes b) @ map env_id es \<and>
    (\<forall>i. i \<notin> env_id ` set es \<longrightarrow> budget_abs b' i = budget_abs b i) \<and>
    (\<forall>e \<in> set es. budget_abs b' (env_id e) = map_option (\<lambda>(a, s, v). (a, s)) (env_amounts b0 e))"
  using assms
proof (induction es arbitrary: b)
  case Nil
  then show ?case by (simp add: restore_envelopes_def)
next
  case (Cons e es)
  have "env_wf b0 e" using Cons.prems(3) by simp
  then obtain a s where as: "env_amounts b0 e = Some (a, s, a - s)" "0 \<le> s" "s \<le> a" by (rule env_wfE)
  then have p: "parseAmount (env_allocated e) (be_decimals b) = Inr a"
    "parseAmount (env_spent e) (be_decimals b) = Inr s"
    using Cons.prems(4) by (simp_all add: env_amounts_Some)
  have new: "\<not> hasEnvelope b (env_id e)"
    using Cons.prems(2) by (simp add: hasEnvelope_def jm_has_keys)
  let ?e = "e\<lparr>env_currency := be_currency b, env_decimals := be_decimals b,
                 env_available := formatAmount (a - s) (be_decimals b)\<rparr>"
  let ?b = "b\<lparr>be_envelopes := jm_set (be_envelopes b) (env_id e) ?e\<rparr>"
  have step: "restoreEnvelope b e = (Inr ?e, ?b)"
    using as(2,3) unfolding restoreEnvelope_ok[OF Cons.prems(1) new p] by (simp add: store_envelope_def)
  have r: "refines b (restoreEnvelope b e) (Some ((budget_abs b)(env_id e \<mapsto> (a, s))))"
    using restoreEnvelope_refines[OF Cons.prems(1) new p] as(2,3) by simp
  then have abs: "budget_abs ?b = (budget_abs b)(env_id e \<mapsto> (a, s))" and wf: "engine_wf ?b"
    unfolding step by (simp_all add: refines_def)
  have keys: "jm_keys (be_envelopes ?b) = jm_keys (be_envelopes b) @ [env_id e]"
    using new by (simp add: hasEnvelope_def jm_keys_set)
  have "\<exists>b'. restore_envelopes ?b es = Inr b' \<and> engine_wf b' \<and> be_ownerId b' = be_ownerId ?b \<and>
    be_currency b' = be_currency ?b \<and> be_decimals b' = be_decimals ?b \<and>
    jm_keys (be_envelopes b') = jm_keys (be_envelopes ?b) @ map env_id es \<and>
    (\<forall>i. i \<notin> env_id ` set es \<longrightarrow> budget_abs b' i = budget_abs ?b i) \<and>
    (\<forall>e \<in> set es. budget_abs b' (env_id e) = map_option (\<lambda>(a, s, v). (a, s)) (env_amounts b0 e))"
  proof (rule Cons.IH[OF wf])
    show "distinct (jm_keys (be_envelopes ?b) @ map env_id es)"
      unfolding keys using Cons.prems(2) by auto
  qed (use Cons.prems in simp_all)
  then obtain b' where b': "restore_envelopes ?b es = Inr b'" "engine_wf b'" "be_ownerId b' = be_ownerId b"
    "be_currency b' = be_currency b" "be_decimals b' = be_decimals b"
    "jm_keys (be_envelopes b') = (jm_keys (be_envelopes b) @ [env_id e]) @ map env_id es"
    "\<forall>i. i \<notin> env_id ` set es \<longrightarrow> budget_abs b' i = ((budget_abs b)(env_id e \<mapsto> (a, s))) i"
    "\<forall>e \<in> set es. budget_abs b' (env_id e) = map_option (\<lambda>(a, s, v). (a, s)) (env_amounts b0 e)"
    unfolding keys abs by auto
  have "env_id e \<notin> env_id ` set es" using Cons.prems(2) by auto
  then have "budget_abs b' (env_id e) = Some (a, s)" using b'(7) by simp
  moreover have "restore_envelopes b (e # es) = Inr b'"
    using b'(1) by (simp add: restore_envelopes_def step)
  ultimately show ?case using b' as(1) by (intro exI[of _ b']) auto
qed

text \<open>The manager's own intents are imported unchanged.\<close>

lemma manager_intents_keys:
  assumes "manager_wf m"
  shows "map (\<lambda>x. (vi_id x, x)) (exportIntents m) = im_intents m"
    and "distinct (map vi_id (exportIntents m))"
proof -
  have wf: "jm_wf (im_intents m)" using assms by (simp add: manager_wf_def)
  have id: "vi_id (snd p) = fst p" if "p \<in> set (im_intents m)" for p
    using assms jm_get_in[OF wf, of "fst p" "snd p"] that by (simp add: manager_wf_def)
  have "map (\<lambda>x. (vi_id x, x)) (exportIntents m) = map (\<lambda>p. p) (im_intents m)"
    unfolding exportIntents_def map_map by (rule map_cong) (auto simp: id prod_eq_iff)
  then show "map (\<lambda>x. (vi_id x, x)) (exportIntents m) = im_intents m" by simp
  have "map vi_id (exportIntents m) = jm_keys (im_intents m)"
    unfolding exportIntents_def map_map by (rule map_cong) (auto simp: id)
  then show "distinct (map vi_id (exportIntents m))" using wf by (simp add: jm_wf_def)
qed

lemma budget_abs_missing: "i \<notin> set (jm_keys (be_envelopes b)) \<Longrightarrow> budget_abs b i = None"
proof -
  assume "i \<notin> set (jm_keys (be_envelopes b))"
  then have "jm_get (be_envelopes b) i = None" by (simp add: map_of_eq_None_iff)
  then show ?thesis by (simp add: budget_abs_def)
qed

subsection \<open>Properties\<close>

text \<open>C4: In every vault reachable from an empty one, the spent amount of each envelope is exactly
  the sum of the amounts of its executed and verified intents, and the available amount is what
  is allocated minus that sum and is never negative: no step loses, double counts or forgets to
  reverse a spend.\<close>

theorem vault_spent_is_executed_intents:
  assumes "vault_reachable c v" and "jm_get (be_envelopes (im_budget (vt_intents v))) e = Some env"
  shows "\<exists>a. parseAmount (env_allocated env) (be_decimals (im_budget (vt_intents v))) = Inr a \<and>
    parseAmount (env_spent env) (be_decimals (im_budget (vt_intents v))) =
      Inr (spent_on (im_intents (vt_intents v)) e) \<and>
    parseAmount (env_available env) (be_decimals (im_budget (vt_intents v))) =
      Inr (a - spent_on (im_intents (vt_intents v)) e) \<and>
    0 \<le> spent_on (im_intents (vt_intents v)) e \<and> spent_on (im_intents (vt_intents v)) e \<le> a"
proof -
  have wf: "manager_wf (vt_intents v)" using vault_reachable_wf[OF assms(1)] ..
  then have "engine_wf (im_budget (vt_intents v))" by (simp add: manager_wf_def)
  from this assms(2) obtain a s where as: "env_amounts (im_budget (vt_intents v)) env = Some (a, s, a - s)"
    "0 \<le> s" "s \<le> a" "budget_abs (im_budget (vt_intents v)) e = Some (a, s)"
    by (rule engine_wf_get) blast
  have "s = spent_on (im_intents (vt_intents v)) e" by (rule manager_wf_spent[OF wf as(4)])
  with as(1-3) show ?thesis by (simp add: env_amounts_Some)
qed

text \<open>C32: Every step of a vault, failed or not, keeps each intent's declaration (id, kind,
  description, declarer, time, parameters, envelope) and leaves the intent as it is or moves it to
  a status that the transition table allows from its present one; in particular an intent becomes
  executed only from executing, which it reaches only from approved, and rejected, verified and
  failed intents never change again.\<close>

theorem intent_lifecycle:
  assumes "vault_step v v'" and "getIntent (vt_intents v) i = Some x"
  shows "\<exists>y. getIntent (vt_intents v') i = Some y \<and>
    (y = x \<or> same_declaration x y \<and>
      (vi_status x, vi_status y) \<in> {(Declared, Approved), (Declared, Rejected), (Approved, Executing),
        (Approved, Rejected), (Executing, Executed), (Executing, Failed), (Executed, Verified),
        (Executed, Failed)})"
  using vault_step_evolve[OF assms(1)] assms(2)
  unfolding intents_evolve_def getIntent_def transitions_iff by blast

text \<open>In a reachable vault, recording the failure of an executed intent never fails: the reversal
  of its spend is always possible, the intent becomes failed and the envelope gets the amount
  back.\<close>

theorem executed_intent_can_fail:
  assumes "vault_reachable c v" and "getIntent (vt_intents v) i = Some x" "vi_status x = Executed"
    and "charge x = Some (e, amount)"
  shows "\<exists>y v' a s. vault_recordIntentFailure v i ds now = (Inr y, v') \<and> vi_status y = Failed \<and>
    budget_abs (im_budget (vt_intents v)) e = Some (a, s) \<and>
    budget_abs (im_budget (vt_intents v')) e = Some (a, s - money_value amount)"
proof -
  let ?m = "vt_intents v"
  let ?b = "im_budget ?m"
  have wf: "manager_wf ?m" using vault_reachable_wf[OF assms(1)] ..
  have x: "jm_get (im_intents ?m) i = Some x" using assms(2) by (simp add: getIntent_def)
  have cx: "counted x" using assms(3) by (simp add: counted_def)
  then have "valid_charge ?b x" using wf x by (simp add: manager_wf_def)
  then obtain w where w: "budget_abs ?b e \<noteq> None" "m_currency amount = be_currency ?b"
    "m_decimals amount = be_decimals ?b" "scaled_of amount = Inr w" "0 < w"
    using assms(4) by (auto simp: valid_charge_def)
  then obtain a s where as: "budget_abs ?b e = Some (a, s)" by auto
  have "intent_spent e x = w" using cx assms(4) w(4) by (simp add: intent_spent_def money_value_def)
  then have le: "w \<le> s" using intent_spent_le[OF wf x, of e] manager_wf_spent[OF wf as] by simp
  have bw: "engine_wf ?b" using wf by (simp add: manager_wf_def)
  have "abs_reverse e w (budget_abs ?b) = Some ((budget_abs ?b)(e \<mapsto> (a, s - w)))"
    using as le by (simp add: abs_reverse_def)
  then obtain env b' where rev: "reverseSpend ?b e amount = (Inr env, b')"
    and b': "budget_abs b' = (budget_abs ?b)(e \<mapsto> (a, s - w))"
    using reverse_refines[OF bw w(2-5), of e] by (auto simp: refines_def split: prod.splits sum.splits)
  let ?y = "x\<lparr>vi_status := Failed, vi_verification := Some
           \<lparr>viv_verifiedAt = now, viv_matched = False, viv_discrepancies = Some ds\<rparr>\<rparr>"
  have "Failed \<in> set (VALID_TRANSITIONS (vi_status x))" using assms(3) by simp
  then have "recordFailure ?m i ds now =
      (Inr ?y, ?m\<lparr>im_budget := b', im_intents := jm_set (im_intents ?m) i ?y\<rparr>)"
    unfolding recordFailure_def
    by (subst guarded_ok[OF x]) (simp_all add: assms(3,4) with_budget_def rev store_intent_def)
  then have "vault_recordIntentFailure v i ds now =
      (Inr ?y, v\<lparr>vt_intents := ?m\<lparr>im_budget := b', im_intents := jm_set (im_intents ?m) i ?y\<rparr>\<rparr>)"
    by (simp add: vault_recordIntentFailure_def on_intents_def)
  then show ?thesis using as b' w(4) by (simp add: money_value_def)
qed

text \<open>A snapshot of a reachable vault always restores: the new vault has the same configuration
  and intents, the same envelopes in the same order, each with the same allocated and spent
  amounts, and satisfies the invariants again.\<close>

theorem vault_snapshot_restores:
  assumes "vault_reachable c v"
  shows "\<exists>v'. vault_restoreFromSnapshot (take_vault_snapshot v now) = Inr v' \<and> vt_config v' = vt_config v \<and>
    im_intents (vt_intents v') = im_intents (vt_intents v) \<and>
    jm_keys (be_envelopes (im_budget (vt_intents v'))) = jm_keys (be_envelopes (im_budget (vt_intents v))) \<and>
    budget_abs (im_budget (vt_intents v')) = budget_abs (im_budget (vt_intents v)) \<and>
    engine_wf (im_budget (vt_intents v'))"
proof -
  let ?m = "vt_intents v"
  let ?b = "im_budget ?m"
  let ?fresh = "new_engine (vc_ownerId c) (vc_defaultCurrency c) (vc_defaultDecimals c)"
  have wf: "manager_wf ?m" and cfg: "vt_config v = c" using vault_reachable_wf[OF assms] by simp_all
  have bw: "engine_wf ?b" using wf by (simp add: manager_wf_def)
  have unit: "be_decimals ?b = vc_defaultDecimals c" "be_currency ?b = vc_defaultCurrency c"
    using vault_reachable_engine[OF assms] by (simp_all add: engine_unit_def)
  have d: "0 \<le> vc_defaultDecimals c" using bw unit(1) by (simp add: engine_wf_def)
  note keys = engine_envelopes_keys[OF bw]
  have w0: "engine_wf ?fresh" using d by (simp add: engine_wf_def new_engine_def)
  have fr: "be_envelopes ?fresh = []" "be_decimals ?fresh = vc_defaultDecimals c"
    "be_currency ?fresh = vc_defaultCurrency c" by (simp_all add: new_engine_def)
  have none: "budget_abs ?fresh i = None" for i by (simp add: budget_abs_def new_engine_def)
  have "distinct (jm_keys (be_envelopes ?fresh) @ map env_id (listEnvelopes ?b))"
    using keys(2) by (simp add: new_engine_def)
  from restore_envelopes_ok[OF w0 this keys(3)] unit fr obtain b' where
    b': "restore_envelopes ?fresh (listEnvelopes ?b) = Inr b'" "engine_wf b'"
    "jm_keys (be_envelopes b') = map env_id (listEnvelopes ?b)"
    "\<forall>i. i \<notin> env_id ` set (listEnvelopes ?b) \<longrightarrow> budget_abs b' i = None"
    "\<forall>e \<in> set (listEnvelopes ?b). budget_abs b' (env_id e) = map_option (\<lambda>(a, s, v). (a, s)) (env_amounts ?b e)"
    unfolding none by (auto simp: fr)
  have k: "map env_id (listEnvelopes ?b) = jm_keys (be_envelopes ?b)"
    using arg_cong[OF keys(1), of jm_keys] by (simp add: comp_def)
  have "budget_abs b' i = budget_abs ?b i" for i
  proof (cases "i \<in> env_id ` set (listEnvelopes ?b)")
    case True
    then obtain e where e: "e \<in> set (listEnvelopes ?b)" "i = env_id e" by blast
    then have "(i, e) \<in> set (be_envelopes ?b)" by (subst keys(1)) simp
    then have "jm_get (be_envelopes ?b) i = Some e" using bw by (simp add: engine_wf_def jm_get_in)
    then show ?thesis using b'(5) e by (simp add: budget_abs_def)
  next
    case False
    then have "i \<notin> set (jm_keys (be_envelopes ?b))" using arg_cong[OF k, of set] by simp
    then show ?thesis using b'(4) False budget_abs_missing by simp
  qed
  then have abs: "budget_abs b' = budget_abs ?b" by (rule ext)
  have imp: "importIntents \<lparr>im_budget = b', im_intents = []\<rparr> (exportIntents ?m) =
      (Inr (), \<lparr>im_budget = b', im_intents = im_intents ?m\<rparr>)"
    using import_records_ok[of "[]" vi_id "exportIntents ?m" "{}"] manager_intents_keys[OF wf]
    by (simp add: importIntents_def)
  have "vault_restoreFromSnapshot (take_vault_snapshot v now) =
      Inr \<lparr>vt_config = c, vt_intents = \<lparr>im_budget = b', im_intents = im_intents ?m\<rparr>\<rparr>"
    unfolding vault_restoreFromSnapshot_def take_vault_snapshot_def
    by (simp add: cfg new_vault_def b'(1) imp)
  then show ?thesis using b'(2,3) abs k cfg by simp
qed


subsection \<open>Witnesses\<close>

definition sample_config :: vault_config where
  "sample_config = \<lparr>vc_ownerId = ''o'', vc_watchedAddresses = [], vc_defaultCurrency = ''U'', vc_defaultDecimals = 0\<rparr>"

definition sample_params :: intent_params where
  "sample_params = \<lparr>vp_fromChainId = None, vp_toChainId = None, vp_fromAddress = None,
     vp_toAddress = None, vp_amount = Some \<lparr>m_amount = ''2'', m_currency = ''U'', m_decimals = 0\<rparr>,
     vp_receiveToken = None\<rparr>"

definition sample_vault :: vault where
  "sample_vault =
    (let v = new_vault sample_config;
         v = snd (vault_createEnvelope v ''e'' ''n'' None ''t'');
         v = snd (vault_allocateToEnvelope v ''e'' \<lparr>m_amount = ''3'', m_currency = ''U'', m_decimals = 0\<rparr>);
         v = snd (vault_declareIntent v ''i'' Transfer ''d'' sample_params (Some ''e'') ''t'');
         v = snd (vault_approveIntent v ''i'' None ''t'');
         v = snd (vault_markIntentExecuting v ''i'')
     in snd (vault_recordIntentExecution v ''i'' ''c'' ''h'' ''t''))"

lemma sample_vault_reachable: "vault_reachable sample_config sample_vault"
proof -
  have 0: "vault_reachable sample_config (new_vault sample_config)"
    by (rule vault_reachable.intros(1)) (simp add: sample_config_def)
  show ?thesis unfolding sample_vault_def Let_def
    by (rule vault_reachable.intros(2)[OF _ vault_step.intros(8)],
        rule vault_reachable.intros(2)[OF _ vault_step.intros(7)],
        rule vault_reachable.intros(2)[OF _ vault_step.intros(5)],
        rule vault_reachable.intros(2)[OF _ vault_step.intros(4)],
        rule vault_reachable.intros(2)[OF _ vault_step.intros(2)],
        rule vault_reachable.intros(2)[OF _ vault_step.intros(1)], rule 0)
qed

definition sample_intent :: vault_intent where
  "sample_intent = \<lparr>vi_id = ''i'', vi_status = Executed, vi_kind = Transfer, vi_description = ''d'',
     vi_declaredBy = ''o'', vi_declaredAt = ''t'', vi_params = sample_params,
     vi_envelopeId = Some ''e'',
     vi_approval = Some \<lparr>via_approvedBy = ''o'', via_approvedAt = ''t'', via_approved = True, via_reason = None\<rparr>,
     vi_execution = Some \<lparr>vie_executedAt = ''t'', vie_chainId = ''c'', vie_txHash = ''h''\<rparr>,
     vi_verification = None\<rparr>"

lemma sample_vault_intent: "getIntent (vt_intents sample_vault) ''i'' = Some sample_intent"
  by code_simp

lemma sample_vault_envelope:
  "jm_get (be_envelopes (im_budget (vt_intents sample_vault))) ''e'' =
     Some \<lparr>env_id = ''e'', env_name = ''n'', env_currency = ''U'', env_decimals = 0,
       env_allocated = ''3'', env_spent = ''2'', env_available = ''1'', env_category = None,
       env_createdAt = ''t''\<rparr>"
  by code_simp

theorem vault_spent_is_executed_intents_witness:
  "spent_on (im_intents (vt_intents sample_vault)) ''e'' = 2"
proof -
  have d: "be_decimals (im_budget (vt_intents sample_vault)) = 0"
    using vault_reachable_engine[OF sample_vault_reachable] by (simp add: engine_unit_def sample_config_def)
  have "parseAmount ''2'' 0 = Inr 2" by code_simp
  then show ?thesis
    using vault_spent_is_executed_intents[OF sample_vault_reachable sample_vault_envelope] d
    by (simp, elim exE conjE)
qed

theorem intent_lifecycle_witness:
  "\<exists>y. getIntent (vt_intents (snd (vault_verifyIntent sample_vault ''i'' True None ''t''))) ''i'' = Some y \<and>
     (y = sample_intent \<or> vi_status y = Verified \<or> vi_status y = Failed)"
proof -
  have "vault_step sample_vault (snd (vault_verifyIntent sample_vault ''i'' True None ''t''))"
    by (rule vault_step.intros(9))
  from intent_lifecycle[OF this sample_vault_intent] show ?thesis by (auto simp: sample_intent_def)
qed

theorem executed_intent_can_fail_witness:
  "\<exists>y v'. vault_recordIntentFailure sample_vault ''i'' [] ''t'' = (Inr y, v') \<and> vi_status y = Failed"
proof -
  have "vi_status sample_intent = Executed"
    "charge sample_intent = Some (''e'', \<lparr>m_amount = ''2'', m_currency = ''U'', m_decimals = 0\<rparr>)"
    by code_simp+
  from executed_intent_can_fail[OF sample_vault_reachable sample_vault_intent this] show ?thesis by blast
qed

theorem vault_snapshot_restores_witness:
  "\<exists>v'. vault_restoreFromSnapshot (take_vault_snapshot sample_vault ''t'') = Inr v' \<and>
     vt_config v' = vt_config sample_vault"
  using vault_snapshot_restores[OF sample_vault_reachable] by blast

end
