(* ===== verification/Digest.thy ===== *)
theory Digest
  imports Prelude "HOL-Library.Word"
begin

section \<open>Digests\<close>

text \<open>
  SHA-256 as the sources use it (\<^verbatim>\<open>createHash("sha256").update(x).digest("hex")\<close> of
  \<^verbatim>\<open>node:crypto\<close>): a parameter \<open>H\<close> from bytes to hexadecimal text, of which the lemmas
  assume at most that its values are 64 lower-case hexadecimal digits. Nothing is assumed about
  collisions; security lemmas exhibit the two different inputs of a \<open>collision\<close>, one from
  each of two given lists of hashed inputs. The theory also has the decoding of hexadecimal text to
  bytes and the UTF-8 bytes of a string, both injective.
\<close>

type_synonym byte = "8 word"
type_synonym hasher = "byte list \<Rightarrow> string"

subsection \<open>Hexadecimal\<close>

definition hex_digits :: string where
  "hex_digits = ''0123456789abcdef''"

definition SHA256_HEX_RE :: "string \<Rightarrow> bool" where
  "SHA256_HEX_RE s \<longleftrightarrow> length s = 64 \<and> (\<forall>c \<in> set s. c \<in> set hex_digits)"

definition assertValidSha256Hex :: "string \<Rightarrow> unit result" where
  "assertValidSha256Hex s = throw_when (\<not> SHA256_HEX_RE s) PlainError"

definition hex_value :: "char \<Rightarrow> nat" where
  "hex_value c = (if of_char c \<le> (57 :: nat) then of_char c - 48 else of_char c - 87)"

text \<open>\<^verbatim>\<open>Buffer.from(s, "hex")\<close> on hexadecimal digits.\<close>

fun hex_bytes :: "string \<Rightarrow> byte list" where
  "hex_bytes (a # b # s) = of_nat (16 * hex_value a + hex_value b) # hex_bytes s"
| "hex_bytes _ = []"

subsection \<open>Text\<close>

text \<open>The UTF-8 bytes that \<^verbatim>\<open>update\<close> hashes for a string of code units up to 255.\<close>

definition utf8_char :: "char \<Rightarrow> byte list" where
  "utf8_char c =
     (let n = (of_char c :: nat)
      in if n < 128 then [of_nat n] else [of_nat (192 + n div 64), of_nat (128 + n mod 64)])"

definition utf8 :: "string \<Rightarrow> byte list" where
  "utf8 s = concat (map utf8_char s)"

definition sha256 :: "hasher \<Rightarrow> string \<Rightarrow> string" where
  "sha256 H data = H (utf8 data)"

subsection \<open>Injectivity\<close>

lemma SHA256_HEX_RE_iff: "assertValidSha256Hex s = Inr () \<longleftrightarrow> SHA256_HEX_RE s"
  by (simp add: assertValidSha256Hex_def throw_when_Inr)

lemma hex_value_bound: "c \<in> set hex_digits \<Longrightarrow> hex_value c < 16"
  by (auto simp: hex_digits_def hex_value_def)

lemma hex_value_inj: "c \<in> set hex_digits \<Longrightarrow> d \<in> set hex_digits \<Longrightarrow> hex_value c = hex_value d \<Longrightarrow> c = d"
  by (auto simp: hex_digits_def hex_value_def)

lemma hex_byte_inj:
  assumes "a < 16" "b < 16" "c < 16" "d < 16" and "(of_nat (16 * a + b) :: byte) = of_nat (16 * c + d)"
  shows "a = c \<and> b = d"
proof -
  have small: "unat (of_nat n :: byte) = n" if "n < 256" for n using that by (simp add: unat_of_nat)
  have "16 * a + b = unat (of_nat (16 * a + b) :: byte)"
    by (rule small[symmetric]) (use assms(1,2) in linarith)
  also have "\<dots> = unat (of_nat (16 * c + d) :: byte)" by (simp only: assms(5))
  also have "\<dots> = 16 * c + d" by (rule small) (use assms(3,4) in linarith)
  finally have eq: "16 * a + b = 16 * c + d" .
  have "(16 * a + b) div 16 = a" "(16 * c + d) div 16 = c" using assms(2,4) by simp_all
  then have "a = c" unfolding eq by simp
  with eq show ?thesis by simp
qed

lemma hex_bytes_length: "length (hex_bytes s) = length s div 2"
  by (induction s rule: hex_bytes.induct) auto

lemma hex_bytes_inj:
  assumes "length s = length t" "even (length s)" "set s \<subseteq> set hex_digits" "set t \<subseteq> set hex_digits"
    and "hex_bytes s = hex_bytes t"
  shows "s = t"
  using assms
proof (induction s arbitrary: t rule: hex_bytes.induct)
  case (1 a b s)
  then obtain c d u where t: "t = c # d # u" by (cases t rule: hex_bytes.cases) auto
  from 1(6) have "hex_value a = hex_value c \<and> hex_value b = hex_value d" unfolding t
    using 1(4,5) by (intro hex_byte_inj) (auto simp: t hex_value_bound)
  then have "a = c \<and> b = d" using 1(4,5) hex_value_inj by (simp add: t)
  moreover have "s = u" using 1(2-6) by (intro 1(1)) (auto simp: t)
  ultimately show ?case by (simp add: t)
qed auto

lemma digest_bytes_inj:
  "SHA256_HEX_RE s \<Longrightarrow> SHA256_HEX_RE t \<Longrightarrow> hex_bytes s = hex_bytes t \<Longrightarrow> s = t"
  by (rule hex_bytes_inj) (auto simp: SHA256_HEX_RE_def)

lemma char_nat_bound: "(of_char c :: nat) < 256"
  by (metis of_char_mod_256 mod_less_divisor zero_less_numeral)

lemma byte_eq_iff: "m < 256 \<Longrightarrow> n < 256 \<Longrightarrow> (of_nat m :: byte) = of_nat n \<longleftrightarrow> m = n"
proof -
  assume b: "m < 256" "n < 256"
  have small: "unat (of_nat k :: byte) = k" if "k < 256" for k using that by (simp add: unat_of_nat)
  show ?thesis using small[OF b(1)] small[OF b(2)] by metis
qed

lemma utf8_char_inj:
  assumes "utf8_char c @ x = utf8_char d @ y" shows "c = d \<and> x = y"
proof -
  let ?c = "of_char c :: nat" and ?d = "of_char d :: nat"
  have b: "?c < 256" "?d < 256" by (rule char_nat_bound)+
  have div: "?c div 64 < 4" "?d div 64 < 4" "?c mod 64 < 64" "?d mod 64 < 64"
    using b by (simp_all add: div_less_iff_less_mult)
  have e: "(of_nat m :: byte) = of_nat n \<longleftrightarrow> m = n" if "m < 256" "n < 256" for m n
    using that by (rule byte_eq_iff)
  have "?c = ?d \<and> x = y"
  proof (cases "?c < 128")
    case True
    show ?thesis
    proof (cases "?d < 128")
      case False
      then have "(of_nat ?c :: byte) = of_nat (192 + ?d div 64)" using assms True by (simp add: utf8_char_def Let_def)
      then show ?thesis using e[of ?c "192 + ?d div 64"] b div True by simp
    qed (use True assms b e[of ?c ?d] in \<open>simp add: utf8_char_def Let_def\<close>)
  next
    case c: False
    show ?thesis
    proof (cases "?d < 128")
      case True
      then have "(of_nat (192 + ?c div 64) :: byte) = of_nat ?d" using assms c by (simp add: utf8_char_def Let_def)
      then show ?thesis using e[of "192 + ?c div 64" ?d] b div True by simp
    next
      case False
      then have "(of_nat (192 + ?c div 64) :: byte) = of_nat (192 + ?d div 64)"
        "(of_nat (128 + ?c mod 64) :: byte) = of_nat (128 + ?d mod 64)" "x = y"
        using assms c by (simp_all add: utf8_char_def Let_def)
      then have "?c div 64 = ?d div 64" "?c mod 64 = ?d mod 64" "x = y"
        using e[of "192 + ?c div 64" "192 + ?d div 64"] e[of "128 + ?c mod 64" "128 + ?d mod 64"] div by simp_all
      then show ?thesis by (metis div_mult_mod_eq)
    qed
  qed
  then show ?thesis by simp
qed

lemma utf8_inj: "utf8 s = utf8 t \<Longrightarrow> s = t"
proof (induction s arbitrary: t)
  case Nil
  then show ?case by (cases t) (auto simp: utf8_def utf8_char_def Let_def split: if_splits)
next
  case (Cons c s)
  then obtain d u where t: "t = d # u" by (cases t) (auto simp: utf8_def utf8_char_def Let_def split: if_splits)
  with Cons.prems have "c = d \<and> utf8 s = utf8 u" by (intro utf8_char_inj) (simp add: utf8_def)
  with Cons.IH t show ?case by simp
qed

subsection \<open>Collisions\<close>

definition collision :: "hasher \<Rightarrow> byte list list \<Rightarrow> byte list list \<Rightarrow> bool" where
  "collision H xs ys \<longleftrightarrow> (\<exists>x \<in> set xs. \<exists>y \<in> set ys. x \<noteq> y \<and> H x = H y)"

lemma collisionI: "x \<in> set xs \<Longrightarrow> y \<in> set ys \<Longrightarrow> H x = H y \<Longrightarrow> x \<noteq> y \<Longrightarrow> collision H xs ys"
  unfolding collision_def by blast

lemma collision_mono: "collision H xs ys \<Longrightarrow> set xs \<subseteq> set xs' \<Longrightarrow> set ys \<subseteq> set ys' \<Longrightarrow> collision H xs' ys'"
  unfolding collision_def by blast

lemma same_text:
  assumes "sha256 H x = sha256 H y" "utf8 x \<in> set xs" "utf8 y \<in> set ys" "\<not> collision H xs ys"
  shows "x = y"
proof (rule ccontr)
  assume "x \<noteq> y"
  then have "utf8 x \<noteq> utf8 y" using utf8_inj by blast
  then have "collision H xs ys"
    using assms(1-3) by (intro collisionI) (simp_all add: sha256_def)
  then show False using assms(4) by simp
qed

text \<open>A hash for examples: 63 zeros and a check digit.\<close>

definition sample_hash :: hasher where
  "sample_hash bs = replicate 63 CHR ''0'' @ [hex_digits ! (sum_list (map unat bs) mod 16)]"

lemma sample_hash_hex: "SHA256_HEX_RE (sample_hash bs)"
proof -
  have "hex_digits ! (sum_list (map unat bs) mod 16) \<in> set hex_digits"
    by (rule nth_mem) (simp add: hex_digits_def)
  moreover have "CHR ''0'' \<in> set hex_digits" by (simp add: hex_digits_def)
  ultimately show ?thesis by (simp add: SHA256_HEX_RE_def sample_hash_def)
qed

subsection \<open>Framed text\<close>

text \<open>An injective text of strings and lists, for examples of canonical forms: strings with their length in unary before them.\<close>

definition framed :: "string \<Rightarrow> string" where
  "framed s = replicate (length s) CHR ''1'' @ CHR ''0'' # s"

lemma framed_inj: "framed s @ x = framed t @ y \<longleftrightarrow> s = t \<and> x = y"
proof
  assume eq: "framed s @ x = framed t @ y"
  have run: "length (takeWhile (\<lambda>c. c = CHR ''1'') (replicate n CHR ''1'' @ CHR ''0'' # z)) = n" for n z
    by (induction n) simp_all
  have len: "length (takeWhile (\<lambda>c. c = CHR ''1'') (framed u @ z)) = length u" for u z
    unfolding framed_def using run[of "length u" "u @ z"] by simp
  have "length s = length t" using len[of s x] len[of t y] unfolding eq by simp
  then show "s = t \<and> x = y" using eq by (simp add: framed_def)
qed simp

fun framed_list :: "string list \<Rightarrow> string" where
  "framed_list [] = ''.''"
| "framed_list (s # ss) = '','' @ framed s @ framed_list ss"

lemma framed_list_inj: "framed_list xs @ x = framed_list ys @ y \<longleftrightarrow> xs = ys \<and> x = y"
proof (induction xs arbitrary: ys)
  case Nil
  show ?case by (cases ys) auto
next
  case (Cons s xs)
  show ?case
  proof (cases ys)
    case Nil
    then show ?thesis by simp
  next
    case ys: (Cons t us)
    have "framed_list (s # xs) @ x = framed_list ys @ y \<longleftrightarrow>
        framed s @ (framed_list xs @ x) = framed t @ (framed_list us @ y)" by (simp add: ys)
    also have "\<dots> \<longleftrightarrow> s # xs = ys \<and> x = y" unfolding framed_inj Cons.IH by (auto simp: ys)
    finally show ?thesis .
  qed
qed

end
