(* ===== verification/Merkle.thy ===== *)
theory Merkle
  imports Digest
begin

section \<open>Merkle trees\<close>

text \<open>
  Model of \<^verbatim>\<open>packages/proof/src/merkle-tree.ts\<close>: trees over SHA-256 digests in hexadecimal,
  their inclusion proofs and the verification of a proof. SHA-256 is the parameter \<open>H\<close>, from bytes
  to the 64 lower-case hexadecimal digits of the digest (\<^verbatim>\<open>createHash("sha256")\<close>
  \<^verbatim>\<open>.update(bytes).digest("hex")\<close>); that its values have this form is the only hypothesis made
  of it. Nothing is assumed about collisions: the security lemmas say that a forgery
  contains two explicit different inputs with the same digest, one hashed by the verifier
  and one hashed when the tree was built.

  The buffers of \<^verbatim>\<open>hashLeaf\<close> and \<^verbatim>\<open>hashPair\<close> are filled exactly, because leaves and
  siblings are checked to be 64 hexadecimal digits before they are hashed.
\<close>

datatype sibling_direction = SLeft | SRight

record merkle_step =
  ms_hash :: string
  ms_direction :: sibling_direction

record merkle_proof =
  mp_leafHash :: string
  mp_leafIndex :: int
  mp_siblings :: "merkle_step list"
  mp_root :: string

text \<open>A node has no children or two.\<close>

datatype merkle_node = MLeaf string | MBranch string merkle_node merkle_node

primrec node_hash :: "merkle_node \<Rightarrow> string" where
  "node_hash (MLeaf h) = h"
| "node_hash (MBranch h l r) = h"

record merkle_tree =
  mt_root :: "merkle_node option"
  mt_leaves :: "string list"

subsection \<open>Building\<close>

definition LEAF_TAG :: byte where "LEAF_TAG = 0"
definition NODE_TAG :: byte where "NODE_TAG = 1"

definition leaf_input :: "string \<Rightarrow> byte list" where
  "leaf_input leaf = LEAF_TAG # hex_bytes leaf"

definition pair_input :: "string \<Rightarrow> string \<Rightarrow> byte list" where
  "pair_input left right = NODE_TAG # hex_bytes left @ hex_bytes right"

definition hashLeaf :: "hasher \<Rightarrow> string \<Rightarrow> string" where
  "hashLeaf H leaf = H (leaf_input leaf)"

definition hashPair :: "hasher \<Rightarrow> string \<Rightarrow> string \<Rightarrow> string" where
  "hashPair H left right = H (pair_input left right)"

text \<open>One round of the loop: nodes are paired, an unpaired last node is promoted.\<close>

fun next_nodes :: "hasher \<Rightarrow> merkle_node list \<Rightarrow> merkle_node list" where
  "next_nodes H (left # right # rest) =
     MBranch (hashPair H (node_hash left) (node_hash right)) left right # next_nodes H rest"
| "next_nodes H [left] = [left]"
| "next_nodes H [] = []"

lemma next_nodes_length [simp]: "length (next_nodes H ns) = (length ns + 1) div 2"
  by (induction H ns rule: next_nodes.induct) auto

function build_loop :: "hasher \<Rightarrow> merkle_node list \<Rightarrow> merkle_node list" where
  "build_loop H level = (if length level > 1 then build_loop H (next_nodes H level) else level)"
  by auto
termination by (relation "measure (\<lambda>(H, level). length level)") auto

declare build_loop.simps [simp del]

definition buildTree :: "hasher \<Rightarrow> string list \<Rightarrow> merkle_node option" where
  "buildTree H leaves =
     (if leaves = [] then None
      else case build_loop H (map (\<lambda>h. MLeaf (hashLeaf H h)) leaves) of [] \<Rightarrow> None | n # _ \<Rightarrow> Some n)"

definition merkle_build :: "hasher \<Rightarrow> string list \<Rightarrow> merkle_tree result" where
  "merkle_build H leaves =
     bind_r (forE assertValidSha256Hex leaves) (\<lambda>_.
       Inr \<lparr>mt_root = buildTree H leaves, mt_leaves = leaves\<rparr>)"

definition getRoot :: "merkle_tree \<Rightarrow> string option" where
  "getRoot t = map_option node_hash (mt_root t)"

definition getLeafCount :: "merkle_tree \<Rightarrow> nat" where
  "getLeafCount t = length (mt_leaves t)"

subsection \<open>Proofs\<close>

fun next_hashes :: "hasher \<Rightarrow> string list \<Rightarrow> string list" where
  "next_hashes H (left # right # rest) = hashPair H left right # next_hashes H rest"
| "next_hashes H [left] = [left]"
| "next_hashes H [] = []"

lemma next_hashes_length [simp]: "length (next_hashes H ns) = (length ns + 1) div 2"
  by (induction H ns rule: next_hashes.induct) auto

definition sibling_step :: "nat \<Rightarrow> string list \<Rightarrow> merkle_step list" where
  "sibling_step currentIndex level =
     (let isLeft = (currentIndex mod 2 = 0);
          siblingIndex = (if isLeft then currentIndex + 1 else currentIndex - 1)
      in if siblingIndex < length level
         then [\<lparr>ms_hash = level ! siblingIndex, ms_direction = (if isLeft then SRight else SLeft)\<rparr>]
         else [])"

function proof_loop :: "hasher \<Rightarrow> nat \<Rightarrow> string list \<Rightarrow> merkle_step list \<Rightarrow> merkle_step list" where
  "proof_loop H currentIndex level siblings =
     (if length level > 1
      then proof_loop H (currentIndex div 2) (next_hashes H level)
             (siblings @ sibling_step currentIndex level)
      else siblings)"
  by auto
termination by (relation "measure (\<lambda>(H, i, level, s). length level)") auto

declare proof_loop.simps [simp del]

definition getProof :: "hasher \<Rightarrow> merkle_tree \<Rightarrow> int \<Rightarrow> merkle_proof option" where
  "getProof H t leafIndex =
     (case mt_root t of
        None \<Rightarrow> None
      | Some root \<Rightarrow>
        if leafIndex < 0 \<or> leafIndex \<ge> int (length (mt_leaves t)) then None
        else let leafHash = mt_leaves t ! nat leafIndex
          in if length (mt_leaves t) = 1
             then Some \<lparr>mp_leafHash = leafHash, mp_leafIndex = leafIndex, mp_siblings = [],
                        mp_root = node_hash root\<rparr>
             else Some \<lparr>mp_leafHash = leafHash, mp_leafIndex = leafIndex,
                        mp_siblings = proof_loop H (nat leafIndex) (map (hashLeaf H) (mt_leaves t)) [],
                        mp_root = node_hash root\<rparr>)"

definition fold_step :: "hasher \<Rightarrow> string \<Rightarrow> merkle_step \<Rightarrow> string" where
  "fold_step H currentHash step =
     (case ms_direction step of
        SLeft \<Rightarrow> hashPair H (ms_hash step) currentHash
      | SRight \<Rightarrow> hashPair H currentHash (ms_hash step))"

definition verifyProof :: "hasher \<Rightarrow> merkle_proof \<Rightarrow> bool result" where
  "verifyProof H p =
     bind_r (assertValidSha256Hex (mp_leafHash p)) (\<lambda>_.
     bind_r (assertValidSha256Hex (mp_root p)) (\<lambda>_.
     bind_r (forE (\<lambda>s. assertValidSha256Hex (ms_hash s)) (mp_siblings p)) (\<lambda>_.
       Inr (foldl (fold_step H) (hashLeaf H (mp_leafHash p)) (mp_siblings p) = mp_root p))))"


subsection \<open>What is hashed\<close>

lemma leaf_input_inj:
  "SHA256_HEX_RE s \<Longrightarrow> SHA256_HEX_RE t \<Longrightarrow> leaf_input s = leaf_input t \<longleftrightarrow> s = t"
  by (auto simp: leaf_input_def intro: digest_bytes_inj)

lemma pair_input_inj:
  assumes "SHA256_HEX_RE a" "SHA256_HEX_RE b" "SHA256_HEX_RE c" "SHA256_HEX_RE d"
  shows "pair_input a b = pair_input c d \<longleftrightarrow> a = c \<and> b = d"
proof
  assume "pair_input a b = pair_input c d"
  moreover have "length (hex_bytes a) = length (hex_bytes c)"
    using assms by (simp add: hex_bytes_length SHA256_HEX_RE_def)
  ultimately have "hex_bytes a = hex_bytes c" "hex_bytes b = hex_bytes d" by (simp_all add: pair_input_def)
  then show "a = c \<and> b = d" using assms digest_bytes_inj by simp
qed simp

text \<open>Domain separation: a leaf is never hashed like a pair.\<close>

lemma tags_differ [simp]: "leaf_input s \<noteq> pair_input a b" "pair_input a b \<noteq> leaf_input s"
  by (simp_all add: leaf_input_def pair_input_def LEAF_TAG_def NODE_TAG_def)

text \<open>What is hashed to verify a proof, and to build a tree.\<close>

definition step_input :: "string \<Rightarrow> merkle_step \<Rightarrow> byte list" where
  "step_input currentHash step =
     (case ms_direction step of
        SLeft \<Rightarrow> pair_input (ms_hash step) currentHash
      | SRight \<Rightarrow> pair_input currentHash (ms_hash step))"

fun climb_inputs :: "hasher \<Rightarrow> string \<Rightarrow> merkle_step list \<Rightarrow> byte list list" where
  "climb_inputs H h [] = []"
| "climb_inputs H h (s # ss) = step_input h s # climb_inputs H (fold_step H h s) ss"

definition verify_inputs :: "hasher \<Rightarrow> merkle_proof \<Rightarrow> byte list list" where
  "verify_inputs H p =
     leaf_input (mp_leafHash p) # climb_inputs H (hashLeaf H (mp_leafHash p)) (mp_siblings p)"

fun pair_inputs :: "string list \<Rightarrow> byte list list" where
  "pair_inputs (left # right # rest) = pair_input left right # pair_inputs rest"
| "pair_inputs _ = []"

function level_inputs :: "hasher \<Rightarrow> string list \<Rightarrow> byte list list" where
  "level_inputs H level =
     (if length level > 1 then pair_inputs level @ level_inputs H (next_hashes H level) else [])"
  by auto
termination by (relation "measure (\<lambda>(H, level). length level)") auto

declare level_inputs.simps [simp del]

definition build_inputs :: "hasher \<Rightarrow> string list \<Rightarrow> byte list list" where
  "build_inputs H leaves = map leaf_input leaves @ level_inputs H (map (hashLeaf H) leaves)"

lemma fold_step_input: "fold_step H h s = H (step_input h s)"
  by (simp add: fold_step_def step_input_def hashPair_def split: sibling_direction.split)

lemma climb_inputs_append [simp]:
  "climb_inputs H h (ss @ ts) = climb_inputs H h ss @ climb_inputs H (foldl (fold_step H) h ss) ts"
  by (induction ss arbitrary: h) auto

subsection \<open>Well-built nodes\<close>

inductive built :: "hasher \<Rightarrow> merkle_node \<Rightarrow> string list \<Rightarrow> byte list list \<Rightarrow> bool" for H where
  built_leaf: "SHA256_HEX_RE x \<Longrightarrow> built H (MLeaf (hashLeaf H x)) [x] [leaf_input x]"
| built_branch: "built H l xs I \<Longrightarrow> built H r ys J \<Longrightarrow>
    built H (MBranch (hashPair H (node_hash l) (node_hash r)) l r) (xs @ ys)
      (pair_input (node_hash l) (node_hash r) # I @ J)"

inductive_cases built_leafE: "built H (MLeaf h) xs I"
inductive_cases built_branchE: "built H (MBranch h l r) xs I"

lemma built_hash:
  "built H n xs I \<Longrightarrow> (\<And>bs. SHA256_HEX_RE (H bs)) \<Longrightarrow> SHA256_HEX_RE (node_hash n)"
  by (cases rule: built.cases) (auto simp: hashLeaf_def hashPair_def)

inductive level_built :: "hasher \<Rightarrow> merkle_node list \<Rightarrow> string list \<Rightarrow> byte list list \<Rightarrow> bool" for H where
  level_Nil: "level_built H [] [] []"
| level_Cons: "built H n xs I \<Longrightarrow> level_built H ns ys J \<Longrightarrow> level_built H (n # ns) (xs @ ys) (I @ J)"

inductive_cases level_ConsE: "level_built H (n # ns) xs I"
inductive_cases level_NilE: "level_built H [] xs I"

lemma level_leaves:
  "\<forall>x \<in> set xs. SHA256_HEX_RE x \<Longrightarrow> level_built H (map (\<lambda>h. MLeaf (hashLeaf H h)) xs) xs (map leaf_input xs)"
proof (induction xs)
  case Nil
  then show ?case by (simp add: level_Nil)
next
  case (Cons x xs)
  then have "level_built H (MLeaf (hashLeaf H x) # map (\<lambda>h. MLeaf (hashLeaf H h)) xs) ([x] @ xs)
      ([leaf_input x] @ map leaf_input xs)"
    by (intro level_Cons built_leaf) simp_all
  then show ?case by simp
qed

lemma next_nodes_hashes: "map node_hash (next_nodes H ns) = next_hashes H (map node_hash ns)"
  by (induction H ns rule: next_nodes.induct) auto

lemma next_nodes_built:
  "level_built H ns xs I \<Longrightarrow>
   \<exists>J. level_built H (next_nodes H ns) xs J \<and> set J = set I \<union> set (pair_inputs (map node_hash ns))"
proof (induction H ns arbitrary: xs I rule: next_nodes.induct)
  case (1 H l r rest)
  from "1.prems" obtain as A bs B cs C where n: "built H l as A" "built H r bs B" "level_built H rest cs C"
    and xs: "xs = as @ bs @ cs" and I: "I = A @ B @ C"
    by (auto elim!: level_ConsE)
  obtain J where J: "level_built H (next_nodes H rest) cs J"
    "set J = set C \<union> set (pair_inputs (map node_hash rest))"
    using "1.IH"[OF n(3)] by blast
  from level_Cons[OF built_branch[OF n(1,2)] J(1)]
  show ?case by (intro exI) (rule conjI, simp add: xs, auto simp: I J(2))
next
  case (2 H l)
  then show ?case by auto
next
  case (3 H)
  then show ?case by auto
qed

lemma build_loop_built:
  assumes "level_built H ns xs I" "ns \<noteq> []"
  shows "\<exists>n J. build_loop H ns = [n] \<and> built H n xs J \<and> set J = set I \<union> set (level_inputs H (map node_hash ns))"
  using assms
proof (induction H ns arbitrary: I rule: build_loop.induct)
  case (1 H ns)
  show ?case
  proof (cases "length ns > 1")
    case True
    obtain J where J: "level_built H (next_nodes H ns) xs J" "set J = set I \<union> set (pair_inputs (map node_hash ns))"
      using next_nodes_built[OF "1.prems"(1)] by blast
    have "next_nodes H ns \<noteq> []" using True by (cases "next_nodes H ns") (auto dest: arg_cong[where f = length])
    from "1.IH"[OF True J(1) this] obtain n K where n: "build_loop H (next_nodes H ns) = [n]" "built H n xs K"
      "set K = set J \<union> set (level_inputs H (next_hashes H (map node_hash ns)))"
      unfolding next_nodes_hashes by blast
    have "build_loop H ns = [n]" using True n(1) by (simp add: build_loop.simps[of H ns])
    moreover have "set K = set I \<union> set (level_inputs H (map node_hash ns))"
      using True n(3) J(2) by (simp add: level_inputs.simps[of H "map node_hash ns"] Un_assoc)
    ultimately show ?thesis using n(2) by blast
  next
    case False
    then obtain n where ns: "ns = [n]" using "1.prems"(2) by (cases ns; cases "tl ns") auto
    then have "built H n xs I" using "1.prems"(1) by (auto elim!: level_ConsE level_NilE)
    moreover have "build_loop H [n] = [n]" "level_inputs H [node_hash n] = []"
      by (simp_all add: build_loop.simps[of H "[n]"] level_inputs.simps[of H "[node_hash n]"])
    ultimately show ?thesis using ns by auto
  qed
qed

lemma merkle_build_ok:
  assumes "\<forall>x \<in> set leaves. SHA256_HEX_RE x"
  shows "merkle_build H leaves = Inr \<lparr>mt_root = buildTree H leaves, mt_leaves = leaves\<rparr>"
proof -
  have "forE assertValidSha256Hex leaves = Inr ()" using assms by (simp add: forE_Inr SHA256_HEX_RE_iff)
  then show ?thesis by (simp add: merkle_build_def)
qed

lemma buildTree_built:
  assumes "merkle_build H leaves = Inr t"
  obtains "leaves = []" "mt_root t = None"
  | n I where "leaves \<noteq> []" "mt_root t = Some n" "built H n leaves I" "set I = set (build_inputs H leaves)"
      "\<forall>x \<in> set leaves. SHA256_HEX_RE x" "mt_leaves t = leaves"
proof (cases "leaves = []")
  case True
  then show ?thesis using that(1) assms by (auto simp: merkle_build_def buildTree_def)
next
  case False
  have v: "\<forall>x \<in> set leaves. SHA256_HEX_RE x"
    and t: "t = \<lparr>mt_root = buildTree H leaves, mt_leaves = leaves\<rparr>"
    using assms by (auto simp: merkle_build_def bind_r_eq_Inr forE_Inr SHA256_HEX_RE_iff)
  obtain n J where n: "build_loop H (map (\<lambda>h. MLeaf (hashLeaf H h)) leaves) = [n]" "built H n leaves J"
    "set J = set (map leaf_input leaves) \<union> set (level_inputs H (map (hashLeaf H) leaves))"
    using build_loop_built[OF level_leaves[OF v, of H]] False by (auto simp: comp_def)
  then have "buildTree H leaves = Some n" using False by (simp add: buildTree_def)
  then show ?thesis using that(2)[OF False _ n(2) _ v] n(3) t by (simp add: build_inputs_def)
qed


subsection \<open>Soundness\<close>

lemma fold_hash:
  assumes "\<And>bs. SHA256_HEX_RE (H bs)"
  shows "SHA256_HEX_RE (foldl (fold_step H) (hashLeaf H x) ss)"
proof (cases ss rule: rev_cases)
  case Nil
  then show ?thesis by (simp add: hashLeaf_def assms)
next
  case (snoc ss' s)
  then show ?thesis by (simp add: fold_step_input assms)
qed

lemma climb_sound:
  assumes hex: "\<And>bs. SHA256_HEX_RE (H bs)" and x: "SHA256_HEX_RE x"
    and ss: "\<forall>s \<in> set ss. SHA256_HEX_RE (ms_hash s)"
    and "built H n xs I" and "foldl (fold_step H) (hashLeaf H x) ss = node_hash n"
  shows "x \<in> set xs \<or> collision H (leaf_input x # climb_inputs H (hashLeaf H x) ss) I"
  using ss assms(4,5)
proof (induction ss arbitrary: n xs I rule: rev_induct)
  case Nil
  from Nil.prems(2) show ?case
  proof cases
    case (built_leaf y)
    then show ?thesis using Nil.prems(3) x
      by (cases "x = y") (auto simp: hashLeaf_def leaf_input_inj intro!: collisionI[of "leaf_input x" _ "leaf_input y"])
  next
    case (built_branch l ys A r zs B)
    then show ?thesis using Nil.prems(3)
      by (intro disjI2 collisionI[of "leaf_input x" _ "pair_input (node_hash l) (node_hash r)"])
        (simp_all add: hashLeaf_def hashPair_def)
  qed
next
  case (snoc s ss)
  let ?h = "foldl (fold_step H) (hashLeaf H x) ss"
  have "fold_step H ?h s = node_hash n" using snoc.prems(3) by simp
  then have eq: "H (step_input ?h s) = node_hash n" unfolding fold_step_input[of H ?h s] .
  from snoc.prems(2) show ?case
  proof cases
    case (built_leaf y)
    then show ?thesis using eq
      by (intro disjI2 collisionI[of "step_input ?h s" _ "leaf_input y"])
        (auto simp: hashLeaf_def step_input_def split: sibling_direction.split)
  next
    case (built_branch l ys A r zs B)
    let ?p = "pair_input (node_hash l) (node_hash r)"
    show ?thesis
    proof (cases "step_input ?h s = ?p")
      case False
      then show ?thesis using eq built_branch
        by (intro disjI2 collisionI[of "step_input ?h s" _ ?p]) (auto simp: hashPair_def)
    next
      case True
      have v: "SHA256_HEX_RE ?h" "SHA256_HEX_RE (ms_hash s)" "SHA256_HEX_RE (node_hash l)" "SHA256_HEX_RE (node_hash r)"
        using fold_hash[OF hex] snoc.prems(1) built_branch built_hash[OF _ hex] by auto
      have ss': "\<forall>s \<in> set ss. SHA256_HEX_RE (ms_hash s)" using snoc.prems(1) by simp
      let ?in = "leaf_input x # climb_inputs H (hashLeaf H x) ss"
      have mono: "collision H ?in A \<Longrightarrow> collision H ?in I" "collision H ?in B \<Longrightarrow> collision H ?in I"
        unfolding built_branch by (auto elim!: collision_mono)
      have "x \<in> set xs \<or> collision H ?in I"
      proof (cases "ms_direction s")
        case SLeft
        then have "?h = node_hash r" using True v by (simp add: step_input_def pair_input_inj)
        from snoc.IH[OF ss' built_branch(5) this] show ?thesis
          using mono unfolding built_branch(2) by auto
      next
        case SRight
        then have "?h = node_hash l" using True v by (simp add: step_input_def pair_input_inj)
        from snoc.IH[OF ss' built_branch(4) this] show ?thesis
          using mono unfolding built_branch(2) by auto
      qed
      moreover have "collision H ?in I \<Longrightarrow>
          collision H (leaf_input x # climb_inputs H (hashLeaf H x) (ss @ [s])) I"
        by (auto elim!: collision_mono)
      ultimately show ?thesis by blast
    qed
  qed
qed

lemma verifyProof_Inr:
  "verifyProof H p = Inr True \<longleftrightarrow> SHA256_HEX_RE (mp_leafHash p) \<and> SHA256_HEX_RE (mp_root p) \<and>
     (\<forall>s \<in> set (mp_siblings p). SHA256_HEX_RE (ms_hash s)) \<and>
     foldl (fold_step H) (hashLeaf H (mp_leafHash p)) (mp_siblings p) = mp_root p"
  by (auto simp: verifyProof_def bind_r_eq_Inr SHA256_HEX_RE_iff forE_Inr)

lemma built_binding:
  assumes "built H n xs I" "built H m ys J" "node_hash n = node_hash m" and hex: "\<And>bs. SHA256_HEX_RE (H bs)"
  shows "xs = ys \<or> collision H I J"
  using assms(1-3)
proof (induction arbitrary: m ys J rule: built.induct)
  case (built_leaf x)
  from built_leaf.prems(1) show ?case
  proof cases
    case (built_leaf y)
    then show ?thesis using built_leaf.prems(2) \<open>SHA256_HEX_RE x\<close>
      by (cases "x = y") (auto simp: hashLeaf_def leaf_input_inj intro!: collisionI[of "leaf_input x" _ "leaf_input y"])
  next
    case (built_branch l as A r bs B)
    then show ?thesis using built_leaf.prems(2)
      by (intro disjI2 collisionI[of "leaf_input x" _ "pair_input (node_hash l) (node_hash r)"])
        (simp_all add: hashLeaf_def hashPair_def)
  qed
next
  case (built_branch l as A r bs B)
  let ?p = "pair_input (node_hash l) (node_hash r)"
  from built_branch.prems(1) show ?case
  proof cases
    case (built_leaf y)
    then show ?thesis using built_branch.prems(2)
      by (intro disjI2 collisionI[of ?p _ "leaf_input y"]) (simp_all add: hashLeaf_def hashPair_def)
  next
    case b: (built_branch l' as' A' r' bs' B')
    let ?q = "pair_input (node_hash l') (node_hash r')"
    show ?thesis
    proof (cases "?p = ?q")
      case False
      then show ?thesis using built_branch.prems(2) b
        by (intro disjI2 collisionI[of ?p _ ?q]) (auto simp: hashPair_def)
    next
      case True
      have "node_hash l = node_hash l'" "node_hash r = node_hash r'"
        using True pair_input_inj[OF built_branch.hyps[THEN built_hash[OF _ hex]] b(4,5)[THEN built_hash[OF _ hex]]]
        by simp_all
      with built_branch.IH b have "as = as' \<or> collision H A A'" "bs = bs' \<or> collision H B B'" by blast+
      moreover have "collision H A A' \<Longrightarrow> collision H (?p # A @ B) J" "collision H B B' \<Longrightarrow> collision H (?p # A @ B) J"
        unfolding b by (auto elim!: collision_mono)
      ultimately show ?thesis using b by blast
    qed
  qed
qed

subsection \<open>Completeness\<close>

lemma next_hashes_nth:
  "i < length level \<Longrightarrow>
   next_hashes H level ! (i div 2) =
     (if even i then (if i + 1 < length level then hashPair H (level ! i) (level ! (i + 1)) else level ! i)
      else hashPair H (level ! (i - 1)) (level ! i))"
proof (induction H level arbitrary: i rule: next_hashes.induct)
  case (1 H l r rest)
  consider "i = 0" | "i = 1" | j where "i = Suc (Suc j)" by (metis One_nat_def not0_implies_Suc)
  then show ?case
  proof cases
    case 3
    with 1 show ?thesis by (auto simp: nth_Cons' split: if_splits)
  qed simp_all
qed auto

lemma climb_step:
  assumes "i < length level"
  shows "foldl (fold_step H) (level ! i) (sibling_step i level) = next_hashes H level ! (i div 2)"
  unfolding next_hashes_nth[OF assms] using assms less_imp_diff_less[OF assms, of "Suc 0"]
  by (auto simp: sibling_step_def fold_step_def even_iff_mod_2_eq_zero Let_def)

lemma proof_loop_append: "proof_loop H i level ss = ss @ proof_loop H i level []"
proof (induction "length level" arbitrary: i level ss rule: less_induct)
  case less
  show ?case
  proof (cases "length level > 1")
    case True
    note u = proof_loop.simps[of H i level]
    have "length (next_hashes H level) < length level" using True by simp
    note e = less.hyps[OF this]
    show ?thesis
      unfolding u[of ss] u[of "[]"] e[of _ "ss @ sibling_step i level"] e[of _ "[] @ sibling_step i level"]
      using True by simp
  next
    case False
    then show ?thesis by (simp add: proof_loop.simps)
  qed
qed


lemma proof_loop_root:
  assumes "level_built H ns xs I" "i < length ns"
  shows "build_loop H ns = [n] \<Longrightarrow>
    foldl (fold_step H) (map node_hash ns ! i) (proof_loop H i (map node_hash ns) []) = node_hash n"
  using assms
proof (induction "length ns" arbitrary: ns i I rule: less_induct)
  case less
  let ?level = "map node_hash ns"
  show ?case
  proof (cases "length ns > 1")
    case True
    have shorter: "length (next_nodes H ns) < length ns" using True by simp
    obtain J where J: "level_built H (next_nodes H ns) xs J" using next_nodes_built[OF less.prems(2)] by blast
    have i: "i div 2 < length (next_nodes H ns)" using less.prems(3) by simp
    have n: "build_loop H (next_nodes H ns) = [n]"
      using less.prems(1) True by (simp add: build_loop.simps[of H ns])
    have "proof_loop H i ?level [] = sibling_step i ?level @ proof_loop H (i div 2) (next_hashes H ?level) []"
      using True proof_loop_append[of H "i div 2" "next_hashes H ?level" "sibling_step i ?level"]
      by (simp add: proof_loop.simps[of H i ?level])
    then have "foldl (fold_step H) (?level ! i) (proof_loop H i ?level []) =
        foldl (fold_step H) (next_hashes H ?level ! (i div 2)) (proof_loop H (i div 2) (next_hashes H ?level) [])"
      using climb_step[of i ?level H] less.prems(3) by simp
    then show ?thesis using less.hyps[OF shorter n J i] by (simp add: next_nodes_hashes)
  next
    case False
    then have "ns = [n]" using less.prems by (cases ns) (auto simp: build_loop.simps)
    then show ?thesis using less.prems(3) by (simp add: proof_loop.simps)
  qed
qed

lemma next_hashes_hex:
  "(\<And>bs. SHA256_HEX_RE (H bs)) \<Longrightarrow> \<forall>h \<in> set level. SHA256_HEX_RE h \<Longrightarrow>
   \<forall>h \<in> set (next_hashes H level). SHA256_HEX_RE h"
  by (induction H level rule: next_hashes.induct) (auto simp: hashPair_def)

lemma proof_loop_hex:
  assumes "\<And>bs. SHA256_HEX_RE (H bs)"
  shows "\<forall>h \<in> set level. SHA256_HEX_RE h \<Longrightarrow> \<forall>s \<in> set (proof_loop H i level []). SHA256_HEX_RE (ms_hash s)"
proof (induction "length level" arbitrary: i level rule: less_induct)
  case less
  show ?case
  proof (cases "length level > 1")
    case True
    have "length (next_hashes H level) < length level" using True by simp
    from less.hyps[OF this next_hashes_hex[OF assms less.prems]]
    have "\<forall>s \<in> set (proof_loop H (i div 2) (next_hashes H level) []). SHA256_HEX_RE (ms_hash s)" .
    moreover have "\<forall>s \<in> set (sibling_step i level). SHA256_HEX_RE (ms_hash s)"
      using less.prems by (auto simp: sibling_step_def Let_def)
    ultimately show ?thesis
      using True proof_loop_append[of H "i div 2" "next_hashes H level" "sibling_step i level"]
      by (auto simp: proof_loop.simps[of H i level])
  next
    case False
    then show ?thesis by (simp add: proof_loop.simps)
  qed
qed

lemma build_getProof:
  assumes hex: "\<And>bs. SHA256_HEX_RE (H bs)" and t: "merkle_build H leaves = Inr t" and i: "i < length leaves"
  obtains p where "getProof H t (int i) = Some p" "mp_leafHash p = leaves ! i" "mp_leafIndex p = int i"
    "getRoot t = Some (mp_root p)" "verifyProof H p = Inr True"
  using t
proof (cases rule: buildTree_built)
  case 1
  then show ?thesis using i by simp
next
  case (2 n I)
  let ?ns = "map (\<lambda>h. MLeaf (hashLeaf H h)) leaves"
  have lb: "level_built H ?ns leaves (map leaf_input leaves)" using 2(5) by (rule level_leaves)
  obtain m J where m: "build_loop H ?ns = [m]" using build_loop_built[OF lb] 2(1) by auto
  have "mt_root t = buildTree H leaves" using t by (auto simp: merkle_build_def bind_r_eq_Inr)
  then have "m = n" using 2(1,2) m by (simp add: buildTree_def)
  have level: "map node_hash ?ns = map (hashLeaf H) leaves" by simp
  have "foldl (fold_step H) (map (hashLeaf H) leaves ! i) (proof_loop H i (map (hashLeaf H) leaves) []) = node_hash n"
    using proof_loop_root[OF lb _ m, of i] i unfolding level \<open>m = n\<close> by simp
  then have fold: "foldl (fold_step H) (hashLeaf H (leaves ! i)) (proof_loop H i (map (hashLeaf H) leaves) []) = node_hash n"
    using i by simp
  have one: "length leaves = 1 \<Longrightarrow> proof_loop H i (map (hashLeaf H) leaves) [] = []"
    by (simp add: proof_loop.simps)
  let ?p = "\<lparr>mp_leafHash = leaves ! i, mp_leafIndex = int i,
     mp_siblings = proof_loop H i (map (hashLeaf H) leaves) [], mp_root = node_hash n\<rparr>"
  have "getProof H t (int i) = Some ?p" using i 2 one by (auto simp: getProof_def Let_def)
  moreover have "verifyProof H ?p = Inr True"
    using fold 2(3,5) i built_hash[OF _ hex] proof_loop_hex[OF hex, where level = "map (hashLeaf H) leaves" and i = i]
    by (auto simp: verifyProof_Inr hashLeaf_def hex)
  ultimately show ?thesis using that[of ?p] 2(2) by (simp add: getRoot_def)
qed

lemma proof_sound:
  assumes "\<And>bs. SHA256_HEX_RE (H bs)" and "merkle_build H leaves = Inr t"
    and "verifyProof H p = Inr True" and "getRoot t = Some (mp_root p)"
  shows "mp_leafHash p \<in> set leaves \<or> collision H (verify_inputs H p) (build_inputs H leaves)"
  using assms(2)
proof (cases rule: buildTree_built)
  case 1
  then show ?thesis using assms(4) by (simp add: getRoot_def)
next
  case (2 n I)
  have v: "SHA256_HEX_RE (mp_leafHash p)" "\<forall>s \<in> set (mp_siblings p). SHA256_HEX_RE (ms_hash s)"
    "foldl (fold_step H) (hashLeaf H (mp_leafHash p)) (mp_siblings p) = node_hash n"
    using assms(3,4) 2(2) by (simp_all add: verifyProof_Inr getRoot_def)
  from climb_sound[OF assms(1) v(1,2) 2(3) v(3)] show ?thesis
    unfolding verify_inputs_def collision_def 2(4) .
qed

subsection \<open>Properties\<close>

text \<open>Every leaf of a tree has an inclusion proof, for its hash and the tree's root, and
  \<^verbatim>\<open>verifyProof\<close> accepts it.\<close>

theorem merkle_proof_complete:
  assumes "\<And>bs. SHA256_HEX_RE (H bs)" and "merkle_build H leaves = Inr t" and "i < length leaves"
  shows "\<exists>p. getProof H t (int i) = Some p \<and> mp_leafHash p = leaves ! i \<and>
    getRoot t = Some (mp_root p) \<and> verifyProof H p = Inr True"
  using build_getProof[OF assms] by metis

text \<open>C16: A proof that \<^verbatim>\<open>verifyProof\<close> accepts for the root of a tree is a proof of one of its
  leaves, or the verification and the construction of the tree have hashed two different inputs to
  the same digest.\<close>

theorem merkle_proof_sound:
  assumes "\<And>bs. SHA256_HEX_RE (H bs)" and "merkle_build H leaves = Inr t"
    and "verifyProof H p = Inr True" and "getRoot t = Some (mp_root p)"
  shows "mp_leafHash p \<in> set leaves \<or> collision H (verify_inputs H p) (build_inputs H leaves)"
  by (rule proof_sound[OF assms])

text \<open>The root binds the leaves: two trees with the same root have the same leaves in the same
  order, or their constructions contain a collision (in particular a duplicated last leaf changes the
  root).\<close>

theorem merkle_root_binds_leaves:
  assumes "\<And>bs. SHA256_HEX_RE (H bs)" and "merkle_build H leaves = Inr t" and "merkle_build H leaves' = Inr t'"
    and "getRoot t = getRoot t'"
  shows "leaves = leaves' \<or> collision H (build_inputs H leaves) (build_inputs H leaves')"
  using assms(2)
proof (cases rule: buildTree_built)
  case 1
  from assms(3) show ?thesis
    by (cases rule: buildTree_built) (use 1 assms(4) in \<open>auto simp: getRoot_def\<close>)
next
  case (2 n I)
  from assms(3) show ?thesis
  proof (cases rule: buildTree_built)
    case 1
    then show ?thesis using 2(2) assms(4) by (simp add: getRoot_def)
  next
    case b: (2 m J)
    have "node_hash n = node_hash m" using 2(2) b(2) assms(4) by (simp add: getRoot_def)
    from built_binding[OF 2(3) b(3) this assms(1)] show ?thesis unfolding collision_def 2(4) b(4) .
  qed
qed


subsection \<open>Witnesses\<close>

definition sample_leaves :: "string list" where
  "sample_leaves = map (\<lambda>c. replicate 63 CHR ''a'' @ [c]) ''123''"

definition sample_tree :: merkle_tree where
  "sample_tree = projr (merkle_build sample_hash sample_leaves)"

lemma sample_tree_build: "merkle_build sample_hash sample_leaves = Inr sample_tree"
proof -
  have "\<forall>x \<in> set sample_leaves. SHA256_HEX_RE x"
    by (simp add: sample_leaves_def SHA256_HEX_RE_def hex_digits_def)
  from merkle_build_ok[OF this] show ?thesis unfolding sample_tree_def by simp
qed

theorem merkle_proof_complete_witness:
  "\<exists>p. getProof sample_hash sample_tree 2 = Some p \<and> verifyProof sample_hash p = Inr True"
  using merkle_proof_complete[OF sample_hash_hex sample_tree_build, of 2] by (auto simp: sample_leaves_def)

theorem merkle_proof_sound_witness:
  "\<exists>p. verifyProof sample_hash p = Inr True \<and>
     (mp_leafHash p \<in> set sample_leaves \<or>
      collision sample_hash (verify_inputs sample_hash p) (build_inputs sample_hash sample_leaves))"
proof -
  have "0 < length sample_leaves" by (simp add: sample_leaves_def)
  then obtain p where "getRoot sample_tree = Some (mp_root p)" "verifyProof sample_hash p = Inr True"
    using build_getProof[OF sample_hash_hex sample_tree_build] by metis
  with merkle_proof_sound[OF sample_hash_hex sample_tree_build] show ?thesis by blast
qed

lemma hex_bytes_append: "even (length s) \<Longrightarrow> hex_bytes (s @ t) = hex_bytes s @ hex_bytes t"
  by (induction s rule: hex_bytes.induct) auto

theorem merkle_root_binds_leaves_witness:
  "collision sample_hash (build_inputs sample_hash [replicate 62 CHR ''a'' @ ''a1''])
     (build_inputs sample_hash [''a1'' @ replicate 62 CHR ''a''])"
proof -
  let ?r = "replicate 62 CHR ''a''"
  let ?x = "?r @ ''a1''" and ?y = "''a1'' @ ?r"
  have "\<forall>x \<in> set [?x]. SHA256_HEX_RE x" "\<forall>x \<in> set [?y]. SHA256_HEX_RE x"
    by (simp_all add: SHA256_HEX_RE_def hex_digits_def)
  note b = this[THEN merkle_build_ok, of sample_hash]
  have "hex_bytes ?x = hex_bytes ?r @ hex_bytes ''a1''" "hex_bytes ?y = hex_bytes ''a1'' @ hex_bytes ?r"
    by (rule hex_bytes_append, simp)+
  then have "hashLeaf sample_hash ?x = hashLeaf sample_hash ?y"
    by (simp add: hashLeaf_def leaf_input_def sample_hash_def add.commute)
  then have "buildTree sample_hash [?x] = buildTree sample_hash [?y]"
    by (simp add: buildTree_def build_loop.simps)
  then have dis: "[?x] = [?y] \<or> collision sample_hash (build_inputs sample_hash [?x]) (build_inputs sample_hash [?y])"
    by (intro merkle_root_binds_leaves[OF sample_hash_hex b]) (simp add: getRoot_def)
  have "[?x] \<noteq> [?y]"
    by (rule notI, drule arg_cong[where f = "\<lambda>l. last (hd l)"], simp)
  with dis show ?thesis by (simp only: simp_thms)
qed

end
