(* ===== verification/Attestation.thy ===== *)
theory Attestation
  imports Merkle
begin

section \<open>Attestation proof packages\<close>

text \<open>
  Model of \<^verbatim>\<open>packages/proof/src/attestation-proof.ts\<close>: an attestation with an inclusion proof of
  its hash, packaged so that it can be verified alone. Attestations are of any type \<open>'a\<close>; the
  canonical JSON of an attestation (\<open>canon\<close>) and of the body of a package (\<open>canonPackage\<close>)
  come from the package \<^verbatim>\<open>json-canonicalize\<close> and are parameters, as is SHA-256 (\<open>H\<close>).
  Messages, check details and telemetry are left out.
\<close>

type_synonym 'a package_body = "'a \<times> string \<times> string \<times> merkle_proof \<times> string"

record 'a proof_package =
  ap_version :: int
  ap_attestation :: 'a
  ap_attestationHash :: string
  ap_merkleRoot :: string
  ap_inclusionProof :: merkle_proof
  ap_packagedAt :: string
  ap_packageHash :: string

datatype package_failure = Empty_tree | Index_out_of_range | Index_not_in_event_hashes

datatype 'a package_outcome = Packaged "'a proof_package" | Not_packaged package_failure

definition hashAttestation :: "hasher \<Rightarrow> ('a \<Rightarrow> string) \<Rightarrow> 'a \<Rightarrow> string" where
  "hashAttestation H canon attestation = sha256 H (canon attestation)"

definition computePackageHash ::
  "hasher \<Rightarrow> ('a package_body \<Rightarrow> string) \<Rightarrow> 'a \<Rightarrow> string \<Rightarrow> string \<Rightarrow> merkle_proof \<Rightarrow> string \<Rightarrow> string" where
  "computePackageHash H canonPackage attestation attestationHash merkleRoot inclusionProof packagedAt =
     sha256 H (canonPackage (attestation, attestationHash, merkleRoot, inclusionProof, packagedAt))"

text \<open>Reading an array at any index: \<^verbatim>\<open>undefined\<close> outside.\<close>

definition array_get :: "'b list \<Rightarrow> int \<Rightarrow> 'b option" where
  "array_get xs i = (if 0 \<le> i \<and> i < int (length xs) then Some (xs ! nat i) else None)"

definition packageAttestationProofResult ::
  "hasher \<Rightarrow> ('a \<Rightarrow> string) \<Rightarrow> ('a package_body \<Rightarrow> string) \<Rightarrow> 'a \<Rightarrow> string list \<Rightarrow> merkle_tree \<Rightarrow> int \<Rightarrow>
   string \<Rightarrow> 'a package_outcome result" where
  "packageAttestationProofResult H canon canonPackage attestation eventHashes tree attestationIndex now =
     (case getRoot tree of
        None \<Rightarrow> Inr (Not_packaged Empty_tree)
      | Some root \<Rightarrow>
     (case getProof H tree attestationIndex of
        None \<Rightarrow> Inr (Not_packaged Index_out_of_range)
      | Some inclusionProof \<Rightarrow>
        let attestationHash = hashAttestation H canon attestation
        in case array_get eventHashes attestationIndex of
             None \<Rightarrow> Inr (Not_packaged Index_not_in_event_hashes)
           | Some expectedHash \<Rightarrow>
             bind_r (throw_when (expectedHash \<noteq> attestationHash) PlainError) (\<lambda>_.
             bind_r (throw_when (mp_leafHash inclusionProof \<noteq> attestationHash) PlainError) (\<lambda>_.
               Inr (Packaged
                 \<lparr>ap_version = 1, ap_attestation = attestation, ap_attestationHash = attestationHash,
                  ap_merkleRoot = root, ap_inclusionProof = inclusionProof, ap_packagedAt = now,
                  ap_packageHash = computePackageHash H canonPackage attestation attestationHash root
                    inclusionProof now\<rparr>)))))"

definition packageAttestationProof ::
  "hasher \<Rightarrow> ('a \<Rightarrow> string) \<Rightarrow> ('a package_body \<Rightarrow> string) \<Rightarrow> 'a \<Rightarrow> string list \<Rightarrow> merkle_tree \<Rightarrow> int \<Rightarrow>
   string \<Rightarrow> 'a proof_package option result" where
  "packageAttestationProof H canon canonPackage attestation eventHashes tree attestationIndex now =
     bind_r (packageAttestationProofResult H canon canonPackage attestation eventHashes tree
               attestationIndex now) (\<lambda>r.
       Inr (case r of Packaged pkg \<Rightarrow> Some pkg | Not_packaged _ \<Rightarrow> None))"

subsection \<open>Verification\<close>

datatype check_name = Attestation_hash_recompute | Leaf_binding | Merkle_inclusion | Root_consistency
  | Package_hash_recompute

record attestation_check =
  ck_name :: check_name
  ck_passed :: bool

record attestation_verification =
  av_valid :: bool
  av_checks :: "attestation_check list"

text \<open>A malformed proof, on which \<^verbatim>\<open>verifyProof\<close> throws, fails its check.\<close>

definition merkle_valid :: "hasher \<Rightarrow> merkle_proof \<Rightarrow> bool" where
  "merkle_valid H p = (case verifyProof H p of Inl _ \<Rightarrow> False | Inr b \<Rightarrow> b)"

definition verifyAttestationProofDetailed ::
  "hasher \<Rightarrow> ('a \<Rightarrow> string) \<Rightarrow> ('a package_body \<Rightarrow> string) \<Rightarrow> 'a proof_package \<Rightarrow> attestation_verification" where
  "verifyAttestationProofDetailed H canon canonPackage pkg =
     (let p = ap_inclusionProof pkg;
          checks =
            [\<lparr>ck_name = Attestation_hash_recompute,
              ck_passed = (hashAttestation H canon (ap_attestation pkg) = ap_attestationHash pkg)\<rparr>,
             \<lparr>ck_name = Leaf_binding, ck_passed = (ap_attestationHash pkg = mp_leafHash p)\<rparr>,
             \<lparr>ck_name = Merkle_inclusion, ck_passed = merkle_valid H p\<rparr>,
             \<lparr>ck_name = Root_consistency, ck_passed = (ap_merkleRoot pkg = mp_root p)\<rparr>,
             \<lparr>ck_name = Package_hash_recompute,
              ck_passed = (computePackageHash H canonPackage (ap_attestation pkg) (ap_attestationHash pkg)
                (ap_merkleRoot pkg) p (ap_packagedAt pkg) = ap_packageHash pkg)\<rparr>]
      in \<lparr>av_valid = list_all ck_passed checks, av_checks = checks\<rparr>)"

definition verifyAttestationProof ::
  "hasher \<Rightarrow> ('a \<Rightarrow> string) \<Rightarrow> ('a package_body \<Rightarrow> string) \<Rightarrow> 'a proof_package \<Rightarrow> bool" where
  "verifyAttestationProof H canon canonPackage pkg =
     av_valid (verifyAttestationProofDetailed H canon canonPackage pkg)"

subsection \<open>Properties\<close>

lemma verifyAttestationProof_iff:
  "verifyAttestationProof H canon canonPackage pkg \<longleftrightarrow>
     hashAttestation H canon (ap_attestation pkg) = ap_attestationHash pkg \<and>
     ap_attestationHash pkg = mp_leafHash (ap_inclusionProof pkg) \<and>
     verifyProof H (ap_inclusionProof pkg) = Inr True \<and>
     ap_merkleRoot pkg = mp_root (ap_inclusionProof pkg) \<and>
     computePackageHash H canonPackage (ap_attestation pkg) (ap_attestationHash pkg)
       (ap_merkleRoot pkg) (ap_inclusionProof pkg) (ap_packagedAt pkg) = ap_packageHash pkg"
  by (auto simp: verifyAttestationProof_def verifyAttestationProofDetailed_def Let_def merkle_valid_def
      split: sum.splits)

text \<open>Packaging the attestation at an index of the event hashes a tree was built from yields a
  package that verifies and carries the attestation and the tree's root; when the hash stored at the
  index is another one, packaging throws, and outside the indices it reports that.\<close>

theorem packaged_attestation_verifies:
  assumes "\<And>bs. SHA256_HEX_RE (H bs)" and "merkle_build H hashes = Inr tree" and "hashes \<noteq> []"
  shows "case array_get hashes i of
      None \<Rightarrow> packageAttestationProofResult H canon canonPackage att hashes tree i now
        = Inr (Not_packaged Index_out_of_range)
    | Some h \<Rightarrow>
        if h = hashAttestation H canon att
        then \<exists>pkg. packageAttestationProofResult H canon canonPackage att hashes tree i now = Inr (Packaged pkg) \<and>
          verifyAttestationProof H canon canonPackage pkg \<and> ap_attestation pkg = att \<and>
          getRoot tree = Some (ap_merkleRoot pkg)
        else packageAttestationProofResult H canon canonPackage att hashes tree i now = Inl PlainError"
proof (cases "0 \<le> i \<and> i < int (length hashes)")
  case False
  have "0 < length hashes" using assms(3) by simp
  then obtain p :: merkle_proof where "getRoot tree = Some (mp_root p)"
    by (rule build_getProof[OF assms(1,2)]) blast
  moreover have "mt_leaves tree = hashes" using assms(2) by (auto simp: merkle_build_def bind_r_eq_Inr)
  then have "getProof H tree i = None" using False by (auto simp: getProof_def split: option.split)
  moreover have "array_get hashes i = None" unfolding array_get_def using False by (rule if_not_P)
  ultimately show ?thesis by (simp add: packageAttestationProofResult_def)
next
  case True
  then have k: "nat i < length hashes" "int (nat i) = i" by (auto simp: nat_less_iff)
  obtain p where p: "getProof H tree i = Some p" "mp_leafHash p = hashes ! nat i" "getRoot tree = Some (mp_root p)"
    "verifyProof H p = Inr True"
    using build_getProof[OF assms(1,2) k(1)] unfolding k(2) by metis
  have a: "array_get hashes i = Some (hashes ! nat i)" using True by (simp add: array_get_def)
  show ?thesis
  proof (cases "hashes ! nat i = hashAttestation H canon att")
    case True
    then show ?thesis using p
      by (simp add: a packageAttestationProofResult_def Let_def throw_when_def verifyAttestationProof_iff)
  next
    case False
    then show ?thesis using p by (simp add: a packageAttestationProofResult_def Let_def throw_when_def)
  qed
qed

text \<open>A package that verifies against the root of a tree built over the hashes of some
  attestations carries one of them, up to canonical JSON, or its verification and the construction of
  the tree have hashed two different inputs to the same digest.\<close>

theorem verified_attestation_genuine:
  assumes "\<And>bs. SHA256_HEX_RE (H bs)" and "merkle_build H (map (hashAttestation H canon) atts) = Inr tree"
    and "verifyAttestationProof H canon canonPackage pkg" and "getRoot tree = Some (ap_merkleRoot pkg)"
  shows "canon (ap_attestation pkg) \<in> canon ` set atts \<or>
    collision H (utf8 (canon (ap_attestation pkg)) # verify_inputs H (ap_inclusionProof pkg))
      (map (\<lambda>a. utf8 (canon a)) atts @ build_inputs H (map (hashAttestation H canon) atts))"
proof -
  let ?p = "ap_inclusionProof pkg" and ?ls = "map (hashAttestation H canon) atts"
  have v: "verifyProof H ?p = Inr True" "mp_leafHash ?p = hashAttestation H canon (ap_attestation pkg)"
    "getRoot tree = Some (mp_root ?p)"
    using assms(3,4) by (simp_all add: verifyAttestationProof_iff)
  show ?thesis
  proof (cases "mp_leafHash ?p \<in> set ?ls")
    case True
    then obtain a where a: "a \<in> set atts" "H (utf8 (canon (ap_attestation pkg))) = H (utf8 (canon a))"
      unfolding v(2) by (auto simp: hashAttestation_def sha256_def)
    show ?thesis
    proof (cases "canon (ap_attestation pkg) = canon a")
      case False
      then have "utf8 (canon (ap_attestation pkg)) \<noteq> utf8 (canon a)" using utf8_inj by blast
      then show ?thesis using a by (intro disjI2 collisionI[OF _ _ a(2)]) auto
    qed (use a(1) in auto)
  next
    case False
    then have "collision H (verify_inputs H ?p) (build_inputs H ?ls)"
      using proof_sound[OF assms(1,2) v(1,3)] by blast
    then show ?thesis by (intro disjI2, elim collision_mono) auto
  qed
qed


subsection \<open>Witnesses\<close>

text \<open>Attestations that are texts, their own canonical form.\<close>

abbreviation sample_hashes :: "string list" where
  "sample_hashes \<equiv> map (hashAttestation sample_hash (\<lambda>a. a)) [''a'', ''b'']"

lemma sample_hashes_build:
  "merkle_build sample_hash sample_hashes =
     Inr \<lparr>mt_root = buildTree sample_hash sample_hashes, mt_leaves = sample_hashes\<rparr>"
  by (rule merkle_build_ok) (simp add: hashAttestation_def sha256_def sample_hash_hex)

theorem packaged_attestation_verifies_witness:
  "\<exists>pkg. packageAttestationProofResult sample_hash (\<lambda>a. a) (\<lambda>_. ''body'') ''b'' sample_hashes
      \<lparr>mt_root = buildTree sample_hash sample_hashes, mt_leaves = sample_hashes\<rparr> 1 ''t'' = Inr (Packaged pkg) \<and>
    verifyAttestationProof sample_hash (\<lambda>a. a) (\<lambda>_. ''body'') pkg"
proof -
  have "array_get sample_hashes 1 = Some (hashAttestation sample_hash (\<lambda>a. a) ''b'')"
    by (simp add: array_get_def)
  then show ?thesis
    using packaged_attestation_verifies[OF sample_hash_hex sample_hashes_build, where i = 1 and canon = "\<lambda>a. a"
        and att = "''b''" and canonPackage = "\<lambda>_. ''body''" and now = "''t''"]
    by auto
qed

theorem verified_attestation_genuine_witness:
  "\<exists>pkg. verifyAttestationProof sample_hash (\<lambda>a. a) (\<lambda>_. ''body'') pkg \<and>
     (ap_attestation pkg \<in> {''a'', ''b''} \<or>
      collision sample_hash (utf8 (ap_attestation pkg) # verify_inputs sample_hash (ap_inclusionProof pkg))
        (map utf8 [''a'', ''b''] @ build_inputs sample_hash sample_hashes))"
proof -
  let ?t = "\<lparr>mt_root = buildTree sample_hash sample_hashes, mt_leaves = sample_hashes\<rparr>"
  obtain p where p: "getRoot ?t = Some (mp_root p)" "verifyProof sample_hash p = Inr True"
    "mp_leafHash p = sample_hashes ! 1"
    by (rule build_getProof[OF sample_hash_hex sample_hashes_build, of 1]) (simp, blast)
  let ?pkg = "\<lparr>ap_version = 1, ap_attestation = ''b'', ap_attestationHash = mp_leafHash p, ap_merkleRoot = mp_root p,
     ap_inclusionProof = p, ap_packagedAt = ''t'',
     ap_packageHash = computePackageHash sample_hash (\<lambda>_. ''body'') ''b'' (mp_leafHash p) (mp_root p) p ''t''\<rparr>"
  have v: "verifyAttestationProof sample_hash (\<lambda>a. a) (\<lambda>_. ''body'') ?pkg"
    using p by (simp add: verifyAttestationProof_iff)
  have "getRoot ?t = Some (ap_merkleRoot ?pkg)" using p(1) by simp
  from verified_attestation_genuine[OF sample_hash_hex sample_hashes_build v this] v show ?thesis
    by (intro exI[of _ ?pkg]) simp
qed

end
