(* ===== verification/EventStore.thy ===== *)
theory EventStore
  imports Digest
begin

section \<open>The event store and its hash chain\<close>

text \<open>
  Model of \<^verbatim>\<open>packages/event-store/src/hash-chain.ts\<close> and
  \<^verbatim>\<open>packages/event-store/src/in-memory-store.ts\<close>: streams of events with optimistic
  concurrency control, a global log of all streams whose records are chained by hashes, the
  verification of a chain, and subscriptions.

  An event body (type, metadata and payload) is of any type \<open>'e\<close>. The canonical JSON of a
  record without its hashes (\<open>canon\<close>, of \<^verbatim>\<open>json-canonicalize\<close>) and SHA-256 (\<open>H\<close>) are
  parameters; the lemmas on tampering assume that the JSON text of an object ends with a closing
  brace. The clock reading of \<open>append\<close> is an argument, telemetry is left out.

  Subscribers are kept in JavaScript sets that subscriptions hold on to: the sets have
  addresses, and a subscription remembers one. A handler is an identifier; \<open>append\<close> also returns
  the calls it makes (handler and event), in order. A handler that calls back into the
  store while it is being called is not modelled.
\<close>

type_synonym 'e content = "'e \<times> string \<times> int \<times> int \<times> string"

record 'e stored_event =
  sv_event :: 'e
  sv_streamId :: string
  sv_version :: int
  sv_globalPosition :: int
  sv_appendedAt :: string
  sv_hash :: "string option"
  sv_previousHash :: "string option"

datatype integrity_reason = Not_contiguous | Missing_hash | No_genesis | Previous_mismatch | Hash_mismatch

record integrity_error =
  ie_position :: int
  ie_reason :: integrity_reason

record integrity_result =
  ir_valid :: bool
  ir_lastVerifiedPosition :: int
  ir_errors :: "integrity_error list"

subsection \<open>The hash chain\<close>

definition GENESIS_HASH :: string where
  "GENESIS_HASH = ''genesis''"

definition event_content :: "'e stored_event \<Rightarrow> 'e content" where
  "event_content e = (sv_event e, sv_streamId e, sv_version e, sv_globalPosition e, sv_appendedAt e)"

definition computeEventHash ::
  "hasher \<Rightarrow> ('e content \<Rightarrow> string) \<Rightarrow> 'e stored_event \<Rightarrow> string \<Rightarrow> string" where
  "computeEventHash H canon e previousHash = sha256 H (canon (event_content e) @ previousHash)"

text \<open>The variables of the loop of \<^verbatim>\<open>verifyHashChain\<close>.\<close>

record chain_state =
  cs_errors :: "integrity_error list"
  cs_lastVerified :: int
  cs_previousHash :: string
  cs_started :: bool
  cs_expected :: "int option"

definition chain_start :: chain_state where
  "chain_start = \<lparr>cs_errors = [], cs_lastVerified = 0, cs_previousHash = GENESIS_HASH,
     cs_started = False, cs_expected = None\<rparr>"

definition push_error :: "'e stored_event \<Rightarrow> integrity_reason \<Rightarrow> bool \<Rightarrow> integrity_error list \<Rightarrow> integrity_error list" where
  "push_error e reason bad errs =
     (if bad then errs @ [\<lparr>ie_position = sv_globalPosition e, ie_reason = reason\<rparr>] else errs)"

definition chain_contiguous :: "chain_state \<Rightarrow> 'e stored_event \<Rightarrow> chain_state" where
  "chain_contiguous s e =
     s\<lparr>cs_errors := push_error e Not_contiguous
          (cs_expected s \<noteq> None \<and> cs_expected s \<noteq> Some (sv_globalPosition e)) (cs_errors s),
       cs_expected := Some (sv_globalPosition e + 1)\<rparr>"

definition chain_begin :: "chain_state \<Rightarrow> 'e stored_event \<Rightarrow> string \<Rightarrow> chain_state" where
  "chain_begin s e prev =
     (if cs_started s then s
      else s\<lparr>cs_started := True,
             cs_errors := push_error e No_genesis (prev \<noteq> GENESIS_HASH) (cs_errors s),
             cs_previousHash := (if prev \<noteq> GENESIS_HASH then prev else GENESIS_HASH)\<rparr>)"

definition chain_link ::
  "hasher \<Rightarrow> ('e content \<Rightarrow> string) \<Rightarrow> chain_state \<Rightarrow> 'e stored_event \<Rightarrow> string \<Rightarrow> string \<Rightarrow> chain_state" where
  "chain_link H canon s e hash prev =
     s\<lparr>cs_errors := push_error e Hash_mismatch (hash \<noteq> computeEventHash H canon e prev)
          (push_error e Previous_mismatch (prev \<noteq> cs_previousHash s) (cs_errors s)),
       cs_previousHash := hash, cs_lastVerified := sv_globalPosition e\<rparr>"

definition chain_step ::
  "hasher \<Rightarrow> ('e content \<Rightarrow> string) \<Rightarrow> chain_state \<Rightarrow> 'e stored_event \<Rightarrow> chain_state" where
  "chain_step H canon s e =
     (let s = chain_contiguous s e
      in case (sv_hash e, sv_previousHash e) of
           (Some hash, Some prev) \<Rightarrow> chain_link H canon (chain_begin s e prev) e hash prev
         | _ \<Rightarrow> s\<lparr>cs_errors := push_error e Missing_hash (cs_started s) (cs_errors s)\<rparr>)"

definition verifyHashChain ::
  "hasher \<Rightarrow> ('e content \<Rightarrow> string) \<Rightarrow> 'e stored_event list \<Rightarrow> integrity_result" where
  "verifyHashChain H canon events =
     (if events = [] then \<lparr>ir_valid = True, ir_lastVerifiedPosition = 0, ir_errors = []\<rparr>
      else let s = foldl (chain_step H canon) chain_start events
        in \<lparr>ir_valid = (cs_errors s = []), ir_lastVerifiedPosition = cs_lastVerified s,
            ir_errors = cs_errors s\<rparr>)"

subsection \<open>The store\<close>

datatype expected_version = Version int | No_stream | Any_version

record store_append_result =
  sr_streamId :: string
  sr_fromVersion :: int
  sr_toVersion :: int
  sr_count :: int

datatype read_direction = Forward | Backward

record read_options =
  ro_from :: "int option"
  ro_maxCount :: "int option"
  ro_direction :: "read_direction option"

type_synonym handler = nat

record 'e event_store =
  es_streams :: "(string, 'e stored_event list) jsmap"
  es_globalLog :: "'e stored_event list"
  es_sets :: "handler list list"
  es_streamSubscribers :: "(string, nat) jsmap"
  es_globalSubscribers :: "handler list"
  es_nextGlobalPosition :: int
  es_lastHash :: string

record subscription =
  sub_streamId :: "string option"
  sub_handler :: handler
  sub_set :: nat

definition new_store :: "'e event_store" where
  "new_store = \<lparr>es_streams = [], es_globalLog = [], es_sets = [], es_streamSubscribers = [],
     es_globalSubscribers = [], es_nextGlobalPosition = 1, es_lastHash = GENESIS_HASH\<rparr>"

definition validateStreamId :: "string \<Rightarrow> unit result" where
  "validateStreamId i = throw_when (i = []) (EventStoreError E_INVALID_STREAM_ID)"

definition stream_of :: "'e event_store \<Rightarrow> string \<Rightarrow> 'e stored_event list" where
  "stream_of s i = (case jm_get (es_streams s) i of None \<Rightarrow> [] | Some es \<Rightarrow> es)"

definition check_expected :: "expected_version option \<Rightarrow> int \<Rightarrow> unit result" where
  "check_expected ev currentVersion =
     (case ev of
        None \<Rightarrow> Inr ()
      | Some Any_version \<Rightarrow> Inr ()
      | Some No_stream \<Rightarrow> throw_when (currentVersion \<noteq> 0) (EventStoreError E_CONCURRENCY_CONFLICT)
      | Some (Version n) \<Rightarrow> throw_when (currentVersion \<noteq> n) (EventStoreError E_CONCURRENCY_CONFLICT))"

text \<open>One iteration of the loop: store the event with the next version, position and link. The last
  component collects the stored events.\<close>

definition append_event ::
  "hasher \<Rightarrow> ('e content \<Rightarrow> string) \<Rightarrow> string \<Rightarrow> string \<Rightarrow> 'e event_store \<times> 'e stored_event list \<Rightarrow> 'e \<Rightarrow>
   'e event_store \<times> 'e stored_event list" where
  "append_event H canon i appendedAt st event =
     (case st of (s, stored) \<Rightarrow>
        let base = \<lparr>sv_event = event, sv_streamId = i, sv_version = int (length (stream_of s i)) + 1,
              sv_globalPosition = es_nextGlobalPosition s, sv_appendedAt = appendedAt,
              sv_hash = None, sv_previousHash = None\<rparr>;
            previousHash = es_lastHash s;
            hash = computeEventHash H canon base previousHash;
            e = base\<lparr>sv_hash := Some hash, sv_previousHash := Some previousHash\<rparr>
        in (s\<lparr>es_nextGlobalPosition := es_nextGlobalPosition s + 1, es_lastHash := hash,
              es_streams := jm_set (es_streams s) i (stream_of s i @ [e]),
              es_globalLog := es_globalLog s @ [e]\<rparr>,
            stored @ [e]))"

definition set_at :: "'e event_store \<Rightarrow> nat \<Rightarrow> handler list" where
  "set_at s a = (if a < length (es_sets s) then es_sets s ! a else [])"

definition dispatch_calls :: "'e event_store \<Rightarrow> string \<Rightarrow> 'e stored_event list \<Rightarrow> (handler \<times> 'e stored_event) list" where
  "dispatch_calls s i events =
     (case jm_get (es_streamSubscribers s) i of
        None \<Rightarrow> []
      | Some a \<Rightarrow> concat (map (\<lambda>h. map (\<lambda>e. (h, e)) events) (set_at s a))) @
     concat (map (\<lambda>h. map (\<lambda>e. (h, e)) events) (es_globalSubscribers s))"

definition store_append ::
  "hasher \<Rightarrow> ('e content \<Rightarrow> string) \<Rightarrow> 'e event_store \<Rightarrow> string \<Rightarrow> 'e list \<Rightarrow> expected_version option \<Rightarrow> string \<Rightarrow>
   store_append_result result \<times> 'e event_store \<times> (handler \<times> 'e stored_event) list" where
  "store_append H canon s i events ev now =
     (let currentVersion = int (length (stream_of s i))
      in case bind_r (validateStreamId i) (\<lambda>_.
              bind_r (throw_when (events = []) (EventStoreError E_EMPTY_APPEND)) (\<lambda>_.
                check_expected ev currentVersion)) of
           Inl err \<Rightarrow> (Inl err, s, [])
         | Inr _ \<Rightarrow>
             let (s', stored) = foldl (append_event H canon i now) (s, []) events
             in (Inr \<lparr>sr_streamId = i, sr_fromVersion = currentVersion + 1,
                      sr_toVersion = currentVersion + 1 + int (length events) - 1,
                      sr_count = int (length events)\<rparr>,
                 s', dispatch_calls s' i stored))"

subsection \<open>Reading\<close>

definition limit :: "int option \<Rightarrow> 'b list \<Rightarrow> 'b list" where
  "limit maxCount xs = (case maxCount of None \<Rightarrow> xs | Some n \<Rightarrow> if n \<ge> 0 then take (nat n) xs else xs)"

definition option_or :: "'b option \<Rightarrow> 'b \<Rightarrow> 'b" where
  "option_or x d = (case x of None \<Rightarrow> d | Some y \<Rightarrow> y)"

definition store_read ::
  "'e event_store \<Rightarrow> string \<Rightarrow> read_options \<Rightarrow> 'e stored_event list result" where
  "store_read s i opts =
     bind_r (validateStreamId i) (\<lambda>_.
       case jm_get (es_streams s) i of
         None \<Rightarrow> Inr []
       | Some stream \<Rightarrow>
         let fromVersion = option_or (ro_from opts) 1
         in bind_r (throw_when (fromVersion < 1) (EventStoreError E_INVALID_VERSION)) (\<lambda>_.
              Inr (limit (ro_maxCount opts)
                (case option_or (ro_direction opts) Forward of
                   Forward \<Rightarrow> filter (\<lambda>e. sv_version e \<ge> fromVersion) stream
                 | Backward \<Rightarrow> rev (filter (\<lambda>e. sv_version e \<le> fromVersion) stream)))))"

definition store_readAll :: "'e event_store \<Rightarrow> read_options \<Rightarrow> 'e stored_event list" where
  "store_readAll s opts =
     (let fromPosition = option_or (ro_from opts) 1
      in limit (ro_maxCount opts)
           (case option_or (ro_direction opts) Forward of
              Forward \<Rightarrow> filter (\<lambda>e. sv_globalPosition e \<ge> fromPosition) (es_globalLog s)
            | Backward \<Rightarrow> rev (filter (\<lambda>e. sv_globalPosition e \<le> fromPosition) (es_globalLog s))))"

definition streamExists :: "'e event_store \<Rightarrow> string \<Rightarrow> bool" where
  "streamExists s i \<longleftrightarrow> 0 < length (stream_of s i)"

definition streamVersion :: "'e event_store \<Rightarrow> string \<Rightarrow> int" where
  "streamVersion s i = int (length (stream_of s i))"

definition globalPosition :: "'e event_store \<Rightarrow> int" where
  "globalPosition s = es_nextGlobalPosition s - 1"

definition verifyIntegrity :: "hasher \<Rightarrow> ('e content \<Rightarrow> string) \<Rightarrow> 'e event_store \<Rightarrow> integrity_result" where
  "verifyIntegrity H canon s = verifyHashChain H canon (es_globalLog s)"

subsection \<open>Subscriptions\<close>

definition js_set_add :: "'b \<Rightarrow> 'b list \<Rightarrow> 'b list" where
  "js_set_add x xs = (if x \<in> set xs then xs else xs @ [x])"

definition subscribe :: "'e event_store \<Rightarrow> string \<Rightarrow> handler \<Rightarrow> subscription result \<times> 'e event_store" where
  "subscribe s i h =
     (case validateStreamId i of
        Inl err \<Rightarrow> (Inl err, s)
      | Inr _ \<Rightarrow>
          let (a, s) = (case jm_get (es_streamSubscribers s) i of
                Some a \<Rightarrow> (a, s)
              | None \<Rightarrow> (length (es_sets s),
                  s\<lparr>es_sets := es_sets s @ [[]],
                    es_streamSubscribers := jm_set (es_streamSubscribers s) i (length (es_sets s))\<rparr>))
          in (Inr \<lparr>sub_streamId = Some i, sub_handler = h, sub_set = a\<rparr>,
              s\<lparr>es_sets := (es_sets s)[a := js_set_add h (set_at s a)]\<rparr>))"

definition subscribeAll :: "'e event_store \<Rightarrow> handler \<Rightarrow> subscription \<times> 'e event_store" where
  "subscribeAll s h =
     (\<lparr>sub_streamId = None, sub_handler = h, sub_set = 0\<rparr>,
      s\<lparr>es_globalSubscribers := js_set_add h (es_globalSubscribers s)\<rparr>)"

definition unsubscribe :: "'e event_store \<Rightarrow> subscription \<Rightarrow> 'e event_store" where
  "unsubscribe s sub =
     (case sub_streamId sub of
        None \<Rightarrow> s\<lparr>es_globalSubscribers := filter (\<lambda>h. h \<noteq> sub_handler sub) (es_globalSubscribers s)\<rparr>
      | Some i \<Rightarrow>
          let s = s\<lparr>es_sets := (es_sets s)[sub_set sub := filter (\<lambda>h. h \<noteq> sub_handler sub) (set_at s (sub_set sub))]\<rparr>
          in if set_at s (sub_set sub) = []
             then s\<lparr>es_streamSubscribers := filter (\<lambda>(k, _). k \<noteq> i) (es_streamSubscribers s)\<rparr>
             else s)"


subsection \<open>What a valid chain is\<close>

fun chain_ok :: "hasher \<Rightarrow> ('e content \<Rightarrow> string) \<Rightarrow> string \<Rightarrow> 'e stored_event list \<Rightarrow> bool" where
  "chain_ok H canon prev [] \<longleftrightarrow> True"
| "chain_ok H canon prev (e # es) \<longleftrightarrow>
     sv_previousHash e = Some prev \<and> sv_hash e = Some (computeEventHash H canon e prev) \<and>
     chain_ok H canon (computeEventHash H canon e prev) es"

fun contiguous :: "int option \<Rightarrow> 'e stored_event list \<Rightarrow> bool" where
  "contiguous expected [] \<longleftrightarrow> True"
| "contiguous expected (e # es) \<longleftrightarrow>
     (expected = None \<or> expected = Some (sv_globalPosition e)) \<and> contiguous (Some (sv_globalPosition e + 1)) es"

definition fully_hashed :: "'e stored_event list \<Rightarrow> bool" where
  "fully_hashed es \<longleftrightarrow> (\<forall>e \<in> set es. sv_hash e \<noteq> None \<and> sv_previousHash e \<noteq> None)"

fun chain_head :: "string \<Rightarrow> 'e stored_event list \<Rightarrow> string" where
  "chain_head prev [] = prev"
| "chain_head prev (e # es) = chain_head (option_or (sv_hash e) prev) es"

lemma push_error_Nil [simp]: "push_error e r b errs = [] \<longleftrightarrow> errs = [] \<and> \<not> b"
  by (simp add: push_error_def)

lemma chain_step_hashed:
  assumes "sv_hash e = Some h" "sv_previousHash e = Some p"
  shows "cs_errors (chain_step H canon s e) = [] \<longleftrightarrow>
      cs_errors s = [] \<and> (cs_expected s = None \<or> cs_expected s = Some (sv_globalPosition e)) \<and>
      p = (if cs_started s then cs_previousHash s else GENESIS_HASH) \<and> h = computeEventHash H canon e p"
    and "cs_started (chain_step H canon s e)" "cs_previousHash (chain_step H canon s e) = h"
    "cs_expected (chain_step H canon s e) = Some (sv_globalPosition e + 1)"
    "cs_lastVerified (chain_step H canon s e) = sv_globalPosition e"
  using assms
  by (auto simp: chain_step_def chain_link_def chain_begin_def chain_contiguous_def Let_def)

lemma chain_fold:
  assumes "fully_hashed es"
  shows "cs_errors (foldl (chain_step H canon) s es) = [] \<longleftrightarrow>
    cs_errors s = [] \<and> chain_ok H canon (if cs_started s then cs_previousHash s else GENESIS_HASH) es \<and>
    contiguous (cs_expected s) es"
  using assms
proof (induction es arbitrary: s)
  case Nil
  then show ?case by simp
next
  case (Cons e es)
  obtain h p where e: "sv_hash e = Some h" "sv_previousHash e = Some p"
    using Cons.prems by (auto simp: fully_hashed_def)
  have "fully_hashed es" using Cons.prems by (simp add: fully_hashed_def)
  note IH = Cons.IH[OF this, of "chain_step H canon s e"]
  let ?prev = "if cs_started s then cs_previousHash s else GENESIS_HASH"
  have "cs_errors (foldl (chain_step H canon) s (e # es)) = [] \<longleftrightarrow>
      cs_errors (chain_step H canon s e) = [] \<and> chain_ok H canon h es \<and>
      contiguous (Some (sv_globalPosition e + 1)) es"
    unfolding foldl_Cons IH chain_step_hashed(3,4)[OF e] if_P[OF chain_step_hashed(2)[OF e]] by (rule refl)
  also have "\<dots> \<longleftrightarrow> cs_errors s = [] \<and> chain_ok H canon ?prev (e # es) \<and> contiguous (cs_expected s) (e # es)"
    unfolding chain_step_hashed(1)[OF e] chain_ok.simps contiguous.simps e option.inject by blast
  finally show ?case .
qed

lemma verify_valid_iff:
  "fully_hashed es \<Longrightarrow>
   ir_valid (verifyHashChain H canon es) \<longleftrightarrow> chain_ok H canon GENESIS_HASH es \<and> contiguous None es"
  using chain_fold[of es H canon chain_start] by (simp add: verifyHashChain_def Let_def chain_start_def)

lemma chain_ok_append:
  "chain_ok H canon prev (es @ fs) \<longleftrightarrow> chain_ok H canon prev es \<and> chain_ok H canon (chain_head prev es) fs"
proof (induction es arbitrary: prev)
  case (Cons e es)
  show ?case by (simp add: option_or_def Cons.IH cong: conj_cong)
qed simp

lemma chain_head_append [simp]: "chain_head prev (es @ fs) = chain_head (chain_head prev es) fs"
  by (induction es arbitrary: prev) simp_all

lemma contiguous_append:
  "contiguous expected (es @ fs) \<longleftrightarrow> contiguous expected es \<and>
     contiguous (if es = [] then expected else Some (sv_globalPosition (last es) + 1)) fs"
  by (induction es arbitrary: expected) auto

lemma chain_ok_hashed: "chain_ok H canon prev es \<Longrightarrow> fully_hashed es"
  by (induction es arbitrary: prev) (auto simp: fully_hashed_def)

subsection \<open>A chain's head commits to its history\<close>

fun chain_inputs :: "('e content \<Rightarrow> string) \<Rightarrow> string \<Rightarrow> 'e stored_event list \<Rightarrow> byte list list" where
  "chain_inputs canon prev [] = []"
| "chain_inputs canon prev (e # es) =
     utf8 (canon (event_content e) @ prev) # chain_inputs canon (option_or (sv_hash e) prev) es"

lemma chain_inputs_append:
  "chain_inputs canon prev (es @ fs) = chain_inputs canon prev es @ chain_inputs canon (chain_head prev es) fs"
  by (induction es arbitrary: prev) simp_all

lemma chain_head_hex:
  assumes "\<And>bs. SHA256_HEX_RE (H bs)"
  shows "chain_ok H canon prev es \<Longrightarrow> es \<noteq> [] \<Longrightarrow> SHA256_HEX_RE (chain_head prev es)"
proof (induction es rule: rev_induct)
  case (snoc e es)
  from snoc.prems(1) have "sv_hash e = Some (computeEventHash H canon e (chain_head prev es))"
    unfolding chain_ok_append chain_ok.simps by (elim conjE)
  then show ?case by (simp add: option_or_def computeEventHash_def sha256_def assms)
qed simp

lemma no_brace: "SHA256_HEX_RE s \<Longrightarrow> CHR 0x7D \<notin> set s" "CHR 0x7D \<notin> set GENESIS_HASH"
proof -
  have "CHR 0x7D \<notin> set hex_digits" by (simp add: hex_digits_def)
  then show "SHA256_HEX_RE s \<Longrightarrow> CHR 0x7D \<notin> set s" unfolding SHA256_HEX_RE_def by blast
  show "CHR 0x7D \<notin> set GENESIS_HASH" by (simp add: GENESIS_HASH_def)
qed

lemma genesis_not_hex: "\<not> SHA256_HEX_RE GENESIS_HASH"
  by (simp add: SHA256_HEX_RE_def GENESIS_HASH_def)

text \<open>The text of an object and a hash after it can be told apart.\<close>

lemma split_at_brace:
  assumes "a @ CHR 0x7D # p = b @ CHR 0x7D # q" "CHR 0x7D \<notin> set p" "CHR 0x7D \<notin> set q"
  shows "a = b \<and> p = q"
proof -
  have "rev p @ CHR 0x7D # rev a = rev q @ CHR 0x7D # rev b" using arg_cong[OF assms(1), of rev] by simp
  then have "takeWhile (\<lambda>c. c \<noteq> CHR 0x7D) (rev p @ CHR 0x7D # rev a) =
      takeWhile (\<lambda>c. c \<noteq> CHR 0x7D) (rev q @ CHR 0x7D # rev b)" by simp
  moreover have "\<forall>c \<in> set (rev p). c \<noteq> CHR 0x7D" "\<forall>c \<in> set (rev q). c \<noteq> CHR 0x7D" using assms(2,3) by auto
  ultimately have "rev p = rev q" by (simp add: takeWhile_append)
  with assms(1) show ?thesis by simp
qed

lemma chain_binding:
  assumes hex: "\<And>bs. SHA256_HEX_RE (H bs)" and canon: "\<And>c. \<exists>s. canon c = s @ [CHR 0x7D]"
    and "chain_ok H canon GENESIS_HASH es" "chain_ok H canon GENESIS_HASH fs"
    and "chain_head GENESIS_HASH es = chain_head GENESIS_HASH fs"
  shows "map (\<lambda>e. canon (event_content e)) es = map (\<lambda>e. canon (event_content e)) fs \<or>
    collision H (chain_inputs canon GENESIS_HASH es) (chain_inputs canon GENESIS_HASH fs)"
  using assms(3-)
proof (induction es arbitrary: fs rule: rev_induct)
  case Nil
  then have "fs = []" using chain_head_hex[OF hex Nil.prems(2)] genesis_not_hex by auto
  then show ?case by simp
next
  case (snoc e es)
  have "fs \<noteq> []"
  proof
    assume "fs = []"
    then have "chain_head GENESIS_HASH (es @ [e]) = GENESIS_HASH" using snoc.prems(3) by simp
    then show False using chain_head_hex[OF hex snoc.prems(1)] genesis_not_hex by simp
  qed
  then obtain gs f where fs: "fs = gs @ [f]" by (cases fs rule: rev_cases) auto
  let ?p = "chain_head GENESIS_HASH es" and ?q = "chain_head GENESIS_HASH gs"
  let ?x = "canon (event_content e) @ ?p" and ?y = "canon (event_content f) @ ?q"
  have ok: "chain_ok H canon GENESIS_HASH es" "chain_ok H canon GENESIS_HASH gs"
    using snoc.prems(1,2) by (simp_all add: fs chain_ok_append)
  have eq: "H (utf8 ?x) = H (utf8 ?y)"
    using snoc.prems by (simp add: fs chain_ok_append option_or_def computeEventHash_def sha256_def)
  show ?case
  proof (cases "?x = ?y")
    case False
    then have "utf8 ?x \<noteq> utf8 ?y" using utf8_inj by blast
    then show ?thesis using eq
      by (intro disjI2 collisionI[of "utf8 ?x" _ "utf8 ?y"]) (simp_all add: fs chain_inputs_append)
  next
    case True
    obtain a b where ab: "canon (event_content e) = a @ [CHR 0x7D]" "canon (event_content f) = b @ [CHR 0x7D]"
      using canon by meson
    have "CHR 0x7D \<notin> set ?p" "CHR 0x7D \<notin> set ?q"
      using chain_head_hex[OF hex ok(1)] chain_head_hex[OF hex ok(2)] no_brace by (cases es; cases gs; auto)+
    then have "a = b \<and> ?p = ?q" using True ab by (intro split_at_brace) simp_all
    then have "?p = ?q" "canon (event_content e) = canon (event_content f)" using ab by simp_all
    moreover have "collision H (chain_inputs canon GENESIS_HASH es) (chain_inputs canon GENESIS_HASH gs) \<Longrightarrow>
        collision H (chain_inputs canon GENESIS_HASH (es @ [e])) (chain_inputs canon GENESIS_HASH (gs @ [f]))"
      unfolding chain_inputs_append by (elim collision_mono) auto
    ultimately show ?thesis using snoc.IH[OF ok] unfolding fs by auto
  qed
qed


subsection \<open>The invariant of the store\<close>

definition counted :: "('b \<Rightarrow> int) \<Rightarrow> 'b list \<Rightarrow> bool" where
  "counted f xs \<longleftrightarrow> (\<forall>k < length xs. f (xs ! k) = int k + 1)"

lemma counted_Nil [simp]: "counted f []"
  by (simp add: counted_def)

lemma counted_snoc [simp]: "counted f (xs @ [x]) \<longleftrightarrow> counted f xs \<and> f x = int (length xs) + 1"
  by (auto simp: counted_def nth_append less_Suc_eq)

lemma counted_contiguous: "counted sv_globalPosition es \<Longrightarrow> contiguous None es"
proof (induction es rule: rev_induct)
  case (snoc e es)
  have es: "counted sv_globalPosition es" "sv_globalPosition e = int (length es) + 1"
    using snoc.prems by simp_all
  have "sv_globalPosition (last es) = int (length es)" if "es \<noteq> []"
  proof -
    obtain ys y where "es = ys @ [y]" using \<open>es \<noteq> []\<close> by (cases es rule: rev_cases) blast+
    then show ?thesis using es(1) by simp
  qed
  with snoc.IH[OF es(1)] es(2) show ?case by (simp add: contiguous_append)
qed simp

definition store_wf :: "hasher \<Rightarrow> ('e content \<Rightarrow> string) \<Rightarrow> 'e event_store \<Rightarrow> bool" where
  "store_wf H canon s \<longleftrightarrow>
     es_nextGlobalPosition s = int (length (es_globalLog s)) + 1 \<and>
     counted sv_globalPosition (es_globalLog s) \<and>
     chain_ok H canon GENESIS_HASH (es_globalLog s) \<and>
     chain_head GENESIS_HASH (es_globalLog s) = es_lastHash s \<and>
     (\<forall>i. stream_of s i = filter (\<lambda>e. sv_streamId e = i) (es_globalLog s)) \<and>
     (\<forall>i. counted sv_version (stream_of s i))"

lemma append_event_result:
  assumes "append_event H canon i now (s, stored) x = (s', stored')"
  obtains e where "stored' = stored @ [e]" "sv_event e = x" "sv_streamId e = i" "sv_appendedAt e = now"
    "es_globalLog s' = es_globalLog s @ [e]" "\<And>j. stream_of s' j = stream_of s j @ (if j = i then [e] else [])"
    "sv_version e = int (length (stream_of s i)) + 1" "sv_globalPosition e = es_nextGlobalPosition s"
    "es_nextGlobalPosition s' = es_nextGlobalPosition s + 1" "sv_previousHash e = Some (es_lastHash s)"
    "sv_hash e = Some (es_lastHash s')" "es_lastHash s' = computeEventHash H canon e (es_lastHash s)"
    "es_sets s' = es_sets s" "es_streamSubscribers s' = es_streamSubscribers s"
    "es_globalSubscribers s' = es_globalSubscribers s"
proof -
  let ?base = "\<lparr>sv_event = x, sv_streamId = i, sv_version = int (length (stream_of s i)) + 1,
              sv_globalPosition = es_nextGlobalPosition s, sv_appendedAt = now,
              sv_hash = None, sv_previousHash = None\<rparr>"
  let ?h = "computeEventHash H canon ?base (es_lastHash s)"
  let ?e = "?base\<lparr>sv_hash := Some ?h, sv_previousHash := Some (es_lastHash s)\<rparr>"
  have s': "s' = s\<lparr>es_nextGlobalPosition := es_nextGlobalPosition s + 1, es_lastHash := ?h,
      es_streams := jm_set (es_streams s) i (stream_of s i @ [?e]), es_globalLog := es_globalLog s @ [?e]\<rparr>"
    and stored': "stored' = stored @ [?e]"
    using assms by (simp_all add: append_event_def Let_def)
  have "computeEventHash H canon ?e (es_lastHash s) = ?h" by (simp add: computeEventHash_def event_content_def)
  moreover have "stream_of s' j = stream_of s j @ (if j = i then [?e] else [])" for j
    by (simp add: s' stream_of_def)
  ultimately show ?thesis by (intro that[of ?e]) (simp_all add: stored' s')
qed

lemma append_event_wf:
  assumes "append_event H canon i now (s, stored) x = (s', stored')" "store_wf H canon s"
  shows "store_wf H canon s'"
proof -
  obtain e where e: "sv_streamId e = i" "es_globalLog s' = es_globalLog s @ [e]"
    "\<And>j. stream_of s' j = stream_of s j @ (if j = i then [e] else [])"
    "sv_version e = int (length (stream_of s i)) + 1" "sv_globalPosition e = es_nextGlobalPosition s"
    "es_nextGlobalPosition s' = es_nextGlobalPosition s + 1" "sv_previousHash e = Some (es_lastHash s)"
    "sv_hash e = Some (es_lastHash s')" "es_lastHash s' = computeEventHash H canon e (es_lastHash s)"
    using assms(1) by (rule append_event_result) metis
  then show ?thesis using assms(2)
    by (auto simp: store_wf_def chain_ok_append option_or_def)
qed

text \<open>The loop of \<^verbatim>\<open>append\<close>, for all events.\<close>

lemma append_events:
  assumes "foldl (append_event H canon i now) (s, stored) xs = (s', stored')"
  shows "\<exists>new. stored' = stored @ new \<and> map sv_event new = xs \<and>
    (\<forall>e \<in> set new. sv_streamId e = i \<and> sv_appendedAt e = now) \<and>
    es_globalLog s' = es_globalLog s @ new \<and>
    (\<forall>j. stream_of s' j = stream_of s j @ (if j = i then new else [])) \<and>
    (store_wf H canon s \<longrightarrow> store_wf H canon s') \<and>
    es_sets s' = es_sets s \<and> es_streamSubscribers s' = es_streamSubscribers s \<and>
    es_globalSubscribers s' = es_globalSubscribers s"
  using assms
proof (induction xs arbitrary: s stored)
  case Nil
  then show ?case by simp
next
  case (Cons x xs)
  obtain s1 st1 where one: "append_event H canon i now (s, stored) x = (s1, st1)" by fastforce
  obtain e where e: "st1 = stored @ [e]" "sv_event e = x" "sv_streamId e = i" "sv_appendedAt e = now"
    "es_globalLog s1 = es_globalLog s @ [e]" "\<And>j. stream_of s1 j = stream_of s j @ (if j = i then [e] else [])"
    "es_sets s1 = es_sets s" "es_streamSubscribers s1 = es_streamSubscribers s"
    "es_globalSubscribers s1 = es_globalSubscribers s"
    using one by (rule append_event_result) metis
  have "foldl (append_event H canon i now) (s1, st1) xs = (s', stored')" using Cons.prems one by simp
  from Cons.IH[OF this] obtain new where new: "stored' = st1 @ new" "map sv_event new = xs"
    "\<forall>e \<in> set new. sv_streamId e = i \<and> sv_appendedAt e = now" "es_globalLog s' = es_globalLog s1 @ new"
    "\<forall>j. stream_of s' j = stream_of s1 j @ (if j = i then new else [])"
    "store_wf H canon s1 \<longrightarrow> store_wf H canon s'" "es_sets s' = es_sets s1"
    "es_streamSubscribers s' = es_streamSubscribers s1" "es_globalSubscribers s' = es_globalSubscribers s1"
    by blast
  show ?case
    using e new append_event_wf[OF one] by (intro exI[of _ "e # new"]) simp
qed

lemma store_append_ok:
  assumes "i \<noteq> []" "xs \<noteq> []" "check_expected ev (streamVersion s i) = Inr ()"
  obtains s' new where "store_append H canon s i xs ev now =
      (Inr \<lparr>sr_streamId = i, sr_fromVersion = streamVersion s i + 1,
            sr_toVersion = streamVersion s i + int (length xs), sr_count = int (length xs)\<rparr>,
       s', dispatch_calls s i new)"
    "map sv_event new = xs" "\<forall>e \<in> set new. sv_streamId e = i \<and> sv_appendedAt e = now"
    "es_globalLog s' = es_globalLog s @ new" "\<forall>j. stream_of s' j = stream_of s j @ (if j = i then new else [])"
    "store_wf H canon s \<Longrightarrow> store_wf H canon s'" "es_sets s' = es_sets s"
    "es_streamSubscribers s' = es_streamSubscribers s" "es_globalSubscribers s' = es_globalSubscribers s"
proof -
  obtain s' stored where f: "foldl (append_event H canon i now) (s, []) xs = (s', stored)" by fastforce
  from append_events[OF f] obtain new where new: "stored = new" "map sv_event new = xs"
    "\<forall>e \<in> set new. sv_streamId e = i \<and> sv_appendedAt e = now" "es_globalLog s' = es_globalLog s @ new"
    "\<forall>j. stream_of s' j = stream_of s j @ (if j = i then new else [])"
    "store_wf H canon s \<Longrightarrow> store_wf H canon s'" "es_sets s' = es_sets s"
    "es_streamSubscribers s' = es_streamSubscribers s" "es_globalSubscribers s' = es_globalSubscribers s"
    by auto
  have "dispatch_calls s' i stored = dispatch_calls s i new"
    unfolding dispatch_calls_def set_at_def[abs_def] new(1,7,8,9) by (rule refl)
  then show ?thesis using that[of s' new] new f assms
    by (simp add: store_append_def validateStreamId_def throw_when_def streamVersion_def Let_def)
qed

lemma store_append_fail:
  assumes "\<not> (i \<noteq> [] \<and> xs \<noteq> [] \<and> check_expected ev (streamVersion s i) = Inr ())"
  obtains err where "store_append H canon s i xs ev now = (Inl err, s, [])"
proof (cases "bind_r (validateStreamId i) (\<lambda>_.
              bind_r (throw_when (xs = []) (EventStoreError E_EMPTY_APPEND)) (\<lambda>_.
                check_expected ev (int (length (stream_of s i)))))")
  case (Inl err)
  then show ?thesis using that by (simp add: store_append_def)
next
  case (Inr u)
  then show ?thesis using assms
    by (auto simp: validateStreamId_def bind_r_eq_Inr throw_when_Inr streamVersion_def)
qed

subsection \<open>Reachable stores\<close>

inductive store_reachable :: "hasher \<Rightarrow> ('e content \<Rightarrow> string) \<Rightarrow> 'e event_store \<Rightarrow> bool" for H canon where
  store_new: "store_reachable H canon new_store"
| store_appended: "store_reachable H canon s \<Longrightarrow> store_append H canon s i xs ev now = (r, s', calls) \<Longrightarrow>
    store_reachable H canon s'"
| store_subscribed: "store_reachable H canon s \<Longrightarrow> subscribe s i h = (r, s') \<Longrightarrow> store_reachable H canon s'"
| store_subscribedAll: "store_reachable H canon s \<Longrightarrow> subscribeAll s h = (sub, s') \<Longrightarrow> store_reachable H canon s'"
| store_unsubscribed: "store_reachable H canon s \<Longrightarrow> store_reachable H canon (unsubscribe s sub)"

lemma store_wf_cong:
  "es_streams s' = es_streams s \<Longrightarrow> es_globalLog s' = es_globalLog s \<Longrightarrow> es_lastHash s' = es_lastHash s \<Longrightarrow>
   es_nextGlobalPosition s' = es_nextGlobalPosition s \<Longrightarrow> store_wf H canon s' = store_wf H canon s"
  by (simp add: store_wf_def stream_of_def)

lemma store_reachable_wf: "store_reachable H canon s \<Longrightarrow> store_wf H canon s"
proof (induction rule: store_reachable.induct)
  case store_new
  then show ?case by (simp add: store_wf_def new_store_def stream_of_def)
next
  case (store_appended s i xs ev now r s' calls)
  show ?case
  proof (cases "i \<noteq> [] \<and> xs \<noteq> [] \<and> check_expected ev (streamVersion s i) = Inr ()")
    case True
    then have a: "i \<noteq> []" "xs \<noteq> []" "check_expected ev (streamVersion s i) = Inr ()" by simp_all
    from a show ?thesis
    proof (rule store_append_ok[of i xs ev s H canon now], goal_cases)
      case (1 t new)
      then show ?case using store_appended by simp
    qed
  next
    case False
    then obtain err where "store_append H canon s i xs ev now = (Inl err, s, [])" by (rule store_append_fail)
    then show ?thesis using store_appended by simp
  qed
next
  case (store_subscribed s i h r s')
  have "store_wf H canon s' = store_wf H canon s"
    using store_subscribed.hyps(2)
    by (intro store_wf_cong) (auto simp: subscribe_def Let_def split: sum.splits option.splits)
  then show ?case using store_subscribed.IH by simp
next
  case (store_subscribedAll s h sub s')
  have "store_wf H canon s' = store_wf H canon s"
    using store_subscribedAll.hyps(2) by (intro store_wf_cong) (auto simp: subscribeAll_def)
  then show ?case using store_subscribedAll.IH by simp
next
  case (store_unsubscribed s sub)
  have "store_wf H canon (unsubscribe s sub) = store_wf H canon s"
    by (intro store_wf_cong) (auto simp: unsubscribe_def Let_def split: option.splits)
  then show ?case using store_unsubscribed.IH by simp
qed


subsection \<open>Properties\<close>

lemma chain_fold_last:
  assumes "fully_hashed es" "es \<noteq> []"
  shows "cs_lastVerified (foldl (chain_step H canon) s es) = sv_globalPosition (last es)"
proof -
  obtain fs e where es: "es = fs @ [e]" using assms(2) by (cases es rule: rev_cases) auto
  then obtain h p where "sv_hash e = Some h" "sv_previousHash e = Some p" using assms(1) by (auto simp: fully_hashed_def)
  from chain_step_hashed(5)[OF this] show ?thesis by (simp add: es)
qed

lemma counted_last: "counted f xs \<Longrightarrow> xs \<noteq> [] \<Longrightarrow> f (last xs) = int (length xs)"
  by (cases xs rule: rev_cases) auto

lemma counted_filter_from:
  assumes "counted f xs" "1 \<le> v" shows "filter (\<lambda>x. f x \<ge> v) xs = drop (nat (v - 1)) xs"
  using assms(1)
proof (induction xs rule: rev_induct)
  case (snoc x xs)
  then have x: "f x = int (length xs) + 1" and IH: "filter (\<lambda>x. f x \<ge> v) xs = drop (nat (v - 1)) xs" by simp_all
  show ?case
  proof (cases "v \<le> f x")
    case True
    then have "nat (v - 1) \<le> length xs" using x assms(2) by simp
    then show ?thesis using True IH by simp
  next
    case False
    then have "length xs < nat (v - 1)" using x by simp
    then show ?thesis using False IH by simp
  qed
qed simp

text \<open>\<^verbatim>\<open>verifyHashChain\<close> accepts a fully hashed log exactly when every record carries
  the hash of its content and predecessor, the first one links to the genesis hash, and the positions
  have no gaps.\<close>

theorem verify_accepts_exactly_chains:
  assumes "fully_hashed es"
  shows "ir_valid (verifyHashChain H canon es) \<longleftrightarrow> chain_ok H canon GENESIS_HASH es \<and> contiguous None es"
  by (rule verify_valid_iff[OF assms])

text \<open>C21: In every reachable store the global positions are 1, 2, 3, ..., each stream is the
  projection of the global log to its records with versions 1, 2, 3, ..., and
  \<^verbatim>\<open>verifyIntegrity\<close> finds no error up to the current position.\<close>

theorem reachable_store_integrity:
  assumes "store_reachable H canon s"
  shows "counted sv_globalPosition (es_globalLog s) \<and> globalPosition s = int (length (es_globalLog s)) \<and>
    (\<forall>i. stream_of s i = filter (\<lambda>e. sv_streamId e = i) (es_globalLog s) \<and> counted sv_version (stream_of s i)) \<and>
    verifyIntegrity H canon s =
      \<lparr>ir_valid = True, ir_lastVerifiedPosition = globalPosition s, ir_errors = []\<rparr>"
proof -
  have wf: "store_wf H canon s" by (rule store_reachable_wf[OF assms])
  then have c: "chain_ok H canon GENESIS_HASH (es_globalLog s)" "counted sv_globalPosition (es_globalLog s)"
    "globalPosition s = int (length (es_globalLog s))"
    by (simp_all add: store_wf_def globalPosition_def)
  have "verifyIntegrity H canon s =
      \<lparr>ir_valid = True, ir_lastVerifiedPosition = globalPosition s, ir_errors = []\<rparr>"
  proof (cases "es_globalLog s = []")
    case True
    then show ?thesis using c(3) by (simp add: verifyIntegrity_def verifyHashChain_def)
  next
    case False
    have "cs_errors (foldl (chain_step H canon) chain_start (es_globalLog s)) = []"
      using chain_fold[OF chain_ok_hashed[OF c(1)], of H canon chain_start] c(1) counted_contiguous[OF c(2)]
      by (simp add: chain_start_def)
    then show ?thesis
      using False chain_fold_last[OF chain_ok_hashed[OF c(1)] False] counted_last[OF c(2) False] c(3)
      by (simp add: verifyIntegrity_def verifyHashChain_def Let_def)
  qed
  moreover have "\<forall>i. stream_of s i = filter (\<lambda>e. sv_streamId e = i) (es_globalLog s) \<and> counted sv_version (stream_of s i)"
    using wf unfolding store_wf_def by blast
  ultimately show ?thesis using c by blast
qed

text \<open>C17: The last hash of a reachable store commits to its whole history: every fully hashed log that
  verifies and ends in the same hash has the same canonical content, record by record, or the two logs
  contain a collision.\<close>

theorem last_hash_commits_to_history:
  assumes "\<And>bs. SHA256_HEX_RE (H bs)" and "\<And>c. \<exists>s. canon c = s @ [CHR 0x7D]"
    and "store_reachable H canon s" and "fully_hashed es" and "ir_valid (verifyHashChain H canon es)"
    and "chain_head GENESIS_HASH es = es_lastHash s"
  shows "map (\<lambda>e. canon (event_content e)) es = map (\<lambda>e. canon (event_content e)) (es_globalLog s) \<or>
    collision H (chain_inputs canon GENESIS_HASH es) (chain_inputs canon GENESIS_HASH (es_globalLog s))"
proof -
  have "store_wf H canon s" by (rule store_reachable_wf[OF assms(3)])
  then have ok: "chain_ok H canon GENESIS_HASH (es_globalLog s)" "chain_head GENESIS_HASH (es_globalLog s) = es_lastHash s"
    by (simp_all add: store_wf_def)
  have "chain_ok H canon GENESIS_HASH es" using verify_valid_iff[OF assms(4)] assms(5) by blast
  from chain_binding[OF assms(1,2) this ok(1)] show ?thesis unfolding ok(2) using assms(6) by blast
qed

text \<open>A log that lost its last records still verifies.\<close>

lemma tail_truncation_undetected:
  assumes "store_reachable H canon s"
  shows "ir_valid (verifyHashChain H canon (take n (es_globalLog s)))"
proof -
  let ?l = "es_globalLog s"
  have "store_wf H canon s" by (rule store_reachable_wf[OF assms])
  then have c: "chain_ok H canon GENESIS_HASH (take n ?l @ drop n ?l)" "counted sv_globalPosition ?l"
    by (simp_all add: store_wf_def)
  have "contiguous None (take n ?l @ drop n ?l)" using counted_contiguous[OF c(2)] by simp
  from c(1) have "chain_ok H canon GENESIS_HASH (take n ?l)" unfolding chain_ok_append by (rule conjunct1)
  moreover from \<open>contiguous None (take n ?l @ drop n ?l)\<close> have "contiguous None (take n ?l)"
    unfolding contiguous_append by (rule conjunct1)
  ultimately show ?thesis using verify_valid_iff[OF chain_ok_hashed] by blast
qed

definition expected_met :: "expected_version option \<Rightarrow> int \<Rightarrow> bool" where
  "expected_met ev current \<longleftrightarrow>
     ev = None \<or> ev = Some Any_version \<or> ev = Some No_stream \<and> current = 0 \<or> ev = Some (Version current)"

lemma check_expected_iff: "check_expected ev current = Inr () \<longleftrightarrow> expected_met ev current"
  by (auto simp: check_expected_def expected_met_def throw_when_Inr split: option.splits expected_version.splits)

text \<open>C26: \<^verbatim>\<open>append\<close> succeeds exactly for a non-empty stream id, at least one event and an
  expected version that the stream meets; then it adds the events in order to the end of the log and
  of that stream only and reports the new head version; otherwise it changes nothing and calls no
  subscriber.\<close>

theorem store_append_contract:
  "case store_append H canon s i xs ev now of
     (Inr r, s', calls) \<Rightarrow> i \<noteq> [] \<and> xs \<noteq> [] \<and> expected_met ev (streamVersion s i) \<and>
       (\<exists>new. map sv_event new = xs \<and> es_globalLog s' = es_globalLog s @ new \<and>
          calls = dispatch_calls s i new \<and>
          (\<forall>j. stream_of s' j = stream_of s j @ (if j = i then new else []))) \<and>
       streamVersion s' i = streamVersion s i + int (length xs) \<and> sr_toVersion r = streamVersion s' i
   | (Inl err, s', calls) \<Rightarrow>
       s' = s \<and> calls = [] \<and> (i = [] \<or> xs = [] \<or> \<not> expected_met ev (streamVersion s i))"
proof (cases "i \<noteq> [] \<and> xs \<noteq> [] \<and> check_expected ev (streamVersion s i) = Inr ()")
  case True
  then have a: "i \<noteq> []" "xs \<noteq> []" "check_expected ev (streamVersion s i) = Inr ()" by simp_all
  from a show ?thesis
  proof (rule store_append_ok[of i xs ev s H canon now], goal_cases)
    case (1 s' new)
    have "length new = length xs" using arg_cong[OF 1(2), of length] by simp
    then have "streamVersion s' i = streamVersion s i + int (length xs)" using 1(5) by (simp add: streamVersion_def)
    with 1 a show ?case by (auto simp: check_expected_iff)
  qed
next
  case False
  then obtain err where "store_append H canon s i xs ev now = (Inl err, s, [])" by (rule store_append_fail)
  with False show ?thesis by (auto simp: check_expected_iff)
qed

text \<open>Reading a stream forward from a version returns exactly the records of that stream from that
  version on, at most as many as asked for.\<close>

theorem store_read_forward:
  assumes "store_reachable H canon s" and "i \<noteq> []" and "1 \<le> v" and "0 \<le> n"
  shows "store_read s i \<lparr>ro_from = Some v, ro_maxCount = Some n, ro_direction = None\<rparr> =
    Inr (take (nat n) (drop (nat (v - 1)) (filter (\<lambda>e. sv_streamId e = i) (es_globalLog s))))"
proof -
  have wf: "store_wf H canon s" by (rule store_reachable_wf[OF assms(1)])
  have "stream_of s i = filter (\<lambda>e. sv_streamId e = i) (es_globalLog s)" "counted sv_version (stream_of s i)"
    using wf unfolding store_wf_def by blast+
  moreover have "store_read s i \<lparr>ro_from = Some v, ro_maxCount = Some n, ro_direction = None\<rparr> =
      Inr (take (nat n) (filter (\<lambda>e. sv_version e \<ge> v) (stream_of s i)))"
    using assms(2-4)
    by (auto simp: store_read_def validateStreamId_def throw_when_def option_or_def limit_def stream_of_def
        split: option.split)
  ultimately show ?thesis using counted_filter_from[OF _ assms(3)] by metis
qed

text \<open>A subscription holds on to the set it was added to. Once that set is empty it is
  dropped, but unsubscribing again still removes the stream's key, and with it a set made
  in the meantime: the second subscriber is no longer called although it never unsubscribed.\<close>

theorem double_unsubscribe_drops_others:
  "\<exists>s0 sub1 s1 sub2 s2. store_reachable H canon s0 \<and>
     subscribe s0 ''s'' 1 = (Inr sub1, s1) \<and>
     subscribe (unsubscribe s1 sub1) ''s'' 2 = (Inr sub2, s2) \<and>
     dispatch_calls s2 ''s'' [e] = [(2, e)] \<and>
     dispatch_calls (unsubscribe s2 sub1) ''s'' [e] = []"
proof -
  let ?s0 = "new_store :: 'a event_store"
  let ?s1 = "?s0\<lparr>es_sets := [[1]], es_streamSubscribers := [(''s'', 0)]\<rparr>"
  let ?sub1 = "\<lparr>sub_streamId = Some ''s'', sub_handler = 1, sub_set = 0\<rparr>"
  let ?s2 = "?s0\<lparr>es_sets := [[], [2]], es_streamSubscribers := [(''s'', 1)]\<rparr>"
  let ?sub2 = "\<lparr>sub_streamId = Some ''s'', sub_handler = 2, sub_set = 1\<rparr>"
  have "subscribe ?s0 ''s'' 1 = (Inr ?sub1, ?s1)"
    by (simp add: subscribe_def new_store_def validateStreamId_def throw_when_def js_set_add_def set_at_def Let_def)
  moreover have "unsubscribe ?s1 ?sub1 = ?s0\<lparr>es_sets := [[]], es_streamSubscribers := []\<rparr>"
    by (simp add: unsubscribe_def new_store_def set_at_def Let_def)
  moreover have "subscribe (?s0\<lparr>es_sets := [[]], es_streamSubscribers := []\<rparr>) ''s'' 2 = (Inr ?sub2, ?s2)"
    by (simp add: subscribe_def new_store_def validateStreamId_def throw_when_def js_set_add_def set_at_def Let_def)
  moreover have "dispatch_calls ?s2 ''s'' [e] = [(2, e)]"
    by (simp add: dispatch_calls_def set_at_def new_store_def)
  moreover have "dispatch_calls (unsubscribe ?s2 ?sub1) ''s'' [e] = []"
    by (simp add: dispatch_calls_def unsubscribe_def set_at_def new_store_def Let_def)
  ultimately show ?thesis using store_reachable.store_new by metis
qed

subsection \<open>Witnesses\<close>

definition sample_canon :: "string content \<Rightarrow> string" where
  "sample_canon c = fst c @ [CHR 0x7D]"

definition sample_store :: "string event_store" where
  "sample_store = fst (snd (store_append sample_hash sample_canon new_store ''s'' [''x'', ''y''] (Some No_stream) ''t''))"

lemma sample_store_reachable: "store_reachable sample_hash sample_canon sample_store"
proof -
  obtain r s' calls where "store_append sample_hash sample_canon new_store ''s'' [''x'', ''y''] (Some No_stream) ''t'' = (r, s', calls)"
    by (metis prod.collapse)
  with store_appended[OF store_new this] show ?thesis by (simp add: sample_store_def)
qed

lemma sample_store_log: "length (es_globalLog sample_store) = 2"
  by (simp add: sample_store_def store_append_def append_event_def new_store_def validateStreamId_def throw_when_def
      check_expected_def stream_of_def Let_def)

lemma sample_store_chain: "chain_ok sample_hash sample_canon GENESIS_HASH (es_globalLog sample_store)"
  using store_reachable_wf[OF sample_store_reachable] by (simp add: store_wf_def)

theorem verify_accepts_exactly_chains_witness:
  "ir_valid (verifyHashChain sample_hash sample_canon (es_globalLog sample_store)) \<longleftrightarrow>
     contiguous None (es_globalLog sample_store)"
  using verify_accepts_exactly_chains[OF chain_ok_hashed[OF sample_store_chain]] sample_store_chain by blast

theorem reachable_store_integrity_witness:
  "globalPosition sample_store = 2 \<and> ir_valid (verifyIntegrity sample_hash sample_canon sample_store)"
  using reachable_store_integrity[OF sample_store_reachable] sample_store_log by simp

theorem last_hash_commits_to_history_witness:
  "\<exists>es. fully_hashed es \<and> ir_valid (verifyHashChain sample_hash sample_canon es) \<and>
     (map (\<lambda>e. sample_canon (event_content e)) es =
        map (\<lambda>e. sample_canon (event_content e)) (es_globalLog sample_store) \<or>
      collision sample_hash (chain_inputs sample_canon GENESIS_HASH es)
        (chain_inputs sample_canon GENESIS_HASH (es_globalLog sample_store)))"
proof -
  let ?es = "es_globalLog sample_store"
  have wf: "store_wf sample_hash sample_canon sample_store" by (rule store_reachable_wf[OF sample_store_reachable])
  have h: "fully_hashed ?es" by (rule chain_ok_hashed[OF sample_store_chain])
  have v: "ir_valid (verifyHashChain sample_hash sample_canon ?es)"
    using verify_valid_iff[OF h] sample_store_chain wf by (auto simp: store_wf_def intro: counted_contiguous)
  have "\<exists>s. sample_canon c = s @ [CHR 0x7D]" for c by (simp add: sample_canon_def)
  moreover have "chain_head GENESIS_HASH ?es = es_lastHash sample_store" using wf by (simp add: store_wf_def)
  ultimately show ?thesis
    using last_hash_commits_to_history[OF sample_hash_hex _ sample_store_reachable h v] h v by blast
qed

theorem store_read_forward_witness:
  "store_read sample_store ''s'' \<lparr>ro_from = Some 2, ro_maxCount = Some 1, ro_direction = None\<rparr> =
     Inr (take 1 (drop 1 (filter (\<lambda>e. sv_streamId e = ''s'') (es_globalLog sample_store))))"
  using store_read_forward[OF sample_store_reachable, of "''s''" 2 1] by simp


theorem store_append_contract_witness:
  "case store_append sample_hash sample_canon new_store ''s'' [''x''] (Some (Version 0)) ''t'' of
     (Inr r, s', calls) \<Rightarrow> map sv_event (es_globalLog s') = [''x''] \<and> sr_toVersion r = 1
   | (Inl e, s', calls) \<Rightarrow> False"
proof -
  have v: "streamVersion (new_store :: string event_store) ''s'' = 0" "es_globalLog (new_store :: string event_store) = []"
    by (simp_all add: streamVersion_def stream_of_def new_store_def)
  show ?thesis
    using store_append_contract[where H = sample_hash and canon = sample_canon and s = new_store and
        i = "''s''" and xs = "[''x'']" and ev = "Some (Version 0)" and now = "''t''"]
    by (auto simp: v expected_met_def split: prod.splits sum.splits)
qed

end
