(* ===== verification/CrossChain.thy ===== *)
theory CrossChain
  imports Prelude
begin

section \<open>Reconciliation rules across chains\<close>

text \<open>
  Model of \<^verbatim>\<open>packages/reconciler/src/cross-chain-rules.ts\<close>: settlement pairs, the
  removal of settlement artifacts and the structural links between events. The scale warnings are
  telemetry and are left out.
\<close>

record cross_chain_event =
  cc_chainId :: string
  cc_txHash :: string
  cc_blockNumber :: int
  cc_amount :: string
  cc_symbol :: string
  cc_from :: string
  cc_to :: string
  cc_timestamp :: string

datatype link_type = L_settlement | L_bridge | L_structural

datatype link_confidence = High | Medium | Low

record cross_chain_link =
  cl_sourceEvent :: cross_chain_event
  cl_destEvent :: cross_chain_event
  cl_linkType :: link_type
  cl_confidence :: link_confidence
  cl_discrepancies :: "string list"

type_synonym settlement_pairs = "(string, string) jsmap"

subsection \<open>Settlement pairs\<close>

definition DEFAULT_SETTLEMENT_PAIRS :: settlement_pairs where
  "DEFAULT_SETTLEMENT_PAIRS =
     [(''eip155:42161'', ''eip155:1''), (''eip155:10'', ''eip155:1''), (''eip155:8453'', ''eip155:1'')]"

definition getSettlementChain :: "settlement_pairs \<Rightarrow> string \<Rightarrow> string option" where
  "getSettlementChain pairs l2 = jm_get pairs l2"

definition isSettlementPair :: "settlement_pairs \<Rightarrow> string \<Rightarrow> string \<Rightarrow> bool" where
  "isSettlementPair pairs a b \<longleftrightarrow> jm_get pairs a = Some b \<or> jm_get pairs b = Some a"

subsection \<open>Grouping\<close>

text \<open>
  The loops that index a list by a key: \<^verbatim>\<open>list = map.get(key) ?? []; list.push(x);
  map.set(key, list)\<close>. Elements without a key are skipped.
\<close>

definition index_step :: "('a \<Rightarrow> string option) \<Rightarrow> (string, 'a list) jsmap \<Rightarrow> 'a \<Rightarrow> (string, 'a list) jsmap" where
  "index_step key m x =
     (case key x of
        None \<Rightarrow> m
      | Some k \<Rightarrow> jm_set m k ((case jm_get m k of None \<Rightarrow> [] | Some xs \<Rightarrow> xs) @ [x]))"

definition index_by :: "('a \<Rightarrow> string option) \<Rightarrow> 'a list \<Rightarrow> (string, 'a list) jsmap" where
  "index_by key xs = foldl (index_step key) [] xs"

lemma index_by_snoc: "index_by key (xs @ [x]) = index_step key (index_by key xs) x"
  by (simp add: index_by_def)

lemma index_by_get:
  "jm_get (index_by key xs) k =
     (let ys = filter (\<lambda>x. key x = Some k) xs in if ys = [] then None else Some ys)"
proof (induction xs rule: rev_induct)
  case (snoc x xs)
  then show ?case
    by (cases "key x")
      (auto simp: index_by_snoc index_step_def Let_def split: option.splits if_splits)
qed (simp add: index_by_def)

lemma index_by_wf: "jm_wf (index_by key xs)"
proof (induction xs rule: rev_induct)
  case (snoc x xs)
  then show ?case by (auto simp: index_by_snoc index_step_def split: option.split)
qed (simp add: index_by_def)

lemma index_by_group:
  assumes "(k, g) \<in> set (index_by key xs)"
  shows "g = filter (\<lambda>x. key x = Some k) xs" "g \<noteq> []"
proof -
  have "jm_get (index_by key xs) k = Some g" using assms by (simp add: index_by_wf jm_get_in)
  then show "g = filter (\<lambda>x. key x = Some k) xs" "g \<noteq> []"
    by (auto simp: index_by_get Let_def split: if_splits)
qed

lemma index_step_groups:
  assumes "key x = Some k"
  shows "mset (concat (jm_values (index_step key m x))) = add_mset x (mset (concat (jm_values m)))"
proof (cases "jm_get m k")
  case None
  then have "jm_set m k [x] = m @ [(k, [x])]" by (intro jm_set_new) (simp add: jm_has_def)
  then show ?thesis using assms None by (simp add: index_step_def)
next
  case (Some ys)
  obtain us vs where "m = us @ (k, ys) # vs" "jm_set m k (ys @ [x]) = us @ (k, ys @ [x]) # vs"
    using Some by (rule jm_set_split)
  then show ?thesis using assms Some by (simp add: index_step_def)
qed

lemma index_by_groups:
  assumes "\<forall>x \<in> set xs. key x \<noteq> None"
  shows "mset (concat (jm_values (index_by key xs))) = mset xs"
  using assms
proof (induction xs rule: rev_induct)
  case (snoc x xs)
  then obtain k where "key x = Some k" by auto
  then show ?case using snoc index_step_groups[of key x k "index_by key xs"] by (simp add: index_by_snoc)
qed (simp add: index_by_def)

subsection \<open>Double counting\<close>

definition js_join :: "string \<Rightarrow> string list \<Rightarrow> string" where
  "js_join sep ss = (case ss of [] \<Rightarrow> [] | s # rest \<Rightarrow> s @ concat (map (\<lambda>t. sep @ t) rest))"

definition dedup_key :: "cross_chain_event \<Rightarrow> string" where
  "dedup_key e =
     cc_amount e @ '':'' @ cc_symbol e @ '':'' @ js_join ''|'' (sort [cc_from e, cc_to e])"

definition artifact_chains :: "settlement_pairs \<Rightarrow> string list \<Rightarrow> string list" where
  "artifact_chains pairs present =
     filter (\<lambda>l1. l1 \<in> set present) (List.map_filter (getSettlementChain pairs) present)"

definition dedup_group ::
  "settlement_pairs \<Rightarrow> cross_chain_event list \<Rightarrow> cross_chain_event list \<times> cross_chain_event list" where
  "dedup_group pairs members =
     (if length members \<le> 1 then (members, [])
      else let artifacts = artifact_chains pairs (map cc_chainId members)
           in if artifacts \<noteq> []
              then (filter (\<lambda>e. cc_chainId e \<notin> set artifacts) members,
                    filter (\<lambda>e. cc_chainId e \<in> set artifacts) members)
              else (members, []))"

definition preventDoubleCounting ::
  "settlement_pairs \<Rightarrow> cross_chain_event list \<Rightarrow> cross_chain_event list \<times> cross_chain_event list" where
  "preventDoubleCounting pairs events =
     (let groups = jm_values (index_by (\<lambda>e. Some (dedup_key e)) events)
      in (concat (map (\<lambda>g. fst (dedup_group pairs g)) groups),
          concat (map (\<lambda>g. snd (dedup_group pairs g)) groups)))"

subsection \<open>Structural links\<close>

definition address_overlap :: "cross_chain_event \<Rightarrow> cross_chain_event \<Rightarrow> bool" where
  "address_overlap a b \<longleftrightarrow>
     cc_from a = cc_from b \<or> cc_from a = cc_to b \<or> cc_to a = cc_from b \<or> cc_to a = cc_to b"

definition match_score :: "cross_chain_event \<Rightarrow> cross_chain_event \<Rightarrow> nat" where
  "match_score a b =
     (if cc_amount a = cc_amount b then 1 else 0) + (if cc_symbol a = cc_symbol b then 1 else 0) +
     (if address_overlap a b then 1 else 0)"

definition link_discrepancies :: "cross_chain_event \<Rightarrow> cross_chain_event \<Rightarrow> string list" where
  "link_discrepancies a b =
     (if cc_amount a = cc_amount b then [] else [''amount: '' @ cc_amount a @ '' vs '' @ cc_amount b]) @
     (if cc_symbol a = cc_symbol b then [] else [''symbol: '' @ cc_symbol a @ '' vs '' @ cc_symbol b]) @
     (if address_overlap a b then [] else [''no address overlap''])"

definition link_pair ::
  "settlement_pairs \<Rightarrow> cross_chain_event \<Rightarrow> cross_chain_event \<Rightarrow> cross_chain_link list" where
  "link_pair pairs a b =
     (if cc_chainId a = cc_chainId b then []
      else if match_score a b < 2 then []
      else [\<lparr>cl_sourceEvent = a, cl_destEvent = b,
             cl_linkType = (if isSettlementPair pairs (cc_chainId a) (cc_chainId b)
                            then L_settlement else L_structural),
             cl_confidence = (if match_score a b = 3 then High else if match_score a b = 2 then Medium else Low),
             cl_discrepancies = link_discrepancies a b\<rparr>])"

fun linkCrossChainEvents :: "settlement_pairs \<Rightarrow> cross_chain_event list \<Rightarrow> cross_chain_link list" where
  "linkCrossChainEvents pairs [] = []"
| "linkCrossChainEvents pairs (a # bs) =
     concat (map (link_pair pairs a) bs) @ linkCrossChainEvents pairs bs"

subsection \<open>Properties\<close>

lemma dedup_group_partition: "mset (fst (dedup_group pairs g)) + mset (snd (dedup_group pairs g)) = mset g"
  by (simp add: dedup_group_def Let_def union_commute mset_filter multiset_partition[symmetric])

lemma prevent_partition:
  assumes "preventDoubleCounting pairs events = (kept, removed)"
  shows "mset kept + mset removed = mset events"
proof -
  have "mset (concat (map (\<lambda>g. fst (dedup_group pairs g)) gs)) +
      mset (concat (map (\<lambda>g. snd (dedup_group pairs g)) gs)) = mset (concat gs)" for gs
  proof (induction gs)
    case (Cons g gs)
    have "mset (fst (dedup_group pairs g)) + mset (concat (map (\<lambda>g. fst (dedup_group pairs g)) gs)) +
        (mset (snd (dedup_group pairs g)) + mset (concat (map (\<lambda>g. snd (dedup_group pairs g)) gs))) =
        mset g + mset (concat gs)"
      unfolding Cons[symmetric] dedup_group_partition[of pairs g, symmetric] by (simp only: ac_simps)
    then show ?case by simp
  qed simp
  from this[of "jm_values (index_by (\<lambda>e. Some (dedup_key e)) events)"]
  show ?thesis using assms index_by_groups[of events "\<lambda>e. Some (dedup_key e)"]
    unfolding preventDoubleCounting_def Let_def by (elim Pair_inject) simp
qed

lemma artifact_chains_iff:
  "l1 \<in> set (artifact_chains pairs present) \<longleftrightarrow>
   l1 \<in> set present \<and> (\<exists>l2 \<in> set present. getSettlementChain pairs l2 = Some l1)"
  by (force simp: artifact_chains_def List.map_filter_def)

lemma dedup_group_removed:
  "e \<in> set (snd (dedup_group pairs g)) \<longleftrightarrow>
   e \<in> set g \<and> (\<exists>f \<in> set g. getSettlementChain pairs (cc_chainId f) = Some (cc_chainId e)) \<and> 1 < length g"
proof -
  have "cc_chainId e \<in> set (artifact_chains pairs (map cc_chainId g)) \<longleftrightarrow>
      (\<exists>f \<in> set g. getSettlementChain pairs (cc_chainId f) = Some (cc_chainId e))" if "e \<in> set g"
    using that by (auto simp: artifact_chains_iff)
  then show ?thesis by (cases "length g \<le> 1") (auto simp: dedup_group_def Let_def)
qed

text \<open>An event is removed exactly when an event with the same amount, symbol and addresses is on a
  chain that settles on its chain (an event does not settle on its own chain).\<close>

definition settled_by :: "settlement_pairs \<Rightarrow> cross_chain_event \<Rightarrow> cross_chain_event \<Rightarrow> bool" where
  "settled_by pairs e f \<longleftrightarrow>
     dedup_key f = dedup_key e \<and> getSettlementChain pairs (cc_chainId f) = Some (cc_chainId e)"

lemma two_elements: "e \<in> set g \<Longrightarrow> f \<in> set g \<Longrightarrow> e \<noteq> f \<Longrightarrow> 1 < length g"
  by (cases g; cases "tl g") auto

lemma prevent_removed_iff:
  assumes "preventDoubleCounting pairs events = (kept, removed)"
    "\<forall>c. getSettlementChain pairs c \<noteq> Some c"
  shows "e \<in> set removed \<longleftrightarrow> e \<in> set events \<and> (\<exists>f \<in> set events. settled_by pairs e f)"
proof -
  let ?key = "\<lambda>e. Some (dedup_key e)"
  have removed: "removed = concat (map (\<lambda>g. snd (dedup_group pairs g)) (jm_values (index_by ?key events)))"
    using assms(1) by (simp add: preventDoubleCounting_def Let_def)
  show ?thesis
  proof
    assume "e \<in> set removed"
    then obtain k g where g: "(k, g) \<in> set (index_by ?key events)" "e \<in> set (snd (dedup_group pairs g))"
      unfolding removed by auto
    from index_by_group(1)[OF g(1)] have "g = filter (\<lambda>x. dedup_key x = k) events" by simp
    then show "e \<in> set events \<and> (\<exists>f \<in> set events. settled_by pairs e f)"
      using g(2) by (auto simp: dedup_group_removed settled_by_def)
  next
    assume "e \<in> set events \<and> (\<exists>f \<in> set events. settled_by pairs e f)"
    then obtain f where f: "e \<in> set events" "f \<in> set events" "settled_by pairs e f" by blast
    let ?g = "filter (\<lambda>x. dedup_key x = dedup_key e) events"
    have "e \<in> set ?g" "f \<in> set ?g" "e \<noteq> f" using f assms(2) by (auto simp: settled_by_def)
    then have "e \<in> set (snd (dedup_group pairs ?g))" using f(3) two_elements[of e ?g f]
      unfolding dedup_group_removed by (auto simp: settled_by_def)
    moreover have "jm_get (index_by ?key events) (dedup_key e) = Some ?g"
      using f(1) by (auto simp: index_by_get Let_def filter_empty_conv)
    ultimately show "e \<in> set removed" unfolding removed by (force dest: map_of_SomeD)
  qed
qed

lemma default_pairs_irreflexive: "getSettlementChain DEFAULT_SETTLEMENT_PAIRS c \<noteq> Some c"
  by (simp add: getSettlementChain_def DEFAULT_SETTLEMENT_PAIRS_def)

lemma default_pairs_one_level:
  "getSettlementChain DEFAULT_SETTLEMENT_PAIRS c = Some d \<Longrightarrow> getSettlementChain DEFAULT_SETTLEMENT_PAIRS d = None"
  by (auto simp: getSettlementChain_def DEFAULT_SETTLEMENT_PAIRS_def split: if_splits)

text \<open>Deduplication under the built-in settlement pairs loses nothing: the kept and the removed
  events together are the given ones, with multiplicity, and an event is removed exactly when an event
  with the same amount, symbol and addresses on a chain that settles on its chain is kept.\<close>

theorem double_counting_prevented:
  assumes "preventDoubleCounting DEFAULT_SETTLEMENT_PAIRS events = (kept, removed)"
  shows "mset kept + mset removed = mset events \<and>
    (\<forall>e. e \<in> set removed \<longleftrightarrow>
       e \<in> set events \<and> (\<exists>f \<in> set kept. settled_by DEFAULT_SETTLEMENT_PAIRS e f))"
proof -
  note parts = prevent_partition[OF assms]
  note removed = prevent_removed_iff[OF assms] 
  have irr: "\<forall>c. getSettlementChain DEFAULT_SETTLEMENT_PAIRS c \<noteq> Some c" by (simp add: default_pairs_irreflexive)
  have union: "set kept \<union> set removed = set events" using arg_cong[OF parts, of set_mset] by simp
  have "f \<in> set kept" if "f \<in> set events" "settled_by DEFAULT_SETTLEMENT_PAIRS e f" for e f
  proof -
    have "f \<notin> set removed"
    proof
      assume "f \<in> set removed"
      then obtain g :: cross_chain_event where "getSettlementChain DEFAULT_SETTLEMENT_PAIRS (cc_chainId g) = Some (cc_chainId f)"
        using removed[OF irr, of f] unfolding settled_by_def by blast
      from default_pairs_one_level[OF this] that(2) show False by (simp add: settled_by_def)
    qed
    then show ?thesis using that(1) union by blast
  qed
  then show ?thesis using parts union removed[OF irr] by blast
qed

definition linkable :: "cross_chain_event \<Rightarrow> cross_chain_event \<Rightarrow> bool" where
  "linkable a b \<longleftrightarrow>
     cc_chainId a \<noteq> cc_chainId b \<and>
     (cc_amount a = cc_amount b \<and> cc_symbol a = cc_symbol b \<or>
      cc_amount a = cc_amount b \<and> address_overlap a b \<or> cc_symbol a = cc_symbol b \<and> address_overlap a b)"

lemma link_pair_linkable: "link_pair pairs a b \<noteq> [] \<longleftrightarrow> linkable a b"
  by (auto simp: link_pair_def linkable_def match_score_def)

lemma link_pair_ends: "l \<in> set (link_pair pairs a b) \<Longrightarrow> cl_sourceEvent l = a \<and> cl_destEvent l = b"
  by (auto simp: link_pair_def split: if_splits)

lemma links_of_pairs:
  "l \<in> set (linkCrossChainEvents pairs es) \<longleftrightarrow>
   (\<exists>i j. i < j \<and> j < length es \<and> l \<in> set (link_pair pairs (es ! i) (es ! j)))"
proof (induction es)
  case (Cons a bs)
  have "(\<exists>i j. i < j \<and> j < length (a # bs) \<and> l \<in> set (link_pair pairs ((a # bs) ! i) ((a # bs) ! j))) \<longleftrightarrow>
      (\<exists>j < length bs. l \<in> set (link_pair pairs a (bs ! j))) \<or>
      (\<exists>i j. i < j \<and> j < length bs \<and> l \<in> set (link_pair pairs (bs ! i) (bs ! j)))" (is "?L \<longleftrightarrow> ?R")
  proof
    assume ?L
    then obtain i j where ij: "i < j" "j < length (a # bs)" "l \<in> set (link_pair pairs ((a # bs) ! i) ((a # bs) ! j))"
      by blast
    obtain j' where "j = Suc j'" using ij(1) by (cases j) auto
    then show ?R using ij by (cases i) auto
  next
    assume ?R
    then show ?L
    proof
      assume "\<exists>j < length bs. l \<in> set (link_pair pairs a (bs ! j))"
      then obtain j where "j < length bs" "l \<in> set (link_pair pairs a (bs ! j))" by blast
      then show ?L by (intro exI[of _ 0] exI[of _ "Suc j"]) simp
    next
      assume "\<exists>i j. i < j \<and> j < length bs \<and> l \<in> set (link_pair pairs (bs ! i) (bs ! j))"
      then obtain i j where "i < j" "j < length bs" "l \<in> set (link_pair pairs (bs ! i) (bs ! j))" by blast
      then show ?L by (intro exI[of _ "Suc i"] exI[of _ "Suc j"]) simp
    qed
  qed
  moreover have "l \<in> set (concat (map (link_pair pairs a) bs)) \<longleftrightarrow> (\<exists>j < length bs. l \<in> set (link_pair pairs a (bs ! j)))"
  proof -
    have "(\<exists>b \<in> set bs. l \<in> set (link_pair pairs a b)) \<longleftrightarrow> (\<exists>j < length bs. l \<in> set (link_pair pairs a (bs ! j)))"
      by (metis in_set_conv_nth)
    then show ?thesis by simp
  qed
  ultimately show ?case using Cons by simp
qed simp

text \<open>Structural linking reports exactly the pairs of events on different chains that agree in at least
  two of amount, symbol and address, each with its earlier event as the source.\<close>

theorem links_exactly_related_pairs:
  "(\<exists>l \<in> set (linkCrossChainEvents pairs es). cl_sourceEvent l = a \<and> cl_destEvent l = b) \<longleftrightarrow>
   (\<exists>i j. i < j \<and> j < length es \<and> es ! i = a \<and> es ! j = b \<and> linkable a b)"
proof
  assume "\<exists>l \<in> set (linkCrossChainEvents pairs es). cl_sourceEvent l = a \<and> cl_destEvent l = b"
  then obtain l where l: "l \<in> set (linkCrossChainEvents pairs es)" "cl_sourceEvent l = a" "cl_destEvent l = b"
    by (elim bexE conjE) (rule that)
  from l(1)[unfolded links_of_pairs] obtain i j where
    ij: "i < j" "j < length es" "l \<in> set (link_pair pairs (es ! i) (es ! j))"
    by (elim exE conjE) (rule that)
  have ends: "es ! i = a" "es ! j = b" unfolding l(2,3)[symmetric] using link_pair_ends[OF ij(3)] by simp_all
  have "link_pair pairs a b \<noteq> []" using ij(3) unfolding ends by auto
  then have "linkable a b" by (simp add: link_pair_linkable)
  then show "\<exists>i j. i < j \<and> j < length es \<and> es ! i = a \<and> es ! j = b \<and> linkable a b"
    using ij(1,2) ends by blast
next
  assume "\<exists>i j. i < j \<and> j < length es \<and> es ! i = a \<and> es ! j = b \<and> linkable a b"
  then obtain i j where ij: "i < j" "j < length es" "es ! i = a" "es ! j = b" "linkable a b"
    by (elim exE conjE) (rule that)
  then have "link_pair pairs a b \<noteq> []" by (simp add: link_pair_linkable)
  then obtain l where l: "l \<in> set (link_pair pairs a b)" by (rule list.set_sel(1)[THEN that])
  then have "l \<in> set (linkCrossChainEvents pairs es)"
    unfolding links_of_pairs using ij by (intro exI[of _ i] exI[of _ j]) simp
  then show "\<exists>l \<in> set (linkCrossChainEvents pairs es). cl_sourceEvent l = a \<and> cl_destEvent l = b"
    using link_pair_ends[OF l] by (rule bexI[rotated])
qed

text \<open>An L2 transfer and its settlement on L1.\<close>

definition sample_l2 :: cross_chain_event where
  "sample_l2 = \<lparr>cc_chainId = ''eip155:10'', cc_txHash = ''0x1'', cc_blockNumber = 0, cc_amount = ''5'',
     cc_symbol = ''USDC'', cc_from = ''a'', cc_to = ''b'', cc_timestamp = []\<rparr>"

definition sample_l1 :: cross_chain_event where
  "sample_l1 = sample_l2\<lparr>cc_chainId := ''eip155:1'', cc_txHash := ''0x2''\<rparr>"

theorem double_counting_prevented_witness:
  "preventDoubleCounting DEFAULT_SETTLEMENT_PAIRS [sample_l1, sample_l2] = ([sample_l2], [sample_l1]) \<and>
   settled_by DEFAULT_SETTLEMENT_PAIRS sample_l1 sample_l2"
proof -
  have "preventDoubleCounting DEFAULT_SETTLEMENT_PAIRS [sample_l1, sample_l2] = ([sample_l2], [sample_l1])"
    by code_simp
  from this double_counting_prevented[OF this] show ?thesis by auto
qed

end
