(* ===== verification/Json.thy ===== *)
theory Json
  imports MoneyMath CrossChain Digest
begin

section \<open>JSON texts\<close>

text \<open>
  \<^verbatim>\<open>JSON.stringify\<close> and \<^verbatim>\<open>JSON.parse\<close> as the packages use them: on values whose numbers are
  integers, with strings of 8-bit code units. An object is the list of its own properties in the order in
  which JavaScript lists them, array indices first. A text with a fractional number or with an
  escape above 255 is outside this domain and does not parse. The lemmas are the round trip, that parsing a
  text is not disturbed by what follows it, and that no proper prefix of the text of an object parses.
\<close>

subsection \<open>Printing\<close>

datatype json =
    Js_null
  | Js_bool bool
  | Js_num int
  | Js_str string
  | Js_arr "json list"
  | Js_obj "(string \<times> json) list"

definition hex_digit :: "nat \<Rightarrow> char" where
  "hex_digit n = hex_digits ! n"

definition escape_char :: "char \<Rightarrow> string" where
  "escape_char c =
     (let n = (of_char c :: nat); bs = char_of (92 :: nat)
      in if n = 34 then [bs, c]
         else if n = 92 then [bs, c]
         else if n = 8 then [bs, CHR ''b'']
         else if n = 12 then [bs, CHR ''f'']
         else if n = 10 then [bs, CHR ''n'']
         else if n = 13 then [bs, CHR ''r'']
         else if n = 9 then [bs, CHR ''t'']
         else if n < 32 then bs # ''u00'' @ [hex_digit (n div 16), hex_digit (n mod 16)]
         else [c])"

definition json_string :: "string \<Rightarrow> string" where
  "json_string s = CHR 0x22 # concat (map escape_char s) @ [CHR 0x22]"

text \<open>Own properties in the order in which they are listed: array indices by value, then the others.\<close>

definition array_index :: "string \<Rightarrow> bool" where
  "array_index k \<longleftrightarrow>
     k \<noteq> [] \<and> list_all is_digit k \<and> (k = ''0'' \<or> hd k \<noteq> CHR ''0'') \<and> bigint_of k < 4294967295"

definition listed :: "(string \<times> 'a) list \<Rightarrow> (string \<times> 'a) list" where
  "listed ps =
     sort_key (\<lambda>p. bigint_of (fst p)) (filter (\<lambda>p. array_index (fst p)) ps)
     @ filter (\<lambda>p. \<not> array_index (fst p)) ps"

definition json_block :: "char \<Rightarrow> char \<Rightarrow> nat \<Rightarrow> nat \<Rightarrow> string list \<Rightarrow> string" where
  "json_block open_char close_char gap depth parts =
     (if parts = [] then [open_char, close_char]
      else if gap = 0 then open_char # js_join '','' parts @ [close_char]
      else let inner = CHR 0x0A # replicate (depth + gap) CHR '' ''
           in open_char # inner @ js_join (CHR '','' # inner) parts
              @ CHR 0x0A # replicate depth CHR '' '' @ [close_char])"

fun json_text :: "nat \<Rightarrow> nat \<Rightarrow> json \<Rightarrow> string" where
  "json_text gap depth Js_null = ''null''"
| "json_text gap depth (Js_bool b) = (if b then ''true'' else ''false'')"
| "json_text gap depth (Js_num n) = int_str n"
| "json_text gap depth (Js_str s) = json_string s"
| "json_text gap depth (Js_arr xs) =
     json_block CHR ''['' CHR '']'' gap depth (map (json_text gap (depth + gap)) xs)"
| "json_text gap depth (Js_obj ps) =
     json_block CHR ''{'' CHR ''}'' gap depth
       (map (\<lambda>(k, t). json_string k @ (if gap = 0 then '':'' else '': '') @ t)
         (listed (map (\<lambda>(k, v). (k, json_text gap (depth + gap) v)) ps)))"

definition JSON_stringify :: "json \<Rightarrow> string" where
  "JSON_stringify v = json_text 0 0 v"

subsection \<open>Parsing\<close>

definition json_space :: "char \<Rightarrow> bool" where
  "json_space c \<longleftrightarrow> (of_char c :: nat) \<in> {9, 10, 13, 32}"

abbreviation skip_space :: "string \<Rightarrow> string" where
  "skip_space s \<equiv> dropWhile json_space s"

definition hex_val :: "char \<Rightarrow> nat option" where
  "hex_val c =
     (let n = (of_char c :: nat)
      in if 48 \<le> n \<and> n \<le> 57 then Some (n - 48)
         else if 97 \<le> n \<and> n \<le> 102 then Some (n - 87)
         else if 65 \<le> n \<and> n \<le> 70 then Some (n - 55)
         else None)"

definition hex_escape :: "char \<Rightarrow> char \<Rightarrow> char \<Rightarrow> char \<Rightarrow> char option" where
  "hex_escape a b x y =
     (case (hex_val a, hex_val b, hex_val x, hex_val y) of
        (Some 0, Some 0, Some m, Some n) \<Rightarrow> Some (char_of (16 * m + n))
      | _ \<Rightarrow> None)"

definition simple_escape :: "char \<Rightarrow> char option" where
  "simple_escape c =
     (let n = (of_char c :: nat)
      in if n = 34 \<or> n = 92 \<or> n = 47 then Some c
         else if c = CHR ''b'' then Some (char_of (8 :: nat))
         else if c = CHR ''f'' then Some (char_of (12 :: nat))
         else if c = CHR ''n'' then Some (char_of (10 :: nat))
         else if c = CHR ''r'' then Some (char_of (13 :: nat))
         else if c = CHR ''t'' then Some (char_of (9 :: nat))
         else None)"

definition with_char :: "char \<Rightarrow> (string \<times> string) option \<Rightarrow> (string \<times> string) option" where
  "with_char c r = map_option (\<lambda>(s, rest). (c # s, rest)) r"

text \<open>The characters of a string up to its closing quote.\<close>

fun json_chars :: "string \<Rightarrow> (string \<times> string) option" where
  "json_chars [] = None"
| "json_chars (c # cs) =
     (if c = CHR 0x22 then Some ([], cs)
      else if of_char c = (92 :: nat) then
        (case cs of
           [] \<Rightarrow> None
         | e # r \<Rightarrow>
             if e = CHR ''u'' then
               (case r of
                  a # b # x # y # r' \<Rightarrow>
                    (case hex_escape a b x y of None \<Rightarrow> None | Some d \<Rightarrow> with_char d (json_chars r'))
                | _ \<Rightarrow> None)
             else (case simple_escape e of None \<Rightarrow> None | Some d \<Rightarrow> with_char d (json_chars r)))
      else if of_char c < (32 :: nat) then None
      else with_char c (json_chars cs))"

definition json_digits :: "string \<Rightarrow> (nat \<times> string) option" where
  "json_digits s =
     (let ds = takeWhile is_digit s; r = dropWhile is_digit s
      in case ds of
           [] \<Rightarrow> None
         | d # more_ds \<Rightarrow>
             if d = CHR ''0'' \<and> more_ds \<noteq> [] then None
             else if r \<noteq> [] \<and> hd r \<in> {CHR ''.'', CHR ''e'', CHR ''E''} then None
             else Some (bigint_of ds, r))"

definition json_number :: "string \<Rightarrow> (json \<times> string) option" where
  "json_number s =
     (if s \<noteq> [] \<and> hd s = CHR ''-''
      then map_option (map_prod (\<lambda>n. Js_num (- int n)) id) (json_digits (tl s))
      else map_option (map_prod (\<lambda>n. Js_num (int n)) id) (json_digits s))"

definition json_word :: "string \<Rightarrow> json \<Rightarrow> string \<Rightarrow> (json \<times> string) option" where
  "json_word w v s = (if take (length w) s = w then Some (v, drop (length w) s) else None)"

text \<open>What follows the next character, when that is \<open>c\<close>.\<close>

definition after :: "char \<Rightarrow> string \<Rightarrow> string option" where
  "after c s = (case skip_space s of [] \<Rightarrow> None | d # r \<Rightarrow> if d = c then Some r else None)"

text \<open>The properties of a parsed object: a repeated name keeps its place and gets the last value.\<close>

definition own_properties :: "(string \<times> json) list \<Rightarrow> (string \<times> json) list" where
  "own_properties ps = listed (foldl (\<lambda>m (k, v). jm_set m k v) [] ps)"

fun json_value :: "nat \<Rightarrow> string \<Rightarrow> (json \<times> string) option"
  and json_elements :: "nat \<Rightarrow> string \<Rightarrow> (json list \<times> string) option"
  and json_members :: "nat \<Rightarrow> string \<Rightarrow> ((string \<times> json) list \<times> string) option" where
  "json_value 0 s = None"
| "json_value (Suc n) s =
     (case skip_space s of
        [] \<Rightarrow> None
      | c # cs \<Rightarrow>
          if c = CHR 0x22 then map_option (map_prod Js_str id) (json_chars cs)
          else if c = CHR ''['' then
            (case after CHR '']'' cs of
               Some r \<Rightarrow> Some (Js_arr [], r)
             | None \<Rightarrow> map_option (map_prod Js_arr id) (json_elements n cs))
          else if c = CHR ''{'' then
            (case after CHR ''}'' cs of
               Some r \<Rightarrow> Some (Js_obj [], r)
             | None \<Rightarrow> map_option (map_prod (\<lambda>ps. Js_obj (own_properties ps)) id) (json_members n cs))
          else if c = CHR ''n'' then json_word ''null'' Js_null (c # cs)
          else if c = CHR ''t'' then json_word ''true'' (Js_bool True) (c # cs)
          else if c = CHR ''f'' then json_word ''false'' (Js_bool False) (c # cs)
          else json_number (c # cs))"
| "json_elements 0 s = None"
| "json_elements (Suc n) s =
     (case json_value n s of
        None \<Rightarrow> None
      | Some (v, r) \<Rightarrow>
          (case after CHR '','' r of
             Some r' \<Rightarrow> map_option (map_prod ((#) v) id) (json_elements n r')
           | None \<Rightarrow> map_option (\<lambda>r'. ([v], r')) (after CHR '']'' r)))"
| "json_members 0 s = None"
| "json_members (Suc n) s =
     (case Option.bind (after CHR 0x22 s) json_chars of
        None \<Rightarrow> None
      | Some (k, q) \<Rightarrow>
          (case Option.bind (after CHR '':'' q) (json_value n) of
             None \<Rightarrow> None
           | Some (v, r) \<Rightarrow>
               (case after CHR '','' r of
                  Some r' \<Rightarrow> map_option (map_prod ((#) (k, v)) id) (json_members n r')
                | None \<Rightarrow> map_option (\<lambda>r'. ([(k, v)], r')) (after CHR ''}'' r))))"

text \<open>The fuel only bounds the nesting: twice the length of the text is always enough.\<close>

definition json_fuel :: "string \<Rightarrow> nat" where
  "json_fuel s = 2 * length s + 1"

definition JSON_parse :: "string \<Rightarrow> json option" where
  "JSON_parse s =
     (case json_value (json_fuel s) s of
        None \<Rightarrow> None
      | Some (v, r) \<Rightarrow> if skip_space r = [] then Some v else None)"

subsection \<open>More fuel and more text\<close>

lemma json_mono:
  "n \<le> m \<Longrightarrow> json_value n s = Some x \<Longrightarrow> json_value m s = Some x"
  "n \<le> m \<Longrightarrow> json_elements n s = Some xs \<Longrightarrow> json_elements m s = Some xs"
  "n \<le> m \<Longrightarrow> json_members n s = Some ps \<Longrightarrow> json_members m s = Some ps"
proof (induction n arbitrary: m s x xs ps)
  case 0
  { case 1 then show ?case by simp next case 2 then show ?case by simp next case 3 then show ?case by simp }
next
  case (Suc n)
  { case 1
    then obtain k where "m = Suc k" "n \<le> k" by (cases m) auto
    with 1 Suc.IH(2,3)[of k] show ?case
      by (auto simp del: dropWhile_eq_Nil_conv split: list.splits if_splits option.splits)
  next
    case 2
    then obtain k where "m = Suc k" "n \<le> k" by (cases m) auto
    with 2 Suc.IH(1,2)[of k] show ?case
      by (fastforce split: option.splits)
  next
    case 3
    then obtain k where "m = Suc k" "n \<le> k" by (cases m) auto
    with 3 Suc.IH(1,3)[of k] show ?case
      by (fastforce split: option.splits bind_splits) }
qed

lemma after_Some: "after c s = Some r \<longleftrightarrow> skip_space s = c # r"
  by (auto simp: after_def simp del: dropWhile_eq_Nil_conv split: list.split)

lemma after_shorter: "after c s = Some r \<Longrightarrow> length r < length s"
  using length_dropWhile_le[of json_space s] by (auto simp: after_Some)

lemma json_chars_shorter: "json_chars s = Some (t, r) \<Longrightarrow> length r < length s"
  by (induction s arbitrary: t r rule: json_chars.induct)
    (fastforce simp: with_char_def split: if_splits list.splits option.splits)+


lemma json_number_shorter: "json_number s = Some (v, r) \<Longrightarrow> length r < length s"
proof -
  assume num: "json_number s = Some (v, r)"
  have "length r' < length s'" if "json_digits s' = Some (n, r')" for s' n r'
  proof -
    have "takeWhile is_digit s' \<noteq> []" "r' = dropWhile is_digit s'"
      using that by (auto simp: json_digits_def Let_def split: list.splits if_splits)
    then show ?thesis using arg_cong[OF takeWhile_dropWhile_id[of is_digit s'], of length] by (cases "takeWhile is_digit s'") auto
  qed
  from this[of s] this[of "tl s"] show ?thesis using num
    by (fastforce simp: json_number_def split: if_splits)
qed

lemma json_word_shorter: "json_word (c # w) v s = Some (x, r) \<Longrightarrow> length r < length s"
  by (cases s) (auto simp: json_word_def split: if_splits)

lemma skip_space_shorter: "skip_space s = c # cs \<Longrightarrow> length cs < length s"
  using length_dropWhile_le[of json_space s] by simp

lemma json_shorter:
  "json_value n s = Some (v, r) \<Longrightarrow> length r < length s"
  "json_elements n s = Some (vs, r) \<Longrightarrow> length r < length s"
  "json_members n s = Some (ps, r) \<Longrightarrow> length r < length s"
proof (induction n arbitrary: s v vs ps r)
  case 0
  { case 1 then show ?case by simp next case 2 then show ?case by simp next case 3 then show ?case by simp }
next
  case (Suc n)
  { case 1
    then obtain c cs where s: "skip_space s = c # cs" "length cs < length s"
      by (auto simp del: dropWhile_eq_Nil_conv split: list.splits dest: skip_space_shorter)
    have "length r \<le> length cs"
      using 1 s(1) by (auto split: if_splits option.splits
          dest!: json_chars_shorter after_shorter Suc.IH(2) Suc.IH(3) json_word_shorter json_number_shorter)
    then show ?case using s(2) by simp
  next
    case 2
    then show ?case
      by (fastforce split: option.splits dest: after_shorter Suc.IH(1) Suc.IH(2))
  next
    case 3
    then show ?case
      by (fastforce split: option.splits bind_splits dest: after_shorter json_chars_shorter Suc.IH(1) Suc.IH(3)) }
qed

lemma json_fuel_irrelevant:
  "2 * length s < n \<Longrightarrow> 2 * length s < m \<Longrightarrow> json_value n s = json_value m s"
  "2 * length s + 1 < n \<Longrightarrow> 2 * length s + 1 < m \<Longrightarrow> json_elements n s = json_elements m s"
  "2 * length s + 1 < n \<Longrightarrow> 2 * length s + 1 < m \<Longrightarrow> json_members n s = json_members m s"
proof (induction n arbitrary: m s)
  case 0
  { case 1 then show ?case by simp next case 2 then show ?case by simp next case 3 then show ?case by simp }
next
  case (Suc n)
  { case 1
    then obtain k where k: "m = Suc k" by (cases m) auto
    have "json_elements n cs = json_elements k cs" "json_members n cs = json_members k cs"
      if "skip_space s = c # cs" for c cs
      using skip_space_shorter[OF that] 1 k Suc.IH(2,3)[of cs k] by linarith+
    then show ?case by (auto simp: k simp del: dropWhile_eq_Nil_conv split: list.split option.split)
  next
    case 2
    then obtain k where k: "m = Suc k" by (cases m) auto
    have "json_value n s = json_value k s" using 2 k Suc.IH(1)[of s k] by linarith
    moreover have "json_elements n r' = json_elements k r'"
      if "json_value k s = Some (v, r)" "after d r = Some r'" for v r d r'
      using json_shorter(1)[OF that(1)] after_shorter[OF that(2)] 2 k Suc.IH(2)[of r' k] by linarith
    ultimately show ?case by (auto simp: k split: option.split)
  next
    case 3
    then obtain k where k: "m = Suc k" by (cases m) auto
    have vals: "json_value n q' = json_value k q'"
      if "after c s = Some cs" "json_chars cs = Some (x, q)" "after d q = Some q'" for c cs x q d q'
      using after_shorter[OF that(1)] json_chars_shorter[OF that(2)] after_shorter[OF that(3)] 3 k Suc.IH(1)[of q' k]
      by linarith
    have members: "json_members n r' = json_members k r'"
      if "after c s = Some cs" "json_chars cs = Some (x, q)" "after d q = Some q'" "json_value k q' = Some (v, r)"
        "after e r = Some r'" for c cs x q d q' v r e r'
      using after_shorter[OF that(1)] json_chars_shorter[OF that(2)] after_shorter[OF that(3)] json_shorter(1)[OF that(4)]
        after_shorter[OF that(5)] 3 k Suc.IH(3)[of r' k]
      by linarith
    show ?case
      by (simp add: k split: option.split bind_split prod.split) (auto simp: vals members bind_eq_Some_conv) }
qed

lemma JSON_parse_fuel:
  "json_value n s = Some (v, r) \<Longrightarrow> skip_space r = [] \<Longrightarrow> JSON_parse s = Some v"
proof -
  assume v: "json_value n s = Some (v, r)" "skip_space r = []"
  have "json_value (max n (json_fuel s)) s = Some (v, r)" by (rule json_mono(1)[OF _ v(1)]) simp
  moreover have "json_value (max n (json_fuel s)) s = json_value (json_fuel s) s"
    by (rule json_fuel_irrelevant(1)) (simp_all add: json_fuel_def)
  ultimately show ?thesis using v(2) by (simp add: JSON_parse_def)
qed


lemma skip_space_append: "skip_space s = c # cs \<Longrightarrow> skip_space (s @ t) = c # cs @ t"
  by (induction s) (auto split: if_splits)

lemma after_append: "after c s = Some r \<Longrightarrow> after c (s @ t) = Some (r @ t)"
  by (simp add: after_Some skip_space_append)

lemma after_other: "after c s = Some r \<Longrightarrow> d \<noteq> c \<Longrightarrow> after d (s @ t) = None"
  unfolding after_Some by (drule skip_space_append[of _ _ _ t]) (simp add: after_def)

lemma after_not: "after c s = None \<Longrightarrow> skip_space s \<noteq> [] \<Longrightarrow> after c (s @ t) = None"
  by (auto simp: after_def skip_space_append simp del: dropWhile_eq_Nil_conv split: list.splits if_splits)

lemma json_chars_append: "json_chars s = Some (u, r) \<Longrightarrow> json_chars (s @ t) = Some (u, r @ t)"
proof (induction s arbitrary: u r rule: json_chars.induct)
  case (2 c cs)
  show ?case
  proof (cases "of_char c = (92 :: nat)")
    case True
    then have c: "c \<noteq> CHR 0x22" by auto
    then obtain e q where cs: "cs = e # q" using 2(4) True by (auto split: list.splits)
    show ?thesis
    proof (cases "e = CHR ''u''")
      case u: True
      then obtain a b x y q' where q: "q = a # b # x # y # q'" using 2(4) c True cs
        by (auto split: list.splits)
      then obtain d where "hex_escape a b x y = Some d" using 2(4) c True cs u by (auto split: option.splits)
      then show ?thesis using 2(1)[OF c True cs u q] 2(4) c True cs u q
        by (auto simp: with_char_def)
    next
      case False
      then obtain d where "simple_escape e = Some d" using 2(4) c True cs by (auto split: option.splits)
      then show ?thesis using 2(2)[OF c True cs False] 2(4) c True cs False
        by (auto simp: with_char_def)
    qed
  next
    case False
    then show ?thesis using 2 by (auto simp: with_char_def split: if_splits)
  qed
qed simp

lemma json_digits_append: "json_digits s = Some (n, r) \<Longrightarrow> r \<noteq> [] \<Longrightarrow> json_digits (s @ t) = Some (n, r @ t)"
proof -
  assume ds: "json_digits s = Some (n, r)" and r: "r \<noteq> []"
  have rest: "r = dropWhile is_digit s" using ds by (auto simp: json_digits_def Let_def split: list.splits if_splits)
  then obtain x where x: "x \<in> set s" "\<not> is_digit x" using r by (auto simp: dropWhile_eq_Nil_conv)
  then have eqs: "takeWhile is_digit (s @ t) = takeWhile is_digit s" "dropWhile is_digit (s @ t) = r @ t"
    by (simp_all add: takeWhile_append1 dropWhile_append1 rest)
  obtain d ds' where tw: "takeWhile is_digit s = d # ds'"
    using ds by (auto simp: json_digits_def Let_def split: list.splits)
  show ?thesis using ds r
    unfolding json_digits_def Let_def eqs tw rest[symmetric] by (auto split: if_splits)
qed

lemma json_number_append: "json_number s = Some (v, r) \<Longrightarrow> r \<noteq> [] \<Longrightarrow> json_number (s @ t) = Some (v, r @ t)"
  using json_digits_append[of s _ r t] json_digits_append[of "tl s" _ r t]
  by (cases s) (auto simp: json_number_def json_digits_def split: if_splits)

lemma json_number_num: "json_number s = Some (v, r) \<Longrightarrow> \<exists>i. v = Js_num i"
  by (auto simp: json_number_def split: if_splits)

lemma json_word_append: "json_word w v s = Some (x, r) \<Longrightarrow> json_word w v (s @ t) = Some (x, r @ t)"
proof -
  assume w: "json_word w v s = Some (x, r)"
  then have "take (length w) s = w" by (simp add: json_word_def split: if_splits)
  then have "length w \<le> length s" by (metis length_take min.cobounded1)
  then show ?thesis using w by (auto simp: json_word_def split: if_splits)
qed

lemma json_value_begins: "json_value n s = Some x \<Longrightarrow> skip_space s \<noteq> []"
  by (cases n) (auto simp del: dropWhile_eq_Nil_conv split: list.splits)

lemma json_elements_begin: "json_elements n s = Some x \<Longrightarrow> skip_space s \<noteq> []"
  by (cases n) (auto simp del: dropWhile_eq_Nil_conv split: option.splits dest: json_value_begins)

lemma json_members_begin: "json_members n s = Some x \<Longrightarrow> skip_space s \<noteq> []"
  by (cases n) (auto simp: after_Some bind_eq_Some_conv simp del: dropWhile_eq_Nil_conv split: option.splits)

text \<open>What follows a complete value does not change it; only a number can grow.\<close>

lemma json_append:
  "json_value n s = Some (v, r) \<Longrightarrow> r \<noteq> [] \<or> (\<forall>i. v \<noteq> Js_num i) \<Longrightarrow> json_value n (s @ t) = Some (v, r @ t)"
  "json_elements n s = Some (vs, r) \<Longrightarrow> json_elements n (s @ t) = Some (vs, r @ t)"
  "json_members n s = Some (ps, r) \<Longrightarrow> json_members n (s @ t) = Some (ps, r @ t)"
proof (induction n arbitrary: s v vs ps r)
  case 0
  { case 1 then show ?case by simp next case 2 then show ?case by simp next case 3 then show ?case by simp }
next
  case (Suc n)
  { case 1
    then obtain c cs where s: "skip_space s = c # cs"
      by (auto simp del: dropWhile_eq_Nil_conv split: list.splits)
    have arr: "after CHR '']'' (cs @ t) = None" if "after CHR '']'' cs = None" "json_elements n cs = Some x" for x
      using that json_elements_begin after_not by blast
    have obj: "after CHR ''}'' (cs @ t) = None" if "after CHR ''}'' cs = None" "json_members n cs = Some x" for x
      using that json_members_begin after_not by blast
    show ?case
      using 1 s skip_space_append[OF s, of t] arr obj json_word_append[of _ _ "c # cs", where t = t]
        json_number_append[of "c # cs" v r t] json_number_num[of "c # cs" v r] json_chars_append[of cs _ r t]
        Suc.IH(2,3)[of cs]
      by (auto simp: after_append split: if_splits option.splits)
  next
    case 2
    then obtain v r1 where v: "json_value n s = Some (v, r1)" by (auto split: option.splits)
    then have "r1 \<noteq> []" using 2 by (auto simp: after_def split: option.splits)
    then have "json_value n (s @ t) = Some (v, r1 @ t)" using Suc.IH(1)[OF v] by simp
    then show ?case using 2 v Suc.IH(2)
      by (auto simp: after_append after_other split: option.splits)
  next
    case 3
    then obtain cs k q q' v r1 where parts: "after CHR 0x22 s = Some cs" "json_chars cs = Some (k, q)"
      "after CHR '':'' q = Some q'" "json_value n q' = Some (v, r1)"
      by (auto simp: bind_eq_Some_conv split: option.splits)
    then have "r1 \<noteq> []" using 3 by (auto simp: after_def split: option.splits)
    then have "json_value n (q' @ t) = Some (v, r1 @ t)" using Suc.IH(1)[OF parts(4)] by simp
    then show ?case using 3 parts Suc.IH(3)
      by (auto simp: after_append after_other json_chars_append split: option.splits) }
qed


subsection \<open>The round trip\<close>

lemma hex_val_digit: "k < 16 \<Longrightarrow> hex_val (hex_digit k) = Some k"
proof -
  have "\<forall>k \<in> set [0..<16]. hex_val (hex_digit k) = Some k" by code_simp
  then show "k < 16 \<Longrightarrow> hex_val (hex_digit k) = Some k" by (auto simp del: upt_rec_numeral)
qed

lemma json_chars_escape: "json_chars (escape_char c @ t) = with_char c (json_chars t)"
proof -
  let ?n = "of_char c :: nat"
  have zero: "hex_val CHR ''0'' = Some 0" by code_simp
  have char: "c = char_of ?n" by simp
  have hex: "hex_escape CHR ''0'' CHR ''0'' (hex_digit (?n div 16)) (hex_digit (?n mod 16)) = Some c" if "?n < 32"
  proof -
    have "?n div 16 < 16" using that by simp
    then show ?thesis by (simp add: hex_escape_def zero hex_val_digit)
  qed
  have c_is: "c = char_of m" if "?n = m" for m using that char by simp
  have "char_of (92 :: nat) \<noteq> CHR 0x22" by code_simp
  then show ?thesis
    using hex by (auto simp: escape_char_def Let_def simple_escape_def dest: c_is)
qed

lemma json_chars_string: "json_chars (concat (map escape_char s) @ CHR 0x22 # r) = Some (s, r)"
  by (induction s) (simp_all add: json_chars_escape with_char_def)

definition value_end :: "string \<Rightarrow> bool" where
  "value_end r \<longleftrightarrow> r = [] \<or> (\<not> is_digit (hd r) \<and> hd r \<notin> {CHR ''.'', CHR ''e'', CHR ''E''})"

lemma nat_str_zero: "hd (nat_str n) = CHR ''0'' \<Longrightarrow> n = 0"
proof (induction n rule: nat_str.induct)
  case (1 n)
  show ?case
  proof (cases "n < 10")
    case True
    then have "digit_char n = CHR ''0''" using "1.prems" by (subst (asm) nat_str.simps) simp
    then have "digit_val (digit_char n) = digit_val CHR ''0''" by simp
    then show ?thesis using True by (simp add: digit_val_def)
  next
    case False
    then have "hd (nat_str (n div 10)) = CHR ''0''" using "1.prems" by (subst (asm) nat_str.simps) simp
    then show ?thesis using "1.IH"[OF False] False by simp
  qed
qed

lemma nat_str_not_zero: "nat_str n \<noteq> CHR ''0'' # d # ds"
proof
  assume eq: "nat_str n = CHR ''0'' # d # ds"
  then have "n = 0" using nat_str_zero[of n] by simp
  then show False using eq by (subst (asm) nat_str.simps) simp
qed

lemma json_digits_nat: "value_end r \<Longrightarrow> json_digits (nat_str n @ r) = Some (n, r)"
proof -
  assume r: "value_end r"
  have all: "\<forall>c \<in> set (nat_str n). is_digit c" using nat_str_digits[of n] by (simp add: list_all_iff)
  have tw: "takeWhile is_digit (nat_str n @ r) = nat_str n" "dropWhile is_digit (nat_str n @ r) = r"
    using all r by (cases r; auto simp: value_end_def takeWhile_append dropWhile_append)+
  obtain d ds where n: "nat_str n = d # ds" using nat_str_nonempty[of n] by (cases "nat_str n") blast+
  have "\<not> (d = CHR ''0'' \<and> ds \<noteq> [])" using nat_str_not_zero[of n] n by (cases ds) auto
  then show ?thesis using r
    using bigint_of_nat_str[of n] unfolding json_digits_def Let_def n tw[unfolded n]
    by (auto simp: value_end_def simp del: takeWhile.simps dropWhile.simps)
qed

lemma json_number_int: "value_end r \<Longrightarrow> json_number (int_str i @ r) = Some (Js_num i, r)"
proof -
  assume r: "value_end r"
  have "hd (nat_str n @ r) \<noteq> CHR ''-''" for n
    using nat_str_digits[of n] nat_str_nonempty[of n] by (cases "nat_str n") (auto simp: is_digit_def)
  then show ?thesis
    using json_digits_nat[OF r] by (auto simp: int_str_def json_number_def)
qed


text \<open>A value as JavaScript holds it: property names are distinct and in the order of listing.\<close>

fun json_normal :: "json \<Rightarrow> bool" where
  "json_normal (Js_arr vs) \<longleftrightarrow> (\<forall>v \<in> set vs. json_normal v)"
| "json_normal (Js_obj ps) \<longleftrightarrow> distinct (map fst ps) \<and> listed ps = ps \<and> (\<forall>p \<in> set ps. json_normal (snd p))"
| "json_normal _ \<longleftrightarrow> True"

lemma listed_map: "listed (map (\<lambda>(k, v). (k, f v)) ps) = map (\<lambda>(k, v). (k, f v)) (listed ps)"
  by (simp add: listed_def filter_map sort_key_map_same comp_def case_prod_beta')

lemma own_properties_same:
  assumes "distinct (map fst ps)" "listed ps = ps"
  shows "own_properties ps = ps"
proof -
  have "foldl (\<lambda>m (k, v). jm_set m k v) qs ps = qs @ ps"
    if "distinct (map fst (qs @ ps))" for qs :: "(string \<times> json) list" and ps
    using that
  proof (induction ps arbitrary: qs)
    case (Cons p ps)
    obtain k v where p: "p = (k, v)" by fastforce
    have "\<not> jm_has qs k" using Cons.prems p by (auto simp: jm_has_keys)
    then have "jm_set qs k v = qs @ [p]" using jm_set_new p by fast
    then show ?case using Cons.IH[of "qs @ [p]"] Cons.prems p by simp
  qed simp
  from this[of "[]" ps] show ?thesis using assms by (simp add: own_properties_def)
qed

lemma js_join_simps:
  "js_join sep [] = []" "js_join sep [a] = a" "js_join sep (a # b # xs) = a @ sep @ js_join sep (b # xs)"
  by (simp_all add: js_join_def)

definition spaces :: "string \<Rightarrow> bool" where
  "spaces w \<longleftrightarrow> (\<forall>c \<in> set w. json_space c)"

lemma spaces_skip [simp]: "spaces w \<Longrightarrow> skip_space (w @ s) = skip_space s"
  by (induction w) (simp_all add: spaces_def)

lemma json_value_skip: "spaces w \<Longrightarrow> json_value n (w @ s) = json_value n s"
  by (cases n) simp_all

lemma after_skip: "spaces w \<Longrightarrow> after c (w @ s) = after c s"
  by (simp add: after_def)

lemma after_hd: "\<not> json_space d \<Longrightarrow> after c (d # s) = (if d = c then Some s else None)"
  by (simp add: after_def)

lemma not_space [simp]:
  "\<not> json_space CHR '',''" "\<not> json_space CHR '']''" "\<not> json_space CHR ''}''" "\<not> json_space CHR '':''"
  "\<not> json_space CHR 0x22"
  by (simp_all add: json_space_def)

lemma value_end_hd: "c \<in> {CHR '','', CHR '']'', CHR ''}''} \<Longrightarrow> value_end (c # r)"
  by (auto simp: value_end_def is_digit_def)

lemma value_end_spaces: "spaces w \<Longrightarrow> value_end (c # r) \<Longrightarrow> value_end (w @ c # r)"
  by (cases w) (auto simp: value_end_def spaces_def json_space_def is_digit_def)

definition reads_back :: "(json \<Rightarrow> string) \<Rightarrow> json \<Rightarrow> bool" where
  "reads_back f v \<longleftrightarrow> (\<forall>r. value_end r \<longrightarrow> (\<exists>n. json_value n (f v @ r) = Some (v, r)))"

lemma reads_backE:
  assumes "reads_back f v" "value_end r"
  obtains n where "json_value n (f v @ r) = Some (v, r)"
  using assms unfolding reads_back_def by blast

lemma json_elements_text:
  assumes "xs \<noteq> []" "\<forall>x \<in> set xs. reads_back f x" "spaces w" "spaces w'"
  shows "\<exists>n. json_elements n (w @ js_join (CHR '','' # w) (map f xs) @ w' @ CHR '']'' # r) = Some (xs, r)"
  using assms(1,2)
proof (induction xs rule: induct_list012)
  case (2 x)
  have "value_end (w' @ CHR '']'' # r)" by (intro value_end_spaces value_end_hd assms) simp
  then obtain n where "json_value n (f x @ w' @ CHR '']'' # r) = Some (x, w' @ CHR '']'' # r)"
    using 2 by (auto simp: reads_back_def)
  then have "json_elements (Suc n) (w @ f x @ w' @ CHR '']'' # r) = Some ([x], r)"
    by (simp add: json_value_skip after_skip after_hd assms)
  then show ?case by (auto simp: js_join_simps intro: exI[of _ "Suc n"])
next
  case (3 x y zs)
  let ?rest = "w @ js_join (CHR '','' # w) (map f (y # zs)) @ w' @ CHR '']'' # r"
  obtain m where m: "json_elements m ?rest = Some (y # zs, r)" using 3 by fastforce
  have "value_end (CHR '','' # ?rest)" by (rule value_end_hd) simp
  then obtain n where n: "json_value n (f x @ CHR '','' # ?rest) = Some (x, CHR '','' # ?rest)"
    using 3(4) by (auto simp: reads_back_def)
  have "json_elements (Suc (max m n)) (w @ f x @ CHR '','' # ?rest) = Some (x # y # zs, r)"
    using json_mono(1)[OF max.cobounded2 n, of m] json_mono(2)[OF max.cobounded1 m, of n]
    by (simp add: json_value_skip after_hd assms)
  then show ?case by (auto simp: js_join_simps intro!: exI[of _ "Suc (max m n)"])
qed simp

definition member_text :: "string \<Rightarrow> (json \<Rightarrow> string) \<Rightarrow> string \<times> json \<Rightarrow> string" where
  "member_text s f p = json_string (fst p) @ CHR '':'' # s @ f (snd p)"

lemma json_member:
  assumes "spaces w" "spaces s" "json_value n (f v @ t) = Some (v, t)"
  shows "Option.bind (after CHR 0x22 (w @ member_text s f (k, v) @ t)) json_chars = Some (k, CHR '':'' # s @ f v @ t)"
    and "Option.bind (after CHR '':'' (CHR '':'' # s @ f v @ t)) (json_value n) = Some (v, t)"
  using assms json_chars_string[of k "CHR '':'' # s @ f v @ t"]
  by (simp_all add: member_text_def json_string_def after_skip after_hd json_value_skip)

lemma json_members_text:
  assumes "ps \<noteq> []" "\<forall>p \<in> set ps. reads_back f (snd p)" "spaces w" "spaces w'" "spaces s"
  shows "\<exists>n. json_members n (w @ js_join (CHR '','' # w) (map (member_text s f) ps) @ w' @ CHR ''}'' # r) = Some (ps, r)"
  using assms(1,2)
proof (induction ps rule: induct_list012)
  case (2 p)
  obtain k v where p: "p = (k, v)" by fastforce
  have "value_end (w' @ CHR ''}'' # r)" by (intro value_end_spaces value_end_hd assms) simp
  then obtain n where n: "json_value n (f v @ w' @ CHR ''}'' # r) = Some (v, w' @ CHR ''}'' # r)"
    using 2 p by (auto simp: reads_back_def)
  have "json_members (Suc n) (w @ member_text s f p @ w' @ CHR ''}'' # r) = Some ([p], r)"
    using json_member(1)[where f = f and v = v and k = k, OF assms(3,5) n] json_member(2)[where f = f and v = v, OF assms(3,5) n] by (simp add: p after_skip after_hd assms)
  then show ?case by (auto simp: js_join_simps intro: exI[of _ "Suc n"])
next
  case (3 p q zs)
  obtain k v where p: "p = (k, v)" by fastforce
  let ?rest = "w @ js_join (CHR '','' # w) (map (member_text s f) (q # zs)) @ w' @ CHR ''}'' # r"
  obtain m where m: "json_members m ?rest = Some (q # zs, r)" using 3 by fastforce
  have "value_end (CHR '','' # ?rest)" by (rule value_end_hd) simp
  then obtain n where n: "json_value n (f v @ CHR '','' # ?rest) = Some (v, CHR '','' # ?rest)"
    using 3(4) p by (auto simp: reads_back_def)
  have "json_members (Suc (max m n)) (w @ member_text s f p @ CHR '','' # ?rest) = Some (p # q # zs, r)"
    using json_member(1)[where f = f and v = v and k = k, OF assms(3,5) json_mono(1)[OF max.cobounded2 n, of m]]
      json_member(2)[where f = f and v = v, OF assms(3,5) json_mono(1)[OF max.cobounded2 n, of m]]
      json_mono(3)[OF max.cobounded1 m, of n]
    by (simp add: p after_hd)
  then show ?case by (auto simp: js_join_simps intro!: exI[of _ "Suc (max m n)"])
qed simp


lemma json_block_text:
  obtains w w' where "spaces w" "spaces w'"
    "\<And>a b parts. parts \<noteq> [] \<Longrightarrow> json_block a b gap d parts = a # w @ js_join (CHR '','' # w) parts @ w' @ [b]"
proof (cases "gap = 0")
  case True
  then show ?thesis by (intro that[of "[]" "[]"]) (simp_all add: json_block_def spaces_def)
next
  case False
  then show ?thesis
    by (intro that[of "CHR 0x0A # replicate (d + gap) CHR '' ''" "CHR 0x0A # replicate d CHR '' ''"])
      (auto simp: json_block_def spaces_def json_space_def)
qed

lemma json_text_hd:
  "\<exists>c t. json_text gap d v = c # t \<and> \<not> json_space c \<and> c \<noteq> CHR '']'' \<and> c \<noteq> CHR ''}''
    \<and> (c = CHR ''{'' \<longleftrightarrow> (\<exists>ps. v = Js_obj ps))"
proof (cases v)
  case (Js_num n)
  have "\<not> json_space c \<and> c \<noteq> CHR '']'' \<and> c \<noteq> CHR ''}'' \<and> c \<noteq> CHR ''{''" if "is_digit c" for c
    using that by (auto simp: is_digit_def json_space_def)
  moreover obtain c t where "nat_str (nat \<bar>n\<bar>) = c # t" "is_digit c"
    using nat_str_digits[of "nat \<bar>n\<bar>"] nat_str_nonempty[of "nat \<bar>n\<bar>"] by (cases "nat_str (nat \<bar>n\<bar>)") auto
  ultimately show ?thesis using Js_num by (auto simp: int_str_def json_space_def)
qed (auto simp: json_block_def json_string_def json_space_def)

lemma after_text: "c \<in> {CHR '']'', CHR ''}''} \<Longrightarrow> spaces w \<Longrightarrow> after c (w @ json_text gap d v @ r) = None"
  using json_text_hd[of gap d v] by (auto simp: after_skip after_hd)

lemma json_reads_back: "json_normal v \<Longrightarrow> reads_back (json_text gap d) v"
proof (induction v arbitrary: d)
  case (Js_num n)
  have "json_value (Suc 0) (int_str n @ r) = json_number (int_str n @ r)" if "value_end r" for r
  proof -
    obtain c t where c: "int_str n = c # t" using json_text_hd[of 0 0 "Js_num n"] by auto
    have "c = CHR ''-'' \<or> is_digit c"
      using c nat_str_digits[of "nat n"] by (auto simp: int_str_def split: if_splits)
    then have "\<not> json_space c \<and> c \<noteq> CHR 0x22 \<and> c \<noteq> CHR ''['' \<and> c \<noteq> CHR ''{'' \<and> c \<noteq> CHR ''n''
      \<and> c \<noteq> CHR ''t'' \<and> c \<noteq> CHR ''f''"
      by (elim disjE) (auto simp: is_digit_def json_space_def)
    then show ?thesis by (simp add: c)
  qed
  then show ?case by (auto simp: reads_back_def json_number_int intro!: exI[of _ "Suc 0"])
next
  case (Js_str s)
  have "json_value (Suc 0) (json_string s @ r) = Some (Js_str s, r)" for r
    using json_chars_string[of s r] by (simp add: json_string_def)
  then show ?case unfolding reads_back_def json_text.simps by blast
next
  case (Js_arr xs)
  obtain w w' where w: "spaces w" "spaces w'" "\<And>a b parts. parts \<noteq> [] \<Longrightarrow>
      json_block a b gap d parts = a # w @ js_join (CHR '','' # w) parts @ w' @ [b]"
    by (rule json_block_text[of gap d]) (rule that)
  have "\<exists>n. json_value n (json_text gap d (Js_arr xs) @ r) = Some (Js_arr xs, r)" for r
  proof (cases xs)
    case Nil
    then show ?thesis by (intro exI[of _ "Suc 0"]) (simp add: json_block_def after_hd json_space_def)
  next
    case (Cons x ys)
    let ?body = "w @ js_join (CHR '','' # w) (map (json_text gap (d + gap)) xs) @ w' @ CHR '']'' # r"
    obtain n where n: "json_elements n ?body = Some (xs, r)"
      using json_elements_text[of xs "json_text gap (d + gap)" w w' r] Js_arr w(1,2) Cons by auto
    have "after CHR '']'' ?body = None"
      using after_text[of "CHR '']''" w gap "d + gap" x] w(1) Cons by (cases ys) (simp_all add: js_join_simps)
    then have "json_value (Suc n) (CHR ''['' # ?body) = Some (Js_arr xs, r)" by (simp add: n json_space_def)
    then show ?thesis using Cons w(3)[of "map (json_text gap (d + gap)) xs" "CHR ''[''" "CHR '']''"]
      by (intro exI[of _ "Suc n"]) simp
  qed
  then show ?case by (simp add: reads_back_def)
next
  case (Js_obj ps)
  obtain w w' where w: "spaces w" "spaces w'" "\<And>a b parts. parts \<noteq> [] \<Longrightarrow>
      json_block a b gap d parts = a # w @ js_join (CHR '','' # w) parts @ w' @ [b]"
    by (rule json_block_text[of gap d]) (rule that)
  let ?s = "if gap = 0 then [] else '' ''" and ?f = "json_text gap (d + gap)"
  have s: "spaces ?s" by (simp add: spaces_def json_space_def)
  have normal: "distinct (map fst ps)" "listed ps = ps" and readable: "\<forall>p \<in> set ps. reads_back ?f (snd p)"
    using Js_obj.prems Js_obj.IH[OF _ snds.intros] by auto
  have printed: "json_text gap d (Js_obj ps) = json_block CHR ''{'' CHR ''}'' gap d (map (member_text ?s ?f) ps)"
    by (auto simp: listed_map normal(2) member_text_def intro!: arg_cong[of _ _ "json_block _ _ _ _"])
  have "\<exists>n. json_value n (json_text gap d (Js_obj ps) @ r) = Some (Js_obj ps, r)" for r
  proof (cases ps)
    case Nil
    then show ?thesis by (intro exI[of _ "Suc 0"]) (simp add: json_block_def after_hd listed_def json_space_def)
  next
    case (Cons p qs)
    let ?body = "w @ js_join (CHR '','' # w) (map (member_text ?s ?f) ps) @ w' @ CHR ''}'' # r"
    obtain n where n: "json_members n ?body = Some (ps, r)"
      using json_members_text[OF _ readable w(1,2) s, of r] Cons by auto
    have "after CHR ''}'' ?body = None"
      using w(1) Cons by (cases qs) (simp_all add: js_join_simps after_skip after_hd member_text_def json_string_def)
    then have "json_value (Suc n) (CHR ''{'' # ?body) = Some (Js_obj ps, r)"
      by (simp add: n json_space_def own_properties_same[OF normal])
    moreover have "json_text gap d (Js_obj ps) @ r = CHR ''{'' # ?body"
      unfolding printed using Cons by (subst w(3)) simp_all
    ultimately show ?thesis by (intro exI[of _ "Suc n"]) (simp only:)
  qed
  then show ?case by (simp add: reads_back_def)
qed (auto simp: reads_back_def json_word_def json_space_def intro!: exI[of _ "Suc 0"])

text \<open>Printing with any indentation and parsing gives the value back.\<close>

theorem json_round_trip:
  assumes "json_normal v"
  shows "JSON_parse (json_text gap d v) = Some v"
proof -
  have "value_end []" by (simp add: value_end_def)
  then obtain n where "json_value n (json_text gap d v @ []) = Some (v, [])"
    by (rule reads_backE[OF json_reads_back[OF assms, of gap d]])
  then show ?thesis using JSON_parse_fuel[of n "json_text gap d v" v "[]"] by simp
qed

text \<open>A text that was cut off inside an object is not JSON.\<close>

lemma json_prefix:
  assumes "json_normal (Js_obj ps)" "json_text gap d (Js_obj ps) = p @ q" "q \<noteq> []"
  shows "JSON_parse p = None"
proof (rule ccontr)
  assume "JSON_parse p \<noteq> None"
  then obtain v r where v: "json_value (json_fuel p) p = Some (v, r)"
    by (auto simp: JSON_parse_def split: option.splits)
  obtain t where "p @ q = CHR ''{'' # t" using json_text_hd[of gap d "Js_obj ps"] assms(2) by auto
  then obtain t' where p: "p = CHR ''{'' # t'" using v by (cases p) (auto simp: json_fuel_def)
  then have "\<forall>i. v \<noteq> Js_num i"
    using v by (cases "json_fuel p") (auto simp: json_space_def split: option.splits)
  then have "json_value (json_fuel p) (p @ q) = Some (v, r @ q)" using json_append(1)[OF v] by simp
  moreover have "value_end []" by (simp add: value_end_def)
  then obtain n where "json_value n (json_text gap d (Js_obj ps) @ []) = Some (Js_obj ps, [])"
    by (rule reads_backE[OF json_reads_back[OF assms(1), of gap d]])
  then have n: "json_value n (p @ q) = Some (Js_obj ps, [])" using assms(2) by simp
  ultimately show False
    using json_mono(1)[OF max.cobounded1, of "json_fuel p" "p @ q" _ n] json_mono(1)[OF max.cobounded2, of n "p @ q" _ "json_fuel p"]
      assms(3) by fastforce
qed


subsection \<open>Objects in insertion order\<close>

text \<open>An object that is built in any order is printed and parsed in the order of listing.\<close>

fun json_listed :: "json \<Rightarrow> json" where
  "json_listed (Js_arr vs) = Js_arr (map json_listed vs)"
| "json_listed (Js_obj ps) = Js_obj (listed (map (\<lambda>(k, v). (k, json_listed v)) ps))"
| "json_listed v = v"

fun json_named :: "json \<Rightarrow> bool" where
  "json_named (Js_arr vs) \<longleftrightarrow> (\<forall>v \<in> set vs. json_named v)"
| "json_named (Js_obj ps) \<longleftrightarrow> distinct (map fst ps) \<and> (\<forall>p \<in> set ps. json_named (snd p))"
| "json_named _ \<longleftrightarrow> True"

lemma sort_key_sorted: "sorted (map f xs) \<Longrightarrow> sort_key f xs = xs"
  by (induction xs) (simp_all add: insort_is_Cons)

lemma listed_again [simp]: "listed (listed ps) = listed ps"
proof -
  let ?i = "\<lambda>p :: string \<times> 'a. array_index (fst p)" and ?k = "\<lambda>p :: string \<times> 'a. bigint_of (fst p)"
  have "filter ?i (listed ps) = sort_key ?k (filter ?i ps)" "filter (\<lambda>p. \<not> ?i p) (listed ps) = filter (\<lambda>p. \<not> ?i p) ps"
    unfolding listed_def filter_append by (simp_all add: filter_id_conv filter_empty_conv)
  then show ?thesis
    unfolding listed_def[of "listed ps"] by (simp add: sort_key_sorted) (simp add: listed_def)
qed

lemma listed_mset: "mset (listed ps) = mset ps"
  by (simp add: listed_def)

lemma listed_set [simp]: "set (listed ps) = set ps"
  using mset_eq_setD[OF listed_mset] .

lemma listed_distinct: "distinct (map fst (listed ps)) \<longleftrightarrow> distinct (map fst ps)"
  by (rule mset_eq_imp_distinct_iff) (simp only: mset_map listed_mset)

lemma json_listed_normal: "json_named v \<Longrightarrow> json_normal (json_listed v)"
proof (induction v)
  case (Js_obj ps)
  have "json_normal (json_listed v)" if "(k, v) \<in> set ps" for k v
    using Js_obj.IH[OF that snds.intros] Js_obj.prems that by fastforce
  moreover have "distinct (map fst (map (\<lambda>(k, v). (k, json_listed v)) ps))"
    using Js_obj.prems by (simp add: comp_def case_prod_beta')
  ultimately show ?case by (auto simp: listed_distinct simp del: map_map)
qed auto

lemma json_text_listed: "json_text gap d (json_listed v) = json_text gap d v"
proof (induction v arbitrary: d)
  case (Js_arr vs)
  then show ?case by (simp cong: map_cong)
next
  case (Js_obj ps)
  have "map (\<lambda>(k, v). (k, json_text gap (d + gap) v)) (map (\<lambda>(k, v). (k, json_listed v)) ps)
      = map (\<lambda>(k, v). (k, json_text gap (d + gap) v)) ps"
    using Js_obj.IH[OF _ snds.intros] by fastforce
  then have "listed (map (\<lambda>(k, v). (k, json_text gap (d + gap) v)) (listed (map (\<lambda>(k, v). (k, json_listed v)) ps)))
      = listed (map (\<lambda>(k, v). (k, json_text gap (d + gap) v)) ps)"
    by (metis listed_again listed_map)
  then show ?case by simp
qed auto

theorem json_parse_listed: "json_named v \<Longrightarrow> JSON_parse (json_text gap d v) = Some (json_listed v)"
  using json_round_trip[OF json_listed_normal, of v gap d] by (simp only: json_text_listed)

end
