(* ===== verification/JsonlStore.thy ===== *)
theory JsonlStore
  imports EventStore Json
begin

section \<open>The durable event store\<close>

text \<open>
  Model of \<^verbatim>\<open>packages/event-store/src/jsonl-store.ts\<close>: the event store over a file with one
  JSON record per line. The file is \<open>None\<close> or its text; a method gets it and returns it, and a write
  may fail or stop after some characters. What the instance keeps in memory is the record of the
  in-memory store (theory \<open>EventStore\<close>), beside the file size it knows and whether the file lacks
  its last newline. How the lock is taken is the subject of theory \<open>Lockfile\<close>; here
  \<open>append\<close> gets the outcome as an argument. An event body is its three properties as JSON values,
  of which a damaged record may lack some. A hash in the file that is not a string is read as its text.
  Paths, telemetry and failures of \<^verbatim>\<open>stat\<close> other than a missing file are left out.

  The lemmas show that the store refines the in-memory store, that a crash in the middle of a
  write loses at most events of that write, and that, as long as appends come one at a time, no interleaving of
  several instances, failed writes and crashes forks the hash chain of the file.
\<close>

subsection \<open>Records and lines\<close>

record event_body =
  eb_type :: "json option"
  eb_metadata :: "json option"
  eb_payload :: "json option"

type_synonym jsonl_event = "event_body stored_event"

definition newline :: char where
  "newline = CHR 0x0A"

text \<open>\<^verbatim>\<open>JSON.stringify\<close> leaves out properties that are undefined.\<close>

definition defined_properties :: "(string \<times> json option) list \<Rightarrow> (string \<times> json) list" where
  "defined_properties ps = concat (map (\<lambda>(k, v). case v of None \<Rightarrow> [] | Some x \<Rightarrow> [(k, x)]) ps)"

definition body_json :: "event_body \<Rightarrow> json" where
  "body_json b = Js_obj (defined_properties
     [(''type'', eb_type b), (''metadata'', eb_metadata b), (''payload'', eb_payload b)])"

definition record_json :: "jsonl_event \<Rightarrow> json" where
  "record_json e = Js_obj (defined_properties
     [(''event'', Some (body_json (sv_event e))), (''streamId'', Some (Js_str (sv_streamId e))),
      (''version'', Some (Js_num (sv_version e))), (''globalPosition'', Some (Js_num (sv_globalPosition e))),
      (''appendedAt'', Some (Js_str (sv_appendedAt e))),
      (''hash'', map_option Js_str (sv_hash e)), (''previousHash'', map_option Js_str (sv_previousHash e))])"

definition record_line :: "jsonl_event \<Rightarrow> string" where
  "record_line e = JSON_stringify (record_json e) @ [newline]"

definition byte_length :: "string \<Rightarrow> int" where
  "byte_length s = int (length (utf8 s))"

subsection \<open>Loading\<close>

datatype load_skip_reason = Parse_error | Missing_field

record load_skip =
  sk_lineIndex :: int
  sk_reason :: load_skip_reason

record load_diagnostics =
  ld_eventsLoaded :: int
  ld_skippedLines :: int
  ld_skips :: "load_skip list"

record jsonl_options =
  jo_verifyOnLoad :: "bool option"
  jo_maxLoadBytes :: "int option"

record jsonl_store =
  jl_memory :: "event_body event_store"
  jl_knownFileSize :: "int option"
  jl_needsTrailingNewline :: bool
  jl_loadDiagnostics :: load_diagnostics

text \<open>A property of a parsed record: undefined unless it is an own property.\<close>

definition json_property :: "json \<Rightarrow> string \<Rightarrow> json option" where
  "json_property v k = (case v of Js_obj ps \<Rightarrow> map_of ps k | _ \<Rightarrow> None)"

definition hash_text :: "json \<Rightarrow> string" where
  "hash_text v = (case v of Js_str s \<Rightarrow> s | _ \<Rightarrow> JSON_stringify v)"

definition body_of :: "json \<Rightarrow> event_body" where
  "body_of v = \<lparr>eb_type = json_property v ''type'', eb_metadata = json_property v ''metadata'',
     eb_payload = json_property v ''payload''\<rparr>"

text \<open>The required fields of a record, when all are there with their types.\<close>

definition required_fields :: "json \<Rightarrow> (string \<times> int \<times> int \<times> string \<times> json) option" where
  "required_fields v =
     (case (json_property v ''streamId'', json_property v ''version'', json_property v ''globalPosition'',
            json_property v ''appendedAt'', json_property v ''event'') of
        (Some (Js_str i), Some (Js_num n), Some (Js_num p), Some (Js_str t), Some ev) \<Rightarrow> Some (i, n, p, t, ev)
      | _ \<Rightarrow> None)"

definition index_record ::
  "event_body event_store \<Rightarrow> jsonl_event \<Rightarrow> string option \<Rightarrow> event_body event_store" where
  "index_record m e hash =
     m\<lparr>es_lastHash := (case hash of None \<Rightarrow> es_lastHash m | Some h \<Rightarrow> h),
       es_streams := jm_set (es_streams m) (sv_streamId e) (stream_of m (sv_streamId e) @ [e]),
       es_globalLog := es_globalLog m @ [e],
       es_nextGlobalPosition :=
         (if sv_globalPosition e \<ge> es_nextGlobalPosition m then sv_globalPosition e + 1
          else es_nextGlobalPosition m)\<rparr>"

definition stored_record :: "json \<Rightarrow> string \<times> int \<times> int \<times> string \<times> json \<Rightarrow> jsonl_event" where
  "stored_record v = (\<lambda>(i, n, p, t, ev).
     let hash = map_option hash_text (json_property v ''hash'');
         previousHash = map_option hash_text (json_property v ''previousHash'');
         chained = hash \<noteq> None \<and> previousHash \<noteq> None
     in \<lparr>sv_event = body_of ev, sv_streamId = i, sv_version = n, sv_globalPosition = p, sv_appendedAt = t,
         sv_hash = (if chained then hash else None), sv_previousHash = (if chained then previousHash else None)\<rparr>)"

text \<open>What one line does to the indexes in memory. Reading a property of \<^verbatim>\<open>null\<close> throws.\<close>

definition load_line ::
  "event_body event_store \<Rightarrow> string \<Rightarrow> (load_skip_reason option \<times> event_body event_store) result" where
  "load_line m line =
     (let trimmed = js_trim line
      in if trimmed = [] then Inr (None, m)
      else case JSON_parse trimmed of
             None \<Rightarrow> Inr (Some Parse_error, m)
           | Some v \<Rightarrow>
               if v = Js_null then Inl PlainError
               else case required_fields v of
                      None \<Rightarrow> Inr (Some Missing_field, m)
                    | Some (i, n, p, t, ev) \<Rightarrow>
                        if ev = Js_null then Inl PlainError
                        else Inr (None, index_record m (stored_record v (i, n, p, t, ev))
                               (map_option hash_text (json_property v ''hash''))))"

type_synonym load_state = "int \<times> load_skip list \<times> event_body event_store"

definition load_step :: "load_state \<Rightarrow> string \<Rightarrow> load_state result" where
  "load_step st line = (case st of (lineIndex, skips, m) \<Rightarrow>
     bind_r (load_line m line) (\<lambda>(reason, m').
       Inr (lineIndex + 1,
         skips @ (case reason of None \<Rightarrow> []
                  | Some r \<Rightarrow> [\<lparr>sk_lineIndex = lineIndex + 1, sk_reason = r\<rparr>]),
         m')))"

definition lacks_newline :: "string \<Rightarrow> bool" where
  "lacks_newline content \<longleftrightarrow> content \<noteq> [] \<and> last content \<noteq> newline"

definition loadFromFile :: "jsonl_options \<Rightarrow> string option \<Rightarrow> jsonl_store result" where
  "loadFromFile opts file =
     (case file of
        None \<Rightarrow> Inr \<lparr>jl_memory = new_store, jl_knownFileSize = None, jl_needsTrailingNewline = False,
            jl_loadDiagnostics = \<lparr>ld_eventsLoaded = 0, ld_skippedLines = 0, ld_skips = []\<rparr>\<rparr>
      | Some content \<Rightarrow>
          bind_r (throw_when (case jo_maxLoadBytes opts of None \<Rightarrow> False | Some n \<Rightarrow> byte_length content > n)
              (EventStoreError E_LOG_TOO_LARGE)) (\<lambda>_.
          bind_r (foldE load_step (0, [], new_store) (js_split newline content)) (\<lambda>(_, skips, m).
            Inr \<lparr>jl_memory = m, jl_knownFileSize = Some (byte_length content),
                jl_needsTrailingNewline = lacks_newline content,
                jl_loadDiagnostics = \<lparr>ld_eventsLoaded = int (length (es_globalLog m)),
                  ld_skippedLines = int (length skips), ld_skips = skips\<rparr>\<rparr>)))"

definition jsonl_open ::
  "hasher \<Rightarrow> (event_body content \<Rightarrow> string) \<Rightarrow> jsonl_options \<Rightarrow> string option \<Rightarrow> jsonl_store result" where
  "jsonl_open H canon opts file =
     bind_r (loadFromFile opts file) (\<lambda>j.
     bind_r (throw_when (option_or (jo_verifyOnLoad opts) True
              \<and> \<not> ir_valid (verifyHashChain H canon (es_globalLog (jl_memory j))))
         (EventStoreError E_INTEGRITY_VIOLATION)) (\<lambda>_. Inr j))"

subsection \<open>Appending\<close>

datatype write_fault = No_fault | Open_fails | Cut_after nat

text \<open>\<^verbatim>\<open>_writeAndSync\<close>: what the write returns or throws, and the file after it.\<close>

definition writeAndSync :: "string option \<Rightarrow> string \<Rightarrow> write_fault \<Rightarrow> int result \<times> string option" where
  "writeAndSync file data fault =
     (let content = option_or file []
      in case fault of
           No_fault \<Rightarrow> (Inr (byte_length data), Some (content @ data))
         | Open_fails \<Rightarrow> (Inl PlainError, file)
         | Cut_after n \<Rightarrow> (Inl PlainError, Some (content @ take n data)))"

definition detectExternalAdvance :: "jsonl_store \<Rightarrow> string option \<Rightarrow> unit result" where
  "detectExternalAdvance j file =
     (case file of
        None \<Rightarrow> throw_when (jl_knownFileSize j \<noteq> None) (EventStoreError E_CONCURRENCY_CONFLICT)
      | Some content \<Rightarrow> throw_when (byte_length content > option_or (jl_knownFileSize j) 0)
          (EventStoreError E_CONCURRENCY_CONFLICT))"

text \<open>The newline that repairs a torn last line, before the first append.\<close>

definition repair_newline ::
  "jsonl_store \<Rightarrow> string option \<Rightarrow> write_fault \<Rightarrow> unit result \<times> jsonl_store \<times> string option" where
  "repair_newline j file fault =
     (if jl_needsTrailingNewline j then
        case writeAndSync file [newline] fault of
          (Inl e, file') \<Rightarrow> (Inl e, j, file')
        | (Inr bytes, file') \<Rightarrow>
            (Inr (), j\<lparr>jl_knownFileSize := map_option (\<lambda>n. n + bytes) (jl_knownFileSize j),
               jl_needsTrailingNewline := False\<rparr>, file')
      else (Inr (), j, file))"

definition ensure_stream :: "jsonl_store \<Rightarrow> string \<Rightarrow> jsonl_store" where
  "ensure_stream j i =
     (if jm_has (es_streams (jl_memory j)) i then j
      else j\<lparr>jl_memory := (jl_memory j)\<lparr>es_streams := jm_set (es_streams (jl_memory j)) i []\<rparr>\<rparr>)"

definition commit ::
  "jsonl_store \<Rightarrow> event_body event_store \<Rightarrow> int \<Rightarrow> jsonl_store" where
  "commit j m bytes =
     j\<lparr>jl_memory := m, jl_knownFileSize := Some (option_or (jl_knownFileSize j) 0 + bytes)\<rparr>"

record append_env =
  ae_lock :: "unit result"
  ae_repairFault :: write_fault
  ae_writeFault :: write_fault
  ae_now :: string

type_synonym jsonl_result =
  "store_append_result result \<times> jsonl_store \<times> string option \<times> (handler \<times> jsonl_event) list"

text \<open>The part of \<^verbatim>\<open>append\<close> that holds the lock. The new links are computed on copies (here the
  store \<open>m\<close>) that are committed after the write.\<close>

definition append_locked ::
  "hasher \<Rightarrow> (event_body content \<Rightarrow> string) \<Rightarrow> jsonl_store \<Rightarrow> string option \<Rightarrow> string \<Rightarrow> event_body list \<Rightarrow>
   append_env \<Rightarrow> jsonl_result" where
  "append_locked H canon j file i events env =
     (case detectExternalAdvance j file of
        Inl e \<Rightarrow> (Inl e, j, file, [])
      | Inr _ \<Rightarrow>
          let currentVersion = streamVersion (jl_memory j) i;
              (m, stored) = foldl (append_event H canon i (ae_now env)) (jl_memory j, []) events;
              lines = concat (map record_line stored)
          in case repair_newline j file (ae_repairFault env) of
               (Inl e, j', file') \<Rightarrow> (Inl e, j', file', [])
             | (Inr _, j', file') \<Rightarrow>
                 (case writeAndSync file' lines (ae_writeFault env) of
                    (Inl e, file'') \<Rightarrow> (Inl e, j', file'', [])
                  | (Inr bytes, file'') \<Rightarrow>
                      (Inr \<lparr>sr_streamId = i, sr_fromVersion = currentVersion + 1,
                            sr_toVersion = currentVersion + 1 + int (length events) - 1,
                            sr_count = int (length events)\<rparr>,
                       commit j' m bytes, file'', dispatch_calls m i stored)))"

definition jsonl_append ::
  "hasher \<Rightarrow> (event_body content \<Rightarrow> string) \<Rightarrow> jsonl_store \<Rightarrow> string option \<Rightarrow> string \<Rightarrow> event_body list \<Rightarrow>
   expected_version option \<Rightarrow> append_env \<Rightarrow> jsonl_result" where
  "jsonl_append H canon j file i events ev env =
     (case bind_r (validateStreamId i) (\<lambda>_.
           bind_r (throw_when (events = []) (EventStoreError E_EMPTY_APPEND)) (\<lambda>_.
             check_expected ev (streamVersion (jl_memory j) i))) of
        Inl e \<Rightarrow> (Inl e, j, file, [])
      | Inr _ \<Rightarrow>
          let j = ensure_stream j i
          in case ae_lock env of
               Inl e \<Rightarrow> (Inl e, j, file, [])
             | Inr _ \<Rightarrow> append_locked H canon j file i events env)"

subsection \<open>Reading, subscribing, querying\<close>

definition on_memory ::
  "jsonl_store \<Rightarrow> (event_body event_store \<Rightarrow> 'r \<times> event_body event_store) \<Rightarrow> 'r \<times> jsonl_store" where
  "on_memory j f = (case f (jl_memory j) of (r, m) \<Rightarrow> (r, j\<lparr>jl_memory := m\<rparr>))"

definition jsonl_read :: "jsonl_store \<Rightarrow> string \<Rightarrow> read_options \<Rightarrow> jsonl_event list result" where
  "jsonl_read j i opts = store_read (jl_memory j) i opts"

definition jsonl_readAll :: "jsonl_store \<Rightarrow> read_options \<Rightarrow> jsonl_event list" where
  "jsonl_readAll j opts = store_readAll (jl_memory j) opts"

definition jsonl_subscribe :: "jsonl_store \<Rightarrow> string \<Rightarrow> handler \<Rightarrow> subscription result \<times> jsonl_store" where
  "jsonl_subscribe j i h = on_memory j (\<lambda>m. subscribe m i h)"

definition jsonl_subscribeAll :: "jsonl_store \<Rightarrow> handler \<Rightarrow> subscription \<times> jsonl_store" where
  "jsonl_subscribeAll j h = on_memory j (\<lambda>m. subscribeAll m h)"

definition jsonl_unsubscribe :: "jsonl_store \<Rightarrow> subscription \<Rightarrow> jsonl_store" where
  "jsonl_unsubscribe j sub = j\<lparr>jl_memory := unsubscribe (jl_memory j) sub\<rparr>"

definition jsonl_streamExists :: "jsonl_store \<Rightarrow> string \<Rightarrow> bool" where
  "jsonl_streamExists j i = streamExists (jl_memory j) i"

definition jsonl_streamVersion :: "jsonl_store \<Rightarrow> string \<Rightarrow> int" where
  "jsonl_streamVersion j i = streamVersion (jl_memory j) i"

definition jsonl_globalPosition :: "jsonl_store \<Rightarrow> int" where
  "jsonl_globalPosition j = globalPosition (jl_memory j)"

definition jsonl_verifyIntegrity ::
  "hasher \<Rightarrow> (event_body content \<Rightarrow> string) \<Rightarrow> jsonl_store \<Rightarrow> integrity_result" where
  "jsonl_verifyIntegrity H canon j = verifyIntegrity H canon (jl_memory j)"

subsection \<open>A line is read back\<close>

lemma escape_no_newline: "newline \<notin> set (escape_char c)"
proof -
  have digit: "newline \<noteq> hex_digit k" if "k < 16" for k
  proof -
    have "hex_digit k \<in> set hex_digits"
      using that unfolding hex_digit_def by (intro nth_mem) (simp add: hex_digits_def)
    moreover have "newline \<notin> set hex_digits" by code_simp
    ultimately show ?thesis by auto
  qed
  have "newline \<noteq> char_of (92 :: nat)" by code_simp
  moreover have "(of_char c :: nat) div 16 < 16" if "of_char c < (32 :: nat)" using that by simp
  moreover have "c \<noteq> newline" if "of_char c \<noteq> (10 :: nat)" using that by (auto simp: newline_def)
  ultimately show ?thesis
    using digit by (auto simp: escape_char_def Let_def) (auto simp: newline_def)
qed

lemma string_no_newline: "newline \<notin> set (json_string s)"
  using escape_no_newline by (auto simp: json_string_def) (auto simp: newline_def)

lemma join_no_newline: "newline \<notin> set sep \<Longrightarrow> \<forall>s \<in> set ss. newline \<notin> set s \<Longrightarrow> newline \<notin> set (js_join sep ss)"
  by (cases ss) (auto simp: js_join_def)

lemma block_no_newline:
  "newline \<notin> {a, b} \<Longrightarrow> \<forall>s \<in> set ss. newline \<notin> set s \<Longrightarrow> newline \<notin> set (json_block a b 0 d ss)"
  using join_no_newline[of "'',''" ss] by (auto simp: json_block_def newline_def)

lemma text_no_newline: "newline \<notin> set (json_text 0 d v)"
proof (induction v arbitrary: d)
  case (Js_num n)
  have "\<not> is_digit newline" by code_simp
  then have "newline \<notin> set (nat_str k)" for k using nat_str_digits[of k] by (auto simp: list_all_iff)
  then show ?case by (auto simp: int_str_def) (auto simp: newline_def)
next
  case (Js_arr vs)
  then show ?case using block_no_newline[of "CHR ''[''" "CHR '']''"] by (auto simp: newline_def)
next
  case (Js_obj ps)
  have "newline \<notin> set (json_text 0 d v)" if "(k, v) \<in> set ps" for k v
    using Js_obj.IH[OF that snds.intros, of d] by simp
  then have "\<forall>s \<in> set (map (\<lambda>(k, t). json_string k @ CHR '':'' # t) (listed (map (\<lambda>(k, v). (k, json_text 0 d v)) ps))).
      newline \<notin> set s"
    using string_no_newline by (auto simp: newline_def)
  moreover have "newline \<notin> {CHR ''{'', CHR ''}''}" by (simp add: newline_def)
  ultimately show ?case using block_no_newline by simp
qed (use string_no_newline in \<open>auto simp: newline_def\<close>)

lemma defined_keys: "set (map fst (defined_properties ps)) \<subseteq> set (map fst ps)"
proof
  fix k assume "k \<in> set (map fst (defined_properties ps))"
  then obtain x where "(k, Some x) \<in> set ps" by (auto simp: defined_properties_def split: option.splits)
  then show "k \<in> set (map fst ps)" by force
qed

lemma defined_map_of:
  "distinct (map fst ps) \<Longrightarrow> map_of (defined_properties ps) k = (case map_of ps k of Some x \<Rightarrow> x | None \<Rightarrow> None)"
proof (induction ps)
  case (Cons p ps)
  obtain i v where p: "p = (i, v)" by fastforce
  have split: "defined_properties ((i, v) # ps) = (case v of None \<Rightarrow> [] | Some x \<Rightarrow> [(i, x)]) @ defined_properties ps"
    by (simp add: defined_properties_def)
  have "map_of ps i = None" using Cons.prems by (simp add: p map_of_eq_None_iff)
  then show ?case using Cons by (auto simp: p split split: option.splits)
qed (simp add: defined_properties_def)

lemma defined_distinct: "distinct (map fst ps) \<Longrightarrow> distinct (map fst (defined_properties ps))"
proof (induction ps)
  case (Cons p ps)
  have "fst p \<notin> set (map fst (defined_properties ps))" using Cons.prems defined_keys[of ps] by auto
  then show ?case using Cons by (cases p) (auto simp: defined_properties_def split: option.split)
qed (simp add: defined_properties_def)

lemma listed_named: "\<forall>k \<in> set (map fst ps). \<not> array_index k \<Longrightarrow> listed ps = ps"
  by (simp add: listed_def filter_empty_conv filter_id_conv)

lemma defined_normal:
  assumes "distinct (map fst ps)" "\<forall>k \<in> set (map fst ps). \<not> array_index k"
    and "\<And>k v. (k, Some v) \<in> set ps \<Longrightarrow> json_normal v"
  shows "json_normal (Js_obj (defined_properties ps))"
proof -
  have "json_normal (snd p)" if "p \<in> set (defined_properties ps)" for p
    using that assms(3) by (fastforce simp: defined_properties_def split: option.splits)
  moreover have "listed (defined_properties ps) = defined_properties ps"
    using assms(2) defined_keys[of ps] by (intro listed_named) blast
  ultimately show ?thesis using assms(1) by (simp add: defined_distinct)
qed

definition body_ok :: "event_body \<Rightarrow> bool" where
  "body_ok b \<longleftrightarrow> (\<forall>v. Some v \<in> {eb_type b, eb_metadata b, eb_payload b} \<longrightarrow> json_normal v)"

definition record_ok :: "jsonl_event \<Rightarrow> bool" where
  "record_ok e \<longleftrightarrow> body_ok (sv_event e) \<and> sv_hash e \<noteq> None \<and> sv_previousHash e \<noteq> None"

lemma field_names:
  "\<forall>k \<in> {''event'', ''streamId'', ''version'', ''globalPosition'', ''appendedAt'', ''hash'', ''previousHash'',
     ''type'', ''metadata'', ''payload''}. \<not> array_index k"
  by (simp add: array_index_def is_digit_def)

lemma body_normal: "body_ok b \<Longrightarrow> json_normal (body_json b)"
  unfolding body_json_def using field_names by (intro defined_normal) (auto simp: body_ok_def)

lemma record_normal: "record_ok e \<Longrightarrow> json_normal (record_json e)"
  unfolding record_json_def using field_names
  by (intro defined_normal) (auto simp: record_ok_def simp del: json_normal.simps(2) dest: body_normal)

lemma body_read_back: "body_of (body_json b) = b"
  by (simp add: body_of_def body_json_def json_property_def defined_map_of)

lemma record_fields:
  "json_property (record_json e) ''hash'' = map_option Js_str (sv_hash e)"
  "json_property (record_json e) ''previousHash'' = map_option Js_str (sv_previousHash e)"
  "required_fields (record_json e) =
     Some (sv_streamId e, sv_version e, sv_globalPosition e, sv_appendedAt e, body_json (sv_event e))"
  by (simp_all add: required_fields_def record_json_def json_property_def defined_map_of)

lemma record_text:
  obtains x where "JSON_stringify (record_json e) = CHR ''{'' # x @ [CHR ''}'']"
proof -
  have "\<exists>x. json_block a b 0 d ss = a # x @ [b]" for a b d ss
    by (cases "ss = []") (auto simp: json_block_def)
  then show ?thesis using that unfolding JSON_stringify_def record_json_def json_text.simps by metis
qed

lemma load_record_line:
  assumes "record_ok e"
  shows "load_line m (JSON_stringify (record_json e)) = Inr (None, index_record m e (sv_hash e))"
proof -
  obtain x where x: "JSON_stringify (record_json e) = CHR ''{'' # x @ [CHR ''}'']" by (rule record_text)
  have trim: "js_trim (JSON_stringify (record_json e)) = JSON_stringify (record_json e)"
    by (rule js_trim_id) (simp_all add: x js_space_def)
  have "stored_record (record_json e) (sv_streamId e, sv_version e, sv_globalPosition e, sv_appendedAt e,
      body_json (sv_event e)) = e"
    using assms by (auto simp: stored_record_def record_fields record_ok_def body_read_back hash_text_def
        option.map_comp comp_def)
  moreover have "JSON_stringify (record_json e) \<noteq> []" by (simp add: x)
  moreover have "JSON_parse (JSON_stringify (record_json e)) = Some (record_json e)"
    unfolding JSON_stringify_def by (rule json_round_trip[OF record_normal[OF assms]])
  moreover have "record_json e \<noteq> Js_null" "body_json (sv_event e) \<noteq> Js_null"
    by (simp_all add: record_json_def body_json_def)
  moreover have "map_option hash_text (map_option Js_str (sv_hash e)) = sv_hash e"
    by (cases "sv_hash e") (simp_all add: hash_text_def)
  ultimately show ?thesis unfolding load_line_def trim Let_def by (simp add: record_fields)
qed


subsection \<open>What a text loads to\<close>

definition line_memory :: "event_body event_store \<Rightarrow> string \<Rightarrow> event_body event_store result" where
  "line_memory m line = bind_r (load_line m line) (\<lambda>(_, m'). Inr m')"

definition lines_memory :: "event_body event_store \<Rightarrow> string \<Rightarrow> event_body event_store result" where
  "lines_memory m content = foldE line_memory m (js_split newline content)"

lemma load_steps:
  "\<exists>k' skips'. foldE load_step (k, skips, m) ls = bind_r (foldE line_memory m ls) (\<lambda>m'. Inr (k', skips', m'))"
proof (induction ls arbitrary: k skips m)
  case (Cons l ls)
  show ?case
  proof (cases "load_line m l")
    case (Inl e)
    then show ?thesis by (simp add: load_step_def line_memory_def)
  next
    case (Inr r)
    obtain reason m' where r: "r = (reason, m')" by fastforce
    show ?thesis using Cons.IH[of _ _ m'] by (simp add: load_step_def line_memory_def Inr r)
  qed
qed simp

lemma js_split_nonempty [simp]: "js_split c s \<noteq> []"
  by (induction s) (auto split: list.split)

lemma js_split_append: "js_split c (a @ c # b) = js_split c a @ js_split c b"
proof (induction a)
  case (Cons x a)
  obtain p ps where "js_split c a = p # ps" using js_split_nonempty[of c a] by (cases "js_split c a") blast+
  then show ?case using Cons by simp
qed simp

lemma blank_line [simp]: "line_memory m [] = Inr m"
  by (simp add: line_memory_def load_line_def js_trim_def)

lemma lines_memory_newline: "lines_memory m (a @ newline # b) = bind_r (lines_memory m a) (\<lambda>m'. lines_memory m' b)"
  by (simp add: lines_memory_def js_split_append foldE_append)

lemma lines_memory_end: "newline \<notin> set p \<Longrightarrow> lines_memory m p = line_memory m p"
  by (cases "line_memory m p") (simp_all add: lines_memory_def js_split_none)

lemma lines_memory_repair: "lines_memory m (a @ [newline]) = lines_memory m a"
  using lines_memory_newline[of m a "[]"] by (cases "lines_memory m a") (simp_all add: lines_memory_end)

lemma lines_memory_append:
  assumes "\<not> lacks_newline a"
  shows "lines_memory m (a @ b) = bind_r (lines_memory m a) (\<lambda>m'. lines_memory m' b)"
proof (cases a rule: rev_cases)
  case Nil
  then show ?thesis by (simp add: lines_memory_end)
next
  case (snoc c x)
  then have "a = c @ [newline]" using assms by (simp add: lacks_newline_def)
  then show ?thesis using lines_memory_newline[of m c b] lines_memory_repair[of m c] by simp
qed

definition index_all :: "event_body event_store \<Rightarrow> jsonl_event list \<Rightarrow> event_body event_store" where
  "index_all m es = foldl (\<lambda>m e. index_record m e (sv_hash e)) m es"

lemma record_line_memory:
  assumes "record_ok e"
  shows "lines_memory m (record_line e @ b) = lines_memory (index_record m e (sv_hash e)) b"
proof -
  have "newline \<notin> set (JSON_stringify (record_json e))" by (simp add: JSON_stringify_def text_no_newline)
  then have "lines_memory m (JSON_stringify (record_json e)) = Inr (index_record m e (sv_hash e))"
    by (simp add: lines_memory_end line_memory_def load_record_line[OF assms])
  then show ?thesis using lines_memory_newline[of m "JSON_stringify (record_json e)" b]
    by (simp add: record_line_def)
qed

lemma record_lines_memory:
  "\<forall>e \<in> set es. record_ok e \<Longrightarrow>
    lines_memory m (concat (map record_line es) @ b) = lines_memory (index_all m es) b"
  by (induction es arbitrary: m) (simp_all add: index_all_def record_line_memory)

text \<open>A record that was cut off is skipped, unless only its newline is missing.\<close>

lemma torn_record:
  assumes "record_ok e" "JSON_stringify (record_json e) = p @ q"
  shows "lines_memory m p = Inr (if q = [] then index_record m e (sv_hash e) else m)"
proof -
  have none: "newline \<notin> set p"
    using text_no_newline[of 0 "record_json e"] assms(2) by (simp add: JSON_stringify_def)
  obtain x where x: "JSON_stringify (record_json e) = CHR ''{'' # x @ [CHR ''}'']" by (rule record_text)
  show ?thesis
  proof (cases "q = [] \<or> p = []")
    case True
    then show ?thesis
    proof
      assume q: "q = []"
      then have "load_line m p = Inr (None, index_record m e (sv_hash e))"
        using load_record_line[OF assms(1)] assms(2) by simp
      then show ?thesis by (simp add: q lines_memory_end none line_memory_def)
    next
      assume "p = []"
      moreover from this have "q \<noteq> []" using assms(2) x by auto
      ultimately show ?thesis by (simp add: lines_memory_end)
    qed
  next
    case False
    obtain p' where p: "p = CHR ''{'' # p'" using False assms(2) x by (cases p) auto
    define t where "t = js_trim p"
    have "dropWhile js_space p = p" by (simp add: p js_space_def)
    then have "t = rev (dropWhile js_space (rev p))" by (simp add: t_def js_trim_def)
    then have cut: "p = t @ rev (takeWhile js_space (rev p))"
      by (metis rev_append rev_rev_ident takeWhile_dropWhile_id)
    have "t \<noteq> []"
    proof
      assume "t = []"
      then have "p = rev (takeWhile js_space (rev p))" using cut by simp
      then have "CHR ''{'' \<in> set (takeWhile js_space (rev p))" by (metis p list.set_intros(1) set_rev)
      then show False using set_takeWhileD by (fastforce simp: js_space_def)
    qed
    moreover obtain ps where ps: "record_json e = Js_obj ps" by (simp add: record_json_def)
    have "json_text 0 0 (Js_obj ps) = t @ rev (takeWhile js_space (rev p)) @ q"
      using assms(2) cut unfolding JSON_stringify_def ps by (metis append.assoc)
    from json_prefix[OF record_normal[OF assms(1), unfolded ps] this] have "JSON_parse t = None"
      using False by simp
    ultimately show ?thesis using False
      by (simp add: lines_memory_end none line_memory_def load_line_def t_def[symmetric] Let_def)
  qed
qed

lemma torn_lines:
  assumes "\<forall>e \<in> set es. record_ok e"
  obtains k where "k \<le> length es" "\<And>m. lines_memory m (take n (concat (map record_line es))) = Inr (index_all m (take k es))"
proof -
  have "\<exists>k \<le> length es. \<forall>m. lines_memory m (take n (concat (map record_line es))) = Inr (index_all m (take k es))"
    using assms
  proof (induction es arbitrary: n)
    case Nil
    then show ?case by (simp add: lines_memory_end index_all_def)
  next
    case (Cons e es)
    let ?line = "record_line e"
    show ?case
    proof (cases "length ?line \<le> n")
      case True
      obtain k where k: "k \<le> length es"
        "\<forall>m. lines_memory m (take (n - length ?line) (concat (map record_line es))) = Inr (index_all m (take k es))"
        using Cons by fastforce
      then show ?thesis using True Cons.prems
        by (intro exI[of _ "Suc k"]) (simp add: record_line_memory index_all_def)
    next
      case False
      let ?text = "JSON_stringify (record_json e)"
      have short: "take n (concat (map record_line (e # es))) = take n ?text"
        using False by (simp add: record_line_def)
      have "?text = take n ?text @ drop n ?text" by simp
      note torn = torn_record[OF _ this]
      show ?thesis
      proof (cases "drop n ?text = []")
        case True
        then show ?thesis using torn Cons.prems unfolding short
          by (intro exI[of _ 1]) (simp add: index_all_def)
      next
        case False
        then show ?thesis using torn Cons.prems unfolding short
          by (intro exI[of _ 0]) (simp add: index_all_def)
      qed
    qed
  qed
  then show ?thesis using that by blast
qed


subsection \<open>Stores as logs\<close>

text \<open>A well-formed store is determined by its log, up to its subscribers and empty streams.\<close>

definition log_ok :: "hasher \<Rightarrow> (event_body content \<Rightarrow> string) \<Rightarrow> jsonl_event list \<Rightarrow> bool" where
  "log_ok H canon es \<longleftrightarrow> counted sv_globalPosition es \<and> chain_ok H canon GENESIS_HASH es
     \<and> (\<forall>i. counted sv_version (filter (\<lambda>e. sv_streamId e = i) es))"

lemma store_wf_log:
  "store_wf H canon m \<longleftrightarrow> log_ok H canon (es_globalLog m)
    \<and> es_nextGlobalPosition m = int (length (es_globalLog m)) + 1
    \<and> es_lastHash m = chain_head GENESIS_HASH (es_globalLog m)
    \<and> (\<forall>i. stream_of m i = filter (\<lambda>e. sv_streamId e = i) (es_globalLog m))"
  by (auto simp: store_wf_def log_ok_def)

lemma counted_prefix: "counted f (xs @ ys) \<Longrightarrow> counted f xs"
  unfolding counted_def
proof (intro allI impI)
  fix k assume all: "\<forall>k < length (xs @ ys). f ((xs @ ys) ! k) = int k + 1" and k: "k < length xs"
  show "f (xs ! k) = int k + 1" using all[rule_format, of k] k by (simp add: nth_append)
qed

lemma log_ok_prefix: "log_ok H canon (xs @ ys) \<Longrightarrow> log_ok H canon xs"
  unfolding log_ok_def chain_ok_append filter_append using counted_prefix by blast

lemma log_ok_hashed: "log_ok H canon es \<Longrightarrow> fully_hashed es"
  by (auto simp: log_ok_def dest: chain_ok_hashed)

lemma log_ok_valid: "log_ok H canon es \<Longrightarrow> ir_valid (verifyHashChain H canon es)"
  by (simp add: verify_valid_iff[OF log_ok_hashed]) (simp add: log_ok_def counted_contiguous)

lemma index_record_wf:
  assumes "store_wf H canon m" "log_ok H canon (es_globalLog m @ [e])"
  shows "store_wf H canon (index_record m e (sv_hash e))"
proof -
  have e: "sv_globalPosition e = es_nextGlobalPosition m" "sv_hash e \<noteq> None"
    using assms log_ok_hashed[OF assms(2)] by (auto simp: store_wf_log log_ok_def fully_hashed_def)
  then obtain h where "sv_hash e = Some h" by blast
  then show ?thesis using assms e(1)
    by (auto simp: store_wf_log index_record_def option_or_def stream_of_def)
qed

lemma index_record_log [simp]: "es_globalLog (index_record m e h) = es_globalLog m @ [e]"
  by (simp add: index_record_def)

lemma index_all_wf:
  "store_wf H canon m \<Longrightarrow> log_ok H canon (es_globalLog m @ es) \<Longrightarrow>
    store_wf H canon (index_all m es) \<and> es_globalLog (index_all m es) = es_globalLog m @ es"
proof (induction es arbitrary: m)
  case (Cons e es)
  have "store_wf H canon (index_record m e (sv_hash e))"
    using Cons.prems log_ok_prefix[of H canon "es_globalLog m @ [e]" es] by (intro index_record_wf) simp_all
  then show ?case using Cons.IH[of "index_record m e (sv_hash e)"] Cons.prems(2) by (simp add: index_all_def)
qed (simp add: index_all_def)

subsection \<open>Files\<close>

definition file_memory :: "string option \<Rightarrow> event_body event_store result" where
  "file_memory file = (case file of None \<Rightarrow> Inr new_store | Some content \<Rightarrow> lines_memory new_store content)"

definition file_holds ::
  "hasher \<Rightarrow> (event_body content \<Rightarrow> string) \<Rightarrow> string option \<Rightarrow> jsonl_event list \<Rightarrow> bool" where
  "file_holds H canon file log \<longleftrightarrow>
     (\<exists>m. file_memory file = Inr m \<and> store_wf H canon m \<and> es_globalLog m = log)"

definition file_size :: "string option \<Rightarrow> int" where
  "file_size file = (case file of None \<Rightarrow> 0 | Some content \<Rightarrow> byte_length content)"

definition file_torn :: "string option \<Rightarrow> bool" where
  "file_torn file = (case file of None \<Rightarrow> False | Some content \<Rightarrow> lacks_newline content)"

lemma byte_length_Nil [simp]: "byte_length [] = 0"
  by (simp add: byte_length_def utf8_def)

lemma byte_length_append: "byte_length (a @ b) = byte_length a + byte_length b"
  by (simp add: byte_length_def utf8_def)

lemma byte_length_pos: "0 \<le> byte_length a" "a \<noteq> [] \<Longrightarrow> 0 < byte_length a"
  by (cases a; simp add: byte_length_def utf8_def utf8_char_def Let_def)+

lemma file_holds_none: "file_holds H canon None log \<longleftrightarrow> log = []"
  by (auto simp: file_holds_def file_memory_def store_wf_def new_store_def stream_of_def)

lemma file_holds_empty: "file_holds H canon (Some []) log \<longleftrightarrow> log = []"
  by (auto simp: file_holds_def file_memory_def lines_memory_end store_wf_def new_store_def stream_of_def)

text \<open>Writing records behind whole lines, as far as the write gets.\<close>

lemma write_torn:
  assumes "file_holds H canon file log" "\<not> file_torn file" "log_ok H canon (log @ new)"
    and "\<forall>e \<in> set new. record_ok e"
  obtains k where "k \<le> length new"
    "file_holds H canon (Some (option_or file [] @ take n (concat (map record_line new)))) (log @ take k new)"
proof -
  have torn: "\<not> lacks_newline (option_or file [])" using assms(2)
    by (auto simp: file_torn_def option_or_def lacks_newline_def split: option.splits)
  obtain m where m: "lines_memory new_store (option_or file []) = Inr m" "store_wf H canon m" "es_globalLog m = log"
    using assms(1) by (auto simp: file_holds_def file_memory_def option_or_def lines_memory_end split: option.splits)
  obtain k where k: "k \<le> length new"
    "\<And>m. lines_memory m (take n (concat (map record_line new))) = Inr (index_all m (take k new))"
    by (rule torn_lines[OF assms(4), of n]) (rule that)
  have "log_ok H canon (log @ take k new)"
    using assms(3) log_ok_prefix[of H canon "log @ take k new" "drop k new"] by simp
  then show ?thesis
    using that[OF k(1)] index_all_wf[OF m(2)] m(1,3) k(2)
    by (simp add: file_holds_def file_memory_def lines_memory_append[OF torn])
qed

lemma write_whole:
  assumes "file_holds H canon file log" "\<not> file_torn file" "log_ok H canon (log @ new)"
    and "\<forall>e \<in> set new. record_ok e"
  shows "file_holds H canon (Some (option_or file [] @ concat (map record_line new))) (log @ new)"
    and "\<not> file_torn (Some (option_or file [] @ concat (map record_line new)))"
proof -
  have torn: "\<not> lacks_newline (option_or file [])" using assms(2)
    by (auto simp: file_torn_def option_or_def lacks_newline_def split: option.splits)
  obtain m where m: "lines_memory new_store (option_or file []) = Inr m" "store_wf H canon m" "es_globalLog m = log"
    using assms(1) by (auto simp: file_holds_def file_memory_def option_or_def lines_memory_end split: option.splits)
  show "file_holds H canon (Some (option_or file [] @ concat (map record_line new))) (log @ new)"
    using index_all_wf[OF m(2), of new] m(1,3) assms(3) record_lines_memory[OF assms(4), of _ "[]"]
    by (simp add: file_holds_def file_memory_def lines_memory_append[OF torn] lines_memory_end)
  show "\<not> file_torn (Some (option_or file [] @ concat (map record_line new)))"
    using torn by (cases new rule: rev_cases) (simp_all add: file_torn_def lacks_newline_def record_line_def)
qed

lemma write_newline: "file_holds H canon (Some content) log \<Longrightarrow> file_holds H canon (Some (content @ [newline])) log"
  by (simp add: file_holds_def file_memory_def lines_memory_repair)


subsection \<open>Instances and their file\<close>

definition known_size :: "jsonl_store \<Rightarrow> int" where
  "known_size j = option_or (jl_knownFileSize j) 0"

text \<open>The instance knows everything that is in the file.\<close>

definition in_step ::
  "hasher \<Rightarrow> (event_body content \<Rightarrow> string) \<Rightarrow> jsonl_store \<Rightarrow> string option \<Rightarrow> bool" where
  "in_step H canon j file \<longleftrightarrow>
     store_wf H canon (jl_memory j) \<and> file_holds H canon file (es_globalLog (jl_memory j))
     \<and> known_size j = file_size file \<and> (file = None \<longrightarrow> jl_knownFileSize j = None)
     \<and> (jl_needsTrailingNewline j \<longleftrightarrow> file_torn file)"

text \<open>Or else it can see from the size that the file has moved on.\<close>

definition instance_ok ::
  "hasher \<Rightarrow> (event_body content \<Rightarrow> string) \<Rightarrow> jsonl_store \<Rightarrow> string option \<Rightarrow> bool" where
  "instance_ok H canon j file \<longleftrightarrow> in_step H canon j file \<or> known_size j < file_size file"

definition grown :: "string option \<Rightarrow> string option \<Rightarrow> bool" where
  "grown file file' \<longleftrightarrow>
     file' = file \<or> (file = None \<and> file' = Some []) \<or> file_size file < file_size file'"

lemma grown_trans: "grown a b \<Longrightarrow> grown b c \<Longrightarrow> grown a c"
  by (auto simp: grown_def file_size_def byte_length_def utf8_def)

lemma instance_grown:
  assumes "instance_ok H canon j file" "grown file file'"
  shows "instance_ok H canon j file'"
proof -
  consider "file' = file" | "file = None" "file' = Some []" | "file_size file < file_size file'"
    using assms(2) by (auto simp: grown_def)
  then show ?thesis
  proof cases
    case 2
    then show ?thesis using assms(1)
      by (auto simp: instance_ok_def in_step_def file_holds_none file_holds_empty file_size_def file_torn_def
          lacks_newline_def byte_length_def utf8_def)
  qed (use assms(1) in \<open>auto simp: instance_ok_def in_step_def\<close>)
qed

lemma write_grown: "writeAndSync file data fault = (r, file') \<Longrightarrow> grown file file'"
proof -
  have "grown file (Some (option_or file [] @ d))" for d
    using byte_length_pos(2)[of d]
    by (cases "d = []") (auto simp: grown_def file_size_def option_or_def byte_length_append byte_length_pos
        split: option.split)
  then show "writeAndSync file data fault = (r, file') \<Longrightarrow> grown file file'"
    by (cases fault) (auto simp: writeAndSync_def Let_def grown_def)
qed

lemma detect_in_step: "in_step H canon j file \<Longrightarrow> detectExternalAdvance j file = Inr ()"
  by (auto simp: detectExternalAdvance_def in_step_def known_size_def file_size_def throw_when_Inr split: option.splits)

lemma detect_behind:
  "known_size j < file_size file \<Longrightarrow> detectExternalAdvance j file = Inl (EventStoreError E_CONCURRENCY_CONFLICT)"
  by (auto simp: detectExternalAdvance_def known_size_def file_size_def throw_when_def byte_length_pos option_or_def
      split: option.splits)

lemma ensure_stream_of [simp]: "stream_of (jl_memory (ensure_stream j i)) x = stream_of (jl_memory j) x"
  by (auto simp: ensure_stream_def stream_of_def jm_has_def)

lemma ensure_stream_fields [simp]:
  "es_globalLog (jl_memory (ensure_stream j i)) = es_globalLog (jl_memory j)"
  "es_nextGlobalPosition (jl_memory (ensure_stream j i)) = es_nextGlobalPosition (jl_memory j)"
  "es_lastHash (jl_memory (ensure_stream j i)) = es_lastHash (jl_memory j)"
  "jl_knownFileSize (ensure_stream j i) = jl_knownFileSize j"
  "jl_needsTrailingNewline (ensure_stream j i) = jl_needsTrailingNewline j"
  "streamVersion (jl_memory (ensure_stream j i)) x = streamVersion (jl_memory j) x"
  by (simp_all add: streamVersion_def) (simp_all add: ensure_stream_def)

lemma ensure_stream_step [simp]: "in_step H canon (ensure_stream j i) file \<longleftrightarrow> in_step H canon j file"
  by (simp add: in_step_def known_size_def store_wf_log)

lemma append_event_ensured:
  "append_event H canon i now (jl_memory (ensure_stream j i), st) x = append_event H canon i now (jl_memory j, st) x"
proof (cases "jm_has (es_streams (jl_memory j)) i")
  case False
  then have "stream_of (jl_memory j) i = []" by (simp add: stream_of_def jm_has_def)
  then show ?thesis using False
    by (simp add: append_event_def ensure_stream_def stream_of_def AList.update_last)
qed (simp add: ensure_stream_def)

lemma append_events_ensured:
  "events \<noteq> [] \<Longrightarrow> foldl (append_event H canon i now) (jl_memory (ensure_stream j i), []) events =
     foldl (append_event H canon i now) (jl_memory j, []) events"
  by (cases events) (simp_all add: append_event_ensured)

lemma repair_step:
  assumes "in_step H canon j file" "repair_newline j file fault = (r, j', file')"
  shows "jl_memory j' = jl_memory j" "file_holds H canon file' (es_globalLog (jl_memory j))"
    "instance_ok H canon j' file'" "grown file file'" "r = Inr u \<Longrightarrow> in_step H canon j' file' \<and> \<not> file_torn file'"
proof -
  have holds: "file_holds H canon file (es_globalLog (jl_memory j))" using assms(1) by (simp add: in_step_def)
  show "jl_memory j' = jl_memory j"
    using assms(2) by (auto simp: repair_newline_def split: if_splits prod.splits sum.splits)
  have "file_holds H canon file' (es_globalLog (jl_memory j)) \<and> instance_ok H canon j' file' \<and> grown file file'
    \<and> (r = Inr u \<longrightarrow> in_step H canon j' file' \<and> \<not> file_torn file')"
  proof (cases "jl_needsTrailingNewline j")
    case False
    then show ?thesis using assms holds
      by (auto simp: repair_newline_def instance_ok_def in_step_def grown_def)
  next
    case True
    then obtain c where c: "file = Some c" "lacks_newline c"
      using assms(1) by (auto simp: in_step_def file_torn_def split: option.splits)
    have one: "byte_length [newline] = 1" by (simp add: byte_length_def utf8_def utf8_char_def newline_def)
    have known: "jl_knownFileSize j = Some (byte_length c)"
      using assms(1) c byte_length_pos(2)[of c]
      by (cases "jl_knownFileSize j") (auto simp: in_step_def known_size_def file_size_def option_or_def lacks_newline_def)
    have longer: "file_holds H canon (Some (c @ [newline])) (es_globalLog (jl_memory j))"
      using write_newline holds unfolding c(1) .
    have bigger: "instance_ok H canon j (Some (c @ [newline]))" "grown file (Some (c @ [newline]))"
      by (simp_all add: instance_ok_def grown_def c(1) file_size_def byte_length_append one known known_size_def option_or_def)
    show ?thesis
    proof (cases fault)
      case No_fault
      then have new: "r = Inr ()" "file' = Some (c @ [newline])"
        "j' = j\<lparr>jl_knownFileSize := Some (byte_length c + 1), jl_needsTrailingNewline := False\<rparr>"
        using assms(2) True by (auto simp: repair_newline_def writeAndSync_def c(1) option_or_def one known)
      then have "in_step H canon j' file'"
        using assms(1) longer
        by (simp add: in_step_def known_size_def file_size_def option_or_def byte_length_append one file_torn_def lacks_newline_def)
      then show ?thesis using new longer bigger(2)
        by (simp add: instance_ok_def file_torn_def lacks_newline_def)
    next
      case Open_fails
      then show ?thesis using assms True holds
        by (auto simp: repair_newline_def writeAndSync_def instance_ok_def grown_def)
    next
      case (Cut_after n)
      then have new: "r = Inl PlainError" "j' = j" "file' = Some (c @ take n [newline])"
        using assms(2) True by (auto simp: repair_newline_def writeAndSync_def c(1) option_or_def)
      then show ?thesis using longer bigger holds assms(1) c(1)
        by (cases n) (simp_all add: instance_ok_def grown_def)
    qed
  qed
  then show "file_holds H canon file' (es_globalLog (jl_memory j))" "instance_ok H canon j' file'"
    "grown file file'" "r = Inr u \<Longrightarrow> in_step H canon j' file' \<and> \<not> file_torn file'" by blast+
qed


lemma write_step:
  assumes "in_step H canon j file" "\<not> file_torn file" "store_wf H canon m"
    "es_globalLog m = es_globalLog (jl_memory j) @ new" "\<forall>e \<in> set new. record_ok e"
    "writeAndSync file (concat (map record_line new)) fault = (r, file')"
  obtains k where "k \<le> length new" "file_holds H canon file' (es_globalLog (jl_memory j) @ take k new)"
    "instance_ok H canon j file' \<or> (\<exists>bytes. r = Inr bytes)"
    "\<And>bytes. r = Inr bytes \<Longrightarrow> k = length new \<and> in_step H canon (commit j m bytes) file'"
proof -
  have holds: "file_holds H canon file (es_globalLog (jl_memory j))" using assms(1) by (simp add: in_step_def)
  have ok: "log_ok H canon (es_globalLog (jl_memory j) @ new)" using assms(3,4) by (simp add: store_wf_log)
  show thesis
  proof (cases fault)
    case No_fault
    let ?c = "option_or file [] @ concat (map record_line new)"
    have new: "r = Inr (byte_length (concat (map record_line new)))" "file' = Some ?c"
      using assms(6) No_fault by (simp_all add: writeAndSync_def)
    note whole = write_whole[OF holds assms(2) ok assms(5)]
    have "known_size j = byte_length (option_or file [])"
      using assms(1) by (auto simp: in_step_def file_size_def option_or_def split: option.split)
    then have "in_step H canon (commit j m (byte_length (concat (map record_line new)))) file'"
      using assms(1,2,3,4) whole new(2)
      by (auto simp: in_step_def commit_def known_size_def[of "jl_knownFileSize_update _ _"] file_size_def
          byte_length_append option_or_def[of "Some _"] simp flip: known_size_def)
    then show ?thesis using that[of "length new"] new whole(1) by simp
  next
    case Open_fails
    then show ?thesis using that[of 0] assms(1,6) holds by (auto simp: writeAndSync_def instance_ok_def)
  next
    case (Cut_after n)
    then have new: "r = Inl PlainError" "file' = Some (option_or file [] @ take n (concat (map record_line new)))"
      using assms(6) by (simp_all add: writeAndSync_def)
    obtain k where k: "k \<le> length new"
      "file_holds H canon (Some (option_or file [] @ take n (concat (map record_line new)))) (es_globalLog (jl_memory j) @ take k new)"
      by (rule write_torn[OF holds assms(2) ok assms(5), of n])
    have "instance_ok H canon j file'"
      using instance_grown[OF _ write_grown[OF assms(6)]] assms(1) by (simp add: instance_ok_def)
    then show ?thesis using that[OF k(1)] k(2) new by simp
  qed
qed


lemma appended_records_ok:
  assumes "store_wf H canon s" "foldl (append_event H canon i now) (s, []) events = (m, stored)"
    "\<forall>b \<in> set events. body_ok b"
  shows "map sv_event stored = events" "es_globalLog m = es_globalLog s @ stored" "store_wf H canon m"
    "\<forall>e \<in> set stored. record_ok e"
proof -
  show new: "map sv_event stored = events" "es_globalLog m = es_globalLog s @ stored" "store_wf H canon m"
    using append_events[OF assms(2)] assms(1) by auto
  have "fully_hashed (es_globalLog m)" using new(3) by (intro log_ok_hashed[of H canon]) (simp add: store_wf_log)
  then show "\<forall>e \<in> set stored. record_ok e"
    using assms(3) by (auto simp: record_ok_def fully_hashed_def new(2) simp flip: new(1))
qed

definition no_faults :: "append_env \<Rightarrow> bool" where
  "no_faults env \<longleftrightarrow> ae_repairFault env = No_fault \<and> ae_writeFault env = No_fault"

lemma append_locked_effect:
  assumes "in_step H canon j file" "\<forall>b \<in> set events. body_ok b"
    "foldl (append_event H canon i (ae_now env)) (jl_memory j, []) events = (m, stored)"
    "append_locked H canon j file i events env = (r, j', file', calls)"
  obtains k where "file_holds H canon file' (es_globalLog (jl_memory j) @ take k stored)"
    "instance_ok H canon j' file'" "grown file file'" "no_faults env \<Longrightarrow> \<exists>a. r = Inr a"
    "\<And>a. r = Inr a \<Longrightarrow> k = length stored \<and> in_step H canon j' file' \<and> jl_memory j' = m
      \<and> calls = dispatch_calls m i stored
      \<and> a = \<lparr>sr_streamId = i, sr_fromVersion = streamVersion (jl_memory j) i + 1,
          sr_toVersion = streamVersion (jl_memory j) i + 1 + int (length events) - 1, sr_count = int (length events)\<rparr>"
proof -
  have wf: "store_wf H canon (jl_memory j)" using assms(1) by (simp add: in_step_def)
  note new = appended_records_ok[OF wf assms(3,2)]
  obtain r1 j1 f1 where rep: "repair_newline j file (ae_repairFault env) = (r1, j1, f1)" by (cases "repair_newline j file (ae_repairFault env)")
  note fixed = repair_step[OF assms(1) rep]
  note run = assms(4)[unfolded append_locked_def detect_in_step[OF assms(1)] assms(3) rep Let_def]
  show thesis
  proof (cases r1)
    case (Inl e)
    then have "r1 \<noteq> Inr ()" "ae_repairFault env \<noteq> No_fault"
      using rep by (auto simp: repair_newline_def writeAndSync_def split: if_splits)
    then show thesis using that[of 0] fixed run Inl by (auto simp: no_faults_def)
  next
    case (Inr u)
    then have mid: "in_step H canon j1 f1" "\<not> file_torn f1" using fixed(5)[of u] by simp_all
    obtain r2 f2 where w: "writeAndSync f1 (concat (map record_line stored)) (ae_writeFault env) = (r2, f2)" by fastforce
    have "es_globalLog m = es_globalLog (jl_memory j1) @ stored" using new(2) fixed(1) by simp
    note written = write_step[OF mid new(3) this new(4) w]
    have g: "grown file f2" by (rule grown_trans[OF fixed(4) write_grown[OF w]])
    show thesis
    proof (cases r2)
      case (Inl e)
      then have "ae_writeFault env \<noteq> No_fault" using w by (auto simp: writeAndSync_def)
      moreover obtain k where "file_holds H canon f2 (es_globalLog (jl_memory j) @ take k stored)" "instance_ok H canon j1 f2"
        by (rule written) (use Inl fixed(1) in auto)
      ultimately show thesis using that[of k] run Inr Inl w g by (auto simp: no_faults_def)
    next
      case bytes: (Inr bytes)
      have "file_holds H canon f2 (es_globalLog (jl_memory j) @ stored)" "in_step H canon (commit j1 m bytes) f2"
        by (rule written; use bytes fixed(1) in simp)+
      then show thesis using that[of "length stored"] run Inr bytes w g
        by (auto simp: instance_ok_def commit_def)
    qed
  qed
qed

lemma file_holds_unique: "file_holds H canon file a \<Longrightarrow> file_holds H canon file b \<Longrightarrow> a = b"
  by (auto simp: file_holds_def)

lemma ensure_stream_ok [simp]: "instance_ok H canon (ensure_stream j i) file \<longleftrightarrow> instance_ok H canon j file"
  by (simp add: instance_ok_def known_size_def)

text \<open>What one append can do to an instance and its file, whatever fails.\<close>

lemma append_effect:
  assumes "instance_ok H canon j file" "file_holds H canon file log" "\<forall>b \<in> set events. body_ok b"
    "jsonl_append H canon j file i events ev env = (r, j', file', calls)"
  shows "\<exists>es k. file_holds H canon file' (log @ es) \<and> map sv_event es = take k events \<and>
    instance_ok H canon j' file' \<and> grown file file' \<and>
    (\<forall>a. r = Inr a \<longrightarrow> log = es_globalLog (jl_memory j) \<and> map sv_event es = events)"
proof (cases "\<exists>e. r = Inl e \<and> file' = file \<and> (j' = j \<or> j' = ensure_stream j i)")
  case True
  then show ?thesis using assms(1,2) by (intro exI[of _ "[]"] exI[of _ 0]) (auto simp: grown_def)
next
  case False
  then have locked: "append_locked H canon (ensure_stream j i) file i events env = (r, j', file', calls)"
    using assms(4) by (auto simp: jsonl_append_def Let_def split: sum.splits)
  have "\<not> known_size (ensure_stream j i) < file_size file"
    using False locked detect_behind[of "ensure_stream j i" "file"] by (auto simp: append_locked_def)
  then have step: "in_step H canon (ensure_stream j i) file" using assms(1) by (auto simp: instance_ok_def known_size_def)
  have log: "log = es_globalLog (jl_memory j)"
    using step assms(2) file_holds_unique by (fastforce simp: in_step_def)
  obtain m stored where f: "foldl (append_event H canon i (ae_now env)) (jl_memory (ensure_stream j i), []) events = (m, stored)"
    by fastforce
  have "store_wf H canon (jl_memory (ensure_stream j i))" using step by (simp add: in_step_def)
  then have all: "map sv_event stored = events" by (rule appended_records_ok(1)[OF _ f assms(3)])
  then have "map sv_event (take k stored) = take k events" for k by (simp flip: take_map)
  moreover obtain k where "file_holds H canon file' (log @ take k stored)" "instance_ok H canon j' file'" "grown file file'"
    "\<And>a. r = Inr a \<Longrightarrow> k = length stored"
    by (rule append_locked_effect[OF step assms(3) f locked]) (use log in auto)
  ultimately show ?thesis using log all by (intro exI[of _ "take k stored"] exI[of _ k]) auto
qed

subsection \<open>Opening\<close>

lemma open_in_step:
  assumes "file_holds H canon file log" "jo_maxLoadBytes opts = None"
  obtains j where "jsonl_open H canon opts file = Inr j" "in_step H canon j file" "es_globalLog (jl_memory j) = log"
proof -
  obtain m where m: "file_memory file = Inr m" "store_wf H canon m" "es_globalLog m = log"
    using assms(1) by (auto simp: file_holds_def)
  have valid: "ir_valid (verifyHashChain H canon log)" using m(2,3) by (auto simp: store_wf_log intro: log_ok_valid)
  have "\<exists>j. loadFromFile opts file = Inr j \<and> jl_memory j = m \<and> jl_knownFileSize j = map_option byte_length file \<and>
      jl_needsTrailingNewline j = file_torn file"
  proof (cases "file")
    case None
    then show ?thesis using m(1) by (simp add: loadFromFile_def file_memory_def file_torn_def)
  next
    case (Some content)
    obtain k skips where "foldE load_step (0, [], new_store) (js_split newline content) =
        bind_r (foldE line_memory new_store (js_split newline content)) (\<lambda>m'. Inr (k, skips, m'))"
      using load_steps by blast
    then show ?thesis using m(1) Some assms(2)
      by (simp add: loadFromFile_def file_memory_def lines_memory_def file_torn_def throw_when_def)
  qed
  then obtain j where j: "loadFromFile opts file = Inr j" "jl_memory j = m"
    "jl_knownFileSize j = map_option byte_length file" "jl_needsTrailingNewline j = file_torn file" by blast
  have "jsonl_open H canon opts file = Inr j"
    using j(1,2) m(3) valid by (simp add: jsonl_open_def throw_when_def)
  moreover have "in_step H canon j file"
    using assms(1) j m(2,3) by (cases "file") (simp_all add: in_step_def known_size_def file_size_def option_or_def)
  ultimately show thesis using that j(2) m(3) by simp
qed


lemma open_unlimited:
  "jsonl_open H canon opts file = Inr j \<Longrightarrow> jsonl_open H canon (opts\<lparr>jo_maxLoadBytes := None\<rparr>) file = Inr j"
  by (auto simp: jsonl_open_def loadFromFile_def throw_when_def split: option.splits if_splits)

lemma open_result:
  assumes "file_holds H canon file log" "jsonl_open H canon opts file = Inr j"
  shows "in_step H canon j file \<and> es_globalLog (jl_memory j) = log"
proof -
  have "jo_maxLoadBytes (opts\<lparr>jo_maxLoadBytes := None\<rparr>) = None" by simp
  with assms(1) obtain j' where "jsonl_open H canon (opts\<lparr>jo_maxLoadBytes := None\<rparr>) file = Inr j'"
    "in_step H canon j' file" "es_globalLog (jl_memory j') = log" by (rule open_in_step)
  then show ?thesis using open_unlimited[OF assms(2)] by simp
qed

subsection \<open>Several instances on one file\<close>

definition same_records :: "event_body event_store \<Rightarrow> event_body event_store \<Rightarrow> bool" where
  "same_records a b \<longleftrightarrow> es_globalLog a = es_globalLog b \<and> es_streams a = es_streams b
     \<and> es_nextGlobalPosition a = es_nextGlobalPosition b \<and> es_lastHash a = es_lastHash b"

lemma subscriptions_same_records:
  "same_records (jl_memory (snd (jsonl_subscribe j i h))) (jl_memory j)"
  "same_records (jl_memory (snd (jsonl_subscribeAll j h))) (jl_memory j)"
  "same_records (jl_memory (jsonl_unsubscribe j sub)) (jl_memory j)"
  by (auto simp: same_records_def jsonl_subscribe_def jsonl_subscribeAll_def jsonl_unsubscribe_def on_memory_def
      subscribe_def subscribeAll_def unsubscribe_def Let_def split: sum.split option.split prod.split)

lemma subscriptions_cursor:
  "jl_knownFileSize (snd (jsonl_subscribe j i h)) = jl_knownFileSize j"
  "jl_knownFileSize (snd (jsonl_subscribeAll j h)) = jl_knownFileSize j"
  "jl_knownFileSize (jsonl_unsubscribe j sub) = jl_knownFileSize j"
  "jl_needsTrailingNewline (snd (jsonl_subscribe j i h)) = jl_needsTrailingNewline j"
  "jl_needsTrailingNewline (snd (jsonl_subscribeAll j h)) = jl_needsTrailingNewline j"
  "jl_needsTrailingNewline (jsonl_unsubscribe j sub) = jl_needsTrailingNewline j"
  by (simp_all add: jsonl_subscribe_def jsonl_subscribeAll_def jsonl_unsubscribe_def on_memory_def split: prod.split)

lemma same_records_wf: "same_records a b \<Longrightarrow> store_wf H canon a \<longleftrightarrow> store_wf H canon b"
  by (simp add: same_records_def store_wf_log stream_of_def)

lemma same_records_ok:
  assumes "same_records (jl_memory j') (jl_memory j)" "jl_knownFileSize j' = jl_knownFileSize j"
    "jl_needsTrailingNewline j' = jl_needsTrailingNewline j"
  shows "instance_ok H canon j' file \<longleftrightarrow> instance_ok H canon j file"
  using assms same_records_wf[OF assms(1), of H canon]
  by (simp add: instance_ok_def in_step_def known_size_def same_records_def)

lemmas subscriptions_ok =
  same_records_ok[OF subscriptions_same_records(1) subscriptions_cursor(1,4)]
  same_records_ok[OF subscriptions_same_records(2) subscriptions_cursor(2,5)]
  same_records_ok[OF subscriptions_same_records(3) subscriptions_cursor(3,6)]

text \<open>The instances (one per process) share the file. A step opens the store, appends with whatever
  fault, changes subscriptions, or ends a process. An append that fails its lock does not touch the
  file; one that gets the lock runs alone, which is what \<open>Lockfile\<close> is about.\<close>

inductive system_reachable ::
  "hasher \<Rightarrow> (event_body content \<Rightarrow> string) \<Rightarrow> string option \<Rightarrow> (nat \<Rightarrow> jsonl_store option) \<Rightarrow> bool"
  for H canon where
  sys_start: "system_reachable H canon None (\<lambda>_. None)"
| sys_open: "system_reachable H canon file insts \<Longrightarrow> jsonl_open H canon opts file = Inr j \<Longrightarrow>
    system_reachable H canon file (insts(p := Some j))"
| sys_append: "system_reachable H canon file insts \<Longrightarrow> insts p = Some j \<Longrightarrow> \<forall>b \<in> set events. body_ok b \<Longrightarrow>
    jsonl_append H canon j file i events ev env = (r, j', file', calls) \<Longrightarrow>
    system_reachable H canon file' (insts(p := Some j'))"
| sys_subscribe: "system_reachable H canon file insts \<Longrightarrow> insts p = Some j \<Longrightarrow>
    system_reachable H canon file (insts(p := Some (snd (jsonl_subscribe j i h))))"
| sys_subscribeAll: "system_reachable H canon file insts \<Longrightarrow> insts p = Some j \<Longrightarrow>
    system_reachable H canon file (insts(p := Some (snd (jsonl_subscribeAll j h))))"
| sys_unsubscribe: "system_reachable H canon file insts \<Longrightarrow> insts p = Some j \<Longrightarrow>
    system_reachable H canon file (insts(p := Some (jsonl_unsubscribe j sub)))"
| sys_exit: "system_reachable H canon file insts \<Longrightarrow> system_reachable H canon file (insts(p := None))"

lemma system_ok:
  "system_reachable H canon file insts \<Longrightarrow>
    (\<exists>log. file_holds H canon file log) \<and> (\<forall>p j. insts p = Some j \<longrightarrow> instance_ok H canon j file)"
proof (induction rule: system_reachable.induct)
  case (sys_open "file" insts opts j p)
  then have "instance_ok H canon j file" using open_result by (fastforce simp: instance_ok_def)
  then show ?case using sys_open.IH by simp
next
  case (sys_append "file" insts p j events i ev env r j' file' calls)
  then obtain log where "file_holds H canon file log" "instance_ok H canon j file" by blast
  then obtain es where es: "file_holds H canon file' (log @ es)" "instance_ok H canon j' file'" "grown file file'"
    using append_effect[OF _ _ sys_append.hyps(3,4)] by blast
  then show ?case using sys_append.IH by (auto intro: instance_grown)
qed (auto simp: file_holds_none subscriptions_ok)

text \<open>However instances of the durable event store interleave on one file, as long as their appends come one at a time
  (each runs under the lock, and the lock excludes; \<open>SharedLog\<close> takes the lock's steps apart), whatever
  writes fail or are cut off and whichever processes end between appends, the file always opens with its integrity
  verified: the records in it have positions 1, 2, 3, ..., their hashes form one chain from the genesis
  hash, and each stream has the versions 1, 2, 3, ...\<close>

theorem history_never_forks:
  assumes "system_reachable H canon file insts"
  shows "\<exists>j. jsonl_open H canon \<lparr>jo_verifyOnLoad = Some True, jo_maxLoadBytes = None\<rparr> file = Inr j \<and>
    counted sv_globalPosition (es_globalLog (jl_memory j)) \<and>
    chain_ok H canon GENESIS_HASH (es_globalLog (jl_memory j)) \<and>
    (\<forall>i. counted sv_version (stream_of (jl_memory j) i))"
proof -
  obtain log where "file_holds H canon file log" using system_ok[OF assms] by blast
  moreover have "jo_maxLoadBytes \<lparr>jo_verifyOnLoad = Some True, jo_maxLoadBytes = None\<rparr> = None" by simp
  ultimately obtain j where j: "jsonl_open H canon \<lparr>jo_verifyOnLoad = Some True, jo_maxLoadBytes = None\<rparr> file = Inr j"
    "in_step H canon j file" by (rule open_in_step)
  then show ?thesis by (auto simp: in_step_def store_wf_def)
qed

text \<open>C6: An append of the durable store, whatever fails in it and wherever its write is cut off, leaves a
  file that opens to the history it had before, followed by a prefix of the appended events; when
  the append returned, by all of them.\<close>

theorem append_survives_crash:
  assumes "system_reachable H canon file insts" "insts p = Some j" "\<forall>b \<in> set events. body_ok b"
    "jsonl_append H canon j file i events ev env = (r, j', file', calls)"
    "jo_maxLoadBytes opts = None" "jsonl_open H canon opts file = Inr before"
  shows "\<exists>after es k. jsonl_open H canon opts file' = Inr after \<and>
    es_globalLog (jl_memory after) = es_globalLog (jl_memory before) @ es \<and>
    map sv_event es = take k events \<and> ((\<exists>a. r = Inr a) \<longrightarrow> map sv_event es = events)"
proof -
  obtain log where log: "file_holds H canon file log" "instance_ok H canon j file"
    using system_ok[OF assms(1)] assms(2) by blast
  obtain es k where es: "file_holds H canon file' (log @ es)" "map sv_event es = take k events"
    "\<forall>a. r = Inr a \<longrightarrow> map sv_event es = events"
    using append_effect[OF log(2,1) assms(3,4)] by blast
  have "es_globalLog (jl_memory before) = log" using open_result[OF log(1) assms(6)] by simp
  moreover obtain after where "jsonl_open H canon opts file' = Inr after" "es_globalLog (jl_memory after) = log @ es"
    using open_in_step[OF es(1) assms(5)] by blast
  ultimately show ?thesis using es by blast
qed

text \<open>A writer whose view of the file is out of date cannot append: when opening the file now gives
  another history than the one in its memory, append throws and leaves the file as it was.\<close>

theorem stale_writer_rejected:
  assumes "system_reachable H canon file insts" "insts p = Some j" "jsonl_open H canon opts file = Inr now"
    "es_globalLog (jl_memory now) \<noteq> es_globalLog (jl_memory j)"
  shows "\<exists>e j'. jsonl_append H canon j file i events ev env = (Inl e, j', file, [])"
proof -
  obtain log where log: "file_holds H canon file log" "instance_ok H canon j file"
    using system_ok[OF assms(1)] assms(2) by blast
  have "es_globalLog (jl_memory now) = log" using open_result[OF log(1) assms(3)] by simp
  then have "\<not> in_step H canon j file" using file_holds_unique[OF log(1)] assms(4) by (auto simp: in_step_def)
  then have "known_size (ensure_stream j i) < file_size file" using log(2) by (simp add: instance_ok_def known_size_def)
  from detect_behind[OF this] show ?thesis
    by (auto simp: jsonl_append_def append_locked_def Let_def split: sum.split)
qed


subsection \<open>Refinement of the in-memory store\<close>

text \<open>The abstraction: two stores answer every query alike when they are well-formed, hold the same log
  and register no stream without records.\<close>

definition no_empty_stream :: "event_body event_store \<Rightarrow> bool" where
  "no_empty_stream m \<longleftrightarrow> (\<forall>i. jm_get (es_streams m) i \<noteq> Some [])"

definition same_store ::
  "hasher \<Rightarrow> (event_body content \<Rightarrow> string) \<Rightarrow> event_body event_store \<Rightarrow> event_body event_store \<Rightarrow> bool" where
  "same_store H canon a b \<longleftrightarrow> store_wf H canon a \<and> store_wf H canon b \<and> no_empty_stream a \<and> no_empty_stream b
     \<and> es_globalLog a = es_globalLog b"

lemma same_store_streams:
  assumes "same_store H canon a b"
  shows "jm_get (es_streams a) i = jm_get (es_streams b) i" "stream_of a i = stream_of b i"
proof -
  have get: "jm_get (es_streams m) i = (if stream_of m i = [] then None else Some (stream_of m i))"
    if "no_empty_stream m" for m
    using that by (auto simp: no_empty_stream_def stream_of_def split: option.splits)
  show "stream_of a i = stream_of b i" using assms by (simp add: same_store_def store_wf_log)
  then show "jm_get (es_streams a) i = jm_get (es_streams b) i" using get assms by (simp add: same_store_def)
qed

lemma same_store_queries:
  assumes "same_store H canon a b"
  shows "store_read a i opts = store_read b i opts" "store_readAll a opts = store_readAll b opts"
    "streamExists a i = streamExists b i" "streamVersion a i = streamVersion b i"
    "globalPosition a = globalPosition b" "verifyIntegrity H canon a = verifyIntegrity H canon b"
proof -
  have logs: "es_globalLog a = es_globalLog b" "es_nextGlobalPosition a = es_nextGlobalPosition b"
    using assms by (simp_all add: same_store_def store_wf_log)
  show "store_read a i opts = store_read b i opts" "store_readAll a opts = store_readAll b opts"
    "streamExists a i = streamExists b i" "streamVersion a i = streamVersion b i"
    "globalPosition a = globalPosition b" "verifyIntegrity H canon a = verifyIntegrity H canon b"
    unfolding store_read_def store_readAll_def streamExists_def streamVersion_def globalPosition_def
      verifyIntegrity_def logs same_store_streams[OF assms] by (rule refl)+
qed

lemma append_event_nonempty:
  "no_empty_stream m \<Longrightarrow> no_empty_stream (fst (append_event H canon i now (m, st) x))"
  by (simp add: append_event_def no_empty_stream_def Let_def)

lemma append_events_nonempty:
  "no_empty_stream m \<Longrightarrow> no_empty_stream (fst (foldl (append_event H canon i now) (m, st) events))"
proof (induction events arbitrary: m st)
  case (Cons x events)
  obtain m' st' where e: "append_event H canon i now (m, st) x = (m', st')" by fastforce
  then have "no_empty_stream m'" using append_event_nonempty[OF Cons.prems] by (metis fst_conv)
  then show ?case using Cons.IH e by simp
qed simp

lemma append_events_same:
  assumes "same_store H canon a b"
  shows "snd (foldl (append_event H canon i now) (a, st) events) = snd (foldl (append_event H canon i now) (b, st) events) \<and>
    same_store H canon (fst (foldl (append_event H canon i now) (a, st) events))
      (fst (foldl (append_event H canon i now) (b, st) events))"
  using assms
proof (induction events arbitrary: a b st)
  case (Cons x events)
  obtain a' ea where a: "append_event H canon i now (a, st) x = (a', ea)" by fastforce
  obtain b' eb where b: "append_event H canon i now (b, st) x = (b', eb)" by fastforce
  have cursor: "es_nextGlobalPosition a = es_nextGlobalPosition b" "es_lastHash a = es_lastHash b"
    using Cons.prems by (simp_all add: same_store_def store_wf_log)
  have new: "ea = eb" "es_globalLog a' = es_globalLog b'"
    using a b cursor same_store_streams(2)[OF Cons.prems] Cons.prems
    by (auto simp: append_event_def Let_def same_store_def)
  have wf: "store_wf H canon m'" if "append_event H canon i now (m, st) x = (m', e)" "store_wf H canon m" for m m' e
  proof -
    have "foldl (append_event H canon i now) (m, st) [x] = (m', e)" using that(1) by simp
    from append_events[OF this] that(2) show ?thesis by (elim exE) simp
  qed
  have "same_store H canon a' b'"
    using new(2) wf[OF a] wf[OF b] Cons.prems append_event_nonempty[of a H canon i now st x]
      append_event_nonempty[of b H canon i now st x] by (simp add: same_store_def a b)
  then show ?case using Cons.IH[of a' b' eb] a b new(1) by simp
qed simp

lemma store_append_same:
  assumes "same_store H canon a b"
    "store_append H canon a i events ev now = (r, a', calls)" "store_append H canon b i events ev now = (r', b', calls')"
  shows "r = r' \<and> same_store H canon a' b'"
proof -
  have v: "length (stream_of a i) = length (stream_of b i)" using same_store_streams(2)[OF assms(1)] by simp
  obtain fa sa fb sb where f: "foldl (append_event H canon i now) (a, []) events = (fa, sa)"
    "foldl (append_event H canon i now) (b, []) events = (fb, sb)" by (metis surj_pair)
  with append_events_same[OF assms(1), of i now "[]" events] have "same_store H canon fa fb" by simp
  then show ?thesis using assms(2,3) assms(1)
    by (auto simp: store_append_def v f Let_def split: sum.splits)
qed

lemma new_store_same: "same_store H canon new_store new_store"
  by (simp add: same_store_def store_wf_def no_empty_stream_def new_store_def stream_of_def)

lemma index_all_nonempty: "no_empty_stream m \<Longrightarrow> no_empty_stream (index_all m es)"
proof (induction es arbitrary: m)
  case (Cons e es)
  have "no_empty_stream (index_record m e (sv_hash e))"
    using Cons.prems by (simp add: no_empty_stream_def index_record_def)
  then show ?case using Cons.IH by (simp add: index_all_def)
qed (simp add: index_all_def)

text \<open>Loading registers streams only together with their records.\<close>

lemma load_line_nonempty:
  "line_memory m line = Inr m' \<Longrightarrow> no_empty_stream m \<Longrightarrow> no_empty_stream m'"
  by (auto simp: line_memory_def load_line_def Let_def no_empty_stream_def index_record_def
      split: if_splits option.splits)

lemma open_nonempty:
  assumes "jsonl_open H canon opts file = Inr j"
  shows "no_empty_stream (jl_memory j)"
proof -
  have fold: "no_empty_stream m'" if "foldE line_memory m ls = Inr m'" "no_empty_stream m" for m m' ls
    using that
  proof (induction ls arbitrary: m)
    case (Cons l ls)
    then obtain m1 where "line_memory m l = Inr m1" "foldE line_memory m1 ls = Inr m'"
      by (cases "line_memory m l") auto
    then show ?case using Cons load_line_nonempty by blast
  qed simp
  have new: "no_empty_stream new_store" by (simp add: no_empty_stream_def new_store_def)
  have load: "loadFromFile opts file = Inr j"
    using assms by (cases "loadFromFile opts file") (auto simp: jsonl_open_def throw_when_def split: if_splits)
  show ?thesis
  proof (cases "file")
    case None
    then show ?thesis using load new by (auto simp: loadFromFile_def)
  next
    case (Some content)
    obtain k skips where "foldE load_step (0, [], new_store) (js_split newline content) =
        bind_r (foldE line_memory new_store (js_split newline content)) (\<lambda>m'. Inr (k, skips, m'))"
      using load_steps by blast
    then have "foldE line_memory new_store (js_split newline content) = Inr (jl_memory j)"
      using load Some by (cases "foldE line_memory new_store (js_split newline content)")
        (auto simp: loadFromFile_def throw_when_def split: if_splits)
    then show ?thesis using fold new by blast
  qed
qed

text \<open>One process that appends without faults and opens the store again at will, beside an
  in-memory store with the same appends.\<close>

inductive durable_run ::
  "hasher \<Rightarrow> (event_body content \<Rightarrow> string) \<Rightarrow> jsonl_store \<Rightarrow> string option \<Rightarrow> event_body event_store \<Rightarrow> bool"
  for H canon where
  run_start: "jsonl_open H canon opts None = Inr j \<Longrightarrow> durable_run H canon j None new_store"
| run_append: "durable_run H canon j file m \<Longrightarrow> \<forall>b \<in> set events. body_ok b \<Longrightarrow> ae_lock env = Inr () \<Longrightarrow> no_faults env \<Longrightarrow>
    jsonl_append H canon j file i events ev env = (r, j', file', calls) \<Longrightarrow>
    store_append H canon m i events ev (ae_now env) = (r', m', calls') \<Longrightarrow> durable_run H canon j' file' m'"
| run_reopen: "durable_run H canon j file m \<Longrightarrow> jsonl_open H canon opts file = Inr j' \<Longrightarrow> durable_run H canon j' file m"

text \<open>An append without faults is the append of the in-memory store.\<close>

lemma append_on_memory:
  assumes "in_step H canon j file" "no_empty_stream (jl_memory j)" "\<forall>b \<in> set events. body_ok b"
    "ae_lock env = Inr ()" "no_faults env" "jsonl_append H canon j file i events ev env = (r, j', file', calls)"
  shows "store_append H canon (jl_memory j) i events ev (ae_now env) = (r, jl_memory j', calls) \<and>
    in_step H canon j' file'"
proof (cases "bind_r (validateStreamId i) (\<lambda>_. bind_r (throw_when (events = []) (EventStoreError E_EMPTY_APPEND)) (\<lambda>_.
    check_expected ev (streamVersion (jl_memory j) i)))")
  case (Inl e)
  then show ?thesis using assms(1,6) unfolding jsonl_append_def store_append_def streamVersion_def by auto
next
  case (Inr u)
  then have some: "events \<noteq> []" by (auto simp: throw_when_def validateStreamId_def split: if_splits)
  note check = Inr[unfolded streamVersion_def]
  have step: "in_step H canon (ensure_stream j i) file" using assms(1) by simp
  obtain m stored where f: "foldl (append_event H canon i (ae_now env)) (jl_memory (ensure_stream j i), []) events = (m, stored)"
    by fastforce
  have locked: "append_locked H canon (ensure_stream j i) file i events env = (r, j', file', calls)"
    using assms(4,6) Inr by (simp add: jsonl_append_def Let_def)
  have "\<exists>a. r = Inr a" by (rule append_locked_effect[OF step assms(3) f locked]) (use assms(5) in blast)
  then obtain a where a: "r = Inr a" by blast
  have "in_step H canon j' file' \<and> jl_memory j' = m \<and> calls = dispatch_calls m i stored
      \<and> a = \<lparr>sr_streamId = i, sr_fromVersion = streamVersion (jl_memory j) i + 1,
          sr_toVersion = streamVersion (jl_memory j) i + 1 + int (length events) - 1, sr_count = int (length events)\<rparr>"
    by (rule append_locked_effect[OF step assms(3) f locked]) (use a in simp)
  then show ?thesis using a check f
    by (simp add: store_append_def append_events_ensured[OF some] streamVersion_def Let_def)
qed

lemma store_append_nonempty:
  "no_empty_stream m \<Longrightarrow> store_append H canon m i events ev now = (r, m', calls) \<Longrightarrow> no_empty_stream m'"
  using append_events_nonempty[of m H canon i now "[]" events]
  by (auto simp: store_append_def Let_def split: sum.splits prod.splits)

lemma durable_run_same:
  "durable_run H canon j file m \<Longrightarrow> in_step H canon j file \<and> same_store H canon (jl_memory j) m"
proof (induction rule: durable_run.induct)
  case (run_start opts j)
  have none: "file_holds H canon None []" by (simp add: file_holds_none)
  show ?case using open_result[OF none run_start] open_nonempty[OF run_start] new_store_same[of H canon]
    by (auto simp: same_store_def in_step_def new_store_def)
next
  case (run_append j "file" m events env i ev r j' file' calls r' m' calls')
  then have IH: "in_step H canon j file" "same_store H canon (jl_memory j) m" by simp_all
  have "no_empty_stream (jl_memory j)" using IH(2) by (simp add: same_store_def)
  from append_on_memory[OF IH(1) this run_append.hyps(2-5)]
  show ?case using store_append_same[OF IH(2) _ run_append.hyps(6)] by blast
next
  case (run_reopen j "file" m opts j')
  then have "file_holds H canon file (es_globalLog m)" by (auto simp: in_step_def same_store_def)
  from open_result[OF this run_reopen.hyps(2)] open_nonempty[OF run_reopen.hyps(2)] run_reopen.IH
  show ?case by (auto simp: same_store_def in_step_def)
qed

text \<open>C7: The durable event store refines the in-memory store: however one process appends and reopens its
  file, every query has the answer of an in-memory store with the same appends, and the next append has the same
  result or the same error.\<close>

theorem durable_refines_memory:
  assumes "durable_run H canon j file m"
  shows "jsonl_read j i opts = store_read m i opts \<and> jsonl_readAll j opts = store_readAll m opts \<and>
    jsonl_streamExists j i = streamExists m i \<and> jsonl_streamVersion j i = streamVersion m i \<and>
    jsonl_globalPosition j = globalPosition m \<and> jsonl_verifyIntegrity H canon j = verifyIntegrity H canon m \<and>
    (\<forall>events ev env. (\<forall>b \<in> set events. body_ok b) \<and> ae_lock env = Inr () \<and> no_faults env \<longrightarrow>
       fst (jsonl_append H canon j file i events ev env) = fst (store_append H canon m i events ev (ae_now env)))"
proof -
  have same: "in_step H canon j file" "same_store H canon (jl_memory j) m" using durable_run_same[OF assms] by simp_all
  have "fst (jsonl_append H canon j file i events ev env) = fst (store_append H canon m i events ev (ae_now env))"
    if "\<forall>b \<in> set events. body_ok b" "ae_lock env = Inr ()" "no_faults env" for events ev env
  proof -
    obtain r j' file' calls where a: "jsonl_append H canon j file i events ev env = (r, j', file', calls)" by (metis surj_pair)
    obtain r' m' calls' where b: "store_append H canon m i events ev (ae_now env) = (r', m', calls')" by (metis surj_pair)
    have "no_empty_stream (jl_memory j)" using same(2) by (simp add: same_store_def)
    from append_on_memory[OF same(1) this that a] store_append_same[OF same(2) _ b] show ?thesis by (simp add: a b)
  qed
  then show ?thesis using same_store_queries[OF same(2)]
    by (simp add: jsonl_read_def jsonl_readAll_def jsonl_streamExists_def jsonl_streamVersion_def
        jsonl_globalPosition_def jsonl_verifyIntegrity_def)
qed


text \<open>A line that is the JSON text \<^verbatim>\<open>null\<close>, or whose event is null, is not skipped: the store
  does not open.\<close>

theorem null_line_prevents_opening:
  assumes "file_holds H canon (Some content) log" "\<not> lacks_newline content" "jo_maxLoadBytes opts = None"
  shows "jsonl_open H canon opts (Some (content @ ''null'')) = Inl PlainError"
proof -
  obtain m where m: "lines_memory new_store content = Inr m"
    using assms(1) by (auto simp: file_holds_def file_memory_def)
  have "js_trim ''null'' = ''null''" "JSON_parse ''null'' = Some Js_null" by code_simp+
  then have "load_line m ''null'' = Inl PlainError" by (simp add: load_line_def)
  moreover have "newline \<notin> set ''null''" by (simp add: newline_def)
  ultimately have "lines_memory m ''null'' = Inl PlainError" by (simp add: lines_memory_end line_memory_def)
  then have bad: "foldE line_memory new_store (js_split newline (content @ ''null'')) = Inl PlainError"
    using lines_memory_append[OF assms(2), of new_store "''null''"] m by (simp add: lines_memory_def)
  obtain k skips where "foldE load_step (0, [], new_store) (js_split newline (content @ ''null'')) =
      bind_r (foldE line_memory new_store (js_split newline (content @ ''null''))) (\<lambda>m'. Inr (k, skips, m'))"
    using load_steps by blast
  then show ?thesis using bad assms(3) by (simp add: jsonl_open_def loadFromFile_def throw_when_def)
qed

subsection \<open>Witnesses\<close>

definition body_canon :: "event_body content \<Rightarrow> string" where
  "body_canon c = JSON_stringify (Js_arr [body_json (fst c), Js_str (fst (snd c)), Js_num (fst (snd (snd c))),
     Js_num (fst (snd (snd (snd c)))), Js_str (snd (snd (snd (snd c))))]) @ [CHR 0x7D]"

definition sample_body :: event_body where
  "sample_body = \<lparr>eb_type = Some (Js_str ''x''), eb_metadata = Some (Js_obj []), eb_payload = Some (Js_obj [(''n'', Js_num 1)])\<rparr>"

definition sample_options :: jsonl_options where
  "sample_options = \<lparr>jo_verifyOnLoad = None, jo_maxLoadBytes = None\<rparr>"

definition sample_env :: append_env where
  "sample_env = \<lparr>ae_lock = Inr (), ae_repairFault = No_fault, ae_writeFault = No_fault, ae_now = ''t''\<rparr>"

definition sample_jsonl :: jsonl_store where
  "sample_jsonl = (case jsonl_open sample_hash body_canon sample_options None of Inr j \<Rightarrow> j)"

definition sample_append :: jsonl_result where
  "sample_append = jsonl_append sample_hash body_canon sample_jsonl None ''s'' [sample_body, sample_body] None sample_env"

lemma sample_jsonl_open: "jsonl_open sample_hash body_canon sample_options None = Inr sample_jsonl"
  by (simp add: sample_jsonl_def jsonl_open_def loadFromFile_def throw_when_def verifyHashChain_def new_store_def)

lemma sample_body_ok: "\<forall>b \<in> set [sample_body, sample_body]. body_ok b"
  by (auto simp: body_ok_def sample_body_def listed_def array_index_def is_digit_def)

lemma sample_memory: "jl_memory sample_jsonl = new_store" "jl_knownFileSize sample_jsonl = None"
  by (simp_all add: sample_jsonl_def jsonl_open_def loadFromFile_def throw_when_def verifyHashChain_def new_store_def)

lemma sample_append_result:
  obtains a j "file" calls where "sample_append = (Inr a, j, file, calls)"
    "in_step sample_hash body_canon j file" "map sv_event (es_globalLog (jl_memory j)) = [sample_body, sample_body]"
proof -
  have step: "in_step sample_hash body_canon sample_jsonl None"
    using open_result[OF _ sample_jsonl_open, of "[]"] by (simp add: file_holds_none)
  obtain r j "file" calls where run: "sample_append = (r, j, file, calls)" by (metis surj_pair)
  have "no_empty_stream (jl_memory sample_jsonl)" by (rule open_nonempty[OF sample_jsonl_open])
  from append_on_memory[OF step this sample_body_ok _ _ run[unfolded sample_append_def]]
  have same: "store_append sample_hash body_canon new_store ''s'' [sample_body, sample_body] None ''t'' = (r, jl_memory j, calls)"
    "in_step sample_hash body_canon j file"
    by (simp_all add: sample_memory sample_env_def no_faults_def)
  have log: "es_globalLog (new_store :: event_body event_store) = []" by (simp add: new_store_def)
  obtain s' new where "store_append sample_hash body_canon new_store ''s'' [sample_body, sample_body] None ''t'' =
      (Inr \<lparr>sr_streamId = ''s'', sr_fromVersion = streamVersion (new_store :: event_body event_store) ''s'' + 1,
         sr_toVersion = streamVersion (new_store :: event_body event_store) ''s'' + int (length [sample_body, sample_body]),
         sr_count = int (length [sample_body, sample_body])\<rparr>, s', dispatch_calls (new_store :: event_body event_store) ''s'' new)"
    "map sv_event new = [sample_body, sample_body]" "es_globalLog s' = es_globalLog (new_store :: event_body event_store) @ new"
    by (rule store_append_ok[of "''s''" "[sample_body, sample_body]" None "new_store" sample_hash body_canon "''t''"])
      (simp_all add: check_expected_def)
  then show thesis using that[OF _ same(2)] run same(1) log by simp
qed

text \<open>Two processes open the empty file, the first one appends.\<close>

lemma sample_system:
  obtains a j "file" calls where "sample_append = (Inr a, j, file, calls)"
    "system_reachable sample_hash body_canon file ((\<lambda>_. None)(0 := Some j, 1 := Some sample_jsonl))"
    "map sv_event (es_globalLog (jl_memory j)) = [sample_body, sample_body]"
    "in_step sample_hash body_canon j file"
proof -
  obtain a j "file" calls where run: "sample_append = (Inr a, j, file, calls)"
    "in_step sample_hash body_canon j file" "map sv_event (es_globalLog (jl_memory j)) = [sample_body, sample_body]"
    by (rule sample_append_result)
  note opened = sys_open[OF sys_start sample_jsonl_open]
  have two: "system_reachable sample_hash body_canon None ((\<lambda>_. None)(0 := Some sample_jsonl, 1 := Some sample_jsonl))"
    using sys_open[OF opened sample_jsonl_open, of 0 1] .
  have "system_reachable sample_hash body_canon file
      (((\<lambda>_. None)(0 := Some sample_jsonl, 1 := Some sample_jsonl))(0 := Some j))"
    by (rule sys_append[OF two _ sample_body_ok run(1)[unfolded sample_append_def]]) simp
  then have "system_reachable sample_hash body_canon file ((\<lambda>_. None)(0 := Some j, 1 := Some sample_jsonl))"
    by (simp add: fun_upd_twist)
  then show thesis using that[OF run(1)] run(2,3) by simp
qed

theorem history_never_forks_witness:
  "\<exists>file insts j. system_reachable sample_hash body_canon file insts \<and>
     jsonl_open sample_hash body_canon \<lparr>jo_verifyOnLoad = Some True, jo_maxLoadBytes = None\<rparr> file = Inr j \<and>
     counted sv_globalPosition (es_globalLog (jl_memory j)) \<and> length (es_globalLog (jl_memory j)) = 2"
proof -
  obtain a j "file" calls where s: "sample_append = (Inr a, j, file, calls)"
    "system_reachable sample_hash body_canon file ((\<lambda>_. None)(0 := Some j, 1 := Some sample_jsonl))"
    "map sv_event (es_globalLog (jl_memory j)) = [sample_body, sample_body]"
    "in_step sample_hash body_canon j file" by (rule sample_system)
  obtain j' where j': "jsonl_open sample_hash body_canon \<lparr>jo_verifyOnLoad = Some True, jo_maxLoadBytes = None\<rparr> file = Inr j'"
    "counted sv_globalPosition (es_globalLog (jl_memory j'))"
    using history_never_forks[OF s(2)] by blast
  have "file_holds sample_hash body_canon file (es_globalLog (jl_memory j))" using s(4) by (simp add: in_step_def)
  from open_result[OF this j'(1)] have "length (es_globalLog (jl_memory j')) = 2"
    using arg_cong[OF s(3), of length] by simp
  then show ?thesis using s(2) j' by blast
qed

theorem append_survives_crash_witness:
  "\<exists>after. jsonl_open sample_hash body_canon sample_options (fst (snd (snd sample_append))) = Inr after \<and>
     map sv_event (es_globalLog (jl_memory after)) = [sample_body, sample_body]"
proof -
  obtain a j "file" calls where run: "sample_append = (Inr a, j, file, calls)" by (rule sample_append_result)
  have "((\<lambda>_. None)(0 := Some sample_jsonl)) 0 = Some sample_jsonl" "jo_maxLoadBytes sample_options = None"
    by (simp_all add: sample_options_def)
  from append_survives_crash[OF sys_open[OF sys_start sample_jsonl_open, of 0] this(1) sample_body_ok
      run[unfolded sample_append_def] this(2) sample_jsonl_open]
  obtain after es where after: "jsonl_open sample_hash body_canon sample_options file = Inr after"
    "es_globalLog (jl_memory after) = es_globalLog (jl_memory sample_jsonl) @ es"
    "map sv_event es = [sample_body, sample_body]" by auto
  have "es_globalLog (jl_memory sample_jsonl) = []" by (simp add: sample_memory) (simp add: new_store_def)
  then show ?thesis using after by (intro exI[of _ after]) (simp add: run)
qed

theorem stale_writer_rejected_witness:
  "\<exists>e j'. jsonl_append sample_hash body_canon sample_jsonl (fst (snd (snd sample_append))) ''s'' [sample_body] None sample_env =
     (Inl e, j', fst (snd (snd sample_append)), [])"
proof -
  obtain a j "file" calls where s: "sample_append = (Inr a, j, file, calls)"
    "system_reachable sample_hash body_canon file ((\<lambda>_. None)(0 := Some j, 1 := Some sample_jsonl))"
    "map sv_event (es_globalLog (jl_memory j)) = [sample_body, sample_body]"
    "in_step sample_hash body_canon j file" by (rule sample_system)
  have holds: "file_holds sample_hash body_canon file (es_globalLog (jl_memory j))" using s(4) by (simp add: in_step_def)
  have "jo_maxLoadBytes sample_options = None" by (simp add: sample_options_def)
  with holds obtain now where now: "jsonl_open sample_hash body_canon sample_options file = Inr now"
    "es_globalLog (jl_memory now) = es_globalLog (jl_memory j)" by (rule open_in_step)
  have "es_globalLog (jl_memory sample_jsonl) = []" by (simp add: sample_memory) (simp add: new_store_def)
  then have "es_globalLog (jl_memory now) \<noteq> es_globalLog (jl_memory sample_jsonl)" using now(2) s(3) by auto
  moreover have "((\<lambda>_. None)(0 := Some j, 1 := Some sample_jsonl)) 1 = Some sample_jsonl" by simp
  ultimately show ?thesis using stale_writer_rejected[OF s(2) _ now(1), of 1 sample_jsonl] by (simp add: s(1))
qed

theorem durable_refines_memory_witness:
  "\<exists>m. durable_run sample_hash body_canon (fst (snd sample_append)) (fst (snd (snd sample_append))) m \<and>
     jsonl_globalPosition (fst (snd sample_append)) = globalPosition m"
proof -
  obtain r j "file" calls where run: "sample_append = (r, j, file, calls)" by (metis surj_pair)
  obtain r' m calls' where mem: "store_append sample_hash body_canon new_store ''s'' [sample_body, sample_body] None
      (ae_now sample_env) = (r', m, calls')" by (metis surj_pair)
  have "ae_lock sample_env = Inr ()" "no_faults sample_env" by (simp_all add: sample_env_def no_faults_def)
  from run_append[OF run_start[OF sample_jsonl_open] sample_body_ok this run[unfolded sample_append_def] mem]
  have "durable_run sample_hash body_canon j file m" .
  moreover from durable_refines_memory[OF this] have "jsonl_globalPosition j = globalPosition m" by blast
  ultimately show ?thesis by (intro exI[of _ m]) (simp add: run)
qed

theorem null_line_prevents_opening_witness:
  "jsonl_open sample_hash body_canon sample_options (Some ''null'') = Inl PlainError"
proof -
  have "file_holds sample_hash body_canon (Some []) []" "\<not> lacks_newline []" "jo_maxLoadBytes sample_options = None"
    by (simp_all add: file_holds_empty lacks_newline_def sample_options_def)
  from null_line_prevents_opening[OF this] show ?thesis by simp
qed

end
