(* ===== verification/Lockfile.thy ===== *)
theory Lockfile
  imports JsonlStore
begin

section \<open>The lockfile of the durable event store\<close>

text \<open>
  Model of the locking methods of \<^verbatim>\<open>packages/event-store/src/jsonl-store.ts\<close>
  (\<^verbatim>\<open>_acquireLock\<close>, \<^verbatim>\<open>_readLockPid\<close>, \<^verbatim>\<open>_tryBreakStaleLock\<close> and
  \<^verbatim>\<open>_releaseLock\<close>), twice. First as one process sees them: the loop of \<^verbatim>\<open>_acquireLock\<close>
  runs against an environment that says, attempt by attempt, what the system calls answer and how much time
  they take; it ends by the deadline. Then as several processes run them, one system call at
  a time, on one lockfile: as long as no process ends, or only two use the store, at most one process has it; with a
  third one the break of a stale lock can remove a live one, and the appends of two holders
  fork the history of the store. Failures of the calls other than an existing file are only in the first part.
\<close>

subsection \<open>Acquiring\<close>

datatype open_outcome = Opened | Eexist | Open_error

datatype kill_outcome = Kill_succeeds | Esrch | Kill_error

record lock_env =
  le_open :: "nat \<Rightarrow> open_outcome"
  le_content :: "nat \<Rightarrow> string option"
  le_kill :: "nat \<Rightarrow> kill_outcome"
  le_elapsed :: "nat \<Rightarrow> nat"

text \<open>\<^verbatim>\<open>Number.parseInt(s, 10)\<close> on a trimmed text: the longest numeric prefix.\<close>

definition parseInt10 :: "string \<Rightarrow> int option" where
  "parseInt10 s =
     (let (sign, digits) = (case s of
            CHR ''-'' # r \<Rightarrow> (- 1, takeWhile is_digit r)
          | CHR ''+'' # r \<Rightarrow> (1, takeWhile is_digit r)
          | _ \<Rightarrow> (1, takeWhile is_digit s))
      in if digits = [] then None else Some (sign * int (bigint_of digits)))"

text \<open>The pid in the lockfile; the content is \<open>None\<close> when it cannot be read.\<close>

definition readLockPid :: "string option \<Rightarrow> int option" where
  "readLockPid content =
     (case content of
        None \<Rightarrow> None
      | Some raw \<Rightarrow> (case parseInt10 (js_trim raw) of
            None \<Rightarrow> None
          | Some pid \<Rightarrow> if pid \<le> 0 then None else Some pid))"

definition tryBreakStaleLock :: "int \<Rightarrow> string option \<Rightarrow> kill_outcome \<Rightarrow> bool" where
  "tryBreakStaleLock self content kill =
     (case readLockPid content of
        None \<Rightarrow> False
      | Some pid \<Rightarrow>
          if pid = self then False
          else let alive = (case kill of Kill_succeeds \<Rightarrow> True | Esrch \<Rightarrow> False | Kill_error \<Rightarrow> True)
            in \<not> alive)"

definition maxWaitMs :: int where
  "maxWaitMs = 5000"

definition spinMs :: int where
  "spinMs = 5"

text \<open>What one call of \<^verbatim>\<open>_acquireLock\<close> did: the attempts it made and the lockfiles it unlinked.\<close>

record lock_trace =
  lt_attempts :: nat
  lt_broken :: "nat list"
  lt_end :: int

text \<open>One round of the loop, at attempt \<open>n\<close> and time \<open>now\<close>. The busy wait takes at least
  \<open>spinMs\<close>; whatever the calls take is in \<open>le_elapsed\<close>.\<close>

function acquire_loop ::
  "int \<Rightarrow> lock_env \<Rightarrow> int \<Rightarrow> nat \<Rightarrow> int \<Rightarrow> nat list \<Rightarrow> unit result \<times> lock_trace" where
  "acquire_loop self env deadline n now broken =
     (case le_open env n of
        Opened \<Rightarrow> (Inr (), \<lparr>lt_attempts = n + 1, lt_broken = broken, lt_end = now\<rparr>)
      | Open_error \<Rightarrow> (Inl PlainError, \<lparr>lt_attempts = n + 1, lt_broken = broken, lt_end = now\<rparr>)
      | Eexist \<Rightarrow>
          if broken = [] \<and> tryBreakStaleLock self (le_content env n) (le_kill env n)
          then acquire_loop self env deadline (n + 1) (now + int (le_elapsed env n)) [n]
          else if now \<ge> deadline
          then (Inl (EventStoreError E_LOCK_TIMEOUT), \<lparr>lt_attempts = n + 1, lt_broken = broken, lt_end = now\<rparr>)
          else acquire_loop self env deadline (n + 1) (now + spinMs + int (le_elapsed env n)) broken)"
  by auto

termination
  by (relation "measures [\<lambda>(self, env, deadline, n, now, broken). if broken = [] then 1 else 0,
      \<lambda>(self, env, deadline, n, now, broken). nat (deadline - now)]") (auto simp: spinMs_def)

declare acquire_loop.simps [simp del]

definition acquireLock :: "int \<Rightarrow> lock_env \<Rightarrow> int \<Rightarrow> unit result \<times> lock_trace" where
  "acquireLock self env lockStart = acquire_loop self env (lockStart + maxWaitMs) 0 lockStart []"

text \<open>The rounds left: one per \<open>spinMs\<close> until the deadline, one more for the break, and the last one.\<close>

definition rounds_left :: "int \<Rightarrow> int \<Rightarrow> nat list \<Rightarrow> nat" where
  "rounds_left deadline now broken = nat ((deadline - now + 4) div 5) + (if broken = [] then 1 else 0) + 1"

lemma rounds_break: "rounds_left deadline (now + int e) [n] + 1 \<le> rounds_left deadline now []"
  by (simp add: rounds_left_def)

lemma rounds_spin:
  assumes "now < deadline"
  shows "rounds_left deadline (now + spinMs + int e) broken + 1 \<le> rounds_left deadline now broken"
proof -
  have "(deadline - (now + spinMs + int e) + 4) div 5 \<le> (deadline - now + 4) div 5 - 1" by (simp add: spinMs_def)
  moreover have "1 \<le> (deadline - now + 4) div 5" using assms by simp
  ultimately show ?thesis by (simp add: rounds_left_def)
qed

text \<open>What the loop guarantees about its outcome.\<close>

definition acquire_ok :: "int \<Rightarrow> lock_env \<Rightarrow> int \<Rightarrow> unit result \<times> lock_trace \<Rightarrow> bool" where
  "acquire_ok self env deadline out \<longleftrightarrow> (case out of (r, t) \<Rightarrow>
     0 < lt_attempts t \<and>
     (r = Inr () \<longleftrightarrow> le_open env (lt_attempts t - 1) = Opened) \<and>
     (r = Inl (EventStoreError E_LOCK_TIMEOUT) \<longleftrightarrow> le_open env (lt_attempts t - 1) = Eexist) \<and>
     (r = Inl (EventStoreError E_LOCK_TIMEOUT) \<longrightarrow> deadline \<le> lt_end t) \<and>
     length (lt_broken t) \<le> 1 \<and>
     (\<forall>k \<in> set (lt_broken t). tryBreakStaleLock self (le_content env k) (le_kill env k)))"

lemma acquire_loop_ok:
  "length broken \<le> 1 \<Longrightarrow> \<forall>k \<in> set broken. tryBreakStaleLock self (le_content env k) (le_kill env k) \<Longrightarrow>
   acquire_ok self env deadline (acquire_loop self env deadline n now broken) \<and>
   lt_attempts (snd (acquire_loop self env deadline n now broken)) \<le> n + rounds_left deadline now broken"
proof (induction self env deadline n now broken rule: acquire_loop.induct)
  case (1 self env deadline n now broken)
  show ?case
  proof (cases "le_open env n")
    case Opened
    then show ?thesis using "1.prems" by (simp add: acquire_loop.simps acquire_ok_def rounds_left_def)
  next
    case Open_error
    then show ?thesis using "1.prems" by (simp add: acquire_loop.simps acquire_ok_def rounds_left_def)
  next
    case Eexist
    consider (broken) "broken = []" "tryBreakStaleLock self (le_content env n) (le_kill env n)"
      | (timeout) "\<not> (broken = [] \<and> tryBreakStaleLock self (le_content env n) (le_kill env n))" "now \<ge> deadline"
      | (wait) "\<not> (broken = [] \<and> tryBreakStaleLock self (le_content env n) (le_kill env n))" "now < deadline"
      by fastforce
    then show ?thesis
    proof cases
      case broken
      then have loop: "acquire_loop self env deadline n now broken =
          acquire_loop self env deadline (n + 1) (now + int (le_elapsed env n)) [n]"
        using Eexist by (simp add: acquire_loop.simps[of self env deadline n])
      have "\<forall>k \<in> set [n]. tryBreakStaleLock self (le_content env k) (le_kill env k)" using broken(2) by simp
      from "1.IH"(1)[OF Eexist conjI[OF broken] _ this] rounds_break[of deadline now "le_elapsed env n" n] broken(1)
      show ?thesis unfolding loop by simp
    next
      case timeout
      then have "acquire_loop self env deadline n now broken = (Inl (EventStoreError E_LOCK_TIMEOUT),
          \<lparr>lt_attempts = n + 1, lt_broken = broken, lt_end = now\<rparr>)"
        using Eexist by (auto simp: acquire_loop.simps[of self env deadline n])
      then show ?thesis using Eexist "1.prems" timeout(2) by (simp add: acquire_ok_def rounds_left_def)
    next
      case wait
      then have loop: "acquire_loop self env deadline n now broken =
          acquire_loop self env deadline (n + 1) (now + spinMs + int (le_elapsed env n)) broken"
        using Eexist by (auto simp: acquire_loop.simps[of self env deadline n])
      have "\<not> deadline \<le> now" using wait(2) by simp
      from "1.IH"(2)[OF Eexist wait(1) this "1.prems"] rounds_spin[OF wait(2), of "le_elapsed env n" broken]
      show ?thesis unfolding loop by simp
    qed
  qed
qed

text \<open>C13: Acquiring the lock ends: after at most 1002 attempts to create the lockfile, and no other outcome
  than those of the last attempt: it has the lock exactly when that attempt created the file, and it gives up
  only when the file existed and five seconds have passed. It unlinks at most one
  lockfile, and only one whose pid is a positive number of another process that the system does not know.\<close>

theorem acquire_terminates:
  "acquire_ok self env (lockStart + maxWaitMs) (acquireLock self env lockStart) \<and>
   lt_attempts (snd (acquireLock self env lockStart)) \<le> 1002"
  using acquire_loop_ok[of "[]" self env "lockStart + maxWaitMs" 0 lockStart]
  by (simp add: acquireLock_def rounds_left_def maxWaitMs_def)

text \<open>When nobody ever releases a lock that is alive or unreadable, acquiring fails with the timeout.\<close>

lemma stuck_lock_times_out:
  assumes "\<And>n. le_open env n = Eexist" "\<And>n. \<not> tryBreakStaleLock self (le_content env n) (le_kill env n)"
  shows "fst (acquireLock self env lockStart) = Inl (EventStoreError E_LOCK_TIMEOUT)"
  using acquire_terminates[of self env lockStart] assms(1) by (auto simp: acquire_ok_def split: prod.splits)


subsection \<open>Several processes and one lockfile\<close>

text \<open>Where a process is in \<^verbatim>\<open>append\<close>, between two system calls; \<open>b\<close> is
  \<^verbatim>\<open>brokeStaleLock\<close>. A process is its own pid, pids are not used twice. The lockfile is the process
  that created it and whether the pid is already in it.\<close>

datatype lock_phase =
    Idle
  | Creating bool
  | Writing_pid
  | Reading_pid bool
  | Probing bool nat
  | Unlinking
  | Waiting bool
  | Holding
  | Ended

record lock_system =
  ls_lockfile :: "(nat \<times> bool) option"
  ls_phase :: "nat \<Rightarrow> lock_phase"

definition enter :: "lock_system \<Rightarrow> nat \<Rightarrow> lock_phase \<Rightarrow> lock_system" where
  "enter s p ph = s\<lparr>ls_phase := (ls_phase s)(p := ph)\<rparr>"

text \<open>The next system call of process \<open>p\<close>; \<open>timeout\<close> is the test of the deadline.\<close>

definition lock_step :: "lock_system \<Rightarrow> nat \<Rightarrow> bool \<Rightarrow> lock_system" where
  "lock_step s p timeout =
     (case ls_phase s p of
        Idle \<Rightarrow> enter s p (Creating False)
      | Creating b \<Rightarrow>
          (case ls_lockfile s of
             None \<Rightarrow> enter (s\<lparr>ls_lockfile := Some (p, False)\<rparr>) p Writing_pid
           | Some _ \<Rightarrow> enter s p (if b then Waiting b else Reading_pid b))
      | Writing_pid \<Rightarrow>
          enter (if ls_lockfile s = Some (p, False) then s\<lparr>ls_lockfile := Some (p, True)\<rparr> else s) p Holding
      | Reading_pid b \<Rightarrow>
          (case ls_lockfile s of
             Some (q, True) \<Rightarrow> enter s p (if q = p then Waiting b else Probing b q)
           | _ \<Rightarrow> enter s p (Waiting b))
      | Probing b q \<Rightarrow> enter s p (if ls_phase s q = Ended then Unlinking else Waiting b)
      | Unlinking \<Rightarrow> enter (s\<lparr>ls_lockfile := None\<rparr>) p (Creating True)
      | Waiting b \<Rightarrow> enter s p (if timeout then Idle else Creating b)
      | Holding \<Rightarrow> enter (s\<lparr>ls_lockfile := None\<rparr>) p Idle
      | Ended \<Rightarrow> s)"

definition lock_start :: lock_system where
  "lock_start = \<lparr>ls_lockfile = None, ls_phase = \<lambda>_. Idle\<rparr>"

text \<open>All interleavings of the processes \<open>ps\<close>, which may end in the phases \<open>may_end\<close>.\<close>

inductive lock_reachable :: "nat set \<Rightarrow> (lock_phase \<Rightarrow> bool) \<Rightarrow> lock_system \<Rightarrow> bool" for ps may_end where
  lock_begin: "lock_reachable ps may_end lock_start"
| lock_call: "lock_reachable ps may_end s \<Longrightarrow> p \<in> ps \<Longrightarrow> lock_reachable ps may_end (lock_step s p timeout)"
| lock_end: "lock_reachable ps may_end s \<Longrightarrow> p \<in> ps \<Longrightarrow> may_end (ls_phase s p) \<Longrightarrow>
    lock_reachable ps may_end (enter s p Ended)"

text \<open>The invariant: who is past the creation of the lockfile owns it, a lockfile without such an owner is left
  by a process that has ended, and a lock is broken only when all others have ended.\<close>

definition lock_inv :: "nat set \<Rightarrow> lock_system \<Rightarrow> bool" where
  "lock_inv ps s \<longleftrightarrow> (\<forall>p.
     (ls_phase s p = Writing_pid \<longrightarrow> ls_lockfile s = Some (p, False)) \<and>
     (ls_phase s p = Holding \<longrightarrow> ls_lockfile s = Some (p, True)) \<and>
     (\<forall>w. ls_lockfile s = Some (p, w) \<longrightarrow> p \<in> ps \<and> ls_phase s p \<in> {Writing_pid, Holding, Ended}) \<and>
     (\<forall>b q. ls_phase s p = Probing b q \<longrightarrow> q \<in> ps \<and> q \<noteq> p) \<and>
     (ls_phase s p = Unlinking \<longrightarrow> (\<forall>q \<in> ps. q = p \<or> ls_phase s q = Ended)))"

lemma enter_simps [simp]:
  "ls_lockfile (enter s p ph) = ls_lockfile s"
  "ls_phase (enter s p ph) q = (if q = p then ph else ls_phase s q)"
  by (simp_all add: enter_def)

lemma lock_inv_owner:
  "lock_inv ps s \<Longrightarrow> ls_phase s p = Writing_pid \<or> ls_phase s p = Holding \<Longrightarrow> \<exists>w. ls_lockfile s = Some (p, w)"
  unfolding lock_inv_def by blast

lemma lock_inv_member: "lock_inv ps s \<Longrightarrow> ls_lockfile s = Some (p, w) \<Longrightarrow> p \<in> ps"
  unfolding lock_inv_def by blast

lemma lock_inv_unlinking:
  "lock_inv ps s \<Longrightarrow> ls_phase s p = Unlinking \<Longrightarrow> q \<in> ps \<Longrightarrow> q = p \<or> ls_phase s q = Ended"
  unfolding lock_inv_def by blast

lemma lock_inv_step:
  assumes inv: "lock_inv ps s" and p: "p \<in> ps"
    and breaks: "\<And>q. ls_phase s q = Ended \<Longrightarrow> q \<in> ps \<Longrightarrow> q \<noteq> p \<Longrightarrow> ps \<subseteq> {p, q}"
  shows "lock_inv ps (lock_step s p timeout)"
proof (cases "ls_phase s p = Ended")
  case True
  then show ?thesis using inv by (simp add: lock_step_def)
next
  case False
  have alone: "ls_phase s r \<noteq> Unlinking" if "r \<noteq> p" for r
    using inv[unfolded lock_inv_def, THEN spec, of r] p False that by auto
  have others: "ls_phase s r \<noteq> Writing_pid \<and> ls_phase s r \<noteq> Holding"
    if r: "r \<noteq> p" and ph: "ls_phase s p \<in> {Writing_pid, Holding, Unlinking}" for r
  proof
    have "\<not> (ls_phase s r = Writing_pid \<or> ls_phase s r = Holding)"
    proof
      assume "ls_phase s r = Writing_pid \<or> ls_phase s r = Holding"
      then obtain w where w: "ls_lockfile s = Some (r, w)" using lock_inv_owner[OF inv] by blast
      then have "r \<in> ps" by (rule lock_inv_member[OF inv])
      show False
      proof (cases "ls_phase s p = Unlinking")
        case True
        then have "ls_phase s r = Ended" using lock_inv_unlinking[OF inv True \<open>r \<in> ps\<close>] r by blast
        then show False using \<open>ls_phase s r = Writing_pid \<or> ls_phase s r = Holding\<close> by auto
      next
        case False
        then obtain w' where "ls_lockfile s = Some (p, w')" using ph False lock_inv_owner[OF inv, of p] by blast
        then show False using w r by simp
      qed
    qed
    then show "ls_phase s r \<noteq> Writing_pid" "ls_phase s r \<noteq> Holding" by simp_all
  qed
  show ?thesis
  proof (cases "ls_phase s p")
    case (Probing b q)
    then have q: "q \<in> ps" "q \<noteq> p" using inv unfolding lock_inv_def by blast+
    have "ls_phase s q = Ended \<Longrightarrow> \<forall>r \<in> ps. r = p \<or> ls_phase s r = Ended" using breaks q by blast
    then show ?thesis using inv Probing q alone by (auto simp: lock_inv_def lock_step_def)
  next
    case Unlinking
    then show ?thesis using inv p alone others by (auto simp: lock_inv_def lock_step_def)
  qed (use inv p alone others in \<open>auto simp: lock_inv_def lock_step_def split: option.splits bool.splits\<close>)
qed

lemma lock_inv_end: "lock_inv ps s \<Longrightarrow> lock_inv ps (enter s p Ended)"
  by (auto simp: lock_inv_def)

lemma never_ended: "lock_reachable ps may_end s \<Longrightarrow> \<forall>ph. \<not> may_end ph \<Longrightarrow> ls_phase s q \<noteq> Ended"
proof (induction arbitrary: q rule: lock_reachable.induct)
  case (lock_call s p timeout)
  then show ?case by (cases "ls_phase s p") (auto simp: lock_step_def split: option.splits bool.splits)
qed (auto simp: lock_start_def)

lemma lock_reachable_inv:
  assumes "lock_reachable ps may_end s" "(\<forall>ph. \<not> may_end ph) \<or> (\<exists>a b. ps \<subseteq> {a, b})"
  shows "lock_inv ps s"
  using assms(1)
proof induction
  case lock_begin
  then show ?case by (simp add: lock_inv_def lock_start_def)
next
  case (lock_call s p timeout)
  show ?case
  proof (rule lock_inv_step[OF lock_call.IH lock_call.hyps(2)])
    fix q assume q: "ls_phase s q = Ended" "q \<in> ps" "q \<noteq> p"
    then have "\<not> (\<forall>ph. \<not> may_end ph)" using never_ended[OF lock_call.hyps(1)] by blast
    then obtain a b where "ps \<subseteq> {a, b}" using assms(2) by blast
    then show "ps \<subseteq> {p, q}" using q lock_call.hyps(2) by blast
  qed
next
  case (lock_end s p)
  then show ?case by (simp add: lock_inv_end)
qed

text \<open>C12: The lockfile excludes: when no process ends, or when only two processes use the store
  - whatever crashes then - no two processes are ever between acquiring and releasing the
  lock at the same time.\<close>

theorem lock_exclusive:
  assumes "lock_reachable ps may_end s" "(\<forall>ph. \<not> may_end ph) \<or> (\<exists>a b. ps \<subseteq> {a, b})"
    and "ls_phase s x = Holding" "ls_phase s y = Holding"
  shows "x = y"
proof -
  have "ls_lockfile s = Some (x, True)" "ls_lockfile s = Some (y, True)"
    using lock_reachable_inv[OF assms(1,2)] assms(3,4) unfolding lock_inv_def by blast+
  then show ?thesis by simp
qed

text \<open>With three processes the break of a stale lock is not safe, even if processes end only
  between appends: process 1 reads the pid of process 0, which then releases the lock and ends; process 2 acquires the
  lock; process 1 finds the pid dead and unlinks the lockfile of process 2.\<close>

definition race_calls :: "nat list" where
  "race_calls = [0, 0, 0, 1, 1, 1, 0]"

definition race_calls_after :: "nat list" where
  "race_calls_after = [2, 2, 2, 1, 1, 1, 1]"

definition race_state :: lock_system where
  "race_state = foldl (\<lambda>s p. lock_step s p False)
     (enter (foldl (\<lambda>s p. lock_step s p False) lock_start race_calls) 0 Ended) race_calls_after"

lemma calls_reachable:
  "lock_reachable ps may_end s \<Longrightarrow> set calls \<subseteq> ps \<Longrightarrow>
    lock_reachable ps may_end (foldl (\<lambda>s p. lock_step s p False) s calls)"
  by (induction calls arbitrary: s) (auto intro: lock_call)

text \<open>C40: With three processes the lock does not exclude, even when processes end only between
  appends: there is an interleaving in which breaking a stale lock removes the lockfile of a live process
  and two processes hold the lock.\<close>

theorem stale_break_breaks_exclusion:
  "\<exists>s. lock_reachable {0, 1, 2} (\<lambda>ph. ph = Idle) s \<and> ls_phase s 1 = Holding \<and> ls_phase s 2 = Holding"
proof (intro exI conjI)
  let ?mid = "foldl (\<lambda>s p. lock_step s p False) lock_start race_calls"
  have "lock_reachable {0, 1, 2} (\<lambda>ph. ph = Idle) ?mid"
    by (rule calls_reachable[OF lock_begin]) (auto simp: race_calls_def)
  moreover have "ls_phase ?mid 0 = Idle"
    by (simp add: race_calls_def lock_step_def lock_start_def)
  ultimately have "lock_reachable {0, 1, 2} (\<lambda>ph. ph = Idle) (enter ?mid 0 Ended)" by (intro lock_end) simp_all
  then show "lock_reachable {0, 1, 2} (\<lambda>ph. ph = Idle) race_state"
    unfolding race_state_def by (rule calls_reachable) (auto simp: race_calls_after_def)
  show "ls_phase race_state 1 = Holding" "ls_phase race_state 2 = Holding"
    by (simp_all add: race_state_def race_calls_def race_calls_after_def lock_step_def lock_start_def)
qed


subsection \<open>Why the lock is needed\<close>

text \<open>The records that an append computes from the cursor of an instance.\<close>

definition computed_records ::
  "hasher \<Rightarrow> (event_body content \<Rightarrow> string) \<Rightarrow> jsonl_store \<Rightarrow> string \<Rightarrow> event_body list \<Rightarrow> string \<Rightarrow> jsonl_event list" where
  "computed_records H canon j i events now = snd (foldl (append_event H canon i now) (jl_memory j, []) events)"

lemma detect_passes:
  assumes "instance_ok H canon j file" "detectExternalAdvance j file = Inr ()"
  shows "in_step H canon j file"
  using assms detect_behind[of j "file"] by (auto simp: instance_ok_def)

lemma computed_records_ok:
  assumes "in_step H canon j file" "\<forall>b \<in> set events. body_ok b" "events \<noteq> []"
  obtains new where "computed_records H canon j i events now = new" "new \<noteq> []" "\<forall>e \<in> set new. record_ok e"
    "log_ok H canon (es_globalLog (jl_memory j) @ new)"
    "sv_globalPosition (hd new) = int (length (es_globalLog (jl_memory j))) + 1"
proof -
  obtain m new where f: "foldl (append_event H canon i now) (jl_memory j, []) events = (m, new)" by fastforce
  have "store_wf H canon (jl_memory j)" using assms(1) by (simp add: in_step_def)
  note new = appended_records_ok[OF this f assms(2)]
  have some: "new \<noteq> []" using new(1) assms(3) by auto
  have ok: "log_ok H canon (es_globalLog (jl_memory j) @ new)" using new(2,3) by (simp add: store_wf_log)
  have "counted sv_globalPosition (es_globalLog (jl_memory j) @ new)" using ok by (simp add: log_ok_def)
  from this[unfolded counted_def, rule_format, of "length (es_globalLog (jl_memory j))"] some
  have "sv_globalPosition (hd new) = int (length (es_globalLog (jl_memory j))) + 1"
    by (simp add: nth_append hd_conv_nth)
  then show thesis using that[of new] some new(4) ok f by (simp add: computed_records_def)
qed

text \<open>Two instances that both hold the lock fork the history: when both pass the check for external
  advances before either has written, both writes succeed, and the store refuses to open the file from
  then on.\<close>

theorem two_holders_fork_history:
  assumes "system_reachable H canon file insts" "insts p = Some j" "insts q = Some k"
    and "detectExternalAdvance j file = Inr ()" "detectExternalAdvance k file = Inr ()"
    and "\<not> jl_needsTrailingNewline j" "\<forall>b \<in> set xs \<union> set ys. body_ok b" "xs \<noteq> []" "ys \<noteq> []"
    and "writeAndSync file (concat (map record_line (computed_records H canon j a xs now))) No_fault = (r, file1)"
    and "writeAndSync file1 (concat (map record_line (computed_records H canon k b ys now'))) No_fault = (r', file2)"
  shows "jsonl_open H canon \<lparr>jo_verifyOnLoad = None, jo_maxLoadBytes = None\<rparr> file2 =
    Inl (EventStoreError E_INTEGRITY_VIOLATION)"
proof -
  have ok: "instance_ok H canon j file" "instance_ok H canon k file" using system_ok[OF assms(1)] assms(2,3) by blast+
  have step: "in_step H canon j file" "in_step H canon k file"
    using detect_passes ok assms(4,5) by blast+
  define log where "log = es_globalLog (jl_memory j)"
  have holds: "file_holds H canon file log" and log2: "es_globalLog (jl_memory k) = log"
    using step file_holds_unique by (auto simp: in_step_def log_def)
  have xs: "\<forall>b \<in> set xs. body_ok b" and ys: "\<forall>b \<in> set ys. body_ok b" using assms(7) by blast+
  obtain new1 where n1: "computed_records H canon j a xs now = new1" "new1 \<noteq> []" "\<forall>e \<in> set new1. record_ok e"
    "log_ok H canon (log @ new1)" by (rule computed_records_ok[OF step(1) xs assms(8)]) (use log_def in auto)
  obtain new2 where n2: "computed_records H canon k b ys now' = new2" "new2 \<noteq> []" "\<forall>e \<in> set new2. record_ok e"
    "sv_globalPosition (hd new2) = int (length log) + 1" "log_ok H canon (log @ new2)"
    by (rule computed_records_ok[OF step(2) ys assms(9)]) (use log2 in auto)
  have torn: "\<not> file_torn file" using step(1) assms(6) by (simp add: in_step_def)
  have f1: "file1 = Some (option_or file [] @ concat (map record_line new1))"
    using assms(10) by (simp add: writeAndSync_def n1(1))
  have f2: "file2 = Some ((option_or file [] @ concat (map record_line new1)) @ concat (map record_line new2))"
    using assms(11) by (simp add: writeAndSync_def n2(1) f1 option_or_def)
  note whole = write_whole[OF holds torn n1(4,3), folded f1]
  obtain m where m: "lines_memory new_store (option_or file [] @ concat (map record_line new1)) = Inr m"
    "es_globalLog m = log @ new1"
    using whole(1) by (auto simp: file_holds_def file_memory_def f1)
  let ?content = "(option_or file [] @ concat (map record_line new1)) @ concat (map record_line new2)"
  have "lines_memory new_store ?content = Inr (index_all m new2)"
    using record_lines_memory[OF n2(3), of m "[]"] whole(2) m(1)
    by (simp add: file_torn_def f1 lines_memory_append[of "option_or file [] @ concat (map record_line new1)", simplified]
        lines_memory_end)
  moreover have "es_globalLog (index_all m' es) = es_globalLog m' @ es" for m' es
    by (induction es arbitrary: m') (simp_all add: index_all_def)
  ultimately have loaded: "lines_memory new_store ?content = Inr (index_all m new2)"
    "es_globalLog (index_all m new2) = log @ new1 @ new2" using m(2) by simp_all
  have "last (log @ new1) \<in> set (log @ new1)" "counted sv_globalPosition (log @ new1)"
    using n1(2,4) by (simp_all add: log_ok_def)
  then have "sv_globalPosition (last (log @ new1)) = int (length (log @ new1))"
    using counted_last[of sv_globalPosition "log @ new1"] n1(2) by simp
  moreover have "contiguous (Some x) new2 \<Longrightarrow> x = sv_globalPosition (hd new2)" for x using n2(2) by (cases new2) auto
  moreover have "0 < length new1" using n1(2) by simp
  ultimately have "\<not> contiguous None ((log @ new1) @ new2)"
    using n1(2) n2(4) unfolding contiguous_append[of _ "log @ new1"] by force
  moreover have "fully_hashed ((log @ new1) @ new2)"
    using log_ok_hashed[OF n1(4)] log_ok_hashed[OF n2(5)] by (auto simp: fully_hashed_def)
  ultimately have invalid: "\<not> ir_valid (verifyHashChain H canon (es_globalLog (index_all m new2)))"
    using verify_valid_iff[of "(log @ new1) @ new2" H canon] loaded(2) by simp
  obtain n skips where "foldE load_step (0, [], new_store) (js_split newline ?content) =
      bind_r (foldE line_memory new_store (js_split newline ?content)) (\<lambda>m'. Inr (n, skips, m'))"
    using load_steps by blast
  then show ?thesis using loaded(1) invalid unfolding f2
    by (simp add: jsonl_open_def loadFromFile_def lines_memory_def throw_when_def option_or_def)
qed


subsection \<open>Witnesses\<close>

definition one_holds :: lock_system where
  "one_holds = foldl (\<lambda>s p. lock_step s p False) lock_start [0, 0, 0, 1, 1, 1]"

theorem lock_exclusive_witness:
  "lock_reachable {0, 1} (\<lambda>_. True) one_holds \<and> ls_phase one_holds 0 = Holding \<and> ls_phase one_holds 1 \<noteq> Holding"
proof -
  have r: "lock_reachable {0, 1} (\<lambda>_. True) one_holds"
    unfolding one_holds_def by (rule calls_reachable[OF lock_begin]) auto
  moreover have "ls_phase one_holds 0 = Holding" by (simp add: one_holds_def lock_step_def lock_start_def)
  ultimately show ?thesis using lock_exclusive[OF r _ \<open>ls_phase one_holds 0 = Holding\<close>, of 1] by auto
qed

theorem two_holders_fork_history_witness:
  "\<exists>file1 file2. writeAndSync None (concat (map record_line
       (computed_records sample_hash body_canon sample_jsonl ''s'' [sample_body] ''t''))) No_fault = file1 \<and>
     writeAndSync (snd file1) (concat (map record_line
       (computed_records sample_hash body_canon sample_jsonl ''s'' [sample_body] ''u''))) No_fault = file2 \<and>
     jsonl_open sample_hash body_canon \<lparr>jo_verifyOnLoad = None, jo_maxLoadBytes = None\<rparr> (snd file2) =
       Inl (EventStoreError E_INTEGRITY_VIOLATION)"
proof -
  let ?insts = "(\<lambda>_. None)(0 := Some sample_jsonl, 1 := Some sample_jsonl) :: nat \<Rightarrow> jsonl_store option"
  have sys: "system_reachable sample_hash body_canon None ?insts"
    by (rule sys_open[OF sys_open[OF sys_start sample_jsonl_open] sample_jsonl_open])
  have insts: "?insts 0 = Some sample_jsonl" "?insts 1 = Some sample_jsonl" by simp_all
  have step: "in_step sample_hash body_canon sample_jsonl None"
    using open_result[OF _ sample_jsonl_open, of "[]"] by (simp add: file_holds_none)
  then have whole: "\<not> jl_needsTrailingNewline sample_jsonl" by (simp add: in_step_def file_torn_def)
  have ok: "\<forall>b \<in> set [sample_body] \<union> set [sample_body]. body_ok b" using sample_body_ok by simp
  define w1 where "w1 = writeAndSync None (concat (map record_line
       (computed_records sample_hash body_canon sample_jsonl ''s'' [sample_body] ''t''))) No_fault"
  define w2 where "w2 = writeAndSync (snd w1) (concat (map record_line
       (computed_records sample_hash body_canon sample_jsonl ''s'' [sample_body] ''u''))) No_fault"
  have "jsonl_open sample_hash body_canon \<lparr>jo_verifyOnLoad = None, jo_maxLoadBytes = None\<rparr> (snd w2) =
      Inl (EventStoreError E_INTEGRITY_VIOLATION)"
    by (rule two_holders_fork_history[OF sys insts detect_in_step[OF step] detect_in_step[OF step] whole ok,
        where r = "fst w1" and ?file1.0 = "snd w1" and r' = "fst w2"]) (simp_all add: w1_def w2_def)
  then show ?thesis unfolding w1_def w2_def by blast
qed

end
