(* ===== verification/SharedLog.thy ===== *)
theory SharedLog
  imports Lockfile
begin

section \<open>One file, several processes, one lock\<close>

text \<open>
  The composition of the durable store (\<open>JsonlStore\<close>) with its lockfile (\<open>Lockfile\<close>): processes
  that share one file, each with its instance of the store, run
  \<^verbatim>\<open>append\<close> of \<^verbatim>\<open>packages/event-store/src/jsonl-store.ts\<close> one access to the file system at a
  time. Acquiring the lock, the check for external advances, the repair of a torn line, the write and the release
  are separate steps, and between any two of them other processes open the store, append or end. Reads and
  writes of the whole file are single steps.

  The theorem is that the history does not fork as long as the lock excludes, for which \<open>Lockfile\<close> has the condition:
  no process ends, or only two use the store.
\<close>

subsection \<open>The processes\<close>

text \<open>How far a call of \<^verbatim>\<open>append\<close> has come: waiting for the lock or just given it, past the check, past
  the repair, or at the release.\<close>

datatype append_stage =
    Acquiring string "event_body list" append_env
  | Checked string "event_body list" append_env
  | Repaired string "event_body list" append_env
  | Leaving

record shared_store =
  sh_lock :: lock_system
  sh_file :: "string option"
  sh_insts :: "nat \<Rightarrow> jsonl_store option"
  sh_stage :: "nat \<Rightarrow> append_stage option"

definition at_stage :: "shared_store \<Rightarrow> nat \<Rightarrow> append_stage option \<Rightarrow> shared_store" where
  "at_stage s p st = s\<lparr>sh_stage := (sh_stage s)(p := st)\<rparr>"

definition with_inst :: "shared_store \<Rightarrow> nat \<Rightarrow> jsonl_store option \<Rightarrow> shared_store" where
  "with_inst s p j = s\<lparr>sh_insts := (sh_insts s)(p := j)\<rparr>"

definition shared_start :: shared_store where
  "shared_start = \<lparr>sh_lock = lock_start, sh_file = None, sh_insts = \<lambda>_. None, sh_stage = \<lambda>_. None\<rparr>"

text \<open>The checks of \<^verbatim>\<open>append\<close> before it asks for the lock.\<close>

definition append_asks :: "jsonl_store \<Rightarrow> string \<Rightarrow> event_body list \<Rightarrow> expected_version option \<Rightarrow> bool" where
  "append_asks j i events ev \<longleftrightarrow>
     bind_r (validateStreamId i) (\<lambda>_.
     bind_r (throw_when (events = []) (EventStoreError E_EMPTY_APPEND)) (\<lambda>_.
       check_expected ev (streamVersion (jl_memory j) i))) = Inr ()"

text \<open>One access of the process that has the lock, up to the release.\<close>

definition append_act ::
  "hasher \<Rightarrow> (event_body content \<Rightarrow> string) \<Rightarrow> shared_store \<Rightarrow> nat \<Rightarrow> shared_store" where
  "append_act H canon s p =
     (case (sh_stage s p, sh_insts s p) of
        (Some (Acquiring i events env), Some j) \<Rightarrow>
          (case detectExternalAdvance j (sh_file s) of
             Inl e \<Rightarrow> at_stage s p (Some Leaving)
           | Inr _ \<Rightarrow> at_stage s p (Some (Checked i events env)))
      | (Some (Checked i events env), Some j) \<Rightarrow>
          (case repair_newline j (sh_file s) (ae_repairFault env) of
             (r, j', file') \<Rightarrow>
               at_stage (with_inst (s\<lparr>sh_file := file'\<rparr>) p (Some j')) p
                 (case r of Inl e \<Rightarrow> Some Leaving | Inr _ \<Rightarrow> Some (Repaired i events env)))
      | (Some (Repaired i events env), Some j) \<Rightarrow>
          (let (m, stored) = foldl (append_event H canon i (ae_now env)) (jl_memory j, []) events
           in case writeAndSync (sh_file s) (concat (map record_line stored)) (ae_writeFault env) of
                (Inl e, file') \<Rightarrow> at_stage (s\<lparr>sh_file := file'\<rparr>) p (Some Leaving)
              | (Inr bytes, file') \<Rightarrow>
                  at_stage (with_inst (s\<lparr>sh_file := file'\<rparr>) p (Some (commit j m bytes))) p (Some Leaving))
      | _ \<Rightarrow> s)"

text \<open>Without interruption the accesses of one process are \<open>append_locked\<close>.\<close>

lemma append_act_leaving: "sh_stage s p = Some Leaving \<Longrightarrow> append_act H canon s p = s"
  by (simp add: append_act_def split: option.split)

lemma uninterrupted_append:
  assumes "sh_stage s p = Some (Acquiring i events env)" "sh_insts s p = Some j"
    and "append_locked H canon j (sh_file s) i events env = (r, j', file', calls)"
    and "s' = append_act H canon (append_act H canon (append_act H canon s p) p) p"
  shows "sh_file s' = file' \<and> sh_insts s' p = Some j' \<and> sh_stage s' p = Some Leaving"
proof (cases "detectExternalAdvance j (sh_file s)")
  case (Inl e)
  then show ?thesis using assms by (simp add: append_act_def append_locked_def at_stage_def)
next
  case (Inr u)
  have one: "append_act H canon s p = at_stage s p (Some (Checked i events env))"
    using assms(1,2) Inr by (simp add: append_act_def)
  obtain r1 j1 f1 where rep: "repair_newline j (sh_file s) (ae_repairFault env) = (r1, j1, f1)"
    by (metis prod_cases3)
  have mem: "jl_memory j1 = jl_memory j" using rep by (auto simp: repair_newline_def split: if_splits sum.splits prod.splits)
  let ?s2 = "at_stage (with_inst (s\<lparr>sh_file := f1\<rparr>) p (Some j1)) p
      (case r1 of Inl e \<Rightarrow> Some Leaving | Inr _ \<Rightarrow> Some (Repaired i events env))"
  have two: "append_act H canon (append_act H canon s p) p = ?s2"
    using assms(2) rep unfolding one by (simp add: append_act_def at_stage_def with_inst_def)
  show ?thesis
    using assms(3,4) Inr rep mem unfolding two
    by (cases r1) (auto simp: append_act_def append_locked_def at_stage_def with_inst_def Let_def
        split: prod.splits sum.splits)
qed

text \<open>All interleavings of the processes \<open>ps\<close>, which may end in the phases \<open>may_end\<close> of the lock.\<close>

inductive shared_reachable ::
  "hasher \<Rightarrow> (event_body content \<Rightarrow> string) \<Rightarrow> nat set \<Rightarrow> (lock_phase \<Rightarrow> bool) \<Rightarrow> shared_store \<Rightarrow> bool"
  for H canon ps may_end where
  sh_start: "shared_reachable H canon ps may_end shared_start"
| sh_open: "shared_reachable H canon ps may_end s \<Longrightarrow> p \<in> ps \<Longrightarrow> sh_stage s p = None \<Longrightarrow> ls_phase (sh_lock s) p = Idle \<Longrightarrow>
    jsonl_open H canon opts (sh_file s) = Inr j \<Longrightarrow> shared_reachable H canon ps may_end (with_inst s p (Some j))"
| sh_listen: "shared_reachable H canon ps may_end s \<Longrightarrow> sh_stage s p = None \<Longrightarrow> sh_insts s p = Some j \<Longrightarrow>
    j' \<in> {snd (jsonl_subscribe j i h), snd (jsonl_subscribeAll j h), jsonl_unsubscribe j sub} \<Longrightarrow>
    shared_reachable H canon ps may_end (with_inst s p (Some j'))"
| sh_append: "shared_reachable H canon ps may_end s \<Longrightarrow> p \<in> ps \<Longrightarrow> sh_stage s p = None \<Longrightarrow> ls_phase (sh_lock s) p = Idle \<Longrightarrow>
    sh_insts s p = Some j \<Longrightarrow> append_asks j i events ev \<Longrightarrow> \<forall>b \<in> set events. body_ok b \<Longrightarrow>
    shared_reachable H canon ps may_end
      (at_stage (with_inst (s\<lparr>sh_lock := lock_step (sh_lock s) p False\<rparr>) p (Some (ensure_stream j i))) p
        (Some (Acquiring i events env)))"
| sh_acquire: "shared_reachable H canon ps may_end s \<Longrightarrow> p \<in> ps \<Longrightarrow> sh_stage s p = Some (Acquiring i events env) \<Longrightarrow>
    ls_phase (sh_lock s) p \<noteq> Holding \<Longrightarrow> l = lock_step (sh_lock s) p timeout \<Longrightarrow>
    shared_reachable H canon ps may_end
      (at_stage (s\<lparr>sh_lock := l\<rparr>) p (if ls_phase l p = Idle then None else sh_stage s p))"
| sh_act: "shared_reachable H canon ps may_end s \<Longrightarrow> p \<in> ps \<Longrightarrow> ls_phase (sh_lock s) p = Holding \<Longrightarrow>
    shared_reachable H canon ps may_end (append_act H canon s p)"
| sh_release: "shared_reachable H canon ps may_end s \<Longrightarrow> p \<in> ps \<Longrightarrow> sh_stage s p = Some Leaving \<Longrightarrow>
    shared_reachable H canon ps may_end (at_stage (s\<lparr>sh_lock := lock_step (sh_lock s) p False\<rparr>) p None)"
| sh_end: "shared_reachable H canon ps may_end s \<Longrightarrow> p \<in> ps \<Longrightarrow> may_end (ls_phase (sh_lock s) p) \<Longrightarrow>
    shared_reachable H canon ps may_end
      (at_stage (with_inst (s\<lparr>sh_lock := enter (sh_lock s) p Ended\<rparr>) p None) p None)"

subsection \<open>The invariant\<close>

text \<open>What a process in the critical section knows of the file.\<close>

definition stage_ok ::
  "hasher \<Rightarrow> (event_body content \<Rightarrow> string) \<Rightarrow> string option \<Rightarrow> jsonl_store option \<Rightarrow> append_stage \<Rightarrow> bool" where
  "stage_ok H canon file j st \<longleftrightarrow>
     (case st of
        Acquiring i events env \<Rightarrow> \<forall>b \<in> set events. body_ok b
      | Checked i events env \<Rightarrow> (\<forall>b \<in> set events. body_ok b) \<and> (\<exists>j'. j = Some j' \<and> in_step H canon j' file)
      | Repaired i events env \<Rightarrow>
          (\<forall>b \<in> set events. body_ok b) \<and> (\<exists>j'. j = Some j' \<and> in_step H canon j' file) \<and> \<not> file_torn file
      | Leaving \<Rightarrow> True)"

fun inside :: "append_stage \<Rightarrow> bool" where
  "inside (Acquiring i events env) = False"
| "inside st = True"

definition shared_inv :: "hasher \<Rightarrow> (event_body content \<Rightarrow> string) \<Rightarrow> shared_store \<Rightarrow> bool" where
  "shared_inv H canon s \<longleftrightarrow>
     (\<exists>log. file_holds H canon (sh_file s) log) \<and>
     (\<forall>p j. sh_insts s p = Some j \<longrightarrow> instance_ok H canon j (sh_file s)) \<and>
     (\<forall>p st. sh_stage s p = Some st \<longrightarrow> stage_ok H canon (sh_file s) (sh_insts s p) st \<and>
        (inside st \<longrightarrow> ls_phase (sh_lock s) p = Holding))"

lemma stage_simps [simp]:
  "sh_lock (at_stage s p st) = sh_lock s" "sh_file (at_stage s p st) = sh_file s" "sh_insts (at_stage s p st) = sh_insts s"
  "sh_stage (at_stage s p st) q = (if q = p then st else sh_stage s q)"
  "sh_lock (with_inst s p j) = sh_lock s" "sh_file (with_inst s p j) = sh_file s" "sh_stage (with_inst s p j) = sh_stage s"
  "sh_insts (with_inst s p j) q = (if q = p then j else sh_insts s q)"
  by (simp_all add: at_stage_def with_inst_def)

lemma act_lock [simp]: "sh_lock (append_act H canon s p) = sh_lock s"
  by (auto simp: append_act_def split: option.splits append_stage.splits sum.splits prod.splits)

lemma shared_lock: "shared_reachable H canon ps may_end s \<Longrightarrow> lock_reachable ps may_end (sh_lock s)"
  by (induction rule: shared_reachable.induct) (auto simp: shared_start_def intro: lock_reachable.intros)

lemma lock_step_other: "q \<noteq> p \<Longrightarrow> ls_phase (lock_step s p timeout) q = ls_phase s q"
  by (auto simp: lock_step_def split: lock_phase.split option.split bool.split)

lemma outside_others:
  assumes "lock_reachable ps may_end (sh_lock s)" "(\<forall>ph. \<not> may_end ph) \<or> (\<exists>a b. ps \<subseteq> {a, b})"
    and "shared_inv H canon s" "ls_phase (sh_lock s) p = Holding" "sh_stage s q = Some st" "q \<noteq> p"
  shows "\<not> inside st"
proof
  assume "inside st"
  then have "ls_phase (sh_lock s) q = Holding" using assms(3,5) unfolding shared_inv_def by blast
  then have "ls_lockfile (sh_lock s) = Some (q, True)" "ls_lockfile (sh_lock s) = Some (p, True)"
    using lock_reachable_inv[OF assms(1,2)] assms(4) unfolding lock_inv_def by blast+
  then show False using assms(6) by simp
qed

text \<open>The file may change under the others as long as it grows and they are outside.\<close>

lemma changed_file:
  assumes inv: "shared_inv H canon s" and "\<And>q st. sh_stage s q = Some st \<Longrightarrow> q \<noteq> p \<Longrightarrow> \<not> inside st"
    and "grown (sh_file s) file'" "file_holds H canon file' log'" "instance_ok H canon j' file'"
    and "ls_phase (sh_lock s) p = Holding" "stage_ok H canon file' (Some j') st'"
  shows "shared_inv H canon (at_stage (with_inst (s\<lparr>sh_file := file'\<rparr>) p (Some j')) p (Some st'))"
  unfolding shared_inv_def
proof (intro conjI allI impI)
  fix q st
  assume st: "sh_stage (at_stage (with_inst (s\<lparr>sh_file := file'\<rparr>) p (Some j')) p (Some st')) q = Some st"
  show "stage_ok H canon (sh_file (at_stage (with_inst (s\<lparr>sh_file := file'\<rparr>) p (Some j')) p (Some st')))
      (sh_insts (at_stage (with_inst (s\<lparr>sh_file := file'\<rparr>) p (Some j')) p (Some st')) q) st"
  proof (cases "q = p")
    case False
    then have "\<not> inside st" "stage_ok H canon (sh_file s) (sh_insts s q) st" using assms(2) inv st unfolding shared_inv_def by simp_all
    then show ?thesis by (cases st) (simp_all add: stage_ok_def)
  qed (use st assms(7) in simp)
  show "ls_phase (sh_lock (at_stage (with_inst (s\<lparr>sh_file := file'\<rparr>) p (Some j')) p (Some st'))) q = Holding" if "inside st"
    using st that assms(2,6) by (cases "q = p") simp_all
next
  fix q j
  assume "sh_insts (at_stage (with_inst (s\<lparr>sh_file := file'\<rparr>) p (Some j')) p (Some st')) q = Some j"
  then show "instance_ok H canon j (sh_file (at_stage (with_inst (s\<lparr>sh_file := file'\<rparr>) p (Some j')) p (Some st')))"
    using assms(5) inv instance_grown[OF _ assms(3), of H canon j] unfolding shared_inv_def by (cases "q = p") simp_all
qed (use assms(4) in auto)

lemma unchanged_file:
  assumes "shared_inv H canon s" "stage_ok H canon (sh_file s) (sh_insts s p) st'" "inside st' \<Longrightarrow> ls_phase (sh_lock s) p = Holding"
  shows "shared_inv H canon (at_stage s p (Some st'))"
  using assms unfolding shared_inv_def by simp

text \<open>A step on the lock outside of the critical section.\<close>

lemma moved_lock:
  assumes "shared_inv H canon s" "\<And>q. q \<noteq> p \<Longrightarrow> ls_phase l q = ls_phase (sh_lock s) q"
    and "\<And>j. inst = Some j \<Longrightarrow> instance_ok H canon j (sh_file s)"
    and "\<And>st. st' = Some st \<Longrightarrow> stage_ok H canon (sh_file s) inst st \<and> \<not> inside st"
  shows "shared_inv H canon (at_stage (with_inst (s\<lparr>sh_lock := l\<rparr>) p inst) p st')"
  unfolding shared_inv_def
proof (intro conjI allI impI)
  fix q st
  assume st: "sh_stage (at_stage (with_inst (s\<lparr>sh_lock := l\<rparr>) p inst) p st') q = Some st"
  have old: "q \<noteq> p \<Longrightarrow> stage_ok H canon (sh_file s) (sh_insts s q) st \<and> (inside st \<longrightarrow> ls_phase (sh_lock s) q = Holding)"
    using assms(1) st unfolding shared_inv_def by simp
  show "stage_ok H canon (sh_file (at_stage (with_inst (s\<lparr>sh_lock := l\<rparr>) p inst) p st'))
      (sh_insts (at_stage (with_inst (s\<lparr>sh_lock := l\<rparr>) p inst) p st') q) st"
    using st old assms(4) by (cases "q = p") simp_all
  show "ls_phase (sh_lock (at_stage (with_inst (s\<lparr>sh_lock := l\<rparr>) p inst) p st')) q = Holding" if "inside st"
    using st old assms(2,4) that by (cases "q = p") simp_all
qed (use assms(1,3) in \<open>auto simp: shared_inv_def split: if_splits\<close>)

lemma act_inv:
  assumes inv: "shared_inv H canon s" and others: "\<And>q st. sh_stage s q = Some st \<Longrightarrow> q \<noteq> p \<Longrightarrow> \<not> inside st"
    and hold: "ls_phase (sh_lock s) p = Holding"
  shows "shared_inv H canon (append_act H canon s p)"
proof (cases "\<exists>st j. sh_stage s p = Some st \<and> st \<noteq> Leaving \<and> sh_insts s p = Some j")
  case False
  then have "append_act H canon s p = s"
    by (cases "sh_stage s p"; cases "sh_insts s p") (auto simp: append_act_def split: append_stage.split)
  then show ?thesis using inv by simp
next
  case True
  then obtain st j where st: "sh_stage s p = Some st" "st \<noteq> Leaving" "sh_insts s p = Some j" by blast
  have ok: "stage_ok H canon (sh_file s) (Some j) st" "instance_ok H canon j (sh_file s)"
    using inv st unfolding shared_inv_def by fastforce+
  note changed = changed_file[OF inv others, of p]
  show ?thesis
  proof (cases st)
    case (Acquiring i events env)
    show ?thesis
    proof (cases "detectExternalAdvance j (sh_file s)")
      case (Inl e)
      then have "append_act H canon s p = at_stage s p (Some Leaving)" using st Acquiring by (simp add: append_act_def)
      then show ?thesis using unchanged_file[OF inv] hold by (simp add: stage_ok_def)
    next
      case (Inr u)
      then have "append_act H canon s p = at_stage s p (Some (Checked i events env))" using st Acquiring by (simp add: append_act_def)
      moreover have "in_step H canon j (sh_file s)" by (rule detect_passes[OF ok(2)]) (use Inr in simp)
      ultimately show ?thesis using unchanged_file[OF inv] hold ok(1) st(3) Acquiring by (simp add: stage_ok_def)
    qed
  next
    case (Checked i events env)
    then have step: "in_step H canon j (sh_file s)" and good: "\<forall>b \<in> set events. body_ok b" using ok(1) by (auto simp: stage_ok_def)
    obtain r j' file' where rep: "repair_newline j (sh_file s) (ae_repairFault env) = (r, j', file')" by (rule prod_cases3)
    note fixed = repair_step[OF step rep]
    have "append_act H canon s p = at_stage (with_inst (s\<lparr>sh_file := file'\<rparr>) p (Some j')) p
        (Some (case r of Inl e \<Rightarrow> Leaving | Inr _ \<Rightarrow> Repaired i events env))"
      using st Checked rep by (simp add: append_act_def split: sum.split)
    moreover have "stage_ok H canon file' (Some j') (case r of Inl e \<Rightarrow> Leaving | Inr _ \<Rightarrow> Repaired i events env)"
      using fixed(5) good by (cases r) (simp_all add: stage_ok_def)
    ultimately show ?thesis using changed[OF _ _ fixed(4,2,3) hold] by simp
  next
    case (Repaired i events env)
    then have step: "in_step H canon j (sh_file s)" "\<not> file_torn (sh_file s)" and good: "\<forall>b \<in> set events. body_ok b"
      using ok(1) by (auto simp: stage_ok_def)
    obtain m stored where f: "foldl (append_event H canon i (ae_now env)) (jl_memory j, []) events = (m, stored)" by fastforce
    have "store_wf H canon (jl_memory j)" using step(1) by (simp add: in_step_def)
    note new = appended_records_ok[OF this f good]
    obtain r file' where w: "writeAndSync (sh_file s) (concat (map record_line stored)) (ae_writeFault env) = (r, file')" by fastforce
    note grown = write_grown[OF w]
    obtain k where written: "file_holds H canon file' (es_globalLog (jl_memory j) @ take k stored)"
      "\<And>bytes. r = Inr bytes \<Longrightarrow> in_step H canon (commit j m bytes) file'"
      by (rule write_step[OF step new(3,2,4) w]) blast
    have act: "append_act H canon s p = (case r of
        Inl e \<Rightarrow> at_stage (s\<lparr>sh_file := file'\<rparr>) p (Some Leaving)
      | Inr bytes \<Rightarrow> at_stage (with_inst (s\<lparr>sh_file := file'\<rparr>) p (Some (commit j m bytes))) p (Some Leaving))"
      using st Repaired f w by (simp add: append_act_def)
    have same: "s\<lparr>sh_file := file'\<rparr> = with_inst (s\<lparr>sh_file := file'\<rparr>) p (Some j)" using st(3) by (simp add: with_inst_def fun_upd_idem)
    show ?thesis
    proof (cases r)
      case (Inl e)
      then have "append_act H canon s p = at_stage (with_inst (s\<lparr>sh_file := file'\<rparr>) p (Some j)) p (Some Leaving)"
        using act same by simp
      then show ?thesis
        using changed[OF _ _ grown written(1) instance_grown[OF ok(2) grown] hold] by (simp add: stage_ok_def)
    next
      case (Inr bytes)
      then show ?thesis
        using changed[where j' = "commit j m bytes" and st' = Leaving, OF _ _ grown written(1) _ hold] written(2)[OF Inr] act
        by (simp add: stage_ok_def instance_ok_def)
    qed
  qed (use st in simp)
qed

lemma shared_ok:
  assumes "shared_reachable H canon ps may_end s" "(\<forall>ph. \<not> may_end ph) \<or> (\<exists>a b. ps \<subseteq> {a, b})"
  shows "shared_inv H canon s"
  using assms(1)
proof induction
  case sh_start
  then show ?case by (auto simp: shared_inv_def shared_start_def file_holds_none)
next
  case (sh_open s p opts j)
  then have "instance_ok H canon j (sh_file s)" using open_result by (fastforce simp: instance_ok_def shared_inv_def)
  then show ?case using sh_open.IH sh_open.hyps(3) unfolding shared_inv_def by auto
next
  case (sh_listen s p j j' i h sub)
  then have "instance_ok H canon j' (sh_file s)" using subscriptions_ok unfolding shared_inv_def by blast
  then show ?case using sh_listen.IH sh_listen.hyps(2) unfolding shared_inv_def by auto
next
  case (sh_append s p j i events ev env)
  then have "instance_ok H canon j (sh_file s)" unfolding shared_inv_def by blast
  then show ?case using sh_append.hyps(7)
    by (intro moved_lock[OF sh_append.IH]) (auto simp: lock_step_other stage_ok_def)
next
  case (sh_acquire s p i events env l timeout)
  have same: "s\<lparr>sh_lock := l\<rparr> = with_inst (s\<lparr>sh_lock := l\<rparr>) p (sh_insts s p)" by (simp add: with_inst_def fun_upd_idem)
  have "stage_ok H canon (sh_file s) (sh_insts s p) (Acquiring i events env)"
    "\<And>j. sh_insts s p = Some j \<Longrightarrow> instance_ok H canon j (sh_file s)"
    using sh_acquire.IH sh_acquire.hyps(3) unfolding shared_inv_def by blast+
  then show ?case using sh_acquire.hyps(3,5)
    by (subst same, intro moved_lock[OF sh_acquire.IH]) (auto simp: lock_step_other split: if_splits)
next
  case (sh_act s p)
  then show ?case using act_inv outside_others[OF shared_lock[OF sh_act.hyps(1)] assms(2) sh_act.IH sh_act.hyps(3)] by blast
next
  case (sh_release s p)
  let ?l = "lock_step (sh_lock s) p False"
  have same: "s\<lparr>sh_lock := ?l\<rparr> = with_inst (s\<lparr>sh_lock := ?l\<rparr>) p (sh_insts s p)" by (simp add: with_inst_def fun_upd_idem)
  have "\<And>j. sh_insts s p = Some j \<Longrightarrow> instance_ok H canon j (sh_file s)"
    using sh_release.IH unfolding shared_inv_def by blast
  then show ?case by (subst same, intro moved_lock[OF sh_release.IH]) (auto simp: lock_step_other)
next
  case (sh_end s p)
  then show ?case by (intro moved_lock[OF sh_end.IH]) auto
qed

subsection \<open>Properties\<close>

text \<open>C5: While the lock excludes - no process ends, or only two processes use the store - no interleaving of the lock,
  the checks, the repairs and the writes of their appends (of events that JSON represents) forks the history, whatever
  writes fail or are cut off and whenever one of two processes ends: the file always opens with its integrity verified, the records in it have positions
  1, 2, 3, ..., their hashes form one chain from the genesis hash, and each stream has the versions 1, 2, 3, ...\<close>

theorem locked_history_never_forks:
  assumes "shared_reachable H canon ps may_end s" "(\<forall>ph. \<not> may_end ph) \<or> (\<exists>a b. ps \<subseteq> {a, b})"
  shows "\<exists>j. jsonl_open H canon \<lparr>jo_verifyOnLoad = Some True, jo_maxLoadBytes = None\<rparr> (sh_file s) = Inr j \<and>
    counted sv_globalPosition (es_globalLog (jl_memory j)) \<and>
    chain_ok H canon GENESIS_HASH (es_globalLog (jl_memory j)) \<and>
    (\<forall>i. counted sv_version (stream_of (jl_memory j) i))"
proof -
  obtain log where "file_holds H canon (sh_file s) log" using shared_ok[OF assms] unfolding shared_inv_def by blast
  moreover have "jo_maxLoadBytes \<lparr>jo_verifyOnLoad = Some True, jo_maxLoadBytes = None\<rparr> = None" by simp
  ultimately obtain j where "jsonl_open H canon \<lparr>jo_verifyOnLoad = Some True, jo_maxLoadBytes = None\<rparr> (sh_file s) = Inr j"
    "in_step H canon j (sh_file s)" by (rule open_in_step)
  then show ?thesis by (auto simp: in_step_def store_wf_def)
qed


subsection \<open>Witness\<close>

text \<open>Process 0 of two opens the empty file and appends an event, up to the write.\<close>

abbreviation sample_reachable :: "shared_store \<Rightarrow> bool" where
  "sample_reachable \<equiv> shared_reachable sample_hash body_canon {0, 1} (\<lambda>_. True)"

definition sample_opened :: shared_store where
  "sample_opened = with_inst shared_start 0 (Some sample_jsonl)"

definition sample_asked :: shared_store where
  "sample_asked = at_stage (with_inst (sample_opened\<lparr>sh_lock := lock_step (sh_lock sample_opened) 0 False\<rparr>) 0
     (Some (ensure_stream sample_jsonl ''s''))) 0 (Some (Acquiring ''s'' [sample_body, sample_body] sample_env))"

definition lock_call_0 :: "shared_store \<Rightarrow> shared_store" where
  "lock_call_0 s = at_stage (s\<lparr>sh_lock := lock_step (sh_lock s) 0 False\<rparr>) 0
     (if ls_phase (lock_step (sh_lock s) 0 False) 0 = Idle then None else sh_stage s 0)"

definition sample_entered :: shared_store where
  "sample_entered = lock_call_0 (lock_call_0 sample_asked)"

lemma sample_asked_reachable: "sample_reachable sample_asked"
proof -
  have "sample_reachable sample_opened" unfolding sample_opened_def
    by (rule sh_open[OF sh_start, where opts = sample_options]) (simp_all add: shared_start_def lock_start_def sample_jsonl_open)
  then show ?thesis unfolding sample_asked_def
  proof (rule sh_append)
    show "append_asks sample_jsonl ''s'' [sample_body, sample_body] None"
      by (simp add: append_asks_def validateStreamId_def throw_when_def check_expected_def)
  qed (use sample_body_ok in \<open>simp_all add: sample_opened_def shared_start_def lock_start_def\<close>)
qed

lemma sample_phases:
  "ls_phase (sh_lock sample_asked) 0 = Creating False" "ls_phase (sh_lock (lock_call_0 sample_asked)) 0 = Writing_pid"
  "ls_phase (sh_lock sample_entered) 0 = Holding"
  by (simp_all add: sample_entered_def lock_call_0_def sample_asked_def sample_opened_def shared_start_def lock_start_def lock_step_def)

lemma sample_stages:
  "sh_stage sample_asked 0 = Some (Acquiring ''s'' [sample_body, sample_body] sample_env)"
  "sh_stage (lock_call_0 sample_asked) 0 = sh_stage sample_asked 0" "sh_stage sample_entered 0 = sh_stage sample_asked 0"
  "sh_insts sample_entered 0 = Some (ensure_stream sample_jsonl ''s'')" "sh_file sample_entered = None"
proof -
  show "sh_stage sample_asked 0 = Some (Acquiring ''s'' [sample_body, sample_body] sample_env)" by (simp add: sample_asked_def)
  have "ls_phase (lock_step (sh_lock sample_asked) 0 False) 0 = Writing_pid" using sample_phases(2) by (simp add: lock_call_0_def)
  then show one: "sh_stage (lock_call_0 sample_asked) 0 = sh_stage sample_asked 0" by (simp add: lock_call_0_def)
  have "ls_phase (lock_step (sh_lock (lock_call_0 sample_asked)) 0 False) 0 = Holding"
    using sample_phases(3) by (simp add: sample_entered_def lock_call_0_def[of "lock_call_0 sample_asked"])
  then show "sh_stage sample_entered 0 = sh_stage sample_asked 0"
    using one by (simp add: sample_entered_def lock_call_0_def[of "lock_call_0 sample_asked"])
  show "sh_insts sample_entered 0 = Some (ensure_stream sample_jsonl ''s'')" "sh_file sample_entered = None"
    by (simp_all add: sample_entered_def lock_call_0_def sample_asked_def sample_opened_def shared_start_def)
qed

lemma sample_entered_reachable: "sample_reachable sample_entered"
proof -
  have "sample_reachable (lock_call_0 sample_asked)" unfolding lock_call_0_def
    by (rule sh_acquire[OF sample_asked_reachable _ sample_stages(1)]) (simp_all add: sample_phases(1))
  then show ?thesis unfolding sample_entered_def lock_call_0_def[of "lock_call_0 sample_asked"]
    by (rule sh_acquire[OF _ _ sample_stages(2)[unfolded sample_stages(1)]]) (simp_all add: sample_phases(2))
qed

theorem locked_history_never_forks_witness:
  "\<exists>s. sample_reachable s \<and> sh_file s \<noteq> None \<and>
    (\<exists>j. jsonl_open sample_hash body_canon \<lparr>jo_verifyOnLoad = Some True, jo_maxLoadBytes = None\<rparr> (sh_file s) = Inr j)"
proof -
  let ?act = "\<lambda>s. append_act sample_hash body_canon s 0"
  have hold: "ls_phase (sh_lock sample_entered) 0 = Holding" by (rule sample_phases(3))
  have reach: "sample_reachable (?act (?act (?act sample_entered)))"
    by (intro sh_act sample_entered_reachable) (simp_all add: hold)
  let ?j = "ensure_stream sample_jsonl ''s''"
  have "detectExternalAdvance ?j None = Inr ()" by (simp add: detectExternalAdvance_def sample_memory throw_when_def)
  then have one: "?act sample_entered = at_stage sample_entered 0 (Some (Checked ''s'' [sample_body, sample_body] sample_env))"
    by (simp add: append_act_def sample_stages)
  have "in_step sample_hash body_canon sample_jsonl None"
    using open_result[OF _ sample_jsonl_open, of "[]"] by (simp add: file_holds_none)
  then have "\<not> jl_needsTrailingNewline sample_jsonl" by (simp add: in_step_def file_torn_def)
  then have "repair_newline ?j None (ae_repairFault sample_env) = (Inr (), ?j, None)" by (simp add: repair_newline_def)
  then have two: "sh_stage (?act (?act sample_entered)) 0 = Some (Repaired ''s'' [sample_body, sample_body] sample_env)"
    "sh_insts (?act (?act sample_entered)) 0 = Some ?j"
    unfolding one by (simp_all add: append_act_def sample_stages)
  have "sh_file (?act s) \<noteq> None" if "sh_stage s 0 = Some (Repaired i events sample_env)" "sh_insts s 0 = Some j" for s i events j
    using that by (simp add: append_act_def writeAndSync_def sample_env_def split: prod.split)
  from this[OF two] have written: "sh_file (?act (?act (?act sample_entered))) \<noteq> None" .
  have "(\<forall>ph. \<not> (\<lambda>_. True) (ph :: lock_phase)) \<or> (\<exists>a b. {0, 1} \<subseteq> {a, b :: nat})" by blast
  from locked_history_never_forks[OF reach this] reach written show ?thesis by blast
qed

end
