(* ===== verification/Snapshots.thy ===== *)
theory Snapshots
  imports JsonlStore
begin

section \<open>Snapshot stores\<close>

text \<open>
  Model of \<^verbatim>\<open>packages/event-store/src/snapshot-store.ts\<close>: snapshots of aggregates, kept in
  memory or as files \<^verbatim>\<open><hash of the stream>/<version>.json\<close> that are written to a temporary
  file and renamed. A directory maps file names to texts, the base directory maps directory names to
  directories; a write may fail or be cut off. States are JSON values. A snapshot that is read from a file has
  whatever creation time and algorithm the file has. The canonical JSON of a state (\<open>canon\<close>) and SHA-256
  are parameters; telemetry is left out, and so is a \<^verbatim>\<open>keep\<close> that is not an integer.

  What a snapshot store promises is the locale \<open>snapshot_store\<close>, stated over the sorted lists of
  snapshots that are held per stream; both stores are interpretations. The lemmas show that the file store
  answers like the store in memory, with failed saves and auto-pruning, that a save that is cut off changes no snapshot, and that a
  state that was tampered with is not returned.
\<close>

subsection \<open>Snapshots\<close>

record stored_snapshot =
  ss_streamId :: string
  ss_version :: int
  ss_state :: json
  ss_createdAt :: "json option"
  ss_stateHash :: string
  ss_hashAlgorithm :: "json option"

record snapshot_store_options =
  so_verifyOnLoad :: "bool option"
  so_maxSnapshotsPerStream :: "int option"

record prune_result =
  pn_deleted :: int
  pn_kept :: int

definition computeSnapshotHash :: "hasher \<Rightarrow> (json \<Rightarrow> string) \<Rightarrow> json \<Rightarrow> string" where
  "computeSnapshotHash H canon state = sha256 H (canon state)"

definition verifySnapshotIntegrity :: "hasher \<Rightarrow> (json \<Rightarrow> string) \<Rightarrow> stored_snapshot \<Rightarrow> bool" where
  "verifySnapshotIntegrity H canon x =
     (if ss_stateHash x = [] then False else ss_stateHash x = computeSnapshotHash H canon (ss_state x))"

definition make_snapshot ::
  "hasher \<Rightarrow> (json \<Rightarrow> string) \<Rightarrow> string \<Rightarrow> int \<Rightarrow> json \<Rightarrow> string \<Rightarrow> stored_snapshot" where
  "make_snapshot H canon i v state now =
     \<lparr>ss_streamId = i, ss_version = v, ss_state = state, ss_createdAt = Some (Js_str now),
      ss_stateHash = computeSnapshotHash H canon state, ss_hashAlgorithm = Some (Js_str ''sha256'')\<rparr>"

definition check_keep :: "int \<Rightarrow> unit result" where
  "check_keep keep = throw_when (keep < 1) PlainError"

definition verified ::
  "hasher \<Rightarrow> (json \<Rightarrow> string) \<Rightarrow> bool \<Rightarrow> stored_snapshot option \<Rightarrow> stored_snapshot option" where
  "verified H canon verify x =
     (case x of
        None \<Rightarrow> None
      | Some s \<Rightarrow> if verify \<and> \<not> verifySnapshotIntegrity H canon s then None else Some s)"

subsection \<open>In memory\<close>

record memory_snapshots =
  ms_snapshots :: "(string, stored_snapshot list) jsmap"
  ms_verifyOnLoad :: bool

definition new_memory_snapshots :: "snapshot_store_options \<Rightarrow> memory_snapshots" where
  "new_memory_snapshots opts = \<lparr>ms_snapshots = [], ms_verifyOnLoad = option_or (so_verifyOnLoad opts) True\<rparr>"

fun findIndex :: "('b \<Rightarrow> bool) \<Rightarrow> 'b list \<Rightarrow> nat option" where
  "findIndex P [] = None"
| "findIndex P (x # xs) = (if P x then Some 0 else map_option Suc (findIndex P xs))"

text \<open>The snapshot list after \<^verbatim>\<open>save\<close>: the one of the same version is taken out, then the new one goes
  before the first higher version.\<close>

definition replace_version :: "stored_snapshot \<Rightarrow> stored_snapshot list \<Rightarrow> stored_snapshot list" where
  "replace_version x snapshots =
     (let rest = (case findIndex (\<lambda>s. ss_version s = ss_version x) snapshots of
            Some k \<Rightarrow> take k snapshots @ drop (k + 1) snapshots
          | None \<Rightarrow> snapshots)
      in case findIndex (\<lambda>s. ss_version s > ss_version x) rest of
           Some k \<Rightarrow> take k rest @ [x] @ drop k rest
         | None \<Rightarrow> rest @ [x])"

definition memory_list :: "memory_snapshots \<Rightarrow> string \<Rightarrow> stored_snapshot list" where
  "memory_list s i = option_or (jm_get (ms_snapshots s) i) []"

definition memory_save ::
  "hasher \<Rightarrow> (json \<Rightarrow> string) \<Rightarrow> memory_snapshots \<Rightarrow> string \<Rightarrow> int \<Rightarrow> json \<Rightarrow> string \<Rightarrow> memory_snapshots" where
  "memory_save H canon s i v state now =
     s\<lparr>ms_snapshots := jm_set (ms_snapshots s) i
         (replace_version (make_snapshot H canon i v state now) (memory_list s i))\<rparr>"

definition memory_load ::
  "hasher \<Rightarrow> (json \<Rightarrow> string) \<Rightarrow> memory_snapshots \<Rightarrow> string \<Rightarrow> stored_snapshot option" where
  "memory_load H canon s i =
     (case jm_get (ms_snapshots s) i of
        None \<Rightarrow> None
      | Some xs \<Rightarrow> if xs = [] then None else verified H canon (ms_verifyOnLoad s) (Some (last xs)))"

definition memory_loadAtVersion ::
  "hasher \<Rightarrow> (json \<Rightarrow> string) \<Rightarrow> memory_snapshots \<Rightarrow> string \<Rightarrow> int \<Rightarrow> stored_snapshot option" where
  "memory_loadAtVersion H canon s i v =
     (case jm_get (ms_snapshots s) i of
        None \<Rightarrow> None
      | Some xs \<Rightarrow> verified H canon (ms_verifyOnLoad s) (find (\<lambda>x. ss_version x = v) xs))"

definition memory_deleteAll :: "memory_snapshots \<Rightarrow> string \<Rightarrow> memory_snapshots" where
  "memory_deleteAll s i = s\<lparr>ms_snapshots := filter (\<lambda>(k, _). k \<noteq> i) (ms_snapshots s)\<rparr>"

definition memory_prune ::
  "memory_snapshots \<Rightarrow> string \<Rightarrow> int \<Rightarrow> prune_result result \<times> memory_snapshots" where
  "memory_prune s i keep =
     (case check_keep keep of
        Inl e \<Rightarrow> (Inl e, s)
      | Inr _ \<Rightarrow>
          let xs = memory_list s i; n = int (length xs)
          in if jm_get (ms_snapshots s) i = None \<or> n \<le> keep then (Inr \<lparr>pn_deleted = 0, pn_kept = n\<rparr>, s)
             else (Inr \<lparr>pn_deleted = n - keep, pn_kept = n - (n - keep)\<rparr>,
               s\<lparr>ms_snapshots := jm_set (ms_snapshots s) i (drop (nat (n - keep)) xs)\<rparr>))"

definition memory_hasSnapshot :: "memory_snapshots \<Rightarrow> string \<Rightarrow> bool" where
  "memory_hasSnapshot s i \<longleftrightarrow> 0 < length (memory_list s i)"

subsection \<open>As files\<close>

type_synonym directory = "(string, string) jsmap"

record file_snapshots =
  fd_dirs :: "(string, directory) jsmap"
  fd_verifyOnLoad :: bool
  fd_maxSnapshots :: "int option"

definition new_file_snapshots ::
  "snapshot_store_options \<Rightarrow> (string, directory) jsmap \<Rightarrow> file_snapshots result" where
  "new_file_snapshots opts dirs =
     bind_r (case so_maxSnapshotsPerStream opts of None \<Rightarrow> Inr () | Some n \<Rightarrow> check_keep n) (\<lambda>_.
       Inr \<lparr>fd_dirs = dirs, fd_verifyOnLoad = option_or (so_verifyOnLoad opts) True,
            fd_maxSnapshots = so_maxSnapshotsPerStream opts\<rparr>)"

definition streamDir :: "hasher \<Rightarrow> string \<Rightarrow> string" where
  "streamDir H i = take 32 (sha256 H i)"

definition version_file :: "int \<Rightarrow> string" where
  "version_file v = int_str v @ ''.json''"

text \<open>The version of a file name that matches \<^verbatim>\<open>^(\d+)\.json$\<close>.\<close>

definition file_version :: "string \<Rightarrow> int option" where
  "file_version name =
     (let digits = takeWhile is_digit name
      in if digits \<noteq> [] \<and> dropWhile is_digit name = ''.json'' then Some (int (bigint_of digits)) else None)"

definition dir_files :: "hasher \<Rightarrow> file_snapshots \<Rightarrow> string \<Rightarrow> directory" where
  "dir_files H s i = option_or (jm_get (fd_dirs s) (streamDir H i)) []"

definition listVersions :: "hasher \<Rightarrow> file_snapshots \<Rightarrow> string \<Rightarrow> int list" where
  "listVersions H s i = sort (concat (map (\<lambda>name. case file_version name of None \<Rightarrow> [] | Some v \<Rightarrow> [v])
     (jm_keys (dir_files H s i))))"

definition snapshot_json :: "stored_snapshot \<Rightarrow> json" where
  "snapshot_json x = Js_obj (defined_properties
     [(''streamId'', Some (Js_str (ss_streamId x))), (''version'', Some (Js_num (ss_version x))),
      (''state'', Some (ss_state x)), (''createdAt'', ss_createdAt x),
      (''stateHash'', Some (Js_str (ss_stateHash x))), (''hashAlgorithm'', ss_hashAlgorithm x)])"

definition parsed_snapshot :: "json \<Rightarrow> stored_snapshot option" where
  "parsed_snapshot v =
     (case (json_property v ''streamId'', json_property v ''version'', json_property v ''stateHash'',
            json_property v ''state'') of
        (Some (Js_str i), Some (Js_num n), Some (Js_str h), Some st) \<Rightarrow>
          Some \<lparr>ss_streamId = i, ss_version = n, ss_state = st, ss_createdAt = json_property v ''createdAt'',
                ss_stateHash = h, ss_hashAlgorithm = json_property v ''hashAlgorithm''\<rparr>
      | _ \<Rightarrow> None)"

text \<open>Reading a property of \<^verbatim>\<open>null\<close> throws, outside of the \<^verbatim>\<open>try\<close>.\<close>

definition readSnapshot ::
  "hasher \<Rightarrow> (json \<Rightarrow> string) \<Rightarrow> file_snapshots \<Rightarrow> string \<Rightarrow> int \<Rightarrow> stored_snapshot option result" where
  "readSnapshot H canon s i v =
     (case jm_get (dir_files H s i) (version_file v) of
        None \<Rightarrow> Inr None
      | Some content \<Rightarrow>
          (case JSON_parse content of
             None \<Rightarrow> Inr None
           | Some parsed \<Rightarrow>
               if parsed = Js_null then Inl PlainError
               else Inr (verified H canon (fd_verifyOnLoad s) (parsed_snapshot parsed))))"

definition file_load ::
  "hasher \<Rightarrow> (json \<Rightarrow> string) \<Rightarrow> file_snapshots \<Rightarrow> string \<Rightarrow> stored_snapshot option result" where
  "file_load H canon s i =
     (let versions = listVersions H s i
      in if versions = [] then Inr None else readSnapshot H canon s i (last versions))"

definition file_loadAtVersion ::
  "hasher \<Rightarrow> (json \<Rightarrow> string) \<Rightarrow> file_snapshots \<Rightarrow> string \<Rightarrow> int \<Rightarrow> stored_snapshot option result" where
  "file_loadAtVersion H canon s i v = readSnapshot H canon s i v"

definition file_deleteAll :: "hasher \<Rightarrow> file_snapshots \<Rightarrow> string \<Rightarrow> file_snapshots" where
  "file_deleteAll H s i =
     (if jm_has (fd_dirs s) (streamDir H i) then s\<lparr>fd_dirs := jm_set (fd_dirs s) (streamDir H i) []\<rparr> else s)"

definition unlink :: "string \<Rightarrow> directory \<Rightarrow> directory" where
  "unlink name d = filter (\<lambda>(k, _). k \<noteq> name) d"

text \<open>The loop over the versions to delete; \<open>deleted\<close> counts the files that were there.\<close>

definition prune_step :: "int \<times> directory \<Rightarrow> int \<Rightarrow> int \<times> directory" where
  "prune_step st v = (case st of (deleted, d) \<Rightarrow>
     if jm_has d (version_file v) then (deleted + 1, unlink (version_file v) d) else (deleted, d))"

definition file_prune ::
  "hasher \<Rightarrow> file_snapshots \<Rightarrow> string \<Rightarrow> int \<Rightarrow> prune_result result \<times> file_snapshots" where
  "file_prune H s i keep =
     (case check_keep keep of
        Inl e \<Rightarrow> (Inl e, s)
      | Inr _ \<Rightarrow>
          let versions = listVersions H s i; n = int (length versions)
          in if n \<le> keep then (Inr \<lparr>pn_deleted = 0, pn_kept = n\<rparr>, s)
             else let (deleted, d) = foldl prune_step (0, dir_files H s i) (take (nat (n - keep)) versions)
               in (Inr \<lparr>pn_deleted = deleted, pn_kept = n - deleted\<rparr>,
                   s\<lparr>fd_dirs := jm_set (fd_dirs s) (streamDir H i) d\<rparr>))"

text \<open>The directory after the write of the temporary file and the rename; a write that fails leaves the
  temporary file.\<close>

definition atomic_write :: "directory \<Rightarrow> string \<Rightarrow> string \<Rightarrow> write_fault \<Rightarrow> unit result \<times> directory" where
  "atomic_write d name content fault =
     (let tmp = name @ ''.tmp''
      in case fault of
           Open_fails \<Rightarrow> (Inl PlainError, d)
         | Cut_after n \<Rightarrow> (Inl PlainError, jm_set d tmp (take n content))
         | No_fault \<Rightarrow> (Inr (), jm_set (unlink tmp d) name content))"

definition file_save ::
  "hasher \<Rightarrow> (json \<Rightarrow> string) \<Rightarrow> file_snapshots \<Rightarrow> string \<Rightarrow> int \<Rightarrow> json \<Rightarrow> string \<Rightarrow> write_fault \<Rightarrow>
   unit result \<times> file_snapshots" where
  "file_save H canon s i v state now fault =
     (let x = make_snapshot H canon i v state now;
          (r, d) = atomic_write (dir_files H s i) (version_file v) (json_text 2 0 (snapshot_json x)) fault;
          s = s\<lparr>fd_dirs := jm_set (fd_dirs s) (streamDir H i) d\<rparr>
      in case r of
           Inl e \<Rightarrow> (Inl e, s)
         | Inr _ \<Rightarrow>
             (case fd_maxSnapshots s of
                None \<Rightarrow> (Inr (), s)
              | Some n \<Rightarrow> (case file_prune H s i n of (r, s) \<Rightarrow> (map_sum id (\<lambda>_. ()) r, s))))"

definition file_hasSnapshot :: "hasher \<Rightarrow> file_snapshots \<Rightarrow> string \<Rightarrow> bool" where
  "file_hasSnapshot H s i \<longleftrightarrow> 0 < length (listVersions H s i)"


subsection \<open>Sorted lists of snapshots\<close>

definition by_version :: "stored_snapshot list \<Rightarrow> bool" where
  "by_version xs \<longleftrightarrow> sorted_wrt (\<lambda>x y. ss_version x < ss_version y) xs"

definition put_version :: "stored_snapshot \<Rightarrow> stored_snapshot list \<Rightarrow> stored_snapshot list" where
  "put_version x xs = filter (\<lambda>y. ss_version y < ss_version x) xs @ x # filter (\<lambda>y. ss_version y > ss_version x) xs"

definition keep_last :: "int \<Rightarrow> 'b list \<Rightarrow> 'b list" where
  "keep_last k xs = drop (nat (int (length xs) - k)) xs"

lemma by_version_Nil [simp]: "by_version []"
  by (simp add: by_version_def)

lemma by_version_sorted: "by_version xs \<longleftrightarrow> sorted (map ss_version xs) \<and> distinct (map ss_version xs)"
  using strict_sorted_iff[of "map ss_version xs"] by (simp add: by_version_def sorted_wrt_map)

lemma by_version_unique:
  assumes "by_version xs" "by_version ys" "set xs = set ys"
  shows "xs = ys"
proof -
  have "inj_on ss_version (set xs \<union> set ys)" using assms by (simp add: by_version_sorted distinct_map)
  then show ?thesis using assms map_sorted_distinct_set_unique[of ss_version xs ys]
    by (simp add: by_version_sorted)
qed

lemma put_version_sorted: "by_version xs \<Longrightarrow> by_version (put_version x xs)"
  by (auto simp: by_version_def put_version_def sorted_wrt_append sorted_wrt_filter)

lemma put_version_set [simp]:
  "set (put_version x xs) = insert x {y \<in> set xs. ss_version y \<noteq> ss_version x}"
  by (auto simp: put_version_def)

lemma put_version_nonempty [simp]: "put_version x xs \<noteq> []"
  by (simp add: put_version_def)

lemma put_version_last:
  "\<forall>y \<in> set xs. ss_version y \<le> ss_version x \<Longrightarrow> last (put_version x xs) = x"
proof -
  assume "\<forall>y \<in> set xs. ss_version y \<le> ss_version x"
  then have "filter (\<lambda>y. ss_version y > ss_version x) xs = []" by (auto simp: filter_empty_conv)
  then show ?thesis by (simp add: put_version_def)
qed

lemma keep_last_sorted: "by_version xs \<Longrightarrow> by_version (keep_last k xs)"
  by (simp add: by_version_def keep_last_def sorted_wrt_drop)

lemma keep_last_last: "1 \<le> k \<Longrightarrow> xs \<noteq> [] \<Longrightarrow> keep_last k xs \<noteq> [] \<and> last (keep_last k xs) = last xs"
proof -
  assume "1 \<le> k" "xs \<noteq> []"
  then have "0 < length xs" by simp
  with \<open>1 \<le> k\<close> have "nat (int (length xs) - k) < length xs" by linarith
  then show ?thesis by (simp add: keep_last_def)
qed

lemma findIndex_remove:
  "distinct (map f xs) \<Longrightarrow>
   (case findIndex (\<lambda>x. f x = v) xs of Some k \<Rightarrow> take k xs @ drop (k + 1) xs | None \<Rightarrow> xs) = filter (\<lambda>x. f x \<noteq> v) xs"
proof (induction xs)
  case (Cons x xs)
  have "\<forall>y \<in> set xs. f y \<noteq> f x" using Cons.prems by (metis distinct.simps(2) image_eqI list.simps(9) set_map)
  then have "f x = v \<Longrightarrow> filter (\<lambda>x. f x \<noteq> v) xs = xs" by (simp add: filter_id_conv)
  then show ?case using Cons by (auto split: option.splits)
qed simp

lemma findIndex_insert:
  "sorted_wrt (\<lambda>x y. ss_version x < ss_version y) xs \<Longrightarrow>
   (case findIndex (\<lambda>s. ss_version s > v) xs of Some k \<Rightarrow> take k xs @ [x] @ drop k xs | None \<Rightarrow> xs @ [x]) =
   filter (\<lambda>s. ss_version s \<le> v) xs @ x # filter (\<lambda>s. ss_version s > v) xs"
proof (induction xs)
  case (Cons y ys)
  show ?case
  proof (cases "ss_version y > v")
    case True
    then have "filter (\<lambda>s. ss_version s \<le> v) ys = []" "filter (\<lambda>s. ss_version s > v) ys = ys"
      using Cons.prems by (fastforce simp: filter_empty_conv filter_id_conv)+
    then show ?thesis using True by simp
  next
    case False
    then show ?thesis using Cons by (auto split: option.splits)
  qed
qed simp

lemma replace_version_put: "by_version xs \<Longrightarrow> replace_version x xs = put_version x xs"
proof -
  assume v: "by_version xs"
  let ?rest = "filter (\<lambda>s. ss_version s \<noteq> ss_version x) xs"
  have "distinct (map ss_version xs)" using v by (simp add: by_version_sorted)
  note remove = findIndex_remove[OF this, of "ss_version x"]
  have "sorted_wrt (\<lambda>x y. ss_version x < ss_version y) ?rest" using v by (simp add: by_version_def sorted_wrt_filter)
  from findIndex_insert[OF this, where v = "ss_version x" and x = x]
  show ?thesis
    unfolding replace_version_def Let_def remove put_version_def
    by (simp add: conj_commute) (simp add: order.strict_iff_order conj_commute cong: conj_cong)
qed

subsection \<open>What a snapshot store promises\<close>

datatype snapshot_op = Save string int json string | Prune string int | Delete_all string

fun op_ok :: "string set \<Rightarrow> snapshot_op \<Rightarrow> bool" where
  "op_ok streams (Save i v state now) \<longleftrightarrow> i \<in> streams \<and> 0 \<le> v \<and> json_normal state"
| "op_ok streams (Prune i k) \<longleftrightarrow> i \<in> streams \<and> 1 \<le> k"
| "op_ok streams (Delete_all i) \<longleftrightarrow> i \<in> streams"

text \<open>What an operation does to the snapshots that are held, \<open>snap\<close> being the snapshot made of a state.\<close>

fun held_after ::
  "(string \<Rightarrow> int \<Rightarrow> json \<Rightarrow> string \<Rightarrow> stored_snapshot) \<Rightarrow> (string \<Rightarrow> stored_snapshot list) \<Rightarrow> snapshot_op \<Rightarrow>
   string \<Rightarrow> stored_snapshot list" where
  "held_after snap held (Save i v state now) = held(i := put_version (snap i v state now) (held i))"
| "held_after snap held (Prune i k) = held(i := keep_last k (held i))"
| "held_after snap held (Delete_all i) = held(i := [])"

fun op_stream :: "snapshot_op \<Rightarrow> string" where
  "op_stream (Save i v state now) = i"
| "op_stream (Prune i k) = i"
| "op_stream (Delete_all i) = i"

text \<open>The contract of \<^verbatim>\<open>SnapshotStore\<close>: each operation changes what is held as it should and keeps the
  provider's invariant; loading returns what is held.\<close>

locale snapshot_store =
  fixes valid :: "'s \<Rightarrow> bool" and streams :: "string set"
    and held :: "'s \<Rightarrow> string \<Rightarrow> stored_snapshot list"
    and snap :: "string \<Rightarrow> int \<Rightarrow> json \<Rightarrow> string \<Rightarrow> stored_snapshot"
    and apply_op :: "'s \<Rightarrow> snapshot_op \<Rightarrow> 's"
    and load :: "'s \<Rightarrow> string \<Rightarrow> stored_snapshot option result"
    and load_at :: "'s \<Rightarrow> string \<Rightarrow> int \<Rightarrow> stored_snapshot option result"
    and has_snapshot :: "'s \<Rightarrow> string \<Rightarrow> bool"
  assumes valid_op: "valid s \<Longrightarrow> op_ok streams p \<Longrightarrow> valid (apply_op s p)"
    and held_op: "valid s \<Longrightarrow> op_ok streams p \<Longrightarrow> i \<in> streams \<Longrightarrow>
      held (apply_op s p) i = held_after snap (held s) p i"
    and held_sorted: "valid s \<Longrightarrow> i \<in> streams \<Longrightarrow> by_version (held s i)"
    and load_held: "valid s \<Longrightarrow> i \<in> streams \<Longrightarrow>
      load s i = Inr (if held s i = [] then None else Some (last (held s i)))"
    and load_at_held: "valid s \<Longrightarrow> i \<in> streams \<Longrightarrow> 0 \<le> v \<Longrightarrow>
      load_at s i v = Inr (find (\<lambda>x. ss_version x = v) (held s i))"
    and has_held: "valid s \<Longrightarrow> i \<in> streams \<Longrightarrow> has_snapshot s i \<longleftrightarrow> held s i \<noteq> []"
    and snap_version: "ss_version (snap i v state now) = v"
begin

lemma held_run:
  "valid s \<Longrightarrow> \<forall>p \<in> set ps. op_ok streams p \<Longrightarrow>
    valid (foldl apply_op s ps) \<and>
    (\<forall>i \<in> streams. held (foldl apply_op s ps) i = foldl (held_after snap) (held s) ps i)"
proof (induction ps rule: rev_induct)
  case (snoc p ps)
  let ?s = "foldl apply_op s ps"
  have IH: "valid ?s" "\<forall>i \<in> streams. held ?s i = foldl (held_after snap) (held s) ps i" "op_ok streams p"
    using snoc by simp_all
  have "held_after snap (held ?s) p i = held_after snap (foldl (held_after snap) (held s) ps) p i" if "i \<in> streams" for i
    using IH(2,3) that by (cases p) simp_all
  then show ?case using valid_op[OF IH(1,3)] held_op[OF IH(1,3)] by simp
qed simp

text \<open>A snapshot saved at a version that is not below those held is the one that is loaded, also after
  pruning.\<close>

lemma newest_loaded:
  assumes "valid s" "op_ok streams (Save i v state now)" "\<forall>x \<in> set (held s i). ss_version x \<le> v" "1 \<le> k"
  shows "load (apply_op (apply_op s (Save i v state now)) (Prune i k)) i = Inr (Some (snap i v state now))"
proof -
  let ?s = "apply_op s (Save i v state now)"
  have i: "i \<in> streams" using assms(2) by simp
  have v: "valid ?s" and h: "held ?s i = put_version (snap i v state now) (held s i)"
    using valid_op[OF assms(1,2)] held_op[OF assms(1,2) i] by simp_all
  have p: "op_ok streams (Prune i k)" using i assms(4) by simp
  have "held (apply_op ?s (Prune i k)) i = keep_last k (held ?s i)" using held_op[OF v p i] by simp
  then show ?thesis
    using load_held[OF valid_op[OF v p] i] keep_last_last[OF assms(4), of "held ?s i"] assms(3)
      put_version_last[of "held s i" "snap i v state now"]
    by (simp add: h snap_version)
qed

end

subsection \<open>The store in memory\<close>

definition snapshot_intact :: "hasher \<Rightarrow> (json \<Rightarrow> string) \<Rightarrow> stored_snapshot \<Rightarrow> bool" where
  "snapshot_intact H canon x \<longleftrightarrow> verifySnapshotIntegrity H canon x \<and> json_normal (ss_state x) \<and> 0 \<le> ss_version x
     \<and> (\<exists>t. ss_createdAt x = Some (Js_str t)) \<and> ss_hashAlgorithm x = Some (Js_str ''sha256'')"

definition hex_hasher :: "hasher \<Rightarrow> bool" where
  "hex_hasher H \<longleftrightarrow> (\<forall>bs. SHA256_HEX_RE (H bs))"

lemma made_snapshot:
  "ss_version (make_snapshot H canon i v state now) = v" "ss_state (make_snapshot H canon i v state now) = state"
  "ss_streamId (make_snapshot H canon i v state now) = i"
  by (simp_all add: make_snapshot_def)

lemma made_snapshot_intact:
  "hex_hasher H \<Longrightarrow> 0 \<le> v \<Longrightarrow> json_normal state \<Longrightarrow> snapshot_intact H canon (make_snapshot H canon i v state now)"
proof -
  assume h: "hex_hasher H" and "0 \<le> v" "json_normal state"
  have "length (sha256 H (canon state)) = 64" using h by (simp add: hex_hasher_def SHA256_HEX_RE_def sha256_def)
  then have "sha256 H (canon state) \<noteq> []" by auto
  with \<open>0 \<le> v\<close> \<open>json_normal state\<close> show ?thesis
    by (simp add: snapshot_intact_def make_snapshot_def verifySnapshotIntegrity_def computeSnapshotHash_def)
qed

definition memory_valid :: "hasher \<Rightarrow> (json \<Rightarrow> string) \<Rightarrow> memory_snapshots \<Rightarrow> bool" where
  "memory_valid H canon s \<longleftrightarrow> hex_hasher H \<and> jm_wf (ms_snapshots s)
     \<and> (\<forall>i. by_version (memory_list s i) \<and> (\<forall>x \<in> set (memory_list s i). snapshot_intact H canon x))"

definition memory_op :: "hasher \<Rightarrow> (json \<Rightarrow> string) \<Rightarrow> memory_snapshots \<Rightarrow> snapshot_op \<Rightarrow> memory_snapshots" where
  "memory_op H canon s p =
     (case p of
        Save i v state now \<Rightarrow> memory_save H canon s i v state now
      | Prune i k \<Rightarrow> snd (memory_prune s i k)
      | Delete_all i \<Rightarrow> memory_deleteAll s i)"

lemma map_of_filter_key: "map_of (filter (\<lambda>(k, _). k \<noteq> i) m) j = (if j = i then None else map_of m j)"
  by (induction m) auto

lemma memory_list_op:
  assumes "memory_valid H canon s" "op_ok UNIV p"
  shows "memory_list (memory_op H canon s p) j = held_after (make_snapshot H canon) (memory_list s) p j"
proof (cases p)
  case (Save i v state now)
  have "by_version (memory_list s i)" using assms(1) by (simp add: memory_valid_def)
  then show ?thesis by (simp add: Save memory_op_def memory_save_def replace_version_put memory_list_def option_or_def)
next
  case (Prune i k)
  then show ?thesis using assms(2)
    by (auto simp: memory_op_def memory_prune_def check_keep_def throw_when_def memory_list_def option_or_def
        keep_last_def Let_def split: option.splits)
next
  case (Delete_all i)
  then show ?thesis
    by (simp add: memory_op_def memory_deleteAll_def memory_list_def option_or_def map_of_filter_key)
qed

lemma memory_verify_op [simp]: "ms_verifyOnLoad (memory_op H canon s p) = ms_verifyOnLoad s"
  by (cases p) (auto simp: memory_op_def memory_save_def memory_prune_def memory_deleteAll_def Let_def split: sum.split)

lemma memory_valid_op:
  assumes "memory_valid H canon s" "op_ok UNIV p"
  shows "memory_valid H canon (memory_op H canon s p)"
proof -
  have h: "hex_hasher H" and held: "by_version (memory_list s i)" "\<forall>x \<in> set (memory_list s i). snapshot_intact H canon x" for i
    using assms(1) by (simp_all add: memory_valid_def)
  have "jm_wf (ms_snapshots (memory_op H canon s p))"
    using assms(1) by (cases p)
      (auto simp: memory_valid_def memory_op_def memory_save_def memory_prune_def memory_deleteAll_def Let_def jm_wf_def
        AList.distinct_update distinct_map_filter split: sum.split)
  moreover have "by_version (held_after (make_snapshot H canon) (memory_list s) p j)" for j
    using held(1) by (cases p) (simp_all add: put_version_sorted keep_last_sorted)
  moreover have "\<forall>x \<in> set (held_after (make_snapshot H canon) (memory_list s) p j). snapshot_intact H canon x" for j
    using held(2) assms(2) made_snapshot_intact[OF h]
    by (cases p) (auto simp: keep_last_def dest: in_set_dropD)
  ultimately show ?thesis using h by (simp add: memory_valid_def memory_list_op[OF assms])
qed

lemma verified_intact: "snapshot_intact H canon x \<Longrightarrow> verified H canon b (Some x) = Some x"
  by (simp add: verified_def snapshot_intact_def)

interpretation memory: snapshot_store "memory_valid H canon" UNIV memory_list "make_snapshot H canon"
  "memory_op H canon" "\<lambda>s i. Inr (memory_load H canon s i)" "\<lambda>s i v. Inr (memory_loadAtVersion H canon s i v)"
  memory_hasSnapshot for H canon
proof
  fix s i assume s: "memory_valid H canon s"
  show "by_version (memory_list s i)" using s by (simp add: memory_valid_def)
  have intact: "x \<in> set (memory_list s i) \<Longrightarrow> snapshot_intact H canon x" for x using s by (simp add: memory_valid_def)
  show "Inr (memory_load H canon s i) =
      (Inr (if memory_list s i = [] then None else Some (last (memory_list s i))) :: stored_snapshot option result)"
    using intact[OF last_in_set]
    by (auto simp: memory_load_def memory_list_def option_or_def verified_intact split: option.splits)
  show "Inr (memory_loadAtVersion H canon s i v) =
      (Inr (find (\<lambda>x. ss_version x = v) (memory_list s i)) :: stored_snapshot option result)" for v
  proof (cases "find (\<lambda>x. ss_version x = v) (memory_list s i)")
    case None
    then show ?thesis
      by (auto simp: memory_loadAtVersion_def memory_list_def option_or_def verified_def split: option.splits)
  next
    case (Some x)
    then have "x \<in> set (memory_list s i)" by (auto simp: find_Some_iff)
    then show ?thesis using Some intact
      by (auto simp: memory_loadAtVersion_def memory_list_def option_or_def verified_intact split: option.splits)
  qed
  show "memory_hasSnapshot s i \<longleftrightarrow> memory_list s i \<noteq> []" by (simp add: memory_hasSnapshot_def)
qed (simp_all add: memory_valid_op memory_list_op made_snapshot)


subsection \<open>The store on files\<close>

definition snapshot_text :: "stored_snapshot \<Rightarrow> string" where
  "snapshot_text x = json_text 2 0 (snapshot_json x)"

lemma snapshot_names:
  "\<forall>k \<in> {''streamId'', ''version'', ''state'', ''createdAt'', ''stateHash'', ''hashAlgorithm''}. \<not> array_index k"
  by (simp add: array_index_def is_digit_def)

lemma snapshot_normal: "snapshot_intact H canon x \<Longrightarrow> json_normal (snapshot_json x)"
  unfolding snapshot_json_def using snapshot_names
  by (intro defined_normal) (auto simp: snapshot_intact_def)

lemma snapshot_read_back:
  assumes "snapshot_intact H canon x"
  shows "JSON_parse (snapshot_text x) = Some (snapshot_json x)" "snapshot_json x \<noteq> Js_null"
    "parsed_snapshot (snapshot_json x) = Some x"
proof -
  show "JSON_parse (snapshot_text x) = Some (snapshot_json x)"
    unfolding snapshot_text_def by (rule json_round_trip[OF snapshot_normal[OF assms]])
  show "snapshot_json x \<noteq> Js_null" by (simp add: snapshot_json_def)
  show "parsed_snapshot (snapshot_json x) = Some x"
    by (simp add: parsed_snapshot_def snapshot_json_def json_property_def defined_map_of)
qed

text \<open>File names and versions.\<close>

lemma int_str_version: "0 \<le> v \<Longrightarrow> int_str v = nat_str (nat v)"
  by (simp add: int_str_def)

lemma file_version_file: "0 \<le> v \<Longrightarrow> file_version (version_file v) = Some v"
proof -
  assume v: "0 \<le> v"
  have digits: "list_all is_digit (nat_str (nat v))" "nat_str (nat v) \<noteq> []"
    by (simp_all add: nat_str_digits nat_str_nonempty)
  have "\<not> is_digit CHR ''.''" by code_simp
  then have "takeWhile is_digit (nat_str (nat v) @ ''.json'') = nat_str (nat v)"
    "dropWhile is_digit (nat_str (nat v) @ ''.json'') = ''.json''"
    using digits(1) by (simp_all add: takeWhile_append dropWhile_append list_all_iff)
  then show ?thesis using v digits(2) by (simp add: file_version_def version_file_def int_str_version)
qed

lemma version_file_inj: "0 \<le> v \<Longrightarrow> 0 \<le> w \<Longrightarrow> version_file v = version_file w \<longleftrightarrow> v = w"
  using file_version_file by (metis option.inject)

lemma tmp_no_version: "0 \<le> v \<Longrightarrow> file_version (version_file v @ ''.tmp'') = None"
proof -
  assume v: "0 \<le> v"
  have digits: "list_all is_digit (nat_str (nat v))" by (simp add: nat_str_digits)
  have "\<not> is_digit CHR ''.''" by code_simp
  then have "dropWhile is_digit (nat_str (nat v) @ ''.json.tmp'') = ''.json.tmp''"
    using digits by (simp add: dropWhile_append list_all_iff)
  then show ?thesis using v by (simp add: file_version_def version_file_def int_str_version)
qed

text \<open>A directory of snapshots: beside files without a version (such as temporary ones) it has intact
  snapshots under their versions.\<close>

definition dir_ok :: "hasher \<Rightarrow> (json \<Rightarrow> string) \<Rightarrow> directory \<Rightarrow> bool" where
  "dir_ok H canon d \<longleftrightarrow> jm_wf d \<and> (\<forall>name content. jm_get d name = Some content \<longrightarrow>
     file_version name = None \<or>
     (\<exists>x. snapshot_intact H canon x \<and> name = version_file (ss_version x) \<and> content = snapshot_text x))"

definition dir_snapshots :: "hasher \<Rightarrow> (json \<Rightarrow> string) \<Rightarrow> directory \<Rightarrow> stored_snapshot set" where
  "dir_snapshots H canon d =
     {x. snapshot_intact H canon x \<and> jm_get d (version_file (ss_version x)) = Some (snapshot_text x)}"

definition dir_versions :: "directory \<Rightarrow> int list" where
  "dir_versions d = sort (concat (map (\<lambda>name. case file_version name of None \<Rightarrow> [] | Some v \<Rightarrow> [v]) (jm_keys d)))"

definition dir_at :: "directory \<Rightarrow> int \<Rightarrow> stored_snapshot option" where
  "dir_at d v = Option.bind (jm_get d (version_file v)) (\<lambda>c. Option.bind (JSON_parse c) parsed_snapshot)"

definition dir_held :: "directory \<Rightarrow> stored_snapshot list" where
  "dir_held d = map (\<lambda>v. the (dir_at d v)) (dir_versions d)"

lemma dir_snapshot_at: "x \<in> dir_snapshots H canon d \<Longrightarrow> dir_at d (ss_version x) = Some x"
  by (auto simp: dir_snapshots_def dir_at_def snapshot_read_back)

lemma dir_snapshot_version: "x \<in> dir_snapshots H canon d \<Longrightarrow> 0 \<le> ss_version x"
  by (simp add: dir_snapshots_def snapshot_intact_def)

lemma dir_name_version:
  assumes "dir_ok H canon d" "name \<in> set (jm_keys d)" "file_version name = Some v"
  obtains x where "x \<in> dir_snapshots H canon d" "v = ss_version x" "name = version_file v"
proof -
  obtain content where c: "jm_get d name = Some content" using assms(2) jm_has_keys[of d name] by (auto simp: jm_has_def)
  then obtain x where x: "snapshot_intact H canon x" "name = version_file (ss_version x)" "content = snapshot_text x"
    using assms(1,3) unfolding dir_ok_def by fastforce
  then have "v = ss_version x" using assms(3) by (simp add: file_version_file snapshot_intact_def)
  then show thesis using that[of x] x c by (simp add: dir_snapshots_def)
qed

lemma concat_options: "concat (map (\<lambda>n. case f n of None \<Rightarrow> [] | Some v \<Rightarrow> [v]) ns) = List.map_filter f ns"
  by (induction ns) (simp_all add: map_filter_simps split: option.split)

lemma dir_versions_set:
  assumes "dir_ok H canon d"
  shows "set (dir_versions d) = ss_version ` dir_snapshots H canon d" "distinct (dir_versions d)" "sorted (dir_versions d)"
proof -
  have set: "set (dir_versions d) = {v. \<exists>name \<in> set (jm_keys d). file_version name = Some v}"
    by (force simp: dir_versions_def concat_options map_filter_def)
  show "set (dir_versions d) = ss_version ` dir_snapshots H canon d"
  proof (intro equalityI subsetI)
    fix v assume "v \<in> set (dir_versions d)"
    then obtain name where "name \<in> set (jm_keys d)" "file_version name = Some v" unfolding set by blast
    then show "v \<in> ss_version ` dir_snapshots H canon d" by (rule dir_name_version[OF assms]) blast
  next
    fix v assume "v \<in> ss_version ` dir_snapshots H canon d"
    then obtain x where x: "x \<in> dir_snapshots H canon d" "v = ss_version x" by blast
    then have "version_file v \<in> set (jm_keys d)" using jm_has_keys[of d "version_file v"]
      by (auto simp: dir_snapshots_def jm_has_def)
    moreover have "file_version (version_file v) = Some v"
      using x dir_snapshot_version[OF x(1)] by (simp add: file_version_file)
    ultimately show "v \<in> set (dir_versions d)" unfolding set by blast
  qed
  have "inj_on (the \<circ> file_version) {name \<in> set (jm_keys d). file_version name \<noteq> None}"
  proof (rule inj_onI)
    fix a b assume "a \<in> {name \<in> set (jm_keys d). file_version name \<noteq> None}"
      "b \<in> {name \<in> set (jm_keys d). file_version name \<noteq> None}" "(the \<circ> file_version) a = (the \<circ> file_version) b"
    then obtain v where "a \<in> set (jm_keys d)" "b \<in> set (jm_keys d)" "file_version a = Some v" "file_version b = Some v"
      by auto
    then show "a = b" using dir_name_version[OF assms, of a v] dir_name_version[OF assms, of b v] by metis
  qed
  moreover have "distinct (jm_keys d)" using assms by (simp add: dir_ok_def jm_wf_def)
  ultimately have "distinct (List.map_filter file_version (jm_keys d))"
    unfolding map_filter_def distinct_map[of "the \<circ> file_version"] by (simp add: distinct_filter set_filter)
  then show "distinct (dir_versions d)" "sorted (dir_versions d)" unfolding dir_versions_def concat_options by simp_all
qed

lemma dir_held_set:
  assumes "dir_ok H canon d"
  shows "set (dir_held d) = dir_snapshots H canon d" "map ss_version (dir_held d) = dir_versions d" "by_version (dir_held d)"
proof -
  note versions = dir_versions_set[OF assms]
  have at: "the (dir_at d v) \<in> dir_snapshots H canon d \<and> ss_version (the (dir_at d v)) = v" if "v \<in> set (dir_versions d)" for v
    using that dir_snapshot_at by (force simp: versions(1))
  then show map: "map ss_version (dir_held d) = dir_versions d" by (simp add: dir_held_def map_idI)
  then show "by_version (dir_held d)" using versions by (simp add: by_version_sorted)
  show "set (dir_held d) = dir_snapshots H canon d"
  proof (intro equalityI subsetI)
    fix x assume "x \<in> dir_snapshots H canon d"
    then show "x \<in> set (dir_held d)" using dir_snapshot_at[of x] by (force simp: dir_held_def versions(1))
  qed (use at in \<open>auto simp: dir_held_def\<close>)
qed


text \<open>What the directory operations do to the snapshots.\<close>

lemma snapshot_text_inj:
  "snapshot_intact H canon x \<Longrightarrow> snapshot_intact H canon y \<Longrightarrow> snapshot_text x = snapshot_text y \<Longrightarrow> x = y"
  using snapshot_read_back(1,3) by (metis option.inject)

lemma jm_get_unlink: "jm_get (unlink name d) n = (if n = name then None else jm_get d n)"
  by (simp add: unlink_def map_of_filter_key)

lemma unlink_wf: "jm_wf d \<Longrightarrow> jm_wf (unlink name d)"
  by (simp add: jm_wf_def unlink_def distinct_map_filter)

lemma dir_write:
  assumes "dir_ok H canon d" "snapshot_intact H canon x"
    "atomic_write d (version_file (ss_version x)) (snapshot_text x) No_fault = (r, d')"
  shows "dir_ok H canon d'" "dir_snapshots H canon d' = insert x {y \<in> dir_snapshots H canon d. ss_version y \<noteq> ss_version x}"
proof -
  let ?name = "version_file (ss_version x)"
  let ?tmp = "?name @ ''.tmp''"
  have v: "0 \<le> ss_version x" using assms(2) by (simp add: snapshot_intact_def)
  have get: "jm_get d' n = (if n = ?name then Some (snapshot_text x) else if n = ?tmp then None else jm_get d n)" for n
    using assms(3) by (auto simp: atomic_write_def Let_def jm_get_unlink)
  have "jm_wf d'" using assms(1,3) by (auto simp: atomic_write_def Let_def dir_ok_def unlink_wf)
  then show "dir_ok H canon d'" using assms(1,2) unfolding dir_ok_def get by (auto split: if_splits)
  have "y \<in> dir_snapshots H canon d' \<longleftrightarrow> y = x \<or> (y \<in> dir_snapshots H canon d \<and> ss_version y \<noteq> ss_version x)" for y
  proof (cases "snapshot_intact H canon y")
    case True
    then have w: "0 \<le> ss_version y" by (simp add: snapshot_intact_def)
    have "version_file (ss_version y) \<noteq> ?tmp" using file_version_file[OF w] tmp_no_version[OF v] by auto
    moreover have "version_file (ss_version y) = ?name \<longleftrightarrow> ss_version y = ss_version x" by (rule version_file_inj[OF w v])
    ultimately show ?thesis using True assms(2) snapshot_text_inj[OF assms(2) True]
      by (auto simp: dir_snapshots_def get)
  qed (use assms(2) in \<open>auto simp: dir_snapshots_def\<close>)
  then show "dir_snapshots H canon d' = insert x {y \<in> dir_snapshots H canon d. ss_version y \<noteq> ss_version x}" by blast
qed

lemma dir_write_fails:
  assumes "dir_ok H canon d" "0 \<le> v" "atomic_write d (version_file v) content fault = (r, d')" "fault \<noteq> No_fault"
  shows "dir_ok H canon d'" "dir_snapshots H canon d' = dir_snapshots H canon d"
proof -
  let ?tmp = "version_file v @ ''.tmp''"
  have get: "jm_get d' n = jm_get d n" if "n \<noteq> ?tmp" for n
    using assms(3,4) that by (cases fault) (auto simp: atomic_write_def Let_def)
  have wf: "jm_wf d'" using assms by (cases fault) (auto simp: atomic_write_def Let_def dir_ok_def)
  note tmp = tmp_no_version[OF assms(2)]
  show "dir_ok H canon d'" using assms(1) wf tmp get unfolding dir_ok_def by metis
  have "version_file (ss_version y) \<noteq> ?tmp" if "snapshot_intact H canon y" for y
    using that file_version_file[of "ss_version y"] tmp by (auto simp: snapshot_intact_def)
  then show "dir_snapshots H canon d' = dir_snapshots H canon d" using get by (auto simp: dir_snapshots_def)
qed

lemma prune_steps:
  "\<forall>v \<in> set vs. 0 \<le> v \<and> jm_has d (version_file v) \<Longrightarrow> distinct vs \<Longrightarrow>
   foldl prune_step (c, d) vs = (c + int (length vs), filter (\<lambda>(k, _). k \<notin> version_file ` set vs) d)"
proof (induction vs arbitrary: c d)
  case (Cons v vs)
  let ?d = "unlink (version_file v) d"
  have "\<forall>w \<in> set vs. 0 \<le> w \<and> jm_has ?d (version_file w)"
  proof
    fix w assume w: "w \<in> set vs"
    then have "0 \<le> w \<and> jm_has d (version_file w)" "version_file w \<noteq> version_file v"
      using Cons.prems version_file_inj[of w v] by auto
    then show "0 \<le> w \<and> jm_has ?d (version_file w)" by (simp add: jm_has_def jm_get_unlink)
  qed
  then have "foldl prune_step (c + 1, ?d) vs =
      (c + 1 + int (length vs), filter (\<lambda>(k, _). k \<notin> version_file ` set vs) ?d)"
    using Cons.IH Cons.prems(2) by simp
  moreover have "filter (\<lambda>(k, _). k \<notin> version_file ` set vs) ?d =
      filter (\<lambda>(k, _). k \<notin> version_file ` set (v # vs)) d"
    by (auto simp: unlink_def intro!: filter_cong)
  moreover have "prune_step (c, d) v = (c + 1, ?d)" using Cons.prems by (simp add: prune_step_def)
  ultimately show ?case by simp
qed simp

lemma set_drop_key:
  "distinct (map f xs) \<Longrightarrow> set (drop m xs) = {x \<in> set xs. f x \<notin> f ` set (take m xs)}"
proof -
  assume "distinct (map f xs)"
  then have "distinct (map f (take m xs) @ map f (drop m xs))" by (simp flip: map_append)
  then have "f ` set (take m xs) \<inter> f ` set (drop m xs) = {}" by simp
  moreover have "set xs = set (take m xs) \<union> set (drop m xs)" by (metis append_take_drop_id set_append)
  ultimately show ?thesis by blast
qed

lemma map_of_filter_names: "map_of (filter (\<lambda>(k, _). k \<notin> A) m) j = (if j \<in> A then None else map_of m j)"
  by (induction m) auto

lemma dir_prune:
  assumes "dir_ok H canon d" "vs = take m (dir_versions d)" "foldl prune_step (0, d) vs = (n, d')"
  shows "dir_ok H canon d'" "dir_held d' = drop m (dir_held d)" "n = int (length vs)"
proof -
  note held = dir_held_set[OF assms(1)]
  have vs: "vs = map ss_version (take m (dir_held d))" using held(2) assms(2) by (metis take_map)
  have present: "\<forall>v \<in> set vs. 0 \<le> v \<and> jm_has d (version_file v)"
  proof
    fix v assume "v \<in> set vs"
    then obtain x where "x \<in> dir_snapshots H canon d" "v = ss_version x"
      using held(1) by (auto simp: vs dest: in_set_takeD)
    then show "0 \<le> v \<and> jm_has d (version_file v)" using dir_snapshot_version by (auto simp: dir_snapshots_def jm_has_def)
  qed
  have "distinct vs" using dir_versions_set(2)[OF assms(1)] by (simp add: assms(2))
  from prune_steps[OF present this, of 0] have d': "d' = filter (\<lambda>(k, _). k \<notin> version_file ` set vs) d"
    and "n = int (length vs)" using assms(3) by simp_all
  then show "n = int (length vs)" by simp
  have get: "jm_get d' name = (if name \<in> version_file ` set vs then None else jm_get d name)" for name
    by (simp add: d' map_of_filter_names)
  have "jm_wf d'" using assms(1) by (simp add: d' dir_ok_def jm_wf_def distinct_map_filter)
  then show ok: "dir_ok H canon d'" using assms(1) unfolding dir_ok_def get by (auto split: if_splits)
  have "version_file (ss_version y) \<in> version_file ` set vs \<longleftrightarrow> ss_version y \<in> set vs" if "0 \<le> ss_version y" for y :: stored_snapshot
    using present version_file_inj[OF that] by (metis image_iff)
  then have "dir_snapshots H canon d' = {x \<in> dir_snapshots H canon d. ss_version x \<notin> set vs}"
    by (auto simp: dir_snapshots_def get snapshot_intact_def)
  also have "\<dots> = set (drop m (dir_held d))"
    using set_drop_key[of ss_version "dir_held d" m] held(1,3) by (simp add: by_version_sorted vs)
  finally have "set (dir_held d') = set (drop m (dir_held d))" by (simp add: dir_held_set(1)[OF ok])
  moreover have "by_version (drop m (dir_held d))" using held(3) by (simp add: by_version_def sorted_wrt_drop)
  ultimately show "dir_held d' = drop m (dir_held d)" using by_version_unique dir_held_set(3)[OF ok] by blast
qed


text \<open>The file store keeps this for all its streams, whose directories are different.\<close>

definition file_held :: "hasher \<Rightarrow> file_snapshots \<Rightarrow> string \<Rightarrow> stored_snapshot list" where
  "file_held H s i = dir_held (dir_files H s i)"

definition file_valid :: "hasher \<Rightarrow> (json \<Rightarrow> string) \<Rightarrow> string set \<Rightarrow> file_snapshots \<Rightarrow> bool" where
  "file_valid H canon streams s \<longleftrightarrow> hex_hasher H \<and> inj_on (streamDir H) streams
     \<and> fd_maxSnapshots s = None \<and> (\<forall>i \<in> streams. dir_ok H canon (dir_files H s i))"

definition file_op :: "hasher \<Rightarrow> (json \<Rightarrow> string) \<Rightarrow> file_snapshots \<Rightarrow> snapshot_op \<Rightarrow> file_snapshots" where
  "file_op H canon s p =
     (case p of
        Save i v state now \<Rightarrow> snd (file_save H canon s i v state now No_fault)
      | Prune i k \<Rightarrow> snd (file_prune H s i k)
      | Delete_all i \<Rightarrow> file_deleteAll H s i)"

lemma listVersions_dir: "listVersions H s i = dir_versions (dir_files H s i)"
  by (simp add: listVersions_def dir_versions_def)

lemma dir_files_set:
  "i \<in> streams \<Longrightarrow> j \<in> streams \<Longrightarrow> inj_on (streamDir H) streams \<Longrightarrow>
   dir_files H (s\<lparr>fd_dirs := jm_set (fd_dirs s) (streamDir H i) d\<rparr>) j = (if j = i then d else dir_files H s j)"
  by (auto simp: dir_files_def option_or_def dest: inj_onD)

lemma file_op_limit [simp]: "fd_maxSnapshots (file_op H canon s p) = fd_maxSnapshots s"
  by (cases p) (auto simp: file_op_def file_save_def file_prune_def file_deleteAll_def Let_def
      split: sum.split prod.split option.split)

lemma by_version_find: "by_version xs \<Longrightarrow> x \<in> set xs \<Longrightarrow> find (\<lambda>y. ss_version y = ss_version x) xs = Some x"
  by (induction xs) (auto simp: by_version_def)

lemma dir_ok_empty: "dir_ok H canon []" "dir_held [] = []"
  by (simp_all add: dir_ok_def dir_held_def dir_versions_def)

text \<open>An operation replaces the directory of its stream.\<close>

lemma file_op_dir:
  assumes "file_valid H canon streams s" "op_ok streams p"
  shows "\<exists>d. dir_ok H canon d \<and> dir_held d = held_after (make_snapshot H canon) (file_held H s) p (op_stream p) \<and>
    (\<forall>j \<in> streams. dir_files H (file_op H canon s p) j = (if j = op_stream p then d else dir_files H s j))"
proof -
  have i: "op_stream p \<in> streams" using assms(2) by (cases p) simp_all
  have inj: "inj_on (streamDir H) streams" and d: "dir_ok H canon (dir_files H s (op_stream p))" and h: "hex_hasher H"
    using assms(1) i by (simp_all add: file_valid_def)
  note held = dir_held_set[OF d]
  show ?thesis
  proof (cases p)
    case (Save i v state now)
    let ?x = "make_snapshot H canon i v state now"
    have x: "snapshot_intact H canon ?x" using made_snapshot_intact[OF h] assms(2) Save by simp
    obtain r d' where w: "atomic_write (dir_files H s i) (version_file (ss_version ?x)) (snapshot_text ?x) No_fault = (r, d')"
      by fastforce
    have ok: "dir_ok H canon d'"
      "dir_snapshots H canon d' = insert ?x {y \<in> dir_snapshots H canon (dir_files H s i). ss_version y \<noteq> ss_version ?x}"
      using dir_write[OF _ x w] d Save by simp_all
    have "r = Inr ()" using w by (simp add: atomic_write_def Let_def)
    moreover have "fd_maxSnapshots s = None" using assms(1) by (simp add: file_valid_def)
    ultimately have "file_op H canon s p = s\<lparr>fd_dirs := jm_set (fd_dirs s) (streamDir H i) d'\<rparr>"
      using w by (simp add: Save file_op_def file_save_def made_snapshot snapshot_text_def)
    then have "\<forall>j \<in> streams. dir_files H (file_op H canon s p) j = (if j = i then d' else dir_files H s j)"
      using dir_files_set[OF _ _ inj] i Save by simp
    moreover have "dir_held d' = put_version ?x (file_held H s i)"
      using by_version_unique[OF dir_held_set(3)[OF ok(1)] put_version_sorted] held ok dir_held_set(1)[OF ok(1)] Save
      by (simp add: file_held_def)
    ultimately show ?thesis using ok(1) Save by auto
  next
    case (Prune i k)
    let ?n = "int (length (dir_versions (dir_files H s i)))"
    have len: "length (dir_versions (dir_files H s i)) = length (dir_held (dir_files H s i))" by (simp add: dir_held_def)
    show ?thesis
    proof (cases "?n \<le> k")
      case True
      then have "file_op H canon s p = s" using Prune assms(2)
        by (simp add: file_op_def file_prune_def check_keep_def throw_when_def listVersions_dir)
      then show ?thesis using True d Prune by (auto simp: keep_last_def file_held_def len)
    next
      case False
      obtain n d' where f: "foldl prune_step (0, dir_files H s i) (take (nat (?n - k)) (dir_versions (dir_files H s i))) = (n, d')"
        by fastforce
      then have "file_op H canon s p = s\<lparr>fd_dirs := jm_set (fd_dirs s) (streamDir H i) d'\<rparr>"
        using False Prune assms(2)
        by (simp add: file_op_def file_prune_def check_keep_def throw_when_def listVersions_dir Let_def)
      moreover have "dir_ok H canon d'" "dir_held d' = keep_last k (file_held H s i)"
        using dir_prune[OF _ refl f] d Prune by (simp_all add: keep_last_def file_held_def len)
      ultimately show ?thesis using dir_files_set[OF _ _ inj] i Prune by auto
    qed
  next
    case (Delete_all i)
    show ?thesis
    proof (cases "jm_has (fd_dirs s) (streamDir H i)")
      case True
      then have "file_op H canon s p = s\<lparr>fd_dirs := jm_set (fd_dirs s) (streamDir H i) []\<rparr>"
        by (simp add: Delete_all file_op_def file_deleteAll_def)
      then show ?thesis using dir_files_set[OF _ _ inj] i Delete_all dir_ok_empty by auto
    next
      case False
      then have "file_op H canon s p = s" "dir_files H s i = []"
        by (simp_all add: Delete_all file_op_def file_deleteAll_def dir_files_def jm_has_def option_or_def)
      then show ?thesis using d Delete_all dir_ok_empty by auto
    qed
  qed
qed

lemma held_after_other: "j \<noteq> op_stream p \<Longrightarrow> held_after snap held p j = held j"
  by (cases p) simp_all

lemma dir_find:
  assumes "dir_ok H canon d" "0 \<le> v"
  shows "(case jm_get d (version_file v) of None \<Rightarrow> Inr None
     | Some content \<Rightarrow> (case JSON_parse content of None \<Rightarrow> Inr None
         | Some parsed \<Rightarrow> if parsed = Js_null then Inl PlainError else Inr (verified H canon b (parsed_snapshot parsed)))) =
    (Inr (find (\<lambda>x. ss_version x = v) (dir_held d)) :: stored_snapshot option result)"
proof (cases "jm_get d (version_file v)")
  case None
  then have "\<forall>x \<in> set (dir_held d). ss_version x \<noteq> v" by (auto simp: dir_held_set(1)[OF assms(1)] dir_snapshots_def)
  then have "find (\<lambda>x. ss_version x = v) (dir_held d) = None" by (simp add: find_None_iff)
  then show ?thesis using None by simp
next
  case (Some content)
  then obtain x where x: "snapshot_intact H canon x" "version_file v = version_file (ss_version x)" "content = snapshot_text x"
    using assms(1) file_version_file[OF assms(2)] unfolding dir_ok_def by fastforce
  then have v: "ss_version x = v" using version_file_inj[OF assms(2), of "ss_version x"] by (simp add: snapshot_intact_def)
  then have mem: "x \<in> set (dir_held d)" using x Some by (simp add: dir_held_set(1)[OF assms(1)] dir_snapshots_def)
  have "find (\<lambda>x. ss_version x = v) (dir_held d) = Some x"
    using by_version_find[OF dir_held_set(3)[OF assms(1)] mem] v by simp
  then show ?thesis using Some x snapshot_read_back[OF x(1)] by (simp add: verified_intact)
qed

interpretation file_store: snapshot_store "file_valid H canon streams" streams "file_held H" "make_snapshot H canon"
  "file_op H canon" "file_load H canon" "file_loadAtVersion H canon" "file_hasSnapshot H" for H canon streams
proof
  fix s p assume a: "file_valid H canon streams s" "op_ok streams p"
  obtain d where d: "dir_ok H canon d" "dir_held d = held_after (make_snapshot H canon) (file_held H s) p (op_stream p)"
    "\<forall>j \<in> streams. dir_files H (file_op H canon s p) j = (if j = op_stream p then d else dir_files H s j)"
    using file_op_dir[OF a] by blast
  then show "file_valid H canon streams (file_op H canon s p)" using a(1) by (simp add: file_valid_def)
  show "file_held H (file_op H canon s p) i = held_after (make_snapshot H canon) (file_held H s) p i" if "i \<in> streams" for i
    using d that held_after_other[of i p] by (simp add: file_held_def)
next
  fix s i assume a: "file_valid H canon streams s" "i \<in> streams"
  then have d: "dir_ok H canon (dir_files H s i)" by (simp add: file_valid_def)
  note held = dir_held_set[OF d]
  show "by_version (file_held H s i)" using held(3) by (simp add: file_held_def)
  show at: "file_loadAtVersion H canon s i v = Inr (find (\<lambda>x. ss_version x = v) (file_held H s i))" if "0 \<le> v" for v
    unfolding file_loadAtVersion_def readSnapshot_def file_held_def by (rule dir_find[OF d that])
  show "file_hasSnapshot H s i \<longleftrightarrow> file_held H s i \<noteq> []"
    by (simp add: file_hasSnapshot_def file_held_def listVersions_dir dir_held_def)
  show "file_load H canon s i = Inr (if file_held H s i = [] then None else Some (last (file_held H s i)))"
  proof (cases "dir_held (dir_files H s i) = []")
    case False
    let ?x = "last (dir_held (dir_files H s i))"
    have x: "?x \<in> set (dir_held (dir_files H s i))" using False by simp
    have v: "last (dir_versions (dir_files H s i)) = ss_version ?x" using False last_map[OF False, of ss_version] held(2) by simp
    have "0 \<le> ss_version ?x" using x dir_snapshot_version by (simp add: held(1))
    from at[OF this] have "readSnapshot H canon s i (ss_version ?x) = Inr (find (\<lambda>x. ss_version x = ss_version ?x) (dir_held (dir_files H s i)))"
      by (simp add: file_loadAtVersion_def file_held_def)
    moreover have "find (\<lambda>x. ss_version x = ss_version ?x) (dir_held (dir_files H s i)) = Some ?x"
      by (rule by_version_find[OF held(3) x])
    ultimately show ?thesis using False v by (simp add: file_load_def listVersions_dir file_held_def dir_held_def)
  qed (simp add: file_load_def listVersions_dir file_held_def dir_held_def)
qed (simp add: made_snapshot)


subsection \<open>Properties\<close>

lemma fresh_memory: "hex_hasher H \<Longrightarrow> memory_valid H canon (new_memory_snapshots opts)"
  by (simp add: memory_valid_def new_memory_snapshots_def memory_list_def option_or_def)

lemma fresh_files:
  assumes "hex_hasher H" "inj_on (streamDir H) streams" "so_maxSnapshotsPerStream opts = None"
    "new_file_snapshots opts [] = Inr f"
  shows "file_valid H canon streams f" "file_held H f i = []"
  using assms by (auto simp: new_file_snapshots_def file_valid_def dir_files_def option_or_def dir_ok_empty file_held_def)

lemma held_after_cong: "held i = held' i \<Longrightarrow> held_after snap held p i = held_after snap held' p i"
  by (cases p) auto

lemma held_fold_cong: "held i = held' i \<Longrightarrow> foldl (held_after snap) held ps i = foldl (held_after snap) held' ps i"
proof (induction ps rule: rev_induct)
  case (snoc p ps)
  then show ?case using held_after_cong[of "foldl (held_after snap) held ps" i "foldl (held_after snap) held' ps"] by simp
qed simp

lemma failed_save_held:
  assumes "file_valid H canon streams f" "i \<in> streams" "0 \<le> v" "fault \<noteq> No_fault"
    and "file_save H canon f i v state now fault = (r, f')"
  shows "(\<exists>e. r = Inl e) \<and> file_valid H canon streams f' \<and> (\<forall>j \<in> streams. file_held H f' j = file_held H f j)"
proof -
  obtain r' d where a: "atomic_write (dir_files H f i) (version_file v)
      (json_text 2 0 (snapshot_json (make_snapshot H canon i v state now))) fault = (r', d)" by fastforce
  obtain e where e: "r' = Inl e" using a assms(4) by (cases fault) (auto simp: atomic_write_def Let_def)
  have f': "r = Inl e" "f' = f\<lparr>fd_dirs := jm_set (fd_dirs f) (streamDir H i) d\<rparr>"
    using assms(5) by (simp_all add: file_save_def a e)
  have inj: "inj_on (streamDir H) streams" and dirs: "\<forall>i \<in> streams. dir_ok H canon (dir_files H f i)"
    using assms(1) by (simp_all add: file_valid_def)
  note same = dir_write_fails[OF _ assms(3) a assms(4)]
  have d: "dir_ok H canon d" "dir_snapshots H canon d = dir_snapshots H canon (dir_files H f i)" using same dirs assms(2) by blast+
  have files: "dir_files H f' k = (if k = i then d else dir_files H f k)" if "k \<in> streams" for k
    unfolding f'(2) by (rule dir_files_set[OF assms(2) that inj])
  have "file_valid H canon streams f'" using assms(1) d(1) files by (simp add: file_valid_def f'(2))
  moreover have "dir_held d = dir_held (dir_files H f i)"
    using by_version_unique dir_held_set(1,3)[OF d(1)] dir_held_set(1,3)[of H canon "dir_files H f i"] dirs assms(2) d(2) by blast
  then have "\<forall>j \<in> streams. file_held H f' j = file_held H f j" using files by (simp add: file_held_def)
  ultimately show ?thesis using f'(1) by blast
qed

lemma listVersions_held:
  assumes "file_valid H canon streams g" "j \<in> streams"
  shows "listVersions H g j = map ss_version (file_held H g j)"
  using assms dir_held_set(2)[of H canon "dir_files H g j"] by (simp add: file_valid_def file_held_def listVersions_dir)

text \<open>A run of the file store: operations, each with what happens to its write. With a limit on the number of snapshots,
  a save also prunes; \<open>memory_ops\<close> is what a run amounts to for a store without faults and limit.\<close>

definition file_run :: "hasher \<Rightarrow> (json \<Rightarrow> string) \<Rightarrow> file_snapshots \<Rightarrow> snapshot_op \<times> write_fault \<Rightarrow> file_snapshots" where
  "file_run H canon f a =
     (case a of
        (Save i v state now, fault) \<Rightarrow> snd (file_save H canon f i v state now fault)
      | (p, _) \<Rightarrow> file_op H canon f p)"

definition memory_ops :: "int option \<Rightarrow> snapshot_op \<times> write_fault \<Rightarrow> snapshot_op list" where
  "memory_ops bound a =
     (case a of
        (Save i v state now, fault) \<Rightarrow>
          (if fault \<noteq> No_fault then []
           else Save i v state now # (case bound of None \<Rightarrow> [] | Some n \<Rightarrow> [Prune i n]))
      | (p, _) \<Rightarrow> [p])"

abbreviation unlimited :: "file_snapshots \<Rightarrow> file_snapshots" where
  "unlimited f \<equiv> f\<lparr>fd_maxSnapshots := None\<rparr>"

lemma limit_unread [simp]:
  "dir_files H (f\<lparr>fd_maxSnapshots := l\<rparr>) i = dir_files H f i" "listVersions H (f\<lparr>fd_maxSnapshots := l\<rparr>) i = listVersions H f i"
  "readSnapshot H canon (f\<lparr>fd_maxSnapshots := l\<rparr>) i v = readSnapshot H canon f i v"
  "file_load H canon (f\<lparr>fd_maxSnapshots := l\<rparr>) i = file_load H canon f i"
  "file_loadAtVersion H canon (f\<lparr>fd_maxSnapshots := l\<rparr>) i v = file_loadAtVersion H canon f i v"
  "file_hasSnapshot H (f\<lparr>fd_maxSnapshots := l\<rparr>) i = file_hasSnapshot H f i"
proof -
  show dirs: "dir_files H (f\<lparr>fd_maxSnapshots := l\<rparr>) i = dir_files H f i" by (simp add: dir_files_def)
  show versions: "listVersions H (f\<lparr>fd_maxSnapshots := l\<rparr>) i = listVersions H f i" unfolding listVersions_def dirs ..
  have verify: "fd_verifyOnLoad (f\<lparr>fd_maxSnapshots := l\<rparr>) = fd_verifyOnLoad f" by simp
  have read: "readSnapshot H canon (f\<lparr>fd_maxSnapshots := l\<rparr>) i w = readSnapshot H canon f i w" for w
    unfolding readSnapshot_def dirs verify ..
  show "readSnapshot H canon (f\<lparr>fd_maxSnapshots := l\<rparr>) i v = readSnapshot H canon f i v" by (rule read)
  show "file_load H canon (f\<lparr>fd_maxSnapshots := l\<rparr>) i = file_load H canon f i" unfolding file_load_def versions read ..
  show "file_loadAtVersion H canon (f\<lparr>fd_maxSnapshots := l\<rparr>) i v = file_loadAtVersion H canon f i v"
    unfolding file_loadAtVersion_def read ..
  show "file_hasSnapshot H (f\<lparr>fd_maxSnapshots := l\<rparr>) i = file_hasSnapshot H f i" unfolding file_hasSnapshot_def versions ..
qed

lemma unlimited_prune: "unlimited (snd (file_prune H f i k)) = snd (file_prune H (unlimited f) i k)"
  by (auto simp: file_prune_def Let_def split: sum.split prod.split)

lemma unlimited_failed:
  "fault \<noteq> No_fault \<Longrightarrow> unlimited (snd (file_save H canon f i v state now fault)) = snd (file_save H canon (unlimited f) i v state now fault)"
  by (cases fault) (simp_all add: file_save_def atomic_write_def Let_def)

lemma unlimited_saved:
  "unlimited (snd (file_save H canon f i v state now No_fault)) =
     foldl (file_op H canon) (unlimited f) (memory_ops (fd_maxSnapshots f) (Save i v state now, No_fault))"
proof -
  let ?name = "version_file v" and ?text = "json_text 2 0 (snapshot_json (make_snapshot H canon i v state now))"
  let ?dirs = "jm_set (fd_dirs f) (streamDir H i) (jm_set (unlink (?name @ ''.tmp'') (dir_files H f i)) ?name ?text)"
  have swap: "(unlimited f)\<lparr>fd_dirs := ?dirs\<rparr> = unlimited (f\<lparr>fd_dirs := ?dirs\<rparr>)" by (cases f) simp
  have op: "file_op H canon (unlimited f) (Save i v state now) = unlimited (f\<lparr>fd_dirs := ?dirs\<rparr>)"
    unfolding swap[symmetric] by (simp add: file_op_def file_save_def atomic_write_def Let_def)
  show ?thesis
  proof (cases "fd_maxSnapshots f")
    case None
    then show ?thesis by (simp add: memory_ops_def op) (simp add: file_save_def atomic_write_def Let_def)
  next
    case (Some n)
    then have "snd (file_save H canon f i v state now No_fault) = snd (file_prune H (f\<lparr>fd_dirs := ?dirs\<rparr>) i n)"
      by (simp add: file_save_def atomic_write_def Let_def split: prod.split)
    then show ?thesis using Some unlimited_prune[of H "f\<lparr>fd_dirs := ?dirs\<rparr>" i n] by (simp add: memory_ops_def op) (simp add: file_op_def)
  qed
qed

lemma unlimited_run:
  assumes "\<And>i v state now. fst a = Save i v state now \<Longrightarrow> snd a = No_fault"
  shows "unlimited (file_run H canon f a) = foldl (file_op H canon) (unlimited f) (memory_ops (fd_maxSnapshots f) a)"
proof (cases a)
  case (Pair p fault)
  show ?thesis
  proof (cases p)
    case (Save i v state now)
    then show ?thesis using unlimited_saved assms Pair by (simp add: file_run_def)
  next
    case (Prune i k)
    then show ?thesis using unlimited_prune by (simp add: Pair file_run_def memory_ops_def file_op_def)
  next
    case (Delete_all i)
    then show ?thesis by (simp add: Pair file_run_def memory_ops_def file_op_def file_deleteAll_def)
  qed
qed

lemma limit_kept: "fd_maxSnapshots (file_run H canon f a) = fd_maxSnapshots f"
  by (cases a) (auto simp: file_run_def file_op_def file_save_def file_prune_def file_deleteAll_def Let_def
      split: snapshot_op.split option.split sum.split prod.split)

lemma memory_ops_ok:
  assumes "op_ok streams (fst a)" "\<forall>n. bound = Some n \<longrightarrow> 1 \<le> n" "p \<in> set (memory_ops bound a)"
  shows "op_ok streams p"
  using assms by (cases a; cases "fst a") (auto simp: memory_ops_def split: if_splits option.splits)

text \<open>After a run the two stores hold the same.\<close>

lemma run_holds_same:
  fixes canon :: "json \<Rightarrow> string"
  assumes "hex_hasher H" "inj_on (streamDir H) streams" "new_file_snapshots opts [] = Inr f" "\<forall>a \<in> set as. op_ok streams (fst a)"
  shows "fd_maxSnapshots (foldl (file_run H canon) f as) = so_maxSnapshotsPerStream opts \<and>
    file_valid H canon streams (unlimited (foldl (file_run H canon) f as)) \<and>
    (let m = foldl (memory_op H canon) (new_memory_snapshots opts') (concat (map (memory_ops (so_maxSnapshotsPerStream opts)) as))
     in memory_valid H canon m \<and> (\<forall>i \<in> streams. file_held H (unlimited (foldl (file_run H canon) f as)) i = memory_list m i))"
  using assms(4) unfolding Let_def
proof (induction as rule: rev_induct)
  case Nil
  have "new_file_snapshots (opts\<lparr>so_maxSnapshotsPerStream := None\<rparr>) [] = Inr (unlimited f)" "fd_maxSnapshots f = so_maxSnapshotsPerStream opts"
    using assms(3) by (auto simp: new_file_snapshots_def bind_r_def split: sum.splits)
  with fresh_files[OF assms(1,2) _ this(1)] fresh_memory[OF assms(1)] show ?case
    by (simp add: memory_list_def new_memory_snapshots_def option_or_def)
next
  case (snoc a as)
  let ?f = "foldl (file_run H canon) f as" and ?limit = "so_maxSnapshotsPerStream opts"
  let ?m = "foldl (memory_op H canon) (new_memory_snapshots opts') (concat (map (memory_ops ?limit) as))"
  have IH: "fd_maxSnapshots ?f = ?limit" "file_valid H canon streams (unlimited ?f)" "memory_valid H canon ?m"
    "\<forall>i \<in> streams. file_held H (unlimited ?f) i = memory_list ?m i" and a: "op_ok streams (fst a)"
    using snoc.IH snoc.prems by auto
  show ?case
  proof (cases "\<exists>i v state now. fst a = Save i v state now \<and> snd a \<noteq> No_fault")
    case True
    then obtain i v state now fault where s: "a = (Save i v state now, fault)" "fault \<noteq> No_fault" by (cases a) auto
    obtain r g where g: "file_save H canon (unlimited ?f) i v state now fault = (r, g)" by fastforce
    have "unlimited (file_run H canon ?f a) = g" using unlimited_failed[OF s(2), of H canon ?f i v state now] s g by (simp add: file_run_def)
    moreover have "memory_ops ?limit a = []" using s by (simp add: memory_ops_def)
    moreover have "(\<exists>e. r = Inl e) \<and> file_valid H canon streams g \<and>
        (\<forall>j \<in> streams. file_held H g j = file_held H (unlimited ?f) j)"
      by (rule failed_save_held[OF IH(2) _ _ s(2) g]) (use a s in simp_all)
    ultimately show ?thesis using IH limit_kept[of H canon ?f a] by simp
  next
    case False
    then have "\<And>i v state now. fst a = Save i v state now \<Longrightarrow> snd a = No_fault" by blast
    then have f: "unlimited (file_run H canon ?f a) = foldl (file_op H canon) (unlimited ?f) (memory_ops ?limit a)"
      unfolding IH(1)[symmetric] by (rule unlimited_run)
    have "\<forall>n. ?limit = Some n \<longrightarrow> 1 \<le> n"
      using assms(3) by (auto simp: new_file_snapshots_def check_keep_def throw_when_def bind_r_def split: if_splits)
    then have ok: "\<forall>p \<in> set (memory_ops ?limit a). op_ok streams p" using memory_ops_ok[OF a] by blast
    have okU: "\<forall>p \<in> set (memory_ops ?limit a). op_ok UNIV p"
    proof
      fix p assume "p \<in> set (memory_ops ?limit a)"
      with ok have "op_ok streams p" by blast
      then show "op_ok UNIV p" by (cases p) simp_all
    qed
    note run = file_store.held_run[OF IH(2) ok] and mem = memory.held_run[OF IH(3) okU]
    have "file_held H (unlimited (file_run H canon ?f a)) i =
        memory_list (foldl (memory_op H canon) ?m (memory_ops ?limit a)) i" if "i \<in> streams" for i
    proof -
      have "file_held H (unlimited (file_run H canon ?f a)) i =
          foldl (held_after (make_snapshot H canon)) (file_held H (unlimited ?f)) (memory_ops ?limit a) i"
        unfolding f using run that by blast
      also have "\<dots> = foldl (held_after (make_snapshot H canon)) (memory_list ?m) (memory_ops ?limit a) i"
        by (rule held_fold_cong) (use IH(4) that in blast)
      also have "\<dots> = memory_list (foldl (memory_op H canon) ?m (memory_ops ?limit a)) i" using mem by auto
      finally show ?thesis .
    qed
    then show ?thesis using run mem IH(1) limit_kept[of H canon ?f a] f by simp
  qed
qed

text \<open>C11: The file store of snapshots answers like the one in memory: on a fresh base directory, after any saves (with or
  without auto-pruning, written, failed or cut off), prunings and deletions, every load, load at a version and test
  for a snapshot gives what the store in memory gives after the same operations, where failed saves are left out
  and every save under a limit is followed by the pruning to the limit. The streams in use have different
  directories (their hashes differ in the first 32 digits), versions are not negative, explicit prunings keep at
  least one, and the states are values that JSON represents.\<close>

theorem file_snapshots_refine_memory:
  assumes "hex_hasher H" "inj_on (streamDir H) streams" "new_file_snapshots opts [] = Inr f"
    and "\<forall>a \<in> set as. op_ok streams (fst a)" "i \<in> streams" "0 \<le> v"
    and "f' = foldl (file_run H canon) f as"
    and "m' = foldl (memory_op H canon) (new_memory_snapshots opts')
      (concat (map (memory_ops (so_maxSnapshotsPerStream opts)) as))"
  shows "file_load H canon f' i = Inr (memory_load H canon m' i) \<and>
    file_loadAtVersion H canon f' i v = Inr (memory_loadAtVersion H canon m' i v) \<and>
    file_hasSnapshot H f' i = memory_hasSnapshot m' i"
proof -
  have f: "file_valid H canon streams (unlimited f')" and m: "memory_valid H canon m'"
    and same: "file_held H (unlimited f') i = memory_list m' i"
    using run_holds_same[OF assms(1-4), of canon opts'] assms(5) by (simp_all add: assms(7,8) Let_def)
  show ?thesis
    using file_store.load_held[OF f assms(5)] file_store.load_at_held[OF f assms(5,6)]
      file_store.has_held[OF f assms(5)] memory.load_held[OF m, of i] memory.load_at_held[OF m _ assms(6), of i]
      memory.has_held[OF m, of i] same by simp
qed

text \<open>A save of the file store that fails or is cut off throws and changes no snapshot: every load gives what
  it gave before.\<close>

theorem failed_save_changes_nothing:
  assumes "file_valid H canon streams f" "i \<in> streams" "j \<in> streams" "0 \<le> v" "0 \<le> w" "fault \<noteq> No_fault"
  shows "case file_save H canon f i v state now fault of (r, f') \<Rightarrow>
    (\<exists>e. r = Inl e) \<and> file_load H canon f' j = file_load H canon f j \<and>
    file_loadAtVersion H canon f' j w = file_loadAtVersion H canon f j w \<and> listVersions H f' j = listVersions H f j"
proof -
  obtain r f' where run: "file_save H canon f i v state now fault = (r, f')" by fastforce
  note kept = failed_save_held[OF assms(1,2,4,6) run]
  then have valid: "file_valid H canon streams f'" and held: "file_held H f' j = file_held H f j" using assms(3) by blast+
  have "listVersions H f' j = listVersions H f j"
    using listVersions_held[OF assms(1,3)] listVersions_held[OF valid assms(3)] held by simp
  then show ?thesis unfolding run
    using kept file_store.load_held[OF valid assms(3)] file_store.load_held[OF assms(1,3)]
      file_store.load_at_held[OF valid assms(3,5)] file_store.load_at_held[OF assms(1,3,5)] held by simp
qed

text \<open>A snapshot saved at the highest version is the one that is loaded, also after pruning.\<close>

theorem newest_snapshot_loaded:
  assumes "file_valid H canon streams f" "i \<in> streams" "json_normal state" "\<forall>w \<in> set (listVersions H f i). w \<le> v" "0 \<le> v" "1 \<le> k"
  shows "file_load H canon (file_op H canon (file_op H canon f (Save i v state now)) (Prune i k)) i =
    Inr (Some (make_snapshot H canon i v state now))"
proof (rule file_store.newest_loaded[OF assms(1) _ _ assms(6)])
  show "op_ok streams (Save i v state now)" using assms by simp
  have "dir_ok H canon (dir_files H f i)" using assms(1,2) by (simp add: file_valid_def)
  from dir_held_set(2)[OF this] show "\<forall>x \<in> set (file_held H f i). ss_version x \<le> v"
    using assms(4) unfolding file_held_def listVersions_dir by (metis image_eqI set_map)
qed

text \<open>A loaded snapshot has the state its hash was computed of.\<close>

theorem loaded_snapshot_untampered:
  assumes "readSnapshot H canon f i v = Inr (Some x)" "fd_verifyOnLoad f" "ss_stateHash x = computeSnapshotHash H canon state"
  shows "canon (ss_state x) = canon state \<or> collision H [utf8 (canon (ss_state x))] [utf8 (canon state)]"
proof -
  have "verifySnapshotIntegrity H canon x"
    using assms(1,2) by (auto simp: readSnapshot_def verified_def split: option.splits if_splits)
  then have "sha256 H (canon (ss_state x)) = sha256 H (canon state)"
    using assms(3) by (auto simp: verifySnapshotIntegrity_def computeSnapshotHash_def split: if_splits)
  then show ?thesis using utf8_inj by (auto simp: collision_def sha256_def)
qed

text \<open>A snapshot file that holds \<^verbatim>\<open>null\<close> makes loading throw instead of being discarded.\<close>

lemma null_snapshot_throws:
  assumes "jm_get (dir_files H f i) (version_file v) = Some ''null''"
  shows "file_loadAtVersion H canon f i v = Inl PlainError"
proof -
  have "JSON_parse ''null'' = Some Js_null" by code_simp
  then show ?thesis using assms by (simp add: file_loadAtVersion_def readSnapshot_def)
qed


subsection \<open>Witnesses\<close>

definition plain_snapshots :: file_snapshots where
  "plain_snapshots = \<lparr>fd_dirs = [], fd_verifyOnLoad = True, fd_maxSnapshots = None\<rparr>"

definition plain_options :: snapshot_store_options where
  "plain_options = \<lparr>so_verifyOnLoad = None, so_maxSnapshotsPerStream = None\<rparr>"

lemma plain_valid: "file_valid sample_hash canon {''s''} plain_snapshots"
  using sample_hash_hex
  by (simp add: file_valid_def hex_hasher_def plain_snapshots_def dir_files_def option_or_def dir_ok_empty)

definition sample_run :: "(snapshot_op \<times> write_fault) list" where
  "sample_run = [(Save ''s'' 1 (Js_num 7) ''t'', No_fault), (Save ''s'' 2 Js_null ''u'', No_fault),
     (Save ''s'' 3 (Js_num 8) ''v'', Cut_after 5)]"

theorem file_snapshots_refine_memory_witness:
  "\<exists>f f' m'. new_file_snapshots \<lparr>so_verifyOnLoad = None, so_maxSnapshotsPerStream = Some 1\<rparr> [] = Inr f \<and>
     f' = foldl (file_run sample_hash JSON_stringify) f sample_run \<and>
     m' = foldl (memory_op sample_hash JSON_stringify) (new_memory_snapshots plain_options)
       [Save ''s'' 1 (Js_num 7) ''t'', Prune ''s'' 1, Save ''s'' 2 Js_null ''u'', Prune ''s'' 1] \<and>
     file_load sample_hash JSON_stringify f' ''s'' = Inr (memory_load sample_hash JSON_stringify m' ''s'') \<and>
     file_loadAtVersion sample_hash JSON_stringify f' ''s'' 1 = Inr (memory_loadAtVersion sample_hash JSON_stringify m' ''s'' 1) \<and>
     file_hasSnapshot sample_hash f' ''s'' = memory_hasSnapshot m' ''s''"
proof -
  let ?opts = "\<lparr>so_verifyOnLoad = None, so_maxSnapshotsPerStream = Some 1\<rparr>"
  let ?f = "\<lparr>fd_dirs = [], fd_verifyOnLoad = True, fd_maxSnapshots = Some 1\<rparr>"
  have new: "new_file_snapshots ?opts [] = Inr ?f"
    by (simp add: new_file_snapshots_def check_keep_def throw_when_def option_or_def)
  have "concat (map (memory_ops (so_maxSnapshotsPerStream ?opts)) sample_run) =
      [Save ''s'' 1 (Js_num 7) ''t'', Prune ''s'' 1, Save ''s'' 2 Js_null ''u'', Prune ''s'' 1]"
    by (simp add: sample_run_def memory_ops_def)
  moreover have "hex_hasher sample_hash" using sample_hash_hex by (simp add: hex_hasher_def)
  moreover have "\<forall>a \<in> set sample_run. op_ok {''s''} (fst a)" by (simp add: sample_run_def)
  ultimately show ?thesis
    using file_snapshots_refine_memory[where i = "''s''" and v = 1 and H = sample_hash and streams = "{''s''}" and as = sample_run
      and canon = JSON_stringify and opts' = plain_options, OF _ _ new _ _ _ refl refl] new
    by (intro exI[of _ ?f] exI) auto
qed

theorem failed_save_changes_nothing_witness:
  "case file_save sample_hash JSON_stringify plain_snapshots ''s'' 1 (Js_num 7) ''t'' (Cut_after 5) of (r, f') \<Rightarrow>
     (\<exists>e. r = Inl e) \<and> file_load sample_hash JSON_stringify f' ''s'' = file_load sample_hash JSON_stringify plain_snapshots ''s''"
  using failed_save_changes_nothing[OF plain_valid, of "''s''" "''s''" 1 0 "Cut_after 5" JSON_stringify "Js_num 7" "''t''"]
  by (simp split: prod.splits)

theorem newest_snapshot_loaded_witness:
  "file_load sample_hash JSON_stringify (file_op sample_hash JSON_stringify
     (file_op sample_hash JSON_stringify plain_snapshots (Save ''s'' 3 (Js_num 7) ''t'')) (Prune ''s'' 1)) ''s'' =
   Inr (Some (make_snapshot sample_hash JSON_stringify ''s'' 3 (Js_num 7) ''t''))"
  by (rule newest_snapshot_loaded[OF plain_valid])
    (simp_all add: listVersions_def dir_files_def plain_snapshots_def option_or_def)

theorem loaded_snapshot_untampered_witness:
  "\<exists>f x. readSnapshot sample_hash JSON_stringify f ''s'' 3 = Inr (Some x) \<and>
     (JSON_stringify (ss_state x) = JSON_stringify (Js_num 7) \<or>
      collision sample_hash [utf8 (JSON_stringify (ss_state x))] [utf8 (JSON_stringify (Js_num 7))])"
proof -
  let ?x = "make_snapshot sample_hash JSON_stringify ''s'' 3 (Js_num 7) ''t''"
  let ?f = "plain_snapshots\<lparr>fd_dirs := [(streamDir sample_hash ''s'', [(version_file 3, snapshot_text ?x)])]\<rparr>"
  have x: "snapshot_intact sample_hash JSON_stringify ?x"
    using sample_hash_hex by (intro made_snapshot_intact) (simp_all add: hex_hasher_def)
  have r: "readSnapshot sample_hash JSON_stringify ?f ''s'' 3 = Inr (Some ?x)"
    using snapshot_read_back[OF x] by (simp add: readSnapshot_def dir_files_def option_or_def verified_intact[OF x])
  have "fd_verifyOnLoad ?f" "ss_stateHash ?x = computeSnapshotHash sample_hash JSON_stringify (Js_num 7)"
    by (simp_all add: plain_snapshots_def make_snapshot_def)
  from loaded_snapshot_untampered[OF r this] show ?thesis using r by blast
qed

end
