(* ===== verification/Matchers.thy ===== *)
theory Matchers
  imports MoneyMath CrossChain Complex_Main
begin

section \<open>Matching intents, ledger entries and chain events\<close>

text \<open>
  Model of \<^verbatim>\<open>packages/reconciler/src\<close>: the records of \<^verbatim>\<open>types.ts\<close>,
  \<^verbatim>\<open>discrepancy.ts\<close> and the three matchers. Optional fields are options; an empty string
  counts as absent where the source tests for truthiness (\<open>truthy\<close>). Chain amounts are strings in
  the smallest unit, checked before they are converted.
\<close>

subsection \<open>Discrepancies\<close>

datatype discrepancy_code =
    AMOUNT_MISMATCH | CURRENCY_MISMATCH | DECIMALS_MISMATCH | MISSING_LEDGER | MISSING_CHAIN | MISSING_INTENT

datatype discrepancy_dimension = Dim_amount | Dim_currency | Dim_decimals | Dim_presence

record discrepancy =
  dc_code :: discrepancy_code
  dc_dimension :: discrepancy_dimension
  dc_expected :: "string option"
  dc_actual :: "string option"
  dc_message :: string

definition makeDiscrepancy ::
  "discrepancy_code \<Rightarrow> discrepancy_dimension \<Rightarrow> string \<Rightarrow> (string \<times> string) option \<Rightarrow> discrepancy" where
  "makeDiscrepancy code dimension msg values =
     \<lparr>dc_code = code, dc_dimension = dimension, dc_expected = map_option fst values,
      dc_actual = map_option snd values, dc_message = msg\<rparr>"

definition count_step :: "(discrepancy_code, nat) jsmap \<Rightarrow> discrepancy \<Rightarrow> (discrepancy_code, nat) jsmap" where
  "count_step counts d =
     jm_set counts (dc_code d) ((case jm_get counts (dc_code d) of None \<Rightarrow> 0 | Some n \<Rightarrow> n) + 1)"

definition countByCode :: "discrepancy list \<Rightarrow> (discrepancy_code, nat) jsmap" where
  "countByCode ds = foldl count_step [] ds"

subsection \<open>Records\<close>

datatype match_status =
    matched | amount_mismatch | missing_ledger | missing_intent | missing_chain | unmatched

record reconcilable_intent =
  ri_id :: string
  ri_status :: string
  ri_kind :: string
  ri_amount :: "money option"
  ri_envelopeId :: "string option"
  ri_chainId :: "string option"
  ri_txHash :: "string option"
  ri_declaredAt :: string
  ri_correlationId :: "string option"

datatype side = Debit_side | Credit_side

record reconcilable_entry =
  rl_id :: string
  rl_accountId :: string
  rl_type :: side
  rl_money :: money
  rl_timestamp :: string
  rl_intentId :: "string option"
  rl_txHash :: "string option"
  rl_correlationId :: string

record reconcilable_event =
  rv_chainId :: string
  rv_txHash :: string
  rv_from :: string
  rv_to :: string
  rv_amount :: string
  rv_decimals :: int
  rv_symbol :: string
  rv_timestamp :: string

record intent_ledger_match =
  il_intentId :: string
  il_correlationId :: string
  il_status :: match_status
  il_intentAmount :: "money option"
  il_ledgerAmount :: "money option"
  il_discrepancies :: "string list"
  il_structured :: "discrepancy list"

record ledger_chain_match =
  lc_correlationId :: string
  lc_txHash :: "string option"
  lc_chainId :: "string option"
  lc_status :: match_status
  lc_ledgerAmount :: "money option"
  lc_chainAmount :: "string option"
  lc_chainDecimals :: "int option"
  lc_discrepancies :: "string list"
  lc_structured :: "discrepancy list"

record intent_chain_match =
  ic_intentId :: string
  ic_txHash :: "string option"
  ic_chainId :: "string option"
  ic_status :: match_status
  ic_intentAmount :: "money option"
  ic_chainAmount :: "string option"
  ic_chainDecimals :: "int option"
  ic_discrepancies :: "string list"
  ic_structured :: "discrepancy list"

definition truthy :: "string option \<Rightarrow> string option" where
  "truthy x = (if x = Some [] then None else x)"

text \<open>The test \<^verbatim>\<open>/^-?\d+$/\<close> and \<^verbatim>\<open>BigInt\<close> of such a text.\<close>

definition integer_text :: "string \<Rightarrow> bool" where
  "integer_text s \<longleftrightarrow>
     (let ds = (if s \<noteq> [] \<and> hd s = CHR ''-'' then tl s else s) in ds \<noteq> [] \<and> list_all is_digit ds)"

definition bigint_text :: "string \<Rightarrow> int" where
  "bigint_text s =
     (if s \<noteq> [] \<and> hd s = CHR ''-'' then - int (bigint_of (tl s)) else int (bigint_of s))"

definition rescale :: "int \<Rightarrow> int \<Rightarrow> int \<Rightarrow> int" where
  "rescale to_dec from_dec raw = raw * 10 ^ nat (to_dec - from_dec)"

subsection \<open>Intents and ledger entries\<close>

definition missing_ledger_match :: "reconcilable_intent \<Rightarrow> intent_ledger_match" where
  "missing_ledger_match i =
     (let msg = ''Intent '' @ ri_id i @ '' is '' @ ri_status i @ '' but has no ledger entries'' in
      \<lparr>il_intentId = ri_id i,
       il_correlationId = (case ri_correlationId i of None \<Rightarrow> ri_id i | Some c \<Rightarrow> c),
       il_status = missing_ledger, il_intentAmount = ri_amount i, il_ledgerAmount = None,
       il_discrepancies = [msg], il_structured = [makeDiscrepancy MISSING_LEDGER Dim_presence msg None]\<rparr>)"

definition clean_ledger_match :: "reconcilable_intent \<Rightarrow> string \<Rightarrow> intent_ledger_match" where
  "clean_ledger_match i corr =
     \<lparr>il_intentId = ri_id i, il_correlationId = corr, il_status = matched, il_intentAmount = None,
      il_ledgerAmount = None, il_discrepancies = [], il_structured = []\<rparr>"

definition no_debit_match :: "reconcilable_intent \<Rightarrow> money \<Rightarrow> string \<Rightarrow> intent_ledger_match result" where
  "no_debit_match i amt corr =
     bind_r (parseAmount (m_amount amt) (m_decimals amt)) (\<lambda>intentRaw.
     let expected = formatAmount intentRaw (m_decimals amt);
         actual = formatAmount 0 (m_decimals amt);
         msg = ''Amount mismatch: intent='' @ expected @ '' ledger='' @ actual @ '' (no debit entries)''
     in Inr \<lparr>il_intentId = ri_id i, il_correlationId = corr, il_status = amount_mismatch,
         il_intentAmount = Some amt,
         il_ledgerAmount = Some \<lparr>m_amount = actual, m_currency = m_currency amt, m_decimals = m_decimals amt\<rparr>,
         il_discrepancies = [msg],
         il_structured = [makeDiscrepancy AMOUNT_MISMATCH Dim_amount msg (Some (expected, actual))]\<rparr>)"

definition foreign_discrepancy :: "money \<Rightarrow> reconcilable_entry \<Rightarrow> discrepancy" where
  "foreign_discrepancy amt d =
     (let expected = m_currency amt; actual = m_currency (rl_money d);
          msg = ''Currency mismatch: intent='' @ expected @ '' ledger debit '' @ rl_id d @ ''='' @ actual
      in makeDiscrepancy CURRENCY_MISMATCH Dim_currency msg (Some (expected, actual)))"

definition debit_sum :: "int \<Rightarrow> reconcilable_entry list \<Rightarrow> int result" where
  "debit_sum maxDec ds =
     foldE (\<lambda>total d. bind_r (scaled_of (rl_money d)) (\<lambda>raw.
       Inr (total + rescale maxDec (m_decimals (rl_money d)) raw))) 0 ds"

definition compare_debits ::
  "reconcilable_intent \<Rightarrow> money \<Rightarrow> string \<Rightarrow> reconcilable_entry list \<Rightarrow> intent_ledger_match result" where
  "compare_debits i amt corr debits =
     (let foreignDebits = filter (\<lambda>d. m_currency (rl_money d) \<noteq> m_currency amt) debits;
          same = filter (\<lambda>d. m_currency (rl_money d) = m_currency amt) debits;
          maxDec = foldl (\<lambda>m d. if m_decimals (rl_money d) > m then m_decimals (rl_money d) else m)
            (m_decimals amt) same;
          sawDecimalsMismatch = list_ex (\<lambda>d. m_decimals (rl_money d) \<noteq> m_decimals amt) same
      in bind_r (scaled_of amt) (\<lambda>intentRaw.
      let intentNorm = rescale maxDec (m_decimals amt) intentRaw in
      bind_r (debit_sum maxDec same) (\<lambda>debitTotal.
      let expected = formatAmount intentNorm maxDec;
          actual = formatAmount debitTotal maxDec;
          amountMatches = (intentNorm = debitTotal);
          mismatch = makeDiscrepancy AMOUNT_MISMATCH Dim_amount
            (''Amount mismatch: intent='' @ expected @ '' ledger='' @ actual) (Some (expected, actual));
          decimals = makeDiscrepancy DECIMALS_MISMATCH Dim_decimals
            (''Decimals mismatch: intent and ledger debit(s) agree on '' @ expected @
             '' but use different decimal bases'') None;
          structured = map (foreign_discrepancy amt) foreignDebits @
            (if \<not> amountMatches then [mismatch] else if sawDecimalsMismatch then [decimals] else [])
      in Inr \<lparr>il_intentId = ri_id i, il_correlationId = corr,
           il_status = (if amountMatches \<and> foreignDebits = [] then matched else amount_mismatch),
           il_intentAmount = Some amt,
           il_ledgerAmount = Some \<lparr>m_amount = actual, m_currency = m_currency amt, m_decimals = maxDec\<rparr>,
           il_discrepancies = map dc_message structured, il_structured = structured\<rparr>)))"

definition match_intent_entries ::
  "reconcilable_intent \<Rightarrow> reconcilable_entry list \<Rightarrow> intent_ledger_match result" where
  "match_intent_entries i entries =
     (let debits = filter (\<lambda>e. rl_type e = Debit_side) entries; corr = rl_correlationId (hd entries) in
      case ri_amount i of
        None \<Rightarrow> Inr (clean_ledger_match i corr)
      | Some amt \<Rightarrow> if debits = [] then no_debit_match i amt corr else compare_debits i amt corr debits)"

type_synonym il_state = "intent_ledger_match list \<times> string set"

definition il_intent_step ::
  "(string, reconcilable_entry list) jsmap \<Rightarrow> il_state \<Rightarrow> reconcilable_intent \<Rightarrow> il_state result" where
  "il_intent_step byIntentId st i =
     (case jm_get byIntentId (ri_id i) of
        None \<Rightarrow>
          Inr (if ri_status i = ''executed'' \<or> ri_status i = ''verified''
               then (fst st @ [missing_ledger_match i], snd st) else st)
      | Some entries \<Rightarrow>
          bind_r (match_intent_entries i entries) (\<lambda>m.
          Inr (fst st @ [m], snd st \<union> set (map rl_id entries))))"

definition orphan_entry_match :: "reconcilable_entry \<Rightarrow> string \<Rightarrow> intent_ledger_match" where
  "orphan_entry_match e i =
     (let msg = ''Ledger entry '' @ rl_id e @ '' references intent '' @ i @ '' but intent not found'' in
      \<lparr>il_intentId = i, il_correlationId = rl_correlationId e, il_status = missing_intent,
       il_intentAmount = None, il_ledgerAmount = Some (rl_money e), il_discrepancies = [msg],
       il_structured = [makeDiscrepancy MISSING_INTENT Dim_presence msg None]\<rparr>)"

definition il_orphan_step :: "string set \<Rightarrow> intent_ledger_match list \<Rightarrow> reconcilable_entry \<Rightarrow> intent_ledger_match list" where
  "il_orphan_step matchedIds results e =
     (case truthy (rl_intentId e) of
        None \<Rightarrow> results
      | Some i \<Rightarrow>
          if rl_id e \<notin> matchedIds \<and> \<not> list_ex (\<lambda>r. il_intentId r = i) results
          then results @ [orphan_entry_match e i] else results)"

definition matchIntentLedger ::
  "reconcilable_intent list \<Rightarrow> reconcilable_entry list \<Rightarrow> intent_ledger_match list result" where
  "matchIntentLedger intents entries =
     bind_r (foldE (il_intent_step (index_by (\<lambda>e. truthy (rl_intentId e)) entries)) ([], {}) intents)
       (\<lambda>(results, matchedIds). Inr (foldl (il_orphan_step matchedIds) results entries))"

subsection \<open>Amounts against chain events\<close>

text \<open>
  The comparison both chain matchers make of an amount with the event of its currency, up to the name
  of their side in the messages: whether the amounts agree, and the discrepancy otherwise.
\<close>

definition chain_message :: "string \<Rightarrow> money \<Rightarrow> int \<Rightarrow> reconcilable_event \<Rightarrow> int \<Rightarrow> string" where
  "chain_message label amt raw ev chainRaw =
     (let expected = formatAmount raw (m_decimals amt); actual = formatAmount chainRaw (rv_decimals ev);
          dec = (\<lambda>n. if label = ''ledger'' then '' ('' @ int_str n @ '' dec)'' else [])
      in if m_decimals amt = rv_decimals ev
         then ''Amount mismatch: '' @ label @ ''='' @ expected @ '' chain='' @ actual
         else ''Amount mismatch (cross-decimal): '' @ label @ ''='' @ expected @ dec (m_decimals amt) @
              '' chain='' @ actual @ dec (rv_decimals ev))"

definition invalid_amount :: "string \<Rightarrow> string \<Rightarrow> string \<Rightarrow> discrepancy" where
  "invalid_amount label expected actual =
     makeDiscrepancy AMOUNT_MISMATCH Dim_amount
       (''Invalid chain amount: '' @ label @ ''='' @ expected @ '' chain='' @ CHR 0x22 # actual @
        CHR 0x22 # '' (not an integer string)'') (Some (expected, actual))"

definition chain_compare ::
  "string \<Rightarrow> money \<Rightarrow> reconcilable_event \<Rightarrow> (bool \<times> discrepancy list) result" where
  "chain_compare label amt ev =
     bind_r (scaled_of amt) (\<lambda>raw.
     if \<not> integer_text (rv_amount ev)
     then Inr (False, [invalid_amount label (formatAmount raw (m_decimals amt)) (rv_amount ev)])
     else
       let chainRaw = bigint_text (rv_amount ev);
           maxDec = max (m_decimals amt) (rv_decimals ev);
           matches = (if m_decimals amt = rv_decimals ev then raw = chainRaw
                      else rescale maxDec (m_decimals amt) raw = rescale maxDec (rv_decimals ev) chainRaw)
       in Inr (matches,
            if matches then []
            else [makeDiscrepancy AMOUNT_MISMATCH Dim_amount (chain_message label amt raw ev chainRaw)
                    (Some (formatAmount raw (m_decimals amt), formatAmount chainRaw (rv_decimals ev)))]))"

definition symbol_mismatch :: "string \<Rightarrow> string \<Rightarrow> string \<Rightarrow> discrepancy" where
  "symbol_mismatch label expected actual =
     makeDiscrepancy CURRENCY_MISMATCH Dim_currency
       (''Currency mismatch: '' @ label @ ''='' @ expected @ '' chain='' @ actual) (Some (expected, actual))"

text \<open>The comparison with all events of a transaction: the first one of the currency decides.\<close>

definition compare_events ::
  "string \<Rightarrow> money \<Rightarrow> reconcilable_event list \<Rightarrow> (reconcilable_event \<times> bool \<times> discrepancy list) result" where
  "compare_events label amt events =
     (case find (\<lambda>e. rv_symbol e = m_currency amt) events of
        None \<Rightarrow> Inr (hd events, False, [symbol_mismatch label (m_currency amt) (rv_symbol (hd events))])
      | Some ev \<Rightarrow> bind_r (chain_compare label amt ev) (\<lambda>(ok, ds). Inr (ev, ok, ds)))"

subsection \<open>Ledger entries and chain events\<close>

definition missing_chain_entry :: "reconcilable_entry \<Rightarrow> string \<Rightarrow> ledger_chain_match" where
  "missing_chain_entry e tx =
     (let msg = ''Ledger entry '' @ rl_id e @ '' references txHash '' @ tx @ '' but no on-chain event found'' in
      \<lparr>lc_correlationId = rl_correlationId e, lc_txHash = Some tx, lc_chainId = None, lc_status = missing_chain,
       lc_ledgerAmount = Some (rl_money e), lc_chainAmount = None, lc_chainDecimals = None,
       lc_discrepancies = [msg], lc_structured = [makeDiscrepancy MISSING_CHAIN Dim_presence msg None]\<rparr>)"

definition unmatched_event :: "reconcilable_event \<Rightarrow> ledger_chain_match" where
  "unmatched_event ev =
     (let msg = ''On-chain event '' @ rv_txHash ev @ '' has no matching ledger entry'' in
      \<lparr>lc_correlationId = ''unmatched:'' @ rv_txHash ev, lc_txHash = Some (rv_txHash ev),
       lc_chainId = Some (rv_chainId ev), lc_status = missing_ledger, lc_ledgerAmount = None,
       lc_chainAmount = Some (rv_amount ev), lc_chainDecimals = Some (rv_decimals ev),
       lc_discrepancies = [msg], lc_structured = [makeDiscrepancy MISSING_LEDGER Dim_presence msg None]\<rparr>)"

type_synonym lc_state = "ledger_chain_match list \<times> string set"

definition lc_entry_step ::
  "(string, reconcilable_event list) jsmap \<Rightarrow> lc_state \<Rightarrow> reconcilable_entry \<Rightarrow> lc_state result" where
  "lc_entry_step byTxHash st e =
     (case truthy (rl_txHash e) of
        None \<Rightarrow> Inr st
      | Some tx \<Rightarrow>
          (case jm_get byTxHash tx of
             None \<Rightarrow> Inr (fst st @ [missing_chain_entry e tx], snd st)
           | Some events \<Rightarrow>
               bind_r (compare_events ''ledger'' (rl_money e) events) (\<lambda>(ev, ok, ds).
               Inr (fst st @ [\<lparr>lc_correlationId = rl_correlationId e, lc_txHash = Some tx,
                      lc_chainId = Some (rv_chainId ev), lc_status = (if ok then matched else amount_mismatch),
                      lc_ledgerAmount = Some (rl_money e), lc_chainAmount = Some (rv_amount ev),
                      lc_chainDecimals = Some (rv_decimals ev), lc_discrepancies = map dc_message ds,
                      lc_structured = ds\<rparr>],
                    insert tx (snd st)))))"

definition matchLedgerChain ::
  "reconcilable_entry list \<Rightarrow> reconcilable_event list \<Rightarrow> ledger_chain_match list result" where
  "matchLedgerChain entries events =
     bind_r (foldE (lc_entry_step (index_by (\<lambda>e. Some (rv_txHash e)) events)) ([], {}) entries)
       (\<lambda>(results, matchedTx).
          Inr (results @ map unmatched_event (filter (\<lambda>e. rv_txHash e \<notin> matchedTx) events)))"

definition to_cross_chain :: "reconcilable_event \<Rightarrow> cross_chain_event" where
  "to_cross_chain e =
     \<lparr>cc_chainId = rv_chainId e, cc_txHash = rv_txHash e, cc_blockNumber = 0, cc_amount = rv_amount e,
      cc_symbol = rv_symbol e, cc_from = rv_from e, cc_to = rv_to e, cc_timestamp = rv_timestamp e\<rparr>"

definition chain_tx :: "string \<Rightarrow> string \<Rightarrow> string" where
  "chain_tx c tx = c @ '':'' @ tx"

definition matchMultiChain ::
  "reconcilable_entry list \<Rightarrow> reconcilable_event list \<Rightarrow>
   (ledger_chain_match list \<times> reconcilable_event list) result" where
  "matchMultiChain entries events =
     (case preventDoubleCounting DEFAULT_SETTLEMENT_PAIRS (map to_cross_chain events) of
        (kept, removed) \<Rightarrow>
          let named = (\<lambda>cs e. chain_tx (rv_chainId e) (rv_txHash e) \<in> set (map (\<lambda>c. chain_tx (cc_chainId c) (cc_txHash c)) cs))
          in bind_r (matchLedgerChain entries (filter (named kept) events)) (\<lambda>ms.
             Inr (ms, filter (named removed) events)))"

subsection \<open>Intents and chain events\<close>

definition missing_chain_intent :: "reconcilable_intent \<Rightarrow> string \<Rightarrow> intent_chain_match" where
  "missing_chain_intent i tx =
     (let msg = ''Intent '' @ ri_id i @ '' executed with txHash '' @ tx @ '' but no on-chain event found'' in
      \<lparr>ic_intentId = ri_id i, ic_txHash = Some tx, ic_chainId = truthy (ri_chainId i), ic_status = missing_chain,
       ic_intentAmount = ri_amount i, ic_chainAmount = None, ic_chainDecimals = None,
       ic_discrepancies = [msg], ic_structured = [makeDiscrepancy MISSING_CHAIN Dim_presence msg None]\<rparr>)"

definition unauthorized_event :: "reconcilable_event \<Rightarrow> intent_chain_match" where
  "unauthorized_event ev =
     (let msg = ''Chain event '' @ rv_txHash ev @ '' ('' @ rv_amount ev @ '' '' @ rv_symbol ev @
        '') has no matching intent'' in
      \<lparr>ic_intentId = [], ic_txHash = Some (rv_txHash ev), ic_chainId = Some (rv_chainId ev),
       ic_status = missing_intent, ic_intentAmount = None, ic_chainAmount = Some (rv_amount ev),
       ic_chainDecimals = Some (rv_decimals ev), ic_discrepancies = [msg],
       ic_structured = [makeDiscrepancy MISSING_INTENT Dim_presence msg None]\<rparr>)"

definition match_intent_events ::
  "reconcilable_intent \<Rightarrow> string \<Rightarrow> reconcilable_event list \<Rightarrow> intent_chain_match result" where
  "match_intent_events i tx events =
     bind_r (case ri_amount i of
         None \<Rightarrow> Inr (hd events, True, [])
       | Some amt \<Rightarrow> compare_events ''intent'' amt events) (\<lambda>(ev, ok, ds).
     Inr \<lparr>ic_intentId = ri_id i, ic_txHash = Some tx, ic_chainId = Some (rv_chainId ev),
       ic_status = (if ok then matched else amount_mismatch), ic_intentAmount = ri_amount i,
       ic_chainAmount = Some (rv_amount ev), ic_chainDecimals = Some (rv_decimals ev),
       ic_discrepancies = map dc_message ds, ic_structured = ds\<rparr>)"

type_synonym ic_state = "intent_chain_match list \<times> string set"

definition ic_intent_step ::
  "(string, reconcilable_event list) jsmap \<Rightarrow> ic_state \<Rightarrow> reconcilable_intent \<Rightarrow> ic_state result" where
  "ic_intent_step byTxHash st i =
     (case truthy (ri_txHash i) of
        None \<Rightarrow> Inr st
      | Some tx \<Rightarrow>
          (case jm_get byTxHash tx of
             None \<Rightarrow> Inr (fst st @ [missing_chain_intent i tx], snd st)
           | Some events \<Rightarrow>
               bind_r (match_intent_events i tx events) (\<lambda>m. Inr (fst st @ [m], insert tx (snd st)))))"

fun ic_orphans :: "string set \<Rightarrow> string set \<Rightarrow> reconcilable_event list \<Rightarrow> intent_chain_match list" where
  "ic_orphans matchedTx reported [] = []"
| "ic_orphans matchedTx reported (ev # evs) =
     (if rv_txHash ev \<in> matchedTx \<or> rv_txHash ev \<in> reported then ic_orphans matchedTx reported evs
      else unauthorized_event ev # ic_orphans matchedTx (insert (rv_txHash ev) reported) evs)"

definition matchIntentChain ::
  "reconcilable_intent list \<Rightarrow> reconcilable_event list \<Rightarrow> intent_chain_match list result" where
  "matchIntentChain intents events =
     bind_r (foldE (ic_intent_step (index_by (\<lambda>e. Some (rv_txHash e)) events)) ([], {}) intents)
       (\<lambda>(results, matchedTx). Inr (results @ ic_orphans matchedTx {} events))"

subsection \<open>Values of amounts\<close>

text \<open>The rational number a scaled integer stands for; rescaling to a common base is exact.\<close>

definition decimal_rat :: "int \<Rightarrow> int \<Rightarrow> rat" where
  "decimal_rat raw dec = of_int raw * 10 powi (- dec)"

definition money_rat :: "money \<Rightarrow> rat" where
  "money_rat m = (case scaled_of m of Inl e \<Rightarrow> 0 | Inr raw \<Rightarrow> decimal_rat raw (m_decimals m))"

lemma rescale_rat:
  assumes "d \<le> m"
  shows "decimal_rat (rescale m d raw) m = decimal_rat raw d"
proof -
  have "(10 :: rat) ^ nat (m - d) = 10 powi (m - d)" using assms by (simp add: power_int_def)
  then have "(10 :: rat) ^ nat (m - d) * 10 powi (- m) = 10 powi (- d)"
    by (simp add: power_int_add[symmetric])
  then show ?thesis by (simp add: decimal_rat_def rescale_def mult.assoc)
qed

lemma decimal_rat_inj: "decimal_rat a m = decimal_rat b m \<longleftrightarrow> a = b"
  by (simp add: decimal_rat_def)

lemma rescale_eq:
  assumes "d \<le> m" "d' \<le> m"
  shows "rescale m d a = rescale m d' b \<longleftrightarrow> decimal_rat a d = decimal_rat b d'"
  using rescale_rat[OF assms(1), of a] rescale_rat[OF assms(2), of b] decimal_rat_inj by metis

lemma decimal_rat_add: "decimal_rat (a + b) m = decimal_rat a m + decimal_rat b m"
  by (simp add: decimal_rat_def ring_distribs)

lemma debit_sum_snoc:
  "debit_sum m (ds @ [d]) = bind_r (debit_sum m ds) (\<lambda>t. bind_r (scaled_of (rl_money d)) (\<lambda>raw.
     Inr (t + rescale m (m_decimals (rl_money d)) raw)))"
  by (simp add: debit_sum_def foldE_append bind_r_def split: sum.split)

lemma debit_sum_rat:
  assumes "debit_sum m ds = Inr t" "\<forall>d \<in> set ds. m_decimals (rl_money d) \<le> m"
  shows "decimal_rat t m = sum_list (map (\<lambda>d. money_rat (rl_money d)) ds)"
  using assms
proof (induction ds arbitrary: t rule: rev_induct)
  case (snoc d ds)
  then obtain s raw where s: "debit_sum m ds = Inr s" "scaled_of (rl_money d) = Inr raw"
    "t = s + rescale m (m_decimals (rl_money d)) raw"
    by (auto simp: debit_sum_snoc bind_r_eq_Inr)
  then show ?case using snoc.IH[OF s(1)] snoc.prems(2)
    by (simp add: decimal_rat_add rescale_rat money_rat_def)
qed (simp add: debit_sum_def decimal_rat_def)

lemma foldl_max_decimals:
  fixes ds :: "reconcilable_entry list"
  defines "step \<equiv> \<lambda>m d. if m_decimals (rl_money d) > m then m_decimals (rl_money d) else m"
  shows "k \<le> foldl step k ds \<and> (\<forall>d \<in> set ds. m_decimals (rl_money d) \<le> foldl step k ds)"
proof (induction ds arbitrary: k)
  case (Cons d ds)
  have "k \<le> step k d" "m_decimals (rl_money d) \<le> step k d" by (simp_all add: step_def)
  then show ?case using Cons[of "step k d"] by auto
qed simp

text \<open>The debits of an intent cover its amount: all in its currency, with its value in total.\<close>

definition debits_of :: "reconcilable_entry list \<Rightarrow> reconcilable_entry list" where
  "debits_of es = filter (\<lambda>e. rl_type e = Debit_side) es"

definition covers :: "money \<Rightarrow> reconcilable_entry list \<Rightarrow> bool" where
  "covers amt ds \<longleftrightarrow>
     ds \<noteq> [] \<and> (\<forall>d \<in> set ds. m_currency (rl_money d) = m_currency amt) \<and>
     sum_list (map (\<lambda>d. money_rat (rl_money d)) ds) = money_rat amt"

lemma compare_debits_status:
  assumes "compare_debits i amt corr ds = Inr m" "ds \<noteq> []"
  shows "il_intentId m = ri_id i" "il_status m = (if covers amt ds then matched else amount_mismatch)"
proof -
  let ?same = "filter (\<lambda>d. m_currency (rl_money d) = m_currency amt) ds"
  let ?max = "foldl (\<lambda>m d. if m_decimals (rl_money d) > m then m_decimals (rl_money d) else m) (m_decimals amt) ?same"
  obtain raw t where raw: "scaled_of amt = Inr raw" and t: "debit_sum ?max ?same = Inr t"
    and m: "il_intentId m = ri_id i"
      "il_status m = (if rescale ?max (m_decimals amt) raw = t \<and>
         filter (\<lambda>d. m_currency (rl_money d) \<noteq> m_currency amt) ds = [] then matched else amount_mismatch)"
    using assms(1) unfolding compare_debits_def Let_def bind_r_eq_Inr by (elim exE conjE) auto
  then show "il_intentId m = ri_id i" by simp
  have max: "m_decimals amt \<le> ?max" "\<forall>d \<in> set ?same. m_decimals (rl_money d) \<le> ?max"
    using foldl_max_decimals[of "m_decimals amt" ?same] by auto
  have "decimal_rat (rescale ?max (m_decimals amt) raw) ?max = money_rat amt"
    using rescale_rat[OF max(1)] raw by (simp add: money_rat_def)
  then have sums: "rescale ?max (m_decimals amt) raw = t \<longleftrightarrow>
      sum_list (map (\<lambda>d. money_rat (rl_money d)) ?same) = money_rat amt"
    using decimal_rat_inj[of "rescale ?max (m_decimals amt) raw" ?max t] debit_sum_rat[OF t max(2)] by auto
  show "il_status m = (if covers amt ds then matched else amount_mismatch)"
  proof (cases "\<forall>d \<in> set ds. m_currency (rl_money d) = m_currency amt")
    case True
    then have "?same = ds" "filter (\<lambda>d. m_currency (rl_money d) \<noteq> m_currency amt) ds = []"
      by (simp_all add: filter_id_conv)
    then show ?thesis using m(2) sums True assms(2) by (simp add: covers_def)
  next
    case False
    then have "filter (\<lambda>d. m_currency (rl_money d) \<noteq> m_currency amt) ds \<noteq> []" by (simp add: filter_empty_conv)
    then show ?thesis using m(2) False unfolding covers_def by simp
  qed
qed

lemma no_debit_status:
  assumes "no_debit_match i amt corr = Inr m"
  shows "il_intentId m = ri_id i" "il_status m = amount_mismatch"
  using assms by (auto simp: no_debit_match_def Let_def bind_r_eq_Inr)

definition intent_covered :: "reconcilable_intent \<Rightarrow> reconcilable_entry list \<Rightarrow> bool" where
  "intent_covered i es \<longleftrightarrow> (case ri_amount i of None \<Rightarrow> True | Some amt \<Rightarrow> covers amt (debits_of es))"

lemma match_intent_entries_status:
  assumes "match_intent_entries i es = Inr m"
  shows "il_intentId m = ri_id i" "il_status m = (if intent_covered i es then matched else amount_mismatch)"
proof -
  have "il_intentId m = ri_id i \<and> il_status m = (if intent_covered i es then matched else amount_mismatch)"
  proof (cases "ri_amount i")
    case None
    then show ?thesis using assms by (auto simp: match_intent_entries_def clean_ledger_match_def intent_covered_def)
  next
    case (Some amt)
    then show ?thesis
      using assms no_debit_status[of i amt _ m] compare_debits_status[of i amt _ "debits_of es" m]
      by (auto simp: match_intent_entries_def Let_def intent_covered_def debits_of_def covers_def split: if_splits)
  qed
  then show "il_intentId m = ri_id i" "il_status m = (if intent_covered i es then matched else amount_mismatch)"
    by auto
qed

definition event_rat :: "reconcilable_event \<Rightarrow> rat" where
  "event_rat ev = decimal_rat (bigint_text (rv_amount ev)) (rv_decimals ev)"

definition chain_agrees :: "money \<Rightarrow> reconcilable_event \<Rightarrow> bool" where
  "chain_agrees amt ev \<longleftrightarrow> integer_text (rv_amount ev) \<and> event_rat ev = money_rat amt"

definition tx_agrees :: "money \<Rightarrow> reconcilable_event list \<Rightarrow> bool" where
  "tx_agrees amt evs \<longleftrightarrow>
     (case find (\<lambda>e. rv_symbol e = m_currency amt) evs of None \<Rightarrow> False | Some ev \<Rightarrow> chain_agrees amt ev)"

lemma chain_compare_agrees:
  assumes "chain_compare label amt ev = Inr (ok, ds)"
  shows "ok \<longleftrightarrow> chain_agrees amt ev"
proof -
  obtain raw where raw: "scaled_of amt = Inr raw" using assms by (auto simp: chain_compare_def bind_r_eq_Inr)
  let ?max = "max (m_decimals amt) (rv_decimals ev)"
  have "rescale ?max (m_decimals amt) raw = rescale ?max (rv_decimals ev) (bigint_text (rv_amount ev)) \<longleftrightarrow>
      event_rat ev = money_rat amt"
    using rescale_eq[of "m_decimals amt" ?max "rv_decimals ev" raw "bigint_text (rv_amount ev)"] raw
    by (auto simp: event_rat_def money_rat_def)
  moreover have "raw = bigint_text (rv_amount ev) \<longleftrightarrow> event_rat ev = money_rat amt"
    if "m_decimals amt = rv_decimals ev"
    using that raw decimal_rat_inj[of raw "rv_decimals ev" "bigint_text (rv_amount ev)"]
    by (auto simp: event_rat_def money_rat_def)
  ultimately show ?thesis using assms raw
    by (auto simp: chain_compare_def Let_def chain_agrees_def split: if_splits)
qed

lemma compare_events_agrees:
  assumes "compare_events label amt evs = Inr (ev, ok, ds)"
  shows "ok \<longleftrightarrow> tx_agrees amt evs"
proof (cases "find (\<lambda>e. rv_symbol e = m_currency amt) evs")
  case (Some e)
  then show ?thesis using assms chain_compare_agrees[of label amt e ok ds]
    by (auto simp: compare_events_def tx_agrees_def bind_r_eq_Inr)
qed (use assms in \<open>auto simp: compare_events_def tx_agrees_def\<close>)

subsection \<open>What a clean result of a matcher means\<close>

definition linked_entries :: "reconcilable_entry list \<Rightarrow> string \<Rightarrow> reconcilable_entry list" where
  "linked_entries entries i = filter (\<lambda>e. truthy (rl_intentId e) = Some i) entries"

definition tx_events :: "reconcilable_event list \<Rightarrow> string \<Rightarrow> reconcilable_event list" where
  "tx_events events tx = filter (\<lambda>e. rv_txHash e = tx) events"

text \<open>The agreement of intents and ledger, of ledger and chain, and of intents and chain.\<close>

definition intent_booked :: "reconcilable_entry list \<Rightarrow> reconcilable_intent \<Rightarrow> bool" where
  "intent_booked entries i \<longleftrightarrow>
     (if linked_entries entries (ri_id i) = [] then ri_status i \<noteq> ''executed'' \<and> ri_status i \<noteq> ''verified''
      else intent_covered i (linked_entries entries (ri_id i)))"

definition intents_and_ledger_agree :: "reconcilable_intent list \<Rightarrow> reconcilable_entry list \<Rightarrow> bool" where
  "intents_and_ledger_agree intents entries \<longleftrightarrow>
     (\<forall>i \<in> set intents. intent_booked entries i) \<and>
     (\<forall>e \<in> set entries. \<forall>x. truthy (rl_intentId e) = Some x \<longrightarrow> (\<exists>i \<in> set intents. ri_id i = x))"

definition entry_on_chain :: "reconcilable_event list \<Rightarrow> reconcilable_entry \<Rightarrow> bool" where
  "entry_on_chain events e \<longleftrightarrow>
     (case truthy (rl_txHash e) of None \<Rightarrow> True | Some tx \<Rightarrow> tx_agrees (rl_money e) (tx_events events tx))"

definition ledger_and_chain_agree :: "reconcilable_entry list \<Rightarrow> reconcilable_event list \<Rightarrow> bool" where
  "ledger_and_chain_agree entries events \<longleftrightarrow>
     (\<forall>e \<in> set entries. entry_on_chain events e) \<and>
     (\<forall>ev \<in> set events. \<exists>e \<in> set entries. truthy (rl_txHash e) = Some (rv_txHash ev))"

definition intent_on_chain :: "reconcilable_event list \<Rightarrow> reconcilable_intent \<Rightarrow> bool" where
  "intent_on_chain events i \<longleftrightarrow>
     (case truthy (ri_txHash i) of
        None \<Rightarrow> True
      | Some tx \<Rightarrow> tx_events events tx \<noteq> [] \<and>
          (case ri_amount i of None \<Rightarrow> True | Some amt \<Rightarrow> tx_agrees amt (tx_events events tx)))"

definition intents_and_chain_agree :: "reconcilable_intent list \<Rightarrow> reconcilable_event list \<Rightarrow> bool" where
  "intents_and_chain_agree intents events \<longleftrightarrow>
     (\<forall>i \<in> set intents. intent_on_chain events i) \<and>
     (\<forall>ev \<in> set events. \<exists>i \<in> set intents. truthy (ri_txHash i) = Some (rv_txHash ev))"

lemma index_linked:
  "jm_get (index_by (\<lambda>e. truthy (rl_intentId e)) entries) i =
     (if linked_entries entries i = [] then None else Some (linked_entries entries i))"
  by (simp add: index_by_get linked_entries_def Let_def)

lemma index_tx:
  "jm_get (index_by (\<lambda>e. Some (rv_txHash e)) events) tx =
     (if tx_events events tx = [] then None else Some (tx_events events tx))"
  by (simp add: index_by_get tx_events_def Let_def)

lemma foldE_snoc: "foldE f s (xs @ [x]) = Inr t \<longleftrightarrow> (\<exists>u. foldE f s xs = Inr u \<and> f u x = Inr t)"
  by (simp add: foldE_append bind_r_eq_Inr)

lemma il_intent_step_effect:
  assumes "il_intent_step (index_by (\<lambda>e. truthy (rl_intentId e)) entries) (rs, ids) i = Inr (rs', ids')"
  shows "ids' = ids \<union> rl_id ` set (linked_entries entries (ri_id i)) \<and>
    (\<exists>ms. rs' = rs @ ms \<and> (\<forall>m \<in> set ms. il_intentId m = ri_id i) \<and>
      ((\<forall>m \<in> set ms. il_status m = matched) \<longleftrightarrow> intent_booked entries i))"
proof (cases "linked_entries entries (ri_id i) = []")
  case True
  then show ?thesis using assms
    by (auto simp: il_intent_step_def index_linked intent_booked_def missing_ledger_match_def Let_def split: if_splits)
next
  case False
  then obtain m where "match_intent_entries i (linked_entries entries (ri_id i)) = Inr m" "rs' = rs @ [m]"
    "ids' = ids \<union> rl_id ` set (linked_entries entries (ri_id i))"
    using assms by (auto simp: il_intent_step_def index_linked bind_r_eq_Inr)
  then show ?thesis using False match_intent_entries_status[of i _ m] by (auto simp: intent_booked_def)
qed

lemma il_intents:
  assumes "foldE (il_intent_step (index_by (\<lambda>e. truthy (rl_intentId e)) entries)) ([], {}) intents = Inr (rs, ids)"
  shows "ids = (\<Union>i \<in> set intents. rl_id ` set (linked_entries entries (ri_id i))) \<and>
    (\<forall>r \<in> set rs. \<exists>i \<in> set intents. il_intentId r = ri_id i) \<and>
    ((\<forall>r \<in> set rs. il_status r = matched) \<longleftrightarrow> (\<forall>i \<in> set intents. intent_booked entries i))"
  using assms
proof (induction intents arbitrary: rs ids rule: rev_induct)
  case (snoc i js)
  from snoc.prems[unfolded foldE_snoc] obtain rs0 ids0 where
    "foldE (il_intent_step (index_by (\<lambda>e. truthy (rl_intentId e)) entries)) ([], {}) js = Inr (rs0, ids0)"
    "il_intent_step (index_by (\<lambda>e. truthy (rl_intentId e)) entries) (rs0, ids0) i = Inr (rs, ids)"
    by auto
  note ih = snoc.IH[OF this(1)] and step = il_intent_step_effect[OF this(2)]
  from step obtain ms where ms: "rs = rs0 @ ms" "\<forall>m \<in> set ms. il_intentId m = ri_id i"
    "(\<forall>m \<in> set ms. il_status m = matched) \<longleftrightarrow> intent_booked entries i"
    by (elim conjE exE) (rule that)
  have "(\<forall>r \<in> set rs. il_status r = matched) \<longleftrightarrow> (\<forall>i \<in> set (js @ [i]). intent_booked entries i)"
    using ih ms(3) unfolding ms(1) by (simp add: ball_Un conj_commute)
  moreover have "\<forall>r \<in> set rs. \<exists>i \<in> set (js @ [i]). il_intentId r = ri_id i"
    using ih ms(2) unfolding ms(1) by (simp add: ball_Un)
  moreover have "ids = (\<Union>i \<in> set (js @ [i]). rl_id ` set (linked_entries entries (ri_id i)))"
    using ih step by (simp add: Un_commute)
  ultimately show ?case by (intro conjI)
qed simp

lemma il_orphan_step_effect:
  "(\<forall>r \<in> set (il_orphan_step ids rs e). il_status r = matched) \<longleftrightarrow>
   (\<forall>r \<in> set rs. il_status r = matched) \<and>
   (\<forall>x. truthy (rl_intentId e) = Some x \<longrightarrow> rl_id e \<in> ids \<or> (\<exists>r \<in> set rs. il_intentId r = x))"
  by (auto simp: il_orphan_step_def orphan_entry_match_def Let_def list_ex_iff split: option.split)

lemma il_orphan_step_same:
  "\<forall>r \<in> set (il_orphan_step ids rs e). il_status r = matched \<Longrightarrow> il_orphan_step ids rs e = rs"
  by (auto simp: il_orphan_step_def orphan_entry_match_def Let_def split: option.splits if_splits)

lemma il_orphan_step_extends: "set rs \<subseteq> set (il_orphan_step ids rs e)"
  by (auto simp: il_orphan_step_def split: option.split)

lemma il_orphans_extend: "set rs \<subseteq> set (foldl (il_orphan_step ids) rs es)"
proof (induction es arbitrary: rs)
  case (Cons e es)
  then show ?case using il_orphan_step_extends[of rs ids e] Cons[of "il_orphan_step ids rs e"] by (simp add: subset_trans)
qed simp

lemma il_orphans:
  "(\<forall>r \<in> set (foldl (il_orphan_step ids) rs es). il_status r = matched) \<longleftrightarrow>
   (\<forall>r \<in> set rs. il_status r = matched) \<and>
   (\<forall>e \<in> set es. \<forall>x. truthy (rl_intentId e) = Some x \<longrightarrow> rl_id e \<in> ids \<or> (\<exists>r \<in> set rs. il_intentId r = x))"
proof (induction es arbitrary: rs)
  case (Cons e es)
  show ?case
  proof (cases "\<forall>r \<in> set (il_orphan_step ids rs e). il_status r = matched")
    case True
    then show ?thesis using Cons[of rs] il_orphan_step_same[OF True] il_orphan_step_effect[of ids rs e] by simp
  next
    case False
    then have "\<not> (\<forall>r \<in> set (foldl (il_orphan_step ids) rs (e # es)). il_status r = matched)"
      using il_orphans_extend[of "il_orphan_step ids rs e" ids es] by auto
    then show ?thesis using False il_orphan_step_effect[of ids rs e] by auto
  qed
qed simp

lemma intent_ledger_clean:
  assumes "matchIntentLedger intents entries = Inr rs" "distinct (map rl_id entries)"
  shows "(\<forall>r \<in> set rs. il_status r = matched) \<longleftrightarrow> intents_and_ledger_agree intents entries"
proof -
  obtain rs0 ids where fold:
    "foldE (il_intent_step (index_by (\<lambda>e. truthy (rl_intentId e)) entries)) ([], {}) intents = Inr (rs0, ids)"
    and rs: "rs = foldl (il_orphan_step ids) rs0 entries"
    using assms(1) by (auto simp: matchIntentLedger_def bind_r_eq_Inr)
  note facts = il_intents[OF fold]
  have "rl_id e \<in> ids \<longleftrightarrow> (\<exists>i \<in> set intents. ri_id i = x)" if e: "e \<in> set entries" "truthy (rl_intentId e) = Some x" for e x
  proof
    assume "rl_id e \<in> ids"
    then obtain i f where i: "i \<in> set intents" "f \<in> set (linked_entries entries (ri_id i))" "rl_id f = rl_id e"
      unfolding facts[THEN conjunct1] by auto
    then have "f = e" using assms(2) e(1) by (auto simp: linked_entries_def distinct_map dest: inj_onD)
    then show "\<exists>i \<in> set intents. ri_id i = x" using i e(2) by (auto simp: linked_entries_def)
  next
    assume "\<exists>i \<in> set intents. ri_id i = x"
    then obtain i where "i \<in> set intents" "ri_id i = x" by blast
    then show "rl_id e \<in> ids" unfolding facts[THEN conjunct1] using e by (auto simp: linked_entries_def)
  qed
  then have "(\<forall>e \<in> set entries. \<forall>x. truthy (rl_intentId e) = Some x \<longrightarrow>
        rl_id e \<in> ids \<or> (\<exists>r \<in> set rs0. il_intentId r = x)) \<longleftrightarrow>
      (\<forall>e \<in> set entries. \<forall>x. truthy (rl_intentId e) = Some x \<longrightarrow> (\<exists>i \<in> set intents. ri_id i = x))"
    using facts by (metis (no_types, lifting))
  then show ?thesis unfolding rs il_orphans intents_and_ledger_agree_def using facts by blast
qed

lemma lc_entry_step_effect:
  assumes "lc_entry_step (index_by (\<lambda>e. Some (rv_txHash e)) events) (rs, txs) e = Inr (rs', txs')"
  shows "(\<exists>ms. rs' = rs @ ms \<and> ((\<forall>m \<in> set ms. lc_status m = matched) \<longleftrightarrow> entry_on_chain events e)) \<and>
    txs' = txs \<union> {tx. truthy (rl_txHash e) = Some tx \<and> tx_events events tx \<noteq> []}"
proof (cases "truthy (rl_txHash e)")
  case None
  then show ?thesis using assms by (auto simp: lc_entry_step_def entry_on_chain_def)
next
  case (Some tx)
  show ?thesis
  proof (cases "tx_events events tx = []")
    case True
    then show ?thesis using assms Some
      by (auto simp: lc_entry_step_def index_tx entry_on_chain_def tx_agrees_def missing_chain_entry_def Let_def)
  next
    case False
    then obtain ev ok ds where cmp: "compare_events ''ledger'' (rl_money e) (tx_events events tx) = Inr (ev, ok, ds)"
      using assms Some by (auto simp: lc_entry_step_def index_tx bind_r_eq_Inr)
    show ?thesis using assms Some False compare_events_agrees[OF cmp]
      by (auto simp: lc_entry_step_def index_tx cmp entry_on_chain_def)
  qed
qed

lemma lc_entries:
  assumes "foldE (lc_entry_step (index_by (\<lambda>e. Some (rv_txHash e)) events)) ([], {}) entries = Inr (rs, txs)"
  shows "((\<forall>r \<in> set rs. lc_status r = matched) \<longleftrightarrow> (\<forall>e \<in> set entries. entry_on_chain events e)) \<and>
    txs = {tx. tx_events events tx \<noteq> [] \<and> (\<exists>e \<in> set entries. truthy (rl_txHash e) = Some tx)}"
  using assms
proof (induction entries arbitrary: rs txs rule: rev_induct)
  case (snoc e es)
  from snoc.prems[unfolded foldE_snoc] obtain rs0 txs0 where
    "foldE (lc_entry_step (index_by (\<lambda>e. Some (rv_txHash e)) events)) ([], {}) es = Inr (rs0, txs0)"
    "lc_entry_step (index_by (\<lambda>e. Some (rv_txHash e)) events) (rs0, txs0) e = Inr (rs, txs)"
    by auto
  from snoc.IH[OF this(1)] lc_entry_step_effect[OF this(2)] show ?case by fastforce
qed simp

lemma event_has_tx: "ev \<in> set events \<Longrightarrow> tx_events events (rv_txHash ev) \<noteq> []"
  by (auto simp: tx_events_def filter_empty_conv)

lemma unmatched_event_status [simp]: "lc_status (unmatched_event ev) \<noteq> matched"
  by (simp add: unmatched_event_def Let_def)

lemma ledger_chain_clean:
  assumes "matchLedgerChain entries events = Inr rs"
  shows "(\<forall>r \<in> set rs. lc_status r = matched) \<longleftrightarrow> ledger_and_chain_agree entries events"
proof -
  obtain rs0 txs where fold:
    "foldE (lc_entry_step (index_by (\<lambda>e. Some (rv_txHash e)) events)) ([], {}) entries = Inr (rs0, txs)"
    and rs: "rs = rs0 @ map unmatched_event (filter (\<lambda>e. rv_txHash e \<notin> txs) events)"
    using assms by (auto simp: matchLedgerChain_def bind_r_eq_Inr)
  note facts = lc_entries[OF fold]
  have "(\<forall>r \<in> set rs. lc_status r = matched) \<longleftrightarrow>
      (\<forall>r \<in> set rs0. lc_status r = matched) \<and> (\<forall>ev \<in> set events. rv_txHash ev \<in> txs)"
    unfolding rs by (auto simp: ball_Un)
  then show ?thesis using facts event_has_tx unfolding ledger_and_chain_agree_def by auto
qed

lemma ic_intent_step_effect:
  assumes "ic_intent_step (index_by (\<lambda>e. Some (rv_txHash e)) events) (rs, txs) i = Inr (rs', txs')"
  shows "(\<exists>ms. rs' = rs @ ms \<and> ((\<forall>m \<in> set ms. ic_status m = matched) \<longleftrightarrow> intent_on_chain events i)) \<and>
    txs' = txs \<union> {tx. truthy (ri_txHash i) = Some tx \<and> tx_events events tx \<noteq> []}"
proof (cases "truthy (ri_txHash i)")
  case None
  then show ?thesis using assms by (auto simp: ic_intent_step_def intent_on_chain_def)
next
  case (Some tx)
  show ?thesis
  proof (cases "tx_events events tx = []")
    case True
    then show ?thesis using assms Some
      by (auto simp: ic_intent_step_def index_tx intent_on_chain_def missing_chain_intent_def Let_def)
  next
    case False
    then obtain m where m: "match_intent_events i tx (tx_events events tx) = Inr m" "rs' = rs @ [m]" "txs' = insert tx txs"
      using assms Some by (auto simp: ic_intent_step_def index_tx bind_r_eq_Inr)
    have "ic_status m = matched \<longleftrightarrow> intent_on_chain events i"
    proof (cases "ri_amount i")
      case None
      then show ?thesis using m(1) Some False by (auto simp: match_intent_events_def intent_on_chain_def)
    next
      case amt: (Some amt)
      then obtain ev ok ds where "compare_events ''intent'' amt (tx_events events tx) = Inr (ev, ok, ds)"
        "ic_status m = (if ok then matched else amount_mismatch)"
        using m(1) by (auto simp: match_intent_events_def bind_r_eq_Inr)
      then show ?thesis using compare_events_agrees Some False amt by (auto simp: intent_on_chain_def)
    qed
    then show ?thesis using m(2,3) Some False by auto
  qed
qed

lemma ic_intents:
  assumes "foldE (ic_intent_step (index_by (\<lambda>e. Some (rv_txHash e)) events)) ([], {}) intents = Inr (rs, txs)"
  shows "((\<forall>r \<in> set rs. ic_status r = matched) \<longleftrightarrow> (\<forall>i \<in> set intents. intent_on_chain events i)) \<and>
    txs = {tx. tx_events events tx \<noteq> [] \<and> (\<exists>i \<in> set intents. truthy (ri_txHash i) = Some tx)}"
  using assms
proof (induction intents arbitrary: rs txs rule: rev_induct)
  case (snoc i js)
  from snoc.prems[unfolded foldE_snoc] obtain rs0 txs0 where
    "foldE (ic_intent_step (index_by (\<lambda>e. Some (rv_txHash e)) events)) ([], {}) js = Inr (rs0, txs0)"
    "ic_intent_step (index_by (\<lambda>e. Some (rv_txHash e)) events) (rs0, txs0) i = Inr (rs, txs)"
    by auto
  from snoc.IH[OF this(1)] ic_intent_step_effect[OF this(2)] show ?case by fastforce
qed simp

lemma ic_orphans_matched:
  "(\<forall>m \<in> set (ic_orphans txs reported events). ic_status m = matched) \<longleftrightarrow>
   (\<forall>ev \<in> set events. rv_txHash ev \<in> txs \<or> rv_txHash ev \<in> reported)"
  by (induction txs reported events rule: ic_orphans.induct) (auto simp: unauthorized_event_def Let_def)

lemma intent_chain_clean:
  assumes "matchIntentChain intents events = Inr rs"
  shows "(\<forall>r \<in> set rs. ic_status r = matched) \<longleftrightarrow> intents_and_chain_agree intents events"
proof -
  obtain rs0 txs where fold:
    "foldE (ic_intent_step (index_by (\<lambda>e. Some (rv_txHash e)) events)) ([], {}) intents = Inr (rs0, txs)"
    and rs: "rs = rs0 @ ic_orphans txs {} events"
    using assms by (auto simp: matchIntentChain_def bind_r_eq_Inr)
  note facts = ic_intents[OF fold]
  have "(\<forall>r \<in> set rs. ic_status r = matched) \<longleftrightarrow>
      (\<forall>r \<in> set rs0. ic_status r = matched) \<and> (\<forall>ev \<in> set events. rv_txHash ev \<in> txs)"
    unfolding rs using ic_orphans_matched[of txs "{}" events] by auto
  then show ?thesis using facts event_has_tx unfolding intents_and_chain_agree_def by auto
qed

subsection \<open>Malformed chain data does not stop a matcher\<close>

definition readable :: "money \<Rightarrow> bool" where
  "readable m \<longleftrightarrow> (\<exists>raw. scaled_of m = Inr raw)"

lemma foldE_succeeds:
  assumes "\<And>s x. x \<in> set xs \<Longrightarrow> \<exists>t. f s x = Inr t"
  shows "\<exists>t. foldE f s xs = Inr t"
  using assms
proof (induction xs arbitrary: s)
  case (Cons x xs)
  obtain u where u: "f s x = Inr u" using Cons.prems[of x s] by auto
  obtain t where "foldE f u xs = Inr t" using Cons.IH[of u] Cons.prems by auto
  then show ?case using u by simp
qed simp

lemma match_intent_entries_succeeds:
  assumes "\<forall>amt. ri_amount i = Some amt \<longrightarrow> readable amt" "\<forall>e \<in> set es. readable (rl_money e)"
  shows "\<exists>m. match_intent_entries i es = Inr m"
proof (cases "ri_amount i")
  case (Some amt)
  then obtain raw where raw: "scaled_of amt = Inr raw" using assms(1) by (auto simp: readable_def)
  have sums: "\<exists>t. debit_sum k ds = Inr t" if "set ds \<subseteq> set es" for k ds
    unfolding debit_sum_def
  proof (rule foldE_succeeds)
    fix s d assume "d \<in> set ds"
    then have "d \<in> set es" using that by blast
    then obtain raw where "scaled_of (rl_money d) = Inr raw" using assms(2) unfolding readable_def by blast
    then show "\<exists>t. bind_r (scaled_of (rl_money d)) (\<lambda>raw. Inr (s + rescale k (m_decimals (rl_money d)) raw)) = Inr t"
      by simp
  qed
  have "\<exists>m. compare_debits i amt corr (debits_of es) = Inr m" for corr
  proof -
    have "set (filter (\<lambda>d. m_currency (rl_money d) = m_currency amt) (debits_of es)) \<subseteq> set es"
      by (auto simp: debits_of_def)
    from sums[OF this] show ?thesis unfolding compare_debits_def Let_def raw bind_r_Inr
      by (auto simp: bind_r_eq_Inr simp del: filter_filter)
  qed
  then show ?thesis using Some raw
    by (auto simp: match_intent_entries_def Let_def debits_of_def no_debit_match_def scaled_of_def)
qed (simp add: match_intent_entries_def)

lemma compare_events_succeeds:
  assumes "readable amt"
  shows "\<exists>ev ok ds. compare_events label amt events = Inr (ev, ok, ds)"
  using assms
  by (cases "find (\<lambda>e. rv_symbol e = m_currency amt) events")
    (auto simp: compare_events_def chain_compare_def readable_def Let_def)

lemma matchers_succeed:
  assumes "\<forall>i \<in> set intents. \<forall>amt. ri_amount i = Some amt \<longrightarrow> readable amt"
    "\<forall>e \<in> set entries. readable (rl_money e)"
  shows "\<exists>rs. matchIntentLedger intents entries = Inr rs" "\<exists>rs. matchLedgerChain entries events = Inr rs"
    "\<exists>rs. matchIntentChain intents events = Inr rs"
proof -
  have "\<exists>t. foldE (il_intent_step (index_by (\<lambda>e. truthy (rl_intentId e)) entries)) ([], {}) intents = Inr t"
  proof (rule foldE_succeeds)
    fix s i assume i: "i \<in> set intents"
    have "\<exists>m. match_intent_entries i (linked_entries entries (ri_id i)) = Inr m"
      using assms i by (intro match_intent_entries_succeeds) (auto simp: linked_entries_def)
    then show "\<exists>t. il_intent_step (index_by (\<lambda>e. truthy (rl_intentId e)) entries) s i = Inr t"
      by (auto simp: il_intent_step_def index_linked)
  qed
  then show "\<exists>rs. matchIntentLedger intents entries = Inr rs" by (auto simp: matchIntentLedger_def)
  have "\<exists>t. foldE (lc_entry_step (index_by (\<lambda>e. Some (rv_txHash e)) events)) ([], {}) entries = Inr t"
  proof (rule foldE_succeeds)
    fix s e assume "e \<in> set entries"
    then have money: "readable (rl_money e)" using assms(2) by blast
    show "\<exists>t. lc_entry_step (index_by (\<lambda>e. Some (rv_txHash e)) events) s e = Inr t"
    proof (cases "truthy (rl_txHash e)")
      case (Some tx)
      obtain ev ok ds where "compare_events ''ledger'' (rl_money e) (tx_events events tx) = Inr (ev, ok, ds)"
        using compare_events_succeeds[OF money] by blast
      then show ?thesis using Some by (simp add: lc_entry_step_def index_tx)
    qed (simp add: lc_entry_step_def)
  qed
  then show "\<exists>rs. matchLedgerChain entries events = Inr rs" by (auto simp: matchLedgerChain_def)
  have "\<exists>t. foldE (ic_intent_step (index_by (\<lambda>e. Some (rv_txHash e)) events)) ([], {}) intents = Inr t"
  proof (rule foldE_succeeds)
    fix s i assume i: "i \<in> set intents"
    have "\<exists>m. match_intent_events i tx es = Inr m" for tx es
    proof (cases "ri_amount i")
      case (Some amt)
      then obtain ev ok ds where "compare_events ''intent'' amt es = Inr (ev, ok, ds)"
        using compare_events_succeeds assms(1) i by blast
      then show ?thesis using Some by (simp add: match_intent_events_def)
    qed (simp add: match_intent_events_def)
    note found = this
    show "\<exists>t. ic_intent_step (index_by (\<lambda>e. Some (rv_txHash e)) events) s i = Inr t"
    proof (cases "truthy (ri_txHash i)")
      case (Some tx)
      obtain m where "match_intent_events i tx (tx_events events tx) = Inr m" using found by blast
      then show ?thesis using Some by (simp add: ic_intent_step_def index_tx)
    qed (simp add: ic_intent_step_def)
  qed
  then show "\<exists>rs. matchIntentChain intents events = Inr rs" by (auto simp: matchIntentChain_def)
qed

end
