(* ===== verification/Predicates.thy ===== *)
theory Predicates
  imports MoneyMath
begin

section \<open>The predicate language of Registrum\<close>

text \<open>
  Model of \<^verbatim>\<open>packages/registrum/src/registry/predicate\<close>: the values a predicate computes
  with, the syntax tree (\<^verbatim>\<open>ast.ts\<close>), the lexer and the recursive descent parser
  (\<^verbatim>\<open>parser.ts\<close>), the static validator (\<^verbatim>\<open>validator.ts\<close>) and the
  evaluator (\<^verbatim>\<open>evaluator.ts\<close>).

  Values are the values of JavaScript that can reach a predicate: an object has an identity (two
  objects are \<^verbatim>\<open>===\<close> exactly when they are the same one), own properties, and the
  properties it inherits from the built-in prototypes; a function is only a name. Numbers are
  integers: the literals of the language are, and fractions in the structure of a state are left out.

  The parser keeps the source's functions and its token list with a final end-of-file token. The four
  binary levels, which the source writes as four functions with the same loop, are one function of a
  level. Positions and messages of errors are left out.
\<close>

datatype registrum_error =
    ParseError | ValidationError | EvaluationError | RegistryError | JsTypeError
  | SnapshotValidationError | RegistryMismatchError | ModeMismatchError | RehydrationError
  | ConfigError | ParityViolationError | AppendOnlyViolationError

subsection \<open>Values\<close>

datatype js_ref =
    R_state | R_transition | R_to | R_registry | R_ordering
  | R_object_prototype | R_array_prototype | R_user nat

datatype jsval =
    JUndef | JNull | JBool bool | JNum int | JStr string | JFun string
  | JObj js_ref "(string \<times> jsval) list"
  | JArr js_ref "jsval list"

definition object_prototype_names :: "string list" where
  "object_prototype_names =
     [''constructor'', ''__defineGetter__'', ''__defineSetter__'', ''hasOwnProperty'',
      ''__lookupGetter__'', ''__lookupSetter__'', ''isPrototypeOf'', ''propertyIsEnumerable'',
      ''toString'', ''valueOf'', ''toLocaleString'']"

definition array_prototype_names :: "string list" where
  "array_prototype_names =
     [''constructor'', ''at'', ''concat'', ''copyWithin'', ''fill'', ''find'', ''findIndex'',
      ''findLast'', ''findLastIndex'', ''lastIndexOf'', ''pop'', ''push'', ''reverse'', ''shift'',
      ''unshift'', ''slice'', ''sort'', ''splice'', ''includes'', ''indexOf'', ''join'', ''keys'',
      ''entries'', ''values'', ''forEach'', ''filter'', ''flat'', ''flatMap'', ''map'', ''every'',
      ''some'', ''reduce'', ''reduceRight'', ''toLocaleString'', ''toString'', ''toReversed'',
      ''toSorted'', ''toSpliced'', ''with'']"

definition object_prototype :: jsval where
  "object_prototype = JObj R_object_prototype
     (map (\<lambda>n. (n, JFun (''Object.prototype.'' @ n))) object_prototype_names @ [(''__proto__'', JNull)])"

definition array_prototype :: jsval where
  "array_prototype = JObj R_array_prototype
     (map (\<lambda>n. (n, JFun (''Array.prototype.'' @ n))) array_prototype_names
      @ [(''length'', JNum 0), (''__proto__'', object_prototype)])"

definition inherited_from_object :: "string \<Rightarrow> jsval" where
  "inherited_from_object k =
     (if k = ''__proto__'' then object_prototype
      else if k \<in> set object_prototype_names then JFun (''Object.prototype.'' @ k)
      else JUndef)"

definition inherited_from_array :: "string \<Rightarrow> jsval" where
  "inherited_from_array k =
     (if k = ''__proto__'' then array_prototype
      else if k \<in> set array_prototype_names then JFun (''Array.prototype.'' @ k)
      else inherited_from_object k)"

text \<open>
  The own enumerable properties of an object (of an array: its elements under their indices), and
  reading a property of a value whose type is \<^verbatim>\<open>"object"\<close>.
\<close>

definition js_entries :: "jsval \<Rightarrow> (string \<times> jsval) list" where
  "js_entries v =
     (case v of JObj r fs \<Rightarrow> fs | JArr r xs \<Rightarrow> zip (map nat_str [0..<length xs]) xs | _ \<Rightarrow> [])"

definition js_property :: "jsval \<Rightarrow> string \<Rightarrow> jsval" where
  "js_property v k =
     (case v of
        JObj r fs \<Rightarrow> (case map_of fs k of Some x \<Rightarrow> x | None \<Rightarrow> inherited_from_object k)
      | JArr r xs \<Rightarrow>
          (case map_of (js_entries v) k of
             Some x \<Rightarrow> x
           | None \<Rightarrow> if k = ''length'' then JNum (int (length xs)) else inherited_from_array k)
      | _ \<Rightarrow> JUndef)"

datatype js_type = TypeUndefined | TypeBoolean | TypeNumber | TypeString | TypeFunction | TypeObject

definition js_typeof :: "jsval \<Rightarrow> js_type" where
  "js_typeof v =
     (case v of JUndef \<Rightarrow> TypeUndefined | JNull \<Rightarrow> TypeObject | JBool b \<Rightarrow> TypeBoolean
      | JNum n \<Rightarrow> TypeNumber | JStr s \<Rightarrow> TypeString | JFun f \<Rightarrow> TypeFunction
      | JObj r fs \<Rightarrow> TypeObject | JArr r xs \<Rightarrow> TypeObject)"

definition js_identical :: "jsval \<Rightarrow> jsval \<Rightarrow> bool" where
  "js_identical a b =
     (case (a, b) of
        (JUndef, JUndef) \<Rightarrow> True | (JNull, JNull) \<Rightarrow> True
      | (JBool x, JBool y) \<Rightarrow> x = y | (JNum x, JNum y) \<Rightarrow> x = y
      | (JStr x, JStr y) \<Rightarrow> x = y | (JFun x, JFun y) \<Rightarrow> x = y
      | (JObj r fs, JObj r' fs') \<Rightarrow> r = r' | (JArr r xs, JArr r' xs') \<Rightarrow> r = r'
      | _ \<Rightarrow> False)"

subsection \<open>The syntax tree\<close>

datatype literal_value = Lit_bool bool | Lit_num int | Lit_str string | Lit_null

datatype binary_operator =
  Op_eq | Op_neq | Op_gt | Op_lt | Op_gte | Op_lte | Op_and | Op_or

datatype unary_operator = Op_not

datatype ast =
    Literal literal_value
  | Identifier "string list"
  | Binary binary_operator ast ast
  | Unary unary_operator ast
  | Call string "ast list"

subsection \<open>The lexer\<close>

datatype token =
    T_IDENTIFIER string | T_NUMBER string | T_STRING string
  | T_TRUE | T_FALSE | T_NULL | T_LPAREN | T_RPAREN | T_COMMA | T_DOT
  | T_EQ | T_NEQ | T_GT | T_LT | T_GTE | T_LTE | T_AND | T_OR | T_NOT | T_EOF

definition two_char :: "string \<Rightarrow> token option" where
  "two_char s =
     (if s = ''=='' then Some T_EQ else if s = ''!='' then Some T_NEQ
      else if s = ''>='' then Some T_GTE else if s = ''<='' then Some T_LTE
      else if s = ''&&'' then Some T_AND else if s = ''||'' then Some T_OR else None)"

definition one_char :: "char \<Rightarrow> token option" where
  "one_char c =
     (if c = CHR ''('' then Some T_LPAREN else if c = CHR '')'' then Some T_RPAREN
      else if c = CHR '','' then Some T_COMMA else if c = CHR ''.'' then Some T_DOT
      else if c = CHR ''>'' then Some T_GT else if c = CHR ''<'' then Some T_LT
      else if c = CHR ''!'' then Some T_NOT else None)"

text \<open>The characters of a string literal up to its closing quote, and what follows.\<close>

fun lex_string :: "string \<Rightarrow> (string \<times> string) option" where
  "lex_string [] = None"
| "lex_string (c # cs) =
     (if c = CHR ''\"'' then Some ([], cs)
      else if c = CHR 0x5C then
        (case cs of [] \<Rightarrow> None
         | d # ds \<Rightarrow> (case lex_string ds of None \<Rightarrow> None | Some (s, r) \<Rightarrow> Some (d # s, r)))
      else (case lex_string cs of None \<Rightarrow> None | Some (s, r) \<Rightarrow> Some (c # s, r)))"

definition starts_number :: "string \<Rightarrow> bool" where
  "starts_number s \<longleftrightarrow>
     (case s of [] \<Rightarrow> False
      | c # cs \<Rightarrow> is_digit c \<or> c = CHR ''-'' \<and> (case cs of [] \<Rightarrow> False | d # ds \<Rightarrow> is_digit d))"

definition lex_number :: "string \<Rightarrow> string \<times> string" where
  "lex_number s =
     (case s of [] \<Rightarrow> ([], [])
      | c # cs \<Rightarrow>
          if c = CHR ''-'' then (c # takeWhile is_digit cs, dropWhile is_digit cs)
          else (takeWhile is_digit s, dropWhile is_digit s))"

definition ident_start :: "char \<Rightarrow> bool" where
  "ident_start c =
     (let n = (of_char c :: nat)
      in c = CHR ''_'' \<or> 97 \<le> n \<and> n \<le> 122 \<or> 65 \<le> n \<and> n \<le> 90)"

definition ident_char :: "char \<Rightarrow> bool" where
  "ident_char c \<longleftrightarrow> ident_start c \<or> is_digit c"

definition ident_token :: "string \<Rightarrow> token" where
  "ident_token w =
     (if w = ''true'' then T_TRUE else if w = ''false'' then T_FALSE
      else if w = ''null'' then T_NULL else T_IDENTIFIER w)"

definition push_token :: "token \<Rightarrow> registrum_error + token list \<Rightarrow> registrum_error + token list" where
  "push_token t r = (case r of Inl e \<Rightarrow> Inl e | Inr ts \<Rightarrow> Inr (t # ts))"

lemma lex_string_shorter: "lex_string cs = Some (s, r) \<Longrightarrow> length r < length cs"
  by (induction cs arbitrary: s r rule: lex_string.induct)
    (fastforce split: if_splits option.splits list.splits)+

lemma lex_number_shorter:
  assumes "starts_number s"
  shows "length (snd (lex_number s)) < length s"
  using assms
  by (auto simp: starts_number_def lex_number_def length_dropWhile_le less_Suc_eq_le
      split: list.splits)

lemma length_dropWhile_Cons:
  "P c \<Longrightarrow> length (dropWhile P (c # cs)) < Suc (length cs)"
  by (simp add: length_dropWhile_le less_Suc_eq_le)

function tokenize :: "string \<Rightarrow> registrum_error + token list" where
  "tokenize [] = Inr [T_EOF]"
| "tokenize (c # cs) =
     (if js_space c then tokenize cs
      else case two_char (take 2 (c # cs)) of
        Some t \<Rightarrow> push_token t (tokenize (drop 2 (c # cs)))
      | None \<Rightarrow>
       (case one_char c of
          Some t \<Rightarrow> push_token t (tokenize cs)
        | None \<Rightarrow>
            if c = CHR ''\"'' then
              (case lex_string cs of
                 None \<Rightarrow> Inl ParseError
               | Some (s, r) \<Rightarrow> push_token (T_STRING s) (tokenize r))
            else if starts_number (c # cs) then
              push_token (T_NUMBER (fst (lex_number (c # cs)))) (tokenize (snd (lex_number (c # cs))))
            else if ident_start c then
              push_token (ident_token (takeWhile ident_char (c # cs)))
                (tokenize (dropWhile ident_char (c # cs)))
            else Inl ParseError))"
  by pat_completeness auto

termination tokenize
  by (relation "measure length")
    (auto dest: lex_string_shorter lex_number_shorter
      simp: length_dropWhile_Cons ident_char_def simp del: dropWhile.simps)

subsection \<open>The parser\<close>

definition token_now :: "token list \<Rightarrow> token" where
  "token_now ts = (case ts of [] \<Rightarrow> T_EOF | t # _ \<Rightarrow> t)"

definition parse_int :: "string \<Rightarrow> int" where
  "parse_int s =
     (case s of [] \<Rightarrow> 0
      | c # cs \<Rightarrow> if c = CHR ''-'' then - int (bigint_of cs) else int (bigint_of s))"

fun join_dots :: "string list \<Rightarrow> string" where
  "join_dots [] = []"
| "join_dots [s] = s"
| "join_dots (s # t # ss) = s @ CHR ''.'' # join_dots (t # ss)"

lemma token_now_shorter: "token_now ts \<noteq> T_EOF \<Longrightarrow> length (tl ts) < length ts"
  by (auto simp: token_now_def split: list.splits)

lemma token_now_nonempty: "token_now ts = t \<Longrightarrow> t \<noteq> T_EOF \<Longrightarrow> ts = t # tl ts"
  by (auto simp: token_now_def split: list.splits)

text \<open>The rest of a dotted path: every dot must be followed by a name.\<close>

function parse_path :: "string list \<Rightarrow> token list \<Rightarrow> registrum_error + (string list \<times> token list)" where
  "parse_path path ts =
     (if token_now ts = T_DOT
      then (case token_now (tl ts) of
              T_IDENTIFIER s \<Rightarrow> parse_path (path @ [s]) (tl (tl ts))
            | _ \<Rightarrow> Inl ParseError)
      else Inr (path, ts))"
  by pat_completeness auto

termination parse_path
  by (relation "measure (\<lambda>(p, ts). length ts)") (auto simp: token_now_def split: list.splits)

declare parse_path.simps [simp del]

lemma parse_path_shorter: "parse_path path ts = Inr (p, r) \<Longrightarrow> length r \<le> length ts"
proof (induction path ts arbitrary: p r rule: parse_path.induct)
  case (1 path ts)
  show ?case
  proof (cases "token_now ts = T_DOT")
    case True
    then have shorter: "length (tl ts) < length ts" using token_now_shorter[of ts] by simp
    show ?thesis
      using 1 True shorter
      by (subst (asm) (2) parse_path.simps) (fastforce split: token.splits)
  next
    case False
    then show ?thesis using 1(2) by (subst (asm) parse_path.simps) simp
  qed
qed

datatype parse_tier = P_or | P_and | P_equality | P_relational

definition tier_operator :: "parse_tier \<Rightarrow> token \<Rightarrow> binary_operator option" where
  "tier_operator tier t =
     (case tier of
        P_or \<Rightarrow> if t = T_OR then Some Op_or else None
      | P_and \<Rightarrow> if t = T_AND then Some Op_and else None
      | P_equality \<Rightarrow> if t = T_EQ then Some Op_eq else if t = T_NEQ then Some Op_neq else None
      | P_relational \<Rightarrow>
          if t = T_GT then Some Op_gt else if t = T_LT then Some Op_lt
          else if t = T_GTE then Some Op_gte else if t = T_LTE then Some Op_lte else None)"

type_synonym 'a parsed = "registrum_error + ('a \<times> token list)"

lemma tier_operator_EOF [simp]: "tier_operator tier T_EOF = None"
  by (simp add: tier_operator_def split: parse_tier.split)

text \<open>
  \<open>parse_tier_expr\<close> is \<^verbatim>\<open>parseOrExpr\<close>, \<^verbatim>\<open>parseAndExpr\<close>,
  \<^verbatim>\<open>parseEqualityExpr\<close> and \<^verbatim>\<open>parseRelationalExpr\<close>: an operand of the next
  tier and then the loop \<open>parse_more\<close>, which extends the tree to the left.
\<close>

function (sequential)
  parse_tier_expr :: "parse_tier \<Rightarrow> token list \<Rightarrow> ast parsed"
  and parse_operand :: "parse_tier \<Rightarrow> token list \<Rightarrow> ast parsed"
  and parse_more :: "parse_tier \<Rightarrow> ast \<Rightarrow> token list \<Rightarrow> ast parsed"
  and parse_unary :: "token list \<Rightarrow> ast parsed"
  and parse_primary :: "token list \<Rightarrow> ast parsed"
  and parse_args :: "ast list \<Rightarrow> token list \<Rightarrow> ast list parsed" where
  "parse_tier_expr tier ts =
     (case parse_operand tier ts of
        Inl e \<Rightarrow> Inl e
      | Inr (left, r) \<Rightarrow> parse_more tier left r)"
| "parse_operand tier ts =
     (case tier of
        P_or \<Rightarrow> parse_tier_expr P_and ts
      | P_and \<Rightarrow> parse_tier_expr P_equality ts
      | P_equality \<Rightarrow> parse_tier_expr P_relational ts
      | P_relational \<Rightarrow> parse_unary ts)"
| "parse_more tier left ts =
     (case tier_operator tier (token_now ts) of
        None \<Rightarrow> Inr (left, ts)
      | Some op \<Rightarrow>
          (case parse_operand tier (tl ts) of
             Inl e \<Rightarrow> Inl e
           | Inr (right, r) \<Rightarrow> parse_more tier (Binary op left right) r))"
| "parse_unary ts =
     (if token_now ts = T_NOT
      then (case parse_unary (tl ts) of
              Inl e \<Rightarrow> Inl e
            | Inr (a, r) \<Rightarrow> Inr (Unary Op_not a, r))
      else parse_primary ts)"
| "parse_primary ts =
     (case token_now ts of
        T_TRUE \<Rightarrow> Inr (Literal (Lit_bool True), tl ts)
      | T_FALSE \<Rightarrow> Inr (Literal (Lit_bool False), tl ts)
      | T_NULL \<Rightarrow> Inr (Literal Lit_null, tl ts)
      | T_NUMBER n \<Rightarrow> Inr (Literal (Lit_num (parse_int n)), tl ts)
      | T_STRING s \<Rightarrow> Inr (Literal (Lit_str s), tl ts)
      | T_LPAREN \<Rightarrow>
          (case parse_tier_expr P_or (tl ts) of
             Inl e \<Rightarrow> Inl e
           | Inr (a, r) \<Rightarrow> if token_now r = T_RPAREN then Inr (a, tl r) else Inl ParseError)
      | T_IDENTIFIER s \<Rightarrow>
          (case parse_path [s] (tl ts) of
             Inl e \<Rightarrow> Inl e
           | Inr (path, r) \<Rightarrow>
               if token_now r = T_LPAREN
               then (if token_now (tl r) = T_RPAREN then Inr (Call (join_dots path) [], tl (tl r))
                     else (case parse_args [] (tl r) of
                             Inl e \<Rightarrow> Inl e
                           | Inr (as, r') \<Rightarrow>
                               if token_now r' = T_RPAREN then Inr (Call (join_dots path) as, tl r')
                               else Inl ParseError))
               else Inr (Identifier path, r))
      | _ \<Rightarrow> Inl ParseError)"
| "parse_args as ts =
     (case parse_tier_expr P_or ts of
        Inl e \<Rightarrow> Inl e
      | Inr (a, r) \<Rightarrow> if token_now r = T_COMMA then parse_args (as @ [a]) (tl r)
                   else Inr (as @ [a], r))"
  by pat_completeness auto


text \<open>
  What a successful call leaves is shorter than what it was given, so every call of the loops is on
  a shorter list; \<open>shorter\<close> and \<open>no_longer\<close> say so of a result.
\<close>

definition shorter :: "token list \<Rightarrow> 'a parsed \<Rightarrow> bool" where
  "shorter ts res \<longleftrightarrow> (\<forall>a r. res = Inr (a, r) \<longrightarrow> length r < length ts)"

definition no_longer :: "token list \<Rightarrow> 'a parsed \<Rightarrow> bool" where
  "no_longer ts res \<longleftrightarrow> (\<forall>a r. res = Inr (a, r) \<longrightarrow> length r \<le> length ts)"

lemma token_now_pos: "token_now ts = t \<Longrightarrow> t \<noteq> T_EOF \<Longrightarrow> 0 < length ts"
  by (auto simp: token_now_def split: list.splits)

lemma tier_operator_pos: "tier_operator tier (token_now ts) = Some op \<Longrightarrow> 0 < length ts"
  by (rule token_now_pos[OF refl]) auto

lemma token_now_tl: "token_now ts = t \<Longrightarrow> t \<noteq> T_EOF \<Longrightarrow> Suc (length (tl ts)) = length ts"
  by (auto simp: token_now_def split: list.splits)

lemma tier_operator_tl: "tier_operator tier (token_now ts) = Some op \<Longrightarrow> Suc (length (tl ts)) = length ts"
  by (rule token_now_tl[OF refl]) auto

lemma shorter_Inl [simp]: "shorter ts (Inl e)"
  by (simp add: shorter_def)

lemma no_longer_Inl [simp]: "no_longer ts (Inl e)"
  by (simp add: no_longer_def)

lemma shorter_Inr [simp]: "shorter ts (Inr (a, r)) \<longleftrightarrow> length r < length ts"
  by (simp add: shorter_def)

lemma no_longer_Inr [simp]: "no_longer ts (Inr (a, r)) \<longleftrightarrow> length r \<le> length ts"
  by (simp add: no_longer_def)

lemma no_longer_shorter: "no_longer r res \<Longrightarrow> length r < length ts \<Longrightarrow> shorter ts res"
  by (auto simp: shorter_def no_longer_def intro: order.strict_trans1)

lemma no_longer_trans: "no_longer r res \<Longrightarrow> length r \<le> length ts \<Longrightarrow> no_longer ts res"
  by (auto simp: no_longer_def intro: order.trans)

lemma shorter_trans: "shorter r res \<Longrightarrow> length r \<le> length ts \<Longrightarrow> shorter ts res"
  by (auto simp: shorter_def intro: order.strict_trans2)

lemma shorter_res: "shorter ts res \<Longrightarrow> res = Inr (a, r) \<Longrightarrow> length r < length ts"
  by (simp add: shorter_def)

lemma length_tl_le: "length r \<le> n \<Longrightarrow> length (tl r) \<le> n"
  by simp

lemma parser_progress_dom:
  "parse_tier_expr_parse_operand_parse_more_parse_unary_parse_primary_parse_args_dom
     (Inl (Inl (tier, ts))) \<Longrightarrow> shorter ts (parse_tier_expr tier ts)"
  "parse_tier_expr_parse_operand_parse_more_parse_unary_parse_primary_parse_args_dom
     (Inl (Inr (Inl (tier, ts)))) \<Longrightarrow> shorter ts (parse_operand tier ts)"
  "parse_tier_expr_parse_operand_parse_more_parse_unary_parse_primary_parse_args_dom
     (Inl (Inr (Inr (tier, left, ts)))) \<Longrightarrow> no_longer ts (parse_more tier left ts)"
  "parse_tier_expr_parse_operand_parse_more_parse_unary_parse_primary_parse_args_dom
     (Inr (Inl ts)) \<Longrightarrow> shorter ts (parse_unary ts)"
  "parse_tier_expr_parse_operand_parse_more_parse_unary_parse_primary_parse_args_dom
     (Inr (Inr (Inl ts))) \<Longrightarrow> shorter ts (parse_primary ts)"
  "parse_tier_expr_parse_operand_parse_more_parse_unary_parse_primary_parse_args_dom
     (Inr (Inr (Inr (as, ts)))) \<Longrightarrow> shorter ts (parse_args as ts)"
proof (induction rule:
    parse_tier_expr_parse_operand_parse_more_parse_unary_parse_primary_parse_args.pinduct)
  case (1 tier ts)
  show ?case
  proof (cases "parse_operand tier ts")
    case (Inr p)
    obtain a r where p: "p = (a, r)" by fastforce
    have "length r < length ts" using shorter_res[OF 1(2)] Inr p by simp
    with 1(3)[OF Inr p[symmetric]] have "shorter ts (parse_more tier a r)" by (rule no_longer_shorter)
    then show ?thesis using 1(1) Inr p by (simp add: parse_tier_expr.psimps)
  qed (use 1(1) in \<open>simp add: parse_tier_expr.psimps\<close>)
next
  case (2 tier ts)
  then show ?case by (cases tier) (auto simp: parse_operand.psimps)
next
  case (3 tier left ts)
  show ?case
  proof (cases "tier_operator tier (token_now ts)")
    case (Some op)
    show ?thesis
    proof (cases "parse_operand tier (tl ts)")
      case (Inr p)
      obtain a r where p: "p = (a, r)" by fastforce
      have "length r < length (tl ts)" using shorter_res[OF 3(2)[OF Some]] Inr p by simp
      then have "length r \<le> length ts" by simp
      with 3(3)[OF Some Inr p[symmetric]] have "no_longer ts (parse_more tier (Binary op left a) r)"
        by (rule no_longer_trans)
      then show ?thesis using 3(1) Some Inr p by (simp add: parse_more.psimps)
    qed (use 3(1) Some in \<open>simp add: parse_more.psimps\<close>)
  qed (use 3(1) in \<open>simp add: parse_more.psimps\<close>)
next
  case (4 ts)
  show ?case
  proof (cases "token_now ts = T_NOT")
    case True
    have "shorter ts (parse_unary (tl ts))" using shorter_trans[OF 4(2)[OF True]] by simp
    then show ?thesis using 4(1) True by (auto simp: parse_unary.psimps shorter_def split: sum.splits)
  qed (use 4 in \<open>simp add: parse_unary.psimps\<close>)
next
  case (5 ts)
  show ?case
  proof (cases "token_now ts")
    case (T_IDENTIFIER s)
    then have pos: "0 < length ts" by (rule token_now_pos) simp
    show ?thesis
    proof (cases "parse_path [s] (tl ts)")
      case (Inr p)
      obtain path r where p: "p = (path, r)" by fastforce
      have r: "length r < length ts" using parse_path_shorter[of "[s]" "tl ts" path r] Inr p pos
        by (cases ts) auto
      have args: "shorter (tl r) (parse_args [] (tl r))"
        if "token_now r = T_LPAREN" "token_now (tl r) \<noteq> T_RPAREN"
        using 5(2)[OF T_IDENTIFIER Inr p[symmetric] that] .
      have "shorter ts (parse_args [] (tl r))"
        if "token_now r = T_LPAREN" "token_now (tl r) \<noteq> T_RPAREN"
        using shorter_trans[OF args[OF that]] r by simp
      then show ?thesis
        using 5(1) T_IDENTIFIER Inr p r
        by (auto simp: parse_primary.psimps shorter_def split: sum.splits intro: less_imp_diff_less)
    qed (use 5(1) T_IDENTIFIER in \<open>simp add: parse_primary.psimps\<close>)
  next
    case T_LPAREN
    have "shorter ts (parse_tier_expr P_or (tl ts))" using shorter_trans[OF 5(3)[OF T_LPAREN]] by simp
    then show ?thesis
      using 5(1) T_LPAREN
      by (auto simp: parse_primary.psimps shorter_def split: sum.splits intro: less_imp_diff_less)
  qed (use 5(1) in \<open>auto simp: parse_primary.psimps dest: token_now_pos\<close>)
next
  case (6 as ts)
  show ?case
  proof (cases "parse_tier_expr P_or ts")
    case (Inr p)
    obtain a r where p: "p = (a, r)" by fastforce
    have r: "length r < length ts" using shorter_res[OF 6(2)] Inr p by simp
    have "shorter ts (parse_args (as @ [a]) (tl r))" if "token_now r = T_COMMA"
      using shorter_trans[OF 6(3)[OF Inr p[symmetric] that]] r by simp
    then show ?thesis using 6(1) Inr p r by (simp add: parse_args.psimps)
  qed (use 6(1) in \<open>simp add: parse_args.psimps\<close>)
qed

lemma more_on_shorter:
  assumes "parse_operand tier (tl ts) = Inr (a, r)" "tier_operator tier (token_now ts) = Some op"
    and "parse_tier_expr_parse_operand_parse_more_parse_unary_parse_primary_parse_args_dom
      (Inl (Inr (Inl (tier, tl ts))))"
  shows "length r < length ts"
  using shorter_res[OF parser_progress_dom(2)[OF assms(3)] assms(1)] tier_operator_tl[OF assms(2)] by linarith

lemma args_on_shorter:
  assumes "parse_tier_expr P_or ts = Inr (a, r)" "token_now r = T_COMMA"
    and "parse_tier_expr_parse_operand_parse_more_parse_unary_parse_primary_parse_args_dom
      (Inl (Inl (P_or, ts)))"
  shows "length (tl r) < length ts"
  using shorter_res[OF parser_progress_dom(1)[OF assms(3)] assms(1)] token_now_tl[OF assms(2)]
  by simp

lemma first_args_on_shorter:
  assumes "parse_path [s] (tl ts) = Inr (path, r)" "token_now ts = T_IDENTIFIER s" "token_now r = T_LPAREN"
  shows "20 * length (tl r) + 11 < 20 * length ts"
  using parse_path_shorter[OF assms(1)] token_now_tl[OF assms(2)] token_now_tl[OF assms(3)] by simp

termination parse_tier_expr
  by (relation "measure (case_sum
    (case_sum (\<lambda>(tier, ts). 20 * length ts + (case tier of P_or \<Rightarrow> 10 | P_and \<Rightarrow> 8 | P_equality \<Rightarrow> 6 | P_relational \<Rightarrow> 4))
      (case_sum (\<lambda>(tier, ts). 20 * length ts + (case tier of P_or \<Rightarrow> 9 | P_and \<Rightarrow> 7 | P_equality \<Rightarrow> 5 | P_relational \<Rightarrow> 3))
        (\<lambda>(tier, left, ts). 20 * length ts + 1)))
    (case_sum (\<lambda>ts. 20 * length ts + 2)
      (case_sum (\<lambda>ts. 20 * length ts) (\<lambda>(as, ts). 20 * length ts + 11))))")
    (auto split: parse_tier.splits simp del: length_tl
      intro: more_on_shorter args_on_shorter first_args_on_shorter
      dest: parser_progress_dom(1,2)[THEN shorter_res] parse_path_shorter tier_operator_tl
        token_now_tl[of _ T_NOT, simplified] token_now_tl[of _ T_LPAREN, simplified]
        token_now_tl[of _ T_COMMA, simplified] token_now_tl[of _ "T_IDENTIFIER s" for s, simplified])

declare parse_tier_expr.simps [simp del] parse_operand.simps [simp del] parse_more.simps [simp del]
  parse_unary.simps [simp del] parse_primary.simps [simp del] parse_args.simps [simp del]

definition parsePredicate :: "string \<Rightarrow> registrum_error + ast" where
  "parsePredicate expression =
     (case tokenize expression of
        Inl e \<Rightarrow> Inl e
      | Inr ts \<Rightarrow>
          (case parse_tier_expr P_or ts of
             Inl e \<Rightarrow> Inl e
           | Inr (a, r) \<Rightarrow> if token_now r = T_EOF then Inr a else Inl ParseError))"


subsection \<open>The grammar of the language\<close>

text \<open>
  The EBNF at the head of \<^verbatim>\<open>parser.ts\<close>, as a relation between the tokens of a phrase
  and its tree; repetitions associate to the left.
\<close>

definition path_rest_tokens :: "string list \<Rightarrow> token list" where
  "path_rest_tokens q = concat (map (\<lambda>s. [T_DOT, T_IDENTIFIER s]) q)"

inductive
  expr_of :: "parse_tier \<Rightarrow> token list \<Rightarrow> ast \<Rightarrow> bool"
  and operand_of :: "parse_tier \<Rightarrow> token list \<Rightarrow> ast \<Rightarrow> bool"
  and unary_of :: "token list \<Rightarrow> ast \<Rightarrow> bool"
  and primary_of :: "token list \<Rightarrow> ast \<Rightarrow> bool"
  and args_of :: "token list \<Rightarrow> ast list \<Rightarrow> bool" where
  expr_first: "operand_of tier ts a \<Longrightarrow> expr_of tier ts a"
| expr_more: "expr_of tier ts a \<Longrightarrow> tier_operator tier t = Some op \<Longrightarrow> operand_of tier us b \<Longrightarrow>
    expr_of tier (ts @ t # us) (Binary op a b)"
| operand_or: "expr_of P_and ts a \<Longrightarrow> operand_of P_or ts a"
| operand_and: "expr_of P_equality ts a \<Longrightarrow> operand_of P_and ts a"
| operand_equality: "expr_of P_relational ts a \<Longrightarrow> operand_of P_equality ts a"
| operand_relational: "unary_of ts a \<Longrightarrow> operand_of P_relational ts a"
| unary_not: "unary_of ts a \<Longrightarrow> unary_of (T_NOT # ts) (Unary Op_not a)"
| unary_primary: "primary_of ts a \<Longrightarrow> unary_of ts a"
| primary_true: "primary_of [T_TRUE] (Literal (Lit_bool True))"
| primary_false: "primary_of [T_FALSE] (Literal (Lit_bool False))"
| primary_null: "primary_of [T_NULL] (Literal Lit_null)"
| primary_number: "primary_of [T_NUMBER n] (Literal (Lit_num (parse_int n)))"
| primary_string: "primary_of [T_STRING s] (Literal (Lit_str s))"
| primary_paren: "expr_of P_or ts a \<Longrightarrow> primary_of (T_LPAREN # ts @ [T_RPAREN]) a"
| primary_identifier: "primary_of (T_IDENTIFIER s # path_rest_tokens q) (Identifier (s # q))"
| primary_call_none:
    "primary_of (T_IDENTIFIER s # path_rest_tokens q @ [T_LPAREN, T_RPAREN]) (Call (join_dots (s # q)) [])"
| primary_call: "args_of ts as \<Longrightarrow>
    primary_of (T_IDENTIFIER s # path_rest_tokens q @ T_LPAREN # ts @ [T_RPAREN])
      (Call (join_dots (s # q)) as)"
| args_one: "expr_of P_or ts a \<Longrightarrow> args_of ts [a]"
| args_more: "args_of ts as \<Longrightarrow> expr_of P_or us a \<Longrightarrow> args_of (ts @ T_COMMA # us) (as @ [a])"

lemma path_rest_tokens_simps [simp]:
  "path_rest_tokens [] = []"
  "path_rest_tokens (s # q) = T_DOT # T_IDENTIFIER s # path_rest_tokens q"
  by (simp_all add: path_rest_tokens_def)

lemma token_now_simps [simp]: "token_now [] = T_EOF" "token_now (t # ts) = t"
  by (simp_all add: token_now_def)

lemma parse_path_sound:
  "parse_path path ts = Inr (p, r) \<Longrightarrow> \<exists>q. p = path @ q \<and> ts = path_rest_tokens q @ r"
proof (induction path ts arbitrary: p r rule: parse_path.induct)
  case (1 path ts)
  show ?case
  proof (cases "token_now ts = T_DOT")
    case False
    then show ?thesis using 1(2) by (subst (asm) parse_path.simps) simp
  next
    case True
    then have ts: "ts = T_DOT # tl ts" by (rule token_now_nonempty) simp
    obtain s where s: "token_now (tl ts) = T_IDENTIFIER s"
      using 1(2) True by (subst (asm) parse_path.simps) (auto split: token.splits)
    then have tl: "tl ts = T_IDENTIFIER s # tl (tl ts)" by (rule token_now_nonempty) simp
    have "parse_path (path @ [s]) (tl (tl ts)) = Inr (p, r)"
      using 1(2) True s by (subst (asm) parse_path.simps) simp
    from 1(1)[OF True s this] obtain q where "p = (path @ [s]) @ q" "tl (tl ts) = path_rest_tokens q @ r"
      by blast
    then have "p = path @ (s # q)" "ts = path_rest_tokens (s # q) @ r" using ts tl by simp_all
    then show ?thesis by blast
  qed
qed

lemma parse_path_complete:
  "token_now r \<noteq> T_DOT \<Longrightarrow> parse_path path (path_rest_tokens q @ r) = Inr (path @ q, r)"
  by (induction q arbitrary: path) (subst parse_path.simps; simp)+

definition parsed_as :: "(token list \<Rightarrow> 'a \<Rightarrow> bool) \<Rightarrow> token list \<Rightarrow> 'a parsed \<Rightarrow> bool" where
  "parsed_as phrase ts res \<longleftrightarrow> (\<forall>a r. res = Inr (a, r) \<longrightarrow> (\<exists>pre. ts = pre @ r \<and> phrase pre a))"

lemma parsed_as_Inl [simp]: "parsed_as phrase ts (Inl e)"
  by (simp add: parsed_as_def)

lemma parsed_as_Inr [simp]: "parsed_as phrase ts (Inr (a, r)) \<longleftrightarrow> (\<exists>pre. ts = pre @ r \<and> phrase pre a)"
  by (simp add: parsed_as_def)

lemma parsed_as_mono:
  assumes "parsed_as P ts res" "\<And>pre a. P pre a \<Longrightarrow> Q (xs @ pre) a" "us = xs @ ts"
  shows "parsed_as Q us res"
  using assms by (fastforce simp: parsed_as_def)


lemma parsed_asI: "ts = pre @ r \<Longrightarrow> phrase pre a \<Longrightarrow> res = Inr (a, r) \<Longrightarrow> parsed_as phrase ts res"
  by auto

lemma primary_sound:
  assumes call: "\<And>s path r. token_now ts = T_IDENTIFIER s \<Longrightarrow> parse_path [s] (tl ts) = Inr (path, r) \<Longrightarrow>
      token_now r = T_LPAREN \<Longrightarrow> token_now (tl r) \<noteq> T_RPAREN \<Longrightarrow>
      parsed_as args_of (tl r) (parse_args [] (tl r))"
    and paren: "token_now ts = T_LPAREN \<Longrightarrow>
      parsed_as (expr_of P_or) (tl ts) (parse_tier_expr P_or (tl ts))"
  shows "parsed_as primary_of ts (parse_primary ts)"
proof (cases "token_now ts")
  case (T_IDENTIFIER s)
  then have ts: "ts = T_IDENTIFIER s # tl ts" by (rule token_now_nonempty) simp
  show ?thesis
  proof (cases "parse_path [s] (tl ts)")
    case (Inr p)
    obtain path r where p: "p = (path, r)" by fastforce
    obtain q where q: "path = s # q" "tl ts = path_rest_tokens q @ r"
      using parse_path_sound[of "[s]" "tl ts" path r] Inr p by auto
    show ?thesis
    proof (cases "token_now r = T_LPAREN")
      case False
      then show ?thesis
        using T_IDENTIFIER Inr p q ts primary_identifier[of s q]
        by (auto simp: parse_primary.simps intro!: exI[of _ "T_IDENTIFIER s # path_rest_tokens q"])
    next
      case True
      then have r: "r = T_LPAREN # tl r" by (rule token_now_nonempty) simp
      show ?thesis
      proof (cases "token_now (tl r) = T_RPAREN")
        case none: True
        then have r2: "tl r = T_RPAREN # tl (tl r)" by (rule token_now_nonempty) simp
        have "ts = (T_IDENTIFIER s # path_rest_tokens q @ [T_LPAREN, T_RPAREN]) @ tl (tl r)"
          using ts q r r2 by simp
        then show ?thesis
          by (rule parsed_asI[where phrase = primary_of, OF _ primary_call_none])
            (simp add: parse_primary.simps T_IDENTIFIER Inr p q(1) True none)
      next
        case some: False
        show ?thesis
        proof (cases "parse_args [] (tl r)")
          case args: (Inr p')
          obtain as r' where p': "p' = (as, r')" by fastforce
          obtain us where us: "tl r = us @ r'" "args_of us as"
            using call[OF T_IDENTIFIER _ True some, of path] Inr p args p' by auto
          show ?thesis
          proof (cases "token_now r' = T_RPAREN")
            case close: True
            then have r3: "r' = T_RPAREN # tl r'" by (rule token_now_nonempty) simp
            have "ts = (T_IDENTIFIER s # path_rest_tokens q @ T_LPAREN # us @ [T_RPAREN]) @ tl r'"
              using ts q r us(1) r3 by simp
            then show ?thesis
              by (rule parsed_asI[where phrase = primary_of, OF _ primary_call[OF us(2)]])
                (simp add: parse_primary.simps T_IDENTIFIER Inr p q(1) True some args p' close)
          qed (simp add: parse_primary.simps T_IDENTIFIER Inr p True some args p')
        qed (simp add: parse_primary.simps T_IDENTIFIER Inr p True some)
      qed
    qed
  qed (simp add: parse_primary.simps T_IDENTIFIER)
next
  case T_LPAREN
  then have ts: "ts = T_LPAREN # tl ts" by (rule token_now_nonempty) simp
  show ?thesis
  proof (cases "parse_tier_expr P_or (tl ts)")
    case (Inr p)
    obtain a r where p: "p = (a, r)" by fastforce
    obtain us where us: "tl ts = us @ r" "expr_of P_or us a" using paren[OF T_LPAREN] Inr p by auto
    show ?thesis
    proof (cases "token_now r = T_RPAREN")
      case True
      then have r: "r = T_RPAREN # tl r" by (rule token_now_nonempty) simp
      have "ts = (T_LPAREN # us @ [T_RPAREN]) @ tl r" using ts us(1) r by simp
      then show ?thesis
        by (rule parsed_asI[where phrase = primary_of, OF _ primary_paren[OF us(2)]])
          (simp add: parse_primary.simps T_LPAREN Inr p True)
    qed (simp add: parse_primary.simps T_LPAREN Inr p)
  qed (simp add: parse_primary.simps T_LPAREN)
qed (auto simp: parse_primary.simps dest: token_now_nonempty
    intro!: exI[of _ "[t]" for t] primary_true primary_false primary_null primary_number primary_string)

lemma parser_sound:
  "parsed_as (expr_of tier) ts (parse_tier_expr tier ts)"
  "parsed_as (operand_of tier) ts (parse_operand tier ts)"
  "\<forall>pre. expr_of tier pre left \<longrightarrow> parsed_as (\<lambda>us. expr_of tier (pre @ us)) ts (parse_more tier left ts)"
  "parsed_as unary_of ts (parse_unary ts)"
  "parsed_as primary_of ts (parse_primary ts)"
  "(as = [] \<longrightarrow> parsed_as args_of ts (parse_args as ts)) \<and>
   (\<forall>pre. args_of pre as \<longrightarrow> parsed_as (\<lambda>us. args_of (pre @ T_COMMA # us)) ts (parse_args as ts))"
proof (induction tier ts and tier ts and tier left ts and ts and ts and as ts rule:
    parse_tier_expr_parse_operand_parse_more_parse_unary_parse_primary_parse_args.induct)
  case (1 tier ts)
  show ?case
  proof (cases "parse_operand tier ts")
    case (Inr p)
    obtain a r where p: "p = (a, r)" by fastforce
    obtain pre where pre: "ts = pre @ r" "operand_of tier pre a" using 1(1) Inr p by auto
    have "parsed_as (\<lambda>us. expr_of tier (pre @ us)) r (parse_more tier a r)"
      using 1(2)[OF Inr p[symmetric]] expr_first[OF pre(2)] by blast
    then have "parsed_as (expr_of tier) ts (parse_more tier a r)"
      by (rule parsed_as_mono) (use pre in auto)
    then show ?thesis using Inr p by (simp add: parse_tier_expr.simps)
  qed (simp add: parse_tier_expr.simps)
next
  case (2 tier ts)
  then show ?case
    by (cases tier) (auto simp: parse_operand.simps elim!: parsed_as_mono[where xs = "[]"]
        intro: operand_or operand_and operand_equality operand_relational)
next
  case (3 tier left ts)
  show ?case
  proof (intro allI impI)
    fix pre assume pre: "expr_of tier pre left"
    show "parsed_as (\<lambda>us. expr_of tier (pre @ us)) ts (parse_more tier left ts)"
    proof (cases "tier_operator tier (token_now ts)")
      case None
      then show ?thesis using pre by (simp add: parse_more.simps)
    next
      case (Some op)
      then have ts: "ts = token_now ts # tl ts"
        using token_now_nonempty[OF refl, of ts] by (cases "token_now ts = T_EOF") auto
      show ?thesis
      proof (cases "parse_operand tier (tl ts)")
        case (Inr p)
        obtain a r where p: "p = (a, r)" by fastforce
        obtain us where us: "tl ts = us @ r" "operand_of tier us a" using 3(1)[OF Some] Inr p by auto
        have "expr_of tier (pre @ token_now ts # us) (Binary op left a)"
          using expr_more[OF pre Some us(2)] .
        then have "parsed_as (\<lambda>vs. expr_of tier ((pre @ token_now ts # us) @ vs)) r
            (parse_more tier (Binary op left a) r)"
          using 3(2)[OF Some Inr p[symmetric]] by blast
        then have "parsed_as (\<lambda>us. expr_of tier (pre @ us)) ts (parse_more tier (Binary op left a) r)"
          by (rule parsed_as_mono[where xs = "token_now ts # us"]) (use ts us in auto)
        then show ?thesis using Some Inr p by (simp add: parse_more.simps)
      qed (simp add: parse_more.simps Some)
    qed
  qed
next
  case (4 ts)
  show ?case
  proof (cases "token_now ts = T_NOT")
    case True
    then have "ts = T_NOT # tl ts" by (rule token_now_nonempty) simp
    then show ?thesis
      using 4(1)[OF True] True unary_not
      by (subst parse_unary.simps) (fastforce simp: parsed_as_def split: sum.splits)
  next
    case False
    then show ?thesis
      using 4(2) by (simp add: parse_unary.simps parsed_as_def) (use unary_primary in blast)
  qed
next
  case (5 ts)
  show ?case by (rule primary_sound) (use 5 in blast)+
next
  case (6 as ts)
  show ?case
  proof (cases "parse_tier_expr P_or ts")
    case (Inr p)
    obtain a r where p: "p = (a, r)" by fastforce
    obtain us where us: "ts = us @ r" "expr_of P_or us a" using 6(1) Inr p by auto
    have one: "args_of us ([] @ [a])" using args_one[OF us(2)] by simp
    have more: "args_of (pre @ T_COMMA # us) (as @ [a])" if "args_of pre as" for pre
      using args_more[OF that us(2)] .
    show ?thesis
    proof (cases "token_now r = T_COMMA")
      case True
      then have r: "r = T_COMMA # tl r" by (rule token_now_nonempty) simp
      have rest: "parsed_as (\<lambda>vs. args_of (pre @ T_COMMA # vs)) (tl r) (parse_args (as @ [a]) (tl r))"
        if "args_of pre (as @ [a])" for pre
        using 6(2)[OF Inr p[symmetric] True] that by blast
      have eq: "parse_args as ts = parse_args (as @ [a]) (tl r)"
        using Inr p True by (simp add: parse_args.simps[of as ts])
      have "parsed_as args_of ts (parse_args as ts)" if "as = []"
        unfolding eq using rest[of us] one that us(1) r
        by (auto elim!: parsed_as_mono[where xs = "us @ [T_COMMA]"])
      moreover have "parsed_as (\<lambda>vs. args_of (pre @ T_COMMA # vs)) ts (parse_args as ts)"
        if "args_of pre as" for pre
        unfolding eq using rest[OF more[OF that]] us(1) r
        by (auto elim!: parsed_as_mono[where xs = "us @ [T_COMMA]"])
      ultimately show ?thesis by blast
    next
      case False
      then show ?thesis using Inr p us one more by (auto simp: parse_args.simps)
    qed
  qed (simp add: parse_args.simps)
qed


text \<open>
  Conversely the parser finds every phrase, when what follows it can not extend it: no dot or
  parenthesis, and no operator of a tier that binds tighter.
\<close>

definition tier_above :: "parse_tier \<Rightarrow> parse_tier list" where
  "tier_above tier =
     (case tier of P_or \<Rightarrow> [P_and, P_equality, P_relational] | P_and \<Rightarrow> [P_equality, P_relational]
      | P_equality \<Rightarrow> [P_relational] | P_relational \<Rightarrow> [])"

definition closes :: "token list \<Rightarrow> bool" where
  "closes r \<longleftrightarrow> token_now r \<noteq> T_DOT \<and> token_now r \<noteq> T_LPAREN"

definition follows :: "parse_tier \<Rightarrow> token list \<Rightarrow> bool" where
  "follows tier r \<longleftrightarrow> closes r \<and> (\<forall>t \<in> set (tier_above tier). tier_operator t (token_now r) = None)"

lemma follows_operator:
  "tier_operator tier t = Some op \<Longrightarrow> follows tier (t # r)"
  by (cases tier) (auto simp: follows_def closes_def tier_above_def tier_operator_def split: if_splits)

lemma follows_closes: "follows tier r \<Longrightarrow> closes r"
  by (simp add: follows_def)

lemma follows_next:
  "follows P_or r \<Longrightarrow> follows P_and r" "follows P_and r \<Longrightarrow> follows P_equality r"
  "follows P_equality r \<Longrightarrow> follows P_relational r"
  by (auto simp: follows_def tier_above_def)

lemma follows_no_more:
  "follows P_or r \<Longrightarrow> parse_more P_and a r = Inr (a, r)"
  "follows P_and r \<Longrightarrow> parse_more P_equality a r = Inr (a, r)"
  "follows P_equality r \<Longrightarrow> parse_more P_relational a r = Inr (a, r)"
  by (subst parse_more.simps; simp add: follows_def tier_above_def)+

lemma follows_end:
  assumes "token_now r \<in> {T_EOF, T_RPAREN, T_COMMA}"
  shows "follows P_or r" and "parse_more P_or a r = Inr (a, r)"
  using assms
  by (auto simp: follows_def closes_def tier_above_def tier_operator_def parse_more.simps[of P_or a r])

definition opens :: "token list \<Rightarrow> bool" where
  "opens ts \<longleftrightarrow> (\<exists>t us. ts = t # us \<and> t \<noteq> T_RPAREN)"

lemma opens_Cons [simp]: "opens (t # ts) \<longleftrightarrow> t \<noteq> T_RPAREN"
  by (simp add: opens_def)

lemma opens_append [simp]: "opens ts \<Longrightarrow> opens (ts @ us)"
  by (auto simp: opens_def)

lemma phrase_opens:
  "expr_of tier ts a \<Longrightarrow> opens ts" "operand_of tier ts a \<Longrightarrow> opens ts"
  "unary_of ts a \<Longrightarrow> opens ts"
  "primary_of ts a \<Longrightarrow> opens ts \<and> hd ts \<noteq> T_NOT" "args_of ts as \<Longrightarrow> opens ts"
  by (induction rule: expr_of_operand_of_unary_of_primary_of_args_of.inducts) auto

lemma token_now_append: "ts \<noteq> [] \<Longrightarrow> token_now (ts @ r) = hd ts"
  by (cases ts) auto

lemma opens_token: "opens ts \<Longrightarrow> ts \<noteq> []" "opens ts \<Longrightarrow> hd ts \<noteq> T_RPAREN"
  by (auto simp: opens_def)

lemma parse_path_one:
  "closes r \<Longrightarrow> parse_path [s] (path_rest_tokens q @ r) = Inr (s # q, r)"
  "parse_path [s] (path_rest_tokens q @ T_LPAREN # ts) = Inr (s # q, T_LPAREN # ts)"
  by (simp_all add: parse_path_complete closes_def)

lemma parser_complete:
  "expr_of tier ts a \<Longrightarrow> follows tier r \<Longrightarrow> parse_tier_expr tier (ts @ r) = parse_more tier a r"
  "operand_of tier ts a \<Longrightarrow> follows tier r \<Longrightarrow> parse_operand tier (ts @ r) = Inr (a, r)"
  "unary_of ts a \<Longrightarrow> closes r \<Longrightarrow> parse_unary (ts @ r) = Inr (a, r)"
  "primary_of ts a \<Longrightarrow> closes r \<Longrightarrow> parse_primary (ts @ r) = Inr (a, r)"
  "args_of ts as \<Longrightarrow> token_now r = T_RPAREN \<or> token_now r = T_COMMA \<Longrightarrow>
     parse_args acc (ts @ r) =
       (if token_now r = T_COMMA then parse_args (acc @ as) (tl r) else Inr (acc @ as, r))"
proof (induction arbitrary: r and r and r and r and r acc
    rule: expr_of_operand_of_unary_of_primary_of_args_of.inducts)
  case (expr_first tier ts a)
  then show ?case by (simp add: parse_tier_expr.simps)
next
  case (expr_more tier ts a t op us b)
  have "parse_tier_expr tier (ts @ t # us @ r) = parse_more tier a (t # us @ r)"
    using expr_more.IH(1) follows_operator[OF expr_more.hyps(2)] by blast
  also have "\<dots> = parse_more tier (Binary op a b) r"
    by (subst parse_more.simps) (simp add: expr_more.hyps(2) expr_more.IH(2)[OF expr_more.prems])
  finally show ?case by simp
next
  case (operand_or ts a)
  then show ?case by (simp add: parse_operand.simps follows_next follows_no_more)
next
  case (operand_and ts a)
  then show ?case by (simp add: parse_operand.simps follows_next follows_no_more)
next
  case (operand_equality ts a)
  then show ?case by (simp add: parse_operand.simps follows_next follows_no_more)
next
  case (operand_relational ts a)
  then show ?case by (simp add: parse_operand.simps follows_closes)
next
  case (unary_not ts a)
  then show ?case by (simp add: parse_unary.simps)
next
  case (unary_primary ts a)
  have "token_now (ts @ r) \<noteq> T_NOT"
    using phrase_opens(4)[OF unary_primary.hyps] by (simp add: token_now_append opens_token)
  then show ?case using unary_primary by (simp add: parse_unary.simps)
next
  case (primary_paren ts a)
  have "parse_tier_expr P_or (ts @ T_RPAREN # r) = Inr (a, T_RPAREN # r)"
    using primary_paren.IH[of "T_RPAREN # r"] by (simp add: follows_end)
  then show ?case by (simp add: parse_primary.simps)
next
  case (primary_identifier s q)
  then show ?case by (simp add: parse_primary.simps parse_path_one closes_def)
next
  case (primary_call_none s q)
  then show ?case by (simp add: parse_primary.simps parse_path_one)
next
  case (primary_call ts as s q)
  have "parse_args [] (ts @ T_RPAREN # r) = Inr (as, T_RPAREN # r)"
    using primary_call.IH[of "T_RPAREN # r" "[]"] by simp
  moreover have "token_now (ts @ T_RPAREN # r) \<noteq> T_RPAREN"
    using phrase_opens(5)[OF primary_call.hyps] by (simp add: token_now_append opens_token)
  ultimately show ?case by (simp add: parse_primary.simps parse_path_one)
next
  case (args_one ts a)
  then have "parse_tier_expr P_or (ts @ r) = Inr (a, r)" using follows_end(1)[of r] follows_end(2)[of r a] by auto
  then show ?case by (simp add: parse_args.simps)
next
  case (args_more ts as us a)
  have "parse_tier_expr P_or (us @ r) = Inr (a, r)"
    using args_more.prems args_more.IH(2)[of r] follows_end(1)[of r] follows_end(2)[of r a] by auto
  then show ?case using args_more.IH(1)[of "T_COMMA # us @ r" acc] by (simp add: parse_args.simps)
qed (simp_all add: parse_primary.simps)


subsection \<open>The parser meets the grammar\<close>

lemma two_char_token: "two_char s \<noteq> Some T_EOF"
  by (simp add: two_char_def)

lemma one_char_token: "one_char c \<noteq> Some T_EOF"
  by (simp add: one_char_def)

lemma ident_token_token: "ident_token w \<noteq> T_EOF"
  by (simp add: ident_token_def)

definition ends_once :: "registrum_error + token list \<Rightarrow> bool" where
  "ends_once res \<longleftrightarrow> (\<forall>ts. res = Inr ts \<longrightarrow> (\<exists>us. ts = us @ [T_EOF] \<and> T_EOF \<notin> set us))"

lemma ends_once_push: "ends_once res \<Longrightarrow> t \<noteq> T_EOF \<Longrightarrow> ends_once (push_token t res)"
  by (fastforce simp: ends_once_def push_token_def split: sum.splits
      intro: exI[of _ "t # us" for us])

lemma ends_once_simps [simp]: "ends_once (Inl e)" "ends_once (Inr [T_EOF])"
  by (simp_all add: ends_once_def)

lemma tokenize_ends_once: "ends_once (tokenize s)"
proof (induction s rule: tokenize.induct)
  case (2 c cs)
  have "two_char (take 2 (c # cs)) \<noteq> Some T_EOF" "one_char c \<noteq> Some T_EOF"
    by (simp_all add: two_char_token one_char_token)
  then show ?case
    using 2
    by (auto simp: ident_token_token intro!: ends_once_push split: option.splits
        simp del: take_Suc_Cons drop_Suc_Cons takeWhile.simps dropWhile.simps)
qed simp

lemma path_rest_no_EOF: "T_EOF \<notin> set (path_rest_tokens q)"
  by (induction q) auto

lemma phrase_no_EOF:
  "expr_of tier ts a \<Longrightarrow> T_EOF \<notin> set ts" "operand_of tier ts a \<Longrightarrow> T_EOF \<notin> set ts"
  "unary_of ts a \<Longrightarrow> T_EOF \<notin> set ts" "primary_of ts a \<Longrightarrow> T_EOF \<notin> set ts"
  "args_of ts as \<Longrightarrow> T_EOF \<notin> set ts"
proof (induction rule: expr_of_operand_of_unary_of_primary_of_args_of.inducts)
  case (expr_more tier ts a t op us b)
  then have "t \<noteq> T_EOF" by auto
  then show ?case using expr_more by simp
qed (simp_all add: path_rest_no_EOF)

lemma phrase_parses:
  assumes "expr_of P_or ts a"
  shows "parse_tier_expr P_or (ts @ [T_EOF]) = Inr (a, [T_EOF])"
  using parser_complete(1)[OF assms, of "[T_EOF]"] follows_end(1)[of "[T_EOF]"] follows_end(2)[of "[T_EOF]" a] by simp

lemma parse_is_phrase:
  assumes "parse_tier_expr P_or (us @ [T_EOF]) = Inr (a, r)" "token_now r = T_EOF" "T_EOF \<notin> set us"
  shows "expr_of P_or us a"
proof -
  obtain pre where pre: "us @ [T_EOF] = pre @ r" "expr_of P_or pre a"
    using parser_sound(1)[of P_or "us @ [T_EOF]"] assms(1) by auto
  have "T_EOF \<notin> set pre" using phrase_no_EOF(1)[OF pre(2)] .
  then obtain r' where r: "r = r' @ [T_EOF]" "us = pre @ r'"
    using pre(1) by (cases r rule: rev_cases) auto
  have "r' = []"
  proof (cases r')
    case (Cons t r'')
    then show ?thesis using r assms(2,3) by auto
  qed
  then show ?thesis using r pre(2) by simp
qed

text \<open>C34: The recursive descent parser of the predicate language accepts exactly the language
  of its documented grammar and gives the tree that the grammar gives: a text parses to a tree if
  and only if its tokens are a phrase of the grammar with that tree (so the grammar with its
  precedences is unambiguous on texts, every phrase is accepted, and the parser always returns).\<close>

theorem parser_meets_grammar:
  "parsePredicate s = Inr a \<longleftrightarrow> (\<exists>ts. tokenize s = Inr (ts @ [T_EOF]) \<and> expr_of P_or ts a)"
proof
  assume "\<exists>ts. tokenize s = Inr (ts @ [T_EOF]) \<and> expr_of P_or ts a"
  then obtain ts where "tokenize s = Inr (ts @ [T_EOF])" "expr_of P_or ts a" by blast
  then show "parsePredicate s = Inr a" by (simp add: parsePredicate_def phrase_parses)
next
  assume ok: "parsePredicate s = Inr a"
  then obtain ts where ts: "tokenize s = Inr ts"
    by (auto simp: parsePredicate_def split: sum.splits)
  obtain us where us: "ts = us @ [T_EOF]" "T_EOF \<notin> set us"
    using tokenize_ends_once[of s] ts by (auto simp: ends_once_def)
  obtain r where "parse_tier_expr P_or (us @ [T_EOF]) = Inr (a, r)" "token_now r = T_EOF"
    using ok ts us by (auto simp: parsePredicate_def split: sum.splits if_splits)
  then have "expr_of P_or us a" using us(2) by (rule parse_is_phrase)
  then show "\<exists>ts. tokenize s = Inr (ts @ [T_EOF]) \<and> expr_of P_or ts a" using ts us by blast
qed

end
