(* ===== verification/Constitution.thy ===== *)
theory Constitution
  imports Predicates
begin

section \<open>Static safety, evaluation and loading of an invariant registry\<close>

text \<open>
  Model of \<^verbatim>\<open>packages/registrum/src/registry/predicate/validator.ts\<close>,
  \<^verbatim>\<open>evaluator.ts\<close> beside it, and \<^verbatim>\<open>registry/loader.ts\<close>, with the
  registry that the repository ships, \<^verbatim>\<open>packages/registrum/invariants/registry.json\<close>.

  The evaluation context holds what the registrar passes: the proposed state, the transition, the
  three functions of the registry (two of them constants) and the order index or null. The loader
  works on the value that \<^verbatim>\<open>JSON.parse\<close> gives.
\<close>

subsection \<open>The validator\<close>

definition ALLOWED_ROOTS :: "string list" where
  "ALLOWED_ROOTS =
     [''state'', ''transition'', ''registry'', ''ordering'', ''true'', ''false'', ''null'']"

definition FORBIDDEN_PATH_PREFIXES :: "string list list" where
  "FORBIDDEN_PATH_PREFIXES =
     [[''state'', ''data''], [''state'', ''content''], [''state'', ''embedding''],
      [''state'', ''score''], [''state'', ''payload''], [''transition'', ''payload''],
      [''transition'', ''data'']]"

definition ALLOWED_FUNCTIONS :: "string list" where
  "ALLOWED_FUNCTIONS =
     [''exists'', ''is_string'', ''is_number'', ''is_boolean'', ''equals'',
      ''registry.contains_state'', ''registry.max_order_index'', ''registry.compute_order_index'']"

definition MAX_DEPTH :: nat where
  "MAX_DEPTH = 16"

definition MAX_SAFE_INTEGER :: int where
  "MAX_SAFE_INTEGER = 9007199254740991"

definition pathStartsWith :: "string list \<Rightarrow> string list \<Rightarrow> bool" where
  "pathStartsWith path prefix \<longleftrightarrow> length prefix \<le> length path \<and> take (length prefix) path = prefix"

definition validateLiteral :: "literal_value \<Rightarrow> registrum_error + unit" where
  "validateLiteral v =
     (case v of
        Lit_num n \<Rightarrow> throw_when (n > MAX_SAFE_INTEGER \<or> n < - MAX_SAFE_INTEGER) ValidationError
      | _ \<Rightarrow> Inr ())"

definition validateIdentifier :: "string list \<Rightarrow> registrum_error + unit" where
  "validateIdentifier path =
     (case path of
        [] \<Rightarrow> Inl ValidationError
      | root # _ \<Rightarrow>
          bind_r (throw_when (root \<notin> set ALLOWED_ROOTS) ValidationError) (\<lambda>_.
          forE (\<lambda>forbidden. throw_when (pathStartsWith path forbidden) ValidationError)
            FORBIDDEN_PATH_PREFIXES))"

definition function_arity :: "string \<Rightarrow> nat" where
  "function_arity fn =
     (if fn = ''equals'' then 2 else if fn = ''registry.max_order_index'' then 0 else 1)"

definition validateFunction :: "string \<Rightarrow> nat \<Rightarrow> registrum_error + unit" where
  "validateFunction fn arity =
     bind_r (throw_when (fn \<notin> set ALLOWED_FUNCTIONS) ValidationError) (\<lambda>_.
     throw_when (arity \<noteq> function_arity fn) ValidationError)"

fun walk :: "nat \<Rightarrow> ast \<Rightarrow> registrum_error + unit"
  and walk_all :: "nat \<Rightarrow> ast list \<Rightarrow> registrum_error + unit" where
  "walk depth (Literal v) =
     (if depth > MAX_DEPTH then Inl ValidationError else validateLiteral v)"
| "walk depth (Identifier path) =
     (if depth > MAX_DEPTH then Inl ValidationError else validateIdentifier path)"
| "walk depth (Binary op left right) =
     (if depth > MAX_DEPTH then Inl ValidationError
      else bind_r (walk (depth + 1) left) (\<lambda>_. walk (depth + 1) right))"
| "walk depth (Unary op operand) =
     (if depth > MAX_DEPTH then Inl ValidationError else walk (depth + 1) operand)"
| "walk depth (Call fn args) =
     (if depth > MAX_DEPTH then Inl ValidationError
      else bind_r (validateFunction fn (length args)) (\<lambda>_. walk_all (depth + 1) args))"
| "walk_all depth [] = Inr ()"
| "walk_all depth (arg # args) = bind_r (walk depth arg) (\<lambda>_. walk_all depth args)"

definition validatePredicate :: "ast \<Rightarrow> registrum_error + unit" where
  "validatePredicate a = walk 0 a"

subsection \<open>The evaluator\<close>

type_synonym js_object = "nat \<times> (string \<times> jsval) list"

record eval_context =
  cx_state_id :: string
  cx_state_structure :: js_object
  cx_from :: "string option"
  cx_to_id :: string
  cx_to_structure :: js_object
  cx_contains_state :: "string option \<Rightarrow> bool"
  cx_max_order_index :: int
  cx_compute_order_index :: "jsval \<Rightarrow> int"
  cx_ordering :: "int option"

definition object_value :: "js_object \<Rightarrow> jsval" where
  "object_value x = JObj (R_user (fst x)) (snd x)"

definition nullable_string :: "string option \<Rightarrow> jsval" where
  "nullable_string x = (case x of None \<Rightarrow> JNull | Some s \<Rightarrow> JStr s)"

definition state_value :: "eval_context \<Rightarrow> jsval" where
  "state_value cx = JObj R_state
     [(''id'', JStr (cx_state_id cx)), (''structure'', object_value (cx_state_structure cx))]"

definition transition_value :: "eval_context \<Rightarrow> jsval" where
  "transition_value cx = JObj R_transition
     [(''from'', nullable_string (cx_from cx)),
      (''to'', JObj R_to [(''id'', JStr (cx_to_id cx)), (''structure'', object_value (cx_to_structure cx))])]"

definition registry_value :: jsval where
  "registry_value = JObj R_registry
     [(''contains_state'', JFun ''contains_state''), (''max_order_index'', JFun ''max_order_index''),
      (''compute_order_index'', JFun ''compute_order_index'')]"

definition ordering_value :: "eval_context \<Rightarrow> jsval" where
  "ordering_value cx =
     (case cx_ordering cx of None \<Rightarrow> JNull | Some i \<Rightarrow> JObj R_ordering [(''index'', JNum i)])"

definition toBoolean :: "jsval \<Rightarrow> bool" where
  "toBoolean v =
     (case v of JBool b \<Rightarrow> b | JNull \<Rightarrow> False | JUndef \<Rightarrow> False | JNum n \<Rightarrow> n \<noteq> 0 | JStr s \<Rightarrow> s \<noteq> []
      | _ \<Rightarrow> True)"

definition nullish :: "jsval \<Rightarrow> bool" where
  "nullish v \<longleftrightarrow> v = JNull \<or> v = JUndef"

definition strictEquals :: "jsval \<Rightarrow> jsval \<Rightarrow> bool" where
  "strictEquals a b =
     (if nullish a then nullish b
      else if nullish b then False
      else if js_typeof a \<noteq> js_typeof b then False
      else js_identical a b)"

definition compareNumbers :: "jsval \<Rightarrow> jsval \<Rightarrow> (int \<Rightarrow> int \<Rightarrow> bool) \<Rightarrow> registrum_error + jsval" where
  "compareNumbers a b comparator =
     (case (a, b) of (JNum x, JNum y) \<Rightarrow> Inr (JBool (comparator x y)) | _ \<Rightarrow> Inl EvaluationError)"

fun traverse_path :: "jsval \<Rightarrow> string list \<Rightarrow> registrum_error + jsval" where
  "traverse_path v [] = Inr v"
| "traverse_path v (key # keys) =
     (if nullish v then Inr JNull
      else if js_typeof v \<noteq> TypeObject then Inl EvaluationError
      else traverse_path (js_property v key) keys)"

definition resolveIdentifier :: "string list \<Rightarrow> eval_context \<Rightarrow> registrum_error + jsval" where
  "resolveIdentifier path cx =
     (case path of
        [] \<Rightarrow> Inl EvaluationError
      | root # keys \<Rightarrow>
          if root = ''state'' then traverse_path (state_value cx) keys
          else if root = ''transition'' then traverse_path (transition_value cx) keys
          else if root = ''registry'' then traverse_path registry_value keys
          else if root = ''ordering'' then traverse_path (ordering_value cx) keys
          else if root = ''true'' then Inr (JBool True)
          else if root = ''false'' then Inr (JBool False)
          else if root = ''null'' then Inr JNull
          else Inl EvaluationError)"

definition literal_js :: "literal_value \<Rightarrow> jsval" where
  "literal_js v =
     (case v of Lit_bool b \<Rightarrow> JBool b | Lit_num n \<Rightarrow> JNum n | Lit_str s \<Rightarrow> JStr s | Lit_null \<Rightarrow> JNull)"

text \<open>The operators that evaluate both operands first.\<close>

definition eager_binary :: "binary_operator \<Rightarrow> jsval \<Rightarrow> jsval \<Rightarrow> registrum_error + jsval" where
  "eager_binary op a b =
     (case op of
        Op_eq \<Rightarrow> Inr (JBool (strictEquals a b))
      | Op_neq \<Rightarrow> Inr (JBool (\<not> strictEquals a b))
      | Op_gt \<Rightarrow> compareNumbers a b (\<lambda>x y. x > y)
      | Op_lt \<Rightarrow> compareNumbers a b (\<lambda>x y. x < y)
      | Op_gte \<Rightarrow> compareNumbers a b (\<lambda>x y. x \<ge> y)
      | Op_lte \<Rightarrow> compareNumbers a b (\<lambda>x y. x \<le> y)
      | _ \<Rightarrow> Inl EvaluationError)"

text \<open>
  The call of a function; \<open>arg0\<close> and \<open>arg1\<close> are the evaluations of the first two arguments,
  of which a function uses those it evaluates. An argument that is not there is
  \<^verbatim>\<open>undefined\<close>, whose evaluation throws a \<^verbatim>\<open>TypeError\<close>.
\<close>

definition evaluateCall ::
  "string \<Rightarrow> registrum_error + jsval \<Rightarrow> registrum_error + jsval \<Rightarrow> eval_context \<Rightarrow> registrum_error + jsval" where
  "evaluateCall fn arg0 arg1 cx =
     (if fn = ''exists'' then bind_r arg0 (\<lambda>v. Inr (JBool (\<not> nullish v)))
      else if fn = ''is_string'' then bind_r arg0 (\<lambda>v. Inr (JBool (js_typeof v = TypeString)))
      else if fn = ''is_number'' then bind_r arg0 (\<lambda>v. Inr (JBool (js_typeof v = TypeNumber)))
      else if fn = ''is_boolean'' then bind_r arg0 (\<lambda>v. Inr (JBool (js_typeof v = TypeBoolean)))
      else if fn = ''equals'' then
        bind_r arg0 (\<lambda>a. bind_r arg1 (\<lambda>b. Inr (JBool (strictEquals a b))))
      else if fn = ''registry.contains_state'' then
        bind_r arg0 (\<lambda>v.
          case v of JNull \<Rightarrow> Inr (JBool False)
          | JStr s \<Rightarrow> Inr (JBool (cx_contains_state cx (Some s)))
          | _ \<Rightarrow> Inl EvaluationError)
      else if fn = ''registry.max_order_index'' then Inr (JNum (cx_max_order_index cx))
      else if fn = ''registry.compute_order_index'' then
        bind_r arg0 (\<lambda>v. Inr (JNum (cx_compute_order_index cx v)))
      else Inl EvaluationError)"

fun evaluate :: "ast \<Rightarrow> eval_context \<Rightarrow> registrum_error + jsval" where
  "evaluate (Literal v) cx = Inr (literal_js v)"
| "evaluate (Identifier path) cx = resolveIdentifier path cx"
| "evaluate (Binary op left right) cx =
     (case evaluate left cx of
        Inl e \<Rightarrow> Inl e
      | Inr a \<Rightarrow>
          if op = Op_and \<and> \<not> toBoolean a then Inr (JBool False)
          else if op = Op_or \<and> toBoolean a then Inr (JBool True)
          else (case evaluate right cx of
                  Inl e \<Rightarrow> Inl e
                | Inr b \<Rightarrow> if op = Op_and \<or> op = Op_or then Inr (JBool (toBoolean b))
                          else eager_binary op a b))"
| "evaluate (Unary op operand) cx =
     bind_r (evaluate operand cx) (\<lambda>v. Inr (JBool (\<not> toBoolean v)))"
| "evaluate (Call fn args) cx =
     evaluateCall fn
       (case args of [] \<Rightarrow> Inl JsTypeError | a # _ \<Rightarrow> evaluate a cx)
       (case args of _ # b # _ \<Rightarrow> evaluate b cx | _ \<Rightarrow> Inl JsTypeError) cx"

definition evaluatePredicate :: "ast \<Rightarrow> eval_context \<Rightarrow> registrum_error + bool" where
  "evaluatePredicate a cx =
     (case evaluate a cx of
        Inr v \<Rightarrow> Inr (toBoolean v)
      | Inl e \<Rightarrow> if e = EvaluationError then Inr False else Inl e)"

subsection \<open>The loader\<close>

datatype inv_group = G_identity | G_lineage | G_ordering

datatype inv_scope = S_state | S_transition | S_registration

datatype failure_mode = M_reject | M_halt

record compiled_invariant =
  ci_id :: string
  ci_group :: inv_group
  ci_scope :: inv_scope
  ci_description :: string
  ci_applies_to :: "jsval list"
  ci_ast :: ast
  ci_failure_mode :: failure_mode

record compiled_registry =
  cr_version :: string
  cr_registry_id :: string
  cr_status :: jsval
  cr_invariants :: "compiled_invariant list"

definition assertString :: "jsval \<Rightarrow> registrum_error + string" where
  "assertString v = (case v of JStr s \<Rightarrow> Inr s | _ \<Rightarrow> Inl RegistryError)"

definition assertArray :: "jsval \<Rightarrow> registrum_error + jsval list" where
  "assertArray v = (case v of JArr r xs \<Rightarrow> Inr xs | _ \<Rightarrow> Inl RegistryError)"

definition assertOneOf :: "jsval \<Rightarrow> string list \<Rightarrow> registrum_error + string" where
  "assertOneOf v allowed =
     (case v of JStr s \<Rightarrow> if s \<in> set allowed then Inr s else Inl RegistryError
      | _ \<Rightarrow> Inl RegistryError)"

definition assertObject :: "jsval \<Rightarrow> registrum_error + jsval" where
  "assertObject v =
     (if js_typeof v \<noteq> TypeObject \<or> v = JNull then Inl RegistryError else Inr v)"

text \<open>
  A raw definition once its shape is known (\<^verbatim>\<open>RawInvariantDefinition\<close>); the source keeps
  the value and changes its type only, so the checks here return what they have read.
\<close>

record raw_definition =
  rd_id :: string
  rd_group :: string
  rd_scope :: string
  rd_description :: string
  rd_applies_to :: "jsval list"
  rd_failure_mode :: string
  rd_expression :: string

definition validateInvariantShape :: "jsval \<Rightarrow> registrum_error + raw_definition" where
  "validateInvariantShape raw =
     bind_r (assertObject raw) (\<lambda>inv.
     bind_r (assertString (js_property inv ''id'')) (\<lambda>id.
     bind_r (assertOneOf (js_property inv ''group'') [''identity'', ''lineage'', ''ordering'']) (\<lambda>group.
     bind_r (assertOneOf (js_property inv ''scope'') [''state'', ''transition'', ''registration'']) (\<lambda>scope.
     bind_r (assertString (js_property inv ''description'')) (\<lambda>description.
     bind_r (assertArray (js_property inv ''applies_to'')) (\<lambda>applies_to.
     bind_r (assertOneOf (js_property inv ''failure_mode'') [''reject'', ''halt'']) (\<lambda>failure_mode.
     bind_r (assertObject (js_property inv ''condition'')) (\<lambda>cond.
     bind_r (throw_when (\<not> js_identical (js_property cond ''type'') (JStr ''predicate'')) RegistryError) (\<lambda>_.
     bind_r (assertString (js_property cond ''expression'')) (\<lambda>expression.
     Inr \<lparr>rd_id = id, rd_group = group, rd_scope = scope, rd_description = description,
       rd_applies_to = applies_to, rd_failure_mode = failure_mode, rd_expression = expression\<rparr>))))))))))"

fun validate_shapes :: "jsval list \<Rightarrow> registrum_error + raw_definition list" where
  "validate_shapes [] = Inr []"
| "validate_shapes (raw # raws) =
     bind_r (validateInvariantShape raw) (\<lambda>d. bind_r (validate_shapes raws) (\<lambda>ds. Inr (d # ds)))"

definition validateRegistryShape ::
  "jsval \<Rightarrow> registrum_error + (string \<times> string \<times> raw_definition list)" where
  "validateRegistryShape raw =
     bind_r (assertObject raw) (\<lambda>r.
     bind_r (assertString (js_property r ''version'')) (\<lambda>version.
     bind_r (assertString (js_property r ''registry_id'')) (\<lambda>registry_id.
     bind_r (assertArray (js_property r ''invariants'')) (\<lambda>invariants.
     bind_r (validate_shapes invariants) (\<lambda>defs. Inr (version, registry_id, defs))))))"

definition group_of :: "string \<Rightarrow> inv_group" where
  "group_of s = (if s = ''identity'' then G_identity else if s = ''lineage'' then G_lineage else G_ordering)"

definition scope_of :: "string \<Rightarrow> inv_scope" where
  "scope_of s = (if s = ''state'' then S_state else if s = ''transition'' then S_transition else S_registration)"

definition mode_of :: "string \<Rightarrow> failure_mode" where
  "mode_of s = (if s = ''reject'' then M_reject else M_halt)"

definition compileInvariant :: "raw_definition \<Rightarrow> registrum_error + compiled_invariant" where
  "compileInvariant raw =
     bind_r (parsePredicate (rd_expression raw)) (\<lambda>a.
     bind_r (validatePredicate a) (\<lambda>_.
     Inr \<lparr>ci_id = rd_id raw, ci_group = group_of (rd_group raw), ci_scope = scope_of (rd_scope raw),
       ci_description = rd_description raw, ci_applies_to = rd_applies_to raw, ci_ast = a,
       ci_failure_mode = mode_of (rd_failure_mode raw)\<rparr>))"

text \<open>The loop that compiles every definition and collects the ids of those that fail.\<close>

fun compile_all ::
  "raw_definition list \<Rightarrow> compiled_invariant list \<Rightarrow> string list \<Rightarrow> compiled_invariant list \<times> string list" where
  "compile_all [] compiled errors = (compiled, errors)"
| "compile_all (one # rest) compiled errors =
     (case compileInvariant one of
        Inr c \<Rightarrow> compile_all rest (compiled @ [c]) errors
      | Inl _ \<Rightarrow> compile_all rest compiled (errors @ [rd_id one]))"

fun duplicate_ids :: "compiled_invariant list \<Rightarrow> string set \<Rightarrow> string list" where
  "duplicate_ids [] seen = []"
| "duplicate_ids (one # rest) seen =
     (if ci_id one \<in> seen then ci_id one # duplicate_ids rest seen
      else duplicate_ids rest (insert (ci_id one) seen))"

definition loadInvariantRegistry :: "jsval \<Rightarrow> registrum_error + compiled_registry" where
  "loadInvariantRegistry raw =
     bind_r (validateRegistryShape raw) (\<lambda>(version, registry_id, defs).
     case compile_all defs [] [] of (compiled, errors) \<Rightarrow>
     bind_r (throw_when (errors \<noteq> []) RegistryError) (\<lambda>_.
     bind_r (throw_when (duplicate_ids compiled {} \<noteq> []) RegistryError) (\<lambda>_.
     Inr \<lparr>cr_version = version, cr_registry_id = registry_id,
       cr_status = (let s = js_property raw ''status'' in if nullish s then JStr ''unknown'' else s),
       cr_invariants = compiled\<rparr>)))"

text \<open>The registry of the repository, as the value that parsing its JSON gives.\<close>

definition raw_invariant ::
  "string \<Rightarrow> string \<Rightarrow> string \<Rightarrow> string \<Rightarrow> string list \<Rightarrow> string \<Rightarrow> string \<Rightarrow> jsval" where
  "raw_invariant i g scp descr applies expr mode =
     JObj (R_user 1)
       [(''id'', JStr i), (''group'', JStr g), (''scope'', JStr scp),
        (''description'', JStr descr), (''applies_to'', JArr (R_user 2) (map JStr applies)),
        (''condition'', JObj (R_user 3)
           [(''type'', JStr ''predicate''), (''expression'', JStr expr)]),
        (''failure_mode'', JStr mode)]"

definition registry_json :: jsval where
  "registry_json = JObj (R_user 0)
     [(''version'', JStr ''1.0''), (''registry_id'', JStr ''registrum.core.invariants''),
      (''status'', JStr ''experimental''),
      (''invariants'', JArr (R_user 4)
       [raw_invariant ''state.identity.explicit'' ''identity'' ''state''
        ''Every State must declare an explicit identity.''
        [''state.id'']
        ''exists(state.id) && state.id != \"\"'' ''reject'',
        raw_invariant ''state.identity.immutable'' ''identity'' ''transition''
        ''State identity may not change across a transition.''
        [''transition.from'', ''transition.to.id'']
        ''transition.from == null || transition.to.id == transition.from'' ''reject'',
        raw_invariant ''state.identity.unique'' ''identity'' ''registration''
        ''No two registered States may share the same identity.''
        [''state.id'']
        ''transition.from != null || !registry.contains_state(transition.to.id)'' ''halt'',
        raw_invariant ''state.lineage.explicit'' ''lineage'' ''transition''
        ''Every transition must explicitly declare its parent unless root.''
        [''transition.from'', ''state.structure.isRoot'']
        ''transition.from != null || state.structure.isRoot == true'' ''reject'',
        raw_invariant ''state.lineage.parent_exists'' ''lineage'' ''registration''
        ''A transition's parent must exist and be registered.''
        [''transition.from'']
        ''transition.from == null || registry.contains_state(transition.from)'' ''reject'',
        raw_invariant ''state.lineage.single_parent'' ''lineage'' ''transition''
        ''Transitions may reference only one parent.''
        [''transition.from'']
        ''transition.from == null || is_string(transition.from)'' ''reject'',
        raw_invariant ''state.lineage.continuous'' ''lineage'' ''registration''
        ''Every accepted Transition must extend an unbroken lineage chain.''
        [''transition.from'']
        ''transition.from == null || registry.contains_state(transition.from)'' ''halt'',
        raw_invariant ''ordering.total'' ''ordering'' ''registration''
        ''All accepted states must have a total ordering.''
        [''ordering.index'']
        ''exists(ordering.index) && ordering.index >= 0'' ''halt'',
        raw_invariant ''ordering.monotonic'' ''ordering'' ''registration''
        ''Ordering must be strictly increasing.''
        [''ordering.index'']
        ''ordering.index > registry.max_order_index()'' ''reject'',
        raw_invariant ''ordering.deterministic'' ''ordering'' ''registration''
        ''Ordering must be deterministic given identical inputs.''
        [''ordering.index'']
        ''ordering.index == registry.compute_order_index(transition)'' ''halt'',
        raw_invariant ''ordering.non_semantic'' ''ordering'' ''registration''
        ''Ordering must not depend on State content or meaning.''
        [''ordering.index'']
        ''true'' ''halt''])]"


subsection \<open>Validated predicates evaluate\<close>

definition no_type_error :: "registrum_error + 'a \<Rightarrow> bool" where
  "no_type_error res \<longleftrightarrow> (\<forall>e. res = Inl e \<longrightarrow> e = EvaluationError)"

lemma no_type_error_simps [simp]:
  "no_type_error (Inr v)" "no_type_error (Inl e) \<longleftrightarrow> e = EvaluationError"
  by (simp_all add: no_type_error_def)

lemma no_type_error_bind:
  "no_type_error m \<Longrightarrow> (\<And>v. no_type_error (f v)) \<Longrightarrow> no_type_error (bind_r m f)"
  by (cases m) auto

lemma traverse_path_no_type_error: "no_type_error (traverse_path v keys)"
  by (induction v keys rule: traverse_path.induct) auto

lemma resolveIdentifier_no_type_error: "no_type_error (resolveIdentifier path cx)"
  by (simp add: resolveIdentifier_def traverse_path_no_type_error split: list.split)

lemma eager_binary_no_type_error: "no_type_error (eager_binary op a b)"
  by (simp add: eager_binary_def compareNumbers_def split: binary_operator.split prod.split jsval.split)

lemma no_type_error_if:
  "(b \<Longrightarrow> no_type_error x) \<Longrightarrow> (\<not> b \<Longrightarrow> no_type_error y) \<Longrightarrow> no_type_error (if b then x else y)"
  by simp

lemma evaluateCall_no_type_error:
  assumes "fn \<noteq> ''registry.max_order_index'' \<longrightarrow> no_type_error a0"
    and "fn = ''equals'' \<longrightarrow> no_type_error a1"
  shows "no_type_error (evaluateCall fn a0 a1 cx)"
  unfolding evaluateCall_def
  by (intro no_type_error_if no_type_error_bind)
    (use assms in \<open>simp_all split: jsval.split\<close>)

lemma walk_all_Inr: "walk_all d as = Inr () \<longleftrightarrow> (\<forall>a \<in> set as. walk d a = Inr ())"
  by (induction as) (auto simp: bind_r_eq_Inr)

lemma validateFunction_arity: "validateFunction fn n = Inr () \<Longrightarrow> n = function_arity fn"
  by (simp add: validateFunction_def bind_r_eq_Inr throw_when_Inr)

lemma function_arity_pos:
  "fn \<noteq> ''registry.max_order_index'' \<Longrightarrow> 0 < function_arity fn" "function_arity ''equals'' = 2"
  by (simp_all add: function_arity_def)

lemma validated_no_type_error: "walk d a = Inr () \<Longrightarrow> no_type_error (evaluate a cx)"
proof (induction a cx arbitrary: d rule: evaluate.induct)
  case (3 op l r cx)
  then have "walk (d + 1) l = Inr ()" "walk (d + 1) r = Inr ()"
    by (auto simp: bind_r_eq_Inr split: if_splits)
  then have "no_type_error (evaluate l cx)" "\<And>x. evaluate l cx = Inr x \<Longrightarrow>
      \<not> (op = Op_and \<and> \<not> toBoolean x) \<Longrightarrow> \<not> (op = Op_or \<and> toBoolean x) \<Longrightarrow> no_type_error (evaluate r cx)"
    using 3(1) 3(2) by blast+
  then show ?case
    by (cases "evaluate l cx"; cases "evaluate r cx") (auto simp: eager_binary_no_type_error)
next
  case (4 op a cx)
  then have "walk (d + 1) a = Inr ()" by (auto split: if_splits)
  then show ?case using 4(1) by (auto intro: no_type_error_bind)
next
  case (5 fn as cx)
  then have arity: "length as = function_arity fn" and ok: "walk_all (d + 1) as = Inr ()"
    by (auto simp: bind_r_eq_Inr dest: validateFunction_arity split: if_splits)
  have a0: "no_type_error (case as of [] \<Rightarrow> Inl JsTypeError | a # _ \<Rightarrow> evaluate a cx)"
    if "fn \<noteq> ''registry.max_order_index''"
    using function_arity_pos(1)[OF that] arity ok 5(1) by (auto simp: bind_r_eq_Inr split: list.split)
  have a1: "no_type_error (case as of _ # b # _ \<Rightarrow> evaluate b cx | _ \<Rightarrow> Inl JsTypeError)"
    if "fn = ''equals''"
    using that arity ok 5(2) by (auto simp: function_arity_pos(2) bind_r_eq_Inr split: list.split)
  show ?case using a0 a1 by (auto intro!: evaluateCall_no_type_error)
qed (auto simp: resolveIdentifier_no_type_error)

lemma validated_evaluates:
  assumes "validatePredicate a = Inr ()"
  shows "\<exists>b. evaluatePredicate a cx = Inr b"
  using validated_no_type_error[of 0 a cx] assms
  by (auto simp: evaluatePredicate_def validatePredicate_def no_type_error_def split: sum.splits)

text \<open>The depth of a tree, counted as the validator counts it.\<close>

fun ast_depth :: "ast \<Rightarrow> nat" and args_depth :: "ast list \<Rightarrow> nat" where
  "ast_depth (Literal v) = 0"
| "ast_depth (Identifier path) = 0"
| "ast_depth (Binary op l r) = 1 + max (ast_depth l) (ast_depth r)"
| "ast_depth (Unary op a) = 1 + ast_depth a"
| "ast_depth (Call fn as) = args_depth as"
| "args_depth [] = 0"
| "args_depth (a # as) = max (1 + ast_depth a) (args_depth as)"

lemma walk_depth:
  "walk d a = Inr () \<Longrightarrow> d + ast_depth a \<le> MAX_DEPTH"
  "walk_all (d + 1) as = Inr () \<Longrightarrow> d \<le> MAX_DEPTH \<Longrightarrow> d + args_depth as \<le> MAX_DEPTH"
proof (induction d a and "d + 1" as arbitrary: and d rule: walk_walk_all.induct)
qed (auto simp: bind_r_eq_Inr split: if_splits)


subsection \<open>What the loader guarantees\<close>

lemma compile_all_spec:
  "compile_all defs cs es = (cs', es') \<Longrightarrow> es' = [] \<longleftrightarrow>
     es = [] \<and> (\<forall>d \<in> set defs. \<exists>c. compileInvariant d = Inr c)"
  "compile_all defs cs es = (cs', []) \<Longrightarrow>
     \<exists>new. cs' = cs @ new \<and> list_all2 (\<lambda>d c. compileInvariant d = Inr c) defs new"
proof (induction defs cs es arbitrary: cs' es' rule: compile_all.induct)
  case (1 cs es)
  { case 1 then show ?case by simp next case 2 then show ?case by simp }
next
  case (2 d defs cs es)
  { case 1 then show ?case using 2 by (auto split: sum.splits)
  next
    case prems: 2
    obtain c where c: "compileInvariant d = Inr c"
      using prems 2(2) by (cases "compileInvariant d") (auto dest: 2(1,2,3,4))
    then have "compile_all defs (cs @ [c]) es = (cs', [])" using prems by simp
    from 2(4)[OF c this] obtain new where
      "cs' = (cs @ [c]) @ new" "list_all2 (\<lambda>d c. compileInvariant d = Inr c) defs new" by blast
    then show ?case using c by (intro exI[of _ "c # new"]) simp }
qed

lemma duplicate_ids_none:
  "duplicate_ids cs seen = [] \<longleftrightarrow> distinct (map ci_id cs) \<and> set (map ci_id cs) \<inter> seen = {}"
  by (induction cs arbitrary: seen) auto

text \<open>What it means that a compiled invariant is the compilation of a definition.\<close>

lemma compileInvariant_Inr:
  "compileInvariant d = Inr c \<longleftrightarrow>
     parsePredicate (rd_expression d) = Inr (ci_ast c) \<and> validatePredicate (ci_ast c) = Inr () \<and>
     c = \<lparr>ci_id = rd_id d, ci_group = group_of (rd_group d), ci_scope = scope_of (rd_scope d),
       ci_description = rd_description d, ci_applies_to = rd_applies_to d, ci_ast = ci_ast c,
       ci_failure_mode = mode_of (rd_failure_mode d)\<rparr>"
  by (auto simp: compileInvariant_def bind_r_eq_Inr)

lemma load_Inr:
  assumes "loadInvariantRegistry raw = Inr r"
  shows "\<exists>v i defs. validateRegistryShape raw = Inr (v, i, defs) \<and>
      list_all2 (\<lambda>d c. compileInvariant d = Inr c) defs (cr_invariants r) \<and>
      distinct (map ci_id (cr_invariants r))"
proof -
  obtain v i defs where shape: "validateRegistryShape raw = Inr (v, i, defs)"
    using assms by (auto simp: loadInvariantRegistry_def bind_r_eq_Inr)
  obtain cs es where all: "compile_all defs [] [] = (cs, es)" by fastforce
  have "es = []" "duplicate_ids cs {} = []" "cr_invariants r = cs"
    using assms shape all by (auto simp: loadInvariantRegistry_def bind_r_eq_Inr throw_when_Inr)
  then show ?thesis
    using shape all compile_all_spec(2)[of defs "[]" "[]" cs] by (auto simp: duplicate_ids_none)
qed

lemma loaded_validated:
  assumes "loadInvariantRegistry raw = Inr r" "c \<in> set (cr_invariants r)"
  shows "validatePredicate (ci_ast c) = Inr ()"
proof -
  obtain defs where "list_all2 (\<lambda>d c. compileInvariant d = Inr c) defs (cr_invariants r)"
    using load_Inr[OF assms(1)] by blast
  then obtain d where "compileInvariant d = Inr c"
    using assms(2) by (auto simp: list_all2_conv_all_nth in_set_conv_nth)
  then show ?thesis by (simp add: compileInvariant_Inr)
qed

text \<open>C35: A registry loads as a whole or not at all, and what has loaded is safe to run: it has
  one compiled invariant for each definition, in order, whose tree is the parse of the definition's
  expression; the ids are distinct; every tree is at most sixteen levels deep; and every predicate
  evaluates to a boolean in every context, never to an exception.\<close>

theorem loaded_registry_is_safe:
  assumes "loadInvariantRegistry raw = Inr r"
  shows "(\<exists>v i defs. validateRegistryShape raw = Inr (v, i, defs) \<and>
      list_all2 (\<lambda>d c. ci_id c = rd_id d \<and> parsePredicate (rd_expression d) = Inr (ci_ast c))
        defs (cr_invariants r)) \<and>
    distinct (map ci_id (cr_invariants r)) \<and>
    (\<forall>c \<in> set (cr_invariants r). ast_depth (ci_ast c) \<le> MAX_DEPTH \<and>
      (\<forall>cx. \<exists>b. evaluatePredicate (ci_ast c) cx = Inr b))"
proof (intro conjI)
  obtain v i defs where load: "validateRegistryShape raw = Inr (v, i, defs)"
    "list_all2 (\<lambda>d c. compileInvariant d = Inr c) defs (cr_invariants r)"
    "distinct (map ci_id (cr_invariants r))" using load_Inr[OF assms] by blast
  have "list_all2 (\<lambda>d c. ci_id c = rd_id d \<and> parsePredicate (rd_expression d) = Inr (ci_ast c))
      defs (cr_invariants r)"
    using load(2) by (rule list.rel_mono_strong) (metis compileInvariant_Inr compiled_invariant.select_convs(1))
  then show "\<exists>v i defs. validateRegistryShape raw = Inr (v, i, defs) \<and>
      list_all2 (\<lambda>d c. ci_id c = rd_id d \<and> parsePredicate (rd_expression d) = Inr (ci_ast c))
        defs (cr_invariants r)" using load(1) by blast
  show "distinct (map ci_id (cr_invariants r))" by (fact load(3))
  show "\<forall>c \<in> set (cr_invariants r). ast_depth (ci_ast c) \<le> MAX_DEPTH \<and>
      (\<forall>cx. \<exists>b. evaluatePredicate (ci_ast c) cx = Inr b)"
    using loaded_validated[OF assms] validated_evaluates walk_depth(1)[of 0]
    by (auto simp: validatePredicate_def)
qed

subsection \<open>The registry of the repository\<close>

text \<open>
  The rules of the constitution as trees: id, scope, failure mode and predicate of each invariant of
  \<^verbatim>\<open>registry.json\<close>.
\<close>

definition has_parent :: ast where
  "has_parent = Binary Op_neq (Identifier [''transition'', ''from'']) (Literal Lit_null)"

definition no_parent :: ast where
  "no_parent = Binary Op_eq (Identifier [''transition'', ''from'']) (Literal Lit_null)"

definition parent_registered :: ast where
  "parent_registered = Binary Op_or no_parent
     (Call ''registry.contains_state'' [Identifier [''transition'', ''from'']])"

definition core_rules :: "(string \<times> inv_scope \<times> failure_mode \<times> ast) list" where
  "core_rules =
     [(''state.identity.explicit'', S_state, M_reject,
         Binary Op_and (Call ''exists'' [Identifier [''state'', ''id'']])
           (Binary Op_neq (Identifier [''state'', ''id'']) (Literal (Lit_str [])))),
      (''state.identity.immutable'', S_transition, M_reject,
         Binary Op_or no_parent
           (Binary Op_eq (Identifier [''transition'', ''to'', ''id'']) (Identifier [''transition'', ''from'']))),
      (''state.identity.unique'', S_registration, M_halt,
         Binary Op_or has_parent
           (Unary Op_not (Call ''registry.contains_state'' [Identifier [''transition'', ''to'', ''id'']]))),
      (''state.lineage.explicit'', S_transition, M_reject,
         Binary Op_or has_parent
           (Binary Op_eq (Identifier [''state'', ''structure'', ''isRoot'']) (Literal (Lit_bool True)))),
      (''state.lineage.parent_exists'', S_registration, M_reject, parent_registered),
      (''state.lineage.single_parent'', S_transition, M_reject,
         Binary Op_or no_parent (Call ''is_string'' [Identifier [''transition'', ''from'']])),
      (''state.lineage.continuous'', S_registration, M_halt, parent_registered),
      (''ordering.total'', S_registration, M_halt,
         Binary Op_and (Call ''exists'' [Identifier [''ordering'', ''index'']])
           (Binary Op_gte (Identifier [''ordering'', ''index'']) (Literal (Lit_num 0)))),
      (''ordering.monotonic'', S_registration, M_reject,
         Binary Op_gt (Identifier [''ordering'', ''index'']) (Call ''registry.max_order_index'' [])),
      (''ordering.deterministic'', S_registration, M_halt,
         Binary Op_eq (Identifier [''ordering'', ''index''])
           (Call ''registry.compute_order_index'' [Identifier [''transition'']])),
      (''ordering.non_semantic'', S_registration, M_halt, Literal (Lit_bool True))]"

definition rule_of :: "compiled_invariant \<Rightarrow> string \<times> inv_scope \<times> failure_mode \<times> ast" where
  "rule_of c = (ci_id c, ci_scope c, ci_failure_mode c, ci_ast c)"

definition core_registry :: compiled_registry where
  "core_registry = (case loadInvariantRegistry registry_json of
     Inr r \<Rightarrow> r
   | Inl _ \<Rightarrow> \<lparr>cr_version = [], cr_registry_id = [], cr_status = JUndef, cr_invariants = []\<rparr>)"

lemma shipped_registry_rules:
  "case loadInvariantRegistry registry_json of
     Inr r \<Rightarrow> map rule_of (cr_invariants r) = core_rules | Inl _ \<Rightarrow> False"
  by code_simp

lemma core_registry_loads: "loadInvariantRegistry registry_json = Inr core_registry"
  using shipped_registry_rules by (simp add: core_registry_def split: sum.splits)

lemma core_registry_rules: "map rule_of (cr_invariants core_registry) = core_rules"
  using shipped_registry_rules by (simp add: core_registry_loads)

text \<open>The registry of the repository loads, and its eleven expressions parse to the rules of
  the constitution, with their scopes and failure modes.\<close>

theorem shipped_registry_loads:
  "loadInvariantRegistry registry_json = Inr core_registry \<and>
   map rule_of (cr_invariants core_registry) = core_rules"
  by (simp add: core_registry_loads core_registry_rules)

theorem loaded_registry_is_safe_witness:
  "distinct (map ci_id (cr_invariants core_registry)) \<and> length (cr_invariants core_registry) = 11"
proof (rule conjI)
  show "distinct (map ci_id (cr_invariants core_registry))"
    using loaded_registry_is_safe[OF core_registry_loads] by (elim conjE)
  show "length (cr_invariants core_registry) = 11"
    using arg_cong[OF core_registry_rules, of length] by (simp add: core_rules_def)
qed

end
