(* ===== verification/Invariants.thy ===== *)
theory Invariants
  imports Constitution
begin

section \<open>States, transitions and the invariants written in TypeScript\<close>

text \<open>
  Model of \<^verbatim>\<open>packages/registrum/src/types.ts\<close>,
  \<^verbatim>\<open>packages/registrum/src/invariants.ts\<close> (the legacy witness) and
  \<^verbatim>\<open>packages/registrum/src/violation-detail.ts\<close>. Identifiers are strings and a
  parent is a string or null, as the types say; the dash of one message (U+2014) is written as a
  hyphen, because strings are 8-bit here.
\<close>

record reg_state =
  st_id :: string
  st_structure :: js_object
  st_data :: jsval

record transition =
  tr_from :: "string option"
  tr_to :: reg_state
  tr_metadata :: "jsval option"

datatype invariant_input =
    In_state reg_state
  | In_transition transition
  | In_registration transition "string list" int

record legacy_invariant =
  li_id :: string
  li_scope :: inv_scope
  li_appliesTo :: "string list"
  li_failureMode :: failure_mode
  li_description :: string
  li_predicate :: "invariant_input \<Rightarrow> bool"

subsection \<open>The eleven predicates\<close>

definition getState :: "invariant_input \<Rightarrow> reg_state" where
  "getState input =
     (case input of In_state s \<Rightarrow> s | In_transition t \<Rightarrow> tr_to t | In_registration t ids n \<Rightarrow> tr_to t)"

definition getTransition :: "invariant_input \<Rightarrow> transition option" where
  "getTransition input =
     (case input of In_state s \<Rightarrow> None | In_transition t \<Rightarrow> Some t | In_registration t ids n \<Rightarrow> Some t)"

definition isRootState :: "reg_state \<Rightarrow> bool" where
  "isRootState s = js_identical (js_property (object_value (st_structure s)) ''isRoot'') (JBool True)"

definition identityImmutableInvariant :: legacy_invariant where
  "identityImmutableInvariant = \<lparr>
     li_id = ''state.identity.immutable'', li_scope = S_transition, li_appliesTo = [''id''],
     li_failureMode = M_reject,
     li_description = ''A registered State's identity must be immutable. A Transition may not alter the identity of an existing State.'',
     li_predicate = (\<lambda>input. case getTransition input of None \<Rightarrow> True
       | Some t \<Rightarrow> (case tr_from t of None \<Rightarrow> True | Some p \<Rightarrow> st_id (tr_to t) = p))\<rparr>"

definition identityExplicitInvariant :: legacy_invariant where
  "identityExplicitInvariant = \<lparr>
     li_id = ''state.identity.explicit'', li_scope = S_state, li_appliesTo = [''id''],
     li_failureMode = M_reject,
     li_description = ''Every State must declare an explicit identity.'',
     li_predicate = (\<lambda>input. length (st_id (getState input)) > 0)\<rparr>"

definition identityUniqueInvariant :: legacy_invariant where
  "identityUniqueInvariant = \<lparr>
     li_id = ''state.identity.unique'', li_scope = S_registration, li_appliesTo = [''id''],
     li_failureMode = M_halt,
     li_description = ''No two registered States may share the same identity.'',
     li_predicate = (\<lambda>input. case input of
         In_registration t ids n \<Rightarrow> (case tr_from t of None \<Rightarrow> st_id (tr_to t) \<notin> set ids | Some p \<Rightarrow> True)
       | _ \<Rightarrow> True)\<rparr>"

definition lineageExplicitInvariant :: legacy_invariant where
  "lineageExplicitInvariant = \<lparr>
     li_id = ''state.lineage.explicit'', li_scope = S_transition, li_appliesTo = [''from'', ''structure.isRoot''],
     li_failureMode = M_reject,
     li_description = ''Every Transition must explicitly declare its parent State, except for root States. Root states (from === null) MUST have isRoot === true. Non-root states (from !== null) MUST NOT have isRoot === true.'',
     li_predicate = (\<lambda>input. case getTransition input of None \<Rightarrow> True
       | Some t \<Rightarrow>
           let isRoot = isRootState (tr_to t); hasParent = (tr_from t \<noteq> None)
           in if \<not> hasParent \<and> \<not> isRoot then False
              else if hasParent \<and> isRoot then False
              else True)\<rparr>"

definition lineageParentExistsInvariant :: legacy_invariant where
  "lineageParentExistsInvariant = \<lparr>
     li_id = ''state.lineage.parent_exists'', li_scope = S_registration, li_appliesTo = [''from''],
     li_failureMode = M_reject,
     li_description = ''A Transition's parent State must exist and be registered.'',
     li_predicate = (\<lambda>input. case input of
         In_registration t ids n \<Rightarrow> (case tr_from t of None \<Rightarrow> True | Some p \<Rightarrow> p \<in> set ids)
       | _ \<Rightarrow> True)\<rparr>"

definition lineageSingleParentInvariant :: legacy_invariant where
  "lineageSingleParentInvariant = \<lparr>
     li_id = ''state.lineage.single_parent'', li_scope = S_transition, li_appliesTo = [''from''],
     li_failureMode = M_reject,
     li_description = ''A Transition may reference only one parent State.'',
     li_predicate = (\<lambda>input. case getTransition input of None \<Rightarrow> True
       | Some t \<Rightarrow> tr_from t = None \<or> js_typeof (nullable_string (tr_from t)) = TypeString)\<rparr>"

definition lineageContinuousInvariant :: legacy_invariant where
  "lineageContinuousInvariant = \<lparr>
     li_id = ''state.lineage.continuous'', li_scope = S_registration, li_appliesTo = [''from'', ''id''],
     li_failureMode = M_halt,
     li_description = ''Every accepted Transition must extend an unbroken lineage chain.'',
     li_predicate = (\<lambda>input. case input of
         In_registration t ids n \<Rightarrow> (case tr_from t of None \<Rightarrow> True | Some p \<Rightarrow> p \<in> set ids)
       | _ \<Rightarrow> True)\<rparr>"

definition orderingTotalInvariant :: legacy_invariant where
  "orderingTotalInvariant = \<lparr>
     li_id = ''ordering.total'', li_scope = S_registration, li_appliesTo = [''orderIndex''],
     li_failureMode = M_halt,
     li_description = ''All accepted Transitions must be totally ordered.'',
     li_predicate = (\<lambda>input. case input of In_registration t ids n \<Rightarrow> n \<ge> 0 | _ \<Rightarrow> True)\<rparr>"

definition orderingDeterministicInvariant :: legacy_invariant where
  "orderingDeterministicInvariant = \<lparr>
     li_id = ''ordering.deterministic'', li_scope = S_registration, li_appliesTo = [''orderIndex''],
     li_failureMode = M_halt,
     li_description = ''Ordering must be deterministic given identical inputs.'',
     li_predicate = (\<lambda>_. True)\<rparr>"

definition orderingMonotonicInvariant :: legacy_invariant where
  "orderingMonotonicInvariant = \<lparr>
     li_id = ''ordering.monotonic'', li_scope = S_registration, li_appliesTo = [''orderIndex''],
     li_failureMode = M_reject,
     li_description = ''Order indices must increase monotonically.'',
     li_predicate = (\<lambda>input. case input of In_registration t ids n \<Rightarrow> n \<ge> 0 | _ \<Rightarrow> True)\<rparr>"

definition orderingNonSemanticInvariant :: legacy_invariant where
  "orderingNonSemanticInvariant = \<lparr>
     li_id = ''ordering.non_semantic'', li_scope = S_registration, li_appliesTo = [''orderIndex''],
     li_failureMode = M_halt,
     li_description = ''Ordering must not depend on State content or meaning.'',
     li_predicate = (\<lambda>_. True)\<rparr>"

definition INITIAL_INVARIANTS :: "legacy_invariant list" where
  "INITIAL_INVARIANTS =
     [identityImmutableInvariant, identityExplicitInvariant, identityUniqueInvariant,
      lineageExplicitInvariant, lineageParentExistsInvariant, lineageSingleParentInvariant,
      lineageContinuousInvariant, orderingTotalInvariant, orderingDeterministicInvariant,
      orderingMonotonicInvariant, orderingNonSemanticInvariant]"

definition getInvariantsByScope :: "inv_scope \<Rightarrow> legacy_invariant list" where
  "getInvariantsByScope s = filter (\<lambda>i. li_scope i = s) INITIAL_INVARIANTS"

definition getInvariantById :: "string \<Rightarrow> legacy_invariant option" where
  "getInvariantById i = find (\<lambda>x. li_id x = i) INITIAL_INVARIANTS"

subsection \<open>Violations\<close>

datatype classification = C_REJECT | C_HALT

record violation_details =
  vd_field :: string
  vd_expected :: jsval
  vd_actual :: jsval

record invariant_violation =
  iv_invariantId :: string
  iv_classification :: classification
  iv_message :: string
  iv_details :: "violation_details option"

text \<open>Operands an enricher may know; a field that a scope does not know is \<open>None\<close>.\<close>

record violation_operands =
  vo_from :: "string option option"
  vo_toId :: "string option"
  vo_isRoot :: "bool option"
  vo_parentRegistered :: "bool option"
  vo_idAlreadyRegistered :: "bool option"
  vo_orderIndex :: "int option"

definition js_String :: "string option \<Rightarrow> string" where
  "js_String x = (case x of None \<Rightarrow> ''null'' | Some s \<Rightarrow> s)"

definition quoted :: "string \<Rightarrow> string" where
  "quoted s = CHR 0x27 # s @ [CHR 0x27]"

definition describeValue :: "string option \<Rightarrow> string" where
  "describeValue x = (case x of None \<Rightarrow> ''undefined'' | Some s \<Rightarrow> quoted s)"

definition details_of :: "string \<Rightarrow> jsval \<Rightarrow> jsval \<Rightarrow> violation_details option" where
  "details_of f expected actual = Some \<lparr>vd_field = f, vd_expected = expected, vd_actual = actual\<rparr>"

definition enrichViolation ::
  "string \<Rightarrow> string \<Rightarrow> violation_operands \<Rightarrow> string \<times> violation_details option" where
  "enrichViolation invariantId description ops =
     (let fallback = (''Invariant violation: '' @ description, None) in
      if invariantId = ''state.identity.immutable'' then
        (case (vo_toId ops, vo_from ops) of
           (Some toId, Some from) \<Rightarrow>
             (''state.identity.immutable: to.id '' @ quoted toId @ '' must equal from '' @ quoted (js_String from),
              details_of ''to.id'' (nullable_string from) (JStr toId))
         | _ \<Rightarrow> fallback)
      else if invariantId = ''state.identity.explicit'' then
        (''state.identity.explicit: id must be a non-empty string, got '' @ describeValue (vo_toId ops),
         details_of ''id'' (JStr ''non-empty string'')
           (case vo_toId ops of None \<Rightarrow> JUndef | Some s \<Rightarrow> JStr s))
      else if invariantId = ''state.identity.unique'' then
        (case vo_toId ops of
           None \<Rightarrow> fallback
         | Some toId \<Rightarrow>
             (''state.identity.unique: id '' @ quoted toId @ '' is already registered'',
              details_of ''to.id'' (JStr ''unregistered id'') (JStr toId)))
      else if invariantId = ''state.lineage.explicit'' then
        (case (vo_from ops, vo_isRoot ops) of
           (Some from, Some isRoot) \<Rightarrow>
             (''state.lineage.explicit: '' @
                (case from of
                   Some p \<Rightarrow> ''non-root transition (from '' @ quoted p @ '') must not declare isRoot=true''
                 | None \<Rightarrow> ''root transition (from=null) must declare isRoot=true''),
              details_of ''structure.isRoot'' (JBool (from = None)) (JBool isRoot))
         | _ \<Rightarrow> fallback)
      else if invariantId = ''state.lineage.parent_exists'' then
        (case vo_from ops of
           Some (Some p) \<Rightarrow>
             (''state.lineage.parent_exists: parent '' @ quoted p @ '' is not registered'',
              details_of ''from'' (JStr ''registered parent id'') (JStr p))
         | _ \<Rightarrow> fallback)
      else if invariantId = ''state.lineage.continuous'' then
        (case vo_from ops of
           Some (Some p) \<Rightarrow>
             (''state.lineage.continuous: lineage broken - parent '' @ quoted p @ '' is not registered'',
              details_of ''from'' (JStr ''registered parent id (unbroken lineage)'') (JStr p))
         | _ \<Rightarrow> fallback)
      else if invariantId = ''ordering.monotonic'' \<or> invariantId = ''ordering.total'' then
        (case vo_orderIndex ops of
           None \<Rightarrow> fallback
         | Some i \<Rightarrow>
             (invariantId @ '': order index '' @ int_str i @ '' is not a valid monotonic index'',
              details_of ''orderIndex'' (JStr ''>= 0'') (JNum i)))
      else fallback)"

definition makeViolation ::
  "string \<Rightarrow> string \<Rightarrow> classification \<Rightarrow> violation_operands \<Rightarrow> invariant_violation" where
  "makeViolation invariantId description c ops =
     (case enrichViolation invariantId description ops of
        (message, details) \<Rightarrow>
          \<lparr>iv_invariantId = invariantId, iv_classification = c, iv_message = message,
           iv_details = details\<rparr>)"

lemma makeViolation_simps [simp]:
  "iv_invariantId (makeViolation i d c ops) = i" "iv_classification (makeViolation i d c ops) = c"
  by (simp_all add: makeViolation_def split: prod.split)

lemma isRootState_simp:
  "isRootState s \<longleftrightarrow> js_property (object_value (st_structure s)) ''isRoot'' = JBool True"
  by (cases "js_property (object_value (st_structure s)) ''isRoot''")
    (simp_all add: isRootState_def js_identical_def)

end
