(* ===== verification/Registrar.thy ===== *)
theory Registrar
  imports Invariants
begin

section \<open>The structural registrar\<close>

text \<open>
  Model of \<^verbatim>\<open>packages/registrum/src/structural-registrar.ts\<close>: the append-only history of
  versions, the frontier of latest versions, and registration and validation under one engine (the
  legacy predicates or the compiled registry) or under both with a halt on divergence.

  An engine gives a judgement of each invariant (passed or not), and the rest of the evaluation is
  shared, as \<^verbatim>\<open>buildRegistrationOutcome\<close> is in the source. A method that mutates returns
  its result and the registrar after it, also when it throws. Telemetry is left out. The snapshot
  methods are in theory \<open>Persistence\<close>.
\<close>

datatype registrar_mode = RM_legacy | RM_registry | RM_dual

datatype parity_status = AGREED | HALTED

datatype verdict_kind = V_accepted | V_rejected | V_halted

record normalized_verdict =
  nv_kind :: verdict_kind
  nv_invariantIds :: "string list"

record registered_state =
  rs_id :: string
  rs_parentId :: "string option"
  rs_orderIndex :: int
  rs_versionKey :: string
  rs_parentKey :: "string option"

record registrar =
  rr_versionsByKey :: "(string, registered_state) jsmap"
  rr_latestById :: "(string, registered_state) jsmap"
  rr_currentOrderIndex :: int
  rr_mode :: registrar_mode
  rr_invariants :: "legacy_invariant list"
  rr_compiledRegistry :: "compiled_registry option"
  rr_lastParityStatus :: "parity_status option"

datatype registration_result =
    Accepted string int "string list"
  | Rejected "invariant_violation list"

record validation_report =
  vr_valid :: bool
  vr_violations :: "invariant_violation list"

record invariant_descriptor =
  id_id :: string
  id_scope :: inv_scope
  id_appliesTo :: "jsval list"
  id_failureMode :: failure_mode
  id_description :: string

definition makeVersionKey :: "string \<Rightarrow> int \<Rightarrow> string" where
  "makeVersionKey i n = i @ CHR ''#'' # int_str n"

definition new_registrar ::
  "registrar_mode option \<Rightarrow> legacy_invariant list option \<Rightarrow> compiled_registry option \<Rightarrow> registrum_error + registrar" where
  "new_registrar mode invariants registry =
     (let m = (case mode of None \<Rightarrow> RM_registry | Some m \<Rightarrow> m) in
      if m = RM_registry \<and> registry = None then Inl ConfigError
      else if m = RM_dual \<and> registry = None then Inl ConfigError
      else Inr \<lparr>rr_versionsByKey = [], rr_latestById = [], rr_currentOrderIndex = 0, rr_mode = m,
        rr_invariants = (case invariants of None \<Rightarrow> INITIAL_INVARIANTS | Some is \<Rightarrow> is),
        rr_compiledRegistry = registry, rr_lastParityStatus = None\<rparr>)"

definition dualWitness ::
  "compiled_registry \<Rightarrow> legacy_invariant list option \<Rightarrow> registrum_error + registrar" where
  "dualWitness registry invariants =
     new_registrar (Some RM_dual)
       (Some (case invariants of None \<Rightarrow> INITIAL_INVARIANTS | Some is \<Rightarrow> is)) (Some registry)"

subsection \<open>Judgements of the two engines\<close>

record judgement =
  jd_id :: string
  jd_description :: string
  jd_failureMode :: failure_mode
  jd_passed :: bool

definition legacy_input :: "inv_scope \<Rightarrow> transition \<Rightarrow> registrar \<Rightarrow> invariant_input" where
  "legacy_input scp t r =
     (case scp of
        S_state \<Rightarrow> In_state (tr_to t)
      | S_transition \<Rightarrow> In_transition t
      | S_registration \<Rightarrow> In_registration t (jm_keys (rr_latestById r)) (rr_currentOrderIndex r))"

definition judge_legacy :: "registrar \<Rightarrow> transition \<Rightarrow> registrum_error + judgement list" where
  "judge_legacy r t =
     Inr (map (\<lambda>i. \<lparr>jd_id = li_id i, jd_description = li_description i,
                     jd_failureMode = li_failureMode i,
                     jd_passed = li_predicate i (legacy_input (li_scope i) t r)\<rparr>)
            (rr_invariants r))"

definition buildEvaluationContext :: "registrar \<Rightarrow> transition \<Rightarrow> eval_context" where
  "buildEvaluationContext r t =
     \<lparr>cx_state_id = st_id (tr_to t), cx_state_structure = st_structure (tr_to t),
      cx_from = tr_from t, cx_to_id = st_id (tr_to t), cx_to_structure = st_structure (tr_to t),
      cx_contains_state = (\<lambda>i. case i of None \<Rightarrow> False | Some s \<Rightarrow> jm_has (rr_latestById r) s),
      cx_max_order_index = rr_currentOrderIndex r - 1,
      cx_compute_order_index = (\<lambda>_. rr_currentOrderIndex r),
      cx_ordering = Some (rr_currentOrderIndex r)\<rparr>"

fun judge_rules ::
  "eval_context \<Rightarrow> compiled_invariant list \<Rightarrow> registrum_error + judgement list" where
  "judge_rules cx [] = Inr []"
| "judge_rules cx (c # cs) =
     bind_r (evaluatePredicate (ci_ast c) cx) (\<lambda>b.
     bind_r (judge_rules cx cs) (\<lambda>js.
     Inr (\<lparr>jd_id = ci_id c, jd_description = ci_description c,
           jd_failureMode = ci_failure_mode c, jd_passed = b\<rparr> # js)))"

definition registry_rules :: "registrar \<Rightarrow> registrum_error + compiled_invariant list" where
  "registry_rules r =
     (case rr_compiledRegistry r of None \<Rightarrow> Inl JsTypeError | Some c \<Rightarrow> Inr (cr_invariants c))"

definition judge_registry :: "registrar \<Rightarrow> transition \<Rightarrow> registrum_error + judgement list" where
  "judge_registry r t =
     bind_r (registry_rules r) (\<lambda>cs. judge_rules (buildEvaluationContext r t) cs)"

subsection \<open>Outcomes\<close>

definition classification_of :: "failure_mode \<Rightarrow> classification" where
  "classification_of m = (if m = M_halt then C_HALT else C_REJECT)"

definition registrationOperands :: "registrar \<Rightarrow> transition \<Rightarrow> violation_operands" where
  "registrationOperands r t =
     \<lparr>vo_from = Some (tr_from t), vo_toId = Some (st_id (tr_to t)),
      vo_isRoot = Some (isRootState (tr_to t)),
      vo_parentRegistered = Some (case tr_from t of None \<Rightarrow> False | Some p \<Rightarrow> jm_has (rr_latestById r) p),
      vo_idAlreadyRegistered = Some (jm_has (rr_latestById r) (st_id (tr_to t))),
      vo_orderIndex = Some (rr_currentOrderIndex r)\<rparr>"

definition violations_of :: "violation_operands \<Rightarrow> judgement list \<Rightarrow> invariant_violation list" where
  "violations_of ops js =
     map (\<lambda>j. makeViolation (jd_id j) (jd_description j) (classification_of (jd_failureMode j)) ops)
       (filter (\<lambda>j. \<not> jd_passed j) js)"

definition should_halt :: "judgement list \<Rightarrow> bool" where
  "should_halt js \<longleftrightarrow> (\<exists>j \<in> set js. \<not> jd_passed j \<and> jd_failureMode j = M_halt)"

definition mark_halts :: "invariant_violation list \<Rightarrow> invariant_violation list" where
  "mark_halts vs =
     map (\<lambda>v. if iv_classification v = C_HALT then v\<lparr>iv_message := ''[HALT] '' @ iv_message v\<rparr> else v) vs"

record registration_outcome =
  ro_verdict :: normalized_verdict
  ro_result :: registration_result
  ro_applied :: "string list"

definition buildRegistrationOutcome ::
  "registrar \<Rightarrow> transition \<Rightarrow> judgement list \<Rightarrow> registration_outcome" where
  "buildRegistrationOutcome r t js =
     (let violations = violations_of (registrationOperands r t) js; applied = map jd_id js in
      if violations \<noteq> [] then
        \<lparr>ro_verdict = \<lparr>nv_kind = (if should_halt js then V_halted else V_rejected),
           nv_invariantIds = sort (map iv_invariantId violations)\<rparr>,
         ro_result = Rejected (if should_halt js then mark_halts violations else violations),
         ro_applied = applied\<rparr>
      else
        \<lparr>ro_verdict = \<lparr>nv_kind = V_accepted, nv_invariantIds = []\<rparr>,
         ro_result = Accepted (st_id (tr_to t)) (rr_currentOrderIndex r) applied,
         ro_applied = applied\<rparr>)"

definition evaluateLegacyRegistration :: "registrar \<Rightarrow> transition \<Rightarrow> registrum_error + registration_outcome" where
  "evaluateLegacyRegistration r t =
     bind_r (judge_legacy r t) (\<lambda>js. Inr (buildRegistrationOutcome r t js))"

definition evaluateRegistryRegistration :: "registrar \<Rightarrow> transition \<Rightarrow> registrum_error + registration_outcome" where
  "evaluateRegistryRegistration r t =
     bind_r (judge_registry r t) (\<lambda>js. Inr (buildRegistrationOutcome r t js))"

subsection \<open>Registration\<close>

definition acceptTransition ::
  "registrar \<Rightarrow> transition \<Rightarrow> string list \<Rightarrow> (registrum_error + registration_result) \<times> registrar" where
  "acceptTransition r t applied =
     (let orderIndex = rr_currentOrderIndex r;
          r1 = r\<lparr>rr_currentOrderIndex := orderIndex + 1\<rparr>;
          i = st_id (tr_to t);
          versionKey = makeVersionKey i orderIndex;
          parentKey = (case tr_from t of
              None \<Rightarrow> None
            | Some p \<Rightarrow> (case jm_get (rr_latestById r1) p of
                None \<Rightarrow> None | Some parent \<Rightarrow> Some (rs_versionKey parent)));
          entry = \<lparr>rs_id = i, rs_parentId = tr_from t, rs_orderIndex = orderIndex,
            rs_versionKey = versionKey, rs_parentKey = parentKey\<rparr> in
      if jm_has (rr_versionsByKey r1) versionKey then (Inl AppendOnlyViolationError, r1)
      else (Inr (Accepted i orderIndex applied),
            r1\<lparr>rr_versionsByKey := jm_set (rr_versionsByKey r1) versionKey entry,
               rr_latestById := jm_set (rr_latestById r1) i entry\<rparr>))"

definition finish_registration ::
  "registrar \<Rightarrow> transition \<Rightarrow> registration_outcome \<Rightarrow> (registrum_error + registration_result) \<times> registrar" where
  "finish_registration r t out =
     (if nv_kind (ro_verdict out) = V_accepted then acceptTransition r t (ro_applied out)
      else (Inr (ro_result out), r))"

definition registerWithLegacy ::
  "registrar \<Rightarrow> transition \<Rightarrow> (registrum_error + registration_result) \<times> registrar" where
  "registerWithLegacy r t =
     (case evaluateLegacyRegistration r t of
        Inl e \<Rightarrow> (Inl e, r) | Inr out \<Rightarrow> finish_registration r t out)"

definition registerWithRegistry ::
  "registrar \<Rightarrow> transition \<Rightarrow> (registrum_error + registration_result) \<times> registrar" where
  "registerWithRegistry r t =
     (case evaluateRegistryRegistration r t of
        Inl e \<Rightarrow> (Inl e, r) | Inr out \<Rightarrow> finish_registration r t out)"

definition assertParity ::
  "registrar \<Rightarrow> normalized_verdict \<Rightarrow> normalized_verdict \<Rightarrow> (registrum_error + unit) \<times> registrar" where
  "assertParity r registry legacy =
     (if nv_kind registry \<noteq> nv_kind legacy \<or> nv_invariantIds registry \<noteq> nv_invariantIds legacy
      then (Inl ParityViolationError, r\<lparr>rr_lastParityStatus := Some HALTED\<rparr>)
      else (Inr (), r))"

definition registerWithDualWitness ::
  "registrar \<Rightarrow> transition \<Rightarrow> (registrum_error + registration_result) \<times> registrar" where
  "registerWithDualWitness r t =
     (case evaluateRegistryRegistration r t of
        Inl e \<Rightarrow> (Inl e, r)
      | Inr registry \<Rightarrow>
          (case evaluateLegacyRegistration r t of
             Inl e \<Rightarrow> (Inl e, r)
           | Inr legacy \<Rightarrow>
               (case assertParity r (ro_verdict registry) (ro_verdict legacy) of
                  (Inl e, r1) \<Rightarrow> (Inl e, r1)
                | (Inr _, r1) \<Rightarrow>
                    finish_registration (r1\<lparr>rr_lastParityStatus := Some AGREED\<rparr>) t registry)))"

definition register ::
  "registrar \<Rightarrow> transition \<Rightarrow> (registrum_error + registration_result) \<times> registrar" where
  "register r t =
     (case rr_mode r of
        RM_dual \<Rightarrow> registerWithDualWitness r t
      | RM_registry \<Rightarrow> registerWithRegistry r t
      | RM_legacy \<Rightarrow> registerWithLegacy r t)"

subsection \<open>Validation without registering\<close>

datatype validation_target = Target_state reg_state | Target_transition transition

definition target_state :: "validation_target \<Rightarrow> reg_state" where
  "target_state x = (case x of Target_state s \<Rightarrow> s | Target_transition t \<Rightarrow> tr_to t)"

definition target_operands :: "validation_target \<Rightarrow> violation_operands" where
  "target_operands x =
     \<lparr>vo_from = (case x of Target_state s \<Rightarrow> None | Target_transition t \<Rightarrow> Some (tr_from t)),
      vo_toId = Some (st_id (target_state x)), vo_isRoot = Some (isRootState (target_state x)),
      vo_parentRegistered = None, vo_idAlreadyRegistered = None, vo_orderIndex = None\<rparr>"

text \<open>The invariants that apply: those of scope state, and of scope transition to a transition.\<close>

definition applicable :: "validation_target \<Rightarrow> inv_scope \<Rightarrow> bool" where
  "applicable x scp \<longleftrightarrow>
     (case x of Target_state s \<Rightarrow> scp = S_state
      | Target_transition t \<Rightarrow> scp = S_state \<or> scp = S_transition)"

definition target_input :: "validation_target \<Rightarrow> inv_scope \<Rightarrow> invariant_input" where
  "target_input x scp =
     (case x of Target_state s \<Rightarrow> In_state s
      | Target_transition t \<Rightarrow> if scp = S_state then In_state (tr_to t) else In_transition t)"

definition validation_context :: "registrar \<Rightarrow> validation_target \<Rightarrow> eval_context" where
  "validation_context r x =
     (let s = target_state x in
      \<lparr>cx_state_id = st_id s, cx_state_structure = st_structure s,
       cx_from = (case x of Target_state _ \<Rightarrow> None | Target_transition t \<Rightarrow> tr_from t),
       cx_to_id = st_id s, cx_to_structure = st_structure s,
       cx_contains_state = (\<lambda>i. case i of None \<Rightarrow> False | Some k \<Rightarrow> jm_has (rr_latestById r) k),
       cx_max_order_index = rr_currentOrderIndex r - 1,
       cx_compute_order_index = (\<lambda>_. rr_currentOrderIndex r),
       cx_ordering = None\<rparr>)"

definition report_of :: "validation_target \<Rightarrow> judgement list \<Rightarrow> validation_report" where
  "report_of x js =
     (let vs = violations_of (target_operands x) js in \<lparr>vr_valid = (vs = []), vr_violations = vs\<rparr>)"

definition validateWithLegacy :: "registrar \<Rightarrow> validation_target \<Rightarrow> registrum_error + validation_report" where
  "validateWithLegacy r x =
     Inr (report_of x
       (map (\<lambda>i. \<lparr>jd_id = li_id i, jd_description = li_description i,
                     jd_failureMode = li_failureMode i,
                     jd_passed = li_predicate i (target_input x (li_scope i))\<rparr>)
         (filter (\<lambda>i. applicable x (li_scope i)) (rr_invariants r))))"

definition validateWithRegistry :: "registrar \<Rightarrow> validation_target \<Rightarrow> registrum_error + validation_report" where
  "validateWithRegistry r x =
     bind_r (registry_rules r) (\<lambda>cs.
     bind_r (judge_rules (validation_context r x) (filter (\<lambda>c. applicable x (ci_scope c)) cs)) (\<lambda>js.
     Inr (report_of x js)))"

definition report_verdict :: "validation_report \<Rightarrow> normalized_verdict" where
  "report_verdict rep =
     \<lparr>nv_kind = (if vr_valid rep then V_accepted else V_rejected),
      nv_invariantIds = sort (map iv_invariantId (vr_violations rep))\<rparr>"

definition validateWithDualWitness ::
  "registrar \<Rightarrow> validation_target \<Rightarrow> (registrum_error + validation_report) \<times> registrar" where
  "validateWithDualWitness r x =
     (case validateWithRegistry r x of
        Inl e \<Rightarrow> (Inl e, r)
      | Inr registryReport \<Rightarrow>
          (case validateWithLegacy r x of
             Inl e \<Rightarrow> (Inl e, r)
           | Inr legacyReport \<Rightarrow>
               (case assertParity r (report_verdict registryReport) (report_verdict legacyReport) of
                  (Inl e, r1) \<Rightarrow> (Inl e, r1)
                | (Inr _, r1) \<Rightarrow> (Inr registryReport, r1\<lparr>rr_lastParityStatus := Some AGREED\<rparr>))))"

definition validate_target ::
  "registrar \<Rightarrow> validation_target \<Rightarrow> (registrum_error + validation_report) \<times> registrar" where
  "validate_target r x =
     (case rr_mode r of
        RM_dual \<Rightarrow> validateWithDualWitness r x
      | RM_registry \<Rightarrow> (validateWithRegistry r x, r)
      | RM_legacy \<Rightarrow> (validateWithLegacy r x, r))"

subsection \<open>Inspection\<close>

definition scope_filter :: "inv_scope option \<Rightarrow> inv_scope \<Rightarrow> bool" where
  "scope_filter scp x \<longleftrightarrow> (case scp of None \<Rightarrow> True | Some s \<Rightarrow> x = s)"

definition listInvariants :: "registrar \<Rightarrow> inv_scope option \<Rightarrow> registrum_error + invariant_descriptor list" where
  "listInvariants r scp =
     (if rr_mode r = RM_registry then
        bind_r (registry_rules r) (\<lambda>cs.
          Inr (map (\<lambda>c. \<lparr>id_id = ci_id c, id_scope = ci_scope c, id_appliesTo = ci_applies_to c,
                       id_failureMode = ci_failure_mode c, id_description = ci_description c\<rparr>)
            (filter (\<lambda>c. scope_filter scp (ci_scope c)) cs)))
      else
        Inr (map (\<lambda>i. \<lparr>id_id = li_id i, id_scope = li_scope i, id_appliesTo = map JStr (li_appliesTo i),
                     id_failureMode = li_failureMode i, id_description = li_description i\<rparr>)
          (filter (\<lambda>i. scope_filter scp (li_scope i)) (rr_invariants r))))"

text \<open>
  The walk of \<^verbatim>\<open>getLineage\<close> from a version to its ancestors; it stops at a version it has
  seen, so it also ends on a corrupt history.
\<close>

definition unvisited :: "(string, registered_state) jsmap \<Rightarrow> string set \<Rightarrow> registered_state \<Rightarrow> nat" where
  "unvisited versions visited current =
     card (rs_versionKey ` set (jm_values versions) - visited) +
     (if rs_versionKey current \<in> rs_versionKey ` set (jm_values versions) then 0 else 1)"

lemma unvisited_step:
  assumes "rs_versionKey current \<notin> visited" "jm_get versions k = Some next"
  shows "unvisited versions (insert (rs_versionKey current) visited) next < unvisited versions visited current"
proof -
  let ?V = "rs_versionKey ` set (jm_values versions)"
  have "next \<in> set (jm_values versions)" using assms(2) by (rule jm_get_value)
  then have "rs_versionKey next \<in> ?V" by blast
  moreover have "card (?V - insert (rs_versionKey current) visited) < card (?V - visited)"
    if "rs_versionKey current \<in> ?V"
    using that assms(1) by (intro psubset_card_mono) auto
  moreover have "card (?V - insert (rs_versionKey current) visited) \<le> card (?V - visited)"
    by (intro card_mono) auto
  ultimately show ?thesis by (auto simp: unvisited_def)
qed

function lineage_walk ::
  "(string, registered_state) jsmap \<Rightarrow> string set \<Rightarrow> registered_state \<Rightarrow> string list" where
  "lineage_walk versions visited current =
     (if rs_versionKey current \<in> visited then []
      else rs_id current #
        (case rs_parentKey current of
           None \<Rightarrow> []
         | Some k \<Rightarrow>
             (case jm_get versions k of
                None \<Rightarrow> []
              | Some parent \<Rightarrow> lineage_walk versions (insert (rs_versionKey current) visited) parent)))"
  by pat_completeness auto

termination lineage_walk
  by (relation "measure (\<lambda>(versions, visited, current). unvisited versions visited current)")
    (auto simp: unvisited_step)

declare lineage_walk.simps [simp del]

definition getLineage :: "registrar \<Rightarrow> string \<Rightarrow> string list" where
  "getLineage r stateId =
     (case jm_get (rr_latestById r) stateId of
        None \<Rightarrow> [] | Some current \<Rightarrow> lineage_walk (rr_versionsByKey r) {} current)"

definition getRegisteredCount :: "registrar \<Rightarrow> nat" where
  "getRegisteredCount r = length (rr_latestById r)"

definition getVersionCount :: "registrar \<Rightarrow> nat" where
  "getVersionCount r = length (rr_versionsByKey r)"

definition isRegistered :: "registrar \<Rightarrow> string \<Rightarrow> bool" where
  "isRegistered r stateId = jm_has (rr_latestById r) stateId"


subsection \<open>The judgements of the shipped constitution\<close>

text \<open>Verdicts depend on id, failure mode and passing of the judgements only, and not on their order.\<close>

definition ruling :: "judgement \<Rightarrow> string \<times> failure_mode \<times> bool" where
  "ruling j = (jd_id j, jd_failureMode j, jd_passed j)"

definition failed_ids :: "(string \<times> failure_mode \<times> bool) list \<Rightarrow> string list" where
  "failed_ids xs = map fst (filter (\<lambda>(i, m, p). \<not> p) xs)"

definition rulings_verdict :: "(string \<times> failure_mode \<times> bool) list \<Rightarrow> normalized_verdict" where
  "rulings_verdict xs =
     (if failed_ids xs = [] then \<lparr>nv_kind = V_accepted, nv_invariantIds = []\<rparr>
      else \<lparr>nv_kind = (if \<exists>(i, m, p) \<in> set xs. \<not> p \<and> m = M_halt then V_halted else V_rejected),
        nv_invariantIds = sort (failed_ids xs)\<rparr>)"

lemma failed_ids_rulings: "failed_ids (map ruling js) = map jd_id (filter (\<lambda>j. \<not> jd_passed j) js)"
  by (induction js) (simp_all add: failed_ids_def ruling_def)

lemma violations_ids: "map iv_invariantId (violations_of ops js) = failed_ids (map ruling js)"
  by (simp add: violations_of_def failed_ids_rulings)

lemma violations_empty: "violations_of ops js = [] \<longleftrightarrow> failed_ids (map ruling js) = []"
  using violations_ids[of ops js] by (metis map_is_Nil_conv)

lemma should_halt_rulings: "should_halt js \<longleftrightarrow> (\<exists>(i, m, p) \<in> set (map ruling js). \<not> p \<and> m = M_halt)"
  by (auto simp: should_halt_def ruling_def)

lemma outcome_verdict: "ro_verdict (buildRegistrationOutcome r t js) = rulings_verdict (map ruling js)"
  by (simp add: Let_def buildRegistrationOutcome_def rulings_verdict_def violations_empty violations_ids
      should_halt_rulings del: set_map)

lemma rulings_verdict_mset:
  assumes "mset xs = mset ys"
  shows "rulings_verdict xs = rulings_verdict ys"
proof -
  have ids: "mset (failed_ids xs) = mset (failed_ids ys)"
    using assms by (simp add: failed_ids_def)
  moreover have "set xs = set ys" using assms by (rule mset_eq_setD)
  moreover have "sort (failed_ids xs) = sort (failed_ids ys)"
    using ids by (metis properties_for_sort mset_sort sorted_sort)
  moreover have "failed_ids xs = [] \<longleftrightarrow> failed_ids ys = []"
    using ids by (metis mset_zero_iff)
  ultimately show ?thesis by (simp add: rulings_verdict_def)
qed

text \<open>The facts that the constitution looks at.\<close>

definition parent_ok :: "string option \<Rightarrow> (string \<Rightarrow> bool) \<Rightarrow> bool" where
  "parent_ok from registered \<longleftrightarrow> (case from of None \<Rightarrow> True | Some p \<Rightarrow> registered p)"

definition constitution_rulings ::
  "string \<Rightarrow> string option \<Rightarrow> bool \<Rightarrow> (string \<Rightarrow> bool) \<Rightarrow> int \<Rightarrow> (string \<times> failure_mode \<times> bool) list" where
  "constitution_rulings i from root_ok registered n =
     [(''state.identity.explicit'', M_reject, i \<noteq> []),
      (''state.identity.immutable'', M_reject, from = None \<or> from = Some i),
      (''state.identity.unique'', M_halt, from \<noteq> None \<or> \<not> registered i),
      (''state.lineage.explicit'', M_reject, root_ok),
      (''state.lineage.parent_exists'', M_reject, parent_ok from registered),
      (''state.lineage.single_parent'', M_reject, True),
      (''state.lineage.continuous'', M_halt, parent_ok from registered),
      (''ordering.total'', M_halt, n \<ge> 0),
      (''ordering.monotonic'', M_reject, True),
      (''ordering.deterministic'', M_halt, True),
      (''ordering.non_semantic'', M_halt, True)]"

lemma resolve_simps:
  "resolveIdentifier [''state'', ''id''] cx = Inr (JStr (cx_state_id cx))"
  "resolveIdentifier [''transition'', ''from''] cx = Inr (nullable_string (cx_from cx))"
  "resolveIdentifier [''transition'', ''to'', ''id''] cx = Inr (JStr (cx_to_id cx))"
  "resolveIdentifier [''state'', ''structure'', ''isRoot''] cx =
     Inr (js_property (object_value (cx_state_structure cx)) ''isRoot'')"
  "resolveIdentifier [''ordering'', ''index''] cx =
     Inr (case cx_ordering cx of None \<Rightarrow> JNull | Some n \<Rightarrow> JNum n)"
  "resolveIdentifier [''transition''] cx = Inr (transition_value cx)"
  by (simp_all add: resolveIdentifier_def state_value_def transition_value_def ordering_value_def
      nullish_def js_typeof_def js_property_def object_value_def split: option.split)

lemma strictEquals_simps [simp]:
  "strictEquals (JStr a) (JStr b) \<longleftrightarrow> a = b" "strictEquals (JStr a) JNull \<longleftrightarrow> False"
  "strictEquals JNull v \<longleftrightarrow> nullish v" "nullish JNull" "\<not> nullish (JStr a)" "\<not> nullish (JNum n)"
  "strictEquals (JNum m) (JNum n) \<longleftrightarrow> m = n" "strictEquals v (JBool True) \<longleftrightarrow> v = JBool True"
  by (cases v; simp add: strictEquals_def nullish_def js_typeof_def js_identical_def)+

lemmas evaluation_simps = evaluatePredicate_def resolve_simps literal_js_def toBoolean_def
  eager_binary_def compareNumbers_def evaluateCall_def js_typeof_def nullable_string_def

text \<open>The compiled rules, evaluated in the context of a registration.\<close>

definition rule_rulings :: "eval_context \<Rightarrow> (string \<times> inv_scope \<times> failure_mode \<times> ast) list \<Rightarrow>
    (string \<times> failure_mode \<times> (registrum_error + bool)) list" where
  "rule_rulings cx rules = map (\<lambda>(i, scp, m, a). (i, m, evaluatePredicate a cx)) rules"

lemma core_rule_rulings:
  assumes "cx_state_id cx = i" "cx_to_id cx = i" "cx_from cx = from" "cx_ordering cx = Some n"
    and "cx_contains_state cx = (\<lambda>x. case x of None \<Rightarrow> False | Some s \<Rightarrow> registered s)"
    and "cx_max_order_index cx = n - 1" "cx_compute_order_index cx = (\<lambda>_. n)"
    and "js_property (object_value (cx_state_structure cx)) ''isRoot'' = JBool True \<longleftrightarrow> root"
  shows "rule_rulings cx core_rules =
    map (\<lambda>(i, m, p). (i, m, Inr p)) (constitution_rulings i from (from \<noteq> None \<or> root) registered n)"
  using assms
  by (cases "from") (auto simp add: rule_rulings_def core_rules_def constitution_rulings_def parent_ok_def
      has_parent_def no_parent_def parent_registered_def evaluation_simps)


lemma judge_rules_rulings:
  "rule_rulings cx (map rule_of cs) = map (\<lambda>(i, m, p). (i, m, Inr p)) xs \<Longrightarrow>
   \<exists>js. judge_rules cx cs = Inr js \<and> map ruling js = xs"
proof (induction cs arbitrary: xs)
  case Nil
  then show ?case by (simp add: rule_rulings_def)
next
  case (Cons c cs)
  then obtain i m p ys where xs: "xs = (i, m, p) # ys"
    by (cases xs) (auto simp: rule_rulings_def)
  have head: "ci_id c = i" "ci_failure_mode c = m" "evaluatePredicate (ci_ast c) cx = Inr p"
    and "rule_rulings cx (map rule_of cs) = map (\<lambda>(i, m, p). (i, m, Inr p)) ys"
    using Cons.prems xs by (simp_all add: rule_rulings_def) (simp_all add: rule_of_def)
  from Cons.IH[OF this(4)] obtain js where "judge_rules cx cs = Inr js" "map ruling js = ys" by blast
  then show ?case
    using head xs by (auto intro!: exI[of _ "_ # js"]) (simp add: ruling_def)
qed

definition shipped :: "registrar \<Rightarrow> bool" where
  "shipped r \<longleftrightarrow> rr_invariants r = INITIAL_INVARIANTS \<and> rr_compiledRegistry r = Some core_registry"

abbreviation registered_ids :: "registrar \<Rightarrow> string \<Rightarrow> bool" where
  "registered_ids r i \<equiv> jm_has (rr_latestById r) i"

lemma judge_registry_shipped:
  assumes "shipped r"
  shows "\<exists>js. judge_registry r t = Inr js \<and>
    map ruling js = constitution_rulings (st_id (tr_to t)) (tr_from t)
      (tr_from t \<noteq> None \<or> isRootState (tr_to t)) (registered_ids r) (rr_currentOrderIndex r)"
proof -
  have "rule_rulings (buildEvaluationContext r t) (map rule_of (cr_invariants core_registry)) =
    map (\<lambda>(i, m, p). (i, m, Inr p)) (constitution_rulings (st_id (tr_to t)) (tr_from t)
      (tr_from t \<noteq> None \<or> isRootState (tr_to t)) (registered_ids r) (rr_currentOrderIndex r))"
    unfolding core_registry_rules
    by (rule core_rule_rulings) (simp_all add: buildEvaluationContext_def isRootState_simp)
  from judge_rules_rulings[OF this] show ?thesis
    using assms by (simp add: judge_registry_def registry_rules_def shipped_def)
qed

lemmas legacy_invariant_defs = identityImmutableInvariant_def identityExplicitInvariant_def
  identityUniqueInvariant_def lineageExplicitInvariant_def lineageParentExistsInvariant_def
  lineageSingleParentInvariant_def lineageContinuousInvariant_def orderingTotalInvariant_def
  orderingDeterministicInvariant_def orderingMonotonicInvariant_def orderingNonSemanticInvariant_def

lemma judge_legacy_shipped:
  assumes "shipped r" "rr_currentOrderIndex r \<ge> 0"
  shows "\<exists>js. judge_legacy r t = Inr js \<and>
    mset (map ruling js) = mset (constitution_rulings (st_id (tr_to t)) (tr_from t)
      (isRootState (tr_to t) \<longleftrightarrow> tr_from t = None) (registered_ids r) (rr_currentOrderIndex r))"
  using assms
  by (cases "tr_from t")
    (auto simp: judge_legacy_def shipped_def INITIAL_INVARIANTS_def legacy_invariant_defs
      constitution_rulings_def ruling_def legacy_input_def getState_def getTransition_def
      parent_ok_def Let_def jm_has_keys js_typeof_def nullable_string_def)


subsection \<open>The history\<close>

text \<open>
  A history is linked when the versions are in the order of their indices, each under its own key,
  and each points to the last version of the same state before it. It is complete when the indices are 0, 1, 2, ...;
  the history of a registrar that was restored from a snapshot has gaps.
\<close>

definition last_version :: "registered_state list \<Rightarrow> string \<Rightarrow> registered_state option" where
  "last_version vs i =
     (let ws = filter (\<lambda>v. rs_id v = i) vs in if ws = [] then None else Some (last ws))"

definition linked_at :: "registered_state list \<Rightarrow> nat \<Rightarrow> bool" where
  "linked_at vs n \<longleftrightarrow>
     (let v = vs ! n; prev = last_version (take n vs) (rs_id v)
      in 0 \<le> rs_orderIndex v \<and> (\<forall>m < n. rs_orderIndex (vs ! m) < rs_orderIndex v) \<and>
         rs_versionKey v = makeVersionKey (rs_id v) (rs_orderIndex v) \<and>
         rs_parentKey v = map_option rs_versionKey prev \<and> rs_parentId v = map_option rs_id prev)"

definition next_index :: "registered_state list \<Rightarrow> int" where
  "next_index vs = (if vs = [] then 0 else rs_orderIndex (last vs) + 1)"

definition complete_history :: "registered_state list \<Rightarrow> bool" where
  "complete_history vs \<longleftrightarrow> map rs_orderIndex vs = map int [0..<length vs]"

definition versions :: "registrar \<Rightarrow> registered_state list" where
  "versions r = jm_values (rr_versionsByKey r)"

definition history_wf :: "registrar \<Rightarrow> bool" where
  "history_wf r \<longleftrightarrow>
     rr_versionsByKey r = map (\<lambda>v. (rs_versionKey v, v)) (versions r) \<and>
     (\<forall>n < length (versions r). linked_at (versions r) n) \<and>
     rr_currentOrderIndex r = next_index (versions r) \<and>
     (\<forall>i. jm_get (rr_latestById r) i = last_version (versions r) i) \<and>
     jm_wf (rr_latestById r)"

lemma last_version_snoc:
  "last_version (vs @ [v]) i = (if rs_id v = i then Some v else last_version vs i)"
  by (simp add: last_version_def Let_def)

lemma last_version_Nil [simp]: "last_version [] i = None"
  by (simp add: last_version_def)

lemma last_version_id: "last_version vs i = Some v \<Longrightarrow> rs_id v = i"
proof -
  assume v: "last_version vs i = Some v"
  then have "filter (\<lambda>v. rs_id v = i) vs \<noteq> []" "v = last (filter (\<lambda>v. rs_id v = i) vs)"
    by (auto simp: last_version_def Let_def split: if_splits)
  then have "v \<in> set (filter (\<lambda>v. rs_id v = i) vs)" by (metis last_in_set)
  then show "rs_id v = i" by simp
qed

lemma nat_str_no_hash: "CHR ''#'' \<notin> set (nat_str n)"
  using nat_str_digits[of n] by (auto simp: list_all_iff is_digit_def)

lemma nat_str_inj: "nat_str m = nat_str n \<Longrightarrow> m = n"
  using bigint_of_nat_str by metis

lemma takeWhile_rev_mark: "h \<notin> set ds \<Longrightarrow> takeWhile (\<lambda>c. c \<noteq> h) (rev ds @ h # xs) = rev ds"
  by (subst takeWhile_append2) auto

lemma makeVersionKey_index:
  assumes "makeVersionKey i m = makeVersionKey j n" "0 \<le> m" "0 \<le> n"
  shows "i = j \<and> m = n"
proof -
  have split: "takeWhile (\<lambda>c. c \<noteq> CHR ''#'') (rev (makeVersionKey k l)) = rev (nat_str (nat l))" if "0 \<le> l" for k l
    using takeWhile_rev_mark[OF nat_str_no_hash] that by (simp add: makeVersionKey_def int_str_nonneg)
  have "m = n" using split[OF assms(2), of i] split[OF assms(3), of j] assms by (auto dest: nat_str_inj)
  then show ?thesis using assms by (simp add: makeVersionKey_def)
qed

lemma linked_at_snoc: "n < length vs \<Longrightarrow> linked_at (vs @ [v]) n \<longleftrightarrow> linked_at vs n"
  by (simp add: linked_at_def nth_append)

lemma linked_key: "linked_at vs n \<Longrightarrow> rs_versionKey (vs ! n) = makeVersionKey (rs_id (vs ! n)) (rs_orderIndex (vs ! n))"
  by (simp add: linked_at_def Let_def)

lemma linked_nonneg: "linked_at vs n \<Longrightarrow> 0 \<le> rs_orderIndex (vs ! n)"
  by (simp add: linked_at_def Let_def)

lemma linked_sorted:
  assumes "\<forall>n < length vs. linked_at vs n"
  shows "sorted_wrt (<) (map rs_orderIndex vs)"
  using assms by (auto simp: sorted_wrt_iff_nth_less linked_at_def Let_def)

lemma linked_below_next:
  assumes "\<forall>n < length vs. linked_at vs n" "v \<in> set vs"
  shows "0 \<le> rs_orderIndex v \<and> rs_orderIndex v < next_index vs"
proof -
  obtain n where n: "n < length vs" "v = vs ! n" using assms(2) by (auto simp: in_set_conv_nth)
  let ?l = "length vs - 1"
  have ne: "vs \<noteq> []" using n by auto
  then have l: "linked_at vs ?l" "last vs = vs ! ?l" using assms by (simp_all add: last_conv_nth)
  have "rs_orderIndex v \<le> rs_orderIndex (vs ! ?l)"
  proof (cases "n = ?l")
    case False
    then have "n < ?l" using n(1) by simp
    then show ?thesis using l(1) n(2) by (auto simp: linked_at_def Let_def intro: less_imp_le)
  qed (simp add: n(2))
  moreover have "0 \<le> rs_orderIndex v" using linked_nonneg assms(1) n by blast
  ultimately show ?thesis using l ne by (simp add: next_index_def)
qed

lemma next_index_nonneg: "\<forall>n < length vs. linked_at vs n \<Longrightarrow> 0 \<le> next_index vs"
  using linked_below_next[of vs "last vs"] by (cases "vs = []") (simp_all add: next_index_def)

lemma next_index_snoc [simp]: "next_index (vs @ [v]) = rs_orderIndex v + 1"
  by (simp add: next_index_def)

lemma complete_next_index: "complete_history vs \<Longrightarrow> next_index vs = int (length vs)"
proof (cases vs rule: rev_cases)
  case (snoc ws v)
  assume "complete_history vs"
  then show ?thesis using snoc by (simp add: complete_history_def)
qed (simp add: next_index_def)

lemma history_key_fresh:
  assumes "history_wf r"
  shows "\<not> jm_has (rr_versionsByKey r) (makeVersionKey i (rr_currentOrderIndex r))"
proof
  have linked: "\<forall>n < length (versions r). linked_at (versions r) n"
    and cur: "rr_currentOrderIndex r = next_index (versions r)" using assms by (simp_all add: history_wf_def)
  assume "jm_has (rr_versionsByKey r) (makeVersionKey i (rr_currentOrderIndex r))"
  then have "makeVersionKey i (rr_currentOrderIndex r) \<in> set (map rs_versionKey (versions r))"
    using assms unfolding history_wf_def jm_has_keys by (metis (no_types, lifting) map_map fst_conv comp_apply map_eq_conv)
  then obtain n where n: "n < length (versions r)" "makeVersionKey i (rr_currentOrderIndex r) = rs_versionKey (versions r ! n)"
    by (auto simp: in_set_conv_nth)
  have below: "0 \<le> rs_orderIndex (versions r ! n) \<and> rs_orderIndex (versions r ! n) < next_index (versions r)"
    by (rule linked_below_next[OF linked]) (use n(1) in simp)
  have "makeVersionKey i (next_index (versions r)) = makeVersionKey (rs_id (versions r ! n)) (rs_orderIndex (versions r ! n))"
    using n linked linked_key cur by metis
  from makeVersionKey_index[OF this] below show False by simp
qed

text \<open>The version that a transition appends.\<close>

definition next_version :: "registrar \<Rightarrow> transition \<Rightarrow> registered_state" where
  "next_version r t =
     \<lparr>rs_id = st_id (tr_to t), rs_parentId = tr_from t, rs_orderIndex = rr_currentOrderIndex r,
      rs_versionKey = makeVersionKey (st_id (tr_to t)) (rr_currentOrderIndex r),
      rs_parentKey = (case tr_from t of None \<Rightarrow> None
        | Some p \<Rightarrow> map_option rs_versionKey (jm_get (rr_latestById r) p))\<rparr>"

definition appended :: "registrar \<Rightarrow> transition \<Rightarrow> registrar" where
  "appended r t = r\<lparr>rr_currentOrderIndex := rr_currentOrderIndex r + 1,
     rr_versionsByKey := rr_versionsByKey r @ [(rs_versionKey (next_version r t), next_version r t)],
     rr_latestById := jm_set (rr_latestById r) (st_id (tr_to t)) (next_version r t)\<rparr>"

lemma appended_simps [simp]:
  "rr_currentOrderIndex (appended r t) = rr_currentOrderIndex r + 1"
  "rr_versionsByKey (appended r t) = rr_versionsByKey r @ [(rs_versionKey (next_version r t), next_version r t)]"
  "rr_latestById (appended r t) = jm_set (rr_latestById r) (st_id (tr_to t)) (next_version r t)"
  "rr_mode (appended r t) = rr_mode r" "rr_invariants (appended r t) = rr_invariants r"
  "rr_compiledRegistry (appended r t) = rr_compiledRegistry r"
  "rr_lastParityStatus (appended r t) = rr_lastParityStatus r"
  by (simp_all add: appended_def)

lemma next_version_simps [simp]:
  "rs_id (next_version r t) = st_id (tr_to t)" "rs_parentId (next_version r t) = tr_from t"
  "rs_orderIndex (next_version r t) = rr_currentOrderIndex r"
  "rs_versionKey (next_version r t) = makeVersionKey (st_id (tr_to t)) (rr_currentOrderIndex r)"
  by (simp_all add: next_version_def)

lemma acceptTransition_appends:
  assumes "history_wf r"
  shows "acceptTransition r t applied =
    (Inr (Accepted (st_id (tr_to t)) (rr_currentOrderIndex r) applied), appended r t)"
  using history_key_fresh[OF assms, of "st_id (tr_to t)"]
  by (simp add: acceptTransition_def appended_def next_version_def Let_def jm_set_new map_option_case
      cong: option.case_cong)

definition extends_history :: "registrar \<Rightarrow> transition \<Rightarrow> bool" where
  "extends_history r t \<longleftrightarrow>
     (case tr_from t of
        None \<Rightarrow> \<not> isRegistered r (st_id (tr_to t))
      | Some p \<Rightarrow> p = st_id (tr_to t) \<and> isRegistered r p)"

lemma versions_appended: "versions (appended r t) = versions r @ [next_version r t]"
  by (simp add: versions_def appended_def)

lemma appended_history_wf:
  assumes wf: "history_wf r" and ext: "extends_history r t"
  shows "history_wf (appended r t)"
proof -
  let ?i = "st_id (tr_to t)" and ?v = "next_version r t"
  have latest: "jm_get (rr_latestById r) j = last_version (versions r) j" for j
    using wf by (simp add: history_wf_def)
  have idx: "rr_currentOrderIndex r = next_index (versions r)" using wf by (simp add: history_wf_def)
  have linked: "\<forall>n < length (versions r). linked_at (versions r) n" using wf by (simp add: history_wf_def)
  have "rs_parentKey ?v = map_option rs_versionKey (last_version (versions r) ?i) \<and>
      rs_parentId ?v = map_option rs_id (last_version (versions r) ?i)"
    using ext last_version_id[of "versions r" ?i]
    by (cases "tr_from t"; cases "last_version (versions r) ?i")
      (auto simp: extends_history_def isRegistered_def jm_has_def latest next_version_def)
  then have "linked_at (versions r @ [?v]) (length (versions r))"
    using linked_below_next[OF linked] next_index_nonneg[OF linked] by (simp add: linked_at_def Let_def idx nth_append)
  then have "\<forall>n < length (versions (appended r t)). linked_at (versions (appended r t)) n"
    using wf by (auto simp: versions_appended less_Suc_eq history_wf_def linked_at_snoc)
  moreover have "rr_versionsByKey (appended r t) = map (\<lambda>v. (rs_versionKey v, v)) (versions (appended r t))"
    using wf by (simp add: versions_appended history_wf_def)
  moreover have "\<forall>j. jm_get (rr_latestById (appended r t)) j = last_version (versions (appended r t)) j"
    by (simp add: versions_appended last_version_snoc latest)
  moreover have "jm_wf (rr_latestById (appended r t))"
    using wf by (simp add: history_wf_def)
  moreover have "rr_currentOrderIndex (appended r t) = next_index (versions (appended r t))"
    by (simp add: versions_appended)
  ultimately show ?thesis unfolding history_wf_def by blast
qed


subsection \<open>Engines\<close>

text \<open>
  What the registrar needs of an engine: on a registrar with the shipped constitution it gives an
  outcome, it accepts exactly what is admissible, and otherwise it names violations. The legacy
  engine is strict: it also refuses a root declaration on a transition that has a parent.
\<close>

definition admissible :: "bool \<Rightarrow> registrar \<Rightarrow> transition \<Rightarrow> bool" where
  "admissible strict r t \<longleftrightarrow>
     st_id (tr_to t) \<noteq> [] \<and> extends_history r t \<and>
     (tr_from t = None \<longrightarrow> isRootState (tr_to t)) \<and>
     (strict \<and> tr_from t \<noteq> None \<longrightarrow> \<not> isRootState (tr_to t))"

definition ready :: "registrar \<Rightarrow> bool" where
  "ready r \<longleftrightarrow> shipped r \<and> history_wf r"

definition refuses :: "registration_outcome \<Rightarrow> bool" where
  "refuses out \<longleftrightarrow> (\<exists>vs. vs \<noteq> [] \<and> ro_result out = Rejected vs)"

locale registration_engine =
  fixes evaluate_registration :: "registrar \<Rightarrow> transition \<Rightarrow> registrum_error + registration_outcome"
    and strict :: bool
  assumes evaluates: "ready r \<Longrightarrow> \<exists>out. evaluate_registration r t = Inr out \<and>
      (nv_kind (ro_verdict out) = V_accepted \<longleftrightarrow> admissible strict r t) \<and>
      (\<not> admissible strict r t \<longrightarrow> refuses out)"
begin

lemma outcome_accepted:
  assumes "ready r" "admissible strict r t" "evaluate_registration r t = Inr out"
  shows "finish_registration r t out =
    (Inr (Accepted (st_id (tr_to t)) (rr_currentOrderIndex r) (ro_applied out)), appended r t)"
  using evaluates[OF assms(1), of t] assms acceptTransition_appends[of r t "ro_applied out"]
  by (auto simp: finish_registration_def ready_def)

lemma outcome_refused:
  assumes "ready r" "\<not> admissible strict r t" "evaluate_registration r t = Inr out"
  shows "\<exists>vs. vs \<noteq> [] \<and> finish_registration r t out = (Inr (Rejected vs), r)"
  using evaluates[OF assms(1), of t] assms by (auto simp: finish_registration_def refuses_def)

lemma outcome_exists: "ready r \<Longrightarrow> \<exists>out. evaluate_registration r t = Inr out"
  using evaluates by blast

end

lemma outcome_refuses:
  "nv_kind (ro_verdict (buildRegistrationOutcome r t js)) \<noteq> V_accepted \<Longrightarrow>
   refuses (buildRegistrationOutcome r t js)"
  by (auto simp: buildRegistrationOutcome_def refuses_def mark_halts_def Let_def)

lemma rulings_kind:
  "nv_kind (rulings_verdict xs) = V_accepted \<longleftrightarrow> (\<forall>(i, m, p) \<in> set xs. p)"
proof -
  have "failed_ids xs = [] \<longleftrightarrow> (\<forall>(i, m, p) \<in> set xs. p)"
    by (simp add: failed_ids_def filter_empty_conv case_prod_beta)
  then show ?thesis by (simp add: rulings_verdict_def)
qed

lemma rulings_accepted:
  "nv_kind (rulings_verdict (constitution_rulings i from root_ok registered n)) = V_accepted \<longleftrightarrow>
   i \<noteq> [] \<and> (from = None \<or> from = Some i) \<and> (from \<noteq> None \<or> \<not> registered i) \<and> root_ok \<and>
   parent_ok from registered \<and> n \<ge> 0"
  unfolding rulings_kind by (auto simp: constitution_rulings_def)

lemma admissible_rulings:
  assumes "rr_currentOrderIndex r \<ge> 0"
    and "root_ok \<longleftrightarrow> (if tr_from t = None then isRootState (tr_to t) else \<not> (strict \<and> isRootState (tr_to t)))"
  shows "nv_kind (rulings_verdict (constitution_rulings (st_id (tr_to t)) (tr_from t) root_ok
      (registered_ids r) (rr_currentOrderIndex r))) = V_accepted \<longleftrightarrow> admissible strict r t"
  using assms
  by (cases "tr_from t")
    (auto simp: rulings_accepted admissible_def extends_history_def parent_ok_def isRegistered_def)

lemma ready_index: "ready r \<Longrightarrow> rr_currentOrderIndex r \<ge> 0"
  by (simp add: ready_def history_wf_def next_index_nonneg)

interpretation registry_engine: registration_engine evaluateRegistryRegistration False
proof
  fix r t assume ready: "ready r"
  obtain js where js: "judge_registry r t = Inr js"
    "map ruling js = constitution_rulings (st_id (tr_to t)) (tr_from t)
      (tr_from t \<noteq> None \<or> isRootState (tr_to t)) (registered_ids r) (rr_currentOrderIndex r)"
    using judge_registry_shipped ready unfolding ready_def by blast
  have "nv_kind (ro_verdict (buildRegistrationOutcome r t js)) = V_accepted \<longleftrightarrow> admissible False r t"
    unfolding outcome_verdict js(2) by (rule admissible_rulings) (use ready_index[OF ready] in auto)
  then show "\<exists>out. evaluateRegistryRegistration r t = Inr out \<and>
      (nv_kind (ro_verdict out) = V_accepted \<longleftrightarrow> admissible False r t) \<and>
      (\<not> admissible False r t \<longrightarrow> refuses out)"
    using js(1) outcome_refuses by (auto simp: evaluateRegistryRegistration_def)
qed

interpretation legacy_engine: registration_engine evaluateLegacyRegistration True
proof
  fix r t assume ready: "ready r"
  obtain js where js: "judge_legacy r t = Inr js"
    "mset (map ruling js) = mset (constitution_rulings (st_id (tr_to t)) (tr_from t)
      (isRootState (tr_to t) \<longleftrightarrow> tr_from t = None) (registered_ids r) (rr_currentOrderIndex r))"
    using judge_legacy_shipped ready ready_index[OF ready] unfolding ready_def by blast
  have "nv_kind (ro_verdict (buildRegistrationOutcome r t js)) = V_accepted \<longleftrightarrow> admissible True r t"
    unfolding outcome_verdict rulings_verdict_mset[OF js(2)]
    by (rule admissible_rulings) (use ready_index[OF ready] in auto)
  then show "\<exists>out. evaluateLegacyRegistration r t = Inr out \<and>
      (nv_kind (ro_verdict out) = V_accepted \<longleftrightarrow> admissible True r t) \<and>
      (\<not> admissible True r t \<longrightarrow> refuses out)"
    using js(1) outcome_refuses by (auto simp: evaluateLegacyRegistration_def)
qed

text \<open>When the two engines disagree: on a root declaration of a transition that has a parent.\<close>

definition divergent :: "transition \<Rightarrow> bool" where
  "divergent t \<longleftrightarrow> tr_from t \<noteq> None \<and> isRootState (tr_to t)"

lemma explicit_failure:
  "''state.lineage.explicit'' \<in> set (failed_ids (constitution_rulings i from root_ok registered n)) \<longleftrightarrow> \<not> root_ok"
  by (simp add: failed_ids_def constitution_rulings_def)

lemma nv_ids: "set (nv_invariantIds (rulings_verdict xs)) = set (failed_ids xs)"
  by (simp add: rulings_verdict_def)

lemma engines_agree:
  assumes "ready r"
  shows "\<exists>registry legacy. evaluateRegistryRegistration r t = Inr registry \<and>
    evaluateLegacyRegistration r t = Inr legacy \<and>
    (ro_verdict registry = ro_verdict legacy \<longleftrightarrow> \<not> divergent t) \<and>
    (divergent t \<longrightarrow> nv_invariantIds (ro_verdict registry) \<noteq> nv_invariantIds (ro_verdict legacy))"
proof -
  let ?R = "\<lambda>root_ok. constitution_rulings (st_id (tr_to t)) (tr_from t) root_ok
    (registered_ids r) (rr_currentOrderIndex r)"
  obtain js where js: "judge_registry r t = Inr js"
    "map ruling js = ?R (tr_from t \<noteq> None \<or> isRootState (tr_to t))"
    using judge_registry_shipped assms unfolding ready_def by blast
  obtain ls where ls: "judge_legacy r t = Inr ls"
    "mset (map ruling ls) = mset (?R (isRootState (tr_to t) \<longleftrightarrow> tr_from t = None))"
    using judge_legacy_shipped assms ready_index[OF assms] unfolding ready_def by blast
  let ?A = "ro_verdict (buildRegistrationOutcome r t js)" and ?B = "ro_verdict (buildRegistrationOutcome r t ls)"
  have v: "?A = rulings_verdict (?R (tr_from t \<noteq> None \<or> isRootState (tr_to t)))"
    "?B = rulings_verdict (?R (isRootState (tr_to t) \<longleftrightarrow> tr_from t = None))"
    unfolding outcome_verdict js(2) rulings_verdict_mset[OF ls(2)] by (rule refl)+
  have differ: "nv_invariantIds ?A \<noteq> nv_invariantIds ?B" if "divergent t"
  proof
    assume "nv_invariantIds ?A = nv_invariantIds ?B"
    then have "set (failed_ids (?R (tr_from t \<noteq> None \<or> isRootState (tr_to t)))) =
        set (failed_ids (?R (isRootState (tr_to t) \<longleftrightarrow> tr_from t = None)))"
      unfolding v nv_ids[symmetric] by (rule arg_cong)
    from arg_cong[OF this, of "(\<in>) ''state.lineage.explicit''"] show False
      using that unfolding explicit_failure by (simp add: divergent_def)
  qed
  have agree: "?A = ?B" if "\<not> divergent t"
  proof -
    have "(tr_from t \<noteq> None \<or> isRootState (tr_to t)) = (isRootState (tr_to t) \<longleftrightarrow> tr_from t = None)"
      using that by (auto simp: divergent_def)
    then show ?thesis unfolding v by simp
  qed
  have iff: "?A = ?B \<longleftrightarrow> \<not> divergent t"
  proof (cases "divergent t")
    case True
    then have "?A \<noteq> ?B" using differ by force
    then show ?thesis using True by blast
  qed (simp add: agree)
  have "evaluateRegistryRegistration r t = Inr (buildRegistrationOutcome r t js)"
    "evaluateLegacyRegistration r t = Inr (buildRegistrationOutcome r t ls)"
    by (simp_all add: evaluateRegistryRegistration_def evaluateLegacyRegistration_def js(1) ls(1))
  then show ?thesis using iff differ by blast
qed


subsection \<open>Registration on a well-formed registrar\<close>

definition with_parity :: "registrar \<Rightarrow> parity_status \<Rightarrow> registrar" where
  "with_parity r p = r\<lparr>rr_lastParityStatus := Some p\<rparr>"

lemma with_parity_simps [simp]:
  "rr_currentOrderIndex (with_parity r p) = rr_currentOrderIndex r"
  "rr_versionsByKey (with_parity r p) = rr_versionsByKey r"
  "rr_latestById (with_parity r p) = rr_latestById r" "rr_mode (with_parity r p) = rr_mode r"
  "rr_invariants (with_parity r p) = rr_invariants r"
  "rr_compiledRegistry (with_parity r p) = rr_compiledRegistry r"
  "rr_lastParityStatus (with_parity r p) = Some p"
  by (simp_all add: with_parity_def)

lemma versions_with_parity [simp]: "versions (with_parity r p) = versions r"
  by (simp add: versions_def)

lemma ready_with_parity [simp]: "ready (with_parity r p) \<longleftrightarrow> ready r"
  by (simp add: ready_def shipped_def history_wf_def)

lemma admissible_with_parity [simp]: "admissible strict (with_parity r p) t = admissible strict r t"
  by (cases "tr_from t") (simp_all add: admissible_def extends_history_def isRegistered_def)

lemma next_version_with_parity [simp]: "next_version (with_parity r p) t = next_version r t"
  by (cases "tr_from t") (simp_all add: next_version_def)

lemma appended_with_parity: "appended (with_parity r p) t = with_parity (appended r t) p"
  by (rule registrar.equality) simp_all

lemma accept_with_parity:
  "history_wf r \<Longrightarrow> acceptTransition (with_parity r p) t applied =
    (Inr (Accepted (st_id (tr_to t)) (rr_currentOrderIndex r) applied), with_parity (appended r t) p)"
  using acceptTransition_appends[of "with_parity r p" t applied]
  by (simp add: appended_with_parity history_wf_def)

lemma ready_appended: "ready r \<Longrightarrow> extends_history r t \<Longrightarrow> ready (appended r t)"
  by (simp add: ready_def shipped_def appended_history_wf)

text \<open>The registrar after a registration, and what was registered.\<close>

definition strict_mode :: "registrar \<Rightarrow> bool" where
  "strict_mode r \<longleftrightarrow> rr_mode r = RM_legacy"

definition noted :: "registrar \<Rightarrow> parity_status \<Rightarrow> registrar" where
  "noted r p = (if rr_mode r = RM_dual then with_parity r p else r)"

definition registers :: "registrar \<Rightarrow> transition \<Rightarrow> (registrum_error + registration_result) \<times> registrar \<Rightarrow> bool" where
  "registers r t res \<longleftrightarrow>
     (if rr_mode r = RM_dual \<and> divergent t then res = (Inl ParityViolationError, with_parity r HALTED)
      else if admissible (strict_mode r) r t then
        (\<exists>applied. res = (Inr (Accepted (st_id (tr_to t)) (rr_currentOrderIndex r) applied),
           noted (appended r t) AGREED))
      else (\<exists>vs. vs \<noteq> [] \<and> res = (Inr (Rejected vs), noted r AGREED)))"

lemma registerWithLegacy_registers:
  assumes "ready r" "rr_mode r = RM_legacy"
  shows "registers r t (registerWithLegacy r t)"
proof -
  obtain out where out: "evaluateLegacyRegistration r t = Inr out"
    using legacy_engine.outcome_exists[OF assms(1)] by blast
  then have eq: "registerWithLegacy r t = finish_registration r t out" by (simp add: registerWithLegacy_def)
  show ?thesis
    unfolding eq using legacy_engine.outcome_accepted[OF assms(1) _ out]
      legacy_engine.outcome_refused[OF assms(1) _ out] assms(2)
    by (simp add: registers_def strict_mode_def noted_def)
qed

lemma registerWithRegistry_registers:
  assumes "ready r" "rr_mode r = RM_registry"
  shows "registers r t (registerWithRegistry r t)"
proof -
  obtain out where out: "evaluateRegistryRegistration r t = Inr out"
    using registry_engine.outcome_exists[OF assms(1)] by blast
  then have eq: "registerWithRegistry r t = finish_registration r t out" by (simp add: registerWithRegistry_def)
  show ?thesis
    unfolding eq using registry_engine.outcome_accepted[OF assms(1) _ out]
      registry_engine.outcome_refused[OF assms(1) _ out] assms(2)
    by (simp add: registers_def strict_mode_def noted_def)
qed

lemma registerWithDualWitness_registers:
  assumes "ready r" "rr_mode r = RM_dual"
  shows "registers r t (registerWithDualWitness r t)"
proof -
  obtain out legacy where out: "evaluateRegistryRegistration r t = Inr out"
    "evaluateLegacyRegistration r t = Inr legacy"
    "ro_verdict out = ro_verdict legacy \<longleftrightarrow> \<not> divergent t"
    "divergent t \<longrightarrow> nv_invariantIds (ro_verdict out) \<noteq> nv_invariantIds (ro_verdict legacy)"
    using engines_agree[OF assms(1), of t] by blast
  show ?thesis
  proof (cases "divergent t")
    case True
    then show ?thesis
      using out assms(2)
      by (simp add: registerWithDualWitness_def assertParity_def registers_def with_parity_def)
  next
    case False
    then have eq: "registerWithDualWitness r t = finish_registration (with_parity r AGREED) t out"
      using out by (simp add: registerWithDualWitness_def assertParity_def with_parity_def)
    have "history_wf r" using assms(1) by (simp add: ready_def)
    note accept = accept_with_parity[OF this]
    have verdict: "nv_kind (ro_verdict out) = V_accepted \<longleftrightarrow> admissible False r t"
      and "\<not> admissible False r t \<longrightarrow> refuses out"
      using registry_engine.evaluates[OF assms(1), of t] out(1) by auto
    then show ?thesis
      unfolding eq using False assms(2) accept
      by (auto simp: registers_def strict_mode_def noted_def finish_registration_def refuses_def)
  qed
qed

lemma register_registers: "ready r \<Longrightarrow> registers r t (register r t)"
  by (cases "rr_mode r") (simp_all add: register_def registerWithLegacy_registers
      registerWithRegistry_registers registerWithDualWitness_registers)

lemma ready_noted [simp]: "ready (noted r p) \<longleftrightarrow> ready r"
  by (simp add: noted_def)

lemma register_ready:
  assumes "ready r" "register r t = (res, r')"
  shows "ready r'"
  using register_registers[OF assms(1), of t] assms
  by (auto simp: registers_def admissible_def ready_appended split: if_splits)


lemma validate_target_state:
  assumes "validate_target r x = (res, r')"
  shows "r' = r \<or> (\<exists>p. r' = with_parity r p)"
  using assms
  by (auto simp: validate_target_def validateWithDualWitness_def assertParity_def with_parity_def
      split: registrar_mode.splits sum.splits if_splits)

text \<open>Registrars with the shipped constitution, after any calls of \<^verbatim>\<open>register\<close> and
  \<^verbatim>\<open>validate\<close>, whether they return or throw.\<close>

inductive registrar_reachable :: "registrar \<Rightarrow> bool" where
  fresh: "new_registrar m is (Some core_registry) = Inr r \<Longrightarrow> is = None \<or> is = Some INITIAL_INVARIANTS \<Longrightarrow>
    registrar_reachable r"
| registration: "registrar_reachable r \<Longrightarrow> register r t = (res, r') \<Longrightarrow> registrar_reachable r'"
| validation: "registrar_reachable r \<Longrightarrow> validate_target r x = (rep, r') \<Longrightarrow> registrar_reachable r'"

inductive_cases registrar_reachableE: "registrar_reachable r"

lemma new_registrar_ready:
  assumes "new_registrar m is (Some core_registry) = Inr r" "is = None \<or> is = Some INITIAL_INVARIANTS"
  shows "ready r"
  using assms by (auto simp: new_registrar_def Let_def ready_def shipped_def history_wf_def versions_def next_index_def)

lemma registrar_reachable_ready: "registrar_reachable r \<Longrightarrow> ready r"
proof (induction rule: registrar_reachable.induct)
  case (validation r x rep r')
  then show ?case using validate_target_state[of r x rep r'] by auto
qed (auto intro: new_registrar_ready register_ready)

subsection \<open>Lineage\<close>

lemma last_version_position:
  "last_version vs i = Some w \<Longrightarrow>
   \<exists>m < length vs. vs ! m = w \<and> filter (\<lambda>v. rs_id v = i) (take (Suc m) vs) = filter (\<lambda>v. rs_id v = i) vs"
proof (induction vs rule: rev_induct)
  case (snoc v vs)
  show ?case
  proof (cases "rs_id v = i")
    case True
    then show ?thesis using snoc.prems by (intro exI[of _ "length vs"]) (simp add: last_version_snoc)
  next
    case False
    then obtain m where "m < length vs" "vs ! m = w"
      "filter (\<lambda>v. rs_id v = i) (take (Suc m) vs) = filter (\<lambda>v. rs_id v = i) vs"
      using snoc by (auto simp: last_version_snoc)
    then show ?thesis using False by (intro exI[of _ m]) (simp add: nth_append)
  qed
qed simp

lemma last_version_None: "last_version vs i = None \<longleftrightarrow> filter (\<lambda>v. rs_id v = i) vs = []"
  by (simp add: last_version_def Let_def)

lemma linked_keys_distinct:
  assumes "\<forall>n < length vs. linked_at vs n"
  shows "distinct (map rs_versionKey vs)"
  unfolding distinct_conv_nth
proof (intro allI impI)
  fix m n assume a: "m < length (map rs_versionKey vs)" "n < length (map rs_versionKey vs)" "m \<noteq> n"
  then have l: "linked_at vs m" "linked_at vs n" using assms by simp_all
  have "rs_orderIndex (vs ! m) \<noteq> rs_orderIndex (vs ! n)"
    using l a(3) unfolding linked_at_def Let_def by (metis less_irrefl linorder_neqE_nat)
  then show "map rs_versionKey vs ! m \<noteq> map rs_versionKey vs ! n"
    using makeVersionKey_index linked_key[OF l(1)] linked_key[OF l(2)] linked_nonneg[OF l(1)] linked_nonneg[OF l(2)] a(1,2)
    by (metis length_map nth_map)
qed

lemma get_version:
  assumes "\<forall>n < length vs. linked_at vs n" "n < length vs"
  shows "jm_get (map (\<lambda>v. (rs_versionKey v, v)) vs) (rs_versionKey (vs ! n)) = Some (vs ! n)"
  using linked_keys_distinct[OF assms(1)] assms(2) by (intro map_of_is_SomeI) (auto simp: comp_def)

text \<open>The number of versions of a state.\<close>

definition version_count :: "registered_state list \<Rightarrow> string \<Rightarrow> nat" where
  "version_count vs i = length (filter (\<lambda>v. rs_id v = i) vs)"

lemma lineage_walk_linked:
  assumes linked: "\<forall>n < length vs. linked_at vs n" and n: "n < length vs"
    and "visited \<inter> rs_versionKey ` set (take (Suc n) vs) = {}"
  shows "lineage_walk (map (\<lambda>v. (rs_versionKey v, v)) vs) visited (vs ! n) =
    replicate (version_count (take (Suc n) vs) (rs_id (vs ! n))) (rs_id (vs ! n))"
  using n assms(3)
proof (induction n arbitrary: visited rule: less_induct)
  case (less n)
  let ?v = "vs ! n" and ?i = "rs_id (vs ! n)" and ?m = "map (\<lambda>v. (rs_versionKey v, v)) vs"
  have link: "linked_at vs n" using linked less.prems(1) by blast
  have count: "version_count (take (Suc n) vs) ?i = Suc (version_count (take n vs) ?i)"
    using less.prems(1) by (simp add: version_count_def take_Suc_conv_app_nth)
  have "?v \<in> set (take (Suc n) vs)" using less.prems(1) by (simp add: take_Suc_conv_app_nth)
  then have new: "rs_versionKey ?v \<notin> visited" using less.prems(2) by blast
  show ?case
  proof (cases "last_version (take n vs) ?i")
    case None
    then have "version_count (take n vs) ?i = 0" by (simp add: last_version_None version_count_def)
    moreover have "rs_parentKey ?v = None" using link None by (simp add: linked_at_def Let_def)
    ultimately show ?thesis using new count by (subst lineage_walk.simps) simp
  next
    case (Some w)
    from last_version_position[OF Some] obtain m where
      m: "m < n" "m < length vs" "vs ! m = w"
        "filter (\<lambda>v. rs_id v = ?i) (take (Suc m) (take n vs)) = filter (\<lambda>v. rs_id v = ?i) (take n vs)"
      using less.prems(1) by auto
    have w: "rs_id w = ?i" using last_version_id[OF Some] .
    have parent: "rs_parentKey ?v = Some (rs_versionKey w)" using link Some by (simp add: linked_at_def Let_def)
    have get: "jm_get ?m (rs_versionKey w) = Some w" using get_version[OF linked m(2)] m(3) by simp
    have "take (Suc m) (take n vs) = take (Suc m) vs" using m(1) by (simp add: min_def)
    then have same: "version_count (take (Suc m) vs) ?i = version_count (take n vs) ?i"
      using m(4) by (simp add: version_count_def)
    have subset: "set (take (Suc m) vs) \<subseteq> set (take n vs)" using m(1) by (intro set_take_subset_set_take) simp
    have "rs_versionKey ?v \<notin> rs_versionKey ` set (take n vs)"
      using linked_keys_distinct[OF linked] less.prems(1)
      by (auto simp: distinct_conv_nth in_set_conv_nth)
    then have "insert (rs_versionKey ?v) visited \<inter> rs_versionKey ` set (take (Suc m) vs) = {}"
      using subset less.prems by (auto simp: take_Suc_conv_app_nth)
    from less.IH[OF m(1) m(2) this] have
      "lineage_walk ?m (insert (rs_versionKey ?v) visited) w = replicate (version_count (take n vs) ?i) ?i"
      using m(3) w same by simp
    then show ?thesis using new count parent get by (subst lineage_walk.simps) simp
  qed
qed

lemma getLineage_history:
  assumes "history_wf r"
  shows "getLineage r i = replicate (version_count (versions r) i) i"
proof (cases "last_version (versions r) i")
  case None
  then have "version_count (versions r) i = 0" by (simp add: last_version_None version_count_def)
  then show ?thesis using assms None by (simp add: getLineage_def history_wf_def)
next
  case (Some w)
  have linked: "\<forall>n < length (versions r). linked_at (versions r) n" using assms by (simp add: history_wf_def)
  from last_version_position[OF Some] obtain m where
    m: "m < length (versions r)" "versions r ! m = w"
      "filter (\<lambda>v. rs_id v = i) (take (Suc m) (versions r)) = filter (\<lambda>v. rs_id v = i) (versions r)"
    by blast
  have "getLineage r i = lineage_walk (map (\<lambda>v. (rs_versionKey v, v)) (versions r)) {} w"
    using assms Some by (simp add: getLineage_def history_wf_def)
  also have "\<dots> = replicate (version_count (take (Suc m) (versions r)) i) i"
    using lineage_walk_linked[OF linked m(1), of "{}"] m(2) last_version_id[OF Some] by simp
  finally show ?thesis using m(3) by (simp add: version_count_def)
qed


subsection \<open>What the registrar promises\<close>

lemma registers_versions:
  assumes "registers r t (res, r')"
  shows "case res of
      Inr (Accepted i n applied) \<Rightarrow> admissible (strict_mode r) r t \<and> i = st_id (tr_to t) \<and>
        n = rr_currentOrderIndex r \<and> versions r' = versions r @ [next_version r t]
    | Inr (Rejected vs) \<Rightarrow> vs \<noteq> [] \<and> \<not> admissible (strict_mode r) r t \<and> versions r' = versions r
    | Inl e \<Rightarrow> e = ParityViolationError \<and> rr_mode r = RM_dual \<and> divergent t \<and> versions r' = versions r"
  using assms by (auto simp: registers_def noted_def versions_appended split: if_splits)

text \<open>C19: Registration with the shipped constitution, in every mode: a transition is accepted
  exactly when it is admissible (a non-empty id; a root declares itself and is not registered; a
  transition with a parent is from the registered state of the same id), and then exactly one version
  is appended, under the next order index; a rejection names a violation and changes nothing of the
  history; the only exception is the parity halt of dual mode, which changes nothing of it
  either (in particular the append-only error is never raised).\<close>

theorem register_contract:
  assumes "registrar_reachable r"
  shows "case register r t of
      (Inr (Accepted i n applied), r') \<Rightarrow> admissible (rr_mode r = RM_legacy) r t \<and> i = st_id (tr_to t) \<and>
        n = rr_currentOrderIndex r \<and> versions r' = versions r @ [next_version r t]
    | (Inr (Rejected vs), r') \<Rightarrow> vs \<noteq> [] \<and> \<not> admissible (rr_mode r = RM_legacy) r t \<and> versions r' = versions r
    | (Inl e, r') \<Rightarrow> e = ParityViolationError \<and> rr_mode r = RM_dual \<and> divergent t \<and> versions r' = versions r"
proof -
  obtain res r' where eq: "register r t = (res, r')" by fastforce
  have "registers r t (res, r')" using register_registers[OF registrar_reachable_ready[OF assms], of t] eq by simp
  from registers_versions[OF this] show ?thesis
    unfolding eq strict_mode_def by (cases res) (auto split: registration_result.splits)
qed

text \<open>What a well-formed history says: it is totally ordered by the indices, all below the next one, its keys are
  distinct, each version points to the previous version of the same state, and lineages are exact.\<close>

lemma ready_history:
  assumes "ready r"
  shows "sorted_wrt (<) (map rs_orderIndex (versions r))"
    and "\<forall>v \<in> set (versions r). 0 \<le> rs_orderIndex v \<and> rs_orderIndex v < rr_currentOrderIndex r"
    and "distinct (map rs_versionKey (versions r))"
    and "\<forall>n < length (versions r). rs_parentKey (versions r ! n) =
      map_option rs_versionKey (last_version (take n (versions r)) (rs_id (versions r ! n)))"
    and "isRegistered r i \<longleftrightarrow> version_count (versions r) i > 0"
    and "getLineage r i = replicate (version_count (versions r) i) i"
proof -
  have wf: "history_wf r" using assms by (simp add: ready_def)
  then have linked: "\<forall>n < length (versions r). linked_at (versions r) n" by (simp add: history_wf_def)
  show "sorted_wrt (<) (map rs_orderIndex (versions r))" by (rule linked_sorted[OF linked])
  show "\<forall>v \<in> set (versions r). 0 \<le> rs_orderIndex v \<and> rs_orderIndex v < rr_currentOrderIndex r"
    using linked_below_next[OF linked] wf by (simp add: history_wf_def)
  show "distinct (map rs_versionKey (versions r))" by (rule linked_keys_distinct[OF linked])
  show "\<forall>n < length (versions r). rs_parentKey (versions r ! n) =
      map_option rs_versionKey (last_version (take n (versions r)) (rs_id (versions r ! n)))"
    using linked by (auto simp: linked_at_def Let_def)
  have "jm_get (rr_latestById r) i = last_version (versions r) i" using wf by (simp add: history_wf_def)
  then show "isRegistered r i \<longleftrightarrow> version_count (versions r) i > 0"
    by (simp add: isRegistered_def jm_has_def version_count_def last_version_def Let_def)
  show "getLineage r i = replicate (version_count (versions r) i) i" by (rule getLineage_history[OF wf])
qed

text \<open>Later states of a registrar: histories only grow, by consecutive indices.\<close>

inductive registrar_steps :: "registrar \<Rightarrow> registrar \<Rightarrow> bool" where
  steps_none: "registrar_steps r r"
| steps_register: "registrar_steps r s \<Longrightarrow> register s t = (res, s') \<Longrightarrow> registrar_steps r s'"
| steps_validate: "registrar_steps r s \<Longrightarrow> validate_target s x = (rep, s') \<Longrightarrow> registrar_steps r s'"

lemma register_grows:
  assumes "ready r" "register r t = (res, r')"
  shows "(versions r' = versions r \<and> rr_currentOrderIndex r' = rr_currentOrderIndex r) \<or>
    (versions r' = versions r @ [next_version r t] \<and> rr_currentOrderIndex r' = rr_currentOrderIndex r + 1)"
  using register_registers[OF assms(1), of t] assms(2)
  by (auto simp: registers_def noted_def versions_appended split: if_splits)

lemma ready_steps:
  assumes "registrar_steps r r'" "ready r"
  shows "ready r' \<and> (\<exists>new. versions r' = versions r @ new \<and>
    rr_currentOrderIndex r' = rr_currentOrderIndex r + int (length new) \<and>
    map rs_orderIndex new = map (\<lambda>k. rr_currentOrderIndex r + int k) [0..<length new])"
  using assms
proof (induction rule: registrar_steps.induct)
  case (steps_register r s t res s')
  then obtain new where new: "versions s = versions r @ new" "rr_currentOrderIndex s = rr_currentOrderIndex r + int (length new)"
    "map rs_orderIndex new = map (\<lambda>k. rr_currentOrderIndex r + int k) [0..<length new]" and s: "ready s" by blast
  have "\<exists>new. versions s' = versions r @ new \<and> rr_currentOrderIndex s' = rr_currentOrderIndex r + int (length new) \<and>
      map rs_orderIndex new = map (\<lambda>k. rr_currentOrderIndex r + int k) [0..<length new]"
    using register_grows[OF s steps_register.hyps(2)] new
    by (elim disjE) (auto intro: exI[of _ "new"] exI[of _ "new @ [next_version s t]"])
  then show ?case using register_ready[OF s steps_register.hyps(2)] by blast
next
  case (steps_validate r s x rep s')
  then show ?case using validate_target_state[OF steps_validate.hyps(2)] by auto
qed auto

lemma fresh_complete:
  "new_registrar m is (Some core_registry) = Inr r \<Longrightarrow> complete_history (versions r)"
  by (auto simp: new_registrar_def Let_def complete_history_def versions_def split: if_splits)

lemma reachable_complete: "registrar_reachable r \<Longrightarrow> complete_history (versions r)"
proof (induction rule: registrar_reachable.induct)
  case (registration r t res r')
  have r: "ready r" by (rule registrar_reachable_ready[OF registration.hyps(1)])
  then have "rr_currentOrderIndex r = int (length (versions r))"
    using complete_next_index[OF registration.IH] by (simp add: ready_def history_wf_def)
  then show ?case using register_grows[OF r registration.hyps(2)] registration.IH
    by (auto simp: complete_history_def)
next
  case (validation r x rep r')
  then show ?case using validate_target_state[OF validation.hyps(2)] by auto
qed (rule fresh_complete)

lemma finish_result_with_parity:
  assumes "history_wf r"
  shows "fst (finish_registration (with_parity r p) t out) = fst (finish_registration r t out)"
  using accept_with_parity[OF assms] acceptTransition_appends[OF assms]
  by (simp add: finish_registration_def)

text \<open>C18: The two witnesses are equivalent but for one case: in dual mode a registration halts with
  a parity violation if and only if the transition has a parent and its state declares itself a
  root (the registry's rule on lineage does not forbid what the legacy invariant forbids). In every
  other case the witnesses give the same verdict and dual mode returns what the registry mode
  returns.\<close>

theorem dual_witness_parity:
  assumes "registrar_reachable r" and "rr_mode r = RM_dual"
  shows "(fst (register r t) = Inl ParityViolationError \<longleftrightarrow> tr_from t \<noteq> None \<and> isRootState (tr_to t)) \<and>
    (tr_from t = None \<or> \<not> isRootState (tr_to t) \<longrightarrow>
       fst (register r t) = fst (registerWithRegistry r t) \<and>
       (\<exists>a b. evaluateRegistryRegistration r t = Inr a \<and> evaluateLegacyRegistration r t = Inr b \<and>
          ro_verdict a = ro_verdict b))"
proof -
  have ready: "ready r" using registrar_reachable_ready[OF assms(1)] .
  obtain a b where ab: "evaluateRegistryRegistration r t = Inr a" "evaluateLegacyRegistration r t = Inr b"
    "ro_verdict a = ro_verdict b \<longleftrightarrow> \<not> divergent t" using engines_agree[OF ready, of t] by blast
  have dual: "register r t = registerWithDualWitness r t" using assms(2) by (simp add: register_def)
  have halt: "fst (register r t) = Inl ParityViolationError \<longleftrightarrow> divergent t"
    using register_registers[OF ready, of t] assms(2) by (auto simp: registers_def split: if_splits)
  have same: "fst (register r t) = fst (registerWithRegistry r t)" if "\<not> divergent t"
  proof -
    have "register r t = finish_registration (with_parity r AGREED) t a"
      using ab that by (simp add: dual registerWithDualWitness_def assertParity_def with_parity_def)
    moreover have "registerWithRegistry r t = finish_registration r t a"
      using ab by (simp add: registerWithRegistry_def)
    ultimately show ?thesis using finish_result_with_parity ready by (simp add: ready_def)
  qed
  show ?thesis
  proof (intro conjI impI)
    show "fst (register r t) = Inl ParityViolationError \<longleftrightarrow> tr_from t \<noteq> None \<and> isRootState (tr_to t)"
      using halt by (simp only: divergent_def)
    assume "tr_from t = None \<or> \<not> isRootState (tr_to t)"
    then have no: "\<not> divergent t" by (auto simp: divergent_def)
    then show "fst (register r t) = fst (registerWithRegistry r t)" by (rule same)
    show "\<exists>a b. evaluateRegistryRegistration r t = Inr a \<and> evaluateLegacyRegistration r t = Inr b \<and>
        ro_verdict a = ro_verdict b"
      using ab no by (intro exI[of _ a] exI[of _ b]) simp
  qed
qed

text \<open>A dual registrar before and after the registration of a root state.\<close>

definition sample_registrar :: registrar where
  "sample_registrar = \<lparr>rr_versionsByKey = [], rr_latestById = [], rr_currentOrderIndex = 0,
     rr_mode = RM_dual, rr_invariants = INITIAL_INVARIANTS, rr_compiledRegistry = Some core_registry,
     rr_lastParityStatus = None\<rparr>"

definition sample_root :: transition where
  "sample_root = \<lparr>tr_from = None, tr_to = \<lparr>st_id = ''a'', st_structure = (5, [(''isRoot'', JBool True)]),
     st_data = JNull\<rparr>, tr_metadata = None\<rparr>"

definition sample_registered :: registrar where
  "sample_registered = snd (register sample_registrar sample_root)"

lemma sample_registrar_reachable: "registrar_reachable sample_registrar"
  by (rule registrar_reachable.fresh[of "Some RM_dual" None])
    (simp_all add: new_registrar_def sample_registrar_def)

lemma sample_registered_reachable: "registrar_reachable sample_registered"
  unfolding sample_registered_def
  by (rule registrar_reachable.registration[OF sample_registrar_reachable]) (rule prod.collapse[symmetric])

lemma sample_isRoot: "isRootState (tr_to sample_root)"
  by (simp add: isRootState_simp sample_root_def object_value_def js_property_def)

lemma sample_admissible: "admissible False sample_registrar sample_root"
  using sample_isRoot
  by (simp add: admissible_def extends_history_def isRegistered_def sample_registrar_def sample_root_def)

lemma sample_versions: "versions sample_registered = [next_version sample_registrar sample_root]"
proof -
  have dual: "rr_mode sample_registrar = RM_dual" "\<not> divergent sample_root"
    "versions sample_registrar = []"
    by (simp_all add: sample_registrar_def sample_root_def divergent_def versions_def)
  have "registers sample_registrar sample_root (register sample_registrar sample_root)"
    by (rule register_registers[OF registrar_reachable_ready[OF sample_registrar_reachable]])
  then show ?thesis
    using sample_admissible dual
    by (auto simp: registers_def strict_mode_def noted_def sample_registered_def versions_appended)
qed

theorem register_contract_witness:
  "case register sample_registrar sample_root of
     (Inr (Accepted i n applied), r') \<Rightarrow> i = ''a'' \<and> n = 0
   | (Inr (Rejected vs), r') \<Rightarrow> False
   | (Inl e, r') \<Rightarrow> False"
  using register_contract[OF sample_registrar_reachable, of sample_root] sample_admissible
  by (auto simp: sample_registrar_def sample_root_def divergent_def
      split: prod.splits sum.splits registration_result.splits)

theorem dual_witness_parity_witness:
  "fst (register sample_registrar sample_root) = fst (registerWithRegistry sample_registrar sample_root)"
proof -
  have "rr_mode sample_registrar = RM_dual" "tr_from sample_root = None"
    by (simp_all add: sample_registrar_def sample_root_def)
  then show ?thesis using dual_witness_parity[OF sample_registrar_reachable, of sample_root] by blast
qed

end
