(* ===== verification/Reconciler.thy ===== *)
theory Reconciler
  imports Matchers Registrar Digest
begin

section \<open>Reconciliation and its attestation\<close>

text \<open>
  Model of \<^verbatim>\<open>packages/reconciler/src/reconciler.ts\<close> and \<^verbatim>\<open>attestor.ts\<close>.
  A reconciler runs the three matchers on the inputs in its scope and summarises them; an attestor
  registers reports in a registrar, which it receives as an interface (the parameter \<open>reg\<close>, with
  the laws of the locale \<open>transition_log\<close>). The clock, SHA-256, canonical JSON and the report as a
  JavaScript value are parameters.
\<close>

subsection \<open>Reports\<close>

record reconciliation_scope =
  sc_from :: "string option"
  sc_to :: "string option"
  sc_intentId :: "string option"
  sc_chainId :: "string option"
  sc_correlationId :: "string option"

record reconciliation_summary =
  sm_totalIntents :: nat
  sm_totalLedgerEntries :: nat
  sm_totalChainEvents :: nat
  sm_matchedCount :: nat
  sm_mismatchCount :: nat
  sm_missingCount :: nat
  sm_allReconciled :: bool
  sm_discrepancies :: "string list"
  sm_structured :: "discrepancy list"
  sm_countsByCode :: "(discrepancy_code, nat) jsmap"

record reconciliation_report =
  rn_id :: string
  rn_scope :: "reconciliation_scope option"
  rn_timestamp :: string
  rn_intentLedger :: "intent_ledger_match list"
  rn_ledgerChain :: "ledger_chain_match list"
  rn_intentChain :: "intent_chain_match list"
  rn_summary :: reconciliation_summary

record reconciliation_input =
  in_intents :: "reconcilable_intent list"
  in_entries :: "reconcilable_entry list"
  in_events :: "reconcilable_event list"
  in_scope :: "reconciliation_scope option"

text \<open>What the summary reads of a match.\<close>

type_synonym match_like = "match_status \<times> string list \<times> discrepancy list"

definition outside :: "string option \<Rightarrow> string option \<Rightarrow> string \<Rightarrow> bool" where
  "outside lo hi time \<longleftrightarrow>
     (case truthy lo of None \<Rightarrow> False | Some f \<Rightarrow> time < f) \<or> (case truthy hi of None \<Rightarrow> False | Some t \<Rightarrow> t < time)"

definition filterIntents :: "reconcilable_intent list \<Rightarrow> reconciliation_scope option \<Rightarrow> reconcilable_intent list" where
  "filterIntents xs scope =
     (case scope of None \<Rightarrow> xs
      | Some s \<Rightarrow> filter (\<lambda>i.
          \<not> (case truthy (sc_intentId s) of None \<Rightarrow> False | Some x \<Rightarrow> ri_id i \<noteq> x) \<and>
          \<not> (case truthy (sc_chainId s) of None \<Rightarrow> False | Some c \<Rightarrow> ri_chainId i \<noteq> Some c) \<and>
          \<not> (case truthy (sc_correlationId s) of None \<Rightarrow> False | Some c \<Rightarrow> ri_correlationId i \<noteq> Some c) \<and>
          \<not> outside (sc_from s) (sc_to s) (ri_declaredAt i)) xs)"

definition filterEntries :: "reconcilable_entry list \<Rightarrow> reconciliation_scope option \<Rightarrow> reconcilable_entry list" where
  "filterEntries xs scope =
     (case scope of None \<Rightarrow> xs
      | Some s \<Rightarrow> filter (\<lambda>e.
          \<not> (case truthy (sc_correlationId s) of None \<Rightarrow> False | Some c \<Rightarrow> rl_correlationId e \<noteq> c) \<and>
          \<not> outside (sc_from s) (sc_to s) (rl_timestamp e)) xs)"

definition filterEvents :: "reconcilable_event list \<Rightarrow> reconciliation_scope option \<Rightarrow> reconcilable_event list" where
  "filterEvents xs scope =
     (case scope of None \<Rightarrow> xs
      | Some s \<Rightarrow> filter (\<lambda>e.
          \<not> (case truthy (sc_chainId s) of None \<Rightarrow> False | Some c \<Rightarrow> rv_chainId e \<noteq> c) \<and>
          \<not> outside (sc_from s) (sc_to s) (rv_timestamp e)) xs)"

definition computeSummary :: "nat \<Rightarrow> nat \<Rightarrow> nat \<Rightarrow> match_like list \<Rightarrow> reconciliation_summary" where
  "computeSummary intents entries events ms =
     (let matchedCount = length (filter (\<lambda>m. fst m = matched) ms);
          mismatchCount = length (filter (\<lambda>m. fst m = amount_mismatch) ms);
          missingCount = length (filter (\<lambda>m. fst m = missing_ledger \<or> fst m = missing_intent \<or>
            fst m = missing_chain \<or> fst m = unmatched) ms);
          structured = concat (map (\<lambda>m. snd (snd m)) ms)
      in \<lparr>sm_totalIntents = intents, sm_totalLedgerEntries = entries, sm_totalChainEvents = events,
          sm_matchedCount = matchedCount, sm_mismatchCount = mismatchCount, sm_missingCount = missingCount,
          sm_allReconciled = (mismatchCount = 0 \<and> missingCount = 0),
          sm_discrepancies = concat (map (\<lambda>m. fst (snd m)) ms), sm_structured = structured,
          sm_countsByCode = countByCode structured\<rparr>)"

definition match_likes ::
  "intent_ledger_match list \<Rightarrow> ledger_chain_match list \<Rightarrow> intent_chain_match list \<Rightarrow> match_like list" where
  "match_likes il lc ic =
     map (\<lambda>m. (il_status m, il_discrepancies m, il_structured m)) il @
     map (\<lambda>m. (lc_status m, lc_discrepancies m, lc_structured m)) lc @
     map (\<lambda>m. (ic_status m, ic_discrepancies m, ic_structured m)) ic"

subsection \<open>The attestor\<close>

record 'r attestor =
  at_registrar :: 'r
  at_attestorId :: string
  at_stateId :: string
  at_lastStateId :: "string option"

record attestation_record =
  ar_id :: string
  ar_reconciliationId :: string
  ar_allReconciled :: bool
  ar_summary :: reconciliation_summary
  ar_attestedBy :: string
  ar_attestedAt :: string
  ar_reportHash :: string

datatype attest_error =
    AttestationRejected "invariant_violation list" | AttestationThrown registrum_error
  | NoRegistrar | NoAttestorId | ReconciliationThrown fault

definition new_attestor :: "'r \<Rightarrow> string \<Rightarrow> 'r attestor" where
  "new_attestor r i =
     \<lparr>at_registrar = r, at_attestorId = i, at_stateId = ''attestation:'' @ i, at_lastStateId = None\<rparr>"

text \<open>The content a report hash covers: everything but the id and the timestamp.\<close>

definition integrity_content ::
  "reconciliation_report \<Rightarrow> reconciliation_scope option \<times> intent_ledger_match list \<times> ledger_chain_match list \<times>
     intent_chain_match list \<times> reconciliation_summary" where
  "integrity_content rep =
     (rn_scope rep, rn_intentLedger rep, rn_ledgerChain rep, rn_intentChain rep, rn_summary rep)"

type_synonym report_canon =
  "reconciliation_scope option \<times> intent_ledger_match list \<times> ledger_chain_match list \<times>
     intent_chain_match list \<times> reconciliation_summary \<Rightarrow> string"

definition hashReport :: "hasher \<Rightarrow> report_canon \<Rightarrow> reconciliation_report \<Rightarrow> string" where
  "hashReport H canon rep = sha256 H (canon (integrity_content rep))"

definition attestation_transition ::
  "(reconciliation_report \<Rightarrow> jsval) \<Rightarrow> string \<Rightarrow> string \<Rightarrow> reconciliation_report \<Rightarrow> 'r attestor \<Rightarrow> transition" where
  "attestation_transition as_js now hash rep a =
     (let sm = rn_summary rep in
      \<lparr>tr_from = at_lastStateId a,
       tr_to = \<lparr>st_id = at_stateId a,
         st_structure = (0,
           (if at_lastStateId a = None then [(''isRoot'', JBool True)] else []) @
           [(''type'', JStr ''reconciliation-attestation''), (''reconciliationId'', JStr (rn_id rep)),
            (''allReconciled'', JBool (sm_allReconciled sm)), (''matchedCount'', JNum (int (sm_matchedCount sm))),
            (''mismatchCount'', JNum (int (sm_mismatchCount sm))),
            (''missingCount'', JNum (int (sm_missingCount sm))), (''reportHash'', JStr hash),
            (''attestedBy'', JStr (at_attestorId a)), (''attestedAt'', JStr now)]),
         st_data = as_js rep\<rparr>,
       tr_metadata = Some (JObj (R_user 1)
         [(''action'', JStr ''reconciliation-attestation''), (''attestorId'', JStr (at_attestorId a)),
          (''timestamp'', JStr now)])\<rparr>)"

type_synonym 'r registration = "'r \<Rightarrow> transition \<Rightarrow> (registrum_error + registration_result) \<times> 'r"

definition attest ::
  "'r registration \<Rightarrow> hasher \<Rightarrow> report_canon \<Rightarrow> (reconciliation_report \<Rightarrow> jsval) \<Rightarrow> string \<Rightarrow>
   reconciliation_report \<Rightarrow> 'r attestor \<Rightarrow> (attest_error + attestation_record) \<times> 'r attestor" where
  "attest reg H canon as_js now rep a =
     (let hash = hashReport H canon rep in
      case reg (at_registrar a) (attestation_transition as_js now hash rep a) of
        (Inl e, r') \<Rightarrow> (Inl (AttestationThrown e), a\<lparr>at_registrar := r'\<rparr>)
      | (Inr (Rejected vs), r') \<Rightarrow> (Inl (AttestationRejected vs), a\<lparr>at_registrar := r'\<rparr>)
      | (Inr (Accepted i n applied), r') \<Rightarrow>
          (Inr \<lparr>ar_id = ''att:'' @ rn_id rep, ar_reconciliationId = rn_id rep,
                ar_allReconciled = sm_allReconciled (rn_summary rep), ar_summary = rn_summary rep,
                ar_attestedBy = at_attestorId a, ar_attestedAt = now, ar_reportHash = hash\<rparr>,
           a\<lparr>at_registrar := r', at_lastStateId := Some i\<rparr>))"

subsection \<open>The reconciler\<close>

record 'r reconciler =
  rc_attestor :: "'r attestor option"
  rc_reportCounter :: nat

definition new_reconciler :: "'r option \<Rightarrow> string option \<Rightarrow> attest_error + 'r reconciler" where
  "new_reconciler registrar attestorId =
     (case registrar of
        None \<Rightarrow> Inr \<lparr>rc_attestor = None, rc_reportCounter = 0\<rparr>
      | Some r \<Rightarrow>
          (case truthy attestorId of
             None \<Rightarrow> Inl NoAttestorId
           | Some i \<Rightarrow> Inr \<lparr>rc_attestor = Some (new_attestor r i), rc_reportCounter = 0\<rparr>))"

definition reconcile ::
  "string \<Rightarrow> string \<Rightarrow> reconciliation_input \<Rightarrow> 'r reconciler \<Rightarrow> reconciliation_report result \<times> 'r reconciler" where
  "reconcile millis now inp c =
     (let intents = filterIntents (in_intents inp) (in_scope inp);
          entries = filterEntries (in_entries inp) (in_scope inp);
          events = filterEvents (in_events inp) (in_scope inp)
      in case (bind_r (matchIntentLedger intents entries) (\<lambda>il.
               bind_r (matchLedgerChain entries events) (\<lambda>lc.
               bind_r (matchIntentChain intents events) (\<lambda>ic. Inr (il, lc, ic))))) of
           Inl e \<Rightarrow> (Inl e, c)
         | Inr (il, lc, ic) \<Rightarrow>
             let counter = rc_reportCounter c + 1 in
             (Inr \<lparr>rn_id = ''recon:'' @ millis @ '':'' @ nat_str counter, rn_scope = in_scope inp,
                rn_timestamp = now, rn_intentLedger = il, rn_ledgerChain = lc, rn_intentChain = ic,
                rn_summary = computeSummary (length intents) (length entries) (length events)
                  (match_likes il lc ic)\<rparr>,
              c\<lparr>rc_reportCounter := counter\<rparr>))"

definition attest_report ::
  "'r registration \<Rightarrow> hasher \<Rightarrow> report_canon \<Rightarrow> (reconciliation_report \<Rightarrow> jsval) \<Rightarrow> string \<Rightarrow>
   reconciliation_report \<Rightarrow> 'r reconciler \<Rightarrow> (attest_error + attestation_record) \<times> 'r reconciler" where
  "attest_report reg H canon as_js now rep c =
     (case rc_attestor c of
        None \<Rightarrow> (Inl NoRegistrar, c)
      | Some a \<Rightarrow> (case attest reg H canon as_js now rep a of (res, a') \<Rightarrow> (res, c\<lparr>rc_attestor := Some a'\<rparr>)))"

definition reconcileAndAttest ::
  "'r registration \<Rightarrow> hasher \<Rightarrow> report_canon \<Rightarrow> (reconciliation_report \<Rightarrow> jsval) \<Rightarrow> string \<Rightarrow> string \<Rightarrow>
   string \<Rightarrow> reconciliation_input \<Rightarrow> 'r reconciler \<Rightarrow>
   (attest_error + reconciliation_report \<times> attestation_record) \<times> 'r reconciler" where
  "reconcileAndAttest reg H canon as_js millis now later inp c =
     (case reconcile millis now inp c of
        (Inl e, c') \<Rightarrow> (Inl (ReconciliationThrown e), c')
      | (Inr rep, c') \<Rightarrow>
          (case attest_report reg H canon as_js later rep c' of
             (Inl e, c'') \<Rightarrow> (Inl e, c'')
           | (Inr att, c'') \<Rightarrow> (Inr (rep, att), c'')))"

subsection \<open>What a clean report means\<close>

lemma summary_counts:
  "sm_matchedCount (computeSummary a b c ms) + sm_mismatchCount (computeSummary a b c ms) +
   sm_missingCount (computeSummary a b c ms) = length ms"
proof (induction ms)
  case (Cons m ms)
  then show ?case by (cases "fst m") (simp_all add: computeSummary_def Let_def)
qed (simp add: computeSummary_def)

lemma summary_reconciled:
  "sm_allReconciled (computeSummary a b c ms) \<longleftrightarrow> (\<forall>m \<in> set ms. fst m = matched)"
proof -
  have "fst m = matched \<longleftrightarrow> fst m \<noteq> amount_mismatch \<and>
      \<not> (fst m = missing_ledger \<or> fst m = missing_intent \<or> fst m = missing_chain \<or> fst m = unmatched)"
    for m :: match_like
    by (cases "fst m") simp_all
  then show ?thesis by (auto simp: computeSummary_def Let_def filter_empty_conv)
qed

lemma match_likes_matched:
  "(\<forall>m \<in> set (match_likes il lc ic). fst m = matched) \<longleftrightarrow>
   (\<forall>m \<in> set il. il_status m = matched) \<and> (\<forall>m \<in> set lc. lc_status m = matched) \<and>
   (\<forall>m \<in> set ic. ic_status m = matched)"
  by (simp add: match_likes_def ball_Un)

definition books_agree ::
  "reconcilable_intent list \<Rightarrow> reconcilable_entry list \<Rightarrow> reconcilable_event list \<Rightarrow> bool" where
  "books_agree intents entries events \<longleftrightarrow>
     intents_and_ledger_agree intents entries \<and> ledger_and_chain_agree entries events \<and>
     intents_and_chain_agree intents events"

text \<open>Agreement of an amount with all transfers of its currency in a transaction. The matchers only compare the first one;
  where a transaction has no second event of a currency, that is the same.\<close>

definition transfers_agree :: "reconcilable_event list \<Rightarrow> money \<Rightarrow> string \<Rightarrow> bool" where
  "transfers_agree events amt tx \<longleftrightarrow>
     (\<exists>ev \<in> set events. rv_txHash ev = tx \<and> rv_symbol ev = m_currency amt) \<and>
     (\<forall>ev \<in> set events. rv_txHash ev = tx \<and> rv_symbol ev = m_currency amt \<longrightarrow> chain_agrees amt ev)"

definition single_transfers :: "reconcilable_event list \<Rightarrow> bool" where
  "single_transfers events \<longleftrightarrow>
     (\<forall>ev \<in> set events. \<forall>ev' \<in> set events. rv_txHash ev = rv_txHash ev' \<and> rv_symbol ev = rv_symbol ev' \<longrightarrow> ev = ev')"

definition values_agree ::
  "reconcilable_intent list \<Rightarrow> reconcilable_entry list \<Rightarrow> reconcilable_event list \<Rightarrow> bool" where
  "values_agree intents entries events \<longleftrightarrow>
     (\<forall>e \<in> set entries. \<forall>tx. truthy (rl_txHash e) = Some tx \<longrightarrow> transfers_agree events (rl_money e) tx) \<and>
     (\<forall>i \<in> set intents. \<forall>tx amt. truthy (ri_txHash i) = Some tx \<and> ri_amount i = Some amt \<longrightarrow> transfers_agree events amt tx)"

lemma single_transfer_agrees:
  assumes "tx_agrees amt (tx_events events tx)" "single_transfers events"
  shows "transfers_agree events amt tx"
proof -
  obtain ev where ev: "find (\<lambda>e. rv_symbol e = m_currency amt) (tx_events events tx) = Some ev" "chain_agrees amt ev"
    using assms(1) by (auto simp: tx_agrees_def split: option.splits)
  then have in_tx: "ev \<in> set events" "rv_txHash ev = tx" "rv_symbol ev = m_currency amt"
    by (auto simp: find_Some_iff tx_events_def dest!: nth_mem)
  then have "\<forall>ev' \<in> set events. rv_txHash ev' = tx \<and> rv_symbol ev' = m_currency amt \<longrightarrow> ev' = ev"
    using assms(2) unfolding single_transfers_def by simp
  then show ?thesis using ev(2) in_tx unfolding transfers_agree_def by blast
qed

lemma agreeing_values:
  assumes "books_agree intents entries events" "single_transfers events"
  shows "values_agree intents entries events"
  unfolding values_agree_def
proof (intro conjI ballI allI impI)
  fix e tx assume "e \<in> set entries" "truthy (rl_txHash e) = Some tx"
  then have "tx_agrees (rl_money e) (tx_events events tx)"
    using assms(1) by (auto simp: books_agree_def ledger_and_chain_agree_def entry_on_chain_def dest!: bspec)
  then show "transfers_agree events (rl_money e) tx" by (rule single_transfer_agrees[OF _ assms(2)])
next
  fix i tx amt assume "i \<in> set intents" "truthy (ri_txHash i) = Some tx \<and> ri_amount i = Some amt"
  then have "tx_agrees amt (tx_events events tx)"
    using assms(1) by (auto simp: books_agree_def intents_and_chain_agree_def intent_on_chain_def dest!: bspec)
  then show "transfers_agree events amt tx" by (rule single_transfer_agrees[OF _ assms(2)])
qed

text \<open>C31: When the entries in scope have distinct ids, a reconciliation is reported clean exactly when the books in
  scope agree in what the matchers compare: executed and verified intents are booked, and every booked intent's
  debits are in its currency and add up, as rational numbers, to its amount, in whatever decimal bases; every
  entry that names an intent or a transaction has it, and so has every intent that names a transaction, where the
  first event of the transaction in the currency of the amount carries exactly its value; and every chain event is of a
  transaction that an entry and an intent name. Further events of a transaction are not compared
  (\<open>second_transfer_unnoticed\<close>); where no transaction has a second event of a currency, a clean report means
  that every amount equals all transfers of its currency in its transaction. The counts add up.\<close>

theorem clean_report_means_agreement:
  assumes "fst (reconcile millis now inp c) = Inr rep"
    "distinct (map rl_id (filterEntries (in_entries inp) (in_scope inp)))"
  shows "(sm_allReconciled (rn_summary rep) \<longleftrightarrow>
      books_agree (filterIntents (in_intents inp) (in_scope inp)) (filterEntries (in_entries inp) (in_scope inp))
        (filterEvents (in_events inp) (in_scope inp))) \<and>
    (sm_allReconciled (rn_summary rep) \<longrightarrow> single_transfers (filterEvents (in_events inp) (in_scope inp)) \<longrightarrow>
      values_agree (filterIntents (in_intents inp) (in_scope inp)) (filterEntries (in_entries inp) (in_scope inp))
        (filterEvents (in_events inp) (in_scope inp))) \<and>
    sm_matchedCount (rn_summary rep) + sm_mismatchCount (rn_summary rep) + sm_missingCount (rn_summary rep) =
      length (rn_intentLedger rep) + length (rn_ledgerChain rep) + length (rn_intentChain rep)"
proof -
  obtain il lc ic a b k where
    "matchIntentLedger (filterIntents (in_intents inp) (in_scope inp)) (filterEntries (in_entries inp) (in_scope inp)) = Inr il"
    "matchLedgerChain (filterEntries (in_entries inp) (in_scope inp)) (filterEvents (in_events inp) (in_scope inp)) = Inr lc"
    "matchIntentChain (filterIntents (in_intents inp) (in_scope inp)) (filterEvents (in_events inp) (in_scope inp)) = Inr ic"
    and rep: "rn_intentLedger rep = il" "rn_ledgerChain rep = lc" "rn_intentChain rep = ic"
      "rn_summary rep = computeSummary a b k (match_likes il lc ic)"
    using assms(1) by (auto simp: reconcile_def Let_def bind_r_eq_Inr split: sum.splits)
  from intent_ledger_clean[OF this(1) assms(2)] ledger_chain_clean[OF this(2)] intent_chain_clean[OF this(3)]
  have "(\<forall>m \<in> set (match_likes il lc ic). fst m = matched) \<longleftrightarrow>
      books_agree (filterIntents (in_intents inp) (in_scope inp)) (filterEntries (in_entries inp) (in_scope inp))
        (filterEvents (in_events inp) (in_scope inp))"
    unfolding match_likes_matched books_agree_def by simp
  moreover have "length (match_likes il lc ic) = length il + length lc + length ic" by (simp add: match_likes_def)
  ultimately show ?thesis unfolding rep summary_reconciled summary_counts using agreeing_values by simp
qed

text \<open>One bad chain event cannot stop a reconciliation: when the amounts of the intents and of the
  ledger entries in scope are readable decimals, the reconciler returns a report, whatever texts the
  chain events carry, and counts it.\<close>

theorem reconciliation_returns:
  assumes "\<forall>i \<in> set (filterIntents (in_intents inp) (in_scope inp)). \<forall>amt. ri_amount i = Some amt \<longrightarrow> readable amt"
    "\<forall>e \<in> set (filterEntries (in_entries inp) (in_scope inp)). readable (rl_money e)"
  shows "\<exists>rep c'. reconcile millis now inp c = (Inr rep, c') \<and> rc_reportCounter c' = rc_reportCounter c + 1"
proof -
  obtain il lc ic where
    "matchIntentLedger (filterIntents (in_intents inp) (in_scope inp)) (filterEntries (in_entries inp) (in_scope inp)) = Inr il"
    "matchLedgerChain (filterEntries (in_entries inp) (in_scope inp)) (filterEvents (in_events inp) (in_scope inp)) = Inr lc"
    "matchIntentChain (filterIntents (in_intents inp) (in_scope inp)) (filterEvents (in_events inp) (in_scope inp)) = Inr ic"
    using matchers_succeed(1)[OF assms] matchers_succeed(2)[OF assms, where events = "filterEvents (in_events inp) (in_scope inp)"]
      matchers_succeed(3)[OF assms, where events = "filterEvents (in_events inp) (in_scope inp)"] by blast
  then show ?thesis by (simp add: reconcile_def Let_def)
qed

subsection \<open>Examples\<close>

definition usdc :: "string \<Rightarrow> int \<Rightarrow> money" where
  "usdc amount decs = \<lparr>m_amount = amount, m_currency = ''USDC'', m_decimals = decs\<rparr>"

definition sample_intent :: "string \<Rightarrow> reconcilable_intent" where
  "sample_intent i = \<lparr>ri_id = i, ri_status = ''executed'', ri_kind = ''transfer'', ri_amount = Some (usdc ''10'' 0),
     ri_envelopeId = None, ri_chainId = Some ''c'', ri_txHash = Some (''tx'' @ i), ri_declaredAt = ''1'',
     ri_correlationId = None\<rparr>"

definition sample_debit :: "string \<Rightarrow> reconcilable_entry" where
  "sample_debit i = \<lparr>rl_id = ''e'' @ i, rl_accountId = ''acct'', rl_type = Debit_side, rl_money = usdc ''10.0'' 1,
     rl_timestamp = ''1'', rl_intentId = Some i, rl_txHash = Some (''tx'' @ i), rl_correlationId = i\<rparr>"

definition sample_event :: "string \<Rightarrow> string \<Rightarrow> reconcilable_event" where
  "sample_event i amount = \<lparr>rv_chainId = ''c'', rv_txHash = ''tx'' @ i, rv_from = ''a'', rv_to = ''b'',
     rv_amount = amount, rv_decimals = 2, rv_symbol = ''USDC'', rv_timestamp = ''1''\<rparr>"

definition no_attestor :: "unit reconciler" where
  "no_attestor = \<lparr>rc_attestor = None, rc_reportCounter = 0\<rparr>"

definition clean_under :: "reconciliation_input \<Rightarrow> bool" where
  "clean_under inp =
     (case fst (reconcile ''0'' ''now'' inp no_attestor) of
        Inl e \<Rightarrow> False | Inr rep \<Rightarrow> sm_allReconciled (rn_summary rep))"

definition sample_books :: "reconciliation_scope option \<Rightarrow> reconciliation_input" where
  "sample_books scope = \<lparr>in_intents = [sample_intent ''x'', sample_intent ''y''],
     in_entries = [sample_debit ''x'', sample_debit ''y''],
     in_events = [sample_event ''x'' ''1000'', sample_event ''y'' ''1000''], in_scope = scope\<rparr>"

definition scope_to_intent :: "string \<Rightarrow> reconciliation_scope" where
  "scope_to_intent i = \<lparr>sc_from = None, sc_to = None, sc_intentId = Some i, sc_chainId = None, sc_correlationId = None\<rparr>"

text \<open>Restricting a reconciliation to one intent restricts the intents only, not the ledger
  entries and the chain events: of books that reconcile cleanly, the report for one intent
  alone is never clean, because the other intents' entries and events appear as orphans.\<close>

theorem intent_scope_reports_others:
  "clean_under (sample_books None) \<and> \<not> clean_under (sample_books (Some (scope_to_intent ''x'')))"
  by code_simp

text \<open>Only the first event of a transaction in the currency is compared, and the transaction then
  counts as matched: a second transfer of the same token in the same transaction, recorded
  nowhere, leaves the report clean.\<close>

theorem second_transfer_unnoticed:
  "clean_under \<lparr>in_intents = [sample_intent ''x''], in_entries = [sample_debit ''x''],
     in_events = [sample_event ''x'' ''1000'', sample_event ''x'' ''99999999''], in_scope = None\<rparr>"
  by code_simp

theorem clean_report_means_agreement_witness:
  "books_agree (in_intents (sample_books None)) (in_entries (sample_books None)) (in_events (sample_books None)) \<and>
   values_agree (in_intents (sample_books None)) (in_entries (sample_books None)) (in_events (sample_books None))"
proof -
  obtain rep where rep: "fst (reconcile ''0'' ''now'' (sample_books None) no_attestor) = Inr rep"
    "sm_allReconciled (rn_summary rep)"
  proof -
    have "clean_under (sample_books None)" by code_simp
    then show ?thesis using that by (auto simp: clean_under_def split: sum.splits)
  qed
  have "distinct (map rl_id (filterEntries (in_entries (sample_books None)) (in_scope (sample_books None))))"
    by code_simp
  moreover have "single_transfers (in_events (sample_books None))" by code_simp
  ultimately show ?thesis using clean_report_means_agreement[OF rep(1)] rep(2)
    by (simp add: filterIntents_def filterEntries_def filterEvents_def sample_books_def)
qed

theorem reconciliation_returns_witness:
  "\<exists>rep c'. reconcile ''0'' ''now'' \<lparr>in_intents = [sample_intent ''x''], in_entries = [sample_debit ''x''],
     in_events = [sample_event ''x'' ''not a number''], in_scope = None\<rparr> no_attestor = (Inr rep, c')"
proof -
  have "readable (usdc ''10'' 0)" "readable (usdc ''10.0'' 1)"
  proof -
    have "scaled_of (usdc ''10'' 0) = Inr 10" "scaled_of (usdc ''10.0'' 1) = Inr 100" by code_simp+
    then show "readable (usdc ''10'' 0)" "readable (usdc ''10.0'' 1)" by (auto simp: readable_def)
  qed
  then show ?thesis
    using reconciliation_returns[of "\<lparr>in_intents = [sample_intent ''x''], in_entries = [sample_debit ''x''],
      in_events = [sample_event ''x'' ''not a number''], in_scope = None\<rparr>" "''0''" "''now''" no_attestor]
    by (auto simp: filterIntents_def filterEntries_def sample_intent_def sample_debit_def)
qed

subsection \<open>The registrar as the attestor sees it\<close>

text \<open>
  The laws the attestor relies on: a registrar that works (\<open>usable\<close>) accepts a root of an id it has
  no version of, accepts an update of an id it has, which adds one version to the id's history, and
  refuses a second root.
\<close>

locale transition_log =
  fixes reg :: "'r \<Rightarrow> transition \<Rightarrow> (registrum_error + registration_result) \<times> 'r"
    and usable :: "'r \<Rightarrow> bool"
    and depth :: "'r \<Rightarrow> string \<Rightarrow> nat"
  assumes root: "usable r \<Longrightarrow> tr_from t = None \<Longrightarrow> st_id (tr_to t) = i \<Longrightarrow> i \<noteq> [] \<Longrightarrow> isRootState (tr_to t) \<Longrightarrow>
      depth r i = 0 \<Longrightarrow> \<exists>n xs r'. reg r t = (Inr (Accepted i n xs), r') \<and> usable r' \<and> depth r' i = 1"
    and update: "usable r \<Longrightarrow> tr_from t = Some i \<Longrightarrow> st_id (tr_to t) = i \<Longrightarrow> i \<noteq> [] \<Longrightarrow> \<not> isRootState (tr_to t) \<Longrightarrow>
      0 < depth r i \<Longrightarrow> \<exists>n xs r'. reg r t = (Inr (Accepted i n xs), r') \<and> usable r' \<and> depth r' i = Suc (depth r i)"
    and second_root: "usable r \<Longrightarrow> tr_from t = None \<Longrightarrow> st_id (tr_to t) = i \<Longrightarrow> 0 < depth r i \<Longrightarrow>
      \<exists>vs r'. reg r t = (Inr (Rejected vs), r') \<and> usable r' \<and> depth r' i = depth r i"

fun attest_all ::
  "'r registration \<Rightarrow> hasher \<Rightarrow> report_canon \<Rightarrow> (reconciliation_report \<Rightarrow> jsval) \<Rightarrow>
   (string \<times> reconciliation_report) list \<Rightarrow> 'r attestor \<Rightarrow> (attest_error + attestation_record) list \<times> 'r attestor" where
  "attest_all reg H canon as_js [] a = ([], a)"
| "attest_all reg H canon as_js ((now, rep) # reps) a =
     (case attest reg H canon as_js now rep a of
        (res, a') \<Rightarrow> (case attest_all reg H canon as_js reps a' of (rs, a'') \<Rightarrow> (res # rs, a'')))"

definition attested :: "hasher \<Rightarrow> report_canon \<Rightarrow> attest_error + attestation_record \<Rightarrow> reconciliation_report \<Rightarrow> bool" where
  "attested H canon res rep \<longleftrightarrow>
     (\<exists>rec. res = Inr rec \<and> ar_reconciliationId rec = rn_id rep \<and> ar_reportHash rec = hashReport H canon rep \<and>
        ar_allReconciled rec = sm_allReconciled (rn_summary rep))"

lemma attestation_transition_simps [simp]:
  "tr_from (attestation_transition as_js now hash rep a) = at_lastStateId a"
  "st_id (tr_to (attestation_transition as_js now hash rep a)) = at_stateId a"
  "isRootState (tr_to (attestation_transition as_js now hash rep a)) \<longleftrightarrow> at_lastStateId a = None"
  by (auto simp: attestation_transition_def Let_def isRootState_simp object_value_def js_property_def
      inherited_from_object_def object_prototype_names_def)

context transition_log
begin

text \<open>The attestor is in step with its registrar: it knows of a version exactly when there is one.\<close>

definition in_step :: "'r attestor \<Rightarrow> bool" where
  "in_step a \<longleftrightarrow>
     usable (at_registrar a) \<and> at_stateId a \<noteq> [] \<and>
     at_lastStateId a = (if depth (at_registrar a) (at_stateId a) = 0 then None else Some (at_stateId a))"

lemma attest_in_step:
  assumes "in_step a"
  obtains res a' where "attest reg H canon as_js now rep a = (res, a')" "attested H canon res rep" "in_step a'"
    "at_stateId a' = at_stateId a" "depth (at_registrar a') (at_stateId a) = Suc (depth (at_registrar a) (at_stateId a))"
proof -
  let ?t = "attestation_transition as_js now (hashReport H canon rep) rep a"
  have "\<exists>n xs r'. reg (at_registrar a) ?t = (Inr (Accepted (at_stateId a) n xs), r') \<and> usable r' \<and>
      depth r' (at_stateId a) = Suc (depth (at_registrar a) (at_stateId a))"
  proof (cases "depth (at_registrar a) (at_stateId a)")
    case 0
    then show ?thesis using root[of "at_registrar a" ?t "at_stateId a"] assms by (auto simp: in_step_def)
  next
    case (Suc n)
    then show ?thesis using update[of "at_registrar a" ?t "at_stateId a"] assms by (auto simp: in_step_def)
  qed
  then obtain n xs r' where "reg (at_registrar a) ?t = (Inr (Accepted (at_stateId a) n xs), r')" "usable r'"
    "depth r' (at_stateId a) = Suc (depth (at_registrar a) (at_stateId a))"
    by blast
  note facts = this
  let ?a' = "a\<lparr>at_registrar := r', at_lastStateId := Some (at_stateId a)\<rparr>"
  have "in_step ?a'" using facts(2,3) assms by (simp add: in_step_def)
  moreover obtain res where "attest reg H canon as_js now rep a = (res, ?a')" "attested H canon res rep"
    using facts(1) by (simp add: attest_def Let_def attested_def)
  ultimately show ?thesis using facts(3) by (intro that[of res ?a']) simp_all
qed

lemma attest_all_in_step:
  assumes "in_step a" "attest_all reg H canon as_js reps a = (rs, a')"
  shows "list_all2 (attested H canon) rs (map snd reps) \<and> in_step a' \<and> at_stateId a' = at_stateId a \<and>
    depth (at_registrar a') (at_stateId a) = length reps + depth (at_registrar a) (at_stateId a)"
  using assms
proof (induction reps arbitrary: a rs)
  case (Cons p reps)
  obtain now rep where p: "p = (now, rep)" by fastforce
  obtain res a1 where one: "attest reg H canon as_js now rep a = (res, a1)" "attested H canon res rep" "in_step a1"
    "at_stateId a1 = at_stateId a" "depth (at_registrar a1) (at_stateId a) = Suc (depth (at_registrar a) (at_stateId a))"
    using attest_in_step[OF Cons.prems(1)] by blast
  obtain rs1 where rest: "attest_all reg H canon as_js reps a1 = (rs1, a')" "rs = res # rs1"
    using Cons.prems(2) one(1) p by (auto split: prod.splits)
  from Cons.IH[OF one(3) rest(1)] one rest(2) p show ?case by simp
qed simp

text \<open>A new attestor over a registrar that already has its id.\<close>

lemma attest_out_of_step:
  assumes "usable (at_registrar a)" "at_lastStateId a = None" "0 < depth (at_registrar a) (at_stateId a)"
  shows "\<exists>vs a'. attest reg H canon as_js now rep a = (Inl (AttestationRejected vs), a') \<and>
    usable (at_registrar a') \<and> at_lastStateId a' = None \<and> at_stateId a' = at_stateId a \<and>
    0 < depth (at_registrar a') (at_stateId a)"
  using second_root[of "at_registrar a" "attestation_transition as_js now (hashReport H canon rep) rep a" "at_stateId a"] assms
  by (auto simp: attest_def Let_def)

lemma attest_all_out_of_step:
  assumes "usable (at_registrar a)" "at_lastStateId a = None" "0 < depth (at_registrar a) (at_stateId a)"
    "attest_all reg H canon as_js reps a = (rs, a')"
  shows "length rs = length reps \<and> (\<forall>r \<in> set rs. \<exists>vs. r = Inl (AttestationRejected vs))"
  using assms
proof (induction reps arbitrary: a rs)
  case (Cons p reps)
  obtain now rep where p: "p = (now, rep)" by fastforce
  obtain vs a1 where one: "attest reg H canon as_js now rep a = (Inl (AttestationRejected vs), a1)"
    "usable (at_registrar a1)" "at_lastStateId a1 = None" "at_stateId a1 = at_stateId a"
    "0 < depth (at_registrar a1) (at_stateId a)"
    using attest_out_of_step[OF Cons.prems(1-3)] by blast
  obtain rs1 where rest: "attest_all reg H canon as_js reps a1 = (rs1, a')" "rs = Inl (AttestationRejected vs) # rs1"
    using Cons.prems(4) one(1) p by (auto split: prod.splits)
  from Cons.IH[OF one(2,3) _ rest(1)] one(4,5) rest(2) show ?case by simp
qed simp

end

lemma version_count_registered:
  assumes "history_wf r"
  shows "isRegistered r i \<longleftrightarrow> 0 < version_count (versions r) i"
proof -
  have "isRegistered r i \<longleftrightarrow> last_version (versions r) i \<noteq> None"
    using assms by (simp add: isRegistered_def jm_has_def history_wf_def)
  then show ?thesis by (simp add: last_version_None version_count_def)
qed

lemma version_count_appended:
  "version_count (versions (appended r t)) i =
   version_count (versions r) i + (if st_id (tr_to t) = i then 1 else 0)"
  by (simp add: versions_appended version_count_def)

lemma versions_noted [simp]: "versions (noted r p) = versions r"
  by (simp add: noted_def)

interpretation registrum_log: transition_log register ready "\<lambda>r i. version_count (versions r) i"
proof
  fix r :: registrar and t :: transition and i :: string
  assume r: "ready r" and t: "tr_from t = None" "st_id (tr_to t) = i" "i \<noteq> []" "isRootState (tr_to t)"
    and none: "version_count (versions r) i = 0"
  have "admissible strict r t" for strict
    using t none r version_count_registered[of r i] by (simp add: admissible_def extends_history_def ready_def)
  then obtain n xs where "register r t = (Inr (Accepted i n xs), noted (appended r t) AGREED)"
    using register_registers[OF r, of t] t by (auto simp: registers_def divergent_def)
  moreover have "ready (appended r t)" using r t none version_count_registered[of r i]
    by (intro ready_appended) (auto simp: extends_history_def ready_def)
  ultimately show "\<exists>n xs r'. register r t = (Inr (Accepted i n xs), r') \<and> ready r' \<and> version_count (versions r') i = 1"
    using t(2) none by (simp add: version_count_appended)
next
  fix r :: registrar and t :: transition and i :: string
  assume r: "ready r" and t: "tr_from t = Some i" "st_id (tr_to t) = i" "i \<noteq> []" "\<not> isRootState (tr_to t)"
    and some: "0 < version_count (versions r) i"
  have "admissible strict r t" for strict
    using t some r version_count_registered[of r i] by (simp add: admissible_def extends_history_def ready_def)
  then obtain n xs where "register r t = (Inr (Accepted i n xs), noted (appended r t) AGREED)"
    using register_registers[OF r, of t] t by (auto simp: registers_def divergent_def)
  moreover have "ready (appended r t)" using r t some version_count_registered[of r i]
    by (intro ready_appended) (auto simp: extends_history_def ready_def)
  ultimately show "\<exists>n xs r'. register r t = (Inr (Accepted i n xs), r') \<and> ready r' \<and>
      version_count (versions r') i = Suc (version_count (versions r) i)"
    using t(2) by (simp add: version_count_appended)
next
  fix r :: registrar and t :: transition and i :: string
  assume r: "ready r" and t: "tr_from t = None" "st_id (tr_to t) = i" and some: "0 < version_count (versions r) i"
  have "\<not> admissible strict r t" for strict
    using t some r version_count_registered[of r i] by (simp add: admissible_def extends_history_def ready_def)
  then obtain vs where "register r t = (Inr (Rejected vs), noted r AGREED)"
    using register_registers[OF r, of t] t by (auto simp: registers_def divergent_def)
  then show "\<exists>vs r'. register r t = (Inr (Rejected vs), r') \<and> ready r' \<and> version_count (versions r') i = version_count (versions r) i"
    using r by simp
qed

lemma registrar_version_count:
  assumes "ready r"
  shows "version_count (versions r) i = length (getLineage r i)"
  using getLineage_history[of r i] assms by (simp add: ready_def)

text \<open>Every report is attested: a new attestor over a reachable registrar in which its state id is not
  registered has each of its reports accepted, in any number, with a record of the report's hash and
  verdict, and afterwards the lineage of its state in the registrar has one version per report.\<close>

theorem reports_are_attested:
  assumes "registrar_reachable r" "\<not> isRegistered r (''attestation:'' @ who)"
    "attest_all register H canon as_js reps (new_attestor r who) = (rs, a')"
  shows "list_all2 (attested H canon) rs (map snd reps) \<and>
    length (getLineage (at_registrar a') (''attestation:'' @ who)) = length reps"
proof -
  have ready: "ready r" using assms(1) by (rule registrar_reachable_ready)
  then have "registrum_log.in_step (new_attestor r who)"
    using assms(2) version_count_registered[of r "''attestation:'' @ who"]
    by (simp add: registrum_log.in_step_def new_attestor_def ready_def)
  from registrum_log.attest_all_in_step[OF this assms(3)]
  have all: "list_all2 (attested H canon) rs (map snd reps)" "ready (at_registrar a')"
    "version_count (versions (at_registrar a')) (''attestation:'' @ who) =
     length reps + version_count (versions r) (''attestation:'' @ who)"
    by (simp_all add: registrum_log.in_step_def new_attestor_def)
  moreover have "version_count (versions r) (''attestation:'' @ who) = 0"
    using assms(2) ready version_count_registered[of r "''attestation:'' @ who"] by (simp add: ready_def)
  ultimately show ?thesis using registrar_version_count[of "at_registrar a'"] by simp
qed

text \<open>An attestor does not survive a restart: created over a registrar that already holds a version of its
  state (it always starts without a last state, so it declares a root again), it has every report
  rejected from then on.\<close>

theorem restarted_attestor_rejected:
  assumes "registrar_reachable r" "isRegistered r (''attestation:'' @ who)"
    "attest_all register H canon as_js reps (new_attestor r who) = (rs, a')"
  shows "length rs = length reps \<and> (\<forall>res \<in> set rs. \<exists>vs. res = Inl (AttestationRejected vs))"
proof -
  have ready: "ready r" using assms(1) by (rule registrar_reachable_ready)
  then have "0 < version_count (versions r) (''attestation:'' @ who)"
    using assms(2) version_count_registered[of r "''attestation:'' @ who"] by (simp add: ready_def)
  then show ?thesis using registrum_log.attest_all_out_of_step[OF _ _ _ assms(3)] ready
    by (simp add: new_attestor_def)
qed

definition sample_report :: reconciliation_report where
  "sample_report = \<lparr>rn_id = ''recon:0:1'', rn_scope = None, rn_timestamp = ''now'', rn_intentLedger = [],
     rn_ledgerChain = [], rn_intentChain = [], rn_summary = computeSummary 0 0 0 []\<rparr>"

theorem reports_are_attested_witness:
  "length (getLineage (at_registrar (snd (attest_all register sample_hash (\<lambda>c. []) (\<lambda>rep. JNull)
     [(''t1'', sample_report), (''t2'', sample_report)] (new_attestor sample_registrar ''r''))))
     (''attestation:'' @ ''r'')) = 2"
proof -
  have "\<not> isRegistered sample_registrar (''attestation:'' @ ''r'')"
    by (simp add: isRegistered_def sample_registrar_def)
  from reports_are_attested[OF sample_registrar_reachable this surjective_pairing] show ?thesis
    by (simp del: attest_all.simps)
qed

theorem restarted_attestor_rejected_witness:
  "\<exists>r. registrar_reachable r \<and>
    (\<exists>vs. fst (attest_all register sample_hash (\<lambda>c. []) (\<lambda>rep. JNull) [(''t'', sample_report)] (new_attestor r ''r'')) =
      [Inl (AttestationRejected vs)])"
proof -
  let ?t = "attestation_transition (\<lambda>rep. JNull) ''t'' [] sample_report (new_attestor sample_registrar ''r'')"
  let ?r = "snd (register sample_registrar ?t)"
  have reach: "registrar_reachable ?r"
    by (rule registrar_reachable.registration[OF sample_registrar_reachable]) (rule prod.collapse[symmetric])
  have "isRegistered ?r (''attestation:'' @ ''r'')"
  proof -
    have ready: "ready sample_registrar" by (rule registrar_reachable_ready[OF sample_registrar_reachable])
    have "version_count (versions sample_registrar) (''attestation:'' @ ''r'') = 0"
      by (simp add: version_count_def versions_def sample_registrar_def)
    from registrum_log.root[OF ready, of ?t, OF _ _ _ _ this]
    have "0 < version_count (versions ?r) (''attestation:'' @ ''r'')" by (auto simp: new_attestor_def)
    then show ?thesis
      using version_count_registered[of ?r] registrar_reachable_ready[OF reach] by (simp add: ready_def)
  qed
  from restarted_attestor_rejected[OF reach this surjective_pairing,
      of sample_hash "\<lambda>c. []" "\<lambda>rep. JNull" "[(''t'', sample_report)]"]
  have "length (fst (attest_all register sample_hash (\<lambda>c. []) (\<lambda>rep. JNull) [(''t'', sample_report)] (new_attestor ?r ''r''))) = 1"
    "\<forall>res \<in> set (fst (attest_all register sample_hash (\<lambda>c. []) (\<lambda>rep. JNull) [(''t'', sample_report)] (new_attestor ?r ''r''))).
      \<exists>vs. res = Inl (AttestationRejected vs)"
    by (simp_all del: attest_all.simps)
  then have "\<exists>vs. fst (attest_all register sample_hash (\<lambda>c. []) (\<lambda>rep. JNull) [(''t'', sample_report)] (new_attestor ?r ''r'')) =
      [Inl (AttestationRejected vs)]"
    by (auto simp: length_Suc_conv simp del: attest_all.simps)
  then show ?thesis using reach by blast
qed

end
