(* ===== verification/Memo.thy ===== *)
theory Memo
  imports Reconciler Json
begin

section \<open>Attestation payloads and memos\<close>

text \<open>
  Model of \<^verbatim>\<open>packages/witness/src/payload.ts\<close>, \<^verbatim>\<open>memo-encoder.ts\<close> and
  \<^verbatim>\<open>verifier.ts\<close>: payloads whose hash is that of their canonical content, their encoding as
  hexadecimal memos of a transaction, and the verification of a witness record against the
  transaction on the chain. A payload that was decoded is whatever JSON the memo has. Canonical JSON
  (\<open>canon\<close>), SHA-256 and the answer of the node to the query of a transaction are parameters; so is
  \<open>other\<close>, what \<^verbatim>\<open>JSON.parse\<close> makes of a text that the model's strings of 8-bit code units
  cannot express. Connecting is the flag \<open>online\<close>; messages of discrepancies are a datatype.

  The lemmas are the round trip through a memo, that a record verifies when its transaction carries its
  memo, and that the payload on the chain of a verified record has the content its hash was computed of.
\<close>

subsection \<open>Payloads\<close>

datatype attestation_source =
    From_reconciliation (src_reportId: string) (src_reportHash: string)
  | From_registrum (src_stateId: string) (src_orderIndex: int)

record payload_summary =
  ps_clean :: bool
  ps_matchedCount :: int
  ps_mismatchCount :: int
  ps_missingCount :: int
  ps_attestedBy :: string

record attestation_payload =
  ap_hash :: string
  ap_timestamp :: string
  ap_source :: attestation_source
  ap_summary :: payload_summary

definition source_json :: "attestation_source \<Rightarrow> json" where
  "source_json s = (case s of
     From_reconciliation i h \<Rightarrow> Js_obj [(''kind'', Js_str ''reconciliation''), (''reportId'', Js_str i), (''reportHash'', Js_str h)]
   | From_registrum i n \<Rightarrow> Js_obj [(''kind'', Js_str ''registrum''), (''stateId'', Js_str i), (''orderIndex'', Js_num n)])"

definition summary_json :: "payload_summary \<Rightarrow> json" where
  "summary_json s = Js_obj [(''clean'', Js_bool (ps_clean s)), (''matchedCount'', Js_num (ps_matchedCount s)),
     (''mismatchCount'', Js_num (ps_mismatchCount s)), (''missingCount'', Js_num (ps_missingCount s)),
     (''attestedBy'', Js_str (ps_attestedBy s))]"

definition payload_json :: "attestation_payload \<Rightarrow> json" where
  "payload_json p = Js_obj [(''hash'', Js_str (ap_hash p)), (''timestamp'', Js_str (ap_timestamp p)),
     (''source'', source_json (ap_source p)), (''summary'', summary_json (ap_summary p))]"

text \<open>The content that is hashed. Properties that are undefined are left out of canonical JSON.\<close>

definition payload_content :: "json option \<Rightarrow> json option \<Rightarrow> json option \<Rightarrow> json" where
  "payload_content source summary timestamp =
     Js_obj (concat (map (\<lambda>(k, v). case v of None \<Rightarrow> [] | Some x \<Rightarrow> [(k, x)])
       [(''source'', source), (''summary'', summary), (''timestamp'', timestamp)]))"

definition make_payload ::
  "hasher \<Rightarrow> (json \<Rightarrow> string) \<Rightarrow> attestation_source \<Rightarrow> payload_summary \<Rightarrow> string \<Rightarrow> attestation_payload" where
  "make_payload H canon source summary timestamp =
     (let content = canon (payload_content (Some (source_json source)) (Some (summary_json summary)) (Some (Js_str timestamp)))
      in \<lparr>ap_hash = sha256 H content, ap_timestamp = timestamp, ap_source = source, ap_summary = summary\<rparr>)"

definition buildReconciliationPayload ::
  "hasher \<Rightarrow> (json \<Rightarrow> string) \<Rightarrow> reconciliation_report \<Rightarrow> attestation_record \<Rightarrow> string \<Rightarrow> attestation_payload" where
  "buildReconciliationPayload H canon report attestation timestamp =
     make_payload H canon (From_reconciliation (rn_id report) (ar_reportHash attestation))
       \<lparr>ps_clean = sm_allReconciled (rn_summary report), ps_matchedCount = int (sm_matchedCount (rn_summary report)),
        ps_mismatchCount = int (sm_mismatchCount (rn_summary report)),
        ps_missingCount = int (sm_missingCount (rn_summary report)), ps_attestedBy = ar_attestedBy attestation\<rparr>
       timestamp"

record partial_summary =
  pt_clean :: "bool option"
  pt_matchedCount :: "int option"
  pt_mismatchCount :: "int option"
  pt_missingCount :: "int option"

definition option_default :: "'a option \<Rightarrow> 'a \<Rightarrow> 'a" where
  "option_default x d = (case x of None \<Rightarrow> d | Some y \<Rightarrow> y)"

definition buildRegistrumPayload ::
  "hasher \<Rightarrow> (json \<Rightarrow> string) \<Rightarrow> string \<Rightarrow> int \<Rightarrow> string \<Rightarrow> partial_summary \<Rightarrow> string \<Rightarrow> attestation_payload" where
  "buildRegistrumPayload H canon stateId orderIndex attestedBy summary timestamp =
     make_payload H canon (From_registrum stateId orderIndex)
       \<lparr>ps_clean = option_default (pt_clean summary) True,
        ps_matchedCount = option_default (pt_matchedCount summary) 0,
        ps_mismatchCount = option_default (pt_mismatchCount summary) 0,
        ps_missingCount = option_default (pt_missingCount summary) 0, ps_attestedBy = attestedBy\<rparr>
       timestamp"

definition own_property :: "json \<Rightarrow> string \<Rightarrow> json option" where
  "own_property v k = (case v of Js_obj ps \<Rightarrow> map_of ps k | _ \<Rightarrow> None)"

definition content_of :: "json \<Rightarrow> json" where
  "content_of v = payload_content (own_property v ''source'') (own_property v ''summary'') (own_property v ''timestamp'')"

text \<open>\<^verbatim>\<open>verifyPayloadHash\<close>; reading a property of \<^verbatim>\<open>null\<close> throws.\<close>

definition verifyPayloadHash :: "hasher \<Rightarrow> (json \<Rightarrow> string) \<Rightarrow> json \<Rightarrow> bool result" where
  "verifyPayloadHash H canon v =
     (if v = Js_null then Inl PlainError
      else Inr (Some (Js_str (sha256 H (canon (content_of v)))) = own_property v ''hash''))"

subsection \<open>Memos\<close>

record xrpl_memo =
  mm_MemoType :: string
  mm_MemoData :: string
  mm_MemoFormat :: "string option"

definition MEMO_TYPE :: string where
  "MEMO_TYPE = ''attestia/witness/v1''"

definition MEMO_FORMAT :: string where
  "MEMO_FORMAT = ''application/json''"

definition MAX_MEMO_BYTES :: nat where
  "MAX_MEMO_BYTES = 256 * 1024"

definition upper_hex :: "nat \<Rightarrow> char" where
  "upper_hex n = ''0123456789ABCDEF'' ! n"

definition toHex :: "string \<Rightarrow> string" where
  "toHex s = concat (map (\<lambda>b. [upper_hex (unat b div 16), upper_hex (unat b mod 16)]) (utf8 s))"

definition nibble :: "char \<Rightarrow> nat option" where
  "nibble c =
     (let n = of_char c :: nat
      in if 48 \<le> n \<and> n \<le> 57 then Some (n - 48)
         else if 65 \<le> n \<and> n \<le> 70 then Some (n - 55)
         else if 97 \<le> n \<and> n \<le> 102 then Some (n - 87) else None)"

text \<open>\<^verbatim>\<open>Buffer.from(hex, "hex")\<close> stops at the first pair that is not hexadecimal.\<close>

fun buffer_of_hex :: "string \<Rightarrow> byte list" where
  "buffer_of_hex (a # b # s) =
     (case (nibble a, nibble b) of (Some x, Some y) \<Rightarrow> of_nat (16 * x + y) # buffer_of_hex s | _ \<Rightarrow> [])"
| "buffer_of_hex _ = []"

text \<open>The text of UTF-8 bytes, \<open>None\<close> when it has a character that is no 8-bit code unit.\<close>

fun utf8_text :: "byte list \<Rightarrow> string option" where
  "utf8_text [] = Some []"
| "utf8_text (b # bs) =
     (if unat b < 128 then map_option (\<lambda>s. char_of (unat b) # s) (utf8_text bs)
      else case bs of
             [] \<Rightarrow> None
           | c # cs \<Rightarrow>
               if 194 \<le> unat b \<and> unat b \<le> 195 \<and> 128 \<le> unat c \<and> unat c < 192
               then map_option (\<lambda>s. char_of (64 * (unat b - 192) + (unat c - 128)) # s) (utf8_text cs)
               else None)"

definition fromHex :: "string \<Rightarrow> string option" where
  "fromHex hex = utf8_text (buffer_of_hex hex)"

definition encodeMemo :: "json \<Rightarrow> xrpl_memo result" where
  "encodeMemo payload =
     (let hexData = toHex (JSON_stringify payload)
      in bind_r (throw_when (MAX_MEMO_BYTES < length hexData div 2) PlainError) (\<lambda>_.
           Inr \<lparr>mm_MemoType = toHex MEMO_TYPE, mm_MemoData = hexData, mm_MemoFormat = Some (toHex MEMO_FORMAT)\<rparr>))"

definition decodeMemo :: "(byte list \<Rightarrow> json option) \<Rightarrow> xrpl_memo \<Rightarrow> json result" where
  "decodeMemo other memo =
     bind_r (throw_when (fromHex (mm_MemoType memo) \<noteq> Some MEMO_TYPE) PlainError) (\<lambda>_.
       case (case fromHex (mm_MemoData memo) of
               None \<Rightarrow> other (buffer_of_hex (mm_MemoData memo))
             | Some payloadJson \<Rightarrow> JSON_parse payloadJson) of
         None \<Rightarrow> Inl PlainError
       | Some v \<Rightarrow> Inr v)"

definition isAttestiaMemo :: "xrpl_memo \<Rightarrow> bool" where
  "isAttestiaMemo memo \<longleftrightarrow> fromHex (mm_MemoType memo) = Some MEMO_TYPE"

subsection \<open>Verification against the chain\<close>

record witness_record =
  wr_id :: string
  wr_payload :: attestation_payload
  wr_chainId :: string
  wr_txHash :: string
  wr_ledgerIndex :: int
  wr_witnessedAt :: string
  wr_witnessAccount :: string

datatype witness_discrepancy = No_memos | No_attestia_memo | Payload_hash_mismatch | Content_hash_mismatch | Fetch_failed

record verification_result =
  vr_verified :: bool
  vr_witnessRecord :: witness_record
  vr_onChainHash :: "json option"
  vr_discrepancies :: "witness_discrepancy list"

definition refused :: "witness_record \<Rightarrow> witness_discrepancy \<Rightarrow> verification_result" where
  "refused record d = \<lparr>vr_verified = False, vr_witnessRecord = record, vr_onChainHash = None, vr_discrepancies = [d]\<rparr>"

text \<open>The part of \<^verbatim>\<open>verify\<close> in the \<^verbatim>\<open>try\<close> block: the memos of the transaction (undefined when it
  has none) are looked through for the first one of the type of Attestia.\<close>

definition verify_memos ::
  "hasher \<Rightarrow> (json \<Rightarrow> string) \<Rightarrow> (byte list \<Rightarrow> json option) \<Rightarrow> witness_record \<Rightarrow> xrpl_memo list option \<Rightarrow>
   verification_result result" where
  "verify_memos H canon other record memos =
     (if memos = None \<or> memos = Some [] then Inr (refused record No_memos)
      else case find isAttestiaMemo (option_default memos []) of
             None \<Rightarrow> Inr (refused record No_attestia_memo)
           | Some memo \<Rightarrow>
               bind_r (decodeMemo other memo) (\<lambda>onChain.
               bind_r (throw_when (onChain = Js_null) PlainError) (\<lambda>_.
               bind_r (verifyPayloadHash H canon onChain) (\<lambda>consistent.
                 let discrepancies =
                       (if own_property onChain ''hash'' \<noteq> Some (Js_str (ap_hash (wr_payload record)))
                        then [Payload_hash_mismatch] else []) @
                       (if consistent then [] else [Content_hash_mismatch])
                 in Inr \<lparr>vr_verified = (discrepancies = []), vr_witnessRecord = record,
                         vr_onChainHash = own_property onChain ''hash'', vr_discrepancies = discrepancies\<rparr>))))"

definition verifyWitness ::
  "hasher \<Rightarrow> (json \<Rightarrow> string) \<Rightarrow> (byte list \<Rightarrow> json option) \<Rightarrow> bool \<Rightarrow> (string \<Rightarrow> xrpl_memo list option result) \<Rightarrow>
   witness_record \<Rightarrow> verification_result result" where
  "verifyWitness H canon other online fetch record =
     bind_r (throw_when (\<not> online) PlainError) (\<lambda>_.
       case bind_r (fetch (wr_txHash record)) (verify_memos H canon other record) of
         Inl _ \<Rightarrow> Inr (refused record Fetch_failed)
       | Inr res \<Rightarrow> Inr res)"

definition fetchPayload ::
  "(byte list \<Rightarrow> json option) \<Rightarrow> bool \<Rightarrow> (string \<Rightarrow> xrpl_memo list option result) \<Rightarrow> string \<Rightarrow> json option result" where
  "fetchPayload other online fetch txHash =
     bind_r (throw_when (\<not> online) PlainError) (\<lambda>_.
     bind_r (fetch txHash) (\<lambda>memos.
       case memos of
         None \<Rightarrow> Inr None
       | Some ms \<Rightarrow> (case find isAttestiaMemo ms of
             None \<Rightarrow> Inr None
           | Some memo \<Rightarrow> bind_r (decodeMemo other memo) (\<lambda>v. Inr (Some v)))))"


subsection \<open>Hexadecimal round trip\<close>

lemma nibble_upper: "n < 16 \<Longrightarrow> nibble (upper_hex n) = Some n"
proof -
  have "\<forall>n < 16. nibble (upper_hex n) = Some n" by code_simp
  then show "n < 16 \<Longrightarrow> nibble (upper_hex n) = Some n" by blast
qed

lemma buffer_of_hex_bytes:
  "buffer_of_hex (concat (map (\<lambda>b. [upper_hex (unat b div 16), upper_hex (unat b mod 16)]) bs)) = bs"
proof (induction bs)
  case (Cons b bs)
  have small: "unat b < 256" using unsigned_less[of b] by simp
  then have "nibble (upper_hex (unat b div 16)) = Some (unat b div 16)" by (intro nibble_upper) simp
  moreover have "nibble (upper_hex (unat b mod 16)) = Some (unat b mod 16)" by (intro nibble_upper) simp
  moreover have "(of_nat (16 * (unat b div 16) + unat b mod 16) :: byte) = b" by simp
  ultimately show ?case using Cons by simp
qed simp

lemma utf8_text_utf8: "utf8_text (utf8 s) = Some s"
proof (induction s)
  case (Cons c s)
  let ?n = "of_char c :: nat"
  have n: "?n < 256" by simp
  have split: "utf8 (c # s) = utf8_char c @ utf8 s" by (simp add: utf8_def)
  show ?case
  proof (cases "?n < 128")
    case True
    then have "unat (of_nat ?n :: byte) = ?n" by (simp add: unat_of_nat)
    then show ?thesis using Cons True unfolding split by (simp add: utf8_char_def)
  next
    case False
    let ?b = "of_nat (192 + ?n div 64) :: byte" and ?c = "of_nat (128 + ?n mod 64) :: byte"
    have "?n div 64 = 2 \<or> ?n div 64 = 3" using n False by linarith
    then have hi: "unat ?b = 192 + ?n div 64" "194 \<le> 192 + ?n div 64" "192 + ?n div 64 \<le> 195" "\<not> unat ?b < 128"
      by (auto simp: unat_of_nat)
    have byte: "unat (of_nat m :: byte) = m" if "m < 256" for m using that by (simp add: unat_of_nat)
    have "?n mod 64 < 64" by simp
    then have lo: "unat ?c = 128 + ?n mod 64" by (intro byte) linarith
    have "64 * (?n div 64) + ?n mod 64 = ?n" by simp
    then have char: "char_of (64 * (unat ?b - 192) + (unat ?c - 128)) = c" unfolding hi(1) lo by simp
    have bytes: "utf8_char c = [?b, ?c]" using False by (simp add: utf8_char_def Let_def)
    have "194 \<le> unat ?b \<and> unat ?b \<le> 195 \<and> 128 \<le> unat ?c \<and> unat ?c < 192" using hi lo by simp
    then show ?thesis using Cons hi(4) char unfolding split bytes by simp
  qed
qed (simp add: utf8_def)

lemma fromHex_toHex: "fromHex (toHex s) = Some s"
  by (simp add: fromHex_def toHex_def buffer_of_hex_bytes utf8_text_utf8)

subsection \<open>Memo round trip\<close>

lemma encoded_memo: "encodeMemo v = Inr m \<Longrightarrow> m = \<lparr>mm_MemoType = toHex MEMO_TYPE,
    mm_MemoData = toHex (JSON_stringify v), mm_MemoFormat = Some (toHex MEMO_FORMAT)\<rparr>"
  by (auto simp: encodeMemo_def Let_def throw_when_def split: if_splits)

lemma decode_encoded:
  assumes "json_normal v" "encodeMemo v = Inr m"
  shows "isAttestiaMemo m" "decodeMemo other m = Inr v"
proof -
  have "JSON_parse (JSON_stringify v) = Some v" unfolding JSON_stringify_def by (rule json_round_trip[OF assms(1)])
  then show "isAttestiaMemo m" "decodeMemo other m = Inr v"
    unfolding encoded_memo[OF assms(2)] by (simp_all add: isAttestiaMemo_def decodeMemo_def fromHex_toHex throw_when_def)
qed

lemma named_normal:
  assumes "distinct (map fst ps)" "\<forall>k \<in> set (map fst ps). \<not> array_index k" "\<forall>p \<in> set ps. json_normal (snd p)"
  shows "json_normal (Js_obj ps)"
  using assms by (simp add: listed_def filter_empty_conv filter_id_conv)

lemma payload_names:
  "\<forall>k \<in> {''hash'', ''timestamp'', ''source'', ''summary'', ''kind'', ''reportId'', ''reportHash'', ''stateId'', ''orderIndex'',
     ''clean'', ''matchedCount'', ''mismatchCount'', ''missingCount'', ''attestedBy''}. \<not> array_index k"
  by (simp add: array_index_def is_digit_def)

lemma payload_normal: "json_normal (payload_json p)"
proof -
  have "json_normal (source_json (ap_source p))"
    unfolding source_json_def using payload_names
    by (cases "ap_source p") (simp_all del: json_normal.simps(2) add: named_normal)
  moreover have "json_normal (summary_json (ap_summary p))"
    unfolding summary_json_def using payload_names by (intro named_normal) simp_all
  ultimately show ?thesis unfolding payload_json_def using payload_names
    by (intro named_normal) (simp_all del: json_normal.simps(2))
qed

lemma payload_properties:
  "own_property (payload_json p) ''hash'' = Some (Js_str (ap_hash p))"
  "content_of (payload_json p) = payload_content (Some (source_json (ap_source p))) (Some (summary_json (ap_summary p)))
     (Some (Js_str (ap_timestamp p)))"
  "payload_json p \<noteq> Js_null"
  by (simp_all add: own_property_def payload_json_def content_of_def)

text \<open>A payload is its own when its hash is that of its content; the built ones are.\<close>

definition self_consistent :: "hasher \<Rightarrow> (json \<Rightarrow> string) \<Rightarrow> attestation_payload \<Rightarrow> bool" where
  "self_consistent H canon p \<longleftrightarrow> verifyPayloadHash H canon (payload_json p) = Inr True"

lemma self_consistent_iff: "self_consistent H canon p \<longleftrightarrow> ap_hash p = sha256 H (canon (content_of (payload_json p)))"
  by (auto simp: self_consistent_def verifyPayloadHash_def payload_properties)

lemma built_payloads_consistent:
  "self_consistent H canon (buildReconciliationPayload H canon report attestation t)"
  "self_consistent H canon (buildRegistrumPayload H canon i n who summary t)"
  by (simp_all add: self_consistent_iff buildReconciliationPayload_def buildRegistrumPayload_def make_payload_def
      payload_properties Let_def)

text \<open>A witness record verifies when the transaction it names carries the memo that encodes its payload
  as the first memo of Attestia: encoding, the hexadecimal text and decoding give back the payload and its hash.\<close>

theorem witnessed_payload_verifies:
  assumes "self_consistent H canon (wr_payload record)" "encodeMemo (payload_json (wr_payload record)) = Inr memo"
    and "fetch (wr_txHash record) = Inr (Some memos)" "find isAttestiaMemo memos = Some memo"
  shows "verifyWitness H canon other True fetch record =
    Inr \<lparr>vr_verified = True, vr_witnessRecord = record, vr_onChainHash = Some (Js_str (ap_hash (wr_payload record))),
         vr_discrepancies = []\<rparr>"
proof -
  have "memos \<noteq> []" using assms(4) by auto
  moreover have "decodeMemo other memo = Inr (payload_json (wr_payload record))"
    by (rule decode_encoded(2)[OF payload_normal assms(2)])
  ultimately show ?thesis using assms(1,3,4)
    by (simp add: verifyWitness_def throw_when_def verify_memos_def option_default_def payload_properties
        self_consistent_def Let_def)
qed

text \<open>When a witness record is verified, the transaction it names carries a memo of Attestia whose
  payload has the recorded hash, and that is the hash of the payload's own content: if the record's payload is
  consistent too, the two contents are the same canonical text, or the two are a collision.\<close>

theorem verified_witness_binds:
  assumes "verifyWitness H canon other online fetch record = Inr res" "vr_verified res"
    and "self_consistent H canon (wr_payload record)"
  shows "\<exists>memos memo v. fetch (wr_txHash record) = Inr (Some memos) \<and> memo \<in> set memos \<and> decodeMemo other memo = Inr v \<and>
    (canon (content_of v) = canon (content_of (payload_json (wr_payload record))) \<or>
     collision H [utf8 (canon (content_of v))] [utf8 (canon (content_of (payload_json (wr_payload record))))])"
proof -
  obtain memos where f: "fetch (wr_txHash record) = Inr memos" "verify_memos H canon other record memos = Inr res"
    using assms(1,2) by (auto simp: verifyWitness_def throw_when_def refused_def bind_r_eq_Inr split: if_splits sum.splits)
  then obtain ms memo v where m: "memos = Some ms" "find isAttestiaMemo ms = Some memo" "decodeMemo other memo = Inr v"
    "v \<noteq> Js_null" "verifyPayloadHash H canon v = Inr True"
    "own_property v ''hash'' = Some (Js_str (ap_hash (wr_payload record)))"
    using assms(2) by (auto simp: verify_memos_def refused_def option_default_def throw_when_def bind_r_eq_Inr Let_def
        split: if_splits option.splits)
  have "memo \<in> set ms" using m(2) by (auto simp: find_Some_iff)
  moreover have "sha256 H (canon (content_of v)) = sha256 H (canon (content_of (payload_json (wr_payload record))))"
    using m(4,5,6) assms(3) by (auto simp: verifyPayloadHash_def self_consistent_iff)
  then have "canon (content_of v) = canon (content_of (payload_json (wr_payload record))) \<or>
      collision H [utf8 (canon (content_of v))] [utf8 (canon (content_of (payload_json (wr_payload record))))]"
    using utf8_inj by (auto simp: collision_def sha256_def)
  ultimately show ?thesis using f(1) m(1,3) by blast
qed

text \<open>Only the hash of the recorded payload is looked at: a record whose payload was replaced under the
  same hash still verifies.\<close>

theorem tampered_record_verifies:
  assumes "ap_hash p = ap_hash (wr_payload record)"
  shows "map_sum id vr_verified (verifyWitness H canon other online fetch (record\<lparr>wr_payload := p\<rparr>)) =
    map_sum id vr_verified (verifyWitness H canon other online fetch record)"
proof -
  have "map_sum id vr_verified (verify_memos H canon other (record\<lparr>wr_payload := p\<rparr>) memos) =
      map_sum id vr_verified (verify_memos H canon other record memos)" for memos
    using assms by (auto simp: verify_memos_def refused_def throw_when_def bind_r_def Let_def split: option.splits sum.splits)
  then have inner: "map_sum id vr_verified (bind_r f (verify_memos H canon other (record\<lparr>wr_payload := p\<rparr>))) =
      map_sum id vr_verified (bind_r f (verify_memos H canon other record))" for f :: "xrpl_memo list option result"
    by (cases f) simp_all
  from inner[of "fetch (wr_txHash record)"] show ?thesis
    by (auto simp: verifyWitness_def throw_when_def refused_def split: sum.splits)
qed


subsection \<open>Witnesses\<close>

definition sample_payload :: attestation_payload where
  "sample_payload = buildRegistrumPayload (\<lambda>_. ''00'') JSON_stringify ''s'' 3 ''me''
     \<lparr>pt_clean = None, pt_matchedCount = Some 2, pt_mismatchCount = None, pt_missingCount = None\<rparr> ''t''"

definition sample_record :: witness_record where
  "sample_record = \<lparr>wr_id = ''witness:00'', wr_payload = sample_payload, wr_chainId = ''xrpl:testnet'', wr_txHash = ''AB'',
     wr_ledgerIndex = 7, wr_witnessedAt = ''t'', wr_witnessAccount = ''r''\<rparr>"

definition sample_memo :: xrpl_memo where
  "sample_memo = \<lparr>mm_MemoType = toHex MEMO_TYPE, mm_MemoData = toHex (JSON_stringify (payload_json sample_payload)),
     mm_MemoFormat = Some (toHex MEMO_FORMAT)\<rparr>"

lemma sample_payload_encoded: "encodeMemo (payload_json sample_payload) = Inr sample_memo"
proof -
  have "length (JSON_stringify (payload_json sample_payload)) < 1000" by code_simp
  moreover have hex: "length (toHex s) \<le> 4 * length s" for s
  proof -
    have "length (utf8 s) \<le> 2 * length s" by (induction s) (auto simp: utf8_def utf8_char_def Let_def)
    moreover have "length (concat (map (\<lambda>b. [f b, g b]) bs)) = 2 * length bs" for f g :: "byte \<Rightarrow> char" and bs
      by (induction bs) simp_all
    ultimately show ?thesis by (simp add: toHex_def)
  qed
  ultimately have "length (toHex (JSON_stringify (payload_json sample_payload))) < 4000"
    using hex[of "JSON_stringify (payload_json sample_payload)"] by linarith
  then show ?thesis by (simp add: encodeMemo_def sample_memo_def throw_when_def MAX_MEMO_BYTES_def Let_def)
qed

lemma sample_payload_consistent: "self_consistent (\<lambda>_. ''00'') JSON_stringify sample_payload"
  unfolding sample_payload_def by (rule built_payloads_consistent)

theorem witnessed_payload_verifies_witness:
  "verifyWitness (\<lambda>_. ''00'') JSON_stringify (\<lambda>_. None) True (\<lambda>_. Inr (Some [sample_memo])) sample_record =
    Inr \<lparr>vr_verified = True, vr_witnessRecord = sample_record,
         vr_onChainHash = Some (Js_str (ap_hash sample_payload)), vr_discrepancies = []\<rparr>"
  using witnessed_payload_verifies[of "\<lambda>_. ''00''" JSON_stringify sample_record sample_memo "\<lambda>_. Inr (Some [sample_memo])" "[sample_memo]"]
    sample_payload_consistent sample_payload_encoded decode_encoded(1)[OF payload_normal sample_payload_encoded]
  by (simp add: sample_record_def)

theorem verified_witness_binds_witness:
  "\<exists>v. decodeMemo (\<lambda>_. None) sample_memo = Inr v \<and>
    (JSON_stringify (content_of v) = JSON_stringify (content_of (payload_json sample_payload)) \<or>
     collision (\<lambda>_. ''00'') [utf8 (JSON_stringify (content_of v))] [utf8 (JSON_stringify (content_of (payload_json sample_payload)))])"
proof -
  have v: "verifyWitness (\<lambda>_. ''00'') JSON_stringify (\<lambda>_. None) True (\<lambda>_. Inr (Some [sample_memo])) sample_record =
    Inr \<lparr>vr_verified = True, vr_witnessRecord = sample_record,
         vr_onChainHash = Some (Js_str (ap_hash sample_payload)), vr_discrepancies = []\<rparr>"
    using sample_payload_consistent decode_encoded[OF payload_normal sample_payload_encoded]
    by (simp add: verifyWitness_def throw_when_def verify_memos_def option_default_def payload_properties
        self_consistent_def Let_def sample_record_def)
  have "wr_payload sample_record = sample_payload" by (simp add: sample_record_def)
  then show ?thesis using verified_witness_binds[OF v] sample_payload_consistent by fastforce
qed

theorem tampered_record_verifies_witness:
  "map_sum id vr_verified (verifyWitness (\<lambda>_. ''00'') JSON_stringify (\<lambda>_. None) True (\<lambda>_. Inr (Some [sample_memo]))
     (sample_record\<lparr>wr_payload := sample_payload\<lparr>ap_timestamp := ''forged''\<rparr>\<rparr>)) = Inr True"
proof -
  have "ap_hash (sample_payload\<lparr>ap_timestamp := ''forged''\<rparr>) = ap_hash (wr_payload sample_record)" by (simp add: sample_record_def)
  from tampered_record_verifies[OF this, where H = "\<lambda>_. ''00''" and canon = JSON_stringify and other = "\<lambda>_. None"
      and online = True and fetch = "\<lambda>_. Inr (Some [sample_memo])"]
  show ?thesis
    using sample_payload_consistent decode_encoded[OF payload_normal sample_payload_encoded]
    by (simp add: verifyWitness_def throw_when_def verify_memos_def option_default_def payload_properties
        self_consistent_def Let_def sample_record_def)
qed

end
