(* ===== verification/Governance.thy ===== *)
theory Governance
  imports Prelude Digest
begin

section \<open>Governance of the witnesses\<close>

text \<open>
  Model of \<^verbatim>\<open>packages/witness/src/governance\<close>: the event-sourced store of signers and quorum
  (\<^verbatim>\<open>governance-store.ts\<close>), the canonical payload and the aggregation of signatures
  (\<^verbatim>\<open>signing.ts\<close>) and the validation of authority and of past quorums
  (\<^verbatim>\<open>registrum-bridge.ts\<close>). Parameters are SHA-256 (\<open>H\<close>), canonical JSON (\<open>canonPolicy\<close>,
  \<open>canonPayload\<close>), the collation keys behind \<^verbatim>\<open>localeCompare\<close> (\<open>collate\<close>),
  \<^verbatim>\<open>deriveAddress\<close> of \<^verbatim>\<open>xrpl\<close> (\<open>derive\<close>, \<open>None\<close> where it throws) and the signature
  verifier, which like \<^verbatim>\<open>xrplSignatureVerifier\<close> returns and does not throw. Weights and
  quorums are integers. Error messages are left out, reasons of rejection are a datatype.

  The invariants hold of stores that the operations build, also when \<^verbatim>\<open>replayFrom\<close> loads a history that
  such a store recorded; other histories it loads unchecked.
\<close>

subsection \<open>Types\<close>

record signer_entry =
  sg_address :: string
  sg_label :: string
  sg_weight :: int
  sg_addedAt :: string
  sg_publicKey :: "string option"

record governance_policy =
  gp_id :: string
  gp_version :: int
  gp_signers :: "signer_entry list"
  gp_quorum :: int
  gp_updatedAt :: string

record quorum_result =
  qr_met :: bool
  qr_totalWeight :: int
  qr_requiredWeight :: int
  qr_signerAddresses :: "string list"
  qr_missingAddresses :: "string list"

datatype governance_event =
    Signer_added string string int string "string option"
  | Signer_removed string string
  | Quorum_changed int int string
  | Policy_rotated string string
  | Sla_policy_set string string int int string

definition event_timestamp :: "governance_event \<Rightarrow> string" where
  "event_timestamp e =
     (case e of
        Signer_added a l w t k \<Rightarrow> t
      | Signer_removed a t \<Rightarrow> t
      | Quorum_changed p q t \<Rightarrow> t
      | Policy_rotated r t \<Rightarrow> t
      | Sla_policy_set i n v c t \<Rightarrow> t)"

record sla_reference =
  sp_id :: string
  sp_name :: string
  sp_version :: int
  sp_targetCount :: int

record governance_store =
  gv_signers :: "(string, signer_entry) jsmap"
  gv_quorum :: int
  gv_version :: int
  gv_lastUpdated :: string
  gv_events :: "governance_event list"
  gv_activeSlaPolicy :: "sla_reference option"

definition new_governance_store :: "string \<Rightarrow> governance_store" where
  "new_governance_store now =
     \<lparr>gv_signers = [], gv_quorum = 1, gv_version = 0, gv_lastUpdated = now, gv_events = [],
      gv_activeSlaPolicy = None\<rparr>"

subsection \<open>The store\<close>

definition apply_change :: "governance_store \<Rightarrow> governance_event \<Rightarrow> governance_store" where
  "apply_change s e =
     (case e of
        Signer_added a l w t k \<Rightarrow>
          s\<lparr>gv_signers := jm_set (gv_signers s) a
             \<lparr>sg_address = a, sg_label = l, sg_weight = w, sg_addedAt = t, sg_publicKey = k\<rparr>\<rparr>
      | Signer_removed a t \<Rightarrow> s\<lparr>gv_signers := AList.delete a (gv_signers s)\<rparr>
      | Quorum_changed p q t \<Rightarrow> s\<lparr>gv_quorum := q\<rparr>
      | Policy_rotated r t \<Rightarrow> s
      | Sla_policy_set i n v c t \<Rightarrow>
          s\<lparr>gv_activeSlaPolicy := Some \<lparr>sp_id = i, sp_name = n, sp_version = v, sp_targetCount = c\<rparr>\<rparr>)"

definition applyEvent :: "governance_store \<Rightarrow> governance_event \<Rightarrow> governance_store" where
  "applyEvent s e =
     (let s' = apply_change s e
      in s'\<lparr>gv_version := gv_version s' + 1, gv_lastUpdated := event_timestamp e,
            gv_events := gv_events s' @ [e]\<rparr>)"

definition total_weight :: "signer_entry list \<Rightarrow> int" where
  "total_weight ss = sum_list (map sg_weight ss)"

definition store_weight :: "governance_store \<Rightarrow> int" where
  "store_weight s = total_weight (jm_values (gv_signers s))"

definition emit_event ::
  "governance_store \<Rightarrow> governance_event \<Rightarrow> governance_event result \<times> governance_store" where
  "emit_event s e = (Inr e, applyEvent s e)"

definition addSigner ::
  "(string \<Rightarrow> string option) \<Rightarrow> governance_store \<Rightarrow> string \<Rightarrow> string \<Rightarrow> int \<Rightarrow> string option \<Rightarrow> string \<Rightarrow>
   governance_event result \<times> governance_store" where
  "addSigner derive s address label weight publicKey now =
     (if jm_has (gv_signers s) address then (Inl PlainError, s)
      else if weight < 1 then (Inl PlainError, s)
      else if (case publicKey of None \<Rightarrow> False | Some k \<Rightarrow> derive k \<noteq> Some address) then (Inl PlainError, s)
      else emit_event s (Signer_added address label weight now publicKey))"

definition removeSigner ::
  "governance_store \<Rightarrow> string \<Rightarrow> string \<Rightarrow> governance_event result \<times> governance_store" where
  "removeSigner s address now =
     (case jm_get (gv_signers s) address of
        None \<Rightarrow> (Inl PlainError, s)
      | Some e \<Rightarrow>
          if store_weight s - sg_weight e < gv_quorum s then (Inl PlainError, s)
          else emit_event s (Signer_removed address now))"

definition changeQuorum ::
  "governance_store \<Rightarrow> int \<Rightarrow> string \<Rightarrow> governance_event result \<times> governance_store" where
  "changeQuorum s newQuorum now =
     (if newQuorum < 1 then (Inl PlainError, s)
      else let total = store_weight s
        in if total > 0 \<and> newQuorum > total then (Inl PlainError, s)
           else emit_event s (Quorum_changed (gv_quorum s) newQuorum now))"

definition setSlaPolicy ::
  "governance_store \<Rightarrow> string \<Rightarrow> string \<Rightarrow> int \<Rightarrow> int \<Rightarrow> string \<Rightarrow> governance_event result \<times> governance_store" where
  "setSlaPolicy s policyId policyName policyVersion targetCount now =
     (if length policyId = 0 then (Inl PlainError, s)
      else if policyVersion < 1 then (Inl PlainError, s)
      else emit_event s (Sla_policy_set policyId policyName policyVersion targetCount now))"

definition getCurrentSlaPolicy :: "governance_store \<Rightarrow> sla_reference option" where
  "getCurrentSlaPolicy s = gv_activeSlaPolicy s"

type_synonym policy_shape = "int \<times> int \<times> (string \<times> int \<times> string option) list"

definition canonicalPolicyShape ::
  "(string \<Rightarrow> string) \<Rightarrow> int \<Rightarrow> signer_entry list \<Rightarrow> int \<Rightarrow> policy_shape" where
  "canonicalPolicyShape collate version signers quorum =
     (version, quorum, map (\<lambda>s. (sg_address s, sg_weight s, sg_publicKey s))
        (sort_key (\<lambda>s. collate (sg_address s)) signers))"

definition policy_id ::
  "hasher \<Rightarrow> (policy_shape \<Rightarrow> string) \<Rightarrow> (string \<Rightarrow> string) \<Rightarrow> int \<Rightarrow> signer_entry list \<Rightarrow> int \<Rightarrow> string" where
  "policy_id H canonPolicy collate version signers quorum =
     take 16 (sha256 H (canonPolicy (canonicalPolicyShape collate version signers quorum)))"

definition getCurrentPolicy ::
  "hasher \<Rightarrow> (policy_shape \<Rightarrow> string) \<Rightarrow> (string \<Rightarrow> string) \<Rightarrow> governance_store \<Rightarrow> governance_policy" where
  "getCurrentPolicy H canonPolicy collate s =
     (let signers = jm_values (gv_signers s)
      in \<lparr>gp_id = policy_id H canonPolicy collate (gv_version s) signers (gv_quorum s),
          gp_version = gv_version s, gp_signers = signers, gp_quorum = gv_quorum s,
          gp_updatedAt = gv_lastUpdated s\<rparr>)"

definition weight_of :: "governance_store \<Rightarrow> string \<Rightarrow> int" where
  "weight_of s a = (case jm_get (gv_signers s) a of None \<Rightarrow> 0 | Some e \<Rightarrow> sg_weight e)"

definition checkQuorum :: "governance_store \<Rightarrow> string list \<Rightarrow> quorum_result" where
  "checkQuorum s signerAddresses =
     (let validSigners = filter (jm_has (gv_signers s)) signerAddresses;
          totalWeight = sum_list (map (weight_of s) validSigners)
      in \<lparr>qr_met = (totalWeight \<ge> gv_quorum s), qr_totalWeight = totalWeight,
          qr_requiredWeight = gv_quorum s, qr_signerAddresses = validSigners,
          qr_missingAddresses = filter (\<lambda>a. a \<notin> set signerAddresses) (jm_keys (gv_signers s))\<rparr>)"

definition replayFrom :: "governance_store \<Rightarrow> governance_event list \<Rightarrow> governance_store" where
  "replayFrom s events =
     foldl applyEvent
       (s\<lparr>gv_signers := [], gv_quorum := 1, gv_version := 0, gv_events := [], gv_activeSlaPolicy := None\<rparr>)
       events"

definition getEventHistory :: "governance_store \<Rightarrow> governance_event list" where
  "getEventHistory s = gv_events s"

definition signerCount :: "governance_store \<Rightarrow> nat" where
  "signerCount s = length (gv_signers s)"

subsection \<open>Signing and aggregation\<close>

record signer_signature =
  ss_address :: string
  ss_signature :: string
  ss_signedAt :: string

type_synonym signature_verifier = "signer_signature \<Rightarrow> string \<Rightarrow> signer_entry \<Rightarrow> bool"

type_synonym signing_payload = "string \<times> string \<times> string \<times> policy_shape"

record aggregated_signature =
  ag_payloadHash :: string
  ag_signatures :: "signer_signature list"
  ag_quorum :: quorum_result
  ag_aggregatedAt :: string

definition signing_payload ::
  "(string \<Rightarrow> string) \<Rightarrow> string \<Rightarrow> string \<Rightarrow> governance_policy \<Rightarrow> signing_payload" where
  "signing_payload collate attestationHash attestationTimestamp p =
     (attestationHash, attestationTimestamp, gp_id p,
      canonicalPolicyShape collate (gp_version p) (gp_signers p) (gp_quorum p))"

definition buildCanonicalSigningPayload ::
  "hasher \<Rightarrow> (signing_payload \<Rightarrow> string) \<Rightarrow> (string \<Rightarrow> string) \<Rightarrow> string \<Rightarrow> string \<Rightarrow> governance_policy \<Rightarrow> string" where
  "buildCanonicalSigningPayload H canonPayload collate attestationHash attestationTimestamp p =
     sha256 H (canonPayload (signing_payload collate attestationHash attestationTimestamp p))"

definition orderSignatures :: "(string \<Rightarrow> string) \<Rightarrow> signer_signature list \<Rightarrow> signer_signature list" where
  "orderSignatures collate sigs = sort_key (\<lambda>s. collate (ss_address s)) sigs"

text \<open>\<^verbatim>\<open>new Map(policy.signers.map((s) => [s.address, s]))\<close>\<close>

definition signer_map :: "governance_policy \<Rightarrow> (string, signer_entry) jsmap" where
  "signer_map p = foldl (\<lambda>m s. jm_set m (sg_address s) s) [] (gp_signers p)"

definition has_public_key :: "signer_entry \<Rightarrow> bool" where
  "has_public_key s \<longleftrightarrow> (case sg_publicKey s of None \<Rightarrow> False | Some k \<Rightarrow> k \<noteq> [])"

definition signature_counts ::
  "signature_verifier option \<Rightarrow> string \<Rightarrow> signer_signature \<Rightarrow> signer_entry \<Rightarrow> bool" where
  "signature_counts verify payloadHash sig s =
     (case verify of None \<Rightarrow> True | Some v \<Rightarrow> v sig payloadHash s)"

definition count_step ::
  "signature_verifier option \<Rightarrow> string \<Rightarrow> (string, signer_entry) jsmap \<Rightarrow> int \<times> string list \<Rightarrow> signer_signature \<Rightarrow>
   int \<times> string list" where
  "count_step verify payloadHash signers st sig =
     (case jm_get signers (ss_address sig) of
        None \<Rightarrow> st
      | Some s \<Rightarrow>
          if signature_counts verify payloadHash sig s
          then (fst st + sg_weight s, List.insert (ss_address sig) (snd st)) else st)"

text \<open>The counted addresses are a \<^verbatim>\<open>Set\<close>: \<open>List.insert\<close> puts a new one in front, so the model lists them
  from the last to the first.\<close>

definition quorum_of :: "governance_policy \<Rightarrow> int \<times> string list \<Rightarrow> quorum_result" where
  "quorum_of p st =
     \<lparr>qr_met = (fst st \<ge> gp_quorum p), qr_totalWeight = fst st, qr_requiredWeight = gp_quorum p,
      qr_signerAddresses = rev (snd st),
      qr_missingAddresses = filter (\<lambda>a. a \<notin> set (snd st)) (map sg_address (gp_signers p))\<rparr>"

definition aggregateSignatures ::
  "(string \<Rightarrow> string) \<Rightarrow> signer_signature list \<Rightarrow> governance_policy \<Rightarrow> string \<Rightarrow> signature_verifier option \<Rightarrow> string \<Rightarrow>
   aggregated_signature result" where
  "aggregateSignatures collate sigs p payloadHash verify now =
     (let addresses = map ss_address sigs; signers = signer_map p in
      bind_r (throw_when (length (remdups addresses) \<noteq> length addresses) PlainError) (\<lambda>_.
      bind_r (forE (\<lambda>a. throw_when (\<not> jm_has signers a) PlainError) addresses) (\<lambda>_.
      bind_r (throw_when (list_ex has_public_key (gp_signers p) \<and> verify = None) PlainError) (\<lambda>_.
      let st = foldl (count_step verify payloadHash signers) (0, []) sigs;
          quorum = quorum_of p st
      in bind_r (throw_when (\<not> qr_met quorum) PlainError) (\<lambda>_.
         Inr \<lparr>ag_payloadHash = payloadHash,
              ag_signatures = orderSignatures collate (filter (\<lambda>s. ss_address s \<in> set (snd st)) sigs),
              ag_quorum = quorum, ag_aggregatedAt = now\<rparr>)))))"

subsection \<open>The bridge to Registrum\<close>

record registrum_state_ref =
  sr_stateId :: string
  sr_orderIndex :: int
  sr_policyId :: string
  sr_policyVersion :: int

datatype governance_rejection =
    Policy_id_mismatch string string
  | Policy_version_mismatch int int
  | No_signers
  | Quorum_exceeds_weight int int
  | Replay_failed int
  | Signer_not_in_policy string int
  | Duplicate_signatures
  | Verifier_required
  | Payload_hash_required
  | Signature_invalid string
  | Quorum_not_met int int

record authority_validation =
  aw_valid :: bool
  aw_policy :: governance_policy
  aw_stateRef :: registrum_state_ref
  aw_rejections :: "governance_rejection list"

definition validateAuthority :: "governance_policy \<Rightarrow> registrum_state_ref \<Rightarrow> authority_validation" where
  "validateAuthority p r =
     (let total = total_weight (gp_signers p);
          rejections =
            (if gp_id p \<noteq> sr_policyId r then [Policy_id_mismatch (sr_policyId r) (gp_id p)] else [])
            @ (if gp_version p \<noteq> sr_policyVersion r
               then [Policy_version_mismatch (sr_policyVersion r) (gp_version p)] else [])
            @ (if length (gp_signers p) = 0 then [No_signers] else [])
            @ (if gp_quorum p > total then [Quorum_exceeds_weight (gp_quorum p) total] else [])
      in \<lparr>aw_valid = (rejections = []), aw_policy = p, aw_stateRef = r, aw_rejections = rejections\<rparr>)"

definition replayGovernanceHistory ::
  "hasher \<Rightarrow> (policy_shape \<Rightarrow> string) \<Rightarrow> (string \<Rightarrow> string) \<Rightarrow> governance_event list \<Rightarrow> string \<Rightarrow> governance_policy" where
  "replayGovernanceHistory H canonPolicy collate events now =
     getCurrentPolicy H canonPolicy collate (replayFrom (new_governance_store now) events)"

definition replayToVersion ::
  "hasher \<Rightarrow> (policy_shape \<Rightarrow> string) \<Rightarrow> (string \<Rightarrow> string) \<Rightarrow> governance_event list \<Rightarrow> int \<Rightarrow> string \<Rightarrow>
   governance_policy result" where
  "replayToVersion H canonPolicy collate events targetVersion now =
     (if targetVersion < 0 then Inl PlainError
      else if targetVersion > int (length events) then Inl PlainError
      else Inr (getCurrentPolicy H canonPolicy collate
                  (replayFrom (new_governance_store now) (take (nat targetVersion) events))))"

record historical_quorum =
  hq_valid :: bool
  hq_policyAtTime :: governance_policy
  hq_quorum :: quorum_result
  hq_rejections :: "governance_rejection list"

type_synonym historical_state = "int \<times> string list \<times> governance_rejection list"

definition historical_step ::
  "signature_verifier option \<Rightarrow> string option \<Rightarrow> (string, signer_entry) jsmap \<Rightarrow> historical_state \<Rightarrow>
   signer_signature \<Rightarrow> historical_state" where
  "historical_step verify payloadHash signers = (\<lambda>(total, counted, rejections) sig.
     case jm_get signers (ss_address sig) of
       None \<Rightarrow> (total, counted, rejections)
     | Some s \<Rightarrow>
         if (case (verify, payloadHash) of (Some v, Some h) \<Rightarrow> \<not> v sig h s | _ \<Rightarrow> False)
         then (total, counted, rejections @ [Signature_invalid (ss_address sig)])
         else if ss_address sig \<notin> set counted
         then (total + sg_weight s, List.insert (ss_address sig) counted, rejections)
         else (total, counted, rejections))"

definition unreplayed :: "int \<Rightarrow> historical_quorum" where
  "unreplayed version =
     \<lparr>hq_valid = False,
      hq_policyAtTime = \<lparr>gp_id = [], gp_version = 0, gp_signers = [], gp_quorum = 1, gp_updatedAt = []\<rparr>,
      hq_quorum = \<lparr>qr_met = False, qr_totalWeight = 0, qr_requiredWeight = 0, qr_signerAddresses = [],
        qr_missingAddresses = []\<rparr>,
      hq_rejections = [Replay_failed version]\<rparr>"

definition validateHistoricalQuorum ::
  "hasher \<Rightarrow> (policy_shape \<Rightarrow> string) \<Rightarrow> (string \<Rightarrow> string) \<Rightarrow> signer_signature list \<Rightarrow> governance_event list \<Rightarrow>
   int \<Rightarrow> signature_verifier option \<Rightarrow> string option \<Rightarrow> string \<Rightarrow> historical_quorum" where
  "validateHistoricalQuorum H canonPolicy collate sigs events version verify payloadHash now =
     (case replayToVersion H canonPolicy collate events version now of
        Inl _ \<Rightarrow> unreplayed version
      | Inr p \<Rightarrow>
        let signers = signer_map p; addresses = map ss_address sigs;
            before =
              map (\<lambda>s. Signer_not_in_policy (ss_address s) version)
                (filter (\<lambda>s. \<not> jm_has signers (ss_address s)) sigs)
              @ (if length (remdups addresses) \<noteq> length addresses then [Duplicate_signatures] else [])
              @ (if list_ex has_public_key (gp_signers p) \<and> verify = None then [Verifier_required] else [])
              @ (if verify \<noteq> None \<and> payloadHash = None then [Payload_hash_required] else []);
            (total, counted, rejections) =
              foldl (historical_step verify payloadHash signers) (0, [], before) sigs;
            quorum = quorum_of p (total, counted);
            all = rejections @ (if \<not> qr_met quorum then [Quorum_not_met total (gp_quorum p)] else [])
        in \<lparr>hq_valid = (all = []), hq_policyAtTime = p, hq_quorum = quorum, hq_rejections = all\<rparr>)"


subsection \<open>Reachable stores\<close>

inductive governance_step :: "(string \<Rightarrow> string option) \<Rightarrow> governance_store \<Rightarrow> governance_store \<Rightarrow> bool"
  for derive where
  adding: "addSigner derive s a l w k now = (r, s') \<Longrightarrow> governance_step derive s s'"
| removing: "removeSigner s a now = (r, s') \<Longrightarrow> governance_step derive s s'"
| changing: "changeQuorum s q now = (r, s') \<Longrightarrow> governance_step derive s s'"
| setting: "setSlaPolicy s i n v c now = (r, s') \<Longrightarrow> governance_step derive s s'"

inductive governance_steps :: "(string \<Rightarrow> string option) \<Rightarrow> governance_store \<Rightarrow> governance_store \<Rightarrow> bool"
  for derive where
  none: "governance_steps derive s s"
| more_step: "governance_steps derive s s' \<Longrightarrow> governance_step derive s' s'' \<Longrightarrow> governance_steps derive s s''"

definition governance_reachable :: "(string \<Rightarrow> string option) \<Rightarrow> governance_store \<Rightarrow> bool" where
  "governance_reachable derive s \<longleftrightarrow> (\<exists>now. governance_steps derive (new_governance_store now) s)"

text \<open>What an event may do to a store that the operations guard.\<close>

definition admitted :: "(string \<Rightarrow> string option) \<Rightarrow> governance_store \<Rightarrow> governance_event \<Rightarrow> bool" where
  "admitted derive s e =
     (case e of
        Signer_added a l w t k \<Rightarrow>
          \<not> jm_has (gv_signers s) a \<and> 1 \<le> w \<and> (\<forall>key. k = Some key \<longrightarrow> derive key = Some a)
      | Signer_removed a t \<Rightarrow> jm_has (gv_signers s) a \<and> gv_quorum s \<le> store_weight s - weight_of s a
      | Quorum_changed p q t \<Rightarrow> 1 \<le> q \<and> (0 < store_weight s \<longrightarrow> q \<le> store_weight s)
      | Policy_rotated r t \<Rightarrow> False
      | Sla_policy_set i n v c t \<Rightarrow> i \<noteq> [] \<and> 1 \<le> v)"

lemma step_when:
  assumes "admitted derive s e \<Longrightarrow> s' = applyEvent s e" "\<not> admitted derive s e \<Longrightarrow> s' = s"
  shows "s' = s \<or> (\<exists>e. admitted derive s e \<and> s' = applyEvent s e)"
  using assms by blast

lemma governance_step_event:
  assumes "governance_step derive s s'"
  shows "s' = s \<or> (\<exists>e. admitted derive s e \<and> s' = applyEvent s e)"
  using assms
proof cases
  case (adding a l w k now r)
  then show ?thesis
    by (intro step_when[of derive s "Signer_added a l w now k"]; cases k)
      (auto simp: addSigner_def emit_event_def admitted_def split: if_splits)
next
  case (removing a now r)
  then show ?thesis
    by (intro step_when[of derive s "Signer_removed a now"])
      (auto simp: removeSigner_def emit_event_def admitted_def jm_has_def weight_of_def
        split: if_splits option.splits)
next
  case (changing q now r)
  then show ?thesis
    by (intro step_when[of derive s "Quorum_changed (gv_quorum s) q now"])
      (auto simp: changeQuorum_def Let_def emit_event_def admitted_def split: if_splits)
next
  case (setting i n v c now r)
  then show ?thesis
    by (intro step_when[of derive s "Sla_policy_set i n v c now"])
      (auto simp: setSlaPolicy_def emit_event_def admitted_def split: if_splits)
qed

lemma applyEvent_log [simp]:
  "gv_events (applyEvent s e) = gv_events s @ [e]" "gv_version (applyEvent s e) = gv_version s + 1"
  by (simp_all add: applyEvent_def Let_def apply_change_def split: governance_event.split)

lemma applyEvent_signers [simp]: "gv_signers (applyEvent s e) = gv_signers (apply_change s e)"
  and applyEvent_quorum [simp]: "gv_quorum (applyEvent s e) = gv_quorum (apply_change s e)"
  by (simp_all add: applyEvent_def Let_def)

definition store_wf :: "(string \<Rightarrow> string option) \<Rightarrow> governance_store \<Rightarrow> bool" where
  "store_wf derive s \<longleftrightarrow>
     jm_wf (gv_signers s) \<and> 1 \<le> gv_quorum s \<and> gv_version s = int (length (gv_events s))
     \<and> (\<forall>(a, e) \<in> set (gv_signers s). sg_address e = a \<and> 1 \<le> sg_weight e
          \<and> (\<forall>k. sg_publicKey e = Some k \<longrightarrow> derive k = Some a))"

lemma set_delete: "set (AList.delete a m) = {p \<in> set m. fst p \<noteq> a}"
  by (auto simp: AList.delete_eq)

lemma delete_wf: "jm_wf m \<Longrightarrow> jm_wf (AList.delete a m)"
  by (simp add: jm_wf_def distinct_delete)

lemma update_new_set: "\<not> jm_has m a \<Longrightarrow> set (jm_set m a v) = insert (a, v) (set m)"
  by (simp add: jm_set_new)

lemma applyEvent_wf:
  assumes "store_wf derive s" "admitted derive s e"
  shows "store_wf derive (applyEvent s e)"
proof (cases e)
  case (Signer_added a l w t k)
  then show ?thesis using assms
    by (auto simp: store_wf_def apply_change_def admitted_def update_new_set)
next
  case (Signer_removed a t)
  then show ?thesis using assms
    by (auto simp: store_wf_def apply_change_def set_delete delete_wf)
qed (use assms in \<open>auto simp: store_wf_def apply_change_def admitted_def\<close>)

lemma governance_steps_wf:
  "governance_steps derive s s' \<Longrightarrow> store_wf derive s \<Longrightarrow> store_wf derive s'"
proof (induction rule: governance_steps.induct)
  case (more_step s s' s'')
  then show ?case using governance_step_event applyEvent_wf by blast
qed simp

lemma governance_reachable_wf: "governance_reachable derive s \<Longrightarrow> store_wf derive s"
  unfolding governance_reachable_def
  by (elim exE, erule governance_steps_wf) (simp add: store_wf_def new_governance_store_def)

lemma governance_reachable_steps:
  assumes "governance_reachable derive s" "governance_steps derive s s'"
  shows "governance_reachable derive s'"
proof -
  obtain now where n: "governance_steps derive (new_governance_store now) s"
    using assms(1) unfolding governance_reachable_def by (elim exE) (rule that)
  have "governance_steps derive (new_governance_store now) s'"
    using assms(2) n by (induction rule: governance_steps.induct) (auto intro: governance_steps.more_step)
  then show ?thesis unfolding governance_reachable_def by blast
qed

subsection \<open>Weight and quorum\<close>

lemma weight_added:
  "\<not> jm_has m a \<Longrightarrow> total_weight (jm_values (jm_set m a e)) = total_weight (jm_values m) + sg_weight e"
  by (simp add: jm_set_new total_weight_def)

lemma weight_removed:
  assumes "jm_wf m" "jm_get m a = Some e"
  shows "total_weight (jm_values (AList.delete a m)) = total_weight (jm_values m) - sg_weight e"
  using assms
proof (induction m)
  case (Cons p m)
  show ?case
  proof (cases "fst p = a")
    case True
    then have "a \<notin> set (jm_keys m)" "snd p = e" using Cons.prems by (auto simp: jm_wf_def)
    then have "AList.delete a m = m" by (simp add: AList.delete_eq) (force simp: filter_id_conv)
    then have "AList.delete a (p # m) = m" using True by (cases p) simp
    then show ?thesis using \<open>snd p = e\<close> by (simp add: total_weight_def)
  next
    case False
    then have "jm_get m a = Some e" "jm_wf m" using Cons.prems by (cases p, simp_all add: jm_wf_def)
    then show ?thesis using Cons.IH False by (cases p) (simp add: AList.delete_eq total_weight_def)
  qed
qed simp

definition achievable :: "governance_store \<Rightarrow> bool" where
  "achievable s \<longleftrightarrow> gv_quorum s \<le> store_weight s"

lemma applyEvent_achievable:
  assumes "store_wf derive s" "admitted derive s e" "achievable s"
  shows "achievable (applyEvent s e)"
proof (cases e)
  case (Signer_added a l w t k)
  then show ?thesis using assms
    by (simp add: achievable_def store_weight_def apply_change_def admitted_def weight_added)
next
  case (Signer_removed a t)
  then obtain x where x: "jm_get (gv_signers s) a = Some x"
    using assms(2) by (auto simp: admitted_def jm_has_def)
  have "jm_wf (gv_signers s)" using assms(1) by (simp add: store_wf_def)
  from weight_removed[OF this x] show ?thesis using assms(2) Signer_removed x
    by (simp add: achievable_def store_weight_def apply_change_def admitted_def weight_of_def)
qed (use assms in \<open>auto simp: achievable_def store_weight_def apply_change_def admitted_def store_wf_def\<close>)

lemma achievable_steps:
  "governance_steps derive s s' \<Longrightarrow> store_wf derive s \<Longrightarrow> achievable s \<Longrightarrow> achievable s'"
proof (induction rule: governance_steps.induct)
  case (more_step s s' s'')
  have "store_wf derive s'" using more_step governance_steps_wf by blast
  then show ?case using more_step governance_step_event applyEvent_achievable by blast
qed simp

subsection \<open>Event sourcing\<close>

lemma steps_log:
  "governance_steps derive s s' \<Longrightarrow> \<exists>es. gv_events s' = gv_events s @ es \<and> s' = foldl applyEvent s es"
proof (induction rule: governance_steps.induct)
  case (none s)
  show ?case by (intro exI[of _ "[]"]) simp
next
  case (more_step s s' s'')
  then obtain es where es: "gv_events s' = gv_events s @ es" "s' = foldl applyEvent s es"
    by (elim exE conjE) (rule that)
  consider "s'' = s'" | e where "s'' = applyEvent s' e"
    using governance_step_event[OF more_step.hyps(2)] by blast
  then show ?case
  proof cases
    case 1
    then show ?thesis using es by (intro exI[of _ es]) simp
  next
    case (2 e)
    then show ?thesis using es by (intro exI[of _ "es @ [e]"]) simp
  qed
qed

lemma first_event_new: "applyEvent (new_governance_store t) e = applyEvent (new_governance_store u) e"
  by (cases e) (simp_all add: applyEvent_def Let_def apply_change_def new_governance_store_def)

lemma replay_new: "replayFrom (new_governance_store t) es = foldl applyEvent (new_governance_store t) es"
  by (simp add: replayFrom_def new_governance_store_def)

lemma replay_any_time:
  "es \<noteq> [] \<Longrightarrow> foldl applyEvent (new_governance_store t) es = foldl applyEvent (new_governance_store u) es"
  by (cases es) (simp_all add: first_event_new[of t _ u])

lemma history_prefix:
  assumes "governance_reachable derive s" "governance_steps derive s s'" "0 < gv_version s"
  shows "replayToVersion H cP collate (gv_events s') (gv_version s) now = Inr (getCurrentPolicy H cP collate s)"
proof -
  obtain t where t: "governance_steps derive (new_governance_store t) s"
    using assms(1) unfolding governance_reachable_def by (elim exE) (rule that)
  have v: "gv_version s = int (length (gv_events s))"
    using governance_reachable_wf[OF assms(1)] by (simp add: store_wf_def)
  have own: "s = foldl applyEvent (new_governance_store t) (gv_events s)"
    using steps_log[OF t] by (auto simp: new_governance_store_def)
  have ne: "gv_events s \<noteq> []" using assms(3) v by auto
  obtain es where "gv_events s' = gv_events s @ es" using steps_log[OF assms(2)] by (elim exE conjE) (rule that)
  then have "take (nat (gv_version s)) (gv_events s') = gv_events s" "gv_version s \<le> int (length (gv_events s'))"
    using v by simp_all
  moreover have "replayFrom (new_governance_store now) (gv_events s) = s"
    using replay_any_time[OF ne, of now t] own by (simp only: replay_new)
  ultimately show ?thesis using v by (simp add: replayToVersion_def)
qed


subsection \<open>What the aggregation counts\<close>

text \<open>The signers of a policy with a signature that counts.\<close>

definition contributors ::
  "signature_verifier option \<Rightarrow> string \<Rightarrow> governance_policy \<Rightarrow> signer_signature list \<Rightarrow> signer_entry set" where
  "contributors verify h p sigs =
     {s \<in> set (gp_signers p). \<exists>sig \<in> set sigs. ss_address sig = sg_address s \<and> signature_counts verify h sig s}"

lemma signer_map_get:
  assumes "distinct (map sg_address (gp_signers p))"
  shows "jm_get (signer_map p) a = Some s \<longleftrightarrow> s \<in> set (gp_signers p) \<and> sg_address s = a"
proof -
  have "jm_get (foldl (\<lambda>m s. jm_set m (sg_address s) s) m ss) a =
      (case List.find (\<lambda>s. sg_address s = a) ss of None \<Rightarrow> jm_get m a | Some s \<Rightarrow> Some s)"
    if "distinct (map sg_address ss)" for m ss
    using that
  proof (induction ss arbitrary: m)
    case (Cons x ss)
    have "List.find (\<lambda>s. sg_address s = a) ss = None" if "sg_address x = a"
      using Cons.prems that unfolding find_None_iff by (auto simp: image_iff)
    then show ?case using Cons by (auto split: option.split)
  qed simp
  from this[OF assms, of "[]"]
  have "jm_get (signer_map p) a = List.find (\<lambda>s. sg_address s = a) (gp_signers p)"
    by (simp add: signer_map_def split: option.split)
  moreover have "List.find (\<lambda>s. sg_address s = a) (gp_signers p) = Some s \<longleftrightarrow> s \<in> set (gp_signers p) \<and> sg_address s = a"
    using assms
  proof (induction "gp_signers p" arbitrary: p)
    case Nil
    then show ?case by (metis find.simps(1) list.set(1) empty_iff option.distinct(1))
  next
    case (Cons x xs)
    have p: "gp_signers p = x # xs" using Cons.hyps(2) by simp
    have IH: "List.find (\<lambda>s. sg_address s = a) xs = Some s \<longleftrightarrow> s \<in> set xs \<and> sg_address s = a"
      using Cons.hyps(1)[of "p\<lparr>gp_signers := xs\<rparr>"] Cons.prems p by simp
    have "sg_address x = a \<Longrightarrow> s \<in> set xs \<Longrightarrow> sg_address s \<noteq> a" using Cons.prems p by (auto simp: image_iff)
    then show ?case using IH by (auto simp: p)
  qed
  ultimately show ?thesis by simp
qed

lemma signer_map_has:
  assumes "distinct (map sg_address (gp_signers p))"
  shows "jm_has (signer_map p) a \<longleftrightarrow> a \<in> sg_address ` set (gp_signers p)"
  using signer_map_get[OF assms] by (auto simp: jm_has_def image_iff)

lemma contributors_snoc:
  "contributors verify h p (sigs @ [sig]) =
     contributors verify h p sigs
     \<union> {s \<in> set (gp_signers p). ss_address sig = sg_address s \<and> signature_counts verify h sig s}"
  by (auto simp: contributors_def)

lemma finite_contributors [simp, intro]: "finite (contributors verify h p sigs)"
  by (simp add: contributors_def)

lemma counted_weight:
  assumes "distinct (map sg_address (gp_signers p))" "distinct (map ss_address sigs)"
  shows "fst (foldl (count_step verify h (signer_map p)) (0, []) sigs) = (\<Sum>s \<in> contributors verify h p sigs. sg_weight s)
    \<and> set (snd (foldl (count_step verify h (signer_map p)) (0, []) sigs)) = sg_address ` contributors verify h p sigs"
  using assms(2)
proof (induction sigs rule: rev_induct)
  case Nil
  then show ?case by (simp add: contributors_def)
next
  case (snoc sig sigs)
  obtain w as where st: "foldl (count_step verify h (signer_map p)) (0, []) sigs = (w, as)" by fastforce
  have IH: "w = (\<Sum>s \<in> contributors verify h p sigs. sg_weight s)" "set as = sg_address ` contributors verify h p sigs"
    using snoc st by simp_all
  let ?new = "{s \<in> set (gp_signers p). ss_address sig = sg_address s \<and> signature_counts verify h sig s}"
  show ?case
  proof (cases "\<exists>s. jm_get (signer_map p) (ss_address sig) = Some s \<and> signature_counts verify h sig s")
    case True
    then obtain s where s: "jm_get (signer_map p) (ss_address sig) = Some s" "signature_counts verify h sig s"
      by (elim exE conjE) (rule that)
    then have s': "s \<in> set (gp_signers p)" "sg_address s = ss_address sig"
      using signer_map_get[OF assms(1)] by simp_all
    have uniq: "x = s" if "x \<in> set (gp_signers p)" "sg_address x = ss_address sig" for x
      using signer_map_get[OF assms(1), of "ss_address sig" x] s(1) that by simp
    have new: "?new = {s}"
    proof (intro equalityI subsetI)
      fix x assume "x \<in> ?new"
      then have "x \<in> set (gp_signers p)" "sg_address x = ss_address sig" by simp_all
      then show "x \<in> {s}" using uniq by simp
    qed (use s(2) s' in simp)
    have fresh: "s \<notin> contributors verify h p sigs" using snoc.prems s'(2) by (auto simp: contributors_def image_iff)
    have "count_step verify h (signer_map p) (w, as) sig = (w + sg_weight s, List.insert (ss_address sig) as)"
      using s by (simp add: count_step_def)
    then show ?thesis using IH s' fresh by (simp add: st contributors_snoc new add.commute)
  next
    case False
    have none: "?new = {}"
      using False signer_map_get[OF assms(1), of "ss_address sig"] by auto
    have "count_step verify h (signer_map p) (w, as) sig = (w, as)"
      using False by (auto simp: count_step_def split: option.split)
    then show ?thesis using IH unfolding contributors_snoc none by (simp add: st)
  qed
qed

definition quorum_reached :: "signature_verifier option \<Rightarrow> string \<Rightarrow> governance_policy \<Rightarrow> signer_signature list \<Rightarrow> bool" where
  "quorum_reached verify h p sigs \<longleftrightarrow>
     distinct (map ss_address sigs) \<and> ss_address ` set sigs \<subseteq> sg_address ` set (gp_signers p)
     \<and> (verify = None \<longrightarrow> (\<forall>s \<in> set (gp_signers p). \<not> has_public_key s))
     \<and> gp_quorum p \<le> (\<Sum>s \<in> contributors verify h p sigs. sg_weight s)"

lemma remdups_length: "length (remdups xs) = length xs \<longleftrightarrow> distinct xs"
  using length_remdups_eq by (metis remdups_id_iff_distinct)

lemma aggregate_iff:
  assumes "distinct (map sg_address (gp_signers p))"
  shows "(\<exists>agg. aggregateSignatures collate sigs p h verify now = Inr agg) \<longleftrightarrow> quorum_reached verify h p sigs"
proof -
  let ?st = "foldl (count_step verify h (signer_map p)) (0, []) sigs"
  have "(\<exists>agg. aggregateSignatures collate sigs p h verify now = Inr agg) \<longleftrightarrow>
      distinct (map ss_address sigs) \<and> (\<forall>a \<in> set (map ss_address sigs). jm_has (signer_map p) a)
      \<and> \<not> (list_ex has_public_key (gp_signers p) \<and> verify = None) \<and> gp_quorum p \<le> fst ?st"
    by (auto simp: aggregateSignatures_def Let_def bind_r_eq_Inr throw_when_Inr forE_Inr remdups_length quorum_of_def)
  also have "\<dots> \<longleftrightarrow> quorum_reached verify h p sigs"
    using counted_weight[OF assms, of sigs verify h]
    by (auto simp: quorum_reached_def signer_map_has[OF assms] list_ex_iff)
  finally show ?thesis .
qed

lemma policy_addresses:
  assumes "store_wf derive s"
  shows "distinct (map sg_address (gp_signers (getCurrentPolicy H cP collate s)))"
proof -
  have "map sg_address (jm_values (gv_signers s)) = jm_keys (gv_signers s)"
    using assms by (auto simp: store_wf_def intro!: map_cong)
  moreover have "gp_signers (getCurrentPolicy H cP collate s) = jm_values (gv_signers s)"
    by (simp add: getCurrentPolicy_def Let_def)
  moreover have "distinct (jm_keys (gv_signers s))" using assms by (simp add: store_wf_def jm_wf_def)
  ultimately show ?thesis by (simp only:)
qed

subsection \<open>What the validation of a past quorum decides\<close>

text \<open>Every signature of a signer of the policy verifies.\<close>

definition all_verify :: "signature_verifier \<Rightarrow> string \<Rightarrow> governance_policy \<Rightarrow> signer_signature list \<Rightarrow> bool" where
  "all_verify v h p sigs \<longleftrightarrow>
     (\<forall>sig \<in> set sigs. \<forall>s \<in> set (gp_signers p). ss_address sig = sg_address s \<longrightarrow> v sig h s)"

lemma all_verify_get:
  assumes "distinct (map sg_address (gp_signers p))"
  shows "all_verify v h p sigs \<longleftrightarrow>
    (\<forall>sig \<in> set sigs. \<forall>s. jm_get (signer_map p) (ss_address sig) = Some s \<longrightarrow> v sig h s)"
  unfolding all_verify_def signer_map_get[OF assms] by metis

lemma historical_loop:
  assumes "distinct (map sg_address (gp_signers p))" "distinct (map ss_address sigs)"
  shows "(\<exists>bad. foldl (historical_step (Some v) (Some h) (signer_map p)) (0, [], before) sigs =
      (fst (foldl (count_step (Some v) h (signer_map p)) (0, []) sigs),
       snd (foldl (count_step (Some v) h (signer_map p)) (0, []) sigs), before @ bad)
      \<and> (bad = [] \<longleftrightarrow> all_verify v h p sigs))"
  using assms(2)
proof (induction sigs rule: rev_induct)
  case Nil
  show ?case by (simp add: all_verify_def)
next
  case (snoc sig sigs)
  obtain w as where st: "foldl (count_step (Some v) h (signer_map p)) (0, []) sigs = (w, as)" by fastforce
  obtain bad where b: "foldl (historical_step (Some v) (Some h) (signer_map p)) (0, [], before) sigs = (w, as, before @ bad)"
    "bad = [] \<longleftrightarrow> all_verify v h p sigs"
    using snoc st by auto
  have fresh: "ss_address sig \<notin> set as"
  proof
    assume "ss_address sig \<in> set as"
    then have "ss_address sig \<in> sg_address ` contributors (Some v) h p sigs"
      using counted_weight[OF assms(1), of sigs "Some v" h] snoc.prems st by simp
    then show False using snoc.prems by (auto simp: contributors_def image_iff)
  qed
  have all: "all_verify v h p (sigs @ [sig]) \<longleftrightarrow>
      all_verify v h p sigs \<and> (\<forall>s. jm_get (signer_map p) (ss_address sig) = Some s \<longrightarrow> v sig h s)"
    unfolding all_verify_get[OF assms(1)] by auto
  consider (missing) "jm_get (signer_map p) (ss_address sig) = None"
    | (good) s where "jm_get (signer_map p) (ss_address sig) = Some s" "v sig h s"
    | (fails) s where "jm_get (signer_map p) (ss_address sig) = Some s" "\<not> v sig h s"
    by (cases "jm_get (signer_map p) (ss_address sig)") blast+
  then show ?case
  proof cases
    case missing
    then have "historical_step (Some v) (Some h) (signer_map p) (w, as, before @ bad) sig = (w, as, before @ bad)"
      "count_step (Some v) h (signer_map p) (w, as) sig = (w, as)"
      by (simp_all add: historical_step_def count_step_def)
    then show ?thesis using b all missing by (simp add: st)
  next
    case (good s)
    then have "historical_step (Some v) (Some h) (signer_map p) (w, as, before @ bad) sig =
        (w + sg_weight s, List.insert (ss_address sig) as, before @ bad)"
      "count_step (Some v) h (signer_map p) (w, as) sig = (w + sg_weight s, List.insert (ss_address sig) as)"
      using fresh by (simp_all add: historical_step_def count_step_def signature_counts_def)
    then show ?thesis using b all good by (simp add: st)
  next
    case (fails s)
    then have "historical_step (Some v) (Some h) (signer_map p) (w, as, before @ bad) sig =
        (w, as, before @ bad @ [Signature_invalid (ss_address sig)])"
      "count_step (Some v) h (signer_map p) (w, as) sig = (w, as)"
      by (simp_all add: historical_step_def count_step_def signature_counts_def)
    then show ?thesis using b(1) all fails by (simp add: st)
  qed
qed


lemma historical_iff:
  assumes "replayToVersion H cP collate events version now = Inr p" "distinct (map sg_address (gp_signers p))"
  shows "hq_valid (validateHistoricalQuorum H cP collate sigs events version (Some v) (Some h) now) \<longleftrightarrow>
    quorum_reached (Some v) h p sigs \<and> all_verify v h p sigs"
proof -
  let ?m = "signer_map p"
  let ?before = "map (\<lambda>s. Signer_not_in_policy (ss_address s) version)
        (filter (\<lambda>s. \<not> jm_has ?m (ss_address s)) sigs)
      @ (if length (remdups (map ss_address sigs)) \<noteq> length (map ss_address sigs) then [Duplicate_signatures] else [])
      @ (if list_ex has_public_key (gp_signers p) \<and> Some v = None then [Verifier_required] else [])
      @ (if Some v \<noteq> None \<and> Some h = None then [Payload_hash_required] else [])"
  have before: "?before = [] \<longleftrightarrow> distinct (map ss_address sigs) \<and> ss_address ` set sigs \<subseteq> sg_address ` set (gp_signers p)"
    using signer_map_has[OF assms(2)] by (auto simp: remdups_length filter_empty_conv simp del: length_map)
  obtain w as rej where st: "foldl (historical_step (Some v) (Some h) ?m) (0, [], ?before) sigs = (w, as, rej)"
    by (rule prod_cases3)
  have valid: "hq_valid (validateHistoricalQuorum H cP collate sigs events version (Some v) (Some h) now) \<longleftrightarrow>
      rej = [] \<and> gp_quorum p \<le> w"
    unfolding validateHistoricalQuorum_def assms(1) sum.case Let_def st prod.case by (simp add: quorum_of_def)
  show ?thesis
  proof (cases "distinct (map ss_address sigs)")
    case True
    then obtain bad where bad: "rej = ?before @ bad" "bad = [] \<longleftrightarrow> all_verify v h p sigs"
      "w = fst (foldl (count_step (Some v) h ?m) (0, []) sigs)"
      using historical_loop[OF assms(2) True, of v h ?before] unfolding st prod.inject
      by (elim exE conjE) (rule that)
    have "rej = [] \<longleftrightarrow> ss_address ` set sigs \<subseteq> sg_address ` set (gp_signers p) \<and> all_verify v h p sigs"
      unfolding bad(1) append_is_Nil_conv[of ?before] before using True bad(2) by blast
    moreover have "w = (\<Sum>s \<in> contributors (Some v) h p sigs. sg_weight s)"
      unfolding bad(3) using counted_weight[OF assms(2) True] by blast
    ultimately show ?thesis using valid True by (auto simp: quorum_reached_def)
  next
    case False
    have grows: "snd (snd st) \<noteq> [] \<Longrightarrow> snd (snd (foldl (historical_step (Some v) (Some h) ?m) st sigs)) \<noteq> []" for st
    proof (induction sigs arbitrary: st)
      case (Cons sig sigs)
      have "snd (snd (historical_step (Some v) (Some h) ?m st sig)) \<noteq> []"
        using Cons.prems by (cases st) (auto simp: historical_step_def split: option.split)
      then show ?case using Cons.IH by simp
    qed simp
    have "?before \<noteq> []" using before False by blast
    then have "rej \<noteq> []" using grows[of "(0, [], ?before)"] unfolding st by simp
    then show ?thesis using valid False by (simp add: quorum_reached_def)
  qed
qed

subsection \<open>Loading histories\<close>

text \<open>A store restored by \<^verbatim>\<open>replayFrom\<close> from the history that a store recorded is that store again (an
  empty history gives an empty store).\<close>

lemma replay_at: "replayFrom s es = foldl applyEvent (new_governance_store (gv_lastUpdated s)) es"
  unfolding replayFrom_def by (rule arg_cong[where f = "\<lambda>x. foldl applyEvent x es"], rule governance_store.equality)
    (simp_all add: new_governance_store_def)

lemma replay_recorded:
  assumes "governance_reachable derive r"
  shows "replayFrom s (getEventHistory r) = (if gv_events r = [] then new_governance_store (gv_lastUpdated s) else r)"
proof -
  obtain t where t: "governance_steps derive (new_governance_store t) r"
    using assms unfolding governance_reachable_def by (elim exE) (rule that)
  have own: "r = foldl applyEvent (new_governance_store t) (gv_events r)"
    using steps_log[OF t] by (auto simp: new_governance_store_def)
  show ?thesis
  proof (cases "gv_events r = []")
    case False
    then show ?thesis using own replay_any_time[OF False, of t "gv_lastUpdated s"] by (simp add: replay_at getEventHistory_def)
  qed (simp add: replay_at getEventHistory_def)
qed

text \<open>Stores over their whole life: the operations, and \<^verbatim>\<open>replayFrom\<close> of the history that some
  store recorded (the node persists it and loads it at the start).\<close>

inductive governance_lifecycle :: "(string \<Rightarrow> string option) \<Rightarrow> governance_store \<Rightarrow> bool" for derive where
  life_new: "governance_lifecycle derive (new_governance_store now)"
| life_step: "governance_lifecycle derive s \<Longrightarrow> governance_step derive s s' \<Longrightarrow> governance_lifecycle derive s'"
| life_replay: "governance_lifecycle derive s \<Longrightarrow> governance_lifecycle derive r \<Longrightarrow>
    governance_lifecycle derive (replayFrom s (getEventHistory r))"

lemma lifecycle_reachable: "governance_lifecycle derive s \<Longrightarrow> governance_reachable derive s"
proof (induction rule: governance_lifecycle.induct)
  case (life_new now)
  show ?case unfolding governance_reachable_def using governance_steps.none by blast
next
  case (life_step s s')
  show ?case by (rule governance_reachable_steps[OF life_step.IH governance_steps.more_step[OF governance_steps.none life_step.hyps(2)]])
next
  case (life_replay s r)
  have "governance_reachable derive (new_governance_store t)" for t
    unfolding governance_reachable_def using governance_steps.none by blast
  then show ?case using life_replay.IH(2) by (simp add: replay_recorded[OF life_replay.IH(2)])
qed

text \<open>Any other history is loaded without the guards of the operations: a quorum of 0 that nobody has to sign
  for, and a signer whose key is not checked.\<close>

theorem loaded_history_is_unchecked:
  "let s = replayFrom (new_governance_store ''t'')
       [Signer_added ''a'' ''A'' (-5) ''t'' (Some ''k''), Quorum_changed 1 0 ''t'']
   in qr_met (checkQuorum s []) \<and> gv_quorum s = 0 \<and> store_weight s = -5 \<and> \<not> store_wf (\<lambda>_. None) s"
proof -
  let ?s = "replayFrom (new_governance_store ''t'')
       [Signer_added ''a'' ''A'' (-5) ''t'' (Some ''k''), Quorum_changed 1 0 ''t'']"
  have "qr_met (checkQuorum ?s []) \<and> gv_quorum ?s = 0 \<and> store_weight ?s = -5" by code_simp
  then show ?thesis by (simp add: store_wf_def Let_def)
qed

subsection \<open>Properties\<close>

text \<open>C22: In every store that the operations build, also after loading by \<^verbatim>\<open>replayFrom\<close> the history
  that such a store recorded, the quorum and all weights are positive, the version counts the events,
  addresses are unique and registered keys derive to them; loading the recorded history into any store gives this
  store again; and once the signers' total weight reaches the quorum it does so after any further operations (until
  another history is loaded). Histories that no store recorded are loaded unchecked
  (\<open>loaded_history_is_unchecked\<close>).\<close>

theorem governance_invariant:
  assumes "governance_lifecycle derive s"
  shows "store_wf derive s \<and>
    (gv_events s \<noteq> [] \<longrightarrow> (\<forall>s0. replayFrom s0 (getEventHistory s) = s)) \<and>
    (achievable s \<longrightarrow> (\<forall>s'. governance_steps derive s s' \<longrightarrow> achievable s' \<and> store_wf derive s'))"
proof -
  have s: "governance_reachable derive s" by (rule lifecycle_reachable[OF assms])
  show ?thesis
    using governance_reachable_wf[OF s] replay_recorded[OF s] achievable_steps governance_steps_wf by auto
qed

text \<open>C23: For a policy with distinct addresses, aggregation succeeds exactly when the signatures are from
  distinct signers of the policy, a verifier is given if any key is registered, and the signers whose signature
  counts reach the quorum with their weights.\<close>

theorem aggregation_counts_verified:
  assumes "distinct (map sg_address (gp_signers p))"
  shows "(\<exists>agg. aggregateSignatures collate sigs p payloadHash verify now = Inr agg) \<longleftrightarrow>
    quorum_reached verify payloadHash p sigs"
  by (rule aggregate_iff[OF assms])

text \<open>C25: A quorum is validated from the history exactly as it was reached: for a state with at least one
  event and any later history, \<^verbatim>\<open>validateHistoricalQuorum\<close> at that state's version accepts the
  signatures exactly when all of them verify and \<^verbatim>\<open>aggregateSignatures\<close> accepted them under the policy
  of that state.\<close>

theorem past_quorum_is_quorum:
  assumes "governance_reachable derive s" "governance_steps derive s s'" "0 < gv_version s"
  shows "(let p = getCurrentPolicy H canonPolicy collate s
    in hq_valid (validateHistoricalQuorum H canonPolicy collate sigs (getEventHistory s') (gv_version s)
          (Some v) (Some h) now)
      \<longleftrightarrow> (\<exists>agg. aggregateSignatures collate sigs p h (Some v) now' = Inr agg) \<and> all_verify v h p sigs)"
  using historical_iff[OF history_prefix[OF assms] policy_addresses[OF governance_reachable_wf[OF assms(1)]]]
    aggregate_iff[OF policy_addresses[OF governance_reachable_wf[OF assms(1)]]]
  by (simp add: Let_def getEventHistory_def)

text \<open>Two equal payload hashes are for the same attestation hash and timestamp and the same policy with
  every signer's address, weight and key, the quorum and the version, or the signed texts are a
  collision.\<close>

theorem signed_payload_binds_policy:
  assumes "buildCanonicalSigningPayload H canonPayload collate a t p =
      buildCanonicalSigningPayload H canonPayload collate a' t' p'" "inj canonPayload"
  shows "(a = a' \<and> t = t' \<and> gp_quorum p = gp_quorum p' \<and> gp_version p = gp_version p'
      \<and> image_mset (\<lambda>s. (sg_address s, sg_weight s, sg_publicKey s)) (mset (gp_signers p)) =
          image_mset (\<lambda>s. (sg_address s, sg_weight s, sg_publicKey s)) (mset (gp_signers p')))
    \<or> collision H [utf8 (canonPayload (signing_payload collate a t p))]
        [utf8 (canonPayload (signing_payload collate a' t' p'))]"
proof (rule disjCI)
  assume no: "\<not> collision H [utf8 (canonPayload (signing_payload collate a t p))]
      [utf8 (canonPayload (signing_payload collate a' t' p'))]"
  have "canonPayload (signing_payload collate a t p) = canonPayload (signing_payload collate a' t' p')"
    by (rule same_text[OF assms(1)[unfolded buildCanonicalSigningPayload_def] _ _ no]) simp_all
  then have eq: "signing_payload collate a t p = signing_payload collate a' t' p'"
    using assms(2) by (simp only: inj_eq)
  let ?f = "\<lambda>s. (sg_address s, sg_weight s, sg_publicKey s)" and ?k = "\<lambda>s. collate (sg_address s)"
  have "map ?f (sort_key ?k (gp_signers p)) = map ?f (sort_key ?k (gp_signers p'))"
    using eq by (simp add: signing_payload_def canonicalPolicyShape_def)
  then have "mset (map ?f (sort_key ?k (gp_signers p))) = mset (map ?f (sort_key ?k (gp_signers p')))" by simp
  then show "a = a' \<and> t = t' \<and> gp_quorum p = gp_quorum p' \<and> gp_version p = gp_version p'
      \<and> image_mset ?f (mset (gp_signers p)) = image_mset ?f (mset (gp_signers p'))"
    using eq by (simp add: signing_payload_def canonicalPolicyShape_def)
qed

subsection \<open>Examples\<close>

definition sample_derive :: "string \<Rightarrow> string option" where
  "sample_derive k = Some (tl k)"

definition sample_store :: governance_store where
  "sample_store =
     snd (changeQuorum (snd (addSigner sample_derive (snd (addSigner sample_derive (new_governance_store ''t'')
       ''a'' ''A'' 1 (Some ''ka'') ''t'')) ''b'' ''B'' 2 (Some ''kb'') ''t'')) 2 ''t'')"

lemma sample_governance_reachable: "governance_reachable sample_derive sample_store"
proof -
  have "governance_steps derive s s1" if "governance_steps derive s s0" "governance_step derive s0 s1" for derive s s0 s1
    using that by (rule governance_steps.more_step)
  then show ?thesis unfolding governance_reachable_def sample_store_def
    by (intro exI[of _ "''t''"])
      (rule governance_steps.more_step[OF governance_steps.more_step[OF governance_steps.more_step[OF governance_steps.none]]],
        rule governance_step.adding[OF prod.collapse[symmetric]],
        rule governance_step.adding[OF prod.collapse[symmetric]],
        rule governance_step.changing[OF prod.collapse[symmetric]])
qed

definition sample_verifier :: signature_verifier where
  "sample_verifier sig h s \<longleftrightarrow> sg_publicKey s = Some (ss_signature sig)"

definition signature_of :: "string \<Rightarrow> string \<Rightarrow> signer_signature" where
  "signature_of a k = \<lparr>ss_address = a, ss_signature = k, ss_signedAt = ''t''\<rparr>"

lemma sample_store_facts:
  "gv_version sample_store = 3" "achievable sample_store"
  "gp_signers (getCurrentPolicy H cP collate sample_store) =
     [\<lparr>sg_address = ''a'', sg_label = ''A'', sg_weight = 1, sg_addedAt = ''t'', sg_publicKey = Some ''ka''\<rparr>,
      \<lparr>sg_address = ''b'', sg_label = ''B'', sg_weight = 2, sg_addedAt = ''t'', sg_publicKey = Some ''kb''\<rparr>]"
  "gp_quorum (getCurrentPolicy H cP collate sample_store) = 2"
proof -
  have "gv_version sample_store = 3 \<and> gv_quorum sample_store = 2 \<and> store_weight sample_store = 3
    \<and> jm_values (gv_signers sample_store) =
     [\<lparr>sg_address = ''a'', sg_label = ''A'', sg_weight = 1, sg_addedAt = ''t'', sg_publicKey = Some ''ka''\<rparr>,
      \<lparr>sg_address = ''b'', sg_label = ''B'', sg_weight = 2, sg_addedAt = ''t'', sg_publicKey = Some ''kb''\<rparr>]"
    by code_simp
  then show "gv_version sample_store = 3" "achievable sample_store"
    "gp_signers (getCurrentPolicy H cP collate sample_store) =
     [\<lparr>sg_address = ''a'', sg_label = ''A'', sg_weight = 1, sg_addedAt = ''t'', sg_publicKey = Some ''ka''\<rparr>,
      \<lparr>sg_address = ''b'', sg_label = ''B'', sg_weight = 2, sg_addedAt = ''t'', sg_publicKey = Some ''kb''\<rparr>]"
    "gp_quorum (getCurrentPolicy H cP collate sample_store) = 2"
    by (simp_all add: achievable_def getCurrentPolicy_def Let_def)
qed

lemma sample_governance_lifecycle: "governance_lifecycle sample_derive sample_store"
  unfolding sample_store_def
  by (rule life_step[OF life_step[OF life_step[OF life_new]]],
      rule governance_step.adding[OF prod.collapse[symmetric]],
      rule governance_step.adding[OF prod.collapse[symmetric]],
      rule governance_step.changing[OF prod.collapse[symmetric]])

theorem governance_invariant_witness:
  "store_wf sample_derive (replayFrom (new_governance_store ''u'') (getEventHistory sample_store)) \<and>
   achievable (snd (changeQuorum sample_store 3 ''u''))"
proof -
  have "governance_steps sample_derive sample_store (snd (changeQuorum sample_store 3 ''u''))"
    by (rule governance_steps.more_step[OF governance_steps.none governance_step.changing[OF prod.collapse[symmetric]]])
  then have "achievable (snd (changeQuorum sample_store 3 ''u''))"
    using governance_invariant[OF sample_governance_lifecycle] sample_store_facts(2) by blast
  moreover have "governance_lifecycle sample_derive (replayFrom (new_governance_store ''u'') (getEventHistory sample_store))"
    by (rule life_replay[OF life_new sample_governance_lifecycle])
  ultimately show ?thesis using governance_invariant by blast
qed

theorem aggregation_counts_verified_witness:
  "\<exists>agg. aggregateSignatures id [signature_of ''b'' ''kb'']
     (getCurrentPolicy sample_hash (\<lambda>_. []) id sample_store) ''h'' (Some sample_verifier) ''t'' = Inr agg"
proof -
  have "distinct (map sg_address (gp_signers (getCurrentPolicy sample_hash (\<lambda>_. []) id sample_store)))"
    by (simp add: sample_store_facts)
  moreover have "contributors (Some sample_verifier) ''h'' (getCurrentPolicy sample_hash (\<lambda>_. []) id sample_store)
      [signature_of ''b'' ''kb''] =
      {\<lparr>sg_address = ''b'', sg_label = ''B'', sg_weight = 2, sg_addedAt = ''t'', sg_publicKey = Some ''kb''\<rparr>}"
    by (auto simp: contributors_def sample_store_facts signature_of_def signature_counts_def sample_verifier_def)
  then have "quorum_reached (Some sample_verifier) ''h'' (getCurrentPolicy sample_hash (\<lambda>_. []) id sample_store)
      [signature_of ''b'' ''kb'']"
    by (simp add: quorum_reached_def sample_store_facts) (simp add: signature_of_def)
  ultimately show ?thesis by (simp add: aggregation_counts_verified)
qed

theorem past_quorum_is_quorum_witness:
  "(let p = getCurrentPolicy sample_hash (\<lambda>_. []) id sample_store
    in hq_valid (validateHistoricalQuorum sample_hash (\<lambda>_. []) id [signature_of ''b'' ''kb'']
          (getEventHistory sample_store) 3 (Some sample_verifier) (Some ''h'') ''t'')
      \<longleftrightarrow> (\<exists>agg. aggregateSignatures id [signature_of ''b'' ''kb''] p ''h'' (Some sample_verifier) ''t'' = Inr agg)
          \<and> all_verify sample_verifier ''h'' p [signature_of ''b'' ''kb''])"
  using past_quorum_is_quorum[OF sample_governance_reachable governance_steps.none, of sample_hash "\<lambda>_. []" id]
  by (simp add: sample_store_facts)

text \<open>An injective text of the signing payload, for the example.\<close>

definition framed_int :: "int \<Rightarrow> string" where
  "framed_int n = (if n < 0 then CHR ''-'' else CHR ''+'') # replicate (nat \<bar>n\<bar>) CHR ''1''"

lemma framed_int_inj: "framed_int m = framed_int n \<longleftrightarrow> m = n"
proof
  assume eq: "framed_int m = framed_int n"
  have "nat \<bar>m\<bar> = nat \<bar>n\<bar>" using arg_cong[OF eq, of length] by (simp add: framed_int_def)
  moreover have "m < 0 \<longleftrightarrow> n < 0" using eq by (auto simp: framed_int_def split: if_splits)
  ultimately show "m = n" by linarith
qed simp

definition framed_payload :: "signing_payload \<Rightarrow> string" where
  "framed_payload = (\<lambda>(a, t, i, v, q, ss).
     framed_list [a, t, i, framed_int v, framed_int q]
     @ framed_list (map fst ss) @ framed_list (map (\<lambda>s. framed_int (fst (snd s))) ss)
     @ framed_list (map (\<lambda>s. case snd (snd s) of None \<Rightarrow> [] | Some k \<Rightarrow> CHR ''k'' # k) ss))"

lemma framed_payload_inj: "inj framed_payload"
proof (rule injI)
  fix x y :: signing_payload assume eq: "framed_payload x = framed_payload y"
  obtain a t i v q ss where x: "x = (a, t, i, v, q, ss)" by (rule prod_cases6)
  obtain a' t' i' v' q' ss' where y: "y = (a', t', i', v', q', ss')" by (rule prod_cases6)
  let ?key = "\<lambda>s :: string \<times> int \<times> string option. case snd (snd s) of None \<Rightarrow> [] | Some k \<Rightarrow> CHR ''k'' # k"
  have final: "framed_list us = framed_list vs \<Longrightarrow> us = vs" for us vs
    using framed_list_inj[of us "[]" vs "[]"] by simp
  have parts: "[a, t, i, framed_int v, framed_int q] = [a', t', i', framed_int v', framed_int q']"
    "map fst ss = map fst ss'"
    "map (\<lambda>s. framed_int (fst (snd s))) ss = map (\<lambda>s. framed_int (fst (snd s))) ss'"
    "map ?key ss = map ?key ss'"
    using eq final unfolding framed_payload_def x y prod.case framed_list_inj by blast+
  have len: "length ss = length ss'" using parts(2) map_eq_imp_length_eq by blast
  have "ss = ss'"
  proof (rule nth_equalityI[OF len])
    fix n assume n: "n < length ss"
    have "fst (ss ! n) = fst (ss' ! n)" "fst (snd (ss ! n)) = fst (snd (ss' ! n))" "?key (ss ! n) = ?key (ss' ! n)"
      using arg_cong[OF parts(2), of "\<lambda>zs. zs ! n"] arg_cong[OF parts(3), of "\<lambda>zs. zs ! n"]
        arg_cong[OF parts(4), of "\<lambda>zs. zs ! n"] n len by (simp_all add: framed_int_inj)
    then show "ss ! n = ss' ! n" by (auto simp: prod_eq_iff split: option.splits)
  qed
  then show "x = y" using parts(1) by (simp add: x y framed_int_inj)
qed

definition sample_policy :: governance_policy where
  "sample_policy = getCurrentPolicy sample_hash (\<lambda>_. []) id sample_store"

theorem signed_payload_binds_policy_witness:
  "gp_quorum sample_policy = gp_quorum (sample_policy\<lparr>gp_updatedAt := ''u''\<rparr>)
   \<or> collision sample_hash [utf8 (framed_payload (signing_payload id ''x'' ''t'' sample_policy))]
       [utf8 (framed_payload (signing_payload id ''x'' ''t'' (sample_policy\<lparr>gp_updatedAt := ''u''\<rparr>)))]"
proof -
  have "buildCanonicalSigningPayload sample_hash framed_payload id ''x'' ''t'' sample_policy =
      buildCanonicalSigningPayload sample_hash framed_payload id ''x'' ''t'' (sample_policy\<lparr>gp_updatedAt := ''u''\<rparr>)"
    by (simp add: buildCanonicalSigningPayload_def signing_payload_def)
  from signed_payload_binds_policy[OF this framed_payload_inj] show ?thesis by blast
qed

text \<open>\<^verbatim>\<open>checkQuorum\<close> counts an address as often as it is listed: one signer of weight 1, named
  twice, meets a quorum of 2.\<close>

theorem repeated_address_meets_quorum:
  "governance_reachable sample_derive sample_store
    \<and> \<not> qr_met (checkQuorum sample_store [''a'']) \<and> qr_met (checkQuorum sample_store [''a'', ''a''])"
proof -
  have "\<not> qr_met (checkQuorum sample_store [''a'']) \<and> qr_met (checkQuorum sample_store [''a'', ''a''])"
    by code_simp
  then show ?thesis using sample_governance_reachable by blast
qed

end
