(* ===== verification/Witness.thy ===== *)
theory Witness
  imports Memo Governance
begin

section \<open>Submission of attestations\<close>

text \<open>
  Model of \<^verbatim>\<open>packages/witness/src/retry.ts\<close>, \<^verbatim>\<open>submitter.ts\<close>,
  \<^verbatim>\<open>governance/multisig-submitter.ts\<close> and the record keeping of
  \<^verbatim>\<open>witness.ts\<close> and \<^verbatim>\<open>governance/multisig-witness.ts\<close>: the retry loop with
  exponential backoff, and the two submitters, which sign a transaction once and then, attempt by attempt, look for
  it on the chain before they submit it. The client of \<^verbatim>\<open>xrpl\<close> is a record of functions on a
  state \<open>'w\<close> of the network; a call that never settles makes the result \<open>None\<close> unless a deadline
  bounds it. Signing, decoding and hashing of transactions by that package are parameters. Delays are rational
  numbers, with the value of \<^verbatim>\<open>Math.random\<close> per attempt as an argument. Messages
  contain only what the predicate for retries can look at. Telemetry, secrets and connecting are left out.

  The lemmas show that the loop ends within its attempts and delays, that only the one signed transaction
  is ever submitted, that a returned record names a transaction that is on the chain, and that nothing is submitted
  for several signers unless their verified signatures reach the quorum.
\<close>

subsection \<open>Retry\<close>

datatype js_error = Js_error string | Attempt_timeout int string | Not_an_error

record retry_config =
  rc_maxAttempts :: int
  rc_baseDelayMs :: int
  rc_maxDelayMs :: int
  rc_jitterMs :: int

definition DEFAULT_RETRY_CONFIG :: retry_config where
  "DEFAULT_RETRY_CONFIG = \<lparr>rc_maxAttempts = 3, rc_baseDelayMs = 1000, rc_maxDelayMs = 30000, rc_jitterMs = 200\<rparr>"

definition DEFAULT_SUBMIT_TIMEOUT_MS :: int where
  "DEFAULT_SUBMIT_TIMEOUT_MS = 60000"

datatype retry_failure = Retry_exhausted int "js_error option" | Not_retryable js_error

definition computeDelay :: "int \<Rightarrow> retry_config \<Rightarrow> rat \<Rightarrow> rat" where
  "computeDelay attempt config random =
     (let exponential = of_int (rc_baseDelayMs config) * 2 ^ nat attempt;
          jitter = random * of_int (rc_jitterMs config)
      in min (exponential + jitter) (of_int (rc_maxDelayMs config)))"

text \<open>The loop of \<^verbatim>\<open>withRetry\<close>, at attempt \<open>attempt\<close>; the last list has the delays slept so far.\<close>

function retry_loop ::
  "('w \<Rightarrow> int \<Rightarrow> ((js_error + 'r) \<times> 'w) option) \<Rightarrow> (js_error \<Rightarrow> bool) \<Rightarrow> retry_config \<Rightarrow> (int \<Rightarrow> rat) \<Rightarrow>
   (rat \<Rightarrow> 'w \<Rightarrow> 'w) \<Rightarrow> int \<Rightarrow> js_error option \<Rightarrow> rat list \<Rightarrow> 'w \<Rightarrow>
   ((retry_failure + 'r) \<times> rat list \<times> 'w) option" where
  "retry_loop fn shouldRetry config random sleep attempt lastError delays w =
     (if attempt < rc_maxAttempts config then
        (case fn w attempt of
           None \<Rightarrow> None
         | Some (Inr x, w) \<Rightarrow> Some (Inr x, delays, w)
         | Some (Inl e, w) \<Rightarrow>
             if \<not> shouldRetry e then Some (Inl (Not_retryable e), delays, w)
             else if attempt < rc_maxAttempts config - 1
             then let delay = computeDelay attempt config (random attempt)
               in retry_loop fn shouldRetry config random sleep (attempt + 1) (Some e) (delays @ [delay]) (sleep delay w)
             else retry_loop fn shouldRetry config random sleep (attempt + 1) (Some e) delays w)
      else Some (Inl (Retry_exhausted (rc_maxAttempts config) lastError), delays, w))"
  by pat_completeness auto

termination
  by (relation "measure (\<lambda>(fn, shouldRetry, config, random, sleep, attempt, lastError, delays, w).
      nat (rc_maxAttempts config - attempt))") auto

declare retry_loop.simps [simp del]

definition withRetry ::
  "('w \<Rightarrow> int \<Rightarrow> ((js_error + 'r) \<times> 'w) option) \<Rightarrow> retry_config \<Rightarrow> (js_error \<Rightarrow> bool) \<Rightarrow> (int \<Rightarrow> rat) \<Rightarrow>
   (rat \<Rightarrow> 'w \<Rightarrow> 'w) \<Rightarrow> 'w \<Rightarrow> ((retry_failure + 'r) \<times> rat list \<times> 'w) option" where
  "withRetry fn config shouldRetry random sleep w = retry_loop fn shouldRetry config random sleep 0 None [] w"

definition lower_char :: "char \<Rightarrow> char" where
  "lower_char c =
     (let n = of_char c :: nat
      in if (65 \<le> n \<and> n \<le> 90) \<or> (192 \<le> n \<and> n \<le> 222 \<and> n \<noteq> 215) then char_of (n + 32) else c)"

fun msg_includes :: "string \<Rightarrow> string \<Rightarrow> bool" where
  "msg_includes [] pattern \<longleftrightarrow> pattern = []"
| "msg_includes (c # cs) pattern \<longleftrightarrow> take (length pattern) (c # cs) = pattern \<or> msg_includes cs pattern"

definition permanentPatterns :: "string list" where
  "permanentPatterns = [''tembad'', ''tefinvalid'', ''tefdst_tag'', ''temmalformed'', ''temredundant'', ''not connected'']"

text \<open>The message of an error; the dash in the one of a timeout is outside of 8-bit code units.\<close>

definition error_message :: "js_error \<Rightarrow> string" where
  "error_message e =
     (case e of
        Js_error m \<Rightarrow> m
      | Attempt_timeout ms operation \<Rightarrow>
          operation @ '' did not complete within the per-attempt deadline of '' @ int_str ms @
          ''ms; treating as a (possibly-applied) transient - the next attempt's idempotency check will recover it if it landed (timed out).''
      | Not_an_error \<Rightarrow> [])"

definition isRetryableXrplError :: "js_error \<Rightarrow> bool" where
  "isRetryableXrplError e =
     (case e of
        Not_an_error \<Rightarrow> True
      | _ \<Rightarrow> \<not> list_ex (msg_includes (map lower_char (error_message e))) permanentPatterns)"


subsection \<open>The client of the network\<close>

datatype submit_outcome =
    Validated "int option" "int option" "string option"
  | Submit_rejected js_error
  | Unsettled

record 'w xrpl_client =
  cl_isConnected :: "'w \<Rightarrow> bool"
  cl_connect :: "'w \<Rightarrow> (js_error + unit) \<times> 'w"
  cl_tx :: "'w \<Rightarrow> string \<Rightarrow> (js_error + (bool \<times> int option)) \<times> 'w"
  cl_submitAndWait :: "'w \<Rightarrow> string \<Rightarrow> submit_outcome \<times> 'w"
  cl_now :: "'w \<Rightarrow> string"
  cl_sleep :: "rat \<Rightarrow> 'w \<Rightarrow> 'w"

definition withTimeout :: "(submit_outcome \<times> 'w) \<Rightarrow> int \<Rightarrow> string \<Rightarrow> (submit_outcome \<times> 'w) option" where
  "withTimeout call timeoutMs operation =
     (case fst call of
        Unsettled \<Rightarrow>
          if timeoutMs \<le> 0 then None
          else Some (Submit_rejected (Attempt_timeout timeoutMs operation), snd call)
      | _ \<Rightarrow> Some call)"

definition reconnect_failed :: "js_error \<Rightarrow> js_error" where
  "reconnect_failed e = Js_error (''connection lost mid-submit and reconnect failed ('' @ error_message e @
     ''). Call connect() to recover before submitting again.'')"

definition ensureConnected :: "'w xrpl_client \<Rightarrow> 'w \<Rightarrow> (js_error + unit) \<times> 'w" where
  "ensureConnected client w =
     (if cl_isConnected client w then (Inr (), w)
      else case cl_connect client w of
             (Inr _, w) \<Rightarrow> (Inr (), w)
           | (Inl e, w) \<Rightarrow> (Inl (reconnect_failed e), w))"

text \<open>\<^verbatim>\<open>_checkExistingTx\<close>: the ledger index of a validated transaction.\<close>

definition checkExistingTx :: "'w xrpl_client \<Rightarrow> string \<Rightarrow> 'w \<Rightarrow> int option \<times> 'w" where
  "checkExistingTx client txHash w =
     (case cl_tx client w txHash of
        (Inr (True, ledgerIndex), w) \<Rightarrow> (Some (option_default ledgerIndex 0), w)
      | (_, w) \<Rightarrow> (None, w))"

subsection \<open>One signer\<close>

record witness_config =
  wc_chainId :: string
  wc_account :: string
  wc_feeDrops :: "string option"
  wc_retry :: "retry_config option"
  wc_submitTimeoutMs :: "int option"

text \<open>A transaction before it is autofilled: a payment of one drop to the account itself.\<close>

record payment =
  py_account :: string
  py_destination :: string
  py_amount :: string
  py_memos :: "xrpl_memo list"
  py_fee :: "string option"

definition buildTransaction :: "string \<Rightarrow> attestation_payload \<Rightarrow> payment result" where
  "buildTransaction account payload =
     bind_r (encodeMemo (payload_json payload)) (\<lambda>memo.
       Inr \<lparr>py_account = account, py_destination = account, py_amount = ''1'', py_memos = [memo], py_fee = None\<rparr>)"

definition fee_of :: "witness_config \<Rightarrow> string option" where
  "fee_of config = (if wc_feeDrops config = Some [] then None else wc_feeDrops config)"

datatype submit_error = Not_connected | Submit_thrown | Autofill_failed js_error | Witness_submit_error int retry_failure

definition make_record ::
  "string \<Rightarrow> attestation_payload \<Rightarrow> string \<Rightarrow> string \<Rightarrow> string \<Rightarrow> int \<Rightarrow> string \<Rightarrow> witness_record" where
  "make_record prefix payload chainId account txHash ledgerIndex now =
     \<lparr>wr_id = prefix @ take 16 (ap_hash payload), wr_payload = payload, wr_chainId = chainId, wr_txHash = txHash,
      wr_ledgerIndex = ledgerIndex, wr_witnessedAt = now, wr_witnessAccount = account\<rparr>"

text \<open>One attempt of a submitter. A validated response names its ledger in the metadata or beside them;
  the submitter for several signers (\<open>reported\<close>) also takes the hash of the response, and looks for no empty hash.\<close>

definition submitSigned ::
  "'w xrpl_client \<Rightarrow> bool \<Rightarrow> string \<Rightarrow> string \<Rightarrow> string \<Rightarrow> int \<Rightarrow> attestation_payload \<Rightarrow> string \<Rightarrow> string \<Rightarrow>
   'w \<Rightarrow> int \<Rightarrow> ((js_error + witness_record) \<times> 'w) option" where
  "submitSigned client reported prefix chainId account timeoutMs payload txBlob txHash w attempt =
     (case ensureConnected client w of
        (Inl e, w) \<Rightarrow> Some (Inl e, w)
      | (Inr _, w) \<Rightarrow>
          (case (if reported \<and> txHash = [] then (None, w) else checkExistingTx client txHash w) of
             (Some ledgerIndex, w) \<Rightarrow>
               Some (Inr (make_record prefix payload chainId account txHash ledgerIndex (cl_now client w)), w)
           | (None, w) \<Rightarrow>
               (case withTimeout (cl_submitAndWait client w txBlob) timeoutMs ''submitAndWait'' of
                  None \<Rightarrow> None
                | Some (Unsettled, w) \<Rightarrow> None
                | Some (Submit_rejected e, w) \<Rightarrow> Some (Inl e, w)
                | Some (Validated metaIndex resultIndex hash, w) \<Rightarrow>
                    Some (Inr (make_record prefix payload chainId account
                        (if reported then option_default hash txHash else txHash)
                        (case metaIndex of Some i \<Rightarrow> i | None \<Rightarrow> option_default resultIndex 0) (cl_now client w)), w))))"

definition finish_submit ::
  "((retry_failure + witness_record) \<times> rat list \<times> 'w) option \<Rightarrow> ((submit_error + witness_record) \<times> 'w) option" where
  "finish_submit run =
     (case run of
        None \<Rightarrow> None
      | Some (Inr r, delays, w) \<Rightarrow> Some (Inr r, w)
      | Some (Inl f, delays, w) \<Rightarrow>
          Some (Inl (Witness_submit_error (case f of Retry_exhausted n e \<Rightarrow> n | Not_retryable e \<Rightarrow> 1) f), w))"

text \<open>\<^verbatim>\<open>XrplSubmitter.submit\<close>. \<open>autofill\<close> and \<open>sign\<close> are the client's and the wallet's.\<close>

definition xrpl_submit ::
  "'w xrpl_client \<Rightarrow> ('w \<Rightarrow> payment \<Rightarrow> (js_error + 'p) \<times> 'w) \<Rightarrow> ('p \<Rightarrow> string \<times> string) \<Rightarrow> (int \<Rightarrow> rat) \<Rightarrow>
   witness_config \<Rightarrow> bool \<Rightarrow> attestation_payload \<Rightarrow> 'w \<Rightarrow> ((submit_error + witness_record) \<times> 'w) option" where
  "xrpl_submit client autofill sign random config online payload w =
     (if \<not> online then Some (Inl Not_connected, w)
      else case buildTransaction (wc_account config) payload of
             Inl _ \<Rightarrow> Some (Inl Submit_thrown, w)
           | Inr tx \<Rightarrow>
               (case autofill w (tx\<lparr>py_fee := fee_of config\<rparr>) of
                  (Inl e, w) \<Rightarrow> Some (Inl (Autofill_failed e), w)
                | (Inr prepared, w) \<Rightarrow>
                    let (txBlob, txHash) = sign prepared
                    in finish_submit (withRetry
                         (submitSigned client False ''witness:'' (wc_chainId config) (wc_account config)
                            (option_default (wc_submitTimeoutMs config) DEFAULT_SUBMIT_TIMEOUT_MS) payload txBlob txHash)
                         (option_default (wc_retry config) DEFAULT_RETRY_CONFIG) isRetryableXrplError random
                         (cl_sleep client) w)))"

subsection \<open>Several signers\<close>

record wallet =
  wa_classicAddress :: string
  wa_privateKey :: string

text \<open>What the submitter takes from \<^verbatim>\<open>xrpl\<close>.\<close>

record 'p xrpl_crypto =
  xc_sign :: "wallet \<Rightarrow> 'p \<Rightarrow> string \<times> string"
  xc_decodeAccount :: "string \<Rightarrow> string option"
  xc_account :: "'p \<Rightarrow> string"
  xc_multisign :: "string list \<Rightarrow> string result"
  xc_hashSignedTx :: "string \<Rightarrow> string"
  xc_signPayloadHash :: "string \<Rightarrow> string \<Rightarrow> string"

record multi_sign_result =
  ms_signedBlobs :: "string list"
  ms_signerSignatures :: "signer_signature list"
  ms_combinedBlob :: string
  ms_txHash :: string

text \<open>The wallets of \<^verbatim>\<open>connect\<close>: each secret must derive the configured address.\<close>

definition connect_wallets ::
  "(string \<Rightarrow> wallet result) \<Rightarrow> (string \<times> string) list \<Rightarrow> (string, wallet) jsmap result" where
  "connect_wallets fromSeed signers =
     foldE (\<lambda>wallets (address, secret).
       bind_r (fromSeed secret) (\<lambda>wallet.
       bind_r (throw_when (wa_classicAddress wallet \<noteq> address) PlainError) (\<lambda>_.
         Inr (jm_set wallets (wa_classicAddress wallet) wallet)))) [] signers"

definition sign_step ::
  "'p xrpl_crypto \<Rightarrow> 'p \<Rightarrow> string \<Rightarrow> string \<Rightarrow> string option \<times> string list \<times> signer_signature list \<Rightarrow> wallet \<Rightarrow>
   (string option \<times> string list \<times> signer_signature list) result" where
  "sign_step crypto prepared payloadHash now st wallet =
     (case st of (expectedHash, blobs, sigs) \<Rightarrow>
        let (txBlob, txHash) = xc_sign crypto wallet prepared
        in bind_r (throw_when (expectedHash \<noteq> None \<and> expectedHash \<noteq> Some txHash) PlainError) (\<lambda>_.
           bind_r (throw_when (xc_decodeAccount crypto txBlob \<noteq> Some (xc_account crypto prepared)) PlainError) (\<lambda>_.
             Inr (Some txHash, blobs @ [txBlob],
               sigs @ [\<lparr>ss_address = wa_classicAddress wallet,
                 ss_signature = xc_signPayloadHash crypto payloadHash (wa_privateKey wallet), ss_signedAt = now\<rparr>]))))"

definition buildMultiSign ::
  "'p xrpl_crypto \<Rightarrow> (string \<Rightarrow> string) \<Rightarrow> signature_verifier \<Rightarrow> wallet list \<Rightarrow> string \<Rightarrow> governance_policy \<Rightarrow> string \<Rightarrow> 'p \<Rightarrow>
   multi_sign_result result" where
  "buildMultiSign crypto collate verify wallets payloadHash policy now prepared =
     bind_r (foldE (sign_step crypto prepared payloadHash now) (None, [], []) wallets) (\<lambda>(expectedHash, blobs, sigs).
     bind_r (aggregateSignatures collate sigs policy payloadHash (Some verify) now) (\<lambda>_.
     bind_r (xc_multisign crypto blobs) (\<lambda>combined.
       Inr \<lparr>ms_signedBlobs = blobs, ms_signerSignatures = sigs, ms_combinedBlob = combined,
            ms_txHash = xc_hashSignedTx crypto combined\<rparr>)))"

definition multi_submit ::
  "'w xrpl_client \<Rightarrow> ('w \<Rightarrow> payment \<Rightarrow> (js_error + 'p) \<times> 'w) \<Rightarrow> 'p xrpl_crypto \<Rightarrow> (string \<Rightarrow> string) \<Rightarrow> signature_verifier \<Rightarrow>
   (attestation_payload \<Rightarrow> governance_policy \<Rightarrow> string) \<Rightarrow> (int \<Rightarrow> rat) \<Rightarrow> witness_config \<Rightarrow> (string, wallet) jsmap option \<Rightarrow>
   attestation_payload \<Rightarrow> governance_policy \<Rightarrow> 'w \<Rightarrow> ((submit_error + witness_record) \<times> 'w) option" where
  "multi_submit client autofill crypto collate verify payloadHash random config wallets payload policy w =
     (if wallets = None \<or> wallets = Some [] then Some (Inl Not_connected, w)
      else case buildTransaction (wc_account config) payload of
             Inl _ \<Rightarrow> Some (Inl Submit_thrown, w)
           | Inr tx \<Rightarrow>
               (case autofill w (tx\<lparr>py_fee := fee_of config\<rparr>) of
                  (Inl e, w) \<Rightarrow> Some (Inl (Autofill_failed e), w)
                | (Inr prepared, w) \<Rightarrow>
                    (case buildMultiSign crypto collate verify (jm_values (option_default wallets []))
                            (payloadHash payload policy) policy (cl_now client w) prepared of
                       Inl _ \<Rightarrow> Some (Inl Submit_thrown, w)
                     | Inr multi \<Rightarrow>
                         finish_submit (withRetry
                           (submitSigned client True ''witness:multisig:'' (wc_chainId config) (wc_account config)
                              (option_default (wc_submitTimeoutMs config) DEFAULT_SUBMIT_TIMEOUT_MS) payload
                              (ms_combinedBlob multi) (ms_txHash multi))
                           (option_default (wc_retry config) DEFAULT_RETRY_CONFIG) isRetryableXrplError random
                           (cl_sleep client) w))))"

subsection \<open>Keeping records\<close>

definition DEFAULT_MAX_RECORDS :: int where
  "DEFAULT_MAX_RECORDS = 10000"

definition retainRecord :: "int \<Rightarrow> witness_record list \<Rightarrow> witness_record \<Rightarrow> witness_record list" where
  "retainRecord maxRecords records r =
     (if maxRecords \<le> 0 then records
      else let records = records @ [r] in drop (nat (int (length records) - maxRecords)) records)"

text \<open>A witness for several signers (with a store of governance) or for one.\<close>

record 's witness_state =
  ws_governance :: "'s option"
  ws_maxRecords :: int
  ws_records :: "witness_record list"

definition witness_submits ::
  "('s \<Rightarrow> attestation_payload \<Rightarrow> 'w \<Rightarrow> ((submit_error + witness_record) \<times> 'w) option) \<Rightarrow>
   (attestation_payload \<Rightarrow> 'w \<Rightarrow> ((submit_error + witness_record) \<times> 'w) option) \<Rightarrow>
   's witness_state \<Rightarrow> attestation_payload \<Rightarrow> 'w \<Rightarrow> ((submit_error + witness_record) \<times> 's witness_state \<times> 'w) option" where
  "witness_submits multi single s payload w =
     (case (case ws_governance s of Some store \<Rightarrow> multi store payload w | None \<Rightarrow> single payload w) of
        None \<Rightarrow> None
      | Some (Inl e, w) \<Rightarrow> Some (Inl e, s, w)
      | Some (Inr r, w) \<Rightarrow> Some (Inr r, s\<lparr>ws_records := retainRecord (ws_maxRecords s) (ws_records s) r\<rparr>, w))"

subsection \<open>The retry loop\<close>

lemma retry_loop_rule:
  assumes "retry_loop fn shouldRetry config random sleep attempt lastError delays w = Some (r, ds, w')"
    and "I attempt w" "0 \<le> attempt" "attempt \<le> max 0 (rc_maxAttempts config)"
    and ok: "\<And>k w x w'. I k w \<Longrightarrow> 0 \<le> k \<Longrightarrow> k < rc_maxAttempts config \<Longrightarrow> fn w k = Some (Inr x, w') \<Longrightarrow> Q (Inr x) w'"
    and err: "\<And>k w e w'. I k w \<Longrightarrow> 0 \<le> k \<Longrightarrow> k < rc_maxAttempts config \<Longrightarrow> fn w k = Some (Inl e, w') \<Longrightarrow> I (k + 1) w'"
    and slept: "\<And>k w d. I k w \<Longrightarrow> I k (sleep d w)"
    and fin: "\<And>k w f. I k w \<Longrightarrow> k \<le> max 0 (rc_maxAttempts config) \<Longrightarrow> Q (Inl f) w"
  shows "Q r w'"
  using assms(1-4)
proof (induction "nat (rc_maxAttempts config - attempt)" arbitrary: attempt lastError delays w rule: less_induct)
  case less
  show ?case
  proof (cases "attempt < rc_maxAttempts config")
    case False
    then show ?thesis using less.prems(1) fin[OF less.prems(2,4)] by (auto simp: retry_loop.simps[where attempt = attempt])
  next
    case go: True
    have shorter: "nat (rc_maxAttempts config - (attempt + 1)) < nat (rc_maxAttempts config - attempt)" using go by simp
    have bound: "attempt + 1 \<le> max 0 (rc_maxAttempts config)" using go by simp
    show ?thesis
    proof (cases "fn w attempt")
      case None
      then show ?thesis using less.prems(1) go by (simp add: retry_loop.simps[where attempt = attempt])
    next
      case (Some a)
      obtain o1 w1 where a: "a = (o1, w1)" by (cases a)
      show ?thesis
      proof (cases o1)
        case (Inr x)
        then have "r = Inr x" "w' = w1"
          using less.prems(1) go Some a by (simp_all add: retry_loop.simps[where attempt = attempt])
        then show ?thesis using ok[OF less.prems(2,3) go] Some a Inr by simp
      next
        case (Inl e)
        have next_I: "I (attempt + 1) w1" by (rule err[OF less.prems(2,3) go]) (use Some a Inl in simp)
        have "I (attempt + 1) (sleep d w1)" for d by (rule slept[OF next_I])
        then show ?thesis
          using less.prems(1,3) go Some a Inl fin[OF next_I bound] less.hyps[OF shorter] next_I bound
          by (auto simp: retry_loop.simps[where attempt = attempt] Let_def split: if_splits)
      qed
    qed
  qed
qed

lemma retry_loop_total:
  assumes "\<And>w k. fn w k \<noteq> None"
  shows "\<exists>r ds w'. retry_loop fn shouldRetry config random sleep attempt lastError delays w = Some (r, delays @ ds, w')
    \<and> length ds \<le> nat (rc_maxAttempts config - attempt - 1) \<and> (\<forall>d \<in> set ds. d \<le> of_int (rc_maxDelayMs config))"
proof (induction "nat (rc_maxAttempts config - attempt)" arbitrary: attempt lastError delays w rule: less_induct)
  case less
  show ?case
  proof (cases "attempt < rc_maxAttempts config")
    case False
    then show ?thesis by (simp add: retry_loop.simps[where attempt = attempt])
  next
    case go: True
    obtain o1 w1 where fn: "fn w attempt = Some (o1, w1)" using assms[of w attempt] by (auto simp: not_None_eq)
    have shorter: "nat (rc_maxAttempts config - (attempt + 1)) < nat (rc_maxAttempts config - attempt)" using go by simp
    note unfolded = retry_loop.simps[where attempt = attempt and w = w] fn go
    show ?thesis
    proof (cases o1)
      case (Inr x)
      then show ?thesis by (simp add: unfolded)
    next
      case (Inl e)
      let ?d = "computeDelay attempt config (random attempt)"
      have delay: "?d \<le> of_int (rc_maxDelayMs config)" by (simp add: computeDelay_def Let_def)
      show ?thesis
      proof (cases "shouldRetry e \<and> attempt < rc_maxAttempts config - 1")
        case True
        obtain r ds w' where "retry_loop fn shouldRetry config random sleep (attempt + 1) (Some e) (delays @ [?d]) (sleep ?d w1) =
            Some (r, (delays @ [?d]) @ ds, w')" "length ds \<le> nat (rc_maxAttempts config - (attempt + 1) - 1)"
          "\<forall>d \<in> set ds. d \<le> of_int (rc_maxDelayMs config)"
          using less[OF shorter] by blast
        moreover have "Suc (nat (rc_maxAttempts config - (attempt + 1) - 1)) \<le> nat (rc_maxAttempts config - attempt - 1)"
          using True by linarith
        ultimately show ?thesis using True delay by (intro exI[of _ r] exI[of _ "?d # ds"] exI[of _ w'])
            (auto simp: unfolded Inl Let_def)
      next
        case False
        then show ?thesis using less[OF shorter, of "Some e" delays w1] by (auto simp: unfolded Inl)
      qed
    qed
  qed
qed

text \<open>A client that notes every blob it submits.\<close>

definition logged :: "('w \<Rightarrow> 'a \<times> 'w) \<Rightarrow> 'w \<times> 'l \<Rightarrow> 'a \<times> ('w \<times> 'l)" where
  "logged f wl = (let (x, w) = f (fst wl) in (x, (w, snd wl)))"

definition logging :: "'w xrpl_client \<Rightarrow> ('w \<times> string list) xrpl_client" where
  "logging client = \<lparr>cl_isConnected = cl_isConnected client \<circ> fst, cl_connect = logged (cl_connect client),
     cl_tx = (\<lambda>wl h. logged (\<lambda>w. cl_tx client w h) wl),
     cl_submitAndWait = (\<lambda>wl blob. let (x, w) = cl_submitAndWait client (fst wl) blob in (x, (w, snd wl @ [blob]))),
     cl_now = cl_now client \<circ> fst, cl_sleep = (\<lambda>d wl. (cl_sleep client d (fst wl), snd wl))\<rparr>"

subsection \<open>One attempt\<close>

lemma withTimeout_settled: "withTimeout call ms operation = Some res \<Longrightarrow> fst res \<noteq> Unsettled \<and> snd res = snd call"
  by (auto simp: withTimeout_def split: submit_outcome.splits if_splits)

lemma attempt_total:
  assumes "0 < timeoutMs"
  shows "submitSigned client reported prefix chainId account timeoutMs payload txBlob txHash w attempt \<noteq> None"
proof -
  obtain c w1 where c: "ensureConnected client w = (c, w1)" by (rule prod.exhaust)
  obtain e w2 where e: "(if reported \<and> txHash = [] then (None, w1) else checkExistingTx client txHash w1) = (e, w2)"
    by (rule prod.exhaust)
  obtain res where res: "withTimeout (cl_submitAndWait client w2 txBlob) timeoutMs ''submitAndWait'' = Some res"
    using assms by (cases "fst (cl_submitAndWait client w2 txBlob)") (auto simp: withTimeout_def)
  obtain out w3 where out: "res = (out, w3)" by (rule prod.exhaust)
  have "out \<noteq> Unsettled" using withTimeout_settled[OF res] out by simp
  then show ?thesis unfolding submitSigned_def c
    by (cases c) (simp_all add: e res out split: option.split submit_outcome.split)
qed

lemma attempt_cases:
  assumes "submitSigned client reported prefix chainId account timeoutMs payload txBlob txHash w attempt = Some (r, w')"
  obtains (dropped) e where "ensureConnected client w = (Inl e, w')" "r = Inl e"
  | (found) w1 i where "ensureConnected client w = (Inr (), w1)" "checkExistingTx client txHash w1 = (Some i, w')"
      "r = Inr (make_record prefix payload chainId account txHash i (cl_now client w'))"
  | (submitted) w1 w2 out where "ensureConnected client w = (Inr (), w1)"
      "w2 = w1 \<or> checkExistingTx client txHash w1 = (None, w2)" "cl_submitAndWait client w2 txBlob = (out, w')"
      "\<And>x. r = Inr x \<Longrightarrow> \<exists>a b c i. out = Validated a b c \<and> x = make_record prefix payload chainId account
         (if reported then option_default c txHash else txHash) i (cl_now client w')"
proof -
  obtain c w1 where c: "ensureConnected client w = (c, w1)" by (rule prod.exhaust)
  obtain e w2 where e: "(if reported \<and> txHash = [] then (None, w1) else checkExistingTx client txHash w1) = (e, w2)"
    by (rule prod.exhaust)
  show thesis
  proof (cases c)
    case (Inl x)
    then show ?thesis using assms c dropped by (simp add: submitSigned_def)
  next
    case (Inr u)
    then have c: "ensureConnected client w = (Inr (), w1)" using c by simp
    show ?thesis
    proof (cases e)
      case (Some i)
      then show ?thesis using assms e found[OF c] unfolding submitSigned_def c by (auto split: if_splits)
    next
      case None
      let ?call = "withTimeout (cl_submitAndWait client w2 txBlob) timeoutMs ''submitAndWait''"
      obtain out w3 where sent: "cl_submitAndWait client w2 txBlob = (out, w3)" by (rule prod.exhaust)
      have r: "(case ?call of None \<Rightarrow> None | Some (Unsettled, w) \<Rightarrow> None | Some (Submit_rejected e, w) \<Rightarrow> Some (Inl e, w)
          | Some (Validated m l h, w) \<Rightarrow> Some (Inr (make_record prefix payload chainId account
              (if reported then option_default h txHash else txHash)
              (case m of Some i \<Rightarrow> i | None \<Rightarrow> option_default l 0) (cl_now client w)), w)) = Some (r, w')"
        using assms unfolding submitSigned_def c prod.case sum.case e None option.case .
      have "w3 = w'" using r sent by (cases out) (auto simp: withTimeout_def split: if_splits)
      moreover have "\<exists>a b c i. out = Validated a b c \<and> x = make_record prefix payload chainId account
          (if reported then option_default c txHash else txHash) i (cl_now client w')" if "r = Inr x" for x
        using r sent that by (cases out) (auto simp: withTimeout_def split: if_splits)
      moreover have "w2 = w1 \<or> checkExistingTx client txHash w1 = (None, w2)" using e None by (auto split: if_splits)
      moreover note sent
      ultimately show ?thesis by (intro submitted[OF c, of w2 out]) auto
    qed
  qed
qed

lemma attempt_log:
  assumes "submitSigned (logging client) reported prefix chainId account timeoutMs payload txBlob txHash wl attempt = Some (r, wl')"
  shows "snd wl' = snd wl \<or> snd wl' = snd wl @ [txBlob]"
proof -
  have tie: "snd w1 = snd w" if "ensureConnected (logging client) w = (c, w1)" for w c w1
    using that by (auto simp: ensureConnected_def logging_def logged_def split: prod.splits sum.splits if_splits)
  have look: "snd w1 = snd w" if "checkExistingTx (logging client) txHash w = (c, w1)" for w c w1
    using that by (auto simp: checkExistingTx_def logging_def logged_def split: prod.splits sum.splits bool.splits)
  have call: "snd w1 = snd w @ [txBlob]" if "cl_submitAndWait (logging client) w txBlob = (c, w1)" for w c w1
    using that by (auto simp: logging_def split: prod.splits)
  show ?thesis using assms
  proof (cases rule: attempt_cases)
    case (dropped e) then show ?thesis using tie by blast
  next
    case (found w1 i) then show ?thesis using tie look by metis
  next
    case (submitted w1 w2 out) then show ?thesis using tie look call by metis
  qed
qed

lemma replicate_grow:
  assumes "\<exists>j. l = replicate j x \<and> int j \<le> k" "l' = l \<or> l' = l @ [x]"
  shows "\<exists>j. l' = replicate j x \<and> int j \<le> k + 1"
proof -
  obtain j where j: "l = replicate j x" "int j \<le> k" using assms(1) by blast
  have "l' = replicate j x \<or> l' = replicate (Suc j) x" using assms(2) j by (auto simp: replicate_append_same)
  then show ?thesis
  proof
    assume "l' = replicate j x" then show ?thesis using j(2) by (intro exI[of _ j]) simp
  next
    assume "l' = replicate (Suc j) x" then show ?thesis using j(2) by (intro exI[of _ "Suc j"]) simp
  qed
qed

lemma submission_log:
  assumes "withRetry (submitSigned (logging client) reported prefix chainId account timeoutMs payload txBlob txHash)
      config shouldRetry random (cl_sleep (logging client)) (w, []) = Some (r, ds, wl)"
  shows "\<exists>j. snd wl = replicate j txBlob \<and> int j \<le> max 0 (rc_maxAttempts config)"
  using assms unfolding withRetry_def
proof (rule retry_loop_rule[where I = "\<lambda>k wl. \<exists>j. snd wl = replicate j txBlob \<and> int j \<le> k"])
  fix k and w w' :: "'a \<times> string list" and x
  assume I: "\<exists>j. snd w = replicate j txBlob \<and> int j \<le> k" and k: "k < rc_maxAttempts config"
  show "\<exists>j. snd w' = replicate j txBlob \<and> int j \<le> max 0 (rc_maxAttempts config)"
    if "submitSigned (logging client) reported prefix chainId account timeoutMs payload txBlob txHash w k = Some (Inr x, w')"
    using replicate_grow[OF I attempt_log[OF that]] k by fastforce
next
  fix k and w w' :: "'a \<times> string list" and e
  assume I: "\<exists>j. snd w = replicate j txBlob \<and> int j \<le> k"
  show "\<exists>j. snd w' = replicate j txBlob \<and> int j \<le> k + 1"
    if "submitSigned (logging client) reported prefix chainId account timeoutMs payload txBlob txHash w k = Some (Inl e, w')"
    by (rule replicate_grow[OF I attempt_log[OF that]])
next
  fix k and w :: "'a \<times> string list" and d
  assume "\<exists>j. snd w = replicate j txBlob \<and> int j \<le> k"
  then show "\<exists>j. snd (cl_sleep (logging client) d w) = replicate j txBlob \<and> int j \<le> k" by (simp add: logging_def)
next
  fix k and w :: "'a \<times> string list"
  assume "\<exists>j. snd w = replicate j txBlob \<and> int j \<le> k" "k \<le> max 0 (rc_maxAttempts config)"
  then show "\<exists>j. snd w = replicate j txBlob \<and> int j \<le> max 0 (rc_maxAttempts config)" by fastforce
qed simp_all


subsection \<open>Submission\<close>

abbreviation submit_timeout :: "witness_config \<Rightarrow> int" where
  "submit_timeout config \<equiv> option_default (wc_submitTimeoutMs config) DEFAULT_SUBMIT_TIMEOUT_MS"

abbreviation submit_retry :: "witness_config \<Rightarrow> retry_config" where
  "submit_retry config \<equiv> option_default (wc_retry config) DEFAULT_RETRY_CONFIG"

lemma finish_cases:
  assumes "finish_submit run = Some (r, w')"
  obtains res ds where "run = Some (res, ds, w')" "\<And>x. r = Inr x \<longleftrightarrow> res = Inr x"
  using assms by (auto simp: finish_submit_def split: option.splits prod.splits sum.splits)

lemma xrpl_submit_cases:
  assumes "xrpl_submit client autofill sign random config online payload w = Some (r, w')"
  obtains (refused) e where "r = Inl e" "w' = w \<or> (\<exists>tx. w' = snd (autofill w tx))"
  | (ran) memo prepared w1 res ds where "encodeMemo (payload_json payload) = Inr memo"
      "autofill w \<lparr>py_account = wc_account config, py_destination = wc_account config, py_amount = ''1'',
         py_memos = [memo], py_fee = fee_of config\<rparr> = (Inr prepared, w1)"
      "withRetry (submitSigned client False ''witness:'' (wc_chainId config) (wc_account config) (submit_timeout config)
         payload (fst (sign prepared)) (snd (sign prepared))) (submit_retry config) isRetryableXrplError random
         (cl_sleep client) w1 = Some (res, ds, w')" "\<And>x. r = Inr x \<longleftrightarrow> res = Inr x"
proof (cases "\<not> online \<or> (\<exists>e. buildTransaction (wc_account config) payload = Inl e)")
  case True
  then have "\<exists>e. r = Inl e" "w' = w" using assms by (auto simp: xrpl_submit_def split: if_splits)
  then show ?thesis using refused by blast
next
  case False
  then obtain memo where memo: "encodeMemo (payload_json payload) = Inr memo"
    by (cases "encodeMemo (payload_json payload)") (auto simp: buildTransaction_def)
  let ?tx = "\<lparr>py_account = wc_account config, py_destination = wc_account config, py_amount = ''1'',
      py_memos = [memo], py_fee = fee_of config\<rparr>"
  obtain p w1 where p: "autofill w ?tx = (p, w1)" by (rule prod.exhaust)
  show ?thesis
  proof (cases p)
    case (Inl e)
    then have "r = Inl (Autofill_failed e)" "w' = w1"
      using assms False p by (simp_all add: xrpl_submit_def buildTransaction_def memo)
    then show ?thesis using refused p snd_conv by metis
  next
    case (Inr prepared)
    have "finish_submit (withRetry (submitSigned client False ''witness:'' (wc_chainId config) (wc_account config)
        (submit_timeout config) payload (fst (sign prepared)) (snd (sign prepared))) (submit_retry config)
        isRetryableXrplError random (cl_sleep client) w1) = Some (r, w')"
      using assms False p Inr by (simp add: xrpl_submit_def buildTransaction_def memo split_beta)
    then show ?thesis using ran[OF memo p[unfolded Inr]] by (elim finish_cases) blast
  qed
qed

text \<open>A submission whose attempts have a deadline ends, with a record or with an error: however the network
  behaves, and also when its calls never settle, the loop runs out of attempts, and no delay of it exceeds the configured one.\<close>

theorem submission_terminates:
  assumes "0 < submit_timeout config"
  shows "xrpl_submit client autofill sign random config online payload w \<noteq> None"
proof -
  have run: "\<exists>y. withRetry (submitSigned client False ''witness:'' (wc_chainId config) (wc_account config) (submit_timeout config)
      payload b h) c s random (cl_sleep client) w1 = Some y" for b h c s w1
    unfolding withRetry_def
    using retry_loop_total[where fn = "submitSigned client False ''witness:'' (wc_chainId config) (wc_account config)
        (submit_timeout config) payload b h", OF attempt_total[OF assms]] by blast
  have fin: "finish_submit (Some y) \<noteq> None" for y :: "(retry_failure + witness_record) \<times> rat list \<times> 'a"
    by (cases y; cases "fst y") (auto simp: finish_submit_def)
  have "finish_submit (withRetry (submitSigned client False ''witness:'' (wc_chainId config) (wc_account config)
      (submit_timeout config) payload b h) c s random (cl_sleep client) w1) \<noteq> None" for b h c s w1
    using run[of b h c s w1] fin by metis
  then show ?thesis unfolding xrpl_submit_def by (simp add: split_beta split: sum.split prod.split)
qed

text \<open>C9: However often the attempts of a submission fail, time out or are retried, every blob given to the network is
  the one signed transaction of the prepared payment, and there are at most as many calls as configured attempts:
  the account never issues a second transaction for one attestation.\<close>

theorem submits_one_transaction:
  assumes "xrpl_submit (logging client) (\<lambda>wl tx. logged (\<lambda>w. autofill w tx) wl) sign random config online payload (w, [])
      = Some (r, w', blobs)"
  shows "blobs = [] \<or> (\<exists>memo prepared w1 n. encodeMemo (payload_json payload) = Inr memo
    \<and> autofill w \<lparr>py_account = wc_account config, py_destination = wc_account config, py_amount = ''1'',
         py_memos = [memo], py_fee = fee_of config\<rparr> = (Inr prepared, w1)
    \<and> blobs = replicate n (fst (sign prepared)) \<and> int n \<le> max 0 (rc_maxAttempts (submit_retry config)))"
  using assms
proof (cases rule: xrpl_submit_cases)
  case (refused e)
  then have "blobs = []" by (auto simp: logged_def Let_def split_beta)
  then show ?thesis by blast
next
  case (ran memo prepared w1 res ds)
  then obtain w2 where w1: "w1 = (w2, [])" by (auto simp: logged_def split: prod.splits)
  have "autofill w \<lparr>py_account = wc_account config, py_destination = wc_account config, py_amount = ''1'',
      py_memos = [memo], py_fee = fee_of config\<rparr> = (Inr prepared, w2)"
    using ran(2) w1 by (auto simp: logged_def split: prod.splits)
  then show ?thesis using submission_log[OF ran(3)[unfolded w1]] ran(1) unfolding snd_conv by blast
qed

text \<open>The network as the code relies on it: a transaction that is found validated or that a call reports as
  validated is one that \<open>fetch\<close> finds with the memos it was signed with.\<close>

definition faithful_network ::
  "'w xrpl_client \<Rightarrow> ('p \<Rightarrow> string \<times> string) \<Rightarrow> ('p \<Rightarrow> xrpl_memo list) \<Rightarrow> ('w \<Rightarrow> string \<Rightarrow> xrpl_memo list option result) \<Rightarrow> bool" where
  "faithful_network client sign memos_of fetch \<longleftrightarrow>
     (\<forall>w p i w'. cl_tx client w (snd (sign p)) = (Inr (True, i), w') \<longrightarrow>
        fetch w' (snd (sign p)) = Inr (Some (memos_of p))) \<and>
     (\<forall>w p a b c w'. cl_submitAndWait client w (fst (sign p)) = (Validated a b c, w') \<longrightarrow>
        fetch w' (snd (sign p)) = Inr (Some (memos_of p)))"

text \<open>C10: A record that a submission returns is proved by the chain: on a network whose validated transactions
  have the memos they were signed with, \<^verbatim>\<open>XrplVerifier.verify\<close> accepts every record of a consistent payload
  that \<^verbatim>\<open>XrplSubmitter.submit\<close> returns, whichever attempt it came from and whether the response arrived
  or the transaction was found again after a lost one.\<close>

theorem submitted_record_verifies:
  assumes "xrpl_submit client autofill sign random config online payload w = Some (Inr record, w')"
    and "faithful_network client sign memos_of fetch" "self_consistent H canon payload"
    and "\<And>w tx p w'. autofill w tx = (Inr p, w') \<Longrightarrow> memos_of p = py_memos tx"
  shows "verifyWitness H canon other True (fetch w') record = Inr \<lparr>vr_verified = True, vr_witnessRecord = record,
    vr_onChainHash = Some (Js_str (ap_hash payload)), vr_discrepancies = []\<rparr>"
  using assms(1)
proof (cases rule: xrpl_submit_cases)
  case (ran memo prepared w1 res ds)
  let ?attempt = "submitSigned client False ''witness:'' (wc_chainId config) (wc_account config) (submit_timeout config)
      payload (fst (sign prepared)) (snd (sign prepared))"
  have memos: "memos_of prepared = [memo]" using assms(4)[OF ran(2)] by simp
  have good: "wr_payload x = payload \<and> wr_txHash x = snd (sign prepared) \<and> fetch v (snd (sign prepared)) = Inr (Some [memo])"
    if "?attempt u k = Some (Inr x, v)" for u k x v
    using that
  proof (cases rule: attempt_cases)
    case (dropped e) then show ?thesis by simp
  next
    case (found w1 i)
    then have "\<exists>j. cl_tx client w1 (snd (sign prepared)) = (Inr (True, j), v)"
      by (auto simp: checkExistingTx_def split: prod.splits sum.splits bool.splits)
    then show ?thesis using found(3) assms(2) memos unfolding faithful_network_def by (auto simp: make_record_def)
  next
    case (submitted w1 w2 out)
    then show ?thesis using assms(2) memos unfolding faithful_network_def by (fastforce simp: make_record_def)
  qed
  have "\<forall>x. res = Inr x \<longrightarrow> wr_payload x = payload \<and> wr_txHash x = snd (sign prepared) \<and>
      fetch w' (snd (sign prepared)) = Inr (Some [memo])"
    by (rule retry_loop_rule[OF ran(3)[unfolded withRetry_def], where I = "\<lambda>_ _. True"]) (use good in auto)
  then have r: "wr_payload record = payload" "wr_txHash record = snd (sign prepared)"
    "fetch w' (snd (sign prepared)) = Inr (Some [memo])" using ran(4) by auto
  have "decodeMemo other memo = Inr (payload_json payload)" "isAttestiaMemo memo"
    using decode_encoded[OF payload_normal ran(1)] by simp_all
  then show ?thesis using r assms(3)
    by (simp add: verifyWitness_def throw_when_def verify_memos_def option_default_def payload_properties
        self_consistent_def Let_def)
qed simp


subsection \<open>Several signers\<close>

lemma multi_submit_cases:
  assumes "multi_submit client autofill crypto collate verify payloadHash random config wallets payload policy w = Some (r, w')"
  obtains (refused) e where "r = Inl e" "w' = w \<or> (\<exists>tx. w' = snd (autofill w tx))"
  | (ran) memo prepared w1 multi res ds where "encodeMemo (payload_json payload) = Inr memo"
      "autofill w \<lparr>py_account = wc_account config, py_destination = wc_account config, py_amount = ''1'',
         py_memos = [memo], py_fee = fee_of config\<rparr> = (Inr prepared, w1)"
      "buildMultiSign crypto collate verify (jm_values (option_default wallets [])) (payloadHash payload policy) policy
         (cl_now client w1) prepared = Inr multi"
      "withRetry (submitSigned client True ''witness:multisig:'' (wc_chainId config) (wc_account config) (submit_timeout config)
         payload (ms_combinedBlob multi) (ms_txHash multi)) (submit_retry config) isRetryableXrplError random
         (cl_sleep client) w1 = Some (res, ds, w')" "\<And>x. r = Inr x \<longleftrightarrow> res = Inr x"
proof (cases "wallets = None \<or> wallets = Some [] \<or> (\<exists>e. buildTransaction (wc_account config) payload = Inl e)")
  case True
  then have "\<exists>e. r = Inl e" "w' = w" using assms by (auto simp: multi_submit_def split: if_splits)
  then show ?thesis using refused by blast
next
  case False
  then obtain memo ws where memo: "encodeMemo (payload_json payload) = Inr memo" and ws: "wallets = Some ws" "ws \<noteq> []"
    by (cases "encodeMemo (payload_json payload)") (auto simp: buildTransaction_def)
  let ?tx = "\<lparr>py_account = wc_account config, py_destination = wc_account config, py_amount = ''1'',
      py_memos = [memo], py_fee = fee_of config\<rparr>"
  obtain p w1 where p: "autofill w ?tx = (p, w1)" by (rule prod.exhaust)
  have early: thesis if "\<exists>e. r = Inl e" "w' = w1" using that refused p snd_conv by metis
  note body = assms[unfolded multi_submit_def buildTransaction_def memo, simplified ws, simplified]
  show ?thesis
  proof (cases p)
    case (Inl e)
    then show ?thesis using body ws p by (intro early) auto
  next
    case (Inr prepared)
    let ?built = "buildMultiSign crypto collate verify (jm_values (option_default wallets [])) (payloadHash payload policy)
        policy (cl_now client w1) prepared"
    show ?thesis
    proof (cases ?built)
      case (Inl e)
      then show ?thesis using body p Inr ws by (intro early) auto
    next
      case built: (Inr multi)
      have "finish_submit (withRetry (submitSigned client True ''witness:multisig:'' (wc_chainId config) (wc_account config)
          (submit_timeout config) payload (ms_combinedBlob multi) (ms_txHash multi)) (submit_retry config)
          isRetryableXrplError random (cl_sleep client) w1) = Some (r, w')"
        using body p Inr built ws by simp
      then show ?thesis using ran[OF memo p[unfolded Inr] built] by (elim finish_cases) blast
    qed
  qed
qed

lemma built_has_quorum:
  assumes "buildMultiSign crypto collate verify wallets h policy now prepared = Inr multi"
    and "distinct (map sg_address (gp_signers policy))"
  shows "quorum_reached (Some verify) h policy (ms_signerSignatures multi)"
proof -
  have "\<exists>agg. aggregateSignatures collate (ms_signerSignatures multi) policy h (Some verify) now = Inr agg"
    using assms(1) by (auto simp: buildMultiSign_def bind_r_eq_Inr)
  then show ?thesis using aggregate_iff[OF assms(2)] by blast
qed

text \<open>C8: With several signers nothing reaches the network and no record is returned unless the signatures that the
  connected wallets made of the payload's canonical hash reach the quorum of the policy, each one counted only
  once verified; and all that is submitted is the one transaction combined from those signers' blobs.\<close>

theorem multi_submit_needs_quorum:
  assumes "multi_submit (logging client) (\<lambda>wl tx. logged (\<lambda>w. autofill w tx) wl) crypto collate verify payloadHash random
      config wallets payload policy (w, []) = Some (r, w', blobs)"
    and "blobs \<noteq> [] \<or> r = Inr record" "distinct (map sg_address (gp_signers policy))"
  shows "\<exists>prepared now multi. buildMultiSign crypto collate verify (jm_values (option_default wallets []))
      (payloadHash payload policy) policy now prepared = Inr multi
    \<and> quorum_reached (Some verify) (payloadHash payload policy) policy (ms_signerSignatures multi)
    \<and> set blobs \<subseteq> {ms_combinedBlob multi} \<and> int (length blobs) \<le> max 0 (rc_maxAttempts (submit_retry config))"
  using assms(1)
proof (cases rule: multi_submit_cases)
  case (refused e)
  then have "blobs = []" by (auto simp: logged_def Let_def split_beta)
  then show ?thesis using assms(2) refused(1) by simp
next
  case (ran memo prepared w1 multi res ds)
  then obtain w2 where w1: "w1 = (w2, [])" by (auto simp: logged_def split: prod.splits)
  obtain n where "blobs = replicate n (ms_combinedBlob multi)" "int n \<le> max 0 (rc_maxAttempts (submit_retry config))"
    using submission_log[OF ran(4)[unfolded w1]] by auto
  then show ?thesis using ran(3) built_has_quorum[OF ran(3) assms(3)]
    by (intro exI[of _ prepared] exI[of _ "cl_now (logging client) w1"] exI[of _ multi]) auto
qed

subsection \<open>The last attempt\<close>

text \<open>A network where no response of a submission arrives and the third one is applied.\<close>

definition late_client :: "nat xrpl_client" where
  "late_client = \<lparr>cl_isConnected = (\<lambda>_. True), cl_connect = (\<lambda>w. (Inr (), w)),
     cl_tx = (\<lambda>w h. (Inr (3 \<le> w, Some 7), w)), cl_submitAndWait = (\<lambda>w b. (Unsettled, w + 1)), cl_now = (\<lambda>_. ''t''),
     cl_sleep = (\<lambda>_ w. w)\<rparr>"

lemma timeout_message: "error_message (Attempt_timeout 60000 ''submitAndWait'') =
    ''submitAndWait did not complete within the per-attempt deadline of 60000ms; treating as a (possibly-applied) transient - the next attempt's idempotency check will recover it if it landed (timed out).''"
  by (simp add: error_message_def int_str_def nat_str.simps digit_char_def) code_simp

lemma timeout_retryable: "isRetryableXrplError (Attempt_timeout 60000 ''submitAndWait'')"
proof -
  have "\<not> list_ex (msg_includes (map lower_char ''submitAndWait did not complete within the per-attempt deadline of 60000ms; treating as a (possibly-applied) transient - the next attempt's idempotency check will recover it if it landed (timed out).'')) permanentPatterns"
    by code_simp
  then show ?thesis by (simp only: isRetryableXrplError_def timeout_message js_error.case HOL.simp_thms)
qed
text \<open>The last attempt has no check after it: with the default configuration a submission whose third call is
  applied but times out ends with \<^verbatim>\<open>WitnessSubmitError\<close>, although \<^verbatim>\<open>_checkExistingTx\<close> would now find
  the transaction validated.\<close>

theorem lost_last_attempt:
  "(let config = \<lparr>wc_chainId = ''c'', wc_account = ''a'', wc_feeDrops = None, wc_retry = None, wc_submitTimeoutMs = None\<rparr>
    in (\<exists>f. xrpl_submit late_client (\<lambda>w tx. (Inr tx, w)) (\<lambda>_. (''blob'', ''hash'')) (\<lambda>_. 0) config True sample_payload 0
        = Some (Inl (Witness_submit_error 3 f), 3)) \<and> checkExistingTx late_client ''hash'' 3 = (Some 7, 3))"
proof -
  note retry = timeout_retryable
  have attempt: "submitSigned late_client False p c a 60000 sample_payload b h w k =
      Some (Inl (Attempt_timeout 60000 ''submitAndWait''), w + 1)" if "w < 3" for p c a b h w k
    using that by (simp add: submitSigned_def ensureConnected_def checkExistingTx_def withTimeout_def late_client_def)
  have sleep: "cl_sleep late_client d w = w" for d w by (simp add: late_client_def)
  have run: "\<exists>f ds. withRetry (submitSigned late_client False p c a 60000 sample_payload b h) DEFAULT_RETRY_CONFIG
      isRetryableXrplError random (cl_sleep late_client) 0 = Some (Inl (Retry_exhausted 3 f), ds, 3)" for p c a b h random
    unfolding withRetry_def DEFAULT_RETRY_CONFIG_def
    by (simp add: retry_loop.simps[where attempt = 0] retry_loop.simps[where attempt = 1] retry_loop.simps[where attempt = 2]
        retry_loop.simps[where attempt = 3] attempt sleep retry Let_def)
  have "buildTransaction ''a'' sample_payload = Inr \<lparr>py_account = ''a'', py_destination = ''a'', py_amount = ''1'',
      py_memos = [sample_memo], py_fee = None\<rparr>" by (simp add: buildTransaction_def sample_payload_encoded)
  then have "\<exists>f. xrpl_submit late_client (\<lambda>w tx. (Inr tx, w)) (\<lambda>_. (''blob'', ''hash'')) (\<lambda>_. 0)
      \<lparr>wc_chainId = ''c'', wc_account = ''a'', wc_feeDrops = None, wc_retry = None, wc_submitTimeoutMs = None\<rparr> True sample_payload 0
      = Some (Inl (Witness_submit_error 3 f), 3)"
    using run[of "''witness:''" "''c''" "''a''" "''blob''" "''hash''" "\<lambda>_. 0"]
    by (auto simp: xrpl_submit_def option_default_def DEFAULT_SUBMIT_TIMEOUT_MS_def finish_submit_def)
  then show ?thesis by (simp add: Let_def) (simp add: checkExistingTx_def late_client_def option_default_def)
qed


subsection \<open>Witnesses\<close>

definition sample_witness_config :: witness_config where
  "sample_witness_config = \<lparr>wc_chainId = ''c'', wc_account = ''a'', wc_feeDrops = None, wc_retry = None, wc_submitTimeoutMs = None\<rparr>"

text \<open>A network that validates the first call.\<close>

definition prompt_client :: "nat xrpl_client" where
  "prompt_client = \<lparr>cl_isConnected = (\<lambda>_. True), cl_connect = (\<lambda>w. (Inr (), w)),
     cl_tx = (\<lambda>w h. (Inl (Js_error ''txnNotFound''), w)),
     cl_submitAndWait = (\<lambda>w b. (Validated (Some 7) None (Some ''hash''), w + 1)), cl_now = (\<lambda>_. ''t''), cl_sleep = (\<lambda>_ w. w)\<rparr>"

definition sample_autofill :: "nat \<Rightarrow> payment \<Rightarrow> (js_error + unit) \<times> nat" where
  "sample_autofill w tx = (if py_memos tx = [sample_memo] then Inr () else Inl Not_an_error, w)"

lemma sample_built: "buildTransaction ''a'' sample_payload = Inr \<lparr>py_account = ''a'', py_destination = ''a'', py_amount = ''1'',
    py_memos = [sample_memo], py_fee = None\<rparr>"
  by (simp add: buildTransaction_def sample_payload_encoded)

lemma prompt_attempt:
  "submitSigned prompt_client rep p c a 60000 payload b ''hash'' w k = Some (Inr (make_record p payload c a ''hash'' 7 ''t''), w + 1)"
  "submitSigned (logging prompt_client) rep p c a 60000 payload b ''hash'' (w, bs) k =
     Some (Inr (make_record p payload c a ''hash'' 7 ''t''), (w + 1, bs @ [b]))"
  by (simp_all add: submitSigned_def ensureConnected_def checkExistingTx_def withTimeout_def prompt_client_def
      logging_def logged_def option_default_def)

lemma prompt_submission:
  "xrpl_submit prompt_client sample_autofill (\<lambda>_. (''blob'', ''hash'')) random sample_witness_config True sample_payload 0 =
     Some (Inr (make_record ''witness:'' sample_payload ''c'' ''a'' ''hash'' 7 ''t''), 1)"
  "xrpl_submit (logging prompt_client) (\<lambda>wl tx. logged (\<lambda>w. sample_autofill w tx) wl) (\<lambda>_. (''blob'', ''hash'')) random
     sample_witness_config True sample_payload (0, []) =
     Some (Inr (make_record ''witness:'' sample_payload ''c'' ''a'' ''hash'' 7 ''t''), 1, [''blob''])"
  by (simp_all add: xrpl_submit_def sample_witness_config_def sample_built sample_autofill_def logged_def option_default_def
      DEFAULT_SUBMIT_TIMEOUT_MS_def DEFAULT_RETRY_CONFIG_def withRetry_def retry_loop.simps[where attempt = 0] prompt_attempt
      finish_submit_def)

theorem submission_terminates_witness:
  "xrpl_submit late_client (\<lambda>w tx. (Inr tx, w)) (\<lambda>_. (''blob'', ''hash'')) (\<lambda>_. 0) sample_witness_config True sample_payload 0 \<noteq> None"
  by (rule submission_terminates)
    (simp add: sample_witness_config_def option_default_def DEFAULT_SUBMIT_TIMEOUT_MS_def)

theorem submits_one_transaction_witness:
  "\<exists>n. [''blob''] = replicate n ''blob'' \<and> int n \<le> 3"
  using submits_one_transaction[OF prompt_submission(2)]
  by (simp add: sample_witness_config_def option_default_def DEFAULT_RETRY_CONFIG_def) blast

theorem submitted_record_verifies_witness:
  "map_sum id vr_verified (verifyWitness (\<lambda>_. ''00'') JSON_stringify (\<lambda>_. None) True (\<lambda>_. Inr (Some [sample_memo]))
     (make_record ''witness:'' sample_payload ''c'' ''a'' ''hash'' 7 ''t'')) = Inr True"
proof -
  have "faithful_network prompt_client (\<lambda>_::unit. (''blob'', ''hash'')) (\<lambda>_. [sample_memo]) (\<lambda>_ _. Inr (Some [sample_memo]))"
    by (simp add: faithful_network_def)
  moreover have "[sample_memo] = py_memos tx" if "sample_autofill w tx = (Inr p, w')" for w tx p w'
    using that by (simp add: sample_autofill_def split: if_splits)
  ultimately show ?thesis
    using submitted_record_verifies[OF prompt_submission(1), of "\<lambda>_. [sample_memo]" "\<lambda>_ _. Inr (Some [sample_memo])"
        "\<lambda>_. ''00''" JSON_stringify "\<lambda>_. None"] sample_payload_consistent by simp
qed

definition sample_crypto :: "unit xrpl_crypto" where
  "sample_crypto = \<lparr>xc_sign = (\<lambda>_ _. (''signed'', ''h'')), xc_decodeAccount = (\<lambda>_. Some ''a''), xc_account = (\<lambda>_. ''a''),
     xc_multisign = (\<lambda>_. Inr ''blob''), xc_hashSignedTx = (\<lambda>_. ''hash''), xc_signPayloadHash = (\<lambda>_ k. k)\<rparr>"

definition sample_multi :: multi_sign_result where
  "sample_multi = \<lparr>ms_signedBlobs = [''signed''], ms_signerSignatures = [signature_of ''b'' ''kb''], ms_combinedBlob = ''blob'',
     ms_txHash = ''hash''\<rparr>"

lemma sample_policy_addresses: "distinct (map sg_address (gp_signers sample_policy))"
  by (simp add: sample_policy_def sample_store_facts)

lemma sample_multi_built:
  "buildMultiSign sample_crypto id sample_verifier [\<lparr>wa_classicAddress = ''b'', wa_privateKey = ''kb''\<rparr>] ''h'' sample_policy ''t'' () =
     Inr sample_multi"
proof -
  have "contributors (Some sample_verifier) ''h'' sample_policy [signature_of ''b'' ''kb''] =
      {\<lparr>sg_address = ''b'', sg_label = ''B'', sg_weight = 2, sg_addedAt = ''t'', sg_publicKey = Some ''kb''\<rparr>}"
    by (auto simp: contributors_def sample_policy_def sample_store_facts signature_of_def signature_counts_def sample_verifier_def)
  then have "quorum_reached (Some sample_verifier) ''h'' sample_policy [signature_of ''b'' ''kb'']"
    by (simp add: quorum_reached_def sample_policy_def sample_store_facts) (simp add: signature_of_def)
  then obtain agg where "aggregateSignatures id [signature_of ''b'' ''kb''] sample_policy ''h'' (Some sample_verifier) ''t'' = Inr agg"
    using aggregate_iff[OF sample_policy_addresses] by blast
  then show ?thesis
    by (simp add: buildMultiSign_def sign_step_def sample_crypto_def throw_when_def sample_multi_def signature_of_def)
qed

lemma prompt_multi_submission:
  "multi_submit (logging prompt_client) (\<lambda>wl tx. logged (\<lambda>w. sample_autofill w tx) wl) sample_crypto id sample_verifier
     (\<lambda>_ _. ''h'') random sample_witness_config (Some [(''b'', \<lparr>wa_classicAddress = ''b'', wa_privateKey = ''kb''\<rparr>)])
     sample_payload sample_policy (0, []) =
   Some (Inr (make_record ''witness:multisig:'' sample_payload ''c'' ''a'' ''hash'' 7 ''t''), 1, [''blob''])"
proof -
  have "cl_now (logging prompt_client) (0, []) = ''t''" by (simp add: logging_def prompt_client_def)
  then show ?thesis
    by (simp add: multi_submit_def sample_witness_config_def sample_built sample_autofill_def logged_def option_default_def
      sample_multi_built DEFAULT_SUBMIT_TIMEOUT_MS_def DEFAULT_RETRY_CONFIG_def withRetry_def
      retry_loop.simps[where attempt = 0] prompt_attempt finish_submit_def) (simp add: sample_multi_def prompt_attempt)
qed

theorem multi_submit_needs_quorum_witness:
  "\<exists>now multi. buildMultiSign sample_crypto id sample_verifier [\<lparr>wa_classicAddress = ''b'', wa_privateKey = ''kb''\<rparr>] ''h''
      sample_policy now () = Inr multi
    \<and> quorum_reached (Some sample_verifier) ''h'' sample_policy (ms_signerSignatures multi) \<and> set [''blob''] \<subseteq> {ms_combinedBlob multi}"
  using multi_submit_needs_quorum[OF prompt_multi_submission _ sample_policy_addresses]
  by (simp add: option_default_def) blast

end
