(* ===== verification/Persistence.thy ===== *)
theory Persistence
  imports Registrar Digest
begin

section \<open>Snapshots, rehydration and replay of the registrar\<close>

text \<open>
  Model of \<^verbatim>\<open>packages/registrum/src/persistence\<close> (\<^verbatim>\<open>snapshot.ts\<close>,
  \<^verbatim>\<open>rehydrator.ts\<close>, \<^verbatim>\<open>replay.ts\<close>) and of the snapshot methods of
  \<^verbatim>\<open>structural-registrar.ts\<close>.

  A snapshot is a JavaScript value, as it is for \<^verbatim>\<open>validateSnapshot\<close>: what is restored may
  come from anywhere. Canonical JSON (\<open>canon\<close>) and SHA-256 (\<open>H\<close>) are parameters. Objects list
  their properties in the order of assignment (JavaScript puts keys that are integers first, which no
  result here depends on). Assigning to the key \<^verbatim>\<open>__proto__\<close> changes the prototype
  and adds no property; the model leaves the prototype as it was, and such a snapshot fails the
  validation either way.

  The lemmas show that snapshots rehydrate, that recorded runs replay, and that the history of a registrar stays
  ordered and append-only over its whole life, restarts from its snapshots included.
\<close>

type_synonym normative = "string \<times> string \<times> (string \<times> inv_scope \<times> failure_mode \<times> ast) list"

definition SNAPSHOT_VERSION :: string where
  "SNAPSHOT_VERSION = ''1.0''"

definition SUPPORTED_SNAPSHOT_VERSIONS :: "string list" where
  "SUPPORTED_SNAPSHOT_VERSIONS = [SNAPSHOT_VERSION]"

subsection \<open>Hashes of the constitution\<close>

fun join_commas :: "string list \<Rightarrow> string" where
  "join_commas [] = []"
| "join_commas [s] = s"
| "join_commas (s # t # ss) = s @ CHR '','' # join_commas (t # ss)"

definition computeLegacyRegistryHash :: "string list \<Rightarrow> string" where
  "computeLegacyRegistryHash ids = ''legacy:'' @ join_commas (sort ids)"

definition normative_content :: "compiled_registry \<Rightarrow> normative" where
  "normative_content c = (cr_registry_id c, cr_version c, map rule_of (cr_invariants c))"

definition computeRegistryHash :: "hasher \<Rightarrow> (normative \<Rightarrow> string) \<Rightarrow> compiled_registry \<Rightarrow> string" where
  "computeRegistryHash H canon c = sha256 H (canon (normative_content c))"

subsection \<open>Taking a snapshot\<close>

text \<open>Assignment of a property of an object literal.\<close>

definition js_put :: "(string \<times> jsval) list \<Rightarrow> string \<Rightarrow> jsval \<Rightarrow> (string \<times> jsval) list" where
  "js_put fs k v = (if k = ''__proto__'' then fs else jm_set fs k v)"

function root_walk ::
  "(string, registered_state) jsmap \<Rightarrow> string \<Rightarrow> string set \<Rightarrow> registered_state \<Rightarrow> string option" where
  "root_walk store i visited current =
     (if rs_versionKey current \<in> visited then None
      else case rs_parentId current of
        None \<Rightarrow> None
      | Some p \<Rightarrow>
          if p \<noteq> i then Some p
          else (case rs_parentKey current of
              None \<Rightarrow> None
            | Some k \<Rightarrow>
                (case jm_get store k of
                   None \<Rightarrow> None
                 | Some parent \<Rightarrow> root_walk store i (insert (rs_versionKey current) visited) parent)))"
  by pat_completeness auto

termination root_walk
  by (relation "measure (\<lambda>(store, i, visited, current). unvisited store visited current)")
    (auto simp: unvisited_step)

declare root_walk.simps [simp del]

definition resolveSnapshotParentId :: "registrar \<Rightarrow> registered_state \<Rightarrow> string option" where
  "resolveSnapshotParentId r entry = root_walk (rr_versionsByKey r) (rs_id entry) {} entry"

definition mode_text :: "registrar_mode \<Rightarrow> string" where
  "mode_text m = (case m of RM_legacy \<Rightarrow> ''legacy'' | RM_registry \<Rightarrow> ''registry'' | RM_dual \<Rightarrow> ''dual'')"

definition registry_hash_of ::
  "hasher \<Rightarrow> (normative \<Rightarrow> string) \<Rightarrow> registrar \<Rightarrow> registrum_error + string" where
  "registry_hash_of H canon r =
     (if rr_mode r = RM_registry \<or> rr_mode r = RM_dual then
        (case rr_compiledRegistry r of
           None \<Rightarrow> Inl JsTypeError | Some c \<Rightarrow> Inr (computeRegistryHash H canon c))
      else Inr (computeLegacyRegistryHash (map li_id (rr_invariants r))))"

definition frontier :: "registrar \<Rightarrow> registered_state list" where
  "frontier r = sort_key rs_orderIndex (jm_values (rr_latestById r))"

definition snapshot_value ::
  "string \<Rightarrow> string \<Rightarrow> string list \<Rightarrow> (string \<times> jsval) list \<Rightarrow> int \<Rightarrow> (string \<times> jsval) list \<Rightarrow> jsval" where
  "snapshot_value hash mode ids lineage max_index assigned =
     JObj (R_user 0)
       [(''version'', JStr SNAPSHOT_VERSION), (''registry_hash'', JStr hash), (''mode'', JStr mode),
        (''state_ids'', JArr (R_user 1) (map JStr ids)), (''lineage'', JObj (R_user 2) lineage),
        (''ordering'', JObj (R_user 3)
           [(''max_index'', JNum max_index), (''assigned'', JObj (R_user 4) assigned)])]"

definition take_registrar_snapshot ::
  "hasher \<Rightarrow> (normative \<Rightarrow> string) \<Rightarrow> registrar \<Rightarrow> registrum_error + jsval" where
  "take_registrar_snapshot H canon r =
     bind_r (registry_hash_of H canon r) (\<lambda>hash.
     let entries = frontier r;
         lineage = foldl (\<lambda>fs e. js_put fs (rs_id e) (nullable_string (resolveSnapshotParentId r e))) [] entries;
         assigned = foldl (\<lambda>fs e. js_put fs (rs_id e) (JNum (rs_orderIndex e))) [] entries
     in Inr (snapshot_value hash (mode_text (rr_mode r)) (map rs_id entries) lineage
          (rr_currentOrderIndex r - 1) assigned))"

subsection \<open>Validation\<close>

abbreviation invalid_snapshot :: registrum_error where
  "invalid_snapshot \<equiv> SnapshotValidationError"

definition js_in :: "string \<Rightarrow> jsval \<Rightarrow> bool" where
  "js_in k v \<longleftrightarrow> k \<in> set (map fst (js_entries v)) \<or> js_property v k \<noteq> JUndef"

definition snapshot_object :: "jsval \<Rightarrow> registrum_error + jsval" where
  "snapshot_object v =
     (if js_typeof v \<noteq> TypeObject \<or> v = JNull then Inl invalid_snapshot else Inr v)"

definition snapshot_string :: "jsval \<Rightarrow> registrum_error + string" where
  "snapshot_string v = (case v of JStr s \<Rightarrow> Inr s | _ \<Rightarrow> Inl invalid_snapshot)"

definition snapshot_integer :: "jsval \<Rightarrow> registrum_error + int" where
  "snapshot_integer v = (case v of JNum n \<Rightarrow> Inr n | _ \<Rightarrow> Inl invalid_snapshot)"

definition snapshot_array :: "jsval \<Rightarrow> registrum_error + jsval list" where
  "snapshot_array v = (case v of JArr r xs \<Rightarrow> Inr xs | _ \<Rightarrow> Inl invalid_snapshot)"

fun snapshot_strings :: "jsval list \<Rightarrow> registrum_error + string list" where
  "snapshot_strings [] = Inr []"
| "snapshot_strings (v # vs) =
     bind_r (snapshot_string v) (\<lambda>s. bind_r (snapshot_strings vs) (\<lambda>ss. Inr (s # ss)))"

text \<open>How a value is read as a property key.\<close>

definition property_key :: "jsval \<Rightarrow> string" where
  "property_key v =
     (case v of JStr s \<Rightarrow> s | JUndef \<Rightarrow> ''undefined'' | JNull \<Rightarrow> ''null''
      | JBool b \<Rightarrow> (if b then ''true'' else ''false'') | JNum n \<Rightarrow> int_str n
      | JFun f \<Rightarrow> ''function '' @ last (js_split (CHR ''.'') f) @ ''() { [native code] }''
      | JObj r fs \<Rightarrow> (if r = R_array_prototype then [] else ''[object Object]'')
      | JArr r xs \<Rightarrow> ''[object Array]'')"

text \<open>
  The walk of one state to its root. A cursor is a string or null unless a key is inherited; the walk
  ends because a repeated cursor is refused and the values that the properties of an object
  can have are finitely many.
\<close>

definition property_values :: "jsval \<Rightarrow> jsval list" where
  "property_values v =
     map snd (js_entries v) @
     [JUndef, object_prototype, array_prototype, JNum (int (length (js_entries v)))] @
     map (\<lambda>n. JFun (''Object.prototype.'' @ n)) object_prototype_names @
     map (\<lambda>n. JFun (''Array.prototype.'' @ n)) array_prototype_names"

lemma js_property_values: "js_property v k \<in> set (property_values v)"
proof -
  have own: "x \<in> set (property_values v)" if "map_of (js_entries v) k = Some x" for x
    using map_of_SomeD[OF that] by (force simp: property_values_def)
  have inh: "inherited_from_object k \<in> set (property_values v)" "inherited_from_array k \<in> set (property_values v)"
    by (simp_all add: property_values_def inherited_from_object_def inherited_from_array_def)
  have undef: "JUndef \<in> set (property_values v)" by (simp add: property_values_def)
  show ?thesis
  proof (cases v)
    case (JObj r fs)
    then show ?thesis using own inh by (auto simp: js_property_def js_entries_def split: option.split)
  next
    case (JArr r xs)
    have "JNum (int (length xs)) \<in> set (property_values v)" using JArr by (simp add: property_values_def js_entries_def)
    then show ?thesis using JArr own inh by (auto simp: js_property_def split: option.split)
  qed (use undef in \<open>auto simp: js_property_def\<close>)
qed

definition unseen_values :: "jsval \<Rightarrow> jsval set \<Rightarrow> jsval \<Rightarrow> nat" where
  "unseen_values lineage seen cursor =
     card (set (property_values lineage) - seen) + (if cursor \<in> set (property_values lineage) then 0 else 1)"

lemma unseen_step:
  assumes "cursor \<notin> seen"
  shows "unseen_values lineage (insert cursor seen) (js_property lineage k) < unseen_values lineage seen cursor"
proof -
  let ?V = "set (property_values lineage)"
  have "card (?V - insert cursor seen) < card (?V - seen)" if "cursor \<in> ?V"
    using that assms by (intro psubset_card_mono) auto
  moreover have "card (?V - insert cursor seen) \<le> card (?V - seen)" by (intro card_mono) auto
  ultimately show ?thesis by (auto simp: unseen_values_def js_property_values)
qed

function reaches_root :: "jsval \<Rightarrow> jsval set \<Rightarrow> jsval \<Rightarrow> registrum_error + unit" where
  "reaches_root lineage seen cursor =
     (if cursor = JNull then Inr ()
      else if cursor \<in> seen then Inl invalid_snapshot
      else let next = js_property lineage (property_key cursor)
           in if next = JUndef then Inl invalid_snapshot
              else reaches_root lineage (insert cursor seen) next)"
  by pat_completeness auto

termination reaches_root
  by (relation "measure (\<lambda>(lineage, seen, cursor). unseen_values lineage seen cursor)")
    (auto simp: unseen_step)

declare reaches_root.simps [simp del]


text \<open>The largest assigned index; \<open>None\<close> is minus infinity.\<close>

definition max_assigned :: "int list \<Rightarrow> int option" where
  "max_assigned vs =
     foldl (\<lambda>m v. case m of None \<Rightarrow> Some v | Some x \<Rightarrow> if v > x then Some v else Some x) None vs"

definition validateSnapshotConsistency ::
  "string list \<Rightarrow> jsval \<Rightarrow> int \<Rightarrow> jsval \<Rightarrow> int list \<Rightarrow> registrum_error + unit" where
  "validateSnapshotConsistency ids lineage max_index assigned indices =
     bind_r (forE (\<lambda>i. throw_when (\<not> js_in i lineage) invalid_snapshot) ids) (\<lambda>_.
     bind_r (forE (\<lambda>(k, v). throw_when (k \<notin> set ids) invalid_snapshot) (js_entries lineage)) (\<lambda>_.
     bind_r (forE (\<lambda>(k, v). throw_when (v \<noteq> JNull \<and> v \<notin> JStr ` set ids) invalid_snapshot)
       (js_entries lineage)) (\<lambda>_.
     bind_r (forE (\<lambda>i. reaches_root lineage {} (JStr i)) ids) (\<lambda>_.
     bind_r (forE (\<lambda>i. throw_when (\<not> js_in i assigned) invalid_snapshot) ids) (\<lambda>_.
     bind_r (forE (\<lambda>(k, v). throw_when (k \<notin> set ids) invalid_snapshot) (js_entries assigned)) (\<lambda>_.
     bind_r (if ids = [] then throw_when (max_index \<noteq> - 1) invalid_snapshot
             else throw_when (Some max_index \<noteq> max_assigned indices) invalid_snapshot) (\<lambda>_.
     if ids = [] then Inr ()
     else bind_r (throw_when (\<not> distinct indices) invalid_snapshot) (\<lambda>_.
       forE (\<lambda>n. throw_when (n < 0) invalid_snapshot) indices))))))))"

text \<open>
  The validated parts of a snapshot. The source checks the value in place and then reads its
  fields; the checks here return what they have read.
\<close>

record snapshot_parts =
  sp_registry_hash :: string
  sp_mode :: string
  sp_state_ids :: "string list"
  sp_lineage :: jsval
  sp_max_index :: int
  sp_assigned :: jsval

fun snapshot_integers :: "(string \<times> jsval) list \<Rightarrow> registrum_error + int list" where
  "snapshot_integers [] = Inr []"
| "snapshot_integers ((k, v) # kvs) =
     bind_r (snapshot_integer v) (\<lambda>n. bind_r (snapshot_integers kvs) (\<lambda>ns. Inr (n # ns)))"

definition validateSnapshot :: "jsval \<Rightarrow> registrum_error + snapshot_parts" where
  "validateSnapshot raw =
     bind_r (snapshot_object raw) (\<lambda>s.
     bind_r (forE (\<lambda>(k, v). throw_when (k \<notin> {''version'', ''registry_hash'', ''mode'', ''state_ids'',
       ''lineage'', ''ordering''}) invalid_snapshot) (js_entries s)) (\<lambda>_.
     bind_r (snapshot_string (js_property s ''version'')) (\<lambda>version.
     bind_r (throw_when (version \<notin> set SUPPORTED_SNAPSHOT_VERSIONS) invalid_snapshot) (\<lambda>_.
     bind_r (snapshot_string (js_property s ''registry_hash'')) (\<lambda>hash.
     bind_r (throw_when (hash = []) invalid_snapshot) (\<lambda>_.
     bind_r (snapshot_string (js_property s ''mode'')) (\<lambda>mode.
     bind_r (throw_when (mode \<notin> {''legacy'', ''registry'', ''dual''}) invalid_snapshot) (\<lambda>_.
     bind_r (snapshot_array (js_property s ''state_ids'')) (\<lambda>raw_ids.
     bind_r (snapshot_strings raw_ids) (\<lambda>ids.
     bind_r (snapshot_object (js_property s ''lineage'')) (\<lambda>lineage.
     bind_r (forE (\<lambda>(k, v). throw_when (v \<noteq> JNull \<and> js_typeof v \<noteq> TypeString) invalid_snapshot)
       (js_entries lineage)) (\<lambda>_.
     bind_r (snapshot_object (js_property s ''ordering'')) (\<lambda>ordering.
     bind_r (snapshot_integer (js_property ordering ''max_index'')) (\<lambda>max_index.
     bind_r (snapshot_object (js_property ordering ''assigned'')) (\<lambda>assigned.
     bind_r (snapshot_integers (js_entries assigned)) (\<lambda>indices.
     bind_r (validateSnapshotConsistency ids lineage max_index assigned indices) (\<lambda>_.
     Inr \<lparr>sp_registry_hash = hash, sp_mode = mode, sp_state_ids = ids, sp_lineage = lineage,
       sp_max_index = max_index, sp_assigned = assigned\<rparr>)))))))))))))))))"

definition migrateToLatest :: "jsval \<Rightarrow> registrum_error + jsval" where
  "migrateToLatest raw =
     (if js_property raw ''version'' = JStr SNAPSHOT_VERSION then Inr raw else Inl invalid_snapshot)"

subsection \<open>Rehydration\<close>

record rehydration_options =
  op_mode :: registrar_mode
  op_invariants :: "legacy_invariant list option"
  op_compiledRegistry :: "compiled_registry option"

record rehydrated_entry =
  re_id :: string
  re_parentId :: jsval
  re_orderIndex :: jsval

record rehydrated_state =
  rh_registry :: "(string, rehydrated_entry) jsmap"
  rh_currentOrderIndex :: int

definition computeExpectedHash ::
  "hasher \<Rightarrow> (normative \<Rightarrow> string) \<Rightarrow> rehydration_options \<Rightarrow> registrum_error + string" where
  "computeExpectedHash H canon opts =
     (if op_mode opts = RM_registry \<or> op_mode opts = RM_dual then
        (case op_compiledRegistry opts of
           None \<Rightarrow> Inl RehydrationError | Some c \<Rightarrow> Inr (computeRegistryHash H canon c))
      else
        (case op_invariants opts of
           None \<Rightarrow> Inl RehydrationError
         | Some is \<Rightarrow> Inr (computeLegacyRegistryHash (map li_id is))))"

definition reconstruct_entry ::
  "snapshot_parts \<Rightarrow> (string, rehydrated_entry) jsmap \<Rightarrow> string \<Rightarrow> registrum_error + (string, rehydrated_entry) jsmap" where
  "reconstruct_entry s registry i =
     (let parentId = js_property (sp_lineage s) i; orderIndex = js_property (sp_assigned s) i in
      if parentId = JUndef then Inl RehydrationError
      else if orderIndex = JUndef then Inl RehydrationError
      else Inr (jm_set registry i \<lparr>re_id = i, re_parentId = parentId, re_orderIndex = orderIndex\<rparr>))"

definition reconstructState :: "snapshot_parts \<Rightarrow> registrum_error + rehydrated_state" where
  "reconstructState s =
     bind_r (foldE (reconstruct_entry s) [] (sp_state_ids s)) (\<lambda>registry.
     Inr \<lparr>rh_registry = registry, rh_currentOrderIndex = sp_max_index s + 1\<rparr>)"

definition rehydrate ::
  "hasher \<Rightarrow> (normative \<Rightarrow> string) \<Rightarrow> jsval \<Rightarrow> rehydration_options \<Rightarrow> registrum_error + rehydrated_state" where
  "rehydrate H canon raw opts =
     bind_r (validateSnapshot raw) (\<lambda>s.
     bind_r (migrateToLatest raw) (\<lambda>_.
     bind_r (throw_when (sp_mode s \<noteq> mode_text (op_mode opts)) ModeMismatchError) (\<lambda>_.
     bind_r (computeExpectedHash H canon opts) (\<lambda>expectedHash.
     bind_r (throw_when (sp_registry_hash s \<noteq> expectedHash) RegistryMismatchError) (\<lambda>_.
     reconstructState s)))))"

text \<open>
  A restored entry as a version: \<open>None\<close> when the parent is not a string or null or the
  index not a number (an entry may be read from an inherited property, see below).
\<close>

definition restored_version :: "rehydrated_entry \<Rightarrow> registered_state option" where
  "restored_version e =
     (case re_orderIndex e of
        JNum n \<Rightarrow>
          (case re_parentId e of
             JNull \<Rightarrow> Some \<lparr>rs_id = re_id e, rs_parentId = None, rs_orderIndex = n,
               rs_versionKey = makeVersionKey (re_id e) n, rs_parentKey = None\<rparr>
           | JStr p \<Rightarrow> Some \<lparr>rs_id = re_id e, rs_parentId = Some p, rs_orderIndex = n,
               rs_versionKey = makeVersionKey (re_id e) n, rs_parentKey = None\<rparr>
           | _ \<Rightarrow> None)
      | _ \<Rightarrow> None)"

definition inject_entry :: "registrar \<Rightarrow> string \<times> registered_state \<Rightarrow> registrar" where
  "inject_entry r p =
     (case p of (i, v) \<Rightarrow>
        r\<lparr>rr_versionsByKey := jm_set (rr_versionsByKey r) (rs_versionKey v) v,
          rr_latestById := jm_set (rr_latestById r) i v\<rparr>)"

fun restored_versions :: "(string \<times> rehydrated_entry) list \<Rightarrow> (string \<times> registered_state) list option" where
  "restored_versions [] = Some []"
| "restored_versions ((i, e) # es) =
     (case (restored_version e, restored_versions es) of
        (Some v, Some vs) \<Rightarrow> Some ((i, v) # vs) | _ \<Rightarrow> None)"

text \<open>The result is \<open>None\<close> inside when the restored registrar holds an entry of a wrong type.\<close>

definition injectRehydratedState :: "registrar \<Rightarrow> rehydrated_state \<Rightarrow> registrar option" where
  "injectRehydratedState r st =
     (case restored_versions (rh_registry st) of
        None \<Rightarrow> None
      | Some vs \<Rightarrow>
          Some ((foldl inject_entry (r\<lparr>rr_versionsByKey := [], rr_latestById := []\<rparr>) vs)
            \<lparr>rr_currentOrderIndex := rh_currentOrderIndex st\<rparr>))"

definition fromSnapshot ::
  "hasher \<Rightarrow> (normative \<Rightarrow> string) \<Rightarrow> jsval \<Rightarrow> rehydration_options \<Rightarrow> registrum_error + registrar option" where
  "fromSnapshot H canon raw opts =
     bind_r (rehydrate H canon raw opts) (\<lambda>st.
     bind_r (new_registrar (Some (op_mode opts)) (op_invariants opts) (op_compiledRegistry opts)) (\<lambda>r.
     Inr (injectRehydratedState r st)))"

definition validateRehydration :: "rehydrated_state \<Rightarrow> snapshot_parts \<Rightarrow> bool" where
  "validateRehydration st s \<longleftrightarrow>
     length (rh_registry st) = length (sp_state_ids s) \<and>
     rh_currentOrderIndex st = sp_max_index s + 1 \<and>
     list_all (\<lambda>i. case jm_get (rh_registry st) i of
         None \<Rightarrow> False
       | Some e \<Rightarrow> js_identical (re_parentId e) (js_property (sp_lineage s) i) \<and>
           js_identical (re_orderIndex e) (js_property (sp_assigned s) i)) (sp_state_ids s)"

subsection \<open>Replay\<close>

datatype replay_outcome = O_accepted | O_rejected | O_halted

record replay_result =
  rp_index :: nat
  rp_transition :: transition
  rp_result :: registration_result
  rp_outcome :: replay_outcome

record replay_report =
  rr_total :: nat
  rr_accepted :: nat
  rr_rejected :: nat
  rr_halted :: nat
  rr_results :: "replay_result list"

text \<open>\<^verbatim>\<open>message.includes\<close>.\<close>

fun js_includes :: "string \<Rightarrow> string \<Rightarrow> bool" where
  "js_includes needle [] = (needle = [])"
| "js_includes needle (c # cs) =
     (take (length needle) (c # cs) = needle \<or> js_includes needle cs)"

definition classify_result :: "registration_result \<Rightarrow> replay_outcome" where
  "classify_result res =
     (case res of
        Accepted i n applied \<Rightarrow> O_accepted
      | Rejected vs \<Rightarrow>
          if list_ex (\<lambda>v. js_includes ''[HALT]'' (iv_message v)) vs then O_halted else O_rejected)"

definition replay_step ::
  "registrar \<times> replay_report \<Rightarrow> transition \<Rightarrow> registrum_error + (registrar \<times> replay_report)" where
  "replay_step st t =
     (case st of (r, rep) \<Rightarrow>
        (case register r t of
           (Inl e, r') \<Rightarrow> Inl e
         | (Inr res, r') \<Rightarrow>
             let out = classify_result res in
             Inr (r', rep\<lparr>rr_accepted := rr_accepted rep + (if out = O_accepted then 1 else 0),
                rr_rejected := rr_rejected rep + (if out = O_rejected then 1 else 0),
                rr_halted := rr_halted rep + (if out = O_halted then 1 else 0),
                rr_results := rr_results rep @ [\<lparr>rp_index = length (rr_results rep), rp_transition = t,
                  rp_result = res, rp_outcome = out\<rparr>]\<rparr>)))"

definition empty_report :: "nat \<Rightarrow> replay_report" where
  "empty_report n = \<lparr>rr_total = n, rr_accepted = 0, rr_rejected = 0, rr_halted = 0, rr_results = []\<rparr>"

definition replay_transitions ::
  "transition list \<Rightarrow> rehydration_options \<Rightarrow> registrum_error + replay_report" where
  "replay_transitions ts opts =
     bind_r (new_registrar (Some (op_mode opts)) (op_invariants opts) (op_compiledRegistry opts)) (\<lambda>r.
     bind_r (foldE replay_step (r, empty_report (length ts)) ts) (\<lambda>(r', rep). Inr rep))"

definition result_agrees :: "replay_result \<Rightarrow> replay_result \<Rightarrow> bool" where
  "result_agrees a b \<longleftrightarrow>
     rp_outcome a = rp_outcome b \<and>
     (case (rp_result a, rp_result b) of
        (Accepted i n xs, Accepted j m ys) \<Rightarrow> n = m
      | (Rejected vs, Rejected ws) \<Rightarrow>
          join_commas (sort (map iv_invariantId vs)) = join_commas (sort (map iv_invariantId ws))
      | _ \<Rightarrow> True)"

text \<open>The comparison stops at the first difference; reading past the end of the second report throws.\<close>

fun compare_results :: "replay_result list \<Rightarrow> replay_result list \<Rightarrow> registrum_error + bool" where
  "compare_results [] bs = Inr True"
| "compare_results (a # as) [] = Inl JsTypeError"
| "compare_results (a # as) (b # bs) = (if result_agrees a b then compare_results as bs else Inr False)"

definition compareReplayReports :: "replay_report \<Rightarrow> replay_report \<Rightarrow> registrum_error + bool" where
  "compareReplayReports a b =
     (if rr_total a \<noteq> rr_total b \<or> rr_accepted a \<noteq> rr_accepted b \<or> rr_rejected a \<noteq> rr_rejected b \<or>
         rr_halted a \<noteq> rr_halted b then Inr False
      else compare_results (rr_results a) (rr_results b))"

text \<open>The recorder of live registrations.\<close>

record transition_recorder =
  tc_transitions :: "transition list"
  tc_results :: "registration_result list"

definition createTransitionRecorder :: transition_recorder where
  "createTransitionRecorder = \<lparr>tc_transitions = [], tc_results = []\<rparr>"

definition record_registration ::
  "transition_recorder \<Rightarrow> transition \<Rightarrow> registration_result \<Rightarrow> transition_recorder" where
  "record_registration c t res =
     c\<lparr>tc_transitions := tc_transitions c @ [t], tc_results := tc_results c @ [res]\<rparr>"

definition count_outcome :: "replay_outcome \<Rightarrow> registration_result list \<Rightarrow> nat" where
  "count_outcome out results = length (filter (\<lambda>res. classify_result res = out) results)"

definition toReport :: "transition_recorder \<Rightarrow> replay_report" where
  "toReport c =
     \<lparr>rr_total = length (tc_transitions c), rr_accepted = count_outcome O_accepted (tc_results c),
      rr_rejected = count_outcome O_rejected (tc_results c), rr_halted = count_outcome O_halted (tc_results c),
      rr_results = map (\<lambda>(i, res). \<lparr>rp_index = i, rp_transition = tc_transitions c ! i, rp_result = res,
        rp_outcome = classify_result res\<rparr>) (enumerate 0 (tc_results c))\<rparr>"

subsection \<open>The frontier of a well-formed registrar\<close>

lemma latest_value_id:
  assumes "history_wf r" "(i, v) \<in> set (rr_latestById r)"
  shows "rs_id v = i" "last_version (versions r) i = Some v"
proof -
  have "jm_wf (rr_latestById r)" using assms(1) by (simp add: history_wf_def)
  then have "jm_get (rr_latestById r) i = Some v" using assms(2) by (simp add: jm_get_in)
  then show "last_version (versions r) i = Some v" using assms(1) by (simp add: history_wf_def)
  then show "rs_id v = i" by (rule last_version_id)
qed

lemma latest_keys_ids:
  assumes "history_wf r"
  shows "map rs_id (jm_values (rr_latestById r)) = jm_keys (rr_latestById r)"
  using latest_value_id(1)[OF assms] by auto

lemma frontier_values: "mset (frontier r) = mset (jm_values (rr_latestById r))"
  by (simp add: frontier_def)

lemma frontier_ids_distinct:
  assumes "history_wf r"
  shows "distinct (map rs_id (frontier r))"
proof -
  have "mset (map rs_id (frontier r)) = mset (jm_keys (rr_latestById r))"
    unfolding latest_keys_ids[OF assms, symmetric] by (simp only: mset_map frontier_values)
  from mset_eq_imp_distinct_iff[OF this] show ?thesis
    using assms by (simp add: history_wf_def jm_wf_def)
qed

lemma frontier_iff:
  assumes "history_wf r"
  shows "v \<in> set (frontier r) \<longleftrightarrow> last_version (versions r) (rs_id v) = Some v"
proof -
  have "v \<in> set (frontier r) \<longleftrightarrow> (\<exists>i. (i, v) \<in> set (rr_latestById r))"
    by (force simp: frontier_def)
  moreover have "(i, v) \<in> set (rr_latestById r) \<longleftrightarrow> last_version (versions r) i = Some v" for i
    using assms by (simp add: history_wf_def jm_get_in[symmetric])
  ultimately show ?thesis using last_version_id by metis
qed

lemma frontier_version:
  assumes "history_wf r" "v \<in> set (frontier r)"
  shows "\<exists>n < length (versions r). v = versions r ! n"
  using last_version_position[OF frontier_iff[OF assms(1), THEN iffD1, OF assms(2)]] by blast

lemma wf_linked: "history_wf r \<Longrightarrow> \<forall>n < length (versions r). linked_at (versions r) n"
  by (simp add: history_wf_def)

lemma frontier_below:
  assumes "history_wf r" "v \<in> set (frontier r)"
  shows "0 \<le> rs_orderIndex v \<and> rs_orderIndex v < rr_currentOrderIndex r"
proof -
  have "v \<in> set (versions r)" using frontier_version[OF assms] by auto
  from linked_below_next[OF wf_linked[OF assms(1)] this] show ?thesis using assms(1) by (simp add: history_wf_def)
qed

lemma frontier_indices:
  assumes "history_wf r"
  shows "distinct (map rs_orderIndex (frontier r))" "\<forall>n \<in> set (map rs_orderIndex (frontier r)). 0 \<le> n"
proof -
  have "distinct (frontier r)" using frontier_ids_distinct[OF assms] by (simp add: distinct_map)
  moreover have "distinct (map rs_orderIndex (versions r))"
    using linked_sorted[OF wf_linked[OF assms]] by (simp add: strict_sorted_iff)
  then have "inj_on rs_orderIndex (set (versions r))" by (simp add: distinct_map)
  then have "inj_on rs_orderIndex (set (frontier r))"
    using frontier_version[OF assms] by (elim inj_on_subset) (metis nth_mem subsetI)
  ultimately show "distinct (map rs_orderIndex (frontier r))" by (simp add: distinct_map)
  show "\<forall>n \<in> set (map rs_orderIndex (frontier r)). 0 \<le> n" using frontier_below[OF assms] by simp
qed

lemma frontier_empty:
  assumes "history_wf r"
  shows "frontier r = [] \<longleftrightarrow> versions r = []"
proof (cases "versions r" rule: rev_cases)
  case Nil
  then show ?thesis using frontier_version[OF assms] by (cases "frontier r") auto
next
  case (snoc vs v)
  then have "v \<in> set (frontier r)" by (simp add: frontier_iff[OF assms] last_version_snoc)
  then show ?thesis using snoc by auto
qed

lemma max_assigned_foldl:
  "foldl (\<lambda>m v. case m of None \<Rightarrow> Some v | Some x \<Rightarrow> if v > x then Some v else Some x) (Some (a :: int)) vs =
   Some (Max (insert a (set vs)))"
proof (induction vs arbitrary: a)
  case (Cons v vs)
  have "Max (insert a (insert v (set vs))) = Max (insert (max a v) (set vs))"
    by (cases "set vs = {}") (simp_all add: max.assoc)
  then show ?case using Cons by (simp add: max_def insert_commute)
qed simp

lemma max_assigned_Max: "max_assigned vs = (if vs = [] then None else Some (Max (set vs)))"
  by (cases vs) (simp_all add: max_assigned_def max_assigned_foldl)

lemma frontier_max:
  assumes "history_wf r" "frontier r \<noteq> []"
  shows "max_assigned (map rs_orderIndex (frontier r)) = Some (rr_currentOrderIndex r - 1)"
proof -
  have ne: "versions r \<noteq> []" using assms frontier_empty by blast
  let ?n = "length (versions r) - 1"
  let ?v = "versions r ! ?n"
  have "versions r = butlast (versions r) @ [?v]" using append_butlast_last_id[OF ne] last_conv_nth[OF ne] by simp
  then have "last_version (versions r) (rs_id ?v) = Some ?v" by (metis last_version_snoc)
  then have "?v \<in> set (frontier r)" by (simp add: frontier_iff[OF assms(1)])
  moreover have idx: "rs_orderIndex ?v = rr_currentOrderIndex r - 1"
    using assms(1) ne by (simp add: history_wf_def next_index_def last_conv_nth)
  moreover have "rs_orderIndex w \<le> rr_currentOrderIndex r - 1" if "w \<in> set (frontier r)" for w
    using frontier_below[OF assms(1) that] by simp
  ultimately have "Max (rs_orderIndex ` set (frontier r)) = rr_currentOrderIndex r - 1"
    by (intro Max_eqI) (auto simp: image_iff intro: bexI[of _ ?v])
  then show ?thesis using assms(2) by (simp add: max_assigned_Max)
qed

text \<open>No version has another state's parent, so the parent of the snapshot is always null.\<close>

lemma root_walk_linked:
  assumes "\<forall>n < length vs. linked_at vs n" "n < length vs"
  shows "root_walk (map (\<lambda>v. (rs_versionKey v, v)) vs) (rs_id (vs ! n)) visited (vs ! n) = None"
  using assms(2)
proof (induction n arbitrary: visited rule: less_induct)
  case (less n)
  have link: "linked_at vs n" using assms(1) less.prems by blast
  show ?case
  proof (cases "last_version (take n vs) (rs_id (vs ! n))")
    case None
    then show ?thesis using link by (subst root_walk.simps) (simp add: linked_at_def Let_def)
  next
    case (Some w)
    from last_version_position[OF Some] obtain m where m: "m < n" "m < length vs" "vs ! m = w"
      using less.prems by auto
    have w: "rs_id w = rs_id (vs ! n)" using last_version_id[OF Some] .
    have "rs_parentKey (vs ! n) = Some (rs_versionKey w)" "rs_parentId (vs ! n) = Some (rs_id w)"
      using link Some by (simp_all add: linked_at_def Let_def)
    moreover have "jm_get (map (\<lambda>v. (rs_versionKey v, v)) vs) (rs_versionKey w) = Some w"
      using get_version[OF assms(1) m(2)] m(3) by simp
    ultimately show ?thesis using less.IH[OF m(1,2)] m(3) w by (subst root_walk.simps) simp
  qed
qed

lemma resolveSnapshotParentId_null:
  assumes "history_wf r" "v \<in> set (frontier r)"
  shows "resolveSnapshotParentId r v = None"
proof -
  obtain n where "n < length (versions r)" "v = versions r ! n" using frontier_version[OF assms] by blast
  then show ?thesis
    using assms(1) root_walk_linked[of "versions r" n "{}"]
    unfolding resolveSnapshotParentId_def history_wf_def by metis
qed

subsection \<open>What a snapshot holds\<close>

lemma foldl_js_put:
  assumes "distinct (map fst fs @ map f es)" "''__proto__'' \<notin> f ` set es"
  shows "foldl (\<lambda>fs e. js_put fs (f e) (g e)) fs es = fs @ map (\<lambda>e. (f e, g e)) es"
  using assms
proof (induction es arbitrary: fs)
  case (Cons e es)
  have "jm_set fs (f e) (g e) = fs @ [(f e, g e)]"
    using Cons.prems(1) by (intro jm_set_new) (simp add: jm_has_keys)
  then have step: "js_put fs (f e) (g e) = fs @ [(f e, g e)]" using Cons.prems(2) by (auto simp: js_put_def)
  have "foldl (\<lambda>fs e. js_put fs (f e) (g e)) (fs @ [(f e, g e)]) es =
      (fs @ [(f e, g e)]) @ map (\<lambda>e. (f e, g e)) es"
    by (rule Cons.IH) (use Cons.prems in auto)
  then show ?case by (simp add: step)
qed simp

definition proto_free :: "registrar \<Rightarrow> bool" where
  "proto_free r \<longleftrightarrow> \<not> isRegistered r ''__proto__''"

lemma frontier_ids: "history_wf r \<Longrightarrow> set (map rs_id (frontier r)) = set (jm_keys (rr_latestById r))"
  using latest_keys_ids[of r] by (metis frontier_values mset_map set_mset_mset)

lemma frontier_proto:
  assumes "history_wf r" "proto_free r"
  shows "''__proto__'' \<notin> rs_id ` set (frontier r)"
  using frontier_ids[OF assms(1)] assms(2) by (auto simp: proto_free_def isRegistered_def jm_has_keys)

lemma take_snapshot_rooted:
  assumes "distinct (map rs_id (frontier r))" "''__proto__'' \<notin> rs_id ` set (frontier r)"
    "\<forall>v \<in> set (frontier r). resolveSnapshotParentId r v = None" "registry_hash_of H canon r = Inr h"
  shows "take_registrar_snapshot H canon r =
    Inr (snapshot_value h (mode_text (rr_mode r)) (map rs_id (frontier r))
      (map (\<lambda>v. (rs_id v, JNull)) (frontier r)) (rr_currentOrderIndex r - 1)
      (map (\<lambda>v. (rs_id v, JNum (rs_orderIndex v))) (frontier r)))"
proof -
  note put = foldl_js_put[of "[]" rs_id "frontier r", simplified, OF assms(1,2)]
  have "map (\<lambda>v. (rs_id v, nullable_string (resolveSnapshotParentId r v))) (frontier r) =
      map (\<lambda>v. (rs_id v, JNull)) (frontier r)"
    using assms(3) by (simp add: nullable_string_def)
  then show ?thesis by (simp only: take_registrar_snapshot_def assms(4) bind_r_Inr Let_def put append_Nil)
qed

lemmas take_snapshot_value = take_snapshot_rooted[OF frontier_ids_distinct frontier_proto]

lemma map_of_tagged:
  assumes "distinct (map f xs)" "x \<in> set xs"
  shows "map_of (map (\<lambda>x. (f x, g x)) xs) (f x) = Some (g x)"
  using assms by (intro map_of_is_SomeI) (auto simp: comp_def)

lemma tagged_property:
  assumes "distinct (map f xs)" "x \<in> set xs"
  shows "js_property (JObj r (map (\<lambda>x. (f x, g x)) xs)) (f x) = g x"
  by (simp add: js_property_def map_of_tagged[OF assms])

lemma snapshot_strings_ids: "snapshot_strings (map (\<lambda>v. JStr (f v)) vs) = Inr (map f vs)"
  by (induction vs) (simp_all add: snapshot_string_def)

lemma snapshot_integers_tagged: "snapshot_integers (map (\<lambda>x. (f x, JNum (g x))) xs) = Inr (map g xs)"
  by (induction xs) (simp_all add: snapshot_integer_def)

lemma root_reached:
  assumes "js_property lineage i = JNull"
  shows "reaches_root lineage {} (JStr i) = Inr ()"
  using assms by (subst reaches_root.simps, subst reaches_root.simps) (simp add: property_key_def Let_def)

text \<open>The data of a snapshot: distinct ids, all roots, with distinct indices up to the last one.\<close>

definition snapshot_frontier :: "registered_state list \<Rightarrow> int \<Rightarrow> bool" where
  "snapshot_frontier vs m \<longleftrightarrow>
     distinct (map rs_id vs) \<and> distinct (map rs_orderIndex vs) \<and> (\<forall>v \<in> set vs. 0 \<le> rs_orderIndex v) \<and>
     (if vs = [] then m = - 1 else max_assigned (map rs_orderIndex vs) = Some m)"

lemma snapshot_frontier_wf:
  assumes "history_wf r"
  shows "snapshot_frontier (frontier r) (rr_currentOrderIndex r - 1)"
  using assms frontier_ids_distinct[OF assms] frontier_indices[OF assms] frontier_max[OF assms] frontier_empty[OF assms]
  by (auto simp: snapshot_frontier_def history_wf_def next_index_def)

lemma snapshot_consistent:
  assumes "snapshot_frontier vs m"
  shows "validateSnapshotConsistency (map rs_id vs) (JObj a (map (\<lambda>v. (rs_id v, JNull)) vs)) m
    (JObj b (map (\<lambda>v. (rs_id v, JNum (rs_orderIndex v))) vs)) (map rs_orderIndex vs) = Inr ()"
proof -
  have ids: "distinct (map rs_id vs)" using assms by (simp add: snapshot_frontier_def)
  note at_id = tagged_property[OF ids]
  have "forE (\<lambda>i. reaches_root (JObj a (map (\<lambda>v. (rs_id v, JNull)) vs)) {} (JStr i)) (map rs_id vs) = Inr ()"
    unfolding forE_Inr using at_id root_reached by auto
  then have "\<forall>v \<in> set vs. reaches_root (JObj a (map (\<lambda>v. (rs_id v, JNull)) vs)) {} (JStr (rs_id v)) = Inr ()"
    by (simp add: forE_Inr)
  moreover have "js_in (rs_id v) (JObj a (map (\<lambda>v. (rs_id v, g v)) vs))" if "v \<in> set vs" for v a g
    using that by (auto simp: js_in_def js_entries_def)
  ultimately show ?thesis using assms
    by (auto simp: validateSnapshotConsistency_def snapshot_frontier_def bind_r_eq_Inr forE_Inr throw_when_Inr
      js_entries_def)
qed

lemma js_property_own: "js_property (JObj a ((k, v) # fs)) n = (if n = k then v else js_property (JObj a fs) n)"
  by (simp add: js_property_def)

lemma migrate_taken [simp]:
  "migrateToLatest (snapshot_value h m ids lineage k assigned) = Inr (snapshot_value h m ids lineage k assigned)"
  by (simp add: migrateToLatest_def snapshot_value_def js_property_own)

abbreviation parts_of_frontier :: "string \<Rightarrow> string \<Rightarrow> registered_state list \<Rightarrow> int \<Rightarrow> snapshot_parts" where
  "parts_of_frontier h m vs k \<equiv>
     \<lparr>sp_registry_hash = h, sp_mode = m, sp_state_ids = map rs_id vs,
      sp_lineage = JObj (R_user 2) (map (\<lambda>v. (rs_id v, JNull)) vs), sp_max_index = k,
      sp_assigned = JObj (R_user 4) (map (\<lambda>v. (rs_id v, JNum (rs_orderIndex v))) vs)\<rparr>"

lemma validate_taken_snapshot:
  assumes "snapshot_frontier vs k" "h \<noteq> []"
  shows "validateSnapshot (snapshot_value h (mode_text m) (map rs_id vs) (map (\<lambda>v. (rs_id v, JNull)) vs) k
      (map (\<lambda>v. (rs_id v, JNum (rs_orderIndex v))) vs)) = Inr (parts_of_frontier h (mode_text m) vs k)"
proof -
  have mode: "mode_text m \<in> {''legacy'', ''registry'', ''dual''}"
    by (simp add: mode_text_def split: registrar_mode.split)
  have entries: "js_entries (JObj a fs) = fs" for a fs by (simp add: js_entries_def)
  show ?thesis
    using mode assms(2)
    by (simp add: snapshot_value_def validateSnapshot_def entries snapshot_object_def js_typeof_def
      js_property_own snapshot_string_def snapshot_array_def snapshot_integer_def snapshot_strings_ids comp_def
      snapshot_integers_tagged snapshot_consistent[OF assms(1), simplified] SUPPORTED_SNAPSHOT_VERSIONS_def
      bind_r_eq_Inr forE_Inr throw_when_Inr)
qed

lemma reconstruct_frontier:
  assumes "distinct (map rs_id vs)"
  shows "reconstructState (parts_of_frontier h m vs k) =
    Inr \<lparr>rh_registry = map (\<lambda>v. (rs_id v, \<lparr>re_id = rs_id v, re_parentId = JNull,
        re_orderIndex = JNum (rs_orderIndex v)\<rparr>)) vs, rh_currentOrderIndex = k + 1\<rparr>"
proof -
  let ?e = "\<lambda>v. \<lparr>re_id = rs_id v, re_parentId = JNull, re_orderIndex = JNum (rs_orderIndex v)\<rparr>"
  let ?s = "parts_of_frontier h m vs k"
  have "foldE (reconstruct_entry ?s) (map (\<lambda>v. (rs_id v, ?e v)) us) (map rs_id ws) =
      Inr (map (\<lambda>v. (rs_id v, ?e v)) (us @ ws))" if "vs = us @ ws" for us ws
    using that
  proof (induction ws arbitrary: us)
    case (Cons w ws)
    have "w \<in> set vs" using Cons.prems by simp
    then have "reconstruct_entry ?s (map (\<lambda>v. (rs_id v, ?e v)) us) (rs_id w) =
        Inr (jm_set (map (\<lambda>v. (rs_id v, ?e v)) us) (rs_id w) (?e w))"
      using tagged_property[OF assms] by (simp add: reconstruct_entry_def Let_def)
    moreover have "jm_set (map (\<lambda>v. (rs_id v, ?e v)) us) (rs_id w) (?e w) = map (\<lambda>v. (rs_id v, ?e v)) (us @ [w])"
      using assms Cons.prems by (subst jm_set_new) (auto simp: jm_has_keys)
    ultimately show ?case using Cons.IH[of "us @ [w]"] Cons.prems by simp
  qed simp
  from this[of "[]" vs] show ?thesis by (simp add: reconstructState_def)
qed

text \<open>A version of the frontier as it comes back: without a parent.\<close>

definition uprooted :: "registered_state \<Rightarrow> registered_state" where
  "uprooted v = v\<lparr>rs_parentId := None, rs_parentKey := None, rs_versionKey := makeVersionKey (rs_id v) (rs_orderIndex v)\<rparr>"

lemma uprooted_simps [simp]:
  "rs_id (uprooted v) = rs_id v" "rs_orderIndex (uprooted v) = rs_orderIndex v" "rs_parentId (uprooted v) = None"
  by (simp_all add: uprooted_def)

lemma restored_versions_frontier:
  "restored_versions (map (\<lambda>v. (rs_id v, \<lparr>re_id = rs_id v, re_parentId = JNull,
      re_orderIndex = JNum (rs_orderIndex v)\<rparr>)) vs) = Some (map (\<lambda>v. (rs_id v, uprooted v)) vs)"
  by (induction vs) (simp_all add: restored_version_def uprooted_def)

lemma inject_entries:
  "rr_latestById (foldl inject_entry r xs) = foldl (\<lambda>m (i, v). jm_set m i v) (rr_latestById r) xs"
  "rr_versionsByKey (foldl inject_entry r xs) =
     foldl (\<lambda>m (i, v). jm_set m (rs_versionKey v) v) (rr_versionsByKey r) xs"
  "rr_mode (foldl inject_entry r xs) = rr_mode r"
  "rr_invariants (foldl inject_entry r xs) = rr_invariants r"
  "rr_compiledRegistry (foldl inject_entry r xs) = rr_compiledRegistry r"
  "rr_lastParityStatus (foldl inject_entry r xs) = rr_lastParityStatus r"
  by (induction xs arbitrary: r) (auto simp: inject_entry_def)

lemma foldl_set_new:
  assumes "distinct (map fst m @ map fst xs)"
  shows "foldl (\<lambda>m (i, v). jm_set m i v) m xs = m @ xs"
  using assms
proof (induction xs arbitrary: m)
  case (Cons x xs)
  obtain i v where x: "x = (i, v)" by fastforce
  have "jm_set m i v = m @ [(i, v)]" using Cons.prems x by (intro jm_set_new) (simp add: jm_has_keys)
  then show ?case using Cons.IH[of "m @ [(i, v)]"] Cons.prems x by simp
qed simp

definition restored :: "registrar \<Rightarrow> registrar" where
  "restored r =
     (let vs = map uprooted (frontier r)
      in r\<lparr>rr_versionsByKey := map (\<lambda>v. (rs_versionKey v, v)) vs, rr_latestById := map (\<lambda>v. (rs_id v, v)) vs,
           rr_lastParityStatus := None\<rparr>)"

definition options_of :: "registrar \<Rightarrow> rehydration_options" where
  "options_of r = \<lparr>op_mode = rr_mode r, op_invariants = Some (rr_invariants r),
     op_compiledRegistry = rr_compiledRegistry r\<rparr>"

lemma restored_keys_distinct:
  assumes "history_wf r"
  shows "distinct (map rs_versionKey (map uprooted (frontier r)))"
proof -
  have "v = w" if vF: "v \<in> set (frontier r)" and wF: "w \<in> set (frontier r)" and key:
    "makeVersionKey (rs_id v) (rs_orderIndex v) = makeVersionKey (rs_id w) (rs_orderIndex w)" for v w
  proof -
    have "rs_id v = rs_id w"
      using makeVersionKey_index[OF key] frontier_below[OF assms vF] frontier_below[OF assms wF] by simp
    moreover have "inj_on rs_id (set (frontier r))" using frontier_ids_distinct[OF assms] by (simp add: distinct_map)
    ultimately show ?thesis using vF wF by (simp add: inj_on_def)
  qed
  moreover have "distinct (frontier r)" using frontier_ids_distinct[OF assms] by (simp add: distinct_map)
  ultimately show ?thesis by (simp add: distinct_map inj_on_def uprooted_def comp_def)
qed

lemma injected_frontier:
  assumes "history_wf r" "new_registrar (Some (rr_mode r)) (Some (rr_invariants r)) (rr_compiledRegistry r) = Inr r0"
  shows "injectRehydratedState r0 \<lparr>rh_registry = map (\<lambda>v. (rs_id v, \<lparr>re_id = rs_id v, re_parentId = JNull,
      re_orderIndex = JNum (rs_orderIndex v)\<rparr>)) (frontier r), rh_currentOrderIndex = rr_currentOrderIndex r\<rparr> =
    Some (restored r)"
proof -
  let ?vs = "map (\<lambda>v. (rs_id v, uprooted v)) (frontier r)"
  have byId: "foldl (\<lambda>m (i, v). jm_set m i v) [] ?vs = ?vs"
    using foldl_set_new[of "[]" ?vs] frontier_ids_distinct[OF assms(1)] by (simp add: comp_def)
  have "foldl (\<lambda>m (i, v). jm_set m (rs_versionKey v) v) [] ?vs =
      foldl (\<lambda>m (i, v). jm_set m i v) [] (map (\<lambda>(i, v). (rs_versionKey v, v)) ?vs)"
    by (simp add: foldl_map case_prod_beta)
  also have "\<dots> = map (\<lambda>v. (rs_versionKey v, v)) (map uprooted (frontier r))"
    using foldl_set_new[of "[]" "map (\<lambda>(i, v). (rs_versionKey v, v)) ?vs"] restored_keys_distinct[OF assms(1)]
    by (simp add: comp_def case_prod_beta)
  finally have byKey: "foldl (\<lambda>m (i, v). jm_set m (rs_versionKey v) v) [] ?vs =
      map (\<lambda>v. (rs_versionKey v, v)) (map uprooted (frontier r))" .
  have r0: "rr_mode r0 = rr_mode r" "rr_invariants r0 = rr_invariants r" "rr_compiledRegistry r0 = rr_compiledRegistry r"
    "rr_lastParityStatus r0 = None"
    using assms(2) by (auto simp: new_registrar_def Let_def split: if_splits)
  show ?thesis
    unfolding injectRehydratedState_def rehydrated_state.simps restored_versions_frontier option.simps
    by (intro arg_cong[where f = Some] registrar.equality)
      (simp_all add: inject_entries byId byKey r0 restored_def Let_def comp_def)
qed

lemma jm_keys_restored: "jm_keys (rr_latestById (restored r)) = map rs_id (frontier r)"
  by (simp add: restored_def Let_def comp_def)

lemma restored_registered:
  assumes "history_wf r"
  shows "jm_has (rr_latestById (restored r)) i = jm_has (rr_latestById r) i"
  using frontier_ids[OF assms] by (simp add: jm_has_keys jm_keys_restored del: set_map)

lemma frontier_restored: "frontier (restored r) = map uprooted (frontier r)"
proof -
  have "sorted (map rs_orderIndex (map uprooted (frontier r)))" by (simp add: frontier_def comp_def)
  then show ?thesis by (simp add: frontier_def restored_def Let_def comp_def sort_key_id_if_sorted)
qed

lemma resolve_restored: "v \<in> set (frontier (restored r)) \<Longrightarrow> resolveSnapshotParentId (restored r) v = None"
  by (auto simp: frontier_restored resolveSnapshotParentId_def root_walk.simps)

lemma restored_simps [simp]:
  "rr_mode (restored r) = rr_mode r" "rr_invariants (restored r) = rr_invariants r"
  "rr_compiledRegistry (restored r) = rr_compiledRegistry r" "rr_currentOrderIndex (restored r) = rr_currentOrderIndex r"
  by (simp_all add: restored_def Let_def)

lemma restored_snapshot:
  assumes "history_wf r" "proto_free r" "registry_hash_of H canon r = Inr h"
  shows "take_registrar_snapshot H canon (restored r) = take_registrar_snapshot H canon r"
proof -
  have "registry_hash_of H canon (restored r) = Inr h" using assms(3) by (simp only: registry_hash_of_def restored_simps)
  then have "take_registrar_snapshot H canon (restored r) =
      Inr (snapshot_value h (mode_text (rr_mode r)) (map rs_id (frontier r))
        (map (\<lambda>v. (rs_id v, JNull)) (frontier r)) (rr_currentOrderIndex r - 1)
        (map (\<lambda>v. (rs_id v, JNum (rs_orderIndex v))) (frontier r)))"
    using frontier_ids_distinct[OF assms(1)] frontier_proto[OF assms(1,2)] resolve_restored
    by (subst take_snapshot_rooted) (auto simp: frontier_restored comp_def)
  then show ?thesis using take_snapshot_value[OF assms(1) assms(1,2)] resolveSnapshotParentId_null[OF assms(1)] assms(3)
    by simp
qed

lemma outcome_restored:
  assumes "history_wf r"
  shows "buildRegistrationOutcome (restored r) t js = buildRegistrationOutcome r t js"
proof -
  have "registrationOperands (restored r) t = registrationOperands r t"
    by (simp add: registrationOperands_def restored_registered[OF assms] cong: option.case_cong)
  then show ?thesis by (simp only: buildRegistrationOutcome_def restored_simps)
qed

lemma evaluation_restored:
  assumes "history_wf r"
  shows "evaluateRegistryRegistration (restored r) t = evaluateRegistryRegistration r t"
proof -
  have "buildEvaluationContext (restored r) t = buildEvaluationContext r t"
    by (simp add: buildEvaluationContext_def restored_registered[OF assms] cong: option.case_cong)
  then have "judge_registry (restored r) t = judge_registry r t"
    by (simp only: judge_registry_def registry_rules_def restored_simps)
  then show ?thesis by (simp only: evaluateRegistryRegistration_def outcome_restored[OF assms])
qed

lemma legacy_evaluation_restored:
  assumes "history_wf r" "rr_invariants r = INITIAL_INVARIANTS"
  shows "evaluateLegacyRegistration (restored r) t = evaluateLegacyRegistration r t"
proof -
  have "set (jm_keys (rr_latestById (restored r))) = set (jm_keys (rr_latestById r))"
    using frontier_ids[OF assms(1)] by (simp only: jm_keys_restored)
  then have "judge_legacy (restored r) t = judge_legacy r t"
    by (simp add: judge_legacy_def assms(2) INITIAL_INVARIANTS_def legacy_invariant_defs legacy_input_def
      split: option.split)
  then show ?thesis by (simp only: evaluateLegacyRegistration_def outcome_restored[OF assms(1)])
qed

lemma options_new_registrar:
  assumes "ready r"
  shows "\<exists>r0. new_registrar (Some (rr_mode r)) (Some (rr_invariants r)) (rr_compiledRegistry r) = Inr r0"
  using assms by (auto simp: ready_def shipped_def new_registrar_def Let_def)

lemma options_hash:
  assumes "ready r"
  shows "\<exists>h. registry_hash_of H canon r = Inr h \<and> computeExpectedHash H canon (options_of r) = Inr h"
  using assms by (auto simp: ready_def shipped_def registry_hash_of_def computeExpectedHash_def options_of_def)

lemma registry_hash_nonempty:
  assumes "registry_hash_of H canon r = Inr h" "\<And>bs. SHA256_HEX_RE (H bs)"
  shows "h \<noteq> []"
proof -
  have "H bs \<noteq> []" for bs using assms(2)[of bs] by (auto simp: SHA256_HEX_RE_def)
  then show ?thesis using assms(1)
    by (auto simp: registry_hash_of_def computeRegistryHash_def computeLegacyRegistryHash_def sha256_def
      split: if_splits option.splits)
qed

lemma snapshot_round_trip_at:
  assumes wf: "history_wf r" and proto: "proto_free r"
    and hash: "registry_hash_of H canon r = Inr h" "computeExpectedHash H canon (options_of r) = Inr h" "h \<noteq> []"
    and r0: "new_registrar (Some (rr_mode r)) (Some (rr_invariants r)) (rr_compiledRegistry r) = Inr r0"
  obtains s where "take_registrar_snapshot H canon r = Inr s"
    "fromSnapshot H canon s (options_of r) = Inr (Some (restored r))"
    "take_registrar_snapshot H canon (restored r) = Inr s"
    "js_property s ''mode'' = JStr (mode_text (rr_mode r))"
    "s \<noteq> JNull" "s \<noteq> JUndef"
proof -
  have "\<forall>v \<in> set (frontier r). resolveSnapshotParentId r v = None" using resolveSnapshotParentId_null[OF wf] by blast
  note taken = take_snapshot_value[OF wf wf proto this hash(1)]
  have "validateSnapshot (snapshot_value h (mode_text (rr_mode r)) (map rs_id (frontier r))
      (map (\<lambda>v. (rs_id v, JNull)) (frontier r)) (rr_currentOrderIndex r - 1)
      (map (\<lambda>v. (rs_id v, JNum (rs_orderIndex v))) (frontier r))) =
      Inr (parts_of_frontier h (mode_text (rr_mode r)) (frontier r) (rr_currentOrderIndex r - 1))"
    by (rule validate_taken_snapshot[OF snapshot_frontier_wf[OF wf] hash(3)])
  then have "fromSnapshot H canon (snapshot_value h (mode_text (rr_mode r)) (map rs_id (frontier r))
      (map (\<lambda>v. (rs_id v, JNull)) (frontier r)) (rr_currentOrderIndex r - 1)
      (map (\<lambda>v. (rs_id v, JNum (rs_orderIndex v))) (frontier r))) (options_of r) = Inr (Some (restored r))"
    using hash(2) reconstruct_frontier[OF frontier_ids_distinct[OF wf]] r0 injected_frontier[OF wf r0]
    by (simp add: fromSnapshot_def rehydrate_def throw_when_def options_of_def)
  then show ?thesis using that taken restored_snapshot[OF wf proto hash(1)]
    by (simp add: snapshot_value_def js_property_own)
qed

lemma snapshot_round_trip:
  assumes "ready r" "proto_free r" "\<And>bs. SHA256_HEX_RE (H bs)"
  obtains s where "take_registrar_snapshot H canon r = Inr s"
    "fromSnapshot H canon s (options_of r) = Inr (Some (restored r))"
    "take_registrar_snapshot H canon (restored r) = Inr s"
proof -
  have wf: "history_wf r" using assms(1) by (simp add: ready_def)
  obtain h where h: "registry_hash_of H canon r = Inr h" "computeExpectedHash H canon (options_of r) = Inr h"
    using options_hash[OF assms(1)] by blast
  obtain r0 where r0: "new_registrar (Some (rr_mode r)) (Some (rr_invariants r)) (rr_compiledRegistry r) = Inr r0"
    using options_new_registrar[OF assms(1)] by blast
  show ?thesis
    by (rule snapshot_round_trip_at[OF wf assms(2) h registry_hash_nonempty[OF h(1) assms(3)] r0]) (rule that)
qed

text \<open>C36: The snapshot of a registrar whose versions were all accepted by \<open>register\<close> passes
  the validation and rehydrates under the same constitution: the restored registrar is in the same
  mode with the same next order index and the same registered states, both engines judge every
  transition as they did before, and its snapshot is the same value again. A state named
  \<^verbatim>\<open>__proto__\<close> is excluded (its key cannot be stored in a snapshot).\<close>

theorem snapshot_rehydrates:
  assumes "registrar_reachable r" "\<not> isRegistered r ''__proto__''" "\<And>bs. SHA256_HEX_RE (H bs)"
  shows "\<exists>s r'. take_registrar_snapshot H canon r = Inr s \<and>
    fromSnapshot H canon s (options_of r) = Inr (Some r') \<and>
    take_registrar_snapshot H canon r' = Inr s \<and>
    rr_mode r' = rr_mode r \<and> rr_currentOrderIndex r' = rr_currentOrderIndex r \<and>
    (\<forall>i. isRegistered r' i = isRegistered r i) \<and>
    (\<forall>t. evaluateRegistryRegistration r' t = evaluateRegistryRegistration r t) \<and>
    (\<forall>t. evaluateLegacyRegistration r' t = evaluateLegacyRegistration r t)"
proof -
  have ready: "ready r" using assms(1) by (rule registrar_reachable_ready)
  then have wf: "history_wf r" and legacy: "rr_invariants r = INITIAL_INVARIANTS"
    by (simp_all add: ready_def shipped_def)
  have "proto_free r" using assms(2) by (simp add: proto_free_def)
  from snapshot_round_trip[where canon = canon, OF ready this assms(3)] obtain s where
    "take_registrar_snapshot H canon r = Inr s"
    "fromSnapshot H canon s (options_of r) = Inr (Some (restored r))"
    "take_registrar_snapshot H canon (restored r) = Inr s" .
  then show ?thesis
    using evaluation_restored[OF wf] legacy_evaluation_restored[OF wf legacy] restored_registered[OF wf]
    by (intro exI[of _ s] exI[of _ "restored r"]) (simp add: isRegistered_def)
qed

theorem snapshot_rehydrates_witness:
  "\<exists>s r'. take_registrar_snapshot sample_hash (\<lambda>c. []) sample_registered = Inr s \<and>
    fromSnapshot sample_hash (\<lambda>c. []) s (options_of sample_registered) = Inr (Some r')"
proof -
  have "\<not> isRegistered sample_registered ''__proto__''"
    using registrar_reachable_ready[OF sample_registered_reachable] sample_versions
    by (auto simp: ready_def history_wf_def isRegistered_def jm_has_def last_version_def sample_root_def)
  from snapshot_rehydrates[where H = sample_hash and canon = "\<lambda>c. []", OF sample_registered_reachable this sample_hash_hex] show ?thesis by blast
qed

subsection \<open>The life of a registrar\<close>

text \<open>Restoring keeps a history well-formed: the versions of the frontier, in the order of their indices.\<close>

lemma versions_restored: "versions (restored r) = map uprooted (frontier r)"
  by (simp add: restored_def Let_def versions_def comp_def)

lemma last_version_distinct:
  assumes "distinct (map rs_id vs)" "m < length vs"
  shows "last_version (take m vs) (rs_id (vs ! m)) = None"
proof -
  have "rs_id v \<noteq> rs_id (vs ! m)" if "v \<in> set (take m vs)" for v
    using that assms by (auto simp: in_set_conv_nth distinct_conv_nth)
  then show ?thesis by (simp add: last_version_None filter_empty_conv)
qed

lemma last_version_map_of:
  "distinct (map rs_id vs) \<Longrightarrow> last_version vs i = map_of (map (\<lambda>v. (rs_id v, v)) vs) i"
proof (induction vs rule: rev_induct)
  case (snoc v vs)
  then have "rs_id v \<notin> fst ` set (map (\<lambda>v. (rs_id v, v)) vs)" by force
  then have "map_of (map (\<lambda>v. (rs_id v, v)) vs) (rs_id v) = None" by (simp only: map_of_eq_None_iff not_False_eq_True)
  then show ?case using snoc by (cases "i = rs_id v") (simp_all add: last_version_snoc map_add_def split: option.split)
qed simp

lemma restored_history_wf:
  assumes "history_wf r"
  shows "history_wf (restored r)"
proof -
  let ?vs = "map uprooted (frontier r)"
  have vs: "versions (restored r) = ?vs" by (rule versions_restored)
  have ids: "distinct (map rs_id ?vs)" using frontier_ids_distinct[OF assms] by (simp add: comp_def)
  have "sorted_wrt (<) (map rs_orderIndex (frontier r))"
    using frontier_indices(1)[OF assms] by (simp add: strict_sorted_iff frontier_def)
  then have sorted: "rs_orderIndex (?vs ! m) < rs_orderIndex (?vs ! n)" if "m < n" "n < length ?vs" for m n
    using that by (simp add: sorted_wrt_iff_nth_less)
  have linked: "linked_at ?vs n" if n: "n < length ?vs" for n
  proof -
    have "?vs ! n = uprooted (frontier r ! n)" "frontier r ! n \<in> set (frontier r)" using n by simp_all
    then show ?thesis
      using last_version_distinct[OF ids n] sorted n frontier_below[OF assms, of "frontier r ! n"]
      unfolding linked_at_def Let_def by (simp add: uprooted_def)
  qed
  moreover have "rr_currentOrderIndex (restored r) = next_index ?vs"
  proof (cases "frontier r = []")
    case True
    then have "versions r = []" using frontier_empty[OF assms] by simp
    then show ?thesis using True assms by (simp add: history_wf_def next_index_def)
  next
    case False
    have sorted: "sorted (map rs_orderIndex (frontier r))" by (simp add: frontier_def)
    have "rs_orderIndex w \<le> rs_orderIndex (last (frontier r))" if "w \<in> set (frontier r)" for w
      using sorted that by (cases "frontier r" rule: rev_cases) (auto simp: sorted_append)
    then have "Max (rs_orderIndex ` set (frontier r)) = rs_orderIndex (last (frontier r))"
      using False by (intro Max_eqI) auto
    then have "rs_orderIndex (last (frontier r)) = rr_currentOrderIndex r - 1"
      using frontier_max[OF assms False] False by (simp add: max_assigned_Max)
    then show ?thesis using False by (simp add: next_index_def last_map)
  qed
  moreover have latest: "rr_latestById (restored r) = map (\<lambda>v. (rs_id v, v)) ?vs"
    "rr_versionsByKey (restored r) = map (\<lambda>v. (rs_versionKey v, v)) ?vs" by (simp_all add: restored_def Let_def)
  moreover have "jm_wf (rr_latestById (restored r))" using ids unfolding latest(1) by (simp add: jm_wf_def comp_def)
  moreover have "jm_get (rr_latestById (restored r)) i = last_version ?vs i" for i
    unfolding latest(1) using last_version_map_of[OF ids] by simp
  ultimately show ?thesis unfolding history_wf_def vs by blast
qed

lemma restored_ready: "ready r \<Longrightarrow> ready (restored r)"
  by (simp add: ready_def shipped_def restored_history_wf)

text \<open>Registrars with the shipped constitution over their whole life: built by the constructor, or restored by
  \<^verbatim>\<open>fromSnapshot\<close> from a snapshot that such a registrar took, and after any calls of
  \<^verbatim>\<open>register\<close> and \<^verbatim>\<open>validate\<close>.\<close>

inductive registrar_lifecycle :: "hasher \<Rightarrow> (normative \<Rightarrow> string) \<Rightarrow> registrar \<Rightarrow> bool" for H canon where
  life_built: "registrar_reachable r \<Longrightarrow> registrar_lifecycle H canon r"
| life_register: "registrar_lifecycle H canon r \<Longrightarrow> register r t = (res, r') \<Longrightarrow> registrar_lifecycle H canon r'"
| life_validate: "registrar_lifecycle H canon r \<Longrightarrow> validate_target r x = (rep, r') \<Longrightarrow> registrar_lifecycle H canon r'"
| life_restore: "registrar_lifecycle H canon r \<Longrightarrow> \<not> isRegistered r ''__proto__'' \<Longrightarrow>
    take_registrar_snapshot H canon r = Inr s \<Longrightarrow> fromSnapshot H canon s (options_of r) = Inr (Some r') \<Longrightarrow>
    registrar_lifecycle H canon r'"

lemma lifecycle_ready:
  assumes "registrar_lifecycle H canon r" "\<And>bs. SHA256_HEX_RE (H bs)"
  shows "ready r"
  using assms(1)
proof (induction rule: registrar_lifecycle.induct)
  case (life_restore r s r')
  then have "proto_free r" by (simp add: proto_free_def)
  from snapshot_round_trip[where canon = canon, OF life_restore.IH this assms(2)] obtain s' where
    "take_registrar_snapshot H canon r = Inr s'" "fromSnapshot H canon s' (options_of r) = Inr (Some (restored r))" .
  then have "r' = restored r" using life_restore.hyps by simp
  then show ?case using restored_ready[OF life_restore.IH] by simp
next
  case (life_validate r x rep r')
  then show ?case using validate_target_state[OF life_validate.hyps(2)] by auto
qed (auto intro: registrar_reachable_ready register_ready)

text \<open>C20: The history of a registrar is append-only and totally ordered, also when it was restored from a snapshot
  (restoring keeps the latest version of each state): the indices of its versions increase and stay below the
  next index, without gaps from 0 unless it was restored; the keys are distinct; each version points to the previous
  version of the same state, a state is registered exactly when it has a version, and its lineage
  has one entry for each of its versions (and never another state's id); whatever is registered
  or validated later, the versions so far stay as they are and the new ones follow under the next indices. A
  state named \<^verbatim>\<open>__proto__\<close> cannot be restored.\<close>

theorem registrar_history:
  assumes "registrar_lifecycle H canon r" "\<And>bs. SHA256_HEX_RE (H bs)"
  shows "sorted_wrt (<) (map rs_orderIndex (versions r)) \<and>
    (\<forall>v \<in> set (versions r). 0 \<le> rs_orderIndex v \<and> rs_orderIndex v < rr_currentOrderIndex r) \<and>
    (registrar_reachable r \<longrightarrow> map rs_orderIndex (versions r) = map int [0..<length (versions r)] \<and>
      rr_currentOrderIndex r = int (length (versions r))) \<and>
    distinct (map rs_versionKey (versions r)) \<and>
    (\<forall>n < length (versions r). rs_parentKey (versions r ! n) =
      map_option rs_versionKey (last_version (take n (versions r)) (rs_id (versions r ! n)))) \<and>
    (\<forall>i. isRegistered r i \<longleftrightarrow> version_count (versions r) i > 0) \<and>
    (\<forall>i. getLineage r i = replicate (version_count (versions r) i) i) \<and>
    (\<forall>r'. registrar_steps r r' \<longrightarrow> (\<exists>new. versions r' = versions r @ new \<and>
      rr_currentOrderIndex r' = rr_currentOrderIndex r + int (length new) \<and>
      map rs_orderIndex new = map (\<lambda>k. rr_currentOrderIndex r + int k) [0..<length new]))"
proof -
  have ready: "ready r" by (rule lifecycle_ready[OF assms])
  have "rr_currentOrderIndex r = int (length (versions r))" if "complete_history (versions r)"
    using complete_next_index[OF that] ready by (simp add: ready_def history_wf_def)
  then have "map rs_orderIndex (versions r) = map int [0..<length (versions r)] \<and>
      rr_currentOrderIndex r = int (length (versions r))" if "registrar_reachable r"
    using reachable_complete[OF that] by (simp add: complete_history_def)
  then show ?thesis using ready_history[OF ready] ready_steps[OF _ ready] by blast
qed

lemma sample_frontier: "frontier sample_registered = [next_version sample_registrar sample_root]"
proof -
  let ?v = "next_version sample_registrar sample_root"
  have wf: "history_wf sample_registered" using registrar_reachable_ready[OF sample_registered_reachable] by (simp add: ready_def)
  have "v \<in> set (frontier sample_registered) \<longleftrightarrow> v = ?v" for v
    unfolding frontier_iff[OF wf] sample_versions by (auto simp: last_version_def)
  then have set: "set (frontier sample_registered) = {?v}" by blast
  have "distinct (frontier sample_registered)" using frontier_ids_distinct[OF wf] by (simp add: distinct_map)
  then have "length (frontier sample_registered) = 1" using set distinct_card by fastforce
  then show ?thesis using set by (cases "frontier sample_registered") simp_all
qed

theorem registrar_history_witness:
  "\<exists>r. registrar_lifecycle sample_hash (\<lambda>c. []) r \<and> r = restored sample_registered \<and>
    getLineage r ''a'' = [''a''] \<and> (\<forall>v \<in> set (versions r). rs_orderIndex v < rr_currentOrderIndex r)"
proof -
  let ?r = "restored sample_registered"
  have ready: "ready sample_registered" by (rule registrar_reachable_ready[OF sample_registered_reachable])
  have no: "\<not> isRegistered sample_registered ''__proto__''"
    using ready sample_versions by (auto simp: ready_def history_wf_def isRegistered_def jm_has_def last_version_def sample_root_def)
  then have "proto_free sample_registered" by (simp add: proto_free_def)
  from snapshot_round_trip[where H = sample_hash and canon = "\<lambda>c. []", OF ready this sample_hash_hex] obtain s where
    s: "take_registrar_snapshot sample_hash (\<lambda>c. []) sample_registered = Inr s"
      "fromSnapshot sample_hash (\<lambda>c. []) s (options_of sample_registered) = Inr (Some ?r)" .
  have life: "registrar_lifecycle sample_hash (\<lambda>c. []) ?r"
    by (rule life_restore[OF life_built[OF sample_registered_reachable] no s])
  have "version_count (versions ?r) ''a'' = 1"
    by (simp add: versions_restored sample_frontier version_count_def sample_root_def)
  then show ?thesis using registrar_history[OF life sample_hash_hex] life by auto
qed

subsection \<open>Rehydration fails closed\<close>

lemma snapshot_object_Inr: "snapshot_object v = Inr w \<Longrightarrow> w = v"
  by (simp add: snapshot_object_def split: if_splits)

lemma snapshot_string_Inr: "snapshot_string v = Inr s \<longleftrightarrow> v = JStr s"
  by (cases v) (simp_all add: snapshot_string_def)

lemma validated_fields:
  assumes "validateSnapshot v = Inr s"
  shows "js_property v ''mode'' = JStr (sp_mode s)" "js_property v ''registry_hash'' = JStr (sp_registry_hash s)"
  using assms by (auto simp: validateSnapshot_def bind_r_eq_Inr snapshot_string_Inr dest!: snapshot_object_Inr)

lemma rehydrates_checked:
  assumes "fromSnapshot H canon (snapshot_value h m ids lineage k assigned) opts = Inr res"
  shows "m = mode_text (op_mode opts)" "computeExpectedHash H canon opts = Inr h"
proof -
  obtain s where s: "validateSnapshot (snapshot_value h m ids lineage k assigned) = Inr s"
    "sp_mode s = mode_text (op_mode opts)" "computeExpectedHash H canon opts = Inr (sp_registry_hash s)"
    using assms by (auto simp: fromSnapshot_def rehydrate_def bind_r_eq_Inr throw_when_Inr)
  have "js_property (snapshot_value h m ids lineage k assigned) ''mode'' = JStr m"
    "js_property (snapshot_value h m ids lineage k assigned) ''registry_hash'' = JStr h"
    by (simp_all add: snapshot_value_def js_property_own)
  then show "m = mode_text (op_mode opts)" "computeExpectedHash H canon opts = Inr h"
    using validated_fields[OF s(1)] s(2,3) by simp_all
qed

lemma mode_text_inj: "mode_text m = mode_text n \<longleftrightarrow> m = n"
  by (simp add: mode_text_def split: registrar_mode.split)

text \<open>A snapshot restores only under the constitution it was taken under: when the snapshot of a
  registrar in registry or dual mode rehydrates with some options, these name the same mode, and their
  compiled registry has the same normative content in canonical JSON as the registrar's, unless
  the two serialisations are a collision of the hash.\<close>

theorem rehydration_detects_drift:
  assumes "take_registrar_snapshot H canon r = Inr s" "fromSnapshot H canon s opts = Inr res"
    "rr_mode r \<noteq> RM_legacy" "rr_compiledRegistry r = Some c" "op_compiledRegistry opts = Some d"
  shows "op_mode opts = rr_mode r \<and>
    (canon (normative_content d) = canon (normative_content c) \<or>
     collision H [utf8 (canon (normative_content d))] [utf8 (canon (normative_content c))])"
proof -
  have mode: "rr_mode r = RM_registry \<or> rr_mode r = RM_dual" using assms(3) by (cases "rr_mode r") auto
  then obtain ids lineage assigned k where
    s: "s = snapshot_value (computeRegistryHash H canon c) (mode_text (rr_mode r)) ids lineage k assigned"
    using assms(1,4) by (auto simp: take_registrar_snapshot_def registry_hash_of_def bind_r_eq_Inr Let_def)
  note checked = rehydrates_checked[OF assms(2)[unfolded s]]
  have same: "op_mode opts = rr_mode r" using checked(1) by (simp add: mode_text_inj)
  then have "H (utf8 (canon (normative_content d))) = H (utf8 (canon (normative_content c)))"
    using checked(2) assms(5) mode by (auto simp: computeExpectedHash_def computeRegistryHash_def sha256_def)
  then show ?thesis using same utf8_inj by (auto simp: collision_def)
qed

lemma sample_registered_shipped:
  "rr_mode sample_registered = RM_dual" "rr_compiledRegistry sample_registered = Some core_registry"
proof -
  have "registers sample_registrar sample_root (register sample_registrar sample_root)"
    by (rule register_registers[OF registrar_reachable_ready[OF sample_registrar_reachable]])
  moreover have "rr_mode sample_registrar = RM_dual" "\<not> divergent sample_root"
    by (simp_all add: sample_registrar_def sample_root_def divergent_def)
  ultimately have reg: "sample_registered = noted (appended sample_registrar sample_root) AGREED"
    using sample_admissible by (auto simp: registers_def strict_mode_def sample_registered_def)
  show "rr_mode sample_registered = RM_dual" unfolding reg by (simp add: noted_def sample_registrar_def)
  show "rr_compiledRegistry sample_registered = Some core_registry"
    using registrar_reachable_ready[OF sample_registered_reachable] by (simp add: ready_def shipped_def)
qed

theorem rehydration_detects_drift_witness:
  "rr_mode sample_registered = op_mode (options_of sample_registered)"
proof -
  have "proto_free sample_registered"
    using registrar_reachable_ready[OF sample_registered_reachable] sample_versions
    by (auto simp: ready_def history_wf_def isRegistered_def jm_has_def last_version_def sample_root_def proto_free_def)
  from snapshot_round_trip[where H = sample_hash and canon = "\<lambda>c. []",
      OF registrar_reachable_ready[OF sample_registered_reachable] this sample_hash_hex]
  obtain s where "take_registrar_snapshot sample_hash (\<lambda>c. []) sample_registered = Inr s"
    "fromSnapshot sample_hash (\<lambda>c. []) s (options_of sample_registered) = Inr (Some (restored sample_registered))" .
  from rehydration_detects_drift[OF this, of core_registry core_registry] show ?thesis
    by (simp add: sample_registered_shipped options_of_def)
qed

subsection \<open>What the checks let through\<close>

definition inherited_snapshot :: jsval where
  "inherited_snapshot =
     snapshot_value ''legacy:x'' ''legacy'' [''a'', ''constructor''] [(''a'', JNull), (''constructor'', JNull)] 0
       [(''a'', JNum 0)]"

text \<open>The consistency checks look up each state id with the \<^verbatim>\<open>in\<close> operator, which also
  finds what an object inherits: a snapshot that assigns no order index to its state
  \<^verbatim>\<open>constructor\<close> passes the validation, and the state is rehydrated with the function
  \<^verbatim>\<open>Object\<close> for its order index.\<close>

theorem inherited_names_pass_validation:
  "case validateSnapshot inherited_snapshot of
     Inl e \<Rightarrow> False
   | Inr s \<Rightarrow>
       (case reconstructState s of
          Inl e \<Rightarrow> False
        | Inr st \<Rightarrow> map_option re_orderIndex (jm_get (rh_registry st) ''constructor'') =
            Some (JFun ''Object.prototype.constructor''))"
  by code_simp

definition marked_transition :: transition where
  "marked_transition = \<lparr>tr_from = Some ''a'',
     tr_to = \<lparr>st_id = ''[HALT]'', st_structure = (5, []), st_data = JNull\<rparr>, tr_metadata = None\<rparr>"

definition legacy_options :: rehydration_options where
  "legacy_options = \<lparr>op_mode = RM_legacy, op_invariants = None, op_compiledRegistry = None\<rparr>"

text \<open>Replay decides whether a rejection was a halt by looking for the text \<^verbatim>\<open>[HALT]\<close>
  anywhere in a violation message, and messages quote state ids: a transition that renames the registered
  state \<^verbatim>\<open>a\<close> to \<^verbatim>\<open>[HALT]\<close>, which the registrar rejects without
  halting, is reported as halted.\<close>

theorem replay_misreports_halt:
  "(case replay_transitions [sample_root, marked_transition] legacy_options of
      Inl e \<Rightarrow> False | Inr rep \<Rightarrow> rr_accepted rep = 1 \<and> rr_halted rep = 1 \<and> rr_rejected rep = 0) \<and>
   (case new_registrar (Some RM_legacy) None None of
      Inl e \<Rightarrow> False
    | Inr r \<Rightarrow>
        (case evaluateLegacyRegistration (snd (register r sample_root)) marked_transition of
           Inl e \<Rightarrow> False | Inr out \<Rightarrow> nv_kind (ro_verdict out) = V_rejected))"
  by code_simp

subsection \<open>Replay of recorded registrations\<close>

text \<open>A live run: each transition is registered and recorded with its result.\<close>

definition live_step ::
  "registrar \<times> transition_recorder \<Rightarrow> transition \<Rightarrow> registrum_error + (registrar \<times> transition_recorder)" where
  "live_step st t =
     (case register (fst st) t of
        (Inl e, r') \<Rightarrow> Inl e
      | (Inr res, r') \<Rightarrow> Inr (r', record_registration (snd st) t res))"

definition report_of_run :: "nat \<Rightarrow> transition list \<Rightarrow> registration_result list \<Rightarrow> replay_report" where
  "report_of_run n ts results = (toReport \<lparr>tc_transitions = ts, tc_results = results\<rparr>)\<lparr>rr_total := n\<rparr>"

lemma report_extended:
  assumes "length ts = length results"
  shows "report_of_run n (ts @ [t]) (results @ [res]) =
    (let rep = report_of_run n ts results; out = classify_result res
     in rep\<lparr>rr_accepted := rr_accepted rep + (if out = O_accepted then 1 else 0),
        rr_rejected := rr_rejected rep + (if out = O_rejected then 1 else 0),
        rr_halted := rr_halted rep + (if out = O_halted then 1 else 0),
        rr_results := rr_results rep @ [\<lparr>rp_index = length (rr_results rep), rp_transition = t,
          rp_result = res, rp_outcome = out\<rparr>]\<rparr>)"
proof -
  have "map (\<lambda>(i, r). \<lparr>rp_index = i, rp_transition = (ts @ [t]) ! i, rp_result = r, rp_outcome = classify_result r\<rparr>)
      (enumerate 0 results) =
    map (\<lambda>(i, r). \<lparr>rp_index = i, rp_transition = ts ! i, rp_result = r, rp_outcome = classify_result r\<rparr>)
      (enumerate 0 results)"
    using assms by (auto simp: in_set_enumerate_eq nth_append)
  moreover have "(ts @ [t]) ! length results = t" using assms by (metis nth_append_length)
  ultimately show ?thesis using assms
    by (simp add: report_of_run_def toReport_def Let_def count_outcome_def enumerate_append_eq)
qed

lemma live_step_Inr:
  "live_step (r, c) t = Inr (r1, c1) \<longleftrightarrow> (\<exists>res. register r t = (Inr res, r1) \<and> c1 = record_registration c t res)"
  by (auto simp: live_step_def split: prod.split sum.split)

lemma replay_follows_run:
  assumes "foldE live_step (r, \<lparr>tc_transitions = us, tc_results = rs\<rparr>) ts = Inr (r', c)" "length us = length rs"
  shows "foldE replay_step (r, report_of_run n us rs) ts = Inr (r', report_of_run n (tc_transitions c) (tc_results c)) \<and>
    tc_transitions c = us @ ts"
  using assms
proof (induction ts arbitrary: r us rs)
  case (Cons t ts)
  obtain res r1 where step: "register r t = (Inr res, r1)"
    "foldE live_step (r1, \<lparr>tc_transitions = us @ [t], tc_results = rs @ [res]\<rparr>) ts = Inr (r', c)"
    using Cons.prems(1) by (auto simp: bind_r_eq_Inr live_step_Inr record_registration_def)
  have "replay_step (r, report_of_run n us rs) t = Inr (r1, report_of_run n (us @ [t]) (rs @ [res]))"
    by (simp add: replay_step_def step(1) report_extended[OF Cons.prems(2)] Let_def)
  then show ?case using Cons.IH[OF step(2)] Cons.prems(2) by simp
next
  case Nil
  then have "c = \<lparr>tc_transitions = us, tc_results = rs\<rparr>" "r' = r" by simp_all
  then show ?case by simp
qed

lemma result_agrees_refl: "result_agrees a a"
  by (cases "rp_result a") (simp_all add: result_agrees_def)

lemma compare_results_refl: "compare_results as as = Inr True"
  by (induction as) (simp_all add: result_agrees_refl)

text \<open>Replaying the transitions of a recorded live run, from a registrar made with the same options,
  gives exactly the report of the recorder, and the comparison of the two reports succeeds.\<close>

theorem recorded_run_replays:
  assumes "new_registrar (Some (op_mode opts)) (op_invariants opts) (op_compiledRegistry opts) = Inr r"
    "foldE live_step (r, createTransitionRecorder) ts = Inr (r', c)"
  shows "replay_transitions ts opts = Inr (toReport c) \<and> compareReplayReports (toReport c) (toReport c) = Inr True"
proof -
  have empty: "empty_report (length ts) = report_of_run (length ts) [] []"
    by (simp add: empty_report_def report_of_run_def toReport_def count_outcome_def)
  note run = replay_follows_run[of r "[]" "[]" ts r' c "length ts"]
  have "foldE replay_step (r, empty_report (length ts)) ts =
      Inr (r', report_of_run (length ts) (tc_transitions c) (tc_results c))" "tc_transitions c = ts"
    unfolding empty using run assms(2) by (simp_all add: createTransitionRecorder_def)
  then show ?thesis using assms(1)
    by (simp add: replay_transitions_def report_of_run_def toReport_def compareReplayReports_def compare_results_refl)
qed

theorem recorded_run_replays_witness:
  "\<exists>r c. new_registrar (Some RM_legacy) None None = Inr r \<and>
    foldE live_step (r, createTransitionRecorder) [sample_root, marked_transition] = Inr c \<and>
    replay_transitions [sample_root, marked_transition] legacy_options = Inr (toReport (snd c))"
proof -
  let ?r = "\<lparr>rr_versionsByKey = [], rr_latestById = [], rr_currentOrderIndex = 0, rr_mode = RM_legacy,
    rr_invariants = INITIAL_INVARIANTS, rr_compiledRegistry = None, rr_lastParityStatus = None\<rparr>"
  have fresh: "new_registrar (Some RM_legacy) None None = Inr ?r" by (simp add: new_registrar_def)
  have "case foldE live_step (?r, createTransitionRecorder) [sample_root, marked_transition] of
      Inl e \<Rightarrow> False | Inr c \<Rightarrow> True"
    by code_simp
  then obtain r' c where run:
    "foldE live_step (?r, createTransitionRecorder) [sample_root, marked_transition] = Inr (r', c)"
    by (auto split: sum.splits)
  from recorded_run_replays[of legacy_options, OF _ run] fresh
  have "replay_transitions [sample_root, marked_transition] legacy_options = Inr (toReport c)"
    by (simp add: legacy_options_def)
  then show ?thesis using fresh run by (metis snd_conv)
qed

end
