(* ===== verification/Consensus.thy ===== *)
theory Consensus
  imports Complex_Main Prelude
begin

section \<open>Consensus of several verifiers\<close>

text \<open>
  Model of \<^verbatim>\<open>packages/verify/src/verification-consensus.ts\<close> and of the report types of
  \<^verbatim>\<open>packages/verify/src/types.ts\<close>. A verifier's reports are collapsed into one vote; the
  verdict is decided on the votes. \<open>first_bundle\<close> and \<open>endorses\<close> give the outcome without the
  map of votes, and the main theorem shows that the code decides by them. Telemetry is left out; the
  sentence in \<^verbatim>\<open>reason\<close> is a datatype of its cases and the numbers they print.
\<close>

subsection \<open>Reports and results\<close>

datatype verdict = PASS | FAIL

record subsystem_check =
  sc_subsystem :: string
  sc_expected :: string
  sc_actual :: string
  sc_matches :: bool

record verifier_report =
  vr_reportId :: string
  vr_verifierId :: string
  vr_verdict :: verdict
  vr_subsystemChecks :: "subsystem_check list"
  vr_discrepancies :: "string list"
  vr_bundleHash :: string
  vr_verifiedAt :: string

datatype consensus_reason =
    No_reports
  | Consensus_pass int int int
  | Quorum_not_reached int int
  | Bundles_disagree int
  | Majority_did_not_pass int int rat

record consensus_result =
  cr_verdict :: verdict
  cr_totalVerifiers :: int
  cr_passCount :: int
  cr_failCount :: int
  cr_agreementRatio :: rat
  cr_quorumReached :: bool
  cr_singleVerifierPass :: bool
  cr_bundleAgreement :: bool
  cr_dissenters :: "string list"
  cr_reason :: consensus_reason
  cr_consensusAt :: string

definition isConsensusReached :: "verifier_report list \<Rightarrow> int \<Rightarrow> bool" where
  "isConsensusReached reports minimumVerifiers \<longleftrightarrow> int (length reports) \<ge> minimumVerifiers"

subsection \<open>Votes\<close>

record vote =
  v_verdict :: verdict
  v_bundleHash :: string
  v_conflicted :: bool

definition collapse_step :: "(string, vote) jsmap \<Rightarrow> verifier_report \<Rightarrow> (string, vote) jsmap" where
  "collapse_step votes r =
     (case jm_get votes (vr_verifierId r) of
        None \<Rightarrow> jm_set votes (vr_verifierId r)
          \<lparr>v_verdict = vr_verdict r, v_bundleHash = vr_bundleHash r, v_conflicted = False\<rparr>
      | Some prior \<Rightarrow>
          if v_verdict prior \<noteq> vr_verdict r \<or> v_bundleHash prior \<noteq> vr_bundleHash r
          then jm_set votes (vr_verifierId r) (prior\<lparr>v_conflicted := True, v_verdict := FAIL\<rparr>)
          else votes)"

definition collapse :: "verifier_report list \<Rightarrow> (string, vote) jsmap" where
  "collapse reports = foldl collapse_step [] reports"

text \<open>The number of elements of a JavaScript \<^verbatim>\<open>Set\<close> built from a list.\<close>

definition set_size :: "'a list \<Rightarrow> int" where
  "set_size xs = int (length (remdups xs))"

definition empty_consensus :: "string \<Rightarrow> consensus_result" where
  "empty_consensus now =
     \<lparr>cr_verdict = FAIL, cr_totalVerifiers = 0, cr_passCount = 0, cr_failCount = 0,
      cr_agreementRatio = 0, cr_quorumReached = False, cr_singleVerifierPass = False,
      cr_bundleAgreement = True, cr_dissenters = [], cr_reason = No_reports, cr_consensusAt = now\<rparr>"

definition consensus_of :: "(string, vote) jsmap \<Rightarrow> int \<Rightarrow> string \<Rightarrow> consensus_result" where
  "consensus_of byVerifier minimumVerifiers now =
     (let weakThreshold = minimumVerifiers \<le> 1;
          votes = jm_values byVerifier;
          total = int (length votes);
          bundles = set_size (map v_bundleHash votes);
          bundleAgreement = bundles \<le> 1;
          passCount = int (length (filter (\<lambda>v. v_verdict v = PASS) votes));
          failCount = total - passCount;
          quorumReached = total \<ge> minimumVerifiers;
          verdict = (if quorumReached \<and> bundleAgreement \<and> rat_of_int passCount > rat_of_int total / 2
                     then PASS else FAIL);
          dissenters = map fst (filter (\<lambda>(_, v). v_verdict v \<noteq> verdict) byVerifier);
          majorityCount = (if verdict = PASS then passCount else failCount);
          reason =
            (if verdict = PASS then Consensus_pass passCount total minimumVerifiers
             else if \<not> quorumReached then Quorum_not_reached total minimumVerifiers
             else if \<not> bundleAgreement then Bundles_disagree bundles
             else Majority_did_not_pass passCount total (rat_of_int total / 2))
      in \<lparr>cr_verdict = verdict, cr_totalVerifiers = total, cr_passCount = passCount,
          cr_failCount = failCount,
          cr_agreementRatio = rat_of_int majorityCount / rat_of_int total,
          cr_quorumReached = quorumReached,
          cr_singleVerifierPass = (verdict = PASS \<and> weakThreshold),
          cr_bundleAgreement = bundleAgreement, cr_dissenters = dissenters, cr_reason = reason,
          cr_consensusAt = now\<rparr>)"

definition aggregateVerifierReports :: "verifier_report list \<Rightarrow> int \<Rightarrow> string \<Rightarrow> consensus_result" where
  "aggregateVerifierReports reports minimumVerifiers now =
     (if reports = [] then empty_consensus now
      else consensus_of (collapse reports) minimumVerifiers now)"

subsection \<open>The outcome without the map of votes\<close>

definition verifiers :: "verifier_report list \<Rightarrow> string set" where
  "verifiers rs = vr_verifierId ` set rs"

definition reports_of :: "string \<Rightarrow> verifier_report list \<Rightarrow> verifier_report list" where
  "reports_of v rs = filter (\<lambda>r. vr_verifierId r = v) rs"

definition first_bundle :: "verifier_report list \<Rightarrow> string \<Rightarrow> string" where
  "first_bundle rs v = vr_bundleHash (hd (reports_of v rs))"

text \<open>A verifier endorses when all its reports pass one bundle.\<close>

definition endorses :: "verifier_report list \<Rightarrow> string \<Rightarrow> bool" where
  "endorses rs v \<longleftrightarrow>
     (\<forall>r \<in> set (reports_of v rs). vr_verdict r = PASS \<and> vr_bundleHash r = first_bundle rs v)"

definition endorsers :: "verifier_report list \<Rightarrow> string set" where
  "endorsers rs = {v \<in> verifiers rs. endorses rs v}"

lemma reports_of_snoc [simp]:
  "reports_of v (rs @ [r]) = reports_of v rs @ (if vr_verifierId r = v then [r] else [])"
  by (simp add: reports_of_def)

lemma reports_of_empty: "reports_of v rs = [] \<longleftrightarrow> v \<notin> verifiers rs"
  by (auto simp: reports_of_def verifiers_def filter_empty_conv)

lemma verifiers_snoc [simp]: "verifiers (rs @ [r]) = insert (vr_verifierId r) (verifiers rs)"
  by (auto simp: verifiers_def)

lemma finite_verifiers [simp, intro]: "finite (verifiers rs)"
  by (simp add: verifiers_def)

lemma finite_endorsers [simp, intro]: "finite (endorsers rs)"
  by (simp add: endorsers_def)

lemma first_bundle_snoc:
  "first_bundle (rs @ [r]) v =
     (if v \<notin> verifiers rs \<and> vr_verifierId r = v then vr_bundleHash r else first_bundle rs v)"
  using reports_of_empty[of v rs] by (auto simp: first_bundle_def hd_append)

lemma endorses_snoc:
  "endorses (rs @ [r]) v \<longleftrightarrow>
     (if vr_verifierId r \<noteq> v then endorses rs v
      else if v \<in> verifiers rs
           then endorses rs v \<and> vr_verdict r = PASS \<and> vr_bundleHash r = first_bundle rs v
           else vr_verdict r = PASS)"
  using reports_of_empty[of v rs]
  by (auto simp: endorses_def first_bundle_snoc)

lemma collapse_snoc: "collapse (rs @ [r]) = collapse_step (collapse rs) r"
  by (simp add: collapse_def)

lemma collapse_wf: "jm_wf (collapse rs)"
proof (induction rs rule: rev_induct)
  case (snoc r rs)
  then show ?case by (auto simp: collapse_snoc collapse_step_def split: option.split)
qed (simp add: collapse_def)

definition vote_matches :: "verifier_report list \<Rightarrow> string \<Rightarrow> vote option \<Rightarrow> bool" where
  "vote_matches rs v w =
     (case w of
        None \<Rightarrow> v \<notin> verifiers rs
      | Some w \<Rightarrow> v \<in> verifiers rs \<and> v_bundleHash w = first_bundle rs v
          \<and> (v_verdict w = PASS \<longleftrightarrow> endorses rs v))"

lemma verdict_cases: "d \<noteq> PASS \<longleftrightarrow> d = FAIL"
  by (cases d) auto

lemma collapse_get: "vote_matches rs v (jm_get (collapse rs) v)"
proof (induction rs rule: rev_induct)
  case Nil
  then show ?case by (simp add: collapse_def vote_matches_def verifiers_def)
next
  case (snoc r rs)
  show ?case
  proof (cases "vr_verifierId r = v")
    case False
    then have "jm_get (collapse (rs @ [r])) v = jm_get (collapse rs) v"
      by (simp add: collapse_snoc collapse_step_def split: option.split)
    then show ?thesis using snoc False
      by (simp add: vote_matches_def first_bundle_snoc endorses_snoc split: option.splits)
  next
    case True
    then show ?thesis using snoc
      by (cases "jm_get (collapse rs) v"; cases "vr_verdict r")
        (auto simp: vote_matches_def collapse_snoc collapse_step_def first_bundle_snoc endorses_snoc
          verdict_cases dest: sym[of PASS] split: if_splits)
  qed
qed

lemma collapse_keys: "set (jm_keys (collapse rs)) = verifiers rs"
proof -
  have "v \<in> set (jm_keys (collapse rs)) \<longleftrightarrow> v \<in> verifiers rs" for v
    using collapse_get[of rs v] unfolding jm_has_keys[symmetric] jm_has_def
    by (auto simp: vote_matches_def split: option.splits)
  then show ?thesis by blast
qed

lemma jm_count:
  assumes "jm_wf m"
  shows "length (filter P (jm_values m)) = card {k. \<exists>v. jm_get m k = Some v \<and> P v}"
proof -
  let ?m = "filter (\<lambda>p. P (snd p)) m"
  have "distinct (map fst ?m)" using assms by (simp add: jm_wf_def distinct_map_filter)
  then have "length ?m = card (fst ` set ?m)" using distinct_card[of "map fst ?m"] by simp
  moreover have "fst ` set ?m = {k. \<exists>v. jm_get m k = Some v \<and> P v}"
    using assms by (force simp: jm_get_in)
  ultimately show ?thesis by (simp add: filter_map comp_def)
qed

lemma collapse_total: "length (collapse rs) = card (verifiers rs)"
  using distinct_card[of "jm_keys (collapse rs)"] collapse_wf[of rs]
  unfolding jm_wf_def by (simp add: collapse_keys flip: set_map)

lemma collapse_passes:
  "length (filter (\<lambda>w. v_verdict w = PASS) (jm_values (collapse rs))) = card (endorsers rs)"
proof -
  have "{k. \<exists>w. jm_get (collapse rs) k = Some w \<and> v_verdict w = PASS} = endorsers rs"
  proof (intro set_eqI)
    fix v
    show "v \<in> {k. \<exists>w. jm_get (collapse rs) k = Some w \<and> v_verdict w = PASS} \<longleftrightarrow> v \<in> endorsers rs"
      using collapse_get[of rs v] by (auto simp: vote_matches_def endorsers_def split: option.splits)
  qed
  then show ?thesis using jm_count[OF collapse_wf, of "\<lambda>w. v_verdict w = PASS" rs] by (simp only:)
qed

lemma collapse_bundles: "set (map v_bundleHash (jm_values (collapse rs))) = first_bundle rs ` verifiers rs"
proof -
  have 1: "w \<in> set (jm_values (collapse rs)) \<longleftrightarrow> (\<exists>v. jm_get (collapse rs) v = Some w)" for w
    by (rule jm_values_get[OF collapse_wf])
  have 2: "\<exists>w. jm_get (collapse rs) v = Some w \<and> v_bundleHash w = first_bundle rs v"
    if "v \<in> verifiers rs" for v
    using collapse_get[of rs v] that by (auto simp: vote_matches_def split: option.splits)
  have 3: "v \<in> verifiers rs \<and> v_bundleHash w = first_bundle rs v"
    if "jm_get (collapse rs) v = Some w" for v w
    using collapse_get[of rs v] that by (auto simp: vote_matches_def)
  show ?thesis
  proof (intro set_eqI iffI)
    fix b assume "b \<in> set (map v_bundleHash (jm_values (collapse rs)))"
    then obtain w where w: "w \<in> set (jm_values (collapse rs))" "b = v_bundleHash w"
      unfolding set_map[of v_bundleHash] by (elim imageE) (rule that)
    obtain v where v: "jm_get (collapse rs) v = Some w" using w(1) unfolding 1 by (elim exE) (rule that)
    then show "b \<in> first_bundle rs ` verifiers rs"
      using 3[OF v] w(2) by (intro image_eqI[of _ _ v]) simp_all
  next
    fix b assume "b \<in> first_bundle rs ` verifiers rs"
    then obtain v where v: "b = first_bundle rs v" "v \<in> verifiers rs" by (elim imageE) (rule that)
    obtain w where w: "jm_get (collapse rs) v = Some w" "v_bundleHash w = first_bundle rs v"
      using 2[OF v(2)] by (elim exE conjE) (rule that)
    have "w \<in> set (jm_values (collapse rs))" using w(1) 1 by (intro iffD2[OF 1] exI)
    then show "b \<in> set (map v_bundleHash (jm_values (collapse rs)))"
      unfolding set_map[of v_bundleHash] using w(2) v(1) by (intro image_eqI[of _ _ w]) simp_all
  qed
qed

lemma set_size_le1: "set_size xs \<le> 1 \<longleftrightarrow> (\<forall>x \<in> set xs. \<forall>y \<in> set xs. x = y)"
proof -
  have "set_size xs \<le> 1 \<longleftrightarrow> card (set xs) \<le> Suc 0"
    by (simp add: set_size_def length_remdups_card_conv)
  then show ?thesis using card_le_Suc0_iff_eq[of "set xs"] by simp
qed

lemma half_rat: "rat_of_int a > rat_of_int b / 2 \<longleftrightarrow> 2 * a > b"
proof -
  have "rat_of_int a > rat_of_int b / 2 \<longleftrightarrow> rat_of_int (2 * a) > rat_of_int b" by (simp add: field_simps)
  then show ?thesis by (simp only: of_int_less_iff)
qed

text \<open>The decision, over the reports.\<close>

definition consensus_holds :: "verifier_report list \<Rightarrow> int \<Rightarrow> bool" where
  "consensus_holds rs minimum \<longleftrightarrow>
     minimum \<le> int (card (verifiers rs))
     \<and> (\<forall>v \<in> verifiers rs. \<forall>w \<in> verifiers rs. first_bundle rs v = first_bundle rs w)
     \<and> card (verifiers rs) < 2 * card (endorsers rs)"

lemma collapse_agreement:
  "set_size (map v_bundleHash (jm_values (collapse rs))) \<le> 1 \<longleftrightarrow>
     (\<forall>v \<in> verifiers rs. \<forall>w \<in> verifiers rs. first_bundle rs v = first_bundle rs w)"
  unfolding set_size_le1 collapse_bundles by (simp only: ball_simps)

lemma consensus_verdict: "cr_verdict (consensus_of (collapse rs) m now) = PASS \<longleftrightarrow> consensus_holds rs m"
proof -
  have "cr_verdict (consensus_of (collapse rs) m now) = PASS \<longleftrightarrow>
      int (length (jm_values (collapse rs))) \<ge> m
      \<and> set_size (map v_bundleHash (jm_values (collapse rs))) \<le> 1
      \<and> rat_of_int (int (length (filter (\<lambda>v. v_verdict v = PASS) (jm_values (collapse rs)))))
          > rat_of_int (int (length (jm_values (collapse rs)))) / 2"
    unfolding consensus_of_def Let_def by simp
  also have "\<dots> \<longleftrightarrow> consensus_holds rs m"
    unfolding collapse_agreement half_rat collapse_passes length_map collapse_total consensus_holds_def
    by linarith
  finally show ?thesis .
qed

lemma aggregate_verdict:
  "cr_verdict (aggregateVerifierReports rs m now) = PASS \<longleftrightarrow> consensus_holds rs m"
  by (cases "rs = []")
    (auto simp: aggregateVerifierReports_def consensus_verdict empty_consensus_def consensus_holds_def
      verifiers_def endorsers_def)


subsection \<open>Properties\<close>

text \<open>C24: The consensus verdict is PASS exactly when the distinct verifiers reach the quorum, all
  name one bundle first and more than half of them submitted nothing but passing reports for that
  bundle; the counts and the weak-quorum flag of the result say the same.\<close>

theorem consensus_decides:
  "(let c = aggregateVerifierReports rs minimumVerifiers now
    in (cr_verdict c = PASS \<longleftrightarrow> consensus_holds rs minimumVerifiers)
      \<and> cr_totalVerifiers c = int (card (verifiers rs))
      \<and> cr_passCount c = int (card (endorsers rs))
      \<and> cr_failCount c = int (card (verifiers rs)) - int (card (endorsers rs))
      \<and> (cr_singleVerifierPass c \<longleftrightarrow> consensus_holds rs minimumVerifiers \<and> minimumVerifiers \<le> 1))"
proof (cases "rs = []")
  case True
  then show ?thesis
    by (simp add: aggregateVerifierReports_def empty_consensus_def consensus_holds_def verifiers_def
        endorsers_def)
next
  case False
  have v: "cr_verdict (consensus_of (collapse rs) minimumVerifiers now) = PASS
      \<longleftrightarrow> consensus_holds rs minimumVerifiers"
    by (rule consensus_verdict)
  have fields:
    "cr_totalVerifiers (consensus_of (collapse rs) minimumVerifiers now) = int (card (verifiers rs))"
    "cr_passCount (consensus_of (collapse rs) minimumVerifiers now) = int (card (endorsers rs))"
    "cr_failCount (consensus_of (collapse rs) minimumVerifiers now) =
       int (card (verifiers rs)) - int (card (endorsers rs))"
    unfolding consensus_of_def Let_def collapse_passes length_map collapse_total by simp_all
  have "cr_singleVerifierPass (consensus_of (collapse rs) minimumVerifiers now) \<longleftrightarrow>
      cr_verdict (consensus_of (collapse rs) minimumVerifiers now) = PASS \<and> minimumVerifiers \<le> 1"
    unfolding consensus_of_def Let_def by simp
  then show ?thesis using False v fields by (simp add: aggregateVerifierReports_def Let_def)
qed

lemma endorsers_repeat:
  assumes "vr_verifierId r \<in> verifiers rs"
  shows "endorsers (rs @ [r]) \<subseteq> endorsers rs"
  using assms by (auto simp: endorsers_def endorses_snoc split: if_splits)

lemma verifiers_repeat:
  "vr_verifierId r \<in> verifiers rs \<Longrightarrow> verifiers (rs @ [r]) = verifiers rs"
  by auto

lemma consensus_repeat:
  assumes "vr_verifierId r \<in> verifiers rs" "consensus_holds (rs @ [r]) m"
  shows "consensus_holds rs m"
proof -
  have c: "card (endorsers (rs @ [r])) \<le> card (endorsers rs)"
    by (intro card_mono endorsers_repeat[OF assms(1)]) simp
  have f: "first_bundle (rs @ [r]) = first_bundle rs"
    using assms(1) by (intro ext) (auto simp: first_bundle_snoc)
  have v: "verifiers (rs @ [r]) = verifiers rs" by (rule verifiers_repeat[OF assms(1)])
  show ?thesis
    using assms(2) c unfolding consensus_holds_def f v by (elim conjE) (intro conjI, assumption+, linarith)
qed

text \<open>Further reports of verifiers that have already reported never turn a FAIL into a PASS: one
  identity has one vote.\<close>

theorem one_identity_one_vote:
  assumes "\<forall>r \<in> set later. vr_verifierId r \<in> verifiers rs"
    and "cr_verdict (aggregateVerifierReports (rs @ later) m now) = PASS"
  shows "cr_verdict (aggregateVerifierReports rs m now') = PASS"
proof -
  have "consensus_holds (rs @ later) m" using assms(2) unfolding aggregate_verdict .
  then have "consensus_holds rs m" using assms(1)
  proof (induction later rule: rev_induct)
    case (snoc r later)
    have v: "vr_verifierId r \<in> verifiers (rs @ later)" using snoc.prems(2) by (auto simp: verifiers_def)
    have "consensus_holds ((rs @ later) @ [r]) m" using snoc.prems(1) by (simp only: append_assoc)
    then have "consensus_holds (rs @ later) m" by (rule consensus_repeat[OF v])
    moreover have "\<forall>r \<in> set later. vr_verifierId r \<in> verifiers rs" using snoc.prems(2) by simp
    ultimately show ?case by (rule snoc.IH)
  qed simp
  then show ?thesis unfolding aggregate_verdict .
qed

definition report_for :: "string \<Rightarrow> verdict \<Rightarrow> string \<Rightarrow> verifier_report" where
  "report_for v d b =
     \<lparr>vr_reportId = v, vr_verifierId = v, vr_verdict = d, vr_subsystemChecks = [],
      vr_discrepancies = [], vr_bundleHash = b, vr_verifiedAt = []\<rparr>"

theorem one_identity_one_vote_witness:
  "cr_verdict (aggregateVerifierReports [report_for ''a'' PASS ''h'', report_for ''b'' PASS ''h''] 2 []) = PASS"
proof (rule one_identity_one_vote[of "[report_for ''a'' PASS ''h'']" _ _ "[]"])
  show "\<forall>r \<in> set [report_for ''a'' PASS ''h''].
      vr_verifierId r \<in> verifiers [report_for ''a'' PASS ''h'', report_for ''b'' PASS ''h'']"
    by (simp add: report_for_def verifiers_def)
  show "cr_verdict (aggregateVerifierReports
      ([report_for ''a'' PASS ''h'', report_for ''b'' PASS ''h''] @ [report_for ''a'' PASS ''h'']) 2 []) = PASS"
    by code_simp
qed

text \<open>The verdict depends on the order of the reports: a verifier that contradicts itself still
  counts with its first bundle, so the same three reports pass or fail with the order of its two.\<close>

theorem consensus_depends_on_order:
  "cr_verdict (aggregateVerifierReports
      [report_for ''a'' PASS ''h'', report_for ''b'' PASS ''h'', report_for ''c'' PASS ''h'', report_for ''c'' PASS ''k''] 3 now)
     = PASS
   \<and> cr_verdict (aggregateVerifierReports
      [report_for ''a'' PASS ''h'', report_for ''b'' PASS ''h'', report_for ''c'' PASS ''k'', report_for ''c'' PASS ''h''] 3 now)
     = FAIL"
  unfolding aggregateVerifierReports_def consensus_of_def collapse_def collapse_step_def report_for_def
    set_size_def Let_def
  by simp

end
