(* ===== verification/Verify.thy ===== *)
theory Verify
  imports Ledger Persistence Consensus
begin

section \<open>State bundles and their verification\<close>

text \<open>
  Model of \<^verbatim>\<open>packages/verify/src\<close>: the global state hash (\<^verbatim>\<open>global-state-hash.ts\<close>), exportable
  bundles (\<^verbatim>\<open>state-bundle.ts\<close>), verification by replay (\<^verbatim>\<open>replay.ts\<close>) and the verifier node
  (\<^verbatim>\<open>verifier-node.ts\<close>). Snapshots of the ledger and of the registrar are those of the theories
  Ledger and Persistence, and replaying restores them with the definitions given there. SHA-256
  (\<open>H\<close>) and canonical JSON are parameters, the latter one function for each shape of value that is
  serialised (\<open>canonicalizer\<close>). The time and the random nonce of a report are arguments; telemetry is
  left out.
\<close>

type_synonym chain_hashes = "(string, string) jsmap"

type_synonym ledger_structure = "int \<times> ledger_account list \<times> ledger_entry list"

record canonicalizer =
  cz_normative :: "normative \<Rightarrow> string"
  cz_ledger :: "ledger_structure \<Rightarrow> string"
  cz_registrum :: "jsval \<Rightarrow> string"
  cz_combined :: "string \<times> string \<times> chain_hashes option \<Rightarrow> string"
  cz_bundle :: "string \<times> string list \<times> chain_hashes option \<Rightarrow> string"
  cz_report :: "string \<times> string \<times> string \<Rightarrow> string"

record global_state_hash =
  gs_hash :: string
  gs_computedAt :: string
  gs_ledger :: string
  gs_registrum :: string
  gs_chains :: "chain_hashes option"

subsection \<open>The global state hash\<close>

text \<open>\<^verbatim>\<open>snapshot\<close> without its field \<^verbatim>\<open>createdAt\<close>.\<close>

definition ledger_structural :: "ledger_snapshot \<Rightarrow> ledger_structure" where
  "ledger_structural s = (ls_version s, ls_accounts s, ls_entries s)"

definition hashLedgerSnapshot :: "hasher \<Rightarrow> canonicalizer \<Rightarrow> ledger_snapshot \<Rightarrow> string" where
  "hashLedgerSnapshot H cz s = sha256 H (cz_ledger cz (ledger_structural s))"

definition hashRegistrumSnapshot :: "hasher \<Rightarrow> canonicalizer \<Rightarrow> jsval \<Rightarrow> string" where
  "hashRegistrumSnapshot H cz s = sha256 H (cz_registrum cz s)"

text \<open>\<^verbatim>\<open>chainHashes && Object.keys(chainHashes).length > 0\<close>\<close>

definition given_chains :: "chain_hashes option \<Rightarrow> chain_hashes option" where
  "given_chains chainHashes =
     (case chainHashes of None \<Rightarrow> None | Some m \<Rightarrow> if length (jm_keys m) > 0 then Some m else None)"

definition computeGlobalStateHash ::
  "hasher \<Rightarrow> canonicalizer \<Rightarrow> ledger_snapshot \<Rightarrow> jsval \<Rightarrow> chain_hashes option \<Rightarrow> string \<Rightarrow> global_state_hash" where
  "computeGlobalStateHash H cz ledgerSnapshot registrumSnapshot chainHashes now =
     (let ledgerHash = hashLedgerSnapshot H cz ledgerSnapshot;
          registrumHash = hashRegistrumSnapshot H cz registrumSnapshot;
          globalHash = sha256 H (cz_combined cz (ledgerHash, registrumHash, given_chains chainHashes))
      in \<lparr>gs_hash = globalHash, gs_computedAt = now, gs_ledger = ledgerHash,
          gs_registrum = registrumHash, gs_chains = given_chains chainHashes\<rparr>)"

subsection \<open>Bundles\<close>

record state_bundle =
  sb_version :: int
  sb_ledgerSnapshot :: ledger_snapshot
  sb_registrumSnapshot :: jsval
  sb_globalStateHash :: global_state_hash
  sb_eventHashes :: "string list"
  sb_chainHashes :: "chain_hashes option"
  sb_exportedAt :: string
  sb_bundleHash :: string

record bundle_verification =
  bv_verdict :: verdict
  bv_bundleHashValid :: bool
  bv_globalHashValid :: bool
  bv_discrepancies :: "string list"
  bv_verifiedAt :: string

definition computeBundleHash ::
  "hasher \<Rightarrow> canonicalizer \<Rightarrow> string \<Rightarrow> string list \<Rightarrow> chain_hashes option \<Rightarrow> string" where
  "computeBundleHash H cz globalHash eventHashes chainHashes =
     sha256 H (cz_bundle cz (globalHash, eventHashes, given_chains chainHashes))"

definition createStateBundle ::
  "hasher \<Rightarrow> canonicalizer \<Rightarrow> ledger_snapshot \<Rightarrow> jsval \<Rightarrow> string list \<Rightarrow> chain_hashes option \<Rightarrow> string \<Rightarrow> state_bundle" where
  "createStateBundle H cz ledgerSnapshot registrumSnapshot eventHashes chainHashes now =
     (let globalStateHash = computeGlobalStateHash H cz ledgerSnapshot registrumSnapshot chainHashes now;
          bundleHash = computeBundleHash H cz (gs_hash globalStateHash) eventHashes chainHashes
      in \<lparr>sb_version = 1, sb_ledgerSnapshot = ledgerSnapshot, sb_registrumSnapshot = registrumSnapshot,
          sb_globalStateHash = globalStateHash, sb_eventHashes = eventHashes,
          sb_chainHashes = given_chains chainHashes, sb_exportedAt = now, sb_bundleHash = bundleHash\<rparr>)"

definition mismatch :: "string \<Rightarrow> string \<Rightarrow> string \<Rightarrow> string \<Rightarrow> bool \<Rightarrow> string list" where
  "mismatch prefix a infix_text b matches =
     (if matches then [] else [prefix @ a @ infix_text @ b])"

definition verifyBundleIntegrity :: "hasher \<Rightarrow> canonicalizer \<Rightarrow> state_bundle \<Rightarrow> string \<Rightarrow> bundle_verification" where
  "verifyBundleIntegrity H cz b now =
     (let g = sb_globalStateHash b;
          expectedBundleHash = computeBundleHash H cz (gs_hash g) (sb_eventHashes b) (sb_chainHashes b);
          bundleHashValid = (sb_bundleHash b = expectedBundleHash);
          recomputed = computeGlobalStateHash H cz (sb_ledgerSnapshot b) (sb_registrumSnapshot b)
            (sb_chainHashes b) now;
          globalHashValid = (gs_hash g = gs_hash recomputed);
          discrepancies =
            mismatch ''Bundle hash mismatch: expected '' expectedBundleHash '', got '' (sb_bundleHash b) bundleHashValid
            @ mismatch ''GlobalStateHash mismatch: bundle says '' (gs_hash g) '', recomputed ''
                (gs_hash recomputed) globalHashValid
            @ mismatch ''Ledger hash mismatch: bundle says '' (gs_ledger g) '', recomputed ''
                (gs_ledger recomputed) (gs_ledger g = gs_ledger recomputed)
            @ mismatch ''Registrum hash mismatch: bundle says '' (gs_registrum g) '', recomputed ''
                (gs_registrum recomputed) (gs_registrum g = gs_registrum recomputed)
      in \<lparr>bv_verdict = (if discrepancies = [] then PASS else FAIL), bv_bundleHashValid = bundleHashValid,
          bv_globalHashValid = globalHashValid, bv_discrepancies = discrepancies, bv_verifiedAt = now\<rparr>)"

subsection \<open>Replay\<close>

text \<open>
  \<open>Ill_typed_entries\<close> stands for a registrar restored with an entry of a wrong type (see the theory
  Persistence), at which the model stops.
\<close>

datatype replay_failure =
    Ledger_failed fault
  | Registrum_failed registrum_error
  | Ill_typed_entries

datatype subsystem = Sub_ledger | Sub_registrum | Sub_global

record verification_discrepancy =
  vd_subsystem :: subsystem
  vd_expected :: string
  vd_actual :: string
  vd_description :: string

record replay_input =
  ri_ledgerSnapshot :: ledger_snapshot
  ri_registrumSnapshot :: jsval
  ri_expectedHash :: "string option"

record replay_verification =
  rv_verdict :: verdict
  rv_replayedHash :: global_state_hash
  rv_originalHash :: global_state_hash
  rv_discrepancies :: "verification_discrepancy list"

text \<open>\<^verbatim>\<open>input.registrumSnapshot.mode\<close>, handed on as it is; a mode that is none of the three is
  refused when the snapshot is validated, before the options are looked at.\<close>

definition claimed_mode :: "jsval \<Rightarrow> registrar_mode" where
  "claimed_mode s =
     (if js_property s ''mode'' = JStr ''registry'' then RM_registry
      else if js_property s ''mode'' = JStr ''dual'' then RM_dual else RM_legacy)"

definition replay_options :: "jsval \<Rightarrow> rehydration_options" where
  "replay_options s =
     \<lparr>op_mode = claimed_mode s, op_invariants = Some INITIAL_INVARIANTS, op_compiledRegistry = None\<rparr>"

definition as_ledger_failure :: "'a result \<Rightarrow> replay_failure + 'a" where
  "as_ledger_failure r = (case r of Inl e \<Rightarrow> Inl (Ledger_failed e) | Inr a \<Rightarrow> Inr a)"

definition as_registrum_failure :: "registrum_error + 'a \<Rightarrow> replay_failure + 'a" where
  "as_registrum_failure r = (case r of Inl e \<Rightarrow> Inl (Registrum_failed e) | Inr a \<Rightarrow> Inr a)"

definition replayed_registrum :: "hasher \<Rightarrow> canonicalizer \<Rightarrow> jsval \<Rightarrow> replay_failure + jsval" where
  "replayed_registrum H cz s =
     (if s = JNull \<or> s = JUndef then Inl (Registrum_failed JsTypeError)
      else bind_r (as_registrum_failure (Persistence.fromSnapshot H (cz_normative cz) s (replay_options s))) (\<lambda>res.
        case res of
          None \<Rightarrow> Inl Ill_typed_entries
        | Some r \<Rightarrow> as_registrum_failure (take_registrar_snapshot H (cz_normative cz) r)))"

definition hash_difference :: "subsystem \<Rightarrow> string \<Rightarrow> string \<Rightarrow> string \<Rightarrow> verification_discrepancy list" where
  "hash_difference sub expected actual description =
     (if expected \<noteq> actual
      then [\<lparr>vd_subsystem = sub, vd_expected = expected, vd_actual = actual, vd_description = description\<rparr>]
      else [])"

definition verifyByReplay ::
  "hasher \<Rightarrow> canonicalizer \<Rightarrow> replay_input \<Rightarrow> string \<Rightarrow> replay_failure + replay_verification" where
  "verifyByReplay H cz input now =
     (let original = computeGlobalStateHash H cz (ri_ledgerSnapshot input) (ri_registrumSnapshot input) None now
      in bind_r (as_ledger_failure (Ledger.fromSnapshot (ri_ledgerSnapshot input))) (\<lambda>ledger.
         let ledgerSnapshot = snapshot ledger now
         in bind_r (replayed_registrum H cz (ri_registrumSnapshot input)) (\<lambda>registrumSnapshot.
         let replayed = computeGlobalStateHash H cz ledgerSnapshot registrumSnapshot None now;
             discrepancies =
               hash_difference Sub_ledger (hashLedgerSnapshot H cz (ri_ledgerSnapshot input))
                 (hashLedgerSnapshot H cz ledgerSnapshot) ''Ledger snapshot hash changed after replay''
               @ hash_difference Sub_registrum (hashRegistrumSnapshot H cz (ri_registrumSnapshot input))
                 (hashRegistrumSnapshot H cz registrumSnapshot) ''Registrum snapshot hash changed after replay''
               @ hash_difference Sub_global (gs_hash original) (gs_hash replayed)
                 ''GlobalStateHash changed after replay''
               @ (case ri_expectedHash input of
                    None \<Rightarrow> []
                  | Some expected \<Rightarrow> hash_difference Sub_global expected (gs_hash original)
                      ''GlobalStateHash does not match expected hash'')
         in Inr \<lparr>rv_verdict = (if discrepancies = [] then PASS else FAIL), rv_replayedHash = replayed,
                 rv_originalHash = original, rv_discrepancies = discrepancies\<rparr>)))"

record verification_result =
  vf_verdict :: verdict
  vf_globalHash :: global_state_hash
  vf_discrepancies :: "verification_discrepancy list"
  vf_verifiedAt :: string

definition verifyHash ::
  "hasher \<Rightarrow> canonicalizer \<Rightarrow> ledger_snapshot \<Rightarrow> jsval \<Rightarrow> string \<Rightarrow> string \<Rightarrow> verification_result" where
  "verifyHash H cz ledgerSnapshot registrumSnapshot expectedHash now =
     (let globalHash = computeGlobalStateHash H cz ledgerSnapshot registrumSnapshot None now;
          discrepancies = hash_difference Sub_global expectedHash (gs_hash globalHash)
            ''GlobalStateHash does not match expected''
      in \<lparr>vf_verdict = (if discrepancies = [] then PASS else FAIL), vf_globalHash = globalHash,
          vf_discrepancies = discrepancies, vf_verifiedAt = now\<rparr>)"

subsection \<open>The verifier node\<close>

record verifier_config =
  vc_verifierId :: string
  vc_label :: "string option"
  vc_strictMode :: "bool option"

definition generateReportId :: "hasher \<Rightarrow> canonicalizer \<Rightarrow> string \<Rightarrow> string \<Rightarrow> string \<Rightarrow> string" where
  "generateReportId H cz verifierId bundleHash nonce = sha256 H (cz_report cz (verifierId, bundleHash, nonce))"

definition subsystem_check_of :: "string \<Rightarrow> string \<Rightarrow> string \<Rightarrow> subsystem_check" where
  "subsystem_check_of name expected actual =
     \<lparr>sc_subsystem = name, sc_expected = expected, sc_actual = actual, sc_matches = (expected = actual)\<rparr>"

definition strict_discrepancies :: "state_bundle \<Rightarrow> verifier_config \<Rightarrow> string list" where
  "strict_discrepancies b config =
     (if vc_strictMode config = Some True \<and> given_chains (gs_chains (sb_globalStateHash b)) = None
      then [''Strict mode: no chain hashes found in bundle (expected chain observer data)''] else [])"

definition chain_checks :: "state_bundle \<Rightarrow> subsystem_check list" where
  "chain_checks b =
     (case gs_chains (sb_globalStateHash b) of
        None \<Rightarrow> []
      | Some hashes \<Rightarrow>
          map (\<lambda>(chainId, hash). \<lparr>sc_subsystem = ''chain:'' @ chainId, sc_expected = hash,
            sc_actual = hash, sc_matches = True\<rparr>) hashes)"

definition runVerification ::
  "hasher \<Rightarrow> canonicalizer \<Rightarrow> state_bundle \<Rightarrow> verifier_config \<Rightarrow> string \<Rightarrow> string \<Rightarrow> replay_failure + verifier_report" where
  "runVerification H cz b config nonce now =
     (let integrity = verifyBundleIntegrity H cz b now; g = sb_globalStateHash b
      in bind_r (verifyByReplay H cz \<lparr>ri_ledgerSnapshot = sb_ledgerSnapshot b,
             ri_registrumSnapshot = sb_registrumSnapshot b, ri_expectedHash = None\<rparr> now) (\<lambda>replay.
         let ledgerHash = hashLedgerSnapshot H cz (sb_ledgerSnapshot b);
             registrumHash = hashRegistrumSnapshot H cz (sb_registrumSnapshot b);
             recomputed = computeGlobalStateHash H cz (sb_ledgerSnapshot b) (sb_registrumSnapshot b)
               (sb_chainHashes b) now;
             discrepancies =
               (if bv_verdict integrity = FAIL then bv_discrepancies integrity else [])
               @ (if rv_verdict replay = FAIL then map vd_description (rv_discrepancies replay) else [])
               @ mismatch ''Ledger hash mismatch: bundle claims '' (gs_ledger g) '', recomputed '' ledgerHash
                   (gs_ledger g = ledgerHash)
               @ mismatch ''Registrum hash mismatch: bundle claims '' (gs_registrum g) '', recomputed ''
                   registrumHash (gs_registrum g = registrumHash)
               @ mismatch ''Global hash mismatch: bundle claims '' (gs_hash g) '', recomputed ''
                   (gs_hash recomputed) (gs_hash g = gs_hash recomputed)
               @ strict_discrepancies b config;
             subsystemChecks =
               [subsystem_check_of ''ledger'' (gs_ledger g) ledgerHash,
                subsystem_check_of ''registrum'' (gs_registrum g) registrumHash,
                subsystem_check_of ''global'' (gs_hash g) (gs_hash recomputed)] @ chain_checks b
         in Inr \<lparr>vr_reportId = generateReportId H cz (vc_verifierId config) (sb_bundleHash b) nonce,
              vr_verifierId = vc_verifierId config,
              vr_verdict = (if discrepancies = [] then PASS else FAIL),
              vr_subsystemChecks = subsystemChecks, vr_discrepancies = discrepancies,
              vr_bundleHash = sb_bundleHash b, vr_verifiedAt = now\<rparr>))"

record verifier_node =
  vn_config :: verifier_config
  vn_reports :: "verifier_report list"

definition new_verifier_node :: "verifier_config \<Rightarrow> verifier_node" where
  "new_verifier_node config = \<lparr>vn_config = config, vn_reports = []\<rparr>"

definition node_verify ::
  "hasher \<Rightarrow> canonicalizer \<Rightarrow> verifier_node \<Rightarrow> state_bundle \<Rightarrow> string \<Rightarrow> string \<Rightarrow>
   (replay_failure + verifier_report) \<times> verifier_node" where
  "node_verify H cz n b nonce now =
     (case runVerification H cz b (vn_config n) nonce now of
        Inl e \<Rightarrow> (Inl e, n)
      | Inr report \<Rightarrow> (Inr report, n\<lparr>vn_reports := vn_reports n @ [report]\<rparr>))"

definition getReports :: "verifier_node \<Rightarrow> verifier_report list" where
  "getReports n = vn_reports n"

definition getVerifierId :: "verifier_node \<Rightarrow> string" where
  "getVerifierId n = vc_verifierId (vn_config n)"


subsection \<open>Restoring the ledger\<close>

lemma jm_set_app:
  "k \<notin> set (jm_keys m) \<Longrightarrow> jm_set (m @ [(k, v)]) k w = m @ [(k, w)]"
  by (induction m) auto

lemma group_extend:
  assumes "c \<notin> set (jm_keys m)" "\<forall>e \<in> set es. le_correlationId e = c" "es \<noteq> []"
  shows "foldl (\<lambda>groups e. jm_set groups (le_correlationId e)
        ((case jm_get groups (le_correlationId e) of None \<Rightarrow> [] | Some g \<Rightarrow> g) @ [e])) m es = m @ [(c, es)]"
  using assms(2,3)
proof (induction es rule: rev_induct)
  case (snoc e es)
  have e: "le_correlationId e = c" using snoc.prems(1) by simp
  have new: "jm_get m c = None" using assms(1) by (simp add: map_of_eq_None_iff)
  show ?case
  proof (cases "es = []")
    case True
    have "jm_set m c [e] = m @ [(c, [e])]" using new by (intro jm_set_new) (simp add: jm_has_def)
    then show ?thesis using True e new by simp
  next
    case False
    then have "foldl (\<lambda>groups e. jm_set groups (le_correlationId e)
        ((case jm_get groups (le_correlationId e) of None \<Rightarrow> [] | Some g \<Rightarrow> g) @ [e])) m es = m @ [(c, es)]"
      using snoc by simp
    moreover have "jm_get (m @ [(c, es)]) c = Some es" using new by (simp add: map_add_def)
    ultimately show ?thesis using e jm_set_app[OF assms(1)] by simp
  qed
qed simp

text \<open>Restoring keeps the order of the entries when no correlation id is used by two transactions.\<close>

lemma group_transactions:
  assumes "\<forall>t \<in> set ts. transaction_wf t" "distinct (map lt_correlationId ts)"
  shows "group_entries (concat (map lt_entries ts)) = map (\<lambda>t. (lt_correlationId t, lt_entries t)) ts"
  using assms
proof (induction ts rule: rev_induct)
  case Nil
  then show ?case by (simp add: group_entries_def)
next
  case (snoc t ts)
  have "\<forall>e \<in> set (lt_entries t). le_correlationId e = lt_correlationId t" "lt_entries t \<noteq> []"
    using snoc.prems(1) by (simp_all add: transaction_wf_def)
  moreover have "lt_correlationId t \<notin> set (jm_keys (map (\<lambda>t. (lt_correlationId t, lt_entries t)) ts))"
    using snoc.prems(2) by (auto simp: comp_def)
  moreover have "group_entries (concat (map lt_entries ts)) = map (\<lambda>t. (lt_correlationId t, lt_entries t)) ts"
    using snoc by simp
  ultimately show ?case by (simp add: group_entries_def group_extend)
qed

lemma ledger_restores_exactly:
  assumes "ledger_reachable l" "distinct (map lt_correlationId (ld_transactions l))"
  obtains l' where "Ledger.fromSnapshot (snapshot l t) = Inr l'"
    "ledger_structural (snapshot l' now) = ledger_structural (snapshot l t)"
proof -
  obtain l' where l': "Ledger.fromSnapshot (snapshot l t) = Inr l'" "ld_accounts l' = ld_accounts l"
    "ld_entries l' = concat (jm_values (group_entries (ld_entries l)))"
    using fromSnapshot_groups[OF assms(1), of t] by metis
  have wf: "\<forall>t \<in> set (ld_transactions l). transaction_wf t"
    "concat (map lt_entries (ld_transactions l)) = ld_entries l"
    using ledger_reachable_wf[OF assms(1)] by (simp_all add: ledger_wf_def)
  have "ld_entries l' = ld_entries l"
    using l'(3) group_transactions[OF wf(1) assms(2)] by (simp add: wf(2) comp_def)
  then show ?thesis using that l' by (simp add: ledger_structural_def snapshot_def)
qed

subsection \<open>Restoring the registrar\<close>

definition unregistered :: "registrar \<Rightarrow> registrar" where
  "unregistered r = r\<lparr>rr_compiledRegistry := None\<rparr>"

lemma unregistered_simps [simp]:
  "rr_mode (unregistered r) = rr_mode r" "rr_invariants (unregistered r) = rr_invariants r"
  "rr_compiledRegistry (unregistered r) = None" "rr_versionsByKey (unregistered r) = rr_versionsByKey r"
  "rr_latestById (unregistered r) = rr_latestById r"
  "rr_currentOrderIndex (unregistered r) = rr_currentOrderIndex r"
  by (simp_all add: unregistered_def)

lemma legacy_snapshot_replays:
  assumes "registrar_reachable r" "rr_mode r = RM_legacy" "\<not> isRegistered r ''__proto__''"
  obtains s where "take_registrar_snapshot H (cz_normative cz) r = Inr s" "replayed_registrum H cz s = Inr s"
proof -
  let ?r = "unregistered r"
  have ready: "ready r" using assms(1) by (rule registrar_reachable_ready)
  have inv: "rr_invariants r = INITIAL_INVARIANTS" using ready by (simp add: ready_def shipped_def)
  have wf: "history_wf ?r" using ready by (simp add: ready_def history_wf_def versions_def)
  have proto: "proto_free ?r" using assms(3) by (simp add: proto_free_def isRegistered_def)
  have hash: "registry_hash_of H (cz_normative cz) ?r = Inr (computeLegacyRegistryHash (map li_id INITIAL_INVARIANTS))"
    "computeExpectedHash H (cz_normative cz) (options_of ?r) = Inr (computeLegacyRegistryHash (map li_id INITIAL_INVARIANTS))"
    "computeLegacyRegistryHash (map li_id INITIAL_INVARIANTS) \<noteq> []"
    using assms(2) inv
    by (simp_all add: registry_hash_of_def computeExpectedHash_def options_of_def computeLegacyRegistryHash_def)
  have "\<exists>r0. new_registrar (Some (rr_mode ?r)) (Some (rr_invariants ?r)) (rr_compiledRegistry ?r) = Inr r0"
    using assms(2) by (simp add: new_registrar_def Let_def)
  then obtain r0 where r0: "new_registrar (Some (rr_mode ?r)) (Some (rr_invariants ?r)) (rr_compiledRegistry ?r) = Inr r0"
    by (elim exE) (rule that)
  obtain s where s: "take_registrar_snapshot H (cz_normative cz) ?r = Inr s"
    "Persistence.fromSnapshot H (cz_normative cz) s (options_of ?r) = Inr (Some (restored ?r))"
    "take_registrar_snapshot H (cz_normative cz) (restored ?r) = Inr s"
    "js_property s ''mode'' = JStr (mode_text (rr_mode ?r))" "s \<noteq> JNull" "s \<noteq> JUndef"
    by (rule snapshot_round_trip_at[OF wf proto hash r0]) (rule that)
  have "options_of ?r = replay_options s"
    using s(4) assms(2) inv by (simp add: options_of_def replay_options_def claimed_mode_def mode_text_def)
  then have "replayed_registrum H cz s = Inr s"
    using s by (simp add: replayed_registrum_def as_registrum_failure_def)
  moreover have "take_registrar_snapshot H (cz_normative cz) r = take_registrar_snapshot H (cz_normative cz) ?r"
    using assms(2)
    by (simp add: take_registrar_snapshot_def registry_hash_of_def frontier_def resolveSnapshotParentId_def)
  ultimately show ?thesis using that s(1) by simp
qed

lemma other_modes_not_replayed:
  assumes "claimed_mode s \<noteq> RM_legacy"
  shows "\<exists>e. replayed_registrum H cz s = Inl e"
proof -
  have "claimed_mode s = RM_registry \<or> claimed_mode s = RM_dual" using assms by (cases "claimed_mode s") auto
  then have "computeExpectedHash H (cz_normative cz) (replay_options s) = Inl RehydrationError"
    by (auto simp: computeExpectedHash_def replay_options_def)
  then have "\<exists>e. rehydrate H (cz_normative cz) s (replay_options s) = Inl e"
    by (auto simp: rehydrate_def bind_r_def throw_when_def split: sum.split)
  then show ?thesis
    by (auto simp: replayed_registrum_def Persistence.fromSnapshot_def as_registrum_failure_def)
qed

subsection \<open>When a bundle verifies\<close>

lemma mismatch_none: "mismatch p a i b m = [] \<longleftrightarrow> m"
  by (simp add: mismatch_def)

lemma hash_difference_none: "hash_difference sub a b d = [] \<longleftrightarrow> a = b"
  by (simp add: hash_difference_def)

definition bundle_consistent :: "hasher \<Rightarrow> canonicalizer \<Rightarrow> state_bundle \<Rightarrow> bool" where
  "bundle_consistent H cz b \<longleftrightarrow>
     (let g = sb_globalStateHash b
      in gs_ledger g = hashLedgerSnapshot H cz (sb_ledgerSnapshot b)
       \<and> gs_registrum g = hashRegistrumSnapshot H cz (sb_registrumSnapshot b)
       \<and> gs_hash g = sha256 H (cz_combined cz (gs_ledger g, gs_registrum g, given_chains (sb_chainHashes b)))
       \<and> sb_bundleHash b =
           sha256 H (cz_bundle cz (gs_hash g, sb_eventHashes b, given_chains (sb_chainHashes b))))"

lemma integrity_iff: "bv_verdict (verifyBundleIntegrity H cz b now) = PASS \<longleftrightarrow> bundle_consistent H cz b"
  by (auto simp: verifyBundleIntegrity_def bundle_consistent_def Let_def mismatch_none computeGlobalStateHash_def
      computeBundleHash_def)

lemma integrity_discrepancies:
  "bv_discrepancies (verifyBundleIntegrity H cz b now) = [] \<longleftrightarrow>
     bv_verdict (verifyBundleIntegrity H cz b now) = PASS"
  by (simp add: verifyBundleIntegrity_def Let_def)

lemma created_consistent: "bundle_consistent H cz (createStateBundle H cz ls rs evs chs now)"
proof -
  have "given_chains (given_chains chs) = given_chains chs" by (auto simp: given_chains_def split: option.split)
  then show ?thesis
    by (simp add: bundle_consistent_def createStateBundle_def Let_def computeGlobalStateHash_def computeBundleHash_def)
qed

lemma pass_when: "(if P then PASS else FAIL) = PASS \<longleftrightarrow> P"
  by simp

lemma replay_discrepancies:
  "verifyByReplay H cz input now = Inr v \<Longrightarrow> rv_discrepancies v = [] \<longleftrightarrow> rv_verdict v = PASS"
  by (auto simp only: verifyByReplay_def Let_def bind_r_eq_Inr sum.inject replay_verification.simps pass_when)

lemma runVerification_Inr:
  assumes "runVerification H cz b config nonce now = Inr rep"
  obtains v where "verifyByReplay H cz \<lparr>ri_ledgerSnapshot = sb_ledgerSnapshot b,
      ri_registrumSnapshot = sb_registrumSnapshot b, ri_expectedHash = None\<rparr> now = Inr v"
    "vr_verdict rep = PASS \<longleftrightarrow> bundle_consistent H cz b \<and> rv_verdict v = PASS \<and> strict_discrepancies b config = []"
    "vr_bundleHash rep = sb_bundleHash b" "vr_verifierId rep = vc_verifierId config"
proof -
  have replay: "\<exists>v. verifyByReplay H cz \<lparr>ri_ledgerSnapshot = sb_ledgerSnapshot b,
      ri_registrumSnapshot = sb_registrumSnapshot b, ri_expectedHash = None\<rparr> now = Inr v"
    using assms unfolding runVerification_def Let_def bind_r_eq_Inr by blast
  then obtain v where v: "verifyByReplay H cz \<lparr>ri_ledgerSnapshot = sb_ledgerSnapshot b,
      ri_registrumSnapshot = sb_registrumSnapshot b, ri_expectedHash = None\<rparr> now = Inr v"
    by (elim exE) (rule that)
  note rep = assms[unfolded runVerification_def Let_def v bind_r_Inr sum.inject, symmetric]
  have fields: "vr_bundleHash rep = sb_bundleHash b" "vr_verifierId rep = vc_verifierId config"
    by (simp_all only: rep verifier_report.simps)
  have drop: "(if d = FAIL then xs else []) = [] \<longleftrightarrow> d = PASS" if "xs = [] \<longleftrightarrow> d = PASS"
    for d and xs :: "string list" using that by (cases d) auto
  have i: "(if bv_verdict (verifyBundleIntegrity H cz b now) = FAIL
      then bv_discrepancies (verifyBundleIntegrity H cz b now) else []) = [] \<longleftrightarrow> bundle_consistent H cz b"
    unfolding drop[OF integrity_discrepancies] by (rule integrity_iff)
  have r: "(if rv_verdict v = FAIL then map vd_description (rv_discrepancies v) else []) = [] \<longleftrightarrow> rv_verdict v = PASS"
    by (rule drop) (simp add: replay_discrepancies[OF v])
  have "vr_verdict rep = PASS \<longleftrightarrow> bundle_consistent H cz b \<and> rv_verdict v = PASS
      \<and> gs_ledger (sb_globalStateHash b) = hashLedgerSnapshot H cz (sb_ledgerSnapshot b)
      \<and> gs_registrum (sb_globalStateHash b) = hashRegistrumSnapshot H cz (sb_registrumSnapshot b)
      \<and> gs_hash (sb_globalStateHash b) = gs_hash (computeGlobalStateHash H cz (sb_ledgerSnapshot b)
          (sb_registrumSnapshot b) (sb_chainHashes b) now)
      \<and> strict_discrepancies b config = []"
    by (simp only: rep verifier_report.simps pass_when append_is_Nil_conv i r mismatch_none)
  then have "vr_verdict rep = PASS \<longleftrightarrow>
      bundle_consistent H cz b \<and> rv_verdict v = PASS \<and> strict_discrepancies b config = []"
    by (auto simp: bundle_consistent_def Let_def computeGlobalStateHash_def)
  then show ?thesis by (rule that[OF v _ fields])
qed

lemma runVerification_returns:
  assumes "verifyByReplay H cz \<lparr>ri_ledgerSnapshot = sb_ledgerSnapshot b,
      ri_registrumSnapshot = sb_registrumSnapshot b, ri_expectedHash = None\<rparr> now = Inr v"
  shows "\<exists>rep. runVerification H cz b config nonce now = Inr rep"
  by (simp add: runVerification_def Let_def assms)


lemma replay_passes:
  assumes "Ledger.fromSnapshot ls = Inr l'" "ledger_structural (snapshot l' now) = ledger_structural ls"
    "replayed_registrum H cz s = Inr s"
  shows "\<exists>v. verifyByReplay H cz \<lparr>ri_ledgerSnapshot = ls, ri_registrumSnapshot = s, ri_expectedHash = None\<rparr> now
      = Inr v \<and> rv_verdict v = PASS"
  using assms
  by (simp add: verifyByReplay_def as_ledger_failure_def Let_def hash_difference_def hashLedgerSnapshot_def
      computeGlobalStateHash_def)

lemma created_bundle_verifies:
  assumes "ledger_reachable l" "distinct (map lt_correlationId (ld_transactions l))"
    and "replayed_registrum H cz s = Inr s"
  shows "\<exists>rep. runVerification H cz (createStateBundle H cz (snapshot l t) s evs chs t) config nonce now = Inr rep
      \<and> (vr_verdict rep = PASS \<longleftrightarrow> vc_strictMode config \<noteq> Some True \<or> given_chains chs \<noteq> None)"
proof -
  let ?b = "createStateBundle H cz (snapshot l t) s evs chs t"
  obtain l' where l': "Ledger.fromSnapshot (snapshot l t) = Inr l'"
    "ledger_structural (snapshot l' now) = ledger_structural (snapshot l t)"
    by (rule ledger_restores_exactly[OF assms(1,2)])
  have "\<exists>v. verifyByReplay H cz \<lparr>ri_ledgerSnapshot = sb_ledgerSnapshot ?b, ri_registrumSnapshot =
      sb_registrumSnapshot ?b, ri_expectedHash = None\<rparr> now = Inr v \<and> rv_verdict v = PASS"
    using replay_passes[OF l' assms(3)] by (simp add: createStateBundle_def Let_def)
  then obtain v where v: "verifyByReplay H cz \<lparr>ri_ledgerSnapshot = sb_ledgerSnapshot ?b, ri_registrumSnapshot =
      sb_registrumSnapshot ?b, ri_expectedHash = None\<rparr> now = Inr v" "rv_verdict v = PASS"
    by (elim exE conjE) (rule that)
  obtain rep where rep: "runVerification H cz ?b config nonce now = Inr rep"
    using runVerification_returns[OF v(1), of config nonce] by (elim exE) (rule that)
  have "given_chains (gs_chains (sb_globalStateHash ?b)) = given_chains chs"
    by (auto simp: createStateBundle_def computeGlobalStateHash_def Let_def given_chains_def split: option.split)
  then have "strict_discrepancies ?b config = [] \<longleftrightarrow> vc_strictMode config \<noteq> Some True \<or> given_chains chs \<noteq> None"
    by (simp add: strict_discrepancies_def)
  then have "vr_verdict rep = PASS \<longleftrightarrow> vc_strictMode config \<noteq> Some True \<or> given_chains chs \<noteq> None"
    using runVerification_Inr[OF rep] v created_consistent[of H cz "snapshot l t" s evs chs t]
    by (metis sum.inject(2))
  then show ?thesis using rep by blast
qed

text \<open>C29: A bundle created from the snapshots of a reachable ledger, in which no two transactions share a
  correlation id, and of a reachable registrar in legacy mode always verifies: \<^verbatim>\<open>runVerification\<close>
  returns a report, and it passes unless strict mode misses the chain hashes.\<close>

theorem exported_bundle_verifies:
  assumes "ledger_reachable l" "distinct (map lt_correlationId (ld_transactions l))"
    and "registrar_reachable r" "rr_mode r = RM_legacy" "\<not> isRegistered r ''__proto__''"
  shows "\<exists>s rep. take_registrar_snapshot H (cz_normative cz) r = Inr s
    \<and> runVerification H cz (createStateBundle H cz (snapshot l t) s evs chs t) config nonce now = Inr rep
    \<and> (vr_verdict rep = PASS \<longleftrightarrow> vc_strictMode config \<noteq> Some True \<or> given_chains chs \<noteq> None)"
proof -
  obtain s where s: "take_registrar_snapshot H (cz_normative cz) r = Inr s" "replayed_registrum H cz s = Inr s"
    by (rule legacy_snapshot_replays[OF assms(3-5)])
  show ?thesis using s(1) created_bundle_verifies[OF assms(1,2) s(2)] by blast
qed

definition sample_canonicalizer :: canonicalizer where
  "sample_canonicalizer =
     \<lparr>cz_normative = (\<lambda>_. []), cz_ledger = (\<lambda>_. ''l''), cz_registrum = (\<lambda>_. ''r''), cz_combined = (\<lambda>_. ''c''),
      cz_bundle = (\<lambda>_. ''b''), cz_report = (\<lambda>_. ''n'')\<rparr>"

definition legacy_registrar :: registrar where
  "legacy_registrar =
     \<lparr>rr_versionsByKey = [], rr_latestById = [], rr_currentOrderIndex = 0, rr_mode = RM_legacy,
      rr_invariants = INITIAL_INVARIANTS, rr_compiledRegistry = Some core_registry, rr_lastParityStatus = None\<rparr>"

lemma legacy_registrar_facts:
  "registrar_reachable legacy_registrar" "rr_mode legacy_registrar = RM_legacy"
  "\<not> isRegistered legacy_registrar ''__proto__''"
proof -
  have "new_registrar (Some RM_legacy) None (Some core_registry) = Inr legacy_registrar"
    by (simp add: new_registrar_def legacy_registrar_def Let_def)
  then show "registrar_reachable legacy_registrar" by (rule registrar_reachable.fresh) simp
qed (simp_all add: legacy_registrar_def isRegistered_def)

lemma sample_state_transactions: "distinct (map lt_correlationId (ld_transactions sample_state))"
  by code_simp

definition strict_verifier :: "string \<Rightarrow> verifier_config" where
  "strict_verifier i = \<lparr>vc_verifierId = i, vc_label = None, vc_strictMode = Some True\<rparr>"

theorem exported_bundle_verifies_witness:
  "\<exists>s rep. runVerification sample_hash sample_canonicalizer
      (createStateBundle sample_hash sample_canonicalizer (snapshot sample_state ''t'') s [''e''] (Some [(''x'', ''y'')]) ''t'')
      (strict_verifier ''v'') ''n'' ''t'' = Inr rep \<and> vr_verdict rep = PASS"
proof -
  have "given_chains (Some [(''x'', ''y'')]) \<noteq> None" by (simp add: given_chains_def)
  then show ?thesis
    using exported_bundle_verifies[OF sample_state_reachable sample_state_transactions legacy_registrar_facts,
        where H = sample_hash and cz = sample_canonicalizer and t = "''t''" and evs = "[''e'']" and
        chs = "Some [(''x'', ''y'')]" and config = "strict_verifier ''v''" and nonce = "''n''" and now = "''t''"]
    by blast
qed

text \<open>A bundle with the snapshot of a registrar in registry or dual mode can never be verified, in
  whatever state it was taken: the replay gives the restored registrar no compiled registry, so
  \<^verbatim>\<open>runVerification\<close> throws.\<close>

theorem registry_mode_never_verifies:
  assumes "take_registrar_snapshot H (cz_normative cz) r = Inr (sb_registrumSnapshot b)" "rr_mode r \<noteq> RM_legacy"
  shows "\<exists>e. runVerification H cz b config nonce now = Inl e"
proof -
  obtain h ids lineage k assigned where
    s: "sb_registrumSnapshot b = snapshot_value h (mode_text (rr_mode r)) ids lineage k assigned"
    using assms(1) by (auto simp: take_registrar_snapshot_def bind_r_eq_Inr Let_def dest!: sym[of _ "sb_registrumSnapshot b"])
  have "js_property (sb_registrumSnapshot b) ''mode'' = JStr (mode_text (rr_mode r))"
    unfolding s by (simp add: snapshot_value_def js_property_own)
  then have "claimed_mode (sb_registrumSnapshot b) \<noteq> RM_legacy"
    using assms(2) by (cases "rr_mode r") (simp_all add: claimed_mode_def mode_text_def)
  note mode = this
  obtain e where e: "replayed_registrum H cz (sb_registrumSnapshot b) = Inl e"
    using other_modes_not_replayed[OF mode, of H cz] by (elim exE) (rule that)
  then have "\<exists>e. verifyByReplay H cz \<lparr>ri_ledgerSnapshot = sb_ledgerSnapshot b,
      ri_registrumSnapshot = sb_registrumSnapshot b, ri_expectedHash = None\<rparr> now = Inl e"
    by (cases "Ledger.fromSnapshot (sb_ledgerSnapshot b)")
      (simp_all add: verifyByReplay_def as_ledger_failure_def Let_def)
  then show ?thesis by (auto simp: runVerification_def Let_def)
qed

theorem registry_mode_never_verifies_witness:
  "\<exists>s e. take_registrar_snapshot sample_hash (cz_normative sample_canonicalizer) sample_registered = Inr s
    \<and> runVerification sample_hash sample_canonicalizer
      (createStateBundle sample_hash sample_canonicalizer (snapshot sample_state ''t'') s [] None ''t'')
      (strict_verifier ''v'') ''n'' ''t'' = Inl e"
proof -
  have "rr_compiledRegistry sample_registered = Some core_registry" by (rule sample_registered_shipped)
  then obtain s where s: "take_registrar_snapshot sample_hash (cz_normative sample_canonicalizer) sample_registered = Inr s"
    by (auto simp: take_registrar_snapshot_def registry_hash_of_def Let_def sample_registered_shipped)
  let ?b = "createStateBundle sample_hash sample_canonicalizer (snapshot sample_state ''t'') s [] None ''t''"
  have "take_registrar_snapshot sample_hash (cz_normative sample_canonicalizer) sample_registered =
      Inr (sb_registrumSnapshot ?b)" using s by (simp add: createStateBundle_def Let_def)
  moreover have "rr_mode sample_registered \<noteq> RM_legacy" by (simp add: sample_registered_shipped)
  ultimately show ?thesis using registry_mode_never_verifies s by blast
qed


subsection \<open>What strict mode checks\<close>

definition with_chains :: "state_bundle \<Rightarrow> chain_hashes \<Rightarrow> state_bundle" where
  "with_chains b forged = b\<lparr>sb_globalStateHash := (sb_globalStateHash b)\<lparr>gs_chains := Some forged\<rparr>\<rparr>"

lemma with_chains_consistent: "bundle_consistent H cz (with_chains b forged) \<longleftrightarrow> bundle_consistent H cz b"
  by (simp add: bundle_consistent_def with_chains_def Let_def)

text \<open>Strict mode demands chain hashes but does not check them: arbitrary ones can be written into any
  verified bundle under \<^verbatim>\<open>globalStateHash.subsystems.chains\<close>, and it verifies in strict mode.\<close>

theorem forged_chains_verify:
  assumes "runVerification H cz b config nonce now = Inr rep" "vr_verdict rep = PASS" "forged \<noteq> []"
  shows "\<exists>rep'. runVerification H cz (with_chains b forged) (config\<lparr>vc_strictMode := Some True\<rparr>) nonce now
      = Inr rep' \<and> vr_verdict rep' = PASS \<and> vr_bundleHash rep' = vr_bundleHash rep"
proof -
  let ?b = "with_chains b forged" and ?config = "config\<lparr>vc_strictMode := Some True\<rparr>"
  obtain v where v: "verifyByReplay H cz \<lparr>ri_ledgerSnapshot = sb_ledgerSnapshot b,
      ri_registrumSnapshot = sb_registrumSnapshot b, ri_expectedHash = None\<rparr> now = Inr v"
    "vr_verdict rep = PASS \<longleftrightarrow> bundle_consistent H cz b \<and> rv_verdict v = PASS \<and> strict_discrepancies b config = []"
    "vr_bundleHash rep = sb_bundleHash b"
    by (rule runVerification_Inr[OF assms(1)])
  have v': "verifyByReplay H cz \<lparr>ri_ledgerSnapshot = sb_ledgerSnapshot ?b,
      ri_registrumSnapshot = sb_registrumSnapshot ?b, ri_expectedHash = None\<rparr> now = Inr v"
    using v(1) by (simp add: with_chains_def)
  obtain rep' where rep': "runVerification H cz ?b ?config nonce now = Inr rep'"
    using runVerification_returns[OF v', of ?config nonce] by (elim exE) (rule that)
  obtain w where w: "verifyByReplay H cz \<lparr>ri_ledgerSnapshot = sb_ledgerSnapshot ?b,
      ri_registrumSnapshot = sb_registrumSnapshot ?b, ri_expectedHash = None\<rparr> now = Inr w"
    "vr_verdict rep' = PASS \<longleftrightarrow> bundle_consistent H cz ?b \<and> rv_verdict w = PASS \<and> strict_discrepancies ?b ?config = []"
    "vr_bundleHash rep' = sb_bundleHash ?b"
    by (rule runVerification_Inr[OF rep'])
  have "w = v" using v' w(1) by simp
  moreover have "strict_discrepancies ?b ?config = []"
    using assms(3) by (simp add: strict_discrepancies_def with_chains_def given_chains_def)
  ultimately have "vr_verdict rep' = PASS" using v(2) w(2) assms(2) with_chains_consistent by blast
  moreover have "sb_bundleHash ?b = sb_bundleHash b" by (simp add: with_chains_def)
  ultimately show ?thesis using rep' v(3) w(3) by (intro exI[of _ rep']) simp
qed

lemma sample_bundle_verifies:
  "\<exists>s rep. runVerification sample_hash sample_canonicalizer
      (createStateBundle sample_hash sample_canonicalizer (snapshot sample_state ''t'') s [''e''] (Some [(''x'', ''y'')]) ''t'')
      (strict_verifier i) ''n'' ''t'' = Inr rep \<and> vr_verdict rep = PASS"
proof -
  obtain s where s: "replayed_registrum sample_hash sample_canonicalizer s = Inr s"
    by (rule legacy_snapshot_replays[OF legacy_registrar_facts, of sample_hash sample_canonicalizer])
  have "given_chains (Some [(''x'', ''y'')]) \<noteq> None" by (simp add: given_chains_def)
  then show ?thesis
    using created_bundle_verifies[OF sample_state_reachable sample_state_transactions s,
        of "''t''" "[''e'']" "Some [(''x'', ''y'')]" "strict_verifier i" "''n''" "''t''"]
    by blast
qed

theorem forged_chains_verify_witness:
  "\<exists>b rep. runVerification sample_hash sample_canonicalizer (with_chains b [(''eip155:1'', ''forged'')])
      (strict_verifier ''v'') ''n'' ''t'' = Inr rep \<and> vr_verdict rep = PASS"
proof -
  obtain b rep where "runVerification sample_hash sample_canonicalizer b (strict_verifier ''v'') ''n'' ''t'' = Inr rep"
    "vr_verdict rep = PASS"
    using sample_bundle_verifies[of "''v''"] by (elim exE conjE) (rule that)
  moreover have "(strict_verifier ''v'')\<lparr>vc_strictMode := Some True\<rparr> = strict_verifier ''v''"
    by (simp add: strict_verifier_def)
  ultimately show ?thesis
    using forged_chains_verify[of sample_hash sample_canonicalizer b "strict_verifier ''v''" "''n''" "''t''" rep
        "[(''eip155:1'', ''forged'')]"] by auto
qed

subsection \<open>What a bundle hash binds\<close>

text \<open>
  Canonical JSON (RFC 8785) gives different text to different values; of the two objects with chain
  hashes this is asked up to the order of their properties, which it sorts. Of ledger and registrar
  snapshots nothing is asked: the theorem speaks of their canonical texts.
\<close>

definition same_chains :: "chain_hashes option \<Rightarrow> chain_hashes option \<Rightarrow> bool" where
  "same_chains a b \<longleftrightarrow>
     (case (a, b) of (None, None) \<Rightarrow> True | (Some m, Some n) \<Rightarrow> map_of m = map_of n | _ \<Rightarrow> False)"

definition canonical :: "canonicalizer \<Rightarrow> bool" where
  "canonical cz \<longleftrightarrow>
     (\<forall>g e c g' e' c'. cz_bundle cz (g, e, c) = cz_bundle cz (g', e', c') \<longrightarrow> g = g' \<and> e = e' \<and> same_chains c c')
     \<and> (\<forall>l r c l' r' c'. cz_combined cz (l, r, c) = cz_combined cz (l', r', c') \<longrightarrow> l = l' \<and> r = r')"

text \<open>The texts that were hashed for a bundle.\<close>

definition hashed_texts :: "canonicalizer \<Rightarrow> state_bundle \<Rightarrow> byte list list" where
  "hashed_texts cz b =
     map utf8
       [cz_bundle cz (gs_hash (sb_globalStateHash b), sb_eventHashes b, given_chains (sb_chainHashes b)),
        cz_combined cz (gs_ledger (sb_globalStateHash b), gs_registrum (sb_globalStateHash b),
          given_chains (sb_chainHashes b)),
        cz_ledger cz (ledger_structural (sb_ledgerSnapshot b)), cz_registrum cz (sb_registrumSnapshot b)]"

definition same_content :: "canonicalizer \<Rightarrow> state_bundle \<Rightarrow> state_bundle \<Rightarrow> bool" where
  "same_content cz b b' \<longleftrightarrow>
     cz_ledger cz (ledger_structural (sb_ledgerSnapshot b)) = cz_ledger cz (ledger_structural (sb_ledgerSnapshot b'))
     \<and> cz_registrum cz (sb_registrumSnapshot b) = cz_registrum cz (sb_registrumSnapshot b')
     \<and> sb_eventHashes b = sb_eventHashes b'
     \<and> same_chains (given_chains (sb_chainHashes b)) (given_chains (sb_chainHashes b'))"

lemma consistent_binds:
  assumes c: "bundle_consistent H cz b" "bundle_consistent H cz b'" and eq: "sb_bundleHash b = sb_bundleHash b'"
    and cz: "canonical cz" and no: "\<not> collision H (hashed_texts cz b) (hashed_texts cz b')"
  shows "same_content cz b b'"
proof -
  let ?g = "sb_globalStateHash b" and ?g' = "sb_globalStateHash b'"
  let ?c = "given_chains (sb_chainHashes b)" and ?c' = "given_chains (sb_chainHashes b')"
  note c = c[unfolded bundle_consistent_def Let_def]
  have of_bundle: "\<And>g e c g' e' c'. cz_bundle cz (g, e, c) = cz_bundle cz (g', e', c') \<Longrightarrow> g = g' \<and> e = e' \<and> same_chains c c'"
    and of_combined: "\<And>l r c l' r' c'. cz_combined cz (l, r, c) = cz_combined cz (l', r', c') \<Longrightarrow> l = l' \<and> r = r'"
    using cz unfolding canonical_def by blast+
  have top: "gs_hash ?g = gs_hash ?g' \<and> sb_eventHashes b = sb_eventHashes b' \<and> same_chains ?c ?c'"
    by (rule of_bundle, rule same_text[OF _ _ _ no]) (use c eq in \<open>simp_all add: hashed_texts_def\<close>)
  have mid: "gs_ledger ?g = gs_ledger ?g' \<and> gs_registrum ?g = gs_registrum ?g'"
    by (rule of_combined[of _ _ ?c _ _ ?c'], rule same_text[OF _ _ _ no])
      (use c top in \<open>simp_all add: hashed_texts_def\<close>)
  have "cz_ledger cz (ledger_structural (sb_ledgerSnapshot b)) = cz_ledger cz (ledger_structural (sb_ledgerSnapshot b'))"
    by (rule same_text[OF _ _ _ no]) (use c mid in \<open>simp_all add: hashed_texts_def hashLedgerSnapshot_def\<close>)
  moreover have "cz_registrum cz (sb_registrumSnapshot b) = cz_registrum cz (sb_registrumSnapshot b')"
    by (rule same_text[OF _ _ _ no]) (use c mid in \<open>simp_all add: hashed_texts_def hashRegistrumSnapshot_def\<close>)
  ultimately show ?thesis using top by (simp add: same_content_def)
qed

text \<open>C28: Two bundles that pass the integrity check under the same bundle hash carry the same ledger
  content and registrar snapshot in canonical JSON, the same event hashes and the same chain hashes, unless
  the texts hashed for them contain a collision.\<close>

theorem bundle_hash_binds:
  assumes "bv_verdict (verifyBundleIntegrity H cz b now) = PASS"
    and "bv_verdict (verifyBundleIntegrity H cz b' now') = PASS"
    and "sb_bundleHash b = sb_bundleHash b'" "canonical cz"
  shows "same_content cz b b' \<or> collision H (hashed_texts cz b) (hashed_texts cz b')"
  using consistent_binds[of H cz b b'] assms by (auto simp only: integrity_iff)

text \<open>A canonical form for examples: the framed text of the values.\<close>

definition framed_chains :: "chain_hashes option \<Rightarrow> string" where
  "framed_chains c = (case c of None \<Rightarrow> [] | Some m \<Rightarrow> framed_list (map fst m) @ framed_list (map snd m))"

lemma framed_chains_inj: "framed_chains c = framed_chains d \<Longrightarrow> c = d"
proof (cases c; cases d)
  fix m n assume eq: "framed_chains c = framed_chains d" and c: "c = Some m" "d = Some n"
  have "map fst m = map fst n \<and> framed_list (map snd m) = framed_list (map snd n)"
    using eq framed_list_inj[of "map fst m" "framed_list (map snd m)" "map fst n" "framed_list (map snd n)"]
    by (simp add: c framed_chains_def)
  moreover have "framed_list (map snd m) = framed_list (map snd n) \<Longrightarrow> map snd m = map snd n"
    using framed_list_inj[of "map snd m" "[]" "map snd n" "[]"] by simp
  ultimately show "c = d" by (simp add: c) (metis zip_map_fst_snd)
next
  fix m assume "framed_chains c = framed_chains d" "c = None" "d = Some m"
  then show "c = d" by (cases m) (simp_all add: framed_chains_def)
next
  fix m assume "framed_chains c = framed_chains d" "c = Some m" "d = None"
  then show "c = d" by (cases m) (simp_all add: framed_chains_def)
qed simp

definition framing_canonicalizer :: canonicalizer where
  "framing_canonicalizer =
     \<lparr>cz_normative = (\<lambda>_. []), cz_ledger = (\<lambda>_. ''l''), cz_registrum = (\<lambda>_. ''r''),
      cz_combined = (\<lambda>(l, r, c). framed l @ framed r @ framed_chains c),
      cz_bundle = (\<lambda>(g, e, c). framed g @ framed_list e @ framed_chains c), cz_report = (\<lambda>_. ''n'')\<rparr>"

lemma framing_canonical: "canonical framing_canonicalizer"
proof -
  have "same_chains c c" for c by (simp add: same_chains_def split: option.split)
  then show ?thesis
    using framed_chains_inj
    by (auto simp: canonical_def framing_canonicalizer_def framed_inj framed_list_inj)
qed

theorem bundle_hash_binds_witness:
  "same_content framing_canonicalizer
      (createStateBundle sample_hash framing_canonicalizer (snapshot sample_state ''t'') JNull [''e''] None ''t'')
      (createStateBundle sample_hash framing_canonicalizer (snapshot sample_state ''u'') JNull [''e''] None ''u'')
    \<or> collision sample_hash
      (hashed_texts framing_canonicalizer
        (createStateBundle sample_hash framing_canonicalizer (snapshot sample_state ''t'') JNull [''e''] None ''t''))
      (hashed_texts framing_canonicalizer
        (createStateBundle sample_hash framing_canonicalizer (snapshot sample_state ''u'') JNull [''e''] None ''u''))"
proof (rule bundle_hash_binds[where now = "[]" and now' = "[]"])
  show "sb_bundleHash (createStateBundle sample_hash framing_canonicalizer (snapshot sample_state ''t'') JNull [''e''] None ''t'')
      = sb_bundleHash (createStateBundle sample_hash framing_canonicalizer (snapshot sample_state ''u'') JNull [''e''] None ''u'')"
    by (simp add: createStateBundle_def Let_def computeGlobalStateHash_def hashLedgerSnapshot_def ledger_structural_def
        snapshot_def)
qed (simp_all add: integrity_iff created_consistent framing_canonical)

subsection \<open>Ledgers that replay in another order\<close>

text \<open>
  The replay appends one batch per correlation id. A ledger that used a correlation id again after another
  one gets its entries back in another order.
\<close>

definition regrouped :: "ledger_entry list \<Rightarrow> ledger_entry list" where
  "regrouped es = concat (jm_values (group_entries es))"

definition dollars :: "string \<Rightarrow> money" where
  "dollars amt = \<lparr>m_amount = amt, m_currency = ''USD'', m_decimals = 2\<rparr>"

definition transfer_pair :: "string \<Rightarrow> string \<Rightarrow> string \<Rightarrow> ledger_entry list" where
  "transfer_pair i j c =
     [sample_entry i ''x'' Debit (dollars ''1'') c, sample_entry j ''w'' Credit (dollars ''1'') c]"

definition interleaved :: ledger where
  "interleaved =
     snd (append (snd (append (snd (append (sample_ledger [''x'', ''w'']) (transfer_pair ''1'' ''2'' ''c'') None))
        (transfer_pair ''3'' ''4'' ''d'') None)) (transfer_pair ''5'' ''6'' ''c'') None)"

lemma interleaved_reachable: "ledger_reachable interleaved"
  unfolding interleaved_def by (intro append_reachable sample_ledger_reachable)

lemma interleaved_entries:
  "map le_id (ld_entries interleaved) = [''1'', ''2'', ''3'', ''4'', ''5'', ''6'']"
  "map le_id (regrouped (ld_entries interleaved)) = [''1'', ''2'', ''5'', ''6'', ''3'', ''4'']"
  by code_simp+

lemma interleaved_regrouped: "regrouped (ld_entries interleaved) \<noteq> ld_entries interleaved"
proof
  assume "regrouped (ld_entries interleaved) = ld_entries interleaved"
  then have "map le_id (regrouped (ld_entries interleaved)) = map le_id (ld_entries interleaved)" by simp
  then show False unfolding interleaved_entries by simp
qed

definition structure_with :: "ledger \<Rightarrow> ledger_entry list \<Rightarrow> ledger_structure" where
  "structure_with l es = (SUPPORTED_SNAPSHOT_VERSION, reg_getAll (ld_accounts l), es)"

text \<open>The snapshot of a ledger that used a correlation id again after another one fails its own
  verification: the replayed ledger has the entries in another order, so the verdict is FAIL unless canonical
  JSON does not show the order or the two texts are a collision.\<close>

theorem interleaved_ledger_fails_replay:
  "\<exists>s v. take_registrar_snapshot H (cz_normative cz) legacy_registrar = Inr s
    \<and> verifyByReplay H cz \<lparr>ri_ledgerSnapshot = snapshot interleaved t, ri_registrumSnapshot = s,
        ri_expectedHash = None\<rparr> now = Inr v
    \<and> regrouped (ld_entries interleaved) \<noteq> ld_entries interleaved
    \<and> (rv_verdict v = FAIL
        \<or> cz_ledger cz (structure_with interleaved (ld_entries interleaved)) =
            cz_ledger cz (structure_with interleaved (regrouped (ld_entries interleaved)))
        \<or> collision H [utf8 (cz_ledger cz (structure_with interleaved (ld_entries interleaved)))]
            [utf8 (cz_ledger cz (structure_with interleaved (regrouped (ld_entries interleaved))))])"
proof -
  obtain s where s: "take_registrar_snapshot H (cz_normative cz) legacy_registrar = Inr s"
    "replayed_registrum H cz s = Inr s"
    by (rule legacy_snapshot_replays[OF legacy_registrar_facts])
  obtain l' where l': "Ledger.fromSnapshot (snapshot interleaved t) = Inr l'" "ld_accounts l' = ld_accounts interleaved"
    "ld_entries l' = regrouped (ld_entries interleaved)"
    using fromSnapshot_groups[OF interleaved_reachable, of t] unfolding regrouped_def by metis
  let ?in = "\<lparr>ri_ledgerSnapshot = snapshot interleaved t, ri_registrumSnapshot = s, ri_expectedHash = None\<rparr>"
  obtain v where v: "verifyByReplay H cz ?in now = Inr v"
    by (simp add: verifyByReplay_def as_ledger_failure_def l'(1) s(2) Let_def)
  have texts: "ledger_structural (snapshot interleaved t) = structure_with interleaved (ld_entries interleaved)"
    "ledger_structural (snapshot l' now) = structure_with interleaved (regrouped (ld_entries interleaved))"
    by (simp_all add: ledger_structural_def snapshot_def structure_with_def l')
  have pass: "hashLedgerSnapshot H cz (snapshot interleaved t) = hashLedgerSnapshot H cz (snapshot l' now)"
    if "rv_verdict v = PASS"
  proof -
    have "rv_discrepancies v = []" using that replay_discrepancies[OF v] by simp
    then show ?thesis
      using v by (auto simp: verifyByReplay_def as_ledger_failure_def l'(1) s(2) Let_def hash_difference_none)
  qed
  have "rv_verdict v = FAIL
      \<or> cz_ledger cz (structure_with interleaved (ld_entries interleaved)) =
          cz_ledger cz (structure_with interleaved (regrouped (ld_entries interleaved)))
      \<or> collision H [utf8 (cz_ledger cz (structure_with interleaved (ld_entries interleaved)))]
          [utf8 (cz_ledger cz (structure_with interleaved (regrouped (ld_entries interleaved))))]"
  proof (cases "rv_verdict v")
    case PASS
    have eq: "sha256 H (cz_ledger cz (structure_with interleaved (ld_entries interleaved))) =
        sha256 H (cz_ledger cz (structure_with interleaved (regrouped (ld_entries interleaved))))"
      using pass[OF PASS] unfolding hashLedgerSnapshot_def texts .
    show ?thesis by (rule disjI2, rule disjCI, rule same_text[OF eq]) simp_all
  qed simp
  then show ?thesis using s(1) v interleaved_regrouped by blast
qed

subsection \<open>Verifiers and their consensus\<close>

text \<open>A report that some run of the verification returned for a bundle.\<close>

definition honest_report :: "hasher \<Rightarrow> canonicalizer \<Rightarrow> verifier_report \<Rightarrow> bool" where
  "honest_report H cz rep \<longleftrightarrow> (\<exists>b config nonce now. runVerification H cz b config nonce now = Inr rep)"

definition honest :: "hasher \<Rightarrow> canonicalizer \<Rightarrow> verifier_report list \<Rightarrow> string \<Rightarrow> bool" where
  "honest H cz rs v \<longleftrightarrow> (\<forall>rep \<in> set (reports_of v rs). honest_report H cz rep)"

text \<open>C27: A PASS of the consensus means a verified bundle as long as at most half of the distinct verifiers
  are dishonest: all of them name one bundle hash, and it is the hash of a bundle that is consistent and that
  an honest verifier replayed with the verdict PASS.\<close>

theorem consensus_means_verified:
  assumes "cr_verdict (aggregateVerifierReports rs minimumVerifiers now) = PASS"
    and "2 * card {v \<in> verifiers rs. \<not> honest H cz rs v} \<le> card (verifiers rs)"
  shows "\<exists>v b config nonce t rep. v \<in> verifiers rs
    \<and> runVerification H cz b config nonce t = Inr rep \<and> vr_verdict rep = PASS \<and> bundle_consistent H cz b
    \<and> (\<forall>w \<in> verifiers rs. first_bundle rs w = sb_bundleHash b)"
proof -
  have holds: "consensus_holds rs minimumVerifiers" using assms(1) by (simp only: aggregate_verdict)
  have same: "first_bundle rs v = first_bundle rs w" if "v \<in> verifiers rs" "w \<in> verifiers rs" for v w
    using holds that unfolding consensus_holds_def by (elim conjE) (drule (1) bspec, drule (1) bspec)
  have "\<exists>v \<in> endorsers rs. honest H cz rs v"
  proof (rule ccontr)
    assume no: "\<not> (\<exists>v \<in> endorsers rs. honest H cz rs v)"
    then have "card (endorsers rs) \<le> card {v \<in> verifiers rs. \<not> honest H cz rs v}"
      by (intro card_mono) (auto simp: endorsers_def)
    then show False using holds assms(2) unfolding consensus_holds_def by linarith
  qed
  then obtain v where v: "v \<in> verifiers rs" "endorses rs v" "honest H cz rs v"
    by (auto simp: endorsers_def)
  have "reports_of v rs \<noteq> []" using v(1) by (simp add: reports_of_empty)
  then obtain rep where rep: "rep \<in> set (reports_of v rs)" by (cases "reports_of v rs") auto
  have r: "vr_verdict rep = PASS" "vr_bundleHash rep = first_bundle rs v"
    using v(2) rep by (simp_all add: endorses_def)
  obtain b config nonce t where run: "runVerification H cz b config nonce t = Inr rep"
    using bspec[OF v(3)[unfolded honest_def] rep] unfolding honest_report_def by (elim exE) (rule that)
  have "bundle_consistent H cz b \<and> sb_bundleHash b = first_bundle rs v"
    by (rule runVerification_Inr[OF run]) (use r in simp)
  then show ?thesis using v(1) run r(1) same by metis
qed

theorem consensus_means_verified_witness:
  "\<exists>b config nonce t rep. runVerification sample_hash sample_canonicalizer b config nonce t = Inr rep
    \<and> bundle_consistent sample_hash sample_canonicalizer b"
proof -
  obtain b rep where run: "runVerification sample_hash sample_canonicalizer b (strict_verifier ''v'') ''n'' ''t'' = Inr rep"
    "vr_verdict rep = PASS"
    using sample_bundle_verifies[of "''v''"] by (elim exE conjE) (rule that)
  have "verifiers [rep] = {vr_verifierId rep}" "reports_of (vr_verifierId rep) [rep] = [rep]"
    by (simp_all add: verifiers_def reports_of_def)
  moreover from this have dishonest: "{v \<in> verifiers [rep]. \<not> honest sample_hash sample_canonicalizer [rep] v} = {}"
    using run(1) by (auto simp: honest_def honest_report_def)
  moreover from calculation have "consensus_holds [rep] 1"
    using run(2) by (auto simp: consensus_holds_def endorsers_def endorses_def first_bundle_def cong: conj_cong)
  then have pass: "cr_verdict (aggregateVerifierReports [rep] 1 ''t'') = PASS" by (simp only: aggregate_verdict)
  have few: "2 * card {v \<in> verifiers [rep]. \<not> honest sample_hash sample_canonicalizer [rep] v} \<le> card (verifiers [rep])"
    unfolding dishonest by simp
  show ?thesis using consensus_means_verified[OF pass few] by blast
qed

end
