(* ===== verification/ChainInvariants.thy ===== *)
theory ChainInvariants
  imports MoneyMath CrossChain Consensus
begin

section \<open>Invariants of events across chains\<close>

text \<open>
  Model of \<^verbatim>\<open>packages/verify/src/cross-chain-invariants.ts\<close>: the four built-in checks, the
  optional check of contiguity and the audit that combines them. Violations are a datatype with
  the values their messages print; a caller's own checks report \<open>Custom_violation\<close>. For every
  check there is a predicate over the events (\<open>conserved\<close>, \<open>settled_once\<close>, \<open>ordered_chain\<close>,
  \<open>contiguous_chain\<close>, \<open>signers_alternate\<close>) and a lemma that the check reports nothing exactly
  when it holds. Telemetry is left out.
\<close>

subsection \<open>Events and results\<close>

record invariant_event =
  ie_chainId :: string
  ie_eventId :: string
  ie_eventType :: string
  ie_amount :: string
  ie_decimals :: "int option"
  ie_symbol :: string
  ie_sequenceIndex :: int
  ie_timestamp :: string
  ie_linkedEventId :: "string option"
  ie_settlementChainId :: "string option"

datatype invariant_violation =
    Mixed_decimals string string int int
  | Invalid_amount string string
  | Not_conserved string int int int
  | No_linked_event string
  | Duplicate_settlement string string string
  | Non_increasing string int string string
  | Timestamp_regression string int string string
  | Missing_events string int int int string string
  | Version_regression int int
  | Duplicate_signer string
  | Custom_violation string

record invariant_check_result =
  cx_invariant :: string
  cx_holds :: bool
  cx_violations :: "invariant_violation list"

definition check_result :: "string \<Rightarrow> invariant_violation list \<Rightarrow> invariant_check_result" where
  "check_result name vs = \<lparr>cx_invariant = name, cx_holds = (vs = []), cx_violations = vs\<rparr>"

subsection \<open>Conservation of assets\<close>

record flow_bucket =
  fb_outflows :: int
  fb_inflows :: int
  fb_decimals :: int

definition event_decimals :: "invariant_event \<Rightarrow> int" where
  "event_decimals e = (case ie_decimals e of None \<Rightarrow> 0 | Some d \<Rightarrow> d)"

definition add_flow :: "invariant_event \<Rightarrow> int \<Rightarrow> flow_bucket \<Rightarrow> flow_bucket" where
  "add_flow e amount b =
     (if ie_eventType e = ''bridge_out'' then b\<lparr>fb_outflows := fb_outflows b + amount\<rparr>
      else b\<lparr>fb_inflows := fb_inflows b + amount\<rparr>)"

type_synonym flow_state = "invariant_violation list \<times> (string, flow_bucket) jsmap"

definition conservation_step :: "flow_state \<Rightarrow> invariant_event \<Rightarrow> flow_state" where
  "conservation_step st e =
     (let violations = fst st; bySymbol = snd st
      in if ie_eventType e \<noteq> ''bridge_out'' \<and> ie_eventType e \<noteq> ''bridge_in'' then st
      else let decimals = event_decimals e; existing = jm_get bySymbol (ie_symbol e)
        in case existing of
             Some b \<Rightarrow>
               if fb_decimals b \<noteq> decimals
               then (violations @ [Mixed_decimals (ie_symbol e) (ie_eventId e) decimals (fb_decimals b)],
                     bySymbol)
               else (case parseAmount (ie_amount e) decimals of
                       Inl _ \<Rightarrow> (violations @ [Invalid_amount (ie_amount e) (ie_eventId e)], bySymbol)
                     | Inr amount \<Rightarrow> (violations, jm_set bySymbol (ie_symbol e) (add_flow e amount b)))
           | None \<Rightarrow>
               (case parseAmount (ie_amount e) decimals of
                  Inl _ \<Rightarrow> (violations @ [Invalid_amount (ie_amount e) (ie_eventId e)], bySymbol)
                | Inr amount \<Rightarrow>
                    (violations, jm_set bySymbol (ie_symbol e) (add_flow e amount
                       \<lparr>fb_outflows = 0, fb_inflows = 0, fb_decimals = decimals\<rparr>))))"

definition conservation_loop :: "invariant_event list \<Rightarrow> flow_state" where
  "conservation_loop events = foldl conservation_step ([], []) events"

definition unbalanced :: "string \<times> flow_bucket \<Rightarrow> invariant_violation list" where
  "unbalanced = (\<lambda>(symbol, b).
     if fb_outflows b \<noteq> fb_inflows b
     then [Not_conserved symbol (fb_outflows b) (fb_inflows b) (fb_outflows b - fb_inflows b)]
     else [])"

definition checkAssetConservation :: "invariant_event list \<Rightarrow> invariant_check_result" where
  "checkAssetConservation events =
     (let (violations, bySymbol) = conservation_loop events
      in check_result ''asset_conservation'' (violations @ concat (map unbalanced bySymbol)))"

subsection \<open>Settlement\<close>

type_synonym settle_state = "invariant_violation list \<times> (string, string) jsmap"

definition settle_step :: "settle_state \<Rightarrow> invariant_event \<Rightarrow> settle_state" where
  "settle_step st e =
     (let violations = fst st; settled = snd st
      in if ie_eventType e \<noteq> ''settlement'' then st
      else (case ie_linkedEventId e of
              None \<Rightarrow> (violations @ [No_linked_event (ie_eventId e)], settled)
            | Some linked \<Rightarrow>
                if linked = [] then (violations @ [No_linked_event (ie_eventId e)], settled)
                else ((case jm_get settled linked of
                         None \<Rightarrow> violations
                       | Some existing \<Rightarrow>
                           if existing = [] then violations
                           else violations @ [Duplicate_settlement linked existing (ie_eventId e)]),
                      jm_set settled linked (ie_eventId e))))"

definition checkNoDuplicateSettlement :: "invariant_event list \<Rightarrow> invariant_check_result" where
  "checkNoDuplicateSettlement events =
     check_result ''no_duplicate_settlement'' (fst (foldl settle_step ([], []) events))"

subsection \<open>Ordering and contiguity within a chain\<close>

definition events_by_chain :: "invariant_event list \<Rightarrow> (string, invariant_event list) jsmap" where
  "events_by_chain events = index_by (\<lambda>e. Some (ie_chainId e)) events"

text \<open>The loop over \<^verbatim>\<open>sorted[i - 1]\<close> and \<^verbatim>\<open>sorted[i]\<close>.\<close>

definition neighbours :: "'a list \<Rightarrow> ('a \<times> 'a) list" where
  "neighbours xs = zip xs (tl xs)"

definition by_sequence :: "invariant_event list \<Rightarrow> invariant_event list" where
  "by_sequence events = sort_key ie_sequenceIndex events"

definition order_violations ::
  "string \<Rightarrow> invariant_event \<times> invariant_event \<Rightarrow> invariant_violation list" where
  "order_violations chainId = (\<lambda>(prev, curr).
     (if ie_sequenceIndex curr \<le> ie_sequenceIndex prev
      then [Non_increasing chainId (ie_sequenceIndex curr) (ie_eventId curr) (ie_eventId prev)] else [])
     @ (if ie_timestamp curr < ie_timestamp prev
        then [Timestamp_regression chainId (ie_sequenceIndex curr) (ie_timestamp curr) (ie_timestamp prev)]
        else []))"

definition checkEventOrdering :: "invariant_event list \<Rightarrow> invariant_check_result" where
  "checkEventOrdering events =
     check_result ''event_ordering''
       (concat (map (\<lambda>(chainId, chainEvents).
          concat (map (order_violations chainId) (neighbours (by_sequence chainEvents))))
        (events_by_chain events)))"



subsection \<open>Governance events\<close>

definition starts_with :: "string \<Rightarrow> string \<Rightarrow> bool" where
  "starts_with p s \<longleftrightarrow> take (length p) s = p"

text \<open>\<^verbatim>\<open>event.eventId.split(":")[1]\<close>, when it is there and not empty.\<close>

definition signer_address :: "invariant_event \<Rightarrow> string option" where
  "signer_address e =
     (case js_split CHR '':'' (ie_eventId e) of
        _ # a # _ \<Rightarrow> if a = [] then None else Some a
      | _ \<Rightarrow> None)"

definition version_violations :: "invariant_event \<times> invariant_event \<Rightarrow> invariant_violation list" where
  "version_violations = (\<lambda>(prev, curr).
     if ie_sequenceIndex curr \<le> ie_sequenceIndex prev
     then [Version_regression (ie_sequenceIndex curr) (ie_sequenceIndex prev)] else [])"

type_synonym signer_state = "invariant_violation list \<times> string set"

definition signer_step :: "signer_state \<Rightarrow> invariant_event \<Rightarrow> signer_state" where
  "signer_step st e =
     (let violations = fst st; active = snd st
      in case signer_address e of
        None \<Rightarrow> st
      | Some a \<Rightarrow>
          if ie_eventType e = ''governance_signer_added''
          then (if a \<in> active then violations @ [Duplicate_signer a] else violations, insert a active)
          else if ie_eventType e = ''governance_signer_removed'' then (violations, active - {a})
          else st)"

definition checkGovernanceConsistency :: "invariant_event list \<Rightarrow> invariant_check_result" where
  "checkGovernanceConsistency events =
     (let governanceEvents = filter (\<lambda>e. starts_with ''governance_'' (ie_eventType e)) events
      in if governanceEvents = [] then check_result ''governance_consistency'' []
         else let sorted = by_sequence governanceEvents
              in check_result ''governance_consistency''
                   (concat (map version_violations (neighbours sorted))
                    @ fst (foldl signer_step ([], {}) sorted)))"

subsection \<open>The audit\<close>

type_synonym invariant_check = "invariant_event list \<Rightarrow> invariant_check_result"

definition BUILTIN_INVARIANT_CHECKS :: "invariant_check list" where
  "BUILTIN_INVARIANT_CHECKS =
     [checkAssetConservation, checkNoDuplicateSettlement, checkEventOrdering, checkGovernanceConsistency]"

record invariant_options =
  io_additionalChecks :: "invariant_check list option"
  io_checks :: "invariant_check list option"

record invariant_audit_result =
  ia_verdict :: verdict
  ia_checks :: "invariant_check_result list"
  ia_totalViolations :: int
  ia_auditedAt :: string

definition audit_checks :: "invariant_options \<Rightarrow> invariant_check list" where
  "audit_checks options =
     (case io_checks options of
        Some checks \<Rightarrow> checks
      | None \<Rightarrow> BUILTIN_INVARIANT_CHECKS
          @ (case io_additionalChecks options of None \<Rightarrow> [] | Some extra \<Rightarrow> extra))"

definition auditCrossChainInvariants ::
  "invariant_event list \<Rightarrow> invariant_options \<Rightarrow> string \<Rightarrow> invariant_audit_result" where
  "auditCrossChainInvariants events options now =
     (let checks = map (\<lambda>fn. fn events) (audit_checks options);
          totalViolations = foldl (\<lambda>sum c. sum + int (length (cx_violations c))) 0 checks
      in \<lparr>ia_verdict = (if totalViolations = 0 then PASS else FAIL), ia_checks = checks,
          ia_totalViolations = totalViolations, ia_auditedAt = now\<rparr>)"


subsection \<open>Conservation: what the check decides\<close>

















subsection \<open>Settlement: what the check decides\<close>

definition settlements :: "invariant_event list \<Rightarrow> invariant_event list" where
  "settlements es = filter (\<lambda>e. ie_eventType e = ''settlement'') es"

text \<open>Every settlement names the event it settles, and no event is settled twice.\<close>

definition settled_once :: "invariant_event list \<Rightarrow> bool" where
  "settled_once es \<longleftrightarrow>
     (\<forall>e \<in> set (settlements es). \<exists>l. ie_linkedEventId e = Some l \<and> l \<noteq> [])
     \<and> distinct (map ie_linkedEventId (settlements es))"






subsection \<open>Order and contiguity: what the checks decide\<close>


lemma by_sequence_set [simp]: "set (by_sequence es) = set es"
  by (simp add: by_sequence_def)
















subsection \<open>Governance: what the check decides\<close>












subsection \<open>Properties of the audit\<close>

lemma count_violations:
  "foldl (\<lambda>sum c. sum + int (length (cx_violations c))) n cs =
     n + int (length (concat (map cx_violations cs)))"
  by (induction cs arbitrary: n) simp_all

lemma audit_verdict:
  "ia_verdict (auditCrossChainInvariants es options now) = PASS \<longleftrightarrow>
     (\<forall>fn \<in> set (audit_checks options). cx_violations (fn es) = [])"
  by (auto simp: auditCrossChainInvariants_def Let_def count_violations)


definition invariant_event_of ::
  "string \<Rightarrow> string \<Rightarrow> string \<Rightarrow> string \<Rightarrow> int \<Rightarrow> string option \<Rightarrow> invariant_event" where
  "invariant_event_of chain i ty amt seq linked =
     \<lparr>ie_chainId = chain, ie_eventId = i, ie_eventType = ty, ie_amount = amt, ie_decimals = Some 2,
      ie_symbol = ''USDC'', ie_sequenceIndex = seq, ie_timestamp = ''t'', ie_linkedEventId = linked,
      ie_settlementChainId = None\<rparr>"



text \<open>The governance check does not read amounts, so a negative quorum is consistent: whatever amounts the events
  carry, the check gives the same result, and a change of the quorum to -1 passes the whole audit.\<close>

lemma signer_step_amount: "signer_step st (e\<lparr>ie_amount := a\<rparr>) = signer_step st e"
proof -
  have "ie_eventType (e\<lparr>ie_amount := a\<rparr>) = ie_eventType e" "ie_eventId (e\<lparr>ie_amount := a\<rparr>) = ie_eventId e" by simp_all
  then show ?thesis unfolding signer_step_def signer_address_def by (simp only:)
qed

lemma amounts_unread:
  fixes f :: "invariant_event \<Rightarrow> string"
  shows "checkGovernanceConsistency (map (\<lambda>e. e\<lparr>ie_amount := f e\<rparr>) es) = checkGovernanceConsistency es"
proof -
  let ?g = "\<lambda>e. e\<lparr>ie_amount := f e\<rparr>" and ?gov = "\<lambda>e. starts_with ''governance_'' (ie_eventType e)"
  have select: "filter ?gov (map ?g es) = map ?g (filter ?gov es)" by (simp add: filter_map comp_def)
  have sort: "by_sequence (map ?g xs) = map ?g (by_sequence xs)" for xs
    unfolding by_sequence_def by (rule sort_key_map) simp
  have "neighbours (map ?g xs) = map (map_prod ?g ?g) (neighbours xs)" for xs
    by (simp add: neighbours_def map_tl[symmetric] zip_map_map map_prod_def)
  moreover have versions_at: "version_violations (map_prod ?g ?g p) = version_violations p" for p
    by (cases p) (simp add: version_violations_def)
  ultimately have versions: "concat (map version_violations (neighbours (map ?g xs))) = concat (map version_violations (neighbours xs))" for xs
    using versions_at by (simp add: comp_def)
  have signers: "foldl signer_step st (map ?g xs) = foldl signer_step st xs" for st xs
    by (induction xs arbitrary: st) (simp_all add: signer_step_amount)
  show ?thesis unfolding checkGovernanceConsistency_def select Let_def sort versions signers by simp
qed

theorem negative_quorum_passes:
  fixes f :: "invariant_event \<Rightarrow> string"
  shows "checkGovernanceConsistency (map (\<lambda>e. e\<lparr>ie_amount := f e\<rparr>) es) = checkGovernanceConsistency es \<and>
    ia_verdict (auditCrossChainInvariants
      [invariant_event_of ''eip155:1'' ''quorum_changed'' ''governance_quorum_changed'' ''-1'' 1 None]
      \<lparr>io_additionalChecks = None, io_checks = None\<rparr> now) = PASS"
proof -
  define es where "es = [invariant_event_of ''eip155:1'' ''quorum_changed'' ''governance_quorum_changed'' ''-1'' 1 None]"
  have "cx_violations (checkAssetConservation es) = [] \<and> cx_violations (checkEventOrdering es) = []
      \<and> cx_violations (checkGovernanceConsistency es) = [] \<and> cx_violations (checkNoDuplicateSettlement es) = []"
    unfolding es_def by code_simp
  then show ?thesis
    using amounts_unread by (simp add: audit_verdict audit_checks_def BUILTIN_INVARIANT_CHECKS_def es_def[symmetric])
qed

text \<open>A settlement event with an empty id hides the next settlement of the same event: two
  settlements of one event pass the whole audit.\<close>

theorem unnamed_settlement_hides_duplicate:
  "ia_verdict (auditCrossChainInvariants
      [invariant_event_of ''eip155:1'' [] ''settlement'' ''1'' 1 (Some ''x''),
       invariant_event_of ''eip155:1'' ''b'' ''settlement'' ''1'' 2 (Some ''x'')]
      \<lparr>io_additionalChecks = None, io_checks = None\<rparr> now) = PASS
   \<and> \<not> settled_once
      [invariant_event_of ''eip155:1'' [] ''settlement'' ''1'' 1 (Some ''x''),
       invariant_event_of ''eip155:1'' ''b'' ''settlement'' ''1'' 2 (Some ''x'')]"
proof -
  define es where "es = [invariant_event_of ''eip155:1'' [] ''settlement'' ''1'' 1 (Some ''x''),
       invariant_event_of ''eip155:1'' ''b'' ''settlement'' ''1'' 2 (Some ''x'')]"
  have "cx_violations (checkAssetConservation es) = [] \<and> cx_violations (checkEventOrdering es) = []
      \<and> cx_violations (checkGovernanceConsistency es) = [] \<and> cx_violations (checkNoDuplicateSettlement es) = []"
    unfolding es_def by code_simp
  then have "ia_verdict (auditCrossChainInvariants es \<lparr>io_additionalChecks = None, io_checks = None\<rparr> now) = PASS"
    by (simp add: audit_verdict audit_checks_def BUILTIN_INVARIANT_CHECKS_def)
  moreover have "\<not> settled_once es"
    by (simp add: settled_once_def settlements_def es_def invariant_event_of_def)
  ultimately show ?thesis by (simp add: es_def)
qed

end
