(* ===== verification/MultiChain.thy ===== *)
theory MultiChain
  imports ChainInvariants Digest
begin

section \<open>Audit of a replay over several chains\<close>

text \<open>
  Model of \<^verbatim>\<open>packages/verify/src/multi-chain-replay.ts\<close>: one hash chain for each chain's events, their
  combination and the audit. SHA-256 (\<open>H\<close>), the canonical JSON of an event and of the combined object
  (\<open>canonEvent\<close>, \<open>canonCombined\<close>) and the collation keys behind \<^verbatim>\<open>localeCompare\<close>
  (\<open>collate\<close>, from the ICU data of the runtime) are parameters. The data of an event is of any type
  \<open>'d\<close>. Discrepancies are a datatype with the values their messages print; telemetry is left out.
\<close>

record 'd chain_event =
  ce_chainId :: string
  ce_eventHash :: string
  ce_sequenceIndex :: int
  ce_timestamp :: string
  ce_data :: 'd

record chain_replay_result =
  ch_chainId :: string
  ch_hashChain :: string
  ch_eventCount :: nat
  ch_firstEventHash :: string
  ch_lastEventHash :: string

datatype multichain_discrepancy =
    Sequence_gap string int int int
  | Chain_absent string
  | Combined_hash_mismatch string string

record multichain_result =
  mc_verdict :: verdict
  mc_combinedHash :: string
  mc_chains :: "chain_replay_result list"
  mc_auditedAt :: string
  mc_discrepancies :: "multichain_discrepancy list"
  mc_chainCount :: nat
  mc_eventCount :: nat

record multichain_options =
  mo_expectedCombinedHash :: "string option"
  mo_expectedChainIds :: "string list option"
  mo_requireContiguousSequence :: "bool option"

text \<open>The object of an event that is serialised: all but its timestamp.\<close>

type_synonym 'd event_body = "string \<times> string \<times> int \<times> 'd"

definition event_body :: "'d chain_event \<Rightarrow> 'd event_body" where
  "event_body e = (ce_chainId e, ce_eventHash e, ce_sequenceIndex e, ce_data e)"

subsection \<open>Hash chains\<close>

record chain_hash_state =
  hs_current :: string
  hs_first :: string
  hs_last :: string

definition chain_hash_step ::
  "hasher \<Rightarrow> ('d event_body \<Rightarrow> string) \<Rightarrow> chain_hash_state \<Rightarrow> 'd chain_event \<Rightarrow> chain_hash_state" where
  "chain_hash_step H canonEvent st e =
     (let currentHash = sha256 H (hs_current st @ canonEvent (event_body e))
      in \<lparr>hs_current = currentHash,
          hs_first = (if hs_first st = [] then currentHash else hs_first st),
          hs_last = currentHash\<rparr>)"

definition chain_hash_loop ::
  "hasher \<Rightarrow> ('d event_body \<Rightarrow> string) \<Rightarrow> string \<Rightarrow> 'd chain_event list \<Rightarrow> chain_hash_state" where
  "chain_hash_loop H canonEvent chainId events =
     foldl (chain_hash_step H canonEvent)
       \<lparr>hs_current = sha256 H (''genesis:'' @ chainId), hs_first = [], hs_last = []\<rparr> events"

definition computeChainHashChain ::
  "hasher \<Rightarrow> ('d event_body \<Rightarrow> string) \<Rightarrow> string \<Rightarrow> 'd chain_event list \<Rightarrow> chain_replay_result" where
  "computeChainHashChain H canonEvent chainId events =
     (let st = chain_hash_loop H canonEvent chainId events
      in \<lparr>ch_chainId = chainId, ch_hashChain = hs_current st, ch_eventCount = length events,
          ch_firstEventHash = (if hs_first st = [] then hs_current st else hs_first st),
          ch_lastEventHash = (if hs_last st = [] then hs_current st else hs_last st)\<rparr>)"

definition combined_entry :: "chain_replay_result \<Rightarrow> string \<times> string \<times> nat" where
  "combined_entry r = (ch_chainId r, ch_hashChain r, ch_eventCount r)"

definition computeCombinedHash ::
  "hasher \<Rightarrow> ((string \<times> string \<times> nat) list \<Rightarrow> string) \<Rightarrow> (string \<Rightarrow> string) \<Rightarrow> chain_replay_result list \<Rightarrow> string" where
  "computeCombinedHash H canonCombined collate chainResults =
     sha256 H (canonCombined (map combined_entry (sort_key (\<lambda>r. collate (ch_chainId r)) chainResults)))"

subsection \<open>The audit\<close>

definition grouped_events :: "'d chain_event list \<Rightarrow> (string, 'd chain_event list) jsmap" where
  "grouped_events events =
     map (\<lambda>(chainId, es). (chainId, sort_key ce_sequenceIndex es)) (index_by (\<lambda>e. Some (ce_chainId e)) events)"

definition sequence_gaps :: "string \<times> 'd chain_event list \<Rightarrow> multichain_discrepancy list" where
  "sequence_gaps = (\<lambda>(chainId, es). concat (map (\<lambda>(prev, curr).
     let gap = ce_sequenceIndex curr - ce_sequenceIndex prev
     in if gap > 1 then [Sequence_gap chainId (ce_sequenceIndex prev) (ce_sequenceIndex curr) (gap - 1)]
        else []) (neighbours es)))"

definition absent_chains ::
  "(string \<Rightarrow> string) \<Rightarrow> (string, 'd chain_event list) jsmap \<Rightarrow> string list option \<Rightarrow> multichain_discrepancy list" where
  "absent_chains collate byChain expected =
     (case expected of
        None \<Rightarrow> []
      | Some ids \<Rightarrow>
          if length ids > 0
          then map Chain_absent (sort_key collate (filter (\<lambda>i.
            (case jm_get byChain i of None \<Rightarrow> 0 | Some es \<Rightarrow> length es) = 0) ids))
          else [])"

definition auditMultiChainReplay ::
  "hasher \<Rightarrow> ('d event_body \<Rightarrow> string) \<Rightarrow> ((string \<times> string \<times> nat) list \<Rightarrow> string) \<Rightarrow> (string \<Rightarrow> string) \<Rightarrow>
   'd chain_event list \<Rightarrow> multichain_options \<Rightarrow> string \<Rightarrow> multichain_result" where
  "auditMultiChainReplay H canonEvent canonCombined collate events options now =
     (let byChain = grouped_events events;
          gaps = (if mo_requireContiguousSequence options = Some True
                  then concat (map sequence_gaps byChain) else []);
          chainResults = map (\<lambda>(chainId, es). computeChainHashChain H canonEvent chainId es) byChain;
          combinedHash = computeCombinedHash H canonCombined collate chainResults;
          discrepancies = gaps @ absent_chains collate byChain (mo_expectedChainIds options)
            @ (case mo_expectedCombinedHash options of
                 None \<Rightarrow> []
               | Some expected \<Rightarrow>
                   if expected \<noteq> [] \<and> combinedHash \<noteq> expected
                   then [Combined_hash_mismatch expected combinedHash] else [])
      in \<lparr>mc_verdict = (if discrepancies = [] then PASS else FAIL), mc_combinedHash = combinedHash,
          mc_chains = chainResults, mc_auditedAt = now, mc_discrepancies = discrepancies,
          mc_chainCount = length chainResults, mc_eventCount = length events\<rparr>)"

subsection \<open>What a hash chain binds\<close>

lemma chain_hash_snoc:
  "chain_hash_loop H cE c (es @ [e]) = chain_hash_step H cE (chain_hash_loop H cE c es) e"
  by (simp add: chain_hash_loop_def)

abbreviation chain_head :: "hasher \<Rightarrow> ('d event_body \<Rightarrow> string) \<Rightarrow> string \<Rightarrow> 'd chain_event list \<Rightarrow> string" where
  "chain_head H cE c es \<equiv> hs_current (chain_hash_loop H cE c es)"

lemma chain_head_snoc:
  "chain_head H cE c (es @ [e]) = sha256 H (chain_head H cE c es @ cE (event_body e))"
  by (simp add: chain_hash_snoc chain_hash_step_def Let_def)

lemma chain_head_Nil: "chain_head H cE c [] = sha256 H (''genesis:'' @ c)"
  by (simp add: chain_hash_loop_def)

text \<open>The texts hashed for a chain.\<close>

definition chain_texts :: "hasher \<Rightarrow> ('d event_body \<Rightarrow> string) \<Rightarrow> string \<Rightarrow> 'd chain_event list \<Rightarrow> byte list list" where
  "chain_texts H cE c es =
     utf8 (''genesis:'' @ c)
     # map (\<lambda>i. utf8 (chain_head H cE c (take i es) @ cE (event_body (es ! i)))) [0..<length es]"

lemma chain_texts_snoc:
  "set (chain_texts H cE c (es @ [e])) =
     insert (utf8 (chain_head H cE c es @ cE (event_body e))) (set (chain_texts H cE c es))"
proof -
  have "map (\<lambda>i. utf8 (chain_head H cE c (take i (es @ [e])) @ cE (event_body ((es @ [e]) ! i)))) [0..<length es] =
      map (\<lambda>i. utf8 (chain_head H cE c (take i es) @ cE (event_body (es ! i)))) [0..<length es]"
    by (rule map_cong) (simp_all add: nth_append)
  then show ?thesis by (simp add: chain_texts_def del: map_eq_conv) auto
qed

lemma replayed_head_hex:
  assumes "\<And>bs. SHA256_HEX_RE (H bs)"
  shows "length (chain_head H cE c es) = 64" "set (chain_head H cE c es) \<subseteq> set hex_digits"
proof -
  have "SHA256_HEX_RE (chain_head H cE c es)"
    using assms by (cases es rule: rev_cases) (simp_all add: chain_head_Nil chain_head_snoc sha256_def)
  then show "length (chain_head H cE c es) = 64" "set (chain_head H cE c es) \<subseteq> set hex_digits"
    by (auto simp: SHA256_HEX_RE_def)
qed

lemma genesis_not_chained:
  assumes "\<And>bs. SHA256_HEX_RE (H bs)"
  shows "''genesis:'' @ c \<noteq> chain_head H cE d es @ t"
proof
  assume eq: "''genesis:'' @ c = chain_head H cE d es @ t"
  obtain x xs where h: "chain_head H cE d es = x # xs"
    using replayed_head_hex(1)[of H cE d es, OF assms] by (cases "chain_head H cE d es") auto
  then have "x \<in> set hex_digits" using replayed_head_hex(2)[of H cE d es, OF assms] by simp
  moreover have "x = CHR ''g''" using eq h by simp
  ultimately show False by (simp add: hex_digits_def)
qed

lemma chain_binds:
  assumes hex: "\<And>bs. SHA256_HEX_RE (H bs)" and "chain_head H cE c es = chain_head H cE c es'"
    and "\<not> collision H (chain_texts H cE c es) (chain_texts H cE c es')"
  shows "map (\<lambda>e. cE (event_body e)) es = map (\<lambda>e. cE (event_body e)) es'"
  using assms(2,3)
proof (induction es arbitrary: es' rule: rev_induct)
  case Nil
  show ?case
  proof (cases es' rule: rev_cases)
    case (snoc us u)
    let ?x = "''genesis:'' @ c" and ?y = "chain_head H cE c us @ cE (event_body u)"
    have "H (utf8 ?x) = H (utf8 ?y)"
      using Nil.prems(1) by (simp add: snoc chain_head_Nil chain_head_snoc sha256_def)
    moreover have "utf8 ?x \<noteq> utf8 ?y"
    proof
      assume "utf8 ?x = utf8 ?y"
      then have "?x = ?y" by (rule utf8_inj)
      then show False using genesis_not_chained[of H c cE c us "cE (event_body u)", OF hex] by simp
    qed
    moreover have "utf8 ?x \<in> set (chain_texts H cE c [])" by (simp add: chain_texts_def)
    moreover have "utf8 ?y \<in> set (chain_texts H cE c es')" unfolding snoc chain_texts_snoc by simp
    ultimately have "collision H (chain_texts H cE c []) (chain_texts H cE c es')" by (intro collisionI)
    then show ?thesis using Nil.prems(2) by simp
  qed simp
next
  case (snoc e es)
  let ?x = "chain_head H cE c es @ cE (event_body e)"
  have x: "utf8 ?x \<in> set (chain_texts H cE c (es @ [e]))" unfolding chain_texts_snoc by simp
  show ?case
  proof (cases es' rule: rev_cases)
    case Nil
    let ?y = "''genesis:'' @ c"
    have "H (utf8 ?x) = H (utf8 ?y)"
      using snoc.prems(1) by (simp add: Nil chain_head_Nil chain_head_snoc sha256_def)
    moreover have "utf8 ?x \<noteq> utf8 ?y"
    proof
      assume "utf8 ?x = utf8 ?y"
      then have "?y = ?x" by (rule utf8_inj[OF sym])
      then show False using genesis_not_chained[of H c cE c es "cE (event_body e)", OF hex] by simp
    qed
    moreover have "utf8 ?y \<in> set (chain_texts H cE c es')" by (simp add: chain_texts_def)
    ultimately have "collision H (chain_texts H cE c (es @ [e])) (chain_texts H cE c es')"
      using x by (intro collisionI)
    then show ?thesis using snoc.prems(2) by simp
  next
    case es': (snoc us u)
    let ?y = "chain_head H cE c us @ cE (event_body u)"
    have eq: "H (utf8 ?x) = H (utf8 ?y)"
      using snoc.prems(1) by (simp add: es' chain_head_snoc sha256_def)
    have y: "utf8 ?y \<in> set (chain_texts H cE c es')" unfolding es' chain_texts_snoc by simp
    have "?x = ?y"
    proof (rule ccontr)
      assume ne: "?x \<noteq> ?y"
      have "utf8 ?x \<noteq> utf8 ?y"
      proof
        assume "utf8 ?x = utf8 ?y"
        then have "?x = ?y" by (rule utf8_inj)
        with ne show False by contradiction
      qed
      with x y eq have "collision H (chain_texts H cE c (es @ [e])) (chain_texts H cE c es')"
        by (intro collisionI)
      then show False using snoc.prems(2) by contradiction
    qed
    moreover have "length (chain_head H cE c es) = length (chain_head H cE c us)"
      using replayed_head_hex(1)[of H cE c es, OF hex] replayed_head_hex(1)[of H cE c us, OF hex] by simp
    ultimately have same: "chain_head H cE c es = chain_head H cE c us" "cE (event_body e) = cE (event_body u)"
      by simp_all
    have "\<not> collision H (chain_texts H cE c es) (chain_texts H cE c us)"
    proof
      assume "collision H (chain_texts H cE c es) (chain_texts H cE c us)"
      then have "collision H (chain_texts H cE c (es @ [e])) (chain_texts H cE c es')"
        by (rule collision_mono) (auto simp: es' chain_texts_snoc)
      then show False using snoc.prems(2) by simp
    qed
    then show ?thesis using snoc.IH[OF same(1)] same(2) by (simp add: es')
  qed
qed


subsection \<open>What the combined hash binds\<close>

definition events_of_chain :: "string \<Rightarrow> 'd chain_event list \<Rightarrow> 'd chain_event list" where
  "events_of_chain c es = sort_key ce_sequenceIndex (filter (\<lambda>e. ce_chainId e = c) es)"

lemma sort_key_empty [simp]: "sort_key f xs = [] \<longleftrightarrow> xs = []"
  using length_sort[of f xs] by (metis length_0_conv)

lemma grouped_get:
  "(c, g) \<in> set (grouped_events es) \<longleftrightarrow> g = events_of_chain c es \<and> g \<noteq> []"
proof -
  have "(c, xs) \<in> set (index_by (\<lambda>e. Some (ce_chainId e)) es)
      \<longleftrightarrow> xs = filter (\<lambda>e. ce_chainId e = c) es \<and> xs \<noteq> []" for xs
    unfolding jm_get_in[OF index_by_wf, symmetric] by (auto simp: index_by_get Let_def)
  then show ?thesis by (force simp: grouped_events_def events_of_chain_def)
qed

definition chain_results :: "hasher \<Rightarrow> ('d event_body \<Rightarrow> string) \<Rightarrow> 'd chain_event list \<Rightarrow> chain_replay_result list" where
  "chain_results H cE es = map (\<lambda>(c, g). computeChainHashChain H cE c g) (grouped_events es)"

definition audit_texts ::
  "hasher \<Rightarrow> ('d event_body \<Rightarrow> string) \<Rightarrow> ((string \<times> string \<times> nat) list \<Rightarrow> string) \<Rightarrow> (string \<Rightarrow> string) \<Rightarrow>
   'd chain_event list \<Rightarrow> byte list list" where
  "audit_texts H cE cC collate es =
     utf8 (cC (map combined_entry (sort_key (\<lambda>r. collate (ch_chainId r)) (chain_results H cE es))))
     # concat (map (\<lambda>(c, g). chain_texts H cE c g) (grouped_events es))"

lemma audit_combined:
  "mc_combinedHash (auditMultiChainReplay H cE cC collate es options now) =
     computeCombinedHash H cC collate (chain_results H cE es)"
  by (simp add: auditMultiChainReplay_def Let_def chain_results_def)

lemma combined_entries:
  "set (map combined_entry (sort_key k (chain_results H cE es))) =
     {(c, chain_head H cE c g, length g) | c g. (c, g) \<in> set (grouped_events es)}"
  by (force simp: chain_results_def combined_entry_def computeChainHashChain_def Let_def)

lemma chain_same_body:
  assumes hex: "\<And>bs. SHA256_HEX_RE (H bs)"
    and eq: "{(c, chain_head H cE c g, length g) | c g. (c, g) \<in> set (grouped_events es)} =
      {(c, chain_head H cE c g, length g) | c g. (c, g) \<in> set (grouped_events es')}"
    and no: "\<not> collision H (audit_texts H cE cC collate es) (audit_texts H cE cC collate es')"
  shows "map (\<lambda>e. cE (event_body e)) (events_of_chain c es) = map (\<lambda>e. cE (event_body e)) (events_of_chain c es')"
proof (cases "events_of_chain c es = []")
  case True
  have "events_of_chain c es' = []"
  proof (rule ccontr)
    assume "events_of_chain c es' \<noteq> []"
    then have "(c, events_of_chain c es') \<in> set (grouped_events es')" by (simp add: grouped_get)
    then have "\<exists>g. (c, g) \<in> set (grouped_events es)" using eq by blast
    then show False using True by (auto simp: grouped_get)
  qed
  then show ?thesis using True by simp
next
  case False
  let ?g = "events_of_chain c es"
  have g: "(c, ?g) \<in> set (grouped_events es)" using False by (simp add: grouped_get)
  then have "\<exists>g'. (c, g') \<in> set (grouped_events es') \<and> chain_head H cE c ?g = chain_head H cE c g'"
    using eq by blast
  then obtain g' where g': "(c, g') \<in> set (grouped_events es')" "chain_head H cE c ?g = chain_head H cE c g'"
    by (elim exE conjE) (rule that)
  have own: "set (chain_texts H cE c h) \<subseteq> set (audit_texts H cE cC collate fs)"
    if "(c, h) \<in> set (grouped_events fs)" for h and fs :: "'a chain_event list"
    using that by (auto simp: audit_texts_def)
  have "\<not> collision H (chain_texts H cE c ?g) (chain_texts H cE c g')"
  proof
    assume "collision H (chain_texts H cE c ?g) (chain_texts H cE c g')"
    then have "collision H (audit_texts H cE cC collate es) (audit_texts H cE cC collate es')"
      by (rule collision_mono[OF _ own[OF g] own[OF g'(1)]])
    then show False using no by contradiction
  qed
  then have "map (\<lambda>e. cE (event_body e)) ?g = map (\<lambda>e. cE (event_body e)) g'"
    by (rule chain_binds[OF hex g'(2)])
  then show ?thesis using g'(1) by (simp add: grouped_get)
qed

text \<open>Two audits with the same combined hash replayed, for every chain, events with the same
  canonical JSON in the same order, unless the texts hashed by the two audits contain a collision.\<close>

theorem combined_hash_binds:
  assumes "mc_combinedHash (auditMultiChainReplay H canonEvent canonCombined collate es options now) =
      mc_combinedHash (auditMultiChainReplay H canonEvent canonCombined collate es' options' now')"
    and "\<And>bs. SHA256_HEX_RE (H bs)" and "inj canonCombined"
  shows "(\<forall>c. map (\<lambda>e. canonEvent (event_body e)) (events_of_chain c es) =
        map (\<lambda>e. canonEvent (event_body e)) (events_of_chain c es'))
    \<or> collision H (audit_texts H canonEvent canonCombined collate es)
        (audit_texts H canonEvent canonCombined collate es')"
proof (rule disjCI)
  assume no: "\<not> collision H (audit_texts H canonEvent canonCombined collate es)
      (audit_texts H canonEvent canonCombined collate es')"
  let ?t = "\<lambda>es. map combined_entry (sort_key (\<lambda>r. collate (ch_chainId r)) (chain_results H canonEvent es))"
  have "sha256 H (canonCombined (?t es)) = sha256 H (canonCombined (?t es'))"
    using assms(1) by (simp only: audit_combined computeCombinedHash_def)
  then have "canonCombined (?t es) = canonCombined (?t es')"
    by (rule same_text[OF _ _ _ no]) (simp_all add: audit_texts_def)
  then have "set (?t es) = set (?t es')" using assms(3) by (simp only: inj_eq)
  then show "\<forall>c. map (\<lambda>e. canonEvent (event_body e)) (events_of_chain c es) =
      map (\<lambda>e. canonEvent (event_body e)) (events_of_chain c es')"
    using chain_same_body[OF assms(2) _ no] unfolding combined_entries by blast
qed

definition framed_combined :: "(string \<times> string \<times> nat) list \<Rightarrow> string" where
  "framed_combined xs =
     framed_list (map fst xs) @ framed_list (map (fst \<circ> snd) xs) @ framed_list (map (\<lambda>x. replicate (snd (snd x)) CHR ''1'') xs)"

lemma framed_combined_inj: "inj framed_combined"
proof (rule injI)
  fix xs ys :: "(string \<times> string \<times> nat) list" assume eq: "framed_combined xs = framed_combined ys"
  have last: "framed_list us = framed_list vs \<Longrightarrow> us = vs" for us vs
    using framed_list_inj[of us "[]" vs "[]"] by simp
  have a: "map fst xs = map fst ys" "map (fst \<circ> snd) xs = map (fst \<circ> snd) ys"
    "map (\<lambda>x. replicate (snd (snd x)) CHR ''1'') xs = map (\<lambda>x. replicate (snd (snd x)) CHR ''1'') ys"
    using eq last unfolding framed_combined_def framed_list_inj by blast+
  have n: "map (\<lambda>x. snd (snd x)) xs = map (\<lambda>x. snd (snd x)) ys"
    using arg_cong[OF a(3), of "map length"] by (simp add: comp_def)
  have len: "length xs = length ys" using a(1) map_eq_imp_length_eq by blast
  show "xs = ys"
  proof (rule nth_equalityI[OF len])
    fix i assume i: "i < length xs"
    have "fst (xs ! i) = fst (ys ! i)" "fst (snd (xs ! i)) = fst (snd (ys ! i))" "snd (snd (xs ! i)) = snd (snd (ys ! i))"
      using arg_cong[OF a(1), of "\<lambda>zs. zs ! i"] arg_cong[OF a(2), of "\<lambda>zs. zs ! i"] arg_cong[OF n, of "\<lambda>zs. zs ! i"]
        i len by simp_all
    then show "xs ! i = ys ! i" by (simp add: prod_eq_iff)
  qed
qed

definition observed :: "string \<Rightarrow> string \<Rightarrow> int \<Rightarrow> string \<Rightarrow> string chain_event" where
  "observed c h n t =
     \<lparr>ce_chainId = c, ce_eventHash = h, ce_sequenceIndex = n, ce_timestamp = t, ce_data = []\<rparr>"

definition no_options :: multichain_options where
  "no_options = \<lparr>mo_expectedCombinedHash = None, mo_expectedChainIds = None, mo_requireContiguousSequence = None\<rparr>"

lemma collides_with: "(\<forall>c. P c) \<or> Q \<Longrightarrow> P c \<or> Q"
  by blast

theorem combined_hash_binds_witness:
  "\<exists>(es :: string chain_event list) es'. es \<noteq> es'
    \<and> mc_combinedHash (auditMultiChainReplay sample_hash (\<lambda>(c, h, n, d). h) framed_combined id es no_options ''t'') =
      mc_combinedHash (auditMultiChainReplay sample_hash (\<lambda>(c, h, n, d). h) framed_combined id es' no_options ''t'')
    \<and> (map ce_eventHash (events_of_chain ''x'' es) = map ce_eventHash (events_of_chain ''x'' es')
      \<or> collision sample_hash (audit_texts sample_hash (\<lambda>(c, h, n, d). h) framed_combined id es)
          (audit_texts sample_hash (\<lambda>(c, h, n, d). h) framed_combined id es'))"
proof -
  let ?es = "[observed ''x'' ''a'' 1 ''t'', observed ''x'' ''b'' 2 ''t'']"
  let ?fs = "[observed ''x'' ''b'' 2 ''t'', observed ''x'' ''a'' 1 ''t'']"
  have cb: "grouped_events ?es = [(''x'', ?es)]" "grouped_events ?fs = [(''x'', ?es)]" by code_simp+
  have eq: "mc_combinedHash (auditMultiChainReplay sample_hash (\<lambda>(c, h, n, d). h) framed_combined id ?es no_options ''t'') =
      mc_combinedHash (auditMultiChainReplay sample_hash (\<lambda>(c, h, n, d). h) framed_combined id ?fs no_options ''t'')"
    by (simp only: audit_combined chain_results_def cb)
  have body: "(\<lambda>e :: string chain_event. (\<lambda>(c, h, n, d). h) (event_body e)) = ce_eventHash"
    by (simp add: event_body_def)
  have ne: "?es \<noteq> ?fs" by (simp add: observed_def)
  show ?thesis
    by (rule exI[of _ ?es], rule exI[of _ ?fs], intro conjI)
      (rule ne, rule eq,
        rule collides_with[OF combined_hash_binds[OF eq sample_hash_hex framed_combined_inj], of "''x''", unfolded body])
qed

subsection \<open>What no hash binds\<close>

lemma jm_set_map: "jm_set (map (\<lambda>(k, v). (k, f v)) m) k (f v) = map (\<lambda>(k, v). (k, f v)) (jm_set m k v)"
  by (induction m) auto

lemma jm_get_map: "jm_get (map (\<lambda>(k, v). (k, f v)) m) k = map_option f (jm_get m k)"
  by (induction m) auto

lemma index_by_map:
  assumes "\<And>x. key (g x) = key x"
  shows "index_by key (map g xs) = map (\<lambda>(k, ys). (k, map g ys)) (index_by key xs)"
proof (induction xs rule: rev_induct)
  case (snoc x xs)
  show ?case
  proof (cases "key x")
    case None
    then show ?thesis using snoc by (simp add: index_by_snoc index_step_def assms)
  next
    case (Some k)
    let ?m = "index_by key xs"
    have "jm_set (map (\<lambda>(k, ys). (k, map g ys)) ?m) k (map g zs @ [g x]) =
        map (\<lambda>(k, ys). (k, map g ys)) (jm_set ?m k (zs @ [x]))" for zs
      using jm_set_map[where f = "map g" and m = ?m and k = k and v = "zs @ [x]"] by simp
    from this[of "[]"] this show ?thesis using snoc Some
      by (cases "jm_get ?m k") (simp_all add: index_by_snoc index_step_def assms jm_get_map)
  qed
qed (simp add: index_by_def)

definition restamped :: "('d chain_event \<Rightarrow> string) \<Rightarrow> 'd chain_event list \<Rightarrow> 'd chain_event list" where
  "restamped f es = map (\<lambda>e. e\<lparr>ce_timestamp := f e\<rparr>) es"

lemma restamped_groups:
  "grouped_events (restamped f es) = map (\<lambda>(c, g). (c, restamped f g)) (grouped_events es)"
  by (simp add: grouped_events_def restamped_def index_by_map sort_key_map split_beta comp_def)

lemma restamped_chain: "computeChainHashChain H cE c (restamped f es) = computeChainHashChain H cE c es"
proof -
  have "chain_hash_loop H cE c (restamped f es) = chain_hash_loop H cE c es"
  proof (induction es rule: rev_induct)
    case (snoc e es)
    then show ?case
      by (simp add: restamped_def chain_hash_snoc chain_hash_step_def Let_def event_body_def)
  qed (simp add: restamped_def)
  then show ?thesis by (simp add: computeChainHashChain_def restamped_def)
qed

text \<open>The timestamps of the events are bound by no hash: whatever they are changed to, the combined
  hash and the hash chains of the audit stay the same.\<close>

theorem timestamps_unbound:
  "mc_combinedHash (auditMultiChainReplay H canonEvent canonCombined collate (restamped f es) options now) =
      mc_combinedHash (auditMultiChainReplay H canonEvent canonCombined collate es options now)
    \<and> mc_chains (auditMultiChainReplay H canonEvent canonCombined collate (restamped f es) options now) =
      mc_chains (auditMultiChainReplay H canonEvent canonCombined collate es options now)"
proof -
  have "map (\<lambda>(c, g). computeChainHashChain H canonEvent c g) (grouped_events (restamped f es)) =
      map (\<lambda>(c, g). computeChainHashChain H canonEvent c g) (grouped_events es)"
    by (simp add: restamped_groups restamped_chain split_beta comp_def)
  then show ?thesis by (simp only: auditMultiChainReplay_def Let_def multichain_result.simps)
qed

end
