(* ===== verification/Serializer.thy ===== *)
theory Serializer
  imports Json
begin

section \<open>Serialization of registrar snapshots\<close>

text \<open>
  Model of \<^verbatim>\<open>packages/registrum/src/persistence/serializer.ts\<close>: the canonical object of a
  snapshot, its JSON text and the 32-bit checksum of the text. A snapshot here is the typed
  \<^verbatim>\<open>RegistrarSnapshotV1\<close> with the tables of lineage and indices as lists of own properties.
  The text is that of \<^verbatim>\<open>JSON.stringify\<close> in theory \<open>Json\<close>; the bitwise operators are written
  out with their conversions to 32 bits.
\<close>

unbundle bit_operations_syntax

subsection \<open>The canonical object\<close>

record registrar_snapshot =
  sn_version :: string
  sn_registry_hash :: string
  sn_mode :: string
  sn_state_ids :: "string list"
  sn_lineage :: "(string, string option) jsmap"
  sn_max_index :: int
  sn_assigned :: "(string, int) jsmap"

definition order_of :: "registrar_snapshot \<Rightarrow> string \<Rightarrow> int" where
  "order_of s i = (case jm_get (sn_assigned s) i of None \<Rightarrow> 0 | Some n \<Rightarrow> n)"

text \<open>The loops that copy a table with its keys sorted; \<^verbatim>\<open>__proto__\<close> makes no own property.\<close>

definition copied :: "(string \<Rightarrow> json) \<Rightarrow> string list \<Rightarrow> (string \<times> json) list" where
  "copied read keys =
     foldl (\<lambda>ps k. if k = ''__proto__'' then ps else jm_set ps k (read k)) [] (sort keys)"

definition lineage_value :: "registrar_snapshot \<Rightarrow> string \<Rightarrow> json" where
  "lineage_value s k =
     (case jm_get (sn_lineage s) k of Some (Some p) \<Rightarrow> Js_str p | _ \<Rightarrow> Js_null)"

definition assigned_value :: "registrar_snapshot \<Rightarrow> string \<Rightarrow> json" where
  "assigned_value s k = Js_num (case jm_get (sn_assigned s) k of None \<Rightarrow> 0 | Some n \<Rightarrow> n)"

definition buildCanonicalObject :: "registrar_snapshot \<Rightarrow> json" where
  "buildCanonicalObject s =
     (let stateIdsByOrder = sort_key (order_of s) (sn_state_ids s);
          lineage = copied (lineage_value s) (jm_keys (sn_lineage s));
          assigned = copied (assigned_value s) (jm_keys (sn_assigned s))
      in Js_obj
           [(''lineage'', Js_obj lineage), (''mode'', Js_str (sn_mode s)),
            (''ordering'', Js_obj [(''assigned'', Js_obj assigned), (''max_index'', Js_num (sn_max_index s))]),
            (''registry_hash'', Js_str (sn_registry_hash s)),
            (''state_ids'', Js_arr (map Js_str stateIdsByOrder)), (''version'', Js_str (sn_version s))])"

definition serializeSnapshot :: "registrar_snapshot \<Rightarrow> bool \<Rightarrow> string" where
  "serializeSnapshot s pretty = json_text (if pretty then 2 else 0) 0 (buildCanonicalObject s)"

definition deserializeSnapshot :: "string \<Rightarrow> json option" where
  "deserializeSnapshot text = JSON_parse text"

subsection \<open>The checksum\<close>

text \<open>The operators of JavaScript on numbers: operands are taken modulo \<open>2^32\<close> and the results of
  \<^verbatim>\<open><<\<close> and \<^verbatim>\<open>^\<close> are signed, that of \<^verbatim>\<open>>>>\<close> is not.\<close>

definition js_shl :: "int \<Rightarrow> nat \<Rightarrow> int" where
  "js_shl x k = sint (push_bit k (word_of_int x :: 32 word))"

definition js_xor :: "int \<Rightarrow> int \<Rightarrow> int" where
  "js_xor x y = sint ((word_of_int x :: 32 word) XOR word_of_int y)"

definition js_ushr :: "int \<Rightarrow> nat \<Rightarrow> int" where
  "js_ushr x k = uint (drop_bit k (word_of_int x :: 32 word))"

definition djb2_step :: "int \<Rightarrow> char \<Rightarrow> int" where
  "djb2_step hash c = js_ushr (js_xor (js_shl hash 5 + hash) (int (of_char c))) 0"

fun hex_str :: "nat \<Rightarrow> string" where
  "hex_str n = (if n < 16 then [hex_digit n] else hex_str (n div 16) @ [hex_digit (n mod 16)])"

declare hex_str.simps [simp del]

definition djb2Checksum :: "string \<Rightarrow> string" where
  "djb2Checksum str = padStart (hex_str (nat (foldl djb2_step 5381 str))) 8 CHR ''0''"

definition computeSnapshotChecksum32 :: "registrar_snapshot \<Rightarrow> string" where
  "computeSnapshotChecksum32 s = djb2Checksum (serializeSnapshot s False)"

definition computeSnapshotHash :: "registrar_snapshot \<Rightarrow> string" where
  "computeSnapshotHash s = computeSnapshotChecksum32 s"

subsection \<open>The checksum as arithmetic on words\<close>

text \<open>The reference: multiplication by 33 and exclusive or, on 32-bit words.\<close>

definition djb2_word :: "string \<Rightarrow> 32 word" where
  "djb2_word str = foldl (\<lambda>h c. (h * 33) XOR of_nat (of_char c)) 5381 str"

lemma djb2_step_word:
  assumes "h = uint (w :: 32 word)"
  shows "djb2_step h c = uint ((w * 33) XOR of_nat (of_char c))"
proof -
  have "push_bit 5 w = w * 32" by (simp add: push_bit_eq_mult mult.commute)
  then have "(word_of_int (sint (push_bit 5 w) + uint w) :: 32 word) = w * 33"
    by (simp flip: wi_hom_add)
  then show ?thesis
    by (simp add: djb2_step_def js_ushr_def js_xor_def js_shl_def assms mult.commute)
qed

lemma djb2_words: "foldl djb2_step (uint w) str = uint (foldl (\<lambda>h c. (h * 33) XOR of_nat (of_char c)) (w :: 32 word) str)"
  by (induction str arbitrary: w) (simp_all add: djb2_step_word)

lemma hex_digit_in: "n < 16 \<Longrightarrow> hex_digit n \<in> set hex_digits"
  unfolding hex_digit_def by (rule nth_mem) (simp add: hex_digits_def)

lemma hex_str_digits: "set (hex_str n) \<subseteq> set hex_digits"
proof (induction n rule: hex_str.induct)
  case (1 n)
  then show ?case using hex_digit_in[of n] hex_digit_in[of "n mod 16"] by (subst hex_str.simps) auto
qed

lemma hex_str_length: "n < 16 ^ Suc k \<Longrightarrow> length (hex_str n) \<le> Suc k"
proof (induction k arbitrary: n)
  case (Suc k)
  have "n div 16 < 16 ^ Suc k" using Suc.prems by (simp add: div_less_iff_less_mult)
  then show ?case using Suc.IH[of "n div 16"] by (subst hex_str.simps) simp
qed (subst hex_str.simps, simp)

lemma checksum_value: "foldl djb2_step 5381 str = uint (djb2_word str)"
  using djb2_words[of 5381 str] by (simp add: djb2_word_def)

text \<open>C39: The checksum is the djb2 hash with multiplication and exclusive or modulo \<open>2^32\<close>, although the
  code computes with doubles and signed 32-bit operators, and its text is always eight lower-case hexadecimal
  digits.\<close>

theorem checksum_is_djb2:
  "djb2Checksum str = padStart (hex_str (unat (djb2_word str))) 8 CHR ''0''
    \<and> length (djb2Checksum str) = 8 \<and> set (djb2Checksum str) \<subseteq> set hex_digits"
proof -
  have eq: "djb2Checksum str = padStart (hex_str (unat (djb2_word str))) 8 CHR ''0''"
    unfolding djb2Checksum_def checksum_value unat_eq_nat_uint ..
  have "unat (djb2_word str) < 16 ^ Suc 7" using unsigned_less[of "djb2_word str"] by simp
  then have "length (hex_str (unat (djb2_word str))) \<le> Suc 7" by (rule hex_str_length)
  moreover have "CHR ''0'' \<in> set hex_digits" by (simp add: hex_digits_def)
  ultimately show ?thesis
    using hex_str_digits[of "unat (djb2_word str)"] unfolding eq by (auto simp: padStart_def set_replicate_conv_if)
qed

subsection \<open>Equal snapshots have equal texts\<close>

text \<open>Snapshots that differ only in the order of the ids and of the properties of the two tables.\<close>

definition same_snapshot :: "registrar_snapshot \<Rightarrow> registrar_snapshot \<Rightarrow> bool" where
  "same_snapshot s t \<longleftrightarrow>
     sn_version s = sn_version t \<and> sn_registry_hash s = sn_registry_hash t \<and> sn_mode s = sn_mode t
     \<and> sn_max_index s = sn_max_index t \<and> mset (sn_state_ids s) = mset (sn_state_ids t)
     \<and> mset (sn_lineage s) = mset (sn_lineage t) \<and> mset (sn_assigned s) = mset (sn_assigned t)"

definition indices_distinct :: "registrar_snapshot \<Rightarrow> bool" where
  "indices_distinct s \<longleftrightarrow>
     jm_wf (sn_lineage s) \<and> jm_wf (sn_assigned s) \<and> inj_on (order_of s) (set (sn_state_ids s))"

lemma same_table:
  assumes "jm_wf m" "mset m = mset n"
  shows "jm_get m = jm_get n" "sort (jm_keys m) = sort (jm_keys n)"
proof -
  have "mset (jm_keys m) = mset (jm_keys n)" using assms(2) by (simp only: mset_map)
  then show keys: "sort (jm_keys m) = sort (jm_keys n)"
    by (metis properties_for_sort mset_sort sorted_sort)
  have "distinct (jm_keys n)"
    using assms mset_eq_imp_distinct_iff[OF \<open>mset (jm_keys m) = mset (jm_keys n)\<close>] by (simp add: jm_wf_def)
  moreover have "set m = set n" using assms(2) by (rule mset_eq_setD)
  ultimately show "jm_get m = jm_get n" using assms(1) by (simp add: jm_wf_def map_of_inject_set)
qed

lemma sort_key_unique:
  assumes "mset xs = mset ys" "inj_on f (set xs)"
  shows "sort_key f xs = sort_key f ys"
proof (rule sort_key_eq_sort_key)
qed (use assms in simp_all)

text \<open>The serialized text and the checksum of a snapshot do not depend on the order in which its tables
  and its ids were filled.\<close>

theorem serialization_canonical:
  assumes "same_snapshot s t" "indices_distinct s"
  shows "serializeSnapshot s pretty = serializeSnapshot t pretty
    \<and> computeSnapshotChecksum32 s = computeSnapshotChecksum32 t"
proof -
  have tables: "mset (sn_lineage s) = mset (sn_lineage t)" "mset (sn_assigned s) = mset (sn_assigned t)"
    and wf: "jm_wf (sn_lineage s)" "jm_wf (sn_assigned s)"
    using assms by (simp_all add: same_snapshot_def indices_distinct_def)
  note lineage = same_table[OF wf(1) tables(1)] and assigned = same_table[OF wf(2) tables(2)]
  have "order_of s = order_of t" by (intro ext) (simp only: order_of_def assigned(1))
  moreover have "sort_key (order_of s) (sn_state_ids s) = sort_key (order_of s) (sn_state_ids t)"
    using assms by (intro sort_key_unique) (simp_all add: same_snapshot_def indices_distinct_def)
  moreover have "lineage_value s = lineage_value t" by (intro ext) (simp only: lineage_value_def lineage(1))
  moreover have "assigned_value s = assigned_value t" by (intro ext) (simp only: assigned_value_def assigned(1))
  ultimately have "buildCanonicalObject s = buildCanonicalObject t"
    using assms(1) unfolding buildCanonicalObject_def copied_def same_snapshot_def Let_def
    by (simp only: lineage(2) assigned(2))
  then show ?thesis by (simp add: serializeSnapshot_def computeSnapshotChecksum32_def)
qed

definition two_states :: "bool \<Rightarrow> registrar_snapshot" where
  "two_states swapped =
     \<lparr>sn_version = ''1.0'', sn_registry_hash = ''legacy:x'', sn_mode = ''legacy'',
          sn_state_ids = (if swapped then [''2'', ''a''] else [''a'', ''2'']),
          sn_lineage = (if swapped then [(''2'', None), (''a'', None)] else [(''a'', None), (''2'', None)]),
          sn_max_index = 1,
          sn_assigned = (if swapped then [(''2'', 1), (''a'', 0)] else [(''a'', 0), (''2'', 1)])\<rparr>"

theorem serialization_canonical_witness:
  "computeSnapshotChecksum32 (two_states False) = computeSnapshotChecksum32 (two_states True)"
proof -
  have "same_snapshot (two_states False) (two_states True)" "indices_distinct (two_states False)"
    by (simp_all add: same_snapshot_def indices_distinct_def two_states_def jm_wf_def order_of_def)
  from serialization_canonical[OF this] show ?thesis by blast
qed

subsection \<open>Reading a text back\<close>

lemma copied_distinct: "distinct (map fst (copied read keys))"
proof -
  have "distinct (map fst ps) \<Longrightarrow>
      distinct (map fst (foldl (\<lambda>ps k. if k = ''__proto__'' then ps else jm_set ps k (read k)) ps ks))" for ps ks
    by (induction ks arbitrary: ps) (simp_all add: AList.distinct_update)
  from this[of "[]"] show ?thesis by (simp add: copied_def)
qed

lemma copied_values: "(k, v) \<in> set (copied read keys) \<Longrightarrow> \<exists>x. v = read x"
proof -
  have "(\<forall>(k, v) \<in> set ps. \<exists>x. v = read x) \<Longrightarrow>
      (\<forall>(k, v) \<in> set (foldl (\<lambda>ps k. if k = ''__proto__'' then ps else jm_set ps k (read k)) ps ks). \<exists>x. v = read x)" for ps ks
  proof (induction ks arbitrary: ps)
    case (Cons x ks)
    have "\<forall>(k, v) \<in> set (jm_set ps x (read x)). \<exists>x. v = read x"
      using Cons.prems update_Some_unfold by (induction ps) auto
    then show ?case using Cons by simp
  qed simp
  from this[of "[]"] show "(k, v) \<in> set (copied read keys) \<Longrightarrow> \<exists>x. v = read x" by (fastforce simp: copied_def)
qed

lemma canonical_object_named: "json_named (buildCanonicalObject s)"
proof -
  have "json_named (lineage_value s k)" "json_named (assigned_value s k)" for k
    by (simp_all add: lineage_value_def assigned_value_def split: option.split)
  then show ?thesis
    by (auto simp: buildCanonicalObject_def Let_def copied_distinct dest: copied_values)
qed

text \<open>Deserializing a serialized snapshot gives its canonical object, with its tables in the order in which
  JavaScript lists properties, whatever the snapshot and the layout.\<close>

theorem snapshot_text_round_trip:
  "deserializeSnapshot (serializeSnapshot s pretty) = Some (json_listed (buildCanonicalObject s))"
  by (simp only: deserializeSnapshot_def serializeSnapshot_def json_parse_listed[OF canonical_object_named])

end
