(* ===== verification/RegistryDriven.thy ===== *)
theory RegistryDriven
  imports Registrar
begin

section \<open>The registry-driven registrar\<close>

text \<open>
  Model of \<^verbatim>\<open>packages/registrum/src/registry/registry-driven-registrar.ts\<close>, the second
  implementation of the registrar's interface, driven by a compiled registry alone. Its methods are
  translated as they are written there (one loop over the invariants that collects violations), and
  \<open>as_structural\<close> maps its state to a structural registrar in registry mode; the refinement says that the
  two implementations agree. Telemetry is left out.
\<close>

record driven_registrar =
  dr_versionsByKey :: "(string, registered_state) jsmap"
  dr_latestById :: "(string, registered_state) jsmap"
  dr_currentOrderIndex :: int
  dr_invariantRegistry :: compiled_registry

definition new_driven_registrar :: "compiled_registry \<Rightarrow> driven_registrar" where
  "new_driven_registrar c =
     \<lparr>dr_versionsByKey = [], dr_latestById = [], dr_currentOrderIndex = 0, dr_invariantRegistry = c\<rparr>"

subsection \<open>Contexts\<close>

definition driven_contains :: "driven_registrar \<Rightarrow> string option \<Rightarrow> bool" where
  "driven_contains d i = (case i of None \<Rightarrow> False | Some s \<Rightarrow> jm_has (dr_latestById d) s)"

definition driven_context ::
  "driven_registrar \<Rightarrow> reg_state \<Rightarrow> string option \<Rightarrow> int option \<Rightarrow> eval_context" where
  "driven_context d s from_id index =
     \<lparr>cx_state_id = st_id s, cx_state_structure = st_structure s,
      cx_from = from_id, cx_to_id = st_id s, cx_to_structure = st_structure s,
      cx_contains_state = driven_contains d,
      cx_max_order_index = dr_currentOrderIndex d - 1,
      cx_compute_order_index = (\<lambda>_. dr_currentOrderIndex d),
      cx_ordering = index\<rparr>"

definition driven_evaluation_context :: "driven_registrar \<Rightarrow> transition \<Rightarrow> eval_context" where
  "driven_evaluation_context d t = driven_context d (tr_to t) (tr_from t) (Some (dr_currentOrderIndex d))"

definition buildStateValidationContext :: "driven_registrar \<Rightarrow> reg_state \<Rightarrow> eval_context" where
  "buildStateValidationContext d s = driven_context d s None None"

definition buildTransitionValidationContext :: "driven_registrar \<Rightarrow> transition \<Rightarrow> eval_context" where
  "buildTransitionValidationContext d t = driven_context d (tr_to t) (tr_from t) None"

subsection \<open>Registration\<close>

definition driven_operands :: "driven_registrar \<Rightarrow> transition \<Rightarrow> violation_operands" where
  "driven_operands d t =
     \<lparr>vo_from = Some (tr_from t), vo_toId = Some (st_id (tr_to t)),
      vo_isRoot = Some (isRootState (tr_to t)),
      vo_parentRegistered = Some (driven_contains d (tr_from t)),
      vo_idAlreadyRegistered = Some (jm_has (dr_latestById d) (st_id (tr_to t))),
      vo_orderIndex = Some (dr_currentOrderIndex d)\<rparr>"

definition invariantApplies :: "compiled_invariant \<Rightarrow> transition \<Rightarrow> bool" where
  "invariantApplies i t \<longleftrightarrow> True"

type_synonym driven_checks = "invariant_violation list \<times> string list \<times> bool"

definition driven_step ::
  "driven_registrar \<Rightarrow> transition \<Rightarrow> driven_checks \<Rightarrow> compiled_invariant \<Rightarrow> registrum_error + driven_checks" where
  "driven_step d t = (\<lambda>(violations, applied, halt) i.
     let applied' = applied @ [ci_id i]
     in if \<not> invariantApplies i t then Inr (violations, applied', halt)
        else bind_r (evaluatePredicate (ci_ast i) (driven_evaluation_context d t)) (\<lambda>passed.
          if passed then Inr (violations, applied', halt)
          else case enrichViolation (ci_id i) (ci_description i) (driven_operands d t) of
            (message, details) \<Rightarrow>
              Inr (violations @
                     [\<lparr>iv_invariantId = ci_id i,
                       iv_classification = (if ci_failure_mode i = M_halt then C_HALT else C_REJECT),
                       iv_message = message, iv_details = details\<rparr>],
                   applied', halt \<or> ci_failure_mode i = M_halt)))"

definition driven_append ::
  "driven_registrar \<Rightarrow> transition \<Rightarrow> string list \<Rightarrow> (registrum_error + registration_result) \<times> driven_registrar" where
  "driven_append d t applied =
     (let orderIndex = dr_currentOrderIndex d;
          d1 = d\<lparr>dr_currentOrderIndex := orderIndex + 1\<rparr>;
          i = st_id (tr_to t);
          versionKey = makeVersionKey i orderIndex;
          parentKey = (case tr_from t of
              None \<Rightarrow> None
            | Some p \<Rightarrow> (case jm_get (dr_latestById d1) p of
                None \<Rightarrow> None | Some parentFrontier \<Rightarrow> Some (rs_versionKey parentFrontier)));
          registeredState = \<lparr>rs_id = i, rs_parentId = tr_from t, rs_orderIndex = orderIndex,
            rs_versionKey = versionKey, rs_parentKey = parentKey\<rparr> in
      if jm_has (dr_versionsByKey d1) versionKey then (Inl AppendOnlyViolationError, d1)
      else (Inr (Accepted i orderIndex applied),
            d1\<lparr>dr_versionsByKey := jm_set (dr_versionsByKey d1) versionKey registeredState,
               dr_latestById := jm_set (dr_latestById d1) i registeredState\<rparr>))"

definition driven_register ::
  "driven_registrar \<Rightarrow> transition \<Rightarrow> (registrum_error + registration_result) \<times> driven_registrar" where
  "driven_register d t =
     (case foldE (driven_step d t) ([], [], False) (cr_invariants (dr_invariantRegistry d)) of
        Inl e \<Rightarrow> (Inl e, d)
      | Inr (violations, applied, shouldHalt) \<Rightarrow>
          if length violations > 0
          then (Inr (Rejected (if shouldHalt
                  then map (\<lambda>v. if iv_classification v = C_HALT
                              then v\<lparr>iv_message := ''[HALT] '' @ iv_message v\<rparr> else v) violations
                  else violations)), d)
          else driven_append d t applied)"

subsection \<open>Validation and inspection\<close>

definition driven_violation :: "compiled_invariant \<Rightarrow> invariant_violation" where
  "driven_violation i =
     \<lparr>iv_invariantId = ci_id i,
      iv_classification = (if ci_failure_mode i = M_halt then C_HALT else C_REJECT),
      iv_message = ''Invariant violation: '' @ ci_description i, iv_details = None\<rparr>"

definition validation_step ::
  "eval_context \<Rightarrow> (inv_scope \<Rightarrow> bool) \<Rightarrow> invariant_violation list \<Rightarrow> compiled_invariant \<Rightarrow>
   registrum_error + invariant_violation list" where
  "validation_step cx considered violations i =
     (if \<not> considered (ci_scope i) then Inr violations
      else bind_r (evaluatePredicate (ci_ast i) cx) (\<lambda>passed.
        Inr (if passed then violations else violations @ [driven_violation i])))"

definition driven_validate :: "driven_registrar \<Rightarrow> validation_target \<Rightarrow> registrum_error + validation_report" where
  "driven_validate d x =
     bind_r
       (case x of
          Target_state s \<Rightarrow>
            foldE (validation_step (buildStateValidationContext d s) (\<lambda>c. c = S_state)) []
              (cr_invariants (dr_invariantRegistry d))
        | Target_transition t \<Rightarrow>
            foldE (validation_step (buildTransitionValidationContext d t) (\<lambda>c. \<not> (c \<noteq> S_state \<and> c \<noteq> S_transition))) []
              (cr_invariants (dr_invariantRegistry d)))
       (\<lambda>violations. Inr \<lparr>vr_valid = (length violations = 0), vr_violations = violations\<rparr>)"

definition driven_listInvariants :: "driven_registrar \<Rightarrow> inv_scope option \<Rightarrow> invariant_descriptor list" where
  "driven_listInvariants d scp =
     (let invariants = cr_invariants (dr_invariantRegistry d);
          filtered = (case scp of None \<Rightarrow> invariants | Some s \<Rightarrow> filter (\<lambda>i. ci_scope i = s) invariants)
      in map (\<lambda>i. \<lparr>id_id = ci_id i, id_scope = ci_scope i, id_appliesTo = ci_applies_to i,
                   id_failureMode = ci_failure_mode i, id_description = ci_description i\<rparr>) filtered)"

definition driven_getLineage :: "driven_registrar \<Rightarrow> string \<Rightarrow> string list" where
  "driven_getLineage d stateId =
     (case jm_get (dr_latestById d) stateId of
        None \<Rightarrow> [] | Some current \<Rightarrow> lineage_walk (dr_versionsByKey d) {} current)"

definition driven_getRegisteredCount :: "driven_registrar \<Rightarrow> nat" where
  "driven_getRegisteredCount d = length (dr_latestById d)"

definition driven_getVersionCount :: "driven_registrar \<Rightarrow> nat" where
  "driven_getVersionCount d = length (dr_versionsByKey d)"

definition driven_isRegistered :: "driven_registrar \<Rightarrow> string \<Rightarrow> bool" where
  "driven_isRegistered d stateId = jm_has (dr_latestById d) stateId"

definition driven_getCurrentOrderIndex :: "driven_registrar \<Rightarrow> int" where
  "driven_getCurrentOrderIndex d = dr_currentOrderIndex d"

subsection \<open>Refinement of the structural registrar\<close>

definition as_structural :: "driven_registrar \<Rightarrow> registrar" where
  "as_structural d =
     \<lparr>rr_versionsByKey = dr_versionsByKey d, rr_latestById = dr_latestById d,
      rr_currentOrderIndex = dr_currentOrderIndex d, rr_mode = RM_registry,
      rr_invariants = INITIAL_INVARIANTS, rr_compiledRegistry = Some (dr_invariantRegistry d),
      rr_lastParityStatus = None\<rparr>"

lemma driven_context_structural:
  "driven_evaluation_context d t = buildEvaluationContext (as_structural d) t"
  "driven_operands d t = registrationOperands (as_structural d) t"
  by (simp_all add: driven_evaluation_context_def driven_context_def buildEvaluationContext_def
      driven_operands_def registrationOperands_def as_structural_def driven_contains_def fun_eq_iff
      split: option.split)

lemma driven_loop:
  "foldE (driven_step d t) (vs, as, h) cs =
     bind_r (judge_rules (driven_evaluation_context d t) cs) (\<lambda>js.
       Inr (vs @ violations_of (driven_operands d t) js, as @ map jd_id js, h \<or> should_halt js))"
proof (induction cs arbitrary: vs as h)
  case Nil
  show ?case by (simp add: violations_of_def should_halt_def)
next
  case (Cons c cs)
  show ?case
  proof (cases "evaluatePredicate (ci_ast c) (driven_evaluation_context d t)")
    case (Inl e)
    then show ?thesis by (simp add: driven_step_def invariantApplies_def Let_def)
  next
    case (Inr b)
    show ?thesis
    proof (cases "judge_rules (driven_evaluation_context d t) cs")
      case Inl': (Inl e)
      then show ?thesis using Inr Cons.IH
        by (cases b) (simp_all add: driven_step_def invariantApplies_def Let_def split: prod.split)
    next
      case Inr': (Inr js)
      then show ?thesis using Inr Cons.IH
        by (cases b) (auto simp: driven_step_def invariantApplies_def Let_def violations_of_def should_halt_def
          makeViolation_def classification_of_def split: prod.split)
    qed
  qed
qed

lemma driven_append_structural:
  "acceptTransition (as_structural d) t as =
     (fst (driven_append d t as), as_structural (snd (driven_append d t as)))"
  by (simp add: acceptTransition_def driven_append_def as_structural_def Let_def cong: option.case_cong)

lemma judged:
  assumes "judge_rules (driven_evaluation_context d t) (cr_invariants (dr_invariantRegistry d)) = res"
  shows "evaluateRegistryRegistration (as_structural d) t =
    bind_r res (\<lambda>js. Inr (buildRegistrationOutcome (as_structural d) t js))"
proof -
  have "registry_rules (as_structural d) = Inr (cr_invariants (dr_invariantRegistry d))"
    by (simp add: registry_rules_def as_structural_def)
  then show ?thesis
    using assms by (simp add: evaluateRegistryRegistration_def judge_registry_def driven_context_structural)
qed

lemma driven_register_structural:
  "registerWithRegistry (as_structural d) t =
     (fst (driven_register d t), as_structural (snd (driven_register d t)))"
proof (cases "judge_rules (driven_evaluation_context d t) (cr_invariants (dr_invariantRegistry d))")
  case (Inl e)
  then show ?thesis
    using judged[OF Inl] by (simp add: registerWithRegistry_def driven_register_def driven_loop)
next
  case (Inr js)
  let ?vs = "violations_of (driven_operands d t) js"
  have "driven_register d t =
      (if length ?vs > 0 then (Inr (Rejected (if should_halt js then mark_halts ?vs else ?vs)), d)
       else driven_append d t (map jd_id js))"
    by (simp add: driven_register_def driven_loop Inr mark_halts_def)
  moreover have "registerWithRegistry (as_structural d) t =
      (if ?vs \<noteq> [] then (Inr (Rejected (if should_halt js then mark_halts ?vs else ?vs)), as_structural d)
       else acceptTransition (as_structural d) t (map jd_id js))"
    using judged[OF Inr]
    by (simp add: registerWithRegistry_def buildRegistrationOutcome_def driven_context_structural(2) Let_def
        finish_registration_def)
  ultimately show ?thesis using driven_append_structural[of d t "map jd_id js"] by simp
qed

lemma driven_validation_loop:
  "foldE (validation_step cx considered) vs cs =
     bind_r (judge_rules cx (filter (\<lambda>c. considered (ci_scope c)) cs)) (\<lambda>js.
       Inr (vs @ map (\<lambda>j. \<lparr>iv_invariantId = jd_id j, iv_classification = classification_of (jd_failureMode j),
           iv_message = ''Invariant violation: '' @ jd_description j, iv_details = None\<rparr>)
         (filter (\<lambda>j. \<not> jd_passed j) js)))"
proof (induction cs arbitrary: vs)
  case (Cons c cs)
  show ?case
  proof (cases "considered (ci_scope c)")
    case False
    then show ?thesis using Cons.IH by (simp add: validation_step_def)
  next
    case True
    show ?thesis
    proof (cases "evaluatePredicate (ci_ast c) cx")
      case (Inl e)
      then show ?thesis using True by (simp add: validation_step_def)
    next
      case (Inr b)
      then show ?thesis using True Cons.IH
        by (cases "judge_rules cx (filter (\<lambda>c. considered (ci_scope c)) cs)"; cases b)
          (simp_all add: validation_step_def driven_violation_def classification_of_def)
    qed
  qed
qed simp

lemma driven_validate_structural:
  "map_sum id (\<lambda>rep. (vr_valid rep, map (\<lambda>v. (iv_invariantId v, iv_classification v)) (vr_violations rep)))
     (driven_validate d x) =
   map_sum id (\<lambda>rep. (vr_valid rep, map (\<lambda>v. (iv_invariantId v, iv_classification v)) (vr_violations rep)))
     (validateWithRegistry (as_structural d) x)"
proof -
  have rules: "registry_rules (as_structural d) = Inr (cr_invariants (dr_invariantRegistry d))"
    by (simp add: registry_rules_def as_structural_def)
  have contains: "driven_contains d = (\<lambda>i. case i of None \<Rightarrow> False | Some k \<Rightarrow> jm_has (dr_latestById d) k)"
    by (simp add: driven_contains_def fun_eq_iff)
  let ?js = "judge_rules (validation_context (as_structural d) x)
      (filter (\<lambda>c. applicable x (ci_scope c)) (cr_invariants (dr_invariantRegistry d)))"
  have "driven_validate d x = bind_r ?js (\<lambda>js.
      let vs = map (\<lambda>j. \<lparr>iv_invariantId = jd_id j, iv_classification = classification_of (jd_failureMode j),
           iv_message = ''Invariant violation: '' @ jd_description j, iv_details = None\<rparr>)
         (filter (\<lambda>j. \<not> jd_passed j) js)
      in Inr \<lparr>vr_valid = (vs = []), vr_violations = vs\<rparr>)"
    by (cases x)
      (simp_all add: driven_validate_def driven_validation_loop bind_r_assoc applicable_def validation_context_def
        buildStateValidationContext_def buildTransitionValidationContext_def driven_context_def target_state_def
        contains as_structural_def Let_def)
  moreover have "validateWithRegistry (as_structural d) x = bind_r ?js (\<lambda>js. Inr (report_of x js))"
    by (simp add: validateWithRegistry_def rules)
  ultimately show ?thesis
    by (cases ?js) (simp_all add: report_of_def violations_of_def Let_def comp_def)
qed

definition violated :: "registrum_error + validation_report \<Rightarrow> registrum_error + bool \<times> (string \<times> classification) list" where
  "violated r =
     map_sum id (\<lambda>rep. (vr_valid rep, map (\<lambda>v. (iv_invariantId v, iv_classification v)) (vr_violations rep))) r"

text \<open>The violations of \<^verbatim>\<open>validate\<close> carry the plain description here, where the structural registrar
  enriches messages and adds details.\<close>

definition plain_violation :: "driven_registrar \<Rightarrow> invariant_violation \<Rightarrow> bool" where
  "plain_violation d v \<longleftrightarrow> iv_details v = None \<and>
     list_ex (\<lambda>c. ci_id c = iv_invariantId v \<and> iv_message v = ''Invariant violation: '' @ ci_description c)
       (cr_invariants (dr_invariantRegistry d))"

lemma validation_step_plain:
  assumes "foldE (validation_step cx considered) vs cs = Inr ws" "list_all (plain_violation d) vs"
    and "set cs \<subseteq> set (cr_invariants (dr_invariantRegistry d))"
  shows "list_all (plain_violation d) ws"
  using assms
proof (induction cs arbitrary: vs)
  case (Cons c cs)
  then obtain us where us: "validation_step cx considered vs c = Inr us" "foldE (validation_step cx considered) us cs = Inr ws"
    by (auto simp: bind_r_eq_Inr)
  have "plain_violation d (driven_violation c)"
    using Cons.prems(3) by (auto simp: plain_violation_def driven_violation_def list_ex_iff intro: bexI[of _ c])
  then have "list_all (plain_violation d) us"
    using us(1) Cons.prems(2) by (auto simp: validation_step_def bind_r_eq_Inr split: if_splits)
  then show ?case using Cons.IH[OF us(2)] Cons.prems(3) by simp
qed simp

lemma driven_validate_plain:
  "case driven_validate d x of Inl e \<Rightarrow> True | Inr rep \<Rightarrow> list_all (plain_violation d) (vr_violations rep)"
proof (cases "driven_validate d x")
  case (Inr rep)
  then have "list_all (plain_violation d) (vr_violations rep)"
    using validation_step_plain[where vs = "[]" and d = d, OF _ _ subset_refl]
    by (cases x) (auto simp: driven_validate_def bind_r_eq_Inr)
  then show ?thesis using Inr by simp
qed simp

text \<open>C37: The registry-driven registrar refines the structural registrar in registry mode: registering gives
  the same result and corresponding states; validation throws the same error or reports the same validity and, in the same
  order, violations of the same invariants with the same classifications - their messages and details differ:
  here the message is the plain description and there are no details; and lineages, the list of invariants, registered
  states, the next order index and the counts of states and versions are the same.\<close>

theorem driven_refines_structural:
  "register (as_structural d) t = (fst (driven_register d t), as_structural (snd (driven_register d t)))
    \<and> violated (fst (validate_target (as_structural d) x)) = violated (driven_validate d x)
    \<and> (case driven_validate d x of Inl e \<Rightarrow> True | Inr rep \<Rightarrow> list_all (plain_violation d) (vr_violations rep))
    \<and> getLineage (as_structural d) i = driven_getLineage d i
    \<and> listInvariants (as_structural d) scp = Inr (driven_listInvariants d scp)
    \<and> isRegistered (as_structural d) i = driven_isRegistered d i
    \<and> rr_currentOrderIndex (as_structural d) = driven_getCurrentOrderIndex d
    \<and> getRegisteredCount (as_structural d) = driven_getRegisteredCount d
    \<and> getVersionCount (as_structural d) = driven_getVersionCount d"
proof -
  have "register (as_structural d) t = registerWithRegistry (as_structural d) t"
    "fst (validate_target (as_structural d) x) = validateWithRegistry (as_structural d) x"
    by (simp_all add: register_def validate_target_def as_structural_def)
  moreover have "getLineage (as_structural d) i = driven_getLineage d i"
    by (simp add: getLineage_def driven_getLineage_def as_structural_def cong: option.case_cong)
  moreover have "listInvariants (as_structural d) scp = Inr (driven_listInvariants d scp)"
    by (cases scp) (simp_all add: listInvariants_def driven_listInvariants_def registry_rules_def as_structural_def
        scope_filter_def)
  moreover have "isRegistered (as_structural d) i = driven_isRegistered d i"
    "getVersionCount (as_structural d) = driven_getVersionCount d"
    "getRegisteredCount (as_structural d) = driven_getRegisteredCount d"
    "rr_currentOrderIndex (as_structural d) = driven_getCurrentOrderIndex d"
    by (simp_all add: isRegistered_def getRegisteredCount_def driven_getRegisteredCount_def driven_getCurrentOrderIndex_def driven_isRegistered_def getVersionCount_def driven_getVersionCount_def
        as_structural_def)
  ultimately show ?thesis
    using driven_register_structural driven_validate_structural[of d x] driven_validate_plain[of d x]
    by (simp add: violated_def)
qed

end
