(* ===== verification/RateLimit.thy ===== *)
theory RateLimit
  imports Complex_Main MoneyMath
begin

section \<open>Rate limiting\<close>

text \<open>
  Model of \<^verbatim>\<open>packages/node/src/middleware/rate-limit.ts\<close> and
  \<^verbatim>\<open>public-rate-limit.ts\<close>: a store of token buckets, one per principal, with a least-recently-used cap
  and a sweep of idle buckets, and the two middlewares on it. Times are integers of milliseconds, tokens and
  rates are rational numbers where the code computes with doubles, and the rate per minute is positive (the code
  divides by it). The clock is an argument; the timer that calls \<^verbatim>\<open>sweep\<close> is an operation of a run.

  The lemmas show that no principal is granted more than its burst and the refill of the time that passed, that the
  sweep is not observable, that the announced waiting time suffices, and what eviction over the cap and identities
  with colons do to this.
\<close>

subsection \<open>Token buckets\<close>

record bucket =
  bk_tokens :: rat
  bk_lastRefill :: int

record rate_limit_config =
  rl_rpm :: rat
  rl_burst :: rat
  rl_maxBuckets :: "int option"

record token_store =
  tk_buckets :: "(string, bucket) jsmap"
  tk_rpm :: rat
  tk_burst :: rat
  tk_maxBuckets :: int
  tk_idleWindowMs :: rat

record consume_result =
  cr_allowed :: bool
  cr_remaining :: int
  cr_retryAfterMs :: int

definition DEFAULT_MAX_BUCKETS :: int where
  "DEFAULT_MAX_BUCKETS = 100000"

definition new_token_store :: "rate_limit_config \<Rightarrow> token_store" where
  "new_token_store config =
     \<lparr>tk_buckets = [], tk_rpm = rl_rpm config, tk_burst = rl_burst config,
      tk_maxBuckets = (case rl_maxBuckets config of Some n \<Rightarrow> n | None \<Rightarrow> DEFAULT_MAX_BUCKETS),
      tk_idleWindowMs = rl_burst config / rl_rpm config * 60000\<rparr>"

fun evictIfOverCap :: "int \<Rightarrow> (string, 'a) jsmap \<Rightarrow> (string, 'a) jsmap" where
  "evictIfOverCap cap [] = []"
| "evictIfOverCap cap (p # m) = (if cap < int (length (p # m)) then evictIfOverCap cap m else p # m)"

definition refill :: "token_store \<Rightarrow> int \<Rightarrow> bucket \<Rightarrow> rat" where
  "refill s now b = min (tk_burst s) (bk_tokens b + of_int (now - bk_lastRefill b) / 60000 * tk_rpm s)"

text \<open>The bucket is an object that the map and the method share; the map may have evicted it already.\<close>

definition put_bucket :: "(string, bucket) jsmap \<Rightarrow> string \<Rightarrow> bucket \<Rightarrow> (string, bucket) jsmap" where
  "put_bucket m identity b = (if jm_has m identity then jm_set m identity b else m)"

definition token_consume :: "token_store \<Rightarrow> int \<Rightarrow> string \<Rightarrow> rat \<Rightarrow> consume_result \<times> token_store" where
  "token_consume s now identity cost =
     (let (bucket, buckets) =
            (case jm_get (tk_buckets s) identity of
               None \<Rightarrow>
                 let fresh = \<lparr>bk_tokens = tk_burst s, bk_lastRefill = now\<rparr>
                 in (fresh, evictIfOverCap (tk_maxBuckets s) (jm_set (tk_buckets s) identity fresh))
             | Some b \<Rightarrow> (b, jm_set (AList.delete identity (tk_buckets s)) identity b));
          tokens = refill s now bucket
      in if cost \<le> tokens
         then (\<lparr>cr_allowed = True, cr_remaining = \<lfloor>tokens - cost\<rfloor>, cr_retryAfterMs = 0\<rparr>,
               s\<lparr>tk_buckets := put_bucket buckets identity \<lparr>bk_tokens = tokens - cost, bk_lastRefill = now\<rparr>\<rparr>)
         else (\<lparr>cr_allowed = False, cr_remaining = 0, cr_retryAfterMs = \<lceil>(cost - tokens) / tk_rpm s * 60000\<rceil>\<rparr>,
               s\<lparr>tk_buckets := put_bucket buckets identity \<lparr>bk_tokens = tokens, bk_lastRefill = now\<rparr>\<rparr>))"

definition token_sweep :: "token_store \<Rightarrow> int \<Rightarrow> int \<times> token_store" where
  "token_sweep s now =
     (let kept = filter (\<lambda>(key, b). \<not> tk_idleWindowMs s \<le> of_int (now - bk_lastRefill b)) (tk_buckets s)
      in (int (length (tk_buckets s)) - int (length kept), s\<lparr>tk_buckets := kept\<rparr>))"

definition token_clear :: "token_store \<Rightarrow> token_store" where
  "token_clear s = s\<lparr>tk_buckets := []\<rparr>"

definition token_size :: "token_store \<Rightarrow> int" where
  "token_size s = int (length (tk_buckets s))"

subsection \<open>The middlewares\<close>

datatype limit_outcome = Pass_on int | Rate_limited int

definition limited :: "consume_result \<Rightarrow> limit_outcome" where
  "limited r =
     (if cr_allowed r then Pass_on (cr_remaining r) else Rate_limited \<lceil>of_int (cr_retryAfterMs r) / (1000 :: rat)\<rceil>)"

definition request_cost :: "string \<Rightarrow> rat" where
  "request_cost verb = (if verb = ''GET'' \<or> verb = ''HEAD'' then 1 else 5)"

definition bucketKey :: "string \<Rightarrow> string \<Rightarrow> string" where
  "bucketKey tenantId identity = tenantId @ '':'' @ identity"

definition rateLimitMiddleware ::
  "token_store \<Rightarrow> int \<Rightarrow> string \<Rightarrow> string \<Rightarrow> string \<Rightarrow> limit_outcome \<times> token_store" where
  "rateLimitMiddleware s now verb tenantId identity =
     (let (r, s) = token_consume s now (bucketKey tenantId identity) (request_cost verb) in (limited r, s))"

definition PUBLIC_RATE_LIMIT_DEFAULT :: rate_limit_config where
  "PUBLIC_RATE_LIMIT_DEFAULT = \<lparr>rl_rpm = 10, rl_burst = 5, rl_maxBuckets = None\<rparr>"

definition socketRemoteAddress :: "string option \<Rightarrow> string" where
  "socketRemoteAddress address = (case address of Some a \<Rightarrow> if a = [] then ''unknown'' else a | None \<Rightarrow> ''unknown'')"

definition extractClientIp :: "string option \<Rightarrow> string option \<Rightarrow> bool \<Rightarrow> string" where
  "extractClientIp forwarded address trustProxy =
     (case (if trustProxy then forwarded else None) of
        None \<Rightarrow> socketRemoteAddress address
      | Some f \<Rightarrow>
          let first = takeWhile (\<lambda>c. c \<noteq> CHR '','') f
          in if js_trim first \<noteq> [] then js_trim first else socketRemoteAddress address)"

definition publicRateLimitMiddleware ::
  "token_store \<Rightarrow> int \<Rightarrow> string option \<Rightarrow> string option \<Rightarrow> bool \<Rightarrow> limit_outcome \<times> token_store" where
  "publicRateLimitMiddleware s now forwarded address trustProxy =
     (let (r, s) = token_consume s now (extractClientIp forwarded address trustProxy) 1 in (limited r, s))"

subsection \<open>Runs\<close>

datatype limit_op = Consume string rat | Sweep

text \<open>The cost granted to a principal in a run of operations at given times, and the results of all requests.\<close>

fun run_limits :: "token_store \<Rightarrow> (int \<times> limit_op) list \<Rightarrow> (string \<times> rat \<times> consume_result) list \<times> token_store" where
  "run_limits s [] = ([], s)"
| "run_limits s ((now, Consume identity cost) # ops) =
     (let (r, s) = token_consume s now identity cost; (rs, s) = run_limits s ops in ((identity, cost, r) # rs, s))"
| "run_limits s ((now, Sweep) # ops) = run_limits (snd (token_sweep s now)) ops"

definition granted :: "string \<Rightarrow> (string \<times> rat \<times> consume_result) list \<Rightarrow> rat" where
  "granted identity rs = sum_list (map (\<lambda>(i, cost, r). if i = identity \<and> cr_allowed r then cost else 0) rs)"

subsection \<open>The abstract limiter\<close>

text \<open>The contract: every principal that ever comes has a level of tokens, full at the start, that is replenished
  with time up to the burst and that grants take from. It has no map, no cap and nothing to sweep.\<close>

definition replenish :: "rat \<Rightarrow> rat \<Rightarrow> int \<Rightarrow> rat \<Rightarrow> rat" where
  "replenish burst rpm elapsed level = min burst (level + of_int elapsed / 60000 * rpm)"

fun spec_limits :: "rat \<Rightarrow> rat \<Rightarrow> (string \<Rightarrow> rat) \<Rightarrow> int \<Rightarrow> (int \<times> limit_op) list \<Rightarrow> (string \<times> rat \<times> consume_result) list" where
  "spec_limits burst rpm level since [] = []"
| "spec_limits burst rpm level since ((now, Sweep) # ops) = spec_limits burst rpm level since ops"
| "spec_limits burst rpm level since ((now, Consume identity cost) # ops) =
     (let level = (\<lambda>i. replenish burst rpm (now - since) (level i)); tokens = level identity
      in if cost \<le> tokens
         then (identity, cost, \<lparr>cr_allowed = True, cr_remaining = \<lfloor>tokens - cost\<rfloor>, cr_retryAfterMs = 0\<rparr>)
              # spec_limits burst rpm (level(identity := tokens - cost)) now ops
         else (identity, cost, \<lparr>cr_allowed = False, cr_remaining = 0, cr_retryAfterMs = \<lceil>(cost - tokens) / rpm * 60000\<rceil>\<rparr>)
              # spec_limits burst rpm level now ops)"

text \<open>Operations in order of time, for principals of \<open>K\<close> and with costs that are not negative.\<close>

fun ordered_ops :: "string set \<Rightarrow> int \<Rightarrow> (int \<times> limit_op) list \<Rightarrow> bool" where
  "ordered_ops K since [] \<longleftrightarrow> True"
| "ordered_ops K since ((now, p) # ops) \<longleftrightarrow>
     since \<le> now \<and> (case p of Sweep \<Rightarrow> True | Consume identity cost \<Rightarrow> identity \<in> K \<and> 0 \<le> cost) \<and> ordered_ops K now ops"

lemma replenish_twice:
  "0 \<le> a \<Longrightarrow> 0 \<le> b \<Longrightarrow> 0 \<le> rpm \<Longrightarrow> replenish burst rpm b (replenish burst rpm a x) = replenish burst rpm (a + b) x"
proof -
  assume nonneg: "0 \<le> a" "0 \<le> b" "0 \<le> rpm"
  have sum: "of_int (a + b) / 60000 * rpm = of_int a / 60000 * rpm + of_int b / 60000 * rpm" by (simp add: field_simps)
  have "0 \<le> of_int b / 60000 * rpm" using nonneg by simp
  then show ?thesis unfolding replenish_def sum by (auto simp: min_def)
qed

lemma replenish_full: "0 \<le> a \<Longrightarrow> 0 \<le> rpm \<Longrightarrow> replenish burst rpm a burst = burst"
  by (simp add: replenish_def)

lemma replenish_bounds:
  "0 \<le> a \<Longrightarrow> 0 \<le> rpm \<Longrightarrow> 0 \<le> burst \<Longrightarrow> 0 \<le> x \<Longrightarrow> 0 \<le> replenish burst rpm a x"
  "replenish burst rpm a x \<le> burst" "replenish burst rpm a x \<le> x + of_int a / 60000 * rpm"
  by (simp_all add: replenish_def)

subsection \<open>Refinement\<close>

definition limits_ok :: "string set \<Rightarrow> token_store \<Rightarrow> int \<Rightarrow> bool" where
  "limits_ok K s now \<longleftrightarrow> 0 < tk_rpm s \<and> 0 \<le> tk_burst s \<and> tk_idleWindowMs s = tk_burst s / tk_rpm s * 60000
     \<and> jm_wf (tk_buckets s) \<and> set (jm_keys (tk_buckets s)) \<subseteq> K \<and> finite K \<and> int (card K) \<le> tk_maxBuckets s
     \<and> (\<forall>i b. jm_get (tk_buckets s) i = Some b \<longrightarrow> 0 \<le> bk_tokens b \<and> bk_tokens b \<le> tk_burst s \<and> bk_lastRefill b \<le> now)"

definition level_of :: "token_store \<Rightarrow> int \<Rightarrow> string \<Rightarrow> rat" where
  "level_of s now i = (case jm_get (tk_buckets s) i of None \<Rightarrow> tk_burst s
     | Some b \<Rightarrow> replenish (tk_burst s) (tk_rpm s) (now - bk_lastRefill b) (bk_tokens b))"

lemma evict_none: "int (length m) \<le> cap \<Longrightarrow> evictIfOverCap cap m = m"
  by (cases m) simp_all

lemma level_later:
  assumes "limits_ok K s t" "t \<le> now"
  shows "level_of s now i = replenish (tk_burst s) (tk_rpm s) (now - t) (level_of s t i)"
proof (cases "jm_get (tk_buckets s) i")
  case None
  then show ?thesis using assms by (simp add: level_of_def limits_ok_def replenish_full)
next
  case (Some b)
  then have "bk_lastRefill b \<le> t" "0 \<le> tk_rpm s" using assms(1) unfolding limits_ok_def by fastforce+
  then show ?thesis using Some assms(2) by (simp add: level_of_def replenish_twice)
qed

lemma limits_ok_later: "limits_ok K s t \<Longrightarrow> t \<le> now \<Longrightarrow> limits_ok K s now"
  unfolding limits_ok_def by fastforce

text \<open>The map once a request has put its bucket there, at the end.\<close>

definition touched :: "token_store \<Rightarrow> int \<Rightarrow> string \<Rightarrow> (string, bucket) jsmap" where
  "touched s now i = (case jm_get (tk_buckets s) i of
     None \<Rightarrow> tk_buckets s @ [(i, \<lparr>bk_tokens = tk_burst s, bk_lastRefill = now\<rparr>)]
   | Some b \<Rightarrow> AList.delete i (tk_buckets s) @ [(i, b)])"

lemma deleted_key: "\<not> jm_has (AList.delete i m) i"
  by (simp add: jm_has_keys delete_keys)

lemma touched_get: "jm_get (touched s now i) j =
    (if j = i then Some (option.case_option \<lparr>bk_tokens = tk_burst s, bk_lastRefill = now\<rparr> id (jm_get (tk_buckets s) i))
     else jm_get (tk_buckets s) j)"
  by (auto simp: touched_def map_add_def delete_conv' split: option.split)

lemma touched_wf: "jm_wf (tk_buckets s) \<Longrightarrow> jm_wf (touched s now i)"
  using deleted_key[of i "tk_buckets s"]
  by (auto simp: touched_def jm_wf_def distinct_delete jm_has_keys map_of_eq_None_iff split: option.split)


lemma touched_keys: "fst ` set (touched s now i) = insert i (fst ` set (tk_buckets s))"
proof (cases "jm_get (tk_buckets s) i")
  case (Some b)
  then have "i \<in> fst ` set (tk_buckets s)" by (metis map_of_eq_None_iff option.distinct(1))
  moreover have "fst ` set (AList.delete i (tk_buckets s)) = fst ` set (tk_buckets s) - {i}"
    by (auto simp: AList.delete_eq)
  ultimately show ?thesis using Some by (simp add: touched_def insert_absorb)
qed (simp add: touched_def)

lemma touched_fits:
  assumes "limits_ok K s now" "i \<in> K"
  shows "int (length (touched s now i)) \<le> tk_maxBuckets s"
proof -
  have "length (touched s now i) = card (set (jm_keys (touched s now i)))"
    using touched_wf assms(1) by (metis distinct_card jm_wf_def length_map limits_ok_def)
  also have "\<dots> \<le> card K"
    using assms by (intro card_mono) (auto simp: limits_ok_def touched_keys)
  finally show ?thesis using assms(1) by (simp add: limits_ok_def)
qed

lemma consume_body:
  assumes "limits_ok K s now" "i \<in> K"
  shows "token_consume s now i cost =
    (let level = level_of s now i in
     if cost \<le> level
     then (\<lparr>cr_allowed = True, cr_remaining = \<lfloor>level - cost\<rfloor>, cr_retryAfterMs = 0\<rparr>,
           s\<lparr>tk_buckets := jm_set (touched s now i) i \<lparr>bk_tokens = level - cost, bk_lastRefill = now\<rparr>\<rparr>)
     else (\<lparr>cr_allowed = False, cr_remaining = 0, cr_retryAfterMs = \<lceil>(cost - level) / tk_rpm s * 60000\<rceil>\<rparr>,
           s\<lparr>tk_buckets := jm_set (touched s now i) i \<lparr>bk_tokens = level, bk_lastRefill = now\<rparr>\<rparr>))"
proof -
  have fits: "int (length (touched s now i)) \<le> tk_maxBuckets s" by (rule touched_fits[OF assms])
  have put: "put_bucket (touched s now i) i b = jm_set (touched s now i) i b" for b
    by (simp add: put_bucket_def jm_has_keys touched_keys)
  show ?thesis
  proof (cases "jm_get (tk_buckets s) i")
    case None
    then have t: "jm_set (tk_buckets s) i \<lparr>bk_tokens = tk_burst s, bk_lastRefill = now\<rparr> = touched s now i"
      by (simp add: touched_def jm_set_new jm_has_def)
    have "level_of s now i = refill s now \<lparr>bk_tokens = tk_burst s, bk_lastRefill = now\<rparr>"
      using None by (simp add: level_of_def refill_def)
    then show ?thesis using None fits by (simp add: token_consume_def Let_def t evict_none put)
  next
    case (Some b)
    then have t: "jm_set (AList.delete i (tk_buckets s)) i b = touched s now i"
      by (simp add: touched_def jm_set_new deleted_key)
    have "level_of s now i = refill s now b" using Some by (simp add: level_of_def refill_def replenish_def)
    then show ?thesis using Some by (simp add: token_consume_def Let_def t put)
  qed
qed

lemma level_bounds: "limits_ok K s now \<Longrightarrow> 0 \<le> level_of s now i \<and> level_of s now i \<le> tk_burst s"
  unfolding level_of_def limits_ok_def
  by (auto split: option.split intro!: replenish_bounds) 

lemma written_ok:
  assumes "limits_ok K s now" "i \<in> K" "0 \<le> x" "x \<le> tk_burst s"
    and "s' = s\<lparr>tk_buckets := jm_set (touched s now i) i \<lparr>bk_tokens = x, bk_lastRefill = now\<rparr>\<rparr>"
  shows "limits_ok K s' now \<and> level_of s' now = (level_of s now)(i := x)"
proof
  have keys: "set (jm_keys (jm_set (touched s now i) i b)) = insert i (set (jm_keys (tk_buckets s)))" for b
    by (simp add: jm_keys_set jm_has_keys touched_keys insert_absorb)
  have "jm_wf (jm_set (touched s now i) i b)" for b using assms(1) touched_wf by (auto simp: limits_ok_def)
  then show "limits_ok K s' now" using assms keys unfolding limits_ok_def by (auto simp: touched_get)
  show "level_of s' now = (level_of s now)(i := x)"
  proof
    fix j
    show "level_of s' now j = ((level_of s now)(i := x)) j"
      using assms(3,4) unfolding assms(5)
      by (cases "jm_get (tk_buckets s) j"; cases "j = i") (simp_all add: level_of_def touched_get replenish_def)
  qed
qed

lemma swept_ok:
  assumes "limits_ok K s now" "s' = snd (token_sweep s now)"
  shows "limits_ok K s' now \<and> level_of s' now = level_of s now \<and> tk_burst s' = tk_burst s \<and> tk_rpm s' = tk_rpm s"
proof (intro conjI)
  let ?P = "\<lambda>(key, b). \<not> tk_idleWindowMs s \<le> of_int (now - bk_lastRefill b)"
  have s': "s' = s\<lparr>tk_buckets := filter ?P (tk_buckets s)\<rparr>" by (simp add: assms(2) token_sweep_def Let_def)
  have wf: "jm_wf (tk_buckets s)" "jm_wf (filter ?P (tk_buckets s))"
    using assms(1) by (auto simp: limits_ok_def jm_wf_def distinct_map_filter)
  have get: "jm_get (filter ?P (tk_buckets s)) j = Some b \<longleftrightarrow> jm_get (tk_buckets s) j = Some b \<and> ?P (j, b)" for j b
    using wf by (simp add: jm_get_in)
  show "limits_ok K s' now" using assms(1) wf get unfolding limits_ok_def s' by fastforce
  show "tk_burst s' = tk_burst s" "tk_rpm s' = tk_rpm s" by (simp_all add: s')
  show "level_of s' now = level_of s now"
  proof
    fix j
    show "level_of s' now j = level_of s now j"
    proof (cases "jm_get (tk_buckets s) j")
      case None
      then have "jm_get (filter ?P (tk_buckets s)) j = None" using get by (metis not_None_eq)
      then show ?thesis using None by (simp add: level_of_def s')
    next
      case (Some b)
      show ?thesis
      proof (cases "?P (j, b)")
        case True
        then show ?thesis using Some get[of j b] by (simp add: level_of_def s')
      next
        case False
        then have gone: "jm_get (filter ?P (tk_buckets s)) j = None" using get Some by (metis not_None_eq option.inject)
        have b: "0 \<le> bk_tokens b" "bk_tokens b \<le> tk_burst s" "0 < tk_rpm s" "tk_idleWindowMs s = tk_burst s / tk_rpm s * 60000"
          using assms(1) Some unfolding limits_ok_def by auto
        have "tk_burst s \<le> of_int (now - bk_lastRefill b) / 60000 * tk_rpm s"
          using False b(3,4) by (simp add: field_simps)
        then have "replenish (tk_burst s) (tk_rpm s) (now - bk_lastRefill b) (bk_tokens b) = tk_burst s"
          using b(1) by (simp add: replenish_def)
        then show ?thesis using Some gone by (simp add: level_of_def s')
      qed
    qed
  qed
qed

lemma run_refines:
  assumes "limits_ok K s t" "ordered_ops K t ops" "since \<le> t"
    and "level_of s t = (\<lambda>i. replenish (tk_burst s) (tk_rpm s) (t - since) (level i))"
  shows "fst (run_limits s ops) = spec_limits (tk_burst s) (tk_rpm s) level since ops"
  using assms
proof (induction ops arbitrary: s t since level)
  case (Cons op ops)
  obtain now p where op: "op = (now, p)" by (rule prod.exhaust)
  have now: "t \<le> now" "ordered_ops K now ops" using Cons.prems(2) op by simp_all
  note ok = limits_ok_later[OF Cons.prems(1) now(1)]
  have rpm: "0 \<le> tk_rpm s" using ok by (simp add: limits_ok_def)
  have later: "level_of s now = (\<lambda>i. replenish (tk_burst s) (tk_rpm s) (now - since) (level i))"
    using level_later[OF Cons.prems(1) now(1)] Cons.prems(3,4) now(1) rpm by (simp add: fun_eq_iff replenish_twice)
  show ?case
  proof (cases p)
    case Sweep
    note sw = swept_ok[OF ok refl]
    show ?thesis
      using Cons.IH[of "snd (token_sweep s now)" now since level] sw later now Cons.prems(3) op Sweep by simp
  next
    case (Consume i cost)
    then have i: "i \<in> K" "0 \<le> cost" using Cons.prems(2) op by simp_all
    let ?l = "level_of s now i"
    let ?s = "\<lambda>x. s\<lparr>tk_buckets := jm_set (touched s now i) i \<lparr>bk_tokens = x, bk_lastRefill = now\<rparr>\<rparr>"
    have rest: "fst (run_limits (?s x) ops) = spec_limits (tk_burst s) (tk_rpm s) ((level_of s now)(i := x)) now ops"
      if "0 \<le> x" "x \<le> tk_burst s" for x
    proof -
      note w = written_ok[OF ok i(1) that refl]
      have same: "((level_of s now)(i := x)) k = replenish (tk_burst s) (tk_rpm s) (now - now) (((level_of s now)(i := x)) k)" for k
        using that level_bounds[OF ok] by (simp add: replenish_def)
      have "fst (run_limits (?s x) ops) = spec_limits (tk_burst (?s x)) (tk_rpm (?s x)) ((level_of s now)(i := x)) now ops"
        by (rule Cons.IH[OF conjunct1[OF w] now(2) order_refl], unfold conjunct2[OF w], rule ext) (use same in simp)
      then show ?thesis by simp
    qed
    have l: "0 \<le> ?l" "?l \<le> tk_burst s" using level_bounds[OF ok] by auto
    show ?thesis
    proof (cases "cost \<le> ?l")
      case True
      then show ?thesis using rest[of "?l - cost"] l i(2)
        by (simp add: op Consume consume_body[OF ok i(1)] Let_def split_beta later)
    next
      case False
      then show ?thesis using rest[of ?l, unfolded fun_upd_triv] l
        by (simp add: op Consume consume_body[OF ok i(1)] Let_def split_beta later)
    qed
  qed
qed simp


lemma new_limits_ok:
  assumes "0 < rl_rpm config" "0 \<le> rl_burst config" "finite K" "int (card K) \<le> tk_maxBuckets (new_token_store config)"
  shows "limits_ok K (new_token_store config) t" "level_of (new_token_store config) t = (\<lambda>_. rl_burst config)"
    "tk_burst (new_token_store config) = rl_burst config" "tk_rpm (new_token_store config) = rl_rpm config"
  using assms by (auto simp: limits_ok_def new_token_store_def level_of_def)

fun time_after :: "int \<Rightarrow> (int \<times> limit_op) list \<Rightarrow> int" where
  "time_after t [] = t"
| "time_after t ((now, p) # ops) = time_after now ops"

lemma run_ok:
  assumes "limits_ok K s t" "ordered_ops K t ops"
  shows "limits_ok K (snd (run_limits s ops)) (time_after t ops) \<and> tk_burst (snd (run_limits s ops)) = tk_burst s
    \<and> tk_rpm (snd (run_limits s ops)) = tk_rpm s"
  using assms
proof (induction ops arbitrary: s t)
  case (Cons op ops)
  obtain now p where op: "op = (now, p)" by (rule prod.exhaust)
  have now: "t \<le> now" "ordered_ops K now ops" using Cons.prems(2) op by simp_all
  note ok = limits_ok_later[OF Cons.prems(1) now(1)]
  show ?case
  proof (cases p)
    case Sweep
    then show ?thesis using Cons.IH[OF _ now(2)] swept_ok[OF ok refl] op by simp
  next
    case (Consume i cost)
    then have i: "i \<in> K" "0 \<le> cost" using Cons.prems(2) op by simp_all
    let ?l = "level_of s now i"
    let ?x = "if cost \<le> ?l then ?l - cost else ?l"
    let ?s = "s\<lparr>tk_buckets := jm_set (touched s now i) i \<lparr>bk_tokens = ?x, bk_lastRefill = now\<rparr>\<rparr>"
    have "limits_ok K ?s now" using written_ok[OF ok i(1) _ _ refl, of ?x] level_bounds[OF ok, of i] i(2) by auto
    moreover have "snd (token_consume s now i cost) = ?s" by (simp add: consume_body[OF ok i(1)] Let_def)
    ultimately show ?thesis using Cons.IH[OF _ now(2), of ?s] op Consume by (simp add: split_beta)
  qed
qed simp

lemma ordered_append:
  "ordered_ops K t (xs @ ys) \<longleftrightarrow> ordered_ops K t xs \<and> ordered_ops K (time_after t xs) ys"
  by (induction xs arbitrary: t) auto

lemma ordered_from: "ordered_ops K t ops \<Longrightarrow> \<forall>(now, p) \<in> set ops. u \<le> now \<Longrightarrow> ordered_ops K (max t u) ops"
  by (cases ops) auto

lemma granted_Cons: "granted i ((k, cost, r) # rs) = (if k = i \<and> cr_allowed r then cost else 0) + granted i rs"
  by (simp add: granted_def)

lemma spec_granted:
  assumes "ordered_ops K t ops" "since \<le> t" "\<forall>(now, p) \<in> set ops. now \<le> t2" "t \<le> t2" "0 \<le> rpm" "0 \<le> burst" "\<forall>j. 0 \<le> level j"
  shows "granted i (spec_limits burst rpm level since ops) \<le> level i + of_int (t2 - since) / 60000 * rpm"
  using assms
proof (induction ops arbitrary: t since level)
  case Nil
  then show ?case by (simp add: granted_def)
next
  case (Cons op ops)
  obtain now p where op: "op = (now, p)" by (rule prod.exhaust)
  have now: "t \<le> now" "ordered_ops K now ops" "now \<le> t2" "\<forall>(now, p) \<in> set ops. now \<le> t2" "since \<le> now"
    using Cons.prems op by simp_all
  show ?case
  proof (cases p)
    case Sweep
    then show ?thesis using Cons.IH[OF now(2,5,4,3) Cons.prems(5-7)] op by simp
  next
    case (Consume k cost)
    let ?L = "\<lambda>j. replenish burst rpm (now - since) (level j)"
    have L: "\<forall>j. 0 \<le> ?L j" using replenish_bounds(1) now(5) Cons.prems(5-7) by simp
    have grow: "?L i + of_int (t2 - now) / 60000 * rpm \<le> level i + of_int (t2 - since) / 60000 * rpm"
      using replenish_bounds(3)[of burst rpm "now - since" "level i"] by (simp add: field_simps)
    show ?thesis
    proof (cases "cost \<le> ?L k")
      case True
      have "\<forall>j. 0 \<le> (?L(k := ?L k - cost)) j" using True L by simp
      note ih = Cons.IH[where level = "?L(k := ?L k - cost)", OF now(2) order_refl now(4,3) Cons.prems(5,6) this]
      then have "granted i (spec_limits burst rpm (?L(k := ?L k - cost)) now ops)
          \<le> (if k = i then ?L i - cost else ?L i) + of_int (t2 - now) / 60000 * rpm"
        by (cases "k = i") (simp_all only: fun_upd_same fun_upd_other if_True if_False simp_thms not_sym)
      then show ?thesis using True grow unfolding op Consume by (auto simp: Let_def granted_Cons)
    next
      case False
      from Cons.IH[where level = ?L, OF now(2) order_refl now(4,3) Cons.prems(5,6) L] show ?thesis
        using False grow unfolding op Consume by (auto simp: Let_def granted_Cons)
    qed
  qed
qed

subsection \<open>Properties\<close>

text \<open>While there are no more principals than the cap, the bucket store decides every request of every ordered run
  as the abstract limiter does, which keeps a level for each principal for ever and is never swept: same
  admission, remaining tokens and waiting time.\<close>

theorem bucket_store_refines:
  assumes "0 < rl_rpm config" "0 \<le> rl_burst config" "finite K" "int (card K) \<le> tk_maxBuckets (new_token_store config)"
    and "ordered_ops K t ops"
  shows "fst (run_limits (new_token_store config) ops) = spec_limits (rl_burst config) (rl_rpm config) (\<lambda>_. rl_burst config) t ops"
  using run_refines[OF new_limits_ok(1)[OF assms(1-4)] assms(5) order_refl, of "\<lambda>_. rl_burst config"] new_limits_ok(2-4)[OF assms(1-4)]
    assms(2) by (simp add: replenish_def)

text \<open>In every window of time of every such run, whatever other principals do and whenever the sweeper runs, a
  principal is granted at most the burst and the refill of the window.\<close>

theorem rate_limit_bound:
  assumes "0 < rl_rpm config" "0 \<le> rl_burst config" "finite K" "int (card K) \<le> tk_maxBuckets (new_token_store config)"
    and "ordered_ops K t (earlier @ window)" "\<forall>(now, p) \<in> set window. t1 \<le> now \<and> now \<le> t2" "t1 \<le> t2"
  shows "granted i (fst (run_limits (snd (run_limits (new_token_store config) earlier)) window))
    \<le> rl_burst config + of_int (t2 - t1) / 60000 * rl_rpm config"
proof (cases "window = []")
  case True
  then show ?thesis using assms by (simp add: granted_def)
next
  case False
  let ?s = "snd (run_limits (new_token_store config) earlier)" and ?t = "max (time_after t earlier) t1"
  have ord: "ordered_ops K t earlier" "ordered_ops K ?t window"
    using assms(5,6) ordered_from[of K "time_after t earlier" window t1] by (auto simp: ordered_append)
  have ran: "limits_ok K ?s (time_after t earlier)" "tk_burst ?s = rl_burst config" "tk_rpm ?s = rl_rpm config"
    using run_ok[OF new_limits_ok(1)[OF assms(1-4)] ord(1)] new_limits_ok(3,4)[OF assms(1-4)] by auto
  then have ok: "limits_ok K ?s ?t" by (auto intro: limits_ok_later)
  note level = level_bounds[OF ok, unfolded ran(2)]
  have "?t \<le> t2" using ord(2) False assms(6) by (cases window) auto
  then have "granted i (spec_limits (rl_burst config) (rl_rpm config) (level_of ?s ?t) ?t window)
      \<le> level_of ?s ?t i + of_int (t2 - ?t) / 60000 * rl_rpm config"
    by (intro spec_granted[OF ord(2)]) (use assms level in auto)
  also have "\<dots> \<le> rl_burst config + of_int (t2 - t1) / 60000 * rl_rpm config"
    using level[of i] assms(1) by (intro add_mono mult_right_mono divide_right_mono) auto
  finally show ?thesis
    using run_refines[OF ok ord(2) order_refl, of "level_of ?s ?t"] level by (simp add: ran replenish_def)
qed


text \<open>A refused request whose cost does not exceed the burst is granted when it is repeated after the announced time.\<close>

theorem retry_after_suffices:
  assumes "limits_ok K s now" "i \<in> K" "0 \<le> cost" "cost \<le> tk_burst s"
    and "token_consume s now i cost = (r, s')" "\<not> cr_allowed r" "now + cr_retryAfterMs r \<le> later"
  shows "cr_allowed (fst (token_consume s' later i cost))"
proof -
  let ?l = "level_of s now i"
  have l: "0 \<le> ?l" "?l \<le> tk_burst s" using level_bounds[OF assms(1)] by auto
  have short: "\<not> cost \<le> ?l" using assms(5,6) by (auto simp: consume_body[OF assms(1,2)] Let_def split: if_splits)
  then have r: "cr_retryAfterMs r = \<lceil>(cost - ?l) / tk_rpm s * 60000\<rceil>"
    and s': "s' = s\<lparr>tk_buckets := jm_set (touched s now i) i \<lparr>bk_tokens = ?l, bk_lastRefill = now\<rparr>\<rparr>"
    using assms(5) by (auto simp: consume_body[OF assms(1,2)] Let_def)
  note ok = written_ok[OF assms(1,2) l s']
  have rpm: "0 < tk_rpm s" using assms(1) by (simp add: limits_ok_def)
  have "0 \<le> (cost - ?l) / tk_rpm s * 60000" using short rpm by simp
  then have later: "now \<le> later" using assms(7) r by linarith
  have "(cost - ?l) / tk_rpm s * 60000 \<le> of_int (later - now)"
    unfolding ceiling_le_iff [symmetric] using assms(7) unfolding r by linarith
  then have "cost \<le> ?l + of_int (later - now) / 60000 * tk_rpm s" using rpm by (simp add: field_simps)
  then have "cost \<le> level_of s' later i"
    using level_later[OF conjunct1[OF ok] later, of i] conjunct2[OF ok] assms(4) by (simp add: s' replenish_def)
  then show ?thesis using consume_body[OF limits_ok_later[OF conjunct1[OF ok] later] assms(2)] by (simp add: Let_def)
qed

text \<open>Over the cap an idle or busy bucket is dropped alike: a principal whose tokens are used up is admitted again
  at the same instant once another principal's request has evicted its bucket.\<close>

theorem eviction_restores_tokens:
  "map (\<lambda>(i, cost, r). cr_allowed r) (fst (run_limits (new_token_store \<lparr>rl_rpm = 60, rl_burst = 5, rl_maxBuckets = Some 1\<rparr>)
     [(0, Consume ''a'' 5), (0, Consume ''a'' 1), (0, Consume ''b'' 1), (0, Consume ''a'' 5)])) = [True, False, True, True]"
  by code_simp

text \<open>The key of a bucket separates tenants whose identifiers have no colon. Others can share one: the second
  principal, of another tenant, is refused at its first request.\<close>

lemma colon_split: "CHR '':'' \<notin> set t \<Longrightarrow> CHR '':'' \<notin> set t' \<Longrightarrow> t @ CHR '':'' # i = t' @ CHR '':'' # i' \<longleftrightarrow> t = t' \<and> i = i'"
proof (induction t arbitrary: t')
  case Nil
  then show ?case by (cases t') auto
next
  case (Cons c t)
  show ?case
  proof (cases t')
    case Nil
    then show ?thesis using Cons.prems by auto
  next
    case (Cons c' u)
    then show ?thesis using Cons.IH[of u] Cons.prems \<open>t' = c' # u\<close> by auto
  qed
qed

lemma bucketKey_separates:
  "CHR '':'' \<notin> set t \<Longrightarrow> CHR '':'' \<notin> set t' \<Longrightarrow> bucketKey t i = bucketKey t' i' \<longleftrightarrow> t = t' \<and> i = i'"
  by (simp add: bucketKey_def colon_split)

theorem tenants_share_bucket:
  "(let s = new_token_store \<lparr>rl_rpm = 60, rl_burst = 5, rl_maxBuckets = None\<rparr>;
        (r, s) = rateLimitMiddleware s 0 ''POST'' ''acme'' ''eu:bot'';
        (r', s) = rateLimitMiddleware s 0 ''POST'' ''acme:eu'' ''bot''
    in (r, r')) = (Pass_on 0, Rate_limited 5)"
  by code_simp

subsection \<open>Witnesses\<close>

definition sample_limits :: rate_limit_config where
  "sample_limits = \<lparr>rl_rpm = 60, rl_burst = 5, rl_maxBuckets = Some 2\<rparr>"

definition sample_traffic :: "(int \<times> limit_op) list" where
  "sample_traffic = [(0, Consume ''a'' 5), (10, Consume ''b'' 1), (1000, Consume ''a'' 2), (9000, Sweep), (9500, Consume ''a'' 5)]"

theorem bucket_store_refines_witness:
  "fst (run_limits (new_token_store sample_limits) sample_traffic) = spec_limits 5 60 (\<lambda>_. 5) 0 sample_traffic"
  using bucket_store_refines[of sample_limits "{''a'', ''b''}" 0 sample_traffic]
  by (simp add: sample_limits_def sample_traffic_def new_token_store_def)

theorem rate_limit_bound_witness:
  "granted ''a'' (fst (run_limits (snd (run_limits (new_token_store sample_limits) (take 1 sample_traffic))) (drop 1 sample_traffic)))
    \<le> 5 + 9500 / 60000 * 60"
  using rate_limit_bound[of sample_limits "{''a'', ''b''}" 0 "take 1 sample_traffic" "drop 1 sample_traffic" 0 9500 "''a''"]
  by (simp add: sample_limits_def sample_traffic_def new_token_store_def)

end
