(* ===== verification/Idempotency.thy ===== *)
theory Idempotency
  imports RateLimit Digest
begin

section \<open>Idempotent requests\<close>

text \<open>
  Model of \<^verbatim>\<open>packages/node/src/middleware/idempotency.ts\<close>: the cache of responses by tenant, method,
  path and client key, and the middleware around it. A request is served in two steps, since other requests run while the handler
  of one is awaited: \<open>idem_arrive\<close> up to the call of the handler, and \<open>idem_finish\<close> once it answered.
  The handler is any function or, in the interleaved runs, any answer; times are arguments; the timer that sweeps is an
  operation of a run. SHA-256 is a parameter.

  The lemmas show that a replayed response was given to an executed request with the same scoped key and
  body, that a retry after an answer is not executed again, and that retries that overlap are, whatever the
  comment promises.
\<close>

subsection \<open>The store\<close>

record cached_response =
  ce_status :: int
  ce_body :: string
  ce_headers :: "(string, string) jsmap"
  ce_cachedAt :: int
  ce_bodyHash :: string

record idempotency_store =
  is_cache :: "(string, cached_response) jsmap"
  is_ttlMs :: int
  is_maxEntries :: int
  is_maxBodyBytes :: int

definition DEFAULT_MAX_ENTRIES :: int where
  "DEFAULT_MAX_ENTRIES = 50000"

definition DEFAULT_MAX_BODY_BYTES :: int where
  "DEFAULT_MAX_BODY_BYTES = 1024 * 1024"

definition new_idempotency_store :: "int option \<Rightarrow> int option \<Rightarrow> int option \<Rightarrow> idempotency_store" where
  "new_idempotency_store ttlMs maxEntries maxBodyBytes =
     \<lparr>is_cache = [], is_ttlMs = (case ttlMs of Some t \<Rightarrow> t | None \<Rightarrow> 86400000),
      is_maxEntries = (case maxEntries of Some n \<Rightarrow> n | None \<Rightarrow> DEFAULT_MAX_ENTRIES),
      is_maxBodyBytes = (case maxBodyBytes of Some n \<Rightarrow> n | None \<Rightarrow> DEFAULT_MAX_BODY_BYTES)\<rparr>"

definition expired :: "idempotency_store \<Rightarrow> int \<Rightarrow> cached_response \<Rightarrow> bool" where
  "expired s now e \<longleftrightarrow> is_ttlMs s < now - ce_cachedAt e"

definition idem_get :: "idempotency_store \<Rightarrow> int \<Rightarrow> string \<Rightarrow> cached_response option \<times> idempotency_store" where
  "idem_get s now key =
     (case jm_get (is_cache s) key of
        None \<Rightarrow> (None, s)
      | Some e \<Rightarrow> if expired s now e then (None, s\<lparr>is_cache := AList.delete key (is_cache s)\<rparr>) else (Some e, s))"

definition idem_set :: "idempotency_store \<Rightarrow> string \<Rightarrow> cached_response \<Rightarrow> idempotency_store" where
  "idem_set s key r =
     (if is_maxBodyBytes s < int (length (ce_body r)) then s
      else s\<lparr>is_cache := evictIfOverCap (is_maxEntries s) (jm_set (AList.delete key (is_cache s)) key r)\<rparr>)"

definition idem_sweep :: "idempotency_store \<Rightarrow> int \<Rightarrow> int \<times> idempotency_store" where
  "idem_sweep s now =
     (let kept = filter (\<lambda>(key, e). \<not> expired s now e) (is_cache s)
      in (int (length (is_cache s)) - int (length kept), s\<lparr>is_cache := kept\<rparr>))"

definition idem_clear :: "idempotency_store \<Rightarrow> idempotency_store" where
  "idem_clear s = s\<lparr>is_cache := []\<rparr>"

subsection \<open>The middleware\<close>

record idem_request =
  rq_method :: string
  rq_path :: string
  rq_idempotencyKey :: "string option"
  rq_tenantId :: "string option"
  rq_body :: string

record idem_response =
  rp_status :: int
  rp_body :: string
  rp_headers :: "(string, string) jsmap"

datatype idem_decision = Uncached | Mismatch | Replay cached_response | Execute string string

definition store_key :: "string \<Rightarrow> string \<Rightarrow> string \<Rightarrow> string \<Rightarrow> string" where
  "store_key tenantId verb path key = tenantId @ '':'' @ verb @ '' '' @ path @ '':'' @ key"

definition idem_arrive :: "hasher \<Rightarrow> idempotency_store \<Rightarrow> int \<Rightarrow> idem_request \<Rightarrow> idem_decision \<times> idempotency_store" where
  "idem_arrive H s now q =
     (if rq_method q \<noteq> ''POST'' then (Uncached, s)
      else case (rq_idempotencyKey q, rq_tenantId q) of
             (Some key, Some tenantId) \<Rightarrow>
               (let storeKey = store_key tenantId (rq_method q) (rq_path q) key; bodyHash = sha256 H (rq_body q);
                    (cached, s) = idem_get s now storeKey
                in case cached of
                     Some e \<Rightarrow> if ce_bodyHash e \<noteq> bodyHash then (Mismatch, s) else (Replay e, s)
                   | None \<Rightarrow> (Execute storeKey bodyHash, s))
           | _ \<Rightarrow> (Uncached, s))"

definition idem_finish :: "idempotency_store \<Rightarrow> int \<Rightarrow> string \<Rightarrow> string \<Rightarrow> idem_response \<Rightarrow> idempotency_store" where
  "idem_finish s now storeKey bodyHash r =
     (if rp_status r < 400
      then idem_set s storeKey \<lparr>ce_status = rp_status r, ce_body = rp_body r, ce_headers = rp_headers r, ce_cachedAt = now,
             ce_bodyHash = bodyHash\<rparr>
      else s)"

text \<open>A request that is served without another one in between, and what its client sees.\<close>

datatype idem_answer = Answered idem_response | Refused_422 | Replayed idem_response

definition replayed :: "cached_response \<Rightarrow> idem_response" where
  "replayed e = \<lparr>rp_status = ce_status e, rp_body = ce_body e, rp_headers = ce_headers e\<rparr>"

definition idem_serve ::
  "hasher \<Rightarrow> idempotency_store \<Rightarrow> int \<Rightarrow> idem_request \<Rightarrow> idem_response \<Rightarrow> idem_answer \<times> idempotency_store" where
  "idem_serve H s now q r =
     (case idem_arrive H s now q of
        (Uncached, s) \<Rightarrow> (Answered r, s)
      | (Mismatch, s) \<Rightarrow> (Refused_422, s)
      | (Replay e, s) \<Rightarrow> (Replayed (replayed e), s)
      | (Execute storeKey bodyHash, s) \<Rightarrow> (Answered r, idem_finish s now storeKey bodyHash r))"

subsection \<open>Interleaved requests\<close>

text \<open>The requests whose handlers run, and those that were executed and answered, with the answers.\<close>

record idem_system =
  im_store :: idempotency_store
  im_inflight :: "(idem_request \<times> string \<times> string) list"
  im_finished :: "(idem_request \<times> idem_response) list"

inductive idem_step :: "hasher \<Rightarrow> idem_system \<Rightarrow> idem_system \<Rightarrow> bool" for H where
  arrive: "idem_arrive H (im_store y) now q = (d, s) \<Longrightarrow>
    idem_step H y (y\<lparr>im_store := s, im_inflight := (case d of Execute k h \<Rightarrow> (q, k, h) # im_inflight y | _ \<Rightarrow> im_inflight y)\<rparr>)"
| finish: "im_inflight y = xs @ (q, k, h) # ys \<Longrightarrow>
    idem_step H y (y\<lparr>im_store := idem_finish (im_store y) now k h r, im_inflight := xs @ ys, im_finished := (q, r) # im_finished y\<rparr>)"
| sweep: "idem_step H y (y\<lparr>im_store := snd (idem_sweep (im_store y) now)\<rparr>)"

inductive idem_reachable :: "hasher \<Rightarrow> idem_system \<Rightarrow> bool" for H where
  start: "idem_reachable H \<lparr>im_store = new_idempotency_store ttlMs maxEntries maxBodyBytes, im_inflight = [], im_finished = []\<rparr>"
| step: "idem_reachable H y \<Longrightarrow> idem_step H y y' \<Longrightarrow> idem_reachable H y'"

subsection \<open>Where replayed responses come from\<close>

definition scoped_key :: "idem_request \<Rightarrow> string option" where
  "scoped_key q =
     (case (rq_idempotencyKey q, rq_tenantId q) of
        (Some key, Some tenantId) \<Rightarrow> if rq_method q = ''POST'' then Some (store_key tenantId (rq_method q) (rq_path q) key) else None
      | _ \<Rightarrow> None)"

text \<open>Neither the tenant nor the path has a colon, which the scoped key uses to separate its parts.\<close>

definition plain_request :: "idem_request \<Rightarrow> bool" where
  "plain_request q \<longleftrightarrow> CHR '':'' \<notin> set (rq_path q) \<and> (\<forall>t. rq_tenantId q = Some t \<longrightarrow> CHR '':'' \<notin> set t)"

definition idem_origin :: "hasher \<Rightarrow> idem_system \<Rightarrow> bool" where
  "idem_origin H y \<longleftrightarrow>
     (\<forall>k e. (k, e) \<in> set (is_cache (im_store y)) \<longrightarrow>
        (\<exists>q r. (q, r) \<in> set (im_finished y) \<and> scoped_key q = Some k \<and> ce_bodyHash e = sha256 H (rq_body q)
           \<and> replayed e = r \<and> rp_status r < 400)) \<and>
     (\<forall>q k h. (q, k, h) \<in> set (im_inflight y) \<longrightarrow> scoped_key q = Some k \<and> h = sha256 H (rq_body q))"

lemma evict_subset: "set (evictIfOverCap cap m) \<subseteq> set m"
  by (induction m) auto

lemma set_subset: "set (AList.update k v m) \<subseteq> insert (k, v) (set m)"
  by (induction m) auto

lemma delete_subset: "set (AList.delete k m) \<subseteq> set m"
  by (auto simp: AList.delete_eq)

lemma get_subset: "idem_get s now key = (c, s') \<Longrightarrow> set (is_cache s') \<subseteq> set (is_cache s)"
  using delete_subset[of key "is_cache s"] by (auto simp: idem_get_def split: option.splits if_splits)

lemma idem_set_subset: "set (is_cache (idem_set s key r)) \<subseteq> insert (key, r) (set (is_cache s))"
proof -
  have "set (evictIfOverCap cap (jm_set (AList.delete key (is_cache s)) key r)) \<subseteq> insert (key, r) (set (is_cache s))" for cap
    using evict_subset set_subset delete_subset by (metis (no_types, opaque_lifting) insert_mono subset_trans)
  then show ?thesis by (auto simp: idem_set_def)
qed

lemma arrive_cases:
  assumes "idem_arrive H s now q = (d, s')"
  shows "set (is_cache s') \<subseteq> set (is_cache s)"
    "d = Execute k h \<Longrightarrow> scoped_key q = Some k \<and> h = sha256 H (rq_body q) \<and> jm_get (is_cache s') k = None"
    "d = Replay e \<Longrightarrow> \<exists>k. scoped_key q = Some k \<and> (k, e) \<in> set (is_cache s) \<and> ce_bodyHash e = sha256 H (rq_body q)"
proof -
  have gone: "jm_get (AList.delete k m) k = None" for k and m :: "(string, cached_response) jsmap"
    by (simp add: delete_conv')
  show "set (is_cache s') \<subseteq> set (is_cache s)"
    using assms by (auto simp: idem_arrive_def Let_def split: if_splits option.splits prod.splits dest!: get_subset)
  show "d = Execute k h \<Longrightarrow> scoped_key q = Some k \<and> h = sha256 H (rq_body q) \<and> jm_get (is_cache s') k = None"
    using assms gone by (auto simp: idem_arrive_def scoped_key_def idem_get_def Let_def split: if_splits option.splits prod.splits)
  show "d = Replay e \<Longrightarrow> \<exists>k. scoped_key q = Some k \<and> (k, e) \<in> set (is_cache s) \<and> ce_bodyHash e = sha256 H (rq_body q)"
    using assms by (auto simp: idem_arrive_def scoped_key_def idem_get_def Let_def dest: map_of_SomeD
        split: if_splits option.splits prod.splits)
qed

lemma origin_step:
  assumes "idem_step H y y'" "idem_origin H y"
  shows "idem_origin H y'"
  using assms
proof cases
  case (arrive now q d s)
  note sub = arrive_cases[OF arrive(2)]
  show ?thesis unfolding idem_origin_def
  proof (intro conjI allI impI)
    fix k e
    assume "(k, e) \<in> set (is_cache (im_store y'))"
    then have "(k, e) \<in> set (is_cache (im_store y))" using sub(1) arrive(1) by auto
    then show "\<exists>q r. (q, r) \<in> set (im_finished y') \<and> scoped_key q = Some k \<and> ce_bodyHash e = sha256 H (rq_body q)
        \<and> replayed e = r \<and> rp_status r < 400"
      using assms(2) arrive(1) unfolding idem_origin_def by simp
  next
    fix p k h
    assume "(p, k, h) \<in> set (im_inflight y')"
    then have "(p, k, h) \<in> set (im_inflight y) \<or> p = q \<and> d = Execute k h"
      using arrive(1) by (auto split: idem_decision.splits)
    then show "scoped_key p = Some k" "h = sha256 H (rq_body p)"
      using assms(2) sub(2) unfolding idem_origin_def by blast+
  qed
next
  case (finish xs q k h ys r now)
  have q: "scoped_key q = Some k" "h = sha256 H (rq_body q)"
    using assms(2) finish(2) unfolding idem_origin_def by auto
  show ?thesis unfolding idem_origin_def
  proof (intro conjI allI impI)
    fix k' e
    assume "(k', e) \<in> set (is_cache (im_store y'))"
    then consider "(k', e) \<in> set (is_cache (im_store y))"
      | "rp_status r < 400" "k' = k" "replayed e = r" "ce_bodyHash e = h"
      using finish(1) idem_set_subset by (fastforce simp: idem_finish_def replayed_def split: if_splits)
    then show "\<exists>q r. (q, r) \<in> set (im_finished y') \<and> scoped_key q = Some k' \<and> ce_bodyHash e = sha256 H (rq_body q)
        \<and> replayed e = r \<and> rp_status r < 400"
    proof cases
      case 1
      then show ?thesis using assms(2) finish(1) unfolding idem_origin_def by fastforce
    next
      case 2
      then show ?thesis using q finish(1) by (intro exI[of _ q] exI[of _ r]) simp
    qed
  next
    fix p k' h'
    assume "(p, k', h') \<in> set (im_inflight y')"
    then have "(p, k', h') \<in> set (im_inflight y)" using finish(1,2) by auto
    then show "scoped_key p = Some k'" "h' = sha256 H (rq_body p)" using assms(2) unfolding idem_origin_def by blast+
  qed
next
  case (sweep now)
  then show ?thesis using assms(2) unfolding idem_origin_def by (auto simp: idem_sweep_def Let_def)
qed

lemma reachable_origin: "idem_reachable H y \<Longrightarrow> idem_origin H y"
proof (induction rule: idem_reachable.induct)
  case (start ttlMs maxEntries maxBodyBytes)
  then show ?case by (simp add: idem_origin_def new_idempotency_store_def)
next
  case (step y y')
  then show ?case by (blast intro: origin_step)
qed

lemma scoped_key_separates:
  assumes "scoped_key p = Some k" "scoped_key q = Some k" "plain_request p" "plain_request q"
  shows "rq_tenantId p = rq_tenantId q \<and> rq_path p = rq_path q \<and> rq_idempotencyKey p = rq_idempotencyKey q"
proof -
  obtain t i where p: "rq_tenantId p = Some t" "rq_idempotencyKey p = Some i" "k = store_key t ''POST'' (rq_path p) i"
    using assms(1) by (auto simp: scoped_key_def split: option.splits if_splits)
  obtain t' i' where q: "rq_tenantId q = Some t'" "rq_idempotencyKey q = Some i'" "k = store_key t' ''POST'' (rq_path q) i'"
    using assms(2) by (auto simp: scoped_key_def split: option.splits if_splits)
  have colon: "CHR '':'' \<notin> set t" "CHR '':'' \<notin> set t'" "CHR '':'' \<notin> set (rq_path p)" "CHR '':'' \<notin> set (rq_path q)"
    using assms(3,4) p q by (simp_all add: plain_request_def)
  have "t @ CHR '':'' # (''POST '' @ rq_path p @ CHR '':'' # i) = t' @ CHR '':'' # (''POST '' @ rq_path q @ CHR '':'' # i')"
    using p(3) q(3) by (simp add: store_key_def)
  then have "t = t'" "rq_path p @ CHR '':'' # i = rq_path q @ CHR '':'' # i'" using colon_split[OF colon(1,2)] by auto
  then show ?thesis using colon_split[OF colon(3,4)] p q by simp
qed

text \<open>However requests interleave, with sweeps and evictions in between, a response that is replayed is the successful
  answer that an executed request got, of the same tenant, path and key and with the same body, or the two
  bodies are a collision: as long as tenants and paths have no colon no response crosses to another tenant or resource.\<close>

theorem replayed_response_is_own:
  assumes "idem_reachable H y" "idem_arrive H (im_store y) now q = (Replay e, s)"
    and "plain_request q" "\<forall>(p, r) \<in> set (im_finished y). plain_request p"
  shows "\<exists>p r. (p, r) \<in> set (im_finished y) \<and> replayed e = r \<and> rp_status r < 400 \<and> rq_tenantId p = rq_tenantId q
    \<and> rq_path p = rq_path q \<and> rq_idempotencyKey p = rq_idempotencyKey q
    \<and> (rq_body p = rq_body q \<or> collision H [utf8 (rq_body p)] [utf8 (rq_body q)])"
proof -
  obtain k where k: "scoped_key q = Some k" "(k, e) \<in> set (is_cache (im_store y))" "ce_bodyHash e = sha256 H (rq_body q)"
    using arrive_cases(3)[OF assms(2) refl] by blast
  obtain p r where p: "(p, r) \<in> set (im_finished y)" "scoped_key p = Some k" "ce_bodyHash e = sha256 H (rq_body p)"
    "replayed e = r" "rp_status r < 400"
    using reachable_origin[OF assms(1)] k(2) unfolding idem_origin_def by blast
  have "plain_request p" using assms(4) p(1) by blast
  note same = scoped_key_separates[OF p(2) k(1) this assms(3)]
  have "sha256 H (rq_body p) = sha256 H (rq_body q)" using k(3) p(3) by simp
  then have "rq_body p = rq_body q \<or> collision H [utf8 (rq_body p)] [utf8 (rq_body q)]"
    using same_text by (metis list.set_intros(1))
  then show ?thesis using p same by blast
qed


subsection \<open>Retries after an answer\<close>

fun serve_all :: "hasher \<Rightarrow> idempotency_store \<Rightarrow> (int \<times> idem_request \<times> idem_response) list \<Rightarrow> idempotency_store" where
  "serve_all H s [] = s"
| "serve_all H s ((now, q, r) # rest) = serve_all H (snd (idem_serve H s now q r)) rest"

text \<open>The store holds an entry with at most \<open>n\<close> more recent ones.\<close>

definition holds :: "idempotency_store \<Rightarrow> string \<Rightarrow> cached_response \<Rightarrow> nat \<Rightarrow> bool" where
  "holds s k e n \<longleftrightarrow> (\<exists>xs ys. is_cache s = xs @ (k, e) # ys \<and> k \<notin> fst ` set xs \<and> k \<notin> fst ` set ys \<and> length ys \<le> n)"

abbreviation same_bounds :: "idempotency_store \<Rightarrow> idempotency_store \<Rightarrow> bool" where
  "same_bounds s s' \<equiv> is_ttlMs s' = is_ttlMs s \<and> is_maxEntries s' = is_maxEntries s \<and> is_maxBodyBytes s' = is_maxBodyBytes s"

lemma evict_keeps:
  "int (length ys) < cap \<Longrightarrow> \<exists>zs. evictIfOverCap cap (xs @ (k, e) # ys) = zs @ (k, e) # ys \<and> set zs \<subseteq> set xs"
proof (induction xs)
  case (Cons x xs)
  show ?case
  proof (cases "cap < int (length ((x # xs) @ (k, e) # ys))")
    case True
    then show ?thesis using Cons by auto
  next
    case False
    then show ?thesis by (intro exI[of _ "x # xs"]) simp
  qed
qed (intro exI[of _ "[]"], simp)

lemma delete_keeps:
  assumes "holds s k e n" "j \<noteq> k"
  shows "holds (s\<lparr>is_cache := AList.delete j (is_cache s)\<rparr>) k e n"
proof -
  obtain xs ys where c: "is_cache s = xs @ (k, e) # ys" "k \<notin> fst ` set xs" "k \<notin> fst ` set ys" "length ys \<le> n"
    using assms(1) unfolding holds_def by blast
  have "AList.delete j (is_cache s) = AList.delete j xs @ (k, e) # AList.delete j ys"
    using assms(2) by (simp add: c(1) AList.delete_eq)
  moreover have "length (AList.delete j ys) \<le> n" using c(4) by (simp add: AList.delete_eq le_trans[OF length_filter_le])
  moreover have "k \<notin> fst ` set (AList.delete j xs)" "k \<notin> fst ` set (AList.delete j ys)"
    using c(2,3) by (auto simp: AList.delete_eq)
  ultimately show ?thesis unfolding holds_def
    by (intro exI[of _ "AList.delete j xs"] exI[of _ "AList.delete j ys"]) simp
qed

lemma set_keeps:
  assumes "holds s k e n" "j \<noteq> k" "int (Suc n) < is_maxEntries s"
  shows "holds (idem_set s j r) k e (Suc n)"
proof (cases "is_maxBodyBytes s < int (length (ce_body r))")
  case True
  then show ?thesis using assms(1) unfolding idem_set_def holds_def by fastforce
next
  case False
  obtain xs ys where c: "AList.delete j (is_cache s) = xs @ (k, e) # ys" "k \<notin> fst ` set xs" "k \<notin> fst ` set ys" "length ys \<le> n"
    using delete_keeps[OF assms(1,2)] unfolding holds_def by auto
  have set: "jm_set (AList.delete j (is_cache s)) j r = xs @ (k, e) # (ys @ [(j, r)])"
    using deleted_key[of j "is_cache s"] c(1) by (simp add: jm_set_new)
  obtain zs where "evictIfOverCap (is_maxEntries s) (xs @ (k, e) # (ys @ [(j, r)])) = zs @ (k, e) # (ys @ [(j, r)])" "set zs \<subseteq> set xs"
    using evict_keeps[of "ys @ [(j, r)]" "is_maxEntries s" xs k e] c(4) assms(3) by force
  then show ?thesis using False c assms(2) unfolding holds_def idem_set_def set
    by (intro exI[of _ zs] exI[of _ "ys @ [(j, r)]"]) auto
qed

lemma arrive_keeps:
  assumes "idem_arrive H s now p = (d, s')" "holds s k e n" "scoped_key p \<noteq> Some k"
  shows "holds s' k e n \<and> same_bounds s s'"
proof -
  have "s' = s \<or> (\<exists>j. scoped_key p = Some j \<and> s' = s\<lparr>is_cache := AList.delete j (is_cache s)\<rparr>)"
    using assms(1) by (auto simp: idem_arrive_def scoped_key_def idem_get_def Let_def split: if_splits option.splits prod.splits)
  then show ?thesis using assms(2,3) delete_keeps[OF assms(2)] by auto
qed

lemma serve_keeps:
  assumes "holds s k e n" "scoped_key p \<noteq> Some k" "int (Suc n) < is_maxEntries s"
  shows "holds (snd (idem_serve H s now p r)) k e (Suc n) \<and> same_bounds s (snd (idem_serve H s now p r))"
proof -
  obtain d s' where a: "idem_arrive H s now p = (d, s')" by (rule prod.exhaust)
  note kept = arrive_keeps[OF a assms(1,2)]
  have more: "holds s' k e (Suc n)" using kept unfolding holds_def by (meson le_SucI)
  show ?thesis
  proof (cases d)
    case (Execute j h)
    then have "j \<noteq> k" using arrive_cases(2)[OF a, of j h] assms(2) by auto
    then have "holds (idem_finish s' now j h r) k e (Suc n)"
      using set_keeps[of s' k e n j] kept more assms(3) by (simp add: idem_finish_def)
    moreover have "same_bounds s' (idem_finish s' now j h r)" by (simp add: idem_finish_def idem_set_def)
    ultimately show ?thesis using a Execute kept by (simp add: idem_serve_def)
  qed (use a kept more in \<open>simp_all add: idem_serve_def\<close>)
qed

lemma serve_all_keeps:
  assumes "holds s k e n" "\<forall>(t, p, r) \<in> set rest. scoped_key p \<noteq> Some k" "int (n + length rest) < is_maxEntries s"
  shows "holds (serve_all H s rest) k e (n + length rest) \<and> same_bounds s (serve_all H s rest)"
  using assms
proof (induction rest arbitrary: s n)
  case (Cons x rest)
  obtain t p r where x: "x = (t, p, r)" by (rule prod_cases3)
  have "holds (snd (idem_serve H s t p r)) k e (Suc n) \<and> same_bounds s (snd (idem_serve H s t p r))"
    by (rule serve_keeps) (use Cons.prems x in auto)
  then show ?case using Cons.IH[of "snd (idem_serve H s t p r)" "Suc n"] Cons.prems x by simp
qed simp

lemma held_get: "holds s k e n \<Longrightarrow> jm_get (is_cache s) k = Some e"
  unfolding holds_def by (elim exE conjE) (simp add: map_add_def map_of_eq_None_iff [symmetric] del: set_map)

text \<open>A request that is sent again with its key and body, after it was answered successfully and before the answer
  expires, gets that answer and its handler does not run again, whatever fewer than the cap's number of other
  requests came in between.\<close>

theorem retry_gets_first_answer:
  assumes "idem_serve H s now q r = (Answered r, s1)" "scoped_key q = Some k" "rp_status r < 400"
    and "int (length (rp_body r)) \<le> is_maxBodyBytes s" "\<forall>(t, p, r) \<in> set others. scoped_key p \<noteq> Some k"
    and "int (length others) < is_maxEntries s" "later - now \<le> is_ttlMs s"
    and "scoped_key q' = Some k" "rq_body q' = rq_body q"
  shows "fst (idem_serve H (serve_all H s1 others) later q' r') = Replayed r"
proof -
  obtain d s0 where a: "idem_arrive H s now q = (d, s0)" by (rule prod.exhaust)
  have bounds: "same_bounds s s0"
    using a by (auto simp: idem_arrive_def idem_get_def Let_def split: if_splits option.splits prod.splits)
  have "d \<noteq> Uncached"
    using a assms(2) by (auto simp: idem_arrive_def scoped_key_def Let_def split: if_splits option.splits prod.splits)
  then obtain j h where d: "d = Execute j h" using assms(1) a by (cases d) (auto simp: idem_serve_def)
  have jh: "j = k" "h = sha256 H (rq_body q)" "jm_get (is_cache s0) k = None"
    using arrive_cases(2)[OF a d] assms(2) by auto
  let ?e = "\<lparr>ce_status = rp_status r, ce_body = rp_body r, ce_headers = rp_headers r, ce_cachedAt = now, ce_bodyHash = h\<rparr>"
  have s1: "s1 = s0\<lparr>is_cache := evictIfOverCap (is_maxEntries s0) (is_cache s0 @ [(k, ?e)])\<rparr>"
    using assms(1,3,4) a d jh bounds
    by (simp add: idem_serve_def idem_finish_def idem_set_def AList.delete_id jm_set_new jm_has_def map_of_eq_None_iff)
  obtain zs where zs: "evictIfOverCap (is_maxEntries s0) (is_cache s0 @ [(k, ?e)]) = zs @ [(k, ?e)]" "set zs \<subseteq> set (is_cache s0)"
    using evict_keeps[of "[]" "is_maxEntries s0" "is_cache s0" k ?e] assms(6) bounds by auto
  have "k \<notin> fst ` set zs" using zs(2) jh(3) by (auto simp: map_of_eq_None_iff)
  then have held: "holds s1 k ?e 0" unfolding holds_def s1 by (intro exI[of _ zs] exI[of _ "[]"]) (simp add: zs(1))
  have same: "same_bounds s s1" using bounds by (simp add: s1)
  let ?s = "serve_all H s1 others"
  have kept: "holds ?s k ?e (length others) \<and> same_bounds s1 ?s"
    using serve_all_keeps[OF held assms(5)] assms(6) same by simp
  then have got: "idem_get ?s later k = (Some ?e, ?s)"
    using held_get[of ?s k ?e] same assms(7) by (auto simp: idem_get_def expired_def)
  have "idem_arrive H ?s later q' = (Replay ?e, ?s)"
    using assms(8,9) got jh(2) by (auto simp: idem_arrive_def scoped_key_def Let_def split: option.splits if_splits)
  then show ?thesis by (simp add: idem_serve_def replayed_def)
qed


text \<open>A retry that arrives while the handler of the first request still runs finds nothing in the cache and is executed
  too, also with another body: until \<open>idem_finish\<close> the store is as if the first request had not come.\<close>

theorem overlapping_retry_executes:
  assumes "idem_arrive H s now q = (Execute k h, s')" "scoped_key q' = Some k"
  shows "idem_arrive H s' later q' = (Execute k (sha256 H (rq_body q')), s')"
  using arrive_cases(2)[OF assms(1) refl] assms(2)
  by (auto simp: idem_arrive_def scoped_key_def idem_get_def Let_def split: option.splits if_splits)

text \<open>With a colon in the path two resources of one tenant can share an entry: the second request is answered with the
  response of the first one.\<close>

definition sample_post :: "string \<Rightarrow> string \<Rightarrow> idem_request" where
  "sample_post path key = \<lparr>rq_method = ''POST'', rq_path = path, rq_idempotencyKey = Some key, rq_tenantId = Some ''acme'', rq_body = []\<rparr>"

definition sample_ok :: idem_response where
  "sample_ok = \<lparr>rp_status = 200, rp_body = ''done'', rp_headers = []\<rparr>"

theorem path_and_key_collide:
  "(let s = snd (idem_serve (\<lambda>_. ''00'') (new_idempotency_store None None None) 0 (sample_post ''/intents/a:b'' ''c'') sample_ok)
    in fst (idem_serve (\<lambda>_. ''00'') s 1 (sample_post ''/intents/a'' ''b:c'') \<lparr>rp_status = 201, rp_body = [], rp_headers = []\<rparr>))
   = Replayed sample_ok"
  by code_simp

subsection \<open>Witnesses\<close>

lemma sample_scoped: "scoped_key (sample_post ''/p'' ''k'') = Some ''acme:POST /p:k''"
  by (simp add: scoped_key_def sample_post_def store_key_def)

lemma sample_arrival:
  "idem_arrive H (new_idempotency_store None None None) 0 (sample_post ''/p'' ''k'') =
     (Execute ''acme:POST /p:k'' (sha256 H []), new_idempotency_store None None None)"
  by (simp add: idem_arrive_def sample_post_def store_key_def idem_get_def new_idempotency_store_def)

lemma sample_serve:
  "fst (idem_serve H (new_idempotency_store None None None) 0 (sample_post ''/p'' ''k'') sample_ok) = Answered sample_ok"
  by (simp add: idem_serve_def sample_arrival)

theorem overlapping_retry_executes_witness:
  "idem_arrive sample_hash (new_idempotency_store None None None) 5 (sample_post ''/p'' ''k'' \<lparr>rq_body := ''x''\<rparr>) =
     (Execute ''acme:POST /p:k'' (sha256 sample_hash ''x''), new_idempotency_store None None None)"
proof -
  have "scoped_key (sample_post ''/p'' ''k'' \<lparr>rq_body := ''x''\<rparr>) = Some ''acme:POST /p:k''"
    by (simp add: scoped_key_def sample_post_def store_key_def)
  from overlapping_retry_executes[OF sample_arrival this, of sample_hash 5] show ?thesis by simp
qed

theorem retry_gets_first_answer_witness:
  "fst (idem_serve sample_hash (serve_all sample_hash (snd (idem_serve sample_hash (new_idempotency_store None None None) 0 (sample_post ''/p'' ''k'') sample_ok))
     [(3, sample_post ''/q'' ''k'', sample_ok)]) 10 (sample_post ''/p'' ''k'') \<lparr>rp_status = 500, rp_body = [], rp_headers = []\<rparr>)
   = Replayed sample_ok"
proof (rule retry_gets_first_answer)
  show "idem_serve sample_hash (new_idempotency_store None None None) 0 (sample_post ''/p'' ''k'') sample_ok =
      (Answered sample_ok, snd (idem_serve sample_hash (new_idempotency_store None None None) 0 (sample_post ''/p'' ''k'') sample_ok))"
    using sample_serve by (simp add: prod_eq_iff)
  show "\<forall>(t, p, r) \<in> set [(3, sample_post ''/q'' ''k'', sample_ok)]. scoped_key p \<noteq> Some ''acme:POST /p:k''"
    by (simp add: scoped_key_def sample_post_def store_key_def)
qed (simp_all add: sample_scoped sample_ok_def new_idempotency_store_def DEFAULT_MAX_ENTRIES_def DEFAULT_MAX_BODY_BYTES_def)

definition sample_system :: "hasher \<Rightarrow> idem_system" where
  "sample_system H = \<lparr>im_store = idem_finish (new_idempotency_store None None None) 3 ''acme:POST /p:k'' (sha256 H []) sample_ok,
     im_inflight = [], im_finished = [(sample_post ''/p'' ''k'', sample_ok)]\<rparr>"

lemma sample_system_reachable: "idem_reachable H (sample_system H)"
proof -
  let ?s = "new_idempotency_store None None None" and ?q = "sample_post ''/p'' ''k''"
  let ?y0 = "\<lparr>im_store = ?s, im_inflight = [], im_finished = []\<rparr>"
  let ?y1 = "\<lparr>im_store = ?s, im_inflight = [(?q, ''acme:POST /p:k'', sha256 H [])], im_finished = []\<rparr>"
  have "idem_step H ?y0 ?y1"
    using idem_step.arrive[of H ?y0 0 ?q "Execute ''acme:POST /p:k'' (sha256 H [])" ?s] sample_arrival by simp
  moreover have "idem_step H ?y1 (sample_system H)"
    using idem_step.finish[of ?y1 "[]" ?q "''acme:POST /p:k''" "sha256 H []" "[]" H sample_ok 3] by (simp add: sample_system_def)
  ultimately show ?thesis by (blast intro: idem_reachable.intros)
qed

theorem replayed_response_is_own_witness:
  "\<exists>p r. (p, r) \<in> {(sample_post ''/p'' ''k'', sample_ok)} \<and> rq_tenantId p = Some ''acme''"
proof -
  let ?e = "\<lparr>ce_status = 200, ce_body = ''done'', ce_headers = [], ce_cachedAt = 3, ce_bodyHash = sha256 sample_hash []\<rparr>"
  have "idem_arrive sample_hash (im_store (sample_system sample_hash)) 4 (sample_post ''/p'' ''k'') =
      (Replay ?e, im_store (sample_system sample_hash))"
    by (simp add: sample_system_def idem_arrive_def sample_post_def store_key_def idem_get_def expired_def idem_finish_def idem_set_def
        sample_ok_def new_idempotency_store_def DEFAULT_MAX_ENTRIES_def DEFAULT_MAX_BODY_BYTES_def Let_def)
  from replayed_response_is_own[OF sample_system_reachable this] show ?thesis
    by (simp add: plain_request_def sample_post_def sample_system_def)
qed

end
