(* ===== verification/Spec2Isabelle.thy ===== *)
theory Spec2Isabelle
  imports Treasury Intents Attestation SharedLog Snapshots Witness Persistence Reconciler Verify MultiChain Governance Serializer RegistryDriven Idempotency
begin

section \<open>A verification library for Attestia\<close>

text \<open>
  Attestia is a TypeScript monorepo of packages for financial records that can be checked by others:
  a double-entry ledger, a vault with envelope budgets and intents, a treasury that pays
  through the ledger, event stores chained by hashes in memory and on files, Merkle proofs of attestations,
  the submission of attestations to a public chain by one or several signers, and Registrum,
  a registrar that admits state transitions under a constitution. This library translates their
  core logic to HOL definitions, one theory per component, and proves what makes each correct.

  \<^bold>\<open>Theories and sources\<close> (paths under \<^verbatim>\<open>src/packages\<close>)
  \<^item> \<open>Prelude\<close>: error codes of the packages, results and loops of code that may throw, the
    insertion-ordered \<^verbatim>\<open>Map\<close> of JavaScript.
  \<^item> \<open>MoneyMath\<close> (\<^verbatim>\<open>ledger/src/money-math.ts\<close>): decimal strings to scaled integers and
    back; \<open>Accounts\<close> (\<^verbatim>\<open>accounts.ts\<close>): the chart of accounts; \<open>Balances\<close>
    (\<^verbatim>\<open>balance-calculator.ts\<close>): balances and the trial balance; \<open>Ledger\<close>
    (\<^verbatim>\<open>ledger.ts\<close>): the append-only ledger.
  \<^item> \<open>Budget\<close> (\<^verbatim>\<open>vault/src/budget.ts\<close>), \<open>Intents\<close> (\<^verbatim>\<open>intent-manager.ts\<close> and the
    budget, intent and snapshot methods of \<^verbatim>\<open>vault.ts\<close>).
  \<^item> \<open>Funding\<close>, \<open>Payroll\<close>, \<open>Distribution\<close> (the files of the same names in
    \<^verbatim>\<open>treasury/src\<close>) and their coordinator \<open>Treasury\<close> (\<^verbatim>\<open>treasury.ts\<close>).
  \<^item> \<open>Digest\<close>, \<open>Merkle\<close>, \<open>Attestation\<close> (\<^verbatim>\<open>proof/src\<close>): SHA-256 inputs, trees and
    inclusion proofs, proof packages.
  \<^item> \<open>EventStore\<close> (\<^verbatim>\<open>event-store/src/hash-chain.ts\<close>, \<^verbatim>\<open>in-memory-store.ts\<close>);
    \<open>Json\<close>: printing and parsing JSON, as the code uses the built-in functions; \<open>JsonlStore\<close>
    (\<^verbatim>\<open>jsonl-store.ts\<close>): the durable store over a file; \<open>Lockfile\<close> (its lock) and \<open>SharedLog\<close>
    (several processes that append to one file under the lock); \<open>Snapshots\<close>
    (\<^verbatim>\<open>snapshot-store.ts\<close>).
  \<^item> \<open>Predicates\<close>, \<open>Constitution\<close>, \<open>Invariants\<close>, \<open>Registrar\<close>
    (\<^verbatim>\<open>registrum/src/registry/predicate\<close>, \<^verbatim>\<open>registry/loader.ts\<close>,
    \<^verbatim>\<open>invariants.ts\<close>, \<^verbatim>\<open>violation-detail.ts\<close>,
    \<^verbatim>\<open>structural-registrar.ts\<close>); \<open>Persistence\<close> and \<open>Serializer\<close>
    (\<^verbatim>\<open>registrum/src/persistence\<close>): snapshots, rehydration, replay, canonical texts and checksums;
    \<open>RegistryDriven\<close> (\<^verbatim>\<open>registry/registry-driven-registrar.ts\<close>).
  \<^item> \<open>CrossChain\<close>, \<open>Matchers\<close>, \<open>Reconciler\<close> (\<^verbatim>\<open>reconciler/src\<close>): deduplication of chain
    events, the three matchers, the reconciliation report and its attestation.
  \<^item> \<open>Verify\<close>, \<open>Consensus\<close>, \<open>ChainInvariants\<close>, \<open>MultiChain\<close> (\<^verbatim>\<open>verify/src\<close>): state
    bundles and their verification by replay, the consensus of verifiers, invariants over events of
    several chains and the audit of their hash chains.
  \<^item> \<open>Governance\<close> (\<^verbatim>\<open>witness/src/governance\<close>): the event-sourced signer policy, aggregation of
    verified signatures and validation of past quorums; \<open>Memo\<close> and \<open>Witness\<close>
    (\<^verbatim>\<open>witness/src/payload.ts\<close>, \<^verbatim>\<open>memo-encoder.ts\<close>, \<^verbatim>\<open>verifier.ts\<close>,
    \<^verbatim>\<open>retry.ts\<close>, \<^verbatim>\<open>submitter.ts\<close>, \<^verbatim>\<open>governance/multisig-submitter.ts\<close>):
    attestation payloads and memos, their submission with retries, and their verification.
  \<^item> \<open>RateLimit\<close> and \<open>Idempotency\<close> (\<^verbatim>\<open>node/src/middleware\<close>): token buckets and the cache of
    answered requests in front of the service.

  \<^bold>\<open>How the parts interact.\<close> The ledger parses every amount with \<open>MoneyMath\<close>, checks accounts
  and sums debits and credits per currency. The three engines of the treasury see the ledger only
  through registering accounts and appending batches; that interface is the locale \<open>ledger_port\<close>
  of theory \<open>Ledger\<close>, interpreted on the ledger's own operations, and the engines' proofs use its
  facts. The intent manager spends from and reverses to the budget engine. An attestation is hashed,
  put into a Merkle tree with others and packaged with an inclusion proof. The registrar evaluates
  the eleven invariants of the constitution by two engines (predicates in TypeScript, and trees
  parsed from a registry); what it needs of an engine is the locale \<open>registration_engine\<close> of
  theory \<open>Registrar\<close>, interpreted on both. The reconciler compares intents, ledger entries and chain
  events and registers its report as a transition of the registrar. A state bundle holds the snapshots
  of a ledger and a registrar; a verifier node restores both, takes their snapshots again and compares
  hashes, and the consensus counts its report as a vote. The durable store keeps the in-memory store of its records
  and writes each batch to the file before it commits to it, under the lock; a witness submits the hash of a
  reconciliation report in a memo, signed by one key or by a quorum of the governance store's policy.

  \<^bold>\<open>Conventions.\<close> A class is a record of its fields; a method is a definition of its name that
  returns its result and the state after it, also when it throws (\<open>fault\<close> or an error type of the
  theory, on the left of a sum). A clock reading is an argument \<open>now\<close>; identifiers that
  the code generates are arguments too. Amounts are decimal strings as in the code and BigInt is
  \<open>int\<close>; numbers used as counts, indices, versions and decimals are \<open>int\<close> too: the model is that of
  the code as long as they stay below \<open>2 ^ 53\<close>, where doubles are exact and print without an exponent; rates,
  delays and tokens are \<open>rat\<close>. Strings are lists of 8-bit code
  units. A \<^verbatim>\<open>Map\<close> is an association list in insertion order. Messages of errors and
  telemetry are left out, except the messages of invariant violations, which the code inspects.
  Code of third-party packages is a parameter: the hash function \<open>H\<close> (SHA-256, of which the
  theorems use that a digest is 64 hexadecimal digits) and canonical JSON \<open>canon\<close>
  (of which they use that an object's text ends with a closing brace). Canonical JSON is total, so payloads are
  values that it accepts; a payload with a BigInt or a cycle would make \<^verbatim>\<open>append\<close> of the store in memory
  throw after it has taken a position. Nothing assumes that hashes
  do not collide: the theorems say that a violation would exhibit a collision among listed inputs
  (definition \<open>collision\<close>).

  \<^bold>\<open>What is shown.\<close>
  \<^item> Money and ledger: parsing accepts exactly the documented amounts and inverts formatting; a batch
    is appended exactly when it is acceptable and else nothing changes; in every reachable ledger
    debits and credits agree per currency and transaction; balances and the trial balance are the
    sums of the entries; snapshots restore.
  \<^item> Vault: the budget engine refines an abstract map of allocated and spent amounts; what an
    envelope has spent is exactly the sum of its executed intents, in every reachable
    vault; statuses move only forward along the documented machine.
  \<^item> Treasury: no request is approved without two different gatekeepers, neither the requester;
    payouts never exceed the pool and conserve it up to the documented dust; the ledger of every
    reachable treasury holds exactly the entries of its executed runs, plans and requests.
  \<^item> Proofs and events: proofs of a built tree verify, a verifying proof is of a leaf
    of the tree, the root binds the leaves; every reachable store passes its integrity check, the
    check accepts exactly chains, and the last hash commits to the whole history.
  \<^item> Files: the durable store refines the one in memory; whatever a crash cuts off, the file opens with the old history
    and a prefix of the new events; the lock excludes when no process ends or only two use the store, and then no
    interleaving of the steps of several appends forks the history (without that condition a reachable
    run has two holders, \<open>stale_break_breaks_exclusion\<close>); acquiring the lock ends; the file store of snapshots answers
    like the one in memory, with failed saves and auto-pruning.
  \<^item> Registrum: the parser accepts exactly the grammar of its documentation; a registry loads as a
    whole and what has loaded always evaluates to a boolean; registration admits exactly what the
    constitution allows, the history is append-only with exact lineage, over restarts from snapshots too, and the two
    engines agree except on one kind of transition; the snapshot of a reachable registrar rehydrates to the same
    registrar, and a recorded run replays; the registry-driven registrar refines the structural one.
  \<^item> Reconciliation: a report is clean exactly when the three sources agree in what the matchers compare
    (the first event of a currency per transaction); deduplication removes exactly
    the events whose originals are kept; every report can be attested.
  \<^item> Verification: exported bundles verify, equal bundle hashes mean equal content, a consensus of honest
    verifiers means a verified bundle; the checks of chain events decide the invariants they name.
  \<^item> Governance: a quorum stays achievable under the operations, also in stores restored from recorded histories, only
    verified signatures of distinct signers count, and a past quorum is judged as it was.
  \<^item> Witness: one attestation leads to one signed transaction however often it is retried, nothing is submitted
    without a verified quorum, and a submitted record verifies.
  \<^item> Middleware: token buckets refine an abstract limiter and bound what a principal is granted; a replayed response is
    the answer to an executed request with the same key and body.
  \<^item> Behaviour that departs from what the code documents (replay of a ledger with interleaved correlation
    ids, verification of a registrar in registry mode, chain hashes that nothing binds, a consensus that
    depends on the order of reports, negative quorums and histories that pass unchecked, a second transfer that goes
    unnoticed, a stale lock broken while it is live) is stated by theorems beside the others.

  \<^bold>\<open>Bounds and termination.\<close> Fuel is used once: the JSON parser \<open>JSON_parse\<close> takes
  \<open>json_fuel\<close>, twice the length of the text and one more, and any more fuel gives the same value (lemma
  \<open>json_fuel_irrelevant\<close>), since within two calls a character is consumed. Loops whose recursion is not structural are functions
  with a termination proof: the levels of a Merkle tree by their length, the lexer and the parser by
  the length of the remaining input (the parser's proof first shows that every successful
  call consumes a token), the walk of a lineage by the number of versions not visited, the retries of a submission by
  the attempts left, and acquiring the lock by the rounds until its deadline (at most 1002 attempts).

  \<^bold>\<open>Reachable states.\<close> Invariants are proved by rule induction over the inductive predicates
  \<open>ledger_reachable\<close>, \<open>vault_reachable\<close>, \<open>funding_reachable\<close>, \<open>distribution_reachable\<close>,
  \<open>treasury_reachable\<close>, \<open>store_reachable\<close>, \<open>registrar_reachable\<close> (registrars of the constructor) and
  \<open>registrar_lifecycle\<close> (with restores from their snapshots), \<open>governance_reachable\<close> and
  \<open>governance_lifecycle\<close> (with replays of recorded histories), \<open>system_reachable\<close> (durable stores whose appends come one
  at a time), \<open>lock_reachable\<close> and \<open>shared_reachable\<close> (the steps of all processes on the lock and on the file)
  and \<open>idem_reachable\<close>, whose steps are all operations of the component, with failing calls included.
  Not among them are loads of data that no run recorded: snapshots and histories made up by hand.

  \<^bold>\<open>Parameters.\<close> Beside \<open>H\<close> and \<open>canon\<close>: the record \<open>canonicalizer\<close> of theory \<open>Verify\<close> has one
  canonical text per type of hashed value (injective where a theorem says \<open>canonical\<close>); \<open>collate\<close> maps a
  string to its key under \<^verbatim>\<open>localeCompare\<close>; \<open>derive\<close> derives an address from a public key; a
  signature verifier is a function argument, as in the code; the client of the chain is a record of functions on a
  state of the network, which may answer, fail or hang. The file system is the text of a file or a directory
  of texts, whose writes may fail or be cut off.

  \<^bold>\<open>Not modelled.\<close> Compliance reports and the event catalog are tables and texts. The chain
  observers, the portfolio, the routes of the HTTP service and the SDK are clients of networks and third-party
  frameworks and have no model; nor have the signature schemes and the connection to the XRP ledger.
\<close>

end
